(* ===== verification/Prelude.thy ===== *)
theory Prelude
  imports Main "HOL-Library.Word"
begin

text \<open>
  Shared vocabulary of the development: the machine integers of the source, the outcome of a
  call (a returned value, a panic, undefined behaviour of an unsafe block, a spin loop that
  never ends), the fallible reservations of the allocator, the operations of \<open>Vec\<close> the source
  uses, and the generic lemmas on lists and words that the component theories share.
\<close>

unbundle bit_operations_syntax

section \<open>Machine integers\<close>

text \<open>
  Fixed-width integers of the source are words. A \<open>usize\<close> that counts elements of a \<open>Vec\<close> is a
  \<open>nat\<close> (a \<open>Vec\<close> never holds more than \<open>isize::MAX\<close> elements) with the 64-bit limit written out
  wherever the source uses checked or saturating arithmetic; a \<open>usize\<close> that wraps is a \<open>u64\<close>.
\<close>

type_synonym u8 = "8 word"
type_synonym u16 = "16 word"
type_synonym u32 = "32 word"
type_synonym u64 = "64 word"
type_synonym i64 = "64 word"

definition usize_max :: nat where
  "usize_max = 2 ^ 64 - 1"

definition u32_max :: nat where
  "u32_max = 2 ^ 32 - 1"

definition sat_add :: "nat \<Rightarrow> nat \<Rightarrow> nat" where
  "sat_add a b = min (a + b) usize_max"

definition checked_add :: "nat \<Rightarrow> nat \<Rightarrow> nat option" where
  "checked_add a b = (if a + b \<le> usize_max then Some (a + b) else None)"

definition checked_mul :: "nat \<Rightarrow> nat \<Rightarrow> nat option" where
  "checked_mul a b = (if a * b \<le> usize_max then Some (a * b) else None)"

definition wchecked_add :: "'a::len word \<Rightarrow> 'a word \<Rightarrow> 'a word option" where
  "wchecked_add a b = (if unat a + unat b < 2 ^ LENGTH('a) then Some (a + b) else None)"

definition wsat_add :: "'a::len word \<Rightarrow> 'a word \<Rightarrow> 'a word" where
  "wsat_add a b = (if unat a + unat b < 2 ^ LENGTH('a) then a + b else - 1)"

definition wsat_sub :: "'a::len word \<Rightarrow> 'a word \<Rightarrow> 'a word" where
  "wsat_sub a b = (if a < b then 0 else a - b)"

definition wsat_mul :: "'a::len word \<Rightarrow> 'a word \<Rightarrow> 'a word" where
  "wsat_mul a b = (if unat a * unat b < 2 ^ LENGTH('a) then a * b else - 1)"

section \<open>Outcomes of a call\<close>

text \<open>
  \<open>Ret\<close> is a normal return, \<open>Panic\<close> a Rust panic (index out of range, \<open>expect\<close> on an error,
  a failed assertion), \<open>UB\<close> an unsafe access whose safety condition does not hold (reading an
  uninitialised slot, an unchecked index out of range), \<open>Diverges\<close> a spin loop that never ends.
  A \<open>Result\<close> is the sum \<open>'e + 'a\<close> with \<open>Inl\<close> for \<open>Err\<close>.
\<close>

datatype 'a run = Ret 'a | Panic | UB | Diverges

fun run_bind :: "'a run \<Rightarrow> ('a \<Rightarrow> 'b run) \<Rightarrow> 'b run" where
  "run_bind (Ret x) f = f x"
| "run_bind Panic f = Panic"
| "run_bind UB f = UB"
| "run_bind Diverges f = Diverges"

lemma run_bind_Ret_iff:
  "run_bind m f = Ret y \<longleftrightarrow> (\<exists>x. m = Ret x \<and> f x = Ret y)"
  by (cases m) auto

lemma run_bind_Ret_right [simp]: "run_bind m Ret = m"
  by (cases m) auto

lemma run_bind_assoc: "run_bind (run_bind m f) g = run_bind m (\<lambda>x. run_bind (f x) g)"
  by (cases m) auto

text \<open>A \<open>for\<close> loop whose body may fail to return.\<close>

fun run_fold :: "('x \<Rightarrow> 's \<Rightarrow> 's run) \<Rightarrow> 'x list \<Rightarrow> 's \<Rightarrow> 's run" where
  "run_fold f [] s = Ret s"
| "run_fold f (x # xs) s = run_bind (f x s) (run_fold f xs)"

lemma run_fold_append: "run_fold f (xs @ ys) s = run_bind (run_fold f xs s) (run_fold f ys)"
proof (induction xs arbitrary: s)
  case (Cons x xs)
  then have "run_fold f (xs @ ys) = (\<lambda>s. run_bind (run_fold f xs s) (run_fold f ys))" by blast
  then show ?case by (simp add: run_bind_assoc)
qed simp

text \<open>A loop whose body keeps an invariant and refines a step of an abstract loop.\<close>

lemma run_fold_refines:
  assumes "\<And>x s. x \<in> set xs \<Longrightarrow> I s \<Longrightarrow> \<exists>s'. f x s = Ret s' \<and> I s' \<and> view s' = g x (view s)"
    and "I s"
  shows "\<exists>s'. run_fold f xs s = Ret s' \<and> I s' \<and> view s' = fold g xs (view s)"
  using assms
proof (induction xs arbitrary: s)
  case (Cons x xs)
  from Cons.prems obtain s1 where "f x s = Ret s1" "I s1" "view s1 = g x (view s)"
    by (meson list.set_intros(1))
  moreover from Cons.prems(1) this(2) obtain s2
    where "run_fold f xs s1 = Ret s2" "I s2" "view s2 = fold g xs (view s1)"
    using Cons.IH by (meson list.set_intros(2))
  ultimately show ?case by auto
qed auto

text \<open>
  \<open>try_reserve\<close> can fail at run time. An operation that reserves memory takes the allocator's
  answers as an argument: \<open>al k\<close> says whether its \<open>k\<close>-th reservation succeeds. Every theorem
  holds for all answers unless it says otherwise.
\<close>

type_synonym alloc = "nat \<Rightarrow> bool"

section \<open>Signed integers\<close>

text \<open>\<open>i64\<close> is a word read by \<open>sint\<close>; \<open>saturating_add\<close> and its companions clamp the exact result.\<close>

definition i64_sat :: "int \<Rightarrow> i64" where
  "i64_sat x = word_of_int (max (- (2 ^ 63)) (min (2 ^ 63 - 1) x))"

definition sat_add_i64 :: "i64 \<Rightarrow> i64 \<Rightarrow> i64" where
  "sat_add_i64 a b = i64_sat (sint a + sint b)"

definition sat_sub_i64 :: "i64 \<Rightarrow> i64 \<Rightarrow> i64" where
  "sat_sub_i64 a b = i64_sat (sint a - sint b)"

definition sat_mul_i64 :: "i64 \<Rightarrow> i64 \<Rightarrow> i64" where
  "sat_mul_i64 a b = i64_sat (sint a * sint b)"

lemma sint_i64_sat: "sint (i64_sat x) = max (- (2 ^ 63)) (min (2 ^ 63 - 1) x)"
proof -
  let ?y = "max (- (2 ^ 63)) (min (2 ^ 63 - 1) x)"
  have "signed_take_bit 63 ?y = ?y" by (rule signed_take_bit_int_eq_self) auto
  then show ?thesis unfolding i64_sat_def by (simp add: sint_sbintrunc')
qed

lemma sint_i64_bounds: "- (2 ^ 63) \<le> sint (w :: i64) \<and> sint w < 2 ^ 63"
  using sint_ge [of w] sint_lt [of w] by simp

section \<open>Vectors\<close>

definition vec_pop :: "'a list \<Rightarrow> ('a \<times> 'a list) option" where
  "vec_pop xs = (if xs = [] then None else Some (last xs, butlast xs))"

definition vec_resize :: "nat \<Rightarrow> 'a \<Rightarrow> 'a list \<Rightarrow> 'a list" where
  "vec_resize n x xs = take n xs @ replicate (n - length xs) x"

definition vec_get :: "'a list \<Rightarrow> nat \<Rightarrow> 'a option" where
  "vec_get xs i = (if i < length xs then Some (xs ! i) else None)"

text \<open>
  \<open>out[pos..pos + src.len()].copy_from_slice(src)\<close>: a panic when the range leaves the slice.
\<close>

definition vec_write :: "nat \<Rightarrow> 'a list \<Rightarrow> 'a list \<Rightarrow> 'a list run" where
  "vec_write pos src out =
     (if pos + length src \<le> length out then Ret (take pos out @ src @ drop (pos + length src) out) else Panic)"

text \<open>\<open>iter().position(p)\<close>: the index of the first element that satisfies the predicate.\<close>

fun position :: "('a \<Rightarrow> bool) \<Rightarrow> 'a list \<Rightarrow> nat option" where
  "position p [] = None"
| "position p (x # xs) = (if p x then Some 0 else map_option Suc (position p xs))"

lemma vec_pop_Nil [simp]: "vec_pop [] = None"
  by (simp add: vec_pop_def)

lemma vec_pop_None [simp]: "vec_pop xs = None \<longleftrightarrow> xs = []"
  by (simp add: vec_pop_def)

lemma vec_pop_Some: "vec_pop xs = Some (x, ys) \<longleftrightarrow> xs = ys @ [x]"
  by (auto simp: vec_pop_def)

lemma vec_pop_snoc [simp]: "vec_pop (xs @ [x]) = Some (x, xs)"
  by (simp add: vec_pop_def)

lemma length_vec_resize [simp]: "length (vec_resize n x xs) = n"
  by (simp add: vec_resize_def)

lemma nth_vec_resize:
  "i < n \<Longrightarrow> vec_resize n x xs ! i = (if i < length xs then xs ! i else x)"
  by (auto simp: vec_resize_def nth_append)

lemma take_vec_resize: "take (length xs) (vec_resize n x xs) = take n xs"
  by (cases "n \<le> length xs") (simp_all add: vec_resize_def min_def)

lemma vec_get_Some: "vec_get xs i = Some x \<longleftrightarrow> i < length xs \<and> xs ! i = x"
  by (auto simp: vec_get_def)

lemma vec_get_None: "vec_get xs i = None \<longleftrightarrow> length xs \<le> i"
  by (auto simp: vec_get_def)

lemma position_Some:
  "position p xs = Some i \<longleftrightarrow> i < length xs \<and> p (xs ! i) \<and> (\<forall>j<i. \<not> p (xs ! j))"
proof (induction xs arbitrary: i)
  case Nil
  then show ?case by simp
next
  case (Cons x xs)
  show ?case
    by (cases i) (auto simp: Cons.IH less_Suc_eq_0_disj nth_Cons' split: if_splits)
qed

lemma position_None: "position p xs = None \<longleftrightarrow> (\<forall>x\<in>set xs. \<not> p x)"
  by (induction xs) auto

lemma vec_write_append:
  "length a = pos \<Longrightarrow> length src = length b \<Longrightarrow> vec_write pos src (a @ b @ c) = Ret (a @ src @ c)"
  by (simp add: vec_write_def)

text \<open>Records of one width, written one after the other from the front, replace a prefix.\<close>

lemma write_records:
  assumes "\<And>i x out. x \<in> set xs \<Longrightarrow> base + w * i + w \<le> length out \<Longrightarrow> f (i, x) out = vec_write (base + w * i) (enc x) out"
    and "\<And>x. x \<in> set xs \<Longrightarrow> length (enc x) = w"
    and "length a = base + w * k" "w * length xs \<le> length b"
  shows "run_fold f (enumerate k xs) (a @ b) = Ret (a @ concat (map enc xs) @ drop (w * length xs) b)"
  using assms
proof (induction xs arbitrary: k a b)
  case (Cons x xs)
  have lx: "length (enc x) = w" "w \<le> length b" using Cons.prems by auto
  have "f (k, x) (a @ b) = vec_write (base + w * k) (enc x) (a @ take w b @ drop w b)"
    using Cons.prems(1) [of x k "a @ b"] Cons.prems(3) lx by simp
  also have "\<dots> = Ret (a @ enc x @ drop w b)"
    using Cons.prems(3) lx by (intro vec_write_append) simp_all
  moreover have "run_fold f (enumerate (Suc k) xs) ((a @ enc x) @ drop w b) =
      Ret ((a @ enc x) @ concat (map enc xs) @ drop (w * length xs) (drop w b))"
    using Cons.prems lx by (intro Cons.IH) auto
  ultimately show ?case by (simp add: add.commute)
qed simp

section \<open>Words\<close>

lemma unat_u32_less: "unat (w :: u32) < 4294967296"
  using unsigned_less [of w] by simp

lemma unat_u32_le_usize: "unat (w :: u32) + 1 \<le> usize_max"
  using unat_u32_less [of w] by (simp add: usize_max_def)

lemma unat_of_nat_u32: "n \<le> u32_max \<Longrightarrow> unat (of_nat n :: u32) = n"
  by (simp add: u32_max_def unat_of_nat)

lemma unat_of_nat_u64: "n < 18446744073709551616 \<Longrightarrow> unat (of_nat n :: u64) = n"
  by (simp add: unsigned_of_nat take_bit_eq_mod)

lemma unat_u64_less: "unat (w :: u64) < 18446744073709551616"
  using unsigned_less [of w] by simp

lemma of_nat_unat_u32 [simp]: "of_nat (unat (w :: u32)) = w"
  by simp

text \<open>A power-of-two mask on a free-running counter is a remainder, also across the wrap-around.\<close>

lemma and_mask_mod:
  assumes "n < LENGTH('a)"
  shows "unat (x AND of_nat (2 ^ n - 1) :: 'a::len word) = unat x mod 2 ^ n"
proof -
  have "(of_nat (2 ^ n - 1) :: 'a word) = mask n"
    by (simp add: mask_eq_exp_minus_1 of_nat_diff)
  then show ?thesis by (simp only: take_bit_eq_mask [symmetric] unsigned_take_bit_eq) (simp add: take_bit_eq_mod)
qed

lemma unat_add_mod:
  assumes "n < LENGTH('a)"
  shows "unat (x + of_nat k :: 'a::len word) mod 2 ^ n = (unat x + k) mod 2 ^ n"
proof -
  have "(2::nat) ^ n dvd 2 ^ LENGTH('a)" using assms by (intro le_imp_power_dvd) simp
  then show ?thesis
    by (simp add: unat_word_ariths unsigned_of_nat take_bit_eq_mod mod_mod_cancel mod_add_right_eq)
qed

lemma mod_add_inj:
  assumes "(h + j) mod c = (h + k) mod c" "j < c" "k < (c :: nat)"
  shows "j = k"
proof -
  have "a = b" if "(h + a) mod c = (h + b) mod c" "a \<le> b" "b < c" for a b
  proof -
    have "c dvd (h + b) - (h + a)" using that by (metis add_le_cancel_left mod_eq_dvd_iff_nat)
    with that show ?thesis using dvd_imp_le [of c "b - a"] by fastforce
  qed
  from this [of j k] this [of k j] assms show ?thesis by (metis nat_le_linear)
qed

lemma bit_or_push_bit_1:
  fixes w :: "'a::len word"
  shows "n < LENGTH('a) \<Longrightarrow> bit (w OR push_bit n 1) i \<longleftrightarrow> bit w i \<or> i = n"
  by (auto simp: bit_or_iff bit_exp_iff possible_bit_def)

lemma bit_and_not_push_bit_1:
  fixes w :: "'a::len word"
  shows "bit (w AND NOT (push_bit n 1)) i \<longleftrightarrow> bit w i \<and> i \<noteq> n"
  by (auto simp: bit_and_iff bit_not_iff bit_exp_iff possible_bit_def dest: bit_imp_le_length)

lemma and_push_bit_1_iff:
  fixes w :: "'a::len word"
  assumes "n < LENGTH('a)"
  shows "w AND push_bit n 1 \<noteq> 0 \<longleftrightarrow> bit w n"
proof
  assume "w AND push_bit n 1 \<noteq> 0"
  then have "\<exists>i. bit (w AND push_bit n 1) i"
    by (metis bit_0_eq bit_eq_iff bot_apply bot_bool_def)
  then show "bit w n"
    by (auto simp: bit_and_iff bit_exp_iff)
next
  assume "bit w n"
  with assms have "bit (w AND push_bit n 1) n"
    by (simp add: bit_and_iff bit_exp_iff possible_bit_def)
  then show "w AND push_bit n 1 \<noteq> 0"
    by (metis bit_0_eq bot_apply bot_bool_def)
qed

end
