(* ===== verification/Ring.thy ===== *)
theory Ring
  imports Prelude
begin

text \<open>
  The ring buffers of \<open>src/src/kernel/bus.rs\<close>. Indices are free-running 64-bit counters that are
  masked on access and wrap around. A slot is \<open>Some v\<close> while it holds a value and \<open>None\<close> when it is
  uninitialised or moved out, so that reading it twice or reading it early is undefined behaviour
  in the model. Both rings are shown to implement a bounded FIFO queue, whatever the counters are.
\<close>

section \<open>The rings and their operations\<close>

record 'a ring =
  rbuf :: "'a option list"
  rmask :: u64
  rhead :: u64
  rtail :: u64

record 'a mpsc = "'a ring" +
  rlock :: u64

datatype ring_error = InvalidCapacity | RingAllocationFailed

text \<open>\<open>usize::checked_next_power_of_two\<close>.\<close>

definition checked_next_power_of_two :: "nat \<Rightarrow> nat option" where
  "checked_next_power_of_two n = find (\<lambda>p. n \<le> p) (map (\<lambda>k. 2 ^ k) [0..<64])"

definition spsc_try_with_capacity :: "alloc \<Rightarrow> nat \<Rightarrow> ring_error + 'a ring" where
  "spsc_try_with_capacity al capacity =
     (case checked_next_power_of_two capacity of
        None \<Rightarrow> Inl InvalidCapacity
      | Some p \<Rightarrow>
          (let cap = max p 2
           in if \<not> al 0 then Inl RingAllocationFailed
              else Inr \<lparr>rbuf = replicate cap None, rmask = of_nat (cap - 1), rhead = 0, rtail = 0\<rparr>))"

definition mpsc_try_with_capacity :: "alloc \<Rightarrow> nat \<Rightarrow> ring_error + 'a mpsc" where
  "mpsc_try_with_capacity al capacity =
     (case checked_next_power_of_two capacity of
        None \<Rightarrow> Inl InvalidCapacity
      | Some p \<Rightarrow>
          (let cap = max p 2
           in if \<not> al 0 then Inl RingAllocationFailed
              else Inr \<lparr>rbuf = replicate cap None, rmask = of_nat (cap - 1), rhead = 0, rtail = 0,
                         rlock = 0\<rparr>))"

definition ring_capacity :: "('a, 'z) ring_scheme \<Rightarrow> u64" where
  "ring_capacity r = rmask r + 1"

definition ring_is_empty :: "('a, 'z) ring_scheme \<Rightarrow> bool" where
  "ring_is_empty r \<longleftrightarrow> rhead r = rtail r"

definition ring_len :: "('a, 'z) ring_scheme \<Rightarrow> u64" where
  "ring_len r = rtail r - rhead r"

text \<open>
  The body shared by \<open>SpscRing::push\<close> and the locked region of \<open>MpscRing::push\<close>, and likewise for
  \<open>pop\<close>. \<open>get_unchecked\<close> out of range and \<open>assume_init_read\<close> of an empty slot are \<open>UB\<close>.
\<close>

definition ring_push :: "('a, 'z) ring_scheme \<Rightarrow> 'a \<Rightarrow> (('a + unit) \<times> ('a, 'z) ring_scheme) run" where
  "ring_push r v =
     (let tl = rtail r; hd = rhead r
      in if tl - hd \<ge> ring_capacity r then Ret (Inl v, r)
         else let i = unat (tl AND rmask r)
              in if i \<ge> length (rbuf r) then UB
                 else Ret (Inr (), r\<lparr>rbuf := (rbuf r)[i := Some v], rtail := tl + 1\<rparr>))"

definition ring_pop :: "('a, 'z) ring_scheme \<Rightarrow> ('a option \<times> ('a, 'z) ring_scheme) run" where
  "ring_pop r =
     (let hd = rhead r; tl = rtail r
      in if hd = tl then Ret (None, r)
         else let i = unat (hd AND rmask r)
              in if i \<ge> length (rbuf r) then UB
                 else case rbuf r ! i of
                        None \<Rightarrow> UB
                      | Some v \<Rightarrow> Ret (Some v, r\<lparr>rbuf := (rbuf r)[i := None], rhead := hd + 1\<rparr>))"

text \<open>
  \<open>acquire\<close>: a compare-exchange from 0 to 1; when it fails the caller spins until another thread
  releases the lock, which never happens in a run of one thread. The guard's \<open>drop\<close> stores 0.
\<close>

definition mpsc_acquire :: "'a mpsc \<Rightarrow> 'a mpsc run" where
  "mpsc_acquire r = (if rlock r = 0 then Ret (r\<lparr>rlock := 1\<rparr>) else Diverges)"

definition mpsc_release :: "'a mpsc \<Rightarrow> 'a mpsc" where
  "mpsc_release r = r\<lparr>rlock := 0\<rparr>"

definition mpsc_push :: "'a mpsc \<Rightarrow> 'a \<Rightarrow> (('a + unit) \<times> 'a mpsc) run" where
  "mpsc_push r v = run_bind (mpsc_acquire r) (\<lambda>r1.
     run_bind (ring_push r1 v) (\<lambda>(res, r2). Ret (res, mpsc_release r2)))"

definition mpsc_pop :: "'a mpsc \<Rightarrow> ('a option \<times> 'a mpsc) run" where
  "mpsc_pop r = run_bind (mpsc_acquire r) (\<lambda>r1.
     run_bind (ring_pop r1) (\<lambda>(res, r2). Ret (res, mpsc_release r2)))"

definition mpsc_is_empty :: "'a mpsc \<Rightarrow> (bool \<times> 'a mpsc) run" where
  "mpsc_is_empty r = run_bind (mpsc_acquire r) (\<lambda>r1. Ret (ring_is_empty r1, mpsc_release r1))"

section \<open>The interface of a bounded FIFO queue\<close>

datatype 'a queue_op = Enq 'a | Deq

text \<open>
  A sequence of calls: the values accepted by \<open>push\<close> and the values returned by \<open>pop\<close>, both in
  order, and the final queue.
\<close>

fun queue_run ::
  "('q \<Rightarrow> 'a \<Rightarrow> (('a + unit) \<times> 'q) run) \<Rightarrow> ('q \<Rightarrow> ('a option \<times> 'q) run)
     \<Rightarrow> 'a queue_op list \<Rightarrow> 'q \<Rightarrow> ('a list \<times> 'a list \<times> 'q) run" where
  "queue_run enq deq [] q = Ret ([], [], q)"
| "queue_run enq deq (Enq x # ops) q =
     run_bind (enq q x) (\<lambda>(r, q1). run_bind (queue_run enq deq ops q1) (\<lambda>(acc, out, q2).
       Ret (case r of Inr _ \<Rightarrow> x # acc | Inl _ \<Rightarrow> acc, out, q2)))"
| "queue_run enq deq (Deq # ops) q =
     run_bind (deq q) (\<lambda>(r, q1). run_bind (queue_run enq deq ops q1) (\<lambda>(acc, out, q2).
       Ret (acc, case r of Some x \<Rightarrow> x # out | None \<Rightarrow> out, q2)))"

text \<open>The specification of a run: a list with a bound.\<close>

fun fifo_run :: "nat \<Rightarrow> 'a queue_op list \<Rightarrow> 'a list \<Rightarrow> 'a list \<times> 'a list \<times> 'a list" where
  "fifo_run cap [] xs = ([], [], xs)"
| "fifo_run cap (Enq x # ops) xs =
     (if length xs < cap then (let (acc, out, ys) = fifo_run cap ops (xs @ [x]) in (x # acc, out, ys))
      else fifo_run cap ops xs)"
| "fifo_run cap (Deq # ops) [] = fifo_run cap ops []"
| "fifo_run cap (Deq # ops) (x # xs) = (let (acc, out, ys) = fifo_run cap ops xs in (acc, x # out, ys))"

lemma fifo_run_order: "fifo_run cap ops xs = (acc, out, ys) \<Longrightarrow> xs @ acc = out @ ys"
  by (induction cap ops xs arbitrary: acc out rule: fifo_run.induct) (auto split: if_splits prod.splits)

locale bounded_queue =
  fixes inv :: "'q \<Rightarrow> bool" and items :: "'q \<Rightarrow> 'a list" and cap :: "'q \<Rightarrow> nat"
    and enq :: "'q \<Rightarrow> 'a \<Rightarrow> (('a + unit) \<times> 'q) run" and deq :: "'q \<Rightarrow> ('a option \<times> 'q) run"
  assumes items_le: "inv q \<Longrightarrow> length (items q) \<le> cap q"
    and enq_ok: "inv q \<Longrightarrow> length (items q) < cap q \<Longrightarrow>
          \<exists>q'. enq q x = Ret (Inr (), q') \<and> inv q' \<and> items q' = items q @ [x] \<and> cap q' = cap q"
    and enq_full: "inv q \<Longrightarrow> length (items q) = cap q \<Longrightarrow> enq q x = Ret (Inl x, q)"
    and deq_empty: "inv q \<Longrightarrow> items q = [] \<Longrightarrow> deq q = Ret (None, q)"
    and deq_ok: "inv q \<Longrightarrow> items q = x # xs \<Longrightarrow>
          \<exists>q'. deq q = Ret (Some x, q') \<and> inv q' \<and> items q' = xs \<and> cap q' = cap q"
begin

text \<open>Every sequence of calls returns what the specification says.\<close>

lemma run_refines:
  assumes "inv q"
  shows "\<exists>acc out q'. queue_run enq deq ops q = Ret (acc, out, q') \<and> inv q' \<and> cap q' = cap q
           \<and> fifo_run (cap q) ops (items q) = (acc, out, items q')"
  using assms
proof (induction ops arbitrary: q)
  case (Cons oper ops)
  show ?case
  proof (cases oper)
    case (Enq x)
    show ?thesis
    proof (cases "length (items q) < cap q")
      case True
      with Cons.prems obtain q1 where "enq q x = Ret (Inr (), q1)" "inv q1" "items q1 = items q @ [x]"
        "cap q1 = cap q" using enq_ok by blast
      with Cons.IH [of q1] True show ?thesis by (auto simp: Enq)
    next
      case False
      with Cons.prems have "enq q x = Ret (Inl x, q)" using items_le [of q] by (intro enq_full) auto
      with Cons.IH [of q] Cons.prems False show ?thesis by (auto simp: Enq)
    qed
  next
    case Deq
    show ?thesis
    proof (cases "items q")
      case Nil
      with Cons.prems have "deq q = Ret (None, q)" by (intro deq_empty)
      with Cons.IH [of q] Cons.prems Nil show ?thesis by (auto simp: Deq)
    next
      case (Cons x xs)
      then obtain q1 where "deq q = Ret (Some x, q1)" "inv q1" "items q1 = xs" "cap q1 = cap q"
        using Cons.prems deq_ok by blast
      with Cons.IH [of q1] Cons show ?thesis by (auto simp: Deq)
    qed
  qed
qed auto

text \<open>A queue with room accepts a value, and a queue that was empty hands it straight back.\<close>

lemma enq_deq:
  assumes "inv q" "items q = []" "0 < cap q"
  shows "\<exists>q1 q2. enq q x = Ret (Inr (), q1) \<and> deq q1 = Ret (Some x, q2) \<and> inv q2 \<and> items q2 = []
           \<and> cap q2 = cap q"
  using enq_ok [OF assms(1), of x] deq_ok [of _ x "[]"] assms(2,3) by fastforce

end

section \<open>The invariant of a ring\<close>

text \<open>The slot of the \<open>k\<close>-th value counted from the head.\<close>

definition ring_slot :: "('a, 'z) ring_scheme \<Rightarrow> nat \<Rightarrow> nat" where
  "ring_slot r k = unat ((rhead r + of_nat k) AND rmask r)"

definition ring_shape :: "('a, 'z) ring_scheme \<Rightarrow> bool" where
  "ring_shape r \<longleftrightarrow>
     (\<exists>n. n < 64 \<and> length (rbuf r) = 2 ^ n \<and> rmask r = of_nat (2 ^ n - 1) \<and> 1 \<le> n)"

definition ring_inv :: "('a, 'z) ring_scheme \<Rightarrow> bool" where
  "ring_inv r \<longleftrightarrow>
     ring_shape r
     \<and> unat (rtail r - rhead r) \<le> length (rbuf r)
     \<and> (\<forall>k < unat (rtail r - rhead r). rbuf r ! ring_slot r k \<noteq> None)"

definition ring_items :: "('a, 'z) ring_scheme \<Rightarrow> 'a list" where
  "ring_items r = map (\<lambda>k. the (rbuf r ! ring_slot r k)) [0..<unat (rtail r - rhead r)]"

definition ring_cap :: "('a, 'z) ring_scheme \<Rightarrow> nat" where
  "ring_cap r = length (rbuf r)"

lemma length_ring_items [simp]: "length (ring_items r) = unat (rtail r - rhead r)"
  by (simp add: ring_items_def)

lemma ring_slot_mod:
  assumes "ring_shape r"
  shows "ring_slot r k = (unat (rhead r) + k) mod length (rbuf r)"
proof -
  from assms obtain n where n: "n < 64" "length (rbuf r) = 2 ^ n" "rmask r = of_nat (2 ^ n - 1)"
    by (auto simp: ring_shape_def)
  then have m: "n < LENGTH(64)" by simp
  show ?thesis unfolding ring_slot_def n(2,3) and_mask_mod [OF m] unat_add_mod [OF m] ..
qed

lemma ring_shape_cap:
  assumes "ring_shape r"
  shows "2 \<le> length (rbuf r)" "length (rbuf r) \<le> 9223372036854775808"
    "unat (ring_capacity r) = length (rbuf r)"
proof -
  from assms obtain n where n: "n < 64" "1 \<le> n" "length (rbuf r) = 2 ^ n" "rmask r = of_nat (2 ^ n - 1)"
    by (auto simp: ring_shape_def)
  have "(2::nat) ^ 1 \<le> 2 ^ n" using n(2) by (intro power_increasing) auto
  then show "2 \<le> length (rbuf r)" using n by simp
  have "(2::nat) ^ n \<le> 2 ^ 63" using n by (intro power_increasing) auto
  then show le: "length (rbuf r) \<le> 9223372036854775808" using n by simp
  have "ring_capacity r = of_nat (2 ^ n)" by (simp add: ring_capacity_def n(4) of_nat_diff)
  then show "unat (ring_capacity r) = length (rbuf r)"
    using le unfolding n(3) by (simp only:) (rule unat_of_nat_u64, simp)
qed

lemma ring_slot_less: "ring_shape r \<Longrightarrow> ring_slot r k < length (rbuf r)"
  using ring_shape_cap(1) [of r] by (auto simp: ring_slot_mod intro: mod_less_divisor)

lemma ring_slot_inj:
  assumes "ring_shape r" "ring_slot r j = ring_slot r k" "j < length (rbuf r)" "k < length (rbuf r)"
  shows "j = k"
  using mod_add_inj [of "unat (rhead r)" j "length (rbuf r)" k] assms by (simp add: ring_slot_mod)

lemma ring_tail_slot: "unat (rtail r AND rmask r) = ring_slot r (unat (rtail r - rhead r))"
  by (simp add: ring_slot_def)

lemma ring_push_full:
  assumes "ring_inv r" "length (ring_items r) = ring_cap r"
  shows "ring_push r v = Ret (Inl v, r)"
proof -
  have "unat (ring_capacity r) = unat (rtail r - rhead r)"
    using assms ring_shape_cap(3) [of r] by (simp add: ring_inv_def ring_cap_def)
  then show ?thesis by (simp add: ring_push_def word_le_nat_alt)
qed

lemma ring_push_ok:
  assumes inv: "ring_inv r" and room: "length (ring_items r) < ring_cap r"
  shows "\<exists>r'. ring_push r v = Ret (Inr (), r') \<and> ring_inv r' \<and> ring_items r' = ring_items r @ [v]
           \<and> ring_cap r' = ring_cap r \<and> ring.more r' = ring.more r"
proof -
  have sh: "ring_shape r" using inv by (simp add: ring_inv_def)
  let ?n = "unat (rtail r - rhead r)"
  let ?i = "ring_slot r ?n"
  let ?r = "r\<lparr>rbuf := (rbuf r)[?i := Some v], rtail := rtail r + 1\<rparr>"
  have n: "?n < length (rbuf r)" using room by (simp add: ring_cap_def)
  have "\<not> rtail r - rhead r \<ge> ring_capacity r"
    using n ring_shape_cap(3) [OF sh] by (simp add: word_le_nat_alt)
  then have run: "ring_push r v = Ret (Inr (), ?r)"
    using ring_slot_less [OF sh] by (simp add: ring_push_def Let_def ring_tail_slot not_le)
  have "unat (rtail r - rhead r + 1) = ?n + 1"
    using n ring_shape_cap(2) [OF sh] by (simp add: unat_word_ariths)
  then have len: "unat (rtail r + 1 - rhead r) = ?n + 1" by (simp add: algebra_simps)
  have slot: "ring_slot ?r k = ring_slot r k" for k by (simp add: ring_slot_def)
  have neq: "?i \<noteq> ring_slot r k" if "k < ?n" for k
    using ring_slot_inj [OF sh, of k ?n] that n by (metis nat_neq_iff order.strict_trans)
  have "ring_inv ?r"
    using inv n len neq ring_slot_less [OF sh]
    by (auto simp: ring_inv_def ring_shape_def slot less_Suc_eq)
  moreover have "ring_items ?r = ring_items r @ [v]"
    using len neq ring_slot_less [OF sh] by (simp add: ring_items_def slot)
  ultimately show ?thesis using run by (auto simp: ring_cap_def)
qed

lemma ring_pop_empty:
  assumes "ring_items r = []"
  shows "ring_pop r = Ret (None, r)"
proof -
  have "unat (rtail r - rhead r) = 0" using assms by (metis length_ring_items list.size(3))
  then have "rtail r = rhead r" by (simp add: unsigned_eq_0_iff)
  then show ?thesis by (simp add: ring_pop_def)
qed

lemma ring_pop_ok:
  assumes inv: "ring_inv r" and items: "ring_items r = x # xs"
  shows "\<exists>r'. ring_pop r = Ret (Some x, r') \<and> ring_inv r' \<and> ring_items r' = xs
           \<and> ring_cap r' = ring_cap r \<and> ring.more r' = ring.more r"
proof -
  have sh: "ring_shape r" using inv by (simp add: ring_inv_def)
  let ?n = "unat (rtail r - rhead r)"
  let ?i = "ring_slot r 0"
  let ?r = "r\<lparr>rbuf := (rbuf r)[?i := None], rhead := rhead r + 1\<rparr>"
  have n: "0 < ?n" using items by (metis length_ring_items length_greater_0_conv list.distinct(1))
  then have le: "?n \<le> length (rbuf r)" "rbuf r ! ?i \<noteq> None" using inv by (auto simp: ring_inv_def)
  have x: "rbuf r ! ?i = Some x"
    using items n le by (auto simp: ring_items_def upt_rec [of 0])
  have i: "unat (rhead r AND rmask r) = ?i" by (simp add: ring_slot_def)
  have "rhead r \<noteq> rtail r" using n by auto
  then have run: "ring_pop r = Ret (Some x, ?r)"
    using ring_slot_less [OF sh, of 0] x by (simp add: ring_pop_def Let_def i)
  have "unat (rtail r - rhead r - 1) = ?n - 1"
    using n by (simp add: unat_minus_one unat_gt_0)
  then have len: "unat (rtail r - (rhead r + 1)) = ?n - 1" by (simp add: algebra_simps)
  have slot: "ring_slot ?r k = ring_slot r (Suc k)" for k by (simp add: ring_slot_def algebra_simps)
  have neq: "?i \<noteq> ring_slot r (Suc k)" if "k < ?n - 1" for k
  proof -
    have "Suc k < length (rbuf r)" "0 < length (rbuf r)" using that le(1) by linarith+
    then show ?thesis using ring_slot_inj [OF sh, of "Suc k" 0] by force
  qed
  have sh': "ring_shape ?r" using sh by (simp add: ring_shape_def)
  have "ring_inv ?r"
    using inv sh' le(1) len neq by (auto simp: ring_inv_def slot)
  moreover have "ring_items ?r = xs"
  proof -
    have "ring_items ?r = map (\<lambda>k. the (rbuf r ! ring_slot r (Suc k))) [0..<?n - 1]"
      using len neq by (simp add: ring_items_def slot)
    also have "\<dots> = tl (ring_items r)"
      by (rule nth_equalityI) (simp_all add: ring_items_def nth_tl less_diff_conv)
    finally show ?thesis by (simp add: items)
  qed
  ultimately show ?thesis using run by (auto simp: ring_cap_def)
qed

text \<open>Both rings are bounded queues; the MPSC ring needs its lock to be free between calls.\<close>

definition mpsc_inv :: "'a mpsc \<Rightarrow> bool" where
  "mpsc_inv r \<longleftrightarrow> ring_inv r \<and> rlock r = 0"

interpretation spsc: bounded_queue ring_inv ring_items ring_cap
  "ring_push :: 'a ring \<Rightarrow> 'a \<Rightarrow> (('a + unit) \<times> 'a ring) run" ring_pop
proof unfold_locales
  fix q :: "'a ring" and x xs
  assume q: "ring_inv q"
  then show "length (ring_items q) \<le> ring_cap q" by (simp add: ring_inv_def ring_cap_def)
  show "\<exists>q'. ring_push q x = Ret (Inr (), q') \<and> ring_inv q' \<and> ring_items q' = ring_items q @ [x]
      \<and> ring_cap q' = ring_cap q" if "length (ring_items q) < ring_cap q"
    using ring_push_ok [OF q that, of x] by blast
  show "ring_push q x = Ret (Inl x, q)" if "length (ring_items q) = ring_cap q"
    by (rule ring_push_full [OF q that])
  show "ring_pop q = Ret (None, q)" if "ring_items q = []" by (rule ring_pop_empty [OF that])
  show "\<exists>q'. ring_pop q = Ret (Some x, q') \<and> ring_inv q' \<and> ring_items q' = xs \<and> ring_cap q' = ring_cap q"
    if "ring_items q = x # xs"
    using ring_pop_ok [OF q that] by blast
qed

lemma mpsc_lock_view [simp]:
  "ring_inv (r\<lparr>rlock := l\<rparr>) = ring_inv r" "ring_items (r\<lparr>rlock := l\<rparr>) = ring_items r"
  "ring_cap (r\<lparr>rlock := l\<rparr>) = ring_cap r"
  by (simp_all add: ring_inv_def ring_shape_def ring_slot_def ring_items_def ring_cap_def)

interpretation mpsc: bounded_queue mpsc_inv ring_items ring_cap mpsc_push mpsc_pop
proof unfold_locales
  fix q :: "'a mpsc" and x xs
  assume q: "mpsc_inv q"
  then have inv: "ring_inv (q\<lparr>rlock := 1\<rparr>)" and l: "rlock q = 0" by (simp_all add: mpsc_inv_def)
  show "length (ring_items q) \<le> ring_cap q"
    using q by (simp add: mpsc_inv_def ring_inv_def ring_cap_def)
  show "\<exists>q'. mpsc_push q x = Ret (Inr (), q') \<and> mpsc_inv q' \<and> ring_items q' = ring_items q @ [x]
      \<and> ring_cap q' = ring_cap q" if "length (ring_items q) < ring_cap q"
    using ring_push_ok [OF inv, of x] that l
    by (auto simp: mpsc_push_def mpsc_acquire_def mpsc_release_def mpsc_inv_def)
  show "mpsc_push q x = Ret (Inl x, q)" if "length (ring_items q) = ring_cap q"
    using ring_push_full [OF inv, of x] that l
    by (simp add: mpsc_push_def mpsc_acquire_def mpsc_release_def)
  show "mpsc_pop q = Ret (None, q)" if "ring_items q = []"
    using ring_pop_empty [of "q\<lparr>rlock := 1\<rparr>"] that l
    by (simp add: mpsc_pop_def mpsc_acquire_def mpsc_release_def)
  show "\<exists>q'. mpsc_pop q = Ret (Some x, q') \<and> mpsc_inv q' \<and> ring_items q' = xs \<and> ring_cap q' = ring_cap q"
    if "ring_items q = x # xs"
    using ring_pop_ok [OF inv, of x xs] that l
    by (auto simp: mpsc_pop_def mpsc_acquire_def mpsc_release_def mpsc_inv_def)
qed

section \<open>Construction\<close>

lemma find_map_upt:
  "find P (map f [0..<n]) = Some y \<Longrightarrow> \<exists>k<n. y = f k \<and> P y \<and> (\<forall>j<k. \<not> P (f j))"
  by (force simp: find_Some_iff)

text \<open>The rounded capacity is the least power of two that is large enough, and fails past \<open>2 ^ 63\<close>.\<close>

lemma checked_next_power_of_two_Some:
  assumes "checked_next_power_of_two n = Some p"
  shows "n \<le> p" "\<exists>k<64. p = 2 ^ k \<and> (\<forall>j<k. 2 ^ j < n)"
  using find_map_upt [OF assms [unfolded checked_next_power_of_two_def]] by force+

lemma checked_next_power_of_two_None:
  "checked_next_power_of_two n = None \<longleftrightarrow> 2 ^ 63 < n"
proof -
  have "(\<forall>k<64. 2 ^ k < n) \<longleftrightarrow> 2 ^ 63 < n"
  proof
    assume *: "2 ^ 63 < n"
    have "(2::nat) ^ k \<le> 2 ^ 63" if "k < 64" for k :: nat
      using that by (intro power_increasing) auto
    with * show "\<forall>k<64. 2 ^ k < n" by (meson order.strict_trans1)
  next
    assume "\<forall>k<64. 2 ^ k < n"
    then show "2 ^ 63 < n" by (rule allE [of _ 63]) simp
  qed
  then show ?thesis
    by (auto simp: checked_next_power_of_two_def find_None_iff not_le)
qed

lemma ring_new_inv:
  fixes z :: 'z
  assumes "checked_next_power_of_two n = Some p"
  defines "c \<equiv> max p 2"
  defines r_def: "r \<equiv> \<lparr>rbuf = replicate c (None :: 'a option), rmask = of_nat (c - 1), rhead = 0, rtail = 0,
                      \<dots> = z\<rparr>"
  shows "ring_inv r" "ring_items r = []" "ring_cap r = c" "n \<le> c"
proof -
  obtain k where k: "k < 64" "p = 2 ^ k" using checked_next_power_of_two_Some(2) [OF assms(1)] by blast
  have "\<exists>k<64. c = 2 ^ k \<and> 1 \<le> k"
  proof (cases k)
    case 0
    with k show ?thesis by (intro exI [of _ 1]) (simp add: c_def)
  next
    case (Suc m)
    then have "(2::nat) \<le> 2 ^ k" by simp
    then have "c = 2 ^ k" using k by (simp add: c_def max_absorb1 del: power_increasing_iff)
    with k Suc show ?thesis by (intro exI [of _ k]) simp
  qed
  then show "ring_inv r" by (auto simp: ring_inv_def ring_shape_def r_def)
  show "ring_items r = []" "ring_cap r = c" by (simp_all add: r_def ring_items_def ring_cap_def)
  show "n \<le> c" using checked_next_power_of_two_Some(1) [OF assms(1)] by (simp add: c_def)
qed

lemma spsc_try_with_capacity_spec:
  assumes "spsc_try_with_capacity al n = Inr r"
  shows "ring_inv r" "ring_items r = []" "n \<le> ring_cap r"
  using assms ring_new_inv(1-3) [of n _, where z = "()"] ring_new_inv(4) [of n]
  by (auto simp: spsc_try_with_capacity_def Let_def ring_cap_def ring_items_def split: option.splits if_splits)

lemma mpsc_try_with_capacity_spec:
  assumes "mpsc_try_with_capacity al n = Inr r"
  shows "mpsc_inv r" "ring_items r = []" "n \<le> ring_cap r"
proof -
  from assms obtain p where "checked_next_power_of_two n = Some p"
    "r = \<lparr>rbuf = replicate (max p 2) None, rmask = of_nat (max p 2 - 1), rhead = 0, rtail = 0, rlock = 0\<rparr>"
    by (auto simp: mpsc_try_with_capacity_def Let_def split: option.splits if_splits)
  with ring_new_inv(4) [OF this(1)] ring_new_inv(1-3) [OF this(1), where z = "\<lparr>rlock = 0\<rparr>"] show "mpsc_inv r" "ring_items r = []" "n \<le> ring_cap r"
    by (simp_all add: mpsc_inv_def ring_cap_def ring_items_def)
qed

section \<open>Properties\<close>

text \<open>
  \<open>SpscRing\<close> is a bounded FIFO queue. A ring that \<open>try_with_capacity\<close> returns holds at least the
  requested number of values; every sequence of \<open>push\<close> and \<open>pop\<close> on it returns, without undefined
  behaviour, exactly what a list with that bound returns, also after the indices wrap around.
\<close>

theorem spsc_ring_is_fifo:
  assumes new: "spsc_try_with_capacity al n = Inr r"
  shows "n \<le> ring_cap r \<and> (\<exists>acc out r'. queue_run ring_push ring_pop ops r = Ret (acc, out, r') \<and> ring_inv r'
     \<and> fifo_run (ring_cap r) ops [] = (acc, out, ring_items r'))"
proof -
  note sp = spsc_try_with_capacity_spec [OF new]
  obtain acc out r' where "queue_run ring_push ring_pop ops r = Ret (acc, out, r')" "ring_inv r'"
    "fifo_run (ring_cap r) ops (ring_items r) = (acc, out, ring_items r')"
    using spsc.run_refines [OF sp(1), of ops] by blast
  then show ?thesis using sp(2,3) by simp
qed

theorem spsc_ring_is_fifo_witness:
  "3 \<le> ring_cap \<lparr>rbuf = replicate 4 (None :: nat option), rmask = 3, rhead = 0, rtail = 0\<rparr>
   \<and> (\<exists>acc out r'. queue_run ring_push ring_pop [Enq 1, Deq, Enq 2] \<lparr>rbuf = replicate 4 (None :: nat option), rmask = 3, rhead = 0, rtail = 0\<rparr>
       = Ret (acc, out, r') \<and> ring_inv r' \<and> fifo_run 4 [Enq 1, Deq, Enq 2] [] = (acc, out, ring_items r'))"
  using spsc_ring_is_fifo [of "\<lambda>_. True" 3 "\<lparr>rbuf = replicate 4 (None :: nat option), rmask = 3, rhead = 0, rtail = 0\<rparr>"
      "[Enq 1, Deq, Enq 2]"]
  by (simp add: spsc_try_with_capacity_def checked_next_power_of_two_def upt_rec ring_cap_def)

text \<open>
  \<open>MpscRing\<close>, used by one thread at a time, is the same bounded FIFO queue, and every call leaves
  its spinlock free.
\<close>

theorem mpsc_ring_is_fifo:
  assumes new: "mpsc_try_with_capacity al n = Inr r"
  shows "n \<le> ring_cap r \<and> (\<exists>acc out r'. queue_run mpsc_push mpsc_pop ops r = Ret (acc, out, r') \<and> ring_inv r'
     \<and> rlock r' = 0 \<and> fifo_run (ring_cap r) ops [] = (acc, out, ring_items r'))"
proof -
  note sp = mpsc_try_with_capacity_spec [OF new]
  obtain acc out r' where "queue_run mpsc_push mpsc_pop ops r = Ret (acc, out, r')" "mpsc_inv r'"
    "fifo_run (ring_cap r) ops (ring_items r) = (acc, out, ring_items r')"
    using mpsc.run_refines [OF sp(1), of ops] by blast
  then show ?thesis using sp(2,3) by (simp add: mpsc_inv_def)
qed

theorem mpsc_ring_is_fifo_witness:
  "3 \<le> ring_cap \<lparr>rbuf = replicate 4 (None :: nat option), rmask = 3, rhead = 0, rtail = 0, rlock = 0\<rparr>
   \<and> (\<exists>acc out r'. queue_run mpsc_push mpsc_pop [Enq 1, Deq, Enq 2]
         \<lparr>rbuf = replicate 4 (None :: nat option), rmask = 3, rhead = 0, rtail = 0, rlock = 0\<rparr>
       = Ret (acc, out, r') \<and> ring_inv r' \<and> rlock r' = 0 \<and> fifo_run 4 [Enq 1, Deq, Enq 2] [] = (acc, out, ring_items r'))"
  using mpsc_ring_is_fifo [of "\<lambda>_. True" 3
      "\<lparr>rbuf = replicate 4 (None :: nat option), rmask = 3, rhead = 0, rtail = 0, rlock = 0\<rparr>" "[Enq 1, Deq, Enq 2]"]
  by (simp add: mpsc_try_with_capacity_def checked_next_power_of_two_def upt_rec ring_cap_def)

end
