(* ===== verification/Bus.thy ===== *)
theory Bus
  imports Ring
begin

text \<open>
  \<open>MessageBus\<close> of \<open>src/src/kernel/bus.rs\<close>: one outbox that every publish passes through, one inbox
  per subscriber, and the matrix of declared dependencies that debug builds police. Payloads are
  of a type \<open>'p\<close>; \<open>debug\<close> says whether the build has debug assertions.
\<close>

section \<open>Messages and the bus\<close>

record 'p envelope =
  env_from :: u32
  env_to :: u32
  topic :: u16
  seq :: u64
  payload :: 'p

datatype bus_error =
    OutboxFull
  | InboxFull u32
  | UnknownRecipient u32
  | BusAllocationFailed
  | InvalidTopology

record 'p bus =
  outbox :: "'p envelope mpsc"
  inboxes :: "'p envelope ring list"
  edges :: "bool list list"
  bus_next_seq :: u64
  undeclared_sends :: u64

definition default_inbox_capacity :: nat where
  "default_inbox_capacity = 64"

definition outbox_capacity :: nat where
  "outbox_capacity = 32"

definition bus_try_new :: "alloc \<Rightarrow> bus_error + 'p bus" where
  "bus_try_new al =
     (case mpsc_try_with_capacity al outbox_capacity of
        Inl _ \<Rightarrow> Inl BusAllocationFailed
      | Inr r \<Rightarrow> Inr \<lparr>outbox = r, inboxes = [], edges = [], bus_next_seq = 0, undeclared_sends = 0\<rparr>)"

definition bus_try_add_subscriber :: "alloc \<Rightarrow> 'p bus \<Rightarrow> (bus_error + u32) \<times> 'p bus" where
  "bus_try_add_subscriber al b =
     (if length (inboxes b) > u32_max then (Inl InvalidTopology, b)
      else if \<not> al 0 then (Inl BusAllocationFailed, b)
      else case spsc_try_with_capacity (\<lambda>k. al (k + 1)) default_inbox_capacity of
             Inl _ \<Rightarrow> (Inl BusAllocationFailed, b)
           | Inr r \<Rightarrow> (Inr (of_nat (length (inboxes b))), b\<lparr>inboxes := inboxes b @ [r]\<rparr>))"

fun mark_row :: "nat \<Rightarrow> nat list \<Rightarrow> bool list \<Rightarrow> bool list option" where
  "mark_row n [] row = Some row"
| "mark_row n (f # fs) row = (if f \<ge> n then None else mark_row n fs (row[f := True]))"

definition bus_try_set_debug_edges :: "alloc \<Rightarrow> 'p bus \<Rightarrow> nat list list \<Rightarrow> (bus_error + unit) \<times> 'p bus" where
  "bus_try_set_debug_edges al b deps =
     (let n = length deps
      in if \<not> list_all al [0..<Suc n] then (Inl BusAllocationFailed, b)
         else case those (map (\<lambda>fs. mark_row n fs (replicate n False)) deps) of
                None \<Rightarrow> (Inl InvalidTopology, b)
              | Some m \<Rightarrow> (Inr (), b\<lparr>edges := m\<rparr>))"

definition routing_ok :: "'p bus \<Rightarrow> u32 \<Rightarrow> u32 \<Rightarrow> bool" where
  "routing_ok b sender receiver \<longleftrightarrow>
     sender = receiver
     \<or> (case Option.bind (vec_get (edges b) (unat receiver)) (\<lambda>row. vec_get row (unat sender)) of
          None \<Rightarrow> False | Some ok \<Rightarrow> ok)"

definition bus_publish :: "bool \<Rightarrow> 'p bus \<Rightarrow> 'p envelope \<Rightarrow> ((bus_error + unit) \<times> 'p bus) run" where
  "bus_publish debug b env =
     (let ok = routing_ok b (env_from env) (env_to env);
          b1 = (if ok then b else b\<lparr>undeclared_sends := undeclared_sends b + 1\<rparr>)
      in if \<not> ok \<and> debug then Panic
         else run_bind (mpsc_push (outbox b1) env) (\<lambda>(r, ob).
           case r of
             Inl _ \<Rightarrow> Ret (Inl OutboxFull, b1\<lparr>outbox := ob\<rparr>)
           | Inr _ \<Rightarrow> run_bind (mpsc_pop ob) (\<lambda>(q, ob').
               (let b2 = b1\<lparr>outbox := ob'\<rparr>
                in case q of
                     None \<Rightarrow> Ret (Inl OutboxFull, b2)
                   | Some queued \<Rightarrow>
                      (let to = unat (env_to queued)
                       in case vec_get (inboxes b2) to of
                            None \<Rightarrow> Ret (Inl (UnknownRecipient (env_to queued)), b2)
                          | Some mailbox \<Rightarrow> run_bind (ring_push mailbox queued) (\<lambda>(r, mb).
                              Ret (case r of Inr u \<Rightarrow> Inr u | Inl e \<Rightarrow> Inl (InboxFull (env_to e)),
                                   b2\<lparr>inboxes := (inboxes b2)[to := mb]\<rparr>)))))))"

text \<open>
  The loop of \<open>flush\<close> ends because each turn pops a message. The model counts turns; \<open>bus_flush\<close>
  allows one more turn than there are messages, and \<open>Diverges\<close> would say it was not enough.
\<close>

fun flush_loop :: "nat \<Rightarrow> 'p bus \<Rightarrow> 'p bus run" where
  "flush_loop 0 b = Diverges"
| "flush_loop (Suc n) b =
     run_bind (mpsc_pop (outbox b)) (\<lambda>(q, ob).
       (let b1 = b\<lparr>outbox := ob\<rparr>
        in case q of
             None \<Rightarrow> Ret b1
           | Some queued \<Rightarrow>
              (let to = unat (env_to queued)
               in case vec_get (inboxes b1) to of
                    None \<Rightarrow> Ret b1
                  | Some mailbox \<Rightarrow> run_bind (ring_push mailbox queued) (\<lambda>(r, mb).
                      (let b2 = b1\<lparr>inboxes := (inboxes b1)[to := mb]\<rparr>
                       in case r of Inl _ \<Rightarrow> Ret b2 | Inr _ \<Rightarrow> flush_loop n b2)))))"

definition bus_flush :: "'p bus \<Rightarrow> 'p bus run" where
  "bus_flush b = flush_loop (Suc (unat (ring_len (outbox b)))) b"

definition pop_inbox :: "'p bus \<Rightarrow> u32 \<Rightarrow> ('p envelope option \<times> 'p bus) run" where
  "pop_inbox b i =
     (case vec_get (inboxes b) (unat i) of
        None \<Rightarrow> Ret (None, b)
      | Some mb \<Rightarrow> run_bind (ring_pop mb) (\<lambda>(r, mb'). Ret (r, b\<lparr>inboxes := (inboxes b)[unat i := mb']\<rparr>)))"

definition inbox_len :: "'p bus \<Rightarrow> u32 \<Rightarrow> u64" where
  "inbox_len b i = (case vec_get (inboxes b) (unat i) of None \<Rightarrow> 0 | Some mb \<Rightarrow> ring_len mb)"

definition next_seq :: "'p bus \<Rightarrow> u64 \<times> 'p bus" where
  "next_seq b = (bus_next_seq b, b\<lparr>bus_next_seq := bus_next_seq b + 1\<rparr>)"

definition bus_envelope :: "'p bus \<Rightarrow> u32 \<Rightarrow> u32 \<Rightarrow> u16 \<Rightarrow> 'p \<Rightarrow> 'p envelope \<times> 'p bus" where
  "bus_envelope b sender receiver t p =
     (let (n, b') = next_seq b
      in (\<lparr>env_from = sender, env_to = receiver, topic = t, seq = n, payload = p\<rparr>, b'))"

section \<open>The invariant of the bus\<close>

definition bus_inv :: "'p bus \<Rightarrow> bool" where
  "bus_inv b \<longleftrightarrow>
     mpsc_inv (outbox b) \<and> 0 < ring_cap (outbox b)
     \<and> (\<forall>mb\<in>set (inboxes b). ring_inv mb \<and> ring_cap mb = default_inbox_capacity)"

text \<open>The messages waiting for each subscriber.\<close>

definition mailboxes :: "'p bus \<Rightarrow> 'p envelope list list" where
  "mailboxes b = map ring_items (inboxes b)"

lemma length_mailboxes [simp]: "length (mailboxes b) = length (inboxes b)"
  by (simp add: mailboxes_def)

lemma inbox_inv:
  "bus_inv b \<Longrightarrow> i < length (inboxes b) \<Longrightarrow>
     ring_inv (inboxes b ! i) \<and> ring_cap (inboxes b ! i) = default_inbox_capacity"
  by (simp add: bus_inv_def)

lemma bus_inv_set_inbox:
  "bus_inv b \<Longrightarrow> ring_inv mb \<Longrightarrow> ring_cap mb = default_inbox_capacity \<Longrightarrow>
     bus_inv (b\<lparr>inboxes := (inboxes b)[i := mb]\<rparr>)"
  using set_update_subset_insert [of "inboxes b" i mb] by (auto simp: bus_inv_def)

lemma mailboxes_set_inbox:
  "mailboxes (b\<lparr>inboxes := (inboxes b)[i := mb]\<rparr>) = (mailboxes b)[i := ring_items mb]"
  by (simp add: mailboxes_def map_update)

lemma mailboxes_outbox [simp]: "mailboxes (b\<lparr>outbox := q\<rparr>) = mailboxes b"
  "mailboxes (b\<lparr>undeclared_sends := n\<rparr>) = mailboxes b"
  by (simp_all add: mailboxes_def)

text \<open>Delivery of one message to its mailbox: appended, refused when full, or unknown.\<close>

lemma deliver_spec:
  assumes inv: "bus_inv b" and i: "i < length (inboxes b)"
  shows "length (mailboxes b ! i) < default_inbox_capacity \<Longrightarrow>
      \<exists>mb. ring_push (inboxes b ! i) e = Ret (Inr (), mb) \<and> bus_inv (b\<lparr>inboxes := (inboxes b)[i := mb]\<rparr>)
         \<and> mailboxes (b\<lparr>inboxes := (inboxes b)[i := mb]\<rparr>) = (mailboxes b)[i := mailboxes b ! i @ [e]]"
    and "length (mailboxes b ! i) \<ge> default_inbox_capacity \<Longrightarrow>
      ring_push (inboxes b ! i) e = Ret (Inl e, inboxes b ! i)"
proof -
  have mb: "ring_inv (inboxes b ! i)" "ring_cap (inboxes b ! i) = default_inbox_capacity"
    using inbox_inv [OF inv i] by blast+
  have items: "mailboxes b ! i = ring_items (inboxes b ! i)" using i by (simp add: mailboxes_def)
  show "\<exists>mb. ring_push (inboxes b ! i) e = Ret (Inr (), mb) \<and> bus_inv (b\<lparr>inboxes := (inboxes b)[i := mb]\<rparr>)
         \<and> mailboxes (b\<lparr>inboxes := (inboxes b)[i := mb]\<rparr>) = (mailboxes b)[i := mailboxes b ! i @ [e]]"
    if room: "length (mailboxes b ! i) < default_inbox_capacity"
  proof -
    obtain q where "ring_push (inboxes b ! i) e = Ret (Inr (), q)" "ring_inv q"
      "ring_items q = ring_items (inboxes b ! i) @ [e]" "ring_cap q = default_inbox_capacity"
      using spsc.enq_ok [OF mb(1), of e] room mb(2) unfolding items by auto
    then show ?thesis using inv by (auto simp: bus_inv_set_inbox mailboxes_set_inbox items)
  qed
  show "ring_push (inboxes b ! i) e = Ret (Inl e, inboxes b ! i)"
    if "length (mailboxes b ! i) \<ge> default_inbox_capacity"
    using that spsc.items_le [OF mb(1)] mb(2) unfolding items by (intro spsc.enq_full [OF mb(1)]) simp
qed

text \<open>What a publish means for the mailboxes.\<close>

definition publish_result :: "'p envelope list list \<Rightarrow> 'p envelope \<Rightarrow> (bus_error + unit) \<times> 'p envelope list list" where
  "publish_result ms env =
     (let to = unat (env_to env)
      in if to \<ge> length ms then (Inl (UnknownRecipient (env_to env)), ms)
         else if length (ms ! to) \<ge> default_inbox_capacity then (Inl (InboxFull (env_to env)), ms)
         else (Inr (), ms[to := ms ! to @ [env]]))"

lemma bus_publish_spec:
  assumes inv: "bus_inv b" and empty: "ring_items (outbox b) = []"
    and ok: "routing_ok b (env_from env) (env_to env) \<or> \<not> debug"
  obtains b' where "bus_publish debug b env = Ret (fst (publish_result (mailboxes b) env), b')" "bus_inv b'"
    "mailboxes b' = snd (publish_result (mailboxes b) env)" "ring_items (outbox b') = []"
    "edges b' = edges b" "length (inboxes b') = length (inboxes b)" "bus_next_seq b' = bus_next_seq b"
    "undeclared_sends b' = (if routing_ok b (env_from env) (env_to env) then undeclared_sends b
                            else undeclared_sends b + 1)"
proof -
  let ?ok = "routing_ok b (env_from env) (env_to env)" and ?i = "unat (env_to env)"
  let ?b1 = "if ?ok then b else b\<lparr>undeclared_sends := undeclared_sends b + 1\<rparr>"
  have b1: "bus_inv ?b1" "mailboxes ?b1 = mailboxes b" "outbox ?b1 = outbox b" "edges ?b1 = edges b"
    "inboxes ?b1 = inboxes b" "bus_next_seq ?b1 = bus_next_seq b"
    "undeclared_sends ?b1 = (if ?ok then undeclared_sends b else undeclared_sends b + 1)"
    using inv by (auto simp: bus_inv_def)
  obtain q1 q2 where q: "mpsc_push (outbox b) env = Ret (Inr (), q1)" "mpsc_pop q1 = Ret (Some env, q2)"
    "mpsc_inv q2" "ring_items q2 = []" "ring_cap q2 = ring_cap (outbox b)"
    using mpsc.enq_deq [OF _ empty] inv by (force simp: bus_inv_def)
  let ?b2 = "?b1\<lparr>outbox := q2\<rparr>"
  have b2: "bus_inv ?b2" using b1(1,3) q by (simp add: bus_inv_def)
  have run: "bus_publish debug b env =
     (case vec_get (inboxes b) ?i of
        None \<Rightarrow> Ret (Inl (UnknownRecipient (env_to env)), ?b2)
      | Some mailbox \<Rightarrow> run_bind (ring_push mailbox env) (\<lambda>(r, mb).
          Ret (case r of Inr u \<Rightarrow> Inr u | Inl e \<Rightarrow> Inl (InboxFull (env_to e)),
               ?b2\<lparr>inboxes := (inboxes b)[?i := mb]\<rparr>)))"
    using ok q b1 by (auto simp: bus_publish_def Let_def split: option.split)
  consider "?i \<ge> length (inboxes b)"
    | "?i < length (inboxes b)" "length (mailboxes b ! ?i) \<ge> default_inbox_capacity"
    | "?i < length (inboxes b)" "length (mailboxes b ! ?i) < default_inbox_capacity" by linarith
  then show ?thesis
  proof cases
    case 1
    then show ?thesis
      using run b1 b2 q(4) by - (rule that [of ?b2], auto simp: publish_result_def Let_def vec_get_def)
  next
    case 2
    have "ring_push (inboxes b ! ?i) env = Ret (Inl env, inboxes b ! ?i)"
      using deliver_spec(2) [OF inv 2] .
    moreover have "?b2\<lparr>inboxes := (inboxes b)[?i := inboxes b ! ?i]\<rparr> = ?b2" by auto
    ultimately have "bus_publish debug b env = Ret (Inl (InboxFull (env_to env)), ?b2)"
      using run 2 by (simp add: vec_get_def)
    then show ?thesis
      using 2 b1 b2 q(4) by - (rule that [of ?b2], auto simp: publish_result_def Let_def)
  next
    case 3
    have i2: "inboxes ?b2 = inboxes b" "mailboxes ?b2 = mailboxes b" using b1 by auto
    obtain mb where mb: "ring_push (inboxes b ! ?i) env = Ret (Inr (), mb)"
      "bus_inv (?b2\<lparr>inboxes := (inboxes b)[?i := mb]\<rparr>)"
      "mailboxes (?b2\<lparr>inboxes := (inboxes b)[?i := mb]\<rparr>) = (mailboxes b)[?i := mailboxes b ! ?i @ [env]]"
      using deliver_spec(1) [OF b2, of ?i env] 3 unfolding i2 by blast
    then have "bus_publish debug b env = Ret (Inr (), ?b2\<lparr>inboxes := (inboxes b)[?i := mb]\<rparr>)"
      using run 3 by (simp add: vec_get_def)
    then show ?thesis
      using 3 b1 mb q(4) by - (rule that [of "?b2\<lparr>inboxes := (inboxes b)[?i := mb]\<rparr>"], auto simp: publish_result_def Let_def)
  qed
qed

text \<open>An undeclared send in a debug build panics before the message moves.\<close>

lemma bus_publish_panics:
  "\<not> routing_ok b (env_from env) (env_to env) \<Longrightarrow> bus_publish True b env = Panic"
  by (simp add: bus_publish_def Let_def)

section \<open>Flush\<close>

text \<open>
  \<open>flush\<close> delivers the messages of the outbox in order up to the first one that cannot be
  delivered; that one is lost and the rest stay queued.
\<close>

fun flush_result :: "'p envelope list \<Rightarrow> 'p envelope list list \<Rightarrow> 'p envelope list \<times> 'p envelope list list" where
  "flush_result [] ms = ([], ms)"
| "flush_result (e # es) ms =
     (case publish_result ms e of
        (Inr _, ms') \<Rightarrow> flush_result es ms'
      | (Inl _, ms') \<Rightarrow> (es, ms'))"

lemma flush_loop_spec:
  assumes "bus_inv b" "length (ring_items (outbox b)) < n"
  shows "\<exists>b'. flush_loop n b = Ret b' \<and> bus_inv b' \<and>
     (ring_items (outbox b'), mailboxes b') = flush_result (ring_items (outbox b)) (mailboxes b)"
  using assms
proof (induction n arbitrary: b)
  case (Suc n)
  have ob: "mpsc_inv (outbox b)" "0 < ring_cap (outbox b)" using Suc.prems(1) by (simp_all add: bus_inv_def)
  show ?case
  proof (cases "ring_items (outbox b)")
    case Nil
    then have "mpsc_pop (outbox b) = Ret (None, outbox b)" by (rule mpsc.deq_empty [OF ob(1)])
    with Nil Suc.prems show ?thesis by simp
  next
    case (Cons e es)
    then obtain q where q: "mpsc_pop (outbox b) = Ret (Some e, q)" "mpsc_inv q" "ring_items q = es"
      "ring_cap q = ring_cap (outbox b)" using mpsc.deq_ok [OF ob(1)] by blast
    let ?b1 = "b\<lparr>outbox := q\<rparr>" and ?i = "unat (env_to e)"
    have b1: "bus_inv ?b1" using Suc.prems(1) q ob by (simp add: bus_inv_def)
    consider "?i \<ge> length (inboxes b)"
      | "?i < length (inboxes b)" "length (mailboxes b ! ?i) \<ge> default_inbox_capacity"
      | "?i < length (inboxes b)" "length (mailboxes b ! ?i) < default_inbox_capacity" by linarith
    then show ?thesis
    proof cases
      case 1
      then show ?thesis using Cons q b1 by (simp add: vec_get_def publish_result_def)
    next
      case 2
      then have "ring_push (inboxes b ! ?i) e = Ret (Inl e, inboxes b ! ?i)"
        using deliver_spec(2) [OF Suc.prems(1)] by blast
      moreover have "?b1\<lparr>inboxes := (inboxes b)[?i := inboxes b ! ?i]\<rparr> = ?b1" by simp
      ultimately show ?thesis using 2 Cons q b1 by (simp add: vec_get_def publish_result_def Let_def)
    next
      case 3
      then obtain mb where mb: "ring_push (inboxes b ! ?i) e = Ret (Inr (), mb)"
        "bus_inv (?b1\<lparr>inboxes := (inboxes b)[?i := mb]\<rparr>)"
        "mailboxes (?b1\<lparr>inboxes := (inboxes b)[?i := mb]\<rparr>) = (mailboxes b)[?i := mailboxes b ! ?i @ [e]]"
        using deliver_spec(1) [OF b1, of ?i e] by auto
      have "length (ring_items q) < n" using Suc.prems(2) Cons q(3) by simp
      with Suc.IH [OF mb(2)] q(3) mb(3) obtain b' where
        "flush_loop n (?b1\<lparr>inboxes := (inboxes b)[?i := mb]\<rparr>) = Ret b'" "bus_inv b'"
        "(ring_items (outbox b'), mailboxes b') = flush_result es ((mailboxes b)[?i := mailboxes b ! ?i @ [e]])"
        by auto
      then show ?thesis using 3 Cons q mb(1) by (simp add: vec_get_def publish_result_def Let_def)
    qed
  qed
qed simp

lemma bus_flush_spec:
  assumes "bus_inv b"
  shows "\<exists>b'. bus_flush b = Ret b' \<and> bus_inv b' \<and>
     (ring_items (outbox b'), mailboxes b') = flush_result (ring_items (outbox b)) (mailboxes b)"
  unfolding bus_flush_def by (rule flush_loop_spec [OF assms]) (simp add: ring_len_def)

text \<open>Between frames the outbox is empty, and then \<open>flush\<close> changes nothing.\<close>

lemma bus_flush_empty:
  assumes "bus_inv b" "ring_items (outbox b) = []"
  shows "bus_flush b = Ret b"
proof -
  have "mpsc_pop (outbox b) = Ret (None, outbox b)"
    using assms by (intro mpsc.deq_empty) (simp add: bus_inv_def)
  then show ?thesis by (simp add: bus_flush_def)
qed

section \<open>Receiving, subscribing and the dependency matrix\<close>

lemma pop_inbox_spec:
  assumes inv: "bus_inv b"
  obtains (none) "pop_inbox b i = Ret (None, b)" "unat i \<ge> length (inboxes b) \<or> mailboxes b ! unat i = []"
  | (msg) e es b' where "unat i < length (inboxes b)" "mailboxes b ! unat i = e # es"
      "pop_inbox b i = Ret (Some e, b')" "bus_inv b'" "mailboxes b' = (mailboxes b)[unat i := es]"
      "outbox b' = outbox b" "edges b' = edges b"
proof (cases "unat i < length (inboxes b)")
  case False
  then show ?thesis by (intro none) (simp_all add: pop_inbox_def vec_get_def)
next
  case True
  have mb: "ring_inv (inboxes b ! unat i)" "ring_cap (inboxes b ! unat i) = default_inbox_capacity"
    using inbox_inv [OF inv True] by blast+
  have items: "mailboxes b ! unat i = ring_items (inboxes b ! unat i)" using True by (simp add: mailboxes_def)
  show ?thesis
  proof (cases "mailboxes b ! unat i")
    case Nil
    then have "ring_pop (inboxes b ! unat i) = Ret (None, inboxes b ! unat i)"
      unfolding items by (rule spsc.deq_empty [OF mb(1)])
    with True Nil show ?thesis by (intro none) (simp_all add: pop_inbox_def vec_get_def)
  next
    case (Cons e es)
    then obtain q where "ring_pop (inboxes b ! unat i) = Ret (Some e, q)" "ring_inv q" "ring_items q = es"
      "ring_cap q = default_inbox_capacity" using spsc.deq_ok [OF mb(1)] mb(2) unfolding items by metis
    with True Cons inv show ?thesis
      by - (rule msg [of e es "b\<lparr>inboxes := (inboxes b)[unat i := q]\<rparr>"],
        auto simp: pop_inbox_def vec_get_def bus_inv_set_inbox mailboxes_set_inbox)
  qed
qed

lemma bus_try_new_inv:
  assumes "bus_try_new al = Inr b"
  shows "bus_inv b" "mailboxes b = []" "ring_items (outbox b) = []"
  using assms mpsc_try_with_capacity_spec [of al outbox_capacity "outbox b"]
  by (auto simp: bus_try_new_def bus_inv_def mailboxes_def outbox_capacity_def split: sum.splits)

lemma spsc_default_cap:
  "spsc_try_with_capacity al default_inbox_capacity = Inr r \<Longrightarrow> ring_cap r = default_inbox_capacity"
proof -
  have "checked_next_power_of_two default_inbox_capacity = Some 64"
    by (simp add: checked_next_power_of_two_def default_inbox_capacity_def upt_rec)
  then show "spsc_try_with_capacity al default_inbox_capacity = Inr r \<Longrightarrow> ring_cap r = default_inbox_capacity"
    by (auto simp: spsc_try_with_capacity_def ring_cap_def default_inbox_capacity_def split: if_splits)
qed

lemma bus_try_add_subscriber_spec:
  assumes "bus_inv b" "bus_try_add_subscriber al b = (r, b')"
  shows "bus_inv b'" "r = Inr i \<Longrightarrow> mailboxes b' = mailboxes b @ [[]] \<and> unat i = length (mailboxes b)"
    "r = Inl x \<Longrightarrow> b' = b" "outbox b' = outbox b" "edges b' = edges b"
proof -
  have "b' = b \<and> (\<exists>x. r = Inl x) \<or> (\<exists>q. length (inboxes b) \<le> u32_max \<and>
      spsc_try_with_capacity (\<lambda>k. al (k + 1)) default_inbox_capacity = Inr q
      \<and> r = Inr (of_nat (length (inboxes b))) \<and> b' = b\<lparr>inboxes := inboxes b @ [q]\<rparr>)"
    using assms(2) by (auto simp: bus_try_add_subscriber_def not_less split: if_splits sum.splits)
  then show "bus_inv b'" "r = Inr i \<Longrightarrow> mailboxes b' = mailboxes b @ [[]] \<and> unat i = length (mailboxes b)"
    "r = Inl x \<Longrightarrow> b' = b" "outbox b' = outbox b" "edges b' = edges b"
    using assms(1) spsc_try_with_capacity_spec(1,2) spsc_default_cap
    by (auto simp: bus_inv_def mailboxes_def unat_of_nat_u32)
qed

lemma mark_row_Some:
  "mark_row n fs row = Some row' \<Longrightarrow> length row = n \<Longrightarrow>
     length row' = n \<and> (\<forall>f\<in>set fs. f < n) \<and> (\<forall>j<n. row' ! j \<longleftrightarrow> row ! j \<or> j \<in> set fs)"
proof (induction fs arbitrary: row)
  case (Cons f fs)
  then have "f < n" "mark_row n fs (row[f := True]) = Some row'" by (auto split: if_splits)
  with Cons.IH [of "row[f := True]"] Cons.prems(2) show ?case by (auto simp: nth_list_update split: if_splits)
qed auto

lemma those_Some: "those xs = Some ys \<longleftrightarrow> xs = map Some ys"
  by (induction xs arbitrary: ys) (auto split: option.splits)

text \<open>After \<open>try_set_debug_edges\<close>, a send is declared exactly when the receiver depends on the sender.\<close>

lemma debug_edges_routing:
  assumes "bus_try_set_debug_edges al b deps = (Inr u, b')" "unat receiver < length deps"
  shows "routing_ok b' sender receiver \<longleftrightarrow> sender = receiver \<or> unat sender \<in> set (deps ! unat receiver)"
proof -
  let ?n = "length deps" and ?r = "unat receiver"
  from assms(1) obtain m where m: "map (\<lambda>fs. mark_row ?n fs (replicate ?n False)) deps = map Some m"
    "b' = b\<lparr>edges := m\<rparr>"
    by (auto simp: bus_try_set_debug_edges_def those_Some Let_def split: if_splits option.splits)
  have len: "length m = ?n" using m(1) by (metis length_map)
  have "mark_row ?n (deps ! ?r) (replicate ?n False) = Some (m ! ?r)"
    using m(1) assms(2) len by (metis nth_map)
  then have row: "length (m ! ?r) = ?n" "\<forall>f\<in>set (deps ! ?r). f < ?n"
    "\<forall>j<?n. m ! ?r ! j \<longleftrightarrow> j \<in> set (deps ! ?r)"
    using mark_row_Some by fastforce+
  then show ?thesis
    using assms(2) len by (auto simp: routing_ok_def m(2) vec_get_def)
qed

section \<open>Properties\<close>

text \<open>A bus with one subscriber, to apply the properties to.\<close>

definition sample_bus :: "nat bus" where
  "sample_bus =
     \<lparr>outbox = \<lparr>rbuf = replicate 32 None, rmask = 31, rhead = 0, rtail = 0, rlock = 0\<rparr>,
      inboxes = [\<lparr>rbuf = replicate 64 None, rmask = 63, rhead = 0, rtail = 0\<rparr>],
      edges = [[False]], bus_next_seq = 0, undeclared_sends = 0\<rparr>"

lemma sample_bus_inv: "bus_inv sample_bus" "mailboxes sample_bus = [[]]" "ring_items (outbox sample_bus) = []"
proof -
  have "ring_shape (outbox sample_bus)"
    by (auto simp: ring_shape_def sample_bus_def intro!: exI [of _ 5])
  moreover have "ring_shape (inboxes sample_bus ! 0)"
    by (auto simp: ring_shape_def sample_bus_def intro!: exI [of _ 6])
  ultimately show "bus_inv sample_bus"
    by (auto simp: bus_inv_def mpsc_inv_def ring_inv_def ring_cap_def default_inbox_capacity_def sample_bus_def)
qed (simp_all add: sample_bus_def mailboxes_def ring_items_def)

definition sample_message :: "nat envelope" where
  "sample_message = \<lparr>env_from = 0, env_to = 0, topic = 1, seq = 0, payload = 42\<rparr>"

text \<open>
  A permitted \<open>publish\<close> delivers at once and in order. When the outbox is empty between calls and
  the send is routed (or the build is not a debug build), \<open>publish\<close> returns; it appends the message
  to the addressee's mailbox, or reports \<open>UnknownRecipient\<close> or \<open>InboxFull\<close> exactly when there is no
  such mailbox or it holds 64 messages, and then no mailbox changes. The outbox is empty again, and
  an undeclared send is counted.
\<close>

theorem publish_delivers:
  assumes inv: "bus_inv b" and empty: "ring_items (outbox b) = []"
    and ok: "routing_ok b (env_from env) (env_to env) \<or> \<not> debug"
  shows "\<exists>b'. bus_publish debug b env = Ret (fst (publish_result (mailboxes b) env), b') \<and> bus_inv b'
     \<and> mailboxes b' = snd (publish_result (mailboxes b) env) \<and> ring_items (outbox b') = []
     \<and> undeclared_sends b' = undeclared_sends b + (if routing_ok b (env_from env) (env_to env) then 0 else 1)"
proof -
  obtain b' where "bus_publish debug b env = Ret (fst (publish_result (mailboxes b) env), b')" "bus_inv b'"
    "mailboxes b' = snd (publish_result (mailboxes b) env)" "ring_items (outbox b') = []"
    "undeclared_sends b' = (if routing_ok b (env_from env) (env_to env) then undeclared_sends b
                            else undeclared_sends b + 1)"
    by (rule bus_publish_spec [OF assms])
  then show ?thesis by auto
qed

theorem publish_delivers_witness:
  "\<exists>b'. bus_publish True sample_bus sample_message =
       Ret (fst (publish_result (mailboxes sample_bus) sample_message), b') \<and> bus_inv b'
     \<and> mailboxes b' = [[sample_message]]"
proof -
  have "routing_ok sample_bus (env_from sample_message) (env_to sample_message)"
    by (simp add: routing_ok_def sample_message_def)
  then have "routing_ok sample_bus (env_from sample_message) (env_to sample_message) \<or> \<not> True" by simp
  from publish_delivers [OF sample_bus_inv(1,3) this] show ?thesis
    by (auto simp: publish_result_def sample_bus_inv(2) default_inbox_capacity_def sample_message_def)
qed

text \<open>
  The routing matrix is the declared dependency relation. After \<open>try_set_debug_edges\<close> accepts the
  dependency lists, a debug build panics on a publish to a subscriber with a row exactly when the
  sender is neither the receiver itself nor one of the receiver's declared dependencies.
\<close>

theorem debug_routing_is_declared:
  assumes set: "bus_try_set_debug_edges al b deps = (Inr u, b')" and inv: "bus_inv b"
    and empty: "ring_items (outbox b) = []" and to: "unat (env_to env) < length deps"
  shows "bus_publish True b' env = Panic \<longleftrightarrow>
     env_from env \<noteq> env_to env \<and> unat (env_from env) \<notin> set (deps ! unat (env_to env))"
proof -
  note rt = debug_edges_routing [OF set to, of "env_from env"]
  have b': "bus_inv b'" "ring_items (outbox b') = []"
    using set inv empty by (auto simp: bus_try_set_debug_edges_def bus_inv_def Let_def split: if_splits option.splits)
  show ?thesis
  proof (cases "routing_ok b' (env_from env) (env_to env)")
    case True
    then have "routing_ok b' (env_from env) (env_to env) \<or> \<not> True" by simp
    then obtain r b2 where "bus_publish True b' env = Ret (r, b2)" by (rule bus_publish_spec [OF b'])
    then show ?thesis using rt True by auto
  next
    case False
    then show ?thesis using rt bus_publish_panics by auto
  qed
qed

theorem debug_routing_is_declared_witness:
  "bus_publish True (snd (bus_try_set_debug_edges (\<lambda>_. True) sample_bus [[], [0]])) (sample_message\<lparr>env_from := 1\<rparr>) = Panic"
proof -
  have set: "bus_try_set_debug_edges (\<lambda>_. True) sample_bus [[], [0]] =
      (Inr (), snd (bus_try_set_debug_edges (\<lambda>_. True) sample_bus [[], [0]]))"
    by (simp add: bus_try_set_debug_edges_def)
  show ?thesis
    using debug_routing_is_declared [OF set sample_bus_inv(1,3), of "sample_message\<lparr>env_from := 1\<rparr>"]
    by (simp add: sample_message_def)
qed

text \<open>
  \<open>flush\<close> ends and hands the queued messages out in order, up to the first one that cannot be
  delivered, which is lost; the rest stays queued.
\<close>

theorem flush_in_order:
  assumes "bus_inv b"
  shows "\<exists>b'. bus_flush b = Ret b' \<and> bus_inv b'
     \<and> (ring_items (outbox b'), mailboxes b') = flush_result (ring_items (outbox b)) (mailboxes b)"
  by (rule bus_flush_spec [OF assms])

theorem flush_in_order_witness:
  "\<exists>b'. bus_flush sample_bus = Ret b' \<and> bus_inv b' \<and> mailboxes b' = [[]]"
  using flush_in_order [OF sample_bus_inv(1)] by (auto simp: sample_bus_inv)

end
