(* ===== verification/Bitset.thy ===== *)
theory Bitset
  imports Prelude
begin

text \<open>
  \<open>src/src/kernel/ecs/bitset.rs\<close>: the dense bitmask that pre-filters entities, and the loop
  that enumerates the set bits of a word (\<open>World::for_each_entity\<close> and
  \<open>World::collect_intersection\<close> share its shape). The abstraction of a bitset is the set of
  indices whose bit is set; every operation is shown to act on that set.
\<close>

section \<open>The bitset\<close>

record bitset =
  words :: "u64 list"

datatype bitset_error = BitsetAllocationFailed | BitsetInvalidIndex

definition word_count :: "nat \<Rightarrow> nat" where
  "word_count capacity = capacity div 64 + (if capacity mod 64 = 0 then 0 else 1)"

definition bitset_new :: "nat \<Rightarrow> bitset" where
  "bitset_new capacity = \<lparr>words = replicate (word_count capacity) 0\<rparr>"

definition bitset_capacity :: "bitset \<Rightarrow> nat" where
  "bitset_capacity b = length (words b) * 64"

definition bitset_ensure :: "bitset \<Rightarrow> nat \<Rightarrow> bitset" where
  "bitset_ensure b i =
     (let count = word_count (sat_add i 1)
      in if count > length (words b) then b\<lparr>words := vec_resize count 0 (words b)\<rparr> else b)"

definition bitset_try_reserve ::
  "alloc \<Rightarrow> bitset \<Rightarrow> nat \<Rightarrow> (bitset_error + unit) \<times> bitset" where
  "bitset_try_reserve al b i =
     (case checked_add i 1 of
        None \<Rightarrow> (Inl BitsetInvalidIndex, b)
      | Some next \<Rightarrow>
          (let count = word_count next
           in if count > length (words b)
              then (if al 0 then (Inr (), b\<lparr>words := vec_resize count 0 (words b)\<rparr>)
                    else (Inl BitsetAllocationFailed, b))
              else (Inr (), b)))"

text \<open>
  \<open>set\<close> grows the vector first, so the index \<open>i div 64\<close> is always in range
  (\<open>bitset_ensure_covers\<close>); \<open>clear\<close> and \<open>test\<close> check the range themselves.
\<close>

definition bitset_set :: "bitset \<Rightarrow> nat \<Rightarrow> bool \<times> bitset" where
  "bitset_set b i =
     (let b1 = bitset_ensure b i;
          w = i div 64; m = push_bit (i mod 64) 1;
          old = (words b1 ! w AND m \<noteq> 0)
      in (\<not> old, b1\<lparr>words := (words b1)[w := words b1 ! w OR m]\<rparr>))"

definition bitset_try_set :: "alloc \<Rightarrow> bitset \<Rightarrow> nat \<Rightarrow> (bitset_error + bool) \<times> bitset" where
  "bitset_try_set al b i =
     (case bitset_try_reserve al b i of
        (Inl e, b1) \<Rightarrow> (Inl e, b1)
      | (Inr _, b1) \<Rightarrow> (let (fresh, b2) = bitset_set b1 i in (Inr fresh, b2)))"

definition bitset_clear :: "bitset \<Rightarrow> nat \<Rightarrow> bool \<times> bitset" where
  "bitset_clear b i =
     (let w = i div 64; m = push_bit (i mod 64) 1
      in if w \<ge> length (words b) then (False, b)
         else (words b ! w AND m \<noteq> 0, b\<lparr>words := (words b)[w := words b ! w AND NOT m]\<rparr>))"

definition bitset_test :: "bitset \<Rightarrow> nat \<Rightarrow> bool" where
  "bitset_test b i \<longleftrightarrow>
     i div 64 < length (words b) \<and> words b ! (i div 64) AND push_bit (i mod 64) 1 \<noteq> 0"

definition superset_of :: "bitset \<Rightarrow> bitset \<Rightarrow> bool" where
  "superset_of a b \<longleftrightarrow>
     (if length (words a) < length (words b) then False
      else list_all (\<lambda>(x, y). x AND y = y)
             (zip (take (length (words b)) (words a)) (words b)))"

section \<open>The set a bitset stands for\<close>

definition bits :: "bitset \<Rightarrow> nat set" where
  "bits b = {i. bitset_test b i}"

lemma bitset_test_bit:
  "bitset_test b i \<longleftrightarrow> i div 64 < length (words b) \<and> bit (words b ! (i div 64)) (i mod 64)"
proof -
  have "i mod 64 < LENGTH(64)" by simp
  then show ?thesis
    unfolding bitset_test_def by (metis and_push_bit_1_iff)
qed

lemma mem_bits:
  "i \<in> bits b \<longleftrightarrow> i div 64 < length (words b) \<and> bit (words b ! (i div 64)) (i mod 64)"
  by (simp add: bits_def bitset_test_bit)

lemma finite_bits [simp]: "finite (bits b)"
proof (rule finite_subset)
  show "bits b \<subseteq> {..<64 * length (words b)}"
    by (auto simp: mem_bits)
qed simp

lemma bits_new [simp]: "bits (bitset_new n) = {}"
  by (auto simp: mem_bits bitset_new_def)

lemma word_count_covers: "i < n \<Longrightarrow> i div 64 < word_count n"
  by (auto simp: word_count_def)

lemma bits_resize:
  "length (words b) \<le> n \<Longrightarrow> bits (b\<lparr>words := vec_resize n 0 (words b)\<rparr>) = bits b"
  by (auto simp: mem_bits nth_vec_resize split: if_splits)

lemma bits_ensure [simp]: "bits (bitset_ensure b i) = bits b"
  by (simp add: bitset_ensure_def Let_def bits_resize)

lemma bitset_ensure_covers:
  assumes "i \<le> usize_max"
  shows "i div 64 < length (words (bitset_ensure b i))"
proof -
  have "i div 64 < word_count (sat_add i 1)"
  proof (cases "i = usize_max")
    case True
    then show ?thesis by (simp add: sat_add_def word_count_def usize_max_def)
  next
    case False
    with assms have "sat_add i 1 = i + 1" by (simp add: sat_add_def)
    then show ?thesis by (simp add: word_count_covers)
  qed
  then show ?thesis by (auto simp: bitset_ensure_def Let_def)
qed

lemma bitset_try_reserve_bits:
  "bits (snd (bitset_try_reserve al b i)) = bits b"
  by (auto simp: bitset_try_reserve_def Let_def bits_resize split: option.splits)

lemma div_mod_64_eq: "i div 64 = j div 64 \<Longrightarrow> i mod 64 = j mod 64 \<Longrightarrow> i = (j :: nat)"
  by (metis div_mult_mod_eq)

lemma bitset_set_spec:
  assumes "i \<le> usize_max"
  shows "fst (bitset_set b i) \<longleftrightarrow> i \<notin> bits b"
    and "bits (snd (bitset_set b i)) = insert i (bits b)"
proof -
  let ?b = "bitset_ensure b i" and ?m = "push_bit (i mod 64) 1 :: u64"
  have len: "i div 64 < length (words ?b)"
    using assms by (rule bitset_ensure_covers)
  have m: "i mod 64 < LENGTH(64)" by simp
  have old: "words ?b ! (i div 64) AND ?m \<noteq> 0 \<longleftrightarrow> i \<in> bits b"
    using and_push_bit_1_iff [OF m] len by (metis bits_ensure mem_bits)
  then show "fst (bitset_set b i) \<longleftrightarrow> i \<notin> bits b"
    by (auto simp: bitset_set_def Let_def)
  have "j \<in> bits (snd (bitset_set b i)) \<longleftrightarrow> j \<in> insert i (bits b)" for j
  proof -
    have "j \<in> bits (snd (bitset_set b i)) \<longleftrightarrow>
        j div 64 < length (words ?b) \<and>
        bit ((words ?b)[i div 64 := words ?b ! (i div 64) OR ?m] ! (j div 64)) (j mod 64)"
      by (simp add: mem_bits bitset_set_def Let_def del: push_bit_of_1)
    also have "\<dots> \<longleftrightarrow> j \<in> bits ?b \<or> j = i"
      using len by (auto simp: mem_bits nth_list_update bit_or_push_bit_1 [OF m]
          dest: div_mod_64_eq simp del: push_bit_of_1 bits_ensure)
    finally show ?thesis by auto
  qed
  then show "bits (snd (bitset_set b i)) = insert i (bits b)" by blast
qed

lemma bitset_clear_spec:
  shows "fst (bitset_clear b i) \<longleftrightarrow> i \<in> bits b"
    and "bits (snd (bitset_clear b i)) = bits b - {i}"
proof -
  let ?m = "push_bit (i mod 64) 1 :: u64"
  have m: "i mod 64 < LENGTH(64)" by simp
  show "fst (bitset_clear b i) \<longleftrightarrow> i \<in> bits b"
    using and_push_bit_1_iff [OF m]
    by (auto simp: bitset_clear_def Let_def mem_bits simp del: push_bit_of_1)
  have "j \<in> bits (snd (bitset_clear b i)) \<longleftrightarrow> j \<in> bits b - {i}" for j
    by (auto simp: bitset_clear_def Let_def mem_bits nth_list_update
        bit_and_not_push_bit_1 dest: div_mod_64_eq simp del: push_bit_of_1)
  then show "bits (snd (bitset_clear b i)) = bits b - {i}" by blast
qed

lemma and_eq_self_iff:
  fixes x y :: "'a::len word"
  shows "x AND y = y \<longleftrightarrow> (\<forall>k. bit y k \<longrightarrow> bit x k)"
  by (auto simp: bit_eq_iff bit_and_iff dest: bit_imp_le_length)

lemma superset_of_iff:
  "superset_of a b \<longleftrightarrow> length (words b) \<le> length (words a) \<and> bits b \<subseteq> bits a"
proof (cases "length (words b) \<le> length (words a)")
  case True
  let ?P = "\<lambda>w. words a ! w AND words b ! w = words b ! w"
  have "superset_of a b \<longleftrightarrow> (\<forall>w<length (words b). ?P w)"
    using True by (auto simp: superset_of_def list_all_length)
  also have "\<dots> \<longleftrightarrow> bits b \<subseteq> bits a"
  proof
    assume "\<forall>w<length (words b). ?P w"
    with True show "bits b \<subseteq> bits a"
      by (auto simp: mem_bits and_eq_self_iff)
  next
    assume sub: "bits b \<subseteq> bits a"
    show "\<forall>w<length (words b). ?P w"
    proof (intro allI impI)
      fix w assume w: "w < length (words b)"
      have "bit (words a ! w) k" if k: "bit (words b ! w) k" for k
      proof -
        from k have "k < 64" by (auto dest: bit_imp_le_length)
        with w k have "w * 64 + k \<in> bits b" by (simp add: mem_bits)
        with sub have "w * 64 + k \<in> bits a" by blast
        with \<open>k < 64\<close> show ?thesis by (simp add: mem_bits)
      qed
      then show "?P w" by (simp add: and_eq_self_iff)
    qed
  qed
  finally show ?thesis using True by simp
next
  case False
  then show ?thesis by (simp add: superset_of_def)
qed

section \<open>Enumerating the set bits of a word\<close>

text \<open>
  The loop \<open>while mask != 0 { bit = mask.trailing_zeros(); mask &= mask - 1; \<dots> }\<close>. Clearing the
  lowest set bit makes the mask smaller, so the loop ends.
\<close>

definition trailing_zeros :: "u64 \<Rightarrow> nat" where
  "trailing_zeros m = (case find (bit m) [0..<64] of None \<Rightarrow> 64 | Some k \<Rightarrow> k)"

lemma find_upt_Some:
  "find p [0..<n] = Some k \<longleftrightarrow> k < n \<and> p k \<and> (\<forall>j<k. \<not> p j)"
  by (auto simp: find_Some_iff)

lemma trailing_zeros_lowest:
  assumes "m \<noteq> 0"
  shows "bit m (trailing_zeros m)" "trailing_zeros m < 64"
    and "\<And>j. j < trailing_zeros m \<Longrightarrow> \<not> bit m j"
proof -
  obtain j where "bit m j" using assms by (metis bit_0_eq bit_eq_iff bot_apply bot_bool_def)
  then have "j < 64" by (auto dest: bit_imp_le_length)
  with \<open>bit m j\<close> have "find (bit m) [0..<64] \<noteq> None"
    by (auto simp: find_None_iff)
  then obtain k where k: "find (bit m) [0..<64] = Some k" by blast
  then have "trailing_zeros m = k" by (simp add: trailing_zeros_def)
  with k show "bit m (trailing_zeros m)" "trailing_zeros m < 64"
    "\<And>j. j < trailing_zeros m \<Longrightarrow> \<not> bit m j"
    by (auto simp: find_upt_Some)
qed

lemma bit_unat: "bit (w :: 'a::len word) i \<longleftrightarrow> odd (unat w div 2 ^ i)"
proof -
  have "bit w i \<longleftrightarrow> bit (unat w) i" by (simp add: bit_unsigned_iff)
  then show ?thesis by (simp add: bit_iff_odd)
qed

lemma bit_clear_lowest:
  fixes m :: u64
  assumes k: "bit m k" "\<And>j. j < k \<Longrightarrow> \<not> bit m j"
  shows "bit (m AND (m - 1)) i \<longleftrightarrow> bit m i \<and> i \<noteq> k"
proof -
  let ?n = "unat m"
  have "m \<noteq> 0" using k(1) by auto
  then have n1: "unat (m - 1) = ?n - 1" and pos: "0 < ?n"
    by (simp_all add: unat_minus_one unat_gt_0)
  have low: "?n mod 2 ^ k = 0"
  proof -
    have "bit (take_bit k ?n) j = False" for j
      using k(2) [of j] by (simp add: bit_take_bit_iff bit_unsigned_iff)
    then have "take_bit k ?n = 0" by (simp add: bit_eq_iff)
    then show ?thesis by (simp add: take_bit_eq_mod)
  qed
  consider "i < k" | "i = k" | "k < i" by linarith
  then show ?thesis
  proof cases
    case 1
    with k(2) show ?thesis by (simp add: bit_and_iff)
  next
    case 2
    from low obtain q where q: "?n = q * 2 ^ k" by (metis dvd_def mod_0_imp_dvd mult.commute)
    with pos have "0 < q" by (metis mult_is_0 neq0_conv)
    have "(q * 2 ^ k - 1) div 2 ^ k = q - 1"
    proof (rule div_nat_eqI)
      obtain p where p: "q = Suc p" using \<open>0 < q\<close> gr0_conv_Suc by blast
      have "p * 2 ^ k < p * 2 ^ k + 2 ^ k" by simp
      then have "2 ^ k * p \<le> Suc p * 2 ^ k - 1" by (simp only: mult_Suc mult.commute)
      with p show "2 ^ k * (q - 1) \<le> q * 2 ^ k - 1" by simp
      show "q * 2 ^ k - 1 < 2 ^ k * Suc (q - 1)"
        using \<open>0 < q\<close> by (simp add: mult.commute)
    qed
    moreover have "odd q" using k(1) q by (simp add: bit_unat)
    ultimately have "\<not> bit (m - 1) k"
      using \<open>0 < q\<close> by (simp add: bit_unat n1 q)
    with 2 show ?thesis by (simp add: bit_and_iff)
  next
    case 3
    have "?n mod 2 ^ i \<noteq> 0"
    proof
      assume "?n mod 2 ^ i = 0"
      then have "bit (take_bit i ?n) k = False" by (simp add: take_bit_eq_mod)
      with 3 k(1) show False by (simp add: bit_take_bit_iff bit_unsigned_iff)
    qed
    then have "(?n - 1) div 2 ^ i = ?n div 2 ^ i"
      by (metis Suc_pred' div_Suc pos mod_Suc)
    then have "bit (m - 1) i \<longleftrightarrow> bit m i" by (simp add: bit_unat n1)
    with 3 show ?thesis by (auto simp: bit_and_iff)
  qed
qed

lemma clear_lowest_less: "m \<noteq> 0 \<Longrightarrow> unat (m AND (m - 1)) < unat (m :: u64)"
proof -
  assume m: "m \<noteq> 0"
  have "m AND (m - 1) \<le> m - 1" by (rule word_and_le1)
  then have "unat (m AND (m - 1)) \<le> unat (m - 1)" by (simp add: word_le_nat_alt)
  moreover have "unat (m - 1) = unat m - 1" using m by (rule unat_minus_one)
  moreover have "0 < unat m" using m by (simp add: unat_gt_0)
  ultimately show ?thesis by linarith
qed

function drain_bits :: "u64 \<Rightarrow> nat list" where
  "drain_bits m = (if m = 0 then [] else trailing_zeros m # drain_bits (m AND (m - 1)))"
  by pat_completeness auto
termination
  by (relation "measure unat") (auto simp: clear_lowest_less)

declare drain_bits.simps [simp del]

lemma drain_bits_spec:
  "sorted_wrt (<) (drain_bits m) \<and> set (drain_bits m) = {i. bit m i}"
proof (induction m rule: drain_bits.induct)
  case (1 m)
  show ?case
  proof (cases "m = 0")
    case True
    then show ?thesis by (simp add: drain_bits.simps)
  next
    case False
    let ?k = "trailing_zeros m"
    have IH: "sorted_wrt (<) (drain_bits (m AND (m - 1)))"
      "set (drain_bits (m AND (m - 1))) = {i. bit (m AND (m - 1)) i}"
      using "1.IH" False by auto
    have low: "bit (m AND (m - 1)) i \<longleftrightarrow> bit m i \<and> i \<noteq> ?k" for i
      using trailing_zeros_lowest [OF False] by (intro bit_clear_lowest) auto
    have "?k < i" if "bit m i" "i \<noteq> ?k" for i
      using trailing_zeros_lowest(3) [OF False] that by (meson linorder_neqE_nat)
    with IH low trailing_zeros_lowest(1) [OF False] False show ?thesis
      by (subst (1 2) drain_bits.simps) auto
  qed
qed

text \<open>The two nested loops: every word of the slice in order, every set bit of the word.\<close>

fun word_indices_from :: "nat \<Rightarrow> u64 list \<Rightarrow> nat list" where
  "word_indices_from w [] = []"
| "word_indices_from w (m # ms) =
     map (\<lambda>b. w * 64 + b) (drain_bits m) @ word_indices_from (Suc w) ms"

definition word_indices :: "u64 list \<Rightarrow> nat list" where
  "word_indices ms = word_indices_from 0 ms"

lemma set_word_indices_from:
  "set (word_indices_from w ms) =
     {i. w \<le> i div 64 \<and> i div 64 < w + length ms \<and> bit (ms ! (i div 64 - w)) (i mod 64)}"
proof (induction ms arbitrary: w)
  case Nil
  then show ?case by auto
next
  case (Cons m ms)
  have "(\<lambda>b. w * 64 + b) ` {i. bit m i} = {i. i div 64 = w \<and> bit m (i mod 64)}" (is "?l = ?r")
  proof
    show "?l \<subseteq> ?r"
    proof
      fix i assume "i \<in> ?l"
      then obtain b where "bit m b" "i = w * 64 + b" by auto
      moreover from \<open>bit m b\<close> have "b < 64" by (auto dest: bit_imp_le_length)
      ultimately show "i \<in> ?r" by simp
    qed
    show "?r \<subseteq> ?l"
      by (auto intro!: image_eqI [where x = "_ mod 64"])
  qed
  then show ?case
    by (auto simp: Cons.IH drain_bits_spec nth_Cons' Suc_le_eq)
qed

lemma sorted_word_indices_from: "sorted_wrt (<) (word_indices_from w ms)"
proof (induction ms arbitrary: w)
  case Nil
  then show ?case by simp
next
  case (Cons m ms)
  have b: "x < 64" if "x \<in> set (drain_bits m)" for x
    using that by (auto simp: drain_bits_spec dest: bit_imp_le_length)
  have "sorted_wrt (<) (map (\<lambda>b. w * 64 + b) (drain_bits m))"
    using drain_bits_spec [of m] by (simp add: sorted_wrt_map)
  moreover have "w * 64 + x < y"
    if "x \<in> set (drain_bits m)" "y \<in> set (word_indices_from (Suc w) ms)" for x y
  proof -
    have "Suc w * 64 \<le> y" using that(2) by (auto simp: set_word_indices_from)
    with b [OF that(1)] show ?thesis by simp
  qed
  ultimately show ?case using Cons.IH by (auto simp: sorted_wrt_append)
qed

lemma word_indices_spec:
  "sorted_wrt (<) (word_indices ms)" "set (word_indices ms) = bits \<lparr>words = ms\<rparr>"
  by (auto simp: word_indices_def sorted_word_indices_from set_word_indices_from mem_bits)

lemma set_word_indices_words: "set (word_indices (words b)) = bits b"
  by (cases b) (simp add: word_indices_spec)

section \<open>Properties\<close>

text \<open>
  \<open>superset_of\<close> compares word by word and answers true exactly when the other set has no more
  words and all its bits are in this set.
\<close>

theorem superset_of_exact:
  "superset_of a b \<longleftrightarrow> length (words b) \<le> length (words a) \<and> bits b \<subseteq> bits a"
  by (rule superset_of_iff)

text \<open>
  So a set whose bits are all in this set is still not a subset for \<open>superset_of\<close> when it was
  created with a larger capacity.
\<close>

lemma superset_of_capacity:
  "\<not> superset_of \<lparr>words = [1]\<rparr> \<lparr>words = [1, 0]\<rparr> \<and> bits \<lparr>words = [1, 0]\<rparr> \<subseteq> bits \<lparr>words = [1 :: u64]\<rparr>"
  by (auto simp: superset_of_iff mem_bits nth_Cons less_Suc_eq split: nat.splits)

text \<open>
  The scan of a bitset by trailing zeros (the inner loop of the queries) ends and lists exactly
  the members, in increasing order.
\<close>

theorem bit_scan_exact:
  "sorted_wrt (<) (word_indices ms) \<and> set (word_indices ms) = bits \<lparr>words = ms\<rparr>"
  using word_indices_spec by blast

end
