(* ===== verification/Entities.thy ===== *)
theory Entities
  imports Prelude
begin

text \<open>
  \<open>src/src/kernel/ecs/entity.rs\<close>: the entity table. A handle is an index and a generation; a
  freed slot goes on a free list and comes back with the next generation. The table is shown to
  implement the set of its live handles, and a destroyed handle to stay dead until its slot has
  been reused \<open>2 ^ 32\<close> times.
\<close>

section \<open>Handles and the table\<close>

record entity =
  index :: u32
  generation :: u32

datatype entity_error = IndexOverflow | EntityAllocationFailed

definition entity_invalid :: entity where
  "entity_invalid = \<lparr>index = - 1, generation = - 1\<rparr>"

definition entity_is_valid :: "entity \<Rightarrow> bool" where
  "entity_is_valid e \<longleftrightarrow> e \<noteq> entity_invalid"

record entities =
  generations :: "u32 list"
  free :: "u32 list"
  live :: nat

definition entities_new :: entities where
  "entities_new = \<lparr>generations = [], free = [], live = 0\<rparr>"

text \<open>\<open>checked_add(1).unwrap_or(0)\<close>.\<close>

definition next_generation :: "u32 \<Rightarrow> u32" where
  "next_generation g = (case wchecked_add g 1 of Some h \<Rightarrow> h | None \<Rightarrow> 0)"

definition is_alive :: "entities \<Rightarrow> entity \<Rightarrow> bool" where
  "is_alive t e \<longleftrightarrow>
     unat (index e) < length (generations t)
     \<and> generations t ! unat (index e) = generation e
     \<and> index e \<notin> set (free t)"

definition try_create :: "alloc \<Rightarrow> entities \<Rightarrow> ((entity_error + entity) \<times> entities) run" where
  "try_create al t =
     (case vec_pop (free t) of
        Some (slot, rest) \<Rightarrow>
          (if unat slot < length (generations t)
           then let g = next_generation (generations t ! unat slot)
                in Ret (Inr \<lparr>index = slot, generation = g\<rparr>,
                        t\<lparr>free := rest,
                          generations := (generations t)[unat slot := g],
                          live := live t + 1\<rparr>)
           else Panic)
      | None \<Rightarrow>
          (if length (generations t) \<ge> u32_max then Ret (Inl IndexOverflow, t)
           else if \<not> al 0 then Ret (Inl EntityAllocationFailed, t)
           else Ret (Inr \<lparr>index = of_nat (length (generations t)), generation = 0\<rparr>,
                     t\<lparr>generations := generations t @ [0], live := live t + 1\<rparr>)))"

text \<open>\<open>self.live -= 1\<close> underflows (a panic with overflow checks on) when no entity is live.\<close>

definition try_destroy ::
  "alloc \<Rightarrow> entities \<Rightarrow> entity \<Rightarrow> ((entity_error + bool) \<times> entities) run" where
  "try_destroy al t e =
     (let slot = unat (index e)
      in if slot \<ge> length (generations t) \<or> \<not> is_alive t e then Ret (Inr False, t)
         else if \<not> al 0 then Ret (Inl EntityAllocationFailed, t)
         else if live t = 0 then Panic
         else Ret (Inr True, t\<lparr>free := free t @ [of_nat slot], live := live t - 1\<rparr>))"

definition create :: "alloc \<Rightarrow> entities \<Rightarrow> (entity \<times> entities) run" where
  "create al t = run_bind (try_create al t)
     (\<lambda>(r, t'). case r of Inl _ \<Rightarrow> Panic | Inr e \<Rightarrow> Ret (e, t'))"

definition destroy :: "alloc \<Rightarrow> entities \<Rightarrow> entity \<Rightarrow> (bool \<times> entities) run" where
  "destroy al t e = run_bind (try_destroy al t e)
     (\<lambda>(r, t'). Ret (case r of Inl _ \<Rightarrow> False | Inr b \<Rightarrow> b, t'))"

definition watermark :: "entities \<Rightarrow> nat" where
  "watermark t = length (generations t)"

definition entities_iter :: "entities \<Rightarrow> entity list" where
  "entities_iter t =
     concat (map (\<lambda>(i, g). if (of_nat i :: u32) \<in> set (free t) then []
                          else [\<lparr>index = of_nat i, generation = g\<rparr>])
                 (enumerate 0 (generations t)))"

definition generation_at :: "entities \<Rightarrow> nat \<Rightarrow> u32 option" where
  "generation_at t i = vec_get (generations t) i"

section \<open>The invariant of the table\<close>

definition entities_inv :: "entities \<Rightarrow> bool" where
  "entities_inv t \<longleftrightarrow>
     distinct (free t)
     \<and> (\<forall>s\<in>set (free t). unat s < length (generations t))
     \<and> live t + length (free t) = length (generations t)
     \<and> length (generations t) \<le> u32_max"

definition live_set :: "entities \<Rightarrow> entity set" where
  "live_set t = {e. is_alive t e}"

lemma entities_inv_new [simp]: "entities_inv entities_new"
  by (simp add: entities_inv_def entities_new_def)

lemma live_set_new [simp]: "live_set entities_new = {}"
  by (simp add: live_set_def is_alive_def entities_new_def)

lemma unat_eq_iff_u32: "unat (a :: u32) = unat b \<longleftrightarrow> a = b"
  by (simp add: word_unat_eq_iff)

lemma of_nat_length_fresh:
  assumes "entities_inv t"
  shows "of_nat (length (generations t)) \<notin> set (free t)"
  using assms by (force simp: entities_inv_def unat_of_nat_u32)

text \<open>
  Creation cannot panic, keeps the invariant, and adds exactly one handle, which was not live.
\<close>

lemma try_create_spec:
  assumes inv: "entities_inv t"
  obtains (ok) e t' where "try_create al t = Ret (Inr e, t')" "entities_inv t'"
      "e \<notin> live_set t" "live_set t' = insert e (live_set t)" "live t' = live t + 1"
      "unat (index e) < length (generations t')"
      "length (generations t') \<le> length (generations t) + 1"
      "length (generations t) \<le> length (generations t')"
      "set (free t') = set (free t) - {index e}"
  | (err) x where "try_create al t = Ret (Inl x, t)"
proof (cases "vec_pop (free t)")
  case None
  then have f: "free t = []" by simp
  show ?thesis
  proof (cases "length (generations t) \<ge> u32_max \<or> \<not> al 0")
    case True
    with None have "\<exists>x. try_create al t = Ret (Inl x, t)" by (auto simp: try_create_def)
    then show ?thesis using err by blast
  next
    case False
    let ?n = "length (generations t)"
    let ?e = "\<lparr>index = of_nat ?n, generation = 0\<rparr>"
    let ?t = "t\<lparr>generations := generations t @ [0], live := live t + 1\<rparr>"
    have un: "unat (of_nat ?n :: u32) = ?n" using False by (simp add: unat_of_nat_u32)
    have "live_set ?t = insert ?e (live_set t)"
      using f un by (auto simp: live_set_def is_alive_def nth_append less_Suc_eq unat_eq_iff_u32
          intro!: entity.equality) (metis un word_unat_eq_iff)+
    moreover have "?e \<notin> live_set t" using un by (simp add: live_set_def is_alive_def)
    moreover have "entities_inv ?t" using inv False f by (simp add: entities_inv_def)
    moreover have "try_create al t = Ret (Inr ?e, ?t)"
      using None False by (simp add: try_create_def)
    ultimately show ?thesis using un f by - (rule ok [of ?e ?t], simp_all)
  qed
next
  case (Some p)
  obtain slot rest where p: "p = (slot, rest)" by force
  with Some have f: "free t = rest @ [slot]" by (simp add: vec_pop_Some)
  from inv f have slot: "unat slot < length (generations t)" "slot \<notin> set rest"
    by (auto simp: entities_inv_def)
  let ?g = "next_generation (generations t ! unat slot)"
  let ?e = "\<lparr>index = slot, generation = ?g\<rparr>"
  let ?t = "t\<lparr>free := rest, generations := (generations t)[unat slot := ?g], live := live t + 1\<rparr>"
  have "live_set ?t = insert ?e (live_set t)"
    using f slot by (auto simp: live_set_def is_alive_def nth_list_update unat_eq_iff_u32
        split: if_splits)
  moreover have "?e \<notin> live_set t" using f by (simp add: live_set_def is_alive_def)
  moreover have "entities_inv ?t" using inv f by (auto simp: entities_inv_def)
  moreover have "try_create al t = Ret (Inr ?e, ?t)"
    using Some p slot by (simp add: try_create_def Let_def)
  ultimately show ?thesis using slot f by - (rule ok [of ?e ?t], auto)
qed

lemma try_destroy_spec:
  assumes inv: "entities_inv t"
  obtains (dead) "try_destroy al t e = Ret (Inr False, t)" "e \<notin> live_set t"
  | (err) x where "try_destroy al t e = Ret (Inl x, t)" "e \<in> live_set t"
  | (ok) t' where "try_destroy al t e = Ret (Inr True, t')" "e \<in> live_set t" "entities_inv t'"
      "live_set t' = live_set t - {e}" "live t = live t' + 1"
      "generations t' = generations t" "set (free t') = insert (index e) (set (free t))"
proof (cases "is_alive t e")
  case False
  then show ?thesis by (intro dead) (simp_all add: try_destroy_def Let_def live_set_def)
next
  case alive: True
  then have lt: "unat (index e) < length (generations t)" and nf: "index e \<notin> set (free t)"
    by (simp_all add: is_alive_def)
  show ?thesis
  proof (cases "al 0")
    case False
    with alive lt show ?thesis
      by (intro err) (auto simp: try_destroy_def Let_def live_set_def)
  next
    case True
    have "card (set (free t)) < length (generations t)"
    proof -
      have "unat ` set (free t) \<subset> {..<length (generations t)}"
      proof (rule psubsetI)
        show "unat ` set (free t) \<subseteq> {..<length (generations t)}"
          using inv by (auto simp: entities_inv_def)
        have "unat (index e) \<notin> unat ` set (free t)" using nf by (auto simp: unat_eq_iff_u32)
        with lt show "unat ` set (free t) \<noteq> {..<length (generations t)}" by blast
      qed
      then have "card (unat ` set (free t)) < card {..<length (generations t)}"
        by (intro psubset_card_mono) simp_all
      moreover have "card (unat ` set (free t)) = card (set (free t))"
        by (intro card_image inj_onI) (simp add: unat_eq_iff_u32)
      ultimately show ?thesis by simp
    qed
    with inv have "0 < live t"
      by (simp add: entities_inv_def distinct_card)
    let ?t = "t\<lparr>free := free t @ [index e], live := live t - 1\<rparr>"
    have "entities_inv ?t" using inv lt nf \<open>0 < live t\<close> by (auto simp: entities_inv_def)
    moreover have "live_set ?t = live_set t - {e}"
      using alive by (auto simp: live_set_def is_alive_def intro: entity.equality)
    moreover have "try_destroy al t e = Ret (Inr True, ?t)"
      using True alive lt \<open>0 < live t\<close> by (simp add: try_destroy_def Let_def)
    moreover have "e \<in> live_set t" using alive by (simp add: live_set_def)
    ultimately show ?thesis using \<open>0 < live t\<close> by - (rule ok [of ?t], simp_all)
  qed
qed

text \<open>The iterator yields every live handle exactly once, in index order.\<close>

lemma entities_iter_filter:
  assumes "entities_inv t"
  shows "entities_iter t =
    map (\<lambda>i. \<lparr>index = of_nat i, generation = generations t ! i\<rparr>)
      (filter (\<lambda>i. (of_nat i :: u32) \<notin> set (free t)) [0..<length (generations t)])"
proof -
  have "concat (map (\<lambda>(i, g). if P i then [] else [f i g]) (zip ns gs)) =
      map (\<lambda>(i, g). f i g) (filter (\<lambda>(i, g). \<not> P i) (zip ns gs))" for P and f :: "nat \<Rightarrow> u32 \<Rightarrow> entity" and ns gs
    by (induction ns gs rule: list_induct2') auto
  moreover have "map (\<lambda>(i, g). f i g) (filter (\<lambda>(i, g). \<not> P i) (zip [0..<length gs] gs)) =
      map (\<lambda>i. f i (gs ! i)) (filter (\<lambda>i. \<not> P i) [0..<length gs])" for P and f :: "nat \<Rightarrow> u32 \<Rightarrow> entity" and gs
  proof -
    have "zip [0..<length gs] gs = map (\<lambda>i. (i, gs ! i)) [0..<length gs]"
      by (intro nth_equalityI) auto
    then show ?thesis by (simp add: filter_map comp_def)
  qed
  ultimately show ?thesis by (simp add: entities_iter_def enumerate_eq_zip)
qed

lemma entities_iter_spec:
  assumes "entities_inv t"
  shows "set (entities_iter t) = live_set t" "distinct (entities_iter t)"
    "length (entities_iter t) = live t"
proof -
  let ?is = "filter (\<lambda>i. (of_nat i :: u32) \<notin> set (free t)) [0..<length (generations t)]"
  have un: "unat (of_nat i :: u32) = i" if "i < length (generations t)" for i
    using that assms by (simp add: entities_inv_def unat_of_nat_u32)
  show set_eq: "set (entities_iter t) = live_set t"
  proof
    show "set (entities_iter t) \<subseteq> live_set t"
      using un by (auto simp: entities_iter_filter [OF assms] live_set_def is_alive_def)
    show "live_set t \<subseteq> set (entities_iter t)"
    proof
      fix e assume "e \<in> live_set t"
      then have "is_alive t e" by (simp add: live_set_def)
      then show "e \<in> set (entities_iter t)"
        by (auto simp: entities_iter_filter [OF assms] is_alive_def
            intro!: image_eqI [where x = "unat (index e)"])
    qed
  qed
  have inj: "inj_on (\<lambda>i. \<lparr>index = of_nat i, generation = generations t ! i\<rparr>) (set ?is)"
    using un by (auto intro!: inj_onI) metis
  then show "distinct (entities_iter t)"
    by (simp add: entities_iter_filter [OF assms] distinct_map)
  have "unat ` set (free t) \<subseteq> {..<length (generations t)}"
    using assms by (auto simp: entities_inv_def)
  moreover have "set ?is = {..<length (generations t)} - unat ` set (free t)"
    using un by (auto simp: image_iff) (metis unat_eq_iff_u32 un)+
  moreover have "card (unat ` set (free t)) = length (free t)"
    using assms by (simp add: card_image inj_on_def unat_eq_iff_u32 entities_inv_def distinct_card)
  ultimately have "card (set ?is) = length (generations t) - length (free t)"
    by (simp add: card_Diff_subset)
  moreover have "length (entities_iter t) = card (set ?is)"
    by (simp add: entities_iter_filter [OF assms] flip: distinct_card)
  moreover have "length (generations t) - length (free t) = live t"
    using assms unfolding entities_inv_def by linarith
  ultimately show "length (entities_iter t) = live t" by simp
qed

section \<open>Sequences of table operations and stale handles\<close>

datatype entity_op = Create | Destroy entity

fun exec_op :: "alloc \<Rightarrow> entity_op \<Rightarrow> entities \<Rightarrow> (entity list \<times> entities) run" where
  "exec_op al Create t = run_bind (try_create al t)
     (\<lambda>(r, t'). Ret (case r of Inl _ \<Rightarrow> [] | Inr e \<Rightarrow> [e], t'))"
| "exec_op al (Destroy e) t = run_bind (try_destroy al t e) (\<lambda>(r, t'). Ret ([], t'))"

text \<open>A run of the table: the handles it creates, in order, and the final table.\<close>

fun exec_ops :: "(alloc \<times> entity_op) list \<Rightarrow> entities \<Rightarrow> (entity list \<times> entities) run" where
  "exec_ops [] t = Ret ([], t)"
| "exec_ops ((al, oper) # rest) t =
     run_bind (exec_op al oper t)
       (\<lambda>(hs, t'). run_bind (exec_ops rest t') (\<lambda>(hs', t''). Ret (hs @ hs', t'')))"

lemma next_generation_wraps: "next_generation g = g + 1"
proof (cases "unat g + 1 < 2 ^ 32")
  case False
  then have "unat g = 2 ^ 32 - 1" using unat_u32_less [of g] by simp
  then have "g + 1 = 0" by (simp add: word_unat_eq_iff unat_word_ariths)
  with False show ?thesis by (simp add: next_generation_def wchecked_add_def)
qed (simp add: next_generation_def wchecked_add_def)

lemma try_create_generations:
  assumes "entities_inv t" "try_create al t = Ret (Inr e, t')" "j < length (generations t)"
  shows "generations t' ! j = generations t ! j + (if j = unat (index e) then 1 else 0)"
  using assms
  by (auto simp: try_create_def Let_def nth_append next_generation_wraps unat_of_nat_u32 u32_max_def
      nth_list_update split: option.splits if_splits prod.splits)

lemma exec_op_inv:
  assumes "entities_inv t"
  obtains hs t' where "exec_op al oper t = Ret (hs, t')" "entities_inv t'"
proof (cases oper)
  case Create
  from assms show ?thesis
    by (cases rule: try_create_spec [of t al]) (auto simp: Create assms intro: that)
next
  case (Destroy e)
  from assms show ?thesis
    by (cases rule: try_destroy_spec [of t al e]) (auto simp: Destroy assms intro: that)
qed

lemma exec_ops_inv:
  assumes "entities_inv t"
  shows "\<exists>hs t'. exec_ops ops t = Ret (hs, t') \<and> entities_inv t'"
  using assms
proof (induction ops t rule: exec_ops.induct)
  case (2 al oper rest t)
  obtain hs t' where "exec_op al oper t = Ret (hs, t')" "entities_inv t'"
    using "2.prems" by (rule exec_op_inv)
  with "2.IH" show ?case by fastforce
qed simp

text \<open>
  The generation of a slot counts, modulo \<open>2 ^ 32\<close>, how often the slot was handed out; a slot
  that was never handed out again is still on the free list.
\<close>

definition slot_history :: "u32 \<Rightarrow> u32 \<Rightarrow> nat \<Rightarrow> entities \<Rightarrow> bool" where
  "slot_history i g c t \<longleftrightarrow>
     unat i < length (generations t)
     \<and> generations t ! unat i = g + of_nat c
     \<and> (c = 0 \<longrightarrow> i \<in> set (free t))"

abbreviation reuses :: "u32 \<Rightarrow> entity list \<Rightarrow> nat" where
  "reuses i hs \<equiv> length (filter (\<lambda>e. index e = i) hs)"

lemma exec_op_slot_history:
  assumes "entities_inv t" "slot_history i g c t" "exec_op al oper t = Ret (hs, t')"
  shows "slot_history i g (c + reuses i hs) t'"
proof (cases oper)
  case Create
  from assms(1) show ?thesis
  proof (cases rule: try_create_spec [of t al])
    case (ok e t2)
    with Create assms(3) have "hs = [e]" "t' = t2" by auto
    moreover have "generations t2 ! unat i =
        generations t ! unat i + (if unat i = unat (index e) then 1 else 0)"
      using try_create_generations [OF assms(1) ok(1)] assms(2) by (simp add: slot_history_def)
    ultimately show ?thesis
      using assms(2) ok by (auto simp: slot_history_def unat_eq_iff_u32)
  next
    case (err x)
    with Create assms show ?thesis by auto
  qed
next
  case (Destroy e)
  from assms(1) show ?thesis
    by (cases rule: try_destroy_spec [of t al e]) (use Destroy assms in \<open>auto simp: slot_history_def\<close>)
qed

lemma exec_ops_slot_history:
  assumes "entities_inv t" "slot_history i g c t" "exec_ops ops t = Ret (hs, t')"
  shows "slot_history i g (c + reuses i hs) t'"
  using assms
proof (induction ops t arbitrary: c hs t' rule: exec_ops.induct)
  case (1 t)
  then show ?case by simp
next
  case (2 al oper rest t)
  then obtain hs1 t1 hs2 where s: "exec_op al oper t = Ret (hs1, t1)"
    "exec_ops rest t1 = Ret (hs2, t')" "hs = hs1 @ hs2"
    by (auto simp: run_bind_Ret_iff)
  have "entities_inv t1" using "2.prems"(1) exec_op_inv s(1) by (metis prod.inject run.inject)
  moreover have "slot_history i g (c + reuses i hs1) t1"
    using "2.prems" s(1) by (intro exec_op_slot_history)
  ultimately have "slot_history i g (c + reuses i hs1 + reuses i hs2) t'"
    using "2.IH" [OF _ _ s(2)] by blast
  with s(3) show ?case by (simp add: add.assoc)
qed

lemma destroyed_slot_history:
  assumes "entities_inv t" "try_destroy al t h = Ret (Inr True, t1)"
  shows "slot_history (index h) (generation h) 0 t1" "entities_inv t1"
  using assms(1)
  by (cases rule: try_destroy_spec [of t al h];
      use assms in \<open>auto simp: slot_history_def live_set_def is_alive_def\<close>)+

lemma slot_history_dead:
  assumes "slot_history (index h) (generation h) c t" "c < 2 ^ 32"
  shows "\<not> is_alive t h"
proof
  assume "is_alive t h"
  with assms(1) have "(of_nat c :: u32) = 0" "c \<noteq> 0"
    by (auto simp: slot_history_def is_alive_def)
  moreover from assms(2) have "unat (of_nat c :: u32) = c"
    by (intro unat_of_nat_u32) (simp add: u32_max_def)
  ultimately show False by simp
qed

section \<open>Properties\<close>

text \<open>
  C4: A destroyed handle stays dead. After \<open>try_destroy\<close> accepts a handle, no sequence of creations and
  destructions makes that handle alive again, as long as its slot is reused fewer than 2^32 times
  (the range of the generation counter); and every such sequence returns.
\<close>

theorem destroyed_handle_stays_dead:
  assumes "entities_inv t" "try_destroy al t h = Ret (Inr True, t1)"
  shows "\<exists>hs t2. exec_ops ops t1 = Ret (hs, t2) \<and> entities_inv t2
     \<and> (reuses (index h) hs < 2 ^ 32 \<longrightarrow> \<not> is_alive t2 h)"
proof -
  note d = destroyed_slot_history [OF assms]
  obtain hs t2 where r: "exec_ops ops t1 = Ret (hs, t2)" "entities_inv t2" using exec_ops_inv [OF d(2)] by blast
  have "slot_history (index h) (generation h) (reuses (index h) hs) t2"
    using exec_ops_slot_history [OF d(2,1) r(1)] by simp
  then show ?thesis using r slot_history_dead by blast
qed

theorem destroyed_handle_stays_dead_witness:
  "\<exists>hs t2. exec_ops [(\<lambda>_. True, Create), (\<lambda>_. True, Create)]
       \<lparr>generations = [0 :: u32], free = [0], live = 0\<rparr> = Ret (hs, t2) \<and> entities_inv t2
     \<and> (reuses 0 hs < 2 ^ 32 \<longrightarrow> \<not> is_alive t2 \<lparr>index = 0, generation = 0\<rparr>)"
  using destroyed_handle_stays_dead [of "\<lparr>generations = [0 :: u32], free = [], live = 1\<rparr>" "\<lambda>_. True"
      "\<lparr>index = 0, generation = 0\<rparr>" "\<lparr>generations = [0], free = [0], live = 0\<rparr>"
      "[(\<lambda>_. True, Create), (\<lambda>_. True, Create)]"]
  by (simp add: entities_inv_def try_destroy_def is_alive_def u32_max_def)

end
