(* ===== verification/Storage.thy ===== *)
theory Storage
  imports Bitset Entities
begin

text \<open>
  \<open>src/src/kernel/ecs/storage.rs\<close>: the sparse-set storage of one component type. \<open>sparse\<close> maps an
  entity index to a position of \<open>dense\<close>, a generation is kept per index, and a bitset records
  which indices are present. The storage is shown to implement a finite map from entity indices
  to a generation and a value; removal (a swap-remove with a fix-up of the moved entry) is the
  operation where this is not obvious.
\<close>

section \<open>The storage and its operations\<close>

record 'v storage =
  sparse :: "u32 option list"
  st_generations :: "u32 list"
  dense :: "'v list"
  presence :: bitset

datatype storage_error = StorageIndexOverflow | StorageAllocationFailed

definition storage_new :: "'v storage" where
  "storage_new = \<lparr>sparse = [], st_generations = [], dense = [], presence = bitset_new 0\<rparr>"

definition ensure_index ::
  "alloc \<Rightarrow> 'v storage \<Rightarrow> entity \<Rightarrow> (storage_error + unit) \<times> 'v storage" where
  "ensure_index al s e =
     (case checked_add (unat (index e)) 1 of
        None \<Rightarrow> (Inl StorageIndexOverflow, s)
      | Some need \<Rightarrow>
          (if length (sparse s) < need
           then (if \<not> al 0 \<or> \<not> al 1 then (Inl StorageAllocationFailed, s)
                 else (Inr (), s\<lparr>sparse := vec_resize need None (sparse s),
                                 st_generations := vec_resize need 0 (st_generations s)\<rparr>))
           else (Inr (), s)))"

definition storage_error_of :: "bitset_error \<Rightarrow> storage_error" where
  "storage_error_of x =
     (case x of BitsetInvalidIndex \<Rightarrow> StorageIndexOverflow
              | BitsetAllocationFailed \<Rightarrow> StorageAllocationFailed)"

definition storage_try_insert ::
  "alloc \<Rightarrow> 'v storage \<Rightarrow> entity \<Rightarrow> 'v \<Rightarrow> ((storage_error + unit) \<times> 'v storage) run" where
  "storage_try_insert al s e v =
     (case ensure_index al s e of
        (Inl x, s1) \<Rightarrow> Ret (Inl x, s1)
      | (Inr _, s1) \<Rightarrow>
         (let idx = unat (index e)
          in case bitset_try_reserve (\<lambda>k. al (k + 2)) (presence s1) idx of
               (Inl x, p) \<Rightarrow> Ret (Inl (storage_error_of x), s1\<lparr>presence := p\<rparr>)
             | (Inr _, p) \<Rightarrow>
                (if idx \<ge> length (st_generations s1) \<or> idx \<ge> length (sparse s1) then Panic
                 else let s2 = s1\<lparr>presence := p,
                                   st_generations := (st_generations s1)[idx := generation e]\<rparr>;
                          p' = snd (bitset_set p idx)
                      in case sparse s2 ! idx of
                           Some pos \<Rightarrow>
                             (if unat pos \<ge> length (dense s2) then Panic
                              else Ret (Inr (), s2\<lparr>dense := (dense s2)[unat pos := v],
                                                  presence := p'\<rparr>))
                         | None \<Rightarrow>
                             (if \<not> al 3 then Ret (Inl StorageAllocationFailed, s2)
                              else Ret (Inr (),
                                 s2\<lparr>dense := dense s2 @ [v],
                                    sparse := (sparse s2)[idx := Some (of_nat (length (dense s2)))],
                                    presence := p'\<rparr>)))))"

definition swap_remove :: "'a list \<Rightarrow> nat \<Rightarrow> 'a list" where
  "swap_remove xs i = butlast (xs[i := last xs])"

text \<open>The fix-up after a swap-remove: the owner of the last dense position follows its value.\<close>

definition redirect_moved :: "u32 option list \<Rightarrow> nat \<Rightarrow> nat \<Rightarrow> u32 option list" where
  "redirect_moved sp pos len_before =
     (if pos \<noteq> len_before - 1
      then (case position (\<lambda>q. q = Some (of_nat (len_before - 1))) sp of
              Some moved \<Rightarrow> sp[moved := Some (of_nat pos)]
            | None \<Rightarrow> sp)
      else sp)"

definition storage_remove :: "'v storage \<Rightarrow> entity \<Rightarrow> ('v option \<times> 'v storage) run" where
  "storage_remove s e =
     (let idx = unat (index e)
      in if idx \<ge> length (sparse s) then Ret (None, s)
         else if idx \<ge> length (st_generations s) then Panic
         else if st_generations s ! idx \<noteq> generation e then Ret (None, s)
         else case sparse s ! idx of
                None \<Rightarrow> Ret (None, s)
              | Some p \<Rightarrow>
                 (let pos = unat p; len_before = length (dense s)
                  in if pos \<ge> len_before then Panic
                     else let removed = dense s ! pos
                          in Ret (Some removed,
                                  s\<lparr>dense := swap_remove (dense s) pos,
                                    sparse := (redirect_moved (sparse s) pos len_before)[idx := None],
                                    presence := snd (bitset_clear (presence s) idx)\<rparr>)))"

definition storage_get :: "'v storage \<Rightarrow> entity \<Rightarrow> 'v option run" where
  "storage_get s e =
     (let idx = unat (index e)
      in if idx \<ge> length (sparse s) then Ret None
         else if idx \<ge> length (st_generations s) then Panic
         else if st_generations s ! idx \<noteq> generation e then Ret None
         else case sparse s ! idx of
                None \<Rightarrow> Ret None
              | Some p \<Rightarrow> if unat p < length (dense s) then Ret (Some (dense s ! unat p)) else Panic)"

text \<open>
  \<open>get_mut\<close> hands out a mutable reference; the model takes the write made through it as a function
  and returns whether there was a component together with the storage after the write.
\<close>

definition storage_get_mut :: "'v storage \<Rightarrow> entity \<Rightarrow> ('v \<Rightarrow> 'v) \<Rightarrow> (bool \<times> 'v storage) run" where
  "storage_get_mut s e f =
     (let idx = unat (index e)
      in if idx \<ge> length (sparse s) then Ret (False, s)
         else if idx \<ge> length (st_generations s) then Panic
         else if st_generations s ! idx \<noteq> generation e then Ret (False, s)
         else case sparse s ! idx of
                None \<Rightarrow> Ret (False, s)
              | Some p \<Rightarrow> if unat p < length (dense s)
                          then Ret (True, s\<lparr>dense := (dense s)[unat p := f (dense s ! unat p)]\<rparr>)
                          else Ret (False, s))"

definition storage_contains :: "'v storage \<Rightarrow> entity \<Rightarrow> bool run" where
  "storage_contains s e =
     (let idx = unat (index e)
      in if idx \<ge> length (sparse s) then Ret False
         else if idx \<ge> length (st_generations s) then Panic
         else Ret (st_generations s ! idx = generation e \<and> sparse s ! idx \<noteq> None))"

definition storage_generation_at :: "'v storage \<Rightarrow> nat \<Rightarrow> u32 option run" where
  "storage_generation_at s idx =
     (if idx < length (sparse s) \<and> sparse s ! idx \<noteq> None
      then (if idx < length (st_generations s) then Ret (Some (st_generations s ! idx)) else Panic)
      else Ret None)"

definition storage_len :: "'v storage \<Rightarrow> nat" where
  "storage_len s = length (dense s)"

section \<open>The invariant and the map it stands for\<close>

definition storage_inv :: "'v storage \<Rightarrow> bool" where
  "storage_inv s \<longleftrightarrow>
     length (st_generations s) = length (sparse s)
     \<and> length (sparse s) \<le> 2 ^ 32
     \<and> (\<forall>i p. i < length (sparse s) \<and> sparse s ! i = Some p \<longrightarrow> unat p < length (dense s))
     \<and> (\<forall>i j p. i < length (sparse s) \<and> j < length (sparse s)
          \<and> sparse s ! i = Some p \<and> sparse s ! j = Some p \<longrightarrow> i = j)
     \<and> bits (presence s) = {i. i < length (sparse s) \<and> sparse s ! i \<noteq> None}
     \<and> card {i. i < length (sparse s) \<and> sparse s ! i \<noteq> None} = length (dense s)"

definition storage_map :: "'v storage \<Rightarrow> nat \<Rightarrow> (u32 \<times> 'v) option" where
  "storage_map s i =
     (if i < length (sparse s)
      then (case sparse s ! i of None \<Rightarrow> None
            | Some p \<Rightarrow> Some (st_generations s ! i, dense s ! unat p))
      else None)"

lemma storage_inv_new [simp]: "storage_inv storage_new"
  by (simp add: storage_inv_def storage_new_def)

lemma storage_map_new [simp]: "storage_map storage_new = Map.empty"
  by (auto simp: storage_map_def storage_new_def)

lemma storage_invD:
  assumes "storage_inv s"
  shows storage_inv_gens: "length (st_generations s) = length (sparse s)"
    and storage_inv_bound: "length (sparse s) \<le> 4294967296"
    and storage_inv_range:
      "i < length (sparse s) \<Longrightarrow> sparse s ! i = Some p \<Longrightarrow> unat p < length (dense s)"
    and storage_inv_inj:
      "i < length (sparse s) \<Longrightarrow> j < length (sparse s) \<Longrightarrow> sparse s ! i = Some p
         \<Longrightarrow> sparse s ! j = Some p \<Longrightarrow> i = j"
    and storage_inv_bits: "bits (presence s) = {i. i < length (sparse s) \<and> sparse s ! i \<noteq> None}"
    and storage_inv_card: "card (bits (presence s)) = length (dense s)"
proof -
  note inv = assms [unfolded storage_inv_def]
  show "length (st_generations s) = length (sparse s)" using inv by blast
  show "length (sparse s) \<le> 4294967296" using inv by simp
  show "i < length (sparse s) \<Longrightarrow> sparse s ! i = Some p \<Longrightarrow> unat p < length (dense s)"
    using inv by blast
  show "i < length (sparse s) \<Longrightarrow> j < length (sparse s) \<Longrightarrow> sparse s ! i = Some p
         \<Longrightarrow> sparse s ! j = Some p \<Longrightarrow> i = j"
    using inv by blast
  show "bits (presence s) = {i. i < length (sparse s) \<and> sparse s ! i \<noteq> None}" using inv by blast
  show "card (bits (presence s)) = length (dense s)" using inv by metis
qed

lemma storage_invI:
  assumes "length (st_generations s) = length (sparse s)" "length (sparse s) \<le> 4294967296"
    and "\<And>i p. i < length (sparse s) \<Longrightarrow> sparse s ! i = Some p \<Longrightarrow> unat p < length (dense s)"
    and "\<And>i j p. i < length (sparse s) \<Longrightarrow> j < length (sparse s) \<Longrightarrow> sparse s ! i = Some p
           \<Longrightarrow> sparse s ! j = Some p \<Longrightarrow> i = j"
    and "bits (presence s) = {i. i < length (sparse s) \<and> sparse s ! i \<noteq> None}"
    and "card (bits (presence s)) = length (dense s)"
  shows "storage_inv s"
  unfolding storage_inv_def using assms by (intro conjI allI impI) auto

lemma dom_storage_map: "storage_inv s \<Longrightarrow> dom (storage_map s) = bits (presence s)"
  by (auto simp: storage_map_def storage_inv_bits dom_def split: option.splits if_splits)

lemma storage_len_card: "storage_inv s \<Longrightarrow> storage_len s = card (dom (storage_map s))"
  by (simp add: dom_storage_map storage_inv_card storage_len_def)

lemma storage_get_map:
  "storage_inv s \<Longrightarrow> storage_get s e = Ret (case storage_map s (unat (index e)) of
     None \<Rightarrow> None | Some (g, v) \<Rightarrow> if g = generation e then Some v else None)"
  by (cases "unat (index e) < length (sparse s)")
    (auto simp: storage_get_def storage_map_def storage_inv_gens Let_def
      dest: storage_inv_range split: option.splits)

lemma storage_contains_map:
  "storage_inv s \<Longrightarrow> storage_contains s e = Ret (case storage_map s (unat (index e)) of
     None \<Rightarrow> False | Some (g, v) \<Rightarrow> g = generation e)"
  by (auto simp: storage_contains_def storage_map_def storage_inv_gens Let_def split: option.splits)

lemma storage_generation_at_map:
  "storage_inv s \<Longrightarrow> storage_generation_at s i = Ret (map_option fst (storage_map s i))"
  by (auto simp: storage_generation_at_def storage_map_def storage_inv_gens split: option.splits)

lemma storage_dense_le: "storage_inv s \<Longrightarrow> length (dense s) \<le> length (sparse s)"
proof -
  assume inv: "storage_inv s"
  have "bits (presence s) \<subseteq> {..<length (sparse s)}"
    unfolding storage_inv_bits [OF inv] by auto
  then have "card (bits (presence s)) \<le> card {..<length (sparse s)}"
    by (intro card_mono) auto
  then show ?thesis by (simp add: storage_inv_card [OF inv])
qed

text \<open>Every position of \<open>dense\<close> is owned by exactly one index.\<close>

lemma storage_owner:
  assumes inv: "storage_inv s" and q: "q < length (dense s)"
  obtains i where "i < length (sparse s)" "sparse s ! i = Some (of_nat q)"
proof -
  let ?B = "bits (presence s)" and ?f = "\<lambda>i. unat (the (sparse s ! i))"
  have "inj_on ?f ?B"
    unfolding storage_inv_bits [OF inv]
    by (auto simp: inj_on_def unat_eq_iff_u32 intro: storage_inv_inj [OF inv])
  moreover have "?f ` ?B \<subseteq> {..<length (dense s)}"
    unfolding storage_inv_bits [OF inv] by (auto dest: storage_inv_range [OF inv])
  moreover have "card ?B = card {..<length (dense s)}"
    using storage_inv_card [OF inv] by simp
  ultimately have "?f ` ?B = {..<length (dense s)}"
    by (metis card_image card_subset_eq finite_lessThan)
  with q have "q \<in> ?f ` ?B" by simp
  then obtain i where "i \<in> ?B" "?f i = q" by blast
  with that show thesis unfolding storage_inv_bits [OF inv] by auto
qed

section \<open>Insertion\<close>

lemma ensure_index_spec:
  assumes inv: "storage_inv s" and r: "ensure_index al s e = (r, s1)"
  shows "storage_inv s1" "storage_map s1 = storage_map s"
    "r = Inr () \<Longrightarrow> unat (index e) < length (sparse s1)"
    "dense s1 = dense s" "presence s1 = presence s"
proof -
  let ?n = "Suc (unat (index e))"
  let ?s = "s\<lparr>sparse := vec_resize ?n None (sparse s),
              st_generations := vec_resize ?n 0 (st_generations s)\<rparr>"
  have some: "checked_add (unat (index e)) 1 = Some ?n"
    using unat_u32_le_usize [of "index e"] by (simp add: checked_add_def)
  have cases: "s1 = s \<and> (r = Inr () \<longrightarrow> ?n \<le> length (sparse s))
      \<or> s1 = ?s \<and> length (sparse s) < ?n"
    using r [unfolded ensure_index_def some] by (auto split: if_splits)
  have nth: "vec_resize ?n None (sparse s) ! i = Some p \<longleftrightarrow> i < length (sparse s) \<and> sparse s ! i = Some p"
    if "i < ?n" for i p
    using that by (simp add: nth_vec_resize)
  have "storage_inv ?s" if lt: "length (sparse s) < ?n"
  proof -
    have "{i. i < ?n \<and> vec_resize ?n None (sparse s) ! i \<noteq> None} = bits (presence s)"
      using lt unfolding storage_inv_bits [OF inv] by (auto simp: nth)
    moreover have "?n \<le> 2 ^ 32" using unat_u32_less [of "index e"] by simp
    ultimately show ?thesis
      by (intro storage_invI)
        (auto simp: nth storage_inv_card [OF inv] intro: storage_inv_range [OF inv]
          storage_inv_inj [OF inv])
  qed
  moreover have "storage_map ?s = storage_map s" if lt: "length (sparse s) < ?n"
    using lt by (auto simp: storage_map_def nth_vec_resize storage_inv_gens [OF inv] fun_eq_iff
        split: option.splits)
  ultimately show "storage_inv s1" "storage_map s1 = storage_map s"
    using cases inv by auto
  show "r = Inr () \<Longrightarrow> unat (index e) < length (sparse s1)" using cases by auto
  show "dense s1 = dense s" "presence s1 = presence s" using cases by auto
qed

lemma storage_inv_presence:
  "storage_inv s \<Longrightarrow> bits p = bits (presence s) \<Longrightarrow> storage_inv (s\<lparr>presence := p\<rparr>)"
  by (simp add: storage_inv_def)

lemma storage_map_presence: "storage_map (s\<lparr>presence := p\<rparr>) = storage_map s"
  by (simp add: storage_map_def fun_eq_iff split: option.split)

lemma storage_write_existing:
  fixes g :: u32 and v :: 'v
  assumes inv: "storage_inv s" and i: "i < length (sparse s)" "sparse s ! i = Some p"
    and b: "bits b = insert i (bits (presence s))"
  defines s'_def: "s' \<equiv> s\<lparr>st_generations := (st_generations s)[i := g],
                  dense := (dense s)[unat p := v], presence := b\<rparr>"
  shows "storage_inv s'" "storage_map s' = (storage_map s)(i \<mapsto> (g, v))"
proof -
  have "i \<in> bits (presence s)" using i by (simp add: storage_inv_bits [OF inv])
  with b have b: "bits b = bits (presence s)" by auto
  show "storage_inv s'"
    using inv b unfolding s'_def storage_inv_def by simp
  show "storage_map s' = (storage_map s)(i \<mapsto> (g, v))"
  proof
    fix j
    show "storage_map s' j = ((storage_map s)(i \<mapsto> (g, v))) j"
    proof (cases "j < length (sparse s) \<and> j \<noteq> i \<and> sparse s ! j \<noteq> None")
      case True
      then obtain q where q: "sparse s ! j = Some q" by auto
      with True i have "q \<noteq> p" using storage_inv_inj [OF inv] by blast
      then have "unat q \<noteq> unat p" by (simp add: unat_eq_iff_u32)
      with True q show ?thesis by (simp add: s'_def storage_map_def)
    next
      case False
      then show ?thesis
        using i storage_inv_range [OF inv i]
        by (auto simp: s'_def storage_map_def storage_inv_gens [OF inv] split: option.splits)
    qed
  qed
qed

lemma storage_push_new:
  fixes g :: u32 and v :: 'v
  assumes inv: "storage_inv s" and i: "i < length (sparse s)" "sparse s ! i = None"
    and b: "bits b = insert i (bits (presence s))"
  defines s'_def: "s' \<equiv> s\<lparr>st_generations := (st_generations s)[i := g], dense := dense s @ [v],
                  sparse := (sparse s)[i := Some (of_nat (length (dense s)))], presence := b\<rparr>"
  shows "storage_inv s'" "storage_map s' = (storage_map s)(i \<mapsto> (g, v))"
proof -
  let ?n = "length (dense s)"
  have fresh: "i \<notin> bits (presence s)" using i by (simp add: storage_inv_bits [OF inv])
  have "bits (presence s) \<subseteq> {..<length (sparse s)}"
    unfolding storage_inv_bits [OF inv] by auto
  with i(1) fresh have "bits (presence s) \<subset> {..<length (sparse s)}" by blast
  then have "?n < length (sparse s)"
    using psubset_card_mono [of "{..<length (sparse s)}" "bits (presence s)"]
    by (simp add: storage_inv_card [OF inv])
  then have un: "unat (of_nat ?n :: u32) = ?n"
    using storage_inv_bound [OF inv] by (simp add: unat_of_nat_u32 u32_max_def)
  have neq: "sparse s ! j \<noteq> Some (of_nat ?n)" if "j < length (sparse s)" for j
    using storage_inv_range [OF inv that, of "of_nat ?n"] un by auto
  have range: "unat p < ?n + 1" if "j < length (sparse s)" "sparse s ! j = Some p" for j p
    using storage_inv_range [OF inv that] by simp
  have set_eq: "{j. j < length (sparse s) \<and> (sparse s)[i := Some (of_nat ?n)] ! j \<noteq> None} = bits b"
    using i unfolding b storage_inv_bits [OF inv] by (auto simp: nth_list_update split: if_splits)
  have card: "card (bits b) = ?n + 1" using fresh b by (simp add: storage_inv_card [OF inv])
  show "storage_inv s'"
  proof (rule storage_invI)
    show "bits (presence s') = {j. j < length (sparse s') \<and> sparse s' ! j \<noteq> None}"
      by (simp add: s'_def flip: set_eq)
    show "card (bits (presence s')) = length (dense s')" by (simp add: s'_def card)
  qed (use i un neq range storage_inv_gens [OF inv] storage_inv_bound [OF inv]
      storage_inv_inj [OF inv] in \<open>auto simp: s'_def nth_list_update split: if_splits\<close>)
  show "storage_map s' = (storage_map s)(i \<mapsto> (g, v))"
    using i un storage_inv_gens [OF inv] storage_inv_range [OF inv]
    by (auto simp: s'_def storage_map_def fun_eq_iff nth_list_update nth_append split: option.splits)
qed

text \<open>
  Insertion never panics. On success exactly the entry of the entity's index changes; on failure
  the map is unchanged, although capacity may have grown.
\<close>

lemma storage_try_insert_spec:
  assumes inv: "storage_inv s"
  obtains (ok) s' where "storage_try_insert al s e v = Ret (Inr (), s')" "storage_inv s'"
      "storage_map s' = (storage_map s)(unat (index e) \<mapsto> (generation e, v))"
  | (err) x s' where "storage_try_insert al s e v = Ret (Inl x, s')" "storage_inv s'"
      "storage_map s' = storage_map s"
proof -
  let ?i = "unat (index e)"
  obtain r s1 where r: "ensure_index al s e = (r, s1)" by force
  note ens = ensure_index_spec [OF inv r]
  note gens = storage_inv_gens [OF ens(1)]
  show ?thesis
  proof (cases r)
    case (Inl x)
    with r show ?thesis by (intro err [of x s1]) (simp_all add: storage_try_insert_def ens)
  next
    case (Inr u)
    then have lt: "?i < length (sparse s1)" using ens(3) by simp
    obtain r2 p where p: "bitset_try_reserve (\<lambda>k. al (k + 2)) (presence s1) ?i = (r2, p)" by force
    then have pb: "bits p = bits (presence s1)"
      using bitset_try_reserve_bits by (metis snd_conv)
    then have inv2: "storage_inv (s1\<lparr>presence := p\<rparr>)" by (rule storage_inv_presence [OF ens(1)])
    have map2: "storage_map (s1\<lparr>presence := p\<rparr>) = storage_map s"
      by (simp only: storage_map_presence ens(2))
    have "?i \<le> usize_max" using unat_u32_le_usize [of "index e"] by simp
    then have b: "bits (snd (bitset_set p ?i)) = insert ?i (bits p)" by (rule bitset_set_spec(2))
    show ?thesis
    proof (cases r2)
      case (Inl x)
      then show ?thesis using r \<open>r = Inr u\<close> p inv2 ens(2)
        by (intro err [of "storage_error_of x" "s1\<lparr>presence := p\<rparr>"])
          (simp_all add: storage_try_insert_def storage_map_presence)
    next
      case (Inr w)
      show ?thesis
      proof (cases "sparse s1 ! ?i")
        case (Some q)
        have q: "unat q < length (dense s1)" using storage_inv_range [OF ens(1) lt Some] .
        note upd = storage_write_existing [OF inv2, simplified, OF lt Some b, where g = "generation e" and v = v]
        show ?thesis
          by (rule ok [OF _ upd(1) upd(2) [unfolded map2]])
            (use r p \<open>r = Inr u\<close> Inr Some lt q gens in \<open>simp add: storage_try_insert_def Let_def\<close>)
      next
        case None
        note upd = storage_push_new [OF inv2, simplified, OF lt None b, where g = "generation e" and v = v]
        let ?s2 = "s1\<lparr>presence := p, st_generations := (st_generations s1)[?i := generation e]\<rparr>"
        have "storage_inv ?s2" using inv2 unfolding storage_inv_def by simp
        moreover have "storage_map ?s2 = storage_map s"
          using None by (auto simp: storage_map_def fun_eq_iff simp flip: ens(2)
              split: option.splits) (metis nth_list_update_neq option.distinct(1))
        ultimately show ?thesis
        proof (cases "al 3")
          case True
          show ?thesis
            by (rule ok [OF _ upd(1) upd(2) [unfolded map2]])
              (use r p \<open>r = Inr u\<close> Inr None lt gens True in \<open>simp add: storage_try_insert_def Let_def\<close>)
        next
          case False
          show ?thesis
            by (rule err [of StorageAllocationFailed ?s2])
              (use r p \<open>r = Inr u\<close> Inr None lt gens False \<open>storage_inv ?s2\<close>
                \<open>storage_map ?s2 = storage_map s\<close> in \<open>simp_all add: storage_try_insert_def Let_def\<close>)
        qed
      qed
    qed
  qed
qed

section \<open>Removal and in-place update\<close>

lemma length_swap_remove [simp]: "length (swap_remove xs i) = length xs - 1"
  by (simp add: swap_remove_def)

lemma nth_swap_remove:
  assumes "i < length xs" "k < length xs - 1"
  shows "swap_remove xs i ! k = (if k = i then last xs else xs ! k)"
  using assms by (simp add: swap_remove_def nth_butlast nth_list_update)

text \<open>
  The sparse table after the fix-up of a removal, whichever branch was taken: the owner \<open>m\<close> of
  the last dense position is redirected to the freed position, then the entry is cleared.
\<close>

lemma remove_sparse_eq:
  assumes inv: "storage_inv s" and i: "i < length (sparse s)" "sparse s ! i = Some p"
    and m: "m < length (sparse s)" "sparse s ! m = Some (of_nat (length (dense s) - 1))"
  shows "(redirect_moved (sparse s) (unat p) (length (dense s)))[i := None]
           = (sparse s)[m := Some p, i := None]"
proof (cases "unat p = length (dense s) - 1")
  case True
  then have "sparse s ! m = Some p" using m(2) by (metis of_nat_unat_u32)
  then have "m = i" using storage_inv_inj [OF inv m(1) i(1)] i(2) by blast
  then show ?thesis using True by (simp add: redirect_moved_def)
next
  case False
  have "position (\<lambda>q. q = Some (of_nat (length (dense s) - 1))) (sparse s) = Some m"
    unfolding position_Some using m storage_inv_inj [OF inv m(1)] by (metis less_trans nat_neq_iff)
  with False show ?thesis by (simp add: redirect_moved_def)
qed

lemma storage_remove_present:
  assumes inv: "storage_inv s" and i: "i < length (sparse s)" "sparse s ! i = Some p"
    and m: "m < length (sparse s)" "sparse s ! m = Some (of_nat (length (dense s) - 1))"
    and b: "bits b = bits (presence s) - {i}"
  defines s'_def: "s' \<equiv> s\<lparr>dense := swap_remove (dense s) (unat p),
                  sparse := (sparse s)[m := Some p, i := None], presence := b\<rparr>"
  shows "storage_inv s'" "storage_map s' = (storage_map s)(i := None)"
proof -
  let ?n = "length (dense s)"
  have p: "unat p < ?n" using storage_inv_range [OF inv i] .
  have "?n - 1 \<le> u32_max"
    using storage_dense_le [OF inv] storage_inv_bound [OF inv] by (simp add: u32_max_def)
  then have un: "unat (of_nat (?n - 1) :: u32) = ?n - 1" by (rule unat_of_nat_u32)
  have lookup: "j \<noteq> i \<and> (j = m \<and> q = p \<or> j \<noteq> m \<and> sparse s ! j = Some q)"
    if "j < length (sparse s)" "(sparse s)[m := Some p, i := None] ! j = Some q" for j q
    using that m i by (auto simp: nth_list_update split: if_splits)
  have other: "unat q < ?n - 1 \<and> q \<noteq> p" if "j < length (sparse s)" "j \<noteq> i" "j \<noteq> m" "sparse s ! j = Some q" for j q
  proof -
    have "unat q \<noteq> ?n - 1"
      using storage_inv_inj [OF inv that(1) m(1) that(4)] that(3) m(2)
      by (metis of_nat_unat_u32)
    moreover have "q \<noteq> p" using storage_inv_inj [OF inv that(1) i(1) that(4)] that(2) i(2) by blast
    ultimately show ?thesis using storage_inv_range [OF inv that(1,4)] by simp
  qed
  have moved: "unat p < ?n - 1" if "m \<noteq> i"
  proof -
    have "unat p \<noteq> ?n - 1"
      using storage_inv_inj [OF inv i(1) m(1) i(2)] m(2) that by (metis of_nat_unat_u32)
    with p show ?thesis by simp
  qed
  have set_eq: "{j. j < length (sparse s) \<and> (sparse s)[m := Some p, i := None] ! j \<noteq> None} = bits b"
    using i m unfolding b storage_inv_bits [OF inv] by (auto simp: nth_list_update split: if_splits)
  have card: "card (bits b) = ?n - 1"
    using i b by (simp add: storage_inv_card [OF inv] storage_inv_bits [OF inv, symmetric]
        storage_inv_bits [OF inv, THEN eqset_imp_iff])
  show "storage_inv s'"
  proof (rule storage_invI)
    show "bits (presence s') = {j. j < length (sparse s') \<and> sparse s' ! j \<noteq> None}"
      by (simp add: s'_def flip: set_eq)
    show "card (bits (presence s')) = length (dense s')" by (simp add: s'_def card)
    show "unat q < length (dense s')" if "j < length (sparse s')" "sparse s' ! j = Some q" for j q
      using that lookup other moved by (fastforce simp: s'_def)
    show "j = k" if "j < length (sparse s')" "k < length (sparse s')" "sparse s' ! j = Some q"
      "sparse s' ! k = Some q" for j k q
      using that lookup [of j q] lookup [of k q] other [of j q] other [of k q]
        storage_inv_inj [OF inv, of j k q] by (auto simp: s'_def)
  qed (use storage_inv_gens [OF inv] storage_inv_bound [OF inv] in \<open>simp_all add: s'_def\<close>)
  have last: "last (dense s) = dense s ! (?n - 1)" using p by (intro last_conv_nth) auto
  show "storage_map s' = (storage_map s)(i := None)"
  proof
    fix j
    consider "j \<ge> length (sparse s) \<or> j = i" | "j < length (sparse s)" "j \<noteq> i" "j = m"
      | "j < length (sparse s)" "j \<noteq> i" "j \<noteq> m" by linarith
    then show "storage_map s' j = ((storage_map s)(i := None)) j"
    proof cases
      case 1
      then show ?thesis using i by (auto simp: s'_def storage_map_def)
    next
      case 2
      with moved p m un last show ?thesis
        by (simp add: s'_def storage_map_def nth_swap_remove)
    next
      case 3
      then show ?thesis using other [OF 3] p
        by (auto simp: s'_def storage_map_def nth_swap_remove unat_eq_iff_u32 split: option.splits)
    qed
  qed
qed

text \<open>Removal never panics, and removes exactly the entry of a handle of the current generation.\<close>

lemma storage_remove_spec:
  assumes inv: "storage_inv s"
  obtains (hit) v s' where "storage_map s (unat (index e)) = Some (generation e, v)"
      "storage_remove s e = Ret (Some v, s')" "storage_inv s'"
      "storage_map s' = (storage_map s)(unat (index e) := None)"
  | (miss) "\<nexists>v. storage_map s (unat (index e)) = Some (generation e, v)"
      "storage_remove s e = Ret (None, s)"
proof -
  let ?i = "unat (index e)"
  show ?thesis
  proof (cases "\<exists>v. storage_map s ?i = Some (generation e, v)")
    case True
    then obtain v p where i: "?i < length (sparse s)" "sparse s ! ?i = Some p"
      and v: "storage_map s ?i = Some (generation e, v)"
      "st_generations s ! ?i = generation e" "v = dense s ! unat p"
      by (auto simp: storage_map_def split: if_splits option.splits)
    have p: "unat p < length (dense s)" using storage_inv_range [OF inv i] .
    then have "length (dense s) - 1 < length (dense s)" by simp
    then obtain m where m: "m < length (sparse s)"
      "sparse s ! m = Some (of_nat (length (dense s) - 1))"
      using storage_owner [OF inv] by metis
    note rem = storage_remove_present [OF inv i m bitset_clear_spec(2)]
    have "storage_remove s e = Ret (Some v, s\<lparr>dense := swap_remove (dense s) (unat p),
        sparse := (sparse s)[m := Some p, ?i := None],
        presence := snd (bitset_clear (presence s) ?i)\<rparr>)"
      using i v p storage_inv_gens [OF inv]
      by (simp add: storage_remove_def Let_def remove_sparse_eq [OF inv i m])
    from hit [OF v(1) this rem] show ?thesis .
  next
    case False
    then have "storage_remove s e = Ret (None, s)"
      using storage_inv_gens [OF inv]
      by (auto simp: storage_remove_def storage_map_def Let_def split: option.splits if_splits)
    with False show ?thesis by (rule miss)
  qed
qed

lemma storage_get_mut_spec:
  assumes inv: "storage_inv s"
  obtains (hit) v s' where "storage_map s (unat (index e)) = Some (generation e, v)"
      "storage_get_mut s e f = Ret (True, s')" "storage_inv s'"
      "storage_map s' = (storage_map s)(unat (index e) \<mapsto> (generation e, f v))"
  | (miss) "\<nexists>v. storage_map s (unat (index e)) = Some (generation e, v)"
      "storage_get_mut s e f = Ret (False, s)"
proof -
  let ?i = "unat (index e)"
  show ?thesis
  proof (cases "\<exists>v. storage_map s ?i = Some (generation e, v)")
    case True
    then obtain v p where i: "?i < length (sparse s)" "sparse s ! ?i = Some p"
      and v: "storage_map s ?i = Some (generation e, v)"
      "st_generations s ! ?i = generation e" "v = dense s ! unat p"
      by (auto simp: storage_map_def split: if_splits option.splits)
    have p: "unat p < length (dense s)" using storage_inv_range [OF inv i] .
    have b: "bits (presence s) = insert ?i (bits (presence s))"
      using i by (auto simp: storage_inv_bits [OF inv])
    note upd = storage_write_existing [OF inv i b, where g = "generation e" and v = "f v"]
    have s': "s\<lparr>st_generations := (st_generations s)[?i := generation e],
        dense := (dense s)[unat p := f v], presence := presence s\<rparr>
        = s\<lparr>dense := (dense s)[unat p := f v]\<rparr>"
      by (rule storage.equality) (use v in \<open>simp_all add: list_update_same_conv\<close>, metis list_update_id)
    have "storage_get_mut s e f = Ret (True, s\<lparr>dense := (dense s)[unat p := f v]\<rparr>)"
      using i v p storage_inv_gens [OF inv] by (simp add: storage_get_mut_def Let_def)
    from hit [OF v(1) this upd [unfolded s']] show ?thesis .
  next
    case False
    then have "storage_get_mut s e f = Ret (False, s)"
      using storage_inv_gens [OF inv]
      by (auto simp: storage_get_mut_def storage_map_def Let_def split: option.splits if_splits)
    with False show ?thesis by (rule miss)
  qed
qed

section \<open>The interface of a component store\<close>

text \<open>What a handle finds in a table of generations and values.\<close>

definition handle_lookup :: "(nat \<Rightarrow> (u32 \<times> 'v) option) \<Rightarrow> entity \<Rightarrow> 'v option" where
  "handle_lookup m e =
     (case m (unat (index e)) of None \<Rightarrow> None
      | Some (g, v) \<Rightarrow> if g = generation e then Some v else None)"

lemma handle_lookup_Some:
  "handle_lookup m e = Some v \<longleftrightarrow> m (unat (index e)) = Some (generation e, v)"
  by (auto simp: handle_lookup_def split: option.splits if_splits)

lemma handle_lookup_upd:
  "handle_lookup (m(unat (index e) := r)) e' =
     (if index e' = index e then handle_lookup (\<lambda>_. r) e' else handle_lookup m e')"
  by (simp add: handle_lookup_def unat_eq_iff_u32)

locale component_store =
  fixes inv :: "'s \<Rightarrow> bool" and view :: "'s \<Rightarrow> nat \<Rightarrow> (u32 \<times> 'v) option"
    and ins :: "alloc \<Rightarrow> 's \<Rightarrow> entity \<Rightarrow> 'v \<Rightarrow> ((storage_error + unit) \<times> 's) run"
    and rem :: "'s \<Rightarrow> entity \<Rightarrow> ('v option \<times> 's) run"
    and look :: "'s \<Rightarrow> entity \<Rightarrow> 'v option run"
  assumes look: "inv s \<Longrightarrow> look s e = Ret (handle_lookup (view s) e)"
    and ins: "inv s \<Longrightarrow> \<exists>r s'. ins al s e v = Ret (r, s') \<and> inv s' \<and> view s' =
          (case r of Inr _ \<Rightarrow> (view s)(unat (index e) \<mapsto> (generation e, v)) | Inl _ \<Rightarrow> view s)"
    and rem: "inv s \<Longrightarrow> \<exists>s'. rem s e = Ret (handle_lookup (view s) e, s') \<and> inv s' \<and> view s' =
          (if handle_lookup (view s) e = None then view s else (view s)(unat (index e) := None))"
begin

lemma ins_Ret:
  assumes "inv s" "ins al s e v = Ret (Inr u, s')"
  shows "inv s'" "view s' = (view s)(unat (index e) \<mapsto> (generation e, v))"
  using ins [OF assms(1), of al e v] assms(2) by auto

lemma ins_Err:
  assumes "inv s" "ins al s e v = Ret (Inl x, s')"
  shows "inv s'" "view s' = view s"
  using ins [OF assms(1), of al e v] assms(2) by auto

lemma rem_Ret:
  assumes "inv s" "rem s e = Ret (r, s')"
  shows "inv s'" "r = handle_lookup (view s) e"
    "view s' = (if r = None then view s else (view s)(unat (index e) := None))"
  using rem [OF assms(1), of e] assms(2) by auto

lemma look_after_ins:
  assumes "inv s" "ins al s e v = Ret (Inr u, s')"
  shows "look s' e' = (if e' = e then Ret (Some v)
                       else if index e' = index e then Ret None else look s e')"
  using ins_Ret [OF assms] assms(1)
  by (auto simp: look handle_lookup_def unat_eq_iff_u32 intro: entity.equality)

lemma look_after_failed_ins:
  assumes "inv s" "ins al s e v = Ret (Inl x, s')"
  shows "look s' e' = look s e'"
  using ins_Err [OF assms] assms(1) by (simp add: look)

lemma look_after_rem:
  assumes "inv s" "rem s e = Ret (r, s')"
  shows "look s e = Ret r" "look s' e = Ret None" "e' \<noteq> e \<Longrightarrow> look s' e' = look s e'"
proof -
  note rem_Ret [OF assms]
  then show "look s e = Ret r" using assms(1) by (simp add: look)
  show "look s' e = Ret None"
    using rem_Ret [OF assms] by (auto simp: look handle_lookup_def split: if_splits)
  show "look s' e' = look s e'" if "e' \<noteq> e"
    using rem_Ret [OF assms] assms(1) that
    by (auto simp: look handle_lookup_def unat_eq_iff_u32 split: option.splits
        intro: entity.equality)
qed

end

text \<open>The sparse set implements the interface, for every answer of the allocator.\<close>

interpretation sparse_set: component_store storage_inv storage_map storage_try_insert
  storage_remove storage_get
proof unfold_locales
  fix s :: "'v storage" and e v and al :: alloc
  assume inv: "storage_inv s"
  show "storage_get s e = Ret (handle_lookup (storage_map s) e)"
    using storage_get_map [OF inv] by (simp add: handle_lookup_def)
  show "\<exists>r s'. storage_try_insert al s e v = Ret (r, s') \<and> storage_inv s' \<and> storage_map s' =
      (case r of Inr _ \<Rightarrow> (storage_map s)(unat (index e) \<mapsto> (generation e, v)) | Inl _ \<Rightarrow> storage_map s)"
    using inv by (cases rule: storage_try_insert_spec [of s al e v]) auto
  show "\<exists>s'. storage_remove s e = Ret (handle_lookup (storage_map s) e, s') \<and> storage_inv s'
      \<and> storage_map s' = (if handle_lookup (storage_map s) e = None then storage_map s
                          else (storage_map s)(unat (index e) := None))"
    using inv
  proof (cases rule: storage_remove_spec [of s e])
    case (hit v s')
    then show ?thesis using handle_lookup_Some [of "storage_map s" e v] by simp
  next
    case miss
    then have "handle_lookup (storage_map s) e = None"
      by (cases "handle_lookup (storage_map s) e") (auto simp: handle_lookup_Some)
    with miss inv show ?thesis by simp
  qed
qed

section \<open>Properties\<close>

text \<open>
  The sparse set implements a map keyed by handles. Whatever the allocator answers, an insertion
  returns; if it is accepted, a look-up of the same handle finds the new value, a handle of the same
  slot with another generation finds nothing, and all other look-ups are unchanged; if it is
  refused, no look-up changes.
\<close>

theorem insert_then_get:
  assumes inv: "storage_inv s"
  shows "\<exists>r s'. storage_try_insert al s e v = Ret (r, s') \<and> storage_inv s'
     \<and> (\<forall>e'. storage_get s' e' =
          (case r of Inl _ \<Rightarrow> storage_get s e'
           | Inr _ \<Rightarrow> if e' = e then Ret (Some v) else if index e' = index e then Ret None else storage_get s e'))"
proof -
  obtain r s' where r: "storage_try_insert al s e v = Ret (r, s')" "storage_inv s'"
    using sparse_set.ins [OF inv, of al e v] by blast
  show ?thesis
  proof (cases r)
    case (Inl x)
    then show ?thesis using r sparse_set.look_after_failed_ins [OF inv r(1) [unfolded Inl]] by simp
  next
    case (Inr u)
    then show ?thesis using r sparse_set.look_after_ins [OF inv r(1) [unfolded Inr]] by simp
  qed
qed

theorem insert_then_get_witness:
  "\<exists>r s'. storage_try_insert (\<lambda>_. True) (storage_new :: nat storage) \<lparr>index = 3, generation = 1\<rparr> 7 = Ret (r, s') \<and> storage_inv s'
     \<and> (\<forall>e'. storage_get s' e' =
          (case r of Inl _ \<Rightarrow> storage_get storage_new e'
           | Inr _ \<Rightarrow> if e' = \<lparr>index = 3, generation = 1\<rparr> then Ret (Some 7)
                     else if index e' = 3 then Ret None else storage_get storage_new e'))"
  using insert_then_get [OF storage_inv_new, of "\<lambda>_. True" "\<lparr>index = 3, generation = 1\<rparr>" "7 :: nat"]
  by (simp only: entity.simps)

text \<open>
  Removal returns what a look-up would have found, after it that handle finds nothing, and no
  other handle notices, although the last dense value moves into the hole.
\<close>

theorem remove_then_get:
  assumes inv: "storage_inv s"
  shows "\<exists>r s'. storage_remove s e = Ret (r, s') \<and> storage_inv s' \<and> storage_get s e = Ret r
     \<and> storage_get s' e = Ret None \<and> (\<forall>e'. e' \<noteq> e \<longrightarrow> storage_get s' e' = storage_get s e')"
proof -
  obtain r s' where r: "storage_remove s e = Ret (r, s')" "storage_inv s'"
    using sparse_set.rem [OF inv, of e] by blast
  then show ?thesis using sparse_set.look_after_rem [OF inv r(1)] by blast
qed

definition sample_storage :: "nat storage" where
  "sample_storage = \<lparr>sparse = [Some 0, Some 1], st_generations = [0, 4], dense = [5, 6], presence = \<lparr>words = [3]\<rparr>\<rparr>"

lemma sample_storage_inv: "storage_inv sample_storage"
proof -
  obtain s1 where 1: "storage_try_insert (\<lambda>_. True) (storage_new :: nat storage) \<lparr>index = 0, generation = 0\<rparr> 5 = Ret (Inr (), s1)"
    "s1 = \<lparr>sparse = [Some 0], st_generations = [0], dense = [5], presence = \<lparr>words = [1]\<rparr>\<rparr>"
    by (simp add: storage_try_insert_def storage_new_def ensure_index_def bitset_try_set_def bitset_try_reserve_def
        bitset_set_def bitset_ensure_def vec_resize_def word_count_def bitset_new_def bitset_test_def Let_def
        checked_add_def sat_add_def usize_max_def u32_max_def)
  have "storage_try_insert (\<lambda>_. True) s1 \<lparr>index = 1, generation = 4\<rparr> 6 = Ret (Inr (), sample_storage)"
    by (simp add: 1(2) sample_storage_def storage_try_insert_def storage_new_def ensure_index_def bitset_try_set_def bitset_try_reserve_def
        bitset_set_def bitset_ensure_def vec_resize_def word_count_def bitset_new_def bitset_test_def Let_def
        checked_add_def sat_add_def usize_max_def u32_max_def)
  then show ?thesis by (rule sparse_set.ins_Ret(1) [OF sparse_set.ins_Ret(1) [OF storage_inv_new 1(1)]])
qed

theorem remove_then_get_witness:
  "\<exists>r s'. storage_remove sample_storage \<lparr>index = 0, generation = 0\<rparr> = Ret (r, s') \<and> storage_inv s'
     \<and> storage_get sample_storage \<lparr>index = 0, generation = 0\<rparr> = Ret r
     \<and> storage_get s' \<lparr>index = 0, generation = 0\<rparr> = Ret None
     \<and> (\<forall>e'. e' \<noteq> \<lparr>index = 0, generation = 0\<rparr> \<longrightarrow> storage_get s' e' = storage_get sample_storage e')"
  by (rule remove_then_get [OF sample_storage_inv])

end
