(* ===== verification/World.thy ===== *)
theory World
  imports Storage
begin

text \<open>
  \<open>src/src/kernel/ecs/world.rs\<close> and \<open>query.rs\<close>: the world owns the entity table, one storage per
  registered component type and the bitset of live indices, and drives the queries. Component
  values of all types live in one type \<open>'v\<close>; a slot carries the type id of its storage, so that a
  downcast is a comparison of type ids.
\<close>

section \<open>The world and its operations\<close>

type_synonym type_id = nat

record 'v world =
  w_entities :: entities
  slots :: "(type_id \<times> 'v storage) option list"
  by_type :: "type_id \<rightharpoonup> nat"
  alive :: bitset

datatype world_error = WorldEntity entity_error | EntityNotAlive | WorldStorage storage_error

definition world_new :: "'v world" where
  "world_new = \<lparr>w_entities = entities_new, slots = [], by_type = Map.empty, alive = bitset_new 0\<rparr>"

definition world_error_of :: "bitset_error \<Rightarrow> world_error" where
  "world_error_of x =
     (case x of BitsetInvalidIndex \<Rightarrow> WorldEntity IndexOverflow
              | BitsetAllocationFailed \<Rightarrow> WorldEntity EntityAllocationFailed)"

definition world_try_spawn :: "alloc \<Rightarrow> 'v world \<Rightarrow> ((world_error + entity) \<times> 'v world) run" where
  "world_try_spawn al w =
     (case bitset_try_reserve al (alive w) (sat_add (watermark (w_entities w)) 1) of
        (Inl x, b) \<Rightarrow> Ret (Inl (world_error_of x), w\<lparr>alive := b\<rparr>)
      | (Inr _, b) \<Rightarrow>
          run_bind (try_create (\<lambda>k. al (k + 1)) (w_entities w)) (\<lambda>(r, t).
            case r of
              Inl x \<Rightarrow> Ret (Inl (WorldEntity x), w\<lparr>alive := b, w_entities := t\<rparr>)
            | Inr e \<Rightarrow> Ret (Inr e, w\<lparr>w_entities := t, alive := snd (bitset_set b (unat (index e)))\<rparr>)))"

fun remove_entity_all ::
  "entity \<Rightarrow> (type_id \<times> 'v storage) option list \<Rightarrow> (type_id \<times> 'v storage) option list run" where
  "remove_entity_all e [] = Ret []"
| "remove_entity_all e (None # rest) =
     run_bind (remove_entity_all e rest) (\<lambda>rest'. Ret (None # rest'))"
| "remove_entity_all e (Some (t, st) # rest) =
     run_bind (storage_remove st e) (\<lambda>(_, st').
       run_bind (remove_entity_all e rest) (\<lambda>rest'. Ret (Some (t, st') # rest')))"

definition world_try_despawn ::
  "alloc \<Rightarrow> 'v world \<Rightarrow> entity \<Rightarrow> ((world_error + bool) \<times> 'v world) run" where
  "world_try_despawn al w e =
     run_bind (try_destroy al (w_entities w) e) (\<lambda>(r, t).
       case r of
         Inl x \<Rightarrow> Ret (Inl (WorldEntity x), w\<lparr>w_entities := t\<rparr>)
       | Inr False \<Rightarrow> Ret (Inr False, w\<lparr>w_entities := t\<rparr>)
       | Inr True \<Rightarrow>
           run_bind (remove_entity_all e (slots w)) (\<lambda>sl.
             Ret (Inr True, w\<lparr>w_entities := t,
                              alive := snd (bitset_clear (alive w) (unat (index e))),
                              slots := sl\<rparr>)))"

definition world_despawn :: "alloc \<Rightarrow> 'v world \<Rightarrow> entity \<Rightarrow> (bool \<times> 'v world) run" where
  "world_despawn al w e = run_bind (world_try_despawn al w e)
     (\<lambda>(r, w'). Ret (case r of Inl _ \<Rightarrow> False | Inr b \<Rightarrow> b, w'))"

definition world_is_alive :: "'v world \<Rightarrow> entity \<Rightarrow> bool" where
  "world_is_alive w e \<longleftrightarrow> is_alive (w_entities w) e"

definition entity_count :: "'v world \<Rightarrow> nat" where
  "entity_count w = live (w_entities w)"

text \<open>The entities passed to the closure of \<open>for_each_entity\<close>, in order.\<close>

definition for_each_entity :: "'v world \<Rightarrow> entity list" where
  "for_each_entity w =
     concat (map (\<lambda>i. case generation_at (w_entities w) i of
                        Some g \<Rightarrow> [\<lparr>index = of_nat i, generation = g\<rparr>] | None \<Rightarrow> [])
                 (word_indices (words (alive w))))"

definition slot_index :: "'v world \<Rightarrow> type_id \<Rightarrow> nat option" where
  "slot_index w t = by_type w t"

definition register_component :: "'v world \<Rightarrow> type_id \<Rightarrow> u32 \<times> 'v world" where
  "register_component w t =
     (case by_type w t of
        Some i \<Rightarrow> (of_nat i, w)
      | None \<Rightarrow> (of_nat (length (slots w)),
                 w\<lparr>slots := slots w @ [Some (t, storage_new)],
                   by_type := (by_type w)(t \<mapsto> length (slots w))\<rparr>))"

text \<open>
  \<open>self.slots[i].as_ref().and_then(downcast)\<close> for the slot of a type: the slot number and the
  storage, when there is one of that type.
\<close>

definition downcast :: "type_id \<Rightarrow> (type_id \<times> 'v storage) option \<Rightarrow> 'v storage option" where
  "downcast t slot = (case slot of None \<Rightarrow> None | Some (t', st) \<Rightarrow> if t' = t then Some st else None)"

definition typed_slot :: "'v world \<Rightarrow> type_id \<Rightarrow> (nat \<times> 'v storage) option run" where
  "typed_slot w t =
     (case slot_index w t of
        None \<Rightarrow> Ret None
      | Some i \<Rightarrow> if i \<ge> length (slots w) then Panic
                  else Ret (map_option (Pair i) (downcast t (slots w ! i))))"

definition set_slot :: "'v world \<Rightarrow> nat \<Rightarrow> type_id \<Rightarrow> 'v storage \<Rightarrow> 'v world" where
  "set_slot w i t st = w\<lparr>slots := (slots w)[i := Some (t, st)]\<rparr>"

definition world_try_insert_typed ::
  "alloc \<Rightarrow> 'v world \<Rightarrow> type_id \<Rightarrow> entity \<Rightarrow> 'v \<Rightarrow> ((world_error + unit) \<times> 'v world) run" where
  "world_try_insert_typed al w t e v =
     (if \<not> world_is_alive w e then Ret (Inl EntityNotAlive, w)
      else run_bind (typed_slot w t) (\<lambda>sl.
        case sl of
          None \<Rightarrow> Ret (Inr (), w)
        | Some (i, st) \<Rightarrow>
            run_bind (storage_try_insert al st e v) (\<lambda>(r, st').
              Ret (case r of Inl x \<Rightarrow> Inl (WorldStorage x) | Inr u \<Rightarrow> Inr u, set_slot w i t st'))))"

definition world_try_insert ::
  "alloc \<Rightarrow> 'v world \<Rightarrow> type_id \<Rightarrow> entity \<Rightarrow> 'v \<Rightarrow> ((world_error + unit) \<times> 'v world) run" where
  "world_try_insert al w t e v =
     (if \<not> world_is_alive w e then Ret (Inl EntityNotAlive, w)
      else world_try_insert_typed al (snd (register_component w t)) t e v)"

definition world_get :: "'v world \<Rightarrow> type_id \<Rightarrow> entity \<Rightarrow> 'v option run" where
  "world_get w t e = run_bind (typed_slot w t) (\<lambda>sl.
     case sl of None \<Rightarrow> Ret None | Some (_, st) \<Rightarrow> storage_get st e)"

definition world_get_mut ::
  "'v world \<Rightarrow> type_id \<Rightarrow> entity \<Rightarrow> ('v \<Rightarrow> 'v) \<Rightarrow> (bool \<times> 'v world) run" where
  "world_get_mut w t e f = run_bind (typed_slot w t) (\<lambda>sl.
     case sl of None \<Rightarrow> Ret (False, w)
     | Some (i, st) \<Rightarrow> run_bind (storage_get_mut st e f) (\<lambda>(r, st'). Ret (r, set_slot w i t st')))"

definition world_remove :: "'v world \<Rightarrow> type_id \<Rightarrow> entity \<Rightarrow> ('v option \<times> 'v world) run" where
  "world_remove w t e = run_bind (typed_slot w t) (\<lambda>sl.
     case sl of None \<Rightarrow> Ret (None, w)
     | Some (i, st) \<Rightarrow> run_bind (storage_remove st e) (\<lambda>(r, st'). Ret (r, set_slot w i t st')))"

definition world_count :: "'v world \<Rightarrow> type_id \<Rightarrow> nat run" where
  "world_count w t = run_bind (typed_slot w t) (\<lambda>sl.
     Ret (case sl of None \<Rightarrow> 0 | Some (_, st) \<Rightarrow> storage_len st))"

definition collect_intersection :: "'v world \<Rightarrow> type_id \<Rightarrow> type_id \<Rightarrow> u32 list run" where
  "collect_intersection w ta tb =
     (case (slot_index w ta, slot_index w tb) of
        (Some _, Some _) \<Rightarrow>
          run_bind (typed_slot w ta) (\<lambda>sa. run_bind (typed_slot w tb) (\<lambda>sb.
            Ret (case (sa, sb) of
                   (Some (_, a), Some (_, b)) \<Rightarrow>
                     sort (map of_nat (word_indices
                       (map2 (AND) (words (presence a)) (words (presence b)))))
                 | _ \<Rightarrow> [])))
      | _ \<Rightarrow> Ret [])"

section \<open>Queries\<close>

text \<open>
  The closure of \<open>for_each\<close> receives the entity and the two values and may change both; its own
  captured state is \<open>c\<close>. A value is read and written back through the storage.
\<close>

definition pair_step ::
  "(entity \<Rightarrow> 'v \<Rightarrow> 'v \<Rightarrow> 'c \<Rightarrow> 'v \<times> 'v \<times> 'c) \<Rightarrow> u32 \<Rightarrow> 'v storage \<times> 'v storage \<times> 'c
     \<Rightarrow> ('v storage \<times> 'v storage \<times> 'c) run" where
  "pair_step f i = (\<lambda>(sa, sb, c).
     run_bind (storage_generation_at sa (unat i)) (\<lambda>og.
       case og of
         None \<Rightarrow> Ret (sa, sb, c)
       | Some g \<Rightarrow>
          (let e = \<lparr>index = i, generation = g\<rparr>
           in run_bind (storage_contains sa e) (\<lambda>ca. run_bind (storage_contains sb e) (\<lambda>cb.
                if ca \<and> cb
                then run_bind (storage_get sa e) (\<lambda>oa. run_bind (storage_get sb e) (\<lambda>ob.
                       case (oa, ob) of
                         (Some a, Some b) \<Rightarrow>
                           (let (a', b', c') = f e a b c
                            in run_bind (storage_get_mut sa e (\<lambda>_. a')) (\<lambda>(_, sa').
                                 run_bind (storage_get_mut sb e (\<lambda>_. b')) (\<lambda>(_, sb').
                                   Ret (sa', sb', c'))))
                       | _ \<Rightarrow> Panic))
                else Ret (sa, sb, c))))))"

definition pair_for_each ::
  "(entity \<Rightarrow> 'v \<Rightarrow> 'v \<Rightarrow> 'c \<Rightarrow> 'v \<times> 'v \<times> 'c) \<Rightarrow> u32 list \<Rightarrow> 'v storage \<times> 'v storage \<times> 'c
     \<Rightarrow> ('v storage \<times> 'v storage \<times> 'c) run" where
  "pair_for_each f candidates = run_fold (pair_step f) candidates"

definition single_step ::
  "(entity \<Rightarrow> 'v \<Rightarrow> 'c \<Rightarrow> 'v \<times> 'c) \<Rightarrow> u32 \<Rightarrow> 'v storage \<times> 'c \<Rightarrow> ('v storage \<times> 'c) run" where
  "single_step f i = (\<lambda>(st, c).
     run_bind (storage_generation_at st (unat i)) (\<lambda>og.
       case og of
         None \<Rightarrow> Ret (st, c)
       | Some g \<Rightarrow>
          (let e = \<lparr>index = i, generation = g\<rparr>
           in run_bind (storage_contains st e) (\<lambda>ct.
                if ct
                then run_bind (storage_get st e) (\<lambda>ov.
                       case ov of
                         Some v \<Rightarrow> (let (v', c') = f e v c
                                    in run_bind (storage_get_mut st e (\<lambda>_. v')) (\<lambda>(_, st').
                                         Ret (st', c')))
                       | None \<Rightarrow> Panic)
                else Ret (st, c)))))"

definition single_for_each ::
  "(entity \<Rightarrow> 'v \<Rightarrow> 'c \<Rightarrow> 'v \<times> 'c) \<Rightarrow> u32 list \<Rightarrow> 'v storage \<times> 'c \<Rightarrow> ('v storage \<times> 'c) run" where
  "single_for_each f candidates = run_fold (single_step f) candidates"

text \<open>
  \<open>get2_mut\<close> splits the slot vector at the larger index (which panics past the end of the vector)
  and downcasts both halves; the result names the two storages.
\<close>

definition get2_mut ::
  "(type_id \<times> 'v storage) option list \<Rightarrow> type_id \<Rightarrow> type_id \<Rightarrow> nat \<Rightarrow> nat
     \<Rightarrow> ('v storage \<times> 'v storage) option run" where
  "get2_mut sl ta tb ia ib =
     (if ia = ib then Ret None
      else if max ia ib > length sl then Panic
      else Ret (case (Option.bind (vec_get sl ia) (downcast ta), Option.bind (vec_get sl ib) (downcast tb)) of
                  (Some a, Some b) \<Rightarrow> Some (a, b) | _ \<Rightarrow> None))"

definition world_pair :: "'v world \<Rightarrow> type_id \<Rightarrow> type_id \<Rightarrow> (nat \<times> nat \<times> 'v storage \<times> 'v storage) option run"
  where
  "world_pair w ta tb =
     (case (slot_index w ta, slot_index w tb) of
        (Some ia, Some ib) \<Rightarrow>
          (if ia = ib then Ret None
           else run_bind (get2_mut (slots w) ta tb ia ib) (\<lambda>r. Ret (map_option (\<lambda>(a, b). (ia, ib, a, b)) r)))
      | _ \<Rightarrow> Ret None)"

text \<open>A system's use of the pair driver: \<open>world.pair::<A, B>()\<close>, then \<open>for_each\<close> on it.\<close>

definition world_pair_for_each ::
  "(entity \<Rightarrow> 'v \<Rightarrow> 'v \<Rightarrow> 'c \<Rightarrow> 'v \<times> 'v \<times> 'c) \<Rightarrow> u32 list \<Rightarrow> type_id \<Rightarrow> type_id \<Rightarrow> 'v world \<Rightarrow> 'c
     \<Rightarrow> ('v world \<times> 'c) option run" where
  "world_pair_for_each f is ta tb w c =
     run_bind (world_pair w ta tb) (\<lambda>p.
       case p of None \<Rightarrow> Ret None
       | Some (ia, ib, a, b) \<Rightarrow>
           run_bind (pair_for_each f is (a, b, c)) (\<lambda>(a', b', c').
             Ret (Some (set_slot (set_slot w ia ta a') ib tb b', c'))))"

section \<open>The invariant of the world\<close>

abbreviation entity_slot :: "entity \<Rightarrow> nat" where
  "entity_slot e \<equiv> unat (index e)"

text \<open>A storage holds components of live entities only, under their current generation.\<close>

definition owned_by_live :: "entities \<Rightarrow> 'v storage \<Rightarrow> bool" where
  "owned_by_live t st \<longleftrightarrow>
     (\<forall>e v. storage_map st (entity_slot e) = Some (generation e, v) \<longrightarrow> e \<in> live_set t)"

definition slots_ok :: "entities \<Rightarrow> (type_id \<times> 'v storage) option list \<Rightarrow> bool" where
  "slots_ok t sl \<longleftrightarrow> (\<forall>ty st. Some (ty, st) \<in> set sl \<longrightarrow> storage_inv st \<and> owned_by_live t st)"

definition types_ok :: "(type_id \<rightharpoonup> nat) \<Rightarrow> (type_id \<times> 'v storage) option list \<Rightarrow> bool" where
  "types_ok bt sl \<longleftrightarrow> (\<forall>t i. bt t = Some i \<longrightarrow> i < length sl \<and> (\<exists>st. sl ! i = Some (t, st)))"

definition world_inv :: "'v world \<Rightarrow> bool" where
  "world_inv w \<longleftrightarrow>
     entities_inv (w_entities w)
     \<and> bits (alive w) = entity_slot ` live_set (w_entities w)
     \<and> slots_ok (w_entities w) (slots w)
     \<and> types_ok (by_type w) (slots w)"

text \<open>The component of type \<open>t\<close> that handle \<open>e\<close> finds.\<close>

definition component :: "'v world \<Rightarrow> type_id \<Rightarrow> entity \<Rightarrow> 'v option" where
  "component w t e =
     (case by_type w t of None \<Rightarrow> None
      | Some i \<Rightarrow> handle_lookup (storage_map (snd (the (slots w ! i)))) e)"

lemma world_inv_new [simp]: "world_inv world_new"
  by (simp add: world_inv_def world_new_def slots_ok_def types_ok_def)

lemma typed_slot_inv:
  assumes "world_inv w"
  shows "by_type w t = None \<Longrightarrow> typed_slot w t = Ret None"
    and "by_type w t = Some i \<Longrightarrow> \<exists>st. i < length (slots w) \<and> slots w ! i = Some (t, st)
           \<and> typed_slot w t = Ret (Some (i, st)) \<and> storage_inv st
           \<and> owned_by_live (w_entities w) st"
proof -
  show "by_type w t = None \<Longrightarrow> typed_slot w t = Ret None"
    by (simp add: typed_slot_def slot_index_def)
  assume i: "by_type w t = Some i"
  with assms obtain st where st: "i < length (slots w)" "slots w ! i = Some (t, st)"
    by (force simp: world_inv_def types_ok_def)
  then have "Some (t, st) \<in> set (slots w)" by (metis nth_mem)
  with assms have "storage_inv st" "owned_by_live (w_entities w) st"
    by (auto simp: world_inv_def slots_ok_def)
  with i st show "\<exists>st. i < length (slots w) \<and> slots w ! i = Some (t, st)
           \<and> typed_slot w t = Ret (Some (i, st)) \<and> storage_inv st
           \<and> owned_by_live (w_entities w) st"
    by (simp add: typed_slot_def slot_index_def downcast_def)
qed

lemma world_get_component: "world_inv w \<Longrightarrow> world_get w t e = Ret (component w t e)"
  using typed_slot_inv [of w t]
  by (cases "by_type w t") (fastforce simp: world_get_def component_def sparse_set.look)+

text \<open>Replacing the storage of a slot by one that keeps the ownership rule.\<close>

lemma set_slot_inv:
  assumes "world_inv w" "i < length (slots w)" "slots w ! i = Some (t, st)"
    and "storage_inv st'" "owned_by_live (w_entities w) st'"
  shows "world_inv (set_slot w i t st')"
proof -
  have "slots_ok (w_entities w) ((slots w)[i := Some (t, st')])"
    using assms set_update_subset_insert [of "slots w" i "Some (t, st')"]
    by (auto simp: world_inv_def slots_ok_def)
  moreover have "types_ok (by_type w) ((slots w)[i := Some (t, st')])"
    using assms by (force simp: world_inv_def types_ok_def nth_list_update)
  ultimately show ?thesis using assms(1) by (simp add: world_inv_def set_slot_def)
qed

lemma w_entities_set_slot [simp]: "w_entities (set_slot w i t st) = w_entities w"
  by (simp add: set_slot_def)

lemma component_set_slot:
  assumes "world_inv w" "by_type w t = Some i"
  shows "component (set_slot w i t st') t' e =
     (if t' = t then handle_lookup (storage_map st') e else component w t' e)"
proof -
  have "i < length (slots w)" using typed_slot_inv(2) [OF assms] by blast
  moreover have "t' = t" if "by_type w t' = Some i"
    using typed_slot_inv(2) [OF assms(1) that] typed_slot_inv(2) [OF assms] by auto
  ultimately show ?thesis
    using assms(2) by (cases "by_type w t'") (auto simp: component_def set_slot_def nth_list_update)
qed

lemma component_live:
  assumes "world_inv w" "component w t e = Some v"
  shows "e \<in> live_set (w_entities w)"
proof -
  from assms(2) obtain i where i: "by_type w t = Some i" by (auto simp: component_def split: option.splits)
  with typed_slot_inv(2) [OF assms(1) i] assms(2) show ?thesis
    by (auto simp: component_def handle_lookup_Some owned_by_live_def)
qed

text \<open>Live handles are determined by their index, so a recycled slot has one live handle.\<close>

lemma live_same_index:
  "e \<in> live_set t \<Longrightarrow> e' \<in> live_set t \<Longrightarrow> index e' = index e \<Longrightarrow> e' = e"
  by (auto simp: live_set_def is_alive_def intro: entity.equality)

lemma owned_update:
  assumes "owned_by_live t st" "e \<in> live_set t"
    and "storage_map st' = (storage_map st)(entity_slot e \<mapsto> (generation e, v))"
  shows "owned_by_live t st'"
  unfolding owned_by_live_def
proof (intro allI impI)
  fix e' v' assume a: "storage_map st' (entity_slot e') = Some (generation e', v')"
  show "e' \<in> live_set t"
  proof (cases "index e' = index e")
    case True
    with a assms(3) have "e' = e" by (auto intro: entity.equality)
    with assms(2) show ?thesis by simp
  next
    case False
    with a assms(1,3) show ?thesis by (auto simp: owned_by_live_def unat_eq_iff_u32)
  qed
qed

lemma owned_subset:
  assumes "owned_by_live t st" "storage_map st' \<subseteq>\<^sub>m storage_map st"
  shows "owned_by_live t st'"
  using assms by (force simp: owned_by_live_def map_le_def dom_def)

section \<open>Spawning and despawning\<close>

lemma live_set_slot_le: "e \<in> live_set t \<Longrightarrow> entity_slot e \<le> usize_max"
  using unat_u32_le_usize [of "index e"] by simp

lemma slots_ok_mono: "slots_ok t sl \<Longrightarrow> live_set t \<subseteq> live_set t' \<Longrightarrow> slots_ok t' sl"
  by (force simp: slots_ok_def owned_by_live_def)

lemma component_alive [simp]: "component (w\<lparr>w_entities := x, alive := y\<rparr>) = component w"
  "component (w\<lparr>w_entities := x\<rparr>) = component w" "component (w\<lparr>alive := y\<rparr>) = component w"
  by (simp_all add: component_def fun_eq_iff split: option.split)

text \<open>
  A spawn that succeeds adds exactly one handle, which has no component of any type, even when
  its slot was used before; a spawn that fails changes nothing that can be observed.
\<close>

lemma world_try_spawn_spec:
  assumes inv: "world_inv w"
  obtains (ok) e w' where "world_try_spawn al w = Ret (Inr e, w')" "world_inv w'"
      "e \<notin> live_set (w_entities w)"
      "live_set (w_entities w') = insert e (live_set (w_entities w))"
      "component w' = component w" "\<And>t. component w' t e = None"
      "entity_count w' = entity_count w + 1"
  | (err) x w' where "world_try_spawn al w = Ret (Inl x, w')" "world_inv w'"
      "w_entities w' = w_entities w" "component w' = component w"
proof -
  let ?t = "w_entities w"
  have ti: "entities_inv ?t" using inv by (simp add: world_inv_def)
  obtain r b where r: "bitset_try_reserve al (alive w) (sat_add (watermark ?t) 1) = (r, b)" by force
  have b: "bits b = bits (alive w)" using bitset_try_reserve_bits r by (metis snd_conv)
  show ?thesis
  proof (cases r)
    case (Inl x)
    show ?thesis
      by (rule err [of "world_error_of x" "w\<lparr>alive := b\<rparr>"])
        (use r Inl b inv in \<open>simp_all add: world_try_spawn_def world_inv_def\<close>)
  next
    case (Inr u)
    from ti show ?thesis
    proof (cases rule: try_create_spec [of ?t "\<lambda>k. al (k + 1)"])
      case (err x)
      show ?thesis
        by (rule that(2) [of "WorldEntity x" "w\<lparr>alive := b, w_entities := ?t\<rparr>"])
          (use r Inr b inv err in \<open>simp_all add: world_try_spawn_def world_inv_def\<close>)
    next
      case (ok e t')
      let ?w = "w\<lparr>w_entities := t', alive := snd (bitset_set b (entity_slot e))\<rparr>"
      have "bits (snd (bitset_set b (entity_slot e))) = insert (entity_slot e) (bits b)"
        using unat_u32_le_usize [of "index e"] by (intro bitset_set_spec(2)) simp
      then have "world_inv ?w"
        using inv ok b by (auto simp: world_inv_def intro: slots_ok_mono)
      moreover have "component w t e = None" for t
        using component_live [OF inv, of t e] ok(3) by (cases "component w t e") auto
      ultimately show ?thesis
        by - (rule that(1) [of e ?w], use r Inr ok in \<open>simp_all add: world_try_spawn_def entity_count_def\<close>)
    qed
  qed
qed

text \<open>A slot before and after the removal of an entity.\<close>

definition slot_removed ::
  "entity \<Rightarrow> (type_id \<times> 'v storage) option \<Rightarrow> (type_id \<times> 'v storage) option \<Rightarrow> bool" where
  "slot_removed e a b \<longleftrightarrow>
     (case a of None \<Rightarrow> b = None
      | Some (t, st) \<Rightarrow> \<exists>r st'. b = Some (t, st') \<and> storage_remove st e = Ret (r, st'))"

lemma slot_removed_simps [simp]:
  "slot_removed e None b \<longleftrightarrow> b = None"
  "slot_removed e (Some (t, st)) b \<longleftrightarrow> (\<exists>r st'. b = Some (t, st') \<and> storage_remove st e = Ret (r, st'))"
  by (simp_all add: slot_removed_def)

lemma remove_entity_all_spec:
  assumes "\<And>t st. Some (t, st) \<in> set sl \<Longrightarrow> storage_inv st"
  shows "\<exists>sl'. remove_entity_all e sl = Ret sl' \<and> list_all2 (slot_removed e) sl sl'"
  using assms
proof (induction sl)
  case (Cons a sl)
  then obtain sl' where IH: "remove_entity_all e sl = Ret sl'" "list_all2 (slot_removed e) sl sl'"
    by (meson list.set_intros(2))
  show ?case
  proof (cases a)
    case None
    with IH show ?thesis by simp
  next
    case (Some p)
    obtain t st where p: "p = (t, st)" by force
    with Some Cons.prems have "storage_inv st" by auto
    then obtain st' where "storage_remove st e = Ret (handle_lookup (storage_map st) e, st')"
      using sparse_set.rem by blast
    with IH Some p show ?thesis by auto
  qed
qed simp

lemma owned_after_despawn:
  assumes "storage_inv st" "owned_by_live t st" "e \<in> live_set t" "live_set t' = live_set t - {e}"
    and "storage_remove st e = Ret (r, st')"
  shows "storage_inv st'" "owned_by_live t' st'"
    "handle_lookup (storage_map st') e' = (if e' = e then None else handle_lookup (storage_map st) e')"
proof -
  note rem = sparse_set.rem_Ret [OF assms(1,5)]
  show "storage_inv st'" by (rule rem(1))
  show look: "handle_lookup (storage_map st') e' = (if e' = e then None else handle_lookup (storage_map st) e')" for e'
    using sparse_set.look_after_rem [OF assms(1,5)] rem(1) assms(1) by (simp add: sparse_set.look)
  show "owned_by_live t' st'"
    unfolding owned_by_live_def
  proof (intro allI impI)
    fix h v assume "storage_map st' (entity_slot h) = Some (generation h, v)"
    then have "handle_lookup (storage_map st') h = Some v" by (simp add: handle_lookup_Some)
    then have "h \<noteq> e" "handle_lookup (storage_map st) h = Some v" by (auto simp: look split: if_splits)
    with assms(2,4) show "h \<in> live_set t'" by (auto simp: owned_by_live_def handle_lookup_Some)
  qed
qed

lemma slots_after_despawn:
  assumes inv: "world_inv w" and e: "e \<in> live_set (w_entities w)"
    and t': "live_set t' = live_set (w_entities w) - {e}"
    and sl: "list_all2 (slot_removed e) (slots w) sl"
  shows "slots_ok t' sl" "types_ok (by_type w) sl"
    "component (w\<lparr>slots := sl\<rparr>) t h = (if h = e then None else component w t h)"
proof -
  have len: "length sl = length (slots w)" using sl by (simp add: list_all2_lengthD)
  have before: "\<exists>r st. slots w ! i = Some (ty, st) \<and> storage_remove st e = Ret (r, st')"
    if "i < length sl" "sl ! i = Some (ty, st')" for i ty st'
    using list_all2_nthD2 [OF sl that(1)] that(2) by (auto simp: slot_removed_def split: option.splits)
  have after: "\<exists>r st'. sl ! i = Some (ty, st') \<and> storage_remove st e = Ret (r, st')"
    if "i < length (slots w)" "slots w ! i = Some (ty, st)" for i ty st
    using list_all2_nthD [OF sl that(1)] that(2) by (auto simp: slot_removed_def)
  have ok: "storage_inv st" "owned_by_live (w_entities w) st"
    if "i < length (slots w)" "slots w ! i = Some (ty, st)" for i ty st
    using inv nth_mem [OF that(1)] that(2) by (auto simp: world_inv_def slots_ok_def)
  show "slots_ok t' sl"
    unfolding slots_ok_def
  proof (intro allI impI)
    fix ty st' assume "Some (ty, st') \<in> set sl"
    then obtain i where i: "i < length sl" "sl ! i = Some (ty, st')" by (auto simp: in_set_conv_nth)
    then obtain r st where st: "slots w ! i = Some (ty, st)" "storage_remove st e = Ret (r, st')"
      using before by blast
    from owned_after_despawn [OF ok [OF i(1) [unfolded len] st(1)] e t' st(2)]
    show "storage_inv st' \<and> owned_by_live t' st'" by blast
  qed
  show "types_ok (by_type w) sl"
    unfolding types_ok_def
  proof (intro allI impI)
    fix ty i assume "by_type w ty = Some i"
    then show "i < length sl \<and> (\<exists>st. sl ! i = Some (ty, st))"
      using typed_slot_inv(2) [OF inv] after len by metis
  qed
  show "component (w\<lparr>slots := sl\<rparr>) t h = (if h = e then None else component w t h)"
  proof (cases "by_type w t")
    case (Some i)
    then obtain st where st: "i < length (slots w)" "slots w ! i = Some (t, st)"
      using typed_slot_inv(2) [OF inv Some] by blast
    with after obtain r st' where st': "sl ! i = Some (t, st')" "storage_remove st e = Ret (r, st')"
      by blast
    from owned_after_despawn(3) [OF ok [OF st] e t' st'(2)] st st' Some show ?thesis
      by (simp add: component_def)
  qed (simp add: component_def)
qed

text \<open>A despawn of a live handle kills it and releases its components, and only those.\<close>

lemma world_try_despawn_spec:
  assumes inv: "world_inv w"
  obtains (dead) "world_try_despawn al w e = Ret (Inr False, w)" "e \<notin> live_set (w_entities w)"
  | (err) x where "world_try_despawn al w e = Ret (Inl x, w)" "e \<in> live_set (w_entities w)"
  | (ok) w' where "world_try_despawn al w e = Ret (Inr True, w')" "world_inv w'"
      "e \<in> live_set (w_entities w)" "live_set (w_entities w') = live_set (w_entities w) - {e}"
      "\<And>t e'. component w' t e' = (if e' = e then None else component w t e')"
      "entity_count w = entity_count w' + 1"
proof -
  let ?t = "w_entities w"
  have ti: "entities_inv ?t" using inv by (simp add: world_inv_def)
  from ti show ?thesis
  proof (cases rule: try_destroy_spec [of ?t al e])
    case dead
    then show ?thesis by (intro that(1)) (simp_all add: world_try_despawn_def)
  next
    case (err x)
    then show ?thesis by (intro that(2)) (simp_all add: world_try_despawn_def)
  next
    case (ok t')
    have "storage_inv st" if "Some (t, st) \<in> set (slots w)" for t st
      using inv that by (auto simp: world_inv_def slots_ok_def)
    then obtain sl where sl: "remove_entity_all e (slots w) = Ret sl"
      "list_all2 (slot_removed e) (slots w) sl"
      using remove_entity_all_spec by blast
    note after = slots_after_despawn [OF inv ok(2,4) sl(2)]
    let ?w = "w\<lparr>w_entities := t', alive := snd (bitset_clear (alive w) (entity_slot e)), slots := sl\<rparr>"
    have "bits (snd (bitset_clear (alive w) (entity_slot e))) = entity_slot ` (live_set ?t - {e})"
      using inv live_same_index [OF ok(2)]
      by (auto simp: bitset_clear_spec world_inv_def unat_eq_iff_u32)
    with after(1,2) have "world_inv ?w" using inv ok by (simp add: world_inv_def)
    moreover have "component ?w t h = component (w\<lparr>slots := sl\<rparr>) t h" for t h
      by (simp add: component_def split: option.split)
    ultimately show ?thesis
      by - (rule that(3) [of ?w], use ok sl after(3) in \<open>simp_all add: world_try_despawn_def entity_count_def\<close>)
  qed
qed

section \<open>Components\<close>

lemma register_component_spec:
  assumes inv: "world_inv w" and r: "register_component w t = (k, w')"
  shows "world_inv w'" "component w' = component w" "w_entities w' = w_entities w"
    "by_type w' t \<noteq> None"
proof -
  have *: "world_inv w' \<and> component w' = component w \<and> w_entities w' = w_entities w \<and> by_type w' t \<noteq> None"
  proof (cases "by_type w t")
    case (Some i)
    with r inv show ?thesis by (auto simp: register_component_def)
  next
    case n: None
    with r have w': "w' = w\<lparr>slots := slots w @ [Some (t, storage_new)],
        by_type := (by_type w)(t \<mapsto> length (slots w))\<rparr>"
      by (auto simp: register_component_def)
    have "types_ok (by_type w') (slots w')"
      using inv unfolding w' types_ok_def world_inv_def
      by (auto simp: nth_append) (metis less_SucI)+
    then have "world_inv w'"
      using inv by (auto simp: w' world_inv_def slots_ok_def owned_by_live_def)
    moreover have "component w' t' e = component w t' e" for t' e
    proof (cases "by_type w t'")
      case None
      then show ?thesis by (simp add: w' component_def handle_lookup_def)
    next
      case (Some i)
      with n have "t' \<noteq> t" "i < length (slots w)" using typed_slot_inv(2) [OF inv Some] by auto
      with Some show ?thesis by (simp add: w' component_def nth_append)
    qed
    then have "component w' = component w" by (intro ext)
    ultimately show ?thesis by (simp add: w')
  qed
  then show "world_inv w'" "component w' = component w" "w_entities w' = w_entities w"
    "by_type w' t \<noteq> None" by blast+
qed

text \<open>Insertion into a live entity sets exactly one component; a dead entity is refused.\<close>

lemma world_try_insert_typed_spec:
  assumes inv: "world_inv w" and reg: "by_type w t \<noteq> None"
  obtains (dead) "world_try_insert_typed al w t e v = Ret (Inl EntityNotAlive, w)"
      "e \<notin> live_set (w_entities w)"
  | (err) x w' where "world_try_insert_typed al w t e v = Ret (Inl (WorldStorage x), w')"
      "world_inv w'" "component w' = component w" "w_entities w' = w_entities w"
      "e \<in> live_set (w_entities w)"
  | (ok) w' where "world_try_insert_typed al w t e v = Ret (Inr (), w')" "world_inv w'"
      "component w' = (component w)(t := (component w t)(e \<mapsto> v))" "w_entities w' = w_entities w"
      "e \<in> live_set (w_entities w)"
proof (cases "e \<in> live_set (w_entities w)")
  case False
  then show ?thesis
    by (intro dead) (simp_all add: world_try_insert_typed_def world_is_alive_def live_set_def)
next
  case True
  then have al: "world_is_alive w e" by (simp add: live_set_def world_is_alive_def)
  obtain i where i: "by_type w t = Some i" using reg by auto
  obtain st where st: "i < length (slots w)" "slots w ! i = Some (t, st)"
    "typed_slot w t = Ret (Some (i, st))" "storage_inv st" "owned_by_live (w_entities w) st"
    using typed_slot_inv(2) [OF inv i] by blast
  obtain r st' where r: "storage_try_insert al st e v = Ret (r, st')" "storage_inv st'" "storage_map st' =
      (case r of Inr _ \<Rightarrow> (storage_map st)(entity_slot e \<mapsto> (generation e, v)) | Inl _ \<Rightarrow> storage_map st)"
    using sparse_set.ins [OF st(4)] by blast
  have run: "world_try_insert_typed al w t e v =
      Ret (case r of Inl x \<Rightarrow> Inl (WorldStorage x) | Inr u \<Rightarrow> Inr u, set_slot w i t st')"
    using al st r(1) by (simp add: world_try_insert_typed_def)
  have comp: "component w t = handle_lookup (storage_map st)"
    using i st by (simp add: component_def fun_eq_iff)
  show ?thesis
  proof (cases r)
    case (Inl x)
    with r have "owned_by_live (w_entities w) st'" using st(5) by (simp add: owned_by_live_def)
    then have "world_inv (set_slot w i t st')" by (rule set_slot_inv [OF inv st(1,2) r(2)])
    moreover have "component (set_slot w i t st') = component w"
      using Inl r(3) comp by (intro ext) (simp add: component_set_slot [OF inv i])
    ultimately show ?thesis using Inl run True by - (rule err [of x "set_slot w i t st'"], simp_all)
  next
    case (Inr u)
    with r have m: "storage_map st' = (storage_map st)(entity_slot e \<mapsto> (generation e, v))" by simp
    have "world_inv (set_slot w i t st')"
      by (rule set_slot_inv [OF inv st(1,2) r(2) owned_update [OF st(5) True m]])
    moreover have "handle_lookup (storage_map st') e' = (if e' = e then Some v else component w t e')" for e'
    proof (cases "index e' = index e \<and> e' \<noteq> e")
      case c: True
      then have "component w t e' = None"
        using component_live [OF inv, of t e'] live_same_index [OF True, of e']
        by (cases "component w t e'") auto
      moreover from c have "generation e' \<noteq> generation e" by (auto intro: entity.equality)
      ultimately show ?thesis using c by (auto simp: m handle_lookup_def)
    next
      case False
      then show ?thesis by (auto simp: m comp handle_lookup_def unat_eq_iff_u32)
    qed
    then have "component (set_slot w i t st') = (component w)(t := (component w t)(e \<mapsto> v))"
      by (intro ext) (simp add: component_set_slot [OF inv i])
    ultimately show ?thesis using Inr run True by - (rule ok [of "set_slot w i t st'"], simp_all)
  qed
qed

lemma world_try_insert_spec:
  assumes inv: "world_inv w"
  obtains (dead) "world_try_insert al w t e v = Ret (Inl EntityNotAlive, w)"
      "e \<notin> live_set (w_entities w)"
  | (err) x w' where "world_try_insert al w t e v = Ret (Inl (WorldStorage x), w')"
      "world_inv w'" "component w' = component w" "w_entities w' = w_entities w"
      "e \<in> live_set (w_entities w)"
  | (ok) w' where "world_try_insert al w t e v = Ret (Inr (), w')" "world_inv w'"
      "component w' = (component w)(t := (component w t)(e \<mapsto> v))" "w_entities w' = w_entities w"
      "e \<in> live_set (w_entities w)"
proof (cases "world_is_alive w e")
  case False
  then show ?thesis by (intro dead) (simp_all add: world_try_insert_def world_is_alive_def live_set_def)
next
  case True
  obtain k w1 where r: "register_component w t = (k, w1)" by force
  note reg = register_component_spec [OF inv r]
  have run: "world_try_insert al w t e v = world_try_insert_typed al w1 t e v"
    using True r by (simp add: world_try_insert_def)
  have "e \<in> live_set (w_entities w)" using True by (simp add: world_is_alive_def live_set_def)
  then show ?thesis
    using world_try_insert_typed_spec [OF reg(1,4), of al e v] run reg(2,3)
    by (cases rule: world_try_insert_typed_spec [OF reg(1,4), of al e v])
      (auto intro: err ok)
qed

lemma world_remove_spec:
  assumes inv: "world_inv w"
  obtains w' where "world_remove w t e = Ret (component w t e, w')" "world_inv w'"
    "component w' = (component w)(t := (component w t)(e := None))" "w_entities w' = w_entities w"
proof (cases "by_type w t")
  case None
  then have "component w t = Map.empty" by (simp add: component_def fun_eq_iff)
  moreover have "world_remove w t e = Ret (None, w)"
    using typed_slot_inv(1) [OF inv None] by (simp add: world_remove_def)
  ultimately show ?thesis using inv by - (rule that [of w], simp_all add: fun_upd_idem)
next
  case (Some i)
  obtain st where st: "i < length (slots w)" "slots w ! i = Some (t, st)"
    "typed_slot w t = Ret (Some (i, st))" "storage_inv st" "owned_by_live (w_entities w) st"
    using typed_slot_inv(2) [OF inv Some] by blast
  have comp: "component w t = handle_lookup (storage_map st)"
    using Some st by (simp add: component_def fun_eq_iff)
  obtain r st' where r: "storage_remove st e = Ret (r, st')" using sparse_set.rem [OF st(4)] by blast
  note rem = sparse_set.rem_Ret [OF st(4) r]
  have "storage_map st' \<subseteq>\<^sub>m storage_map st" unfolding rem(3) by (auto simp: map_le_def)
  then have "world_inv (set_slot w i t st')"
    by (rule set_slot_inv [OF inv st(1,2) rem(1) owned_subset [OF st(5)]])
  moreover have "handle_lookup (storage_map st') e' = (if e' = e then None else component w t e')" for e'
    using sparse_set.look_after_rem [OF st(4) r] rem(1) st(4) by (simp add: sparse_set.look comp)
  then have "component (set_slot w i t st') = (component w)(t := (component w t)(e := None))"
    by (intro ext) (simp add: component_set_slot [OF inv Some])
  moreover have "world_remove w t e = Ret (component w t e, set_slot w i t st')"
    using st r rem(2) comp by (simp add: world_remove_def)
  ultimately show ?thesis by - (rule that [of "set_slot w i t st'"], simp_all)
qed

lemma world_get_mut_spec:
  assumes inv: "world_inv w"
  obtains w' where "world_get_mut w t e f = Ret (component w t e \<noteq> None, w')" "world_inv w'"
    "component w' = (component w)(t := (component w t)(e := map_option f (component w t e)))"
    "w_entities w' = w_entities w"
proof (cases "by_type w t")
  case None
  then have "component w t = Map.empty" by (simp add: component_def fun_eq_iff)
  moreover have "world_get_mut w t e f = Ret (False, w)"
    using typed_slot_inv(1) [OF inv None] by (simp add: world_get_mut_def)
  ultimately show ?thesis using inv by - (rule that [of w], simp_all add: fun_upd_idem)
next
  case (Some i)
  obtain st where st: "i < length (slots w)" "slots w ! i = Some (t, st)"
    "typed_slot w t = Ret (Some (i, st))" "storage_inv st" "owned_by_live (w_entities w) st"
    using typed_slot_inv(2) [OF inv Some] by blast
  have comp: "component w t = handle_lookup (storage_map st)"
    using Some st by (simp add: component_def fun_eq_iff)
  have "\<exists>st'. storage_get_mut st e f = Ret (component w t e \<noteq> None, st') \<and> storage_inv st'
      \<and> owned_by_live (w_entities w) st' \<and>
      handle_lookup (storage_map st') = (component w t)(e := map_option f (component w t e))"
    using st(4)
  proof (cases rule: storage_get_mut_spec [of st e f])
    case (hit v st')
    then have "component w t e = Some v" by (simp add: comp handle_lookup_Some)
    moreover from this have "owned_by_live (w_entities w) st'"
      by (intro owned_update [OF st(5) component_live [OF inv] hit(4)])
    moreover have "handle_lookup (storage_map st') e' = ((component w t)(e \<mapsto> f v)) e'" for e'
      using hit(1) by (auto simp: comp hit(4) handle_lookup_def unat_eq_iff_u32 intro: entity.equality)
    ultimately show ?thesis using hit(2,3) by (auto simp: fun_eq_iff)
  next
    case miss
    then have "component w t e = None"
      unfolding comp by (cases "handle_lookup (storage_map st) e") (auto simp: handle_lookup_Some)
    with miss st show ?thesis by (auto simp: comp fun_upd_idem)
  qed
  then obtain st' where r: "storage_get_mut st e f = Ret (component w t e \<noteq> None, st')" "storage_inv st'"
    "owned_by_live (w_entities w) st'"
    "handle_lookup (storage_map st') = (component w t)(e := map_option f (component w t e))" by blast
  have "world_inv (set_slot w i t st')" by (rule set_slot_inv [OF inv st(1,2) r(2,3)])
  moreover have "component (set_slot w i t st') =
      (component w)(t := (component w t)(e := map_option f (component w t e)))"
    by (intro ext) (simp add: component_set_slot [OF inv Some] r(4))
  moreover have "world_get_mut w t e f = Ret (component w t e \<noteq> None, set_slot w i t st')"
    using st r by (simp add: world_get_mut_def)
  ultimately show ?thesis by - (rule that [of "set_slot w i t st'"], simp_all)
qed

section \<open>Iteration\<close>

lemma sorted_wrt_map_inj:
  "sorted_wrt (<) (xs :: nat list) \<Longrightarrow> (\<And>x y. x \<in> set xs \<Longrightarrow> y \<in> set xs \<Longrightarrow> x < y \<Longrightarrow> R (f x) (f y))
     \<Longrightarrow> sorted_wrt R (map f xs)"
  by (induction xs) auto

text \<open>\<open>for_each_entity\<close> visits exactly the live entities, each once, by increasing index.\<close>

lemma for_each_entity_spec:
  assumes inv: "world_inv w"
  shows "set (for_each_entity w) = live_set (w_entities w)"
    and "sorted_wrt (\<lambda>a b. index a < index b) (for_each_entity w)"
proof -
  let ?t = "w_entities w" and ?is = "word_indices (words (alive w))"
  have live: "set ?is = entity_slot ` live_set ?t"
    using inv by (simp add: world_inv_def set_word_indices_words)
  have lt: "i < length (generations ?t)" if "i \<in> set ?is" for i
    using that unfolding live by (auto simp: live_set_def is_alive_def)
  then have un: "unat (of_nat i :: u32) = i" if "i \<in> set ?is" for i
    using that inv by (force simp: world_inv_def entities_inv_def intro: unat_of_nat_u32)
  have "concat (map (\<lambda>i. case generation_at ?t i of Some g \<Rightarrow> [\<lparr>index = of_nat i, generation = g\<rparr>] | None \<Rightarrow> []) js) =
      map (\<lambda>i. \<lparr>index = of_nat i, generation = generations ?t ! i\<rparr>) js"
    if "set js \<subseteq> set ?is" for js
    using that lt by (induction js) (auto simp: generation_at_def vec_get_def)
  then have eq: "for_each_entity w = map (\<lambda>i. \<lparr>index = of_nat i, generation = generations ?t ! i\<rparr>) ?is"
    unfolding for_each_entity_def by blast
  show "set (for_each_entity w) = live_set ?t"
    unfolding eq by (auto simp: live live_set_def is_alive_def image_iff intro!: entity.equality) force
  show "sorted_wrt (\<lambda>a b. index a < index b) (for_each_entity w)"
    unfolding eq using word_indices_spec(1) un
    by (intro sorted_wrt_map_inj) (simp_all add: word_less_nat_alt)
qed

text \<open>
  \<open>collect_intersection\<close> returns, in increasing order and without repetition, the indices of the
  live entities that hold both components.
\<close>

lemma bits_map2_and: "bits \<lparr>words = map2 (AND) (words a) (words b)\<rparr> = bits a \<inter> bits b"
  by (auto simp: mem_bits bit_and_iff)

lemma component_index:
  assumes "world_inv w" "by_type w t = Some i" "slots w ! i = Some (t, st)" "storage_inv st"
  shows "bits (presence st) = entity_slot ` {e. component w t e \<noteq> None}"
proof -
  have c: "component w t = handle_lookup (storage_map st)"
    using assms by (simp add: component_def fun_eq_iff)
  have "bits (presence st) = dom (storage_map st)" by (simp add: dom_storage_map assms(4))
  also have "\<dots> = entity_slot ` {e. component w t e \<noteq> None}"
  proof
    show "entity_slot ` {e. component w t e \<noteq> None} \<subseteq> dom (storage_map st)"
      by (auto simp: c handle_lookup_Some)
    show "dom (storage_map st) \<subseteq> entity_slot ` {e. component w t e \<noteq> None}"
    proof
      fix j assume "j \<in> dom (storage_map st)"
      then obtain g v where j: "storage_map st j = Some (g, v)" by auto
      then have "j < length (sparse st)" by (simp add: storage_map_def split: if_splits)
      then have u: "unat (of_nat j :: u32) = j"
        using storage_inv_bound [OF assms(4)] by (intro unat_of_nat_u32) (simp add: u32_max_def)
      with j have "component w t \<lparr>index = of_nat j, generation = g\<rparr> = Some v"
        by (simp add: c handle_lookup_Some)
      then show "j \<in> entity_slot ` {e. component w t e \<noteq> None}"
        using u by (intro image_eqI [of _ _ "\<lparr>index = of_nat j, generation = g\<rparr>"]) auto
    qed
  qed
  finally show ?thesis .
qed

lemma collect_intersection_spec:
  assumes inv: "world_inv w"
  obtains out where "collect_intersection w ta tb = Ret out"
    "set out = {index e | e. component w ta e \<noteq> None \<and> component w tb e \<noteq> None}"
    "sorted_wrt (<) out"
proof (cases "by_type w ta = None \<or> by_type w tb = None")
  case True
  then show ?thesis
    by (intro that [of "[]"]) (auto simp: collect_intersection_def slot_index_def component_def split: option.splits)
next
  case False
  then obtain ia ib where i: "by_type w ta = Some ia" "by_type w tb = Some ib" by auto
  obtain a where a: "slots w ! ia = Some (ta, a)" "typed_slot w ta = Ret (Some (ia, a))" "storage_inv a"
    using typed_slot_inv(2) [OF inv i(1)] by blast
  obtain b where b: "slots w ! ib = Some (tb, b)" "typed_slot w tb = Ret (Some (ib, b))" "storage_inv b"
    using typed_slot_inv(2) [OF inv i(2)] by blast
  let ?is = "word_indices (map2 (AND) (words (presence a)) (words (presence b)))"
  let ?out = "map of_nat ?is :: u32 list"
  have is1: "set ?is = bits (presence a) \<inter> bits (presence b)"
    by (simp add: word_indices_spec bits_map2_and)
  have un: "unat (of_nat j :: u32) = j" if "j \<in> set ?is" for j
    using that component_index [OF inv i(1) a(1,3)] unfolding is1 by auto
  have srt: "sorted_wrt (<) ?out"
    using word_indices_spec(1) un by (intro sorted_wrt_map_inj) (simp_all add: word_less_nat_alt)
  then have "sort ?out = ?out"
    by (metis sorted_sort_id strict_sorted_imp_sorted)
  then have run: "collect_intersection w ta tb = Ret ?out"
    using i a b by (simp add: collect_intersection_def slot_index_def)
  have "set ?out = {index e | e. component w ta e \<noteq> None \<and> component w tb e \<noteq> None}" (is "_ = ?R")
  proof
    show "set ?out \<subseteq> ?R"
    proof
      fix x assume "x \<in> set ?out"
      then obtain j where j: "x = of_nat j" "j \<in> set ?is" by auto
      then obtain ea eb where e: "j = entity_slot ea" "component w ta ea \<noteq> None"
        "j = entity_slot eb" "component w tb eb \<noteq> None"
        unfolding is1 component_index [OF inv i(1) a(1,3)] component_index [OF inv i(2) b(1,3)]
        by blast
      then have "eb = ea"
        using component_live [OF inv] live_same_index by (metis not_None_eq unat_eq_iff_u32)
      with e j show "x \<in> ?R" by auto
    qed
    show "?R \<subseteq> set ?out"
      using component_index [OF inv i(1) a(1,3)] component_index [OF inv i(2) b(1,3)]
      by (auto simp: is1 intro!: image_eqI)
  qed
  then show ?thesis using srt run by (intro that)
qed

text \<open>
  The pair driver refines a loop over the two maps: a candidate is visited exactly when both
  storages hold it under the same generation, and the closure's writes go to exactly that entry.
\<close>

definition pair_spec ::
  "(entity \<Rightarrow> 'v \<Rightarrow> 'v \<Rightarrow> 'c \<Rightarrow> 'v \<times> 'v \<times> 'c) \<Rightarrow> u32
     \<Rightarrow> (nat \<Rightarrow> (u32 \<times> 'v) option) \<times> (nat \<Rightarrow> (u32 \<times> 'v) option) \<times> 'c
     \<Rightarrow> (nat \<Rightarrow> (u32 \<times> 'v) option) \<times> (nat \<Rightarrow> (u32 \<times> 'v) option) \<times> 'c" where
  "pair_spec f i = (\<lambda>(ma, mb, c).
     case (ma (unat i), mb (unat i)) of
       (Some (g, a), Some (g', b)) \<Rightarrow>
         (if g' = g
          then let (a', b', c') = f \<lparr>index = i, generation = g\<rparr> a b c
               in (ma(unat i \<mapsto> (g, a')), mb(unat i \<mapsto> (g, b')), c')
          else (ma, mb, c))
     | _ \<Rightarrow> (ma, mb, c))"

definition pair_view ::
  "'v storage \<times> 'v storage \<times> 'c \<Rightarrow> (nat \<Rightarrow> (u32 \<times> 'v) option) \<times> (nat \<Rightarrow> (u32 \<times> 'v) option) \<times> 'c" where
  "pair_view = (\<lambda>(sa, sb, c). (storage_map sa, storage_map sb, c))"

lemma get_mut_hit:
  assumes "storage_inv s" "storage_map s (unat i) = Some (g, v)"
  obtains s' where "storage_get_mut s \<lparr>index = i, generation = g\<rparr> f = Ret (True, s')" "storage_inv s'"
    "storage_map s' = (storage_map s)(unat i \<mapsto> (g, f v))"
  using assms(1)
  by (cases rule: storage_get_mut_spec [of s "\<lparr>index = i, generation = g\<rparr>" f]) (use assms(2) that in auto)

lemma pair_step_refines:
  assumes "storage_inv sa" "storage_inv sb"
  shows "\<exists>sa' sb' c'. pair_step f i (sa, sb, c) = Ret (sa', sb', c') \<and> storage_inv sa' \<and> storage_inv sb'
    \<and> pair_view (sa', sb', c') = pair_spec f i (pair_view (sa, sb, c))"
proof (cases "\<exists>g a b. storage_map sa (unat i) = Some (g, a) \<and> storage_map sb (unat i) = Some (g, b)")
  case False
  then have "pair_step f i (sa, sb, c) = Ret (sa, sb, c)"
    "pair_spec f i (pair_view (sa, sb, c)) = pair_view (sa, sb, c)"
    using assms by (auto simp: pair_step_def pair_spec_def pair_view_def storage_generation_at_map
        storage_contains_map Let_def split: option.splits)
  with assms show ?thesis by simp
next
  case True
  then obtain g a b where m: "storage_map sa (unat i) = Some (g, a)" "storage_map sb (unat i) = Some (g, b)"
    by blast
  let ?e = "\<lparr>index = i, generation = g\<rparr>"
  obtain a' b' c' where f: "f ?e a b c = (a', b', c')" by (metis prod_cases3)
  obtain sa' where sa': "storage_get_mut sa ?e (\<lambda>_. a') = Ret (True, sa')" "storage_inv sa'"
    "storage_map sa' = (storage_map sa)(unat i \<mapsto> (g, a'))"
    using get_mut_hit [OF assms(1) m(1)] by blast
  obtain sb' where sb': "storage_get_mut sb ?e (\<lambda>_. b') = Ret (True, sb')" "storage_inv sb'"
    "storage_map sb' = (storage_map sb)(unat i \<mapsto> (g, b'))"
    using get_mut_hit [OF assms(2) m(2)] by blast
  have "pair_step f i (sa, sb, c) = Ret (sa', sb', c')"
    using assms m f sa'(1) sb'(1)
    by (simp add: pair_step_def storage_generation_at_map storage_contains_map storage_get_map)
  moreover have "pair_view (sa', sb', c') = pair_spec f i (pair_view (sa, sb, c))"
    using m f sa'(3) sb'(3) by (simp add: pair_spec_def pair_view_def)
  ultimately show ?thesis using sa'(2) sb'(2) by blast
qed

lemma pair_for_each_refines:
  assumes "storage_inv sa" "storage_inv sb"
  shows "\<exists>sa' sb' c'. pair_for_each f cs (sa, sb, c) = Ret (sa', sb', c') \<and> storage_inv sa' \<and> storage_inv sb'
    \<and> pair_view (sa', sb', c') = fold (pair_spec f) cs (pair_view (sa, sb, c))"
proof -
  let ?I = "\<lambda>(sa, sb, c). storage_inv sa \<and> storage_inv sb"
  have "\<exists>s'. pair_step f i s = Ret s' \<and> ?I s' \<and> pair_view s' = pair_spec f i (pair_view s)"
    if "?I s" for i s
  proof -
    obtain x y z where s: "s = (x, y, z)" by (metis prod_cases3)
    with that pair_step_refines [of x y f i z] show ?thesis by fastforce
  qed
  with run_fold_refines [of cs ?I "pair_step f" pair_view "pair_spec f" "(sa, sb, c)"] assms
  show ?thesis by (force simp: pair_for_each_def)
qed

text \<open>The driver keeps the domain and the generations of both maps, hence the ownership rule.\<close>

lemma pair_spec_shape:
  assumes "pair_spec f i (ma, mb, c) = (ma', mb', c')"
  shows "map_option fst (ma' j) = map_option fst (ma j)" "map_option fst (mb' j) = map_option fst (mb j)"
  using assms by (auto simp: pair_spec_def split: option.splits prod.splits if_splits)

lemma fold_pair_spec_shape:
  "fold (pair_spec f) cs (ma, mb, c) = (ma', mb', c') \<Longrightarrow>
     map_option fst (ma' j) = map_option fst (ma j) \<and> map_option fst (mb' j) = map_option fst (mb j)"
proof (induction cs arbitrary: ma mb c)
  case (Cons i cs)
  obtain ma1 mb1 c1 where s: "pair_spec f i (ma, mb, c) = (ma1, mb1, c1)" by (metis prod_cases3)
  with Cons.prems have "fold (pair_spec f) cs (ma1, mb1, c1) = (ma', mb', c')" by simp
  from Cons.IH [OF this] pair_spec_shape [OF s, of j] show ?case by simp
qed simp

lemma owned_same_shape:
  assumes "owned_by_live t st" "\<And>j. map_option fst (storage_map st' j) = map_option fst (storage_map st j)"
  shows "owned_by_live t st'"
  unfolding owned_by_live_def
proof (intro allI impI)
  fix e v assume "storage_map st' (entity_slot e) = Some (generation e, v)"
  with assms(2) [of "entity_slot e"] obtain v' where "storage_map st (entity_slot e) = Some (generation e, v')"
    by (cases "storage_map st (entity_slot e)") auto
  with assms(1) show "e \<in> live_set t" by (auto simp: owned_by_live_def)
qed

lemma world_pair_eq:
  assumes inv: "world_inv w" and i: "by_type w ta = Some ia" "by_type w tb = Some ib" and ne: "ta \<noteq> tb"
  obtains a b where "world_pair w ta tb = Ret (Some (ia, ib, a, b))" "ia \<noteq> ib"
    "slots w ! ia = Some (ta, a)" "slots w ! ib = Some (tb, b)"
proof -
  obtain a where a: "slots w ! ia = Some (ta, a)" "ia < length (slots w)"
    using typed_slot_inv(2) [OF inv i(1)] by blast
  obtain b where b: "slots w ! ib = Some (tb, b)" "ib < length (slots w)"
    using typed_slot_inv(2) [OF inv i(2)] by blast
  from a b ne have "ia \<noteq> ib" by auto
  with a b i show ?thesis
    by (intro that [of a b]) (simp_all add: world_pair_def slot_index_def get2_mut_def vec_get_def downcast_def)
qed

lemma world_pair_for_each_inv:
  assumes inv: "world_inv w" and i: "by_type w ta = Some ia" "by_type w tb = Some ib" and ne: "ta \<noteq> tb"
  obtains w' c' where "world_pair_for_each f cs ta tb w c = Ret (Some (w', c'))" "world_inv w'"
    "w_entities w' = w_entities w" "by_type w' = by_type w"
    "(storage_map (snd (the (slots w' ! ia))), storage_map (snd (the (slots w' ! ib))), c') =
       fold (pair_spec f) cs (storage_map (snd (the (slots w ! ia))), storage_map (snd (the (slots w ! ib))), c)"
    "\<And>j. j \<noteq> ia \<Longrightarrow> j \<noteq> ib \<Longrightarrow> slots w' ! j = slots w ! j"
proof -
  obtain a b where p: "world_pair w ta tb = Ret (Some (ia, ib, a, b))" "ia \<noteq> ib"
    "slots w ! ia = Some (ta, a)" "slots w ! ib = Some (tb, b)"
    using world_pair_eq [OF assms] by blast
  have a: "storage_inv a" "owned_by_live (w_entities w) a" "ia < length (slots w)"
    using typed_slot_inv(2) [OF inv i(1)] p(3) by auto
  have b: "storage_inv b" "owned_by_live (w_entities w) b" "ib < length (slots w)"
    using typed_slot_inv(2) [OF inv i(2)] p(4) by auto
  obtain a' b' c' where r: "pair_for_each f cs (a, b, c) = Ret (a', b', c')" "storage_inv a'" "storage_inv b'"
    "pair_view (a', b', c') = fold (pair_spec f) cs (pair_view (a, b, c))"
    using pair_for_each_refines [OF a(1) b(1), of f cs c] by blast
  have eq: "fold (pair_spec f) cs (storage_map a, storage_map b, c) = (storage_map a', storage_map b', c')"
    using r(4) by (simp add: pair_view_def)
  note shape = fold_pair_spec_shape [OF eq]
  let ?w1 = "set_slot w ia ta a'" and ?w2 = "set_slot (set_slot w ia ta a') ib tb b'"
  have "world_inv ?w1" using shape
    by (intro set_slot_inv [OF inv a(3) p(3) r(2)] owned_same_shape [OF a(2)]) blast
  then have "world_inv ?w2" using shape p b
    by (intro set_slot_inv [of _ _ _ b, OF _ _ _ r(3)]) (auto simp: set_slot_def intro: owned_same_shape [OF b(2)])
  moreover have "world_pair_for_each f cs ta tb w c = Ret (Some (?w2, c'))"
    using p(1) r(1) by (simp add: world_pair_for_each_def)
  ultimately show ?thesis using eq p(2-4) a(3) b(3)
    by - (rule that [of ?w2 c'], simp_all add: set_slot_def)
qed

section \<open>When an operation may be refused\<close>

lemma bitset_reserve_refused:
  assumes "bitset_try_reserve al b i = (Inl x, b')" "i < usize_max"
  shows "\<not> al 0"
  using assms by (auto simp: bitset_try_reserve_def checked_add_def Let_def split: if_splits)

lemma try_create_refused:
  assumes "entities_inv t" "try_create al t = Ret (Inl x, t')"
  shows "\<not> al 0 \<or> live t = u32_max"
  using assms by (auto simp: try_create_def vec_pop_def entities_inv_def Let_def split: if_splits option.splits)

lemma storage_insert_refused:
  assumes "storage_try_insert al s e v = Ret (Inl x, s')"
  shows "\<exists>k. \<not> al k"
proof (rule ccontr)
  assume "\<nexists>k. \<not> al k"
  then have al: "al k" for k by blast
  have i: "unat (index e) < 2 ^ 32" using unat_u32_less [of "index e"] by simp
  have "bitset_try_reserve (\<lambda>k. True) b (unat (index e)) \<noteq> (Inl y, b')" for b y b'
    using i by (simp add: bitset_try_reserve_def checked_add_def Let_def usize_max_def)
  moreover have "fst (ensure_index al s e) = Inr ()"
    using al i by (simp add: ensure_index_def checked_add_def usize_max_def)
  ultimately show False
    using assms al
    by (auto simp: storage_try_insert_def Let_def split: prod.splits sum.splits if_splits option.splits)
qed

lemma world_spawn_refused:
  assumes inv: "world_inv w" and r: "world_try_spawn al w = Ret (Inl x, w')"
  shows "(\<exists>k. \<not> al k) \<or> card (live_set (w_entities w)) = u32_max"
proof -
  have e: "entities_inv (w_entities w)" using inv by (simp add: world_inv_def)
  then have wm: "sat_add (watermark (w_entities w)) 1 < usize_max"
    by (simp add: entities_inv_def watermark_def sat_add_def usize_max_def u32_max_def)
  have live: "card (live_set (w_entities w)) = live (w_entities w)"
    using entities_iter_spec [OF e] distinct_card [of "entities_iter (w_entities w)"] by simp
  show ?thesis
  proof (cases "bitset_try_reserve al (alive w) (sat_add (watermark (w_entities w)) 1)")
    case (Pair q b)
    show ?thesis
    proof (cases q)
      case (Inl y)
      then show ?thesis using bitset_reserve_refused [OF Pair [unfolded Inl] wm] by blast
    next
      case (Inr u)
      obtain y t where "try_create (\<lambda>k. al (k + 1)) (w_entities w) = Ret (Inl y, t)"
        by (cases rule: try_create_spec [OF e, of "\<lambda>k. al (k + 1)"]) (use r Pair Inr in \<open>auto simp: world_try_spawn_def\<close>)
      then show ?thesis using try_create_refused [OF e] live by metis
    qed
  qed
qed

lemma world_despawn_refused:
  assumes "world_inv w" "world_try_despawn al w e = Ret (Inl x, w')"
  shows "\<exists>k. \<not> al k"
proof -
  have "entities_inv (w_entities w)" using assms(1) by (simp add: world_inv_def)
  then show ?thesis
  proof (cases rule: try_destroy_spec [of "w_entities w" al e])
    case (err y)
    then show ?thesis by (auto simp: try_destroy_def Let_def split: if_splits)
  next
    case (ok t')
    with assms(2) show ?thesis
      by (cases "remove_entity_all e (slots w)") (auto simp: world_try_despawn_def)
  qed (use assms(2) in \<open>auto simp: world_try_despawn_def\<close>)
qed

lemma world_insert_refused:
  assumes "world_try_insert al w t e v = Ret (Inl (WorldStorage x), w')"
  shows "\<exists>k. \<not> al k"
proof -
  let ?w = "snd (register_component w t)"
  have r: "world_try_insert_typed al ?w t e v = Ret (Inl (WorldStorage x), w')" and "world_is_alive w e"
    using assms by (auto simp: world_try_insert_def split: if_splits)
  then obtain i st where "typed_slot ?w t = Ret (Some (i, st))"
    by (cases "typed_slot ?w t") (auto simp: world_try_insert_typed_def split: if_splits option.splits)
  with r obtain y st' where "storage_try_insert al st e v = Ret (Inl y, st')"
    by (cases "storage_try_insert al st e v") (auto simp: world_try_insert_typed_def split: if_splits sum.splits)
  then show ?thesis by (rule storage_insert_refused)
qed

section \<open>The world against its abstract contract\<close>

text \<open>
  What a client sees of a world: the set of live handles and, per component type, a partial map from
  handles to values. The contract of an operation is a step on that pair. An operation that asks
  the allocator may be refused, without effect, only if the allocator refuses (\<open>scarce\<close>), or for a
  spawn also when all 2^32 - 1 handles are in use.
\<close>

datatype 'v world_op =
    OpSpawn
  | OpDespawn entity
  | OpInsert type_id entity 'v
  | OpRemove type_id entity
  | OpUpdate type_id entity "'v \<Rightarrow> 'v"

datatype 'v world_answer =
    Spawned entity
  | Answer bool
  | Taken "'v option"
  | Refused

inductive world_contract ::
  "bool \<Rightarrow> 'v world_op \<Rightarrow> entity set \<times> (type_id \<Rightarrow> entity \<Rightarrow> 'v option) \<Rightarrow> 'v world_answer
     \<Rightarrow> entity set \<times> (type_id \<Rightarrow> entity \<Rightarrow> 'v option) \<Rightarrow> bool" where
  spawn: "e \<notin> L \<Longrightarrow> (\<And>t. C t e = None) \<Longrightarrow> world_contract scarce OpSpawn (L, C) (Spawned e) (insert e L, C)"
| spawn_refused: "scarce \<or> card L = u32_max \<Longrightarrow> world_contract scarce OpSpawn (L, C) Refused (L, C)"
| despawn: "e \<in> L \<Longrightarrow>
    world_contract scarce (OpDespawn e) (L, C) (Answer True) (L - {e}, \<lambda>t. (C t)(e := None))"
| despawn_dead: "e \<notin> L \<Longrightarrow> world_contract scarce (OpDespawn e) (L, C) (Answer False) (L, C)"
| despawn_refused: "scarce \<Longrightarrow> e \<in> L \<Longrightarrow> world_contract scarce (OpDespawn e) (L, C) Refused (L, C)"
| insert: "e \<in> L \<Longrightarrow>
    world_contract scarce (OpInsert t e v) (L, C) (Answer True) (L, C(t := (C t)(e \<mapsto> v)))"
| insert_dead: "e \<notin> L \<Longrightarrow> world_contract scarce (OpInsert t e v) (L, C) (Answer False) (L, C)"
| insert_refused: "scarce \<Longrightarrow> e \<in> L \<Longrightarrow> world_contract scarce (OpInsert t e v) (L, C) Refused (L, C)"
| remove: "world_contract scarce (OpRemove t e) (L, C) (Taken (C t e)) (L, C(t := (C t)(e := None)))"
| update: "world_contract scarce (OpUpdate t e f) (L, C) (Answer (C t e \<noteq> None))
    (L, C(t := (C t)(e := map_option f (C t e))))"

inductive_cases world_contract_spawnE: "world_contract scarce OpSpawn s a s'"
inductive_cases world_contract_despawnE: "world_contract scarce (OpDespawn e) s a s'"

fun world_exec :: "alloc \<times> 'v world_op \<Rightarrow> 'v world \<Rightarrow> ('v world_answer \<times> 'v world) run" where
  "world_exec (al, OpSpawn) w = run_bind (world_try_spawn al w)
     (\<lambda>(r, w'). Ret (case r of Inr e \<Rightarrow> Spawned e | Inl _ \<Rightarrow> Refused, w'))"
| "world_exec (al, OpDespawn e) w = run_bind (world_try_despawn al w e)
     (\<lambda>(r, w'). Ret (case r of Inr b \<Rightarrow> Answer b | Inl _ \<Rightarrow> Refused, w'))"
| "world_exec (al, OpInsert t e v) w = run_bind (world_try_insert al w t e v)
     (\<lambda>(r, w'). Ret (case r of Inr _ \<Rightarrow> Answer True | Inl EntityNotAlive \<Rightarrow> Answer False | Inl _ \<Rightarrow> Refused, w'))"
| "world_exec (al, OpRemove t e) w = run_bind (world_remove w t e) (\<lambda>(r, w'). Ret (Taken r, w'))"
| "world_exec (al, OpUpdate t e f) w = run_bind (world_get_mut w t e f) (\<lambda>(r, w'). Ret (Answer r, w'))"

fun world_exec_all :: "(alloc \<times> 'v world_op) list \<Rightarrow> 'v world \<Rightarrow> ('v world_answer list \<times> 'v world) run" where
  "world_exec_all [] w = Ret ([], w)"
| "world_exec_all (c # cs) w = run_bind (world_exec c w)
     (\<lambda>(a, w1). run_bind (world_exec_all cs w1) (\<lambda>(as, w2). Ret (a # as, w2)))"

inductive world_contracts ::
  "(alloc \<times> 'v world_op) list \<Rightarrow> entity set \<times> (type_id \<Rightarrow> entity \<Rightarrow> 'v option) \<Rightarrow> 'v world_answer list
     \<Rightarrow> entity set \<times> (type_id \<Rightarrow> entity \<Rightarrow> 'v option) \<Rightarrow> bool" where
  stop: "world_contracts [] s [] s"
| more: "world_contract (\<exists>k. \<not> al k) c s a s1 \<Longrightarrow> world_contracts cs s1 as s2
           \<Longrightarrow> world_contracts ((al, c) # cs) s (a # as) s2"

abbreviation world_view :: "'v world \<Rightarrow> entity set \<times> (type_id \<Rightarrow> entity \<Rightarrow> 'v option)" where
  "world_view w \<equiv> (live_set (w_entities w), component w)"

lemma world_exec_contract:
  assumes inv: "world_inv w"
  shows "\<exists>a w'. world_exec (al, c) w = Ret (a, w') \<and> world_inv w' \<and> world_contract (\<exists>k. \<not> al k) c (world_view w) a (world_view w')"
proof (cases c)
  case OpSpawn
  from inv show ?thesis
  proof (cases rule: world_try_spawn_spec [of w al])
    case (ok e w')
    have "component w t e = None" for t using ok(5,6) by metis
    with ok show ?thesis using OpSpawn by (auto intro: world_contract.spawn)
  next
    case (err x w')
    then show ?thesis using OpSpawn world_spawn_refused [OF inv err(1)] by (auto intro: world_contract.spawn_refused)
  qed
next
  case (OpDespawn e)
  from inv show ?thesis
  proof (cases rule: world_try_despawn_spec [of w al e])
    case (ok w')
    have "component w' = (\<lambda>t. (component w t)(e := None))" using ok(5) by (auto simp: fun_eq_iff)
    with ok show ?thesis using OpDespawn by (auto intro: world_contract.despawn)
  qed (use inv OpDespawn in \<open>auto intro: world_contract.intros dest: world_despawn_refused\<close>)
next
  case (OpInsert t e v)
  from inv show ?thesis
    by (cases rule: world_try_insert_spec [of w al t e v])
      (use inv OpInsert in \<open>auto intro: world_contract.intros dest: world_insert_refused\<close>)
next
  case (OpRemove t e)
  from inv show ?thesis
    by (cases rule: world_remove_spec [of w t e]) (use OpRemove in \<open>auto intro: world_contract.intros\<close>)
next
  case (OpUpdate t e f)
  from inv obtain w' where "world_get_mut w t e f = Ret (component w t e \<noteq> None, w')" "world_inv w'"
    "component w' = (component w)(t := (component w t)(e := map_option f (component w t e)))"
    "w_entities w' = w_entities w" by (rule world_get_mut_spec)
  then show ?thesis
    using OpUpdate world_contract.update [of "\<exists>k. \<not> al k" t e f "live_set (w_entities w)" "component w"]
    by (simp del: not_None_eq)
qed

lemma world_exec_all_contract:
  assumes "world_inv w"
  shows "\<exists>as w'. world_exec_all cs w = Ret (as, w') \<and> world_inv w'
     \<and> world_contracts cs (world_view w) as (world_view w')"
  using assms
proof (induction cs arbitrary: w)
  case (Cons c cs)
  obtain al oper where c: "c = (al, oper)" by force
  obtain a w1 where 1: "world_exec c w = Ret (a, w1)" "world_inv w1" "world_contract (\<exists>k. \<not> al k) oper (world_view w) a (world_view w1)"
    using world_exec_contract [OF Cons.prems, of al oper] c by blast
  obtain as w2 where "world_exec_all cs w1 = Ret (as, w2)" "world_inv w2"
    "world_contracts cs (world_view w1) as (world_view w2)" using Cons.IH [OF 1(2)] by blast
  with 1 c show ?case by (auto intro: world_contracts.more)
qed (auto intro: world_contracts.stop)

section \<open>Properties\<close>

text \<open>
  C1: The world implements its contract. Any sequence of spawns, despawns, insertions, removals and
  in-place updates, on a new world and with any answers of the allocator, returns (no panic, no
  index out of range, no undefined behaviour), and its answers are those of the abstract contract:
  a set of live handles and a partial map per component type. A refusal happens only when the
  allocator refuses or all handles are in use.
\<close>

theorem world_refines_contract:
  "\<exists>as w. world_exec_all cs (world_new :: 'v world) = Ret (as, w) \<and> world_inv w
     \<and> world_contracts cs ({}, \<lambda>_ _. None) as (live_set (w_entities w), component w)"
proof -
  have "world_view (world_new :: 'v world) = ({}, \<lambda>_ _. None)"
    by (auto simp: world_new_def component_def fun_eq_iff)
  then show ?thesis using world_exec_all_contract [of "world_new :: 'v world" cs] by simp
qed

text \<open>
  The join as a client sees it: one call of the closure per entity, on the two components of that
  entity, which it replaces.
\<close>

definition join_visit ::
  "(entity \<Rightarrow> 'v \<Rightarrow> 'v \<Rightarrow> 'c \<Rightarrow> 'v \<times> 'v \<times> 'c) \<Rightarrow> entity
     \<Rightarrow> (entity \<Rightarrow> 'v option) \<times> (entity \<Rightarrow> 'v option) \<times> 'c \<Rightarrow> (entity \<Rightarrow> 'v option) \<times> (entity \<Rightarrow> 'v option) \<times> 'c"
  where
  "join_visit f e = (\<lambda>(A, B, c).
     let (a, b, c') = f e (the (A e)) (the (B e)) c in (A(e \<mapsto> a), B(e \<mapsto> b), c'))"

lemma join_fold:
  assumes "\<forall>e\<in>set es. handle_lookup ma e \<noteq> None \<and> handle_lookup mb e \<noteq> None"
    and "fold (pair_spec f) (map index es) (ma, mb, c) = (ma', mb', c')"
  shows "fold (join_visit f) es (handle_lookup ma, handle_lookup mb, c) = (handle_lookup ma', handle_lookup mb', c')"
  using assms
proof (induction es arbitrary: ma mb c)
  case (Cons e es)
  obtain a b where a: "ma (unat (index e)) = Some (generation e, a)" and b: "mb (unat (index e)) = Some (generation e, b)"
    using Cons.prems(1) by (auto simp: handle_lookup_Some)
  obtain a' b' c1 where f: "f e a b c = (a', b', c1)" by (metis prod_cases3)
  let ?ma = "ma(unat (index e) \<mapsto> (generation e, a'))" and ?mb = "mb(unat (index e) \<mapsto> (generation e, b'))"
  have step: "pair_spec f (index e) (ma, mb, c) = (?ma, ?mb, c1)"
    using a b f by (cases e) (simp add: pair_spec_def)
  have upd: "handle_lookup ?ma = (handle_lookup ma)(e \<mapsto> a')" "handle_lookup ?mb = (handle_lookup mb)(e \<mapsto> b')"
    using a b by (auto simp: fun_eq_iff handle_lookup_def unat_eq_iff_u32 intro: entity.equality)
  have "handle_lookup ma e = Some a" "handle_lookup mb e = Some b" using a b by (simp_all add: handle_lookup_Some)
  then have visit: "join_visit f e (handle_lookup ma, handle_lookup mb, c) = (handle_lookup ?ma, handle_lookup ?mb, c1)"
    using f by (simp add: join_visit_def upd)
  have "\<forall>x\<in>set es. handle_lookup ?ma x \<noteq> None \<and> handle_lookup ?mb x \<noteq> None"
    unfolding upd using Cons.prems(1) by simp
  moreover have "fold (pair_spec f) (map index es) (?ma, ?mb, c1) = (ma', mb', c')"
    using Cons.prems(2) step by simp
  ultimately have "fold (join_visit f) es (handle_lookup ?ma, handle_lookup ?mb, c1) = (handle_lookup ma', handle_lookup mb', c')"
    by (rule Cons.IH)
  then show ?case using visit by simp
qed simp

lemma join_handles:
  assumes inv: "world_inv w" and out: "set out = {index e | e. component w ta e \<noteq> None \<and> component w tb e \<noteq> None}"
  obtains es where "map index es = out" "set es = {e. component w ta e \<noteq> None \<and> component w tb e \<noteq> None}"
proof -
  let ?both = "\<lambda>e. component w ta e \<noteq> None \<and> component w tb e \<noteq> None"
  have "\<forall>i\<in>set out. \<exists>e. index e = i \<and> ?both e" using out by auto
  then obtain h where h: "\<And>i. i \<in> set out \<Longrightarrow> index (h i) = i \<and> ?both (h i)" by metis
  show ?thesis
  proof (rule that [of "map h out"])
    show "map index (map h out) = out" using h by (simp add: map_idI)
    have "e = h (index e)" if "?both e" for e
    proof -
      have "index (h (index e)) = index e" "?both (h (index e))" using h [of "index e"] that out by auto
      with that show ?thesis using component_live [OF inv] live_same_index by (metis option.exhaust)
    qed
    then show "set (map h out) = {e. ?both e}" using h out by force
  qed
qed

text \<open>
  C2: The two-component query is exact. After \<open>collect_intersection\<close>, \<open>WorldPair::for_each\<close> calls the
  closure exactly once for each entity that has both components, in increasing slot order, on that
  entity's own components; the components of every other entity and type stay as they were, and
  the world keeps its invariant.
\<close>

theorem pair_query_exact:
  assumes inv: "world_inv w" and reg: "by_type w ta \<noteq> None" "by_type w tb \<noteq> None" and ne: "ta \<noteq> tb"
  shows "\<exists>out es w' c'. collect_intersection w ta tb = Ret out \<and> map index es = out
     \<and> world_pair_for_each f out ta tb w c = Ret (Some (w', c')) \<and> world_inv w'
     \<and> set es = {e. component w ta e \<noteq> None \<and> component w tb e \<noteq> None}
     \<and> sorted_wrt (\<lambda>a b. index a < index b) es
     \<and> (component w' ta, component w' tb, c') = fold (join_visit f) es (component w ta, component w tb, c)
     \<and> (\<forall>t. t \<noteq> ta \<and> t \<noteq> tb \<longrightarrow> component w' t = component w t) \<and> w_entities w' = w_entities w"
proof -
  obtain ia ib where i: "by_type w ta = Some ia" "by_type w tb = Some ib" using reg by auto
  obtain out where out: "collect_intersection w ta tb = Ret out"
    "set out = {index e | e. component w ta e \<noteq> None \<and> component w tb e \<noteq> None}" "sorted_wrt (<) out"
    using inv by (rule collect_intersection_spec)
  obtain es where es: "map index es = out" "set es = {e. component w ta e \<noteq> None \<and> component w tb e \<noteq> None}"
    using inv out(2) by (rule join_handles)
  obtain w' c' where w': "world_pair_for_each f out ta tb w c = Ret (Some (w', c'))" "world_inv w'"
    "w_entities w' = w_entities w" "by_type w' = by_type w"
    "(storage_map (snd (the (slots w' ! ia))), storage_map (snd (the (slots w' ! ib))), c') =
       fold (pair_spec f) out (storage_map (snd (the (slots w ! ia))), storage_map (snd (the (slots w ! ib))), c)"
    "\<And>j. j \<noteq> ia \<Longrightarrow> j \<noteq> ib \<Longrightarrow> slots w' ! j = slots w ! j"
    using world_pair_for_each_inv [OF inv i ne, of f out c] by metis
  have comp: "component w ta = handle_lookup (storage_map (snd (the (slots w ! ia))))"
    "component w tb = handle_lookup (storage_map (snd (the (slots w ! ib))))"
    "component w' ta = handle_lookup (storage_map (snd (the (slots w' ! ia))))"
    "component w' tb = handle_lookup (storage_map (snd (the (slots w' ! ib))))"
    using i w'(4) by (simp_all add: component_def fun_eq_iff)
  have "\<forall>e\<in>set es. handle_lookup (storage_map (snd (the (slots w ! ia)))) e \<noteq> None
      \<and> handle_lookup (storage_map (snd (the (slots w ! ib)))) e \<noteq> None"
    using es(2) by (simp flip: comp)
  from join_fold [OF this w'(5) [folded es(1), symmetric]]
  have fold: "(component w' ta, component w' tb, c') = fold (join_visit f) es (component w ta, component w tb, c)"
    by (simp add: comp)
  have "component w' t = component w t" if "t \<noteq> ta \<and> t \<noteq> tb" for t
  proof (cases "by_type w t")
    case (Some j)
    have "types_ok (by_type w) (slots w)" using inv by (simp add: world_inv_def)
    then have "j \<noteq> ia" "j \<noteq> ib" using Some i that unfolding types_ok_def by (metis option.inject prod.inject)+
    then show ?thesis using Some w'(4,6) by (simp add: component_def fun_eq_iff)
  qed (use w'(4) in \<open>simp add: component_def fun_eq_iff\<close>)
  moreover have "sorted_wrt (\<lambda>a b. index a < index b) es" using out(3) es(1) by (auto simp: sorted_wrt_map)
  ultimately show ?thesis using out(1) es w'(1-3) fold by blast
qed

text \<open>
  A small world to apply the properties to, built by its own operations: two entities, both with
  components of the types 0 and 1.
\<close>

definition sample_entity :: "u32 \<Rightarrow> entity" where
  "sample_entity i = \<lparr>index = i, generation = 0\<rparr>"

definition sample_script :: "(alloc \<times> nat world_op) list" where
  "sample_script = map (Pair (\<lambda>_. True))
     [OpSpawn, OpSpawn, OpInsert 0 (sample_entity 0) 5, OpInsert 0 (sample_entity 1) 6,
      OpInsert 1 (sample_entity 1) 7]"

definition sample_world :: "nat world" where
  "sample_world =
     \<lparr>w_entities = \<lparr>generations = [0, 0], free = [], live = 2\<rparr>,
      slots = [Some (0, \<lparr>sparse = [Some 0, Some 1], st_generations = [0, 0], dense = [5, 6], presence = \<lparr>words = [3]\<rparr>\<rparr>),
               Some (1, \<lparr>sparse = [None, Some 0], st_generations = [0, 0], dense = [7], presence = \<lparr>words = [2]\<rparr>\<rparr>)],
      by_type = [0 \<mapsto> 0, 1 \<mapsto> 1], alive = \<lparr>words = [3]\<rparr>\<rparr>"

lemmas world_eval =
  world_try_spawn_def world_new_def entities_new_def bitset_new_def word_count_def bitset_try_reserve_def
  watermark_def try_create_def vec_pop_def sat_add_def usize_max_def checked_add_def u32_max_def
  bitset_set_def bitset_ensure_def vec_resize_def Let_def world_try_insert_def world_try_insert_typed_def
  register_component_def slot_index_def typed_slot_def downcast_def set_slot_def storage_new_def
  ensure_index_def storage_try_insert_def world_is_alive_def is_alive_def bitset_try_set_def bitset_test_def
  storage_error_of_def bitset_capacity_def

lemma sample_world_run:
  "world_exec_all sample_script world_new =
     Ret ([Spawned (sample_entity 0), Spawned (sample_entity 1), Answer True, Answer True, Answer True], sample_world)"
  by (simp add: sample_script_def sample_entity_def sample_world_def world_eval)

lemma sample_world_inv: "world_inv sample_world"
  using world_exec_all_contract [of "world_new :: nat world" sample_script] by (auto simp: sample_world_run)

lemma sample_world_alive: "sample_entity 1 \<in> live_set (w_entities sample_world)"
  by (simp add: sample_world_def sample_entity_def live_set_def is_alive_def)

theorem pair_query_exact_witness:
  "\<exists>out es w' c'. collect_intersection sample_world 0 1 = Ret out \<and> map index es = out
     \<and> world_pair_for_each (\<lambda>e a b c. (a + b, b, c + 1)) out 0 1 sample_world (0 :: nat) = Ret (Some (w', c')) \<and> world_inv w'
     \<and> set es = {e. component sample_world 0 e \<noteq> None \<and> component sample_world 1 e \<noteq> None}
     \<and> sorted_wrt (\<lambda>a b. index a < index b) es
     \<and> (component w' 0, component w' 1, c') =
         fold (join_visit (\<lambda>e a b c. (a + b, b, c + 1))) es (component sample_world 0, component sample_world 1, 0)
     \<and> (\<forall>t. t \<noteq> 0 \<and> t \<noteq> 1 \<longrightarrow> component w' t = component sample_world t) \<and> w_entities w' = w_entities sample_world"
  by (rule pair_query_exact [OF sample_world_inv]) (simp_all add: sample_world_def)

text \<open>
  C3: Despawning is complete and isolated. On a live handle it either fails in the allocator and
  changes nothing, or removes exactly that handle from the live set together with its components of
  every type, and leaves the components of every other handle alone; on a dead handle it changes
  nothing.
\<close>

theorem despawn_removes_everything:
  assumes inv: "world_inv w"
  shows "(e \<in> live_set (w_entities w) \<and> (\<exists>w'. world_try_despawn al w e = Ret (Inr True, w') \<and> world_inv w'
            \<and> live_set (w_entities w') = live_set (w_entities w) - {e}
            \<and> (\<forall>t e'. component w' t e' = (if e' = e then None else component w t e'))
            \<and> entity_count w = entity_count w' + 1))
     \<or> (e \<in> live_set (w_entities w) \<and> (\<exists>k. \<not> al k) \<and> (\<exists>x. world_try_despawn al w e = Ret (Inl x, w)))
     \<or> (e \<notin> live_set (w_entities w) \<and> world_try_despawn al w e = Ret (Inr False, w))"
  using inv by (cases rule: world_try_despawn_spec [of w al e]) (use world_despawn_refused [OF inv] in blast)+

theorem despawn_removes_everything_witness:
  "sample_entity 1 \<in> live_set (w_entities sample_world)
   \<and> (\<exists>w'. world_try_despawn (\<lambda>_. True) sample_world (sample_entity 1) = Ret (Inr True, w') \<and> world_inv w'
        \<and> live_set (w_entities w') = live_set (w_entities sample_world) - {sample_entity 1}
        \<and> (\<forall>t e'. component w' t e' = (if e' = sample_entity 1 then None else component sample_world t e'))
        \<and> entity_count sample_world = entity_count w' + 1)"
  using despawn_removes_everything [OF sample_world_inv, of "sample_entity 1" "\<lambda>_. True"] sample_world_alive by simp

lemma sorted_wrt_less_distinct:
  "sorted_wrt (\<lambda>a b. index a < index b) xs \<Longrightarrow> distinct xs"
  by (induction xs) auto

text \<open>
  \<open>for_each_entity\<close>, which walks the bitset of occupied slots, visits exactly the live entities,
  each once, in increasing slot order, and their number is \<open>entity_count\<close>.
\<close>

theorem entity_walk_exact:
  assumes inv: "world_inv w"
  shows "set (for_each_entity w) = live_set (w_entities w)
     \<and> sorted_wrt (\<lambda>a b. index a < index b) (for_each_entity w)
     \<and> length (for_each_entity w) = entity_count w"
proof -
  note fe = for_each_entity_spec [OF inv]
  have "distinct (for_each_entity w)" using fe(2) by (rule sorted_wrt_less_distinct)
  then have "length (for_each_entity w) = card (live_set (w_entities w))" by (simp add: distinct_card flip: fe(1))
  also have "\<dots> = entity_count w"
    using entities_iter_spec [of "w_entities w"] inv distinct_card [of "entities_iter (w_entities w)"]
    by (simp add: world_inv_def entity_count_def)
  finally show ?thesis using fe by simp
qed

theorem entity_walk_exact_witness:
  "set (for_each_entity sample_world) = live_set (w_entities sample_world)
   \<and> sorted_wrt (\<lambda>a b. index a < index b) (for_each_entity sample_world)
   \<and> length (for_each_entity sample_world) = entity_count sample_world \<and> entity_count sample_world = 2"
  using entity_walk_exact [OF sample_world_inv] by (simp add: entity_count_def sample_world_def)

end
