(* ===== verification/Deferred.thy ===== *)
theory Deferred
  imports World
begin

text \<open>
  \<open>src/src/kernel/deferred.rs\<close>: the frame-bounded buffer of structural commands. Applying the
  buffer is shown to be the same as performing its commands on the world in submission order.
\<close>

section \<open>The command buffer\<close>

datatype deferred_command = Spawn | Despawn entity

datatype deferred_error = CapacityExceeded | DeferredAllocationFailed

record deferred_commands =
  commands :: "deferred_command list"
  dc_capacity :: nat

definition deferred_try_with_capacity :: "alloc \<Rightarrow> nat \<Rightarrow> deferred_error + deferred_commands" where
  "deferred_try_with_capacity al n =
     (if al 0 then Inr \<lparr>commands = [], dc_capacity = n\<rparr> else Inl DeferredAllocationFailed)"

text \<open>
  \<open>room\<close> is \<open>Vec::capacity()\<close>, the allocator's choice, at least the length of the vector.
\<close>

definition deferred_push ::
  "alloc \<Rightarrow> nat \<Rightarrow> deferred_commands \<Rightarrow> deferred_command \<Rightarrow> (deferred_error + unit) \<times> deferred_commands" where
  "deferred_push al room d cmd =
     (if length (commands d) \<ge> dc_capacity d then (Inl CapacityExceeded, d)
      else if length (commands d) = room \<and> \<not> al 0 then (Inl DeferredAllocationFailed, d)
      else (Inr (), d\<lparr>commands := commands d @ [cmd]\<rparr>))"

definition deferred_try_spawn ::
  "alloc \<Rightarrow> nat \<Rightarrow> deferred_commands \<Rightarrow> (deferred_error + unit) \<times> deferred_commands" where
  "deferred_try_spawn al room d = deferred_push al room d Spawn"

definition deferred_try_despawn ::
  "alloc \<Rightarrow> nat \<Rightarrow> deferred_commands \<Rightarrow> entity \<Rightarrow> (deferred_error + unit) \<times> deferred_commands" where
  "deferred_try_despawn al room d e = deferred_push al room d (Despawn e)"

text \<open>One iteration of the loop in \<open>apply\<close>: the count of applied commands and the world.\<close>

definition apply_command ::
  "alloc \<times> deferred_command \<Rightarrow> nat \<times> 'v world \<Rightarrow> (nat \<times> 'v world) run" where
  "apply_command = (\<lambda>(al, cmd) (applied, w).
     case cmd of
       Spawn \<Rightarrow> run_bind (world_try_spawn al w) (\<lambda>(r, w').
                  Ret (case r of Inr _ \<Rightarrow> sat_add applied 1 | Inl _ \<Rightarrow> applied, w'))
     | Despawn e \<Rightarrow> run_bind (world_despawn al w e) (\<lambda>(b, w').
                  Ret (if b then sat_add applied 1 else applied, w')))"

text \<open>\<open>als k\<close> are the allocator's answers during the \<open>k\<close>-th command.\<close>

definition deferred_apply ::
  "(nat \<Rightarrow> alloc) \<Rightarrow> deferred_commands \<Rightarrow> 'v world \<Rightarrow> (nat \<times> deferred_commands \<times> 'v world) run" where
  "deferred_apply als d w =
     run_bind (run_fold apply_command (map (\<lambda>(k, c). (als k, c)) (enumerate 0 (commands d))) (0, w))
       (\<lambda>(n, w'). Ret (n, d\<lparr>commands := []\<rparr>, w'))"

definition deferred_clear :: "deferred_commands \<Rightarrow> deferred_commands" where
  "deferred_clear d = d\<lparr>commands := []\<rparr>"

section \<open>The buffer and its effect\<close>

definition deferred_inv :: "deferred_commands \<Rightarrow> bool" where
  "deferred_inv d \<longleftrightarrow> length (commands d) \<le> dc_capacity d"

lemma deferred_push_inv:
  "deferred_inv d \<Longrightarrow> deferred_inv (snd (deferred_push al room d c))"
  by (simp add: deferred_push_def deferred_inv_def)

lemma deferred_push_Err: "deferred_push al room d c = (Inl x, d') \<Longrightarrow> d' = d"
  by (auto simp: deferred_push_def split: if_splits)

text \<open>
  A command is the corresponding operation of the world, under the world's contract; it counts as
  applied when a handle was created or removed.
\<close>

fun command_op :: "deferred_command \<Rightarrow> 'v world_op" where
  "command_op Spawn = OpSpawn"
| "command_op (Despawn e) = OpDespawn e"

fun took_effect :: "'v world_answer \<Rightarrow> bool" where
  "took_effect (Spawned _) = True"
| "took_effect (Answer b) = b"
| "took_effect _ = False"

lemma apply_command_exec:
  "apply_command (al, cmd) (n, w) =
     run_bind (world_exec (al, command_op cmd) w) (\<lambda>(a, w'). Ret (if took_effect a then sat_add n 1 else n, w'))"
  by (cases cmd; cases "world_try_spawn al w"; cases "world_try_despawn al w (case cmd of Despawn e \<Rightarrow> e)")
    (auto simp: apply_command_def world_despawn_def split: sum.splits)

text \<open>A chain of worlds, one step per command, in submission order.\<close>

inductive applied_in_order ::
  "(alloc \<times> deferred_command) list \<Rightarrow> nat \<Rightarrow> 'v world \<Rightarrow> nat \<Rightarrow> 'v world \<Rightarrow> bool" where
  none: "applied_in_order [] n w n w"
| step: "world_contract (\<exists>k. \<not> al k) (command_op c) (world_view w) a (world_view w1) \<Longrightarrow>
         applied_in_order cs (if took_effect a then sat_add n 1 else n) w1 n' w' \<Longrightarrow>
         applied_in_order ((al, c) # cs) n w n' w'"

lemma apply_fold_spec:
  "world_inv w \<Longrightarrow> \<exists>n' w'. run_fold apply_command cs (n, w) = Ret (n', w') \<and> world_inv w'
     \<and> applied_in_order cs n w n' w'"
proof (induction cs arbitrary: n w)
  case Nil
  then show ?case by (auto intro: applied_in_order.none)
next
  case (Cons c cs)
  obtain al cmd where c: "c = (al, cmd)" by force
  obtain a w1 where s: "world_exec (al, command_op cmd) w = Ret (a, w1)" "world_inv w1"
    "world_contract (\<exists>k. \<not> al k) (command_op cmd) (world_view w) a (world_view w1)"
    using world_exec_contract [OF Cons.prems] by blast
  obtain n' w' where "run_fold apply_command cs (if took_effect a then sat_add n 1 else n, w1) = Ret (n', w')"
    "world_inv w'" "applied_in_order cs (if took_effect a then sat_add n 1 else n) w1 n' w'"
    using Cons.IH [OF s(2)] by blast
  then show ?case using s(1) c applied_in_order.step [OF s(3)] by (simp add: apply_command_exec)
qed

text \<open>A stale handle in the buffer harms nobody: the despawn is skipped.\<close>

lemma apply_stale_despawn:
  assumes "world_inv w" "e \<notin> live_set (w_entities w)"
  shows "apply_command (al, Despawn e) (n, w) = Ret (n, w)"
  using assms(1)
  by (cases rule: world_try_despawn_spec [of w al e])
    (use assms(2) in \<open>auto simp: apply_command_def world_despawn_def\<close>)

section \<open>Properties\<close>

text \<open>
  C5: Deferred commands take effect in the order they were recorded, once each: \<open>apply\<close> returns,
  empties the buffer, keeps the world's invariant, and relates the world before to the world after
  by the contracts of the recorded spawns and despawns in order (a spawn or a despawn of a live handle
  is skipped only when the allocator refuses or no handle is left); the count it returns is the
  number of commands that took effect.
\<close>

theorem deferred_apply_in_order:
  assumes "world_inv w"
  shows "\<exists>n w'. deferred_apply als d w = Ret (n, d\<lparr>commands := []\<rparr>, w') \<and> world_inv w'
     \<and> applied_in_order (map (\<lambda>(k, c). (als k, c)) (enumerate 0 (commands d))) 0 w n w'"
proof -
  obtain n w' where "run_fold apply_command (map (\<lambda>(k, c). (als k, c)) (enumerate 0 (commands d))) (0, w) = Ret (n, w')"
    "world_inv w'" "applied_in_order (map (\<lambda>(k, c). (als k, c)) (enumerate 0 (commands d))) 0 w n w'"
    using apply_fold_spec [OF assms, of "map (\<lambda>(k, c). (als k, c)) (enumerate 0 (commands d))" 0] by auto
  then show ?thesis by (simp add: deferred_apply_def)
qed

theorem deferred_apply_in_order_witness:
  "\<exists>n w'. deferred_apply (\<lambda>_ _. True) \<lparr>commands = [Spawn, Despawn (sample_entity 0)], dc_capacity = 8\<rparr> sample_world =
       Ret (n, \<lparr>commands = [], dc_capacity = 8\<rparr>, w') \<and> world_inv w'
     \<and> applied_in_order [(\<lambda>_. True, Spawn), (\<lambda>_. True, Despawn (sample_entity 0))] 0 sample_world n w'"
  using deferred_apply_in_order [OF sample_world_inv, of "\<lambda>_ _. True"
      "\<lparr>commands = [Spawn, Despawn (sample_entity 0)], dc_capacity = 8\<rparr>"] by simp

end
