(* ===== verification/Memory.thy ===== *)
theory Memory
  imports Prelude
begin

text \<open>
  The allocators: the bump arena (\<open>src/src/kernel/mem/arena.rs\<close>), the object pool
  (\<open>src/src/kernel/mem/pool.rs\<close>) and the allocator of the freestanding build
  (\<open>src/kernel_nostd/lib.rs\<close>). Addresses are numbers; what matters is which ranges of a block are
  handed out, whether they overlap, and whether they are aligned.
\<close>

section \<open>The bump arena\<close>

text \<open>\<open>base\<close> is the address of the block, which \<open>Layout\<close> only aligns to 16 bytes.\<close>

record arena =
  base :: nat
  a_capacity :: u64
  used :: u64
  peak :: u64

definition default_align :: nat where
  "default_align = 16"

definition is_power_of_two :: "u64 \<Rightarrow> bool" where
  "is_power_of_two a \<longleftrightarrow> list_ex (\<lambda>k. a = 2 ^ k) [0..<64]"

definition arena_new :: "nat \<Rightarrow> u64 \<Rightarrow> arena" where
  "arena_new b cap = \<lparr>base = b, a_capacity = max cap 1, used = 0, peak = 0\<rparr>"

definition align_up :: "u64 \<Rightarrow> u64 \<Rightarrow> u64" where
  "align_up off align = wsat_add off (wsat_sub align 1) AND NOT (wsat_sub align 1)"

definition arena_reset :: "arena \<Rightarrow> arena" where
  "arena_reset a = a\<lparr>used := 0\<rparr>"

text \<open>The result is the offset of the reserved bytes from \<open>base\<close>; the pointer is their sum.\<close>

definition alloc_bytes :: "arena \<Rightarrow> u64 \<Rightarrow> u64 \<Rightarrow> u64 option \<times> arena" where
  "alloc_bytes a sz align =
     (if align = 0 \<or> \<not> is_power_of_two align then (None, a)
      else let off = align_up (used a) align
           in case wchecked_add off sz of
                None \<Rightarrow> (None, a)
              | Some e \<Rightarrow> (if e > a_capacity a then (None, a)
                           else (Some off, a\<lparr>used := e, peak := max (peak a) e\<rparr>)))"

definition arena_inv :: "arena \<Rightarrow> bool" where
  "arena_inv a \<longleftrightarrow> used a \<le> peak a \<and> peak a \<le> a_capacity a"

lemma arena_inv_new: "arena_inv (arena_new b cap)"
  by (simp add: arena_inv_def arena_new_def)

lemma arena_inv_reset: "arena_inv a \<Longrightarrow> arena_inv (arena_reset a)"
  by (simp add: arena_inv_def arena_reset_def)

lemma unat_exp_u64: "n < 64 \<Longrightarrow> unat (2 ^ n :: u64) = 2 ^ n"
proof -
  assume "n < 64"
  then have "(2::nat) ^ n < 2 ^ 64" by (intro power_strict_increasing) auto
  then show ?thesis using unat_of_nat_u64 [of "2 ^ n"] by simp
qed

lemma and_not_mask:
  fixes x :: u64
  assumes "n < 64"
  shows "unat (x AND NOT (mask n)) = unat x div 2 ^ n * 2 ^ n"
proof -
  have "x AND NOT (mask n) = push_bit n (drop_bit n x)"
    by (rule bit_eqI) (auto simp: bit_simps)
  moreover have "unat (push_bit n (drop_bit n x)) = unat x div 2 ^ n * 2 ^ n mod 2 ^ 64"
    using unat_exp_u64 [OF assms]
    by (simp add: drop_bit_eq_div push_bit_eq_mult unat_word_ariths unat_div_distrib mod_mult_left_eq)
  moreover have "unat x div 2 ^ n * 2 ^ n \<le> unat x" by (simp add: div_times_less_eq_dividend)
  then have "unat x div 2 ^ n * 2 ^ n < 18446744073709551616"
    using unat_u64_less [of x] by (rule le_less_trans)
  ultimately show ?thesis by simp
qed

lemma is_power_of_two_iff: "is_power_of_two a \<longleftrightarrow> (\<exists>n<64. a = 2 ^ n)"
  by (auto simp: is_power_of_two_def list_ex_iff)

text \<open>\<open>align_up\<close> rounds up to the next multiple of the alignment unless the sum saturates.\<close>

lemma align_up_eq:
  assumes n: "n < 64" and le: "unat off + 2 ^ n \<le> 2 ^ 64"
  shows "unat (align_up off (2 ^ n)) = (unat off + (2 ^ n - 1)) div 2 ^ n * 2 ^ n"
proof -
  have ge: "\<not> (2 ^ n :: u64) < 1" using unat_exp_u64 [OF n] by (simp add: word_less_nat_alt)
  then have m: "wsat_sub (2 ^ n) 1 = (mask n :: u64)" by (simp add: wsat_sub_def mask_eq_exp_minus_1)
  have um: "unat (mask n :: u64) = 2 ^ n - 1"
    using n unat_exp_u64 [OF n] ge by (simp add: mask_eq_exp_minus_1 unat_minus_one)
  have lt: "unat off + (2 ^ n - 1) < 2 ^ 64" using le by (simp add: less_eq_Suc_le)
  have "wsat_add off (mask n) = off + mask n" using lt um by (simp add: wsat_add_def)
  moreover have "unat (off + mask n) = unat off + (2 ^ n - 1)"
    using lt um by (simp add: unat_word_ariths)
  ultimately show ?thesis unfolding align_up_def m by (simp add: and_not_mask [OF n])
qed

lemma round_up_bounds:
  fixes x a :: nat
  assumes "0 < a"
  shows "x \<le> (x + (a - 1)) div a * a" "(x + (a - 1)) div a * a < x + a"
proof -
  let ?y = "x + (a - 1)"
  have "?y = ?y div a * a + ?y mod a" by simp
  moreover have "?y mod a < a" using assms by simp
  ultimately show "x \<le> ?y div a * a" "?y div a * a < x + a" using assms by linarith+
qed

lemma alloc_bytes_spec:
  assumes r: "alloc_bytes a sz align = (Some off, a')"
    and room: "unat (used a) + unat align \<le> 2 ^ 64"
  shows "unat align dvd unat off" "used a \<le> off" "unat (used a') = unat off + unat sz"
    "used a' \<le> a_capacity a" "a_capacity a' = a_capacity a" "base a' = base a"
    "peak a' = max (peak a) (used a')"
proof -
  have pow: "is_power_of_two align" and off: "off = align_up (used a) align"
    using r by (auto simp: alloc_bytes_def Let_def split: if_splits option.splits)
  obtain n where n: "n < 64" "align = 2 ^ n" using pow by (auto simp: is_power_of_two_iff)
  have ua: "unat align = 2 ^ n" unfolding n(2) by (rule unat_exp_u64 [OF n(1)])
  have eq: "unat off = (unat (used a) + (2 ^ n - 1)) div 2 ^ n * 2 ^ n"
    unfolding off n(2) using room ua by (intro align_up_eq [OF n(1)]) simp
  show "unat align dvd unat off" unfolding eq ua by simp
  show "used a \<le> off" unfolding word_le_nat_alt eq by (rule round_up_bounds(1)) simp
  show "unat (used a') = unat off + unat sz" "used a' \<le> a_capacity a" "a_capacity a' = a_capacity a"
    "base a' = base a" "peak a' = max (peak a) (used a')"
    using r by (auto simp: alloc_bytes_def Let_def wchecked_add_def unat_word_ariths not_less
        split: if_splits option.splits)
qed

lemma alloc_bytes_None: "alloc_bytes a sz align = (None, a') \<Longrightarrow> a' = a"
  by (auto simp: alloc_bytes_def Let_def split: if_splits option.splits)

lemma alloc_bytes_inv: "arena_inv a \<Longrightarrow> arena_inv (snd (alloc_bytes a sz align))"
  by (auto simp: arena_inv_def alloc_bytes_def Let_def le_max_iff_disj split: if_splits option.splits)

text \<open>
  A frame: any number of requests after a reset. Requests are far smaller than the address space,
  so that rounding never saturates.
\<close>

fun arena_run :: "(u64 \<times> u64) list \<Rightarrow> arena \<Rightarrow> (nat \<times> nat) list \<times> arena" where
  "arena_run [] a = ([], a)"
| "arena_run ((sz, align) # rest) a =
     (case alloc_bytes a sz align of
        (None, a1) \<Rightarrow> arena_run rest a1
      | (Some off, a1) \<Rightarrow> (let (rs, a2) = arena_run rest a1 in ((unat off, unat off + unat sz) # rs, a2)))"

lemma arena_run_ranges:
  assumes "arena_run reqs a = (rs, a')" "arena_inv a"
    and "unat (a_capacity a) \<le> 2 ^ 63" "\<forall>(sz, align)\<in>set reqs. unat align \<le> 2 ^ 63"
  shows "sorted_wrt (\<lambda>(l, h) (l', h'). h \<le> l') rs
     \<and> (\<forall>(l, h)\<in>set rs. unat (used a) \<le> l \<and> l \<le> h \<and> h \<le> unat (a_capacity a))"
  using assms
proof (induction reqs a arbitrary: rs a' rule: arena_run.induct)
  case (2 sz align rest a)
  have cap: "unat (used a) + unat align \<le> 2 ^ 64"
    using "2.prems" by (auto simp: arena_inv_def word_le_nat_alt)
  show ?case
  proof (cases "alloc_bytes a sz align")
    case (Pair r a1)
    have inv1: "arena_inv a1" using alloc_bytes_inv [OF "2.prems"(2), of sz align] Pair by simp
    show ?thesis
    proof (cases r)
      case None
      then have "a1 = a" using Pair alloc_bytes_None by blast
      with None Pair "2.IH"(1) [OF Pair [symmetric] None] "2.prems" show ?thesis by simp
    next
      case (Some off)
      obtain rs1 where rs1: "arena_run rest a1 = (rs1, a')" "rs = (unat off, unat off + unat sz) # rs1"
        using "2.prems"(1) Pair Some by (auto split: prod.splits)
      note sp = alloc_bytes_spec [OF Pair [unfolded Some] cap]
      have IH: "sorted_wrt (\<lambda>(l, h) (l', h'). h \<le> l') rs1
          \<and> (\<forall>(l, h)\<in>set rs1. unat (used a1) \<le> l \<and> l \<le> h \<and> h \<le> unat (a_capacity a1))"
        using "2.IH"(2) [OF Pair [symmetric] Some rs1(1)] inv1 "2.prems" sp(5) by simp
      with rs1(2) sp show ?thesis by (force simp: word_le_nat_alt)
    qed
  qed
qed simp

section \<open>The object pool\<close>

text \<open>A slot is \<open>None\<close> while its memory is uninitialised; reading or dropping it then is \<open>UB\<close>.\<close>

record 'a pool =
  pslots :: "'a option list"
  pfree :: "u32 list"
  pgens :: "u32 list"

record pool_handle =
  h_idx :: u32
  h_gen :: u32

datatype pool_error = Exhausted | InvalidSlot u32 | PoolInvalidCapacity | PoolAllocationFailed

text \<open>
  \<open>layout_ok\<close> says whether the array layout of the requested capacity is representable; the
  reservations are the block, the free list and the generations.
\<close>

definition pool_try_with_capacity :: "bool \<Rightarrow> alloc \<Rightarrow> nat \<Rightarrow> pool_error + 'a pool" where
  "pool_try_with_capacity layout_ok al n =
     (let c = max n 1
      in if \<not> layout_ok then Inl PoolInvalidCapacity
         else if \<not> al 0 \<or> \<not> al 1 \<or> \<not> al 2 then Inl PoolAllocationFailed
         else Inr \<lparr>pslots = replicate c None, pfree = map of_nat [0..<c], pgens = replicate c 0\<rparr>)"

definition pool_alloc :: "'a pool \<Rightarrow> 'a \<Rightarrow> ((pool_error + pool_handle) \<times> 'a pool) run" where
  "pool_alloc p v =
     (case vec_pop (pfree p) of
        None \<Rightarrow> Ret (Inl Exhausted, p)
      | Some (s, rest) \<Rightarrow>
          (if unat s \<ge> length (pslots p) then UB
           else if unat s \<ge> length (pgens p) then Panic
           else Ret (Inr \<lparr>h_idx = s, h_gen = pgens p ! unat s\<rparr>,
                     p\<lparr>pfree := rest, pslots := (pslots p)[unat s := Some v]\<rparr>)))"

definition pool_free :: "'a pool \<Rightarrow> pool_handle \<Rightarrow> ((pool_error + unit) \<times> 'a pool) run" where
  "pool_free p h =
     (let s = unat (h_idx h)
      in if s \<ge> length (pslots p) then Ret (Inl (InvalidSlot (h_idx h)), p)
         else if s \<ge> length (pgens p) then Panic
         else if pgens p ! s \<noteq> h_gen h then Ret (Inl (InvalidSlot (h_idx h)), p)
         else if pslots p ! s = None then UB
         else Ret (Inr (), p\<lparr>pslots := (pslots p)[s := None], pgens := (pgens p)[s := pgens p ! s + 1],
                             pfree := pfree p @ [h_idx h]\<rparr>))"

definition pool_get :: "'a pool \<Rightarrow> pool_handle \<Rightarrow> 'a option run" where
  "pool_get p h =
     (let s = unat (h_idx h)
      in if s \<ge> length (pslots p) then Ret None
         else if s \<ge> length (pgens p) then Panic
         else if pgens p ! s \<noteq> h_gen h then Ret None
         else case pslots p ! s of None \<Rightarrow> UB | Some v \<Rightarrow> Ret (Some v))"

definition pool_available :: "'a pool \<Rightarrow> nat" where
  "pool_available p = length (pfree p)"

definition pool_inv :: "'a pool \<Rightarrow> bool" where
  "pool_inv p \<longleftrightarrow>
     length (pgens p) = length (pslots p) \<and> length (pslots p) \<le> 2 ^ 32
     \<and> distinct (pfree p)
     \<and> unat ` set (pfree p) = {i. i < length (pslots p) \<and> pslots p ! i = None}"

text \<open>The handles that are out, and what they refer to.\<close>

definition pool_map :: "'a pool \<Rightarrow> pool_handle \<Rightarrow> 'a option" where
  "pool_map p h =
     (if unat (h_idx h) < length (pslots p) \<and> pgens p ! unat (h_idx h) = h_gen h
      then pslots p ! unat (h_idx h) else None)"

text \<open>
  A handle is usable when its generation is not that of a slot that is free: such a handle was
  never handed out, or is so old that the generation has wrapped around.
\<close>

definition usable :: "'a pool \<Rightarrow> pool_handle \<Rightarrow> bool" where
  "usable p h \<longleftrightarrow>
     (unat (h_idx h) < length (pslots p) \<and> pgens p ! unat (h_idx h) = h_gen h \<longrightarrow>
        pslots p ! unat (h_idx h) \<noteq> None)"

lemma pool_get_map:
  assumes "pool_inv p" "usable p h"
  shows "pool_get p h = Ret (pool_map p h)"
  using assms by (auto simp: pool_get_def pool_map_def pool_inv_def usable_def Let_def split: option.splits)

lemma u32_unat_inj: "unat (a :: u32) = unat b \<longleftrightarrow> a = b"
  by (simp add: word_unat_eq_iff)

lemma pool_new_inv:
  assumes "pool_try_with_capacity ok al n = Inr p" "n \<le> 2 ^ 32"
  shows "pool_inv p" "pool_map p h = None" "pool_available p = max n 1"
proof -
  let ?c = "max n 1"
  have p: "p = \<lparr>pslots = replicate ?c None, pfree = map of_nat [0..<?c], pgens = replicate ?c 0\<rparr>"
    using assms(1) by (auto simp: pool_try_with_capacity_def Let_def split: if_splits)
  have un: "unat (of_nat i :: u32) = i" if "i < ?c" for i
    using that assms(2) by (intro unat_of_nat_u32) (auto simp: u32_max_def)
  have "inj_on (of_nat :: nat \<Rightarrow> u32) {0..<?c}" using un by (intro inj_onI) (metis atLeastLessThan_iff)
  moreover have "unat ` (of_nat :: nat \<Rightarrow> u32) ` {0..<?c} = {0..<?c}"
    using un by (force simp: image_image)
  ultimately show "pool_inv p" using assms(2) by (auto simp: p pool_inv_def distinct_map)
  show "pool_map p h = None" "pool_available p = max n 1" by (simp_all add: p pool_map_def pool_available_def)
qed

lemma pool_alloc_spec:
  assumes inv: "pool_inv p"
  obtains (full) "pool_alloc p v = Ret (Inl Exhausted, p)" "pool_available p = 0"
  | (ok) h p' where "pool_alloc p v = Ret (Inr h, p')" "pool_inv p'" "pool_map p h = None"
      "pool_map p' = (pool_map p)(h \<mapsto> v)" "pool_available p = Suc (pool_available p')"
      "\<And>k. usable p k \<Longrightarrow> usable p' k" "usable p' h"
      "pgens p' = pgens p" "h_gen h = pgens p ! unat (h_idx h)"
proof (cases "vec_pop (pfree p)")
  case None
  then show ?thesis by (intro full) (simp_all add: pool_alloc_def pool_available_def)
next
  case (Some q)
  obtain s rest where q: "q = (s, rest)" by force
  with Some have f: "pfree p = rest @ [s]" by (simp add: vec_pop_Some)
  have "unat s \<in> unat ` set (pfree p)" using f by simp
  then have s: "unat s < length (pslots p)" "pslots p ! unat s = None"
    using inv by (auto simp: pool_inv_def)
  let ?h = "\<lparr>h_idx = s, h_gen = pgens p ! unat s\<rparr>"
  let ?p = "p\<lparr>pfree := rest, pslots := (pslots p)[unat s := Some v]\<rparr>"
  have "unat ` set rest = {i. i < length (pslots p) \<and> pslots p ! i = None} - {unat s}"
  proof -
    have "unat ` set (pfree p) = insert (unat s) (unat ` set rest)" using f by simp
    moreover have "s \<notin> set rest" using inv f by (simp add: pool_inv_def)
    then have "unat s \<notin> unat ` set rest" by (auto simp: u32_unat_inj)
    moreover have "unat ` set (pfree p) = {i. i < length (pslots p) \<and> pslots p ! i = None}"
      using inv by (simp add: pool_inv_def)
    ultimately show ?thesis by (metis Diff_insert_absorb)
  qed
  then have "pool_inv ?p" using inv f s by (auto simp: pool_inv_def nth_list_update)
  moreover have "pool_map ?p = (pool_map p)(?h \<mapsto> v)"
    using s by (auto simp: pool_map_def fun_eq_iff nth_list_update u32_unat_inj)
  moreover have "usable ?p k" if "usable p k" for k
    using that s by (auto simp: usable_def nth_list_update)
  ultimately show ?thesis
    by - (rule ok [of ?h ?p], use Some q s f inv in
      \<open>auto simp: pool_alloc_def pool_map_def pool_available_def pool_inv_def usable_def\<close>)
qed

lemma none_slots_update:
  "s < length xs \<Longrightarrow>
     {i. i < length xs \<and> xs[s := None] ! i = None} = insert s {i. i < length xs \<and> xs ! i = None}"
  by (auto simp: nth_list_update)

lemma pool_free_spec:
  assumes inv: "pool_inv p" and us: "usable p h"
  obtains (bad) "pool_free p h = Ret (Inl (InvalidSlot (h_idx h)), p)" "pool_map p h = None"
  | (ok) p' where "pool_free p h = Ret (Inr (), p')" "pool_map p h \<noteq> None" "pool_inv p'"
      "pool_map p' h = None" "\<And>k. h_idx k \<noteq> h_idx h \<Longrightarrow> pool_map p' k = pool_map p k"
      "pool_available p' = Suc (pool_available p)"
      "pgens p' = (pgens p)[unat (h_idx h) := h_gen h + 1]"
proof (cases "unat (h_idx h) < length (pslots p) \<and> pgens p ! unat (h_idx h) = h_gen h")
  case False
  then show ?thesis using inv
    by (intro bad) (auto simp: pool_free_def pool_map_def pool_inv_def Let_def)
next
  case True
  let ?s = "unat (h_idx h)"
  have live: "pslots p ! ?s \<noteq> None" using us True by (simp add: usable_def)
  have fr: "unat ` set (pfree p) = {i. i < length (pslots p) \<and> pslots p ! i = None}"
    using inv by (simp add: pool_inv_def)
  have nf: "h_idx h \<notin> set (pfree p)"
  proof
    assume "h_idx h \<in> set (pfree p)"
    then have "?s \<in> unat ` set (pfree p)" by (rule imageI)
    then show False unfolding fr using live by simp
  qed
  let ?p = "p\<lparr>pslots := (pslots p)[?s := None], pgens := (pgens p)[?s := pgens p ! ?s + 1],
              pfree := pfree p @ [h_idx h]\<rparr>"
  have "insert ?s (unat ` set (pfree p)) = {i. i < length (pslots p) \<and> (pslots p)[?s := None] ! i = None}"
    unfolding fr using True by (simp only: none_slots_update)
  then have "pool_inv ?p" using inv nf by (simp add: pool_inv_def)
  moreover have "pool_free p h = Ret (Inr (), ?p)"
    using True live inv by (simp add: pool_free_def pool_inv_def Let_def)
  ultimately show ?thesis
    by - (rule ok [of ?p], use True live inv in
      \<open>auto simp: pool_map_def pool_available_def pool_inv_def u32_unat_inj\<close>)
qed

text \<open>
  A client of the pool: it keeps the handles it was given, in order, and names them by position.
\<close>

datatype 'a pool_op = PAlloc 'a | PFree nat | PGet nat

definition pool_step :: "'a pool_op \<Rightarrow> pool_handle list \<times> 'a pool \<Rightarrow> (pool_handle list \<times> 'a pool) run" where
  "pool_step oper = (\<lambda>(hs, p).
     case oper of
       PAlloc v \<Rightarrow> run_bind (pool_alloc p v) (\<lambda>(r, p').
                     Ret (case r of Inl _ \<Rightarrow> hs | Inr h \<Rightarrow> hs @ [h], p'))
     | PFree n \<Rightarrow> (if n < length hs then run_bind (pool_free p (hs ! n)) (\<lambda>(_, p'). Ret (hs, p')) else Ret (hs, p))
     | PGet n \<Rightarrow> (if n < length hs then run_bind (pool_get p (hs ! n)) (\<lambda>_. Ret (hs, p)) else Ret (hs, p)))"

text \<open>
  \<open>c ! i\<close> counts how often slot \<open>i\<close> was freed; a handle carries the count at which it was issued,
  and refers to a live slot as long as the count has not moved on.
\<close>

definition issued_ok :: "nat list \<Rightarrow> 'a pool \<Rightarrow> pool_handle \<Rightarrow> bool" where
  "issued_ok c p h \<longleftrightarrow>
     unat (h_idx h) < length (pslots p)
     \<and> (\<exists>g \<le> c ! unat (h_idx h). h_gen h = of_nat g
          \<and> (g = c ! unat (h_idx h) \<longrightarrow> pslots p ! unat (h_idx h) \<noteq> None))"

definition pool_history :: "nat \<Rightarrow> nat list \<Rightarrow> pool_handle list \<times> 'a pool \<Rightarrow> bool" where
  "pool_history n c s \<longleftrightarrow>
     pool_inv (snd s) \<and> length c = length (pslots (snd s))
     \<and> (\<forall>i < length c. pgens (snd s) ! i = of_nat (c ! i) \<and> c ! i \<le> n)
     \<and> (\<forall>h\<in>set (fst s). issued_ok c (snd s) h)"

lemma issued_usable:
  assumes "pool_history n c (hs, p)" "n < 2 ^ 32" "h \<in> set hs"
  shows "usable p h"
  unfolding usable_def
proof (intro impI, elim conjE)
  let ?i = "unat (h_idx h)"
  assume i: "?i < length (pslots p)" and eq: "pgens p ! ?i = h_gen h"
  obtain g where g: "g \<le> c ! ?i" "h_gen h = of_nat g" "g = c ! ?i \<longrightarrow> pslots p ! ?i \<noteq> None"
    using assms(1,3) by (auto simp: pool_history_def issued_ok_def)
  have c: "pgens p ! ?i = of_nat (c ! ?i)" "c ! ?i \<le> n" using assms(1) i by (auto simp: pool_history_def)
  have "unat (of_nat g :: u32) = g" "unat (of_nat (c ! ?i) :: u32) = c ! ?i"
    using g(1) c(2) assms(2) by (auto intro!: unat_of_nat_u32 simp: u32_max_def)
  with eq g(2) c(1) have "g = c ! ?i" by metis
  with g(3) show "pslots p ! ?i \<noteq> None" by blast
qed

lemma issued_ok_alloc:
  assumes "pool_inv p" "pool_alloc p v = Ret (Inr h, p')" "length c = length (pslots p)"
    "\<forall>i < length c. pgens p ! i = of_nat (c ! i)"
  shows "issued_ok c p k \<Longrightarrow> issued_ok c p' k" "issued_ok c p' h" "length (pslots p') = length (pslots p)"
    "pgens p' = pgens p"
  using assms
  by (auto simp: issued_ok_def pool_alloc_def nth_list_update split: option.splits if_splits prod.splits)

lemma issued_ok_free:
  assumes "pool_free p h = Ret (Inr (), p')" "length c = length (pslots p)" "length (pgens p) = length (pslots p)"
    "issued_ok c p k"
  shows "issued_ok (c[unat (h_idx h) := Suc (c ! unat (h_idx h))]) p' k"
proof -
  let ?s = "unat (h_idx h)" and ?k = "unat (h_idx k)"
  have p': "?s < length (pslots p)" "pslots p' = (pslots p)[?s := None]"
    using assms(1,3) by (auto simp: pool_free_def Let_def split: if_splits)
  obtain g where g: "g \<le> c ! ?k" "h_gen k = of_nat g" "g = c ! ?k \<longrightarrow> pslots p ! ?k \<noteq> None"
    "?k < length (pslots p)" using assms(4) by (auto simp: issued_ok_def)
  show ?thesis
    unfolding issued_ok_def using g p' assms(2) by (auto simp: nth_list_update intro!: exI [of _ g])
qed

lemma pool_step_history:
  assumes h: "pool_history n c (hs, p)" and n: "n < 2 ^ 32"
  shows "\<exists>s' c'. pool_step oper (hs, p) = Ret s' \<and> pool_history (Suc n) c' s'"
proof -
  have inv: "pool_inv p" and c: "length c = length (pslots p)"
    and gens: "\<forall>i < length c. pgens p ! i = of_nat (c ! i)" and le: "\<forall>i < length c. c ! i \<le> n"
    and iss: "\<forall>k\<in>set hs. issued_ok c p k"
    using h by (auto simp: pool_history_def)
  have same: "pool_history (Suc n) c (hs, p)" using h by (auto simp: pool_history_def le_Suc_eq)
  have len: "length (pgens p) = length (pslots p)" using inv by (simp add: pool_inv_def)
  show ?thesis
  proof (cases oper)
    case (PAlloc v)
    from inv show ?thesis
    proof (cases rule: pool_alloc_spec [of p v])
      case full
      with same show ?thesis by (auto simp: PAlloc pool_step_def)
    next
      case (ok k p')
      note a = issued_ok_alloc [OF inv ok(1) c gens]
      have "pool_history (Suc n) c (hs @ [k], p')"
        using ok(2) a c gens le iss by (auto simp: pool_history_def le_Suc_eq)
      with ok(1) show ?thesis by (auto simp: PAlloc pool_step_def)
    qed
  next
    case (PGet m)
    show ?thesis
    proof (cases "m < length hs")
      case True
      then have "pool_get p (hs ! m) = Ret (pool_map p (hs ! m))"
        by (intro pool_get_map [OF inv] issued_usable [OF h n]) simp
      with True same show ?thesis by (auto simp: PGet pool_step_def)
    qed (use same in \<open>auto simp: PGet pool_step_def\<close>)
  next
    case (PFree m)
    show ?thesis
    proof (cases "m < length hs")
      case True
      let ?h = "hs ! m" and ?s = "unat (h_idx (hs ! m))"
      have us: "usable p ?h" using True by (intro issued_usable [OF h n]) simp
      from inv us show ?thesis
      proof (cases rule: pool_free_spec)
        case bad
        with True same show ?thesis by (auto simp: PFree pool_step_def)
      next
        case (ok p')
        let ?c = "c[?s := Suc (c ! ?s)]"
        have s: "?s < length (pslots p)" and sl: "length (pslots p') = length (pslots p)"
          and g: "pgens p ! ?s = h_gen ?h"
          using ok(1) len by (auto simp: pool_free_def Let_def split: if_splits)
        have "\<forall>i < length ?c. pgens p' ! i = of_nat (?c ! i) \<and> ?c ! i \<le> Suc n"
          using gens le s c len g by (auto simp: ok(7) nth_list_update le_Suc_eq algebra_simps)
        moreover have "\<forall>k\<in>set hs. issued_ok ?c p' k"
          using iss issued_ok_free [OF ok(1) c len] by blast
        ultimately have "pool_history (Suc n) ?c (hs, p')"
          using ok(3) c sl by (simp add: pool_history_def)
        with ok(1) True show ?thesis by (auto simp: PFree pool_step_def)
      qed
    qed (use same in \<open>auto simp: PFree pool_step_def\<close>)
  qed
qed

lemma pool_run_history:
  "pool_history n c (hs, p) \<Longrightarrow> n + length ops \<le> 2 ^ 32 \<Longrightarrow> \<exists>s'. run_fold pool_step ops (hs, p) = Ret s'"
proof (induction ops arbitrary: n c hs p)
  case (Cons oper ops)
  obtain s' c' where s: "pool_step oper (hs, p) = Ret s'" "pool_history (Suc n) c' s'"
    using pool_step_history [OF Cons.prems(1), of oper] Cons.prems(2) by auto
  obtain hs' p' where "s' = (hs', p')" by force
  with s Cons.IH [of "Suc n" c' hs' p'] Cons.prems(2) show ?case by auto
qed auto

lemma pool_new_history:
  assumes "pool_try_with_capacity ok al n = Inr p" "n \<le> 2 ^ 32"
  shows "pool_history 0 (replicate (max n 1) 0) ([], p)"
  using pool_new_inv(1) [OF assms] assms
  by (auto simp: pool_history_def pool_try_with_capacity_def Let_def split: if_splits)

section \<open>The freestanding allocator\<close>

definition heap_size :: u64 where
  "heap_size = 65536"

definition heap_alignment :: u64 where
  "heap_alignment = 4096"

text \<open>The closure of \<open>fetch_update\<close>: the new cursor, when the request fits.\<close>

definition reserve_end :: "u64 \<Rightarrow> u64 \<Rightarrow> u64 \<Rightarrow> u64 option" where
  "reserve_end sz align cursor =
     (case wchecked_add cursor (wsat_sub align 1) of
        None \<Rightarrow> None
      | Some x \<Rightarrow>
          (case wchecked_add (x AND NOT (align - 1)) sz of
             None \<Rightarrow> None
           | Some e \<Rightarrow> if e \<le> heap_size then Some e else None))"

text \<open>
  \<open>alloc\<close> on the cursor: the offset of the returned pointer in the heap, or \<open>None\<close> for the null
  pointer. \<open>fetch_update\<close> returns the \<^emph>\<open>previous\<close> value of the cursor, which is what the source
  adds to the heap's address.
\<close>

definition nostd_alloc :: "u64 \<Rightarrow> u64 \<Rightarrow> u64 \<Rightarrow> u64 option \<times> u64" where
  "nostd_alloc cursor sz layout_align =
     (let align = max layout_align 1
      in if sz = 0 \<or> align > heap_alignment then (None, cursor)
         else case reserve_end sz align cursor of
                None \<Rightarrow> (None, cursor)
              | Some e \<Rightarrow> (Some cursor, e))"

definition heap_remaining :: "u64 \<Rightarrow> u64" where
  "heap_remaining cursor = wsat_sub heap_size cursor"

definition heap_used :: "u64 \<Rightarrow> u64" where
  "heap_used cursor = min cursor heap_size"

text \<open>The range handed out lies inside the reserved one, so ranges never overlap.\<close>

lemma nostd_alloc_range:
  assumes "nostd_alloc cursor sz align = (Some off, cursor')" "is_power_of_two align"
  shows "off = cursor" "unat off + unat sz \<le> unat cursor'" "cursor' \<le> heap_size"
proof -
  obtain n where n: "n < 64" "align = 2 ^ n" using assms(2) by (auto simp: is_power_of_two_iff)
  have ua: "unat align = 2 ^ n" unfolding n(2) by (rule unat_exp_u64 [OF n(1)])
  have ge: "\<not> align < 1" using ua by (simp add: word_less_nat_alt)
  have mx: "max align 1 = align" using ua by (intro max_absorb1) (simp add: word_le_nat_alt)
  have m: "align - 1 = mask n" by (simp add: n(2) mask_eq_exp_minus_1)
  have um: "unat (mask n :: u64) = 2 ^ n - 1"
    using ua ge m by (metis unat_minus_one word_less_1)
  show off: "off = cursor"
    using assms(1) by (auto simp: nostd_alloc_def Let_def split: if_splits option.splits)
  from assms(1) have e: "reserve_end sz align cursor = Some cursor'"
    by (auto simp: nostd_alloc_def Let_def mx split: if_splits option.splits)
  then show "cursor' \<le> heap_size"
    by (auto simp: reserve_end_def split: if_splits option.splits)
  have sub: "wsat_sub align 1 = mask n" using ge m by (simp add: wsat_sub_def)
  let ?x = "(cursor + mask n) AND NOT (mask n)"
  have fit: "unat cursor + (2 ^ n - 1) < 2 ^ 64" and end_eq: "unat cursor' = unat ?x + unat sz"
    using e um by (auto simp: reserve_end_def sub m wchecked_add_def unat_word_ariths split: if_splits option.splits)
  have "unat (cursor + mask n) = unat cursor + (2 ^ n - 1)" using fit um by (simp add: unat_word_ariths)
  then have "unat ?x = (unat cursor + (2 ^ n - 1)) div 2 ^ n * 2 ^ n" by (simp only: and_not_mask [OF n(1)])
  then have "unat cursor \<le> unat ?x" using round_up_bounds(1) [of "2 ^ n" "unat cursor"] by simp
  with end_eq off show "unat off + unat sz \<le> unat cursor'" by simp
qed

section \<open>Properties\<close>

text \<open>
  The bump arena hands out disjoint ranges. Whatever is requested after a reset, the granted ranges
  are in increasing order, do not overlap and lie inside the block.
\<close>

theorem arena_ranges_disjoint:
  assumes run: "arena_run reqs (arena_reset a) = (rs, a')" and inv: "arena_inv a"
    and small: "unat (a_capacity a) \<le> 2 ^ 63" "\<forall>(sz, align)\<in>set reqs. unat align \<le> 2 ^ 63"
  shows "sorted_wrt (\<lambda>(l, h) (l', h'). h \<le> l') rs
     \<and> (\<forall>(l, h)\<in>set rs. l \<le> h \<and> h \<le> unat (a_capacity a))"
proof -
  have "sorted_wrt (\<lambda>(l, h) (l', h'). h \<le> l') rs
     \<and> (\<forall>(l, h)\<in>set rs. unat (used (arena_reset a)) \<le> l \<and> l \<le> h \<and> h \<le> unat (a_capacity (arena_reset a)))"
    by (rule arena_run_ranges [OF run arena_inv_reset [OF inv]]) (use small in \<open>simp_all add: arena_reset_def\<close>)
  then show ?thesis by (auto simp: arena_reset_def)
qed

theorem arena_ranges_disjoint_witness:
  "\<exists>rs a'. arena_run [(3, 1), (8, 8)] (arena_reset (arena_new 0 64)) = (rs, a')
     \<and> sorted_wrt (\<lambda>(l, h) (l', h'). h \<le> l') rs \<and> list_all (\<lambda>(l, h). l \<le> h \<and> h \<le> 64) rs"
proof -
  obtain rs a' where r: "arena_run [(3, 1), (8, 8)] (arena_reset (arena_new 0 64)) = (rs, a')" by force
  have "unat (a_capacity (arena_new 0 64)) = 64" by (simp add: arena_new_def)
  with arena_ranges_disjoint [OF r arena_inv_new] r show ?thesis by (auto simp: list_all_iff)
qed

lemma alloc_bytes_at:
  assumes off: "align_up (used a) align = x" and pow: "is_power_of_two align" "align \<noteq> 0"
  shows "alloc_bytes a sz align =
     (if unat x + unat sz \<le> unat (a_capacity a) then (Some x, a\<lparr>used := x + sz, peak := max (peak a) (x + sz)\<rparr>)
      else (None, a))"
proof (cases "unat x + unat sz < 2 ^ 64")
  case True
  then have "unat (x + sz) = unat x + unat sz" by (simp add: unat_word_ariths)
  with True pow show ?thesis
    by (simp add: alloc_bytes_def off Let_def wchecked_add_def word_less_nat_alt not_less)
next
  case False
  then have "\<not> unat x + unat sz \<le> unat (a_capacity a)" using unat_u64_less [of "a_capacity a"] by simp
  with False pow show ?thesis by (simp add: alloc_bytes_def off Let_def wchecked_add_def)
qed

text \<open>
  A request is granted exactly when it fits: for a power of two \<open>2^k\<close>, \<open>alloc_bytes\<close> returns the
  used size rounded up to a multiple of the alignment when the range from there fits the block, moves
  the cursor to its end and raises the peak; otherwise it changes nothing. Any other alignment is
  refused.
\<close>

theorem arena_grants_exactly:
  assumes k: "k < 64" and room: "unat (used a) + 2 ^ k \<le> 2 ^ 64"
  shows "(let off = (unat (used a) + (2 ^ k - 1)) div 2 ^ k * 2 ^ k
     in if off + unat sz \<le> unat (a_capacity a)
        then alloc_bytes a sz (2 ^ k) =
               (Some (of_nat off), a\<lparr>used := of_nat (off + unat sz), peak := max (peak a) (of_nat (off + unat sz))\<rparr>)
        else alloc_bytes a sz (2 ^ k) = (None, a))"
proof -
  let ?off = "(unat (used a) + (2 ^ k - 1)) div 2 ^ k * 2 ^ k"
  obtain x where x: "align_up (used a) (2 ^ k) = x" by simp
  have eq: "?off = unat x" unfolding x [symmetric] using room by (intro align_up_eq [OF k, symmetric]) simp
  have "is_power_of_two (2 ^ k)" "(2 ^ k :: u64) \<noteq> 0" using k by (auto simp: is_power_of_two_iff)
  from alloc_bytes_at [OF x this] show ?thesis unfolding eq Let_def by simp
qed

theorem arena_grants_exactly_witness:
  "alloc_bytes \<lparr>base = 0, a_capacity = 64, used = 3, peak = 3\<rparr> 8 (2 ^ 3) =
     (Some 8, \<lparr>base = 0, a_capacity = 64, used = 16, peak = 16\<rparr>)"
  using arena_grants_exactly [of 3 "\<lparr>base = 0, a_capacity = 64, used = 3, peak = 3\<rparr>" 8]
  by (simp add: Let_def)

text \<open>
  The alignment is that of the offset, not of the address: the block itself is only aligned to 16
  bytes, so a request for more alignment can be granted at a misaligned address.
\<close>

lemma arena_address_misaligned:
  "\<exists>a off. base a mod default_align = 0 \<and> fst (alloc_bytes a 8 64) = Some off \<and> (base a + unat off) mod 64 \<noteq> 0"
  by (rule exI [of _ "arena_new 16 64"], rule exI [of _ 0])
    (simp add: arena_new_def default_align_def alloc_bytes_def is_power_of_two_def upt_rec align_up_def Let_def
      wsat_add_def wsat_sub_def wchecked_add_def)

text \<open>
  C10: The pool's \<open>unsafe\<close> code is sound for handles the pool has issued. Any sequence of at most
  2^32 allocations, frees and reads on a new pool, through any of the handles handed out so far and
  in any state, returns: no read of an uninitialised slot, no double drop, no index out of range.
\<close>

theorem pool_no_undefined_behaviour:
  assumes new: "pool_try_with_capacity ok al n = Inr p" and n: "n \<le> 2 ^ 32" and ops: "length ops \<le> 2 ^ 32"
  shows "\<exists>hs p'. run_fold pool_step ops ([], p) = Ret (hs, p')"
  using pool_run_history [OF pool_new_history [OF new n], of ops] ops by auto

theorem pool_no_undefined_behaviour_witness:
  "\<exists>hs p'. run_fold pool_step [PAlloc (7 :: nat), PFree 0, PGet 0, PFree 0]
     ([], \<lparr>pslots = [None], pfree = [0], pgens = [0]\<rparr>) = Ret (hs, p')"
  by (rule pool_no_undefined_behaviour [of True "\<lambda>_. True" 1]) (simp_all add: pool_try_with_capacity_def)

text \<open>
  The pool is a map from handles to values. An allocation fails exactly when no slot is free;
  otherwise the new handle reads the value, every usable handle reads what it read before, and once
  freed the handle reads nothing.
\<close>

theorem pool_alloc_get_free:
  assumes inv: "pool_inv p"
  shows "(pool_available p = 0 \<and> pool_alloc p v = Ret (Inl Exhausted, p))
     \<or> (\<exists>h p1 p2. pool_alloc p v = Ret (Inr h, p1) \<and> pool_get p1 h = Ret (Some v)
          \<and> (\<forall>k. usable p k \<and> k \<noteq> h \<longrightarrow> pool_get p1 k = pool_get p k)
          \<and> pool_available p = Suc (pool_available p1)
          \<and> pool_free p1 h = Ret (Inr (), p2) \<and> pool_get p2 h = Ret None)"
  using inv
proof (cases rule: pool_alloc_spec [of p v])
  case (ok h p1)
  note get = pool_get_map [OF ok(2)]
  have v: "pool_map p1 h = Some v" using ok(4) by simp
  obtain p2 where p2: "pool_free p1 h = Ret (Inr (), p2)" "pool_inv p2" "pool_map p2 h = None"
    "pgens p2 = (pgens p1)[unat (h_idx h) := h_gen h + 1]"
    using ok(2,7) by (cases rule: pool_free_spec [of p1 h]) (use v in auto)
  have "usable p2 h" using p2(2,4) by (auto simp: usable_def pool_inv_def)
  then have "pool_get p2 h = Ret None" using pool_get_map [OF p2(2)] p2(3) by simp
  moreover have "pool_get p1 k = pool_get p k" if "usable p k" "k \<noteq> h" for k
    using get [OF ok(6) [OF that(1)]] pool_get_map [OF inv that(1)] ok(4) that(2) by simp
  ultimately show ?thesis using ok get [OF ok(7)] v p2(1) by auto
qed blast

theorem pool_alloc_get_free_witness:
  "\<exists>h p1 p2. pool_alloc \<lparr>pslots = [None], pfree = [0], pgens = [0]\<rparr> (7 :: nat) = Ret (Inr h, p1) \<and> pool_get p1 h = Ret (Some 7)
     \<and> pool_free p1 h = Ret (Inr (), p2) \<and> pool_get p2 h = Ret None"
proof -
  have "pool_inv \<lparr>pslots = [None :: nat option], pfree = [0], pgens = [0]\<rparr>" by (auto simp: pool_inv_def less_Suc_eq)
  from pool_alloc_get_free [OF this, of 7] show ?thesis by (auto simp: pool_available_def)
qed

fun nostd_run :: "(u64 \<times> u64) list \<Rightarrow> u64 \<Rightarrow> (nat \<times> nat) list \<times> u64" where
  "nostd_run [] c = ([], c)"
| "nostd_run ((sz, align) # rest) c =
     (case nostd_alloc c sz align of
        (None, c1) \<Rightarrow> nostd_run rest c1
      | (Some off, c1) \<Rightarrow> (let (rs, c2) = nostd_run rest c1 in ((unat off, unat off + unat sz) # rs, c2)))"

text \<open>
  The freestanding allocator never hands out the same byte twice: consecutive grants start at or
  after the end of the previous one and stay inside the heap, for any sequence of requests.
\<close>

theorem nostd_ranges_disjoint:
  assumes "nostd_run reqs c = (rs, c')" "\<forall>(sz, align)\<in>set reqs. is_power_of_two align"
  shows "sorted_wrt (\<lambda>(l, h) (l', h'). h \<le> l') rs
     \<and> (\<forall>(l, h)\<in>set rs. unat c \<le> l \<and> l \<le> h \<and> h \<le> unat heap_size)"
  using assms
proof (induction reqs c arbitrary: rs c' rule: nostd_run.induct)
  case (2 sz align rest c)
  show ?case
  proof (cases "nostd_alloc c sz align")
    case (Pair r c1)
    show ?thesis
    proof (cases r)
      case None
      then have "c1 = c" using Pair by (auto simp: nostd_alloc_def Let_def split: if_splits option.splits)
      with None Pair "2.IH"(1) [OF Pair [symmetric] None] "2.prems" show ?thesis by simp
    next
      case (Some off)
      obtain rs1 where rs1: "nostd_run rest c1 = (rs1, c')" "rs = (unat off, unat off + unat sz) # rs1"
        using "2.prems"(1) Pair Some by (auto split: prod.splits)
      note sp = nostd_alloc_range [OF Pair [unfolded Some]]
      have IH: "sorted_wrt (\<lambda>(l, h) (l', h'). h \<le> l') rs1
          \<and> (\<forall>(l, h)\<in>set rs1. unat c1 \<le> l \<and> l \<le> h \<and> h \<le> unat heap_size)"
        using "2.IH"(2) [OF Pair [symmetric] Some rs1(1)] "2.prems"(2) by simp
      have "off = c" "unat off + unat sz \<le> unat c1" "c1 \<le> heap_size" using sp "2.prems"(2) by auto
      with IH rs1(2) show ?thesis by (force simp: word_le_nat_alt)
    qed
  qed
qed simp

theorem nostd_ranges_disjoint_witness:
  "\<exists>rs c'. nostd_run [(3, 1), (8, 8)] 0 = (rs, c') \<and> sorted_wrt (\<lambda>(l, h) (l', h'). h \<le> l') rs
     \<and> list_all (\<lambda>(l, h). l \<le> h \<and> h \<le> unat heap_size) rs"
proof -
  obtain rs c' where r: "nostd_run [(3, 1), (8, 8)] 0 = (rs, c')" by force
  have "is_power_of_two 1" "is_power_of_two 8" by (simp_all add: is_power_of_two_def upt_rec)
  with nostd_ranges_disjoint [OF r] r show ?thesis by (auto simp: list_all_iff)
qed

text \<open>
  \<open>fetch_update\<close> returns the previous cursor, not the rounded start, so the address handed out is not
  aligned: eight bytes aligned to 8, requested when one byte is in use, are placed at offset 1.
\<close>

lemma nostd_alloc_misaligned: "nostd_alloc 1 8 8 = (Some 1, 16)"
  by (simp add: nostd_alloc_def reserve_end_def Let_def heap_alignment_def heap_size_def wchecked_add_def wsat_sub_def)

section \<open>The rest of the pool: mutable access, iteration and drop\<close>

definition pool_get_mut :: "'a pool \<Rightarrow> pool_handle \<Rightarrow> ('a \<Rightarrow> 'a) \<Rightarrow> (bool \<times> 'a pool) run" where
  "pool_get_mut p h f =
     (let s = unat (h_idx h)
      in if s \<ge> length (pslots p) then Ret (False, p)
         else if s \<ge> length (pgens p) then Panic
         else if pgens p ! s \<noteq> h_gen h then Ret (False, p)
         else case pslots p ! s of None \<Rightarrow> UB | Some v \<Rightarrow> Ret (True, p\<lparr>pslots := (pslots p)[s := Some (f v)]\<rparr>))"

definition pool_iter :: "'a pool \<Rightarrow> (u32 \<times> 'a) list run" where
  "pool_iter p =
     run_fold (\<lambda>i acc. if of_nat i \<in> set (pfree p) then Ret acc
                       else case pslots p ! i of None \<Rightarrow> UB | Some v \<Rightarrow> Ret (acc @ [(of_nat i, v)]))
       [0..<length (pslots p)] []"

text \<open>\<open>Drop\<close> for the pool: the values it drops, in order.\<close>

definition pool_drop :: "'a pool \<Rightarrow> 'a list run" where
  "pool_drop p =
     (let freelist = pfree p
      in run_fold (\<lambda>i acc. if of_nat i \<in> set freelist then Ret acc
                           else case pslots p ! i of None \<Rightarrow> UB | Some v \<Rightarrow> Ret (acc @ [v]))
           [0..<length (pslots p)] [])"

lemma pool_free_iff:
  assumes "pool_inv p" "i < length (pslots p)"
  shows "of_nat i \<in> set (pfree p) \<longleftrightarrow> pslots p ! i = None"
proof -
  have i: "unat (of_nat i :: u32) = i"
    using assms by (intro unat_of_nat_u32) (simp add: pool_inv_def u32_max_def)
  have free: "unat ` set (pfree p) = {i. i < length (pslots p) \<and> pslots p ! i = None}"
    using assms(1) by (simp add: pool_inv_def)
  have "of_nat i \<in> set (pfree p) \<longleftrightarrow> i \<in> unat ` set (pfree p)" using i by (force simp: image_iff)
  then show ?thesis using assms(2) free by simp
qed

lemma collect_live:
  assumes "pool_inv p" "n \<le> length (pslots p)"
  shows "run_fold (\<lambda>i acc. if of_nat i \<in> set (pfree p) then Ret acc
           else case pslots p ! i of None \<Rightarrow> UB | Some v \<Rightarrow> Ret (acc @ [f i v])) [0..<n] []
         = Ret (map (\<lambda>i. f i (the (pslots p ! i))) (filter (\<lambda>i. pslots p ! i \<noteq> None) [0..<n]))"
  using assms(2)
proof (induction n)
  case (Suc n)
  then have n: "n < length (pslots p)" by simp
  show ?case using Suc n pool_free_iff [OF assms(1) n] by (auto simp: run_fold_append split: option.split)
qed simp

text \<open>Iteration visits and drop drops exactly the live slots, in index order, without undefined behaviour.\<close>

lemma pool_iter_exact:
  "pool_inv p \<Longrightarrow> pool_iter p = Ret (map (\<lambda>i. (of_nat i, the (pslots p ! i))) (filter (\<lambda>i. pslots p ! i \<noteq> None) [0..<length (pslots p)]))"
  unfolding pool_iter_def by (rule collect_live [where f = "\<lambda>i v. (of_nat i, v)"]) simp_all

lemma pool_drop_exact:
  "pool_inv p \<Longrightarrow> pool_drop p = Ret (map (\<lambda>i. the (pslots p ! i)) (filter (\<lambda>i. pslots p ! i \<noteq> None) [0..<length (pslots p)]))"
  unfolding pool_drop_def Let_def by (rule collect_live [where f = "\<lambda>i v. v"]) simp_all

lemma pool_get_mut_exact:
  assumes "pool_inv p" "usable p h"
  obtains (absent) "pool_get_mut p h f = Ret (False, p)" "pool_map p h = None"
  | (present) v p' where "pool_get_mut p h f = Ret (True, p')" "pool_map p h = Some v" "pool_inv p'"
      "pool_map p' h = Some (f v)" "\<forall>g. h_idx g \<noteq> h_idx h \<longrightarrow> pool_map p' g = pool_map p g"
proof (cases "unat (h_idx h) < length (pslots p) \<and> pgens p ! unat (h_idx h) = h_gen h")
  case False
  then show ?thesis using absent assms(1) by (auto simp: pool_get_mut_def pool_map_def pool_inv_def Let_def)
next
  case True
  then obtain v where v: "pslots p ! unat (h_idx h) = Some v" using assms(2) by (auto simp: usable_def)
  let ?p = "p\<lparr>pslots := (pslots p)[unat (h_idx h) := Some (f v)]\<rparr>"
  have run: "pool_get_mut p h f = Ret (True, ?p)"
    using True v assms(1) by (simp add: pool_get_mut_def pool_inv_def Let_def)
  have "{i. i < length (pslots ?p) \<and> pslots ?p ! i = None} = {i. i < length (pslots p) \<and> pslots p ! i = None}"
    using v True by (auto simp: nth_list_update split: if_splits)
  then have "pool_inv ?p" using assms(1) by (simp add: pool_inv_def)
  then show ?thesis
    using present [OF run] True v u32_unat_inj by (auto simp: pool_map_def nth_list_update)
qed

end
