(* ===== verification/Context.thy ===== *)
theory Context
  imports Bus Deferred Memory
begin

text \<open>
  \<open>src/src/kernel/context.rs\<close>: what a subsystem callback can reach. The mutable part is the bus,
  the world, the deferred commands and the frame arena; the callback also gets the registered
  names, its own address and the frame step. The contract of a callback is stated as a locale and
  is shown to hold for everything that is built from the operations of the context.
\<close>

record ('p, 'v) kctx =
  kbus :: "'p bus"
  kworld :: "'v world"
  kdeferred :: deferred_commands
  karena :: arena

text \<open>\<open>debug\<close> is a property of the build, \<open>ctx_names\<close>, \<open>self_id\<close> and \<open>dt_ns\<close> are fixed for the call.\<close>

record call_env =
  debug_build :: bool
  ctx_names :: "string list"
  self_id :: u32
  dt_ns :: u64

definition ctx_resolve :: "call_env \<Rightarrow> string \<Rightarrow> u32 option" where
  "ctx_resolve env n = map_option of_nat (position (\<lambda>m. m = n) (ctx_names env))"

definition ctx_publish ::
  "call_env \<Rightarrow> ('p, 'v) kctx \<Rightarrow> u32 \<Rightarrow> u16 \<Rightarrow> 'p \<Rightarrow> ((bus_error + unit) \<times> ('p, 'v) kctx) run" where
  "ctx_publish env c to t p =
     (let (e, b) = bus_envelope (kbus c) (self_id env) to t p
      in run_bind (bus_publish (debug_build env) b e) (\<lambda>(r, b'). Ret (r, c\<lparr>kbus := b'\<rparr>)))"

text \<open>One call of \<open>InboxIter::next\<close>, and the whole drain of a \<open>for\<close> loop over \<open>receive()\<close>.\<close>

definition ctx_next :: "call_env \<Rightarrow> ('p, 'v) kctx \<Rightarrow> ('p envelope option \<times> ('p, 'v) kctx) run" where
  "ctx_next env c = run_bind (pop_inbox (kbus c) (self_id env)) (\<lambda>(m, b). Ret (m, c\<lparr>kbus := b\<rparr>))"

fun receive_loop :: "nat \<Rightarrow> call_env \<Rightarrow> ('p, 'v) kctx \<Rightarrow> ('p envelope list \<times> ('p, 'v) kctx) run" where
  "receive_loop 0 env c = Diverges"
| "receive_loop (Suc n) env c =
     run_bind (ctx_next env c) (\<lambda>(m, c').
       case m of
         None \<Rightarrow> Ret ([], c')
       | Some e \<Rightarrow> run_bind (receive_loop n env c') (\<lambda>(es, c''). Ret (e # es, c'')))"

definition ctx_receive :: "call_env \<Rightarrow> ('p, 'v) kctx \<Rightarrow> ('p envelope list \<times> ('p, 'v) kctx) run" where
  "ctx_receive env c = receive_loop (Suc (unat (inbox_len (kbus c) (self_id env)))) env c"

definition ctx_defer_spawn ::
  "alloc \<Rightarrow> nat \<Rightarrow> ('p, 'v) kctx \<Rightarrow> (deferred_error + unit) \<times> ('p, 'v) kctx" where
  "ctx_defer_spawn al room c =
     (let (r, d) = deferred_try_spawn al room (kdeferred c) in (r, c\<lparr>kdeferred := d\<rparr>))"

definition ctx_defer_despawn ::
  "alloc \<Rightarrow> nat \<Rightarrow> ('p, 'v) kctx \<Rightarrow> entity \<Rightarrow> (deferred_error + unit) \<times> ('p, 'v) kctx" where
  "ctx_defer_despawn al room c e =
     (let (r, d) = deferred_try_despawn al room (kdeferred c) e in (r, c\<lparr>kdeferred := d\<rparr>))"

definition ctx_alloc_bytes :: "('p, 'v) kctx \<Rightarrow> u64 \<Rightarrow> u64 \<Rightarrow> u64 option \<times> ('p, 'v) kctx" where
  "ctx_alloc_bytes c sz align =
     (let (r, a) = alloc_bytes (karena c) sz align in (r, c\<lparr>karena := a\<rparr>))"

section \<open>The invariant of the context\<close>

definition ctx_inv :: "('p, 'v) kctx \<Rightarrow> bool" where
  "ctx_inv c \<longleftrightarrow>
     bus_inv (kbus c) \<and> ring_items (outbox (kbus c)) = []
     \<and> world_inv (kworld c) \<and> deferred_inv (kdeferred c) \<and> arena_inv (karena c)"

lemma bus_envelope_inv:
  assumes "bus_envelope b s r t p = (e, b')"
  shows "bus_inv b' = bus_inv b" "outbox b' = outbox b" "mailboxes b' = mailboxes b"
    "edges b' = edges b" "env_from e = s" "env_to e = r" "seq e = bus_next_seq b" "topic e = t" "payload e = p"
    "inboxes b' = inboxes b" "bus_next_seq b' = bus_next_seq b + 1"
  using assms by (auto simp: bus_envelope_def next_seq_def bus_inv_def mailboxes_def)

text \<open>A send is safe for the caller in a release build, and in a debug build when it is declared.\<close>

definition may_send :: "call_env \<Rightarrow> ('p, 'v) kctx \<Rightarrow> u32 \<Rightarrow> bool" where
  "may_send env c to \<longleftrightarrow> \<not> debug_build env \<or> routing_ok (kbus c) (self_id env) to"

lemma routing_ok_edges: "edges b' = edges b \<Longrightarrow> routing_ok b' s r = routing_ok b s r"
  by (simp add: routing_ok_def)

lemma ctx_publish_spec:
  assumes inv: "ctx_inv c" and may: "may_send env c to"
  obtains r c' where "ctx_publish env c to t p = Ret (r, c')" "ctx_inv c'"
    "edges (kbus c') = edges (kbus c)" "kworld c' = kworld c" "kdeferred c' = kdeferred c"
    "karena c' = karena c"
    "(r, mailboxes (kbus c')) = publish_result (mailboxes (kbus c))
       \<lparr>env_from = self_id env, env_to = to, topic = t, seq = bus_next_seq (kbus c), payload = p\<rparr>"
proof -
  obtain e b where e: "bus_envelope (kbus c) (self_id env) to t p = (e, b)" by force
  note be = bus_envelope_inv [OF e]
  have eq: "e = \<lparr>env_from = self_id env, env_to = to, topic = t, seq = bus_next_seq (kbus c), payload = p\<rparr>"
    using be by (intro envelope.equality) simp_all
  have "bus_inv b" "ring_items (outbox b) = []" using inv be by (simp_all add: ctx_inv_def)
  moreover have "routing_ok b (env_from e) (env_to e) \<or> \<not> debug_build env"
    using may be routing_ok_edges [OF be(4)] by (auto simp: may_send_def)
  ultimately obtain b' where b': "bus_publish (debug_build env) b e = Ret (fst (publish_result (mailboxes b) e), b')"
    "bus_inv b'" "mailboxes b' = snd (publish_result (mailboxes b) e)" "ring_items (outbox b') = []"
    "edges b' = edges b" by (rule bus_publish_spec)
  have "ctx_publish env c to t p = Ret (fst (publish_result (mailboxes b) e), c\<lparr>kbus := b'\<rparr>)"
    using e b'(1) by (simp add: ctx_publish_def)
  then show ?thesis
    using inv b' be(3,4)
    by - (rule that [of _ "c\<lparr>kbus := b'\<rparr>"], assumption, auto simp: ctx_inv_def simp flip: eq)
qed

lemma ctx_next_spec:
  assumes inv: "ctx_inv c"
  obtains (none) "ctx_next env c = Ret (None, c)"
      "unat (self_id env) \<ge> length (mailboxes (kbus c)) \<or> mailboxes (kbus c) ! unat (self_id env) = []"
  | (msg) e es c' where "unat (self_id env) < length (mailboxes (kbus c))"
      "mailboxes (kbus c) ! unat (self_id env) = e # es" "ctx_next env c = Ret (Some e, c')" "ctx_inv c'"
      "mailboxes (kbus c') = (mailboxes (kbus c))[unat (self_id env) := es]" "edges (kbus c') = edges (kbus c)"
      "kworld c' = kworld c"
proof -
  have "bus_inv (kbus c)" using inv by (simp add: ctx_inv_def)
  then show ?thesis
  proof (cases rule: pop_inbox_spec [of "kbus c" "self_id env"])
    case none
    then show ?thesis by (intro that(1)) (simp_all add: ctx_next_def)
  next
    case (msg e es b')
    then show ?thesis using inv
      by - (rule that(2) [of e es "c\<lparr>kbus := b'\<rparr>"], auto simp: ctx_next_def ctx_inv_def)
  qed
qed

text \<open>A drain returns every waiting message in order and leaves the inbox empty.\<close>

definition own_mail :: "call_env \<Rightarrow> ('p, 'v) kctx \<Rightarrow> 'p envelope list" where
  "own_mail env c =
     (if unat (self_id env) < length (mailboxes (kbus c)) then mailboxes (kbus c) ! unat (self_id env) else [])"

lemma receive_loop_spec:
  assumes "ctx_inv c" "length (own_mail env c) < n"
  shows "\<exists>c'. receive_loop n env c = Ret (own_mail env c, c') \<and> ctx_inv c' \<and> own_mail env c' = []
     \<and> edges (kbus c') = edges (kbus c) \<and> kworld c' = kworld c
     \<and> length (mailboxes (kbus c')) = length (mailboxes (kbus c))
     \<and> (\<forall>i. i \<noteq> unat (self_id env) \<longrightarrow> mailboxes (kbus c') ! i = mailboxes (kbus c) ! i)"
  using assms
proof (induction n arbitrary: c)
  case (Suc n)
  from Suc.prems(1) show ?case
  proof (cases rule: ctx_next_spec [of c env])
    case none
    then have "own_mail env c = []" by (auto simp: own_mail_def)
    with none Suc.prems(1) show ?thesis by simp
  next
    case (msg e es c1)
    have len: "length (mailboxes (kbus c1)) = length (mailboxes (kbus c))" using msg(5) by (metis length_list_update)
    from len have own: "own_mail env c1 = es" "own_mail env c = e # es" using msg by (simp_all add: own_mail_def)
    obtain c' where c': "receive_loop n env c1 = Ret (own_mail env c1, c')" "ctx_inv c'" "own_mail env c' = []"
      "edges (kbus c') = edges (kbus c1)" "kworld c' = kworld c1" "length (mailboxes (kbus c')) = length (mailboxes (kbus c1))"
      "\<forall>i. i \<noteq> unat (self_id env) \<longrightarrow> mailboxes (kbus c') ! i = mailboxes (kbus c1) ! i"
      using Suc.IH [OF msg(4)] Suc.prems(2) own by auto
    have "receive_loop (Suc n) env c = Ret (own_mail env c, c')" using msg(3) c'(1) own by simp
    moreover have "\<forall>i. i \<noteq> unat (self_id env) \<longrightarrow> mailboxes (kbus c') ! i = mailboxes (kbus c) ! i"
      using c'(7) msg(5) by simp
    ultimately show ?thesis using c' msg len by auto
  qed
qed simp

lemma inbox_len_own_mail:
  "unat (inbox_len (kbus c) (self_id env)) = length (own_mail env c)"
  by (simp add: inbox_len_def own_mail_def vec_get_def mailboxes_def ring_len_def)

lemma ctx_receive_spec:
  assumes "ctx_inv c"
  shows "\<exists>c'. ctx_receive env c = Ret (own_mail env c, c') \<and> ctx_inv c' \<and> own_mail env c' = []
     \<and> edges (kbus c') = edges (kbus c) \<and> kworld c' = kworld c
     \<and> length (mailboxes (kbus c')) = length (mailboxes (kbus c))
     \<and> (\<forall>i. i \<noteq> unat (self_id env) \<longrightarrow> mailboxes (kbus c') ! i = mailboxes (kbus c) ! i)"
  unfolding ctx_receive_def inbox_len_own_mail by (rule receive_loop_spec [OF assms]) simp

lemma ctx_defer_inv:
  "ctx_inv c \<Longrightarrow> ctx_inv (snd (ctx_defer_spawn al room c))"
  "ctx_inv c \<Longrightarrow> ctx_inv (snd (ctx_defer_despawn al room c e))"
  "ctx_inv c \<Longrightarrow> ctx_inv (snd (ctx_alloc_bytes c sz align))"
  using deferred_push_inv [of "kdeferred c" al room Spawn] deferred_push_inv [of "kdeferred c" al room "Despawn e"]
    alloc_bytes_inv [of "karena c" sz align]
  by (auto simp: ctx_defer_spawn_def ctx_defer_despawn_def ctx_alloc_bytes_def deferred_try_spawn_def
      deferred_try_despawn_def ctx_inv_def Let_def split: prod.splits)

section \<open>The contract of a callback\<close>

type_synonym ('s, 'p, 'v) callback = "call_env \<Rightarrow> 's \<Rightarrow> ('p, 'v) kctx \<Rightarrow> ('s \<times> ('p, 'v) kctx) run"

text \<open>
  \<open>ok\<close> is what the driver keeps of its own state, relative to the build, the names and its
  address; \<open>route\<close> says which sends the driver relies on, and is a fact about the matrix of edges,
  which no operation of the context changes.
\<close>

definition callback_ok ::
  "(call_env \<Rightarrow> 's \<Rightarrow> bool) \<Rightarrow> (call_env \<Rightarrow> bool list list \<Rightarrow> bool) \<Rightarrow> ('s, 'p, 'v) callback \<Rightarrow> bool" where
  "callback_ok ok route cb \<longleftrightarrow>
     (\<forall>env st c. ctx_inv c \<and> ok env st \<and> route env (edges (kbus c)) \<longrightarrow>
        (\<exists>st' c'. cb env st c = Ret (st', c') \<and> ctx_inv c' \<and> ok env st' \<and> edges (kbus c') = edges (kbus c)))"

locale driver =
  fixes ok :: "call_env \<Rightarrow> 's \<Rightarrow> bool" and route :: "call_env \<Rightarrow> bool list list \<Rightarrow> bool"
    and d_init d_tick d_shutdown :: "('s, 'p, 'v) callback"
  assumes init_ok: "callback_ok ok route d_init"
    and tick_ok: "callback_ok ok route d_tick"
    and shutdown_ok: "callback_ok ok route d_shutdown"
begin

text \<open>A driver that has been initialised can tick any number of times.\<close>

lemma ticks_return:
  assumes "ctx_inv c" "ok env st" "route env (edges (kbus c))"
  shows "\<exists>st' c'. run_fold (\<lambda>_ (st, c). d_tick env st c) (replicate n ()) (st, c) = Ret (st', c')
     \<and> ctx_inv c' \<and> ok env st' \<and> edges (kbus c') = edges (kbus c)"
  using assms
proof (induction n arbitrary: st c)
  case (Suc n)
  obtain st1 c1 where s: "d_tick env st c = Ret (st1, c1)" "ctx_inv c1" "ok env st1"
    "edges (kbus c1) = edges (kbus c)"
    using tick_ok Suc.prems unfolding callback_ok_def by blast
  with Suc.IH [OF s(2,3)] Suc.prems(3) show ?case by simp
qed simp

end

section \<open>Properties\<close>

text \<open>
  \<open>receive\<close> drains exactly the caller's own inbox: it ends, yields the waiting messages in the
  order they were published, leaves that inbox empty, and touches no other inbox, nor the world.
\<close>

theorem receive_drains_own_inbox:
  assumes "ctx_inv c"
  shows "\<exists>c'. ctx_receive env c = Ret (own_mail env c, c') \<and> ctx_inv c' \<and> own_mail env c' = []
     \<and> kworld c' = kworld c
     \<and> (\<forall>i. i \<noteq> unat (self_id env) \<longrightarrow> mailboxes (kbus c') ! i = mailboxes (kbus c) ! i)"
  using ctx_receive_spec [OF assms, of env] by blast

definition sample_ctx :: "(nat, nat) kctx" where
  "sample_ctx = \<lparr>kbus = sample_bus, kworld = sample_world, kdeferred = \<lparr>commands = [], dc_capacity = 8\<rparr>,
     karena = arena_new 0 64\<rparr>"

lemma sample_ctx_inv: "ctx_inv sample_ctx"
  by (simp add: ctx_inv_def sample_ctx_def sample_bus_inv sample_world_inv deferred_inv_def arena_inv_new)

theorem receive_drains_own_inbox_witness:
  "\<exists>c'. ctx_receive \<lparr>debug_build = True, ctx_names = [''a''], self_id = 0, dt_ns = 0\<rparr> sample_ctx =
       Ret (own_mail \<lparr>debug_build = True, ctx_names = [''a''], self_id = 0, dt_ns = 0\<rparr> sample_ctx, c') \<and> ctx_inv c'"
  using receive_drains_own_inbox [OF sample_ctx_inv] by blast

end
