(* ===== verification/Schedule.thy ===== *)
theory Schedule
  imports Prelude
begin

text \<open>
  The planner of \<open>src/src/kernel/scheduler.rs\<close> and the access sets of \<open>subsystem.rs\<close>: a depth-first
  topological sort with cycle reports, and the grouping of the order into waves. Node \<open>i\<close> is the
  \<open>i\<close>-th registered subsystem and \<open>deps ! i\<close> are the nodes it depends on.
\<close>

section \<open>Topological sort\<close>

text \<open>The three \<open>u8\<close> constants of the source; its \<open>unreachable!\<close> arm has no counterpart.\<close>

datatype color = White | Gray | Black

record dfs =
  color :: "color list"
  stack :: "nat list"
  order :: "nat list"

text \<open>The report of a back edge: the stack from the gray node on, closed with the node again.\<close>

definition cycle_path :: "string list \<Rightarrow> dfs \<Rightarrow> nat \<Rightarrow> string list run" where
  "cycle_path names s dep =
     (case position (\<lambda>n. n = dep) (stack s) of
        None \<Rightarrow> Panic
      | Some pos \<Rightarrow>
          (if list_all (\<lambda>n. n < length names) (drop pos (stack s)) \<and> dep < length names
           then Ret (map (\<lambda>n. names ! n) (drop pos (stack s)) @ [names ! dep])
           else Panic))"

text \<open>The loop over the dependencies of a node; \<open>f\<close> is the recursive call.\<close>

fun visit_list ::
  "(nat \<Rightarrow> dfs \<Rightarrow> (string list + dfs) run) \<Rightarrow> string list \<Rightarrow> nat list \<Rightarrow> dfs \<Rightarrow> (string list + dfs) run"
  where
  "visit_list f names [] s = Ret (Inr s)"
| "visit_list f names (d # ds) s =
     (if d \<ge> length (color s) then Panic
      else case color s ! d of
             White \<Rightarrow> run_bind (f d s) (\<lambda>r. case r of Inl p \<Rightarrow> Ret (Inl p) | Inr s' \<Rightarrow> visit_list f names ds s')
           | Gray \<Rightarrow> run_bind (cycle_path names s d) (\<lambda>p. Ret (Inl p))
           | Black \<Rightarrow> visit_list f names ds s)"

text \<open>
  \<open>visit\<close>, with the depth of the recursion as fuel: each level of recursion colours a white node
  gray, so a depth of one more than the number of nodes is never exhausted (\<open>toposort_spec\<close>).
\<close>

fun visit :: "nat \<Rightarrow> nat list list \<Rightarrow> string list \<Rightarrow> nat \<Rightarrow> dfs \<Rightarrow> (string list + dfs) run" where
  "visit 0 deps names = (\<lambda>node s. Diverges)"
| "visit (Suc n) deps names = (\<lambda>node s.
     if node \<ge> length (color s) \<or> node \<ge> length deps then Panic
     else let s1 = s\<lparr>color := (color s)[node := Gray], stack := stack s @ [node]\<rparr>
          in run_bind (visit_list (visit n deps names) names (deps ! node) s1) (\<lambda>r.
               Ret (case r of Inl p \<Rightarrow> Inl p
                    | Inr s2 \<Rightarrow> Inr (s2\<lparr>color := (color s2)[node := Black],
                                      stack := butlast (stack s2), order := order s2 @ [node]\<rparr>))))"

fun toposort_from :: "nat list list \<Rightarrow> string list \<Rightarrow> nat list \<Rightarrow> dfs \<Rightarrow> (string list + dfs) run" where
  "toposort_from deps names [] s = Ret (Inr s)"
| "toposort_from deps names (start # rest) s =
     (if start \<ge> length (color s) then Panic
      else if color s ! start = White
           then run_bind (visit (Suc (length deps)) deps names start s) (\<lambda>r.
                  case r of Inl p \<Rightarrow> Ret (Inl p) | Inr s' \<Rightarrow> toposort_from deps names rest s')
           else toposort_from deps names rest s)"

definition toposort :: "nat list list \<Rightarrow> string list \<Rightarrow> (string list + nat list) run" where
  "toposort deps names =
     run_bind (toposort_from deps names [0..<length deps]
                 \<lparr>color = replicate (length deps) White, stack = [], order = []\<rparr>)
       (\<lambda>r. Ret (map_sum id order r))"

section \<open>Graphs and orders\<close>

definition graph_closed :: "nat list list \<Rightarrow> bool" where
  "graph_closed deps \<longleftrightarrow> (\<forall>ds\<in>set deps. \<forall>d\<in>set ds. d < length deps)"

definition is_walk :: "nat list list \<Rightarrow> nat list \<Rightarrow> bool" where
  "is_walk deps c \<longleftrightarrow> (\<forall>k. Suc k < length c \<longrightarrow> c ! Suc k \<in> set (deps ! (c ! k)))"

text \<open>A cycle: a walk of at least one edge along dependencies that ends where it starts.\<close>

definition is_cycle :: "nat list list \<Rightarrow> nat list \<Rightarrow> bool" where
  "is_cycle deps c \<longleftrightarrow> 2 \<le> length c \<and> hd c = last c \<and> is_walk deps c \<and> (\<forall>x\<in>set c. x < length deps)"

text \<open>Every node comes after all the nodes it depends on.\<close>

definition deps_first :: "nat list list \<Rightarrow> nat list \<Rightarrow> bool" where
  "deps_first deps xs \<longleftrightarrow> (\<forall>i < length xs. set (deps ! (xs ! i)) \<subseteq> set (take i xs))"

lemma deps_first_snoc:
  "deps_first deps (xs @ [x]) \<longleftrightarrow> deps_first deps xs \<and> set (deps ! x) \<subseteq> set xs"
  by (auto simp: deps_first_def nth_append less_Suc_eq all_conj_distrib)

lemma is_walk_snoc:
  "is_walk deps (xs @ [x]) \<longleftrightarrow> is_walk deps xs \<and> (xs \<noteq> [] \<longrightarrow> x \<in> set (deps ! last xs))"
  by (cases xs rule: rev_cases) (auto simp: is_walk_def nth_append less_Suc_eq all_conj_distrib)

lemma is_walk_drop: "is_walk deps xs \<Longrightarrow> is_walk deps (drop n xs)"
  by (auto simp: is_walk_def)

section \<open>The invariant of the search\<close>

definition colored :: "color \<Rightarrow> color list \<Rightarrow> nat set" where
  "colored c cs = {i. i < length cs \<and> cs ! i = c}"

lemma mem_colored: "i \<in> colored c cs \<longleftrightarrow> i < length cs \<and> cs ! i = c"
  by (simp add: colored_def)

lemma colored_update:
  "i < length cs \<Longrightarrow> colored c (cs[i := c']) = (if c = c' then insert i (colored c cs) else colored c cs - {i})"
  by (auto simp: colored_def nth_list_update split: if_splits)

definition dfs_inv :: "nat list list \<Rightarrow> dfs \<Rightarrow> bool" where
  "dfs_inv deps s \<longleftrightarrow>
     length (color s) = length deps
     \<and> distinct (stack s) \<and> set (stack s) = colored Gray (color s)
     \<and> distinct (order s) \<and> set (order s) = colored Black (color s)
     \<and> deps_first deps (order s) \<and> is_walk deps (stack s)"

definition whites :: "dfs \<Rightarrow> nat set" where
  "whites s = colored White (color s)"

lemma finite_whites [simp]: "finite (whites s)"
  by (simp add: whites_def colored_def)

text \<open>What a successful call leaves alone: the stack, and everything that was already black.\<close>

definition dfs_extends :: "dfs \<Rightarrow> dfs \<Rightarrow> bool" where
  "dfs_extends s s' \<longleftrightarrow>
     stack s' = stack s \<and> set (order s) \<subseteq> set (order s') \<and> whites s' \<subseteq> whites s"

lemma dfs_extends_refl [simp]: "dfs_extends s s"
  by (simp add: dfs_extends_def)

lemma dfs_extends_trans: "dfs_extends s t \<Longrightarrow> dfs_extends t u \<Longrightarrow> dfs_extends s u"
  by (auto simp: dfs_extends_def)

lemma dfs_extends_order: "dfs_extends s s' \<Longrightarrow> d \<in> set (order s) \<Longrightarrow> d \<in> set (order s')"
  by (auto simp: dfs_extends_def)

definition cycle_report :: "nat list list \<Rightarrow> string list \<Rightarrow> string list \<Rightarrow> bool" where
  "cycle_report deps names p \<longleftrightarrow> (\<exists>c. is_cycle deps c \<and> p = map ((!) names) c)"

lemma cycle_path_report:
  assumes inv: "dfs_inv deps s" and names: "length names = length deps"
    and top: "stack s = base @ [node]" and dep: "dep \<in> set (deps ! node)" "dep < length deps"
    and gray: "color s ! dep = Gray"
  shows "\<exists>p. cycle_path names s dep = Ret p \<and> cycle_report deps names p"
proof -
  have mem: "dep \<in> set (stack s)" using inv dep(2) gray by (simp add: dfs_inv_def mem_colored)
  then obtain pos where pos: "position (\<lambda>n. n = dep) (stack s) = Some pos"
    by (cases "position (\<lambda>n. n = dep) (stack s)") (auto simp: position_None)
  then have at: "pos < length (stack s)" "stack s ! pos = dep" by (auto simp: position_Some)
  let ?d = "drop pos (stack s)"
  have lt: "\<forall>n\<in>set (stack s). n < length deps" using inv by (auto simp: dfs_inv_def mem_colored)
  have ne: "?d \<noteq> []" and last: "last ?d = node" using at(1) top by auto
  have hd: "hd ?d = dep" using at by (simp add: hd_drop_conv_nth)
  have "is_walk deps (?d @ [dep])"
    unfolding is_walk_snoc using inv dep(1) last by (simp add: dfs_inv_def is_walk_drop)
  moreover have "\<forall>x\<in>set (?d @ [dep]). x < length deps" using lt dep(2) by (auto dest: in_set_dropD)
  moreover have "2 \<le> length (?d @ [dep])" using at(1) by simp
  moreover have "hd (?d @ [dep]) = last (?d @ [dep])" using hd ne by simp
  ultimately have cyc: "is_cycle deps (?d @ [dep])" unfolding is_cycle_def by blast
  have "list_all (\<lambda>n. n < length names) ?d"
    using lt names by (auto simp: list_all_iff dest: in_set_dropD)
  then have "cycle_path names s dep = Ret (map ((!) names) (?d @ [dep]))"
    using pos dep(2) names by (simp add: cycle_path_def)
  with cyc show ?thesis unfolding cycle_report_def by blast
qed

definition visit_ok :: "nat list list \<Rightarrow> string list \<Rightarrow> (nat \<Rightarrow> dfs \<Rightarrow> (string list + dfs) run) \<Rightarrow> nat \<Rightarrow> bool"
  where
  "visit_ok deps names f k \<longleftrightarrow>
     (\<forall>node s. dfs_inv deps s \<and> node < length deps \<and> color s ! node = White \<and> card (whites s) \<le> k
        \<and> (stack s = [] \<or> node \<in> set (deps ! last (stack s))) \<longrightarrow>
        (\<exists>s'. f node s = Ret (Inr s') \<and> dfs_inv deps s' \<and> dfs_extends s s' \<and> node \<in> set (order s'))
        \<or> (\<exists>p. f node s = Ret (Inl p) \<and> cycle_report deps names p))"

lemma visit_list_spec:
  assumes f: "visit_ok deps names f k" and closed: "graph_closed deps" and names: "length names = length deps"
  shows "dfs_inv deps s \<Longrightarrow> stack s = base @ [node] \<Longrightarrow> node < length deps \<Longrightarrow> set ds \<subseteq> set (deps ! node)
     \<Longrightarrow> card (whites s) \<le> k \<Longrightarrow>
     (\<exists>s'. visit_list f names ds s = Ret (Inr s') \<and> dfs_inv deps s' \<and> dfs_extends s s' \<and> set ds \<subseteq> set (order s'))
     \<or> (\<exists>p. visit_list f names ds s = Ret (Inl p) \<and> cycle_report deps names p)"
proof (induction ds arbitrary: s)
  case (Cons d ds)
  have d: "d \<in> set (deps ! node)" "d < length deps"
    using Cons.prems(3,4) closed by (auto simp: graph_closed_def)
  have len: "length (color s) = length deps" using Cons.prems(1) by (simp add: dfs_inv_def)
  show ?case
  proof (cases "color s ! d")
    case White
    have "(\<exists>s'. f d s = Ret (Inr s') \<and> dfs_inv deps s' \<and> dfs_extends s s' \<and> d \<in> set (order s'))
        \<or> (\<exists>p. f d s = Ret (Inl p) \<and> cycle_report deps names p)"
      using f Cons.prems d White unfolding visit_ok_def by auto
    then show ?thesis
    proof (elim disjE exE conjE)
      fix s1 assume s1: "f d s = Ret (Inr s1)" "dfs_inv deps s1" "dfs_extends s s1" "d \<in> set (order s1)"
      have "card (whites s1) \<le> k"
        using s1(3) Cons.prems(5) card_mono [of "whites s" "whites s1"] by (simp add: dfs_extends_def)
      with Cons.IH [of s1] Cons.prems s1 have
        "(\<exists>s'. visit_list f names ds s1 = Ret (Inr s') \<and> dfs_inv deps s' \<and> dfs_extends s1 s' \<and> set ds \<subseteq> set (order s'))
        \<or> (\<exists>p. visit_list f names ds s1 = Ret (Inl p) \<and> cycle_report deps names p)"
        by (simp add: dfs_extends_def)
      moreover have eq: "visit_list f names (d # ds) s = visit_list f names ds s1"
        using White s1(1) d(2) len by simp
      ultimately show ?thesis
        unfolding eq using dfs_extends_trans [OF s1(3)] dfs_extends_order [OF _ s1(4)] by fastforce
    qed (use White d len in auto)
  next
    case Gray
    with cycle_path_report [OF Cons.prems(1) names Cons.prems(2) d] d len show ?thesis by auto
  next
    case Black
    then have "d \<in> set (order s)" using Cons.prems(1) d by (simp add: dfs_inv_def mem_colored)
    moreover have eq: "visit_list f names (d # ds) s = visit_list f names ds s" using Black d len by simp
    ultimately show ?thesis
      unfolding eq using Cons.IH [of s] Cons.prems by (fastforce dest: dfs_extends_order)
  qed
qed auto

text \<open>Entering a white node and leaving it keep the invariant.\<close>

lemma dfs_enter:
  assumes "dfs_inv deps s" "node < length deps" "color s ! node = White"
    and "stack s = [] \<or> node \<in> set (deps ! last (stack s))"
  defines s1_def: "s1 \<equiv> s\<lparr>color := (color s)[node := Gray], stack := stack s @ [node]\<rparr>"
  shows "dfs_inv deps s1" "whites s1 = whites s - {node}" "node \<in> whites s"
proof -
  have len: "node < length (color s)" using assms(1,2) by (simp add: dfs_inv_def)
  then show w: "node \<in> whites s" using assms(3) by (simp add: whites_def mem_colored)
  show "whites s1 = whites s - {node}" using len by (simp add: whites_def s1_def colored_update)
  have "node \<notin> set (stack s)" "node \<notin> set (order s)"
    using assms(1,3) by (auto simp: dfs_inv_def mem_colored)
  with assms(1,4) len show "dfs_inv deps s1"
    by (simp add: dfs_inv_def s1_def colored_update is_walk_snoc) blast
qed

lemma dfs_leave:
  assumes inv: "dfs_inv deps s2" and node: "node < length deps" and st: "stack s2 = base @ [node]"
    and deps: "set (deps ! node) \<subseteq> set (order s2)"
  defines s3_def: "s3 \<equiv> s2\<lparr>color := (color s2)[node := Black], stack := butlast (stack s2),
                          order := order s2 @ [node]\<rparr>"
  shows "dfs_inv deps s3" "whites s3 = whites s2" "stack s3 = base"
proof -
  have len: "node < length (color s2)" using inv node by (simp add: dfs_inv_def)
  have g: "color s2 ! node = Gray"
    using inv st by (metis dfs_inv_def in_set_conv_decomp mem_colored)
  have "node \<notin> set (order s2)" using inv g by (auto simp: dfs_inv_def mem_colored)
  moreover have "is_walk deps base" "node \<notin> set base" "distinct base"
    using inv st by (simp_all add: dfs_inv_def is_walk_snoc)
  moreover have "set base = colored Gray (color s2) - {node}"
    using inv st \<open>node \<notin> set base\<close> by (simp add: dfs_inv_def) blast
  ultimately show "dfs_inv deps s3"
    using inv st deps len by (simp add: dfs_inv_def s3_def colored_update deps_first_snoc)
  have "node \<notin> whites s2" using g by (simp add: whites_def mem_colored)
  then show "whites s3 = whites s2" using len by (simp add: whites_def s3_def colored_update)
  show "stack s3 = base" by (simp add: s3_def st)
qed

lemma visit_spec:
  assumes closed: "graph_closed deps" and names: "length names = length deps"
  shows "visit_ok deps names (visit k deps names) k"
proof (induction k)
  case 0
  have False if "node < length deps" "color s ! node = White" "card (whites s) \<le> 0" "dfs_inv deps s" for node s
  proof -
    have "node \<in> whites s" using that by (simp add: whites_def mem_colored dfs_inv_def)
    with that(3) show False by (auto simp: card_eq_0_iff)
  qed
  then show ?case by (auto simp: visit_ok_def)
next
  case (Suc k)
  show ?case
    unfolding visit_ok_def
  proof (intro allI impI, elim conjE)
    fix node s
    assume inv: "dfs_inv deps s" and node: "node < length deps" and w: "color s ! node = White"
      and card: "card (whites s) \<le> Suc k" and top: "stack s = [] \<or> node \<in> set (deps ! last (stack s))"
    let ?s1 = "s\<lparr>color := (color s)[node := Gray], stack := stack s @ [node]\<rparr>"
    note enter = dfs_enter [OF inv node w top]
    have "card (whites ?s1) \<le> k" using enter(2,3) card by simp
    then have "(\<exists>s2. visit_list (visit k deps names) names (deps ! node) ?s1 = Ret (Inr s2) \<and> dfs_inv deps s2
          \<and> dfs_extends ?s1 s2 \<and> set (deps ! node) \<subseteq> set (order s2))
        \<or> (\<exists>p. visit_list (visit k deps names) names (deps ! node) ?s1 = Ret (Inl p) \<and> cycle_report deps names p)"
      by (intro visit_list_spec [OF Suc.IH closed names enter(1), of "stack s" node]) (auto simp: node)
    then show "(\<exists>s'. visit (Suc k) deps names node s = Ret (Inr s') \<and> dfs_inv deps s' \<and> dfs_extends s s'
          \<and> node \<in> set (order s'))
        \<or> (\<exists>p. visit (Suc k) deps names node s = Ret (Inl p) \<and> cycle_report deps names p)"
    proof (elim disjE exE conjE)
      fix s2
      assume s2: "visit_list (visit k deps names) names (deps ! node) ?s1 = Ret (Inr s2)" "dfs_inv deps s2"
        "dfs_extends ?s1 s2" "set (deps ! node) \<subseteq> set (order s2)"
      have st: "stack s2 = stack s @ [node]" using s2(3) by (simp add: dfs_extends_def)
      note leave = dfs_leave [OF s2(2) node st s2(4)]
      let ?s3 = "s2\<lparr>color := (color s2)[node := Black], stack := butlast (stack s2), order := order s2 @ [node]\<rparr>"
      have "dfs_extends s ?s3"
        using s2(3) leave(2,3) enter(2) by (auto simp: dfs_extends_def)
      moreover have "visit (Suc k) deps names node s = Ret (Inr ?s3)"
        using s2(1) node inv by (simp add: dfs_inv_def)
      ultimately show ?thesis using leave(1) by auto
    qed (use node inv in \<open>auto simp: dfs_inv_def\<close>)
  qed
qed

lemma toposort_from_spec:
  assumes closed: "graph_closed deps" and names: "length names = length deps"
  shows "dfs_inv deps s \<Longrightarrow> stack s = [] \<Longrightarrow> set ns \<subseteq> {..<length deps} \<Longrightarrow>
     (\<exists>s'. toposort_from deps names ns s = Ret (Inr s') \<and> dfs_inv deps s' \<and> dfs_extends s s' \<and> set ns \<subseteq> set (order s'))
     \<or> (\<exists>p. toposort_from deps names ns s = Ret (Inl p) \<and> cycle_report deps names p)"
proof (induction ns arbitrary: s)
  case (Cons i ns)
  have len: "length (color s) = length deps" and i: "i < length deps"
    using Cons.prems by (auto simp: dfs_inv_def)
  show ?case
  proof (cases "color s ! i = White")
    case True
    have "card (whites s) \<le> card {..<length deps}"
      by (intro card_mono) (auto simp: whites_def mem_colored len)
    then have "(\<exists>s'. visit (Suc (length deps)) deps names i s = Ret (Inr s') \<and> dfs_inv deps s' \<and> dfs_extends s s'
          \<and> i \<in> set (order s'))
        \<or> (\<exists>p. visit (Suc (length deps)) deps names i s = Ret (Inl p) \<and> cycle_report deps names p)"
      using visit_spec [OF closed names, of "Suc (length deps)"] Cons.prems i True
      unfolding visit_ok_def by auto
    then show ?thesis
    proof (elim disjE exE conjE)
      fix s1 assume s1: "visit (Suc (length deps)) deps names i s = Ret (Inr s1)" "dfs_inv deps s1"
        "dfs_extends s s1" "i \<in> set (order s1)"
      have eq: "toposort_from deps names (i # ns) s = toposort_from deps names ns s1"
        using True len i s1(1) by (simp del: visit.simps)
      have "stack s1 = []" using s1(3) Cons.prems(2) by (simp add: dfs_extends_def)
      with Cons.IH [of s1] Cons.prems(3) s1(2) have
        "(\<exists>s'. toposort_from deps names ns s1 = Ret (Inr s') \<and> dfs_inv deps s' \<and> dfs_extends s1 s' \<and> set ns \<subseteq> set (order s'))
        \<or> (\<exists>p. toposort_from deps names ns s1 = Ret (Inl p) \<and> cycle_report deps names p)" by simp
      then show ?thesis
        unfolding eq using dfs_extends_trans [OF s1(3)] dfs_extends_order [OF _ s1(4)] by fastforce
    qed (use True len i in \<open>auto simp del: visit.simps\<close>)
  next
    case False
    moreover have "color s ! i \<noteq> Gray" using Cons.prems(1,2) i by (auto simp: dfs_inv_def colored_def)
    ultimately have "i \<in> set (order s)"
      using Cons.prems(1) i by (cases "color s ! i") (auto simp: dfs_inv_def mem_colored)
    then show ?thesis using Cons.IH [of s] Cons.prems False len i by (fastforce dest: dfs_extends_order)
  qed
qed auto

text \<open>
  On a closed graph \<open>toposort\<close> always returns: either an order of all nodes, dependencies first,
  or the names along a real cycle.
\<close>

lemma toposort_spec:
  assumes closed: "graph_closed deps" and names: "length names = length deps"
  obtains (sorted) xs where "toposort deps names = Ret (Inr xs)" "distinct xs" "set xs = {..<length deps}"
      "deps_first deps xs"
  | (cyclic) c where "toposort deps names = Ret (Inl (map ((!) names) c))" "is_cycle deps c"
proof -
  let ?s = "\<lparr>color = replicate (length deps) White, stack = [], order = []\<rparr>"
  have "dfs_inv deps ?s" by (auto simp: dfs_inv_def deps_first_def is_walk_def colored_def)
  then have "(\<exists>s'. toposort_from deps names [0..<length deps] ?s = Ret (Inr s') \<and> dfs_inv deps s'
        \<and> {..<length deps} \<subseteq> set (order s'))
      \<or> (\<exists>p. toposort_from deps names [0..<length deps] ?s = Ret (Inl p) \<and> cycle_report deps names p)"
    using toposort_from_spec [OF closed names, of ?s "[0..<length deps]"] by (auto simp: atLeast0LessThan)
  then show ?thesis
  proof (elim disjE exE conjE)
    fix s' assume s': "toposort_from deps names [0..<length deps] ?s = Ret (Inr s')" "dfs_inv deps s'"
      "{..<length deps} \<subseteq> set (order s')"
    then show ?thesis by (intro sorted [of "order s'"]) (auto simp: toposort_def dfs_inv_def mem_colored)
  next
    fix p assume "toposort_from deps names [0..<length deps] ?s = Ret (Inl p)" "cycle_report deps names p"
    then show ?thesis using cyclic by (auto simp: toposort_def cycle_report_def)
  qed
qed

text \<open>A deps-first order of all nodes rules out every cycle.\<close>

lemma deps_first_acyclic:
  assumes "deps_first deps xs" "distinct xs" "set xs = {..<length deps}"
  shows "\<not> is_cycle deps c"
proof
  assume c: "is_cycle deps c"
  have "\<exists>i. i < length xs \<and> xs ! i = x" if "x \<in> set c" for x
    using c that assms(3) by (metis in_set_conv_nth is_cycle_def lessThan_iff)
  then obtain pos where pos: "\<And>x. x \<in> set c \<Longrightarrow> pos x < length xs \<and> xs ! pos x = x" by metis
  have down: "pos (c ! Suc k) < pos (c ! k)" if "Suc k < length c" for k
  proof -
    have "c ! k \<in> set c" "c ! Suc k \<in> set c" using that by auto
    moreover have "c ! Suc k \<in> set (deps ! (c ! k))" using c that by (simp add: is_cycle_def is_walk_def)
    ultimately have "c ! Suc k \<in> set (take (pos (c ! k)) xs)"
      using assms(1) pos by (metis deps_first_def subsetD)
    then obtain j where j: "j < pos (c ! k)" "xs ! j = c ! Suc k" "j < length xs"
      by (auto simp: in_set_conv_nth)
    moreover have "pos (c ! Suc k) = j"
      using j pos [OF \<open>c ! Suc k \<in> set c\<close>] assms(2) by (metis nth_eq_iff_index_eq)
    ultimately show ?thesis by simp
  qed
  have "pos (c ! k) + k \<le> pos (c ! 0)" if "k < length c" for k
    using that
  proof (induction k)
    case (Suc k)
    with down [of k] show ?case by simp
  qed simp
  moreover have "c \<noteq> []" using c by (auto simp: is_cycle_def)
  ultimately have "pos (last c) + (length c - 1) \<le> pos (hd c)"
    by (simp add: hd_conv_nth last_conv_nth)
  moreover have "hd c = last c" "2 \<le> length c" using c by (auto simp: is_cycle_def)
  ultimately show False by simp
qed

section \<open>Access sets\<close>

record system_access =
  reads :: "string list"
  writes :: "string list"
  exclusive :: bool

definition exclusive_access :: system_access where
  "exclusive_access = \<lparr>reads = [], writes = [], exclusive = True\<rparr>"

definition read_only :: "string list \<Rightarrow> system_access" where
  "read_only rs = \<lparr>reads = rs, writes = [], exclusive = False\<rparr>"

definition read_write :: "string list \<Rightarrow> string list \<Rightarrow> system_access" where
  "read_write rs ws = \<lparr>reads = rs, writes = ws, exclusive = False\<rparr>"

definition conflicts :: "system_access \<Rightarrow> system_access \<Rightarrow> bool" where
  "conflicts a b \<longleftrightarrow>
     (if exclusive a \<or> exclusive b then True
      else list_ex (\<lambda>k. k \<in> set (reads b) \<or> k \<in> set (writes b)) (writes a)
           \<or> list_ex (\<lambda>k. k \<in> set (reads a)) (writes b))"

lemma conflicts_sym: "conflicts a b = conflicts b a"
  by (auto simp: conflicts_def list_ex_iff)

text \<open>Two systems conflict exactly when one is exclusive or a key is written by one and touched by both.\<close>

lemma conflicts_iff:
  "conflicts a b \<longleftrightarrow> exclusive a \<or> exclusive b
     \<or> (\<exists>k. k \<in> set (writes a) \<and> k \<in> set (reads b) \<union> set (writes b))
     \<or> (\<exists>k. k \<in> set (writes b) \<and> k \<in> set (reads a) \<union> set (writes a))"
  by (auto simp: conflicts_def list_ex_iff)

section \<open>Waves\<close>

definition max_of :: "nat list \<Rightarrow> nat option" where
  "max_of xs = (if xs = [] then None else Some (Max (set xs)))"

text \<open>\<open>deps[node].iter().map(|d| level[d].saturating_add(1)).max().unwrap_or(0)\<close>.\<close>

definition dep_level :: "nat list list \<Rightarrow> nat list \<Rightarrow> nat \<Rightarrow> nat run" where
  "dep_level deps level node =
     (if node \<ge> length deps \<or> \<not> list_all (\<lambda>d. d < length level) (deps ! node) then Panic
      else Ret (case max_of (map (\<lambda>d. sat_add (level ! d) 1) (deps ! node)) of None \<Rightarrow> 0 | Some m \<Rightarrow> m))"

definition set_level :: "nat list \<Rightarrow> nat \<Rightarrow> nat \<Rightarrow> nat list run" where
  "set_level level node l = (if node < length level then Ret (level[node := l]) else Panic)"

text \<open>The distribution of the order over the waves, shared by both planners.\<close>

fun fill_waves :: "nat list \<Rightarrow> nat list \<Rightarrow> nat list list \<Rightarrow> nat list list run" where
  "fill_waves level [] ws = Ret ws"
| "fill_waves level (x # xs) ws =
     (if x < length level \<and> level ! x < length ws
      then fill_waves level xs (ws[level ! x := ws ! (level ! x) @ [x]])
      else Panic)"

definition collect_waves :: "nat list \<Rightarrow> nat list \<Rightarrow> nat list list run" where
  "collect_waves level xs =
     (let count = (case max_of level of None \<Rightarrow> 0 | Some m \<Rightarrow> m + 1)
      in fill_waves level xs (replicate count []))"

definition dependency_waves :: "nat list \<Rightarrow> nat list list \<Rightarrow> nat list list run" where
  "dependency_waves xs deps =
     run_bind (run_fold (\<lambda>node level. run_bind (dep_level deps level node) (set_level level node))
                 xs (replicate (length deps) 0))
       (\<lambda>level. collect_waves level xs)"

text \<open>The inner loop of \<open>access_waves\<close> over the nodes before \<open>node\<close> in the order.\<close>

fun raise_level ::
  "system_access list \<Rightarrow> nat list \<Rightarrow> nat \<Rightarrow> nat list \<Rightarrow> nat \<Rightarrow> nat run" where
  "raise_level acc level node [] l = Ret l"
| "raise_level acc level node (p # ps) l =
     (if node < length acc \<and> p < length acc \<and> p < length level
      then raise_level acc level node ps
             (if conflicts (acc ! node) (acc ! p) then max l (sat_add (level ! p) 1) else l)
      else Panic)"

definition access_level_step ::
  "nat list \<Rightarrow> nat list list \<Rightarrow> system_access list \<Rightarrow> nat \<Rightarrow> nat list \<Rightarrow> nat list run" where
  "access_level_step xs deps acc node level =
     run_bind (dep_level deps level node) (\<lambda>l.
       run_bind (raise_level acc level node (takeWhile (\<lambda>c. c \<noteq> node) xs) l) (set_level level node))"

definition access_waves :: "nat list \<Rightarrow> nat list list \<Rightarrow> system_access list \<Rightarrow> nat list list run" where
  "access_waves xs deps acc =
     (if length deps \<noteq> length acc then Panic
      else run_bind (run_fold (access_level_step xs deps acc) xs (replicate (length deps) 0))
             (\<lambda>level. collect_waves level xs))"

text \<open>\<open>SchedulePlan::build\<close>: the order and its waves, or the names along a cycle.\<close>

record schedule_plan =
  plan_order :: "nat list"
  plan_waves :: "nat list list"

definition plan_build ::
  "nat list list \<Rightarrow> string list \<Rightarrow> system_access list \<Rightarrow> (string list + schedule_plan) run" where
  "plan_build deps names acc =
     run_bind (toposort deps names) (\<lambda>r.
       case r of Inl p \<Rightarrow> Ret (Inl p)
       | Inr xs \<Rightarrow> run_bind (access_waves xs deps acc) (\<lambda>ws.
           Ret (Inr \<lparr>plan_order = xs, plan_waves = ws\<rparr>)))"

section \<open>Properties of the waves\<close>

lemma max_of_ge: "x \<in> set xs \<Longrightarrow> max_of xs = Some m \<Longrightarrow> x \<le> m"
  by (auto simp: max_of_def split: if_splits)

lemma max_of_mem: "max_of xs = Some m \<Longrightarrow> m \<in> set xs"
  by (auto simp: max_of_def split: if_splits)

lemma fill_waves_spec:
  assumes "\<forall>x\<in>set xs. x < length level \<and> level ! x < length ws"
  shows "fill_waves level xs ws =
     Ret (map (\<lambda>k. ws ! k @ filter (\<lambda>x. level ! x = k) xs) [0..<length ws])"
  using assms
proof (induction xs arbitrary: ws)
  case Nil
  then show ?case by (simp add: map_nth)
next
  case (Cons x xs)
  let ?ws = "ws[level ! x := ws ! (level ! x) @ [x]]"
  have "fill_waves level (x # xs) ws = fill_waves level xs ?ws" using Cons.prems by simp
  also have "\<dots> = Ret (map (\<lambda>k. ?ws ! k @ filter (\<lambda>x. level ! x = k) xs) [0..<length ws])"
    using Cons by simp
  also have "map (\<lambda>k. ?ws ! k @ filter (\<lambda>x. level ! x = k) xs) [0..<length ws] =
      map (\<lambda>k. ws ! k @ filter (\<lambda>x. level ! x = k) (x # xs)) [0..<length ws]"
    by (auto simp: nth_list_update)
  finally show ?case .
qed

text \<open>The waves are the order, split by level without loss or reordering.\<close>

lemma collect_waves_spec:
  assumes "\<forall>x\<in>set xs. x < length level"
  obtains n where "collect_waves level xs = Ret (map (\<lambda>k. filter (\<lambda>x. level ! x = k) xs) [0..<n])"
    "\<forall>x\<in>set xs. level ! x < n"
proof -
  let ?n = "case max_of level of None \<Rightarrow> 0 | Some m \<Rightarrow> m + 1"
  have lt: "\<forall>x\<in>set xs. level ! x < ?n"
  proof
    fix x assume "x \<in> set xs"
    then have "level ! x \<in> set level" using assms by simp
    then show "level ! x < ?n"
      by (cases "max_of level") (auto simp: max_of_def dest: max_of_ge split: if_splits)
  qed
  have "collect_waves level xs = Ret (map (\<lambda>k. filter (\<lambda>x. level ! x = k) xs) [0..<?n])"
    unfolding collect_waves_def Let_def
    by (subst fill_waves_spec) (use assms lt in auto)
  with lt show ?thesis by (rule that [rotated])
qed

text \<open>The levels of the nodes already placed.\<close>

definition level_ok :: "nat list list \<Rightarrow> system_access list \<Rightarrow> nat list \<Rightarrow> nat list \<Rightarrow> bool" where
  "level_ok deps acc ys level \<longleftrightarrow>
     length level = length deps
     \<and> (\<forall>i < length ys. level ! (ys ! i) \<le> i)
     \<and> (\<forall>x\<in>set ys. \<forall>d\<in>set (deps ! x). level ! d < level ! x)
     \<and> (\<forall>i j. i < j \<and> j < length ys \<and> conflicts (acc ! (ys ! j)) (acc ! (ys ! i)) \<longrightarrow>
          level ! (ys ! i) < level ! (ys ! j))"

lemma sat_add_exact: "n < usize_max \<Longrightarrow> sat_add n 1 = Suc n"
  by (simp add: sat_add_def)

lemma dep_level_spec:
  assumes "x < length deps" "\<forall>d\<in>set (deps ! x). d < length level \<and> level ! d < b" "b \<le> usize_max"
  obtains l where "dep_level deps level x = Ret l" "l \<le> b" "\<forall>d\<in>set (deps ! x). level ! d < l"
proof -
  let ?m = "max_of (map (\<lambda>d. sat_add (level ! d) 1) (deps ! x))"
  have sat: "sat_add (level ! d) 1 = Suc (level ! d)" if "d \<in> set (deps ! x)" for d
    using assms(2,3) that by (intro sat_add_exact) force
  let ?l = "case ?m of None \<Rightarrow> 0 | Some m \<Rightarrow> m"
  have "dep_level deps level x = Ret ?l" using assms by (auto simp: dep_level_def list_all_iff)
  moreover have "?l \<le> b"
  proof (cases ?m)
    case (Some m)
    then obtain d where "d \<in> set (deps ! x)" "m = sat_add (level ! d) 1" using max_of_mem by fastforce
    then show ?thesis using Some sat assms(2) by (auto simp: Suc_le_eq)
  qed simp
  moreover have "level ! d < ?l" if "d \<in> set (deps ! x)" for d
  proof (cases ?m)
    case None
    with that show ?thesis by (auto simp: max_of_def split: if_splits)
  next
    case (Some m)
    then have "sat_add (level ! d) 1 \<le> m" using that by (intro max_of_ge [OF _ Some]) auto
    then show ?thesis using Some sat [OF that] by simp
  qed
  ultimately show ?thesis using that by blast
qed

lemma raise_level_spec:
  assumes "x < length acc" "\<forall>p\<in>set ps. p < length acc \<and> p < length level \<and> level ! p < b"
    and "l \<le> b" "b \<le> usize_max"
  shows "\<exists>l'. raise_level acc level x ps l = Ret l' \<and> l \<le> l' \<and> l' \<le> b
     \<and> (\<forall>p\<in>set ps. conflicts (acc ! x) (acc ! p) \<longrightarrow> level ! p < l')"
  using assms
proof (induction ps arbitrary: l)
  case (Cons p ps)
  have sat: "sat_add (level ! p) 1 = Suc (level ! p)" using Cons.prems(2,4) by (intro sat_add_exact) force
  let ?l = "if conflicts (acc ! x) (acc ! p) then max l (sat_add (level ! p) 1) else l"
  have "?l \<le> b" using Cons.prems(2,3) sat by auto
  with Cons.IH [of ?l] Cons.prems obtain l' where l': "raise_level acc level x ps ?l = Ret l'" "?l \<le> l'" "l' \<le> b"
    "\<forall>p\<in>set ps. conflicts (acc ! x) (acc ! p) \<longrightarrow> level ! p < l'" by auto
  moreover have "raise_level acc level x (p # ps) l = raise_level acc level x ps ?l"
    using Cons.prems(1,2) by simp
  ultimately show ?case using sat by (auto split: if_splits)
qed auto

lemma takeWhile_distinct: "distinct (ys @ x # zs) \<Longrightarrow> takeWhile (\<lambda>c. c \<noteq> x) (ys @ x # zs) = ys"
  by (induction ys) auto

lemma access_level_step_spec:
  assumes ok: "level_ok deps acc ys level" and xs: "xs = ys @ x # zs" "distinct xs" "set xs \<subseteq> {..<length deps}"
    and dx: "set (deps ! x) \<subseteq> set ys" and len: "length acc = length deps" "length deps \<le> usize_max"
    and dys: "\<forall>y\<in>set ys. set (deps ! y) \<subseteq> set ys"
  shows "\<exists>level'. access_level_step xs deps acc x level = Ret level' \<and> level_ok deps acc (ys @ [x]) level'"
proof -
  let ?b = "length ys"
  have "card (set ys) \<le> card {..<length deps}" using xs by (intro card_mono) auto
  moreover have "distinct ys" using xs by simp
  ultimately have b: "?b \<le> usize_max" using len by (simp add: distinct_card)
  have x: "x < length deps" "x \<notin> set ys" using xs by auto
  have lv: "p < length level \<and> level ! p < ?b" if p: "p \<in> set ys" for p
  proof -
    obtain i where "i < length ys" "ys ! i = p" using p by (auto simp: in_set_conv_nth)
    moreover have "p < length level" using p xs ok by (auto simp: level_ok_def)
    ultimately show ?thesis using ok by (auto simp: level_ok_def)
  qed
  obtain l where l: "dep_level deps level x = Ret l" "l \<le> ?b" "\<forall>d\<in>set (deps ! x). level ! d < l"
    using dep_level_spec [OF x(1) _ b, of level] lv dx by blast
  have "\<forall>p\<in>set ys. p < length acc \<and> p < length level \<and> level ! p < ?b"
    using lv xs len by auto
  with raise_level_spec [of x acc ys level ?b l] x len l(2) b obtain l' where
    l': "raise_level acc level x ys l = Ret l'" "l \<le> l'" "l' \<le> ?b"
    "\<forall>p\<in>set ys. conflicts (acc ! x) (acc ! p) \<longrightarrow> level ! p < l'" by auto
  have tw: "takeWhile (\<lambda>c. c \<noteq> x) xs = ys" using takeWhile_distinct [of ys x zs] xs(1,2) by simp
  have ll: "length level = length deps" using ok by (simp add: level_ok_def)
  have "access_level_step xs deps acc x level = Ret (level[x := l'])"
    using l(1) l'(1) x(1) by (simp add: access_level_step_def tw set_level_def ll)
  moreover have "level_ok deps acc (ys @ [x]) (level[x := l'])"
  proof -
    have same: "level[x := l'] ! y = level ! y" if "y \<in> set ys" for y using that x(2) by (metis nth_list_update_neq)
    have new: "level[x := l'] ! x = l'" using x(1) ll by simp
    show ?thesis
      unfolding level_ok_def
    proof (intro conjI allI impI ballI)
      fix i assume "i < length (ys @ [x])"
      then show "level[x := l'] ! ((ys @ [x]) ! i) \<le> i"
        using ok new l'(3) same [of "ys ! i"] by (cases "i = ?b") (auto simp: level_ok_def nth_append)
    next
      fix y d assume y: "y \<in> set (ys @ [x])" and d: "d \<in> set (deps ! y)"
      show "level[x := l'] ! d < level[x := l'] ! y"
      proof (cases "y = x")
        case True
        then have "d \<in> set ys" "level ! d < l" using d dx l(3) by auto
        then show ?thesis using True same new l'(2) by simp
      next
        case False
        then have "y \<in> set ys" "d \<in> set ys" using y d dys by auto
        then show ?thesis using same d ok by (simp add: level_ok_def)
      qed
    next
      fix i j assume ij: "i < j \<and> j < length (ys @ [x]) \<and> conflicts (acc ! ((ys @ [x]) ! j)) (acc ! ((ys @ [x]) ! i))"
      then have i: "(ys @ [x]) ! i = ys ! i" "ys ! i \<in> set ys" by (auto simp: nth_append)
      show "level[x := l'] ! ((ys @ [x]) ! i) < level[x := l'] ! ((ys @ [x]) ! j)"
      proof (cases "j = ?b")
        case True
        then show ?thesis using ij i l'(4) same new by (auto simp: nth_append)
      next
        case False
        then have j: "(ys @ [x]) ! j = ys ! j" "ys ! j \<in> set ys" "j < ?b" using ij by (auto simp: nth_append)
        then show ?thesis using ij i ok same by (auto simp: level_ok_def)
      qed
    qed (use ll in simp)
  qed
  ultimately show ?thesis by blast
qed

lemma access_levels_spec:
  assumes xs: "distinct xs" "set xs \<subseteq> {..<length deps}" "deps_first deps xs"
    and len: "length acc = length deps" "length deps \<le> usize_max"
    and split: "xs = ys @ zs" and ok: "level_ok deps acc ys level"
  shows "\<exists>level'. run_fold (access_level_step xs deps acc) zs level = Ret level' \<and> level_ok deps acc xs level'"
  using split ok
proof (induction zs arbitrary: ys level)
  case (Cons x zs)
  have take: "take i xs = take i ys" if "i \<le> length ys" for i using that Cons.prems(1) by simp
  have at: "xs ! length ys = x" using Cons.prems(1) by simp
  have dx: "set (deps ! x) \<subseteq> set ys"
    using xs(3) Cons.prems(1) take [of "length ys"] at unfolding deps_first_def
    by (metis append_eq_conv_conj length_append length_Cons less_add_same_cancel1 zero_less_Suc)
  have dys: "\<forall>y\<in>set ys. set (deps ! y) \<subseteq> set ys"
  proof
    fix y assume "y \<in> set ys"
    then obtain i where i: "i < length ys" "ys ! i = y" by (auto simp: in_set_conv_nth)
    then have "i < length xs" "xs ! i = y" using Cons.prems(1) by (auto simp: nth_append)
    then have "set (deps ! y) \<subseteq> set (take i xs)" using xs(3) unfolding deps_first_def by metis
    then show "set (deps ! y) \<subseteq> set ys" using take [of i] i set_take_subset by fastforce
  qed
  obtain l1 where "access_level_step xs deps acc x level = Ret l1" "level_ok deps acc (ys @ [x]) l1"
    using access_level_step_spec [OF Cons.prems(2,1) xs(1,2) dx len dys] by blast
  with Cons.IH [of "ys @ [x]" l1] Cons.prems(1) show ?case by simp
qed auto

text \<open>
  The plan of a deps-first order: the waves partition it in order, every dependency lies in an
  earlier wave, and of two conflicting systems the one that comes first lies in an earlier wave.
\<close>

definition waves_of :: "nat list \<Rightarrow> (nat \<Rightarrow> nat) \<Rightarrow> nat list list \<Rightarrow> bool" where
  "waves_of xs wave ws \<longleftrightarrow>
     ws = map (\<lambda>k. filter (\<lambda>x. wave x = k) xs) [0..<length ws] \<and> (\<forall>x\<in>set xs. wave x < length ws)"

lemma access_waves_spec:
  assumes xs: "distinct xs" "set xs \<subseteq> {..<length deps}" "deps_first deps xs"
    and len: "length acc = length deps" "length deps \<le> usize_max"
  obtains wave ws where "access_waves xs deps acc = Ret ws" "waves_of xs wave ws"
    "\<And>x d. x \<in> set xs \<Longrightarrow> d \<in> set (deps ! x) \<Longrightarrow> wave d < wave x"
    "\<And>i j. i < j \<Longrightarrow> j < length xs \<Longrightarrow> conflicts (acc ! (xs ! j)) (acc ! (xs ! i)) \<Longrightarrow> wave (xs ! i) < wave (xs ! j)"
proof -
  have "level_ok deps acc [] (replicate (length deps) 0)" by (simp add: level_ok_def)
  with access_levels_spec [OF xs len, of "[]" xs] obtain level where
    l: "run_fold (access_level_step xs deps acc) xs (replicate (length deps) 0) = Ret level"
    "level_ok deps acc xs level" by auto
  have "\<forall>x\<in>set xs. x < length level" using xs(2) l(2) by (auto simp: level_ok_def)
  then obtain n where n: "collect_waves level xs = Ret (map (\<lambda>k. filter (\<lambda>x. level ! x = k) xs) [0..<n])"
    "\<forall>x\<in>set xs. level ! x < n" by (rule collect_waves_spec)
  show ?thesis
  proof (rule that [of "map (\<lambda>k. filter (\<lambda>x. level ! x = k) xs) [0..<n]" "(!) level"])
    show "access_waves xs deps acc = Ret (map (\<lambda>k. filter (\<lambda>x. level ! x = k) xs) [0..<n])"
      using len l(1) n(1) by (simp add: access_waves_def)
    show "waves_of xs ((!) level) (map (\<lambda>k. filter (\<lambda>x. level ! x = k) xs) [0..<n])"
      using n(2) by (simp add: waves_of_def)
  qed (use l(2) in \<open>auto simp: level_ok_def\<close>)
qed

text \<open>\<open>dependency_waves\<close> is \<open>access_waves\<close> for systems that touch nothing.\<close>

lemma raise_level_no_conflict:
  assumes "x < length acc" "\<forall>p\<in>set ps. p < length acc \<and> p < length level"
    and "\<forall>p\<in>set ps. \<not> conflicts (acc ! x) (acc ! p)"
  shows "raise_level acc level x ps l = Ret l"
  using assms by (induction ps) auto

lemma dependency_waves_access:
  assumes "set xs \<subseteq> {..<length deps}"
  shows "dependency_waves xs deps = access_waves xs deps (replicate (length deps) (read_only []))"
proof -
  let ?acc = "replicate (length deps) (read_only [])"
  have none: "\<not> conflicts (?acc ! i) (?acc ! j)" if "i < length deps" "j < length deps" for i j
    using that by (simp add: conflicts_def read_only_def list_ex_iff)
  have step: "access_level_step xs deps ?acc x level = run_bind (dep_level deps level x) (set_level level x)"
    if "x \<in> set xs" "length level = length deps" for x level
  proof -
    have "raise_level ?acc level x (takeWhile (\<lambda>c. c \<noteq> x) xs) l = Ret l" for l
    proof (rule raise_level_no_conflict)
      have "p < length deps" if "p \<in> set (takeWhile (\<lambda>c. c \<noteq> x) xs)" for p
        using assms that by (auto dest: set_takeWhileD)
      moreover have "x < length deps" using assms that(1) by auto
      ultimately show "\<forall>p\<in>set (takeWhile (\<lambda>c. c \<noteq> x) xs). \<not> conflicts (?acc ! x) (?acc ! p)"
        "x < length ?acc" "\<forall>p\<in>set (takeWhile (\<lambda>c. c \<noteq> x) xs). p < length ?acc \<and> p < length level"
        using none that(2) by simp_all
    qed
    then show ?thesis by (simp add: access_level_step_def)
  qed
  have keep: "length level' = length level"
    if "run_bind (dep_level deps level x) (set_level level x) = Ret level'" for x level level'
    using that by (auto simp: run_bind_Ret_iff set_level_def split: if_splits)
  have "run_fold (\<lambda>node level. run_bind (dep_level deps level node) (set_level level node)) zs level =
      run_fold (access_level_step xs deps ?acc) zs level"
    if "set zs \<subseteq> set xs" "length level = length deps" for zs level
    using that
  proof (induction zs arbitrary: level)
    case (Cons x zs)
    then show ?case using step [of x level] keep [of level x]
      by (cases "run_bind (dep_level deps level x) (set_level level x)") auto
  qed simp
  then show ?thesis by (simp add: dependency_waves_def access_waves_def)
qed

section \<open>Correctness of the schedule\<close>

text \<open>
  C8: \<open>toposort\<close> is total and exact. On any dependency graph that \<open>resolve_dependencies\<close> can produce it
  returns; it returns an order exactly when the graph has no cycle, the order then lists every
  subsystem once with its dependencies first; otherwise it returns the names along a real cycle.
\<close>

theorem toposort_exact:
  assumes closed: "graph_closed deps" and names: "length names = length deps"
  shows "(\<exists>xs. toposort deps names = Ret (Inr xs) \<and> distinct xs \<and> set xs = {..<length deps}
            \<and> deps_first deps xs \<and> (\<nexists>c. is_cycle deps c))
     \<or> (\<exists>c. toposort deps names = Ret (Inl (map ((!) names) c)) \<and> is_cycle deps c)"
  using closed names
proof (cases rule: toposort_spec)
  case (sorted xs)
  then show ?thesis using deps_first_acyclic [OF sorted(4,2,3)] by blast
qed blast

theorem toposort_exact_witness:
  "(\<exists>xs. toposort [[2], [0], []] [''a'', ''b'', ''c''] = Ret (Inr xs) \<and> distinct xs \<and> set xs = {..<3}
        \<and> deps_first [[2], [0], []] xs \<and> (\<nexists>c. is_cycle [[2], [0], []] c))
   \<or> (\<exists>c. toposort [[2], [0], []] [''a'', ''b'', ''c''] = Ret (Inl (map ((!) [''a'', ''b'', ''c'']) c)) \<and> is_cycle [[2], [0], []] c)"
  using toposort_exact [of "[[2], [0], []]" "[''a'', ''b'', ''c'']"] by (simp add: graph_closed_def numeral_3_eq_3)

text \<open>
  C9: The waves are safe to run in parallel. For an order with dependencies first, \<open>access_waves\<close>
  returns a partition of the order, each wave in that order, in which a subsystem is in a later wave than
  every subsystem it depends on, and of two subsystems whose declared accesses conflict the one that
  comes later in the order is in a later wave; so no two subsystems of one wave depend on each other
  or conflict.
\<close>

theorem waves_are_independent:
  assumes xs: "distinct xs" "set xs \<subseteq> {..<length deps}" "deps_first deps xs"
    and len: "length acc = length deps" "length deps \<le> usize_max"
  shows "\<exists>wave ws. access_waves xs deps acc = Ret ws \<and> waves_of xs wave ws
     \<and> (\<forall>x\<in>set xs. \<forall>d\<in>set (deps ! x). wave d < wave x)
     \<and> (\<forall>i j. i < j \<and> j < length xs \<and> conflicts (acc ! (xs ! j)) (acc ! (xs ! i)) \<longrightarrow> wave (xs ! i) < wave (xs ! j))"
  using access_waves_spec [OF assms] by metis

theorem waves_are_independent_witness:
  "\<exists>wave ws. access_waves [0, 1, 2] [[], [], [0]] [read_only [''p''], read_only [''p''], read_write [] [''p'']] = Ret ws
     \<and> waves_of [0, 1, 2] wave ws \<and> (\<forall>x\<in>set [0, 1, 2]. \<forall>d\<in>set ([[], [], [0]] ! x). wave d < wave x)
     \<and> (\<forall>i j. i < j \<and> j < length [0 :: nat, 1, 2] \<and>
          conflicts ([read_only [''p''], read_only [''p''], read_write [] [''p'']] ! ([0, 1, 2] ! j))
            ([read_only [''p''], read_only [''p''], read_write [] [''p'']] ! ([0, 1, 2] ! i))
          \<longrightarrow> wave ([0, 1, 2] ! i) < wave ([0, 1, 2] ! j))"
  by (rule waves_are_independent) (auto simp: deps_first_def less_Suc_eq usize_max_def)

text \<open>
  Two systems conflict exactly when one of them is exclusive or one writes what the other reads
  or writes; the relation is symmetric.
\<close>

theorem conflicts_exact:
  "(conflicts a b \<longleftrightarrow> exclusive a \<or> exclusive b
     \<or> (\<exists>k. k \<in> set (writes a) \<and> k \<in> set (reads b) \<union> set (writes b))
     \<or> (\<exists>k. k \<in> set (writes b) \<and> k \<in> set (reads a) \<union> set (writes a)))
   \<and> conflicts a b = conflicts b a"
  using conflicts_iff conflicts_sym by blast

text \<open>
  \<open>dependency_waves\<close> is the access planner for systems that only read: both give the same waves.
\<close>

theorem dependency_waves_are_access_waves:
  assumes "set xs \<subseteq> {..<length deps}"
  shows "dependency_waves xs deps = access_waves xs deps (replicate (length deps) (read_only []))"
  by (rule dependency_waves_access [OF assms])

theorem dependency_waves_are_access_waves_witness:
  "dependency_waves [0, 1] [[], [0]] = access_waves [0, 1] [[], [0]] (replicate 2 (read_only []))"
  using dependency_waves_are_access_waves [of "[0, 1]" "[[], [0]]"] by (simp add: numeral_2_eq_2)

end
