(* ===== verification/Tracer.thy ===== *)
theory Tracer
  imports Ring
begin

text \<open>
  \<open>src/src/kernel/trace/frame_tracer.rs\<close> and \<open>contention.rs\<close>: samples go into a ring that never
  blocks; at the flush interval the ring is drained into a report. Time is a number of
  nanoseconds; \<open>duration_since\<close> saturates at zero. The line printed by \<open>flush\<close> is not modelled.
\<close>

section \<open>The frame tracer\<close>

record trace_sample =
  subsystem_idx :: u32
  sample_frame :: u64
  duration_ns :: u64
  budget_ns :: u64
  over_budget :: bool

record budget_report =
  samples :: u64
  over_count :: u64
  report_dropped :: u64

definition within_budget :: "budget_report \<Rightarrow> bool" where
  "within_budget r \<longleftrightarrow> over_count r = 0 \<and> report_dropped r = 0"

record frame_tracer =
  tlog :: "trace_sample ring"
  dropped :: u64
  flush_interval :: nat
  last_flush :: nat
  last_report :: budget_report

definition tracer_new :: "trace_sample ring \<Rightarrow> nat \<Rightarrow> nat \<Rightarrow> frame_tracer" where
  "tracer_new lg interval now =
     \<lparr>tlog = lg, dropped = 0, flush_interval = interval, last_flush = now,
      last_report = \<lparr>samples = 0, over_count = 0, report_dropped = 0\<rparr>\<rparr>"

text \<open>\<open>self.dropped += 1\<close> panics on overflow in a build with overflow checks.\<close>

definition tracer_record :: "frame_tracer \<Rightarrow> trace_sample \<Rightarrow> frame_tracer run" where
  "tracer_record t s =
     run_bind (ring_push (tlog t) s) (\<lambda>(r, lg).
       (let t1 = t\<lparr>tlog := lg\<rparr>
        in case r of
             Inr _ \<Rightarrow> Ret t1
           | Inl _ \<Rightarrow> (case wchecked_add (dropped t) 1 of
                         None \<Rightarrow> Panic | Some d \<Rightarrow> Ret (t1\<lparr>dropped := d\<rparr>))))"

text \<open>
  The drain loop: the totals are samples, samples over budget, longest duration and its
  subsystem. It ends because each turn pops a sample; the model counts turns.
\<close>

fun drain_log ::
  "nat \<Rightarrow> trace_sample ring \<Rightarrow> u64 \<times> u64 \<times> u64 \<times> u32 \<Rightarrow> ((u64 \<times> u64 \<times> u64 \<times> u32) \<times> trace_sample ring) run"
  where
  "drain_log 0 lg acc = Diverges"
| "drain_log (Suc n) lg (cnt, over, max_dur, max_idx) =
     run_bind (ring_pop lg) (\<lambda>(r, lg').
       case r of
         None \<Rightarrow> Ret ((cnt, over, max_dur, max_idx), lg')
       | Some s \<Rightarrow>
          drain_log n lg'
            (cnt + 1, (if over_budget s then over + 1 else over),
             (if duration_ns s > max_dur then duration_ns s else max_dur),
             (if duration_ns s > max_dur then subsystem_idx s else max_idx)))"

definition tracer_flush :: "frame_tracer \<Rightarrow> nat \<Rightarrow> frame_tracer run" where
  "tracer_flush t now =
     run_bind (drain_log (Suc (unat (ring_len (tlog t)))) (tlog t) (0, 0, 0, - 1))
       (\<lambda>((cnt, over, _, _), lg).
          Ret (t\<lparr>tlog := lg,
                 last_report := \<lparr>samples = cnt, over_count = over, report_dropped = dropped t\<rparr>,
                 dropped := 0, last_flush := now\<rparr>))"

definition tracer_frame :: "frame_tracer \<Rightarrow> nat \<Rightarrow> frame_tracer run" where
  "tracer_frame t now =
     (if now - last_flush t \<ge> flush_interval t then tracer_flush t now else Ret t)"

definition tracer_inv :: "frame_tracer \<Rightarrow> bool" where
  "tracer_inv t \<longleftrightarrow> ring_inv (tlog t)"

lemma drain_log_spec:
  assumes "ring_inv lg" "length (ring_items lg) < n"
  shows "\<exists>md mi lg'. drain_log n lg (cnt, over, max_dur, max_idx) =
     Ret ((cnt + of_nat (length (ring_items lg)),
           over + of_nat (length (filter over_budget (ring_items lg))), md, mi), lg')
     \<and> ring_inv lg' \<and> ring_items lg' = [] \<and> ring_cap lg' = ring_cap lg
     \<and> (\<forall>s\<in>set (ring_items lg). duration_ns s \<le> md) \<and> max_dur \<le> md"
  using assms
proof (induction n arbitrary: lg cnt over max_dur max_idx)
  case (Suc n)
  show ?case
  proof (cases "ring_items lg")
    case Nil
    then show ?thesis using spsc.deq_empty [OF Suc.prems(1) Nil] Suc.prems(1) by simp
  next
    case (Cons s ss)
    obtain log1 where l1: "ring_pop lg = Ret (Some s, log1)" "ring_inv log1" "ring_items log1 = ss"
      "ring_cap log1 = ring_cap lg" using spsc.deq_ok [OF Suc.prems(1) Cons] by blast
    let ?md = "if duration_ns s > max_dur then duration_ns s else max_dur"
    have "length (ring_items log1) < n" using Suc.prems(2) Cons l1(3) by simp
    from Suc.IH [OF l1(2) this, of "cnt + 1" "if over_budget s then over + 1 else over" ?md
        "if duration_ns s > max_dur then subsystem_idx s else max_idx"]
    obtain md mi lg' where "drain_log n log1 (cnt + 1, (if over_budget s then over + 1 else over), ?md,
          (if duration_ns s > max_dur then subsystem_idx s else max_idx)) =
        Ret ((cnt + 1 + of_nat (length ss), (if over_budget s then over + 1 else over) +
           of_nat (length (filter over_budget ss)), md, mi), lg')"
      "ring_inv lg'" "ring_items lg' = []" "ring_cap lg' = ring_cap log1"
      "\<forall>s\<in>set ss. duration_ns s \<le> md" "?md \<le> md" unfolding l1(3) by blast
    then show ?thesis using Cons l1 by (auto simp: algebra_simps split: if_splits)
  qed
qed simp

text \<open>A flush empties the ring and reports what was in it.\<close>

lemma tracer_flush_spec:
  assumes "tracer_inv t"
  obtains t' where "tracer_flush t now = Ret t'" "tracer_inv t'" "ring_items (tlog t') = []"
    "samples (last_report t') = of_nat (length (ring_items (tlog t)))"
    "over_count (last_report t') = of_nat (length (filter over_budget (ring_items (tlog t))))"
    "report_dropped (last_report t') = dropped t" "dropped t' = 0" "last_flush t' = now"
    "ring_cap (tlog t') = ring_cap (tlog t)" "flush_interval t' = flush_interval t"
proof -
  have "length (ring_items (tlog t)) < Suc (unat (ring_len (tlog t)))" by (simp add: ring_len_def)
  from drain_log_spec [OF assms [unfolded tracer_inv_def] this, of 0 0 0 "- 1"] obtain md mi lg' where
    "drain_log (Suc (unat (ring_len (tlog t)))) (tlog t) (0, 0, 0, - 1) =
       Ret ((of_nat (length (ring_items (tlog t))), of_nat (length (filter over_budget (ring_items (tlog t)))),
             md, mi), lg')"
    "ring_inv lg'" "ring_items lg' = []" "ring_cap lg' = ring_cap (tlog t)" by auto
  then show ?thesis
    by (intro that [of "t\<lparr>tlog := lg',
        last_report := \<lparr>samples = of_nat (length (ring_items (tlog t))),
          over_count = of_nat (length (filter over_budget (ring_items (tlog t)))), report_dropped = dropped t\<rparr>,
        dropped := 0, last_flush := now\<rparr>"])
      (simp_all add: tracer_flush_def tracer_inv_def del: drain_log.simps)
qed

text \<open>No sample is lost unnoticed: what is not in the ring is in the dropped count.\<close>

lemma tracer_record_spec:
  assumes inv: "tracer_inv t" and d: "unat (dropped t) < 2 ^ 64 - 1"
  obtains t' where "tracer_record t s = Ret t'" "tracer_inv t'"
    "length (ring_items (tlog t')) + unat (dropped t') = length (ring_items (tlog t)) + unat (dropped t) + 1"
    "unat (dropped t') \<le> unat (dropped t) + 1"
    "last_report t' = last_report t" "last_flush t' = last_flush t"
proof (cases "length (ring_items (tlog t)) < ring_cap (tlog t)")
  case True
  have ri: "ring_inv (tlog t)" using inv by (simp add: tracer_inv_def)
  obtain l where l: "ring_push (tlog t) s = Ret (Inr (), l)" "ring_inv l"
    "ring_items l = ring_items (tlog t) @ [s]" using spsc.enq_ok [OF ri True] by blast
  then have "length (ring_items l) = length (ring_items (tlog t)) + 1" by (simp del: length_ring_items)
  with l show ?thesis
    by - (rule that [of "t\<lparr>tlog := l\<rparr>"], simp_all add: tracer_record_def tracer_inv_def)
next
  case False
  have ri: "ring_inv (tlog t)" using inv by (simp add: tracer_inv_def)
  have "ring_push (tlog t) s = Ret (Inl s, tlog t)"
    using False spsc.items_le [OF ri] by (intro spsc.enq_full [OF ri]) simp
  moreover have "unat (dropped t + 1) = unat (dropped t) + 1" using d by (simp add: unat_word_ariths)
  ultimately show ?thesis
    using ri d by - (rule that [of "t\<lparr>dropped := dropped t + 1\<rparr>"],
      simp_all add: tracer_record_def tracer_inv_def wchecked_add_def)
qed

lemma tracer_records_spec:
  assumes "tracer_inv t" "unat (dropped t) + length ss < 2 ^ 64"
  shows "\<exists>t'. run_fold (\<lambda>s t. tracer_record t s) ss t = Ret t' \<and> tracer_inv t' \<and>
     length (ring_items (tlog t')) + unat (dropped t') = length (ring_items (tlog t)) + unat (dropped t) + length ss"
  using assms
proof (induction ss arbitrary: t)
  case (Cons s ss)
  then obtain t1 where t1: "tracer_record t s = Ret t1" "tracer_inv t1"
    "length (ring_items (tlog t1)) + unat (dropped t1) = length (ring_items (tlog t)) + unat (dropped t) + 1"
    "unat (dropped t1) \<le> unat (dropped t) + 1"
    using tracer_record_spec [OF Cons.prems(1), of s] by auto
  moreover have "unat (dropped t1) + length ss < 2 ^ 64" using t1(4) Cons.prems(2) by simp
  ultimately show ?case using Cons.IH [of t1] by (auto simp del: length_ring_items)
qed auto

lemma tracer_frame_inv:
  assumes "tracer_inv t"
  shows "\<exists>t'. tracer_frame t now = Ret t' \<and> tracer_inv t' \<and> unat (dropped t') \<le> unat (dropped t)"
proof (cases "now - last_flush t \<ge> flush_interval t")
  case True
  obtain t' where "tracer_flush t now = Ret t'" "tracer_inv t'" "dropped t' = 0"
    using tracer_flush_spec [OF assms, of now] by blast
  with True show ?thesis by (simp add: tracer_frame_def)
next
  case False
  with assms show ?thesis by (simp add: tracer_frame_def)
qed

section \<open>Properties\<close>

text \<open>
  No sample is lost unnoticed. Recording any number of samples since the last flush and then
  flushing returns, and the report says how many samples were kept, how many of these were over
  budget, and how many were dropped; kept and dropped add up to the number recorded, and the tracer
  starts the next window empty.
\<close>

theorem trace_window_accounts:
  assumes inv: "tracer_inv t" and start: "ring_items (tlog t) = []" "dropped t = 0" and n: "length ss < 2 ^ 64"
  shows "\<exists>t1 t2. run_fold (\<lambda>s t. tracer_record t s) ss t = Ret t1 \<and> tracer_flush t1 now = Ret t2 \<and> tracer_inv t2
     \<and> unat (samples (last_report t2)) + unat (report_dropped (last_report t2)) = length ss
     \<and> over_count (last_report t2) = of_nat (length (filter over_budget (ring_items (tlog t1))))
     \<and> ring_items (tlog t2) = [] \<and> dropped t2 = 0 \<and> last_flush t2 = now"
proof -
  obtain t1 where t1: "run_fold (\<lambda>s t. tracer_record t s) ss t = Ret t1" "tracer_inv t1"
    "length (ring_items (tlog t1)) + unat (dropped t1) = length ss"
    using tracer_records_spec [OF inv, of ss] n start by (auto simp del: length_ring_items)
  obtain t2 where t2: "tracer_flush t1 now = Ret t2" "tracer_inv t2" "ring_items (tlog t2) = []"
    "samples (last_report t2) = of_nat (length (ring_items (tlog t1)))"
    "over_count (last_report t2) = of_nat (length (filter over_budget (ring_items (tlog t1))))"
    "report_dropped (last_report t2) = dropped t1" "dropped t2 = 0" "last_flush t2 = now"
    using tracer_flush_spec [OF t1(2), of now] by metis
  have "length (ring_items (tlog t1)) < 2 ^ 64" using t1(3) n by linarith
  then have "unat (samples (last_report t2)) = length (ring_items (tlog t1))"
    unfolding t2(4) by (intro unat_of_nat_u64) simp
  then show ?thesis using t1 t2 by auto
qed

definition sample_tracer :: frame_tracer where
  "sample_tracer = tracer_new \<lparr>rbuf = replicate 2 None, rmask = 1, rhead = 0, rtail = 0\<rparr> 1000 0"

definition sample_sample :: trace_sample where
  "sample_sample = \<lparr>subsystem_idx = 0, sample_frame = 0, duration_ns = 5, budget_ns = 1, over_budget = True\<rparr>"

lemma sample_tracer_inv: "tracer_inv sample_tracer"
  by (auto simp: tracer_inv_def sample_tracer_def tracer_new_def ring_inv_def ring_shape_def intro!: exI [of _ 1])

theorem trace_window_accounts_witness:
  "\<exists>t1 t2. run_fold (\<lambda>s t. tracer_record t s) [sample_sample, sample_sample, sample_sample] sample_tracer = Ret t1
     \<and> tracer_flush t1 500 = Ret t2 \<and> tracer_inv t2
     \<and> unat (samples (last_report t2)) + unat (report_dropped (last_report t2)) = 3"
  using trace_window_accounts [OF sample_tracer_inv, of "[sample_sample, sample_sample, sample_sample]" 500]
  by (auto simp: sample_tracer_def tracer_new_def ring_items_def)

section \<open>Contention sites\<close>

text \<open>\<open>src/src/kernel/trace/contention.rs\<close> with the feature \<open>race_trace\<close>: a counter and a ring of the last contenders. The
  hash of a thread's identifier is an argument.\<close>

record site =
  site_module :: string
  site_label :: string
  contentions :: u64
  contenders :: "u64 list"
  next_slot :: u64

definition site_new :: "string \<Rightarrow> string \<Rightarrow> site" where
  "site_new m l = \<lparr>site_module = m, site_label = l, contentions = 0, contenders = replicate 8 0, next_slot = 0\<rparr>"

definition bump :: "u64 \<Rightarrow> site \<Rightarrow> site" where
  "bump thread_id s =
     s\<lparr>contentions := contentions s + 1, next_slot := next_slot s + 1,
       contenders := (contenders s)[unat (next_slot s) mod length (contenders s) := thread_id]\<rparr>"

lemma bump_all:
  "contentions (fold bump ids (site_new m l)) = of_nat (length ids) \<and> next_slot (fold bump ids (site_new m l)) = of_nat (length ids)
   \<and> length (contenders (fold bump ids (site_new m l))) = 8"
  by (induction ids rule: rev_induct) (simp_all add: site_new_def bump_def)

lemma of_nat_u64_mod_8: "unat (of_nat n :: u64) mod 8 = n mod 8"
  by (simp add: unat_of_nat mod_mod_cancel)

text \<open>However often a site is hit, it has counted every hit (modulo 2^64) and its ring holds exactly the identifiers of the
  last eight contenders.\<close>

theorem site_remembers_last_contenders:
  "contentions (fold bump ids (site_new m l)) = of_nat (length ids)
   \<and> (\<forall>i < length ids. length ids \<le> i + 8 \<longrightarrow> contenders (fold bump ids (site_new m l)) ! (i mod 8) = ids ! i)"
proof (intro conjI allI impI)
  show "contentions (fold bump ids (site_new m l)) = of_nat (length ids)" using bump_all by blast
  fix i assume "i < length ids" "length ids \<le> i + 8"
  then show "contenders (fold bump ids (site_new m l)) ! (i mod 8) = ids ! i"
  proof (induction ids rule: rev_induct)
    case (snoc x ids)
    let ?s = "fold bump ids (site_new m l)" and ?n = "length ids"
    have c: "contenders (fold bump (ids @ [x]) (site_new m l)) = (contenders ?s)[?n mod 8 := x]"
      using bump_all [of ids m l] by (simp add: bump_def of_nat_u64_mod_8)
    have len: "length (contenders ?s) = 8" using bump_all by blast
    show ?case
    proof (cases "i = ?n")
      case True
      then show ?thesis using c len by simp
    next
      case False
      then have i: "i < ?n" "?n < i + 8" using snoc.prems by simp_all
      have "i mod 8 \<noteq> ?n mod 8"
      proof
        assume "i mod 8 = ?n mod 8"
        then have "8 dvd ?n - i" using i(1) mod_eq_dvd_iff_nat [of i ?n 8] by simp
        then show False using i by (auto dest: dvd_imp_le)
      qed
      then show ?thesis using c snoc.IH i by (simp add: nth_append)
    qed
  qed simp
qed

end
