(* ===== verification/Kernel.thy ===== *)
theory Kernel
  imports Context Schedule Tracer
begin

text \<open>
  The registry and the kernel of \<open>src/src/kernel/registry.rs\<close> and \<open>scheduler.rs\<close>: registration,
  resolution of names, \<open>init\<close> in topological order, the frame loop of \<open>run_until\<close>, and \<open>shutdown\<close> in
  reverse order. A subsystem is a record of callbacks over a state of its own; its code is not
  part of the kernel, and what the kernel needs of it is the contract of \<open>Context\<close>.
\<close>

section \<open>The registry\<close>

record ('s, 'p, 'v) subsystem =
  sub_name :: string
  sub_deps :: "string list"
  sub_access :: system_access
  sub_init :: "('s, 'p, 'v) callback"
  sub_tick :: "('s, 'p, 'v) callback"
  sub_shutdown :: "('s, 'p, 'v) callback"
  sub_state :: 's

datatype kernel_error =
    UnknownDependency string string
  | DependencyCycle "string list"
  | DuplicateName string
  | KernelBus bus_error
  | NotInitialized

type_synonym ('s, 'p, 'v) registry = "(string \<times> ('s, 'p, 'v) subsystem) list"

definition registry_register ::
  "('s, 'p, 'v) registry \<Rightarrow> ('s, 'p, 'v) subsystem \<Rightarrow> (kernel_error + nat) \<times> ('s, 'p, 'v) registry" where
  "registry_register es s =
     (if list_ex (\<lambda>(n, _). n = sub_name s) es then (Inl (DuplicateName (sub_name s)), es)
      else (Inr (length es), es @ [(sub_name s, s)]))"

text \<open>\<open>iter().map(f).collect::<Result<Vec<_>, _>>()\<close>: stops at the first error.\<close>

fun collect_results :: "('a \<Rightarrow> 'e + 'b) \<Rightarrow> 'a list \<Rightarrow> 'e + 'b list" where
  "collect_results f [] = Inr []"
| "collect_results f (x # xs) =
     (case f x of Inl e \<Rightarrow> Inl e
      | Inr y \<Rightarrow> (case collect_results f xs of Inl e \<Rightarrow> Inl e | Inr ys \<Rightarrow> Inr (y # ys)))"

definition resolve_name :: "('s, 'p, 'v) registry \<Rightarrow> string \<Rightarrow> string \<Rightarrow> kernel_error + nat" where
  "resolve_name es n dep =
     (case position (\<lambda>(m, _). m = dep) es of
        None \<Rightarrow> Inl (UnknownDependency n dep) | Some i \<Rightarrow> Inr i)"

definition resolve_dependencies :: "('s, 'p, 'v) registry \<Rightarrow> kernel_error + nat list list" where
  "resolve_dependencies es =
     collect_results (\<lambda>(n, s). collect_results (resolve_name es n) (sub_deps s)) es"

section \<open>The kernel\<close>

record ('s, 'p, 'v) kernel =
  entries :: "('s, 'p, 'v) registry"
  kc :: "('p, 'v) kctx"
  knames :: "string list"
  korder :: "nat list"
  kwaves :: "nat list list"
  ktracer :: frame_tracer
  initialized :: bool
  frame_index :: u64

definition fixed_dt_ns :: u64 where
  "fixed_dt_ns = 16666667"

definition default_frame_budget_ns :: u64 where
  "default_frame_budget_ns = 1000000"

definition kernel_register ::
  "('s, 'p, 'v) kernel \<Rightarrow> ('s, 'p, 'v) subsystem \<Rightarrow> (kernel_error + unit) \<times> ('s, 'p, 'v) kernel" where
  "kernel_register k s =
     (case registry_register (entries k) s of
        (r, es) \<Rightarrow> (map_sum id (\<lambda>_. ()) r, k\<lparr>entries := es\<rparr>))"

text \<open>
  One callback: \<open>KernelContext::new\<close> with the caller's index as address, then the method of the
  subsystem at that index (indexing the registry panics past its end).
\<close>

definition call_driver ::
  "bool \<Rightarrow> (('s, 'p, 'v) subsystem \<Rightarrow> ('s, 'p, 'v) callback) \<Rightarrow> u64 \<Rightarrow> nat
     \<Rightarrow> ('s, 'p, 'v) kernel \<Rightarrow> ('s, 'p, 'v) kernel run" where
  "call_driver debug sel dt idx k =
     (if idx \<ge> length (entries k) then Panic
      else let (n, s) = entries k ! idx
           in run_bind (sel s \<lparr>debug_build = debug, ctx_names = knames k, self_id = of_nat idx, dt_ns = dt\<rparr>
                          (sub_state s) (kc k))
                (\<lambda>(st, c). Ret (k\<lparr>entries := (entries k)[idx := (n, s\<lparr>sub_state := st\<rparr>)], kc := c\<rparr>)))"

text \<open>\<open>add_subscriber\<close> and \<open>set_debug_edges\<close> panic where their \<open>try_\<close> forms return an error.\<close>

fun add_subscribers :: "(nat \<Rightarrow> alloc) \<Rightarrow> nat \<Rightarrow> 'p bus \<Rightarrow> 'p bus run" where
  "add_subscribers als 0 b = Ret b"
| "add_subscribers als (Suc n) b =
     (case bus_try_add_subscriber (als n) b of (Inl _, _) \<Rightarrow> Panic | (Inr _, b') \<Rightarrow> add_subscribers als n b')"

definition set_debug_edges :: "alloc \<Rightarrow> 'p bus \<Rightarrow> nat list list \<Rightarrow> 'p bus run" where
  "set_debug_edges al b deps =
     (case bus_try_set_debug_edges al b deps of (Inl _, _) \<Rightarrow> Panic | (Inr _, b') \<Rightarrow> Ret b')"

definition kernel_init ::
  "bool \<Rightarrow> (nat \<Rightarrow> alloc) \<Rightarrow> ('s, 'p, 'v) kernel \<Rightarrow> ((kernel_error + unit) \<times> ('s, 'p, 'v) kernel) run" where
  "kernel_init debug als k =
     (if initialized k then Ret (Inr (), k)
      else case resolve_dependencies (entries k) of
        Inl e \<Rightarrow> Ret (Inl e, k)
      | Inr deps \<Rightarrow>
         (let k1 = k\<lparr>knames := map fst (entries k)\<rparr>;
              acc = map (\<lambda>(_, s). sub_access s) (entries k)
          in run_bind (plan_build deps (knames k1) acc) (\<lambda>r.
            case r of
              Inl p \<Rightarrow> Ret (Inl (DependencyCycle p), k1)
            | Inr plan \<Rightarrow>
                run_bind (add_subscribers als (length (entries k)) (kbus (kc k1))) (\<lambda>b1.
                run_bind (set_debug_edges (als (length (entries k))) b1 deps) (\<lambda>b2.
                  (let k2 = k1\<lparr>korder := plan_order plan, kwaves := plan_waves plan,
                               kc := (kc k1)\<lparr>kbus := b2, karena := arena_reset (karena (kc k1))\<rparr>\<rparr>
                   in run_bind (run_fold (call_driver debug sub_init 0) (plan_order plan) k2) (\<lambda>k3.
                        Ret (Inr (), k3\<lparr>initialized := True\<rparr>))))))))"

text \<open>
  One subsystem in a frame: its tick, then its sample. \<open>dur\<close> is the measured duration in
  nanoseconds, at least 1.
\<close>

definition tick_one ::
  "bool \<Rightarrow> u64 \<Rightarrow> (nat \<Rightarrow> u64) \<Rightarrow> nat \<Rightarrow> ('s, 'p, 'v) kernel \<Rightarrow> ('s, 'p, 'v) kernel run" where
  "tick_one debug frame dur idx k =
     run_bind (call_driver debug sub_tick fixed_dt_ns idx k) (\<lambda>k1.
       (let d = max (dur idx) 1
        in run_bind (tracer_record (ktracer k1)
             \<lparr>subsystem_idx = of_nat idx, sample_frame = frame, duration_ns = d,
              budget_ns = default_frame_budget_ns, over_budget = d > default_frame_budget_ns\<rparr>)
           (\<lambda>t. Ret (k1\<lparr>ktracer := t\<rparr>))))"

text \<open>\<open>self.frame_index += 1\<close> panics on overflow in a build with overflow checks.\<close>

definition run_frame ::
  "bool \<Rightarrow> (nat \<Rightarrow> alloc) \<Rightarrow> (nat \<Rightarrow> u64) \<Rightarrow> nat \<Rightarrow> nat list \<Rightarrow> ('s, 'p, 'v) kernel \<Rightarrow> ('s, 'p, 'v) kernel run" where
  "run_frame debug als dur now exec k =
     run_bind (bus_flush (kbus (kc k))) (\<lambda>b.
     (let k1 = k\<lparr>kc := (kc k)\<lparr>kbus := b, karena := arena_reset (karena (kc k))\<rparr>\<rparr>
      in run_bind (run_fold (tick_one debug (frame_index k) dur) exec k1) (\<lambda>k2.
         run_bind (deferred_apply als (kdeferred (kc k2)) (kworld (kc k2))) (\<lambda>(_, d, w).
         case wchecked_add (frame_index k2) 1 of
           None \<Rightarrow> Panic
         | Some f \<Rightarrow>
             run_bind (tracer_frame (ktracer k2) now) (\<lambda>t.
               Ret (k2\<lparr>kc := (kc k2)\<lparr>kdeferred := d, kworld := w\<rparr>, frame_index := f, ktracer := t\<rparr>))))))"

text \<open>
  The outside world of a run: the answers of the caller's predicate, of the allocator, and the
  clock, per frame.
\<close>

record outside =
  keep_running :: "nat \<Rightarrow> bool"
  o_allocs :: "nat \<Rightarrow> nat \<Rightarrow> alloc"
  o_durations :: "nat \<Rightarrow> nat \<Rightarrow> u64"
  o_clock :: "nat \<Rightarrow> nat"

fun frame_loop ::
  "bool \<Rightarrow> outside \<Rightarrow> nat list \<Rightarrow> nat \<Rightarrow> nat \<Rightarrow> ('s, 'p, 'v) kernel \<Rightarrow> ('s, 'p, 'v) kernel run" where
  "frame_loop debug out exec i 0 k = Ret k"
| "frame_loop debug out exec i (Suc n) k =
     (if \<not> keep_running out i then Ret k
      else run_bind (run_frame debug (o_allocs out i) (o_durations out i) (o_clock out i) exec k)
             (frame_loop debug out exec (Suc i) n))"

definition run_until ::
  "bool \<Rightarrow> outside \<Rightarrow> u64 \<Rightarrow> ('s, 'p, 'v) kernel \<Rightarrow> ((kernel_error + unit) \<times> ('s, 'p, 'v) kernel) run" where
  "run_until debug out frames k =
     (if \<not> initialized k then Ret (Inl NotInitialized, k)
      else if frames = 0 then Ret (Inr (), k)
      else run_bind (frame_loop debug out (korder k) 0 (unat frames) k) (\<lambda>k'. Ret (Inr (), k')))"

definition kernel_shutdown :: "bool \<Rightarrow> ('s, 'p, 'v) kernel \<Rightarrow> ('s, 'p, 'v) kernel run" where
  "kernel_shutdown debug k =
     (if \<not> initialized k then Ret k
      else run_bind (run_fold (call_driver debug sub_shutdown 0) (rev (korder k)) k) (\<lambda>k'.
             Ret (k'\<lparr>initialized := False, korder := [], kwaves := []\<rparr>)))"

section \<open>Names and their resolution\<close>

definition registry_inv :: "('s, 'p, 'v) registry \<Rightarrow> bool" where
  "registry_inv es \<longleftrightarrow> distinct (map fst es) \<and> (\<forall>(n, s)\<in>set es. n = sub_name s)"

lemma registry_register_spec:
  assumes "registry_inv es"
  shows "registry_register es s =
     (if sub_name s \<in> set (map fst es) then (Inl (DuplicateName (sub_name s)), es)
      else (Inr (length es), es @ [(sub_name s, s)]))"
    and "registry_inv (snd (registry_register es s))"
  using assms by (force simp: registry_register_def registry_inv_def list_ex_iff)+

lemma collect_results_Inr:
  "collect_results f xs = Inr ys \<longleftrightarrow> list_all2 (\<lambda>x y. f x = Inr y) xs ys"
proof (induction xs arbitrary: ys)
  case (Cons x xs)
  show ?case
    by (cases "f x"; cases "collect_results f xs"; cases ys) (auto simp flip: Cons.IH)
qed auto

lemma collect_results_Inl:
  "collect_results f xs = Inl e \<Longrightarrow> \<exists>x\<in>set xs. f x = Inl e"
  by (induction xs) (auto split: sum.splits)

lemma resolve_name_Inr:
  "resolve_name es n dep = Inr i \<Longrightarrow> i < length es \<and> fst (es ! i) = dep"
  by (auto simp: resolve_name_def position_Some split: option.splits prod.splits)

lemma resolve_name_Inl:
  "resolve_name es n dep = Inl e \<Longrightarrow> e = UnknownDependency n dep \<and> dep \<notin> set (map fst es)"
  by (auto simp: resolve_name_def position_None split: option.splits)

text \<open>Resolution gives a closed graph whose edges are the declared names.\<close>

lemma resolve_dependencies_Inr:
  assumes "resolve_dependencies es = Inr deps"
  shows "length deps = length es" "graph_closed deps"
    "\<And>i. i < length es \<Longrightarrow> map (\<lambda>d. fst (es ! d)) (deps ! i) = sub_deps (snd (es ! i))"
proof -
  have all: "list_all2 (\<lambda>(n, s) ds. collect_results (resolve_name es n) (sub_deps s) = Inr ds) es deps"
    using assms by (simp add: resolve_dependencies_def collect_results_Inr case_prod_unfold)
  then show len: "length deps = length es" by (simp add: list_all2_lengthD)
  have row: "list_all2 (\<lambda>dep d. resolve_name es (fst (es ! i)) dep = Inr d) (sub_deps (snd (es ! i))) (deps ! i)"
    if "i < length es" for i
    using list_all2_nthD [OF all that] by (simp add: collect_results_Inr case_prod_unfold)
  show "graph_closed deps"
    unfolding graph_closed_def
  proof (intro ballI)
    fix ds d assume "ds \<in> set deps" "d \<in> set ds"
    then obtain i j where "i < length deps" "deps ! i = ds" "j < length ds" "ds ! j = d"
      by (auto simp: in_set_conv_nth)
    then show "d < length deps"
      using list_all2_nthD2 [OF row [of i], of j] len by (auto dest: resolve_name_Inr)
  qed
  show "map (\<lambda>d. fst (es ! d)) (deps ! i) = sub_deps (snd (es ! i))" if "i < length es" for i
  proof -
    have "list_all2 (\<lambda>dep d. fst (es ! d) = dep) (sub_deps (snd (es ! i))) (deps ! i)"
      using row [OF that] by (rule list_all2_mono) (auto dest: resolve_name_Inr)
    then show ?thesis by (auto simp: list_all2_conv_all_nth intro!: nth_equalityI [where xs = "map _ _"])
  qed
qed

lemma resolve_dependencies_Inl:
  assumes "resolve_dependencies es = Inl e"
  obtains n s dep where "(n, s) \<in> set es" "dep \<in> set (sub_deps s)" "dep \<notin> set (map fst es)"
    "e = UnknownDependency n dep"
proof -
  obtain q where q: "q \<in> set es" "(case q of (n, s) \<Rightarrow> collect_results (resolve_name es n) (sub_deps s)) = Inl e"
    using collect_results_Inl [OF assms [unfolded resolve_dependencies_def]] by blast
  obtain n s where "q = (n, s)" by force
  with q have ns: "(n, s) \<in> set es" "collect_results (resolve_name es n) (sub_deps s) = Inl e" by simp_all
  then obtain dep where "dep \<in> set (sub_deps s)" "resolve_name es n dep = Inl e"
    using collect_results_Inl [OF ns(2)] by auto
  with ns show ?thesis using that [of n s dep] resolve_name_Inl [of es n dep e] by blast
qed

section \<open>Callbacks keep the kernel's invariant\<close>

definition env_of :: "bool \<Rightarrow> ('s, 'p, 'v) kernel \<Rightarrow> nat \<Rightarrow> u64 \<Rightarrow> call_env" where
  "env_of debug k i dt = \<lparr>debug_build = debug, ctx_names = knames k, self_id = of_nat i, dt_ns = dt\<rparr>"

text \<open>
  Every registered subsystem honours the contract of a callback, with its own invariant \<open>ok i\<close> and
  the sends \<open>route i\<close> it relies on; neither depends on the frame step.
\<close>

definition drivers_ok ::
  "bool \<Rightarrow> (nat \<Rightarrow> call_env \<Rightarrow> 's \<Rightarrow> bool) \<Rightarrow> (nat \<Rightarrow> call_env \<Rightarrow> bool list list \<Rightarrow> bool)
     \<Rightarrow> ('s, 'p, 'v) kernel \<Rightarrow> bool" where
  "drivers_ok debug ok route k \<longleftrightarrow>
     (\<forall>i < length (entries k). let s = snd (entries k ! i) in
        driver (ok i) (route i) (sub_init s) (sub_tick s) (sub_shutdown s)
        \<and> (\<forall>dt. ok i (env_of debug k i dt) (sub_state s)
                 \<and> route i (env_of debug k i dt) (edges (kbus (kc k)))))
     \<and> (\<forall>i env dt st m. ok i (env\<lparr>dt_ns := dt\<rparr>) st = ok i env st
                       \<and> route i (env\<lparr>dt_ns := dt\<rparr>) m = route i env m)"

definition kernel_inv ::
  "bool \<Rightarrow> (nat \<Rightarrow> call_env \<Rightarrow> 's \<Rightarrow> bool) \<Rightarrow> (nat \<Rightarrow> call_env \<Rightarrow> bool list list \<Rightarrow> bool)
     \<Rightarrow> ('s, 'p, 'v) kernel \<Rightarrow> bool" where
  "kernel_inv debug ok route k \<longleftrightarrow>
     ctx_inv (kc k) \<and> tracer_inv (ktracer k) \<and> drivers_ok debug ok route k
     \<and> set (korder k) \<subseteq> {..<length (entries k)}"

text \<open>What a callback cannot change of the kernel.\<close>

definition kernel_frame_of :: "('s, 'p, 'v) kernel \<Rightarrow> ('s, 'p, 'v) kernel \<Rightarrow> bool" where
  "kernel_frame_of k k' \<longleftrightarrow>
     map fst (entries k') = map fst (entries k) \<and> knames k' = knames k \<and> korder k' = korder k
     \<and> kwaves k' = kwaves k \<and> initialized k' = initialized k \<and> frame_index k' = frame_index k
     \<and> edges (kbus (kc k')) = edges (kbus (kc k))"

lemma kernel_frame_refl [simp]: "kernel_frame_of k k"
  by (simp add: kernel_frame_of_def)

lemma kernel_frame_trans: "kernel_frame_of k k1 \<Longrightarrow> kernel_frame_of k1 k2 \<Longrightarrow> kernel_frame_of k k2"
  by (simp add: kernel_frame_of_def)

lemma call_driver_spec:
  assumes inv: "kernel_inv debug ok route k" and i: "i < length (entries k)"
    and sel: "sel \<in> {sub_init, sub_tick, sub_shutdown}"
    and keeps: "\<And>s st. sel (s\<lparr>sub_state := st\<rparr>) = sel s"
  obtains k' where "call_driver debug sel dt i k = Ret k'" "kernel_inv debug ok route k'"
    "kernel_frame_of k k'" "ktracer k' = ktracer k"
proof -
  obtain n s where s: "entries k ! i = (n, s)" by force
  let ?env = "env_of debug k i dt"
  have dr: "driver (ok i) (route i) (sub_init s) (sub_tick s) (sub_shutdown s)"
    and st: "\<And>dt. ok i (env_of debug k i dt) (sub_state s)"
    and rt: "\<And>dt. route i (env_of debug k i dt) (edges (kbus (kc k)))"
    and dt: "\<And>i env dt st. ok i (env\<lparr>dt_ns := dt\<rparr>) st = ok i env st"
    and all: "\<And>j. j < length (entries k) \<Longrightarrow>
        driver (ok j) (route j) (sub_init (snd (entries k ! j))) (sub_tick (snd (entries k ! j)))
          (sub_shutdown (snd (entries k ! j)))
        \<and> (\<forall>dt. ok j (env_of debug k j dt) (sub_state (snd (entries k ! j)))
             \<and> route j (env_of debug k j dt) (edges (kbus (kc k))))"
    and rd: "\<And>i env dt m. route i (env\<lparr>dt_ns := dt\<rparr>) m = route i env m"
    using inv i s by (auto simp: kernel_inv_def drivers_ok_def Let_def)
  have "callback_ok (ok i) (route i) (sel s)"
    using sel dr by (auto simp: driver_def)
  moreover have "ctx_inv (kc k)" using inv by (simp add: kernel_inv_def)
  ultimately obtain st' c' where r: "sel s ?env (sub_state s) (kc k) = Ret (st', c')" "ctx_inv c'"
    "ok i ?env st'" "edges (kbus c') = edges (kbus (kc k))"
    using st rt unfolding callback_ok_def by blast
  let ?k = "k\<lparr>entries := (entries k)[i := (n, s\<lparr>sub_state := st'\<rparr>)], kc := c'\<rparr>"
  have run: "call_driver debug sel dt i k = Ret ?k"
    using i s r(1) by (simp add: call_driver_def env_of_def)
  have ev: "env_of debug ?k j d = env_of debug k j d" for j d by (simp add: env_of_def)
  have "ok i (env_of debug k i d) st'" for d
    using r(3) dt [where i = i and env = ?env and dt = d and st = st'] by (simp add: env_of_def)
  then have "drivers_ok debug ok route ?k"
    unfolding drivers_ok_def Let_def
    using all dt rd dr r(4) i s by (auto simp: ev nth_list_update)
  moreover have "map fst (entries ?k) = map fst (entries k)"
    using i s by (simp add: map_update list_update_same_conv)
  ultimately show ?thesis
    using inv r run by - (rule that [of ?k], auto simp: kernel_inv_def kernel_frame_of_def)
qed

text \<open>A pass over a list of indices calls every driver once, in that order, and always returns.\<close>

lemma call_all_spec:
  assumes sel: "sel \<in> {sub_init, sub_tick, sub_shutdown}"
    and keeps: "\<And>s st. sel (s\<lparr>sub_state := st\<rparr>) = sel s"
  shows "kernel_inv debug ok route k \<Longrightarrow> set xs \<subseteq> {..<length (entries k)} \<Longrightarrow>
     \<exists>k'. run_fold (call_driver debug sel dt) xs k = Ret k' \<and> kernel_inv debug ok route k'
        \<and> kernel_frame_of k k' \<and> ktracer k' = ktracer k"
proof (induction xs arbitrary: k)
  case (Cons i xs)
  then have i: "i < length (entries k)" by simp
  obtain k1 where k1: "call_driver debug sel dt i k = Ret k1" "kernel_inv debug ok route k1"
    "kernel_frame_of k k1" "ktracer k1 = ktracer k"
    using call_driver_spec [OF Cons.prems(1) i sel keeps, of dt] by blast
  have "length (entries k1) = length (entries k)"
    using k1(3) unfolding kernel_frame_of_def by (metis length_map)
  with Cons.prems(2) Cons.IH [OF k1(2)] k1 show ?case by (auto intro: kernel_frame_trans)
qed auto

lemma sel_keeps:
  "sub_init (s\<lparr>sub_state := st\<rparr>) = sub_init s" "sub_tick (s\<lparr>sub_state := st\<rparr>) = sub_tick s"
  "sub_shutdown (s\<lparr>sub_state := st\<rparr>) = sub_shutdown s"
  by simp_all

section \<open>A frame\<close>

lemma tick_one_spec:
  assumes inv: "kernel_inv debug ok route k" and i: "i < length (entries k)"
    and d: "unat (dropped (ktracer k)) < 2 ^ 64 - 1"
  obtains k' where "tick_one debug f dur i k = Ret k'" "kernel_inv debug ok route k'" "kernel_frame_of k k'"
    "unat (dropped (ktracer k')) \<le> unat (dropped (ktracer k)) + 1"
proof -
  obtain k1 where k1: "call_driver debug sub_tick fixed_dt_ns i k = Ret k1" "kernel_inv debug ok route k1"
    "kernel_frame_of k k1" "ktracer k1 = ktracer k"
    using call_driver_spec [OF inv i _ sel_keeps(2), of fixed_dt_ns] by auto
  have ti: "tracer_inv (ktracer k1)" using k1(2) by (simp add: kernel_inv_def)
  let ?s = "\<lparr>subsystem_idx = of_nat i, sample_frame = f, duration_ns = max (dur i) 1,
      budget_ns = default_frame_budget_ns, over_budget = max (dur i) 1 > default_frame_budget_ns\<rparr>"
  obtain t where t: "tracer_record (ktracer k1) ?s = Ret t" "tracer_inv t"
    "unat (dropped t) \<le> unat (dropped (ktracer k1)) + 1"
    using tracer_record_spec [OF ti d [folded k1(4)], of ?s] by blast
  show ?thesis
  proof (rule that [of "k1\<lparr>ktracer := t\<rparr>"])
    show "tick_one debug f dur i k = Ret (k1\<lparr>ktracer := t\<rparr>)"
      using k1(1) t(1) by (simp add: tick_one_def Let_def)
    have "env_of debug (k1\<lparr>ktracer := t\<rparr>) j dt = env_of debug k1 j dt" for j dt by (simp add: env_of_def)
    then show "kernel_inv debug ok route (k1\<lparr>ktracer := t\<rparr>)"
      using k1(2) t(2) by (simp add: kernel_inv_def drivers_ok_def)
  qed (use k1(3,4) t(3) in \<open>simp_all add: kernel_frame_of_def\<close>)
qed

lemma tick_all_spec:
  assumes "kernel_inv debug ok route k" "set xs \<subseteq> {..<length (entries k)}"
    "unat (dropped (ktracer k)) + length xs < 2 ^ 64"
  shows "\<exists>k'. run_fold (tick_one debug f dur) xs k = Ret k' \<and> kernel_inv debug ok route k' \<and> kernel_frame_of k k'
     \<and> unat (dropped (ktracer k')) \<le> unat (dropped (ktracer k)) + length xs"
  using assms
proof (induction xs arbitrary: k)
  case (Cons i xs)
  then have i: "i < length (entries k)" and d: "unat (dropped (ktracer k)) < 2 ^ 64 - 1" by simp_all
  obtain k1 where k1: "tick_one debug f dur i k = Ret k1" "kernel_inv debug ok route k1" "kernel_frame_of k k1"
    "unat (dropped (ktracer k1)) \<le> unat (dropped (ktracer k)) + 1"
    using tick_one_spec [OF Cons.prems(1) i d] by blast
  have len: "length (entries k1) = length (entries k)"
    using k1(3) unfolding kernel_frame_of_def by (metis length_map)
  have "\<exists>k'. run_fold (tick_one debug f dur) xs k1 = Ret k' \<and> kernel_inv debug ok route k' \<and> kernel_frame_of k1 k'
     \<and> unat (dropped (ktracer k')) \<le> unat (dropped (ktracer k1)) + length xs"
    using Cons.prems(2,3) k1(4) len by (intro Cons.IH [OF k1(2)]) auto
  with k1 show ?case by (auto intro: kernel_frame_trans)
qed auto

lemma kernel_inv_ctx:
  assumes "kernel_inv debug ok route k" "ctx_inv c" "edges (kbus c) = edges (kbus (kc k))" "tracer_inv t"
  shows "kernel_inv debug ok route (k\<lparr>kc := c, ktracer := t, frame_index := f\<rparr>)"
proof -
  have "env_of debug (k\<lparr>kc := c, ktracer := t, frame_index := f\<rparr>) j dt = env_of debug k j dt" for j dt
    by (simp add: env_of_def)
  then show ?thesis using assms by (simp add: kernel_inv_def drivers_ok_def)
qed

lemma deferred_apply_inv:
  assumes "world_inv w"
  obtains n w' where "deferred_apply als d w = Ret (n, d\<lparr>commands := []\<rparr>, w')" "world_inv w'"
proof -
  obtain n w' where "run_fold apply_command (map (\<lambda>(k, c). (als k, c)) (enumerate 0 (commands d))) (0, w) = Ret (n, w')"
    "world_inv w'"
    using apply_fold_spec [OF assms, of "map (\<lambda>(k, c). (als k, c)) (enumerate 0 (commands d))" 0] by auto
  then show ?thesis by (intro that) (simp_all add: deferred_apply_def)
qed

text \<open>
  A frame flushes the bus, rewinds the arena, ticks every subsystem in schedule order, commits the
  deferred commands and advances the frame counter.
\<close>

lemma run_frame_spec:
  assumes inv: "kernel_inv debug ok route k"
    and d: "unat (dropped (ktracer k)) + length (korder k) < 2 ^ 64"
    and f: "unat (frame_index k) + 1 < 2 ^ 64"
  obtains k' where "run_frame debug als dur now (korder k) k = Ret k'" "kernel_inv debug ok route k'"
    "frame_index k' = frame_index k + 1" "korder k' = korder k" "initialized k' = initialized k"
    "commands (kdeferred (kc k')) = []"
    "unat (dropped (ktracer k')) \<le> unat (dropped (ktracer k)) + length (korder k)"
proof -
  have ci: "ctx_inv (kc k)" and ti: "tracer_inv (ktracer k)" using inv by (simp_all add: kernel_inv_def)
  have fl: "bus_flush (kbus (kc k)) = Ret (kbus (kc k))" using ci by (intro bus_flush_empty) (simp_all add: ctx_inv_def)
  let ?k1 = "k\<lparr>kc := (kc k)\<lparr>kbus := kbus (kc k), karena := arena_reset (karena (kc k))\<rparr>\<rparr>"
  have "ctx_inv ((kc k)\<lparr>karena := arena_reset (karena (kc k))\<rparr>)"
    using ci by (simp add: ctx_inv_def arena_inv_reset)
  then have inv1: "kernel_inv debug ok route ?k1"
    using kernel_inv_ctx [OF inv, of "(kc k)\<lparr>karena := arena_reset (karena (kc k))\<rparr>" "ktracer k" "frame_index k"] ti
    by simp
  have "set (korder k) \<subseteq> {..<length (entries ?k1)}" using inv by (simp add: kernel_inv_def)
  then obtain k2 where k2: "run_fold (tick_one debug (frame_index k) dur) (korder k) ?k1 = Ret k2"
    "kernel_inv debug ok route k2" "kernel_frame_of ?k1 k2"
    "unat (dropped (ktracer k2)) \<le> unat (dropped (ktracer k)) + length (korder k)"
    using tick_all_spec [OF inv1, of "korder k" "frame_index k" dur] d by auto
  have c2: "ctx_inv (kc k2)" "tracer_inv (ktracer k2)" using k2(2) by (simp_all add: kernel_inv_def)
  then have "world_inv (kworld (kc k2))" by (simp add: ctx_inv_def)
  then obtain n w where w: "deferred_apply als (kdeferred (kc k2)) (kworld (kc k2)) =
      Ret (n, (kdeferred (kc k2))\<lparr>commands := []\<rparr>, w)" "world_inv w" by (rule deferred_apply_inv)
  have fi: "frame_index k2 = frame_index k" "korder k2 = korder k" "initialized k2 = initialized k"
    using k2(3) by (simp_all add: kernel_frame_of_def)
  have add: "wchecked_add (frame_index k2) 1 = Some (frame_index k + 1)" using f fi by (simp add: wchecked_add_def)
  obtain t where t: "tracer_frame (ktracer k2) now = Ret t" "tracer_inv t"
    "unat (dropped t) \<le> unat (dropped (ktracer k2))"
    using tracer_frame_inv [OF c2(2)] by blast
  let ?c = "(kc k2)\<lparr>kdeferred := (kdeferred (kc k2))\<lparr>commands := []\<rparr>, kworld := w\<rparr>"
  have "ctx_inv ?c" using c2(1) w(2) by (simp add: ctx_inv_def deferred_inv_def)
  then have "kernel_inv debug ok route (k2\<lparr>kc := ?c, ktracer := t, frame_index := frame_index k + 1\<rparr>)"
    using kernel_inv_ctx [OF k2(2)] t(2) by simp
  moreover have "run_frame debug als dur now (korder k) k =
      Ret (k2\<lparr>kc := ?c, frame_index := frame_index k + 1, ktracer := t\<rparr>)"
    using fl k2(1) w(1) add t(1) by (simp add: run_frame_def Let_def)
  moreover have "k2\<lparr>kc := ?c, frame_index := frame_index k + 1, ktracer := t\<rparr> =
      k2\<lparr>kc := ?c, ktracer := t, frame_index := frame_index k + 1\<rparr>" by simp
  ultimately show ?thesis
    using fi t(3) k2(4) by - (rule that [of "k2\<lparr>kc := ?c, ktracer := t, frame_index := frame_index k + 1\<rparr>"], simp_all)
qed

text \<open>The number of frames a run executes: the caller's predicate is asked before each frame.\<close>

fun frames_run :: "outside \<Rightarrow> nat \<Rightarrow> nat \<Rightarrow> nat" where
  "frames_run out i 0 = 0"
| "frames_run out i (Suc n) = (if keep_running out i then Suc (frames_run out (Suc i) n) else 0)"

lemma frame_loop_spec:
  assumes "kernel_inv debug ok route k" "unat (frame_index k) + n < 2 ^ 64"
    "unat (dropped (ktracer k)) + n * length (korder k) < 2 ^ 64"
  shows "\<exists>k'. frame_loop debug out (korder k) i n k = Ret k' \<and> kernel_inv debug ok route k'
     \<and> frame_index k' = frame_index k + of_nat (frames_run out i n)
     \<and> korder k' = korder k \<and> initialized k' = initialized k"
  using assms
proof (induction n arbitrary: i k)
  case (Suc n)
  show ?case
  proof (cases "keep_running out i")
    case True
    obtain k1 where k1: "run_frame debug (o_allocs out i) (o_durations out i) (o_clock out i) (korder k) k = Ret k1"
      "kernel_inv debug ok route k1" "frame_index k1 = frame_index k + 1" "korder k1 = korder k"
      "initialized k1 = initialized k"
      "unat (dropped (ktracer k1)) \<le> unat (dropped (ktracer k)) + length (korder k)"
      using run_frame_spec [OF Suc.prems(1), of "o_allocs out i" "o_durations out i" "o_clock out i"] Suc.prems(2,3)
      by auto
    have "unat (frame_index k1) = unat (frame_index k) + 1"
      unfolding k1(3) using Suc.prems(2) by (simp add: unat_word_ariths)
    then have "unat (frame_index k1) + n < 2 ^ 64" using Suc.prems(2) by simp
    moreover have "unat (dropped (ktracer k1)) + n * length (korder k1) < 2 ^ 64"
      using k1(4,6) Suc.prems(3) by simp
    ultimately obtain k' where "frame_loop debug out (korder k1) (Suc i) n k1 = Ret k'"
      "kernel_inv debug ok route k'" "frame_index k' = frame_index k1 + of_nat (frames_run out (Suc i) n)"
      "korder k' = korder k1" "initialized k' = initialized k1"
      using Suc.IH [OF k1(2)] by blast
    then show ?thesis using True k1 by (simp add: algebra_simps)
  next
    case False
    then show ?thesis using Suc.prems(1) by simp
  qed
qed simp

section \<open>Initialisation\<close>

lemma add_subscribers_spec:
  assumes "bus_inv b" "\<And>j l. j < n \<Longrightarrow> als j l" "length (inboxes b) + n \<le> 2 ^ 32"
  shows "\<exists>b'. add_subscribers als n b = Ret b' \<and> bus_inv b' \<and> mailboxes b' = mailboxes b @ replicate n []
     \<and> outbox b' = outbox b \<and> edges b' = edges b"
  using assms
proof (induction n arbitrary: b)
  case (Suc n)
  obtain r b1 where r: "bus_try_add_subscriber (als n) b = (r, b1)" by force
  have "length (inboxes b) \<le> u32_max" using Suc.prems(3) by (simp add: u32_max_def)
  moreover have "checked_next_power_of_two default_inbox_capacity = Some 64"
    by (simp add: checked_next_power_of_two_def default_inbox_capacity_def upt_rec)
  ultimately have "\<exists>i. r = Inr i"
    using r Suc.prems(2) [of n]
    by (auto simp: bus_try_add_subscriber_def spsc_try_with_capacity_def Let_def)
  then obtain i where i: "r = Inr i" by blast
  note sp = bus_try_add_subscriber_spec [OF Suc.prems(1) r]
  have mb: "mailboxes b1 = mailboxes b @ [[]]" using sp(2) [of i] i by simp
  then have "length (inboxes b1) = length (inboxes b) + 1" by (metis length_append_singleton length_mailboxes Suc_eq_plus1)
  with Suc.IH [OF sp(1)] Suc.prems(2,3) obtain b' where "add_subscribers als n b1 = Ret b'" "bus_inv b'"
    "mailboxes b' = mailboxes b1 @ replicate n []" "outbox b' = outbox b1" "edges b' = edges b1" by auto
  then show ?case using r i mb sp(4,5) by (simp add: replicate_append_same)
qed simp

lemma plan_build_spec:
  assumes "graph_closed deps" "length names = length deps" "length acc = length deps" "length deps \<le> usize_max"
  obtains (cyclic) c where "plan_build deps names acc = Ret (Inl (map ((!) names) c))" "is_cycle deps c"
  | (plan) xs ws wave where "plan_build deps names acc = Ret (Inr \<lparr>plan_order = xs, plan_waves = ws\<rparr>)"
      "distinct xs" "set xs = {..<length deps}" "deps_first deps xs" "waves_of xs wave ws"
      "\<And>x d. x \<in> set xs \<Longrightarrow> d \<in> set (deps ! x) \<Longrightarrow> wave d < wave x"
      "\<And>i j. i < j \<Longrightarrow> j < length xs \<Longrightarrow> conflicts (acc ! (xs ! j)) (acc ! (xs ! i)) \<Longrightarrow> wave (xs ! i) < wave (xs ! j)"
  using assms(1,2)
proof (cases rule: toposort_spec)
  case (cyclic c)
  then show ?thesis by (intro that(1)) (simp_all add: plan_build_def)
next
  case (sorted xs)
  have "set xs \<subseteq> {..<length deps}" using sorted(3) by simp
  then obtain wave ws where w: "access_waves xs deps acc = Ret ws" "waves_of xs wave ws"
    "\<And>x d. x \<in> set xs \<Longrightarrow> d \<in> set (deps ! x) \<Longrightarrow> wave d < wave x"
    "\<And>i j. i < j \<Longrightarrow> j < length xs \<Longrightarrow> conflicts (acc ! (xs ! j)) (acc ! (xs ! i)) \<Longrightarrow> wave (xs ! i) < wave (xs ! j)"
    using access_waves_spec [OF sorted(2) _ sorted(4) assms(3,4)] by metis
  show ?thesis
    by (rule that(2) [OF _ sorted(2-4) w(2-4)]) (use sorted(1) w(1) in \<open>simp add: plan_build_def\<close>)
qed

lemma set_debug_edges_ok:
  assumes "graph_closed deps" "\<And>l. al l"
  obtains b' where "set_debug_edges al b deps = Ret b'" "inboxes b' = inboxes b" "outbox b' = outbox b"
    "\<And>s r. unat r < length deps \<Longrightarrow> routing_ok b' s r \<longleftrightarrow> s = r \<or> unat s \<in> set (deps ! unat r)"
proof -
  have row: "\<exists>m. mark_row n fs r = Some m" if "\<forall>f\<in>set fs. f < n" for n fs r
    using that by (induction fs arbitrary: r) auto
  have "\<exists>m. those (map (\<lambda>fs. mark_row (length deps) fs (replicate (length deps) False)) ds) = Some m"
    if "set ds \<subseteq> set deps" for ds
    using that
  proof (induction ds)
    case (Cons d ds)
    then have "\<forall>f\<in>set d. f < length deps" using assms(1) by (auto simp: graph_closed_def)
    then obtain m1 where "mark_row (length deps) d (replicate (length deps) False) = Some m1" using row by blast
    moreover obtain m2 where
      "those (map (\<lambda>fs. mark_row (length deps) fs (replicate (length deps) False)) ds) = Some m2"
      using Cons by auto
    ultimately show ?case by simp
  qed simp
  then obtain m where "those (map (\<lambda>fs. mark_row (length deps) fs (replicate (length deps) False)) deps) = Some m"
    by blast
  then have r: "bus_try_set_debug_edges al b deps = (Inr (), b\<lparr>edges := m\<rparr>)"
    using assms(2) by (simp add: bus_try_set_debug_edges_def Let_def list_all_iff)
  show ?thesis
    by (rule that [of "b\<lparr>edges := m\<rparr>"]) (use r debug_edges_routing [OF r] in \<open>simp_all add: set_debug_edges_def\<close>)
qed

text \<open>
  Initialisation either reports a real dependency cycle and runs nothing, or fixes an order of all
  subsystems with dependencies first, gives each an inbox, installs the declared edges, and then
  runs the \<open>init\<close> callbacks in that order.
\<close>

lemma kernel_init_spec:
  assumes fresh: "\<not> initialized k" and ci: "ctx_inv (kc k)" and res: "resolve_dependencies (entries k) = Inr deps"
    and al: "\<And>j l. als j l" and room: "length (inboxes (kbus (kc k))) + length (entries k) \<le> 2 ^ 32"
  obtains (cyclic) c where "is_cycle deps c"
      "kernel_init debug als k = Ret (Inl (DependencyCycle (map ((!) (map fst (entries k))) c)),
         k\<lparr>knames := map fst (entries k)\<rparr>)"
  | (started) xs k2 where "distinct xs" "set xs = {..<length (entries k)}" "deps_first deps xs"
      "kernel_init debug als k =
         run_bind (run_fold (call_driver debug sub_init 0) xs k2) (\<lambda>k3. Ret (Inr (), k3\<lparr>initialized := True\<rparr>))"
      "korder k2 = xs" "entries k2 = entries k" "knames k2 = map fst (entries k)" "ktracer k2 = ktracer k"
      "frame_index k2 = frame_index k" "ctx_inv (kc k2)"
      "mailboxes (kbus (kc k2)) = mailboxes (kbus (kc k)) @ replicate (length (entries k)) []"
      "\<And>s r. unat r < length (entries k) \<Longrightarrow>
         routing_ok (kbus (kc k2)) s r \<longleftrightarrow> s = r \<or> unat s \<in> set (deps ! unat r)"
proof -
  note rd = resolve_dependencies_Inr [OF res]
  let ?names = "map fst (entries k)" and ?acc = "map (\<lambda>(_, s). sub_access s) (entries k)"
  have len: "length ?names = length deps" "length ?acc = length deps" "length deps \<le> usize_max"
    using rd(1) room by (simp_all add: usize_max_def)
  show ?thesis
    using rd(2) len
  proof (cases rule: plan_build_spec)
    case (cyclic c)
    then show ?thesis using fresh res
      by (intro that(1) [of c]) (simp_all add: kernel_init_def Let_def)
  next
    case (plan xs ws wave)
    obtain b1 where b1: "add_subscribers als (length (entries k)) (kbus (kc k)) = Ret b1" "bus_inv b1"
      "mailboxes b1 = mailboxes (kbus (kc k)) @ replicate (length (entries k)) []" "outbox b1 = outbox (kbus (kc k))"
      using add_subscribers_spec [OF _ _ room, of als] ci al by (auto simp: ctx_inv_def)
    obtain b2 where b2: "set_debug_edges (als (length (entries k))) b1 deps = Ret b2" "inboxes b2 = inboxes b1"
      "outbox b2 = outbox b1"
      "\<And>s r. unat r < length deps \<Longrightarrow> routing_ok b2 s r \<longleftrightarrow> s = r \<or> unat s \<in> set (deps ! unat r)"
      by (rule set_debug_edges_ok [OF rd(2), of "als (length (entries k))" b1]) (rule al, blast)
    let ?c = "(kc k)\<lparr>kbus := b2, karena := arena_reset (karena (kc k))\<rparr>"
    let ?k2 = "k\<lparr>knames := ?names, korder := xs, kwaves := ws, kc := ?c\<rparr>"
    have mb: "mailboxes b2 = mailboxes b1" using b2(2) by (simp add: mailboxes_def)
    have "ctx_inv ?c"
      using ci b1(2,4) b2(2,3) by (simp add: ctx_inv_def arena_inv_reset bus_inv_def)
    moreover have "kernel_init debug als k =
        run_bind (run_fold (call_driver debug sub_init 0) xs ?k2) (\<lambda>k3. Ret (Inr (), k3\<lparr>initialized := True\<rparr>))"
      using fresh res plan(1) b1(1) b2(1) by (simp add: kernel_init_def Let_def)
    ultimately show ?thesis
      using plan(2-4) rd(1) b1(3) mb b2(4) by - (rule that(2) [of xs ?k2], simp_all)
  qed
qed

section \<open>From init to shutdown\<close>

text \<open>Whatever the drivers do, a step of the kernel that returns keeps the names and the schedule.\<close>

definition same_schedule :: "('s, 'p, 'v) kernel \<Rightarrow> ('s, 'p, 'v) kernel \<Rightarrow> bool" where
  "same_schedule k k' \<longleftrightarrow> map fst (entries k') = map fst (entries k) \<and> korder k' = korder k \<and> initialized k' = initialized k"

lemma same_schedule_refl [simp]: "same_schedule k k"
  by (simp add: same_schedule_def)

lemma same_schedule_trans: "same_schedule k k1 \<Longrightarrow> same_schedule k1 k2 \<Longrightarrow> same_schedule k k2"
  by (simp add: same_schedule_def)

lemma same_schedule_update [simp]:
  "same_schedule k (k1\<lparr>kc := c\<rparr>) = same_schedule k k1" "same_schedule k (k1\<lparr>ktracer := t\<rparr>) = same_schedule k k1"
  "same_schedule k (k1\<lparr>frame_index := f\<rparr>) = same_schedule k k1" "same_schedule (k\<lparr>kc := c\<rparr>) k1 = same_schedule k k1"
  by (simp_all add: same_schedule_def)

lemma call_driver_schedule: "call_driver debug sel dt i k = Ret k' \<Longrightarrow> same_schedule k k'"
  by (auto simp: call_driver_def same_schedule_def run_bind_Ret_iff map_update list_update_same_conv split: if_splits prod.splits)

lemma run_fold_schedule:
  assumes "\<And>x k k'. f x k = Ret k' \<Longrightarrow> same_schedule k k'"
  shows "run_fold f xs k = Ret k' \<Longrightarrow> same_schedule k k'"
proof (induction xs arbitrary: k)
  case (Cons x xs)
  then obtain k1 where "f x k = Ret k1" "run_fold f xs k1 = Ret k'" by (auto simp: run_bind_Ret_iff)
  then show ?case using Cons.IH assms same_schedule_trans by blast
qed simp

lemma tick_one_schedule: "tick_one debug f dur i k = Ret k' \<Longrightarrow> same_schedule k k'"
  by (auto simp: tick_one_def Let_def run_bind_Ret_iff dest: call_driver_schedule)

lemma run_frame_schedule:
  assumes "run_frame debug als dur now exec k = Ret k'"
  shows "same_schedule k k'"
proof -
  obtain b k2 where "run_fold (tick_one debug (frame_index k) dur) exec (k\<lparr>kc := (kc k)\<lparr>kbus := b, karena := arena_reset (karena (kc k))\<rparr>\<rparr>) = Ret k2"
    and k': "same_schedule k2 k'"
    using assms by (auto simp: run_frame_def Let_def run_bind_Ret_iff split: option.splits)
  from run_fold_schedule [OF tick_one_schedule this(1)] have "same_schedule k k2" by simp
  then show ?thesis using k' by (rule same_schedule_trans)
qed

lemma frame_loop_schedule: "frame_loop debug out exec i n k = Ret k' \<Longrightarrow> same_schedule k k'"
proof (induction n arbitrary: i k)
  case (Suc n)
  show ?case
  proof (cases "keep_running out i")
    case True
    then obtain k1 where "run_frame debug (o_allocs out i) (o_durations out i) (o_clock out i) exec k = Ret k1"
      "frame_loop debug out exec (Suc i) n k1 = Ret k'" using Suc.prems by (auto simp: run_bind_Ret_iff)
    then show ?thesis using Suc.IH run_frame_schedule same_schedule_trans by blast
  qed (use Suc.prems in simp)
qed simp

lemma run_until_schedule: "run_until debug out frames k = Ret (r, k') \<Longrightarrow> same_schedule k k'"
  by (auto simp: run_until_def run_bind_Ret_iff dest: frame_loop_schedule split: if_splits)

text \<open>The kernels that a program can reach from \<open>k\<close> by any number of calls of \<open>run_until\<close>.\<close>

inductive ran_frames :: "bool \<Rightarrow> ('s, 'p, 'v) kernel \<Rightarrow> ('s, 'p, 'v) kernel \<Rightarrow> bool" for debug where
  ran_none: "ran_frames debug k k"
| ran_more: "ran_frames debug k k1 \<Longrightarrow> run_until debug out frames k1 = Ret (r, k2) \<Longrightarrow> ran_frames debug k k2"

lemma ran_frames_schedule: "ran_frames debug k k' \<Longrightarrow> same_schedule k k'"
  by (induction rule: ran_frames.induct) (auto intro: same_schedule_trans run_until_schedule)

text \<open>A successful \<open>init\<close> has fixed an order of all drivers, dependencies first.\<close>

lemma init_fixes_order:
  assumes fresh: "\<not> initialized k" and i: "kernel_init debug als k = Ret (Inr (), k1)" and len: "length (entries k) \<le> usize_max"
  shows "\<exists>deps. resolve_dependencies (entries k) = Inr deps \<and> distinct (korder k1) \<and> set (korder k1) = {..<length (entries k)}
     \<and> deps_first deps (korder k1) \<and> map fst (entries k1) = map fst (entries k) \<and> initialized k1"
proof -
  obtain deps where res: "resolve_dependencies (entries k) = Inr deps"
    using fresh i by (cases "resolve_dependencies (entries k)") (simp_all add: kernel_init_def)
  note rd = resolve_dependencies_Inr [OF res]
  let ?names = "map fst (entries k)" and ?acc = "map (\<lambda>(_, s). sub_access s) (entries k)"
  have l: "length ?names = length deps" "length ?acc = length deps" "length deps \<le> usize_max" using rd(1) len by simp_all
  show ?thesis
    using rd(2) l
  proof (cases rule: plan_build_spec)
    case (cyclic c)
    then show ?thesis using fresh res i by (simp add: kernel_init_def Let_def)
  next
    case (plan xs ws wave)
    obtain c k3 where "run_fold (call_driver debug sub_init 0) xs (k\<lparr>knames := ?names, korder := xs, kwaves := ws, kc := c\<rparr>) = Ret k3"
      and k1: "k1 = k3\<lparr>initialized := True\<rparr>"
      using fresh res plan(1) i by (auto simp: kernel_init_def Let_def run_bind_Ret_iff)
    from run_fold_schedule [OF call_driver_schedule this(1)]
    have "map fst (entries k3) = ?names" "korder k3 = xs" by (simp_all add: same_schedule_def)
    then show ?thesis using res plan(2-4) rd(1) k1 by simp
  qed
qed

text \<open>
  The drivers \<open>is\<close> are called one after the other, each once, with the state it has in the registry \<open>es\<close>, on the context that the one
  before it left; \<open>es'\<close> holds the states they return.
\<close>

fun called_once ::
  "(('s, 'p, 'v) subsystem \<Rightarrow> ('s, 'p, 'v) callback) \<Rightarrow> (nat \<Rightarrow> call_env) \<Rightarrow> ('s, 'p, 'v) registry \<Rightarrow> ('s, 'p, 'v) registry
     \<Rightarrow> nat list \<Rightarrow> ('p, 'v) kctx \<Rightarrow> ('p, 'v) kctx \<Rightarrow> bool" where
  "called_once sel env es es' [] c c' \<longleftrightarrow> c' = c"
| "called_once sel env es es' (i # is) c c' \<longleftrightarrow>
     (\<exists>c1. sel (snd (es ! i)) (env i) (sub_state (snd (es ! i))) c = Ret (sub_state (snd (es' ! i)), c1)
        \<and> called_once sel env es es' is c1 c')"

lemma called_once_cong:
  "(\<And>i. i \<in> set is \<Longrightarrow> es1 ! i = es ! i) \<Longrightarrow> called_once sel env es1 es' is c c' = called_once sel env es es' is c c'"
  by (induction "is" arbitrary: c) auto

lemma call_driver_once:
  assumes "call_driver debug sel dt i k = Ret k1"
  shows "i < length (entries k)" "\<And>j. j \<noteq> i \<Longrightarrow> entries k1 ! j = entries k ! j" "knames k1 = knames k"
    "sel (snd (entries k ! i)) (env_of debug k i dt) (sub_state (snd (entries k ! i))) (kc k) = Ret (sub_state (snd (entries k1 ! i)), kc k1)"
  using assms by (auto simp: call_driver_def env_of_def run_bind_Ret_iff split: if_splits prod.splits)

lemma call_all_once:
  assumes "run_fold (call_driver debug sel dt) xs k = Ret k'" "distinct xs"
  shows "called_once sel (\<lambda>i. env_of debug k i dt) (entries k) (entries k') xs (kc k) (kc k') \<and> (\<forall>j. j \<notin> set xs \<longrightarrow> entries k' ! j = entries k ! j)"
  using assms
proof (induction xs arbitrary: k)
  case (Cons i xs)
  then obtain k1 where k1: "call_driver debug sel dt i k = Ret k1" "run_fold (call_driver debug sel dt) xs k1 = Ret k'"
    by (auto simp: run_bind_Ret_iff)
  note once = call_driver_once [OF k1(1)]
  have ih: "called_once sel (\<lambda>i. env_of debug k1 i dt) (entries k1) (entries k') xs (kc k1) (kc k')"
    "\<And>j. j \<notin> set xs \<Longrightarrow> entries k' ! j = entries k1 ! j" using Cons.IH [OF k1(2)] Cons.prems(2) by auto
  have "env_of debug k1 j dt = env_of debug k j dt" for j using once(3) by (simp add: env_of_def)
  moreover have "called_once sel env (entries k1) (entries k') xs c c' = called_once sel env (entries k) (entries k') xs c c'" for env c c'
    by (rule called_once_cong) (use Cons.prems(2) once(2) in \<open>metis distinct.simps(2)\<close>)
  ultimately show ?case using ih once(2,4) Cons.prems(2) by auto
qed simp

section \<open>Properties\<close>

text \<open>
  Registration keeps names unique. \<open>register\<close> accepts a subsystem exactly when no registered one
  has its name, appends it and returns its index; otherwise it reports the duplicate and changes
  nothing.
\<close>

theorem register_rejects_duplicates:
  assumes "registry_inv es"
  shows "registry_register es s =
     (if sub_name s \<in> set (map fst es) then (Inl (DuplicateName (sub_name s)), es)
      else (Inr (length es), es @ [(sub_name s, s)]))
   \<and> registry_inv (snd (registry_register es s))"
  using registry_register_spec [OF assms, of s] by blast

text \<open>
  Dependency names are resolved faithfully. \<open>resolve_dependencies\<close> fails exactly when some
  subsystem names a dependency that is not registered, and then names such a pair; otherwise the
  result is a graph on the registry's indices whose edges, read back as names, are the declared
  dependencies in order.
\<close>

theorem dependencies_resolved:
  "case resolve_dependencies es of
     Inl e \<Rightarrow> \<exists>n s dep. (n, s) \<in> set es \<and> dep \<in> set (sub_deps s) \<and> dep \<notin> set (map fst es) \<and> e = UnknownDependency n dep
   | Inr deps \<Rightarrow> length deps = length es \<and> graph_closed deps
       \<and> map (\<lambda>ds. map (\<lambda>d. fst (es ! d)) ds) deps = map (\<lambda>(n, s). sub_deps s) es"
proof (cases "resolve_dependencies es")
  case (Inl e)
  then obtain n s dep where "(n, s) \<in> set es" "dep \<in> set (sub_deps s)" "dep \<notin> set (map fst es)"
    "e = UnknownDependency n dep" by (rule resolve_dependencies_Inl)
  with Inl show ?thesis by force
next
  case (Inr deps)
  note rd = resolve_dependencies_Inr [OF Inr]
  have "map (\<lambda>ds. map (\<lambda>d. fst (es ! d)) ds) deps = map (\<lambda>(n, s). sub_deps s) es"
    using rd(1,3) by (auto simp: case_prod_unfold intro: nth_equalityI)
  with Inr rd(1,2) show ?thesis by simp
qed

text \<open>
  C11: \<open>init\<close> either starts everything in dependency order or starts nothing. When the names resolve
  and the allocator does not refuse, it reports a cycle exactly when the dependency graph has one,
  and then only the name table has changed; otherwise it fixes an order of all subsystems with
  dependencies first, adds one empty inbox per subsystem, makes the declared dependencies the only
  permitted routes, and the rest of it is to run the \<open>init\<close> callbacks once each in that order and then
  to mark the kernel initialised.
\<close>

theorem init_in_dependency_order:
  assumes fresh: "\<not> initialized k" and ci: "ctx_inv (kc k)" and res: "resolve_dependencies (entries k) = Inr deps"
    and al: "\<And>j l. als j l" and room: "length (inboxes (kbus (kc k))) + length (entries k) \<le> 2 ^ 32"
  shows "(\<exists>c. is_cycle deps c \<and> kernel_init debug als k =
            Ret (Inl (DependencyCycle (map ((!) (map fst (entries k))) c)), k\<lparr>knames := map fst (entries k)\<rparr>))
     \<or> (\<nexists>c. is_cycle deps c) \<and> (\<exists>xs k2. distinct xs \<and> set xs = {..<length (entries k)} \<and> deps_first deps xs
          \<and> kernel_init debug als k =
              run_bind (run_fold (call_driver debug sub_init 0) xs k2) (\<lambda>k3. Ret (Inr (), k3\<lparr>initialized := True\<rparr>))
          \<and> korder k2 = xs \<and> entries k2 = entries k \<and> knames k2 = map fst (entries k) \<and> ctx_inv (kc k2)
          \<and> mailboxes (kbus (kc k2)) = mailboxes (kbus (kc k)) @ replicate (length (entries k)) []
          \<and> (\<forall>s r. unat r < length (entries k) \<longrightarrow>
               routing_ok (kbus (kc k2)) s r = (s = r \<or> unat s \<in> set (deps ! unat r))))"
proof (rule kernel_init_spec [where als = als and debug = debug, OF fresh ci res al room], goal_cases)
  case (1 c)
  then show ?case by blast
next
  case (2 xs k2)
  have "\<nexists>c. is_cycle deps c"
    using deps_first_acyclic [OF 2(3,1)] 2(2) resolve_dependencies_Inr(1) [OF res] by auto
  with 2 show ?case by blast
qed

text \<open>
  C12: \<open>run_until\<close> returns. With drivers that honour their contract, a kernel that is initialised runs
  exactly as many frames as the caller allows, at most the requested number, each advancing the frame
  counter by one, keeps its invariant and its schedule, and never panics, as long as the counters do
  not overflow. A kernel that is not initialised reports it and does nothing.
\<close>

theorem run_until_returns:
  assumes inv: "kernel_inv debug ok route k"
    and bound: "unat (frame_index k) + unat frames < 2 ^ 64"
      "unat (dropped (ktracer k)) + unat frames * length (korder k) < 2 ^ 64"
  shows "if initialized k
     then \<exists>k'. run_until debug out frames k = Ret (Inr (), k') \<and> kernel_inv debug ok route k'
       \<and> frame_index k' = frame_index k + of_nat (frames_run out 0 (unat frames))
       \<and> korder k' = korder k \<and> initialized k'
     else run_until debug out frames k = Ret (Inl NotInitialized, k)"
proof (cases "initialized k \<and> frames \<noteq> 0")
  case True
  then show ?thesis
    using frame_loop_spec [OF inv bound, of out 0] by (auto simp: run_until_def)
next
  case False
  then show ?thesis using inv by (auto simp: run_until_def)
qed

text \<open>
  C13: \<open>shutdown\<close> calls every driver exactly once, in the reverse of the order of \<open>init\<close>. Take a kernel that was initialised with success and
  then ran any number of \<open>run_until\<close> calls, without a registration in between. Its order still contains every
  registered driver once, dependencies first. \<open>shutdown\<close> returns; on the way it has called each driver's \<open>shutdown\<close> once, from the
  last of the order to the first, so that a driver is shut down before all it depends on, each on the state it had, and
  it has stored the state each returned. The kernel is then uninitialised with an empty schedule, its names and frame counter are
  kept, and a second \<open>shutdown\<close> does nothing, as it does on the kernel before \<open>init\<close>. That \<open>shutdown\<close> returns
  rests on the contract of the drivers (\<open>kernel_inv\<close>, which \<open>run_until\<close> keeps).
\<close>

theorem shutdown_in_reverse:
  assumes start: "\<not> initialized k0" "kernel_init debug als k0 = Ret (Inr (), k1)" "length (entries k0) \<le> usize_max"
    and ran: "ran_frames debug k1 k" and inv: "kernel_inv debug ok route k"
  shows "\<exists>deps k'. resolve_dependencies (entries k0) = Inr deps
     \<and> distinct (korder k) \<and> set (korder k) = {..<length (entries k0)} \<and> length (entries k) = length (entries k0) \<and> deps_first deps (korder k)
     \<and> kernel_shutdown debug k = Ret k'
     \<and> called_once sub_shutdown (\<lambda>i. env_of debug k i 0) (entries k) (entries k') (rev (korder k)) (kc k) (kc k')
     \<and> \<not> initialized k' \<and> korder k' = [] \<and> kwaves k' = [] \<and> ctx_inv (kc k')
     \<and> map fst (entries k') = map fst (entries k0) \<and> frame_index k' = frame_index k
     \<and> kernel_shutdown debug k' = Ret k' \<and> kernel_shutdown debug k0 = Ret k0"
proof -
  obtain deps where o: "resolve_dependencies (entries k0) = Inr deps" "distinct (korder k1)" "set (korder k1) = {..<length (entries k0)}"
    "deps_first deps (korder k1)" "map fst (entries k1) = map fst (entries k0)" "initialized k1"
    using init_fixes_order [OF start] by blast
  have same: "korder k = korder k1" "map fst (entries k) = map fst (entries k0)" "initialized k"
    using ran_frames_schedule [OF ran] o(5,6) by (simp_all add: same_schedule_def)
  have len: "length (entries k) = length (entries k0)" using same(2) by (metis length_map)
  have "set (rev (korder k)) \<subseteq> {..<length (entries k)}" using o(3) same(1) len by simp
  then obtain k2 where k2: "run_fold (call_driver debug sub_shutdown 0) (rev (korder k)) k = Ret k2"
    "kernel_inv debug ok route k2" "kernel_frame_of k k2"
    using call_all_spec [OF _ sel_keeps(3) inv, of "rev (korder k)" 0] by auto
  have "kernel_shutdown debug k = Ret (k2\<lparr>initialized := False, korder := [], kwaves := []\<rparr>)"
    using same(3) k2(1) by (simp add: kernel_shutdown_def)
  moreover have "called_once sub_shutdown (\<lambda>i. env_of debug k i 0) (entries k) (entries k2) (rev (korder k)) (kc k) (kc k2)"
    using call_all_once [OF k2(1)] o(2) same(1) by simp
  ultimately show ?thesis
    using o(1-4) same(1,2) len k2(2,3) start(1)
    by (intro exI [of _ deps] exI [of _ "k2\<lparr>initialized := False, korder := [], kwaves := []\<rparr>"])
      (simp add: kernel_shutdown_def kernel_frame_of_def kernel_inv_def)
qed

end
