(* ===== verification/Demo.thy ===== *)
theory Demo
  imports Kernel
begin

text \<open>
  The two demonstration drivers of \<open>src/src/subsystems/hello.rs\<close> and \<open>tock.rs\<close>: a producer that sends
  itself and its dependent numbered messages, and a consumer. They are the concrete instances of
  the driver contract. Payloads are the tick numbers; a release build wraps on overflow and has no
  debug assertions.
\<close>

definition topic_tick_pulse :: u16 where
  "topic_tick_pulse = 0"

definition topic_echo :: u16 where
  "topic_echo = 1"

record hello =
  h_ticks :: u64
  pulses_sent :: u64
  echos_received :: u64
  h_tock :: "u32 option"

record tock =
  pulses :: u64
  last_seq :: u64

datatype demo = HelloState hello | TockState tock

definition hello_init :: "call_env \<Rightarrow> hello \<Rightarrow> (u64, 'v) kctx \<Rightarrow> (hello \<times> (u64, 'v) kctx) run" where
  "hello_init env h c = Ret (h\<lparr>h_tock := ctx_resolve env ''tock''\<rparr>, c)"

text \<open>The pulse to \<open>tock\<close>, every 30 ticks.\<close>

definition hello_pulse :: "call_env \<Rightarrow> u64 \<Rightarrow> hello \<Rightarrow> (u64, 'v) kctx \<Rightarrow> (hello \<times> (u64, 'v) kctx) run" where
  "hello_pulse env n h c =
     (if n mod 30 = 0
      then (case h_tock h of
              None \<Rightarrow> Ret (h, c)
            | Some t \<Rightarrow> run_bind (ctx_publish env c t topic_tick_pulse n) (\<lambda>(r, c1).
                Ret (case r of Inr _ \<Rightarrow> h\<lparr>pulses_sent := pulses_sent h + 1\<rparr> | Inl _ \<Rightarrow> h, c1)))
      else Ret (h, c))"

text \<open>The message to itself, every 10 ticks, and the drain of the own inbox that follows it.\<close>

definition hello_echo :: "call_env \<Rightarrow> u64 \<Rightarrow> hello \<Rightarrow> (u64, 'v) kctx \<Rightarrow> (hello \<times> (u64, 'v) kctx) run" where
  "hello_echo env n h c =
     (if n mod 10 = 0
      then run_bind (ctx_publish env c (self_id env) topic_echo n) (\<lambda>(r, c1).
             case r of
               Inl _ \<Rightarrow> Ret (h, c1)
             | Inr _ \<Rightarrow> run_bind (ctx_receive env c1) (\<lambda>(ms, c2).
                 Ret (h\<lparr>echos_received := echos_received h
                          + of_nat (length (filter (\<lambda>m. topic m = topic_echo) ms))\<rparr>, c2)))
      else Ret (h, c))"

definition hello_tick :: "call_env \<Rightarrow> hello \<Rightarrow> (u64, 'v) kctx \<Rightarrow> (hello \<times> (u64, 'v) kctx) run" where
  "hello_tick env h c =
     (if debug_build env \<and> h_ticks h = - 1 then Panic
      else let n = h_ticks h + 1; h1 = h\<lparr>h_ticks := n\<rparr>
           in run_bind (hello_pulse env n h1 c) (\<lambda>(h2, c2). hello_echo env n h2 c2))"

definition hello_shutdown :: "call_env \<Rightarrow> hello \<Rightarrow> (u64, 'v) kctx \<Rightarrow> (hello \<times> (u64, 'v) kctx) run" where
  "hello_shutdown env h c = Ret (h, c)"

definition tock_consume :: "call_env \<Rightarrow> u64 envelope \<Rightarrow> tock \<Rightarrow> tock run" where
  "tock_consume env m t =
     (if topic m \<noteq> topic_tick_pulse then Ret t
      else if debug_build env \<and> \<not> (seq m > last_seq t \<or> last_seq t = 0) then Panic
      else Ret (t\<lparr>last_seq := max (last_seq t) (seq m), pulses := pulses t + 1\<rparr>))"

definition tock_tick :: "call_env \<Rightarrow> tock \<Rightarrow> (u64, 'v) kctx \<Rightarrow> (tock \<times> (u64, 'v) kctx) run" where
  "tock_tick env t c =
     run_bind (ctx_receive env c) (\<lambda>(ms, c1). run_bind (run_fold (tock_consume env) ms t) (\<lambda>t'. Ret (t', c1)))"

definition tock_idle :: "call_env \<Rightarrow> tock \<Rightarrow> (u64, 'v) kctx \<Rightarrow> (tock \<times> (u64, 'v) kctx) run" where
  "tock_idle env t c = Ret (t, c)"

section \<open>The contract\<close>

text \<open>In a release build both drivers return from every call and keep the context's invariant.\<close>

definition release :: "call_env \<Rightarrow> 's \<Rightarrow> bool" where
  "release env st \<longleftrightarrow> \<not> debug_build env"

definition any_route :: "call_env \<Rightarrow> bool list list \<Rightarrow> bool" where
  "any_route env m = True"

lemma hello_pulse_spec:
  assumes "ctx_inv c" "\<not> debug_build env"
  obtains h' c' where "hello_pulse env n h c = Ret (h', c')" "ctx_inv c'" "edges (kbus c') = edges (kbus c)"
proof (cases "n mod 30 = 0 \<and> h_tock h \<noteq> None")
  case True
  then obtain t where t: "h_tock h = Some t" by auto
  have "may_send env c t" using assms(2) by (simp add: may_send_def)
  then obtain r c1 where "ctx_publish env c t topic_tick_pulse n = Ret (r, c1)" "ctx_inv c1"
    "edges (kbus c1) = edges (kbus c)" using ctx_publish_spec [OF assms(1)] by metis
  with True t show ?thesis by - (rule that [of _ c1], simp_all add: hello_pulse_def)
next
  case False
  with assms show ?thesis by - (rule that [of h c], auto simp: hello_pulse_def split: option.splits)
qed

lemma hello_echo_spec:
  assumes "ctx_inv c"
  obtains h' c' where "hello_echo env n h c = Ret (h', c')" "ctx_inv c'" "edges (kbus c') = edges (kbus c)"
proof (cases "n mod 10 = 0")
  case True
  have "may_send env c (self_id env)" by (simp add: may_send_def routing_ok_def)
  then obtain r c1 where p: "ctx_publish env c (self_id env) topic_echo n = Ret (r, c1)" "ctx_inv c1"
    "edges (kbus c1) = edges (kbus c)" using ctx_publish_spec [OF assms(1)] by metis
  obtain c2 where q: "ctx_receive env c1 = Ret (own_mail env c1, c2)" "ctx_inv c2" "edges (kbus c2) = edges (kbus c1)"
    using ctx_receive_spec [OF p(2), of env] by blast
  show ?thesis
  proof (cases r)
    case (Inl x)
    with True p show ?thesis by - (rule that [of h c1], simp_all add: hello_echo_def)
  next
    case (Inr u)
    with True p q show ?thesis by - (rule that [of _ c2], simp_all add: hello_echo_def)
  qed
next
  case False
  with assms show ?thesis by - (rule that [of h c], simp_all add: hello_echo_def)
qed

lemma hello_init_ok: "callback_ok release any_route hello_init"
  by (auto simp: callback_ok_def hello_init_def release_def)

lemma hello_shutdown_ok: "callback_ok release any_route hello_shutdown"
  by (auto simp: callback_ok_def hello_shutdown_def release_def)

lemma hello_tick_ok: "callback_ok release any_route hello_tick"
  unfolding callback_ok_def
proof (intro allI impI, elim conjE)
  fix env :: call_env and h :: hello and c :: "(u64, 'v) kctx"
  assume c: "ctx_inv c" and r: "release env h"
  let ?n = "h_ticks h + 1" and ?h = "h\<lparr>h_ticks := h_ticks h + 1\<rparr>"
  have nd: "\<not> debug_build env" using r by (simp add: release_def)
  obtain h1 c1 where 1: "hello_pulse env ?n ?h c = Ret (h1, c1)" "ctx_inv c1" "edges (kbus c1) = edges (kbus c)"
    using hello_pulse_spec [OF c nd, of ?n ?h] by blast
  obtain h2 c2 where 2: "hello_echo env ?n h1 c1 = Ret (h2, c2)" "ctx_inv c2" "edges (kbus c2) = edges (kbus c1)"
    using hello_echo_spec [OF 1(2), of env ?n h1] by blast
  show "\<exists>st' c'. hello_tick env h c = Ret (st', c') \<and> ctx_inv c' \<and> release env st' \<and> edges (kbus c') = edges (kbus c)"
    using 1 2 r by (simp add: hello_tick_def Let_def release_def)
qed

interpretation hello: driver release any_route hello_init hello_tick hello_shutdown
  by unfold_locales (rule hello_init_ok hello_tick_ok hello_shutdown_ok)+

lemma tock_consume_release: "\<not> debug_build env \<Longrightarrow> \<exists>t'. run_fold (tock_consume env) ms t = Ret t'"
  by (induction ms arbitrary: t) (auto simp: tock_consume_def)

lemma tock_idle_ok: "callback_ok release any_route tock_idle"
  by (auto simp: callback_ok_def tock_idle_def release_def)

lemma tock_tick_ok: "callback_ok release any_route tock_tick"
  unfolding callback_ok_def
proof (intro allI impI, elim conjE)
  fix env :: call_env and t :: tock and c :: "(u64, 'v) kctx"
  assume c: "ctx_inv c" and r: "release env t"
  obtain c1 where 1: "ctx_receive env c = Ret (own_mail env c, c1)" "ctx_inv c1" "edges (kbus c1) = edges (kbus c)"
    using ctx_receive_spec [OF c, of env] by blast
  obtain t' where "run_fold (tock_consume env) (own_mail env c) t = Ret t'"
    using r tock_consume_release [of env "own_mail env c" t] by (auto simp: release_def)
  with 1 r show "\<exists>st' c'. tock_tick env t c = Ret (st', c') \<and> ctx_inv c' \<and> release env st' \<and> edges (kbus c') = edges (kbus c)"
    by (simp add: tock_tick_def release_def)
qed

interpretation tock: driver release any_route tock_idle tock_tick tock_idle
  by unfold_locales (rule tock_idle_ok tock_tick_ok)+

section \<open>Both drivers in one kernel\<close>

definition as_hello :: "(hello, 'p, 'v) callback \<Rightarrow> (demo, 'p, 'v) callback" where
  "as_hello f env st c =
     (case st of HelloState h \<Rightarrow> run_bind (f env h c) (\<lambda>(h', c'). Ret (HelloState h', c')) | TockState _ \<Rightarrow> Panic)"

definition as_tock :: "(tock, 'p, 'v) callback \<Rightarrow> (demo, 'p, 'v) callback" where
  "as_tock f env st c =
     (case st of TockState t \<Rightarrow> run_bind (f env t c) (\<lambda>(t', c'). Ret (TockState t', c')) | HelloState _ \<Rightarrow> Panic)"

definition hello_subsystem :: "(demo, u64, 'v) subsystem" where
  "hello_subsystem =
     \<lparr>sub_name = ''hello'', sub_deps = [], sub_access = exclusive_access, sub_init = as_hello hello_init,
      sub_tick = as_hello hello_tick, sub_shutdown = as_hello hello_shutdown,
      sub_state = HelloState \<lparr>h_ticks = 0, pulses_sent = 0, echos_received = 0, h_tock = None\<rparr>\<rparr>"

definition tock_subsystem :: "(demo, u64, 'v) subsystem" where
  "tock_subsystem =
     \<lparr>sub_name = ''tock'', sub_deps = [''hello''], sub_access = exclusive_access, sub_init = as_tock tock_idle,
      sub_tick = as_tock tock_tick, sub_shutdown = as_tock tock_idle,
      sub_state = TockState \<lparr>pulses = 0, last_seq = 0\<rparr>\<rparr>"

definition demo_ok :: "nat \<Rightarrow> call_env \<Rightarrow> demo \<Rightarrow> bool" where
  "demo_ok i env st \<longleftrightarrow>
     \<not> debug_build env \<and> (case st of HelloState _ \<Rightarrow> i = 0 | TockState _ \<Rightarrow> i = 1)"

lemma callback_as_hello:
  fixes f :: "(hello, 'p, 'v) callback"
  assumes "callback_ok release any_route f"
  shows "callback_ok (demo_ok 0) any_route (as_hello f)"
  unfolding callback_ok_def
proof (intro allI impI, elim conjE)
  fix env :: call_env and st :: demo and c :: "('p, 'v) kctx"
  assume c: "ctx_inv c" and d: "demo_ok 0 env st"
  then obtain h where h: "st = HelloState h" "\<not> debug_build env" by (auto simp: demo_ok_def split: demo.splits)
  then obtain h' c' where "f env h c = Ret (h', c')" "ctx_inv c'" "edges (kbus c') = edges (kbus c)"
    using assms c unfolding callback_ok_def release_def any_route_def by blast
  with h show "\<exists>st' c'. as_hello f env st c = Ret (st', c') \<and> ctx_inv c' \<and> demo_ok 0 env st' \<and> edges (kbus c') = edges (kbus c)"
    by (auto simp: as_hello_def demo_ok_def)
qed

lemma callback_as_tock:
  fixes f :: "(tock, 'p, 'v) callback"
  assumes "callback_ok release any_route f"
  shows "callback_ok (demo_ok (Suc 0)) any_route (as_tock f)"
  unfolding callback_ok_def
proof (intro allI impI, elim conjE)
  fix env :: call_env and st :: demo and c :: "('p, 'v) kctx"
  assume c: "ctx_inv c" and d: "demo_ok (Suc 0) env st"
  then obtain t where t: "st = TockState t" "\<not> debug_build env" by (auto simp: demo_ok_def split: demo.splits)
  then obtain t' c' where "f env t c = Ret (t', c')" "ctx_inv c'" "edges (kbus c') = edges (kbus c)"
    using assms c unfolding callback_ok_def release_def any_route_def by blast
  with t show "\<exists>st' c'. as_tock f env st c = Ret (st', c') \<and> ctx_inv c' \<and> demo_ok (Suc 0) env st' \<and> edges (kbus c') = edges (kbus c)"
    by (auto simp: as_tock_def demo_ok_def)
qed

text \<open>A kernel with both drivers registered, whatever its bus, world, arena and tracer are.\<close>

definition demo_kernel :: "(u64, 'v) kctx \<Rightarrow> frame_tracer \<Rightarrow> (demo, u64, 'v) kernel" where
  "demo_kernel c t =
     \<lparr>entries = [(''hello'', hello_subsystem), (''tock'', tock_subsystem)], kc = c,
      knames = [''hello'', ''tock''], korder = [0, 1], kwaves = [[0], [1]], ktracer = t,
      initialized = True, frame_index = 0\<rparr>"

lemma demo_kernel_inv:
  assumes "ctx_inv c" "tracer_inv t"
  shows "kernel_inv False demo_ok (\<lambda>_. any_route) (demo_kernel c t)"
proof -
  have "driver (demo_ok 0) any_route (as_hello hello_init) (as_hello hello_tick) (as_hello hello_shutdown)"
    by unfold_locales (intro callback_as_hello hello_init_ok hello_tick_ok hello_shutdown_ok)+
  moreover have "driver (demo_ok (Suc 0)) any_route (as_tock tock_idle) (as_tock tock_tick) (as_tock tock_idle)"
    by unfold_locales (intro callback_as_tock tock_idle_ok tock_tick_ok)+
  ultimately have "drivers_ok False demo_ok (\<lambda>_. any_route) (demo_kernel c t)"
    by (auto simp: drivers_ok_def demo_kernel_def hello_subsystem_def tock_subsystem_def less_Suc_eq
        env_of_def demo_ok_def any_route_def)
  with assms show ?thesis by (simp add: kernel_inv_def demo_kernel_def)
qed

text \<open>A context and a tracer to start from.\<close>

definition start_ring :: "'a mpsc" where
  "start_ring = \<lparr>rbuf = replicate 32 None, rmask = 31, rhead = 0, rtail = 0, rlock = 0\<rparr>"

definition start_ctx :: "('p, 'v) kctx" where
  "start_ctx =
     \<lparr>kbus = \<lparr>outbox = start_ring, inboxes = [], edges = [], bus_next_seq = 0, undeclared_sends = 0\<rparr>,
      kworld = world_new, kdeferred = \<lparr>commands = [], dc_capacity = 4096\<rparr>, karena = arena_new 0 1048576\<rparr>"

definition start_tracer :: frame_tracer where
  "start_tracer = tracer_new \<lparr>rbuf = replicate 4 None, rmask = 3, rhead = 0, rtail = 0\<rparr> 1000000000 0"

lemma start_ctx_inv: "ctx_inv start_ctx"
proof -
  have "mpsc_inv (start_ring :: 'p envelope mpsc)"
    by (auto simp: mpsc_inv_def ring_inv_def ring_shape_def start_ring_def intro!: exI [of _ 5])
  then show ?thesis
    by (simp add: ctx_inv_def start_ctx_def bus_inv_def ring_cap_def ring_items_def start_ring_def
        deferred_inv_def arena_inv_new)
qed

lemma start_tracer_inv: "tracer_inv start_tracer"
  by (auto simp: tracer_inv_def start_tracer_def tracer_new_def ring_inv_def ring_shape_def intro!: exI [of _ 2])

section \<open>The kernel's properties on the demonstration drivers\<close>

lemma start_kernel_inv: "kernel_inv False demo_ok (\<lambda>_. any_route) (demo_kernel start_ctx start_tracer)"
  by (rule demo_kernel_inv [OF start_ctx_inv start_tracer_inv])

definition two_frames :: outside where
  "two_frames = \<lparr>keep_running = (\<lambda>i. i < 2), o_allocs = (\<lambda>_ _ _. True), o_durations = (\<lambda>_ _. 1), o_clock = (\<lambda>i. i)\<rparr>"

lemma two_frames_run: "frames_run two_frames 0 5 = 2"
  by (simp add: two_frames_def eval_nat_numeral)

lemma demo_kernel_fields:
  "initialized (demo_kernel c t)" "frame_index (demo_kernel c t) = 0" "korder (demo_kernel c t) = [0, 1]"
  "ktracer (demo_kernel c t) = t" "dropped start_tracer = 0"
  by (simp_all add: demo_kernel_def start_tracer_def tracer_new_def)

theorem run_until_returns_witness:
  "\<exists>k'. run_until False two_frames 5 (demo_kernel start_ctx start_tracer :: (demo, u64, nat) kernel) = Ret (Inr (), k')
     \<and> kernel_inv False demo_ok (\<lambda>_. any_route) k' \<and> frame_index k' = 2"
  using run_until_returns [OF start_kernel_inv, of 5 two_frames]
  by (simp only: demo_kernel_fields if_True) (auto simp: two_frames_run)

definition fresh_kernel :: "(demo, u64, nat) kernel" where
  "fresh_kernel = (demo_kernel start_ctx start_tracer)\<lparr>initialized := False, korder := [], kwaves := [], knames := []\<rparr>"

theorem register_rejects_duplicates_witness:
  "registry_register [(''hello'', hello_subsystem :: (demo, u64, nat) subsystem)] hello_subsystem =
     (Inl (DuplicateName ''hello''), [(''hello'', hello_subsystem)])"
  using register_rejects_duplicates [of "[(''hello'', hello_subsystem :: (demo, u64, nat) subsystem)]" hello_subsystem]
  by (simp add: registry_inv_def hello_subsystem_def)

lemma fresh_resolves: "resolve_dependencies (entries fresh_kernel) = Inr [[], [0]]"
  by (simp add: resolve_dependencies_def resolve_name_def fresh_kernel_def demo_kernel_def hello_subsystem_def
      tock_subsystem_def)

text \<open>Initialised, run for two frames and shut down: \<open>tock\<close> first, then \<open>hello\<close>, on which it depends.\<close>

lemma fresh_kernel_fields:
  "\<not> initialized fresh_kernel" "ctx_inv (kc fresh_kernel)" "length (entries fresh_kernel) = 2" "entries fresh_kernel = entries (demo_kernel c t)"
  "length (inboxes (kbus (kc fresh_kernel))) = 0" "tracer_inv (ktracer fresh_kernel)" "ktracer fresh_kernel = start_tracer" "frame_index fresh_kernel = 0"
  by (simp_all add: fresh_kernel_def demo_kernel_def start_ctx_inv start_tracer_inv) (simp add: start_ctx_def)

lemma fresh_kernel_starts:
  "\<exists>k1. kernel_init False (\<lambda>_ _. True) fresh_kernel = Ret (Inr (), k1) \<and> kernel_inv False demo_ok (\<lambda>_. any_route) k1
     \<and> korder k1 = [0, 1] \<and> frame_index k1 = 0 \<and> ktracer k1 = start_tracer \<and> initialized k1"
proof (rule kernel_init_spec [where als = "\<lambda>_ _. True" and debug = False, OF fresh_kernel_fields(1,2) fresh_resolves], goal_cases)
  case 1 then show ?case by simp
next
  case 2 then show ?case by (simp add: fresh_kernel_fields)
next
  case (3 c)
  have "deps_first [[], [0]] [0, 1]" by (simp add: deps_first_def less_Suc_eq)
  then have "\<not> is_cycle [[], [0]] c" using deps_first_acyclic [of "[[], [0]]" "[0, 1]"] by (auto simp: numeral_2_eq_2 lessThan_Suc)
  then show ?case using 3 by blast
next
  case (4 xs k2)
  have two: "length xs = 2" using 4(1,2) fresh_kernel_fields(3) distinct_card [of xs] by simp
  then obtain x y where xs: "xs = [x, y]" by (auto simp: length_Suc_conv numeral_2_eq_2)
  have "{x, y} = {0, 1}" using 4(2) xs by (auto simp: fresh_kernel_fields(3) numeral_2_eq_2 lessThan_Suc)
  moreover have "set ([[], [0 :: nat]] ! x) \<subseteq> {}" using 4(3) xs by (auto simp: deps_first_def)
  ultimately have o: "xs = [0, 1]" using xs by (auto simp: doubleton_eq_iff)
  let ?d = "demo_kernel start_ctx start_tracer :: (demo, u64, nat) kernel"
  have d: "entries k2 = entries ?d" "length (entries ?d) = 2" "kernel_inv False demo_ok (\<lambda>_. any_route) ?d"
    using 4(6) fresh_kernel_fields(4) [of start_ctx start_tracer] start_kernel_inv by (simp_all add: demo_kernel_def)
  have "kernel_inv False demo_ok (\<lambda>_. any_route) k2"
    using d 4(8,10) fresh_kernel_fields(6,7) o 4(5)
    by (auto simp: kernel_inv_def drivers_ok_def env_of_def demo_ok_def any_route_def Let_def)
  from call_all_spec [OF _ sel_keeps(1) this, of "[0, 1]" 0] obtain k3 where
    k3: "run_fold (call_driver False sub_init 0) xs k2 = Ret k3" "kernel_inv False demo_ok (\<lambda>_. any_route) k3" "kernel_frame_of k2 k3" "ktracer k3 = ktracer k2"
    using o 4(6) fresh_kernel_fields(3) by auto
  have "env_of False (k3\<lparr>initialized := True\<rparr>) j dt = env_of False k3 j dt" for j dt by (simp add: env_of_def)
  then have "kernel_inv False demo_ok (\<lambda>_. any_route) (k3\<lparr>initialized := True\<rparr>)"
    using k3(2) by (simp add: kernel_inv_def drivers_ok_def)
  then show ?case using 4(4,5,8,9) k3 o fresh_kernel_fields(7,8) by (simp add: kernel_frame_of_def)
qed

theorem shutdown_in_reverse_witness:
  "\<exists>k1 k k'. kernel_init False (\<lambda>_ _. True) fresh_kernel = Ret (Inr (), k1) \<and> run_until False two_frames 5 k1 = Ret (Inr (), k)
     \<and> frame_index k = 2 \<and> kernel_shutdown False k = Ret k'
     \<and> called_once sub_shutdown (\<lambda>i. env_of False k i 0) (entries k) (entries k') [1, 0] (kc k) (kc k')"
proof -
  obtain k1 where k1: "kernel_init False (\<lambda>_ _. True) fresh_kernel = Ret (Inr (), k1)" "kernel_inv False demo_ok (\<lambda>_. any_route) k1"
    "korder k1 = [0, 1]" "frame_index k1 = 0" "ktracer k1 = start_tracer" "initialized k1" using fresh_kernel_starts by blast
  have "\<exists>k. run_until False two_frames 5 k1 = Ret (Inr (), k) \<and> kernel_inv False demo_ok (\<lambda>_. any_route) k \<and> frame_index k = 2 \<and> korder k = [0, 1]"
    using frame_loop_spec [OF k1(2), of "unat (5 :: u64)" two_frames 0] k1(3-6) two_frames_run
    by (simp add: run_until_def demo_kernel_fields(5)) auto
  then obtain k where k: "run_until False two_frames 5 k1 = Ret (Inr (), k)" "kernel_inv False demo_ok (\<lambda>_. any_route) k"
    "frame_index k = 2" "korder k = [0, 1]" by blast
  have "length (entries fresh_kernel) \<le> usize_max" by (simp add: fresh_kernel_fields(3) usize_max_def)
  from shutdown_in_reverse [OF fresh_kernel_fields(1) k1(1) this ran_more [OF ran_none k(1)] k(2)] k1(1) k show ?thesis by auto
qed

theorem init_in_dependency_order_witness:
  "(\<exists>c. is_cycle [[], [0]] c \<and> kernel_init False (\<lambda>_ _. True) fresh_kernel =
        Ret (Inl (DependencyCycle (map ((!) (map fst (entries fresh_kernel))) c)), fresh_kernel\<lparr>knames := map fst (entries fresh_kernel)\<rparr>))
   \<or> (\<nexists>c. is_cycle [[], [0]] c) \<and> (\<exists>xs k2. distinct xs \<and> set xs = {..<2} \<and> deps_first [[], [0]] xs
      \<and> kernel_init False (\<lambda>_ _. True) fresh_kernel =
          run_bind (run_fold (call_driver False sub_init 0) xs k2) (\<lambda>k3. Ret (Inr (), k3\<lparr>initialized := True\<rparr>)))"
proof -
  have "\<not> initialized fresh_kernel" "ctx_inv (kc fresh_kernel)"
    "length (inboxes (kbus (kc fresh_kernel))) + length (entries fresh_kernel) \<le> 2 ^ 32"
    "length (entries fresh_kernel) = 2"
    by (simp_all add: fresh_kernel_def demo_kernel_def start_ctx_inv) (simp add: start_ctx_def)
  with init_in_dependency_order [OF this(1,2) fresh_resolves, of "\<lambda>_ _. True" False] show ?thesis by auto
qed

end
