(* ===== verification/Spsc_Concurrent.thy ===== *)
theory Spsc_Concurrent
  imports Ring
begin

text \<open>
  \<open>SpscRing\<close> under concurrency: the producer and the consumer of \<open>src/src/kernel/bus.rs\<close> run as
  two threads whose loads, slot accesses and stores interleave freely. Each atomic access of
  \<open>push\<close> and \<open>pop\<close> is one step, so a loaded index can be stale when it is used. The memory model is
  interleaving; the acquire and release orderings of the source are what makes that adequate.
  A step that would overwrite an unread value, read an empty slot or leave the buffer sets
  \<open>fault\<close>, and no reachable state has it.
\<close>

section \<open>The two threads\<close>

datatype 'a producer =
    PIdle
  | PTail 'a u64
  | PBoth 'a u64 u64
  | PStore 'a u64

datatype 'a consumer =
    CIdle
  | CHead u64
  | CBoth u64 u64
  | CStore 'a u64

text \<open>\<open>sent\<close> and \<open>recvd\<close> are the values whose \<open>push\<close> and \<open>pop\<close> have completed, in order.\<close>

record 'a spsc_state =
  shared :: "'a ring"
  prod :: "'a producer"
  cons :: "'a consumer"
  sent :: "'a list"
  recvd :: "'a list"
  fault :: bool

text \<open>A step of the thread that calls \<open>push\<close>; an idle producer starts a call with value \<open>x\<close>.\<close>

definition prod_step :: "'a \<Rightarrow> 'a spsc_state \<Rightarrow> 'a spsc_state" where
  "prod_step x s =
     (let r = shared s
      in case prod s of
           PIdle \<Rightarrow> s\<lparr>prod := PTail x (rtail r)\<rparr>
         | PTail v t \<Rightarrow> s\<lparr>prod := PBoth v t (rhead r)\<rparr>
         | PBoth v t h \<Rightarrow>
             (if t - h \<ge> ring_capacity r then s\<lparr>prod := PIdle\<rparr>
              else let i = unat (t AND rmask r)
                   in if i \<ge> length (rbuf r) \<or> rbuf r ! i \<noteq> None then s\<lparr>fault := True\<rparr>
                      else s\<lparr>shared := r\<lparr>rbuf := (rbuf r)[i := Some v]\<rparr>, prod := PStore v t\<rparr>)
         | PStore v t \<Rightarrow> s\<lparr>shared := r\<lparr>rtail := t + 1\<rparr>, prod := PIdle, sent := sent s @ [v]\<rparr>)"

text \<open>A step of the thread that calls \<open>pop\<close>.\<close>

definition cons_step :: "'a spsc_state \<Rightarrow> 'a spsc_state" where
  "cons_step s =
     (let r = shared s
      in case cons s of
           CIdle \<Rightarrow> s\<lparr>cons := CHead (rhead r)\<rparr>
         | CHead h \<Rightarrow> s\<lparr>cons := CBoth h (rtail r)\<rparr>
         | CBoth h t \<Rightarrow>
             (if h = t then s\<lparr>cons := CIdle\<rparr>
              else let i = unat (h AND rmask r)
                   in if i \<ge> length (rbuf r) then s\<lparr>fault := True\<rparr>
                      else case rbuf r ! i of
                             None \<Rightarrow> s\<lparr>fault := True\<rparr>
                           | Some v \<Rightarrow> s\<lparr>shared := r\<lparr>rbuf := (rbuf r)[i := None]\<rparr>, cons := CStore v h\<rparr>)
         | CStore v h \<Rightarrow> s\<lparr>shared := r\<lparr>rhead := h + 1\<rparr>, cons := CIdle, recvd := recvd s @ [v]\<rparr>)"

inductive spsc_step :: "'a spsc_state \<Rightarrow> 'a spsc_state \<Rightarrow> bool" where
  producer: "spsc_step s (prod_step x s)"
| consumer: "spsc_step s (cons_step s)"

definition spsc_initial :: "'a ring \<Rightarrow> 'a spsc_state" where
  "spsc_initial r = \<lparr>shared = r, prod = PIdle, cons = CIdle, sent = [], recvd = [], fault = False\<rparr>"

inductive spsc_reachable :: "'a ring \<Rightarrow> 'a spsc_state \<Rightarrow> bool" for r where
  init: "spsc_reachable r (spsc_initial r)"
| step: "spsc_reachable r s \<Longrightarrow> spsc_step s s' \<Longrightarrow> spsc_reachable r s'"

section \<open>The window of live slots\<close>

text \<open>The slots of the positions from \<open>lo\<close> up to \<open>length vals\<close> hold those values; the others are empty.\<close>

definition live_window :: "'a option list \<Rightarrow> 'a list \<Rightarrow> nat \<Rightarrow> bool" where
  "live_window buf vals lo \<longleftrightarrow>
     lo \<le> length vals \<and> length vals - lo \<le> length buf
     \<and> (\<forall>k. lo \<le> k \<and> k < length vals \<longrightarrow> buf ! (k mod length buf) = Some (vals ! k))
     \<and> (\<forall>i < length buf. (\<forall>k. lo \<le> k \<and> k < length vals \<longrightarrow> k mod length buf \<noteq> i) \<longrightarrow> buf ! i = None)"

lemma mod_window_inj:
  assumes "k mod c = j mod c" "lo \<le> k" "k < lo + c" "lo \<le> j" "j < lo + (c :: nat)"
  shows "k = j"
proof -
  have "k - lo = j - lo" using assms by (intro mod_add_inj [of lo "k - lo" c "j - lo"]) auto
  then show ?thesis using assms by simp
qed

lemma window_push:
  assumes w: "live_window buf vals lo" and room: "length vals - lo < length buf"
  shows "buf ! (length vals mod length buf) = None"
    and "live_window (buf[length vals mod length buf := Some v]) (vals @ [v]) lo"
proof -
  let ?n = "length vals" and ?c = "length buf"
  have c: "0 < ?c" using room by linarith
  have lt: "?n mod ?c < ?c" using c by simp
  have neq: "k mod ?c \<noteq> ?n mod ?c" if "lo \<le> k" "k < ?n" for k
    using mod_window_inj [of k ?c ?n lo] that room by (auto simp: less_diff_conv2)
  then show "buf ! (?n mod ?c) = None" using w lt by (auto simp: live_window_def)
  have lo: "lo \<le> ?n" using w by (simp add: live_window_def)
  show "live_window (buf[?n mod ?c := Some v]) (vals @ [v]) lo"
    unfolding live_window_def length_list_update length_append_singleton
  proof (intro conjI allI impI)
    fix k assume "lo \<le> k \<and> k < Suc ?n"
    then show "buf[?n mod ?c := Some v] ! (k mod ?c) = Some ((vals @ [v]) ! k)"
      using w lt neq [of k] by (cases "k = ?n") (auto simp: live_window_def nth_append)
  next
    fix i assume i: "i < ?c" "\<forall>k. lo \<le> k \<and> k < Suc ?n \<longrightarrow> k mod ?c \<noteq> i"
    then have "i \<noteq> ?n mod ?c" using lo by auto
    with i w show "buf[?n mod ?c := Some v] ! i = None" by (auto simp: live_window_def)
  qed (use w room in \<open>auto simp: live_window_def\<close>)
qed

lemma window_take:
  assumes w: "live_window buf vals lo" and ne: "lo < length vals"
  shows "buf ! (lo mod length buf) = Some (vals ! lo)"
    and "live_window (buf[lo mod length buf := None]) vals (Suc lo)"
proof -
  let ?n = "length vals" and ?c = "length buf"
  show "buf ! (lo mod ?c) = Some (vals ! lo)" using w ne by (auto simp: live_window_def)
  have le: "?n - lo \<le> ?c" using w by (simp add: live_window_def)
  have neq: "lo mod ?c \<noteq> k mod ?c" if "Suc lo \<le> k" "k < ?n" for k
    using mod_window_inj [of lo ?c k lo] that le by fastforce
  show "live_window (buf[lo mod ?c := None]) vals (Suc lo)"
    unfolding live_window_def length_list_update
  proof (intro conjI allI impI)
    fix k assume "Suc lo \<le> k \<and> k < ?n"
    then show "buf[lo mod ?c := None] ! (k mod ?c) = Some (vals ! k)"
      using w neq [of k] by (auto simp: live_window_def)
  next
    fix i assume i: "i < ?c" "\<forall>k. Suc lo \<le> k \<and> k < ?n \<longrightarrow> k mod ?c \<noteq> i"
    show "buf[lo mod ?c := None] ! i = None"
    proof (cases "i = lo mod ?c")
      case False
      then have "\<forall>k. lo \<le> k \<and> k < ?n \<longrightarrow> k mod ?c \<noteq> i" using i(2) by (metis Suc_leI le_eq_less_or_eq)
      with w i False show ?thesis by (auto simp: live_window_def)
    qed (use i in simp)
  qed (use ne le in auto)
qed

section \<open>The invariant of the interleaving\<close>

definition window_low :: "'a spsc_state \<Rightarrow> nat" where
  "window_low s = length (recvd s) + (case cons s of CStore _ _ \<Rightarrow> 1 | _ \<Rightarrow> 0)"

definition window_vals :: "'a spsc_state \<Rightarrow> 'a list" where
  "window_vals s = sent s @ (case prod s of PStore v _ \<Rightarrow> [v] | _ \<Rightarrow> [])"

text \<open>A loaded own index is exact; a loaded foreign index may lag behind, never run ahead.\<close>

definition prod_ok :: "'a spsc_state \<Rightarrow> bool" where
  "prod_ok s =
     (case prod s of
        PIdle \<Rightarrow> True
      | PTail v t \<Rightarrow> t = of_nat (length (sent s))
      | PBoth v t h \<Rightarrow> t = of_nat (length (sent s)) \<and>
          (\<exists>n \<le> length (recvd s). h = of_nat n \<and> length (sent s) \<le> n + length (rbuf (shared s)))
      | PStore v t \<Rightarrow> t = of_nat (length (sent s)) \<and>
          length (sent s) < length (recvd s) + length (rbuf (shared s)))"

definition cons_ok :: "'a spsc_state \<Rightarrow> bool" where
  "cons_ok s =
     (case cons s of
        CIdle \<Rightarrow> True
      | CHead h \<Rightarrow> h = of_nat (length (recvd s))
      | CBoth h t \<Rightarrow> h = of_nat (length (recvd s)) \<and>
          (\<exists>n \<le> length (sent s). t = of_nat n \<and> length (recvd s) \<le> n
             \<and> n \<le> length (recvd s) + length (rbuf (shared s)))
      | CStore v h \<Rightarrow> h = of_nat (length (recvd s)) \<and> length (recvd s) < length (sent s)
          \<and> v = sent s ! length (recvd s))"

definition spsc_inv :: "'a spsc_state \<Rightarrow> bool" where
  "spsc_inv s \<longleftrightarrow>
     \<not> fault s \<and> ring_shape (shared s)
     \<and> rhead (shared s) = of_nat (length (recvd s)) \<and> rtail (shared s) = of_nat (length (sent s))
     \<and> length (sent s) \<le> length (recvd s) + length (rbuf (shared s))
     \<and> length (recvd s) \<le> length (sent s) \<and> recvd s = take (length (recvd s)) (sent s)
     \<and> live_window (rbuf (shared s)) (window_vals s) (window_low s)
     \<and> prod_ok s \<and> cons_ok s"

lemma of_nat_slot:
  assumes "ring_shape r"
  shows "unat (of_nat k AND rmask r) = k mod length (rbuf r)"
proof -
  from assms obtain n where n: "n < 64" "length (rbuf r) = 2 ^ n" "rmask r = of_nat (2 ^ n - 1)"
    by (auto simp: ring_shape_def)
  then have m: "n < LENGTH(64)" by simp
  show ?thesis
    unfolding n(2,3) and_mask_mod [OF m] using unat_add_mod [OF m, of 0 k] by simp
qed

lemma unat_of_nat_distance:
  assumes "n \<le> m" "m \<le> n + 9223372036854775808"
  shows "unat (of_nat m - of_nat n :: u64) = m - n"
proof -
  have "of_nat m - of_nat n = (of_nat (m - n) :: u64)" using assms by (simp add: of_nat_diff)
  then show ?thesis using assms by (simp add: unat_of_nat_u64 del: of_nat_diff)
qed

lemma ring_shape_buf_update [simp]:
  "ring_shape (r\<lparr>rbuf := (rbuf r)[i := x]\<rparr>) = ring_shape r"
  "ring_shape (r\<lparr>rtail := t\<rparr>) = ring_shape r" "ring_shape (r\<lparr>rhead := h\<rparr>) = ring_shape r"
  by (simp_all add: ring_shape_def)

lemma spsc_initial_inv:
  assumes "spsc_try_with_capacity al n = Inr r"
  shows "spsc_inv (spsc_initial r)"
proof -
  have "ring_shape r" using spsc_try_with_capacity_spec(1) [OF assms] by (simp add: ring_inv_def)
  with assms show ?thesis
    by (auto simp: spsc_inv_def spsc_initial_def prod_ok_def cons_ok_def live_window_def
        window_vals_def window_low_def spsc_try_with_capacity_def Let_def split: option.splits if_splits)
qed

lemma stale_index:
  "n \<le> b \<Longrightarrow> Q n \<Longrightarrow> \<exists>m\<le>b. (of_nat n :: u64) = of_nat m \<and> Q m"
  by blast

lemma prod_step_inv:
  assumes inv: "spsc_inv s"
  shows "spsc_inv (prod_step x s)"
proof (cases "prod s")
  case PIdle
  with inv show ?thesis
    by (auto simp: spsc_inv_def prod_step_def prod_ok_def cons_ok_def window_vals_def window_low_def
        split: consumer.splits)
next
  case (PTail v t)
  with inv show ?thesis
    by (auto simp: spsc_inv_def prod_step_def prod_ok_def cons_ok_def window_vals_def window_low_def
        split: consumer.splits)
next
  case (PStore v t)
  then show ?thesis
    using inv
    by (auto simp: spsc_inv_def prod_step_def prod_ok_def cons_ok_def window_vals_def window_low_def
        nth_append split: consumer.splits) (rule stale_index, simp_all)
next
  case (PBoth v t h)
  let ?r = "shared s" and ?n = "length (sent s)"
  have sh: "ring_shape ?r" and t: "t = of_nat ?n" using inv PBoth by (simp_all add: spsc_inv_def prod_ok_def)
  obtain m where m: "m \<le> length (recvd s)" "h = of_nat m" "?n \<le> m + length (rbuf ?r)"
    using inv PBoth by (auto simp: spsc_inv_def prod_ok_def)
  have mn: "m \<le> ?n" using inv m(1) by (simp add: spsc_inv_def)
  have dist: "unat (t - h) = ?n - m"
    unfolding t m(2) using mn m(3) ring_shape_cap(2) [OF sh] by (intro unat_of_nat_distance) auto
  have vals: "window_vals s = sent s" using PBoth by (simp add: window_vals_def)
  show ?thesis
  proof (cases "t - h \<ge> ring_capacity ?r")
    case True
    with inv PBoth show ?thesis
      by (auto simp: spsc_inv_def prod_step_def prod_ok_def cons_ok_def window_vals_def window_low_def
          split: consumer.splits)
  next
    case False
    then have room: "?n < m + length (rbuf ?r)"
      using dist ring_shape_cap(3) [OF sh] mn by (simp add: word_le_nat_alt)
    have w: "live_window (rbuf ?r) (sent s) (window_low s)" using inv vals by (simp add: spsc_inv_def)
    have "?n - window_low s < length (rbuf ?r)" using room m(1) mn by (simp add: window_low_def)
    note push = window_push [OF w this]
    have i: "unat (t AND rmask ?r) = ?n mod length (rbuf ?r)" unfolding t by (rule of_nat_slot [OF sh])
    have "0 < length (rbuf ?r)" using ring_shape_cap(1) [OF sh] by linarith
    then have "?n mod length (rbuf ?r) < length (rbuf ?r)" by (rule mod_less_divisor)
    then have "prod_step x s = s\<lparr>shared := ?r\<lparr>rbuf := (rbuf ?r)[?n mod length (rbuf ?r) := Some v]\<rparr>,
        prod := PStore v t\<rparr>"
      using PBoth False push(1) by (simp add: prod_step_def Let_def i not_le)
    then show ?thesis
      using inv push(2) room m(1) t
      by (auto simp: spsc_inv_def prod_ok_def cons_ok_def window_vals_def window_low_def
          split: consumer.splits)
  qed
qed

lemma cons_step_inv:
  assumes inv: "spsc_inv s"
  shows "spsc_inv (cons_step s)"
proof (cases "cons s")
  case CIdle
  with inv show ?thesis
    by (auto simp: spsc_inv_def cons_step_def prod_ok_def cons_ok_def window_vals_def window_low_def
        split: producer.splits)
next
  case (CHead h)
  with inv show ?thesis
    by (auto simp: spsc_inv_def cons_step_def prod_ok_def cons_ok_def window_vals_def window_low_def
        split: producer.splits)
next
  case (CStore v h)
  then have "length (recvd s) < length (sent s)" "v = sent s ! length (recvd s)"
    "recvd s = take (length (recvd s)) (sent s)"
    using inv by (auto simp: spsc_inv_def cons_ok_def)
  then have "recvd s @ [v] = take (Suc (length (recvd s))) (sent s)"
    by (metis take_Suc_conv_app_nth)
  with CStore inv show ?thesis
    by (auto simp: spsc_inv_def cons_step_def prod_ok_def cons_ok_def window_vals_def window_low_def
        split: producer.splits) (rule stale_index, simp_all)
next
  case (CBoth h t)
  let ?r = "shared s" and ?n = "length (recvd s)"
  have sh: "ring_shape ?r" and h: "h = of_nat ?n" using inv CBoth by (simp_all add: spsc_inv_def cons_ok_def)
  obtain m where m: "m \<le> length (sent s)" "t = of_nat m" "?n \<le> m" "m \<le> ?n + length (rbuf ?r)"
    using inv CBoth by (auto simp: spsc_inv_def cons_ok_def)
  have dist: "unat (t - h) = m - ?n"
    unfolding h m(2) using m(3,4) ring_shape_cap(2) [OF sh] by (intro unat_of_nat_distance) auto
  show ?thesis
  proof (cases "h = t")
    case True
    with inv CBoth show ?thesis
      by (auto simp: spsc_inv_def cons_step_def prod_ok_def cons_ok_def window_vals_def window_low_def
          split: producer.splits)
  next
    case False
    then have "0 < unat (t - h)" by (simp add: unat_gt_0)
    with dist have lt: "?n < length (sent s)" using m(1) by simp
    have w: "live_window (rbuf ?r) (window_vals s) ?n"
      using inv CBoth by (simp add: spsc_inv_def window_low_def)
    have "?n < length (window_vals s)" using lt by (simp add: window_vals_def)
    note take = window_take [OF w this]
    have val: "window_vals s ! ?n = sent s ! ?n" using lt by (simp add: window_vals_def nth_append)
    have i: "unat (h AND rmask ?r) = ?n mod length (rbuf ?r)" unfolding h by (rule of_nat_slot [OF sh])
    have "0 < length (rbuf ?r)" using ring_shape_cap(1) [OF sh] by linarith
    then have "?n mod length (rbuf ?r) < length (rbuf ?r)" by (rule mod_less_divisor)
    then have "cons_step s = s\<lparr>shared := ?r\<lparr>rbuf := (rbuf ?r)[?n mod length (rbuf ?r) := None]\<rparr>,
        cons := CStore (sent s ! ?n) h\<rparr>"
      using CBoth False take(1) val by (simp add: cons_step_def Let_def i not_le)
    then show ?thesis
      using inv take(2) lt h
      by (auto simp: spsc_inv_def prod_ok_def cons_ok_def window_vals_def window_low_def
          split: producer.splits)
  qed
qed

lemma spsc_reachable_inv:
  assumes "spsc_try_with_capacity al n = Inr r" "spsc_reachable r s"
  shows "spsc_inv s"
  using assms(2)
proof induction
  case init
  show ?case using assms(1) by (rule spsc_initial_inv)
next
  case (step s s')
  then show ?case by (auto elim!: spsc_step.cases intro: prod_step_inv cons_step_inv)
qed

section \<open>Progress\<close>

text \<open>With room, a producer that runs undisturbed completes its push in four steps.\<close>

lemma prod_completes:
  assumes inv: "spsc_inv s" and idle: "prod s = PIdle"
    and room: "length (sent s) < length (recvd s) + length (rbuf (shared s))"
  shows "sent ((prod_step x ^^ 4) s) = sent s @ [x]"
proof -
  let ?s1 = "prod_step x s" and ?r = "shared s"
  let ?s2 = "prod_step x ?s1"
  let ?s3 = "prod_step x ?s2"
  have s2: "?s2 = s\<lparr>prod := PBoth x (rtail ?r) (rhead ?r)\<rparr>" using idle by (simp add: prod_step_def)
  have "spsc_inv ?s3" using inv by (intro prod_step_inv)
  then have nf: "\<not> fault ?s3" by (simp add: spsc_inv_def)
  have sh: "ring_shape ?r" and idx: "rhead ?r = of_nat (length (recvd s))" "rtail ?r = of_nat (length (sent s))"
    "length (recvd s) \<le> length (sent s)" using inv by (simp_all add: spsc_inv_def)
  have "unat (rtail ?r - rhead ?r) < unat (ring_capacity ?r)"
    unfolding idx ring_shape_cap(3) [OF sh]
    using room idx(3) ring_shape_cap(2) [OF sh] by (subst unat_of_nat_distance) auto
  then have lt: "\<not> rtail ?r - rhead ?r \<ge> ring_capacity ?r" by (simp add: word_le_nat_alt)
  have "\<exists>r'. ?s3 = s\<lparr>shared := r', prod := PStore x (rtail ?r)\<rparr>"
    using nf lt unfolding s2 by (auto simp: prod_step_def Let_def split: if_splits)
  then have "sent (prod_step x ?s3) = sent s @ [x]" by (auto simp: prod_step_def)
  then show ?thesis by (simp add: eval_nat_numeral)
qed

text \<open>With a value waiting, a consumer that runs undisturbed takes it in four steps.\<close>

lemma cons_completes:
  assumes inv: "spsc_inv s" and idle: "cons s = CIdle" and some: "length (recvd s) < length (sent s)"
  shows "recvd ((cons_step ^^ 4) s) = recvd s @ [sent s ! length (recvd s)]"
proof -
  let ?r = "shared s"
  have s2: "cons_step (cons_step s) = s\<lparr>cons := CBoth (rhead ?r) (rtail ?r)\<rparr>" using idle by (simp add: cons_step_def)
  let ?s3 = "cons_step (cons_step (cons_step s))"
  have inv3: "spsc_inv ?s3" using inv by (intro cons_step_inv)
  then have nf: "\<not> fault ?s3" by (simp add: spsc_inv_def)
  have sh: "ring_shape ?r" and idx: "rhead ?r = of_nat (length (recvd s))" "rtail ?r = of_nat (length (sent s))"
    "length (sent s) \<le> length (recvd s) + length (rbuf ?r)" using inv by (simp_all add: spsc_inv_def)
  have "unat (rtail ?r - rhead ?r) = length (sent s) - length (recvd s)"
    unfolding idx using some idx(3) ring_shape_cap(2) [OF sh] by (intro unat_of_nat_distance) auto
  with some have ne: "rhead ?r \<noteq> rtail ?r" by auto
  obtain v r' where s3: "?s3 = s\<lparr>shared := r', cons := CStore v (rhead ?r)\<rparr>"
    using nf ne unfolding s2 by (auto simp: cons_step_def Let_def split: if_splits option.splits)
  then have "v = sent s ! length (recvd s)" using inv3 by (simp add: spsc_inv_def cons_ok_def)
  with s3 have "recvd (cons_step ?s3) = recvd s @ [sent s ! length (recvd s)]" by (simp add: cons_step_def)
  then show ?thesis by (simp add: eval_nat_numeral)
qed

text \<open>
  C6: \<open>SpscRing\<close> with one producer and one consumer thread. In every interleaving of their atomic
  accesses, no slot is overwritten before it was read and none is read while empty; what was
  received is a prefix of what was sent, at most a buffer behind; and neither thread can be kept
  from completing: with room, a push takes effect in four steps of its own, and with a value waiting
  a pop takes the oldest one in four steps.
\<close>

theorem spsc_concurrent_fifo:
  assumes new: "spsc_try_with_capacity al n = Inr r" and reach: "spsc_reachable r s"
  shows "\<not> fault s \<and> (\<exists>rest. sent s = recvd s @ rest \<and> length rest \<le> length (rbuf (shared s)))
     \<and> (prod s = PIdle \<and> length (sent s) - length (recvd s) < length (rbuf (shared s)) \<longrightarrow>
          sent ((prod_step x ^^ 4) s) = sent s @ [x])
     \<and> (cons s = CIdle \<and> recvd s \<noteq> sent s \<longrightarrow>
          recvd ((cons_step ^^ 4) s) = recvd s @ [sent s ! length (recvd s)])"
proof -
  have inv: "spsc_inv s" by (rule spsc_reachable_inv [OF assms])
  have pre: "recvd s = take (length (recvd s)) (sent s)" and le: "length (recvd s) \<le> length (sent s)"
    "length (sent s) \<le> length (recvd s) + length (rbuf (shared s))" using inv by (simp_all add: spsc_inv_def)
  have "sent s = recvd s @ drop (length (recvd s)) (sent s)" using pre by (metis append_take_drop_id)
  moreover have "length (drop (length (recvd s)) (sent s)) \<le> length (rbuf (shared s))" using le(2) by simp
  moreover have "length (recvd s) < length (sent s)" if "recvd s \<noteq> sent s"
    using pre le(1) that by (metis le_neq_implies_less take_all_iff order_refl)
  moreover have "\<not> fault s" using inv by (simp add: spsc_inv_def)
  moreover have "sent ((prod_step x ^^ 4) s) = sent s @ [x]"
    if "prod s = PIdle" "length (sent s) - length (recvd s) < length (rbuf (shared s))"
    using that le(1) by (intro prod_completes [OF inv]) linarith+
  ultimately show ?thesis using cons_completes [OF inv] by blast
qed

definition small_ring :: "nat ring" where
  "small_ring = \<lparr>rbuf = replicate 4 None, rmask = 3, rhead = 0, rtail = 0\<rparr>"

theorem spsc_concurrent_fifo_witness:
  "\<not> fault (spsc_initial small_ring) \<and> (\<exists>rest. sent (spsc_initial small_ring) = recvd (spsc_initial small_ring) @ rest
         \<and> length rest \<le> length (rbuf (shared (spsc_initial small_ring))))
     \<and> sent ((prod_step 7 ^^ 4) (spsc_initial small_ring)) = [7]"
proof -
  have "spsc_try_with_capacity (\<lambda>_. True) 4 = Inr small_ring"
    by (simp add: small_ring_def spsc_try_with_capacity_def checked_next_power_of_two_def upt_rec)
  from spsc_concurrent_fifo [OF this spsc_reachable.init, of 7] show ?thesis
    by (simp add: spsc_initial_def small_ring_def)
qed

end
