(* ===== verification/Mpsc_Concurrent.thy ===== *)
theory Mpsc_Concurrent
  imports Ring
begin

text \<open>
  \<open>MpscRing\<close> under concurrency: any number of threads call \<open>push\<close> and \<open>pop\<close> of
  \<open>src/src/kernel/bus.rs\<close>. The compare-exchange of \<open>acquire\<close>, the loads of the two indices, the
  slot access with the index update, and the store of the guard's \<open>drop\<close> are separate steps that
  interleave freely. The spinlock is shown to exclude, and the ring to stay a FIFO queue whose
  order is the order of the critical sections.
\<close>

datatype 'a mcall = CallPush 'a | CallPop

datatype 'a mthread =
    Outside
  | Spinning "'a mcall"
  | Entered "'a mcall"
  | Loaded "'a mcall" u64 u64
  | Leaving

record 'a mpsc_state =
  mring :: "'a mpsc"
  threads :: "nat \<Rightarrow> 'a mthread"
  accepted :: "'a list"
  taken :: "'a list"
  mfault :: bool

text \<open>The critical sections on the loaded indices \<open>t\<close> (tail) and \<open>h\<close> (head).\<close>

definition push_body :: "'a mpsc \<Rightarrow> u64 \<Rightarrow> u64 \<Rightarrow> 'a \<Rightarrow> (('a + unit) \<times> 'a mpsc) run" where
  "push_body r t h v =
     (if t - h \<ge> ring_capacity r then Ret (Inl v, r)
      else let i = unat (t AND rmask r)
           in if i \<ge> length (rbuf r) then UB
              else Ret (Inr (), r\<lparr>rbuf := (rbuf r)[i := Some v], rtail := t + 1\<rparr>))"

definition pop_body :: "'a mpsc \<Rightarrow> u64 \<Rightarrow> u64 \<Rightarrow> ('a option \<times> 'a mpsc) run" where
  "pop_body r t h =
     (if h = t then Ret (None, r)
      else let i = unat (h AND rmask r)
           in if i \<ge> length (rbuf r) then UB
              else case rbuf r ! i of
                     None \<Rightarrow> UB
                   | Some v \<Rightarrow> Ret (Some v, r\<lparr>rbuf := (rbuf r)[i := None], rhead := h + 1\<rparr>))"

text \<open>One step of thread \<open>i\<close>; a thread outside the ring starts the call \<open>c\<close>.\<close>

definition thread_step :: "nat \<Rightarrow> 'a mcall \<Rightarrow> 'a mpsc_state \<Rightarrow> 'a mpsc_state" where
  "thread_step i c s =
     (let r = mring s; go = (\<lambda>t s. s\<lparr>threads := (threads s)(i := t)\<rparr>)
      in case threads s i of
           Outside \<Rightarrow> go (Spinning c) s
         | Spinning k \<Rightarrow> (if rlock r = 0 then go (Entered k) (s\<lparr>mring := r\<lparr>rlock := 1\<rparr>\<rparr>) else s)
         | Entered k \<Rightarrow> go (Loaded k (rtail r) (rhead r)) s
         | Loaded (CallPush v) t h \<Rightarrow>
             (case push_body r t h v of
                Ret (Inr _, r') \<Rightarrow> go Leaving (s\<lparr>mring := r', accepted := accepted s @ [v]\<rparr>)
              | Ret (Inl _, r') \<Rightarrow> go Leaving (s\<lparr>mring := r'\<rparr>)
              | _ \<Rightarrow> s\<lparr>mfault := True\<rparr>)
         | Loaded CallPop t h \<Rightarrow>
             (case pop_body r t h of
                Ret (Some v, r') \<Rightarrow> go Leaving (s\<lparr>mring := r', taken := taken s @ [v]\<rparr>)
              | Ret (None, r') \<Rightarrow> go Leaving (s\<lparr>mring := r'\<rparr>)
              | _ \<Rightarrow> s\<lparr>mfault := True\<rparr>)
         | Leaving \<Rightarrow> go Outside (s\<lparr>mring := r\<lparr>rlock := 0\<rparr>\<rparr>))"

inductive mpsc_reachable :: "'a mpsc \<Rightarrow> 'a mpsc_state \<Rightarrow> bool" for r where
  init: "mpsc_reachable r \<lparr>mring = r, threads = (\<lambda>_. Outside), accepted = [], taken = [], mfault = False\<rparr>"
| step: "mpsc_reachable r s \<Longrightarrow> mpsc_reachable r (thread_step i c s)"

section \<open>Mutual exclusion and order\<close>

fun in_critical :: "'a mthread \<Rightarrow> bool" where
  "in_critical Outside = False"
| "in_critical (Spinning _) = False"
| "in_critical _ = True"

fun loaded_ok :: "'a mpsc \<Rightarrow> 'a mthread \<Rightarrow> bool" where
  "loaded_ok r (Loaded _ t h) \<longleftrightarrow> t = rtail r \<and> h = rhead r"
| "loaded_ok r _ \<longleftrightarrow> True"

definition mpsc_state_inv :: "'a mpsc_state \<Rightarrow> bool" where
  "mpsc_state_inv s \<longleftrightarrow>
     \<not> mfault s \<and> ring_inv (mring s)
     \<and> (\<forall>i j. in_critical (threads s i) \<and> in_critical (threads s j) \<longrightarrow> i = j)
     \<and> (rlock (mring s) = 0 \<longleftrightarrow> (\<forall>i. \<not> in_critical (threads s i)))
     \<and> (\<forall>i. loaded_ok (mring s) (threads s i))
     \<and> accepted s = taken s @ ring_items (mring s)"

lemma loaded_critical: "\<not> in_critical t \<Longrightarrow> loaded_ok r t"
  by (cases t) auto

lemma push_body_ring: "push_body r (rtail r) (rhead r) v = ring_push r v"
  by (simp add: push_body_def ring_push_def Let_def)

lemma pop_body_ring: "pop_body r (rtail r) (rhead r) = ring_pop r"
  by (simp add: pop_body_def ring_pop_def Let_def)

text \<open>Only the owner of the lock touches the ring, so a body step may change it freely.\<close>

lemma body_step_inv:
  assumes inv: "mpsc_state_inv s" and i: "in_critical (threads s i)"
    and r: "ring_inv r'" "rlock r' = rlock (mring s)" "acc = tk @ ring_items r'"
  shows "mpsc_state_inv (s\<lparr>mring := r', accepted := acc, taken := tk, threads := (threads s)(i := Leaving)\<rparr>)"
proof -
  have others: "\<not> in_critical (threads s j)" if "j \<noteq> i" for j
    using inv i that by (auto simp: mpsc_state_inv_def)
  then have "loaded_ok r' (((threads s)(i := Leaving)) j)" for j
    by (simp add: loaded_critical)
  moreover have "rlock (mring s) \<noteq> 0" using inv i by (auto simp: mpsc_state_inv_def)
  ultimately show ?thesis
    using inv r others by (auto simp: mpsc_state_inv_def)
qed

lemma more_rlock: "ring.more r' = ring.more r \<Longrightarrow> rlock r' = rlock (r :: 'a mpsc)"
  by (cases r; cases r') simp

lemma thread_step_inv:
  assumes inv: "mpsc_state_inv s"
  shows "mpsc_state_inv (thread_step i c s)"
proof (cases "threads s i")
  case Outside
  with inv show ?thesis by (auto simp: mpsc_state_inv_def thread_step_def) (metis in_critical.simps(1))
next
  case (Spinning k)
  have ok: "loaded_ok (r\<lparr>rlock := l\<rparr>) t = loaded_ok r t" for r :: "'a mpsc" and l t
    by (cases t) auto
  show ?thesis
  proof (cases "rlock (mring s) = 0")
    case True
    with inv have none: "\<not> in_critical (threads s j)" for j by (simp add: mpsc_state_inv_def)
    have "thread_step i c s = s\<lparr>mring := (mring s)\<lparr>rlock := 1\<rparr>, threads := (threads s)(i := Entered k)\<rparr>"
      using Spinning True by (simp add: thread_step_def Let_def)
    then show ?thesis using inv none by (auto simp: mpsc_state_inv_def ok split: if_splits)
  next
    case False
    then have "thread_step i c s = s" using Spinning by (simp add: thread_step_def)
    with inv show ?thesis by simp
  qed
next
  case (Entered k)
  have "in_critical (threads s i)" using Entered by simp
  with inv have others: "in_critical (threads s j) \<longleftrightarrow> j = i" for j by (auto simp: mpsc_state_inv_def)
  from Entered have "thread_step i c s =
      s\<lparr>threads := (threads s)(i := Loaded k (rtail (mring s)) (rhead (mring s)))\<rparr>"
    by (simp add: thread_step_def Let_def)
  with inv others show ?thesis by (auto simp: mpsc_state_inv_def split: if_splits)
next
  case Leaving
  have ok: "loaded_ok (r\<lparr>rlock := l\<rparr>) t = loaded_ok r t" for r :: "'a mpsc" and l t
    by (cases t) auto
  from Leaving inv have "\<not> in_critical (threads s j)" if "j \<noteq> i" for j
    using that by (auto simp: mpsc_state_inv_def)
  moreover from Leaving have "thread_step i c s =
      s\<lparr>mring := (mring s)\<lparr>rlock := 0\<rparr>, threads := (threads s)(i := Outside)\<rparr>"
    by (simp add: thread_step_def Let_def)
  ultimately show ?thesis using inv by (auto simp: mpsc_state_inv_def ok split: if_splits)
next
  case (Loaded k t h)
  then have crit: "in_critical (threads s i)" by simp
  let ?r = "mring s"
  have "loaded_ok ?r (threads s i)" using inv by (simp add: mpsc_state_inv_def)
  then have th: "t = rtail ?r" "h = rhead ?r" using Loaded by simp_all
  have ri: "ring_inv ?r" and eq: "accepted s = taken s @ ring_items ?r"
    using inv by (auto simp: mpsc_state_inv_def)
  note body = body_step_inv [OF inv crit]
  have idle: "mpsc_state_inv (s\<lparr>threads := (threads s)(i := Leaving)\<rparr>)"
    using body [OF ri refl eq] by simp
  show ?thesis
  proof (cases k)
    case (CallPush v)
    show ?thesis
    proof (cases "length (ring_items ?r) < ring_cap ?r")
      case True
      then obtain r' where r': "ring_push ?r v = Ret (Inr (), r')" "ring_inv r'"
        "ring_items r' = ring_items ?r @ [v]" "ring.more r' = ring.more ?r"
        using ring_push_ok [OF ri] by blast
      with body [OF r'(2) more_rlock [OF r'(4)], of "accepted s @ [v]" "taken s"] eq Loaded CallPush th
      show ?thesis by (simp add: thread_step_def push_body_ring)
    next
      case False
      then have "ring_push ?r v = Ret (Inl v, ?r)"
        using ri by (intro ring_push_full) (auto simp: ring_inv_def ring_cap_def)
      with idle Loaded CallPush th
      show ?thesis by (simp add: thread_step_def push_body_ring)
    qed
  next
    case CallPop
    show ?thesis
    proof (cases "ring_items ?r")
      case Nil
      then have "ring_pop ?r = Ret (None, ?r)" by (rule ring_pop_empty)
      with idle Loaded CallPop th
      show ?thesis by (simp add: thread_step_def pop_body_ring)
    next
      case (Cons x xs)
      then obtain r' where r': "ring_pop ?r = Ret (Some x, r')" "ring_inv r'" "ring_items r' = xs"
        "ring.more r' = ring.more ?r"
        using ring_pop_ok [OF ri] by blast
      then have "accepted s = (taken s @ [x]) @ ring_items r'" using eq Cons by simp
      from body [OF r'(2) more_rlock [OF r'(4)] this] Loaded CallPop th r'(1)
      show ?thesis by (simp add: thread_step_def pop_body_ring)
    qed
  qed
qed

lemma mpsc_reachable_inv:
  assumes "mpsc_try_with_capacity al n = Inr r" "mpsc_reachable r s"
  shows "mpsc_state_inv s"
  using assms(2)
proof induction
  case init
  show ?case using mpsc_try_with_capacity_spec [OF assms(1)]
    by (auto simp: mpsc_state_inv_def mpsc_inv_def)
qed (rule thread_step_inv)

text \<open>
  C7: \<open>MpscRing\<close> with any number of threads. In every interleaving at most one thread is between its
  successful compare-exchange and the release of the lock, the lock word is 0 exactly when there is
  none, no access is out of range or reads an empty slot, and the values taken followed by the values in
  the ring are the values accepted, in order.
\<close>

theorem mpsc_mutual_exclusion_fifo:
  assumes new: "mpsc_try_with_capacity al n = Inr r" and reach: "mpsc_reachable r s"
  shows "\<not> mfault s \<and> (\<forall>i j. in_critical (threads s i) \<and> in_critical (threads s j) \<longrightarrow> i = j)
     \<and> (rlock (mring s) = 0 \<longleftrightarrow> (\<forall>i. \<not> in_critical (threads s i)))
     \<and> accepted s = taken s @ ring_items (mring s) \<and> length (ring_items (mring s)) \<le> ring_cap (mring s)"
proof -
  have "mpsc_state_inv s" by (rule mpsc_reachable_inv [OF assms])
  then show ?thesis by (simp add: mpsc_state_inv_def ring_inv_def ring_cap_def)
qed

definition two_pushers :: "nat mpsc \<Rightarrow> nat mpsc_state" where
  "two_pushers r =
     thread_step 1 CallPop (thread_step 0 CallPop (thread_step 1 (CallPush 8) (thread_step 0 (CallPush 7)
       \<lparr>mring = r, threads = (\<lambda>_. Outside), accepted = [], taken = [], mfault = False\<rparr>)))"

definition small_mpsc :: "nat mpsc" where
  "small_mpsc = \<lparr>rbuf = replicate 4 None, rmask = 3, rhead = 0, rtail = 0, rlock = 0\<rparr>"

theorem mpsc_mutual_exclusion_fifo_witness:
  "\<not> mfault (two_pushers small_mpsc)
     \<and> in_critical (threads (two_pushers small_mpsc) 0) \<and> \<not> in_critical (threads (two_pushers small_mpsc) 1)"
proof -
  have "mpsc_try_with_capacity (\<lambda>_. True) 4 = Inr small_mpsc"
    by (simp add: small_mpsc_def mpsc_try_with_capacity_def checked_next_power_of_two_def upt_rec)
  moreover have "mpsc_reachable small_mpsc (two_pushers small_mpsc)"
    unfolding two_pushers_def by (intro mpsc_reachable.intros)
  ultimately have all: "\<not> mfault (two_pushers small_mpsc)"
    "in_critical (threads (two_pushers small_mpsc) 0) \<and> in_critical (threads (two_pushers small_mpsc) 1) \<longrightarrow> (0 :: nat) = 1"
    using mpsc_mutual_exclusion_fifo by blast+
  have "in_critical (threads (two_pushers small_mpsc) 0)"
    by (simp add: two_pushers_def thread_step_def small_mpsc_def)
  with all show ?thesis by simp
qed

end
