(* ===== verification/Wire.thy ===== *)
theory Wire
  imports Prelude
begin

text \<open>
  The wire format of \<open>src/src/kernel/sync.rs\<close>: little-endian integers, the packet envelope, the
  checksum of a log record and the constant-time comparison of authentication tags. The keyed hash
  itself (HMAC-SHA256, a third-party crate) is a parameter: a function from messages to tags.
\<close>

section \<open>Packets and their errors\<close>

type_synonym bytes = "u8 list"

datatype sync_mode = Offline | Online

datatype sync_kind = Snapshot | Delta | Event

record sync_packet =
  sequence :: u64
  pkt_ack :: u64
  kind :: sync_kind
  key :: u64
  data :: bytes

datatype sync_error =
    EmptyPayload
  | PayloadTooLarge
  | Backpressure
  | SyncAllocationFailed
  | InvalidPacket
  | ReceiveTooLarge
  | PersistenceFailed
  | InvalidConfig
  | NoSession
  | AuthenticationFailed

datatype wal_error = WalIo | InvalidRecord | RecordTooLarge | TooManyRecords | WalAllocationFailed

section \<open>Little-endian integers\<close>

fun le_digits :: "nat \<Rightarrow> nat \<Rightarrow> bytes" where
  "le_digits 0 x = []"
| "le_digits (Suc n) x = of_nat (x mod 256) # le_digits n (x div 256)"

fun le_value :: "bytes \<Rightarrow> nat" where
  "le_value [] = 0"
| "le_value (b # bs) = unat b + 256 * le_value bs"

definition u64_to_le :: "u64 \<Rightarrow> bytes" where
  "u64_to_le w = le_digits 8 (unat w)"

definition u64_from_le :: "bytes \<Rightarrow> u64" where
  "u64_from_le bs = of_nat (le_value bs)"

definition u32_to_le :: "u32 \<Rightarrow> bytes" where
  "u32_to_le w = le_digits 4 (unat w)"

definition u32_from_le :: "bytes \<Rightarrow> u32" where
  "u32_from_le bs = of_nat (le_value bs)"

lemma le_digits_numeral:
  "le_digits (numeral n) x = of_nat (x mod 256) # le_digits (pred_numeral n) (x div 256)"
  by (subst numeral_eq_Suc) (rule le_digits.simps(2))

lemma length_le_digits [simp]: "length (le_digits n x) = n"
  by (induction n arbitrary: x) simp_all

lemma length_u64_to_le [simp]: "length (u64_to_le w) = 8"
  and length_u32_to_le [simp]: "length (u32_to_le v) = 4"
  by (simp_all add: u64_to_le_def u32_to_le_def)

lemma unat_of_nat_mod_256: "unat (of_nat (x mod 256) :: u8) = x mod 256"
  by (simp add: unat_of_nat)

lemma le_value_digits: "x < 256 ^ n \<Longrightarrow> le_value (le_digits n x) = x"
proof (induction n arbitrary: x)
  case (Suc n)
  then have "x div 256 < 256 ^ n" by (simp add: less_mult_imp_div_less mult.commute)
  then show ?case using Suc.IH [of "x div 256"] by (simp add: unat_of_nat_mod_256)
qed simp

lemma u64_le_roundtrip [simp]: "u64_from_le (u64_to_le w) = w"
proof -
  have "le_value (u64_to_le w) = unat w"
    unfolding u64_to_le_def using unat_u64_less [of w] by (intro le_value_digits) simp
  then show ?thesis by (simp add: u64_from_le_def)
qed

lemma u32_le_roundtrip [simp]: "u32_from_le (u32_to_le w) = w"
proof -
  have "le_value (u32_to_le w) = unat w"
    unfolding u32_to_le_def using unat_u32_less [of w] by (intro le_value_digits) simp
  then show ?thesis by (simp add: u32_from_le_def)
qed

lemma le_value_less: "le_value bs < 256 ^ length bs"
proof (induction bs)
  case (Cons b bs)
  have "unat b < 256" using unsigned_less [of b] by simp
  with Cons show ?case by simp
qed simp

lemma le_digits_value: "length bs = n \<Longrightarrow> le_digits n (le_value bs) = bs"
proof (induction bs arbitrary: n)
  case (Cons b bs)
  have "unat b < 256" using unsigned_less [of b] by simp
  with Cons show ?case by auto
qed simp

lemma u64_from_le_inj: "length bs = 8 \<Longrightarrow> u64_to_le (u64_from_le bs) = bs"
  using le_value_less [of bs] by (simp add: u64_to_le_def u64_from_le_def unat_of_nat_u64 le_digits_value)

lemma u32_from_le_inj: "length bs = 4 \<Longrightarrow> u32_to_le (u32_from_le bs) = bs"
  using le_value_less [of bs]
  by (simp add: u32_to_le_def u32_from_le_def unat_of_nat_u32 u32_max_def le_digits_value)

section \<open>The packet envelope\<close>

fun kind_byte :: "sync_kind \<Rightarrow> u8" where
  "kind_byte Snapshot = 0"
| "kind_byte Delta = 1"
| "kind_byte Event = 2"

definition byte_kind :: "u8 \<Rightarrow> sync_kind option" where
  "byte_kind b = (if b = 0 then Some Snapshot else if b = 1 then Some Delta else if b = 2 then Some Event else None)"

text \<open>The envelope \<open>encode_packet\<close> writes: version, kind, three integers, the length, the payload.\<close>

definition envelope_bytes :: "sync_packet \<Rightarrow> bytes" where
  "envelope_bytes p =
     [1, kind_byte (kind p)] @ u64_to_le (sequence p) @ u64_to_le (pkt_ack p) @ u64_to_le (key p)
       @ u32_to_le (of_nat (length (data p))) @ data p"

definition encode_packet :: "alloc \<Rightarrow> sync_packet \<Rightarrow> sync_error + bytes" where
  "encode_packet al p =
     (if data p = [] then Inl EmptyPayload
      else if length (data p) > u32_max then Inl PayloadTooLarge
      else case checked_add 30 (length (data p)) of
             None \<Rightarrow> Inl PayloadTooLarge
           | Some _ \<Rightarrow> if \<not> al 0 then Inl SyncAllocationFailed else Inr (envelope_bytes p))"

text \<open>The slice \<open>bytes[a..b]\<close>, in range.\<close>

definition slice :: "nat \<Rightarrow> nat \<Rightarrow> 'a list \<Rightarrow> 'a list" where
  "slice a b xs = take (b - a) (drop a xs)"

text \<open>The fields of an envelope of at least 30 bytes.\<close>

definition envelope_packet :: "sync_kind \<Rightarrow> bytes \<Rightarrow> sync_packet" where
  "envelope_packet k bs =
     \<lparr>sequence = u64_from_le (slice 2 10 bs), pkt_ack = u64_from_le (slice 10 18 bs), kind = k,
      key = u64_from_le (slice 18 26 bs), data = drop 30 bs\<rparr>"

definition envelope_len :: "bytes \<Rightarrow> nat" where
  "envelope_len bs = unat (u32_from_le (slice 26 30 bs))"

text \<open>\<open>decode_packet\<close>, the decoder of the log.\<close>

definition decode_packet :: "alloc \<Rightarrow> bytes \<Rightarrow> nat \<Rightarrow> wal_error + sync_packet" where
  "decode_packet al bs max_payload =
     (if length bs < 30 \<or> bs ! 0 \<noteq> 1 then Inl InvalidRecord
      else case byte_kind (bs ! 1) of
        None \<Rightarrow> Inl InvalidRecord
      | Some k \<Rightarrow>
         (case checked_add 30 (envelope_len bs) of
            None \<Rightarrow> Inl RecordTooLarge
          | Some all \<Rightarrow>
              (if envelope_len bs = 0 \<or> envelope_len bs > max_payload \<or> all \<noteq> length bs then Inl RecordTooLarge
               else if \<not> al 0 then Inl WalAllocationFailed
               else Inr (envelope_packet k bs))))"

lemma byte_kind_inverse [simp]: "byte_kind (kind_byte k) = Some k"
  by (cases k) (simp_all add: byte_kind_def)

lemma byte_kind_Some: "byte_kind b = Some k \<longleftrightarrow> b = kind_byte k"
  by (cases k) (auto simp: byte_kind_def)

lemma slice_append [simp]:
  "slice (length xs) (length xs + length ys) (xs @ ys @ zs) = ys"
  by (simp add: slice_def)

lemma envelope_fields:
  fixes p :: sync_packet
  shows "length (envelope_bytes p) = 30 + length (data p)"
    "envelope_bytes p ! 0 = 1" "envelope_bytes p ! Suc 0 = kind_byte (kind p)"
    "slice 2 10 (envelope_bytes p) = u64_to_le (sequence p)"
    "slice 10 18 (envelope_bytes p) = u64_to_le (pkt_ack p)"
    "slice 18 26 (envelope_bytes p) = u64_to_le (key p)"
    "slice 26 30 (envelope_bytes p) = u32_to_le (of_nat (length (data p)))"
    "drop 30 (envelope_bytes p) = data p"
  by (simp_all add: envelope_bytes_def slice_def)

lemma envelope_packet_bytes:
  "envelope_packet (kind p) (envelope_bytes p) = p"
  unfolding envelope_packet_def envelope_fields by simp

lemma envelope_len_bytes:
  "length (data p) \<le> u32_max \<Longrightarrow> envelope_len (envelope_bytes p) = length (data p)"
  by (simp add: envelope_len_def envelope_fields unat_of_nat_u32)

text \<open>A packet the codec accepts within a bound on the payload.\<close>

definition packet_fits :: "nat \<Rightarrow> sync_packet \<Rightarrow> bool" where
  "packet_fits m p \<longleftrightarrow> data p \<noteq> [] \<and> length (data p) \<le> m \<and> length (data p) \<le> u32_max"

lemma encode_packet_fits:
  assumes "packet_fits m p" "al 0"
  shows "encode_packet al p = Inr (envelope_bytes p)"
  using assms by (auto simp: encode_packet_def packet_fits_def checked_add_def usize_max_def u32_max_def)

lemma decode_envelope:
  assumes "packet_fits m p" "al 0"
  shows "decode_packet al (envelope_bytes p) m = Inr p"
proof -
  have len: "envelope_len (envelope_bytes p) = length (data p)" "length (data p) \<le> m" "data p \<noteq> []"
    "checked_add 30 (length (data p)) = Some (30 + length (data p))"
    using assms(1) by (simp_all add: packet_fits_def envelope_len_bytes checked_add_def usize_max_def u32_max_def)
  then show ?thesis using assms(2)
    by (simp add: decode_packet_def envelope_fields envelope_packet_bytes)
qed

text \<open>Conversely the decoder accepts nothing but envelopes.\<close>

lemma split_30:
  assumes "30 \<le> length (bs :: bytes)"
  shows "bs = [bs ! 0, bs ! 1] @ slice 2 10 bs @ slice 10 18 bs @ slice 18 26 bs @ slice 26 30 bs @ drop 30 bs"
proof -
  have chunk: "drop a bs = slice a b bs @ drop b bs" if "a \<le> b" for a b
    using that by (simp add: slice_def) (metis append_take_drop_id drop_drop le_add_diff_inverse2)
  have "bs = bs ! 0 # bs ! 1 # drop 2 bs"
    using assms by (cases bs; cases "tl bs") auto
  also have "drop 2 bs = slice 2 10 bs @ slice 10 18 bs @ slice 18 26 bs @ slice 26 30 bs @ drop 30 bs"
    using chunk [of 2 10] chunk [of 10 18] chunk [of 18 26] chunk [of 26 30] by simp
  finally show ?thesis by simp
qed

lemma decode_packet_Inr:
  assumes "decode_packet al bs m = Inr p"
  shows "bs = envelope_bytes p" "packet_fits m p"
proof -
  obtain k where len: "30 \<le> length bs" "bs ! 0 = 1" and k: "bs ! 1 = kind_byte k"
    and p: "p = envelope_packet k bs" and n: "envelope_len bs \<noteq> 0" "envelope_len bs \<le> m"
    "length bs = 30 + envelope_len bs"
    using assms
    by (auto simp: decode_packet_def byte_kind_Some checked_add_def split: if_splits option.splits)
  have d: "length (data p) = envelope_len bs" using p n(3) by (simp add: envelope_packet_def)
  have sl: "length (slice a b bs) = b - a" if "b \<le> 30" for a b using that len(1) by (simp add: slice_def)
  have "of_nat (envelope_len bs) = u32_from_le (slice 26 30 bs)" by (simp add: envelope_len_def)
  then have "u32_to_le (of_nat (length (data p))) = slice 26 30 bs"
    using d sl by (simp add: u32_from_le_inj)
  then have "envelope_bytes p = [bs ! 0, bs ! 1] @ slice 2 10 bs @ slice 10 18 bs @ slice 18 26 bs @ slice 26 30 bs @ drop 30 bs"
    using p len(2) k sl by (simp add: envelope_bytes_def envelope_packet_def u64_from_le_inj)
  with split_30 [OF len(1)] show "bs = envelope_bytes p" by simp
  have "envelope_len bs \<le> u32_max" using unat_u32_less by (simp add: envelope_len_def u32_max_def less_Suc_eq_le [symmetric])
  then show "packet_fits m p" using n d by (auto simp: packet_fits_def)
qed

section \<open>The checksum of a log record\<close>

text \<open>FNV-1a on 32 bits, seeded with the kind of the record.\<close>

definition fnv_step :: "u8 \<Rightarrow> u32 \<Rightarrow> u32" where
  "fnv_step b h = (h XOR ucast b) * 16777619"

definition wal_checksum :: "u8 \<Rightarrow> bytes \<Rightarrow> u32" where
  "wal_checksum k body = fold fnv_step body (2166136261 XOR ucast k)"

lemma fnv_prime_inverse: "(16777619 :: u32) * 899433627 = 1"
  by simp

lemma fnv_mult_inj: "(x :: u32) * 16777619 = y * 16777619 \<longleftrightarrow> x = y"
proof
  assume "x * 16777619 = y * 16777619"
  then have "(x * 16777619) * 899433627 = (y * 16777619) * 899433627" by (rule arg_cong)
  then show "x = y" unfolding mult.assoc fnv_prime_inverse by simp
qed simp

lemma xor_left_cancel: "a XOR b = a XOR c \<longleftrightarrow> b = (c :: 'a::len word)"
proof
  assume "a XOR b = a XOR c"
  then have "(a XOR a) XOR b = (a XOR a) XOR c" by (simp only: xor.assoc)
  then show "b = c" by simp
qed simp

lemma xor_right_cancel: "b XOR a = c XOR a \<longleftrightarrow> b = (c :: 'a::len word)"
  using xor_left_cancel [of a b c] by (simp add: xor.commute)

lemma u8_ucast_inj: "(ucast (b :: u8) :: u32) = ucast b' \<longleftrightarrow> b = b'"
proof
  assume "(ucast b :: u32) = ucast b'"
  then have "unat (ucast b :: u32) = unat (ucast b' :: u32)" by simp
  moreover have "unat (ucast c :: u32) = unat c" for c :: u8
  proof -
    have "unat c < 256" using unsigned_less [of c] by simp
    then show ?thesis by (simp add: unsigned_ucast_eq take_bit_nat_eq_self)
  qed
  ultimately show "b = b'" by (simp add: word_unat_eq_iff)
qed simp

lemma fnv_step_inj: "fnv_step b h = fnv_step b h' \<longleftrightarrow> h = h'" "fnv_step b h = fnv_step b' h \<longleftrightarrow> b = b'"
  unfolding fnv_step_def fnv_mult_inj xor_left_cancel xor_right_cancel u8_ucast_inj by simp_all

lemma fnv_fold_inj: "fold fnv_step bs h = fold fnv_step bs h' \<longleftrightarrow> h = h'"
  by (induction bs arbitrary: h h') (simp_all add: fnv_step_inj(1))

text \<open>Any change of a single byte of a record body changes the checksum.\<close>

lemma wal_checksum_single_byte:
  assumes "i < length body" "b \<noteq> body ! i"
  shows "wal_checksum k (body[i := b]) \<noteq> wal_checksum k body"
proof -
  let ?h = "fold fnv_step (take i body) (2166136261 XOR ucast k)" and ?tl = "drop (Suc i) body"
  have "fold fnv_step (body[i := b]) (2166136261 XOR ucast k) = fold fnv_step ?tl (fnv_step b ?h)"
    using assms(1) by (simp add: upd_conv_take_nth_drop)
  moreover have "fold fnv_step body (2166136261 XOR ucast k) = fold fnv_step ?tl (fnv_step (body ! i) ?h)"
    by (subst id_take_nth_drop [OF assms(1)]) simp
  ultimately show ?thesis using assms(2) by (simp add: wal_checksum_def fnv_fold_inj fnv_step_inj(2))
qed

section \<open>Authentication\<close>

text \<open>
  \<open>verify_tag\<close>: the bytes of both tags are compared without an early exit. \<open>tag\<close> is the keyed hash.
\<close>

definition tag_difference :: "bytes \<Rightarrow> bytes \<Rightarrow> u8" where
  "tag_difference xs ys = fold (\<lambda>(l, r) d. d OR (l XOR r)) (zip xs ys) 0"

definition verify_tag :: "(bytes \<Rightarrow> bytes) \<Rightarrow> bytes \<Rightarrow> bytes \<Rightarrow> bool" where
  "verify_tag tag msg expected \<longleftrightarrow> tag_difference (tag msg) expected = 0"

lemma tag_fold_zero:
  "fold (\<lambda>(l, r) d. d OR (l XOR r)) ps (a :: u8) = 0 \<longleftrightarrow> a = 0 \<and> (\<forall>(l, r)\<in>set ps. l = r)"
proof (induction ps arbitrary: a)
  case (Cons q ps)
  have z: "x OR y = 0 \<longleftrightarrow> x = 0 \<and> y = 0" for x y :: u8 by (rule or_eq_0_iff)
  have "l XOR r = 0 \<longleftrightarrow> l = r" for l r :: u8 using xor_left_cancel [of l r l] by auto
  with Cons z show ?case by (auto split: prod.splits)
qed simp

lemma verify_tag_iff:
  "length (tag msg) = length expected \<Longrightarrow> verify_tag tag msg expected \<longleftrightarrow> tag msg = expected"
  by (auto simp: verify_tag_def tag_difference_def tag_fold_zero set_zip list_eq_iff_nth_eq)

text \<open>
  \<open>HmacSha256Authenticator\<close>: a non-empty key, and the tag \<open>hmac key message\<close> of the HMAC library, which
  has 32 bytes; dropping the authenticator overwrites the key.
\<close>

record hmac_authenticator =
  auth_key :: bytes

definition hmac_new :: "alloc \<Rightarrow> bytes \<Rightarrow> sync_error + hmac_authenticator" where
  "hmac_new al k =
     (if k = [] then Inl AuthenticationFailed else if \<not> al 0 then Inl SyncAllocationFailed else Inr \<lparr>auth_key = k\<rparr>)"

definition authentication_tag :: "(bytes \<Rightarrow> bytes \<Rightarrow> bytes) \<Rightarrow> hmac_authenticator \<Rightarrow> bytes \<Rightarrow> bytes" where
  "authentication_tag hmac a msg = hmac (auth_key a) msg"

definition hmac_drop :: "hmac_authenticator \<Rightarrow> hmac_authenticator" where
  "hmac_drop a = a\<lparr>auth_key := replicate (length (auth_key a)) 0\<rparr>"

text \<open>
  \<open>encode_authenticated_packet\<close>: the nonce, the envelope, and the tag of both. The reservations are
  those of the envelope, of the signed part, and of the tag.
\<close>

definition encode_authenticated_packet ::
  "alloc \<Rightarrow> (bytes \<Rightarrow> bytes) \<Rightarrow> bytes \<Rightarrow> sync_packet \<Rightarrow> sync_error + bytes" where
  "encode_authenticated_packet al tag nonce p =
     (case encode_packet al p of
        Inl e \<Rightarrow> Inl e
      | Inr enc \<Rightarrow>
         (case checked_add 16 (length enc) of
            None \<Rightarrow> Inl PayloadTooLarge
          | Some signed_len \<Rightarrow>
             (case checked_add signed_len 32 of
                None \<Rightarrow> Inl PayloadTooLarge
              | Some _ \<Rightarrow>
                 (if \<not> al 1 \<or> \<not> al 2 then Inl SyncAllocationFailed
                  else Inr (nonce @ enc @ tag (nonce @ enc))))))"

section \<open>Properties\<close>

text \<open>
  C14: The packet codec is a bijection. Whatever \<open>encode_packet\<close> produces for a packet within the
  payload bound decodes to that packet, and whatever bytes \<open>decode_packet\<close> accepts are exactly the
  encoding of the packet it returns, which is within the bound.
\<close>

theorem packet_codec_roundtrip:
  assumes al: "al 0" and max: "max_payload \<le> u32_max"
  shows "encode_packet al p = Inr bs \<and> length (data p) \<le> max_payload \<longleftrightarrow> decode_packet al bs max_payload = Inr p"
proof
  assume enc: "encode_packet al p = Inr bs \<and> length (data p) \<le> max_payload"
  then have "bs = envelope_bytes p" "packet_fits max_payload p"
    by (auto simp: encode_packet_def packet_fits_def split: if_splits option.splits)
  then show "decode_packet al bs max_payload = Inr p" using decode_envelope al by simp
next
  assume "decode_packet al bs max_payload = Inr p"
  from decode_packet_Inr [OF this] show "encode_packet al p = Inr bs \<and> length (data p) \<le> max_payload"
    using encode_packet_fits [of max_payload p al] al by (simp add: packet_fits_def)
qed

definition sample_packet :: sync_packet where
  "sample_packet = \<lparr>sequence = 7, pkt_ack = 300, kind = Delta, key = 9, data = [1, 2, 3]\<rparr>"

theorem packet_codec_roundtrip_witness:
  "decode_packet (\<lambda>_. True) (envelope_bytes sample_packet) 64 = Inr sample_packet"
proof -
  have "encode_packet (\<lambda>_. True) sample_packet = Inr (envelope_bytes sample_packet) \<and> length (data sample_packet) \<le> 64"
    by (simp add: encode_packet_def sample_packet_def checked_add_def usize_max_def u32_max_def)
  then show ?thesis
    using packet_codec_roundtrip [of "\<lambda>_. True" 64 sample_packet "envelope_bytes sample_packet"]
    by (simp add: u32_max_def)
qed

end
