(* ===== verification/Wal.thy ===== *)
theory Wal
  imports Wire
begin

text \<open>
  The write-ahead log \<open>SyncWal\<close> of \<open>src/src/kernel/sync.rs\<close>. The log file is its contents, a list of
  bytes. A write can fail after any number of bytes (a full disk, a power loss), and a read can fail
  at any call: \<open>wr\<close> is \<open>None\<close> when the writes and the sync succeed and \<open>Some k\<close> when they stop after
  \<open>k\<close> bytes; \<open>rd n\<close> says whether the \<open>n\<close>-th read of a replay succeeds.
\<close>

section \<open>The log\<close>

record wal =
  wal_file :: bytes
  max_payload_bytes :: nat
  max_records :: nat

definition wal_magic :: bytes where
  "wal_magic = [82, 75, 87, 49]"

definition wal_packet_kind :: u8 where
  "wal_packet_kind = 1"

definition wal_ack_kind :: u8 where
  "wal_ack_kind = 2"

definition wal_header :: nat where
  "wal_header = 4 + 1 + 4"

definition wal_trailer :: nat where
  "wal_trailer = 4"

definition open_with_limits :: "bool \<Rightarrow> bytes \<Rightarrow> nat \<Rightarrow> nat \<Rightarrow> wal_error + wal" where
  "open_with_limits io_ok contents mp mr =
     (if mr = 0 then Inl TooManyRecords
      else if \<not> io_ok then Inl WalIo
      else Inr \<lparr>wal_file = contents, max_payload_bytes = mp, max_records = mr\<rparr>)"

text \<open>The bytes \<open>write_wal_record\<close> writes, in the order of its five writes.\<close>

definition record_bytes :: "u8 \<Rightarrow> bytes \<Rightarrow> bytes" where
  "record_bytes k body =
     wal_magic @ [k] @ u32_to_le (of_nat (length body)) @ body @ u32_to_le (wal_checksum k body)"

definition write_wal_record :: "nat option \<Rightarrow> bytes \<Rightarrow> u8 \<Rightarrow> bytes \<Rightarrow> (wal_error + unit) \<times> bytes" where
  "write_wal_record wr file k body =
     (if body = [] \<or> length body > u32_max then (Inl RecordTooLarge, file)
      else case wr of
             None \<Rightarrow> (Inr (), file @ record_bytes k body)
           | Some n \<Rightarrow> (Inl WalIo, file @ take n (record_bytes k body)))"

definition append_record :: "nat option \<Rightarrow> wal \<Rightarrow> u8 \<Rightarrow> bytes \<Rightarrow> (wal_error + unit) \<times> wal" where
  "append_record wr w k body =
     (if body = [] \<or> length body > u32_max then (Inl RecordTooLarge, w)
      else let (r, f) = write_wal_record wr (wal_file w) k body in (r, w\<lparr>wal_file := f\<rparr>))"

definition wal_error_of :: "sync_error \<Rightarrow> wal_error" where
  "wal_error_of e = (if e = SyncAllocationFailed then WalAllocationFailed else RecordTooLarge)"

definition wal_append :: "alloc \<Rightarrow> nat option \<Rightarrow> wal \<Rightarrow> sync_packet \<Rightarrow> (wal_error + unit) \<times> wal" where
  "wal_append al wr w p =
     (if data p = [] \<or> length (data p) > max_payload_bytes w then (Inl RecordTooLarge, w)
      else case encode_packet al p of
             Inl e \<Rightarrow> (Inl (wal_error_of e), w)
           | Inr body \<Rightarrow> append_record wr w wal_packet_kind body)"

definition wal_acknowledge :: "nat option \<Rightarrow> wal \<Rightarrow> u64 \<Rightarrow> (wal_error + unit) \<times> wal" where
  "wal_acknowledge wr w s = append_record wr w wal_ack_kind (u64_to_le s)"

section \<open>Replay\<close>

text \<open>\<open>read_exact\<close>: the next \<open>n\<close> bytes and the rest, or the end of the file.\<close>

datatype read_result = ReadOk bytes bytes | ReadEof | ReadFailed

definition read_exact :: "bool \<Rightarrow> nat \<Rightarrow> bytes \<Rightarrow> read_result" where
  "read_exact ok n rest =
     (if \<not> ok then ReadFailed
      else if length rest < n then ReadEof
      else ReadOk (take n rest) (drop n rest))"

text \<open>What a complete record does to the packets recovered so far.\<close>

definition replay_packet :: "nat \<Rightarrow> sync_packet \<Rightarrow> sync_packet list \<Rightarrow> wal_error + sync_packet list" where
  "replay_packet mr p pending =
     (case position (\<lambda>q. sequence q = sequence p) pending of
        Some i \<Rightarrow> Inr (pending[i := p])
      | None \<Rightarrow> if length pending \<ge> mr then Inl TooManyRecords else Inr (pending @ [p]))"

definition replay_record ::
  "alloc \<Rightarrow> nat \<Rightarrow> nat \<Rightarrow> u8 \<Rightarrow> bytes \<Rightarrow> sync_packet list \<Rightarrow> wal_error + sync_packet list" where
  "replay_record al mp mr k body pending =
     (if k = wal_packet_kind
      then (case decode_packet al body mp of Inl e \<Rightarrow> Inl e | Inr p \<Rightarrow> replay_packet mr p pending)
      else if k = wal_ack_kind
      then (if length body \<noteq> 8 then Inl InvalidRecord
            else Inr (filter (\<lambda>p. sequence p > u64_from_le body) pending))
      else Inl InvalidRecord)"

text \<open>
  The loop of \<open>replay\<close>. Record \<open>j\<close> performs the reads \<open>3j\<close>, \<open>3j+1\<close>, \<open>3j+2\<close> and the reservations of
  \<open>als j\<close>: the first for the body, the second for the payload. The loop ends because every turn
  consumes at least a header.
\<close>

function replay_loop ::
  "(nat \<Rightarrow> bool) \<Rightarrow> (nat \<Rightarrow> alloc) \<Rightarrow> nat \<Rightarrow> nat \<Rightarrow> nat \<Rightarrow> bytes \<Rightarrow> sync_packet list \<Rightarrow> wal_error + sync_packet list"
  where
  "replay_loop rd als mp mr j file pending =
     (case read_exact (rd (3 * j)) wal_header file of
        ReadEof \<Rightarrow> Inr pending
      | ReadFailed \<Rightarrow> Inl WalIo
      | ReadOk header rest \<Rightarrow>
         (if take 4 header \<noteq> wal_magic then Inl InvalidRecord
          else let k = header ! 4; len = unat (u32_from_le (slice 5 9 header))
               in case checked_add mp 30 of
                    None \<Rightarrow> Inl RecordTooLarge
                  | Some max_record \<Rightarrow>
                     (if len = 0 \<or> len > max_record then Inl RecordTooLarge
                      else if \<not> als j 0 then Inl WalAllocationFailed
                      else case read_exact (rd (3 * j + 1)) len rest of
                             ReadEof \<Rightarrow> Inr pending
                           | ReadFailed \<Rightarrow> Inl WalIo
                           | ReadOk body rest1 \<Rightarrow>
                              (case read_exact (rd (3 * j + 2)) wal_trailer rest1 of
                                 ReadEof \<Rightarrow> Inr pending
                               | ReadFailed \<Rightarrow> Inl WalIo
                               | ReadOk checksum rest2 \<Rightarrow>
                                  (if wal_checksum k body \<noteq> u32_from_le checksum then Inl InvalidRecord
                                   else case replay_record (\<lambda>n. als j (n + 1)) mp mr k body pending of
                                          Inl e \<Rightarrow> Inl e
                                        | Inr pending' \<Rightarrow> replay_loop rd als mp mr (Suc j) rest2 pending')))))"
  by pat_completeness auto

lemma read_exact_Ok:
  "read_exact ok n rest = ReadOk a b \<longleftrightarrow> ok \<and> n \<le> length rest \<and> a = take n rest \<and> b = drop n rest"
  by (auto simp: read_exact_def)

termination replay_loop
  by (relation "measure (\<lambda>(_, _, _, _, _, file, _). length file)") (auto simp: read_exact_Ok wal_header_def)

declare replay_loop.simps [simp del]

definition wal_replay ::
  "bool \<Rightarrow> (nat \<Rightarrow> bool) \<Rightarrow> (nat \<Rightarrow> alloc) \<Rightarrow> wal \<Rightarrow> wal_error + sync_packet list" where
  "wal_replay open_ok rd als w =
     (if \<not> open_ok then Inl WalIo
      else replay_loop rd als (max_payload_bytes w) (max_records w) 0 (wal_file w) [])"

section \<open>Compaction\<close>

text \<open>
  \<open>compact\<close> writes the packets to a second file and renames it over the log when everything has been
  written and synced. \<open>wrs i\<close> is the outcome of writing packet \<open>i\<close>, \<open>sync_ok\<close> and \<open>rename_ok\<close> those of
  the sync and the rename.
\<close>

fun compact_records ::
  "(nat \<Rightarrow> alloc) \<Rightarrow> (nat \<Rightarrow> nat option) \<Rightarrow> nat \<Rightarrow> nat \<Rightarrow> sync_packet list \<Rightarrow> bytes \<Rightarrow> wal_error + bytes" where
  "compact_records als wrs mp i [] file = Inr file"
| "compact_records als wrs mp i (p # ps) file =
     (if data p = [] \<or> length (data p) > mp then Inl RecordTooLarge
      else case encode_packet (als i) p of
             Inl e \<Rightarrow> Inl (wal_error_of e)
           | Inr body \<Rightarrow>
              (case write_wal_record (wrs i) file wal_packet_kind body of
                 (Inl e, _) \<Rightarrow> Inl e
               | (Inr _, file') \<Rightarrow> compact_records als wrs mp (Suc i) ps file'))"

definition wal_compact ::
  "bool \<Rightarrow> (nat \<Rightarrow> alloc) \<Rightarrow> (nat \<Rightarrow> nat option) \<Rightarrow> bool \<Rightarrow> bool \<Rightarrow> wal \<Rightarrow> sync_packet list \<Rightarrow> (wal_error + unit) \<times> wal"
  where
  "wal_compact open_ok als wrs sync_ok rename_ok w ps =
     (if length ps > max_records w then (Inl TooManyRecords, w)
      else if \<not> open_ok then (Inl WalIo, w)
      else case compact_records als wrs (max_payload_bytes w) 0 ps [] of
             Inl e \<Rightarrow> (Inl e, w)
           | Inr file \<Rightarrow>
               (if \<not> sync_ok \<or> \<not> rename_ok then (Inl WalIo, w)
                else (Inr (), w\<lparr>wal_file := file\<rparr>)))"

section \<open>What a log means\<close>

datatype wal_entry = EPacket sync_packet | EAck u64

fun entry_kind :: "wal_entry \<Rightarrow> u8" where
  "entry_kind (EPacket p) = wal_packet_kind"
| "entry_kind (EAck s) = wal_ack_kind"

fun entry_body :: "wal_entry \<Rightarrow> bytes" where
  "entry_body (EPacket p) = envelope_bytes p"
| "entry_body (EAck s) = u64_to_le s"

abbreviation entry_bytes :: "wal_entry \<Rightarrow> bytes" where
  "entry_bytes e \<equiv> record_bytes (entry_kind e) (entry_body e)"

fun entry_fits :: "nat \<Rightarrow> wal_entry \<Rightarrow> bool" where
  "entry_fits mp (EPacket p) \<longleftrightarrow> packet_fits mp p \<and> 30 + length (data p) \<le> u32_max"
| "entry_fits mp (EAck s) \<longleftrightarrow> True"

fun apply_entry :: "nat \<Rightarrow> wal_entry \<Rightarrow> sync_packet list \<Rightarrow> wal_error + sync_packet list" where
  "apply_entry mr (EPacket p) pending = replay_packet mr p pending"
| "apply_entry mr (EAck s) pending = Inr (filter (\<lambda>p. sequence p > s) pending)"

fun apply_log :: "nat \<Rightarrow> wal_entry list \<Rightarrow> sync_packet list \<Rightarrow> wal_error + sync_packet list" where
  "apply_log mr [] pending = Inr pending"
| "apply_log mr (e # es) pending =
     (case apply_entry mr e pending of Inl x \<Rightarrow> Inl x | Inr pending' \<Rightarrow> apply_log mr es pending')"

lemma length_record: "length (record_bytes k body) = 13 + length body"
  by (simp add: record_bytes_def wal_magic_def)

lemma entry_body_bounds:
  assumes "entry_fits mp e" "8 \<le> mp + 30"
  shows "entry_body e \<noteq> []" "length (entry_body e) \<le> mp + 30" "length (entry_body e) \<le> u32_max"
  using assms by (cases e; auto simp: envelope_fields packet_fits_def u32_max_def
      simp flip: length_greater_0_conv simp del: length_greater_0_conv)+

lemma replay_record_entry:
  assumes "entry_fits mp e" "al 0"
  shows "replay_record al mp mr (entry_kind e) (entry_body e) pending = apply_entry mr e pending"
  using assms
  by (cases e) (auto simp: replay_record_def wal_packet_kind_def wal_ack_kind_def decode_envelope)

text \<open>Reading the header of a record, whatever follows it.\<close>

lemma header_of_record:
  fixes rest :: bytes
  assumes "9 \<le> n" "n \<le> length (record_bytes k body)" "length body \<le> u32_max"
  defines "file \<equiv> take n (record_bytes k body) @ rest"
  shows "take 4 (take 9 file) = wal_magic" "take 9 file ! 4 = k"
    "unat (u32_from_le (slice 5 9 (take 9 file))) = length body"
    "drop 9 file = take (n - 9) (body @ u32_to_le (wal_checksum k body)) @ rest"
proof -
  let ?h = "wal_magic @ [k] @ u32_to_le (of_nat (length body))" and ?t = "body @ u32_to_le (wal_checksum k body)"
  have len: "length ?h = 9" by (simp add: wal_magic_def)
  have fl: "file = ?h @ take (n - 9) ?t @ rest"
  proof -
    have "record_bytes k body = ?h @ ?t" by (simp add: record_bytes_def)
    then have "take n (record_bytes k body) = take n ?h @ take (n - length ?h) ?t" by (simp only: take_append)
    then show ?thesis unfolding len using assms(1) len by (simp only: file_def take_all append_assoc)
  qed
  then have h: "take 9 file = ?h" and t: "drop 9 file = take (n - 9) ?t @ rest" using len by (simp_all only: take_append drop_append) auto
  show "take 4 (take 9 file) = wal_magic" "take 9 file ! 4 = k" unfolding h by (simp_all add: wal_magic_def)
  have "slice 5 9 ?h = u32_to_le (of_nat (length body))" by (simp add: slice_def wal_magic_def)
  then show "unat (u32_from_le (slice 5 9 (take 9 file))) = length body"
    unfolding h using assms(3) by (simp add: unat_of_nat_u32)
  show "drop 9 file = take (n - 9) ?t @ rest" by (rule t)
qed

lemma replay_complete_record:
  assumes rd: "\<And>n. rd n" and al: "\<And>j n. als j n" and e: "entry_fits mp e" and mp: "mp + 30 \<le> usize_max"
  shows "replay_loop rd als mp mr j (entry_bytes e @ rest) pending =
     (case apply_entry mr e pending of Inl x \<Rightarrow> Inl x | Inr pending' \<Rightarrow> replay_loop rd als mp mr (Suc j) rest pending')"
proof -
  let ?k = "entry_kind e" and ?b = "entry_body e"
  note bb = entry_body_bounds [OF e]
  have hd: "take 4 (take 9 (entry_bytes e @ rest)) = wal_magic" "take 9 (entry_bytes e @ rest) ! 4 = ?k"
    "unat (u32_from_le (slice 5 9 (take 9 (entry_bytes e @ rest)))) = length ?b"
    "drop 9 (entry_bytes e @ rest) = ?b @ u32_to_le (wal_checksum ?k ?b) @ rest"
    using header_of_record [of "length (entry_bytes e)" ?k ?b rest] bb(3) by (simp_all add: length_record)
  have "checked_add mp 30 = Some (mp + 30)" using mp by (simp add: checked_add_def)
  moreover have "length ?b \<noteq> 0" using bb(1) by simp
  ultimately show ?thesis
    using hd rd al bb(2) replay_record_entry [OF e, of "\<lambda>n. als j (n + 1)" mr pending]
    by (subst replay_loop.simps)
      (simp add: read_exact_def wal_header_def wal_trailer_def length_record Let_def)
qed

text \<open>A record cut off anywhere reads as the end of the log.\<close>

lemma replay_torn_record:
  assumes rd: "\<And>n. rd n" and al: "\<And>j n. als j n" and e: "entry_fits mp e" and mp: "mp + 30 \<le> usize_max"
    and n: "n < length (entry_bytes e)"
  shows "replay_loop rd als mp mr j (take n (entry_bytes e)) pending = Inr pending"
proof (cases "n < 9")
  case True
  then have "length (take n (entry_bytes e)) < 9" by simp
  then show ?thesis by (subst replay_loop.simps) (simp only: read_exact_def wal_header_def rd, simp)
next
  case False
  let ?k = "entry_kind e" and ?b = "entry_body e"
  note bb = entry_body_bounds [OF e]
  have hd: "take 4 (take 9 (take n (entry_bytes e))) = wal_magic" "take 9 (take n (entry_bytes e)) ! 4 = ?k"
    "unat (u32_from_le (slice 5 9 (take 9 (take n (entry_bytes e))))) = length ?b"
    "drop 9 (take n (entry_bytes e)) = take (n - 9) (?b @ u32_to_le (wal_checksum ?k ?b))"
    using header_of_record [of n ?k ?b "[]"] bb(3) n False by simp_all
  have c: "checked_add mp 30 = Some (mp + 30)" using mp by (simp add: checked_add_def)
  have ln: "length ?b \<noteq> 0" using bb(1) by simp
  have m: "n - 9 < length ?b + 4" using n by (simp add: length_record)
  show ?thesis
    using hd rd al bb(2) c ln m False
    by (subst replay_loop.simps)
      (simp add: read_exact_def wal_header_def wal_trailer_def Let_def length_record)
qed

lemma replay_log:
  assumes rd: "\<And>n. rd n" and al: "\<And>j n. als j n" and es: "\<forall>e\<in>set es. entry_fits mp e" and mp: "mp + 30 \<le> usize_max"
    and tail: "\<And>j pending. replay_loop rd als mp mr j torn pending = Inr pending"
  shows "replay_loop rd als mp mr j (concat (map entry_bytes es) @ torn) pending = apply_log mr es pending"
  using es
proof (induction es arbitrary: j pending)
  case (Cons e es)
  then have "entry_fits mp e" by simp
  from replay_complete_record [OF rd al this mp] Cons show ?case by (simp split: sum.splits)
qed (simp add: tail)

section \<open>Writing the log\<close>

definition wal_write :: "alloc \<Rightarrow> nat option \<Rightarrow> wal_entry \<Rightarrow> wal \<Rightarrow> (wal_error + unit) \<times> wal" where
  "wal_write al wr e w = (case e of EPacket p \<Rightarrow> wal_append al wr w p | EAck s \<Rightarrow> wal_acknowledge wr w s)"

lemma wal_write_fits:
  assumes "entry_fits (max_payload_bytes w) e" "al 0"
  shows "wal_write al wr e w =
     (case wr of None \<Rightarrow> (Inr (), w\<lparr>wal_file := wal_file w @ entry_bytes e\<rparr>)
      | Some n \<Rightarrow> (Inl WalIo, w\<lparr>wal_file := wal_file w @ take n (entry_bytes e)\<rparr>))"
proof -
  have "append_record wr w (entry_kind e) (entry_body e) =
     (case wr of None \<Rightarrow> (Inr (), w\<lparr>wal_file := wal_file w @ entry_bytes e\<rparr>)
      | Some n \<Rightarrow> (Inl WalIo, w\<lparr>wal_file := wal_file w @ take n (entry_bytes e)\<rparr>))"
    using entry_body_bounds [OF assms(1)] by (auto simp: append_record_def write_wal_record_def split: option.splits)
  moreover have "wal_write al wr e w = append_record wr w (entry_kind e) (entry_body e)"
    using assms
    by (cases e) (auto simp: wal_write_def wal_append_def wal_acknowledge_def packet_fits_def encode_packet_fits
        [of "max_payload_bytes w"])
  ultimately show ?thesis by simp
qed

definition wal_write_all :: "alloc \<Rightarrow> wal_entry list \<Rightarrow> wal \<Rightarrow> wal" where
  "wal_write_all al es w = fold (\<lambda>e w. snd (wal_write al None e w)) es w"

lemma wal_write_all_file:
  assumes "\<forall>e\<in>set es. entry_fits (max_payload_bytes w) e" "al 0"
  shows "wal_write_all al es w = w\<lparr>wal_file := wal_file w @ concat (map entry_bytes es)\<rparr>"
  using assms
proof (induction es arbitrary: w)
  case (Cons e es)
  then have e: "wal_write al None e w = (Inr (), w\<lparr>wal_file := wal_file w @ entry_bytes e\<rparr>)"
    by (simp add: wal_write_fits)
  with Cons.IH [of "w\<lparr>wal_file := wal_file w @ entry_bytes e\<rparr>"] Cons.prems show ?case
    by (simp add: wal_write_all_def)
qed (simp add: wal_write_all_def)

lemma wal_replay_written:
  assumes rd: "\<And>n. rd n" and al: "\<And>j n. als j n" and es: "\<forall>e\<in>set es. entry_fits (max_payload_bytes w) e"
    and mp: "max_payload_bytes w + 30 \<le> usize_max"
    and fl: "wal_file w = concat (map entry_bytes es)"
  shows "wal_replay True rd als w = apply_log (max_records w) es []"
proof -
  have "replay_loop rd als (max_payload_bytes w) mr j [] pending = Inr pending" for mr j pending
    by (subst replay_loop.simps) (simp add: read_exact_def rd wal_header_def)
  from replay_log [OF rd al es mp this, of "max_records w" 0 "[]"] show ?thesis
    by (simp add: wal_replay_def fl)
qed

lemma apply_log_append:
  "apply_log mr es pending = Inr ps \<Longrightarrow> apply_log mr (es @ es') pending = apply_log mr es' ps"
  by (induction es arbitrary: pending) (auto split: sum.splits)

lemma replay_new_packet:
  "sequence p \<notin> set (map sequence ps) \<Longrightarrow> length ps < mr \<Longrightarrow> replay_packet mr p ps = Inr (ps @ [p])"
  by (auto simp: replay_packet_def position_Some split: option.splits) (metis image_eqI nth_mem)

text \<open>Packets with new sequence numbers are recovered as they are.\<close>

lemma apply_log_packets:
  assumes "distinct (map sequence ps)" "set (map sequence ps) \<inter> set (map sequence pending) = {}"
    "length pending + length ps \<le> mr"
  shows "apply_log mr (map EPacket ps) pending = Inr (pending @ ps)"
  using assms
proof (induction ps arbitrary: pending)
  case (Cons p ps)
  have "position (\<lambda>q. sequence q = sequence p) pending = None"
    using Cons.prems(2) by (auto simp: position_None) (metis image_eqI)
  then have "replay_packet mr p pending = Inr (pending @ [p])"
    using Cons.prems(3) by (simp add: replay_packet_def)
  with Cons.IH [of "pending @ [p]"] Cons.prems show ?case by simp
qed simp

lemma compact_records_fit:
  assumes "\<forall>p\<in>set ps. entry_fits mp (EPacket p)" "\<And>i n. als i n"
  shows "compact_records als (\<lambda>_. None) mp i ps fl = Inr (fl @ concat (map (\<lambda>p. entry_bytes (EPacket p)) ps))"
  using assms(1)
proof (induction ps arbitrary: i fl)
  case (Cons p ps)
  then have f: "packet_fits mp p" "30 + length (data p) \<le> u32_max" by simp_all
  have "encode_packet (als i) p = Inr (envelope_bytes p)" using encode_packet_fits [OF f(1), of "als i"] assms(2) by simp
  moreover have "length (envelope_bytes p) \<le> u32_max" "envelope_bytes p \<noteq> []"
    using f(2) envelope_fields(1) [of p] by auto
  ultimately show ?case using f(1) Cons by (simp add: write_wal_record_def packet_fits_def)
qed simp

section \<open>Properties\<close>

text \<open>
  C15: The log survives a crash during a write. Any packets and acknowledgements that were written
  completely are replayed, in order, with their meaning (a packet is added or replaces the one with
  its sequence number, an acknowledgement drops every packet up to it), even when the process stopped
  after any number of bytes of one further record.
\<close>

theorem wal_survives_torn_write:
  assumes rd: "\<And>n. rd n" and al: "\<And>j n. als j n" and al0: "al 0"
    and empty: "wal_file w = []" and mp: "max_payload_bytes w + 30 \<le> usize_max"
    and es: "\<forall>e\<in>set es. entry_fits (max_payload_bytes w) e"
    and e: "entry_fits (max_payload_bytes w) e" and n: "n < length (entry_bytes e)"
  shows "wal_replay True rd als (snd (wal_write al (Some n) e (wal_write_all al es w))) = apply_log (max_records w) es []"
proof -
  have log: "replay_loop rd als (max_payload_bytes w) (max_records w) 0 (concat (map entry_bytes es) @ take n (entry_bytes e)) []
      = apply_log (max_records w) es []"
    by (rule replay_log [OF rd al es mp]) (rule replay_torn_record [OF rd al e mp n])
  have w1: "wal_write_all al es w = w\<lparr>wal_file := concat (map entry_bytes es)\<rparr>"
    using wal_write_all_file [of es w al] es al0 empty by simp
  have "snd (wal_write al (Some n) e (wal_write_all al es w)) =
      w\<lparr>wal_file := concat (map entry_bytes es) @ take n (entry_bytes e)\<rparr>"
    unfolding w1 using e al0 by (simp add: wal_write_fits)
  then show ?thesis
    using log by (simp add: wal_replay_def)
qed

definition sample_wal :: wal where
  "sample_wal = \<lparr>wal_file = [], max_payload_bytes = 64, max_records = 8\<rparr>"

theorem wal_survives_torn_write_witness:
  "wal_replay True (\<lambda>_. True) (\<lambda>_ _. True)
     (snd (wal_write (\<lambda>_. True) (Some 5) (EAck 7) (wal_write_all (\<lambda>_. True) [EPacket sample_packet] sample_wal)))
   = Inr [sample_packet]"
  using wal_survives_torn_write [of "\<lambda>_. True" "\<lambda>_ _. True" "\<lambda>_. True" sample_wal "[EPacket sample_packet]" "EAck 7" 5]
  by (simp add: sample_wal_def sample_packet_def packet_fits_def usize_max_def u32_max_def length_record
      replay_packet_def)

text \<open>
  Compaction keeps the live packets. If nothing fails, replaying the compacted log yields exactly
  the packets that were passed, in order; if anything fails, the log is what it was.
\<close>

theorem compact_then_replay:
  assumes rd: "\<And>n. rd n" and al: "\<And>j n. als j n" and mp: "max_payload_bytes w + 30 \<le> usize_max"
    and fit: "\<forall>p\<in>set ps. entry_fits (max_payload_bytes w) (EPacket p)"
    and dist: "distinct (map sequence ps)" and len: "length ps \<le> max_records w"
  shows "(\<exists>w'. wal_compact True als (\<lambda>_. None) True True w ps = (Inr (), w') \<and> wal_replay True rd als w' = Inr ps)
     \<and> (\<forall>o_ok als' wrs s_ok r_ok x w'. wal_compact o_ok als' wrs s_ok r_ok w ps = (Inl x, w') \<longrightarrow> w' = w)"
proof (intro conjI allI impI)
  let ?es = "map EPacket ps" and ?w = "w\<lparr>wal_file := concat (map (\<lambda>p. entry_bytes (EPacket p)) ps)\<rparr>"
  have c: "wal_compact True als (\<lambda>_. None) True True w ps = (Inr (), ?w)"
    using len compact_records_fit [where als = als, OF fit al, of 0 "[]"] by (simp add: wal_compact_def)
  have "wal_replay True rd als ?w = apply_log (max_records ?w) ?es []"
    by (rule wal_replay_written [OF rd al]) (use fit mp in \<open>simp_all add: comp_def\<close>)
  also have "\<dots> = Inr ps" using apply_log_packets [of ps "[]" "max_records w"] dist len by simp
  finally show "\<exists>w'. wal_compact True als (\<lambda>_. None) True True w ps = (Inr (), w') \<and> wal_replay True rd als w' = Inr ps"
    using c by blast
next
  fix o_ok als' wrs s_ok r_ok x w'
  assume "wal_compact o_ok als' wrs s_ok r_ok w ps = (Inl x, w')"
  then show "w' = w" by (auto simp: wal_compact_def split: if_splits sum.splits)
qed

theorem compact_then_replay_witness:
  "\<exists>w'. wal_compact True (\<lambda>_ _. True) (\<lambda>_. None) True True sample_wal [sample_packet] = (Inr (), w')
     \<and> wal_replay True (\<lambda>_. True) (\<lambda>_ _. True) w' = Inr [sample_packet]"
  using compact_then_replay [of "\<lambda>_. True" "\<lambda>_ _. True" sample_wal "[sample_packet]"]
  by (simp add: sample_wal_def sample_packet_def packet_fits_def usize_max_def u32_max_def)

lemma update_appended: "(xs @ ys)[length xs + i := b] = xs @ ys[i := b]"
  by (simp add: list_update_append)

text \<open>
  Damage to a stored record is noticed. Changing any one byte of the body of a record, and leaving
  its header and checksum, makes the replay fail with \<open>InvalidRecord\<close> at that record.
\<close>

theorem damaged_body_detected:
  assumes rd: "\<And>n. rd n" and al: "\<And>j n. als j n" and mp: "mp + 30 \<le> usize_max"
    and e: "entry_fits mp e" and i: "i < length (entry_body e)" "b \<noteq> entry_body e ! i"
  shows "replay_loop rd als mp mr j ((entry_bytes e)[9 + i := b] @ rest) pending = Inl InvalidRecord"
proof -
  let ?k = "entry_kind e" and ?b = "entry_body e"
  let ?b' = "?b[i := b]"
  let ?h = "wal_magic @ [?k] @ u32_to_le (of_nat (length ?b))"
  obtain f where f: "f = (entry_bytes e)[9 + i := b] @ rest" by simp
  note bb = entry_body_bounds [OF e]
  have h9: "length ?h = 9" by (simp add: wal_magic_def)
  have "entry_bytes e = ?h @ ?b @ u32_to_le (wal_checksum ?k ?b)" by (simp add: record_bytes_def)
  then have "(entry_bytes e)[9 + i := b] = ?h @ (?b @ u32_to_le (wal_checksum ?k ?b))[i := b]"
    using update_appended [of ?h "?b @ u32_to_le (wal_checksum ?k ?b)" i b] by (simp only: h9)
  then have "(entry_bytes e)[9 + i := b] = ?h @ ?b' @ u32_to_le (wal_checksum ?k ?b)"
    using i(1) by (simp add: list_update_append1)
  then have fe: "f = ?h @ ?b' @ u32_to_le (wal_checksum ?k ?b) @ rest" unfolding f by simp
  have hd: "take 9 f = ?h" "drop 9 f = ?b' @ u32_to_le (wal_checksum ?k ?b) @ rest" "9 \<le> length f"
    unfolding fe using h9 by simp_all
  have fields: "take 4 (take 9 f) = wal_magic" "take 9 f ! 4 = ?k" "unat (u32_from_le (slice 5 9 (take 9 f))) = length ?b"
    unfolding hd using bb(3) by (simp_all add: wal_magic_def slice_def unat_of_nat_u32)
  have "checked_add mp 30 = Some (mp + 30)" using mp by (simp add: checked_add_def)
  moreover have "length ?b \<noteq> 0" using bb(1) by simp
  moreover have "wal_checksum ?k ?b' \<noteq> wal_checksum ?k ?b" by (rule wal_checksum_single_byte [OF i])
  ultimately have "replay_loop rd als mp mr j f pending = Inl InvalidRecord"
    using fields hd(2,3) rd al bb(2)
    by (subst replay_loop.simps) (simp add: read_exact_def wal_header_def wal_trailer_def Let_def del: take_take)
  then show ?thesis unfolding f .
qed

theorem damaged_body_detected_witness:
  "replay_loop (\<lambda>_. True) (\<lambda>_ _. True) 64 8 0 ((entry_bytes (EAck 7))[9 + 2 := 1] @ []) [] = Inl InvalidRecord"
proof -
  have "(1 :: u8) \<noteq> entry_body (EAck 7) ! 2" by code_simp
  then show ?thesis by (intro damaged_body_detected) (simp_all add: usize_max_def)
qed

section \<open>Appending behind a torn record\<close>

lemma unat_u32_from_le4: "unat (u32_from_le [a, b, c, d]) = unat a + 256 * (unat b + 256 * (unat c + 256 * unat d))"
proof -
  have "le_value [a, b, c, d] < 256 ^ length [a, b, c, d]" by (rule le_value_less)
  then have "le_value [a, b, c, d] \<le> u32_max" by (simp add: u32_max_def)
  then have "unat (of_nat (le_value [a, b, c, d]) :: u32) = le_value [a, b, c, d]" by (rule unat_of_nat_u32)
  then show ?thesis by (simp add: u32_from_le_def)
qed

text \<open>The first bytes of a log of complete records, and of a record.\<close>

lemma records_start:
  assumes "es \<noteq> []"
  shows "\<exists>k r. concat (map entry_bytes es) = wal_magic @ k # r \<and> k \<in> {1, 2} \<and> 8 \<le> length r"
proof -
  obtain e es' where es: "es = e # es'" using assms by (cases es) auto
  have "entry_kind e \<in> {1, 2}" by (cases e) (simp_all add: wal_packet_kind_def wal_ack_kind_def)
  moreover have "concat (map entry_bytes es) = wal_magic @ entry_kind e # (u32_to_le (of_nat (length (entry_body e))) @ entry_body e
      @ u32_to_le (wal_checksum (entry_kind e) (entry_body e)) @ concat (map entry_bytes es'))"
    by (simp add: es record_bytes_def)
  ultimately show ?thesis by (intro exI [of _ "entry_kind e"] exI conjI) auto
qed

lemma record_start:
  "\<exists>l0 l1 l2 l3 r. record_bytes k body = wal_magic @ k # l0 # l1 # l2 # l3 # r"
proof -
  have "u32_to_le w = [of_nat (unat w mod 256), of_nat (unat w div 256 mod 256), of_nat (unat w div 256 div 256 mod 256),
      of_nat (unat w div 256 div 256 div 256 mod 256)]" for w
    by (simp add: u32_to_le_def le_digits_numeral)
  then show ?thesis by (simp add: record_bytes_def)
qed

text \<open>Cut off inside the four bytes of the magic, the next record's magic completes it wrongly; cut off behind it, the next
  record's magic becomes part of a length of at least 20010827 bytes.\<close>

lemma spoiled_header:
  assumes rd: "\<And>n. rd n" and mp: "mp < 20000000" and n: "0 < n" "n < 9" and rest: "rest = wal_magic @ k' # r" "k' \<in> {1, 2}" "8 \<le> length r"
  shows "replay_loop rd als mp mr j (take n (record_bytes k body) @ rest) pending = Inl (if n < 4 then InvalidRecord else RecordTooLarge)"
proof -
  obtain l0 l1 l2 l3 q where q: "record_bytes k body = wal_magic @ k # l0 # l1 # l2 # l3 # q" using record_start by blast
  have c: "checked_add mp 30 = Some (mp + 30)" using mp by (simp add: checked_add_def usize_max_def)
  have long: "9 \<le> length (take n (record_bytes k body) @ rest)" using rest by (simp add: wal_magic_def)
  let ?h = "take 9 (take n (record_bytes k body) @ rest)"
  have "(n < 4 \<longrightarrow> take 4 ?h \<noteq> wal_magic)
     \<and> (4 \<le> n \<longrightarrow> take 4 ?h = wal_magic \<and> 20010827 \<le> unat (u32_from_le (slice 5 9 ?h)))"
  proof -
    have "n \<in> {1, 2, 3, 4, 5, 6, 7, 8}" using n by auto
    then show ?thesis using rest(2)
      by (elim insertE) (auto simp: q rest(1) wal_magic_def slice_def unat_u32_from_le4)
  qed
  with mp have hd: "n < 4 \<Longrightarrow> take 4 ?h \<noteq> wal_magic" "\<not> n < 4 \<Longrightarrow> take 4 ?h = wal_magic"
    "\<not> n < 4 \<Longrightarrow> mp + 30 < unat (u32_from_le (slice 5 9 ?h))" by auto
  have re: "read_exact (rd (3 * j)) wal_header (take n (record_bytes k body) @ rest) = ReadOk ?h (drop 9 (take n (record_bytes k body) @ rest))"
    using long rd by (simp add: read_exact_Ok wal_header_def)
  show ?thesis
  proof (cases "n < 4")
    case True
    then show ?thesis by (subst replay_loop.simps, subst re) (simp add: hd(1) del: take_append take_take drop_append)
  next
    case False
    then show ?thesis
      by (subst replay_loop.simps, subst re) (simp add: hd(2,3) c Let_def del: take_append take_take drop_append)
  qed
qed

text \<open>Cut off behind the header, the bytes that follow are taken for the rest of the body and the checksum.\<close>

lemma spoiled_body:
  fixes rest :: bytes
  assumes rd: "\<And>n. rd n" and al: "\<And>j n. als j n" and mp: "mp + 30 \<le> usize_max" and e: "entry_fits mp e"
    and n: "9 \<le> n" "n < length (entry_bytes e)"
  defines "m \<equiv> length (entry_body e)" and "tail \<equiv> take n (entry_bytes e) @ rest"
  assumes apart: "13 + m \<le> length tail \<Longrightarrow> wal_checksum (entry_kind e) (slice 9 (9 + m) tail) \<noteq> u32_from_le (slice (9 + m) (13 + m) tail)"
  shows "replay_loop rd als mp mr j tail pending = (if length tail < 13 + m then Inr pending else Inl InvalidRecord)"
proof -
  note bb = entry_body_bounds [OF e]
  have hd: "take 4 (take 9 tail) = wal_magic" "take 9 tail ! 4 = entry_kind e" "unat (u32_from_le (slice 5 9 (take 9 tail))) = m"
    using header_of_record [of n "entry_kind e" "entry_body e" rest] bb(3) n by (simp_all add: tail_def m_def)
  have len: "9 \<le> length tail" using n by (simp add: tail_def)
  have c: "checked_add mp 30 = Some (mp + 30)" using mp by (simp add: checked_add_def)
  have m: "m \<noteq> 0" "\<not> mp + 30 < m" using bb(1,2) by (simp_all add: m_def)
  have re: "read_exact (rd (3 * j)) wal_header tail = ReadOk (take 9 tail) (drop 9 tail)"
    using len rd by (simp add: read_exact_Ok wal_header_def)
  have body: "slice 9 (9 + m) tail = take m (drop 9 tail)" "slice (9 + m) (13 + m) tail = take 4 (drop m (drop 9 tail))"
    by (simp_all add: slice_def add.commute)
  show ?thesis
  proof (cases "length tail < 13 + m")
    case True
    then show ?thesis
      by (subst replay_loop.simps, subst re)
        (simp add: hd(2,3) hd(1) [simplified] c m al Let_def read_exact_def rd wal_trailer_def split: if_splits)
  next
    case False
    then have "wal_checksum (entry_kind e) (take m (drop 9 tail)) \<noteq> u32_from_le (take 4 (drop m (drop 9 tail)))"
      using apart body by simp
    moreover have "\<not> length tail - (m + 9) < 4" "\<not> length tail - 9 < m" using False by linarith+
    ultimately show ?thesis using False
      by (subst replay_loop.simps, subst re)
        (simp add: hd(2,3) hd(1) [simplified] c m al Let_def read_exact_def rd wal_trailer_def)
  qed
qed

text \<open>
  C16: What is appended to a torn log is lost, and most often everything before it too. \<open>append_record\<close> does not remove the
  torn tail that replay tolerates, so complete records appended behind it are read as part of it. Let a log of
  complete records that replays as \<open>ps\<close> be torn by a write that stopped after \<open>n\<close> bytes of a record, with at least
  one byte written and one missing, and let then any records be appended, at least one, all of them with success. The next replay fails
  when the cut was inside the header, and recovers nothing; when it was behind the header, replay fails too, unless the
  appended bytes are too few to complete the torn record, and then it succeeds with \<open>ps\<close>: the appended records are lost
  without an error. It never recovers an appended record. Assumed is that no read and no reservation fails, that payloads are bounded by less than
  20000000 bytes (the default bound is 262144), and, where the torn record is completed by the wrong bytes, that these do not happen to have
  the checksum found behind them.
\<close>

theorem torn_then_appended_unreadable:
  assumes env: "\<And>n. rd n" "\<And>j n. als j n" "al 0"
    and log: "wal_file w = []" "max_payload_bytes w < 20000000" "\<forall>x\<in>set es. entry_fits (max_payload_bytes w) x"
    and before: "wal_replay True rd als (wal_write_all al es w) = Inr ps"
    and torn: "entry_fits (max_payload_bytes w) e" "0 < n" "n < length (entry_bytes e)"
    and later: "es' \<noteq> []" "\<forall>x\<in>set es'. entry_fits (max_payload_bytes w) x"
    and tail: "tail = take n (entry_bytes e) @ concat (map entry_bytes es')"
    and apart: "9 \<le> n \<Longrightarrow> 13 + length (entry_body e) \<le> length tail \<Longrightarrow>
      wal_checksum (entry_kind e) (slice 9 (9 + length (entry_body e)) tail)
        \<noteq> u32_from_le (slice (9 + length (entry_body e)) (13 + length (entry_body e)) tail)"
  shows "wal_replay True rd als (wal_write_all al es' (snd (wal_write al (Some n) e (wal_write_all al es w)))) =
     (if n < 4 then Inl InvalidRecord
      else if n < 9 then Inl RecordTooLarge
      else if length tail < 13 + length (entry_body e) then Inr ps
      else Inl InvalidRecord)"
proof -
  have mp: "max_payload_bytes w + 30 \<le> usize_max" using log(2) by (simp add: usize_max_def)
  have w1: "wal_write_all al es w = w\<lparr>wal_file := concat (map entry_bytes es)\<rparr>"
    using wal_write_all_file [of es w al] log env(3) by simp
  have ps: "apply_log (max_records w) es [] = Inr ps"
    using before wal_replay_written [OF env(1,2), of es "wal_write_all al es w"] log(3) mp w1 by simp
  have "wal_write_all al es' (snd (wal_write al (Some n) e (wal_write_all al es w))) = w\<lparr>wal_file := concat (map entry_bytes es) @ tail\<rparr>"
    using torn(1) env(3) later(2) by (simp add: w1 wal_write_fits wal_write_all_file tail)
  moreover have "replay_loop rd als (max_payload_bytes w) mr j (concat (map entry_bytes xs) @ tail) pending =
      (case apply_log mr xs pending of Inl x \<Rightarrow> Inl x
       | Inr q \<Rightarrow> replay_loop rd als (max_payload_bytes w) mr (j + length xs) tail q)"
    if "\<forall>x\<in>set xs. entry_fits (max_payload_bytes w) x" for mr j xs pending
    using that
  proof (induction xs arbitrary: j pending)
    case (Cons x xs)
    then have "entry_fits (max_payload_bytes w) x" by simp
    from replay_complete_record [OF env(1,2) this mp] Cons show ?case by (simp split: sum.splits)
  qed simp
  ultimately have replay: "wal_replay True rd als (wal_write_all al es' (snd (wal_write al (Some n) e (wal_write_all al es w)))) =
      replay_loop rd als (max_payload_bytes w) (max_records w) (length es) tail ps"
    using log(3) ps by (simp add: wal_replay_def)
  show ?thesis
  proof (cases "n < 9")
    case True
    obtain k r where r: "concat (map entry_bytes es') = wal_magic @ k # r" "k \<in> {1, 2}" "8 \<le> length r"
      using records_start [OF later(1)] by blast
    show ?thesis unfolding replay tail using spoiled_header [OF env(1) log(2) torn(2) True r] True by simp
  next
    case False
    then have "9 \<le> n" by simp
    from spoiled_body [OF env(1,2) mp torn(1) this torn(3), of "concat (map entry_bytes es')", folded tail, OF apart [OF this]]
    show ?thesis unfolding replay using False by simp
  qed
qed

text \<open>An acknowledgement torn behind its header makes the log unreadable; a packet torn there hides the acknowledgement behind it.\<close>

theorem torn_then_appended_unreadable_witness:
  "wal_replay True (\<lambda>_. True) (\<lambda>_ _. True) (wal_write_all (\<lambda>_. True) [EAck 2]
     (snd (wal_write (\<lambda>_. True) (Some 9) (EAck 1) (wal_write_all (\<lambda>_. True) [EPacket sample_packet] sample_wal)))) = Inl InvalidRecord
   \<and> wal_replay True (\<lambda>_. True) (\<lambda>_ _. True) (wal_write_all (\<lambda>_. True) [EAck 7]
     (snd (wal_write (\<lambda>_. True) (Some 9) (EPacket sample_packet) (wal_write_all (\<lambda>_. True) [EPacket sample_packet] sample_wal)))) = Inr [sample_packet]"
proof
  have fit: "entry_fits 64 (EPacket sample_packet)" by (simp add: sample_packet_def packet_fits_def u32_max_def)
  have before: "wal_replay True (\<lambda>_. True) (\<lambda>_ _. True) (wal_write_all (\<lambda>_. True) [EPacket sample_packet] sample_wal) = Inr [sample_packet]"
    using fit wal_replay_written [of "\<lambda>_. True" "\<lambda>_ _. True" "[EPacket sample_packet]" "wal_write_all (\<lambda>_. True) [EPacket sample_packet] sample_wal"]
    by (simp add: wal_write_all_file sample_wal_def usize_max_def replay_packet_def)
  let ?t1 = "take 9 (entry_bytes (EAck 1)) @ concat (map entry_bytes [EAck 2])"
  have "?t1 = [82, 75, 87, 49, 2, 8, 0, 0, 0, 82, 75, 87, 49, 2, 8, 0, 0, 0, 2, 0, 0] @ drop 12 (entry_bytes (EAck 2))"
    by (simp add: record_bytes_def wal_magic_def wal_ack_kind_def u64_to_le_def u32_to_le_def le_digits_numeral)
  moreover have "wal_checksum 2 [82, 75, 87, 49, 2, 8, 0, 0] \<noteq> 512" by (simp add: wal_checksum_def fnv_step_def)
  ultimately have apart: "wal_checksum (entry_kind (EAck 1)) (slice 9 (9 + length (entry_body (EAck 1))) ?t1)
      \<noteq> u32_from_le (slice (9 + length (entry_body (EAck 1))) (13 + length (entry_body (EAck 1))) ?t1)"
    by (simp add: slice_def u32_from_le_def wal_ack_kind_def)
  show "wal_replay True (\<lambda>_. True) (\<lambda>_ _. True) (wal_write_all (\<lambda>_. True) [EAck 2]
     (snd (wal_write (\<lambda>_. True) (Some 9) (EAck 1) (wal_write_all (\<lambda>_. True) [EPacket sample_packet] sample_wal)))) = Inl InvalidRecord"
    by (subst torn_then_appended_unreadable [OF _ _ _ _ _ _ before _ _ _ _ _ refl apart])
      (use fit in \<open>simp_all add: sample_wal_def length_record\<close>)
  show "wal_replay True (\<lambda>_. True) (\<lambda>_ _. True) (wal_write_all (\<lambda>_. True) [EAck 7]
     (snd (wal_write (\<lambda>_. True) (Some 9) (EPacket sample_packet) (wal_write_all (\<lambda>_. True) [EPacket sample_packet] sample_wal)))) = Inr [sample_packet]"
    by (subst torn_then_appended_unreadable [OF _ _ _ _ _ _ before _ _ _ _ _ refl])
      (use fit in \<open>simp_all add: sample_wal_def length_record envelope_fields sample_packet_def\<close>)
qed

end
