(* ===== verification/Replicator.thy ===== *)
theory Replicator
  imports Wal "HOL-Library.Sublist"
begin

text \<open>
  The replicator of \<open>src/src/kernel/sync.rs\<close>: the queue of packets that wait to be sent, the packets
  in flight, resending and acknowledging, the duplicate filter of the receiver, and the
  authenticated envelope. The transport is a parameter: a state and a function \<open>send\<close> that says
  whether the packet was taken. Statistics are counters of 64 bits that wrap around as in a build
  without overflow checks.
\<close>

section \<open>State\<close>

record sync_config =
  max_pending :: nat
  max_payload :: nat
  max_in_flight :: nat
  resend_after_frames :: u64
  max_retries :: u8

definition default_config :: sync_config where
  "default_config =
     \<lparr>max_pending = 4096, max_payload = 256 * 1024, max_in_flight = 128, resend_after_frames = 3, max_retries = 8\<rparr>"

record sync_stats =
  st_queued :: u64
  st_coalesced :: u64
  st_sent :: u64
  st_resent :: u64
  st_acknowledged :: u64
  st_duplicates :: u64
  st_dropped_retries :: u64
  st_rejected_backpressure :: u64
  st_rejected_receive :: u64

definition stats_default :: sync_stats where
  "stats_default =
     \<lparr>st_queued = 0, st_coalesced = 0, st_sent = 0, st_resent = 0, st_acknowledged = 0, st_duplicates = 0,
      st_dropped_retries = 0, st_rejected_backpressure = 0, st_rejected_receive = 0\<rparr>"

record flight =
  fl_packet :: sync_packet
  fl_last_sent :: u64
  fl_retries :: u8

record pump_report =
  rep_sent :: nat
  rep_resent :: nat
  rep_blocked :: bool
  rep_failed :: nat

record replicator =
  config :: sync_config
  mode :: sync_mode
  next_sequence :: u64
  last_received :: u64
  last_ack_sent :: u64
  pending :: "sync_packet list"
  in_flight :: "flight list"
  rwal :: "wal option"
  session_nonce :: "bytes option"
  stats :: sync_stats

section \<open>Construction\<close>

definition replicator_try_new :: "alloc \<Rightarrow> sync_config \<Rightarrow> sync_error + replicator" where
  "replicator_try_new al c =
     (if max_pending c = 0 \<or> max_payload c = 0 \<or> max_in_flight c = 0 then Inl InvalidConfig
      else if \<not> al 0 \<or> \<not> al 1 then Inl SyncAllocationFailed
      else Inr \<lparr>config = c, mode = Offline, next_sequence = 1, last_received = 0, last_ack_sent = 0, pending = [],
                in_flight = [], rwal = None, session_nonce = None, stats = stats_default\<rparr>)"

text \<open>The loop over the recovered packets, shared by \<open>with_wal\<close> and \<open>attach_wal\<close>.\<close>

definition recover_packets :: "sync_packet list \<Rightarrow> replicator \<Rightarrow> replicator" where
  "recover_packets ps r =
     fold (\<lambda>p r. r\<lparr>next_sequence := max (next_sequence r) (max (wsat_add (sequence p) 1) 1),
                   pending := pending r @ [p]\<rparr>) ps r"

definition replicator_with_wal ::
  "alloc \<Rightarrow> wal_error + sync_packet list \<Rightarrow> sync_config \<Rightarrow> wal \<Rightarrow> sync_error + replicator" where
  "replicator_with_wal al replayed c w =
     (case replicator_try_new al c of
        Inl e \<Rightarrow> Inl e
      | Inr r \<Rightarrow>
         (case replayed of
            Inl _ \<Rightarrow> Inl PersistenceFailed
          | Inr ps \<Rightarrow>
              (if length ps > max_pending c then Inl Backpressure
               else Inr ((recover_packets ps r)\<lparr>rwal := Some w\<rparr>))))"

definition attach_wal ::
  "wal_error + sync_packet list \<Rightarrow> wal \<Rightarrow> replicator \<Rightarrow> (sync_error + unit) \<times> replicator" where
  "attach_wal replayed w r =
     (case replayed of
        Inl _ \<Rightarrow> (Inl PersistenceFailed, r)
      | Inr ps \<Rightarrow>
          (if sat_add (length (pending r)) (length ps) > max_pending (config r) then (Inl Backpressure, r)
           else (Inr (), (recover_packets ps r)\<lparr>rwal := Some w\<rparr>)))"

definition set_session_nonce :: "bytes \<Rightarrow> replicator \<Rightarrow> replicator" where
  "set_session_nonce n r = r\<lparr>session_nonce := Some n, last_received := 0, last_ack_sent := 0\<rparr>"

definition clear_session :: "replicator \<Rightarrow> replicator" where
  "clear_session r = r\<lparr>session_nonce := None, last_received := 0, last_ack_sent := 0\<rparr>"

definition set_mode :: "sync_mode \<Rightarrow> replicator \<Rightarrow> replicator" where
  "set_mode m r = r\<lparr>mode := m\<rparr>"

section \<open>Enqueueing\<close>

definition validate :: "replicator \<Rightarrow> bytes \<Rightarrow> sync_error option" where
  "validate r payload =
     (if payload = [] then Some EmptyPayload
      else if length payload > max_payload (config r) then Some PayloadTooLarge
      else None)"

text \<open>\<open>wal.append\<close> when a log is attached: whether it succeeded, and the log afterwards.\<close>

definition log_packet :: "alloc \<Rightarrow> nat option \<Rightarrow> replicator \<Rightarrow> sync_packet \<Rightarrow> bool \<times> replicator" where
  "log_packet al wr r p =
     (case rwal r of
        None \<Rightarrow> (True, r)
      | Some w \<Rightarrow> (case wal_append al wr w p of (res, w') \<Rightarrow> (\<not> isl res, r\<lparr>rwal := Some w'\<rparr>)))"

definition enqueue ::
  "alloc \<Rightarrow> nat option \<Rightarrow> sync_kind \<Rightarrow> u64 \<Rightarrow> bytes \<Rightarrow> replicator \<Rightarrow> (sync_error + u64) \<times> replicator" where
  "enqueue al wr k ky payload r =
     (case validate r payload of
        Some e \<Rightarrow> (Inl e, r)
      | None \<Rightarrow>
         (if length (pending r) \<ge> max_pending (config r)
          then (Inl Backpressure,
                r\<lparr>stats := (stats r)\<lparr>st_rejected_backpressure := st_rejected_backpressure (stats r) + 1\<rparr>\<rparr>)
          else let s = next_sequence r;
                   r1 = r\<lparr>next_sequence := max (next_sequence r + 1) 1\<rparr>;
                   p = \<lparr>sequence = s, pkt_ack = last_received r, kind = k, key = ky, data = payload\<rparr>
               in case log_packet al wr r1 p of
                    (False, r2) \<Rightarrow> (Inl PersistenceFailed, r2)
                  | (True, r2) \<Rightarrow>
                      (Inr s, r2\<lparr>pending := pending r2 @ [p],
                                 stats := (stats r2)\<lparr>st_queued := st_queued (stats r2) + 1\<rparr>\<rparr>)))"

definition enqueue_snapshot ::
  "alloc \<Rightarrow> nat option \<Rightarrow> bytes \<Rightarrow> replicator \<Rightarrow> (sync_error + u64) \<times> replicator" where
  "enqueue_snapshot al wr payload r = enqueue al wr Snapshot 0 payload r"

definition enqueue_event ::
  "alloc \<Rightarrow> nat option \<Rightarrow> u64 \<Rightarrow> bytes \<Rightarrow> replicator \<Rightarrow> (sync_error + u64) \<times> replicator" where
  "enqueue_event al wr ky payload r = enqueue al wr Event ky payload r"

text \<open>A delta replaces the payload of a waiting delta with the same key.\<close>

definition enqueue_delta ::
  "alloc \<Rightarrow> nat option \<Rightarrow> u64 \<Rightarrow> bytes \<Rightarrow> replicator \<Rightarrow> (sync_error + u64) \<times> replicator" where
  "enqueue_delta al wr ky payload r =
     (case validate r payload of
        Some e \<Rightarrow> (Inl e, r)
      | None \<Rightarrow>
         (case position (\<lambda>p. kind p = Delta \<and> key p = ky) (pending r) of
            Some i \<Rightarrow>
              (let old = pending r ! i;
                   p = \<lparr>sequence = sequence old, pkt_ack = last_received r, kind = Delta, key = ky, data = payload\<rparr>
               in case log_packet al wr r p of
                    (False, r2) \<Rightarrow> (Inl PersistenceFailed, r2)
                  | (True, r2) \<Rightarrow>
                      (Inr (sequence old),
                       r2\<lparr>pending := (pending r2)[i := old\<lparr>data := payload\<rparr>],
                          stats := (stats r2)\<lparr>st_coalesced := st_coalesced (stats r2) + 1\<rparr>\<rparr>))
          | None \<Rightarrow> enqueue al wr Delta ky payload r))"

text \<open>The variants that copy a slice reserve memory for it first.\<close>

definition enqueue_owned ::
  "bool \<Rightarrow> alloc \<Rightarrow> nat option \<Rightarrow> sync_kind \<Rightarrow> u64 \<Rightarrow> bytes \<Rightarrow> replicator \<Rightarrow> (sync_error + u64) \<times> replicator" where
  "enqueue_owned copy_ok al wr k ky payload r =
     (case validate r payload of
        Some e \<Rightarrow> (Inl e, r)
      | None \<Rightarrow> if \<not> copy_ok then (Inl SyncAllocationFailed, r) else enqueue al wr k ky payload r)"

definition enqueue_delta_bytes ::
  "bool \<Rightarrow> alloc \<Rightarrow> nat option \<Rightarrow> u64 \<Rightarrow> bytes \<Rightarrow> replicator \<Rightarrow> (sync_error + u64) \<times> replicator" where
  "enqueue_delta_bytes copy_ok al wr ky payload r =
     (case validate r payload of
        Some e \<Rightarrow> (Inl e, r)
      | None \<Rightarrow> if \<not> copy_ok then (Inl SyncAllocationFailed, r) else enqueue_delta al wr ky payload r)"

section \<open>Sending\<close>

text \<open>The first loop of \<open>pump\<close>: waiting packets, oldest first, while there is room in flight.\<close>

fun send_pending ::
  "('t \<Rightarrow> sync_packet \<Rightarrow> bool \<times> 't) \<Rightarrow> nat \<Rightarrow> u64 \<Rightarrow> 't \<Rightarrow> sync_packet list \<Rightarrow> flight list \<Rightarrow> nat
     \<Rightarrow> 't \<times> sync_packet list \<times> flight list \<times> nat \<times> bool" where
  "send_pending send cap frame t [] fl n = (t, [], fl, n, False)"
| "send_pending send cap frame t (p # ps) fl n =
     (if length fl \<ge> cap then (t, p # ps, fl, n, False)
      else case send t p of
             (True, t') \<Rightarrow>
               send_pending send cap frame t' ps
                 (fl @ [\<lparr>fl_packet = p, fl_last_sent = frame, fl_retries = 0\<rparr>]) (n + 1)
           | (False, t') \<Rightarrow> (t', p # ps, fl, n, True))"

text \<open>The second loop: packets in flight whose resend is due and that have retries left.\<close>

fun resend_due ::
  "('t \<Rightarrow> sync_packet \<Rightarrow> bool \<times> 't) \<Rightarrow> u64 \<Rightarrow> u8 \<Rightarrow> u64 \<Rightarrow> 't \<Rightarrow> flight list
     \<Rightarrow> 't \<times> flight list \<times> nat \<times> bool" where
  "resend_due send wait max_r frame t [] = (t, [], 0, False)"
| "resend_due send wait max_r frame t (f # fs) =
     (if wsat_sub frame (fl_last_sent f) < wait \<or> fl_retries f \<ge> max_r
      then (case resend_due send wait max_r frame t fs of (t', fs', n, b) \<Rightarrow> (t', f # fs', n, b))
      else case send t (fl_packet f) of
             (True, t1) \<Rightarrow>
               (case resend_due send wait max_r frame t1 fs of
                  (t', fs', n, b) \<Rightarrow> (t', f\<lparr>fl_last_sent := frame, fl_retries := fl_retries f + 1\<rparr> # fs', n + 1, b))
           | (False, t1) \<Rightarrow>
               (case resend_due send wait max_r frame t1 fs of (t', fs', n, b) \<Rightarrow> (t', f # fs', n, True)))"

definition given_up :: "u64 \<Rightarrow> u8 \<Rightarrow> u64 \<Rightarrow> flight \<Rightarrow> bool" where
  "given_up wait max_r frame f \<longleftrightarrow> fl_retries f \<ge> max_r \<and> wsat_sub frame (fl_last_sent f) \<ge> wait"

definition pump ::
  "('t \<Rightarrow> sync_packet \<Rightarrow> bool \<times> 't) \<Rightarrow> u64 \<Rightarrow> 't \<Rightarrow> replicator \<Rightarrow> pump_report \<times> 't \<times> replicator" where
  "pump send frame t r =
     (if mode r \<noteq> Online then (\<lparr>rep_sent = 0, rep_resent = 0, rep_blocked = False, rep_failed = 0\<rparr>, t, r)
      else let c = config r;
               (t1, pend, fl, n, b1) = send_pending send (max_in_flight c) frame t (pending r) (in_flight r) 0;
               (t2, fl', m, b2) = resend_due send (resend_after_frames c) (max_retries c) frame t1 fl;
               lost = filter (given_up (resend_after_frames c) (max_retries c) frame) fl';
               kept = filter (\<lambda>f. \<not> given_up (resend_after_frames c) (max_retries c) frame f) fl'
           in (\<lparr>rep_sent = n, rep_resent = m, rep_blocked = b1 \<or> b2, rep_failed = length lost\<rparr>, t2,
               r\<lparr>pending := pend, in_flight := kept,
                 stats := (stats r)\<lparr>st_sent := st_sent (stats r) + of_nat n,
                                    st_resent := st_resent (stats r) + of_nat m,
                                    st_dropped_retries := st_dropped_retries (stats r) + of_nat (length lost)\<rparr>\<rparr>))"

section \<open>Acknowledging and receiving\<close>

definition try_acknowledge :: "nat option \<Rightarrow> u64 \<Rightarrow> replicator \<Rightarrow> (sync_error + unit) \<times> replicator" where
  "try_acknowledge wr s r =
     (case (case rwal r of None \<Rightarrow> (True, None)
            | Some w \<Rightarrow> (case wal_acknowledge wr w s of (res, w') \<Rightarrow> (\<not> isl res, Some w'))) of
        (ok, w') \<Rightarrow>
          (let r1 = r\<lparr>rwal := w'\<rparr>
           in if \<not> ok then (Inl PersistenceFailed, r1)
              else (Inr (),
                 r1\<lparr>in_flight := filter (\<lambda>f. \<not> sequence (fl_packet f) \<le> s) (in_flight r),
                    stats := (stats r)\<lparr>st_acknowledged := st_acknowledged (stats r)
                      + of_nat (length (filter (\<lambda>f. sequence (fl_packet f) \<le> s) (in_flight r)))\<rparr>\<rparr>)))"

definition acknowledge :: "nat option \<Rightarrow> u64 \<Rightarrow> replicator \<Rightarrow> replicator" where
  "acknowledge wr s r = snd (try_acknowledge wr s r)"

definition reject_receive :: "replicator \<Rightarrow> replicator" where
  "reject_receive r = r\<lparr>stats := (stats r)\<lparr>st_rejected_receive := st_rejected_receive (stats r) + 1\<rparr>\<rparr>"

definition receive :: "nat option \<Rightarrow> sync_packet \<Rightarrow> replicator \<Rightarrow> sync_packet option \<times> replicator" where
  "receive wr p r =
     (if data p = [] \<or> length (data p) > max_payload (config r) then (None, reject_receive r)
      else if sequence p \<le> last_received r
      then (None, r\<lparr>stats := (stats r)\<lparr>st_duplicates := st_duplicates (stats r) + 1\<rparr>\<rparr>)
      else let r1 = r\<lparr>last_received := sequence p\<rparr>;
               r2 = (if pkt_ack p > last_ack_sent r1
                     then (acknowledge wr (pkt_ack p) r1)\<lparr>last_ack_sent := pkt_ack p\<rparr>
                     else r1)
           in (Some p, r2))"

definition receive_bytes ::
  "alloc \<Rightarrow> nat option \<Rightarrow> bytes \<Rightarrow> replicator \<Rightarrow> (sync_error + sync_packet option) \<times> replicator" where
  "receive_bytes al wr bs r =
     (if length bs < 30 then (Inl InvalidPacket, reject_receive r)
      else case byte_kind (bs ! 1) of
        None \<Rightarrow> (Inl InvalidPacket, reject_receive r)
      | Some k \<Rightarrow>
         (if bs ! 0 \<noteq> 1 then (Inl InvalidPacket, reject_receive r)
          else case checked_add 30 (envelope_len bs) of
                 None \<Rightarrow> (Inl ReceiveTooLarge, r)
               | Some all \<Rightarrow>
                  (if envelope_len bs = 0 then (Inl EmptyPayload, reject_receive r)
                   else if envelope_len bs > max_payload (config r) \<or> all \<noteq> length bs
                   then (Inl ReceiveTooLarge, reject_receive r)
                   else if \<not> al 0 then (Inl SyncAllocationFailed, r)
                   else let (p, r') = receive wr (envelope_packet k bs) r in (Inr p, r'))))"

definition receive_authenticated_bytes ::
  "(bytes \<Rightarrow> bytes) \<Rightarrow> alloc \<Rightarrow> nat option \<Rightarrow> bytes \<Rightarrow> replicator \<Rightarrow> (sync_error + sync_packet option) \<times> replicator" where
  "receive_authenticated_bytes tag al wr bs r =
     (if length bs < 16 + 32 then (Inl AuthenticationFailed, reject_receive r)
      else case session_nonce r of
        None \<Rightarrow> (Inl NoSession, r)
      | Some configured \<Rightarrow>
         (if take 16 bs \<noteq> configured then (Inl AuthenticationFailed, reject_receive r)
          else let signed_end = length bs - 32
               in if \<not> verify_tag tag (take signed_end bs) (drop signed_end bs)
                  then (Inl AuthenticationFailed, reject_receive r)
                  else receive_bytes al wr (slice 16 signed_end bs) r))"

section \<open>Bounds\<close>

definition replicator_inv :: "replicator \<Rightarrow> bool" where
  "replicator_inv r \<longleftrightarrow>
     length (pending r) \<le> max_pending (config r) \<and> length (in_flight r) \<le> max_in_flight (config r)
     \<and> (\<forall>f\<in>set (in_flight r). fl_retries f \<le> max_retries (config r))"

lemma recover_packets_fields:
  "pending (recover_packets ps r) = pending r @ ps" "in_flight (recover_packets ps r) = in_flight r"
  "config (recover_packets ps r) = config r"
  by (induction ps arbitrary: r) (simp_all add: recover_packets_def)

lemma log_packet_eq:
  obtains ok w where "log_packet al wr r p = (ok, r\<lparr>rwal := w\<rparr>)" "rwal r = None \<Longrightarrow> ok \<and> w = None"
    "\<And>l. rwal r = Some l \<Longrightarrow> ok = (\<not> isl (fst (wal_append al wr l p))) \<and> w = Some (snd (wal_append al wr l p))"
proof (cases "rwal r")
  case None
  then show ?thesis by - (rule that [of True None], simp_all add: log_packet_def)
next
  case (Some l)
  then show ?thesis
    by - (rule that [of "\<not> isl (fst (wal_append al wr l p))" "Some (snd (wal_append al wr l p))"],
        simp_all add: log_packet_def split: prod.splits)
qed

lemma send_pending_spec:
  "send_pending send cap frame t ps fl n = (t', ps', fl', n', b) \<Longrightarrow>
     map fl_packet fl' @ ps' = map fl_packet fl @ ps \<and> (length fl \<le> cap \<longrightarrow> length fl' \<le> cap)
     \<and> (\<forall>f\<in>set fl'. f \<in> set fl \<or> fl_retries f = 0) \<and> n' + length fl = n + length fl'"
proof (induction ps arbitrary: t fl n)
  case (Cons p ps)
  obtain ok t1 where s: "send t p = (ok, t1)" by force
  show ?case
  proof (cases "length fl \<ge> cap \<or> \<not> ok")
    case True
    then show ?thesis using Cons.prems s by (auto split: if_splits)
  next
    case False
    then have "send_pending send cap frame t1 ps (fl @ [\<lparr>fl_packet = p, fl_last_sent = frame, fl_retries = 0\<rparr>]) (n + 1)
        = (t', ps', fl', n', b)" using Cons.prems s by simp
    from Cons.IH [OF this] False show ?thesis by auto
  qed
qed simp

lemma resend_due_spec:
  "resend_due send wait max_r frame t fl = (t', fl', n, b) \<Longrightarrow>
     map fl_packet fl' = map fl_packet fl
     \<and> ((\<forall>f\<in>set fl. fl_retries f \<le> max_r) \<longrightarrow> (\<forall>f\<in>set fl'. fl_retries f \<le> max_r))"
proof (induction fl arbitrary: t t' fl' n b)
  case (Cons f fs)
  have step: "f + 1 \<le> max_r" if "\<not> max_r \<le> f" for f :: u8 using that by (simp add: inc_le)
  obtain ok t1 where s: "send t (fl_packet f) = (ok, t1)" by force
  let ?skip = "wsat_sub frame (fl_last_sent f) < wait \<or> fl_retries f \<ge> max_r"
  obtain t2 fs2 n2 b2 where r: "resend_due send wait max_r frame (if ?skip then t else t1) fs = (t2, fs2, n2, b2)"
    by (metis prod_cases4)
  have "fl' = (if \<not> ?skip \<and> ok then f\<lparr>fl_last_sent := frame, fl_retries := fl_retries f + 1\<rparr> else f) # fs2"
    using Cons.prems s r by (cases ?skip; cases ok) auto
  with Cons.IH [OF r] step [of "fl_retries f"] show ?case by auto
qed simp

text \<open>The three phases of a pump on an online replicator.\<close>

lemma pump_phases:
  assumes "pump send frame t r = (rep, t', r')" "mode r = Online"
  obtains t1 fl b1 fl1 b2 where
    "send_pending send (max_in_flight (config r)) frame t (pending r) (in_flight r) 0 = (t1, pending r', fl, rep_sent rep, b1)"
    "resend_due send (resend_after_frames (config r)) (max_retries (config r)) frame t1 fl = (t', fl1, rep_resent rep, b2)"
    "in_flight r' = filter (\<lambda>f. \<not> given_up (resend_after_frames (config r)) (max_retries (config r)) frame f) fl1"
    "rep_failed rep = length (filter (given_up (resend_after_frames (config r)) (max_retries (config r)) frame) fl1)"
    "config r' = config r"
proof -
  obtain t1 pend fl n b1 where 1:
    "send_pending send (max_in_flight (config r)) frame t (pending r) (in_flight r) 0 = (t1, pend, fl, n, b1)"
    by (metis prod_cases5)
  obtain t2 fl1 m b2 where 2:
    "resend_due send (resend_after_frames (config r)) (max_retries (config r)) frame t1 fl = (t2, fl1, m, b2)"
    by (metis prod_cases4)
  show ?thesis
    using assms 1 2 by - (rule that [of t1 fl b1 fl1 b2], auto simp: pump_def Let_def)
qed

lemma pump_inv:
  assumes "replicator_inv r" "pump send frame t r = (rep, t', r')"
  shows "replicator_inv r'" "config r' = config r"
proof -
  have "replicator_inv r' \<and> config r' = config r"
  proof (cases "mode r = Online")
    case True
    from assms(2) True show ?thesis
    proof (rule pump_phases)
      fix t1 fl b1 fl1 b2
      assume 1: "send_pending send (max_in_flight (config r)) frame t (pending r) (in_flight r) 0 = (t1, pending r', fl, rep_sent rep, b1)"
        and 2: "resend_due send (resend_after_frames (config r)) (max_retries (config r)) frame t1 fl = (t', fl1, rep_resent rep, b2)"
        and 3: "in_flight r' = filter (\<lambda>f. \<not> given_up (resend_after_frames (config r)) (max_retries (config r)) frame f) fl1"
        and c: "config r' = config r"
      note s1 = send_pending_spec [OF 1] and s2 = resend_due_spec [OF 2]
      have "length (in_flight r') \<le> length fl1" unfolding 3 by (rule length_filter_le)
      also have "length fl1 = length fl" using s2 by (metis length_map)
      also have "length fl \<le> max_in_flight (config r)" using s1 assms(1) by (simp add: replicator_inv_def)
      finally have "length (in_flight r') \<le> max_in_flight (config r)" .
      moreover have "length (map fl_packet fl @ pending r') = length (map fl_packet (in_flight r) @ pending r)"
        using s1 by metis
      then have "length fl + length (pending r') = length (in_flight r) + length (pending r)" by simp
      with s1 have "length (pending r') \<le> length (pending r)" by linarith
      moreover have "\<forall>f\<in>set fl. fl_retries f \<le> max_retries (config r)"
        using s1 assms(1) by (auto simp: replicator_inv_def)
      then have "\<forall>f\<in>set (in_flight r'). fl_retries f \<le> max_retries (config r)" using s2 3 by simp
      ultimately show ?thesis using assms(1) c by (simp add: replicator_inv_def)
    qed
  next
    case False
    then show ?thesis using assms by (simp add: pump_def)
  qed
  then show "replicator_inv r'" "config r' = config r" by simp_all
qed

lemma enqueue_inv:
  "replicator_inv r \<Longrightarrow> replicator_inv (snd (enqueue al wr k ky payload r))"
  "config (snd (enqueue al wr k ky payload r)) = config r"
proof -
  obtain ok w where l: "log_packet al wr (r\<lparr>next_sequence := max (next_sequence r + 1) 1\<rparr>)
      \<lparr>sequence = next_sequence r, pkt_ack = last_received r, kind = k, key = ky, data = payload\<rparr> =
      (ok, r\<lparr>next_sequence := max (next_sequence r + 1) 1, rwal := w\<rparr>)" by (rule log_packet_eq)
  show "config (snd (enqueue al wr k ky payload r)) = config r"
    using l by (cases ok) (auto simp: enqueue_def Let_def split: option.splits)
  show "replicator_inv r \<Longrightarrow> replicator_inv (snd (enqueue al wr k ky payload r))"
    using l by (cases ok) (auto simp: enqueue_def replicator_inv_def Let_def split: option.splits)
qed

lemma enqueue_delta_inv:
  assumes "replicator_inv r"
  shows "replicator_inv (snd (enqueue_delta al wr ky payload r))"
proof (cases "validate r payload = None \<and> (\<exists>i. position (\<lambda>p. kind p = Delta \<and> key p = ky) (pending r) = Some i)")
  case True
  then obtain i where i: "position (\<lambda>p. kind p = Delta \<and> key p = ky) (pending r) = Some i" by blast
  obtain ok w where "log_packet al wr r
      \<lparr>sequence = sequence (pending r ! i), pkt_ack = last_received r, kind = Delta, key = ky, data = payload\<rparr> =
      (ok, r\<lparr>rwal := w\<rparr>)" by (rule log_packet_eq)
  then show ?thesis
    using True i assms by (cases ok) (auto simp: enqueue_delta_def replicator_inv_def Let_def)
next
  case False
  then show ?thesis
    using enqueue_inv(1) [OF assms, of al wr Delta ky payload] assms by (auto simp: enqueue_delta_def split: option.splits)
qed

lemma try_acknowledge_inv:
  "replicator_inv r \<Longrightarrow> replicator_inv (snd (try_acknowledge wr s r))"
  "config (snd (try_acknowledge wr s r)) = config r" "last_received (snd (try_acknowledge wr s r)) = last_received r"
  by (auto simp: try_acknowledge_def replicator_inv_def Let_def split: option.splits prod.splits
      intro: le_trans [OF length_filter_le])

lemma receive_inv:
  "replicator_inv r \<Longrightarrow> replicator_inv (snd (receive wr p r))" "config (snd (receive wr p r)) = config r"
  using try_acknowledge_inv [where r = "r\<lparr>last_received := sequence p\<rparr>" and wr = wr and s = "pkt_ack p"]
  by (auto simp: receive_def reject_receive_def acknowledge_def replicator_inv_def Let_def)

text \<open>The receiver accepts exactly the bytes the log's decoder accepts.\<close>

lemma receive_bytes_decode:
  obtains (accepted) p where "decode_packet al bs (max_payload (config r)) = Inr p"
      "receive_bytes al wr bs r = (Inr (fst (receive wr p r)), snd (receive wr p r))"
  | (rejected) x e where "decode_packet al bs (max_payload (config r)) = Inl x"
      "receive_bytes al wr bs r = (Inl e, r) \<or> receive_bytes al wr bs r = (Inl e, reject_receive r)"
proof (cases "decode_packet al bs (max_payload (config r))")
  case (Inl x)
  have "\<exists>e. receive_bytes al wr bs r = (Inl e, r) \<or> receive_bytes al wr bs r = (Inl e, reject_receive r)"
    using Inl by (auto simp: decode_packet_def receive_bytes_def checked_add_def split: if_splits option.splits)
  then show ?thesis using Inl rejected by blast
next
  case (Inr p)
  have "receive_bytes al wr bs r = (Inr (fst (receive wr p r)), snd (receive wr p r))"
    using Inr by (auto simp: decode_packet_def receive_bytes_def split: if_splits option.splits prod.splits)
  then show ?thesis using Inr accepted by blast
qed

lemma replicator_inv_reject [simp]: "replicator_inv (reject_receive r) = replicator_inv r"
  by (simp add: replicator_inv_def reject_receive_def)

lemma receive_bytes_inv:
  assumes "replicator_inv r"
  shows "replicator_inv (snd (receive_bytes al wr bs r))"
  by (cases rule: receive_bytes_decode [of al bs r wr]) (use assms receive_inv(1) [OF assms] in auto)

lemma receive_authenticated_inv:
  assumes "replicator_inv r"
  shows "replicator_inv (snd (receive_authenticated_bytes tag al wr bs r))"
  using assms receive_bytes_inv [OF assms]
  by (auto simp: receive_authenticated_bytes_def Let_def split: option.splits)

section \<open>Properties\<close>

text \<open>
  Everything that can happen to a replicator, as a step relation. The allocator, the log and the
  transport may answer anything; the queue and the packets recovered from a log are in memory together,
  so their lengths add up without overflow.
\<close>

inductive replicator_step :: "('t \<Rightarrow> sync_packet \<Rightarrow> bool \<times> 't) \<Rightarrow> replicator \<Rightarrow> replicator \<Rightarrow> bool" for send where
  enqueue: "replicator_step send r (snd (enqueue al wr k ky payload r))"
| delta: "replicator_step send r (snd (enqueue_delta al wr ky payload r))"
| pump: "pump send frame t r = (rep, t', r') \<Longrightarrow> replicator_step send r r'"
| ack: "replicator_step send r (snd (try_acknowledge wr s r))"
| receive: "replicator_step send r (snd (receive_bytes al wr bs r))"
| authenticated: "replicator_step send r (snd (receive_authenticated_bytes tag al wr bs r))"
| session: "replicator_step send r (set_session_nonce n r)"
| no_session: "replicator_step send r (clear_session r)"
| set_mode: "replicator_step send r (set_mode m r)"
| attach: "(\<And>ps. replayed = Inr ps \<Longrightarrow> length (pending r) + length ps \<le> usize_max) \<Longrightarrow>
    replicator_step send r (snd (attach_wal replayed w r))"

inductive replicator_reachable :: "('t \<Rightarrow> sync_packet \<Rightarrow> bool \<times> 't) \<Rightarrow> replicator \<Rightarrow> bool" for send where
  new: "replicator_try_new al c = Inr r \<Longrightarrow> replicator_reachable send r"
| with_wal: "replicator_with_wal al replayed c w = Inr r \<Longrightarrow> replicator_reachable send r"
| step: "replicator_reachable send r \<Longrightarrow> replicator_step send r r' \<Longrightarrow> replicator_reachable send r'"

lemma replicator_new_inv: "replicator_try_new al c = Inr r \<Longrightarrow> replicator_inv r \<and> config r = c \<and> pending r = []"
  by (auto simp: replicator_try_new_def replicator_inv_def split: if_splits)

lemma attach_wal_inv:
  "replicator_inv r \<Longrightarrow> (\<And>ps. replayed = Inr ps \<Longrightarrow> length (pending r) + length ps \<le> usize_max) \<Longrightarrow>
    replicator_inv (snd (attach_wal replayed w r))"
  by (auto simp: attach_wal_def replicator_inv_def recover_packets_fields sat_add_def split: sum.splits)

text \<open>
  The replicator is bounded. In every reachable state the queue holds at most \<open>max_pending\<close> packets,
  at most \<open>max_in_flight\<close> are in flight, and none has been resent more than \<open>max_retries\<close> times,
  whatever is enqueued, received, acknowledged or recovered from a log.
\<close>

theorem replicator_bounded:
  assumes "replicator_reachable send r"
  shows "length (pending r) \<le> max_pending (config r) \<and> length (in_flight r) \<le> max_in_flight (config r)
     \<and> (\<forall>f\<in>set (in_flight r). fl_retries f \<le> max_retries (config r))"
proof -
  have "replicator_inv r"
    using assms
  proof induction
    case (with_wal al replayed c w r)
    then show ?case
      using replicator_new_inv [of al c]
      by (auto simp: replicator_with_wal_def replicator_inv_def recover_packets_fields split: sum.splits if_splits)
  next
    case (step r r')
    from step(2) step(3) show ?case
    proof cases
      case (pump frame t rep t')
      show ?thesis by (rule pump_inv(1) [OF step(3) pump(1)])
    qed (simp_all add: enqueue_inv enqueue_delta_inv try_acknowledge_inv receive_bytes_inv receive_authenticated_inv
        attach_wal_inv, simp_all add: replicator_inv_def set_session_nonce_def clear_session_def set_mode_def)
  qed (use replicator_new_inv in blast)
  then show ?thesis by (simp add: replicator_inv_def)
qed

definition sample_replicator :: replicator where
  "sample_replicator =
     \<lparr>config = default_config, mode = Offline, next_sequence = 1, last_received = 0, last_ack_sent = 0, pending = [],
      in_flight = [], rwal = None, session_nonce = None, stats = stats_default\<rparr>"

lemma sample_replicator_new: "replicator_try_new (\<lambda>_. True) default_config = Inr sample_replicator"
  by (simp add: replicator_try_new_def sample_replicator_def default_config_def)

theorem replicator_bounded_witness:
  "length (pending (snd (enqueue_event (\<lambda>_. True) None 3 [1, 2] sample_replicator))) \<le> 4096"
proof -
  have "replicator_reachable (\<lambda>t p. (True, t)) (snd (enqueue_event (\<lambda>_. True) None 3 [1, 2] sample_replicator))"
    unfolding enqueue_event_def
    by (intro replicator_reachable.step [OF replicator_reachable.new [OF sample_replicator_new]] replicator_step.enqueue)
  from replicator_bounded [OF this] show ?thesis
    by (simp add: enqueue_event_def enqueue_inv(2)) (simp add: sample_replicator_def default_config_def)
qed

text \<open>
  C17: \<open>pump\<close> neither loses nor reorders packets. The packets in flight followed by the waiting ones are,
  after a pump, a subsequence of what they were, and exactly the packets it reports as failed (their
  retries are used up and the last one went unanswered for too long) are missing; offline it does nothing.
\<close>

theorem pump_conserves:
  assumes p: "pump send frame t r = (rep, t', r')"
  shows "subseq (map fl_packet (in_flight r') @ pending r') (map fl_packet (in_flight r) @ pending r)
     \<and> length (in_flight r') + length (pending r') + rep_failed rep = length (in_flight r) + length (pending r)
     \<and> (mode r = Offline \<longrightarrow> r' = r \<and> t' = t)"
proof (cases "mode r = Online")
  case True
  from p True show ?thesis
  proof (rule pump_phases)
    fix t1 fl b1 fl1 b2
    let ?g = "given_up (resend_after_frames (config r)) (max_retries (config r)) frame"
    assume 1: "send_pending send (max_in_flight (config r)) frame t (pending r) (in_flight r) 0 = (t1, pending r', fl, rep_sent rep, b1)"
      and 2: "resend_due send (resend_after_frames (config r)) (max_retries (config r)) frame t1 fl = (t', fl1, rep_resent rep, b2)"
      and 3: "in_flight r' = filter (\<lambda>f. \<not> ?g f) fl1" "rep_failed rep = length (filter ?g fl1)"
    have eq: "map fl_packet fl1 @ pending r' = map fl_packet (in_flight r) @ pending r"
      using send_pending_spec [OF 1] resend_due_spec [OF 2] by simp
    have "subseq (map fl_packet (in_flight r')) (map fl_packet fl1)"
      unfolding 3 by (intro subseq_map subseq_filter_left)
    then have "subseq (map fl_packet (in_flight r') @ pending r') (map fl_packet fl1 @ pending r')"
      by (intro list_emb_append_mono) simp_all
    moreover have "length fl1 + length (pending r') = length (in_flight r) + length (pending r)"
      using arg_cong [OF eq, of length] by simp
    moreover have "length (in_flight r') + rep_failed rep = length fl1"
      unfolding 3 using sum_length_filter_compl [of ?g fl1] by simp
    ultimately show ?thesis using True by (simp add: eq)
  qed
next
  case False
  then show ?thesis using p by (auto simp: pump_def)
qed

theorem pump_conserves_witness:
  "\<exists>rep r'. pump (\<lambda>t p. (True, t)) 9 () (set_mode Online (snd (enqueue_event (\<lambda>_. True) None 3 [1, 2] sample_replicator))) = (rep, (), r')
     \<and> length (in_flight r') + length (pending r') + rep_failed rep = 1"
proof -
  let ?r = "set_mode Online (snd (enqueue_event (\<lambda>_. True) None 3 [1, 2] sample_replicator))"
  obtain rep t' r' where p: "pump (\<lambda>t p. (True, t)) 9 () ?r = (rep, t', r')" by (metis prod_cases3)
  have "length (in_flight ?r) + length (pending ?r) = 1"
    by (simp add: set_mode_def enqueue_event_def enqueue_def validate_def log_packet_def sample_replicator_def default_config_def)
  with pump_conserves [OF p] p show ?thesis by auto
qed

fun receive_all :: "nat option \<Rightarrow> sync_packet list \<Rightarrow> replicator \<Rightarrow> sync_packet list \<times> replicator" where
  "receive_all wr [] r = ([], r)"
| "receive_all wr (p # ps) r =
     (case receive wr p r of
        (None, r1) \<Rightarrow> receive_all wr ps r1
      | (Some q, r1) \<Rightarrow> (let (qs, r2) = receive_all wr ps r1 in (q # qs, r2)))"

lemma receive_last:
  "receive wr p r = (None, r') \<Longrightarrow> last_received r' = last_received r"
  "receive wr p r = (Some q, r') \<Longrightarrow> q = p \<and> last_received r < sequence p \<and> last_received r' = sequence p"
  using try_acknowledge_inv(3) [where r = "r\<lparr>last_received := sequence p\<rparr>" and wr = wr and s = "pkt_ack p"]
  by (auto simp: receive_def reject_receive_def acknowledge_def Let_def split: if_splits)

text \<open>
  C18: The receiver delivers every packet at most once and in order: in a session, of any packets that
  arrive, the sequence numbers of those handed to the application are strictly increasing and above
  the last one received before.
\<close>

theorem receive_in_order_once:
  "sorted_wrt (<) (map sequence (fst (receive_all wr ps r)))
     \<and> (\<forall>q\<in>set (fst (receive_all wr ps r)). last_received r < sequence q \<and> q \<in> set ps)"
proof (induction ps arbitrary: r)
  case (Cons p ps)
  obtain a r1 where r: "receive wr p r = (a, r1)" by force
  show ?case
  proof (cases a)
    case None
    with r receive_last(1) have "last_received r1 = last_received r" by blast
    with None r Cons.IH [of r1] show ?thesis by auto
  next
    case (Some q)
    with r receive_last(2) have "q = p" "last_received r < sequence p" "last_received r1 = sequence p" by blast+
    with Some r Cons.IH [of r1] show ?thesis by (fastforce simp: case_prod_unfold Let_def)
  qed
qed simp

theorem receive_in_order_once_witness:
  "sorted_wrt (<) (map sequence (fst (receive_all None [sample_packet, sample_packet\<lparr>sequence := 9\<rparr>, sample_packet] sample_replicator)))"
  using receive_in_order_once by blast

text \<open>
  Authentication is enforced and lets honest packets through. With a session nonce, bytes are
  accepted only if they start with the nonce and end with the tag of everything before it; any other
  bytes are answered with \<open>AuthenticationFailed\<close> and change nothing but the count of rejections.
  Whatever \<open>encode_authenticated_packet\<close> produced with the same nonce and key is handled as that
  packet.
\<close>

theorem authenticated_receive:
  assumes nonce: "session_nonce r = Some nonce" "length nonce = 16" and tag: "\<And>m. length (tag m) = 32"
  shows "(length bs \<ge> 48 \<and> take 16 bs = nonce \<and> drop (length bs - 32) bs = tag (take (length bs - 32) bs)
       \<longrightarrow> receive_authenticated_bytes tag al wr bs r = receive_bytes al wr (slice 16 (length bs - 32) bs) r)
     \<and> (\<not> (length bs \<ge> 48 \<and> take 16 bs = nonce \<and> drop (length bs - 32) bs = tag (take (length bs - 32) bs))
       \<longrightarrow> receive_authenticated_bytes tag al wr bs r = (Inl AuthenticationFailed, reject_receive r))
     \<and> (\<forall>p al'. al 0 \<and> length (data p) \<le> max_payload (config r) \<and> encode_authenticated_packet al' tag nonce p = Inr bs
       \<longrightarrow> receive_authenticated_bytes tag al wr bs r = (Inr (fst (receive wr p r)), snd (receive wr p r)))"
proof -
  let ?e = "length bs - 32"
  let ?ok = "length bs \<ge> 48 \<and> take 16 bs = nonce \<and> drop ?e bs = tag (take ?e bs)"
  have v: "verify_tag tag (take ?e bs) (drop ?e bs) \<longleftrightarrow> tag (take ?e bs) = drop ?e bs" if "48 \<le> length bs"
    using that tag by (intro verify_tag_iff) simp
  have good: "receive_authenticated_bytes tag al wr bs r = receive_bytes al wr (slice 16 ?e bs) r" if ?ok
    using that v nonce by (simp add: receive_authenticated_bytes_def Let_def)
  have bad: "receive_authenticated_bytes tag al wr bs r = (Inl AuthenticationFailed, reject_receive r)" if "\<not> ?ok"
    using that v nonce by (auto simp: receive_authenticated_bytes_def Let_def)
  have honest: "receive_authenticated_bytes tag al wr bs r = (Inr (fst (receive wr p r)), snd (receive wr p r))"
    if "al 0" "length (data p) \<le> max_payload (config r)" "encode_authenticated_packet al' tag nonce p = Inr bs" for p al'
  proof -
    have enc: "bs = nonce @ envelope_bytes p @ tag (nonce @ envelope_bytes p)"
      and fit: "packet_fits (max_payload (config r)) p"
      using that(2,3)
      by (auto simp: encode_authenticated_packet_def encode_packet_def packet_fits_def
          split: if_splits sum.splits option.splits)
    have len: "length bs = 48 + length (envelope_bytes p)" using enc nonce(2) tag by simp
    then have e: "?e = length (nonce @ envelope_bytes p)" using nonce(2) by simp
    have split: "bs = (nonce @ envelope_bytes p) @ tag (nonce @ envelope_bytes p)" using enc by simp
    have sp: "take ?e bs = nonce @ envelope_bytes p" "drop ?e bs = tag (nonce @ envelope_bytes p)"
      unfolding e by (subst split, simp)+
    have "take 16 bs = nonce" using enc nonce(2) by simp
    with sp len have "?ok" by simp
    moreover have "slice 16 ?e bs = envelope_bytes p"
      unfolding e using enc nonce(2) by (simp add: slice_def)
    moreover have "decode_packet al (envelope_bytes p) (max_payload (config r)) = Inr p"
      using decode_envelope [OF fit] that(1) by simp
    then have "receive_bytes al wr (envelope_bytes p) r = (Inr (fst (receive wr p r)), snd (receive wr p r))"
      by (cases rule: receive_bytes_decode [of al "envelope_bytes p" r wr]) auto
    ultimately show ?thesis using good by simp
  qed
  show ?thesis using good bad honest by blast
qed

theorem authenticated_receive_witness:
  "receive_authenticated_bytes (\<lambda>m. replicate 32 0) (\<lambda>_. True) None (replicate 48 1)
      (set_session_nonce (replicate 16 1) sample_replicator)
    = (Inl AuthenticationFailed, reject_receive (set_session_nonce (replicate 16 1) sample_replicator))"
  using authenticated_receive [of "set_session_nonce (replicate 16 1) sample_replicator" "replicate 16 1"
      "\<lambda>m. replicate 32 0" "replicate 48 1" "\<lambda>_. True" None]
  by (simp add: set_session_nonce_def)

text \<open>
  C19: An accepted packet is on disk, and what replay makes of it. Let a log be attached that holds complete, fitting records
  and that replay reads as the packets \<open>ps\<close> (no read and no reservation of the replay fails, and the bound on payloads
  plus 30 is a machine integer). When \<open>enqueue\<close> succeeds, the new packet \<open>p\<close> is pending and in the file, and replaying the file
  yields \<open>ps\<close> followed by \<open>p\<close>, or with \<open>p\<close> in the place of a packet that had its sequence number, as long as the number of packets stays
  within \<open>max_records\<close>. At this bound the code goes wrong: \<open>append\<close> does not check it, so a packet that was accepted with a new
  sequence number when \<open>ps\<close> has reached it makes every later replay fail with \<open>TooManyRecords\<close>, and no packet is recovered.
\<close>

theorem enqueue_is_durable:
  assumes q: "enqueue al wr k ky payload r = (Inr s, r')" and w: "rwal r = Some w"
    and log: "wal_file w = concat (map entry_bytes es)" "\<forall>e\<in>set es. entry_fits (max_payload_bytes w) e"
    and before: "wal_replay True rd als w = Inr ps"
    and env: "\<And>n. rd n" "\<And>j n. als j n" "max_payload_bytes w + 30 \<le> usize_max"
  shows "\<exists>w' p. rwal r' = Some w' \<and> pending r' = pending r @ [p] \<and> sequence p = s \<and> data p = payload
     \<and> wal_file w' = wal_file w @ entry_bytes (EPacket p)
     \<and> wal_replay True rd als w' =
         (case position (\<lambda>q. sequence q = s) ps of
            Some i \<Rightarrow> Inr (ps[i := p])
          | None \<Rightarrow> if length ps < max_records w then Inr (ps @ [p]) else Inl TooManyRecords)"
proof -
  let ?p = "\<lparr>sequence = next_sequence r, pkt_ack = last_received r, kind = k, key = ky, data = payload\<rparr>"
  obtain ok w1 where l: "log_packet al wr (r\<lparr>next_sequence := max (next_sequence r + 1) 1\<rparr>) ?p =
      (ok, r\<lparr>next_sequence := max (next_sequence r + 1) 1, rwal := w1\<rparr>)"
    "ok = (\<not> isl (fst (wal_append al wr w ?p)))" "w1 = Some (snd (wal_append al wr w ?p))"
    using w by (auto intro: log_packet_eq [of al wr "r\<lparr>next_sequence := max (next_sequence r + 1) 1\<rparr>" ?p])
  have ok: ok and s: "s = next_sequence r" and pr: "pending r' = pending r @ [?p]" and wr': "rwal r' = w1"
    using q l(1) by (auto simp: enqueue_def Let_def split: option.splits if_splits bool.splits)
  from ok l(2) have "\<not> isl (fst (wal_append al wr w ?p))" by simp
  then have wrn: "wr = None" and al: "al 0" and fit: "entry_fits (max_payload_bytes w) (EPacket ?p)"
    by (auto simp: wal_append_def append_record_def write_wal_record_def packet_fits_def encode_packet_def
        envelope_fields Let_def split: if_splits sum.splits option.splits)
  have w1: "snd (wal_append al wr w ?p) = w\<lparr>wal_file := concat (map entry_bytes (es @ [EPacket ?p]))\<rparr>"
    using wal_write_fits [OF fit, of al None] al wrn log(1) by (simp add: wal_write_def)
  have ps: "apply_log (max_records w) es [] = Inr ps"
    using before wal_replay_written [OF env(1,2), of es w] log env(3) by simp
  have "wal_replay True rd als (snd (wal_append al wr w ?p)) = apply_log (max_records w) (es @ [EPacket ?p]) []"
    unfolding w1 using wal_replay_written [OF env(1,2), of "es @ [EPacket ?p]"] log(2) fit env(3) by simp
  also have "\<dots> = replay_packet (max_records w) ?p ps"
    using apply_log_append [OF ps] by (simp split: sum.splits)
  also have "\<dots> = (case position (\<lambda>q. sequence q = s) ps of Some i \<Rightarrow> Inr (ps[i := ?p])
      | None \<Rightarrow> if length ps < max_records w then Inr (ps @ [?p]) else Inl TooManyRecords)"
    by (auto simp: replay_packet_def s split: option.splits)
  finally show ?thesis using pr wr' l(3) s w1 log(1) by (intro exI [of _ "snd (wal_append al wr w ?p)"] exI [of _ ?p]) simp
qed

text \<open>Below the bound, and at it: a log of one packet whose bound is two records or one.\<close>

definition one_record_wal :: "nat \<Rightarrow> wal" where
  "one_record_wal n = \<lparr>wal_file = entry_bytes (EPacket sample_packet), max_payload_bytes = 64, max_records = n\<rparr>"

lemma sample_enqueue:
  "\<exists>r'. enqueue (\<lambda>_. True) None Event 3 [1, 2] (sample_replicator\<lparr>rwal := Some (one_record_wal n)\<rparr>) = (Inr 1, r')"
  by (simp add: enqueue_def validate_def log_packet_def sample_replicator_def one_record_wal_def default_config_def
      wal_append_def encode_packet_def append_record_def write_wal_record_def envelope_fields
      envelope_bytes_def u32_max_def usize_max_def checked_add_def Let_def)

theorem enqueue_is_durable_witness:
  "(\<exists>r' w' p. enqueue (\<lambda>_. True) None Event 3 [1, 2] (sample_replicator\<lparr>rwal := Some (one_record_wal 2)\<rparr>) = (Inr 1, r')
     \<and> rwal r' = Some w' \<and> pending r' = [p] \<and> data p = [1, 2]
     \<and> wal_replay True (\<lambda>_. True) (\<lambda>_ _. True) w' = Inr [sample_packet, p])
   \<and> (\<exists>r' w'. enqueue (\<lambda>_. True) None Event 3 [1, 2] (sample_replicator\<lparr>rwal := Some (one_record_wal 1)\<rparr>) = (Inr 1, r')
     \<and> rwal r' = Some w' \<and> wal_replay True (\<lambda>_. True) (\<lambda>_ _. True) w' = Inl TooManyRecords)"
proof -
  have fit: "entry_fits 64 (EPacket sample_packet)" by (simp add: sample_packet_def packet_fits_def u32_max_def)
  have main: "\<exists>r' w' p. enqueue (\<lambda>_. True) None Event 3 [1, 2] (sample_replicator\<lparr>rwal := Some (one_record_wal n)\<rparr>) = (Inr 1, r')
     \<and> rwal r' = Some w' \<and> pending r' = [p] \<and> data p = [1, 2]
     \<and> wal_replay True (\<lambda>_. True) (\<lambda>_ _. True) w' = (if 1 < n then Inr [sample_packet, p] else Inl TooManyRecords)"
    if "0 < n" for n
  proof -
    obtain r' where q: "enqueue (\<lambda>_. True) None Event 3 [1, 2] (sample_replicator\<lparr>rwal := Some (one_record_wal n)\<rparr>) = (Inr 1, r')"
      using sample_enqueue by blast
    have "wal_replay True (\<lambda>_. True) (\<lambda>_ _. True) (one_record_wal n) = Inr [sample_packet]"
      using that fit wal_replay_written [of "\<lambda>_. True" "\<lambda>_ _. True" "[EPacket sample_packet]" "one_record_wal n"]
      by (simp add: one_record_wal_def usize_max_def replay_packet_def)
    with q show ?thesis using that fit
        enqueue_is_durable [OF q, of "one_record_wal n" "[EPacket sample_packet]" "\<lambda>_. True" "\<lambda>_ _. True" "[sample_packet]"]
      by (simp add: one_record_wal_def usize_max_def) (auto simp: sample_replicator_def sample_packet_def one_record_wal_def)
  qed
  show ?thesis using main [of 2] main [of 1] by fastforce
qed

end
