(* ===== verification/Render_Sync.thy ===== *)
theory Render_Sync
  imports Prelude
begin

text \<open>
  The state machines of \<open>src/src/subsystems/renderer.rs\<close>: surface, swapchain, semaphores, fences,
  frame slots, command buffers, the frame that combines them and the pool of command buffers. A
  transition answers \<open>Ok\<close> or \<open>InvalidTransition\<close> and returns the state it leaves behind. The frame
  is shown to implement a four-phase protocol.
\<close>

section \<open>Single state machines\<close>

datatype command_error = InvalidTransition | CommandAllocationFailed

datatype command_state = Initial | Recording | Executable | CmdSubmitted

datatype frame_state = Available | Acquired | SlotSubmitted

datatype fence_state = FenceUnsignaled | FenceSubmitted | FenceSignaled

datatype semaphore_state = Unsignaled | Signaled

datatype surface_state = SurfaceUncreated | SurfaceReady | SurfaceDestroyed

datatype swapchain_state = SwapUncreated | SwapReady | SwapOutOfDate | SwapDestroyed

type_synonym 's transition = "'s \<Rightarrow> (command_error + unit) \<times> 's"

text \<open>Every transition of the file has this shape: a guard, one assignment, \<open>Ok\<close>.\<close>

definition guarded :: "('s \<Rightarrow> bool) \<Rightarrow> 's \<Rightarrow> 's transition" where
  "guarded ok s' s = (if ok s then (Inr (), s') else (Inl InvalidTransition, s))"

definition surface_create :: "surface_state transition" where
  "surface_create = guarded (\<lambda>s. s = SurfaceUncreated) SurfaceReady"

definition surface_destroy :: "surface_state transition" where
  "surface_destroy = guarded (\<lambda>s. s = SurfaceReady) SurfaceDestroyed"

record swapchain_config =
  sc_width :: u32
  sc_height :: u32
  image_count :: u32
  sc_format :: u32
  present_mode :: u32

definition config_validate :: "swapchain_config \<Rightarrow> command_error + swapchain_config" where
  "config_validate c =
     (if sc_width c = 0 \<or> sc_height c = 0 \<or> image_count c < 2 \<or> sc_format c = 0 then Inl InvalidTransition else Inr c)"

definition swapchain_create :: "surface_state \<Rightarrow> swapchain_state transition" where
  "swapchain_create surface = guarded (\<lambda>s. s = SwapUncreated \<and> surface = SurfaceReady) SwapReady"

definition swapchain_mark_out_of_date :: "swapchain_state transition" where
  "swapchain_mark_out_of_date = guarded (\<lambda>s. s = SwapReady) SwapOutOfDate"

definition swapchain_destroy :: "swapchain_state transition" where
  "swapchain_destroy = guarded (\<lambda>s. s = SwapReady \<or> s = SwapOutOfDate) SwapDestroyed"

definition semaphore_signal :: "semaphore_state transition" where
  "semaphore_signal = guarded (\<lambda>s. s = Unsignaled) Signaled"

definition semaphore_consume :: "semaphore_state transition" where
  "semaphore_consume = guarded (\<lambda>s. s = Signaled) Unsignaled"

definition fence_submit :: "fence_state transition" where
  "fence_submit = guarded (\<lambda>s. s = FenceUnsignaled) FenceSubmitted"

definition fence_signal :: "fence_state transition" where
  "fence_signal = guarded (\<lambda>s. s = FenceSubmitted) FenceSignaled"

definition fence_reset :: "fence_state transition" where
  "fence_reset = guarded (\<lambda>s. s = FenceSignaled) FenceUnsignaled"

definition slot_acquire :: "frame_state transition" where
  "slot_acquire = guarded (\<lambda>s. s = Available) Acquired"

definition slot_submit :: "frame_state transition" where
  "slot_submit = guarded (\<lambda>s. s = Acquired) SlotSubmitted"

definition slot_signal :: "frame_state transition" where
  "slot_signal = guarded (\<lambda>s. s = SlotSubmitted) Available"

definition command_begin :: "command_state transition" where
  "command_begin = guarded (\<lambda>s. s = Initial) Recording"

definition command_end :: "command_state transition" where
  "command_end = guarded (\<lambda>s. s = Recording) Executable"

definition command_submit :: "command_state transition" where
  "command_submit = guarded (\<lambda>s. s = Executable) CmdSubmitted"

definition command_reset :: "command_state transition" where
  "command_reset = guarded (\<lambda>s. s = CmdSubmitted) Initial"

lemmas transition_defs =
  guarded_def surface_create_def surface_destroy_def swapchain_create_def swapchain_mark_out_of_date_def
  swapchain_destroy_def semaphore_signal_def semaphore_consume_def fence_submit_def fence_signal_def
  fence_reset_def slot_acquire_def slot_submit_def slot_signal_def command_begin_def command_end_def
  command_submit_def command_reset_def

section \<open>The frame\<close>

record render_frame =
  command :: command_state
  slot :: frame_state
  wait :: semaphore_state
  signal :: semaphore_state
  fence :: fence_state

definition render_frame_new :: render_frame where
  "render_frame_new = \<lparr>command = Initial, slot = Available, wait = Unsignaled, signal = Unsignaled,
     fence = FenceUnsignaled\<rparr>"

text \<open>Apply a transition to one field, and go on when it answers \<open>Ok\<close> (the \<open>?\<close> of the source).\<close>

definition on_field ::
  "(render_frame \<Rightarrow> 'a) \<Rightarrow> (('a \<Rightarrow> 'a) \<Rightarrow> render_frame \<Rightarrow> render_frame) \<Rightarrow> 'a transition \<Rightarrow> render_frame transition" where
  "on_field get upd t f = (let (r, v) = t (get f) in (r, upd (\<lambda>_. v) f))"

definition and_then :: "'s transition \<Rightarrow> 's transition \<Rightarrow> 's transition" where
  "and_then a b s = (case a s of (Inr _, s') \<Rightarrow> b s' | (Inl e, s') \<Rightarrow> (Inl e, s'))"

definition submit_frame :: "render_frame transition" where
  "submit_frame f =
     (if command f \<noteq> Executable \<or> wait f \<noteq> Signaled \<or> signal f \<noteq> Unsignaled \<or> fence f \<noteq> FenceUnsignaled
      then (Inl InvalidTransition, f)
      else and_then (on_field command command_update command_submit)
          (and_then (on_field wait wait_update semaphore_consume)
             (and_then (on_field signal signal_update semaphore_signal)
                (on_field fence fence_update fence_submit))) f)"

definition frame_begin :: "render_frame transition" where
  "frame_begin = and_then (on_field slot slot_update slot_acquire) (on_field command command_update command_begin)"

definition frame_submit :: "render_frame transition" where
  "frame_submit = and_then (on_field command command_update command_end)
     (and_then submit_frame (on_field slot slot_update slot_submit))"

definition frame_complete :: "render_frame transition" where
  "frame_complete =
     and_then (on_field signal signal_update semaphore_consume)
       (and_then (on_field fence fence_update fence_signal)
          (and_then (on_field fence fence_update fence_reset)
             (and_then (on_field slot slot_update slot_signal) (on_field command command_update command_reset))))"

text \<open>What a driver does with a frame: the image becomes available, begin, submit, complete.\<close>

datatype frame_event = ImageAcquired | Begin | Submit | Complete

fun frame_op :: "frame_event \<Rightarrow> render_frame transition" where
  "frame_op ImageAcquired = on_field wait wait_update semaphore_signal"
| "frame_op Begin = frame_begin"
| "frame_op Submit = frame_submit"
| "frame_op Complete = frame_complete"

fun frame_ops :: "frame_event list \<Rightarrow> render_frame \<Rightarrow> (command_error + unit) list \<times> render_frame" where
  "frame_ops [] f = ([], f)"
| "frame_ops (e # es) f = (let (r, f') = frame_op e f; (rs, f'') = frame_ops es f' in (r # rs, f''))"

section \<open>The pool of command buffers\<close>

record command_pool =
  buffers :: "command_state list"
  pool_capacity :: nat

text \<open>\<open>cap\<close> is the capacity the allocator gave, at least the requested one.\<close>

definition command_pool_try_with_capacity :: "alloc \<Rightarrow> nat \<Rightarrow> command_error + command_pool" where
  "command_pool_try_with_capacity al cap =
     (if al 0 then Inr \<lparr>buffers = [], pool_capacity = cap\<rparr> else Inl CommandAllocationFailed)"

definition pool_allocate :: "command_pool \<Rightarrow> nat option \<times> command_pool" where
  "pool_allocate p =
     (if length (buffers p) = pool_capacity p then (None, p)
      else (Some (length (buffers p)), p\<lparr>buffers := buffers p @ [Initial]\<rparr>))"

definition pool_buffer :: "command_pool \<Rightarrow> nat \<Rightarrow> command_state option" where
  "pool_buffer p i = vec_get (buffers p) i"

text \<open>A transition on the buffer that \<open>buffer_mut\<close> lends.\<close>

definition pool_buffer_mut :: "command_state transition \<Rightarrow> nat \<Rightarrow> command_pool \<Rightarrow> (command_error + unit) option \<times> command_pool" where
  "pool_buffer_mut t i p =
     (case vec_get (buffers p) i of
        None \<Rightarrow> (None, p)
      | Some s \<Rightarrow> let (r, s') = t s in (Some r, p\<lparr>buffers := (buffers p)[i := s']\<rparr>))"

definition pool_reset :: "command_pool transition" where
  "pool_reset p =
     (if \<exists>s\<in>set (buffers p). s = CmdSubmitted then (Inl InvalidTransition, p)
      else (Inr (), p\<lparr>buffers := map (\<lambda>_. Initial) (buffers p)\<rparr>))"

section \<open>The protocol\<close>

text \<open>
  The abstract frame: idle, recording, in flight, or stalled, and whether an image is waiting.
  A stalled frame is one whose submission failed for want of an image.
\<close>

datatype phase = Idle | Rec | InFlight | Stalled

fun frame_of :: "phase \<times> bool \<Rightarrow> render_frame" where
  "frame_of (p, img) =
     \<lparr>command = (case p of Idle \<Rightarrow> Initial | Rec \<Rightarrow> Recording | InFlight \<Rightarrow> CmdSubmitted | Stalled \<Rightarrow> Executable),
      slot = (case p of Idle \<Rightarrow> Available | Rec \<Rightarrow> Acquired | InFlight \<Rightarrow> SlotSubmitted | Stalled \<Rightarrow> Acquired),
      wait = (if img then Signaled else Unsignaled),
      signal = (if p = InFlight then Signaled else Unsignaled),
      fence = (if p = InFlight then FenceSubmitted else FenceUnsignaled)\<rparr>"

fun protocol :: "frame_event \<Rightarrow> phase \<times> bool \<Rightarrow> bool \<times> phase \<times> bool" where
  "protocol ImageAcquired (p, img) = (\<not> img, p, True)"
| "protocol Begin (p, img) = (if p = Idle then (True, Rec, img) else (False, p, img))"
| "protocol Submit (p, img) =
     (if p = Rec then (if img then (True, InFlight, False) else (False, Stalled, img)) else (False, p, img))"
| "protocol Complete (p, img) = (if p = InFlight then (True, Idle, img) else (False, p, img))"

fun protocol_run :: "frame_event list \<Rightarrow> phase \<times> bool \<Rightarrow> bool list \<times> phase \<times> bool" where
  "protocol_run [] s = ([], s)"
| "protocol_run (e # es) s = (let (ok, s') = protocol e s; (oks, s'') = protocol_run es s' in (ok # oks, s''))"

definition answer :: "bool \<Rightarrow> command_error + unit" where
  "answer ok = (if ok then Inr () else Inl InvalidTransition)"

lemmas frame_defs = frame_begin_def frame_submit_def frame_complete_def submit_frame_def and_then_def on_field_def
  transition_defs Let_def answer_def

text \<open>One event: the frame answers as the protocol does and moves to the frame of the next phase.\<close>

lemma frame_op_refines:
  "frame_op e (frame_of s) = (answer (fst (protocol e s)), frame_of (snd (protocol e s)))"
  by (cases s; cases "fst s"; cases e) (auto simp: frame_defs)

lemma frame_ops_refines:
  "frame_ops es (frame_of s) = (map answer (fst (protocol_run es s)), frame_of (snd (protocol_run es s)))"
proof (induction es arbitrary: s)
  case (Cons e es)
  then show ?case
    by (simp add: frame_op_refines split: prod.splits)
qed simp

lemma frame_of_new: "frame_of (Idle, False) = render_frame_new"
  by (simp add: render_frame_new_def)

section \<open>Properties\<close>

text \<open>Successful submissions and completions in a run.\<close>

definition successes :: "frame_event \<Rightarrow> frame_event list \<Rightarrow> (command_error + unit) list \<Rightarrow> nat" where
  "successes e es rs = length (filter (\<lambda>p. p = (e, Inr ())) (zip es rs))"

lemma protocol_run_Cons:
  "protocol_run (e # es) s =
     (let t = snd (protocol e s) in (fst (protocol e s) # fst (protocol_run es t), snd (protocol_run es t)))"
  by (simp add: Let_def case_prod_beta)

lemma protocol_counts:
  "successes Submit es (map answer (fst (protocol_run es s))) + of_bool (fst s = InFlight) =
     successes Complete es (map answer (fst (protocol_run es s))) + of_bool (fst (snd (protocol_run es s)) = InFlight)"
proof (induction es arbitrary: s)
  case (Cons e es)
  obtain ok s' where e: "protocol e s = (ok, s')" by (cases "protocol e s")
  have "successes Submit (e # es) (map answer (fst (protocol_run (e # es) s))) =
      successes Submit es (map answer (fst (protocol_run es s'))) + of_bool (e = Submit \<and> ok)"
    "successes Complete (e # es) (map answer (fst (protocol_run (e # es) s))) =
      successes Complete es (map answer (fst (protocol_run es s'))) + of_bool (e = Complete \<and> ok)"
    "snd (protocol_run (e # es) s) = snd (protocol_run es s')"
    using e by (simp_all add: successes_def answer_def split: prod.splits)
  moreover have "of_bool (e = Submit \<and> ok) + of_bool (fst s = InFlight) =
      of_bool (e = Complete \<and> ok) + (of_bool (fst s' = InFlight) :: nat)"
    using e by (cases s; cases e) (auto split: if_splits)
  ultimately show ?case using Cons.IH [of s'] by simp
qed (simp add: successes_def)

text \<open>
  C25: A frame driven by any sequence of events behaves as the four-phase protocol: every answer and
  every state agree, so a command buffer is pending exactly while its slot and fence are; and
  submissions never overlap: at any time there is at most one more successful submission than
  completions, namely when the frame is in flight.
\<close>

theorem render_frame_refines_protocol:
  "frame_ops es render_frame_new =
      (map answer (fst (protocol_run es (Idle, False))), frame_of (snd (protocol_run es (Idle, False))))
   \<and> successes Submit es (fst (frame_ops es render_frame_new)) =
      successes Complete es (fst (frame_ops es render_frame_new))
        + (if command (snd (frame_ops es render_frame_new)) = CmdSubmitted then 1 else 0)"
proof -
  have "command (frame_of t) = CmdSubmitted \<longleftrightarrow> fst t = InFlight" for t
    by (cases t; cases "fst t") auto
  then show ?thesis
    using frame_ops_refines [of es "(Idle, False)"] protocol_counts [of es "(Idle, False)"]
    unfolding frame_of_new by (simp add: of_bool_def)
qed

lemma protocol_stalled: "fst s = Stalled \<Longrightarrow> fst (snd (protocol e s)) = Stalled \<and> (e \<noteq> ImageAcquired \<longrightarrow> \<not> fst (protocol e s))"
  by (cases s; cases e) auto

lemma stalled_run:
  "fst s = Stalled \<Longrightarrow>
     list_all (\<lambda>(e, r). e = ImageAcquired \<or> r = Inl InvalidTransition) (zip es (map answer (fst (protocol_run es s))))"
proof (induction es arbitrary: s)
  case (Cons e es)
  then show ?case
    using protocol_stalled [OF Cons.prems, of e] Cons.IH [of "snd (protocol e s)"]
    unfolding protocol_run_Cons Let_def by (auto simp: answer_def [of "fst (protocol e s)"])
qed simp

text \<open>
  A submission that fails because no image is available loses the frame: the command buffer was
  already ended, so from then on every begin, submit and complete of this frame fails, even after
  the image arrives.
\<close>

theorem failed_submit_stalls_frame:
  "fst (frame_ops [Begin, Submit] render_frame_new) = [Inr (), Inl InvalidTransition]
   \<and> list_all (\<lambda>(e, r). e = ImageAcquired \<or> r = Inl InvalidTransition)
       (zip es (fst (frame_ops es (snd (frame_ops [Begin, Submit] render_frame_new)))))"
proof -
  have "frame_ops [Begin, Submit] render_frame_new = ([Inr (), Inl InvalidTransition], frame_of (Stalled, False))"
    using frame_ops_refines [of "[Begin, Submit]" "(Idle, False)"] unfolding frame_of_new by (simp add: answer_def)
  then show ?thesis
    using frame_ops_refines [of es "(Stalled, False)"] stalled_run [of "(Stalled, False)" es] by simp
qed

text \<open>
  Resetting a pool never touches a buffer the device may still read: it fails when one is
  submitted, and otherwise makes every buffer recordable again.
\<close>

theorem pool_reset_safe:
  "(CmdSubmitted \<in> set (buffers p) \<longrightarrow> pool_reset p = (Inl InvalidTransition, p))
   \<and> (CmdSubmitted \<notin> set (buffers p) \<longrightarrow>
        pool_reset p = (Inr (), p\<lparr>buffers := replicate (length (buffers p)) Initial\<rparr>))"
  by (auto simp: pool_reset_def map_replicate_const)

end
