(* ===== verification/Batching.thy ===== *)
theory Batching
  imports Prelude "HOL-Library.Product_Lexorder" "HOL-Library.Multiset"
begin

text \<open>
  The maximal runs of equal keys of a list: the reference definition for the loops that group
  draw items into batches, in the world renderer and in the UI painter. Also the contract of a
  sort whose order of equal keys is left open.
\<close>

section \<open>Runs of equal keys\<close>

lemma length_dropWhile_Suc [termination_simp]: "length (dropWhile P xs) < Suc (length xs)"
  by (simp add: length_dropWhile_le less_Suc_eq_le)

fun runs :: "('a \<Rightarrow> 'k) \<Rightarrow> 'a list \<Rightarrow> 'a list list" where
  "runs k [] = []"
| "runs k (x # xs) = (x # takeWhile (\<lambda>y. k y = k x) xs) # runs k (dropWhile (\<lambda>y. k y = k x) xs)"

lemma concat_runs [simp]: "concat (runs k xs) = xs"
  by (induction k xs rule: runs.induct) auto

lemma set_takeWhile_key: "set (takeWhile (\<lambda>y. k y = k x) xs) \<subseteq> {y. k y = k x}"
  by (auto dest: set_takeWhileD)

lemma runs_uniform: "r \<in> set (runs k xs) \<Longrightarrow> r \<noteq> [] \<and> set r \<subseteq> {y. k y = k (hd r)}"
proof (induction k xs rule: runs.induct)
  case (2 k x xs)
  then consider (first) "r = x # takeWhile (\<lambda>y. k y = k x) xs" | (rest) "r \<in> set (runs k (dropWhile (\<lambda>y. k y = k x) xs))"
    by auto
  then show ?case
  proof cases
    case first
    then show ?thesis using set_takeWhile_key [of k x xs] by simp
  next
    case rest
    then show ?thesis by (rule "2.IH")
  qed
qed simp

lemma runs_keys: "k ` hd ` set (runs k xs) = k ` set xs"
proof -
  have xs: "set xs = \<Union> (set ` set (runs k xs))" by (metis concat_runs set_concat)
  have hd: "hd r \<in> set r" "k ` set r = {k (hd r)}" if "r \<in> set (runs k xs)" for r
    using runs_uniform [OF that] hd_in_set [of r] by blast+
  have "k ` set xs = (\<Union>r\<in>set (runs k xs). k ` set r)" by (simp add: xs image_UN)
  also have "\<dots> = k ` hd ` set (runs k xs)" using hd(2) by auto
  finally show ?thesis by simp
qed

lemma dropWhile_sorted_greater:
  fixes k :: "'a \<Rightarrow> 'k::linorder"
  assumes "sorted (map k (x # xs))" "y \<in> set (dropWhile (\<lambda>y. k y = k x) xs)"
  shows "k x < k y"
  using assms
proof (induction xs)
  case (Cons z zs)
  then show ?case by (cases "k z = k x") (auto simp: less_le)
qed simp

lemma sorted_dropWhile_map: "sorted (map k xs) \<Longrightarrow> sorted (map k (dropWhile P xs))"
  by (induction xs) auto

text \<open>In a sorted list every key has one run, and the runs come in key order.\<close>

lemma runs_sorted:
  fixes k :: "'a \<Rightarrow> 'k::linorder"
  shows "sorted (map k xs) \<Longrightarrow> sorted_wrt (<) (map (\<lambda>r. k (hd r)) (runs k xs))"
proof (induction k xs rule: runs.induct)
  case (2 k x xs)
  let ?d = "dropWhile (\<lambda>y. k y = k x) xs"
  have "sorted_wrt (<) (map (\<lambda>r. k (hd r)) (runs k ?d))"
    using 2 sorted_dropWhile_map [of k xs] by simp
  moreover have "k x < v" if "v \<in> k ` hd ` set (runs k ?d)" for v
    using that dropWhile_sorted_greater [OF "2.prems"] unfolding runs_keys by blast
  ultimately show ?case by simp
qed simp

lemma length_runs_sorted:
  fixes k :: "'a \<Rightarrow> 'k::linorder"
  assumes "sorted (map k xs)"
  shows "length (runs k xs) = card (k ` set xs)"
proof -
  have d: "distinct (map (\<lambda>r. k (hd r)) (runs k xs))"
    using runs_sorted [OF assms] by (simp add: strict_sorted_iff)
  have "length (runs k xs) = card (set (map (\<lambda>r. k (hd r)) (runs k xs)))"
    using distinct_card [OF d] by simp
  also have "set (map (\<lambda>r. k (hd r)) (runs k xs)) = k ` hd ` set (runs k xs)" by (simp add: image_image)
  finally show ?thesis by (simp only: runs_keys)
qed

lemma run_is_filter:
  fixes k :: "'a \<Rightarrow> 'k::linorder"
  assumes "sorted (map k xs)" "r \<in> set (runs k xs)"
  shows "r = filter (\<lambda>y. k y = k (hd r)) xs"
  using assms
proof (induction k xs rule: runs.induct)
  case (2 k x xs)
  let ?t = "takeWhile (\<lambda>y. k y = k x) xs" and ?d = "dropWhile (\<lambda>y. k y = k x) xs"
  have xs: "xs = ?t @ ?d" by simp
  have gt: "k x < k y" if "y \<in> set ?d" for y using dropWhile_sorted_greater [OF "2.prems"(1) that] .
  show ?case
  proof (cases "r = x # ?t")
    case True
    have "filter (\<lambda>y. k y = k x) ?t = ?t" 
      using set_takeWhile_key [of k x xs] by (intro filter_True) blast
    moreover have "filter (\<lambda>y. k y = k x) ?d = []" using gt by (intro filter_False) (metis less_irrefl)
    ultimately have "filter (\<lambda>y. k y = k x) (?t @ ?d) = ?t" by (simp only: filter_append append_Nil2)
    with True xs show ?thesis by simp
  next
    case False
    then have r: "r \<in> set (runs k ?d)" using "2.prems"(2) by simp
    then have "k (hd r) \<in> k ` set ?d" using runs_keys [of k ?d] by blast
    then have ne: "k x < k (hd r)" using gt by auto
    have "filter (\<lambda>y. k y = k (hd r)) ?t = []"
      using ne set_takeWhile_key [of k x xs] by (intro filter_False) auto
    moreover have "r = filter (\<lambda>y. k y = k (hd r)) ?d"
      using "2.IH" [OF _ r] "2.prems"(1) sorted_dropWhile_map [of k xs] by simp
    ultimately have "filter (\<lambda>y. k y = k (hd r)) (?t @ ?d) = r" by (simp only: filter_append append_Nil)
    with xs ne show ?thesis by simp
  qed
qed simp

text \<open>Neighbouring runs have different keys, sorted or not.\<close>

lemma runs_maximal: "Suc i < length (runs k xs) \<Longrightarrow> k (hd (runs k xs ! i)) \<noteq> k (hd (runs k xs ! Suc i))"
proof (induction k xs arbitrary: i rule: runs.induct)
  case (2 k x xs)
  let ?d = "dropWhile (\<lambda>y. k y = k x) xs"
  show ?case
  proof (cases i)
    case 0
    with "2.prems" have "?d \<noteq> []" by (cases ?d) auto
    moreover then have "hd (hd (runs k ?d)) = hd ?d" "runs k ?d \<noteq> []" by (cases ?d; simp)+
    ultimately show ?thesis using 0 hd_dropWhile [of "\<lambda>y. k y = k x" xs] by (auto simp: hd_conv_nth)
  next
    case (Suc j)
    with 2 show ?thesis by simp
  qed
qed simp

text \<open>Appending one element extends the last run or opens a new one.\<close>

lemma runs_eq_Nil [simp]: "runs k xs = [] \<longleftrightarrow> xs = []"
  by (cases xs) simp_all

lemma last_runs: "xs \<noteq> [] \<Longrightarrow> last (last (runs k xs)) = last xs"
proof (induction k xs rule: runs.induct)
  case (2 k x xs)
  let ?P = "\<lambda>y. k y = k x"
  show ?case
  proof (cases "dropWhile ?P xs")
    case Nil
    then have "takeWhile ?P xs = xs" by (metis append_Nil2 takeWhile_dropWhile_id)
    then have "runs k (x # xs) = [x # xs]" by (simp only: runs.simps Nil)
    then show ?thesis by (simp del: runs.simps)
  next
    case (Cons y ys)
    then have "last (dropWhile ?P xs) = last xs" by (metis last_appendR list.distinct(1) takeWhile_dropWhile_id)
    with Cons 2 show ?thesis by (auto simp: last_ConsR)
  qed
qed simp

lemma key_last_run:
  assumes "xs \<noteq> []"
  shows "k (hd (last (runs k xs))) = k (last xs)"
proof -
  have m: "last (runs k xs) \<in> set (runs k xs)" using assms by simp
  then have "last (last (runs k xs)) \<in> set (last (runs k xs))" using runs_uniform [OF m] by simp
  then show ?thesis using runs_uniform [OF m] last_runs [OF assms, of k] by auto
qed

lemma runs_snoc:
  "runs k (xs @ [y]) =
     (if xs \<noteq> [] \<and> k (last xs) = k y then butlast (runs k xs) @ [last (runs k xs) @ [y]] else runs k xs @ [[y]])"
proof (induction k xs rule: runs.induct)
  case (2 k x xs)
  let ?P = "\<lambda>z. k z = k x"
  show ?case
  proof (cases "dropWhile ?P xs")
    case Nil
    then have all: "takeWhile ?P xs = xs" by (metis append_Nil2 takeWhile_dropWhile_id)
    then have "\<forall>z\<in>set xs. ?P z" by (simp add: takeWhile_eq_all_conv)
    then have kl: "k (last (x # xs)) = k x" by (cases xs) auto
    have tw: "takeWhile ?P (xs @ [y]) = (if k y = k x then xs @ [y] else xs)"
      "dropWhile ?P (xs @ [y]) = (if k y = k x then [] else [y])"
      using all \<open>\<forall>z\<in>set xs. ?P z\<close> by (simp_all add: takeWhile_append dropWhile_append)
    have one: "runs k (x # xs) = [x # xs]" by (simp only: runs.simps all Nil)
    have two: "runs k ((x # xs) @ [y]) = (if k y = k x then [x # xs @ [y]] else [x # xs, [y]])"
      using tw by (simp only: runs.simps append_Cons) simp
    show ?thesis unfolding one two kl by (cases "k x = k y") auto
  next
    case (Cons z zs)
    then have "dropWhile ?P xs \<noteq> []" by simp
    then obtain w where w: "w \<in> set xs" "\<not> ?P w" unfolding dropWhile_eq_Nil_conv by blast
    have tw: "takeWhile ?P (xs @ [y]) = takeWhile ?P xs" "dropWhile ?P (xs @ [y]) = dropWhile ?P xs @ [y]"
      using w by (simp_all add: takeWhile_append1 dropWhile_append1)
    have ne: "dropWhile ?P xs \<noteq> []" using Cons by simp
    have l: "last (dropWhile ?P xs) = last xs" using ne by (metis last_appendR takeWhile_dropWhile_id)
    have lx: "last (x # xs) = last xs" using w by auto
    have r: "runs k (dropWhile ?P xs) \<noteq> []" using ne by simp
    show ?thesis
      using "2.IH" ne l lx r unfolding append_Cons runs.simps tw by (auto simp del: append_Cons simp add: append_Cons)
  qed
qed simp

section \<open>Sorting by key\<close>

text \<open>\<open>sort_unstable_by_key\<close>: a permutation of the input, ordered by the key.\<close>

locale key_sorter =
  fixes k :: "'a \<Rightarrow> 'k::linorder" and sorter :: "'a list \<Rightarrow> 'a list"
  assumes mset_sorter [simp]: "mset (sorter xs) = mset xs"
    and sorted_sorter: "sorted (map k (sorter xs))"
begin

lemma set_sorter [simp]: "set (sorter xs) = set xs"
  by (rule mset_eq_setD) simp

lemma length_sorter [simp]: "length (sorter xs) = length xs"
  by (rule mset_eq_length) simp

text \<open>When the keys are distinct the result is the one of every other sort.\<close>

lemma sorter_unique:
  assumes "inj_on k (set xs)"
  shows "sorter xs = sort_key k xs"
proof (rule map_inj_on [of k])
  have "sort (map k xs) = map k (sorter xs)"
    by (rule properties_for_sort) (simp_all add: sorted_sorter)
  moreover have "sort (map k xs) = map k (sort_key k xs)"
    by (rule properties_for_sort) simp_all
  ultimately show "map k (sorter xs) = map k (sort_key k xs)" by simp
  show "inj_on k (set (sorter xs) \<union> set (sort_key k xs))" using assms by simp
qed

end

interpretation stable_sorter: key_sorter k "sort_key k"
  by unfold_locales (simp_all add: sorted_sort_key)

end
