(* ===== verification/Render_Frame.thy ===== *)
theory Render_Frame
  imports World Wire Batching
begin

text \<open>
  The frame data path of \<open>src/src/subsystems/renderer.rs\<close>: extraction of the renderable entities
  from the world (\<open>RenderWorld\<close>), the sorted manifest of draw batches (\<open>CpuRenderManifest\<close>), the
  validated copy for the GPU (\<open>GpuFramePreparation\<close>), its byte encodings and upload plan
  (\<open>GpuFrameUpload\<close>), and the headless backend. Floating-point values are only copied here, so
  they are their bit patterns; \<open>to_ne_bytes\<close> is little-endian, as on every supported target.
\<close>

section \<open>Records\<close>

type_synonym f32_bits = u32

record render_transform =
  matrix :: "f32_bits list"
  tr_bounds :: "f32_bits list"

record render_material =
  rm_mesh :: u32
  rm_material :: u32

record render_instance =
  ri_entity :: entity
  ri_transform :: "f32_bits list"
  ri_bounds :: "f32_bits list"
  ri_mesh :: u32
  ri_material :: u32

text \<open>The array types \<open>[f32; 12]\<close> and \<open>[f32; 4]\<close>.\<close>

definition instance_typed :: "render_instance \<Rightarrow> bool" where
  "instance_typed x \<longleftrightarrow> length (ri_transform x) = 12 \<and> length (ri_bounds x) = 4"

datatype render_world_error = RwCapacityExceeded | RwAllocationFailed

datatype render_manifest_error = RmCapacityExceeded | RmAllocationFailed | RmIndexOverflow

datatype gpu_preparation_error =
    GpCapacityExceeded
  | GpAllocationFailed
  | GpIndexOverflow
  | GpInvalidRange
  | GpMissingGeometry
  | GpOutputTooSmall
  | GpInvalidGeometry
  | GpInvalidWorkgroupSize

record extraction_stats =
  considered :: nat
  extracted :: nat
  rejected :: nat

record draw_batch =
  db_mesh :: u32
  db_material :: u32
  first_instance :: u32
  instance_count :: u32

section \<open>Extraction\<close>

record render_world =
  rw_instances :: "render_instance list"
  rw_max :: nat

definition render_world_try_with_capacity :: "alloc \<Rightarrow> nat \<Rightarrow> render_world_error + render_world" where
  "render_world_try_with_capacity al n =
     (if al 0 then Inr \<lparr>rw_instances = [], rw_max = n\<rparr> else Inl RwAllocationFailed)"

definition render_world_clear :: "render_world \<Rightarrow> render_world" where
  "render_world_clear rw = rw\<lparr>rw_instances := []\<rparr>"

text \<open>\<open>room n\<close> is the capacity of the vector when it holds \<open>n\<close> instances, \<open>al n\<close> the answer to the
  reservation of one more.\<close>

definition render_world_try_push ::
  "alloc \<Rightarrow> (nat \<Rightarrow> nat) \<Rightarrow> render_world \<Rightarrow> render_instance \<Rightarrow> (render_world_error + unit) \<times> render_world" where
  "render_world_try_push al room rw x =
     (let n = length (rw_instances rw)
      in if n \<ge> rw_max rw then (Inl RwCapacityExceeded, rw)
         else if n = room n \<and> \<not> al n then (Inl RwAllocationFailed, rw)
         else (Inr (), rw\<lparr>rw_instances := rw_instances rw @ [x]\<rparr>))"

definition extract_step ::
  "alloc \<Rightarrow> (nat \<Rightarrow> nat) \<Rightarrow> (entity \<Rightarrow> render_instance option run) \<Rightarrow> entity
   \<Rightarrow> extraction_stats \<times> render_world_error option \<times> render_world
   \<Rightarrow> (extraction_stats \<times> render_world_error option \<times> render_world) run" where
  "extract_step al room project e = (\<lambda>(stats, error, rw).
     if error \<noteq> None then Ret (stats, error, rw)
     else let stats = stats\<lparr>considered := sat_add (considered stats) 1\<rparr>
          in run_bind (project e) (\<lambda>p. case p of
               None \<Rightarrow> Ret (stats, None, rw)
             | Some x \<Rightarrow>
                 (case render_world_try_push al room rw x of
                    (Inr _, rw') \<Rightarrow> Ret (stats\<lparr>extracted := sat_add (extracted stats) 1\<rparr>, None, rw')
                  | (Inl err, rw') \<Rightarrow> Ret (stats\<lparr>rejected := sat_add (rejected stats) 1\<rparr>, Some err, rw'))))"

definition extract_with ::
  "alloc \<Rightarrow> (nat \<Rightarrow> nat) \<Rightarrow> (entity \<Rightarrow> render_instance option run) \<Rightarrow> 'v world \<Rightarrow> render_world
   \<Rightarrow> ((render_world_error + extraction_stats) \<times> render_world) run" where
  "extract_with al room project w rw =
     run_bind
       (run_fold (extract_step al room project) (for_each_entity w)
          (\<lparr>considered = 0, extracted = 0, rejected = 0\<rparr>, None, render_world_clear rw))
       (\<lambda>(stats, error, rw'). Ret (case error of Some err \<Rightarrow> Inl err | None \<Rightarrow> Inr stats, rw'))"

text \<open>
  The two component types of the renderer: their type identifiers, and how a stored component
  value is read at each of these types (the model of the world stores all types in one \<open>'v\<close>).
\<close>

record 'v render_types =
  transform_type :: type_id
  material_type :: type_id
  as_transform :: "'v \<Rightarrow> render_transform"
  as_material :: "'v \<Rightarrow> render_material"

definition project_typed :: "'v render_types \<Rightarrow> 'v world \<Rightarrow> entity \<Rightarrow> render_instance option run" where
  "project_typed ty w e =
     run_bind (world_get w (transform_type ty) e) (\<lambda>t. case t of
       None \<Rightarrow> Ret None
     | Some tv \<Rightarrow> run_bind (world_get w (material_type ty) e) (\<lambda>m. case m of
         None \<Rightarrow> Ret None
       | Some mv \<Rightarrow> Ret (Some
           \<lparr>ri_entity = e, ri_transform = matrix (as_transform ty tv), ri_bounds = tr_bounds (as_transform ty tv),
            ri_mesh = rm_mesh (as_material ty mv), ri_material = rm_material (as_material ty mv)\<rparr>)))"

definition extract_typed ::
  "alloc \<Rightarrow> (nat \<Rightarrow> nat) \<Rightarrow> 'v render_types \<Rightarrow> 'v world \<Rightarrow> render_world
   \<Rightarrow> ((render_world_error + extraction_stats) \<times> render_world) run" where
  "extract_typed al room ty w rw = extract_with al room (project_typed ty w) w rw"

section \<open>The manifest\<close>

record manifest =
  mf_instances :: "render_instance list"
  mf_batches :: "draw_batch list"
  mf_max_instances :: nat
  mf_max_batches :: nat

definition manifest_try_with_capacity :: "alloc \<Rightarrow> nat \<Rightarrow> nat \<Rightarrow> render_manifest_error + manifest" where
  "manifest_try_with_capacity al ni nb =
     (if al 0 \<and> al 1 then Inr \<lparr>mf_instances = [], mf_batches = [], mf_max_instances = ni, mf_max_batches = nb\<rparr>
      else Inl RmAllocationFailed)"

definition manifest_clear :: "manifest \<Rightarrow> manifest" where
  "manifest_clear m = m\<lparr>mf_instances := [], mf_batches := []\<rparr>"

definition sort_key_of :: "render_instance \<Rightarrow> u32 \<times> u32 \<times> u32 \<times> u32" where
  "sort_key_of x = (ri_mesh x, ri_material x, index (ri_entity x), generation (ri_entity x))"

definition batch_key :: "render_instance \<Rightarrow> u32 \<times> u32" where
  "batch_key x = (ri_mesh x, ri_material x)"

text \<open>The inner loop: the end of the run of equal keys that starts at \<open>start\<close>.\<close>

function batch_end :: "render_instance list \<Rightarrow> nat \<Rightarrow> nat \<Rightarrow> nat" where
  "batch_end xs start e =
     (if e < length xs \<and> ri_mesh (xs ! e) = ri_mesh (xs ! start) \<and> ri_material (xs ! e) = ri_material (xs ! start)
      then batch_end xs start (e + 1) else e)"
  by pat_completeness auto
termination by (relation "measure (\<lambda>(xs, s, e). length xs - e)") auto

declare batch_end.simps [simp del]

lemma batch_end_ge: "e \<le> batch_end xs start e"
proof (induction xs start e rule: batch_end.induct)
  case (1 xs start e)
  then show ?case by (subst batch_end.simps) force
qed

function batch_loop ::
  "nat \<Rightarrow> render_instance list \<Rightarrow> nat \<Rightarrow> draw_batch list \<Rightarrow> (render_manifest_error + unit) \<times> draw_batch list" where
  "batch_loop maxb xs start bs =
     (if start < length xs
      then let e = batch_end xs start (start + 1)
           in if length bs \<ge> maxb then (Inl RmCapacityExceeded, bs)
              else if start > u32_max \<or> e - start > u32_max then (Inl RmIndexOverflow, bs)
              else batch_loop maxb xs e
                (bs @ [\<lparr>db_mesh = ri_mesh (xs ! start), db_material = ri_material (xs ! start),
                        first_instance = of_nat start, instance_count = of_nat (e - start)\<rparr>])
      else (Inr (), bs))"
  by pat_completeness auto
termination
proof (relation "measure (\<lambda>(m, xs, s, bs). length xs - s)", goal_cases)
  case (2 maxb xs start bs x)
  then show ?case using batch_end_ge [of "start + 1" xs start] by auto
qed simp

declare batch_loop.simps [simp del]

text \<open>
  \<open>sort_unstable_by_key\<close> may order equal keys in any way: the sorting function is an argument, and
  the theorems hold for every function that returns a permutation ordered by the key. \<open>room\<close> is the
  capacity of the instance vector.
\<close>

definition manifest_build ::
  "(render_instance list \<Rightarrow> render_instance list) \<Rightarrow> alloc \<Rightarrow> nat \<Rightarrow> render_world \<Rightarrow> manifest
   \<Rightarrow> (render_manifest_error + unit) \<times> manifest" where
  "manifest_build sorter al room rw m =
     (let m0 = manifest_clear m; n = length (rw_instances rw)
      in if n > mf_max_instances m then (Inl RmCapacityExceeded, m0)
         else case checked_add (length (mf_instances m0)) n of
           None \<Rightarrow> (Inl RmIndexOverflow, m0)
         | Some required \<Rightarrow>
             if required > room \<and> \<not> al 0 then (Inl RmAllocationFailed, m0)
             else let xs = sorter (mf_instances m0 @ rw_instances rw);
                      (r, bs) = batch_loop (mf_max_batches m) xs 0 []
                  in (r, m0\<lparr>mf_instances := xs, mf_batches := bs\<rparr>))"

section \<open>Extraction is exact\<close>

lemma project_typed_eq:
  assumes "world_inv w"
  shows "project_typed ty w e = Ret
    (case (component w (transform_type ty) e, component w (material_type ty) e) of
       (Some tv, Some mv) \<Rightarrow> Some
           \<lparr>ri_entity = e, ri_transform = matrix (as_transform ty tv), ri_bounds = tr_bounds (as_transform ty tv),
            ri_mesh = rm_mesh (as_material ty mv), ri_material = rm_material (as_material ty mv)\<rparr>
     | _ \<Rightarrow> None)"
  using assms by (simp add: project_typed_def world_get_component split: option.splits)

text \<open>The instances a world has, in slot order: one per live entity that holds both components.\<close>

definition render_view :: "'v render_types \<Rightarrow> 'v world \<Rightarrow> entity \<Rightarrow> render_instance option" where
  "render_view ty w e =
     (case (component w (transform_type ty) e, component w (material_type ty) e) of
        (Some tv, Some mv) \<Rightarrow> Some
           \<lparr>ri_entity = e, ri_transform = matrix (as_transform ty tv), ri_bounds = tr_bounds (as_transform ty tv),
            ri_mesh = rm_mesh (as_material ty mv), ri_material = rm_material (as_material ty mv)\<rparr>
      | _ \<Rightarrow> None)"

definition renderables :: "'v render_types \<Rightarrow> 'v world \<Rightarrow> render_instance list" where
  "renderables ty w = List.map_filter (render_view ty w) (for_each_entity w)"

text \<open>The vector keeps the capacity it reserved when the render world was made.\<close>

definition roomy :: "nat \<Rightarrow> (nat \<Rightarrow> nat) \<Rightarrow> bool" where
  "roomy n room \<longleftrightarrow> (\<forall>k<n. k < room k)"

lemma extract_fold_error:
  "run_fold (extract_step al room project) es (stats, Some err, rw) = Ret (stats, Some err, rw)"
  by (induction es) (simp_all add: extract_step_def)

lemma map_filter_Cons:
  "List.map_filter f (x # xs) = (case f x of None \<Rightarrow> List.map_filter f xs | Some y \<Rightarrow> y # List.map_filter f xs)"
  by (simp add: List.map_filter_simps split: option.split)

lemma extract_fold:
  assumes "\<And>e. project e = Ret (g e)" "roomy (rw_max rw) room" "length (rw_instances rw) \<le> rw_max rw"
    and "considered st + length es \<le> usize_max" "extracted st + length es \<le> usize_max"
  shows "\<exists>st'. run_fold (extract_step al room project) es (st, None, rw) =
     (let xs = List.map_filter g es
      in if length (rw_instances rw) + length xs \<le> rw_max rw
         then Ret (st\<lparr>considered := considered st + length es, extracted := extracted st + length xs\<rparr>, None,
                   rw\<lparr>rw_instances := rw_instances rw @ xs\<rparr>)
         else Ret (st', Some RwCapacityExceeded,
                   rw\<lparr>rw_instances := take (rw_max rw) (rw_instances rw @ xs)\<rparr>))"
  using assms(2-)
proof (induction es arbitrary: st rw)
  case (Cons e es)
  let ?st = "st\<lparr>considered := considered st + 1\<rparr>" and ?n = "length (rw_instances rw)"
  have sat: "sat_add (considered st) (Suc 0) = Suc (considered st)" "sat_add (extracted st) (Suc 0) = Suc (extracted st)"
    using Cons.prems by (simp_all add: sat_add_def)
  show ?case
  proof (cases "g e")
    case None
    obtain st' where "run_fold (extract_step al room project) es (?st, None, rw) =
     (let xs = List.map_filter g es
      in if ?n + length xs \<le> rw_max rw
         then Ret (?st\<lparr>considered := considered ?st + length es, extracted := extracted ?st + length xs\<rparr>, None,
                   rw\<lparr>rw_instances := rw_instances rw @ xs\<rparr>)
         else Ret (st', Some RwCapacityExceeded, rw\<lparr>rw_instances := take (rw_max rw) (rw_instances rw @ xs)\<rparr>))"
      using Cons.IH [of rw ?st] Cons.prems by auto
    moreover have "extract_step al room project e (st, None, rw) = Ret (?st, None, rw)"
      using None sat by (simp add: extract_step_def assms(1))
    ultimately show ?thesis
      using None by (intro exI [of _ st']) (simp add: map_filter_Cons Let_def)
  next
    case (Some x)
    show ?thesis
    proof (cases "?n < rw_max rw")
      case True
      let ?rw = "rw\<lparr>rw_instances := rw_instances rw @ [x]\<rparr>" and ?st1 = "?st\<lparr>extracted := extracted st + 1\<rparr>"
      have push: "render_world_try_push al room rw x = (Inr (), ?rw)"
        using True Cons.prems(1) by (auto simp: render_world_try_push_def roomy_def Let_def)
      obtain st' where "run_fold (extract_step al room project) es (?st1, None, ?rw) =
       (let xs = List.map_filter g es
        in if length (rw_instances ?rw) + length xs \<le> rw_max ?rw
           then Ret (?st1\<lparr>considered := considered ?st1 + length es, extracted := extracted ?st1 + length xs\<rparr>, None,
                     ?rw\<lparr>rw_instances := rw_instances ?rw @ xs\<rparr>)
           else Ret (st', Some RwCapacityExceeded, ?rw\<lparr>rw_instances := take (rw_max ?rw) (rw_instances ?rw @ xs)\<rparr>))"
        using Cons.IH [of ?rw ?st1] Cons.prems True by auto
      moreover have "extract_step al room project e (st, None, rw) = Ret (?st1, None, ?rw)"
        using Some push sat by (simp add: extract_step_def assms(1))
      ultimately show ?thesis
        using Some by (intro exI [of _ st']) (simp add: map_filter_Cons Let_def)
    next
      case False
      then have push: "render_world_try_push al room rw x = (Inl RwCapacityExceeded, rw)"
        by (simp add: render_world_try_push_def Let_def)
      have "take (rw_max rw) (rw_instances rw @ ys) = rw_instances rw" for ys using False Cons.prems(2) by simp
      moreover have "extract_step al room project e (st, None, rw) =
          Ret (?st\<lparr>rejected := sat_add (rejected st) 1\<rparr>, Some RwCapacityExceeded, rw)"
        using Some push sat by (simp add: extract_step_def assms(1))
      ultimately show ?thesis
        using Some False by (auto simp: map_filter_Cons Let_def extract_fold_error)
    qed
  qed
qed simp

lemma entity_walk_bound:
  assumes "world_inv w"
  shows "length (for_each_entity w) = entity_count w" "length (for_each_entity w) \<le> usize_max"
proof -
  note fe = for_each_entity_spec [OF assms]
  have "sorted_wrt (<) (map index (for_each_entity w))" using fe(2) by (simp add: sorted_wrt_map)
  then have "distinct (map index (for_each_entity w))" by (simp add: strict_sorted_iff)
  then have "length (for_each_entity w) = card (set (map index (for_each_entity w)))"
    by (metis distinct_card length_map)
  also have "\<dots> \<le> card (UNIV :: u32 set)" by (rule card_mono) simp_all
  finally show "length (for_each_entity w) \<le> usize_max" by (simp add: card_word usize_max_def)
  show "length (for_each_entity w) = entity_count w" using entity_walk_exact [OF assms] by simp
qed

lemma extract_typed_spec:
  assumes inv: "world_inv w" and room: "roomy (rw_max rw) room"
  shows "extract_typed al room ty w rw =
     (if length (renderables ty w) \<le> rw_max rw
      then Ret (Inr \<lparr>considered = entity_count w, extracted = length (renderables ty w), rejected = 0\<rparr>,
                rw\<lparr>rw_instances := renderables ty w\<rparr>)
      else Ret (Inl RwCapacityExceeded, rw\<lparr>rw_instances := take (rw_max rw) (renderables ty w)\<rparr>))"
  using extract_fold [where project = "project_typed ty w" and g = "render_view ty w" and rw = "render_world_clear rw"
        and es = "for_each_entity w" and al = al and room = room and st = "\<lparr>considered = 0, extracted = 0, rejected = 0\<rparr>"]
      project_typed_eq [OF inv, of ty] room entity_walk_bound [OF inv]
  by (auto simp: extract_typed_def extract_with_def render_world_clear_def renderables_def render_view_def Let_def)

section \<open>Batching is exact\<close>

lemma batch_end_eq:
  "batch_end xs s e = e + length (takeWhile (\<lambda>y. batch_key y = batch_key (xs ! s)) (drop e xs))"
proof (induction xs s e rule: batch_end.induct)
  case (1 xs s e)
  show ?case
  proof (cases "e < length xs \<and> batch_key (xs ! e) = batch_key (xs ! s)")
    case True
    then have "drop e xs = xs ! e # drop (e + 1) xs" by (simp add: Cons_nth_drop_Suc)
    with True 1 show ?thesis by (subst batch_end.simps) (auto simp: batch_key_def)
  next
    case False
    then have "takeWhile (\<lambda>y. batch_key y = batch_key (xs ! s)) (drop e xs) = []"
      by (cases "e < length xs") (simp_all flip: Cons_nth_drop_Suc)
    with False show ?thesis by (subst batch_end.simps) (auto simp: batch_key_def)
  qed
qed

text \<open>The batches of a list of runs that starts at a position of the instance list.\<close>

fun batches_at :: "nat \<Rightarrow> render_instance list list \<Rightarrow> draw_batch list" where
  "batches_at s [] = []"
| "batches_at s (r # rs) =
     \<lparr>db_mesh = ri_mesh (hd r), db_material = ri_material (hd r), first_instance = of_nat s,
      instance_count = of_nat (length r)\<rparr> # batches_at (s + length r) rs"

lemma length_batches_at [simp]: "length (batches_at s rs) = length rs"
  by (induction s rs rule: batches_at.induct) simp_all

lemma batch_loop_runs:
  assumes "length xs \<le> u32_max" "s \<le> length xs" "length bs \<le> maxb"
  shows "batch_loop maxb xs s bs =
     (let bs' = batches_at s (runs batch_key (drop s xs))
      in if length bs + length bs' \<le> maxb then (Inr (), bs @ bs')
         else (Inl RmCapacityExceeded, bs @ take (maxb - length bs) bs'))"
  using assms
proof (induction maxb xs s bs rule: batch_loop.induct)
  case (1 maxb xs s bs)
  show ?case
  proof (cases "s < length xs")
    case True
    let ?P = "\<lambda>y. batch_key y = batch_key (xs ! s)"
    let ?e = "batch_end xs s (s + 1)"
    have d: "drop s xs = xs ! s # drop (s + 1) xs" using True by (simp add: Cons_nth_drop_Suc)
    have e: "?e = s + length (xs ! s # takeWhile ?P (drop (s + 1) xs))" by (simp add: batch_end_eq)
    have le: "?e \<le> length xs"
      using length_takeWhile_le [of ?P "drop (s + 1) xs"] True unfolding e by simp
    have rest: "dropWhile ?P (drop (s + 1) xs) = drop ?e xs"
      unfolding e by (simp add: dropWhile_eq_drop add.commute)
    let ?b = "\<lparr>db_mesh = ri_mesh (xs ! s), db_material = ri_material (xs ! s),
      first_instance = of_nat s, instance_count = of_nat (?e - s)\<rparr>"
    have run: "batches_at s (runs batch_key (drop s xs)) = ?b # batches_at ?e (runs batch_key (drop ?e xs))"
      unfolding d runs.simps rest by (simp add: e del: One_nat_def add_Suc_right)
    show ?thesis
    proof (cases "length bs \<ge> maxb")
      case True
      then show ?thesis using \<open>s < length xs\<close> "1.prems" by (subst batch_loop.simps) (simp add: run Let_def)
    next
      case False
      have fit: "\<not> (s > u32_max \<or> ?e - s > u32_max)" using "1.prems" le True by linarith
      have "batch_loop maxb xs s bs = batch_loop maxb xs ?e (bs @ [?b])"
        using True False fit by (subst batch_loop.simps) (simp add: Let_def)
      also have "\<dots> = (let bs' = batches_at ?e (runs batch_key (drop ?e xs))
          in if length (bs @ [?b]) + length bs' \<le> maxb then (Inr (), (bs @ [?b]) @ bs')
             else (Inl RmCapacityExceeded, (bs @ [?b]) @ take (maxb - length (bs @ [?b])) bs'))"
        using "1.IH" [OF True refl] False fit "1.prems" le by simp
      finally show ?thesis
        using False unfolding run by (simp add: Let_def take_Cons' Suc_diff_Suc)
    qed
  next
    case False
    with "1.prems" show ?thesis by (subst batch_loop.simps) simp
  qed
qed

definition batch_slice :: "'a list \<Rightarrow> draw_batch \<Rightarrow> 'a list" where
  "batch_slice xs b = take (unat (instance_count b)) (drop (unat (first_instance b)) xs)"

lemma batches_at_slices:
  assumes "length (pre @ concat rs) \<le> u32_max"
  shows "map (batch_slice (pre @ concat rs)) (batches_at (length pre) rs) = rs"
  using assms
proof (induction rs arbitrary: pre)
  case (Cons r rs)
  have "batch_slice (pre @ concat (r # rs)) (hd (batches_at (length pre) (r # rs))) = r"
    using Cons.prems by (simp add: batch_slice_def unat_of_nat_u32)
  moreover have "map (batch_slice ((pre @ r) @ concat rs)) (batches_at (length (pre @ r)) rs) = rs"
    using Cons.prems by (intro Cons.IH) simp
  ultimately show ?case by simp
qed simp

lemma batches_at_key:
  "map (\<lambda>b. (db_mesh b, db_material b)) (batches_at s rs) = map (\<lambda>r. batch_key (hd r)) rs"
  by (induction s rs rule: batches_at.induct) (simp_all add: batch_key_def)

lemma sorted_batch_key: "sorted (map sort_key_of xs) \<Longrightarrow> sorted (map batch_key xs)"
  by (induction xs) (auto simp: sort_key_of_def batch_key_def less_eq_prod_def)

definition batch_id :: "draw_batch \<Rightarrow> u32 \<times> u32" where
  "batch_id b = (db_mesh b, db_material b)"

lemma manifest_build_spec:
  assumes srt: "key_sorter sort_key_of sorter" and len: "length (rw_instances rw) \<le> u32_max"
    and room: "mf_max_instances m \<le> room"
  shows "manifest_build sorter al room rw m =
     (let xs = sorter (rw_instances rw); bs = batches_at 0 (runs batch_key xs); m0 = manifest_clear m
      in if length (rw_instances rw) > mf_max_instances m then (Inl RmCapacityExceeded, m0)
         else if length bs \<le> mf_max_batches m then (Inr (), m0\<lparr>mf_instances := xs, mf_batches := bs\<rparr>)
         else (Inl RmCapacityExceeded, m0\<lparr>mf_instances := xs, mf_batches := take (mf_max_batches m) bs\<rparr>))"
proof -
  have "length (sorter (rw_instances rw)) \<le> u32_max" using key_sorter.length_sorter [OF srt] len by simp
  then have "batch_loop (mf_max_batches m) (sorter (rw_instances rw)) 0 [] =
     (let bs' = batches_at 0 (runs batch_key (sorter (rw_instances rw)))
      in if length bs' \<le> mf_max_batches m then (Inr (), bs')
         else (Inl RmCapacityExceeded, take (mf_max_batches m) bs'))"
    using batch_loop_runs [of "sorter (rw_instances rw)" 0 "[]"] by (simp add: Let_def)
  moreover have "checked_add 0 (length (rw_instances rw)) = Some (length (rw_instances rw))"
    using len by (simp add: checked_add_def u32_max_def usize_max_def)
  ultimately show ?thesis
    using room by (simp add: manifest_build_def manifest_clear_def Let_def)
qed

text \<open>The batches of sorted instances: a partition into one batch per mesh and material.\<close>

lemma sorted_batches:
  fixes xs :: "render_instance list"
  assumes len: "length xs \<le> u32_max" and sorted: "sorted (map sort_key_of xs)"
  defines "bs \<equiv> batches_at 0 (runs batch_key xs)"
  shows "concat (map (batch_slice xs) bs) = xs"
    and "b \<in> set bs \<Longrightarrow> batch_slice xs b \<noteq> []"
    and "b \<in> set bs \<Longrightarrow> batch_slice xs b = filter (\<lambda>x. batch_key x = batch_id b) xs"
    and "sorted_wrt (<) (map batch_id bs)" and "length bs = card (batch_key ` set xs)"
    and "batch_id ` set bs = batch_key ` set xs"
proof -
  note srt = sorted_batch_key [OF sorted]
  have sl: "map (batch_slice xs) bs = runs batch_key xs"
    using batches_at_slices [of "[]" "runs batch_key xs"] len by (simp add: bs_def)
  have ids: "map batch_id bs = map (\<lambda>r. batch_key (hd r)) (runs batch_key xs)"
    unfolding bs_def batch_id_def by (rule batches_at_key)
  show "concat (map (batch_slice xs) bs) = xs" by (simp add: sl)
  show "sorted_wrt (<) (map batch_id bs)" unfolding ids by (rule runs_sorted [OF srt])
  show "length bs = card (batch_key ` set xs)" using length_runs_sorted [OF srt] by (simp add: bs_def)
  have "batch_id ` set bs = set (map batch_id bs)" by simp
  also have "\<dots> = batch_key ` hd ` set (runs batch_key xs)" unfolding ids by (simp add: image_image)
  finally show "batch_id ` set bs = batch_key ` set xs" by (simp only: runs_keys)
  assume b: "b \<in> set bs"
  then obtain i where i: "i < length bs" "bs ! i = b" by (meson in_set_conv_nth)
  have n: "length (runs batch_key xs) = length bs" by (simp add: bs_def)
  have r: "batch_slice xs b = runs batch_key xs ! i" using arg_cong [OF sl, of "\<lambda>l. l ! i"] i by simp
  have k: "batch_id b = batch_key (hd (runs batch_key xs ! i))"
    using arg_cong [OF ids, of "\<lambda>l. l ! i"] i n by simp
  have m: "runs batch_key xs ! i \<in> set (runs batch_key xs)" using i n by (simp add: nth_mem)
  show "batch_slice xs b \<noteq> []" using runs_uniform [OF m] r by simp
  show "batch_slice xs b = filter (\<lambda>x. batch_key x = batch_id b) xs"
    using run_is_filter [OF srt m] unfolding r k .
qed

section \<open>The GPU copy of a frame\<close>

record indirect_command =
  ic_mesh :: u32
  ic_material :: u32
  ic_first_instance :: u32
  ic_instance_count :: u32

record gpu_preparation =
  gp_instances :: "render_instance list"
  gp_commands :: "indirect_command list"
  gp_max_instances :: nat
  gp_max_commands :: nat

text \<open>The vectors are reserved to their maxima when the preparation is made.\<close>

definition gpu_preparation_try_with_capacity :: "alloc \<Rightarrow> nat \<Rightarrow> nat \<Rightarrow> gpu_preparation_error + gpu_preparation" where
  "gpu_preparation_try_with_capacity al ni nc =
     (if al 0 \<and> al 1 then Inr \<lparr>gp_instances = [], gp_commands = [], gp_max_instances = ni, gp_max_commands = nc\<rparr>
      else Inl GpAllocationFailed)"

text \<open>The range check that \<open>prepare\<close> and \<open>validate\<close> share: an error, or none.\<close>

definition range_check :: "nat \<Rightarrow> u32 \<Rightarrow> u32 \<Rightarrow> gpu_preparation_error option" where
  "range_check n first cnt =
     (case wchecked_add first cnt of
        None \<Rightarrow> Some GpIndexOverflow
      | Some e \<Rightarrow> if unat e > n then Some GpInvalidRange else None)"

definition command_of_batch :: "draw_batch \<Rightarrow> indirect_command" where
  "command_of_batch b = \<lparr>ic_mesh = db_mesh b, ic_material = db_material b,
     ic_first_instance = first_instance b, ic_instance_count = instance_count b\<rparr>"

fun prepare_commands ::
  "nat \<Rightarrow> draw_batch list \<Rightarrow> indirect_command list \<Rightarrow> (gpu_preparation_error + unit) \<times> indirect_command list" where
  "prepare_commands n [] cs = (Inr (), cs)"
| "prepare_commands n (b # bs) cs =
     (case range_check n (first_instance b) (instance_count b) of
        Some err \<Rightarrow> (Inl err, cs)
      | None \<Rightarrow> prepare_commands n bs (cs @ [command_of_batch b]))"

definition prepare :: "alloc \<Rightarrow> nat \<Rightarrow> manifest \<Rightarrow> gpu_preparation \<Rightarrow> (gpu_preparation_error + unit) \<times> gpu_preparation" where
  "prepare al room m g =
     (let g0 = g\<lparr>gp_instances := [], gp_commands := []\<rparr>; xs = mf_instances m
      in if length xs > gp_max_instances g \<or> length (mf_batches m) > gp_max_commands g
         then (Inl GpCapacityExceeded, g0)
         else if length xs > room \<and> \<not> al 0 then (Inl GpAllocationFailed, g0)
         else let (r, cs) = prepare_commands (length xs) (mf_batches m) []
              in (r, g0\<lparr>gp_instances := xs, gp_commands := cs\<rparr>))"

fun validate_commands :: "nat \<Rightarrow> indirect_command list \<Rightarrow> gpu_preparation_error + unit" where
  "validate_commands n [] = Inr ()"
| "validate_commands n (c # cs) =
     (case range_check n (ic_first_instance c) (ic_instance_count c) of
        Some err \<Rightarrow> Inl err
      | None \<Rightarrow> validate_commands n cs)"

definition validate :: "gpu_preparation \<Rightarrow> gpu_preparation_error + unit" where
  "validate g = validate_commands (length (gp_instances g)) (gp_commands g)"

section \<open>Byte encodings\<close>

record indexed_geometry =
  ig_mesh :: u32
  ig_index_count :: u32
  ig_first_index :: u32
  ig_vertex_offset :: u32

text \<open>\<open>vertex_offset\<close> is an \<open>i32\<close>; only its bits are copied.\<close>

definition indexed_indirect_command_size :: nat where
  "indexed_indirect_command_size = 20"

definition gpu_instance_record_size :: nat where
  "gpu_instance_record_size = 80"

definition indirect_fields :: "indexed_geometry \<Rightarrow> indirect_command \<Rightarrow> u32 list" where
  "indirect_fields mesh c =
     [ig_index_count mesh, ic_instance_count c, ig_first_index mesh, ig_vertex_offset mesh, ic_first_instance c]"

definition encode_command :: "indexed_geometry list \<Rightarrow> nat \<times> indirect_command \<Rightarrow> bytes \<Rightarrow> (gpu_preparation_error + bytes) run" where
  "encode_command geometry = (\<lambda>(i, c) out.
     case find (\<lambda>m. ig_mesh m = ic_mesh c) geometry of
       None \<Rightarrow> Ret (Inl GpMissingGeometry)
     | Some mesh \<Rightarrow>
         if ig_index_count mesh = 0 then Ret (Inl GpInvalidGeometry)
         else run_bind
           (run_fold (\<lambda>(k, v). vec_write (i * indexed_indirect_command_size + k * 4) (u32_to_le v))
              (enumerate 0 (indirect_fields mesh c)) out)
           (\<lambda>out'. Ret (Inr out')))"

text \<open>The loop over the commands: the output keeps what was written before an error.\<close>

fun encode_commands ::
  "indexed_geometry list \<Rightarrow> (nat \<times> indirect_command) list \<Rightarrow> bytes \<Rightarrow> (gpu_preparation_error option \<times> bytes) run" where
  "encode_commands geometry [] out = Ret (None, out)"
| "encode_commands geometry (c # cs) out =
     run_bind (encode_command geometry c out) (\<lambda>r. case r of
       Inl err \<Rightarrow> Ret (Some err, out)
     | Inr out' \<Rightarrow> encode_commands geometry cs out')"

definition encode_indexed_commands ::
  "gpu_preparation \<Rightarrow> indexed_geometry list \<Rightarrow> bytes \<Rightarrow> ((gpu_preparation_error + nat) \<times> bytes) run" where
  "encode_indexed_commands g geometry out =
     (case validate g of
        Inl err \<Rightarrow> Ret (Inl err, out)
      | Inr _ \<Rightarrow>
          (case checked_mul (length (gp_commands g)) indexed_indirect_command_size of
             None \<Rightarrow> Ret (Inl GpIndexOverflow, out)
           | Some required \<Rightarrow>
               if length out < required then Ret (Inl GpOutputTooSmall, out)
               else run_bind (encode_commands geometry (enumerate 0 (gp_commands g)) out) (\<lambda>(e, out').
                 Ret (case e of Some err \<Rightarrow> Inl err | None \<Rightarrow> Inr required, out'))))"

text \<open>The fields of the GPU record in order: transform, bounds, entity, mesh and material.\<close>

definition instance_fields :: "render_instance \<Rightarrow> u32 list" where
  "instance_fields x = ri_transform x @ ri_bounds x
     @ [index (ri_entity x), generation (ri_entity x), ri_mesh x, ri_material x]"

text \<open>\<open>write\<close>: copy one field at the running offset and advance it.\<close>

definition write_field :: "nat \<Rightarrow> u32 \<Rightarrow> nat \<times> bytes \<Rightarrow> (nat \<times> bytes) run" where
  "write_field start v = (\<lambda>(off, out).
     run_bind (vec_write (start + off) (u32_to_le v) out) (\<lambda>out'. Ret (off + 4, out')))"

definition encode_instance :: "nat \<times> render_instance \<Rightarrow> bytes \<Rightarrow> bytes run" where
  "encode_instance = (\<lambda>(i, x) out.
     run_bind (run_fold (write_field (i * gpu_instance_record_size)) (instance_fields x) (0, out))
       (\<lambda>(off, out'). Ret out'))"

definition encode_instance_records :: "gpu_preparation \<Rightarrow> bytes \<Rightarrow> ((gpu_preparation_error + nat) \<times> bytes) run" where
  "encode_instance_records g out =
     (case checked_mul (length (gp_instances g)) gpu_instance_record_size of
        None \<Rightarrow> Ret (Inl GpIndexOverflow, out)
      | Some required \<Rightarrow>
          if length out < required then Ret (Inl GpOutputTooSmall, out)
          else run_bind (run_fold encode_instance (enumerate 0 (gp_instances g)) out)
            (\<lambda>out'. Ret (Inr required, out')))"

section \<open>The upload plan\<close>

record frame_command_plan =
  fp_instance_count :: u32
  fp_draw_count :: u32
  instance_upload_bytes :: nat
  indirect_upload_bytes :: nat
  cull_workgroups :: u32

definition u32_try_from :: "nat \<Rightarrow> u32 option" where
  "u32_try_from n = (if n \<le> u32_max then Some (of_nat n) else None)"

definition command_plan :: "gpu_preparation \<Rightarrow> u32 \<Rightarrow> gpu_preparation_error + frame_command_plan" where
  "command_plan g wg =
     (if wg = 0 then Inl GpInvalidWorkgroupSize
      else case validate g of
        Inl err \<Rightarrow> Inl err
      | Inr _ \<Rightarrow>
          (case (u32_try_from (length (gp_instances g)), u32_try_from (length (gp_commands g)),
                 checked_mul (length (gp_instances g)) gpu_instance_record_size,
                 checked_mul (length (gp_commands g)) indexed_indirect_command_size) of
             (Some ni, Some nc, Some bi, Some bc) \<Rightarrow>
               (case wchecked_add ni (wg - 1) of
                  None \<Rightarrow> Inl GpIndexOverflow
                | Some n \<Rightarrow> Inr \<lparr>fp_instance_count = ni, fp_draw_count = nc, instance_upload_bytes = bi,
                                 indirect_upload_bytes = bc, cull_workgroups = n div wg\<rparr>)
           | _ \<Rightarrow> Inl GpIndexOverflow))"

datatype gpu_upload_error = UploadPreparation gpu_preparation_error | UploadAllocationFailed

text \<open>
  The buffers of the caller and the outcome. Reservations are asked for in order: instances, then
  commands.
\<close>

definition try_encode_into ::
  "alloc \<Rightarrow> gpu_preparation \<Rightarrow> indexed_geometry list \<Rightarrow> u32 \<Rightarrow> bytes \<Rightarrow> bytes
   \<Rightarrow> ((gpu_upload_error + frame_command_plan) \<times> bytes \<times> bytes) run" where
  "try_encode_into al g geometry wg ib cb =
     (case command_plan g wg of
        Inl err \<Rightarrow> Ret (Inl (UploadPreparation err), ib, cb)
      | Inr plan \<Rightarrow>
          if \<not> al 0 \<or> \<not> al 1 then Ret (Inl UploadAllocationFailed, ib, cb)
          else run_bind (encode_instance_records g (vec_resize (instance_upload_bytes plan) 0 ib)) (\<lambda>(r, ib').
            let cb0 = vec_resize (indirect_upload_bytes plan) 0 cb
            in case r of
                 Inl err \<Rightarrow> Ret (Inl (UploadPreparation err), ib', cb0)
               | Inr _ \<Rightarrow>
                   run_bind (encode_indexed_commands g geometry cb0) (\<lambda>(r', cb').
                     Ret (case r' of Inl err \<Rightarrow> Inl (UploadPreparation err) | Inr _ \<Rightarrow> Inr plan, ib', cb'))))"

record frame_upload =
  fu_plan :: frame_command_plan
  fu_instances :: bytes
  fu_indirect :: bytes

definition frame_upload_try_build ::
  "alloc \<Rightarrow> gpu_preparation \<Rightarrow> indexed_geometry list \<Rightarrow> u32 \<Rightarrow> (gpu_upload_error + frame_upload) run" where
  "frame_upload_try_build al g geometry wg =
     run_bind (try_encode_into al g geometry wg [] []) (\<lambda>(r, ib, cb).
       Ret (map_sum id (\<lambda>plan. \<lparr>fu_plan = plan, fu_instances = ib, fu_indirect = cb\<rparr>) r))"

section \<open>The headless backend\<close>

record submission_stats =
  submitted_frames :: u64
  submitted_instances :: u64
  submitted_commands :: u64

datatype render_submit_error = InvalidPreparation | DeviceLost | Unsupported | OutOfDate

definition headless_submit ::
  "gpu_preparation \<Rightarrow> submission_stats \<Rightarrow> (render_submit_error + submission_stats) \<times> submission_stats" where
  "headless_submit g st =
     (case validate g of
        Inl _ \<Rightarrow> (Inl InvalidPreparation, st)
      | Inr _ \<Rightarrow>
          let st' = \<lparr>submitted_frames = wsat_add (submitted_frames st) 1,
                     submitted_instances = wsat_add (submitted_instances st) (of_nat (length (gp_instances g))),
                     submitted_commands = wsat_add (submitted_commands st) (of_nat (length (gp_commands g)))\<rparr>
          in (Inr st', st'))"

section \<open>Preparation and validation\<close>

lemma prepare_commands_ok:
  "list_all (\<lambda>b. range_check n (first_instance b) (instance_count b) = None) bs
   \<Longrightarrow> prepare_commands n bs cs = (Inr (), cs @ map command_of_batch bs)"
  by (induction bs arbitrary: cs) simp_all

lemma validate_commands_ok:
  "validate_commands n cs = Inr () \<longleftrightarrow>
     list_all (\<lambda>c. range_check n (ic_first_instance c) (ic_instance_count c) = None) cs"
  by (induction cs) (auto split: option.split)

lemma range_check_None:
  "range_check n first cnt = None \<longleftrightarrow> unat first + unat cnt \<le> n \<and> unat first + unat cnt < 2 ^ 32"
  by (auto simp: range_check_def wchecked_add_def unat_plus_if' unat_word_ariths split: option.splits if_splits)

lemma prepare_commands_ret:
  "prepare_commands n bs cs = (Inr (), cs') \<Longrightarrow>
     cs' = cs @ map command_of_batch bs \<and> list_all (\<lambda>b. range_check n (first_instance b) (instance_count b) = None) bs"
proof (induction bs arbitrary: cs)
  case (Cons b bs)
  then show ?case using Cons.IH [of "cs @ [command_of_batch b]"] by (auto split: option.splits)
qed simp

lemma prepare_valid: "prepare al room m g = (Inr (), g') \<Longrightarrow> validate g' = Inr ()"
  by (auto simp: prepare_def validate_def validate_commands_ok Let_def list_all_iff command_of_batch_def
      split: if_splits prod.splits dest!: prepare_commands_ret)

lemma batches_at_in_range:
  assumes "s + length (concat rs) \<le> u32_max"
  shows "list_all (\<lambda>b. range_check (s + length (concat rs)) (first_instance b) (instance_count b) = None) (batches_at s rs)"
  using assms
proof (induction s rs rule: batches_at.induct)
  case (2 s r rs)
  then have "unat (of_nat s :: u32) = s" "unat (of_nat (length r) :: u32) = length r"
    by (simp_all add: unat_of_nat_u32)
  with 2 show ?case by (simp add: range_check_None u32_max_def add.assoc)
qed simp

section \<open>The encodings are exact\<close>

definition command_bytes :: "indexed_geometry list \<Rightarrow> indirect_command \<Rightarrow> bytes" where
  "command_bytes geometry c =
     (case find (\<lambda>m. ig_mesh m = ic_mesh c) geometry of
        None \<Rightarrow> []
      | Some mesh \<Rightarrow> concat (map u32_to_le (indirect_fields mesh c)))"

definition drawable :: "indexed_geometry list \<Rightarrow> indirect_command \<Rightarrow> bool" where
  "drawable geometry c =
     (case find (\<lambda>m. ig_mesh m = ic_mesh c) geometry of None \<Rightarrow> False | Some mesh \<Rightarrow> ig_index_count mesh \<noteq> 0)"

definition instance_bytes :: "render_instance \<Rightarrow> bytes" where
  "instance_bytes x = concat (map u32_to_le (instance_fields x))"

lemma length_concat_u32 [simp]: "length (concat (map u32_to_le vs)) = 4 * length vs"
  by (induction vs) simp_all

lemma length_command_bytes: "drawable geometry c \<Longrightarrow> length (command_bytes geometry c) = 20"
  by (auto simp: drawable_def command_bytes_def indirect_fields_def split: option.splits)

lemma length_instance_bytes: "instance_typed x \<Longrightarrow> length (instance_bytes x) = 80"
  by (simp add: instance_typed_def instance_bytes_def instance_fields_def)

lemma encode_command_eq:
  assumes "drawable geometry c" "20 * i + 20 \<le> length out"
  shows "encode_command geometry (i, c) out = run_bind (vec_write (20 * i) (command_bytes geometry c) out) (\<lambda>o'. Ret (Inr o'))"
proof -
  obtain mesh where m: "find (\<lambda>m. ig_mesh m = ic_mesh c) geometry = Some mesh" "ig_index_count mesh \<noteq> 0"
    using assms(1) by (auto simp: drawable_def split: option.splits)
  let ?f = "\<lambda>(k, v). vec_write (i * indexed_indirect_command_size + k * 4) (u32_to_le v)"
  have len: "length (indirect_fields mesh c) = 5" by (simp add: indirect_fields_def)
  have "run_fold ?f (enumerate 0 (indirect_fields mesh c)) (take (20 * i) out @ drop (20 * i) out) =
      Ret (take (20 * i) out @ concat (map u32_to_le (indirect_fields mesh c)) @ drop (4 * length (indirect_fields mesh c)) (drop (20 * i) out))"
    using assms(2) len by (intro write_records [where base = "20 * i" and w = 4])
      (simp_all add: indexed_indirect_command_size_def ac_simps)
  then show ?thesis
    using m assms(2) len by (simp add: encode_command_def command_bytes_def vec_write_def add.commute)
qed

lemma write_field_fold:
  assumes "length a = start + off" "4 * length vs \<le> length b"
  shows "run_fold (write_field start) vs (off, a @ b) =
     Ret (off + 4 * length vs, a @ concat (map u32_to_le vs) @ drop (4 * length vs) b)"
  using assms
proof (induction vs arbitrary: off a b)
  case (Cons v vs)
  have "vec_write (start + off) (u32_to_le v) (a @ take 4 b @ drop 4 b) = Ret (a @ u32_to_le v @ drop 4 b)"
    using Cons.prems by (intro vec_write_append) simp_all
  then have "write_field start v (off, a @ b) = Ret (off + 4, (a @ u32_to_le v) @ drop 4 b)"
    by (simp add: write_field_def)
  then show ?case using Cons.IH [of "a @ u32_to_le v" "off + 4" "drop 4 b"] Cons.prems by (simp add: add.commute)
qed simp

lemma encode_instance_eq:
  assumes "instance_typed x" "80 * i + 80 \<le> length out"
  shows "encode_instance (i, x) out = vec_write (80 * i) (instance_bytes x) out"
proof -
  have len: "length (instance_fields x) = 20" using assms(1) by (simp add: instance_typed_def instance_fields_def)
  have "run_fold (write_field (i * gpu_instance_record_size)) (instance_fields x) (0, take (80 * i) out @ drop (80 * i) out) =
     Ret (0 + 4 * length (instance_fields x), take (80 * i) out @ concat (map u32_to_le (instance_fields x))
       @ drop (4 * length (instance_fields x)) (drop (80 * i) out))"
    using assms(2) len by (intro write_field_fold) (simp_all add: gpu_instance_record_size_def)
  then show ?thesis
    using assms(2) len by (simp add: encode_instance_def instance_bytes_def vec_write_def add.commute)
qed

definition geometry_error :: "indexed_geometry list \<Rightarrow> indirect_command \<Rightarrow> gpu_preparation_error" where
  "geometry_error geometry c =
     (case find (\<lambda>m. ig_mesh m = ic_mesh c) geometry of None \<Rightarrow> GpMissingGeometry | Some _ \<Rightarrow> GpInvalidGeometry)"

lemma encode_commands_eq:
  assumes "length a = 20 * k" "20 * length cs \<le> length b"
  shows "encode_commands geometry (enumerate k cs) (a @ b) =
     (let ds = takeWhile (drawable geometry) cs
      in Ret (if ds = cs then None else Some (geometry_error geometry (cs ! length ds)),
              a @ concat (map (command_bytes geometry) ds) @ drop (20 * length ds) b))"
  using assms
proof (induction cs arbitrary: k a b)
  case (Cons c cs)
  show ?case
  proof (cases "drawable geometry c")
    case True
    note len = length_command_bytes [OF True]
    have "vec_write (20 * k) (command_bytes geometry c) (a @ take 20 b @ drop 20 b) =
        Ret (a @ command_bytes geometry c @ drop 20 b)"
      using Cons.prems len by (intro vec_write_append) simp_all
    then have "encode_command geometry (k, c) (a @ b) = Ret (Inr ((a @ command_bytes geometry c) @ drop 20 b))"
      using encode_command_eq [OF True, of k "a @ b"] Cons.prems by simp
    then show ?thesis
      using Cons.IH [of "a @ command_bytes geometry c" "Suc k" "drop 20 b"] Cons.prems len True
      by (simp add: Let_def add.commute)
  next
    case False
    then show ?thesis
      by (auto simp: drawable_def encode_command_def geometry_error_def split: option.splits)
  qed
qed simp

lemma encode_indexed_commands_eq:
  assumes "validate g = Inr ()" "20 * length (gp_commands g) \<le> length out" "length out \<le> usize_max"
  shows "encode_indexed_commands g geometry out =
     (let ds = takeWhile (drawable geometry) (gp_commands g)
      in Ret (if ds = gp_commands g then Inr (20 * length (gp_commands g))
              else Inl (geometry_error geometry (gp_commands g ! length ds)),
              concat (map (command_bytes geometry) ds) @ drop (20 * length ds) out))"
  using encode_commands_eq [of "[]" 0 "gp_commands g" out geometry] assms
  by (simp add: encode_indexed_commands_def checked_mul_def indexed_indirect_command_size_def mult.commute Let_def)

lemma encode_instance_records_eq:
  assumes "list_all instance_typed (gp_instances g)" "80 * length (gp_instances g) \<le> length out" "length out \<le> usize_max"
  shows "encode_instance_records g out =
     Ret (Inr (80 * length (gp_instances g)),
          concat (map instance_bytes (gp_instances g)) @ drop (80 * length (gp_instances g)) out)"
proof -
  have "run_fold encode_instance (enumerate 0 (gp_instances g)) ([] @ out) =
     Ret ([] @ concat (map instance_bytes (gp_instances g)) @ drop (80 * length (gp_instances g)) out)"
    using assms by (intro write_records [where base = 0 and w = 80])
      (simp_all add: encode_instance_eq list_all_iff length_instance_bytes)
  then show ?thesis
    using assms(2,3) by (simp add: encode_instance_records_def checked_mul_def gpu_instance_record_size_def mult.commute)
qed

text \<open>What a plan promises: exact byte counts, and the least number of workgroups that covers.\<close>

lemma command_plan_spec:
  assumes "command_plan g wg = Inr plan"
  shows "wg \<noteq> 0" "validate g = Inr ()" "instance_upload_bytes plan = 80 * length (gp_instances g)"
    "indirect_upload_bytes plan = 20 * length (gp_commands g)" "unat (fp_instance_count plan) = length (gp_instances g)"
    "unat (fp_draw_count plan) = length (gp_commands g)"
    "unat (cull_workgroups plan) = (length (gp_instances g) + unat wg - 1) div unat wg"
    "80 * length (gp_instances g) \<le> usize_max" "20 * length (gp_commands g) \<le> usize_max"
proof -
  show wg: "wg \<noteq> 0" "validate g = Inr ()" using assms by (auto simp: command_plan_def split: if_splits sum.splits)
  let ?n = "length (gp_instances g)" and ?c = "length (gp_commands g)"
  from assms wg have le: "?n \<le> u32_max" "?c \<le> u32_max" "?n * 80 \<le> usize_max" "?c * 20 \<le> usize_max"
    "unat (of_nat ?n :: u32) + unat (wg - 1) < 2 ^ 32"
    and p: "plan = \<lparr>fp_instance_count = of_nat ?n, fp_draw_count = of_nat ?c, instance_upload_bytes = ?n * 80,
       indirect_upload_bytes = ?c * 20, cull_workgroups = (of_nat ?n + (wg - 1)) div wg\<rparr>"
    by (auto simp: command_plan_def u32_try_from_def checked_mul_def gpu_instance_record_size_def
        indexed_indirect_command_size_def wchecked_add_def split: if_splits option.splits)
  have "unat (wg - 1) = unat wg - 1" using wg by (simp add: unat_minus_one)
  moreover have "unat (of_nat ?n + (wg - 1)) = ?n + unat (wg - 1)"
    using le by (simp add: unat_word_ariths unat_of_nat_u32)
  moreover have "unat wg \<ge> 1" using wg by (simp add: unat_gt_0 Suc_leI)
  ultimately show "unat (cull_workgroups plan) = (?n + unat wg - 1) div unat wg"
    by (simp add: p unat_div)
  show "instance_upload_bytes plan = 80 * ?n" "indirect_upload_bytes plan = 20 * ?c"
    "unat (fp_instance_count plan) = ?n" "unat (fp_draw_count plan) = ?c" "80 * ?n \<le> usize_max" "20 * ?c \<le> usize_max"
    using le by (simp_all add: p unat_of_nat_u32 mult.commute)
qed

section \<open>Decoding\<close>

definition chunks :: "nat \<Rightarrow> 'a list \<Rightarrow> 'a list list" where
  "chunks w xs = map (\<lambda>i. take w (drop (w * i) xs)) [0..<length xs div w]"

lemma drop_concat_records:
  "\<lbrakk>\<forall>x\<in>set xss. length x = w; i < length xss\<rbrakk> \<Longrightarrow> take w (drop (w * i) (concat xss)) = xss ! i"
proof (induction xss arbitrary: i)
  case (Cons x xss)
  show ?case by (cases i) (use Cons in simp_all)
qed simp

lemma length_concat_records: "\<forall>x\<in>set xss. length x = w \<Longrightarrow> length (concat xss) = w * length xss"
  by (induction xss) simp_all

lemma chunks_concat:
  assumes "\<forall>x\<in>set xss. length x = w" "0 < w"
  shows "chunks w (concat xss) = xss"
proof (rule nth_equalityI)
  note len = length_concat_records [OF assms(1)]
  show n: "length (chunks w (concat xss)) = length xss" using assms(2) by (simp add: chunks_def len del: length_concat)
  fix i assume "i < length (chunks w (concat xss))"
  then have "i < length (concat xss) div w" "i < length xss" using n by (simp_all add: chunks_def)
  then show "chunks w (concat xss) ! i = xss ! i"
    unfolding chunks_def using drop_concat_records [OF assms(1)] by simp
qed

definition decode_u32s :: "bytes \<Rightarrow> u32 list" where
  "decode_u32s bs = map u32_from_le (chunks 4 bs)"

lemma decode_u32s_encode [simp]: "decode_u32s (concat (map u32_to_le vs)) = vs"
  by (simp add: decode_u32s_def chunks_concat comp_def)

text \<open>How a shader reads a record of the instance stream.\<close>

definition decode_instance :: "bytes \<Rightarrow> render_instance" where
  "decode_instance b =
     (let fs = decode_u32s b
      in \<lparr>ri_entity = \<lparr>index = fs ! 16, generation = fs ! 17\<rparr>, ri_transform = take 12 fs, ri_bounds = take 4 (drop 12 fs),
          ri_mesh = fs ! 18, ri_material = fs ! 19\<rparr>)"

lemma decode_instance_bytes: "instance_typed x \<Longrightarrow> decode_instance (instance_bytes x) = x"
  unfolding decode_instance_def instance_bytes_def decode_u32s_encode
  by (simp add: instance_fields_def instance_typed_def nth_append)

lemma decode_instance_stream:
  assumes "list_all instance_typed xs"
  shows "map decode_instance (chunks 80 (concat (map instance_bytes xs))) = xs"
proof -
  have "chunks 80 (concat (map instance_bytes xs)) = map instance_bytes xs"
    using assms by (intro chunks_concat) (auto simp: list_all_iff length_instance_bytes)
  then show ?thesis using assms by (simp add: list_all_iff decode_instance_bytes map_idI)
qed

lemma decode_command_stream:
  assumes "list_all (drawable geometry) cs"
  shows "map decode_u32s (chunks 20 (concat (map (command_bytes geometry) cs))) =
     map (\<lambda>c. indirect_fields (the (find (\<lambda>m. ig_mesh m = ic_mesh c) geometry)) c) cs"
proof -
  have "chunks 20 (concat (map (command_bytes geometry) cs)) = map (command_bytes geometry) cs"
    using assms by (intro chunks_concat) (auto simp: list_all_iff length_command_bytes)
  then show ?thesis
    using assms by (auto simp: list_all_iff drawable_def command_bytes_def split: option.splits)
qed

lemma takeWhile_all: "list_all P xs \<Longrightarrow> takeWhile P xs = xs"
  by (simp add: list_all_iff)

lemma try_encode_into_eq:
  assumes typed: "list_all instance_typed (gp_instances g)" and plan: "command_plan g wg = Inr plan" and al: "al 0" "al 1"
  shows "\<exists>cb'. try_encode_into al g geometry wg ib cb =
     Ret (if list_all (drawable geometry) (gp_commands g) then Inr plan
          else Inl (UploadPreparation
            (geometry_error geometry (gp_commands g ! length (takeWhile (drawable geometry) (gp_commands g))))),
          concat (map instance_bytes (gp_instances g)), cb')
     \<and> (list_all (drawable geometry) (gp_commands g) \<longrightarrow> cb' = concat (map (command_bytes geometry) (gp_commands g)))"
proof -
  note ps = command_plan_spec [OF plan]
  have i: "encode_instance_records g (vec_resize (instance_upload_bytes plan) 0 ib) =
      Ret (Inr (80 * length (gp_instances g)), concat (map instance_bytes (gp_instances g)))"
    using encode_instance_records_eq [OF typed, of "vec_resize (instance_upload_bytes plan) 0 ib"] ps by simp
  have c: "encode_indexed_commands g geometry (vec_resize (indirect_upload_bytes plan) 0 cb) =
     (let ds = takeWhile (drawable geometry) (gp_commands g)
      in Ret (if ds = gp_commands g then Inr (20 * length (gp_commands g))
              else Inl (geometry_error geometry (gp_commands g ! length ds)),
              concat (map (command_bytes geometry) ds)
              @ drop (20 * length ds) (vec_resize (indirect_upload_bytes plan) 0 cb)))"
    using encode_indexed_commands_eq [OF ps(2), of "vec_resize (indirect_upload_bytes plan) 0 cb"] ps by simp
  have tw: "takeWhile (drawable geometry) (gp_commands g) = gp_commands g \<longleftrightarrow> list_all (drawable geometry) (gp_commands g)"
    by (simp add: takeWhile_eq_all_conv list_all_iff)
  show ?thesis
    using plan al i c ps(3,4) tw takeWhile_all [of "drawable geometry" "gp_commands g"]
    by (cases "list_all (drawable geometry) (gp_commands g)") (simp_all add: try_encode_into_def Let_def)
qed

section \<open>Properties\<close>

text \<open>
  The manifest is an exact batching of the frame. It fails only when there are more instances or
  more mesh/material pairs than its capacities; otherwise its instances are a permutation of the
  extracted ones in key order, its batches partition them in order, there is exactly one batch per
  mesh/material pair in use, and each batch covers exactly the instances of its pair.
\<close>

theorem manifest_batches_exact:
  assumes srt: "key_sorter sort_key_of sorter" and len: "length (rw_instances rw) \<le> u32_max"
    and room: "mf_max_instances m \<le> room"
  shows "\<exists>r m'. manifest_build sorter al room rw m = (r, m')
     \<and> (r = Inr () \<longleftrightarrow> length (rw_instances rw) \<le> mf_max_instances m
          \<and> card (batch_key ` set (rw_instances rw)) \<le> mf_max_batches m)
     \<and> (r = Inr () \<longrightarrow> mset (mf_instances m') = mset (rw_instances rw)
          \<and> sorted (map sort_key_of (mf_instances m'))
          \<and> concat (map (batch_slice (mf_instances m')) (mf_batches m')) = mf_instances m'
          \<and> sorted_wrt (<) (map batch_id (mf_batches m'))
          \<and> batch_id ` set (mf_batches m') = batch_key ` set (rw_instances rw)
          \<and> list_all (\<lambda>b. batch_slice (mf_instances m') b \<noteq> []
              \<and> batch_slice (mf_instances m') b = filter (\<lambda>x. batch_key x = batch_id b) (mf_instances m')) (mf_batches m'))"
proof -
  let ?xs = "sorter (rw_instances rw)"
  note ks = key_sorter.mset_sorter [OF srt] key_sorter.sorted_sorter [OF srt] key_sorter.set_sorter [OF srt]
    key_sorter.length_sorter [OF srt]
  have "length ?xs \<le> u32_max" using ks(4) len by simp
  note sb = sorted_batches [OF this ks(2)]
  show ?thesis
    unfolding manifest_build_spec [OF srt len room] Let_def
    using sb ks by (simp add: manifest_clear_def list_all_iff)
qed

definition sample_instance :: "u32 \<Rightarrow> u32 \<Rightarrow> render_instance" where
  "sample_instance i m = \<lparr>ri_entity = \<lparr>index = i, generation = 0\<rparr>, ri_transform = replicate 12 0,
     ri_bounds = replicate 4 0, ri_mesh = m, ri_material = 1\<rparr>"

definition sample_manifest :: manifest where
  "sample_manifest = \<lparr>mf_instances = [], mf_batches = [], mf_max_instances = 4, mf_max_batches = 4\<rparr>"

definition sample_render_world :: render_world where
  "sample_render_world = \<lparr>rw_instances = [sample_instance 0 9, sample_instance 1 5, sample_instance 2 9], rw_max = 4\<rparr>"

theorem manifest_batches_exact_witness:
  "\<exists>m'. manifest_build (sort_key sort_key_of) (\<lambda>_. True) 4 sample_render_world sample_manifest = (Inr (), m')
     \<and> mset (mf_instances m') = mset (rw_instances sample_render_world)
     \<and> batch_id ` set (mf_batches m') = {(9, 1), (5, 1)}"
proof -
  have srt: "key_sorter sort_key_of (sort_key sort_key_of)" by (rule stable_sorter.key_sorter_axioms)
  have keys: "batch_key ` set (rw_instances sample_render_world) = {(9, 1), (5, 1)}"
    by (auto simp: sample_render_world_def sample_instance_def batch_key_def)
  have "length (rw_instances sample_render_world) \<le> u32_max" "mf_max_instances sample_manifest \<le> 4"
    "length (rw_instances sample_render_world) \<le> mf_max_instances sample_manifest" "2 \<le> mf_max_batches sample_manifest"
    by (simp_all add: sample_render_world_def sample_manifest_def u32_max_def)
  then show ?thesis using manifest_batches_exact [OF srt, of sample_render_world sample_manifest 4 "\<lambda>_. True"] keys by auto
qed

text \<open>
  C24: The upload of a frame is a faithful encoding. Encoding never panics; it succeeds exactly
  when the plan does, memory is granted and every batch has a non-empty geometry; then the instance
  stream decodes to the instances of the frame and the command stream to one draw per batch, in
  order, and the culling dispatch covers all instances with no spare workgroup.
\<close>

theorem gpu_upload_roundtrip:
  assumes "list_all instance_typed (gp_instances g)" "command_plan g wg = Inr plan" "al 0" "al 1"
  shows "\<exists>r ib' cb'. try_encode_into al g geometry wg ib cb = Ret (r, ib', cb')
     \<and> map decode_instance (chunks 80 ib') = gp_instances g
     \<and> (r = Inr plan \<longleftrightarrow> list_all (drawable geometry) (gp_commands g))
     \<and> (r = Inr plan \<longrightarrow> map decode_u32s (chunks 20 cb') =
          map (\<lambda>c. indirect_fields (the (find (\<lambda>m. ig_mesh m = ic_mesh c) geometry)) c) (gp_commands g))
     \<and> length (gp_instances g) \<le> unat (cull_workgroups plan) * unat wg
     \<and> unat (cull_workgroups plan) * unat wg < length (gp_instances g) + unat wg"
proof -
  note ps = command_plan_spec [OF assms(2)]
  let ?n = "length (gp_instances g)" and ?w = "unat wg" and ?q = "unat (cull_workgroups plan)"
  have w: "0 < ?w" using ps(1) by (simp add: unat_gt_0)
  have "?q * ?w + (?n + ?w - 1) mod ?w = ?n + ?w - 1" unfolding ps(7) by simp
  moreover have "(?n + ?w - 1) mod ?w < ?w" using w by simp
  ultimately have "?n \<le> ?q * ?w" "?q * ?w < ?n + ?w" using w by linarith+
  then show ?thesis
    using try_encode_into_eq [OF assms, of geometry ib cb]
    by (cases "list_all (drawable geometry) (gp_commands g)")
      (auto simp: decode_instance_stream [OF assms(1)] decode_command_stream)
qed

definition sample_preparation :: gpu_preparation where
  "sample_preparation = \<lparr>gp_instances = [sample_instance 0 5],
     gp_commands = [\<lparr>ic_mesh = 5, ic_material = 1, ic_first_instance = 0, ic_instance_count = 1\<rparr>],
     gp_max_instances = 4, gp_max_commands = 4\<rparr>"

lemma sample_preparation_plan:
  "command_plan sample_preparation 64 = Inr
     \<lparr>fp_instance_count = 1, fp_draw_count = 1, instance_upload_bytes = 80, indirect_upload_bytes = 20, cull_workgroups = 1\<rparr>"
  by (simp add: command_plan_def sample_preparation_def validate_def range_check_def u32_try_from_def checked_mul_def
      usize_max_def u32_max_def gpu_instance_record_size_def indexed_indirect_command_size_def wchecked_add_def)

theorem gpu_upload_roundtrip_witness:
  "\<exists>plan ib' cb'. try_encode_into (\<lambda>_. True) sample_preparation
        [\<lparr>ig_mesh = 5, ig_index_count = 36, ig_first_index = 0, ig_vertex_offset = 0\<rparr>] 64 [] [] = Ret (Inr plan, ib', cb')
     \<and> map decode_instance (chunks 80 ib') = [sample_instance 0 5]
     \<and> map decode_u32s (chunks 20 cb') = [[36, 1, 0, 0, 0]]"
proof -
  let ?geo = "[\<lparr>ig_mesh = 5, ig_index_count = 36, ig_first_index = 0, ig_vertex_offset = 0\<rparr>]"
  have "list_all instance_typed (gp_instances sample_preparation)" "list_all (drawable ?geo) (gp_commands sample_preparation)"
    by (simp_all add: sample_preparation_def sample_instance_def instance_typed_def drawable_def)
  then show ?thesis
    using gpu_upload_roundtrip [of sample_preparation 64 _ "\<lambda>_. True" ?geo "[]" "[]", OF _ sample_preparation_plan]
    by (auto simp: sample_preparation_def indirect_fields_def)
qed

text \<open>
  A preparation error can still overwrite the buffers of the caller: when a batch has no geometry,
  the error is reported only after the instance buffer was resized and written.
\<close>

theorem missing_geometry_overwrites:
  assumes "list_all instance_typed (gp_instances g)" "command_plan g wg = Inr plan" "al 0" "al 1"
    and "\<not> list_all (drawable geometry) (gp_commands g)"
  shows "\<exists>err cb'. try_encode_into al g geometry wg ib cb =
     Ret (Inl (UploadPreparation err), concat (map instance_bytes (gp_instances g)), cb')"
  using try_encode_into_eq [OF assms(1-4), of geometry ib cb] assms(5) by auto

end
