(* ===== verification/Float32.thy ===== *)
theory Float32
  imports Prelude
begin

text \<open>
  The arithmetic of \<open>f32\<close> that the UI code uses. A finite value is an integer multiple of \<open>2^-149\<close>, the
  least positive subnormal: \<open>Fin k\<close> is \<open>k * 2^-149\<close>. Sums, differences, products, quotients and
  conversions are the exact rational result rounded once, to nearest with ties to even, with
  infinity beyond the largest finite value. The two zeros are one value here: they compare equal, and
  no modelled code divides by a zero or looks at the sign of one.
\<close>

section \<open>Values and rounding\<close>

datatype f32 = NaN | PInf | NInf | Fin int

text \<open>How many bits of a magnitude, in units of \<open>2^-149\<close>, exceed the 24 bits of the significand.\<close>

fun excess_bits :: "nat \<Rightarrow> nat" where
  "excess_bits a = (if a < 16777216 then 0 else Suc (excess_bits (a div 2)))"

declare excess_bits.simps [simp del]

text \<open>The integer nearest to \<open>n / d\<close>, the even one of two.\<close>

definition nearest_even :: "nat \<Rightarrow> nat \<Rightarrow> nat" where
  "nearest_even n d =
     (if 2 * (n mod d) < d \<or> 2 * (n mod d) = d \<and> even (n div d) then n div d else Suc (n div d))"

definition round_magnitude :: "nat \<Rightarrow> nat \<Rightarrow> nat" where
  "round_magnitude n d = (let e = excess_bits (n div d) in nearest_even n (d * 2 ^ e) * 2 ^ e)"

text \<open>The \<open>f32\<close> nearest to \<open>n / d\<close> units.\<close>

definition f32_round :: "int \<Rightarrow> nat \<Rightarrow> f32" where
  "f32_round n d =
     (let m = round_magnitude (nat \<bar>n\<bar>) d
      in if m \<ge> 2 ^ 277 then (if n < 0 then NInf else PInf) else Fin (sgn n * int m))"

definition f32_one_units :: int where
  "f32_one_units = 2 ^ 149"

definition f32_of_int :: "int \<Rightarrow> f32" where
  "f32_of_int i = f32_round (i * f32_one_units) 1"

definition f32_max_value :: f32 where
  "f32_max_value = Fin (16777215 * 2 ^ 253)"

abbreviation f32_zero :: f32 where
  "f32_zero \<equiv> Fin 0"

definition is_finite :: "f32 \<Rightarrow> bool" where
  "is_finite x = (case x of Fin _ \<Rightarrow> True | _ \<Rightarrow> False)"

section \<open>Operations\<close>

fun f32_neg :: "f32 \<Rightarrow> f32" where
  "f32_neg NaN = NaN"
| "f32_neg PInf = NInf"
| "f32_neg NInf = PInf"
| "f32_neg (Fin a) = Fin (- a)"

fun f32_add :: "f32 \<Rightarrow> f32 \<Rightarrow> f32" where
  "f32_add (Fin a) (Fin b) = f32_round (a + b) 1"
| "f32_add NaN y = NaN"
| "f32_add x NaN = NaN"
| "f32_add PInf NInf = NaN"
| "f32_add NInf PInf = NaN"
| "f32_add PInf y = PInf"
| "f32_add NInf y = NInf"
| "f32_add x PInf = PInf"
| "f32_add x NInf = NInf"

definition f32_sub :: "f32 \<Rightarrow> f32 \<Rightarrow> f32" where
  "f32_sub x y = f32_add x (f32_neg y)"

definition signed_inf :: "int \<Rightarrow> f32" where
  "signed_inf s = (if s < 0 then NInf else if s = 0 then NaN else PInf)"

fun f32_sgn :: "f32 \<Rightarrow> int" where
  "f32_sgn NaN = 0"
| "f32_sgn PInf = 1"
| "f32_sgn NInf = - 1"
| "f32_sgn (Fin a) = sgn a"

fun f32_mul :: "f32 \<Rightarrow> f32 \<Rightarrow> f32" where
  "f32_mul (Fin a) (Fin b) = f32_round (a * b) (2 ^ 149)"
| "f32_mul x y = signed_inf (f32_sgn x * f32_sgn y)"

fun f32_div :: "f32 \<Rightarrow> f32 \<Rightarrow> f32" where
  "f32_div (Fin a) (Fin b) =
     (if b = 0 then signed_inf (sgn a) else f32_round (a * f32_one_units * sgn b) (nat \<bar>b\<bar>))"
| "f32_div NaN y = NaN"
| "f32_div x NaN = NaN"
| "f32_div (Fin a) y = Fin 0"
| "f32_div x (Fin b) = signed_inf (f32_sgn x * (if b < 0 then - 1 else 1))"
| "f32_div x y = NaN"

fun f32_le :: "f32 \<Rightarrow> f32 \<Rightarrow> bool" where
  "f32_le (Fin a) (Fin b) \<longleftrightarrow> a \<le> b"
| "f32_le NaN y \<longleftrightarrow> False"
| "f32_le x NaN \<longleftrightarrow> False"
| "f32_le NInf y \<longleftrightarrow> True"
| "f32_le x PInf \<longleftrightarrow> True"
| "f32_le x y \<longleftrightarrow> False"

definition f32_lt :: "f32 \<Rightarrow> f32 \<Rightarrow> bool" where
  "f32_lt x y \<longleftrightarrow> f32_le x y \<and> \<not> f32_le y x"

text \<open>\<open>f32::max\<close> and \<open>f32::min\<close> return the other operand when one is not a number.\<close>

definition f32_max :: "f32 \<Rightarrow> f32 \<Rightarrow> f32" where
  "f32_max x y = (if x = NaN then y else if y = NaN then x else if f32_le x y then y else x)"

definition f32_min :: "f32 \<Rightarrow> f32 \<Rightarrow> f32" where
  "f32_min x y = (if x = NaN then y else if y = NaN then x else if f32_le x y then x else y)"

text \<open>\<open>clamp\<close> panics unless \<open>lo <= hi\<close>.\<close>

definition f32_clamp :: "f32 \<Rightarrow> f32 \<Rightarrow> f32 \<Rightarrow> f32 run" where
  "f32_clamp x lo hi =
     (if \<not> f32_le lo hi then Panic else Ret (if f32_lt x lo then lo else if f32_lt hi x then hi else x))"

section \<open>Order\<close>

lemma is_finite_iff: "is_finite x \<longleftrightarrow> (\<exists>a. x = Fin a)"
  by (cases x) (simp_all add: is_finite_def)

lemma is_finite_Fin [simp]: "is_finite (Fin a)"
  by (simp add: is_finite_def)

lemma f32_le_refl: "f32_le x x \<longleftrightarrow> x \<noteq> NaN"
  by (cases x) simp_all

lemma f32_le_trans: "f32_le x y \<Longrightarrow> f32_le y z \<Longrightarrow> f32_le x z"
  by (cases x; cases y; cases z) simp_all

lemma f32_le_cases: "x \<noteq> NaN \<Longrightarrow> y \<noteq> NaN \<Longrightarrow> f32_le x y \<or> f32_le y x"
  by (cases x; cases y) auto

lemma f32_le_not_NaN: "f32_le x y \<Longrightarrow> x \<noteq> NaN \<and> y \<noteq> NaN"
  by (cases x; cases y) simp_all

text \<open>A number between zero and a finite one is finite.\<close>

lemma finite_between: "f32_le f32_zero x \<Longrightarrow> f32_le x y \<Longrightarrow> is_finite y \<Longrightarrow> is_finite x"
  by (cases x; cases y) (simp_all add: is_finite_def)

lemma f32_max_zero: "f32_le f32_zero (f32_max x f32_zero)"
  by (cases x) (simp_all add: f32_max_def)

lemma f32_min_le_right: "y \<noteq> NaN \<Longrightarrow> f32_le (f32_min x y) y"
  by (cases x; cases y) (simp_all add: f32_min_def)

lemma f32_clamp_bounds:
  assumes "f32_le lo hi" "x \<noteq> NaN"
  shows "\<exists>y. f32_clamp x lo hi = Ret y \<and> f32_le lo y \<and> f32_le y hi"
  using assms f32_le_cases [of x lo] f32_le_cases [of x hi] f32_le_not_NaN [OF assms(1)]
  by (auto simp: f32_clamp_def f32_lt_def f32_le_refl)

section \<open>Rounding\<close>

text \<open>The magnitudes an \<open>f32\<close> can hold: at most 24 significant bits.\<close>

definition magnitude_ok :: "nat \<Rightarrow> bool" where
  "magnitude_ok m \<longleftrightarrow> m < 2 ^ 277 \<and> 2 ^ excess_bits m dvd m"

definition f32_ok :: "f32 \<Rightarrow> bool" where
  "f32_ok x = (case x of Fin a \<Rightarrow> magnitude_ok (nat \<bar>a\<bar>) | _ \<Rightarrow> True)"

lemma excess_bits_range:
  "m < 2 ^ (24 + excess_bits m) \<and> (0 < excess_bits m \<longrightarrow> 2 ^ (23 + excess_bits m) \<le> m)"
proof (induction m rule: excess_bits.induct)
  case (1 m)
  show ?case
  proof (cases "m < 16777216")
    case True
    then show ?thesis by (simp add: excess_bits.simps [of m])
  next
    case False
    let ?e = "excess_bits (m div 2)"
    have e: "excess_bits m = Suc ?e" using False by (simp add: excess_bits.simps [of m])
    note IH = 1 [OF False]
    have "2 ^ (23 + Suc ?e) \<le> m"
    proof (cases "?e = 0")
      case True
      then show ?thesis using False by simp
    next
      case False
      with IH have "2 ^ (23 + ?e) \<le> m div 2" by simp
      then show ?thesis by (simp add: power_add)
    qed
    moreover have "m < 2 ^ (24 + Suc ?e)"
    proof -
      have "m div 2 < 2 ^ (24 + ?e)" using IH by simp
      then have "m < 2 ^ (24 + ?e) * 2" using div_less_iff_less_mult [of 2 m "2 ^ (24 + ?e)"] by simp
      then show ?thesis by (simp add: power_add)
    qed
    ultimately show ?thesis by (simp add: e)
  qed
qed

lemma excess_bits_unique:
  assumes "m < 2 ^ (24 + e)" "0 < e \<Longrightarrow> 2 ^ (23 + e) \<le> m"
  shows "excess_bits m = e"
proof -
  let ?x = "excess_bits m"
  have "\<not> ?x < e"
  proof
    assume l: "?x < e"
    then have "(2::nat) ^ (24 + ?x) \<le> 2 ^ (23 + e)" by (intro power_increasing) auto
    moreover have "2 ^ (23 + e) \<le> m" using assms(2) l by simp
    ultimately show False using excess_bits_range [of m] by linarith
  qed
  moreover have "\<not> e < ?x"
  proof
    assume l: "e < ?x"
    then have "(2::nat) ^ (24 + e) \<le> 2 ^ (23 + ?x)" by (intro power_increasing) auto
    moreover have "2 ^ (23 + ?x) \<le> m" using excess_bits_range [of m] l by simp
    ultimately show False using assms(1) by linarith
  qed
  ultimately show ?thesis by simp
qed

lemma nearest_even_le: "0 < d \<Longrightarrow> n \<le> k * d \<Longrightarrow> nearest_even n d \<le> k"
proof -
  assume d: "0 < d" and n: "n \<le> k * d"
  have q: "n div d \<le> k" using n d by (metis div_le_mono nonzero_mult_div_cancel_right less_numeral_extra(3))
  have "n mod d = 0" if "n div d = k"
    using that n d by (metis add.right_neutral add_le_cancel_left div_mult_mod_eq le_zero_eq)
  with q d show ?thesis by (cases "n div d = k") (auto simp: nearest_even_def)
qed

lemma nearest_even_ge: "0 < d \<Longrightarrow> k * d \<le> n \<Longrightarrow> k \<le> nearest_even n d"
  by (auto simp: nearest_even_def less_eq_div_iff_mult_less_eq intro: le_SucI)

text \<open>Rounding never crosses a representable magnitude, and its result is one.\<close>

lemma round_magnitude_le:
  assumes d: "0 < d" and k: "2 ^ excess_bits k dvd k" and n: "n \<le> k * d"
  shows "round_magnitude n d \<le> k"
proof -
  let ?q = "n div d" and ?e = "excess_bits (n div d)"
  have qk: "?q \<le> k" using n d by (metis div_le_mono nonzero_mult_div_cancel_right less_numeral_extra(3))
  have mono: "?e \<le> excess_bits k"
  proof (rule ccontr)
    assume a: "\<not> ?e \<le> excess_bits k"
    then have "(2::nat) ^ (24 + excess_bits k) \<le> 2 ^ (23 + ?e)" by (intro power_increasing) auto
    moreover have "2 ^ (23 + ?e) \<le> ?q" using excess_bits_range [of ?q] a by simp
    ultimately show False using qk excess_bits_range [of k] by linarith
  qed
  then have "2 ^ ?e dvd k" using k by (meson dvd_trans le_imp_power_dvd)
  then obtain j where j: "k = j * 2 ^ ?e" by (metis dvd_div_mult_self)
  have "n \<le> j * (d * 2 ^ ?e)" using n j by (simp add: mult.commute mult.left_commute)
  then have "nearest_even n (d * 2 ^ ?e) \<le> j" using d by (intro nearest_even_le) auto
  then show ?thesis using j by (simp add: round_magnitude_def Let_def)
qed

lemma round_magnitude_ok:
  assumes d: "0 < d"
  shows "2 ^ excess_bits (round_magnitude n d) dvd round_magnitude n d"
proof -
  let ?q = "n div d" and ?e = "excess_bits (n div d)" and ?r = "round_magnitude n d"
  let ?j = "nearest_even n (d * 2 ^ ?e)"
  have r: "?r = ?j * 2 ^ ?e" by (simp add: round_magnitude_def Let_def)
  have up: "?j \<le> 2 ^ 24"
  proof (rule nearest_even_le)
    have "?q < 2 ^ (24 + ?e)" using excess_bits_range [of ?q] by simp
    then have "n < 2 ^ (24 + ?e) * d" using d by (simp add: div_less_iff_less_mult)
    then show "n \<le> 2 ^ 24 * (d * 2 ^ ?e)" by (simp add: power_add mult.commute mult.left_commute)
  qed (use d in simp)
  have low: "2 ^ 23 \<le> ?j" if "0 < ?e"
  proof (rule nearest_even_ge)
    have "2 ^ (23 + ?e) \<le> ?q" using excess_bits_range [of ?q] that by simp
    then have "2 ^ (23 + ?e) * d \<le> n" using d by (simp add: less_eq_div_iff_mult_less_eq)
    then show "2 ^ 23 * (d * 2 ^ ?e) \<le> n" by (simp add: power_add mult.commute mult.left_commute)
  qed (use d in simp)
  show ?thesis
  proof (cases "?j = 2 ^ 24")
    case True
    then have r24: "?r = 2 ^ (24 + ?e)" using r by (simp add: power_add)
    have "excess_bits ?r = Suc ?e" unfolding r24 by (rule excess_bits_unique) simp_all
    moreover have "(2::nat) ^ Suc ?e dvd 2 ^ (24 + ?e)" by (rule le_imp_power_dvd) simp
    ultimately show ?thesis unfolding r24 by simp
  next
    case False
    then have "?j < 2 ^ 24" using up by simp
    then have "?r < 2 ^ (24 + ?e)" using r by (simp add: power_add)
    moreover have "0 < ?e \<Longrightarrow> 2 ^ (23 + ?e) \<le> ?r" using r low by (simp add: power_add)
    ultimately have "excess_bits ?r = ?e" by (rule excess_bits_unique)
    then show ?thesis using r by simp
  qed
qed

lemma f32_round_ok: "0 < d \<Longrightarrow> f32_ok (f32_round n d)"
  using round_magnitude_ok [of d "nat \<bar>n\<bar>"]
  by (auto simp: f32_round_def f32_ok_def Let_def magnitude_ok_def abs_mult sgn_if split: if_splits)

lemma f32_round_le:
  assumes "0 < d" "f32_ok (Fin a)" "n \<le> a * int d" "0 \<le> a"
  shows "f32_le (f32_round n d) (Fin a)"
proof (cases "n < 0")
  case True
  then show ?thesis using assms(4) by (auto simp: f32_round_def Let_def sgn_if)
next
  case False
  have ok: "nat a < 2 ^ 277" "2 ^ excess_bits (nat a) dvd nat a"
    using assms(2,4) by (auto simp: f32_ok_def magnitude_ok_def)
  have "n \<le> int (nat a * d)" using assms(3,4) by simp
  then have "nat n \<le> nat a * d" using nat_le_iff by blast
  with round_magnitude_le [OF assms(1) ok(2)] have "round_magnitude (nat n) d \<le> nat a" by blast
  with ok(1) False assms(4) show ?thesis by (auto simp: f32_round_def Let_def sgn_if)
qed

lemma f32_round_nonneg: "0 \<le> n \<Longrightarrow> f32_le f32_zero (f32_round n d)"
  by (auto simp: f32_round_def Let_def sgn_if)

lemma f32_round_not_NaN [simp]: "f32_round n d \<noteq> NaN"
  by (simp add: f32_round_def Let_def)

lemma f32_add_ok: "f32_ok x \<Longrightarrow> f32_ok y \<Longrightarrow> f32_ok (f32_add x y)"
  by (cases x; cases y) (simp_all add: f32_round_ok, simp_all add: f32_ok_def)

lemma f32_neg_ok: "f32_ok x \<Longrightarrow> f32_ok (f32_neg x)"
  by (cases x) (simp_all add: f32_ok_def)

text \<open>Subtracting something non-negative from a non-negative number does not increase it.\<close>

lemma f32_sub_le:
  assumes "f32_ok x" "f32_le f32_zero x" "f32_le f32_zero y" "is_finite x"
  shows "f32_le (f32_sub x y) x \<and> f32_ok (f32_sub x y)"
  using assms f32_round_le [where d = 1]
  by (cases x; cases y) (auto simp: f32_sub_def is_finite_def f32_round_ok, auto simp: f32_ok_def)

end
