(* ===== verification/Gpu_Policy.thy ===== *)
theory Gpu_Policy
  imports Render_Frame Float32
begin

text \<open>
  Device and pass policies: queue family selection (\<open>src/src/platform/vulkan_policy.rs\<close>), the choice
  of the device (\<open>choose_render_device\<close> of \<open>renderer.rs\<close>), the culling plan and the pass contract
  (\<open>gpu_pipeline.rs\<close>), and the bounds check of world packets with its transfer bookkeeping
  (\<open>src/src/platform/world_upload.rs\<close>).
\<close>

section \<open>Queue families\<close>

definition queue_graphics :: u32 where "queue_graphics = 1"
definition queue_compute :: u32 where "queue_compute = 2"
definition queue_transfer :: u32 where "queue_transfer = 4"

record queue_family =
  qf_index :: u32
  qf_flags :: u32
  qf_queue_count :: u32

definition supports :: "queue_family \<Rightarrow> u32 \<Rightarrow> bool" where
  "supports q req \<longleftrightarrow> qf_queue_count q > 0 \<and> qf_flags q AND req = req"

record queue_selection =
  sel_graphics :: u32
  sel_compute :: u32
  sel_transfer :: u32

record queue_request =
  rq_family :: u32
  rq_count :: u32

text \<open>One iteration of the loop: a later request for a family already asked for is merged into it.\<close>

definition merge_request :: "nat \<Rightarrow> queue_request list \<Rightarrow> queue_request list" where
  "merge_request i rs =
     (case position (\<lambda>r. rq_family r = rq_family (rs ! i)) (take i rs) of
        None \<Rightarrow> rs
      | Some p \<Rightarrow> (rs[p := (rs ! p)\<lparr>rq_count := wsat_add (rq_count (rs ! p)) 1\<rparr>])[i := (rs ! i)\<lparr>rq_count := 0\<rparr>])"

definition build_queue_create_requests :: "queue_selection \<Rightarrow> queue_request list" where
  "build_queue_create_requests s =
     fold merge_request [1..<3]
       [\<lparr>rq_family = sel_graphics s, rq_count = 1\<rparr>, \<lparr>rq_family = sel_compute s, rq_count = 1\<rparr>,
        \<lparr>rq_family = sel_transfer s, rq_count = 1\<rparr>]"

definition first_preferred :: "queue_family list \<Rightarrow> u32 \<Rightarrow> u32 \<Rightarrow> queue_family option" where
  "first_preferred fs req avoid =
     (case find (\<lambda>f. supports f req \<and> qf_flags f AND avoid = 0) fs of
        Some f \<Rightarrow> Some f
      | None \<Rightarrow> find (\<lambda>f. supports f req) fs)"

datatype queue_selection_error = QueueSelectionError

definition select_queue_families :: "queue_family list \<Rightarrow> queue_selection_error + queue_selection" where
  "select_queue_families fs =
     (case (find (\<lambda>f. supports f queue_graphics) fs, first_preferred fs queue_compute queue_graphics,
            first_preferred fs queue_transfer (queue_graphics OR queue_compute)) of
        (Some g, Some c, Some t) \<Rightarrow>
          Inr \<lparr>sel_graphics = qf_index g, sel_compute = qf_index c, sel_transfer = qf_index t\<rparr>
      | _ \<Rightarrow> Inl QueueSelectionError)"

section \<open>The device\<close>

record gpu_candidate =
  device_score :: u8
  queue_families :: "queue_family list"

record device_plan =
  candidate_index :: nat
  plan_queues :: queue_selection

datatype device_plan_error = NoSuitableDevice

text \<open>\<open>max_by_key\<close>: of several greatest elements the last one; \<open>le\<close> compares the keys.\<close>

fun max_by :: "('a \<Rightarrow> 'a \<Rightarrow> bool) \<Rightarrow> 'a list \<Rightarrow> 'a option" where
  "max_by le [] = None"
| "max_by le (x # xs) = Some (fold (\<lambda>y m. if le m y then y else m) xs x)"

text \<open>The key \<open>(score, Reverse(index))\<close>.\<close>

definition device_key_le :: "nat \<times> u8 \<times> queue_selection \<Rightarrow> nat \<times> u8 \<times> queue_selection \<Rightarrow> bool" where
  "device_key_le = (\<lambda>(i, s, _) (j, t, _). s < t \<or> s = t \<and> j \<le> i)"

definition suitable :: "nat \<times> gpu_candidate \<Rightarrow> (nat \<times> u8 \<times> queue_selection) option" where
  "suitable = (\<lambda>(i, c). case select_queue_families (queue_families c) of
     Inl _ \<Rightarrow> None
   | Inr q \<Rightarrow> Some (i, device_score c, q))"

definition choose_render_device :: "gpu_candidate list \<Rightarrow> device_plan_error + device_plan" where
  "choose_render_device cs =
     (case max_by device_key_le (List.map_filter suitable (enumerate 0 cs)) of
        None \<Rightarrow> Inl NoSuitableDevice
      | Some (i, _, q) \<Rightarrow> Inr \<lparr>candidate_index = i, plan_queues = q\<rparr>)"

section \<open>Culling and passes\<close>

record culling_plan =
  cp_instance_count :: u32
  cp_workgroup_size :: u32
  cp_workgroup_count :: u32
  visibility_bytes :: nat
  cp_indirect_bytes :: nat

definition culling_plan_try_new :: "u32 \<Rightarrow> u32 \<Rightarrow> u32 \<Rightarrow> gpu_preparation_error + culling_plan" where
  "culling_plan_try_new n wg maxn =
     (if wg = 0 \<or> n > maxn then Inl GpInvalidWorkgroupSize
      else case wchecked_add n (wg - 1) of
        None \<Rightarrow> Inl GpIndexOverflow
      | Some k \<Rightarrow>
          (case (checked_mul (unat n) 4, checked_mul (unat n) indexed_indirect_command_size) of
             (Some vb, Some ib) \<Rightarrow>
               Inr \<lparr>cp_instance_count = n, cp_workgroup_size = wg, cp_workgroup_count = k div wg,
                    visibility_bytes = vb, cp_indirect_bytes = ib\<rparr>
           | _ \<Rightarrow> Inl GpIndexOverflow))"

datatype gpu_pass = UploadInstances | CullFrustum | BuildIndirect | DrawIndirect | Present

datatype gpu_access = HostWrite | ComputeRead | ComputeWrite | IndirectRead | ColorWrite | PresentRead

record pipeline_plan =
  culling :: culling_plan
  passes :: "gpu_pass list"
  barriers :: "(gpu_access \<times> gpu_access) list"

definition try_for_instances :: "u32 \<Rightarrow> u32 \<Rightarrow> u32 \<Rightarrow> gpu_preparation_error + pipeline_plan" where
  "try_for_instances n wg maxn =
     (case culling_plan_try_new n wg maxn of
        Inl e \<Rightarrow> Inl e
      | Inr c \<Rightarrow> Inr \<lparr>culling = c,
          passes = [UploadInstances, CullFrustum, BuildIndirect, DrawIndirect, Present],
          barriers = [(HostWrite, ComputeRead), (ComputeWrite, ComputeRead), (ComputeWrite, IndirectRead),
                      (ColorWrite, PresentRead)]\<rparr>)"

record frame_budget =
  target_fps :: u32
  frame_ms :: f32

definition for_fps :: "u32 \<Rightarrow> frame_budget option" where
  "for_fps fps =
     (if fps = 0 then None
      else Some \<lparr>target_fps = fps, frame_ms = f32_div (f32_of_int 1000) (f32_of_int (int (unat fps)))\<rparr>)"

definition budget_accepts :: "frame_budget \<Rightarrow> f32 \<Rightarrow> bool" where
  "budget_accepts b ms \<longleftrightarrow> is_finite ms \<and> f32_le ms (frame_ms b)"

record frame_timing =
  cpu_prepare_ms :: f32
  gpu_compute_ms :: f32
  gpu_draw_ms :: f32
  present_ms :: f32

definition end_to_end_ms :: "frame_timing \<Rightarrow> f32" where
  "end_to_end_ms t =
     f32_add (f32_add (f32_add (cpu_prepare_ms t) (gpu_compute_ms t)) (gpu_draw_ms t)) (present_ms t)"

definition timing_fps :: "frame_timing \<Rightarrow> f32 option" where
  "timing_fps t =
     (let ms = end_to_end_ms t
      in if is_finite ms \<and> f32_lt f32_zero ms then Some (f32_div (f32_of_int 1000) ms) else None)"

section \<open>World packets\<close>

record world_draw =
  wd_vertex_count :: u32
  wd_instance_count :: u32
  wd_first_vertex :: u32
  wd_first_instance :: u32

record upload_stats =
  transfers :: u64
  transferred_bytes :: u64

record upload_state =
  dirty :: bool
  up_stats :: upload_stats

definition upload_invalidate :: "upload_state \<Rightarrow> upload_state" where
  "upload_invalidate u = u\<lparr>dirty := True\<rparr>"

definition upload_pending :: "upload_state \<Rightarrow> bool" where
  "upload_pending u = dirty u"

definition upload_submitted :: "nat \<Rightarrow> upload_state \<Rightarrow> upload_state" where
  "upload_submitted n u =
     (if dirty u
      then \<lparr>dirty = False,
            up_stats = \<lparr>transfers = wsat_add (transfers (up_stats u)) 1,
                        transferred_bytes = wsat_add (transferred_bytes (up_stats u)) (of_nat n)\<rparr>\<rparr>
      else u)"

definition valid_draw :: "nat \<Rightarrow> world_draw \<Rightarrow> bool" where
  "valid_draw instances d \<longleftrightarrow>
     wd_vertex_count d \<noteq> 0 \<and> wd_instance_count d \<noteq> 0
     \<and> (case wchecked_add (wd_first_vertex d) (wd_vertex_count d) of None \<Rightarrow> False | Some e \<Rightarrow> e \<le> 36)
     \<and> (case wchecked_add (wd_first_instance d) (wd_instance_count d) of None \<Rightarrow> False | Some e \<Rightarrow> unat e \<le> instances)"

definition valid_world_packet :: "bytes \<Rightarrow> u64 \<Rightarrow> f32 list \<Rightarrow> world_draw list \<Rightarrow> bool" where
  "valid_world_packet bs cap camera draws \<longleftrightarrow>
     \<not> (bs = [] \<or> length bs > unat cap \<or> length bs mod gpu_instance_record_size \<noteq> 0
        \<or> \<not> list_all is_finite camera \<or> draws = [])
     \<and> list_all (valid_draw (length bs div gpu_instance_record_size)) draws"

section \<open>Selection\<close>

lemma first_preferred_Some:
  assumes "first_preferred fs req avoid = Some f"
  shows "f \<in> set fs" "supports f req"
    "qf_flags f AND avoid \<noteq> 0 \<Longrightarrow> \<forall>g\<in>set fs. supports g req \<longrightarrow> qf_flags g AND avoid \<noteq> 0"
  using assms unfolding first_preferred_def
  by (auto simp: find_Some_iff find_None_iff split: option.splits)

lemma first_preferred_None: "first_preferred fs req avoid = None \<longleftrightarrow> (\<forall>f\<in>set fs. \<not> supports f req)"
proof (cases "find (\<lambda>f. supports f req \<and> qf_flags f AND avoid = 0) fs")
  case None
  then have "first_preferred fs req avoid = find (\<lambda>f. supports f req) fs" by (simp add: first_preferred_def)
  then show ?thesis by (auto simp: find_None_iff)
next
  case (Some f)
  then have "f \<in> set fs" "supports f req" by (auto simp: find_Some_iff)
  with Some show ?thesis by (auto simp: first_preferred_def)
qed

lemma select_queue_families_iff:
  "(\<exists>s. select_queue_families fs = Inr s) \<longleftrightarrow>
     (\<exists>f\<in>set fs. supports f queue_graphics) \<and> (\<exists>f\<in>set fs. supports f queue_compute)
     \<and> (\<exists>f\<in>set fs. supports f queue_transfer)"
  unfolding select_queue_families_def
  by (auto simp: find_None_iff first_preferred_None split: option.splits
      dest!: find_Some_iff [THEN iffD1] dest: first_preferred_Some)

text \<open>The comparison of keys that \<open>max_by_key\<close> relies on.\<close>

locale key_order =
  fixes le :: "'a \<Rightarrow> 'a \<Rightarrow> bool"
  assumes le_trans: "le x y \<Longrightarrow> le y z \<Longrightarrow> le x z" and le_linear: "le x y \<or> le y x"
begin

lemma le_refl: "le x x"
  using le_linear [of x x] by simp

lemma fold_max:
  "fold (\<lambda>y m. if le m y then y else m) xs a \<in> insert a (set xs)
   \<and> (\<forall>y\<in>insert a (set xs). le y (fold (\<lambda>y m. if le m y then y else m) xs a))"
proof (induction xs arbitrary: a)
  case Nil
  then show ?case using le_refl by simp
next
  case (Cons x xs)
  let ?a = "if le a x then x else a"
  let ?m = "fold (\<lambda>y m. if le m y then y else m) xs ?a"
  have IH: "?m \<in> insert ?a (set xs)" "le ?a ?m" "\<forall>y\<in>set xs. le y ?m" using Cons.IH [of ?a] by blast+
  have "le a ?a" "le x ?a" using le_linear [of a x] le_refl by auto
  then have "le a ?m" "le x ?m" using IH(2) le_trans by blast+
  moreover have "?m \<in> insert a (set (x # xs))" using IH(1) by (cases "le a x") auto
  ultimately show ?case using IH(3) by simp
qed

lemma max_by_spec: "max_by le xs = Some m \<Longrightarrow> m \<in> set xs \<and> (\<forall>y\<in>set xs. le y m)"
  using fold_max by (cases xs) auto

end

interpretation device_key: key_order device_key_le
  by unfold_locales (auto simp: device_key_le_def split: prod.splits)

lemma max_by_None [simp]: "max_by le xs = None \<longleftrightarrow> xs = []"
  by (cases xs) auto

lemma suitable_set:
  "(i, s, q) \<in> set (List.map_filter suitable (enumerate 0 cs)) \<longleftrightarrow>
     i < length cs \<and> device_score (cs ! i) = s \<and> select_queue_families (queue_families (cs ! i)) = Inr q"
proof -
  have "(i, s, q) \<in> set (List.map_filter suitable (enumerate 0 cs)) \<longleftrightarrow>
      (\<exists>p\<in>set (enumerate 0 cs). suitable p = Some (i, s, q))"
    by (auto simp: List.map_filter_def image_iff) (metis option.sel)
  also have "\<dots> \<longleftrightarrow> i < length cs \<and> suitable (i, cs ! i) = Some (i, s, q)"
    by (auto simp: in_set_enumerate_eq suitable_def split: sum.splits
        intro!: bexI [of _ "(i, cs ! i)"])
  finally show ?thesis by (auto simp: suitable_def split: sum.splits)
qed

section \<open>Properties\<close>

text \<open>
  The chosen device is the best suitable one. A device is suitable exactly when its families
  offer graphics, compute and transfer; the choice fails only when none is suitable; otherwise the
  chosen index is a suitable candidate with its own queue selection, no suitable candidate has a
  higher score, and none before it has the same score.
\<close>

theorem choose_render_device_best:
  "(case choose_render_device cs of
      Inl _ \<Rightarrow> \<not> (\<exists>i<length cs. \<exists>q. select_queue_families (queue_families (cs ! i)) = Inr q)
    | Inr p \<Rightarrow> candidate_index p < length cs
        \<and> select_queue_families (queue_families (cs ! candidate_index p)) = Inr (plan_queues p)
        \<and> (\<forall>j<length cs. \<forall>q. select_queue_families (queue_families (cs ! j)) = Inr q \<longrightarrow>
             device_score (cs ! j) < device_score (cs ! candidate_index p)
             \<or> device_score (cs ! j) = device_score (cs ! candidate_index p) \<and> candidate_index p \<le> j))"
proof (cases "max_by device_key_le (List.map_filter suitable (enumerate 0 cs))")
  case None
  then have "List.map_filter suitable (enumerate 0 cs) = []" by simp
  then have "\<not> (\<exists>i<length cs. \<exists>q. select_queue_families (queue_families (cs ! i)) = Inr q)"
    using suitable_set [of _ _ _ cs] by (metis empty_iff list.set(1))
  with None show ?thesis by (simp add: choose_render_device_def)
next
  case (Some m)
  obtain i s q where m: "m = (i, s, q)" by (cases m)
  have mb: "m \<in> set (List.map_filter suitable (enumerate 0 cs))"
    "\<forall>y\<in>set (List.map_filter suitable (enumerate 0 cs)). device_key_le y m"
    using device_key.max_by_spec [OF Some] by blast+
  have i: "i < length cs" "device_score (cs ! i) = s" "select_queue_families (queue_families (cs ! i)) = Inr q"
    using mb(1) unfolding m suitable_set by simp_all
  have "device_score (cs ! j) < s \<or> device_score (cs ! j) = s \<and> i \<le> j"
    if "j < length cs" "select_queue_families (queue_families (cs ! j)) = Inr q'" for j q'
    using bspec [OF mb(2), of "(j, device_score (cs ! j), q')"] that
    unfolding suitable_set m device_key_le_def by simp
  then show ?thesis using Some m i by (simp add: choose_render_device_def)
qed

definition sample_family :: "u32 \<Rightarrow> queue_family" where
  "sample_family fl = \<lparr>qf_index = 4, qf_flags = fl, qf_queue_count = 1\<rparr>"

lemma sample_select:
  "select_queue_families [sample_family 7] = Inr \<lparr>sel_graphics = 4, sel_compute = 4, sel_transfer = 4\<rparr>"
  by (simp add: select_queue_families_def first_preferred_def sample_family_def supports_def queue_graphics_def
      queue_compute_def queue_transfer_def)

theorem choose_render_device_best_witness:
  "\<exists>p. choose_render_device [\<lparr>device_score = 9, queue_families = []\<rparr>, \<lparr>device_score = 3, queue_families = [sample_family 7]\<rparr>] = Inr p
     \<and> candidate_index p = 1"
proof -
  let ?cs = "[\<lparr>device_score = 9, queue_families = []\<rparr>, \<lparr>device_score = 3, queue_families = [sample_family 7]\<rparr>]"
  have none: "select_queue_families [] = Inl QueueSelectionError" by (simp add: select_queue_families_def)
  show ?thesis
    using choose_render_device_best [of ?cs] sample_select none
    by (cases "choose_render_device ?cs") (auto simp: less_Suc_eq nth_Cons' split: if_splits)
qed

text \<open>
  The device creation requests are exact: among the requests with a non-zero count every family
  occurs once, and the counts requested from a family add up to the number of roles it serves.
\<close>

theorem queue_requests_exact:
  "distinct (map rq_family (filter (\<lambda>r. rq_count r \<noteq> 0) (build_queue_create_requests s)))
   \<and> sum_list (map (unat \<circ> rq_count) (filter (\<lambda>r. rq_family r = f) (build_queue_create_requests s))) =
       length (filter (\<lambda>x. x = f) [sel_graphics s, sel_compute s, sel_transfer s])"
  by (auto simp: build_queue_create_requests_def merge_request_def upt_rec wsat_add_def)

text \<open>
  A selection can ask for more queues than a family has: a single family with one queue that
  supports everything is selected for all three roles, and the requests then ask it for three.
\<close>

theorem shared_family_overcommitted:
  "\<exists>f s. select_queue_families [f] = Inr s \<and> unat (qf_queue_count f) = 1
     \<and> unat (rq_count (hd (build_queue_create_requests s))) = 3"
  by (rule exI [of _ "sample_family 7"], rule exI, rule conjI, rule sample_select)
    (simp add: sample_family_def build_queue_create_requests_def merge_request_def upt_rec wsat_add_def)

text \<open>
  A world packet that passes validation cannot make a draw leave its buffers: every instance a
  draw addresses is a whole record inside the bytes, inside the capacity of the device buffer, and
  every vertex it addresses is one of the 36 of the unit cube; the camera is finite.
\<close>

theorem world_packet_in_bounds:
  assumes "valid_world_packet bs cap camera draws" "d \<in> set draws"
    and "unat (wd_first_instance d) \<le> i" "i < unat (wd_first_instance d) + unat (wd_instance_count d)"
  shows "gpu_instance_record_size * (i + 1) \<le> length bs \<and> length bs \<le> unat cap
     \<and> unat (wd_first_vertex d) + unat (wd_vertex_count d) \<le> 36 \<and> list_all is_finite camera"
proof -
  let ?n = "length bs div gpu_instance_record_size"
  have v: "valid_draw ?n d" and cap: "length bs \<le> unat cap" "list_all is_finite camera"
    and m: "length bs mod gpu_instance_record_size = 0"
    using assms(1,2) by (auto simp: valid_world_packet_def list_all_iff)
  have sum: "unat (a + b) = unat a + unat b" if "unat a + unat b < 2 ^ 32" for a b :: u32
    using that by (simp add: unat_word_ariths)
  have "unat (wd_first_instance d) + unat (wd_instance_count d) \<le> ?n"
    and vx: "unat (wd_first_vertex d) + unat (wd_vertex_count d) \<le> 36"
    using v sum by (auto simp: valid_draw_def wchecked_add_def word_le_nat_alt split: if_splits)
  then have "i + 1 \<le> ?n" using assms(4) by simp
  then have "gpu_instance_record_size * (i + 1) \<le> gpu_instance_record_size * ?n" by (rule mult_le_mono2)
  also have "\<dots> = length bs" using m by (metis add.right_neutral mult_div_mod_eq)
  finally show ?thesis using cap vx by simp
qed

theorem world_packet_in_bounds_witness:
  "gpu_instance_record_size * 1 \<le> length (replicate 80 (0 :: u8))
   \<and> valid_world_packet (replicate 80 0) 80 [f32_zero]
       [\<lparr>wd_vertex_count = 36, wd_instance_count = 1, wd_first_vertex = 0, wd_first_instance = 0\<rparr>]"
proof -
  let ?d = "\<lparr>wd_vertex_count = 36, wd_instance_count = 1, wd_first_vertex = 0, wd_first_instance = 0\<rparr>"
  have v: "valid_world_packet (replicate 80 0) 80 [f32_zero] [?d]"
    by (simp add: valid_world_packet_def gpu_instance_record_size_def valid_draw_def wchecked_add_def)
  show ?thesis using world_packet_in_bounds [OF v, of ?d 0] v by simp
qed

end
