(* ===== verification/Renderer_3d.thy ===== *)
theory Renderer_3d
  imports Float32 Wire
begin

text \<open>
  The resource tables of \<open>src/src/subsystems/renderer_3d.rs\<close>: meshes with their vertex and index
  bytes, and materials, both addressed by generational handles; and the validation of views and
  passes. The two tables implement the same contract, stated once as a locale: a partial map from
  handles to contents in which an entry stays what it is until it is removed.
\<close>

section \<open>Handles and errors\<close>

record handle =
  h_index :: u32
  h_generation :: u32

definition handle_is_valid :: "handle \<Rightarrow> bool" where
  "handle_is_valid h \<longleftrightarrow> h_index h \<noteq> - 1 \<and> h_generation h \<noteq> 0"

definition handle_invalid :: handle where
  "handle_invalid = \<lparr>h_index = - 1, h_generation = 0\<rparr>"

datatype renderer_3d_error =
    R3CapacityExceeded
  | R3AllocationFailed
  | InvalidHandle
  | InvalidVertexFormat
  | InvalidIndexData
  | InvalidBounds
  | IntegerOverflow
  | InvalidView
  | InvalidPass

definition r3_next_generation :: "u32 \<Rightarrow> u32" where
  "r3_next_generation g = (case wchecked_add g 1 of Some v \<Rightarrow> if v \<noteq> 0 then v else 1 | None \<Rightarrow> 1)"

section \<open>Slots\<close>

text \<open>The slot vector and the free list, which both tables keep in the same way.\<close>

record 'r slot =
  slot_generation :: u32
  slot_record :: "'r option"

definition initial_generation :: u32 where
  "initial_generation = 1"

text \<open>Pop a free index, or push an empty slot.\<close>

definition take_slot :: "alloc \<Rightarrow> 'r slot list \<Rightarrow> u32 list \<Rightarrow> renderer_3d_error + u32 \<times> 'r slot list \<times> u32 list" where
  "take_slot al sl fr =
     (case vec_pop fr of
        Some (i, fr') \<Rightarrow> Inr (i, sl, fr')
      | None \<Rightarrow>
          if length sl > u32_max then Inl IntegerOverflow
          else if \<not> al 0 then Inl R3AllocationFailed
          else Inr (of_nat (length sl), sl @ [\<lparr>slot_generation = initial_generation, slot_record = None\<rparr>], fr))"

definition valid_slot :: "'r slot list \<Rightarrow> handle \<Rightarrow> renderer_3d_error + 'r slot" where
  "valid_slot sl h =
     (if \<not> handle_is_valid h then Inl InvalidHandle
      else case vec_get sl (unat (h_index h)) of
        None \<Rightarrow> Inl InvalidHandle
      | Some s \<Rightarrow> if slot_generation s \<noteq> h_generation h \<or> slot_record s = None then Inl InvalidHandle else Inr s)"

definition slot_get :: "'r slot list \<Rightarrow> handle \<Rightarrow> renderer_3d_error + 'r" where
  "slot_get sl h =
     (case valid_slot sl h of
        Inl e \<Rightarrow> Inl e
      | Inr s \<Rightarrow> (case slot_record s of None \<Rightarrow> Inl InvalidHandle | Some r \<Rightarrow> Inr r))"

text \<open>The body of \<open>remove\<close>: the record, and the slots and free list left behind.\<close>

definition release_slot ::
  "alloc \<Rightarrow> 'r slot list \<Rightarrow> u32 list \<Rightarrow> handle \<Rightarrow> renderer_3d_error + 'r \<times> 'r slot list \<times> u32 list" where
  "release_slot al sl fr h =
     (case valid_slot sl h of
        Inl e \<Rightarrow> Inl e
      | Inr s \<Rightarrow>
          if \<not> al 0 then Inl R3AllocationFailed
          else case slot_record s of
            None \<Rightarrow> Inl InvalidHandle
          | Some r \<Rightarrow>
              Inr (r, sl[unat (h_index h) := \<lparr>slot_generation = r3_next_generation (slot_generation s), slot_record = None\<rparr>],
                   fr @ [h_index h]))"

section \<open>Meshes\<close>

record mesh_record =
  vertex_offset :: u64
  vertex_bytes_len :: u64
  vertex_stride :: u32
  vertex_count :: u32
  index_offset :: u64
  index_bytes_len :: u64
  index_count :: u32
  mesh_bounds :: "f32 list"

record mesh_table =
  mesh_slots :: "mesh_record slot list"
  mesh_free :: "u32 list"
  vertex_data :: bytes
  index_data :: bytes
  max_meshes :: nat
  max_vertex_bytes :: nat
  max_index_bytes :: nat

definition mesh_table_try_with_capacity :: "alloc \<Rightarrow> nat \<Rightarrow> nat \<Rightarrow> nat \<Rightarrow> renderer_3d_error + mesh_table" where
  "mesh_table_try_with_capacity al nm nv ni =
     (if al 0 \<and> al 1 \<and> al 2
      then Inr \<lparr>mesh_slots = [], mesh_free = [], vertex_data = [], index_data = [], max_meshes = nm,
                max_vertex_bytes = nv, max_index_bytes = ni\<rparr>
      else Inl R3AllocationFailed)"

definition mesh_len :: "mesh_table \<Rightarrow> nat" where
  "mesh_len t = length (mesh_slots t) - length (mesh_free t)"

definition validate_mesh_input :: "bytes \<Rightarrow> u32 \<Rightarrow> bytes \<Rightarrow> f32 list \<Rightarrow> renderer_3d_error + unit" where
  "validate_mesh_input vb stride ib bounds =
     (if stride < 12 \<or> stride mod 4 \<noteq> 0 \<or> vb = [] \<or> length vb mod unat stride \<noteq> 0 then Inl InvalidVertexFormat
      else if ib = [] \<or> length ib mod 4 \<noteq> 0 then Inl InvalidIndexData
      else if \<not> list_all is_finite bounds \<or> f32_lt (bounds ! 3) f32_zero then Inl InvalidBounds
      else Inr ())"

text \<open>\<open>try_from\<close> to \<open>u64\<close> cannot fail on lengths; the two counts are converted to \<open>u32\<close>.\<close>

definition make_mesh_record :: "mesh_table \<Rightarrow> bytes \<Rightarrow> u32 \<Rightarrow> bytes \<Rightarrow> f32 list \<Rightarrow> renderer_3d_error + mesh_record" where
  "make_mesh_record t vb stride ib bounds =
     (if length vb div unat stride > u32_max \<or> length ib div 4 > u32_max then Inl IntegerOverflow
      else Inr \<lparr>vertex_offset = of_nat (length (vertex_data t)), vertex_bytes_len = of_nat (length vb),
                vertex_stride = stride, vertex_count = of_nat (length vb div unat stride),
                index_offset = of_nat (length (index_data t)), index_bytes_len = of_nat (length ib),
                index_count = of_nat (length ib div 4), mesh_bounds = bounds\<rparr>)"

definition mesh_store ::
  "alloc \<Rightarrow> mesh_table \<Rightarrow> bytes \<Rightarrow> bytes \<Rightarrow> mesh_record \<Rightarrow> (renderer_3d_error + handle) \<times> mesh_table" where
  "mesh_store al t vb ib rec =
     (case take_slot al (mesh_slots t) (mesh_free t) of
        Inl e \<Rightarrow> (Inl e, t)
      | Inr (i, sl, fr) \<Rightarrow>
          (case vec_get sl (unat i) of
             None \<Rightarrow> (Inl InvalidHandle, t\<lparr>mesh_slots := sl, mesh_free := fr\<rparr>)
           | Some s \<Rightarrow>
               (Inr \<lparr>h_index = i, h_generation = slot_generation s\<rparr>,
                t\<lparr>mesh_slots := sl[unat i := s\<lparr>slot_record := Some rec\<rparr>], mesh_free := fr,
                  vertex_data := vertex_data t @ vb, index_data := index_data t @ ib\<rparr>)))"

definition mesh_try_insert ::
  "alloc \<Rightarrow> mesh_table \<Rightarrow> bytes \<Rightarrow> u32 \<Rightarrow> bytes \<Rightarrow> f32 list \<Rightarrow> (renderer_3d_error + handle) \<times> mesh_table" where
  "mesh_try_insert al t vb stride ib bounds =
     (case validate_mesh_input vb stride ib bounds of
        Inl e \<Rightarrow> (Inl e, t)
      | Inr _ \<Rightarrow>
          if mesh_len t \<ge> max_meshes t then (Inl R3CapacityExceeded, t)
          else case (checked_add (length (vertex_data t)) (length vb), checked_add (length (index_data t)) (length ib)) of
            (Some ve, Some ie) \<Rightarrow>
              if ve > max_vertex_bytes t \<or> ie > max_index_bytes t then (Inl R3CapacityExceeded, t)
              else (case make_mesh_record t vb stride ib bounds of
                      Inl e \<Rightarrow> (Inl e, t)
                    | Inr rec \<Rightarrow> mesh_store al t vb ib rec)
          | _ \<Rightarrow> (Inl IntegerOverflow, t))"

definition mesh_get :: "mesh_table \<Rightarrow> handle \<Rightarrow> renderer_3d_error + mesh_record" where
  "mesh_get t h = slot_get (mesh_slots t) h"

text \<open>\<open>data.get(start..end)\<close>.\<close>

definition byte_range :: "bytes \<Rightarrow> u64 \<Rightarrow> u64 \<Rightarrow> renderer_3d_error + bytes" where
  "byte_range bs start n =
     (case checked_add (unat start) (unat n) of
        None \<Rightarrow> Inl IntegerOverflow
      | Some e \<Rightarrow> if e \<le> length bs then Inr (take (unat n) (drop (unat start) bs)) else Inl InvalidHandle)"

definition mesh_vertex_bytes :: "mesh_table \<Rightarrow> handle \<Rightarrow> renderer_3d_error + bytes" where
  "mesh_vertex_bytes t h =
     (case mesh_get t h of Inl e \<Rightarrow> Inl e | Inr r \<Rightarrow> byte_range (vertex_data t) (vertex_offset r) (vertex_bytes_len r))"

definition mesh_index_bytes :: "mesh_table \<Rightarrow> handle \<Rightarrow> renderer_3d_error + bytes" where
  "mesh_index_bytes t h =
     (case mesh_get t h of Inl e \<Rightarrow> Inl e | Inr r \<Rightarrow> byte_range (index_data t) (index_offset r) (index_bytes_len r))"

definition mesh_remove :: "alloc \<Rightarrow> mesh_table \<Rightarrow> handle \<Rightarrow> (renderer_3d_error + mesh_record) \<times> mesh_table" where
  "mesh_remove al t h =
     (case release_slot al (mesh_slots t) (mesh_free t) h of
        Inl e \<Rightarrow> (Inl e, t)
      | Inr (r, sl, fr) \<Rightarrow> (Inr r, t\<lparr>mesh_slots := sl, mesh_free := fr\<rparr>))"

section \<open>Materials\<close>

record material_record =
  base_color :: "f32 list"
  metallic :: f32
  roughness :: f32

record material_table =
  mat_slots :: "material_record slot list"
  mat_free :: "u32 list"
  max_materials :: nat

definition material_table_try_with_capacity :: "alloc \<Rightarrow> nat \<Rightarrow> renderer_3d_error + material_table" where
  "material_table_try_with_capacity al n =
     (if al 0 then Inr \<lparr>mat_slots = [], mat_free = [], max_materials = n\<rparr> else Inl R3AllocationFailed)"

definition material_len :: "material_table \<Rightarrow> nat" where
  "material_len t = length (mat_slots t) - length (mat_free t)"

text \<open>\<open>(0.0..=1.0).contains(&x)\<close>.\<close>

definition unit_interval :: "f32 \<Rightarrow> bool" where
  "unit_interval x \<longleftrightarrow> f32_le f32_zero x \<and> f32_le x (f32_of_int 1)"

definition material_try_insert ::
  "alloc \<Rightarrow> material_table \<Rightarrow> material_record \<Rightarrow> (renderer_3d_error + handle) \<times> material_table" where
  "material_try_insert al t m =
     (if material_len t \<ge> max_materials t \<or> \<not> list_all is_finite (base_color m) \<or> \<not> is_finite (metallic m)
        \<or> \<not> is_finite (roughness m) \<or> \<not> unit_interval (metallic m) \<or> \<not> unit_interval (roughness m)
      then (Inl R3CapacityExceeded, t)
      else case take_slot al (mat_slots t) (mat_free t) of
        Inl e \<Rightarrow> (Inl e, t)
      | Inr (i, sl, fr) \<Rightarrow>
          (case vec_get sl (unat i) of
             None \<Rightarrow> (Inl InvalidHandle, t\<lparr>mat_slots := sl, mat_free := fr\<rparr>)
           | Some s \<Rightarrow>
               (Inr \<lparr>h_index = i, h_generation = slot_generation s\<rparr>,
                t\<lparr>mat_slots := sl[unat i := s\<lparr>slot_record := Some m\<rparr>], mat_free := fr\<rparr>)))"

definition material_get :: "material_table \<Rightarrow> handle \<Rightarrow> renderer_3d_error + material_record" where
  "material_get t h =
     (if \<not> handle_is_valid h then Inl InvalidHandle
      else case vec_get (mat_slots t) (unat (h_index h)) of
        None \<Rightarrow> Inl InvalidHandle
      | Some s \<Rightarrow>
          if slot_generation s \<noteq> h_generation h then Inl InvalidHandle
          else (case slot_record s of None \<Rightarrow> Inl InvalidHandle | Some m \<Rightarrow> Inr m))"

definition material_remove :: "alloc \<Rightarrow> material_table \<Rightarrow> handle \<Rightarrow> (renderer_3d_error + material_record) \<times> material_table" where
  "material_remove al t h =
     (case release_slot al (mat_slots t) (mat_free t) h of
        Inl e \<Rightarrow> (Inl e, t)
      | Inr (r, sl, fr) \<Rightarrow> (Inr r, t\<lparr>mat_slots := sl, mat_free := fr\<rparr>))"

section \<open>Views and passes\<close>

record render_view_config =
  view_projection :: "f32 list"
  viewport_width :: u32
  viewport_height :: u32
  near_plane :: f32
  far_plane :: f32

definition view_validate :: "render_view_config \<Rightarrow> renderer_3d_error + render_view_config" where
  "view_validate v =
     (if viewport_width v = 0 \<or> viewport_height v = 0 \<or> \<not> list_all is_finite (view_projection v)
        \<or> \<not> is_finite (near_plane v) \<or> \<not> is_finite (far_plane v)
        \<or> f32_le (near_plane v) f32_zero \<or> f32_le (far_plane v) (near_plane v)
      then Inl InvalidView else Inr v)"

record world_pass_config =
  pass_view :: render_view_config
  clear_color :: "f32 list"
  clear_depth :: f32

definition pass_validate :: "world_pass_config \<Rightarrow> renderer_3d_error + world_pass_config" where
  "pass_validate p =
     (case view_validate (pass_view p) of
        Inl e \<Rightarrow> Inl e
      | Inr _ \<Rightarrow>
          if \<not> list_all is_finite (clear_color p) \<or> \<not> is_finite (clear_depth p) \<or> \<not> unit_interval (clear_depth p)
          then Inl InvalidPass else Inr p)"

section \<open>The contract of a handle table\<close>

text \<open>
  \<open>view\<close> is what a table holds: the content of every valid handle. Inserting adds one entry under a
  handle that had none, removing deletes one entry, failing operations change nothing.
\<close>

datatype ('x, 'h) table_op = TableInsert alloc 'x | TableRemove alloc 'h

datatype 'h table_answer = Inserted 'h | Removed | Refused

fun table_exec ::
  "(alloc \<Rightarrow> 't \<Rightarrow> 'x \<Rightarrow> ('e + 'h) \<times> 't) \<Rightarrow> (alloc \<Rightarrow> 't \<Rightarrow> 'h \<Rightarrow> ('e + 'r) \<times> 't)
   \<Rightarrow> ('x, 'h) table_op \<Rightarrow> 't \<Rightarrow> 'h table_answer \<times> 't" where
  "table_exec ins rem (TableInsert al x) t = (case ins al t x of (Inr h, t') \<Rightarrow> (Inserted h, t') | (Inl e, t') \<Rightarrow> (Refused, t'))"
| "table_exec ins rem (TableRemove al h) t = (case rem al t h of (Inr r, t') \<Rightarrow> (Removed, t') | (Inl e, t') \<Rightarrow> (Refused, t'))"

fun table_run ::
  "(alloc \<Rightarrow> 't \<Rightarrow> 'x \<Rightarrow> ('e + 'h) \<times> 't) \<Rightarrow> (alloc \<Rightarrow> 't \<Rightarrow> 'h \<Rightarrow> ('e + 'r) \<times> 't)
   \<Rightarrow> ('x, 'h) table_op list \<Rightarrow> 't \<Rightarrow> 'h table_answer list \<times> 't" where
  "table_run ins rem [] t = ([], t)"
| "table_run ins rem (p # ps) t =
     (let (a, t') = table_exec ins rem p t; (as, t'') = table_run ins rem ps t' in (a # as, t''))"

text \<open>The map after the operations and their answers.\<close>

fun table_replay :: "('x, 'h) table_op list \<Rightarrow> 'h table_answer list \<Rightarrow> ('h \<rightharpoonup> 'x) \<Rightarrow> ('h \<rightharpoonup> 'x)" where
  "table_replay (TableInsert al x # ps) (Inserted h # as) m = table_replay ps as (m(h \<mapsto> x))"
| "table_replay (TableRemove al h # ps) (Removed # as) m = table_replay ps as (m(h := None))"
| "table_replay (p # ps) (a # as) m = table_replay ps as m"
| "table_replay _ _ m = m"

locale handle_table =
  fixes inv :: "'t \<Rightarrow> bool" and view :: "'t \<Rightarrow> 'h \<Rightarrow> 'x option"
    and ins :: "alloc \<Rightarrow> 't \<Rightarrow> 'x \<Rightarrow> ('e + 'h) \<times> 't" and rem :: "alloc \<Rightarrow> 't \<Rightarrow> 'h \<Rightarrow> ('e + 'r) \<times> 't"
  assumes ins_ok: "inv t \<Longrightarrow> ins al t x = (Inr h, t') \<Longrightarrow> inv t' \<and> view t h = None \<and> view t' = (view t)(h \<mapsto> x)"
    and ins_err: "inv t \<Longrightarrow> ins al t x = (Inl e, t') \<Longrightarrow> t' = t"
    and rem_ok: "inv t \<Longrightarrow> rem al t h = (Inr r, t') \<Longrightarrow> inv t' \<and> view t h \<noteq> None \<and> view t' = (view t)(h := None)"
    and rem_err: "inv t \<Longrightarrow> rem al t h = (Inl e, t') \<Longrightarrow> t' = t \<and> (view t h = None \<or> \<not> al 0)"
begin

lemma exec_map:
  assumes "inv t" "table_exec ins rem p t = (a, t')"
  shows "inv t' \<and> table_replay (p # ps) (a # as) (view t) = table_replay ps as (view t')
     \<and> (\<forall>h x. view t h = Some x \<and> (\<forall>al. p \<noteq> TableRemove al h) \<longrightarrow> view t' h = Some x)"
proof (cases p)
  case (TableInsert al x)
  show ?thesis
  proof (cases "ins al t x")
    case (Pair r u)
    show ?thesis
    proof (cases r)
      case (Inl e)
      then show ?thesis using Pair TableInsert assms ins_err [OF assms(1)] by auto
    next
      case (Inr h)
      then show ?thesis using Pair TableInsert assms ins_ok [OF assms(1)] by auto
    qed
  qed
next
  case (TableRemove al h)
  show ?thesis
  proof (cases "rem al t h")
    case (Pair r u)
    show ?thesis
    proof (cases r)
      case (Inl e)
      then show ?thesis using Pair TableRemove assms rem_err [OF assms(1)] by auto
    next
      case (Inr x)
      then show ?thesis using Pair TableRemove assms rem_ok [OF assms(1)] by auto
    qed
  qed
qed

text \<open>Any run of operations computes the map of its answers, and keeps what it does not remove.\<close>

lemma exec_all_map:
  assumes "inv t"
  shows "inv (snd (table_run ins rem ps t)) \<and> view (snd (table_run ins rem ps t)) = table_replay ps (fst (table_run ins rem ps t)) (view t)"
  using assms
proof (induction ps arbitrary: t)
  case (Cons p ps)
  obtain a t' where e: "table_exec ins rem p t = (a, t')" by (cases "table_exec ins rem p t")
  show ?case
    using exec_map [OF Cons.prems e, of ps "fst (table_run ins rem ps t')"] Cons.IH [of t'] e by (auto split: prod.splits)
qed simp

lemma entry_persists:
  assumes "inv t" "view t h = Some x" "\<forall>al. TableRemove al h \<notin> set ps"
  shows "view (snd (table_run ins rem ps t)) h = Some x"
  using assms
proof (induction ps arbitrary: t)
  case (Cons p ps)
  obtain a t' where e: "table_exec ins rem p t = (a, t')" by (cases "table_exec ins rem p t")
  then have "inv t'" "view t' h = Some x"
    using exec_map [OF Cons.prems(1) e, of ps "[]"] Cons.prems(2,3) by auto
  then show ?case using Cons.IH [of t'] Cons.prems(3) e by (auto split: prod.splits)
qed simp

end

section \<open>Slots\<close>

definition slot_view :: "'r slot list \<Rightarrow> handle \<Rightarrow> 'r option" where
  "slot_view sl h = (case slot_get sl h of Inl _ \<Rightarrow> None | Inr r \<Rightarrow> Some r)"

text \<open>The free list holds exactly the empty slots, once each; generations are never zero.\<close>

definition slots_inv :: "nat \<Rightarrow> 'r slot list \<Rightarrow> u32 list \<Rightarrow> bool" where
  "slots_inv n sl fr \<longleftrightarrow> n \<le> u32_max \<and> length sl \<le> n \<and> distinct fr
     \<and> (\<forall>i. i \<in> set fr \<longleftrightarrow> unat i < length sl \<and> slot_record (sl ! unat i) = None)
     \<and> (\<forall>s\<in>set sl. slot_generation s \<noteq> 0)"

lemma slot_view_eq:
  "slot_view sl h =
     (if handle_is_valid h \<and> unat (h_index h) < length sl \<and> slot_generation (sl ! unat (h_index h)) = h_generation h
      then slot_record (sl ! unat (h_index h)) else None)"
  by (auto simp: slot_view_def slot_get_def valid_slot_def vec_get_def split: option.splits sum.splits)

lemma unat_u32_inj: "unat (a :: u32) = unat b \<Longrightarrow> a = b"
  by (simp add: word_unat_eq_iff)

lemma index_valid: "unat i < length sl \<Longrightarrow> length sl \<le> u32_max \<Longrightarrow> (i :: u32) \<noteq> - 1"
  by (auto simp: u32_max_def unsigned_minus_1_eq_mask mask_eq_exp_minus_1)

lemma free_length_le: "slots_inv n sl fr \<Longrightarrow> length fr \<le> length sl"
proof -
  assume inv: "slots_inv n sl fr"
  have "inj_on unat (set fr)" by (rule inj_onI) (simp add: word_unat_eq_iff)
  then have "length fr = card (unat ` set fr)" using inv by (simp add: slots_inv_def card_image distinct_card)
  also have "\<dots> \<le> card {..<length sl}" using inv by (intro card_mono) (auto simp: slots_inv_def)
  finally show ?thesis by simp
qed

text \<open>Storing into a slot that \<open>take_slot\<close> yields.\<close>

lemma store_slot:
  assumes inv: "slots_inv n sl fr" and room: "length sl - length fr < n" and t: "take_slot al sl fr = Inr (i, sl', fr')"
  obtains s where "vec_get sl' (unat i) = Some s" "slots_inv n (sl'[unat i := s\<lparr>slot_record := Some r\<rparr>]) fr'"
    "slot_view sl \<lparr>h_index = i, h_generation = slot_generation s\<rparr> = None"
    "slot_view (sl'[unat i := s\<lparr>slot_record := Some r\<rparr>]) =
       (slot_view sl)(\<lparr>h_index = i, h_generation = slot_generation s\<rparr> \<mapsto> r)"
proof (cases "vec_pop fr")
  case None
  then have fr: "fr = []" by simp
  let ?s = "\<lparr>slot_generation = initial_generation, slot_record = None\<rparr> :: 'r slot"
  have res: "i = of_nat (length sl)" "sl' = sl @ [?s]" "fr' = []"
    using t fr by (auto simp: take_slot_def split: if_splits)
  have len: "length sl < n" "n \<le> u32_max" using inv room fr by (simp_all add: slots_inv_def)
  then have ui: "unat i = length sl" using res by (simp add: unat_of_nat_u32)
  have full: "\<forall>k<length sl. slot_record (sl ! k) \<noteq> None"
  proof (intro allI impI)
    fix k assume "k < length sl"
    then show "slot_record (sl ! k) \<noteq> None"
      using inv fr len unat_of_nat_u32 [of k] unfolding slots_inv_def by (metis empty_iff less_imp_le less_le_trans list.set(1))
  qed
  have i: "i \<noteq> - 1" using index_valid [of i "sl @ [?s]"] ui len by simp
  have v: "handle_is_valid \<lparr>h_index = i, h_generation = initial_generation\<rparr>"
    using i by (simp add: handle_is_valid_def initial_generation_def)
  show ?thesis
  proof (rule that [of ?s])
    show "vec_get sl' (unat i) = Some ?s" using ui res by (simp add: vec_get_def)
    show "slots_inv n (sl'[unat i := ?s\<lparr>slot_record := Some r\<rparr>]) fr'"
      using inv full len ui res fr by (auto simp: slots_inv_def initial_generation_def nth_append)
    show "slot_view sl \<lparr>h_index = i, h_generation = slot_generation ?s\<rparr> = None"
      using ui by (simp add: slot_view_eq)
    show "slot_view (sl'[unat i := ?s\<lparr>slot_record := Some r\<rparr>]) =
        (slot_view sl)(\<lparr>h_index = i, h_generation = slot_generation ?s\<rparr> \<mapsto> r)"
    proof
      fix h :: handle
      have "unat (h_index h) = length sl \<longleftrightarrow> h_index h = i" by (simp add: word_unat_eq_iff ui)
      then show "slot_view (sl'[unat i := ?s\<lparr>slot_record := Some r\<rparr>]) h =
          ((slot_view sl)(\<lparr>h_index = i, h_generation = slot_generation ?s\<rparr> \<mapsto> r)) h"
        using v ui res by (cases h) (auto simp: slot_view_eq nth_append less_Suc_eq)
    qed
  qed
next
  case (Some p)
  then obtain fr0 where fr: "fr = fr0 @ [i]" and res: "sl' = sl" "fr' = fr0"
    using t by (cases p) (auto simp: take_slot_def vec_pop_Some)
  let ?s = "sl ! unat i"
  have i: "unat i < length sl" "slot_record ?s = None" using inv fr by (auto simp: slots_inv_def)
  then have g: "slot_generation ?s \<noteq> 0" using inv by (simp add: slots_inv_def)
  have i1: "i \<noteq> - 1" using index_valid [OF i(1)] inv by (simp add: slots_inv_def)
  show ?thesis
  proof (rule that [of ?s])
    show "vec_get sl' (unat i) = Some ?s" using i res by (simp add: vec_get_def)
    show "slot_view sl \<lparr>h_index = i, h_generation = slot_generation ?s\<rparr> = None" using i by (simp add: slot_view_eq)
    show "slots_inv n (sl'[unat i := ?s\<lparr>slot_record := Some r\<rparr>]) fr'"
      using inv i g fr res
      by (auto simp: slots_inv_def nth_list_update dest!: set_update_subset_insert [THEN subsetD] dest: unat_u32_inj
          split: if_splits)
    show "slot_view (sl'[unat i := ?s\<lparr>slot_record := Some r\<rparr>]) =
        (slot_view sl)(\<lparr>h_index = i, h_generation = slot_generation ?s\<rparr> \<mapsto> r)"
    proof
      fix h :: handle
      show "slot_view (sl'[unat i := ?s\<lparr>slot_record := Some r\<rparr>]) h =
          ((slot_view sl)(\<lparr>h_index = i, h_generation = slot_generation ?s\<rparr> \<mapsto> r)) h"
      proof (cases "h_index h = i")
        case True
        then show ?thesis using i g i1 res by (cases h) (simp add: slot_view_eq handle_is_valid_def)
      next
        case False
        then have "unat (h_index h) \<noteq> unat i" using unat_u32_inj by blast
        with False show ?thesis using res by (cases h) (simp add: slot_view_eq)
      qed
    qed
  qed
qed

text \<open>Releasing a slot.\<close>

lemma r3_next_generation_nonzero: "r3_next_generation g \<noteq> 0"
  by (auto simp: r3_next_generation_def split: option.splits)

lemma release_slot_ok:
  assumes inv: "slots_inv n sl fr" and r: "release_slot al sl fr h = Inr (r, sl', fr')"
  shows "slots_inv n sl' fr'" "slot_view sl h = Some r" "slot_view sl' = (slot_view sl)(h := None)"
proof -
  let ?i = "unat (h_index h)"
  have h: "handle_is_valid h" "?i < length sl" "slot_generation (sl ! ?i) = h_generation h" "slot_record (sl ! ?i) = Some r"
    and res: "sl' = sl[?i := \<lparr>slot_generation = r3_next_generation (h_generation h), slot_record = None\<rparr>]"
      "fr' = fr @ [h_index h]"
    using r by (auto simp: release_slot_def valid_slot_def vec_get_def split: if_splits option.splits)
  show "slot_view sl h = Some r" using h by (simp add: slot_view_eq)
  have nf: "h_index h \<notin> set fr" using inv h by (simp add: slots_inv_def)
  show "slots_inv n sl' fr'"
    using inv h nf res r3_next_generation_nonzero
    by (auto simp: slots_inv_def nth_list_update dest!: set_update_subset_insert [THEN subsetD] dest: unat_u32_inj)
  show "slot_view sl' = (slot_view sl)(h := None)"
  proof
    fix k :: handle
    show "slot_view sl' k = ((slot_view sl)(h := None)) k"
      using h res by (cases k; cases h) (auto simp: slot_view_eq nth_list_update word_unat_eq_iff)
  qed
qed

lemma release_slot_err: "release_slot al sl fr h = Inl e \<Longrightarrow> slot_view sl h = None \<or> \<not> al 0"
  by (auto simp: release_slot_def slot_view_def slot_get_def split: if_splits option.splits sum.splits)

lemma take_slot_err_irrelevant: "take_slot al sl fr = Inl e \<Longrightarrow> fr = []"
  by (auto simp: take_slot_def vec_pop_def split: if_splits)

section \<open>Materials implement the contract\<close>

definition material_inv :: "material_table \<Rightarrow> bool" where
  "material_inv t \<longleftrightarrow> slots_inv (max_materials t) (mat_slots t) (mat_free t)"

definition material_view :: "material_table \<Rightarrow> handle \<Rightarrow> material_record option" where
  "material_view t h = (case material_get t h of Inl _ \<Rightarrow> None | Inr m \<Rightarrow> Some m)"

lemma material_view_slots: "material_view t = slot_view (mat_slots t)"
  by (auto simp: fun_eq_iff material_view_def material_get_def slot_view_eq vec_get_def split: option.splits)

lemma material_insert_ok:
  assumes "material_inv t" "material_try_insert al t m = (Inr h, t')"
  shows "material_inv t' \<and> material_view t h = None \<and> material_view t' = (material_view t)(h \<mapsto> m)"
proof -
  obtain i sl fr where ts: "take_slot al (mat_slots t) (mat_free t) = Inr (i, sl, fr)"
    and room: "material_len t < max_materials t"
    using assms(2) by (auto simp: material_try_insert_def split: if_splits sum.splits)
  obtain s where s: "vec_get sl (unat i) = Some s"
    "slots_inv (max_materials t) (sl[unat i := s\<lparr>slot_record := Some m\<rparr>]) fr"
    "slot_view (mat_slots t) \<lparr>h_index = i, h_generation = slot_generation s\<rparr> = None"
    "slot_view (sl[unat i := s\<lparr>slot_record := Some m\<rparr>]) =
       (slot_view (mat_slots t))(\<lparr>h_index = i, h_generation = slot_generation s\<rparr> \<mapsto> m)"
    using store_slot [OF _ _ ts, of "max_materials t" m] assms(1) room
    unfolding material_inv_def material_len_def by blast
  have "h = \<lparr>h_index = i, h_generation = slot_generation s\<rparr>"
    "t' = t\<lparr>mat_slots := sl[unat i := s\<lparr>slot_record := Some m\<rparr>], mat_free := fr\<rparr>"
    using assms(2) ts s(1) by (auto simp: material_try_insert_def split: if_splits)
  then show ?thesis using s by (simp add: material_inv_def material_view_slots)
qed

lemma material_insert_err:
  assumes "material_inv t" "material_try_insert al t m = (Inl e, t')"
  shows "t' = t"
proof (cases "take_slot al (mat_slots t) (mat_free t)")
  case (Inl x)
  then show ?thesis using assms(2) by (auto simp: material_try_insert_def split: if_splits)
next
  case (Inr p)
  obtain i sl fr where p: "p = (i, sl, fr)" by (cases p)
  show ?thesis
  proof (cases "material_len t < max_materials t")
    case True
    then obtain s where "vec_get sl (unat i) = Some s"
      using store_slot [of "max_materials t" "mat_slots t" "mat_free t" al i sl fr m] assms(1) Inr p
      unfolding material_inv_def material_len_def by blast
    then show ?thesis using assms(2) Inr p by (auto simp: material_try_insert_def split: if_splits)
  next
    case False
    then show ?thesis using assms(2) by (auto simp: material_try_insert_def)
  qed
qed

lemma material_remove_ok:
  assumes "material_inv t" "material_remove al t h = (Inr r, t')"
  shows "material_inv t' \<and> material_view t h \<noteq> None \<and> material_view t' = (material_view t)(h := None)"
proof -
  obtain sl fr where "release_slot al (mat_slots t) (mat_free t) h = Inr (r, sl, fr)"
    "t' = t\<lparr>mat_slots := sl, mat_free := fr\<rparr>"
    using assms(2) by (auto simp: material_remove_def split: sum.splits prod.splits)
  with assms(1) show ?thesis using release_slot_ok [of "max_materials t" "mat_slots t" "mat_free t"]
    by (simp add: material_inv_def material_view_slots)
qed

lemma material_remove_err:
  assumes "material_remove al t h = (Inl e, t')"
  shows "t' = t \<and> (material_view t h = None \<or> \<not> al 0)"
  using assms release_slot_err [of al "mat_slots t" "mat_free t" h]
  by (auto simp: material_remove_def material_view_slots split: sum.splits prod.splits)

interpretation materials: handle_table material_inv material_view material_try_insert material_remove
  by unfold_locales (assumption | rule material_insert_ok material_insert_err material_remove_ok material_remove_err)+

section \<open>Meshes implement the contract\<close>

type_synonym mesh_content = "bytes \<times> u32 \<times> bytes \<times> f32 list"

text \<open>A record addresses bytes that exist, vertices and indices alike.\<close>

definition record_in :: "mesh_table \<Rightarrow> mesh_record \<Rightarrow> bool" where
  "record_in t r \<longleftrightarrow> unat (vertex_offset r) + unat (vertex_bytes_len r) \<le> length (vertex_data t)
     \<and> unat (index_offset r) + unat (index_bytes_len r) \<le> length (index_data t)"

definition mesh_inv :: "mesh_table \<Rightarrow> bool" where
  "mesh_inv t \<longleftrightarrow> slots_inv (max_meshes t) (mesh_slots t) (mesh_free t)
     \<and> length (vertex_data t) \<le> usize_max \<and> length (index_data t) \<le> usize_max
     \<and> (\<forall>r\<in>ran (slot_view (mesh_slots t)). record_in t r)"

definition mesh_view :: "mesh_table \<Rightarrow> handle \<Rightarrow> mesh_content option" where
  "mesh_view t h =
     (case (mesh_get t h, mesh_vertex_bytes t h, mesh_index_bytes t h) of
        (Inr r, Inr vb, Inr ib) \<Rightarrow> Some (vb, vertex_stride r, ib, mesh_bounds r)
      | _ \<Rightarrow> None)"

definition mesh_insert :: "alloc \<Rightarrow> mesh_table \<Rightarrow> mesh_content \<Rightarrow> (renderer_3d_error + handle) \<times> mesh_table" where
  "mesh_insert al t = (\<lambda>(vb, stride, ib, bounds). mesh_try_insert al t vb stride ib bounds)"

definition record_content :: "bytes \<Rightarrow> bytes \<Rightarrow> mesh_record \<Rightarrow> mesh_content" where
  "record_content vd idx r =
     (take (unat (vertex_bytes_len r)) (drop (unat (vertex_offset r)) vd), vertex_stride r,
      take (unat (index_bytes_len r)) (drop (unat (index_offset r)) idx), mesh_bounds r)"

lemma byte_range_in:
  "unat s + unat n \<le> length bs \<Longrightarrow> length bs \<le> usize_max \<Longrightarrow> byte_range bs s n = Inr (take (unat n) (drop (unat s) bs))"
  by (simp add: byte_range_def checked_add_def)

lemma mesh_view_eq:
  assumes "mesh_inv t"
  shows "mesh_view t h = map_option (record_content (vertex_data t) (index_data t)) (slot_view (mesh_slots t) h)"
proof (cases "slot_view (mesh_slots t) h")
  case None
  then show ?thesis by (auto simp: mesh_view_def mesh_get_def slot_view_def split: sum.splits)
next
  case (Some r)
  then have "record_in t r" using assms by (auto simp: mesh_inv_def ran_def)
  moreover have "mesh_get t h = Inr r" using Some by (auto simp: mesh_get_def slot_view_def split: sum.splits)
  ultimately show ?thesis
    using Some assms
    by (simp add: mesh_view_def mesh_vertex_bytes_def mesh_index_bytes_def byte_range_in record_in_def mesh_inv_def record_content_def)
qed

text \<open>The bytes of a record do not change when bytes are appended.\<close>

lemma record_content_append:
  "record_in t r \<Longrightarrow> record_content (vertex_data t @ vs) (index_data t @ is') r = record_content (vertex_data t) (index_data t) r"
  by (simp add: record_content_def record_in_def)

lemma mesh_try_insert_Inr:
  assumes "mesh_try_insert al t vb stride ib bounds = (Inr h, t')"
  shows "mesh_len t < max_meshes t \<and> length (vertex_data t) + length vb \<le> usize_max
     \<and> length (index_data t) + length ib \<le> usize_max
     \<and> (\<exists>r. make_mesh_record t vb stride ib bounds = Inr r \<and> mesh_store al t vb ib r = (Inr h, t'))"
  using assms by (auto simp: mesh_try_insert_def checked_add_def split: sum.splits if_splits)

lemma make_mesh_record_spec:
  assumes "make_mesh_record t vb stride ib bounds = Inr r"
    and "length (vertex_data t) + length vb \<le> usize_max" "length (index_data t) + length ib \<le> usize_max"
  shows "unat (vertex_offset r) = length (vertex_data t)" "unat (vertex_bytes_len r) = length vb"
    "unat (index_offset r) = length (index_data t)" "unat (index_bytes_len r) = length ib"
    "vertex_stride r = stride" "mesh_bounds r = bounds"
proof -
  have "unat (of_nat n :: u64) = n" if "n \<le> usize_max" for n
    using that by (intro unat_of_nat_u64) (simp add: usize_max_def)
  then show "unat (vertex_offset r) = length (vertex_data t)" "unat (vertex_bytes_len r) = length vb"
    "unat (index_offset r) = length (index_data t)" "unat (index_bytes_len r) = length ib"
    "vertex_stride r = stride" "mesh_bounds r = bounds"
    using assms by (auto simp: make_mesh_record_def split: if_splits)
qed

lemma mesh_store_spec:
  assumes inv: "mesh_inv t" and room: "mesh_len t < max_meshes t" and st: "mesh_store al t vb ib r = (Inr h, t')"
  shows "slots_inv (max_meshes t) (mesh_slots t') (mesh_free t') \<and> slot_view (mesh_slots t) h = None
     \<and> slot_view (mesh_slots t') = (slot_view (mesh_slots t))(h \<mapsto> r)
     \<and> vertex_data t' = vertex_data t @ vb \<and> index_data t' = index_data t @ ib \<and> max_meshes t' = max_meshes t"
proof -
  obtain i sl fr where ts: "take_slot al (mesh_slots t) (mesh_free t) = Inr (i, sl, fr)"
    using st by (auto simp: mesh_store_def split: sum.splits)
  obtain s where s: "vec_get sl (unat i) = Some s"
    "slots_inv (max_meshes t) (sl[unat i := s\<lparr>slot_record := Some r\<rparr>]) fr"
    "slot_view (mesh_slots t) \<lparr>h_index = i, h_generation = slot_generation s\<rparr> = None"
    "slot_view (sl[unat i := s\<lparr>slot_record := Some r\<rparr>]) =
       (slot_view (mesh_slots t))(\<lparr>h_index = i, h_generation = slot_generation s\<rparr> \<mapsto> r)"
    using store_slot [OF _ _ ts, of "max_meshes t" r] inv room unfolding mesh_inv_def mesh_len_def by blast
  have "h = \<lparr>h_index = i, h_generation = slot_generation s\<rparr>"
    "t' = t\<lparr>mesh_slots := sl[unat i := s\<lparr>slot_record := Some r\<rparr>], mesh_free := fr,
       vertex_data := vertex_data t @ vb, index_data := index_data t @ ib\<rparr>"
    using st ts s(1) by (auto simp: mesh_store_def)
  with s show ?thesis by simp
qed

lemma mesh_insert_ok:
  assumes inv: "mesh_inv t" and ins: "mesh_insert al t x = (Inr h, t')"
  shows "mesh_inv t' \<and> mesh_view t h = None \<and> mesh_view t' = (mesh_view t)(h \<mapsto> x)"
proof -
  obtain vb stride ib bounds where x: "x = (vb, stride, ib, bounds)" by (cases x)
  from ins x obtain r where room: "mesh_len t < max_meshes t"
    and len: "length (vertex_data t) + length vb \<le> usize_max" "length (index_data t) + length ib \<le> usize_max"
    and mk: "make_mesh_record t vb stride ib bounds = Inr r" and st: "mesh_store al t vb ib r = (Inr h, t')"
    using mesh_try_insert_Inr [of al t vb stride ib bounds h t'] by (auto simp: mesh_insert_def)
  note rs = make_mesh_record_spec [OF mk len]
  have ms: "slots_inv (max_meshes t) (mesh_slots t') (mesh_free t')" "slot_view (mesh_slots t) h = None"
    "slot_view (mesh_slots t') = (slot_view (mesh_slots t))(h \<mapsto> r)"
    "vertex_data t' = vertex_data t @ vb" "index_data t' = index_data t @ ib" "max_meshes t' = max_meshes t"
    using mesh_store_spec [OF inv room st] by auto
  have old: "record_in t q" if "q \<in> ran (slot_view (mesh_slots t))" for q using inv that by (simp add: mesh_inv_def)
  have "record_in t' r" using rs by (simp add: record_in_def ms(4,5))
  moreover have "record_in t' q" if "q \<in> ran (slot_view (mesh_slots t))" for q
    using old [OF that] by (simp add: record_in_def ms(4,5))
  ultimately have inv': "mesh_inv t'"
    using ms len by (simp add: mesh_inv_def ran_map_upd)
  have new: "record_content (vertex_data t') (index_data t') r = x" using rs by (simp add: record_content_def ms(4,5) x)
  have "mesh_view t' k = ((mesh_view t)(h \<mapsto> x)) k" for k
  proof (cases "k = h")
    case True
    then show ?thesis using mesh_view_eq [OF inv'] ms(3) new by simp
  next
    case False
    have "map_option (record_content (vertex_data t') (index_data t')) (slot_view (mesh_slots t) k) =
        map_option (record_content (vertex_data t) (index_data t)) (slot_view (mesh_slots t) k)"
      using old record_content_append [of t _ vb ib] by (intro option.map_cong0) (auto simp: ms(4,5) ran_def)
    with False show ?thesis using mesh_view_eq [OF inv'] mesh_view_eq [OF inv] ms(3) by simp
  qed
  then show ?thesis using inv' mesh_view_eq [OF inv] ms(2) by (simp add: fun_eq_iff)
qed

lemma mesh_insert_err:
  assumes "mesh_inv t" "mesh_insert al t x = (Inl e, t')"
  shows "t' = t"
proof -
  obtain vb stride ib bounds where x: "x = (vb, stride, ib, bounds)" by (cases x)
  have store: "u = t" if st: "mesh_store al t vb ib r = (Inl e', u)" and room: "mesh_len t < max_meshes t" for r e' u
  proof (cases "take_slot al (mesh_slots t) (mesh_free t)")
    case (Inl y)
    then show ?thesis using st by (auto simp: mesh_store_def)
  next
    case (Inr p)
    obtain i sl fr where p: "p = (i, sl, fr)" by (cases p)
    obtain s where "vec_get sl (unat i) = Some s"
      using store_slot [of "max_meshes t" "mesh_slots t" "mesh_free t" al i sl fr r] assms(1) Inr p room
      unfolding mesh_inv_def mesh_len_def by blast
    then show ?thesis using st Inr p by (auto simp: mesh_store_def)
  qed
  show ?thesis
    using assms(2) store unfolding mesh_insert_def x mesh_try_insert_def
    by (auto split: sum.splits if_splits option.splits)
qed

lemma mesh_remove_ok:
  assumes inv: "mesh_inv t" and rem: "mesh_remove al t h = (Inr r, t')"
  shows "mesh_inv t' \<and> mesh_view t h \<noteq> None \<and> mesh_view t' = (mesh_view t)(h := None)"
proof -
  obtain sl fr where rs: "release_slot al (mesh_slots t) (mesh_free t) h = Inr (r, sl, fr)"
    "t' = t\<lparr>mesh_slots := sl, mesh_free := fr\<rparr>"
    using rem by (auto simp: mesh_remove_def split: sum.splits prod.splits)
  note ro = release_slot_ok [OF _ rs(1), of "max_meshes t"]
  have sv: "slot_view sl = (slot_view (mesh_slots t))(h := None)" "slot_view (mesh_slots t) h = Some r"
    "slots_inv (max_meshes t) sl fr" using ro inv by (simp_all add: mesh_inv_def)
  then have "ran (slot_view sl) \<subseteq> ran (slot_view (mesh_slots t))" by (auto simp: ran_def split: if_splits)
  then have inv': "mesh_inv t'" using inv sv rs(2) by (auto simp: mesh_inv_def record_in_def)
  then show ?thesis using mesh_view_eq [OF inv'] mesh_view_eq [OF inv] sv rs(2) by (simp add: fun_eq_iff)
qed

lemma mesh_remove_err:
  assumes "mesh_inv t" "mesh_remove al t h = (Inl e, t')"
  shows "t' = t \<and> (mesh_view t h = None \<or> \<not> al 0)"
  using assms release_slot_err [of al "mesh_slots t" "mesh_free t" h] mesh_view_eq [OF assms(1), of h]
  by (auto simp: mesh_remove_def split: sum.splits prod.splits)

interpretation meshes: handle_table mesh_inv mesh_view mesh_insert mesh_remove
  by unfold_locales (assumption | rule mesh_insert_ok mesh_insert_err mesh_remove_ok mesh_remove_err)+

section \<open>Properties\<close>

lemma mesh_inv_new:
  "n \<le> u32_max \<Longrightarrow> mesh_table_try_with_capacity al n nv ni = Inr t \<Longrightarrow> mesh_inv t \<and> mesh_view t = Map.empty"
  by (auto simp: mesh_table_try_with_capacity_def mesh_inv_def slots_inv_def slot_view_eq fun_eq_iff ran_def mesh_view_def
      mesh_get_def slot_get_def valid_slot_def vec_get_def split: if_splits sum.splits)

section \<open>Removed handles\<close>

text \<open>
  The generation of a slot walks through the \<open>2^32 - 1\<close> nonzero values, so it comes back to that of a removed handle only
  after that many releases of the slot.
\<close>

lemma next_generation_position:
  assumes "g \<noteq> 0"
  shows "unat (r3_next_generation g) = unat g mod 4294967295 + 1"
proof -
  have "unat g < 4294967296" "unat g \<noteq> 0" using unat_u32_less [of g] assms by (simp_all add: unsigned_eq_0_iff)
  then consider "unat g = 4294967295" | "unat g < 4294967295" "unat g + 1 < 4294967296" by linarith
  then show ?thesis
  proof cases
    case 1
    then show ?thesis by (simp add: r3_next_generation_def wchecked_add_def)
  next
    case 2
    then have "unat (g + 1) = unat g + 1" by (simp add: unat_word_ariths)
    moreover from this have "g + 1 \<noteq> 0" by (metis Suc_eq_plus1 nat.distinct(1) unat_0)
    ultimately show ?thesis using 2 by (simp add: r3_next_generation_def wchecked_add_def)
  qed
qed

lemma generation_after:
  assumes "g \<noteq> 0"
  shows "(r3_next_generation ^^ j) g \<noteq> 0 \<and> unat ((r3_next_generation ^^ j) g) = (unat g - 1 + j) mod 4294967295 + 1"
proof (induction j)
  case 0
  have "unat g < 4294967296" "unat g \<noteq> 0" using unat_u32_less [of g] assms by (simp_all add: unsigned_eq_0_iff)
  then show ?case using assms by simp
next
  case (Suc j)
  then have "unat (r3_next_generation ((r3_next_generation ^^ j) g)) = ((unat g - 1 + j) mod 4294967295 + 1) mod 4294967295 + 1"
    using next_generation_position by simp
  also have "\<dots> = (unat g - 1 + Suc j) mod 4294967295 + 1" by (simp add: mod_simps)
  finally show ?case by (simp add: r3_next_generation_nonzero)
qed

lemma generation_not_reused:
  assumes "g \<noteq> 0" "0 < j" "j < 4294967295"
  shows "(r3_next_generation ^^ j) g \<noteq> g"
proof
  assume eq: "(r3_next_generation ^^ j) g = g"
  have g: "unat g < 4294967296" "unat g \<noteq> 0" using unat_u32_less [of g] assms(1) by (simp_all add: unsigned_eq_0_iff)
  have "unat g = (unat g - 1 + j) mod 4294967295 + 1"
    using conjunct2 [OF generation_after [OF assms(1), of j]] unfolding eq .
  then have "(unat g - 1 + j) mod 4294967295 = unat g - 1" by linarith
  moreover have "unat g - 1 = (unat g - 1 + 0) mod 4294967295" using g by simp
  ultimately have "(unat g - 1 + j) mod 4294967295 = (unat g - 1 + 0) mod 4294967295" by (rule trans)
  then show False using mod_add_inj [of "unat g - 1" j 4294967295 0] assms(2,3) by simp
qed

text \<open>The handle's slot has been released at least once and at most \<open>k\<close> times since the handle was valid.\<close>

definition spent :: "nat \<Rightarrow> handle \<Rightarrow> 'r slot list \<Rightarrow> bool" where
  "spent k h sl \<longleftrightarrow> unat (h_index h) < length sl
     \<and> (\<exists>j. 0 < j \<and> j \<le> k \<and> slot_generation (sl ! unat (h_index h)) = (r3_next_generation ^^ j) (h_generation h))"

lemma spent_view:
  assumes "spent k h sl" "k < 4294967295" "handle_is_valid h"
  shows "slot_get sl h = Inl InvalidHandle"
proof -
  obtain j where j: "0 < j" "j \<le> k" "slot_generation (sl ! unat (h_index h)) = (r3_next_generation ^^ j) (h_generation h)"
    "unat (h_index h) < length sl" using assms(1) by (auto simp: spent_def)
  then have "slot_generation (sl ! unat (h_index h)) \<noteq> h_generation h"
    using generation_not_reused [of "h_generation h" j] assms(2,3) by (simp add: handle_is_valid_def)
  then show ?thesis using assms(3) j(4) by (simp add: slot_get_def valid_slot_def vec_get_def)
qed

lemma spent_take:
  "take_slot al sl fr = Inr (i, sl', fr') \<Longrightarrow> vec_get sl' (unat i) = Some s \<Longrightarrow> spent k h sl \<Longrightarrow> spent k h (sl'[unat i := s\<lparr>slot_record := r\<rparr>])"
  by (auto simp: take_slot_def spent_def vec_get_def nth_append nth_list_update split: option.splits if_splits prod.splits)

lemma spent_mono: "spent k h sl \<Longrightarrow> k \<le> l \<Longrightarrow> spent l h sl"
  by (auto simp: spent_def)

lemma spent_release:
  assumes "release_slot al sl fr g = Inr (r, sl', fr')" "spent k h sl"
  shows "spent (Suc k) h sl'"
proof -
  obtain j where j: "0 < j" "j \<le> k" "slot_generation (sl ! unat (h_index h)) = (r3_next_generation ^^ j) (h_generation h)"
    "unat (h_index h) < length sl" using assms(2) by (auto simp: spent_def)
  have sl': "sl' = sl[unat (h_index g) := \<lparr>slot_generation = r3_next_generation (slot_generation (sl ! unat (h_index g))), slot_record = None\<rparr>]"
    using assms(1) by (auto simp: release_slot_def valid_slot_def vec_get_def split: if_splits option.splits)
  show ?thesis
  proof (cases "unat (h_index g) = unat (h_index h)")
    case True
    then have "slot_generation (sl' ! unat (h_index h)) = (r3_next_generation ^^ Suc j) (h_generation h)" using sl' j(3,4) by simp
    then show ?thesis unfolding spent_def using j sl' by (intro conjI exI [of _ "Suc j"]) simp_all
  next
    case False
    then show ?thesis using j sl' by (auto simp: spent_def intro!: exI [of _ j])
  qed
qed

lemma released_spent: "release_slot al sl fr h = Inr (r, sl', fr') \<Longrightarrow> spent 1 h sl' \<and> handle_is_valid h"
  by (auto simp: release_slot_def valid_slot_def vec_get_def spent_def split: if_splits option.splits intro!: exI [of _ 1])

lemma exec_spent:
  assumes "spent k h (mesh_slots t)"
  shows "spent (Suc k) h (mesh_slots (snd (table_exec mesh_insert mesh_remove p t)))"
proof (cases p)
  case (TableInsert al x)
  obtain vb stride ib bounds where x: "x = (vb, stride, ib, bounds)" by (cases x)
  have store: "spent k h (mesh_slots (snd (mesh_store al t vb ib rec)))" for rec
    using assms spent_take [of al "mesh_slots t" "mesh_free t" _ _ _ _ k h "Some rec"]
    by (auto simp: mesh_store_def take_slot_def spent_def nth_append split: sum.splits option.splits if_splits)
  have "spent k h (mesh_slots (snd (mesh_insert al t x)))"
    using assms store by (auto simp: mesh_insert_def x mesh_try_insert_def split: sum.splits option.splits)
  then have "spent (Suc k) h (mesh_slots (snd (mesh_insert al t x)))" by (rule spent_mono) simp
  then show ?thesis using TableInsert by (auto split: prod.splits sum.splits)
next
  case (TableRemove al g)
  have "spent (Suc k) h (mesh_slots (snd (mesh_remove al t g)))"
    using assms spent_release [of al "mesh_slots t" "mesh_free t" g _ _ _ k h] spent_mono [of k h _ "Suc k"]
    by (auto simp: mesh_remove_def split: sum.splits)
  then show ?thesis using TableRemove by (auto split: prod.splits sum.splits)
qed

lemma run_spent:
  "spent k h (mesh_slots t) \<Longrightarrow> spent (k + length ops) h (mesh_slots (snd (table_run mesh_insert mesh_remove ops t)))"
proof (induction ops arbitrary: k t)
  case (Cons p ps)
  then have "spent (Suc k) h (mesh_slots (snd (table_exec mesh_insert mesh_remove p t)))" by (intro exec_spent)
  from Cons.IH [OF this] show ?case by (auto simp: Let_def split: prod.splits)
qed simp

lemma removed_stays_removed:
  assumes "mesh_remove al t h = (Inr r, t')" "length ops < 2 ^ 32 - 2"
  shows "mesh_get (snd (table_run mesh_insert mesh_remove ops t')) h = Inl InvalidHandle"
proof -
  obtain sl fr where rs: "release_slot al (mesh_slots t) (mesh_free t) h = Inr (r, sl, fr)" "t' = t\<lparr>mesh_slots := sl, mesh_free := fr\<rparr>"
    using assms(1) by (auto simp: mesh_remove_def split: sum.splits prod.splits)
  have "spent 1 h (mesh_slots t')" "handle_is_valid h" using released_spent [OF rs(1)] rs(2) by simp_all
  then show ?thesis
    unfolding mesh_get_def using spent_view [OF run_spent [of 1 h t' ops]] assms(2) by simp
qed

text \<open>
  C26: The mesh table is a map from handles to meshes, and removed handles are refused. After any sequence of insertions and
  removals, whatever the allocator answers, the table holds exactly the meshes that were inserted and not
  removed: reading a handle's stride, bounds, vertex bytes and index bytes gives back what was
  inserted under it, all other handles are refused, and a handle is only given out when it is not in use.
  A handle that has been removed is refused by \<open>get\<close> after any further operations, also when its slot has been given out again,
  as long as they are fewer than \<open>2^32 - 2\<close>, after which a generation can come back.
\<close>

theorem mesh_table_is_map:
  assumes "n \<le> u32_max" "mesh_table_try_with_capacity al n nv ni = Inr t"
  shows "mesh_view (snd (table_run mesh_insert mesh_remove ops t)) = table_replay ops (fst (table_run mesh_insert mesh_remove ops t)) Map.empty
     \<and> mesh_inv (snd (table_run mesh_insert mesh_remove ops t))
     \<and> (\<forall>al' x h t'. mesh_insert al' (snd (table_run mesh_insert mesh_remove ops t)) x = (Inr h, t') \<longrightarrow>
          mesh_view (snd (table_run mesh_insert mesh_remove ops t)) h = None \<and> mesh_view t' h = Some x)
     \<and> (\<forall>al' h r t' later. mesh_remove al' (snd (table_run mesh_insert mesh_remove ops t)) h = (Inr r, t') \<and> length later < 2 ^ 32 - 2 \<longrightarrow>
          mesh_get (snd (table_run mesh_insert mesh_remove later t')) h = Inl InvalidHandle)"
proof -
  let ?u = "snd (table_run mesh_insert mesh_remove ops t)"
  have new: "mesh_inv t" "mesh_view t = Map.empty" using mesh_inv_new [OF assms] by blast+
  have run: "mesh_inv ?u" "mesh_view ?u = table_replay ops (fst (table_run mesh_insert mesh_remove ops t)) Map.empty"
    using meshes.exec_all_map [OF new(1), of ops] unfolding new(2) by blast+
  have "mesh_view ?u h = None \<and> mesh_view t' h = Some x" if "mesh_insert al' ?u x = (Inr h, t')" for al' x h t'
    using meshes.ins_ok [OF run(1) that] by simp
  with run show ?thesis using removed_stays_removed by blast
qed

definition triangle :: mesh_content where
  "triangle = (replicate 36 1, 12, replicate 12 2, replicate 4 f32_zero)"

definition sample_table :: mesh_table where
  "sample_table = \<lparr>mesh_slots = [], mesh_free = [], vertex_data = [], index_data = [], max_meshes = 2,
     max_vertex_bytes = 64, max_index_bytes = 64\<rparr>"

theorem mesh_table_is_map_witness:
  "mesh_view (snd (table_run mesh_insert mesh_remove [TableInsert (\<lambda>_. True) triangle] sample_table)) = [\<lparr>h_index = 0, h_generation = 1\<rparr> \<mapsto> triangle]
   \<and> mesh_get (snd (table_run mesh_insert mesh_remove [TableInsert (\<lambda>_. True) triangle]
       (snd (mesh_remove (\<lambda>_. True) (snd (table_run mesh_insert mesh_remove [TableInsert (\<lambda>_. True) triangle] sample_table))
          \<lparr>h_index = 0, h_generation = 1\<rparr>)))) \<lparr>h_index = 0, h_generation = 1\<rparr> = Inl InvalidHandle"
proof -
  let ?ins = "[TableInsert (\<lambda>_. True) triangle]"
  let ?h = "\<lparr>h_index = 0, h_generation = 1\<rparr>" let ?u = "snd (table_run mesh_insert mesh_remove ?ins sample_table)"
  have t: "mesh_table_try_with_capacity (\<lambda>_. True) 2 64 64 = Inr sample_table" "2 \<le> u32_max"
    by (simp_all add: mesh_table_try_with_capacity_def sample_table_def u32_max_def)
  have v: "validate_mesh_input (replicate 36 1) 12 (replicate 12 2) (replicate 4 f32_zero) = Inr ()"
    by (simp add: validate_mesh_input_def f32_lt_def list_all_iff)
  obtain u where ins: "mesh_insert (\<lambda>_. True) sample_table triangle = (Inr ?h, u)"
    and u: "\<exists>rec. mesh_slots u = [\<lparr>slot_generation = 1, slot_record = Some rec\<rparr>]"
    using v by (simp add: mesh_insert_def triangle_def mesh_try_insert_def mesh_len_def sample_table_def checked_add_def
        usize_max_def make_mesh_record_def u32_max_def mesh_store_def take_slot_def vec_get_def initial_generation_def)
  then have run: "?u = u" by simp
  note main = mesh_table_is_map [OF t(2,1), of ?ins]
  from u obtain r t' where rm: "mesh_remove (\<lambda>_. True) u ?h = (Inr r, t')"
    by (auto simp: mesh_remove_def release_slot_def valid_slot_def vec_get_def handle_is_valid_def)
  then have "mesh_get (snd (table_run mesh_insert mesh_remove ?ins t')) ?h = Inl InvalidHandle"
    using conjunct2 [OF conjunct2 [OF conjunct2 [OF main]]] unfolding run by (auto simp del: table_run.simps)
  then show ?thesis using ins rm conjunct1 [OF main] unfolding run by (simp del: table_run.simps) (simp split: prod.splits)
qed

lemma material_inv_new:
  "n \<le> u32_max \<Longrightarrow> material_table_try_with_capacity al n = Inr t \<Longrightarrow> material_inv t \<and> material_view t = Map.empty"
  by (auto simp: material_table_try_with_capacity_def material_inv_def slots_inv_def material_view_slots slot_view_eq
      fun_eq_iff split: if_splits)

text \<open>The same for materials, with the contents that insertion admits.\<close>

theorem material_table_is_map:
  assumes "n \<le> u32_max" "material_table_try_with_capacity al n = Inr t"
  shows "material_view (snd (table_run material_try_insert material_remove ops t)) = table_replay ops (fst (table_run material_try_insert material_remove ops t)) Map.empty
     \<and> material_inv (snd (table_run material_try_insert material_remove ops t))"
  using material_inv_new [OF assms] materials.exec_all_map [of t ops] by auto

end
