(* ===== verification/Input.thy ===== *)
theory Input
  imports Prelude
begin

text \<open>
  \<open>src/src/subsystems/input.rs\<close>: the snapshot of held keys, buttons, pointer and typed text, the queue of
  pending events, and the frame that a tick derives from two successive snapshots. The snapshot refines a
  set of held keys and a set of held buttons.
\<close>

type_synonym i32 = "32 word"

datatype input_event = KeyEvent u32 bool | MouseButton u8 bool | MouseMoved i32 i32 | TextEvent u8

record input_snapshot =
  keys :: "u32 list"
  mouse_buttons :: u16
  mouse_position :: "i32 \<times> i32"
  snap_text :: "u8 list"
  text_count :: u8

definition snapshot_default :: input_snapshot where
  "snapshot_default =
     \<lparr>keys = [], mouse_buttons = 0, mouse_position = (0, 0), snap_text = replicate 64 0, text_count = 0\<rparr>"

text \<open>\<open>binary_search\<close> on a sorted vector without duplicates: the index of the key, or where it would go.\<close>

definition binary_search :: "u32 list \<Rightarrow> u32 \<Rightarrow> nat + nat" where
  "binary_search ks k =
     (case position (\<lambda>x. x = k) ks of
        Some i \<Rightarrow> Inr i
      | None \<Rightarrow> Inl (length (takeWhile (\<lambda>x. x < k) ks)))"

definition key_down :: "input_snapshot \<Rightarrow> u32 \<Rightarrow> bool" where
  "key_down s k = (case binary_search (keys s) k of Inr _ \<Rightarrow> True | Inl _ \<Rightarrow> False)"

definition mouse_button_down :: "input_snapshot \<Rightarrow> u8 \<Rightarrow> bool" where
  "mouse_button_down s b \<longleftrightarrow> unat b < 16 \<and> mouse_buttons s AND push_bit (unat b) 1 \<noteq> 0"

definition typed :: "input_snapshot \<Rightarrow> u8 list" where
  "typed s = take (unat (text_count s)) (snap_text s)"

text \<open>\<open>None\<close> is the failed reservation.\<close>

definition apply_key :: "bool \<Rightarrow> u32 \<Rightarrow> bool \<Rightarrow> input_snapshot \<Rightarrow> input_snapshot option" where
  "apply_key ok k pressed s =
     (case (pressed, binary_search (keys s) k) of
        (True, Inl i) \<Rightarrow> if ok then Some (s\<lparr>keys := take i (keys s) @ k # drop i (keys s)\<rparr>) else None
      | (False, Inr i) \<Rightarrow> Some (s\<lparr>keys := take i (keys s) @ drop (Suc i) (keys s)\<rparr>)
      | _ \<Rightarrow> Some s)"

fun snapshot_try_apply :: "bool \<Rightarrow> input_event \<Rightarrow> input_snapshot \<Rightarrow> input_snapshot option" where
  "snapshot_try_apply ok (KeyEvent k pressed) s = apply_key ok k pressed s"
| "snapshot_try_apply ok (MouseButton b pressed) s =
     Some (if unat b < 16
           then (let mask = push_bit (unat b) 1
                 in s\<lparr>mouse_buttons := (if pressed then mouse_buttons s OR mask else mouse_buttons s AND NOT mask)\<rparr>)
           else s)"
| "snapshot_try_apply ok (MouseMoved x y) s = Some (s\<lparr>mouse_position := (x, y)\<rparr>)"
| "snapshot_try_apply ok (TextEvent b) s =
     Some (let i = unat (text_count s)
           in if i < length (snap_text s)
              then s\<lparr>snap_text := (snap_text s)[i := b], text_count := (if text_count s = 255 then 255 else text_count s + 1)\<rparr>
              else s)"

record headless_input =
  pending :: "input_event list"
  current :: input_snapshot

definition input_try_push :: "bool \<Rightarrow> input_event \<Rightarrow> headless_input \<Rightarrow> headless_input option" where
  "input_try_push ok e h = (if ok then Some (h\<lparr>pending := pending h @ [e]\<rparr>) else None)"

text \<open>The loop of \<open>try_advance\<close>: an event leaves the queue only after it was applied. \<open>al\<close> answers one
  reservation per event.\<close>

fun advance_loop :: "alloc \<Rightarrow> nat \<Rightarrow> input_event list \<Rightarrow> input_snapshot \<Rightarrow> bool \<times> headless_input" where
  "advance_loop al k [] s = (True, \<lparr>pending = [], current = s\<rparr>)"
| "advance_loop al k (e # es) s =
     (case snapshot_try_apply (al k) e s of
        None \<Rightarrow> (False, \<lparr>pending = e # es, current = s\<rparr>)
      | Some s' \<Rightarrow> advance_loop al (Suc k) es s')"

definition input_try_advance :: "alloc \<Rightarrow> headless_input \<Rightarrow> bool \<times> headless_input" where
  "input_try_advance al h = advance_loop al 0 (pending h) ((current h)\<lparr>text_count := 0\<rparr>)"

definition input_advance :: "alloc \<Rightarrow> headless_input \<Rightarrow> headless_input run" where
  "input_advance al h = (case input_try_advance al h of (True, h') \<Rightarrow> Ret h' | (False, _) \<Rightarrow> Panic)"

section \<open>The frame of a tick\<close>

record input_frame =
  mouse_x :: i32
  mouse_y :: i32
  f_mouse_buttons :: u16
  pressed_buttons :: u16
  released_buttons :: u16
  key_count :: u8
  f_keys :: "u32 list"
  pressed_key_count :: u8
  pressed_keys :: "u32 list"
  released_key_count :: u8
  released_keys :: "u32 list"
  f_text_count :: u8
  f_text :: "u8 list"

record input_subsystem =
  inp :: headless_input
  previous_mouse_buttons :: u16
  previous_keys :: "u32 list"

definition input_default :: input_subsystem where
  "input_default = \<lparr>inp = \<lparr>pending = [], current = snapshot_default\<rparr>, previous_mouse_buttons = 0, previous_keys = []\<rparr>"

definition buttons_of :: "input_snapshot \<Rightarrow> u16" where
  "buttons_of s = fold (\<lambda>b w. if mouse_button_down s (of_nat b) then w OR push_bit b 1 else w) [0..<16] 0"

text \<open>The two loops that fill an array of 32 keys with the keys that are not in \<open>other\<close>.\<close>

definition collect_key :: "u32 list \<Rightarrow> u32 \<Rightarrow> u32 list \<times> nat \<Rightarrow> u32 list \<times> nat" where
  "collect_key other k = (\<lambda>(out, n). if k \<notin> set other \<and> n < length out then (out[n := k], Suc n) else (out, n))"

definition keys_not_in :: "u32 list \<Rightarrow> u32 list \<Rightarrow> u32 list \<times> nat" where
  "keys_not_in other ks = fold (collect_key other) ks (replicate 32 0, 0)"

text \<open>A prefix of a slice copied into a zeroed array.\<close>

definition filled :: "nat \<Rightarrow> 'a::zero list \<Rightarrow> 'a list" where
  "filled n xs = take n xs @ replicate (n - length xs) 0"

definition input_frame_of :: "input_snapshot \<Rightarrow> u16 \<Rightarrow> u32 list \<Rightarrow> input_frame" where
  "input_frame_of s previous_buttons previous_ks =
     (let buttons = buttons_of s;
          (pressed, np) = keys_not_in previous_ks (keys s);
          (released, nr) = keys_not_in (keys s) previous_ks
      in \<lparr>mouse_x = fst (mouse_position s), mouse_y = snd (mouse_position s), f_mouse_buttons = buttons,
          pressed_buttons = buttons AND NOT previous_buttons, released_buttons = previous_buttons AND NOT buttons,
          key_count = of_nat (min (length (keys s)) 32), f_keys = filled 32 (keys s),
          pressed_key_count = of_nat np, pressed_keys = pressed,
          released_key_count = of_nat nr, released_keys = released,
          f_text_count = of_nat (length (typed s)), f_text = filled 64 (typed s)\<rparr>)"

text \<open>The part of \<open>tick\<close> between the inbox and the sends.\<close>

definition input_step :: "alloc \<Rightarrow> input_subsystem \<Rightarrow> (input_frame \<times> input_subsystem) run" where
  "input_step al st =
     run_bind (input_advance al (inp st)) (\<lambda>h.
       let s = current h; frame = input_frame_of s (previous_mouse_buttons st) (previous_keys st)
       in Ret (frame, \<lparr>inp = h, previous_mouse_buttons = buttons_of s, previous_keys = keys s\<rparr>))"

section \<open>The snapshot refines sets\<close>

definition sorted_keys :: "u32 list \<Rightarrow> bool" where
  "sorted_keys ks \<longleftrightarrow> sorted_wrt (<) ks"

definition snapshot_ok :: "input_snapshot \<Rightarrow> bool" where
  "snapshot_ok s \<longleftrightarrow> sorted_keys (keys s) \<and> length (snap_text s) = 64 \<and> unat (text_count s) \<le> 64"

fun held_after :: "input_event \<Rightarrow> u32 set \<Rightarrow> u32 set" where
  "held_after (KeyEvent k p) h = (if p then insert k h else h - {k})"
| "held_after e h = h"

fun buttons_after :: "input_event \<Rightarrow> nat set \<Rightarrow> nat set" where
  "buttons_after (MouseButton b p) h = (if unat b < 16 then if p then insert (unat b) h else h - {unat b} else h)"
| "buttons_after e h = h"

fun text_after :: "input_event \<Rightarrow> u8 list \<Rightarrow> u8 list" where
  "text_after (TextEvent b) t = (if length t < 64 then t @ [b] else t)"
| "text_after e t = t"

definition held_buttons :: "u16 \<Rightarrow> nat set" where
  "held_buttons w = {b. bit w b}"

lemma sorted_keys_simps [simp]:
  "sorted_keys []" "sorted_keys (k # ks) \<longleftrightarrow> (\<forall>x\<in>set ks. k < x) \<and> sorted_keys ks"
  by (simp_all add: sorted_keys_def)

lemma binary_search_Cons:
  "binary_search (x # ks) k =
     (if x = k then Inr 0 else case binary_search ks k of Inr i \<Rightarrow> Inr (Suc i) | Inl i \<Rightarrow> Inl (if x < k then Suc i else 0))"
  by (auto simp: binary_search_def split: option.splits)

lemma binary_search_Inr: "binary_search ks k = Inr i \<Longrightarrow> i < length ks \<and> ks ! i = k"
  by (auto simp: binary_search_def position_Some split: option.splits)

lemma binary_search_Inl: "binary_search ks k = Inl i \<Longrightarrow> k \<notin> set ks"
  by (auto simp: binary_search_def position_None split: option.splits)

lemma insert_key:
  assumes "sorted_keys ks" "binary_search ks k = Inl i"
  shows "sorted_keys (take i ks @ k # drop i ks) \<and> set (take i ks @ k # drop i ks) = insert k (set ks)"
  using assms
proof (induction ks arbitrary: i)
  case (Cons x ks)
  have ne: "x \<noteq> k" using binary_search_Inl [OF Cons.prems(2)] by auto
  then obtain j where j: "binary_search ks k = Inl j" "i = (if x < k then Suc j else 0)"
    using Cons.prems(2) by (auto simp: binary_search_Cons split: sum.splits)
  show ?case
  proof (cases "x < k")
    case True
    then show ?thesis using Cons.IH [OF _ j(1)] Cons.prems(1) j(2)
      by (auto dest: in_set_takeD in_set_dropD)
  next
    case False
    then have "k < x" using ne by simp
    then show ?thesis using Cons.prems(1) j(2) False by (auto dest: less_trans)
  qed
qed (simp add: binary_search_def)

lemma remove_key:
  assumes "sorted_keys ks" "binary_search ks k = Inr i"
  shows "sorted_keys (take i ks @ drop (Suc i) ks) \<and> set (take i ks @ drop (Suc i) ks) = set ks - {k}"
  using assms
proof (induction ks arbitrary: i)
  case (Cons x ks)
  show ?case
  proof (cases "x = k")
    case True
    then show ?thesis using Cons.prems by (auto simp: binary_search_Cons)
  next
    case False
    then obtain j where j: "binary_search ks k = Inr j" "i = Suc j"
      using Cons.prems(2) by (auto simp: binary_search_Cons split: sum.splits)
    then show ?thesis using Cons.IH [OF _ j(1)] Cons.prems(1) False
      by (auto dest: in_set_takeD in_set_dropD)
  qed
qed (simp add: binary_search_def)

lemma apply_key_spec:
  assumes "sorted_keys (keys s)" "apply_key ok k p s = Some s'"
  shows "\<exists>ks. s' = s\<lparr>keys := ks\<rparr> \<and> sorted_keys ks \<and> set ks = (if p then insert k (set (keys s)) else set (keys s) - {k})"
proof (cases "binary_search (keys s) k")
  case (Inl i)
  show ?thesis
  proof (cases p)
    case True
    then have "s' = s\<lparr>keys := take i (keys s) @ k # drop i (keys s)\<rparr>"
      using assms(2) Inl by (simp add: apply_key_def split: if_splits)
    then show ?thesis using insert_key [OF assms(1) Inl] True by auto
  next
    case False
    then show ?thesis using assms Inl binary_search_Inl [OF Inl] by (auto simp: apply_key_def intro!: exI [of _ "keys s"])
  qed
next
  case (Inr i)
  then have k: "k \<in> set (keys s)" using binary_search_Inr [OF Inr] by (metis nth_mem)
  show ?thesis
  proof (cases p)
    case True
    then show ?thesis using assms Inr k by (auto simp: apply_key_def intro!: exI [of _ "keys s"])
  next
    case False
    then have "s' = s\<lparr>keys := take i (keys s) @ drop (Suc i) (keys s)\<rparr>"
      using assms(2) Inr by (simp add: apply_key_def)
    then show ?thesis using remove_key [OF assms(1) Inr] False by auto
  qed
qed

text \<open>What one event does to the sets, and that it fails only for want of memory.\<close>

lemma snapshot_apply_spec:
  assumes "snapshot_ok s" "snapshot_try_apply ok e s = Some s'"
  shows "snapshot_ok s' \<and> set (keys s') = held_after e (set (keys s))
     \<and> held_buttons (mouse_buttons s') = buttons_after e (held_buttons (mouse_buttons s)) \<and> typed s' = text_after e (typed s)"
proof (cases e)
  case (KeyEvent k p)
  then show ?thesis
    using apply_key_spec [of s ok k p s'] assms by (auto simp: snapshot_ok_def typed_def)
next
  case (MouseButton b p)
  then show ?thesis
    using assms by (auto simp: snapshot_ok_def typed_def held_buttons_def bit_or_push_bit_1 bit_and_not_push_bit_1 simp del: push_bit_of_1)
next
  case (TextEvent b)
  let ?i = "unat (text_count s)"
  show ?thesis
  proof (cases "?i < 64")
    case True
    then have "text_count s \<noteq> 255" by auto
    have "unat (text_count s + 1) = Suc ?i" using True by (simp add: unat_word_ariths)
    moreover have "take (Suc ?i) ((snap_text s)[?i := b]) = take ?i (snap_text s) @ [b]"
      using True assms(1) by (simp add: take_Suc_conv_app_nth snapshot_ok_def)
    ultimately show ?thesis using TextEvent assms True \<open>text_count s \<noteq> 255\<close> by (auto simp: snapshot_ok_def typed_def)
  next
    case False
    then show ?thesis using TextEvent assms by (auto simp: snapshot_ok_def typed_def)
  qed
qed (use assms in \<open>auto simp: snapshot_ok_def typed_def\<close>)

lemma snapshot_apply_total: "\<exists>s'. snapshot_try_apply True e s = Some s'"
  by (cases e) (auto simp: apply_key_def split: sum.splits bool.splits)

lemma advance_loop_spec:
  assumes "snapshot_ok s" "advance_loop al k es s = (b, h)"
  shows "\<exists>done_events. es = done_events @ pending h \<and> snapshot_ok (current h)
     \<and> set (keys (current h)) = fold held_after done_events (set (keys s))
     \<and> held_buttons (mouse_buttons (current h)) = fold buttons_after done_events (held_buttons (mouse_buttons s))
     \<and> typed (current h) = fold text_after done_events (typed s) \<and> (b \<longrightarrow> pending h = [])"
  using assms
proof (induction es arbitrary: k s)
  case (Cons e es)
  show ?case
  proof (cases "snapshot_try_apply (al k) e s")
    case None
    then show ?thesis using Cons.prems by auto
  next
    case (Some s')
    have l: "advance_loop al (Suc k) es s' = (b, h)" using Some Cons.prems by simp
    note sp = snapshot_apply_spec [OF Cons.prems(1) Some]
    obtain xs where "es = xs @ pending h" "snapshot_ok (current h)" "set (keys (current h)) = fold held_after xs (set (keys s'))"
      "held_buttons (mouse_buttons (current h)) = fold buttons_after xs (held_buttons (mouse_buttons s'))"
      "typed (current h) = fold text_after xs (typed s')" "b \<longrightarrow> pending h = []"
      using Cons.IH [OF conjunct1 [OF sp] l] by blast
    then show ?thesis using sp by (intro exI [of _ "e # xs"]) simp
  qed
qed auto

lemma advance_loop_total: "\<forall>i. al i \<Longrightarrow> fst (advance_loop al k es s)"
  by (induction es arbitrary: k s) (use snapshot_apply_total in \<open>auto split: option.splits\<close>)

lemma fold_text_after: "length t \<le> 64 \<Longrightarrow> fold text_after es t = take 64 (t @ concat (map (\<lambda>e. case e of TextEvent b \<Rightarrow> [b] | _ \<Rightarrow> []) es))"
proof (induction es arbitrary: t)
  case (Cons e es)
  show ?case
  proof (cases "length t < 64")
    case True
    then have "64 - length t = Suc (63 - length t)" by arith
    then show ?thesis using Cons True by (cases e) auto
  qed (use Cons in \<open>cases e; auto\<close>)
qed simp

section \<open>The keys and buttons of a frame\<close>

lemma collect_keys:
  assumes "n \<le> 32" "length pre = n"
  shows "fold (collect_key other) ks (pre @ replicate (32 - n) 0, n) =
     (let new = take (32 - n) (filter (\<lambda>k. k \<notin> set other) ks)
      in (pre @ new @ replicate (32 - n - length new) 0, n + length new))"
  using assms
proof (induction ks arbitrary: n pre)
  case (Cons k ks)
  show ?case
  proof (cases "k \<notin> set other \<and> n < 32")
    case True
    then have "32 - n = Suc (32 - Suc n)" by arith
    then have r: "replicate (32 - n) (0 :: u32) = 0 # replicate (32 - Suc n) 0"
      and t: "take (32 - n) (k # xs) = k # take (32 - Suc n) xs" for xs by (metis replicate_Suc, metis take_Suc_Cons)
    have "collect_key other k (pre @ replicate (32 - n) 0, n) = ((pre @ [k]) @ replicate (32 - Suc n) 0, Suc n)"
      using True Cons.prems by (simp add: collect_key_def r list_update_append)
    then show ?thesis using Cons.IH [of "Suc n" "pre @ [k]"] True Cons.prems by (simp add: t Let_def)
  next
    case False
    then have "collect_key other k (pre @ replicate (32 - n) 0, n) = (pre @ replicate (32 - n) 0, n)"
      using Cons.prems by (auto simp: collect_key_def)
    moreover have "take (32 - n) (filter (\<lambda>k. k \<notin> set other) (k # ks)) = take (32 - n) (filter (\<lambda>k. k \<notin> set other) ks)"
      using False Cons.prems by auto
    ultimately show ?thesis using Cons.IH [OF Cons.prems] by simp
  qed
qed simp

lemma keys_not_in_eq:
  "keys_not_in other ks =
     (filled 32 (filter (\<lambda>k. k \<notin> set other) ks), min 32 (length (filter (\<lambda>k. k \<notin> set other) ks)))"
  using collect_keys [of 0 "[]" other ks] by (simp add: keys_not_in_def filled_def Let_def min_def)

lemma fold_set_bits:
  assumes "\<forall>b\<in>set bs. b < 16"
  shows "bit (fold (\<lambda>b w. if P b then w OR push_bit b 1 else w) bs (w :: u16)) i \<longleftrightarrow> bit w i \<or> i \<in> set bs \<and> P i"
  using assms by (induction bs arbitrary: w) (auto simp: bit_or_push_bit_1 simp del: push_bit_of_1)

lemma buttons_of_eq: "buttons_of s = mouse_buttons s"
proof (rule bit_word_eqI)
  fix i :: nat assume "i < LENGTH(16)"
  then have i: "i < 16" by simp
  then have "unat (of_nat i :: u8) = i" by (simp add: unat_of_nat)
  then have "mouse_button_down s (of_nat i) \<longleftrightarrow> bit (mouse_buttons s) i"
    using i by (simp add: mouse_button_down_def and_push_bit_1_iff del: push_bit_of_1)
  then show "bit (buttons_of s) i \<longleftrightarrow> bit (mouse_buttons s) i"
    unfolding buttons_of_def using i by (subst fold_set_bits) auto
qed

lemma sorted_keys_filter: "sorted_keys ks \<Longrightarrow> sorted_keys (filter P ks)"
  by (simp add: sorted_keys_def sorted_wrt_filter)

lemma sorted_keys_unique: "sorted_keys ks \<Longrightarrow> sorted_list_of_set (set ks) = ks"
  unfolding sorted_keys_def by (simp add: strict_sorted_iff sorted_list_of_set.idem_if_sorted_distinct)

text \<open>A key list is the sorted list of its set, so the edges are those of the sets.\<close>

lemma edges_of_sets:
  assumes "sorted_keys ks"
  shows "filter (\<lambda>k. k \<notin> A) ks = sorted_list_of_set (set ks - A)"
  using sorted_keys_unique [OF sorted_keys_filter [OF assms, of "\<lambda>k. k \<notin> A"]] by (simp add: set_diff_eq)

section \<open>Properties\<close>

definition input_ok :: "input_subsystem \<Rightarrow> bool" where
  "input_ok st \<longleftrightarrow> snapshot_ok (current (inp st)) \<and> sorted_keys (previous_keys st)"

definition typed_bytes :: "input_event list \<Rightarrow> u8 list" where
  "typed_bytes es = concat (map (\<lambda>e. case e of TextEvent b \<Rightarrow> [b] | _ \<Rightarrow> []) es)"

lemma input_step_spec:
  assumes ok: "input_ok st" and al: "\<forall>k. al k"
  shows "\<exists>s. input_step al st = Ret (input_frame_of s (previous_mouse_buttons st) (previous_keys st),
       \<lparr>inp = \<lparr>pending = [], current = s\<rparr>, previous_mouse_buttons = mouse_buttons s, previous_keys = keys s\<rparr>)
     \<and> snapshot_ok s
     \<and> set (keys s) = fold held_after (pending (inp st)) (set (keys (current (inp st))))
     \<and> held_buttons (mouse_buttons s) = fold buttons_after (pending (inp st)) (held_buttons (mouse_buttons (current (inp st))))
     \<and> typed s = take 64 (typed_bytes (pending (inp st)))"
proof -
  let ?s0 = "(current (inp st))\<lparr>text_count := 0\<rparr>"
  obtain h where h: "advance_loop al 0 (pending (inp st)) ?s0 = (True, h)"
    using advance_loop_total [OF al, of 0 "pending (inp st)" ?s0] by (metis (full_types) prod.collapse)
  have "snapshot_ok ?s0" using ok by (simp add: input_ok_def snapshot_ok_def)
  from advance_loop_spec [OF this h] have sp: "pending h = []" "snapshot_ok (current h)"
    "set (keys (current h)) = fold held_after (pending (inp st)) (set (keys (current (inp st))))"
    "held_buttons (mouse_buttons (current h)) = fold buttons_after (pending (inp st)) (held_buttons (mouse_buttons (current (inp st))))"
    "typed (current h) = fold text_after (pending (inp st)) []"
    by (auto simp: typed_def)
  have "h = \<lparr>pending = [], current = current h\<rparr>" using sp(1) by simp
  with sp h show ?thesis
    by (intro exI [of _ "current h"])
      (auto simp: input_step_def input_advance_def input_try_advance_def buttons_of_eq fold_text_after typed_bytes_def Let_def)
qed

lemma take_filled: "take (min n (length xs)) (filled n xs) = take n xs"
  by (simp add: filled_def min_def)

lemma unat_small_u8: "n \<le> 64 \<Longrightarrow> unat (of_nat n :: u8) = n"
  by (simp add: unat_of_nat)

lemma held_buttons_and_not: "held_buttons (a AND NOT b) = held_buttons a - held_buttons b"
  by (auto simp: held_buttons_def bit_and_iff bit_not_iff dest: bit_imp_le_length)

lemma input_frame_fields:
  assumes "snapshot_ok s" "sorted_keys pk" "f = input_frame_of s pb pk"
  shows "take (unat (key_count f)) (f_keys f) = take 32 (sorted_list_of_set (set (keys s)))"
    "take (unat (pressed_key_count f)) (pressed_keys f) = take 32 (sorted_list_of_set (set (keys s) - set pk))"
    "take (unat (released_key_count f)) (released_keys f) = take 32 (sorted_list_of_set (set pk - set (keys s)))"
    "held_buttons (pressed_buttons f) = held_buttons (mouse_buttons s) - held_buttons pb"
    "held_buttons (released_buttons f) = held_buttons pb - held_buttons (mouse_buttons s)"
    "take (unat (f_text_count f)) (f_text f) = typed s"
proof -
  have sk: "sorted_keys (keys s)" and tl64: "length (typed s) \<le> 64" using assms(1) by (auto simp: snapshot_ok_def typed_def)
  have u: "unat (of_nat (min 32 n) :: u8) = min 32 n" "unat (of_nat (min n 32) :: u8) = min 32 n" for n
    by (simp_all add: unat_small_u8 min.commute)
  note defs = assms(3) input_frame_of_def keys_not_in_eq Let_def buttons_of_eq
  show "take (unat (key_count f)) (f_keys f) = take 32 (sorted_list_of_set (set (keys s)))"
    using sorted_keys_unique [OF sk] by (simp add: defs u take_filled)
  show "take (unat (pressed_key_count f)) (pressed_keys f) = take 32 (sorted_list_of_set (set (keys s) - set pk))"
    by (simp add: defs u take_filled) (subst edges_of_sets [OF sk], rule refl)
  show "take (unat (released_key_count f)) (released_keys f) = take 32 (sorted_list_of_set (set pk - set (keys s)))"
    by (simp add: defs u take_filled) (subst edges_of_sets [OF assms(2)], rule refl)
  show "held_buttons (pressed_buttons f) = held_buttons (mouse_buttons s) - held_buttons pb"
    "held_buttons (released_buttons f) = held_buttons pb - held_buttons (mouse_buttons s)"
    by (simp_all add: defs held_buttons_and_not)
  show "take (unat (f_text_count f)) (f_text f) = typed s"
    using tl64 by (simp add: defs unat_small_u8 filled_def)
qed

text \<open>A tick reports exactly the edges between two snapshots. Starting from a state in which the held keys are
  kept sorted, and when memory can be allocated, a tick applies every pending event in order, so that a key or a
  button is held exactly when its last event pressed it, and the frame it sends lists in ascending order the (first
  32) keys now held, the ones that went down since the last tick and the ones that went up, the buttons that went
  down and up, and the first 64 bytes typed in this tick.\<close>

theorem input_frame_exact:
  assumes "input_ok st" "\<forall>k. al k"
    and "held = fold held_after (pending (inp st)) (set (keys (current (inp st))))"
    and "buttons = fold buttons_after (pending (inp st)) (held_buttons (mouse_buttons (current (inp st))))"
  shows "\<exists>f st'. input_step al st = Ret (f, st') \<and> input_ok st' \<and> pending (inp st') = []
     \<and> set (keys (current (inp st'))) = held \<and> set (previous_keys st') = held
     \<and> take (unat (key_count f)) (f_keys f) = take 32 (sorted_list_of_set held)
     \<and> take (unat (pressed_key_count f)) (pressed_keys f) = take 32 (sorted_list_of_set (held - set (previous_keys st)))
     \<and> take (unat (released_key_count f)) (released_keys f) = take 32 (sorted_list_of_set (set (previous_keys st) - held))
     \<and> held_buttons (pressed_buttons f) = buttons - held_buttons (previous_mouse_buttons st)
     \<and> held_buttons (released_buttons f) = held_buttons (previous_mouse_buttons st) - buttons
     \<and> take (unat (f_text_count f)) (f_text f) = take 64 (typed_bytes (pending (inp st)))"
proof -
  obtain s where s: "input_step al st = Ret (input_frame_of s (previous_mouse_buttons st) (previous_keys st),
       \<lparr>inp = \<lparr>pending = [], current = s\<rparr>, previous_mouse_buttons = mouse_buttons s, previous_keys = keys s\<rparr>)"
    "snapshot_ok s" "set (keys s) = held" "held_buttons (mouse_buttons s) = buttons"
    "typed s = take 64 (typed_bytes (pending (inp st)))"
    using input_step_spec [OF assms(1,2)] assms(3,4) by blast
  have "sorted_keys (previous_keys st)" "sorted_keys (keys s)"
    using assms(1) s(2) by (simp_all add: input_ok_def snapshot_ok_def)
  with s input_frame_fields [OF s(2) this(1) refl, of "previous_mouse_buttons st"] show ?thesis
    by (simp add: input_ok_def)
qed

theorem input_frame_exact_witness:
  "\<exists>f st'. input_step (\<lambda>_. True) (input_default\<lparr>inp := \<lparr>pending = [KeyEvent 7 True, TextEvent 65], current = snapshot_default\<rparr>\<rparr>) =
       Ret (f, st') \<and> set (keys (current (inp st'))) = {7} \<and> take (unat (f_text_count f)) (f_text f) = [65]"
proof -
  let ?st = "input_default\<lparr>inp := \<lparr>pending = [KeyEvent 7 True, TextEvent 65], current = snapshot_default\<rparr>\<rparr>"
  have "input_ok ?st" by (simp add: input_ok_def input_default_def snapshot_ok_def snapshot_default_def)
  from input_frame_exact [OF this, of "\<lambda>_. True" "{7}" "{}"] show ?thesis
    by (auto simp: snapshot_default_def held_buttons_def typed_bytes_def)
qed

text \<open>When a reservation fails, nothing is lost: the events applied so far have left the queue, the one that failed
  and those behind it have not.\<close>

theorem advance_keeps_unapplied:
  assumes "input_ok st" "input_try_advance al (inp st) = (b, h)"
  shows "\<exists>applied. pending (inp st) = applied @ pending h \<and> snapshot_ok (current h)
     \<and> set (keys (current h)) = fold held_after applied (set (keys (current (inp st)))) \<and> (b \<longrightarrow> pending h = [])"
  using advance_loop_spec [of "(current (inp st))\<lparr>text_count := 0\<rparr>" al 0 "pending (inp st)" b h] assms
  by (auto simp: input_try_advance_def input_ok_def snapshot_ok_def)

end
