(* ===== verification/Ui_Content.thy ===== *)
theory Ui_Content
  imports Float32
begin

text \<open>
  The values the retained UI is made of: identifiers (\<open>ui/id.rs\<close>), quotas and errors
  (\<open>ui/budget.rs\<close>), and the content of a node with its style, rectangle, text and interaction flags
  (\<open>ui/components.rs\<close>), all under \<open>src/src/subsystems\<close>.
\<close>

section \<open>Identifiers, quotas and errors\<close>

record ui_id =
  index :: u32
  generation :: u32

definition ui_id_new :: "u32 \<Rightarrow> u32 \<Rightarrow> ui_id" where
  "ui_id_new i g = \<lparr>index = i, generation = g\<rparr>"

type_synonym ui_node_id = ui_id
type_synonym texture_id = ui_id
type_synonym font_id = ui_id

abbreviation slot_of :: "ui_id \<Rightarrow> nat" where
  "slot_of i \<equiv> unat (index i)"

record ui_config =
  max_nodes :: nat
  max_depth :: nat
  max_text_bytes :: nat
  max_glyphs :: nat
  max_clips :: nat
  max_paint_items :: nat
  max_batches :: nat
  max_commands :: nat
  max_upload_bytes :: nat
  max_layout_iterations :: u8
  dpi_scale :: f32

definition ui_config_default :: ui_config where
  "ui_config_default =
     \<lparr>max_nodes = 4096, max_depth = 128, max_text_bytes = 2 ^ 20, max_glyphs = 2 ^ 20, max_clips = 8192,
      max_paint_items = 8192, max_batches = 4096, max_commands = 4096, max_upload_bytes = 16 * 2 ^ 20,
      max_layout_iterations = 8, dpi_scale = f32_of_int 1\<rparr>"

datatype ui_error =
  CapacityExceeded | AllocationFailed | InvalidNode | InvalidParent | Cycle | DepthExceeded | InvalidValue
  | LayoutDidNotConverge | OutputTooSmall | IndexOverflow | ResourceUnavailable

record ui_diagnostics =
  dirty_nodes :: nat
  layout_passes :: nat
  d_paint_items :: nat
  d_batches :: nat
  d_glyphs :: nat
  uploaded_bytes :: nat
  clipped_items :: nat
  overflow_fallbacks :: nat

definition record_error :: "ui_diagnostics \<Rightarrow> ui_diagnostics" where
  "record_error d = d\<lparr>overflow_fallbacks := sat_add (overflow_fallbacks d) 1\<rparr>"

section \<open>Lengths, edges and rectangles\<close>

datatype ui_length = Auto | Points f32 | Percent f32

definition resolve :: "ui_length \<Rightarrow> f32 \<Rightarrow> f32 option" where
  "resolve l available =
     (if \<not> is_finite available \<or> f32_lt available f32_zero then None
      else case l of
        Auto \<Rightarrow> None
      | Points v \<Rightarrow> if is_finite v \<and> f32_le f32_zero v then Some v else None
      | Percent v \<Rightarrow>
          if is_finite v \<and> f32_le f32_zero v \<and> f32_le v (f32_of_int 100)
          then Some (f32_div (f32_mul available v) (f32_of_int 100)) else None)"

record ui_edges =
  left :: f32
  right :: f32
  top :: f32
  bottom :: f32

definition edges_all :: "f32 \<Rightarrow> ui_edges" where
  "edges_all v = \<lparr>left = v, right = v, top = v, bottom = v\<rparr>"

definition horizontal :: "ui_edges \<Rightarrow> f32" where
  "horizontal e = f32_add (left e) (right e)"

definition vertical :: "ui_edges \<Rightarrow> f32" where
  "vertical e = f32_add (top e) (bottom e)"

definition edges_sane :: "ui_edges \<Rightarrow> bool" where
  "edges_sane e \<longleftrightarrow> list_all (\<lambda>v. is_finite v \<and> f32_le f32_zero v) [left e, right e, top e, bottom e]"

record ui_rect =
  rx :: f32
  ry :: f32
  rwidth :: f32
  rheight :: f32

definition rect_zero :: ui_rect where
  "rect_zero = \<lparr>rx = f32_zero, ry = f32_zero, rwidth = f32_zero, rheight = f32_zero\<rparr>"

definition rect_right :: "ui_rect \<Rightarrow> f32" where
  "rect_right r = f32_add (rx r) (rwidth r)"

definition rect_bottom :: "ui_rect \<Rightarrow> f32" where
  "rect_bottom r = f32_add (ry r) (rheight r)"

definition rect_sane :: "ui_rect \<Rightarrow> bool" where
  "rect_sane r \<longleftrightarrow> list_all is_finite [rx r, ry r, rwidth r, rheight r, rect_right r, rect_bottom r]
     \<and> f32_le f32_zero (rwidth r) \<and> f32_le f32_zero (rheight r)"

definition rect_contains :: "ui_rect \<Rightarrow> f32 \<Rightarrow> f32 \<Rightarrow> bool" where
  "rect_contains r x y \<longleftrightarrow> rect_sane r \<and> f32_le (rx r) x \<and> f32_le (ry r) y \<and> f32_lt x (rect_right r)
     \<and> f32_lt y (rect_bottom r)"

definition rect_intersect :: "ui_rect \<Rightarrow> ui_rect \<Rightarrow> ui_rect" where
  "rect_intersect r s =
     (let l = f32_max (rx r) (rx s); t = f32_max (ry r) (ry s);
          rt = f32_min (rect_right r) (rect_right s); bt = f32_min (rect_bottom r) (rect_bottom s)
      in \<lparr>rx = l, ry = t, rwidth = f32_max (f32_sub rt l) f32_zero, rheight = f32_max (f32_sub bt t) f32_zero\<rparr>)"

definition rect_area :: "ui_rect \<Rightarrow> f32" where
  "rect_area r = f32_mul (rwidth r) (rheight r)"

section \<open>Styles and content\<close>

datatype ui_direction = Row | Column
datatype ui_align = Start | Center | End | Stretch
datatype ui_overflow = Visible | Clip | Scroll
datatype ui_position = Flow | Absolute f32 f32

record ui_style =
  swidth :: ui_length
  sheight :: ui_length
  min_width :: f32
  min_height :: f32
  max_width :: f32
  max_height :: f32
  margin :: ui_edges
  padding :: ui_edges
  gap :: f32
  direction :: ui_direction
  align :: ui_align
  position :: ui_position
  background :: "f32 list"
  gradient :: "(f32 list \<times> f32 list) option"
  border :: "f32 list"
  border_width :: f32
  corner_radius :: f32
  overflow :: ui_overflow
  scroll_x :: f32
  scroll_y :: f32

definition style_default :: ui_style where
  "style_default =
     \<lparr>swidth = Auto, sheight = Auto, min_width = f32_zero, min_height = f32_zero, max_width = f32_max_value,
      max_height = f32_max_value, margin = edges_all f32_zero, padding = edges_all f32_zero, gap = f32_zero,
      direction = Column, align = Stretch, position = Flow, background = replicate 4 f32_zero, gradient = None,
      border = replicate 4 f32_zero, border_width = f32_zero, corner_radius = f32_zero, overflow = Visible,
      scroll_x = f32_zero, scroll_y = f32_zero\<rparr>"

definition style_sane :: "ui_style \<Rightarrow> bool" where
  "style_sane s \<longleftrightarrow>
     edges_sane (margin s) \<and> edges_sane (padding s) \<and> is_finite (gap s) \<and> f32_le f32_zero (gap s)
   \<and> is_finite (min_width s) \<and> is_finite (min_height s) \<and> is_finite (max_width s) \<and> is_finite (max_height s)
   \<and> f32_le f32_zero (min_width s) \<and> f32_le f32_zero (min_height s)
   \<and> f32_le (min_width s) (max_width s) \<and> f32_le (min_height s) (max_height s)
   \<and> is_finite (border_width s) \<and> f32_le f32_zero (border_width s)
   \<and> (case position s of Flow \<Rightarrow> True | Absolute l t \<Rightarrow> is_finite l \<and> is_finite t)
   \<and> list_all is_finite (background s) \<and> list_all is_finite (border s)
   \<and> (case gradient s of None \<Rightarrow> True | Some (f, t) \<Rightarrow> list_all is_finite (f @ t))
   \<and> is_finite (corner_radius s) \<and> f32_le f32_zero (corner_radius s)
   \<and> is_finite (scroll_x s) \<and> is_finite (scroll_y s) \<and> f32_le f32_zero (scroll_x s) \<and> f32_le f32_zero (scroll_y s)"

datatype ui_node_kind = Root | Panel | Text | Image | Custom

datatype ui_accessibility_role =
  RoleNone | RoleButton | RoleLabel | RoleImage | RoleTextField | RoleWindow | RoleList | RoleListItem

text \<open>A string is the list of its scalar values; its length in bytes is that of its UTF-8 encoding.\<close>

record ui_text =
  text_value :: "u32 list"

definition utf8_len :: "u32 \<Rightarrow> nat" where
  "utf8_len c = (if c < 128 then 1 else if c < 2048 then 2 else if c < 65536 then 3 else 4)"

definition str_len :: "u32 list \<Rightarrow> nat" where
  "str_len cs = sum_list (map utf8_len cs)"

definition byte_len :: "ui_text \<Rightarrow> nat" where
  "byte_len t = str_len (text_value t)"

text \<open>The end of a string is always a character boundary, so only the length can be refused.\<close>

definition ui_text_try_new :: "alloc \<Rightarrow> u32 list \<Rightarrow> nat \<Rightarrow> ui_error + ui_text" where
  "ui_text_try_new al v max_bytes =
     (if str_len v > max_bytes then Inl CapacityExceeded
      else if \<not> al 0 then Inl AllocationFailed else Inr \<lparr>text_value = v\<rparr>)"

record ui_accessibility =
  role :: ui_accessibility_role
  label :: "ui_text option"
  hidden :: bool

record ui_image =
  texture :: texture_id
  iwidth :: u32
  iheight :: u32

record ui_interaction =
  focusable :: bool
  disabled :: bool
  hit_testable :: bool

definition interaction_default :: ui_interaction where
  "interaction_default = \<lparr>focusable = False, disabled = False, hit_testable = True\<rparr>"

record ui_content =
  ckind :: ui_node_kind
  style :: ui_style
  visible :: bool
  z_index :: "32 word"
  opacity :: f32
  ctext :: "ui_text option"
  image :: "ui_image option"
  font :: "font_id option"
  interaction :: ui_interaction
  accessibility :: ui_accessibility

definition content_new :: "ui_node_kind \<Rightarrow> ui_content" where
  "content_new k =
     \<lparr>ckind = k, style = style_default, visible = True, z_index = 0, opacity = f32_of_int 1, ctext = None,
      image = None, font = None, interaction = interaction_default,
      accessibility = \<lparr>role = RoleNone, label = None, hidden = False\<rparr>\<rparr>"

definition content_sane :: "ui_content \<Rightarrow> bool" where
  "content_sane c \<longleftrightarrow> style_sane (style c) \<and> is_finite (opacity c) \<and> f32_le f32_zero (opacity c)
     \<and> f32_le (opacity c) (f32_of_int 1)"

lemma list_all_replicate: "list_all P (replicate n x) \<longleftrightarrow> n = 0 \<or> P x"
  by (induction n) auto

lemma content_new_sane: "content_sane (content_new k)"
  by (simp add: content_sane_def content_new_def style_sane_def style_default_def edges_sane_def edges_all_def
      f32_max_value_def f32_of_int_def f32_one_units_def f32_round_def round_magnitude_def excess_bits.simps
      nearest_even_def Let_def list_all_replicate)

text \<open>The size of an intersection is never negative.\<close>

lemma rect_intersect_size:
  "f32_le f32_zero (rwidth (rect_intersect r s)) \<and> f32_le f32_zero (rheight (rect_intersect r s))"
  by (simp add: rect_intersect_def Let_def f32_max_zero)

end
