(* ===== verification/Ui_Tree.thy ===== *)
theory Ui_Tree
  imports Ui_Content
begin

text \<open>
  The retained UI tree, \<open>src/src/subsystems/ui/tree.rs\<close>: nodes in slots with generational handles, a free
  list, and parent and child links. The invariant says that the links form one tree under the root;
  it is what makes the unbounded loops of the source (walking up to the root, collecting a subtree)
  end, and what keeps the indexing of slots and generations from panicking.
\<close>

section \<open>State\<close>

record ui_node =
  nid :: ui_node_id
  nparent :: "ui_node_id option"
  children :: "ui_node_id list"
  content :: ui_content
  nrect :: ui_rect
  dirty :: bool

record ui_tree =
  slots :: "ui_node option list"
  generations :: "u32 list"
  free :: "u32 list"
  root :: ui_node_id
  count :: nat
  tconfig :: ui_config

definition ui_tree_try_new :: "alloc \<Rightarrow> ui_config \<Rightarrow> ui_error + ui_tree" where
  "ui_tree_try_new al c =
     (if max_nodes c = 0 \<or> max_depth c = 0 then Inl InvalidValue
      else let r = ui_id_new 0 1;
               n = \<lparr>nid = r, nparent = None, children = [], content = content_new Root, nrect = rect_zero, dirty = True\<rparr>
           in if \<not> al 0 \<or> \<not> al 1 then Inl AllocationFailed
              else Inr \<lparr>slots = [Some n], generations = [1], free = [], root = r, count = 1, tconfig = c\<rparr>)"

section \<open>Look-up\<close>

definition valid_slot :: "ui_tree \<Rightarrow> ui_node_id \<Rightarrow> bool" where
  "valid_slot t i \<longleftrightarrow> vec_get (generations t) (slot_of i) = Some (generation i)
     \<and> (case vec_get (slots t) (slot_of i) of Some (Some _) \<Rightarrow> True | _ \<Rightarrow> False)"

text \<open>\<open>node\<close> and \<open>node_mut\<close>; \<open>None\<close> is the error \<open>InvalidNode\<close>.\<close>

definition node :: "ui_tree \<Rightarrow> ui_node_id \<Rightarrow> ui_node option" where
  "node t i =
     (case vec_get (slots t) (slot_of i) of
        Some (Some n) \<Rightarrow> if nid n = i then Some n else None
      | _ \<Rightarrow> None)"

definition ok_or :: "'e \<Rightarrow> 'a option \<Rightarrow> 'e + 'a" where
  "ok_or e x = (case x of None \<Rightarrow> Inl e | Some a \<Rightarrow> Inr a)"

definition tree_content :: "ui_tree \<Rightarrow> ui_node_id \<Rightarrow> ui_error + ui_content" where
  "tree_content t i = ok_or InvalidNode (map_option content (node t i))"

definition tree_parent :: "ui_tree \<Rightarrow> ui_node_id \<Rightarrow> ui_error + ui_node_id option" where
  "tree_parent t i = ok_or InvalidNode (map_option nparent (node t i))"

definition tree_children :: "ui_tree \<Rightarrow> ui_node_id \<Rightarrow> ui_error + ui_node_id list" where
  "tree_children t i = ok_or InvalidNode (map_option children (node t i))"

definition tree_rect :: "ui_tree \<Rightarrow> ui_node_id \<Rightarrow> ui_error + ui_rect" where
  "tree_rect t i = ok_or InvalidNode (map_option nrect (node t i))"

definition is_dirty :: "ui_tree \<Rightarrow> ui_node_id \<Rightarrow> ui_error + bool" where
  "is_dirty t i = ok_or InvalidNode (map_option dirty (node t i))"

definition dirty_count :: "ui_tree \<Rightarrow> nat" where
  "dirty_count t = length (filter (\<lambda>s. case s of Some n \<Rightarrow> dirty n | None \<Rightarrow> False) (slots t))"

section \<open>Updates in place\<close>

definition set_node :: "ui_tree \<Rightarrow> ui_node \<Rightarrow> ui_tree" where
  "set_node t n = t\<lparr>slots := (slots t)[slot_of (nid n) := Some n]\<rparr>"

definition set_rect :: "ui_tree \<Rightarrow> ui_node_id \<Rightarrow> ui_rect \<Rightarrow> (ui_error + unit) \<times> ui_tree" where
  "set_rect t i r =
     (if \<not> rect_sane r then (Inl InvalidValue, t)
      else case node t i of
        None \<Rightarrow> (Inl InvalidNode, t)
      | Some n \<Rightarrow> (Inr (), set_node t (n\<lparr>nrect := r, dirty := False\<rparr>)))"

text \<open>\<open>content_mut\<close>, with the change the caller makes through the reference.\<close>

definition update_content ::
  "ui_tree \<Rightarrow> ui_node_id \<Rightarrow> (ui_content \<Rightarrow> ui_content) \<Rightarrow> (ui_error + unit) \<times> ui_tree" where
  "update_content t i f =
     (case node t i of
        None \<Rightarrow> (Inl InvalidNode, t)
      | Some n \<Rightarrow> (Inr (), set_node t (n\<lparr>content := f (content n)\<rparr>)))"

text \<open>The walk to the root has no bound in the source; \<open>None\<close> means that it does not end.\<close>

partial_function (option) mark_ancestors_dirty ::
  "ui_tree \<Rightarrow> ui_node_id \<Rightarrow> ((ui_error + unit) \<times> ui_tree) option" where
  "mark_ancestors_dirty t i =
     (case node t i of
        None \<Rightarrow> Some (Inl InvalidNode, t)
      | Some n \<Rightarrow>
         (let t' = set_node t (n\<lparr>dirty := True\<rparr>)
          in case nparent n of
               Some p \<Rightarrow> mark_ancestors_dirty t' p
             | None \<Rightarrow> Some (Inr (), t')))"

definition text_too_long :: "ui_tree \<Rightarrow> ui_content \<Rightarrow> bool" where
  "text_too_long t c = (case ctext c of None \<Rightarrow> False | Some x \<Rightarrow> byte_len x > max_text_bytes (tconfig t))"

definition returned :: "'a option \<Rightarrow> 'a run" where
  "returned x = (case x of None \<Rightarrow> Diverges | Some a \<Rightarrow> Ret a)"

definition set_content :: "ui_tree \<Rightarrow> ui_node_id \<Rightarrow> ui_content \<Rightarrow> ((ui_error + unit) \<times> ui_tree) run" where
  "set_content t i c =
     (if \<not> content_sane c then Ret (Inl InvalidValue, t)
      else if text_too_long t c then Ret (Inl CapacityExceeded, t)
      else case node t i of
        None \<Rightarrow> Ret (Inl InvalidNode, t)
      | Some n \<Rightarrow> returned (mark_ancestors_dirty (set_node t (n\<lparr>content := c\<rparr>)) i))"

section \<open>Depth and creation\<close>

function depth_loop :: "ui_tree \<Rightarrow> ui_node_id \<Rightarrow> nat \<Rightarrow> ui_error + nat" where
  "depth_loop t i d =
     (case node t i of
        None \<Rightarrow> Inl InvalidNode
      | Some n \<Rightarrow>
         (case nparent n of
            None \<Rightarrow> Inr d
          | Some p \<Rightarrow>
             (if d + 1 > usize_max then Inl IndexOverflow
              else if d + 1 \<ge> max_depth (tconfig t) then Inl DepthExceeded
              else depth_loop t p (d + 1))))"
  by auto
termination
  by (relation "measure (\<lambda>(t, i, d). max_depth (tconfig t) - d)") auto

declare depth_loop.simps [simp del]

definition tree_depth :: "ui_tree \<Rightarrow> ui_node_id \<Rightarrow> ui_error + nat" where
  "tree_depth t i = depth_loop t i 0"

definition new_node :: "ui_node_id \<Rightarrow> ui_node_id \<Rightarrow> ui_content \<Rightarrow> ui_node" where
  "new_node i p c =
     \<lparr>nid = i, nparent = Some p, children = [], content = c, nrect = rect_zero, dirty = True\<rparr>"

text \<open>
  The slot of a new node: the last freed one, or a new one at the end. The reservations are numbered in
  the order they are made; a slot taken before a later reservation fails is not given back.
\<close>

definition take_slot :: "alloc \<Rightarrow> ui_tree \<Rightarrow> ((ui_error + ui_node_id) \<times> ui_tree) run" where
  "take_slot al t =
     (case vec_pop (free t) of
        Some (x, fr) \<Rightarrow>
          (case vec_get (generations t) (unat x) of
             None \<Rightarrow> Panic
           | Some g \<Rightarrow> Ret (Inr (ui_id_new x g), t\<lparr>free := fr\<rparr>))
      | None \<Rightarrow>
          (if length (slots t) > u32_max then Ret (Inl IndexOverflow, t)
           else if \<not> al 0 \<or> \<not> al 1 then Ret (Inl AllocationFailed, t)
           else Ret (Inr (ui_id_new (of_nat (length (slots t))) 1),
                     t\<lparr>slots := slots t @ [None], generations := generations t @ [1]\<rparr>)))"

text \<open>Links the new node: the parent lists it, and its slot holds it.\<close>

definition link_child :: "ui_tree \<Rightarrow> ui_node \<Rightarrow> ui_node \<Rightarrow> ui_tree" where
  "link_child t pn n =
     (set_node (set_node t (pn\<lparr>children := children pn @ [nid n]\<rparr>)) n)\<lparr>count := count t + 1\<rparr>"

definition tree_create ::
  "alloc \<Rightarrow> ui_tree \<Rightarrow> ui_node_id \<Rightarrow> ui_content \<Rightarrow> ((ui_error + ui_node_id) \<times> ui_tree) run" where
  "tree_create al t p c =
     (if \<not> valid_slot t p then Ret (Inl InvalidParent, t)
      else if \<not> content_sane c then Ret (Inl InvalidValue, t)
      else if text_too_long t c then Ret (Inl CapacityExceeded, t)
      else case tree_depth t p of
        Inl e \<Rightarrow> Ret (Inl e, t)
      | Inr d \<Rightarrow>
         (if d + 1 > usize_max then Ret (Inl IndexOverflow, t)
          else if d + 1 \<ge> max_depth (tconfig t) then Ret (Inl DepthExceeded, t)
          else if count t \<ge> max_nodes (tconfig t) then Ret (Inl CapacityExceeded, t)
          else run_bind (take_slot al t) (\<lambda>(r, t1).
            case r of
              Inl e \<Rightarrow> Ret (Inl e, t1)
            | Inr i \<Rightarrow>
               (if \<not> al 2 then Ret (Inl AllocationFailed, t1)
                else case node t1 p of
                  None \<Rightarrow> Ret (Inl InvalidNode, t1)
                | Some pn \<Rightarrow>
                   (if \<not> al 3 then Ret (Inl AllocationFailed, t1)
                    else if slot_of i \<ge> length (slots t1) then Panic
                    else Ret (Inr i, link_child t1 pn (new_node i p c)))))))"

section \<open>Moving a subtree\<close>

text \<open>The walk from the new parent to the root, looking for the moved node.\<close>

partial_function (option) find_cycle ::
  "ui_tree \<Rightarrow> ui_node_id \<Rightarrow> ui_node_id \<Rightarrow> (ui_error + unit) option" where
  "find_cycle t i cursor =
     (if cursor = i then Some (Inl Cycle)
      else case node t cursor of
        None \<Rightarrow> Some (Inl InvalidNode)
      | Some n \<Rightarrow> (case nparent n of Some p \<Rightarrow> find_cycle t i p | None \<Rightarrow> Some (Inr ())))"

text \<open>
  Unlinks a node from its old parent and links it under the new one; each \<open>?\<close> of the source is a
  look-up that may fail.
\<close>

definition relink :: "ui_tree \<Rightarrow> ui_node_id \<Rightarrow> ui_node_id \<Rightarrow> ui_node_id \<Rightarrow> (ui_error + unit) \<times> ui_tree" where
  "relink t i old new =
     (case node t old of
        None \<Rightarrow> (Inl InvalidNode, t)
      | Some po \<Rightarrow>
         (let t1 = set_node t (po\<lparr>children := filter (\<lambda>c. c \<noteq> i) (children po)\<rparr>)
          in case node t1 new of
               None \<Rightarrow> (Inl InvalidNode, t1)
             | Some pn \<Rightarrow>
                (let t2 = set_node t1 (pn\<lparr>children := children pn @ [i]\<rparr>)
                 in case node t2 i of
                      None \<Rightarrow> (Inl InvalidNode, t2)
                    | Some n \<Rightarrow> (Inr (), set_node t2 (n\<lparr>nparent := Some new\<rparr>)))))"

definition tree_reparent ::
  "alloc \<Rightarrow> ui_tree \<Rightarrow> ui_node_id \<Rightarrow> ui_node_id \<Rightarrow> ((ui_error + unit) \<times> ui_tree) run" where
  "tree_reparent al t i new =
     (if i = root t \<or> \<not> valid_slot t new then Ret (Inl InvalidParent, t)
      else run_bind (returned (find_cycle t i new)) (\<lambda>c.
        case c of
          Inl e \<Rightarrow> Ret (Inl e, t)
        | Inr _ \<Rightarrow>
           (case tree_depth t new of
              Inl e \<Rightarrow> Ret (Inl e, t)
            | Inr d \<Rightarrow>
               (if d + 1 > usize_max then Ret (Inl IndexOverflow, t)
                else if d + 1 \<ge> max_depth (tconfig t) then Ret (Inl DepthExceeded, t)
                else case node t i of
                  None \<Rightarrow> Ret (Inl InvalidNode, t)
                | Some n \<Rightarrow>
                   (case nparent n of
                      None \<Rightarrow> Ret (Inl InvalidParent, t)
                    | Some old \<Rightarrow>
                       (if node t new = None then Ret (Inl InvalidNode, t)
                        else if \<not> al 0 then Ret (Inl AllocationFailed, t)
                        else case relink t i old new of
                          (Inl e, t') \<Rightarrow> Ret (Inl e, t')
                        | (Inr _, t') \<Rightarrow> returned (mark_ancestors_dirty t' i)))))))"

section \<open>Subtrees and destruction\<close>

text \<open>
  \<open>collect_subtree\<close> recurses without a bound: \<open>None\<close> means that more than the given number of calls
  would be nested. A tree nests at most as many calls as it has slots.
\<close>

function (sequential) collect_subtree ::
  "nat \<Rightarrow> ui_tree \<Rightarrow> ui_node_id \<Rightarrow> ui_node_id list \<Rightarrow> (ui_error + ui_node_id list) option"
and collect_children ::
  "nat \<Rightarrow> ui_tree \<Rightarrow> ui_node_id list \<Rightarrow> ui_node_id list \<Rightarrow> (ui_error + ui_node_id list) option" where
  "collect_subtree 0 t i out = None"
| "collect_subtree (Suc f) t i out =
     (case node t i of
        None \<Rightarrow> Some (Inl InvalidNode)
      | Some n \<Rightarrow> collect_children f t (children n) (out @ [i]))"
| "collect_children f t [] out = Some (Inr out)"
| "collect_children f t (c # cs) out =
     (case collect_subtree f t c out of
        Some (Inr out') \<Rightarrow> collect_children f t cs out'
      | r \<Rightarrow> r)"
  by pat_completeness auto
termination
  by (relation "(\<lambda>x. case x of Inl (f, _) \<Rightarrow> f | Inr (f, _) \<Rightarrow> f) <*mlex*>
        measure (\<lambda>x. case x of Inl _ \<Rightarrow> 0 | Inr (_, _, cs, _) \<Rightarrow> Suc (length cs))")
     (auto simp: mlex_prod_def wf_mlex)

text \<open>Every generation of the subtree must be able to grow before anything is changed.\<close>

fun check_generations :: "u32 list \<Rightarrow> ui_node_id list \<Rightarrow> bool run" where
  "check_generations gs [] = Ret True"
| "check_generations gs (i # is) =
     (case vec_get gs (slot_of i) of
        None \<Rightarrow> Panic
      | Some g \<Rightarrow> if g = - 1 then Ret False else check_generations gs is)"

definition remove_slot :: "ui_node_id \<Rightarrow> ui_tree \<Rightarrow> ui_tree run" where
  "remove_slot i t =
     (if slot_of i \<ge> length (slots t) then Panic
      else case vec_get (generations t) (slot_of i) of
        None \<Rightarrow> Panic
      | Some g \<Rightarrow>
         (if g = - 1 then Panic
          else Ret (t\<lparr>slots := (slots t)[slot_of i := None], generations := (generations t)[slot_of i := g + 1],
                      free := free t @ [index i], count := count t - 1\<rparr>)))"

definition tree_destroy :: "alloc \<Rightarrow> ui_tree \<Rightarrow> ui_node_id \<Rightarrow> ((ui_error + unit) \<times> ui_tree) run" where
  "tree_destroy al t i =
     (if i = root t then Ret (Inl InvalidNode, t)
      else if \<not> al 0 then Ret (Inl AllocationFailed, t)
      else run_bind (returned (collect_subtree (length (slots t)) t i [])) (\<lambda>r.
        case r of
          Inl e \<Rightarrow> Ret (Inl e, t)
        | Inr order \<Rightarrow>
           (if \<not> al 1 then Ret (Inl AllocationFailed, t)
            else run_bind (check_generations (generations t) order) (\<lambda>ok.
              if \<not> ok then Ret (Inl IndexOverflow, t)
              else case node t i of
                None \<Rightarrow> Ret (Inl InvalidNode, t)
              | Some n \<Rightarrow>
                 (case nparent n of
                    None \<Rightarrow> Ret (Inl InvalidNode, t)
                  | Some p \<Rightarrow>
                     (case node t p of
                        None \<Rightarrow> Ret (Inl InvalidNode, t)
                      | Some pn \<Rightarrow>
                         run_bind (run_fold remove_slot (rev order)
                             (set_node t (pn\<lparr>children := filter (\<lambda>c. c \<noteq> i) (children pn)\<rparr>)))
                           (\<lambda>t'. Ret (Inr (), t'))))))))"

text \<open>\<open>preorder\<close> clears the caller's vector and fills it with the subtree of the root.\<close>

definition preorder :: "alloc \<Rightarrow> ui_tree \<Rightarrow> (ui_error + ui_node_id list) run" where
  "preorder al t =
     (if \<not> al 0 then Ret (Inl AllocationFailed)
      else returned (collect_subtree (length (slots t)) t (root t) []))"

end
