(* ===== verification/Forest.thy ===== *)
theory Forest
  imports Main
begin

text \<open>
  Trees given by parent and child links, as the retained UI tree stores them: what it means that the
  links form one tree under a root, and how creation, moving and removal of subtrees keep it so.
\<close>

type_synonym 'i links = "'i \<rightharpoonup> 'i option \<times> 'i list"

section \<open>Depth and descendants\<close>

inductive at_depth :: "'i links \<Rightarrow> 'i \<Rightarrow> nat \<Rightarrow> bool" for L where
  top: "L i = Some (None, cs) \<Longrightarrow> at_depth L i 0"
| below: "L i = Some (Some p, cs) \<Longrightarrow> at_depth L p d \<Longrightarrow> at_depth L i (Suc d)"

inductive descendant :: "'i links \<Rightarrow> 'i \<Rightarrow> 'i \<Rightarrow> bool" for L a where
  self: "descendant L a a"
| child: "L i = Some (Some p, cs) \<Longrightarrow> descendant L a p \<Longrightarrow> descendant L a i"

inductive_cases at_depth_0: "at_depth L i 0"
inductive_cases at_depth_Suc: "at_depth L i (Suc d)"

lemma at_depth_dom: "at_depth L i d \<Longrightarrow> i \<in> dom L"
  by (cases rule: at_depth.cases) auto

lemma at_depth_unique: "at_depth L i d \<Longrightarrow> at_depth L i e \<Longrightarrow> d = e"
proof (induction arbitrary: e rule: at_depth.induct)
  case (top i cs)
  from top(2,1) show ?case by cases auto
next
  case (below i p cs d)
  from below(4,1,3) show ?case by cases auto
qed

text \<open>Above a node at depth \<open>d\<close> there is a node at every smaller depth, so a tree is no deeper than it is large.\<close>

lemma at_depth_smaller: "at_depth L i d \<Longrightarrow> k \<le> d \<Longrightarrow> \<exists>j. at_depth L j k"
  by (induction rule: at_depth.induct) (auto simp: le_Suc_eq intro: at_depth.intros)

lemma at_depth_card:
  assumes "at_depth L i d" "finite (dom L)"
  shows "d < card (dom L)"
proof -
  obtain f where f: "\<And>k. k \<le> d \<Longrightarrow> at_depth L (f k) k"
    using at_depth_smaller [OF assms(1)] by metis
  have "inj_on f {..d}" using f at_depth_unique by (metis atMost_iff inj_onI)
  moreover have "f ` {..d} \<subseteq> dom L" using f at_depth_dom by fastforce
  ultimately have "card {..d} \<le> card (dom L)" using assms(2) by (metis card_image card_mono)
  then show ?thesis by simp
qed

lemma descendant_depth:
  "descendant L a i \<Longrightarrow> at_depth L a k \<Longrightarrow> at_depth L i d \<Longrightarrow> k \<le> d"
proof (induction arbitrary: d rule: descendant.induct)
  case self
  then show ?case using at_depth_unique by fastforce
next
  case (child i p cs)
  from child(5,1) obtain e where "at_depth L p e" "d = Suc e" by cases auto
  with child show ?case by fastforce
qed

text \<open>A node has at most one ancestor at each depth.\<close>

lemma descendant_same_depth:
  "descendant L a i \<Longrightarrow> descendant L b i \<Longrightarrow> at_depth L a k \<Longrightarrow> at_depth L b k \<Longrightarrow> a = b"
proof (induction rule: descendant.induct)
  case self
  from self(1) show ?case
  proof cases
    case (child p cs)
    from self(2) child(1) obtain e where "at_depth L p e" "k = Suc e" by cases auto
    with descendant_depth [OF child(2) self(3)] show ?thesis by fastforce
  qed simp
next
  case (child i p cs)
  from child(4) show ?case
  proof cases
    case self
    with child(6,1) obtain e where "at_depth L p e" "k = Suc e" by cases auto
    with descendant_depth [OF child(2,5)] show ?thesis by fastforce
  next
    case (child p' cs')
    with child.hyps(1) have "p' = p" by simp
    with child.IH child child.prems(2,3) show ?thesis by simp
  qed
qed

lemma descendant_trans: "descendant L b i \<Longrightarrow> descendant L a b \<Longrightarrow> descendant L a i"
  by (induction rule: descendant.induct) (auto intro: descendant.intros)

section \<open>Trees\<close>

definition linked :: "'i links \<Rightarrow> 'i \<Rightarrow> 'i option \<times> 'i list \<Rightarrow> bool" where
  "linked L i e \<longleftrightarrow> distinct (snd e)
     \<and> (\<forall>c\<in>set (snd e). \<exists>cs. L c = Some (Some i, cs))
     \<and> (\<forall>p. fst e = Some p \<longrightarrow> (\<exists>q cs. L p = Some (q, cs) \<and> i \<in> set cs))"

definition tree_links :: "'i links \<Rightarrow> 'i \<Rightarrow> bool" where
  "tree_links L r \<longleftrightarrow> (\<forall>i e. L i = Some e \<longrightarrow> linked L i e \<and> (fst e = None \<longleftrightarrow> i = r))
     \<and> r \<in> dom L \<and> (\<forall>i\<in>dom L. \<exists>d. at_depth L i d)"

lemma tree_linksD:
  assumes "tree_links L r"
  shows "L i = Some e \<Longrightarrow> linked L i e" "L i = Some e \<Longrightarrow> fst e = None \<longleftrightarrow> i = r" "r \<in> dom L"
    "i \<in> dom L \<Longrightarrow> \<exists>d. at_depth L i d"
  using assms unfolding tree_links_def by blast+

lemma tree_links_child:
  "tree_links L r \<Longrightarrow> L i = Some (p, cs) \<Longrightarrow> c \<in> set cs \<Longrightarrow> \<exists>ds. L c = Some (Some i, ds)"
  by (auto simp: tree_links_def linked_def)

lemma tree_links_parent:
  "tree_links L r \<Longrightarrow> L i = Some (Some p, cs) \<Longrightarrow> \<exists>q ds. L p = Some (q, ds) \<and> i \<in> set ds"
  by (auto simp: tree_links_def linked_def)

lemma tree_links_distinct: "tree_links L r \<Longrightarrow> L i = Some (p, cs) \<Longrightarrow> distinct cs"
  by (auto simp: tree_links_def linked_def)

text \<open>Nobody is the parent of a node that is not there.\<close>

lemma tree_links_fresh:
  assumes "tree_links L r" "L i = None" "L j = Some (q, cs)"
  shows "q \<noteq> Some i \<and> i \<notin> set cs"
  using tree_links_child [OF assms(1,3), of i] tree_links_parent [OF assms(1), of j i cs] assms(2,3) by auto

text \<open>Every descendant of a node is the node itself or below one of its children.\<close>

lemma descendant_child:
  assumes T: "tree_links L r" and i: "L i = Some (q, cs)"
  shows "descendant L i x \<longleftrightarrow> x = i \<or> (\<exists>c\<in>set cs. descendant L c x)"
proof
  assume "descendant L i x"
  then show "x = i \<or> (\<exists>c\<in>set cs. descendant L c x)"
  proof (induction rule: descendant.induct)
    case (child x p xs)
    from child(3) show ?case
    proof
      assume "p = i"
      with tree_links_parent [OF T child(1)] i have "x \<in> set cs" by auto
      then show ?thesis by (blast intro: descendant.self)
    next
      assume "\<exists>c\<in>set cs. descendant L c p"
      with child(1) show ?thesis by (blast intro: descendant.child)
    qed
  qed simp
next
  assume "x = i \<or> (\<exists>c\<in>set cs. descendant L c x)"
  then show "descendant L i x"
  proof
    assume "\<exists>c\<in>set cs. descendant L c x"
    then obtain c where c: "c \<in> set cs" "descendant L c x" by blast
    with tree_links_child [OF T i] have "descendant L i c" by (blast intro: descendant.intros)
    with c(2) show ?thesis by (rule descendant_trans)
  qed (simp add: descendant.self)
qed

text \<open>Everything is below the root.\<close>

lemma descendant_root: "tree_links L r \<Longrightarrow> at_depth L i d \<Longrightarrow> descendant L r i"
proof (induction d arbitrary: i)
  case 0
  from 0(2) tree_linksD(2) [OF 0(1), of i] show ?case by cases (auto intro: descendant.self)
next
  case (Suc d)
  from Suc(3,1,2) show ?case by cases (auto intro: descendant.child)
qed

section \<open>Creation\<close>

lemma tree_links_create:
  assumes T: "tree_links L r" and p: "L p = Some (q, cs)" and i: "L i = None"
  shows "tree_links (L(p \<mapsto> (q, cs @ [i]), i \<mapsto> (Some p, []))) r"
proof -
  let ?L = "L(p \<mapsto> (q, cs @ [i]), i \<mapsto> (Some p, []))"
  have ip: "i \<noteq> p" using p i by auto
  have old: "\<exists>xs'. ?L x = Some (y, xs') \<and> set xs \<subseteq> set xs'" if "L x = Some (y, xs)" for x y xs
    using that i p by auto
  have depth: "at_depth ?L x d" if "at_depth L x d" for x d
    using that by induction (use old in \<open>blast intro: at_depth.intros\<close>)+
  have ir: "i \<noteq> r" using tree_linksD(3) [OF T] i by auto
  have "linked ?L x e \<and> (fst e = None \<longleftrightarrow> x = r)" if x: "?L x = Some e" for x e
  proof (cases "x = i")
    case True
    then show ?thesis using x ip ir by (auto simp: linked_def)
  next
    case False
    obtain xs where xs: "L x = Some (fst e, xs)" "snd e = (if x = p then xs @ [i] else xs)"
      using x False p by (cases e) (auto split: if_splits)
    have new: "i \<notin> set xs" using tree_links_fresh [OF T i xs(1)] by simp
    have d: "distinct (snd e)" using tree_links_distinct [OF T xs(1)] xs(2) new by auto
    have c: "\<exists>ds. ?L c = Some (Some x, ds)" if "c \<in> set (snd e)" for c
    proof (cases "c = i")
      case True
      then have "x = p" using that xs(2) new by (auto split: if_splits)
      then show ?thesis using True by simp
    next
      case False
      then have "c \<in> set xs" using that xs(2) by (auto split: if_splits)
      then show ?thesis using tree_links_child [OF T xs(1)] old by blast
    qed
    have u: "\<exists>q cs. ?L y = Some (q, cs) \<and> x \<in> set cs" if "fst e = Some y" for y
      using tree_links_parent [OF T, of x y xs] xs(1) that old by fastforce
    show ?thesis using d c u tree_linksD(2) [OF T xs(1)] by (simp add: linked_def)
  qed
  moreover have "\<exists>d. at_depth ?L x d" if "x \<in> dom ?L" for x
  proof (cases "x = i")
    case True
    from tree_linksD(4) [OF T, of p] p obtain d where "at_depth L p d" by auto
    then have "at_depth ?L p d" by (rule depth)
    moreover have "?L i = Some (Some p, [])" by simp
    ultimately show ?thesis using True at_depth.below by fast
  next
    case False
    then have "x \<in> dom L" using that p by (auto split: if_splits)
    then show ?thesis using tree_linksD(4) [OF T] depth by blast
  qed
  moreover have "r \<in> dom ?L" using tree_linksD(3) [OF T] by auto
  ultimately show ?thesis unfolding tree_links_def by blast
qed

section \<open>Removal of a subtree\<close>

definition remove_subtree :: "'i links \<Rightarrow> 'i \<Rightarrow> 'i links" where
  "remove_subtree L i = (\<lambda>x. if descendant L i x then None
     else map_option (\<lambda>(q, cs). (q, filter (\<lambda>c. c \<noteq> i) cs)) (L x))"

lemma tree_links_remove:
  assumes T: "tree_links L r" and ir: "i \<noteq> r"
  shows "tree_links (remove_subtree L i) r"
proof -
  let ?L = "remove_subtree L i"
  have some: "?L x = Some e \<longleftrightarrow> \<not> descendant L i x \<and> (\<exists>xs. L x = Some (fst e, xs) \<and> snd e = filter (\<lambda>c. c \<noteq> i) xs)" for x e
    by (cases e) (auto simp: remove_subtree_def)
  have up: "\<not> descendant L i p" if "L x = Some (Some p, xs)" "\<not> descendant L i x" for x p xs
    using that by (blast intro: descendant.child)
  have depth: "\<not> descendant L i x \<longrightarrow> at_depth ?L x d" if "at_depth L x d" for x d
    using that
  proof induction
    case (top x cs)
    then show ?case by (auto intro!: at_depth.top simp: some)
  next
    case (below x p cs d)
    then show ?case using up by (auto intro!: at_depth.below simp: some)
  qed
  have "\<not> descendant L i r"
  proof
    assume "descendant L i r"
    then show False
    proof cases
      case (child p cs)
      then show False using tree_linksD(2) [OF T child(1)] by simp
    qed (use ir in simp)
  qed
  then have "r \<in> dom ?L" using tree_linksD(3) [OF T] by (auto simp: remove_subtree_def)
  moreover have "linked ?L x e \<and> (fst e = None \<longleftrightarrow> x = r)" if "?L x = Some e" for x e
  proof -
    from that obtain xs where x: "\<not> descendant L i x" "L x = Some (fst e, xs)" "snd e = filter (\<lambda>c. c \<noteq> i) xs"
      by (auto simp: some)
    have c: "\<exists>ds. ?L c = Some (Some x, ds)" if "c \<in> set (snd e)" for c
    proof -
      from that x(3) have c: "c \<in> set xs" "c \<noteq> i" by auto
      from tree_links_child [OF T x(2) c(1)] obtain ds where ds: "L c = Some (Some x, ds)" by blast
      have "\<not> descendant L i c"
      proof
        assume "descendant L i c"
        then show False using ds c(2) x(1) by cases auto
      qed
      with ds show ?thesis by (auto simp: some)
    qed
    have u: "\<exists>q cs. ?L y = Some (q, cs) \<and> x \<in> set cs" if "fst e = Some y" for y
    proof -
      from that x(2) have xy: "L x = Some (Some y, xs)" by simp
      from tree_links_parent [OF T xy] obtain q ds where "L y = Some (q, ds)" "x \<in> set ds" by blast
      moreover have "x \<noteq> i" using x(1) by (auto intro: descendant.self)
      ultimately show ?thesis using up [OF xy x(1)] by (auto simp: some)
    qed
    show ?thesis
      using c u x(3) tree_links_distinct [OF T x(2)] tree_linksD(2) [OF T x(2)] by (simp add: linked_def)
  qed
  moreover have "\<exists>d. at_depth ?L x d" if "x \<in> dom ?L" for x
  proof -
    from that obtain e where "?L x = Some e" by auto
    then have "\<not> descendant L i x" "x \<in> dom L" by (auto simp: some)
    then show ?thesis using tree_linksD(4) [OF T] depth by blast
  qed
  ultimately show ?thesis unfolding tree_links_def by blast
qed

section \<open>Moving a subtree\<close>

definition move_subtree :: "'i links \<Rightarrow> 'i \<Rightarrow> 'i \<Rightarrow> 'i links" where
  "move_subtree L i new = (\<lambda>x. map_option (\<lambda>e.
     (if x = i then Some new else fst e,
      filter (\<lambda>c. c \<noteq> i) (snd e) @ (if x = new then [i] else []))) (L x))"

lemma tree_links_move:
  assumes T: "tree_links L r" and ir: "i \<noteq> r" and i: "i \<in> dom L" and new: "new \<in> dom L" and nd: "\<not> descendant L i new"
  shows "tree_links (move_subtree L i new) r"
proof -
  let ?L = "move_subtree L i new"
  have some: "?L x = Some e \<longleftrightarrow> (\<exists>q xs. L x = Some (q, xs) \<and> fst e = (if x = i then Some new else q)
      \<and> snd e = filter (\<lambda>c. c \<noteq> i) xs @ (if x = new then [i] else []))" for x e
    by (cases "L x"; cases e) (auto simp: move_subtree_def)
  have par: "\<exists>xs'. ?L x = Some (y, xs')" if "L x = Some (y, xs)" "x \<noteq> i" for x y xs
    using that by (auto simp: some)
  have outside: "\<not> descendant L i x \<longrightarrow> at_depth ?L x d" if "at_depth L x d" for x d
    using that
  proof induction
    case (top x cs)
    then show ?case using par by (metis at_depth.top descendant.self)
  next
    case (below x p cs d)
    then show ?case using par by (metis at_depth.below descendant.self descendant.child)
  qed
  from tree_linksD(4) [OF T new] outside nd obtain dn where dn: "at_depth ?L new dn" by blast
  obtain xi where xi: "?L i = Some (Some new, xi)" using i some by fastforce
  have inside: "\<exists>d. at_depth ?L x d" if "descendant L i x" for x
    using that
  proof induction
    case self
    from xi dn show ?case by (blast intro: at_depth.below)
  next
    case (child x p cs)
    then show ?case using par xi dn by (metis at_depth.below)
  qed
  have "linked ?L x e \<and> (fst e = None \<longleftrightarrow> x = r)" if "?L x = Some e" for x e
  proof -
    from that obtain q xs where x: "L x = Some (q, xs)" "fst e = (if x = i then Some new else q)"
      "snd e = filter (\<lambda>c. c \<noteq> i) xs @ (if x = new then [i] else [])" by (auto simp: some)
    have c: "\<exists>ds. ?L c = Some (Some x, ds)" if "c \<in> set (snd e)" for c
    proof (cases "c = i")
      case True
      with that x(3) have "x = new" by (auto split: if_splits)
      with True xi show ?thesis by auto
    next
      case False
      with that x(3) have "c \<in> set xs" by (auto split: if_splits)
      from tree_links_child [OF T x(1) this] par False show ?thesis by blast
    qed
    have u: "\<exists>q cs. ?L y = Some (q, cs) \<and> x \<in> set cs" if y: "fst e = Some y" for y
    proof (cases "x = i")
      case True
      then have "y = new" using y x(2) by simp
      moreover have "new \<noteq> i" using nd descendant.self by metis
      ultimately show ?thesis using True new by (auto simp: some)
    next
      case False
      with y x(1,2) have "L x = Some (Some y, xs)" by simp
      from tree_links_parent [OF T this] obtain q' ds where "L y = Some (q', ds)" "x \<in> set ds" by blast
      then show ?thesis using False by (auto simp: some)
    qed
    have "i \<notin> set (filter (\<lambda>c. c \<noteq> i) xs)" by simp
    then have "distinct (snd e)" using x(3) tree_links_distinct [OF T x(1)] by simp
    moreover have "fst e = None \<longleftrightarrow> x = r" using x(1,2) tree_linksD(2) [OF T x(1)] ir by auto
    ultimately show ?thesis using c u by (simp add: linked_def)
  qed
  moreover have "\<exists>d. at_depth ?L x d" if "x \<in> dom ?L" for x
  proof (cases "descendant L i x")
    case False
    from that have "x \<in> dom L" by (auto simp: move_subtree_def)
    with tree_linksD(4) [OF T] outside False show ?thesis by blast
  qed (rule inside)
  moreover have "r \<in> dom ?L" using tree_linksD(3) [OF T] by (auto simp: move_subtree_def)
  ultimately show ?thesis unfolding tree_links_def by blast
qed

end
