(* ===== verification/Ui_Tree_Inv.thy ===== *)
theory Ui_Tree_Inv
  imports Ui_Tree Forest
begin

text \<open>
  The invariant of the retained UI tree and its consequences: every operation returns, the links stay
  one tree under the root, handles are checked by generation, and subtrees are collected, moved and
  destroyed exactly.
\<close>

section \<open>The invariant\<close>

definition links :: "ui_tree \<Rightarrow> ui_node_id links" where
  "links t i = map_option (\<lambda>n. (nparent n, children n)) (node t i)"

definition slot_ids :: "ui_tree \<Rightarrow> ui_node_id option list" where
  "slot_ids t = map (map_option nid) (slots t)"

definition slots_ok :: "ui_tree \<Rightarrow> bool" where
  "slots_ok t \<longleftrightarrow> length (generations t) = length (slots t) \<and> length (slots t) \<le> 2 ^ 32
     \<and> (\<forall>k i. k < length (slots t) \<longrightarrow> slot_ids t ! k = Some i \<longrightarrow> slot_of i = k \<and> generation i = generations t ! k)
     \<and> distinct (free t) \<and> (\<forall>f\<in>set (free t). unat f < length (slots t) \<and> slot_ids t ! unat f = None)
     \<and> count t = length (filter (\<lambda>x. x \<noteq> None) (slot_ids t))"

definition tree_inv :: "ui_tree \<Rightarrow> bool" where
  "tree_inv t \<longleftrightarrow> slots_ok t \<and> tree_links (links t) (root t) \<and> count t \<le> max_nodes (tconfig t)"

definition contents :: "ui_tree \<Rightarrow> ui_node_id \<Rightarrow> ui_content option" where
  "contents t i = map_option content (node t i)"

definition same_shape :: "ui_tree \<Rightarrow> ui_tree \<Rightarrow> bool" where
  "same_shape t t' \<longleftrightarrow> slot_ids t' = slot_ids t \<and> links t' = links t \<and> generations t' = generations t
     \<and> free t' = free t \<and> root t' = root t \<and> count t' = count t \<and> tconfig t' = tconfig t"

lemma length_slot_ids [simp]: "length (slot_ids t) = length (slots t)"
  by (simp add: slot_ids_def)

lemma same_shape_refl [simp]: "same_shape t t"
  by (simp add: same_shape_def)

lemma same_shape_trans: "same_shape t t' \<Longrightarrow> same_shape t' t'' \<Longrightarrow> same_shape t t''"
  by (simp add: same_shape_def)

lemma same_shape_slots: "same_shape t t' \<Longrightarrow> length (slots t') = length (slots t)"
  by (metis length_slot_ids same_shape_def)

lemma same_shape_ok: "same_shape t t' \<Longrightarrow> slots_ok t' = slots_ok t"
  using same_shape_slots [of t t'] by (simp add: slots_ok_def same_shape_def)

lemma same_shape_inv: "same_shape t t' \<Longrightarrow> tree_inv t' = tree_inv t"
  using same_shape_ok [of t t'] by (simp add: tree_inv_def same_shape_def)

lemma slots_ok_id:
  "slots_ok t \<Longrightarrow> k < length (slots t) \<Longrightarrow> slot_ids t ! k = Some i \<Longrightarrow> slot_of i = k"
  "slots_ok t \<Longrightarrow> k < length (slots t) \<Longrightarrow> slot_ids t ! k = Some i \<Longrightarrow> generation i = generations t ! k"
  unfolding slots_ok_def by blast+

lemma slots_ok_length: "slots_ok t \<Longrightarrow> length (generations t) = length (slots t)"
  by (simp add: slots_ok_def)

lemma slots_ok_count: "slots_ok t \<Longrightarrow> count t = length (filter (\<lambda>x. x \<noteq> None) (slot_ids t))"
  by (simp add: slots_ok_def)

lemma node_Some:
  "node t i = Some n \<longleftrightarrow> slot_of i < length (slots t) \<and> slots t ! slot_of i = Some n \<and> nid n = i"
  by (auto simp: node_def vec_get_def split: option.splits)

lemma links_Some: "links t i = Some (p, cs) \<longleftrightarrow> (\<exists>n. node t i = Some n \<and> nparent n = p \<and> children n = cs)"
  by (auto simp: links_def)

lemma links_None: "links t i = None \<longleftrightarrow> node t i = None"
  by (simp add: links_def)

lemma ui_id_eqI: "index (i :: ui_id) = index j \<Longrightarrow> generation i = generation j \<Longrightarrow> i = j"
  by (cases i; cases j) simp

text \<open>A handle is valid exactly when it names a node.\<close>

lemma valid_slot_iff:
  assumes "slots_ok t"
  shows "valid_slot t i \<longleftrightarrow> node t i \<noteq> None"
proof
  assume "valid_slot t i"
  then obtain n where n: "slot_of i < length (slots t)" "slots t ! slot_of i = Some n"
    "slot_of i < length (generations t)" "generations t ! slot_of i = generation i"
    by (auto simp: valid_slot_def vec_get_Some split: option.splits)
  then have "slot_ids t ! slot_of i = Some (nid n)" by (simp add: slot_ids_def)
  with assms n(1,4) have "slot_of (nid n) = slot_of i" "generation (nid n) = generation i"
    using slots_ok_id [of t "slot_of i" "nid n"] by simp_all
  then have "nid n = i" by (intro ui_id_eqI) (simp_all add: word_eq_iff_unsigned [where ?'a = nat])
  with n have "node t i = Some n" by (simp add: node_Some)
  then show "node t i \<noteq> None" by simp
next
  assume "node t i \<noteq> None"
  then obtain n where n: "slot_of i < length (slots t)" "slots t ! slot_of i = Some n" "nid n = i"
    by (auto simp: node_Some)
  then have "slot_ids t ! slot_of i = Some i" by (simp add: slot_ids_def)
  with assms n(1) have "generation i = generations t ! slot_of i" by (rule slots_ok_id(2))
  with n slots_ok_length [OF assms] show "valid_slot t i" by (simp add: valid_slot_def vec_get_def)
qed

lemma node_set_node:
  "node t (nid n) \<noteq> None \<Longrightarrow> node (set_node t n) = (node t)(nid n \<mapsto> n)"
proof
  fix j
  assume "node t (nid n) \<noteq> None"
  then obtain m where m: "slot_of (nid n) < length (slots t)" "slots t ! slot_of (nid n) = Some m" "nid m = nid n"
    by (auto simp: node_Some)
  show "node (set_node t n) j = ((node t)(nid n \<mapsto> n)) j"
    using m by (auto simp: node_def set_node_def vec_get_def nth_list_update)
qed

lemma set_node_simps [simp]:
  "generations (set_node t n) = generations t" "free (set_node t n) = free t" "root (set_node t n) = root t"
  "count (set_node t n) = count t" "tconfig (set_node t n) = tconfig t" "length (slots (set_node t n)) = length (slots t)"
  by (simp_all add: set_node_def)

lemma slot_ids_set_node: "node t (nid n) \<noteq> None \<Longrightarrow> slot_ids (set_node t n) = slot_ids t"
  by (auto simp: slot_ids_def set_node_def node_Some map_update list_update_same_conv)

lemma slots_ok_set_node: "node t (nid n) \<noteq> None \<Longrightarrow> slots_ok (set_node t n) = slots_ok t"
  by (simp add: slots_ok_def slot_ids_set_node)

lemma same_shape_set_node:
  assumes "node t i = Some n" "nid m = nid n" "nparent m = nparent n" "children m = children n"
  shows "same_shape t (set_node t m)"
proof -
  have m: "node t (nid m) \<noteq> None" "nid m = i" using assms by (auto simp: node_Some)
  have "links (set_node t m) = links t"
    using node_set_node [OF m(1)] assms m(2) by (auto simp: links_def)
  then show ?thesis using slot_ids_set_node [OF m(1)] by (simp add: same_shape_def)
qed

lemma contents_set_node:
  assumes "node t i = Some n" "nid m = nid n"
  shows "contents (set_node t m) = (contents t)(i \<mapsto> content m)"
proof -
  have "node t (nid m) \<noteq> None" "nid m = i" using assms by (auto simp: node_Some)
  then show ?thesis using node_set_node [of t m] by (auto simp: contents_def)
qed

lemma contents_set_node_same:
  "node t i = Some n \<Longrightarrow> nid m = nid n \<Longrightarrow> content m = content n \<Longrightarrow> contents (set_node t m) = contents t"
  by (auto simp: contents_set_node fun_eq_iff) (simp add: contents_def)

section \<open>The nodes of a tree\<close>

lemma slot_ids_nth: "k < length (slots t) \<Longrightarrow> slot_ids t ! k = map_option nid (slots t ! k)"
  by (simp add: slot_ids_def)

lemma dom_links_iff:
  assumes "slots_ok t"
  shows "i \<in> dom (links t) \<longleftrightarrow> Some i \<in> set (slot_ids t)"
proof
  assume "i \<in> dom (links t)"
  then obtain n where "slot_of i < length (slots t)" "slots t ! slot_of i = Some n" "nid n = i"
    by (auto simp: links_def node_Some)
  then show "Some i \<in> set (slot_ids t)" using slot_ids_nth by (metis length_slot_ids nth_mem option.simps(9))
next
  assume "Some i \<in> set (slot_ids t)"
  then obtain k where k: "k < length (slots t)" "slot_ids t ! k = Some i" by (auto simp: in_set_conv_nth)
  with assms have "slot_of i = k" by (rule slots_ok_id(1))
  with k show "i \<in> dom (links t)" by (auto simp: links_def node_Some slot_ids_nth)
qed

lemma distinct_filter_nth:
  assumes "\<And>j k. j < length xs \<Longrightarrow> k < length xs \<Longrightarrow> j \<noteq> k \<Longrightarrow> P (xs ! j) \<Longrightarrow> xs ! j \<noteq> xs ! k"
  shows "distinct (filter P xs)"
  using assms
proof (induction xs)
  case (Cons x xs)
  have "distinct (filter P xs)"
  proof (rule Cons.IH)
    fix j k
    assume "j < length xs" "k < length xs" "j \<noteq> k" "P (xs ! j)"
    then show "xs ! j \<noteq> xs ! k" using Cons.prems [of "Suc j" "Suc k"] by simp
  qed
  moreover have "x \<notin> set xs" if "P x"
    using Cons.prems [of 0 "Suc k" for k] that by (auto simp: in_set_conv_nth)
  ultimately show ?case by simp
qed simp

lemma dom_links:
  assumes "slots_ok t"
  shows "dom (links t) = set (map the (filter (\<lambda>x. x \<noteq> None) (slot_ids t)))"
    and "distinct (map the (filter (\<lambda>x. x \<noteq> None) (slot_ids t)))"
proof -
  show "dom (links t) = set (map the (filter (\<lambda>x. x \<noteq> None) (slot_ids t)))"
  proof (rule set_eqI)
    fix i
    have "i \<in> dom (links t) \<longleftrightarrow> Some i \<in> set (slot_ids t)"
      using assms by (rule dom_links_iff)
    then show "i \<in> dom (links t) \<longleftrightarrow> i \<in> set (map the (filter (\<lambda>x. x \<noteq> None) (slot_ids t)))"
      by (force simp: image_iff)
  qed
  have "inj_on the (set (filter (\<lambda>x. x \<noteq> None) (slot_ids t)))" by (auto intro!: inj_onI)
  moreover have "distinct (filter (\<lambda>x. x \<noteq> None) (slot_ids t))"
  proof -
    have "slot_ids t ! j \<noteq> slot_ids t ! k" if "j < length (slots t)" "k < length (slots t)" "j \<noteq> k" "slot_ids t ! j \<noteq> None" for j k
    proof
      assume "slot_ids t ! j = slot_ids t ! k"
      with that(4) obtain i where "slot_ids t ! j = Some i" "slot_ids t ! k = Some i" by auto
      then have "slot_of i = j" "slot_of i = k"
        using slots_ok_id(1) [OF assms that(1)] slots_ok_id(1) [OF assms that(2)] by blast+
      with that(3) show False by simp
    qed
    then show ?thesis by (intro distinct_filter_nth) simp
  qed
  ultimately show "distinct (map the (filter (\<lambda>x. x \<noteq> None) (slot_ids t)))"
    by (simp add: distinct_map)
qed

lemma card_links: "slots_ok t \<Longrightarrow> finite (dom (links t)) \<and> card (dom (links t)) = count t"
  using dom_links [of t] distinct_card [OF dom_links(2), of t] by (simp add: slots_ok_def)

lemma count_le_slots: "slots_ok t \<Longrightarrow> count t \<le> length (slots t)"
  by (metis length_filter_le length_slot_ids slots_ok_def)

section \<open>Walking to the root\<close>

text \<open>The bounded walk of \<open>depth\<close> computes the depth, or reports that it is over the limit.\<close>

lemma depth_loop_exact:
  "at_depth (links t) i d \<Longrightarrow> k + d \<le> usize_max \<Longrightarrow>
    depth_loop t i k = (if d = 0 \<or> k + d < max_depth (tconfig t) then Inr (k + d) else Inl DepthExceeded)"
proof (induction d arbitrary: i k)
  case 0
  from 0(1) show ?case by cases (auto simp: depth_loop.simps links_Some)
next
  case (Suc d)
  from Suc.prems(1) obtain p cs where p: "links t i = Some (Some p, cs)" "at_depth (links t) p d"
    by (rule at_depth_Suc)
  from p(1) obtain n where n: "node t i = Some n" "nparent n = Some p" by (auto simp: links_Some)
  have "depth_loop t i k = (if k + 1 \<ge> max_depth (tconfig t) then Inl DepthExceeded else depth_loop t p (k + 1))"
    using n Suc.prems(2) by (simp add: depth_loop.simps [of t i k])
  then show ?case using Suc.IH [OF p(2), of "k + 1"] Suc.prems(2) by auto
qed

lemma find_cycle_exact:
  "at_depth (links t) c d \<Longrightarrow>
    find_cycle t i c = Some (if descendant (links t) i c then Inl Cycle else Inr ())"
proof (induction d arbitrary: c)
  case 0
  then obtain cs where c: "links t c = Some (None, cs)" by (rule at_depth_0)
  then obtain n where n: "node t c = Some n" "nparent n = None" by (auto simp: links_Some)
  have "descendant (links t) i c \<longleftrightarrow> c = i"
    using c by (auto intro: descendant.self elim: descendant.cases)
  with n show ?case by (simp add: find_cycle.simps [of t i c])
next
  case (Suc d)
  from Suc.prems obtain p cs where p: "links t c = Some (Some p, cs)" "at_depth (links t) p d"
    by (rule at_depth_Suc)
  from p(1) obtain n where n: "node t c = Some n" "nparent n = Some p" by (auto simp: links_Some)
  have "descendant (links t) i c \<longleftrightarrow> c = i \<or> descendant (links t) i p"
    using p(1) by (auto intro: descendant.intros elim: descendant.cases)
  with n Suc.IH [OF p(2)] show ?case by (simp add: find_cycle.simps [of t i c])
qed

lemma mark_ancestors_returns:
  "at_depth (links t) i d \<Longrightarrow>
    \<exists>t'. mark_ancestors_dirty t i = Some (Inr (), t') \<and> same_shape t t' \<and> contents t' = contents t"
proof (induction d arbitrary: t i)
  case 0
  then obtain cs where c: "links t i = Some (None, cs)" by (rule at_depth_0)
  then obtain n where n: "node t i = Some n" "nparent n = None" by (auto simp: links_Some)
  then show ?case
    using same_shape_set_node [OF n(1), of "n\<lparr>dirty := True\<rparr>"] contents_set_node_same [OF n(1), of "n\<lparr>dirty := True\<rparr>"]
    by (simp add: mark_ancestors_dirty.simps [of t i])
next
  case (Suc d)
  from Suc.prems obtain p cs where p: "links t i = Some (Some p, cs)" "at_depth (links t) p d"
    by (rule at_depth_Suc)
  from p(1) obtain n where n: "node t i = Some n" "nparent n = Some p" by (auto simp: links_Some)
  let ?t = "set_node t (n\<lparr>dirty := True\<rparr>)"
  have s: "same_shape t ?t" by (rule same_shape_set_node [OF n(1)]) simp_all
  with p(2) have "at_depth (links ?t) p d" by (simp add: same_shape_def)
  from Suc.IH [OF this] obtain t' where t': "mark_ancestors_dirty ?t p = Some (Inr (), t')" "same_shape ?t t'"
    "contents t' = contents ?t" by blast
  have "contents ?t = contents t" using contents_set_node_same [OF n(1), of "n\<lparr>dirty := True\<rparr>"] by simp
  with t' s n show ?case
    by (auto simp: mark_ancestors_dirty.simps [of t i] Let_def intro: same_shape_trans)
qed

section \<open>Collecting a subtree\<close>

text \<open>Every node of the list is below the ones seen before it.\<close>

fun parents_first :: "'i links \<Rightarrow> 'i set \<Rightarrow> 'i list \<Rightarrow> bool" where
  "parents_first L seen [] \<longleftrightarrow> True"
| "parents_first L seen (x # xs) \<longleftrightarrow> (\<exists>p\<in>seen. \<exists>cs. L x = Some (Some p, cs)) \<and> parents_first L (insert x seen) xs"

lemma parents_first_mono: "parents_first L A xs \<Longrightarrow> A \<subseteq> B \<Longrightarrow> parents_first L B xs"
proof (induction xs arbitrary: A B)
  case (Cons x xs)
  from Cons.IH [of "insert x A" "insert x B"] Cons.prems show ?case by auto
qed simp

lemma parents_first_append:
  "parents_first L A (xs @ ys) \<longleftrightarrow> parents_first L A xs \<and> parents_first L (A \<union> set xs) ys"
  by (induction xs arbitrary: A) auto

lemma collect_exact:
  assumes T: "tree_links (links t) r" and f: "finite (dom (links t))"
  shows "at_depth (links t) i d \<Longrightarrow> card (dom (links t)) \<le> d + fuel \<Longrightarrow>
    \<exists>sub. collect_subtree fuel t i out = Some (Inr (out @ i # sub)) \<and> distinct (i # sub)
      \<and> set (i # sub) = {x. descendant (links t) i x} \<and> parents_first (links t) {i} sub"
proof (induction fuel arbitrary: i d out)
  case 0
  then show ?case using at_depth_card [OF 0(1) f] by simp
next
  case (Suc fuel)
  let ?L = "links t"
  from at_depth_dom [OF Suc.prems(1)] obtain n where n: "node t i = Some n" by (auto simp: links_def)
  then have i: "?L i = Some (nparent n, children n)" by (simp add: links_def)
  have kid: "at_depth ?L c (Suc d)" if "c \<in> set (children n)" for c
    using tree_links_child [OF T i that] Suc.prems(1) by (blast intro: at_depth.below)
  have kids: "\<exists>sub. collect_children fuel t cs out = Some (Inr (out @ sub)) \<and> distinct sub
      \<and> set sub = {x. \<exists>c\<in>set cs. descendant ?L c x} \<and> parents_first ?L {i} sub"
    if "set cs \<subseteq> set (children n)" "distinct cs" for cs out
    using that
  proof (induction cs arbitrary: out)
    case (Cons c cs)
    have c: "c \<in> set (children n)" using Cons.prems by simp
    from Suc.IH [OF kid [OF c], of out] Suc.prems(2)
    obtain s1 where s1: "collect_subtree fuel t c out = Some (Inr (out @ c # s1))" "distinct (c # s1)"
      "set (c # s1) = {x. descendant ?L c x}" "parents_first ?L {c} s1" by auto
    from Cons.IH [of "out @ c # s1"] Cons.prems
    obtain s2 where s2: "collect_children fuel t cs (out @ c # s1) = Some (Inr (out @ c # s1 @ s2))"
      "distinct s2" "set s2 = {x. \<exists>c\<in>set cs. descendant ?L c x}" "parents_first ?L {i} s2" by auto
    have "x \<notin> set s2" if "x \<in> set (c # s1)" for x
    proof
      assume "x \<in> set s2"
      with s2(3) obtain c' where c': "c' \<in> set cs" "descendant ?L c' x" by blast
      have "descendant ?L c x" using that s1(3) by blast
      from descendant_same_depth [OF this c'(2) kid [OF c] kid] c'(1) Cons.prems show False by auto
    qed
    then have "distinct ((c # s1) @ s2)" using s1(2) s2(2) by auto
    moreover have "set ((c # s1) @ s2) = {x. \<exists>c\<in>set (c # cs). descendant ?L c x}"
      using s1(3) s2(3) by (simp only: set_append) auto
    moreover have "parents_first ?L {i} ((c # s1) @ s2)"
      using tree_links_child [OF T i c] parents_first_mono [OF s1(4), of "{i, c}"]
        parents_first_mono [OF s2(4)] by (auto simp: parents_first_append insert_commute)
    ultimately show ?case using s1(1) s2(1) by (intro exI [of _ "(c # s1) @ s2"]) simp
  qed simp
  from kids [of "children n" "out @ [i]"] tree_links_distinct [OF T i]
  obtain sub where sub: "collect_children fuel t (children n) (out @ [i]) = Some (Inr (out @ i # sub))"
    "distinct sub" "set sub = {x. \<exists>c\<in>set (children n). descendant ?L c x}" "parents_first ?L {i} sub" by auto
  have "i \<notin> set sub"
  proof
    assume "i \<in> set sub"
    with sub(3) obtain c where "c \<in> set (children n)" "descendant ?L c i" by blast
    with descendant_depth [OF this(2) kid Suc.prems(1)] show False by simp
  qed
  moreover have "set (i # sub) = {x. descendant ?L i x}"
    using sub(3) descendant_child [OF T i] by auto
  ultimately show ?case using sub n by auto
qed

section \<open>Operations that keep the shape\<close>

lemma tree_inv_depth: "tree_inv t \<Longrightarrow> node t i = Some n \<Longrightarrow> \<exists>d. at_depth (links t) i d \<and> d < length (slots t)"
proof -
  assume t: "tree_inv t" and n: "node t i = Some n"
  then have "i \<in> dom (links t)" by (auto simp: links_def)
  moreover have "tree_links (links t) (root t)" using t by (simp add: tree_inv_def)
  ultimately obtain d where d: "at_depth (links t) i d" using tree_linksD(4) [of "links t" "root t" i] by auto
  have ok: "slots_ok t" using t by (simp add: tree_inv_def)
  have "d < length (slots t)"
    using at_depth_card [OF d] card_links [OF ok] count_le_slots [OF ok] by simp
  with d show ?thesis by blast
qed

lemma mark_ancestors_inv:
  "tree_inv t \<Longrightarrow> node t i = Some n \<Longrightarrow>
    \<exists>t'. mark_ancestors_dirty t i = Some (Inr (), t') \<and> same_shape t t' \<and> contents t' = contents t"
  using tree_inv_depth mark_ancestors_returns by blast

lemma set_rect_shape: "same_shape t (snd (set_rect t i r))"
  by (cases "node t i") (simp_all add: set_rect_def same_shape_set_node)

lemma update_content_shape: "same_shape t (snd (update_content t i f))"
  by (cases "node t i") (simp_all add: update_content_def same_shape_set_node)

lemma set_content_returns:
  assumes "tree_inv t"
  shows "\<exists>r t'. set_content t i c = Ret (r, t') \<and> same_shape t t'"
proof (cases "node t i")
  case (Some n)
  let ?t = "set_node t (n\<lparr>content := c\<rparr>)"
  have s: "same_shape t ?t" by (rule same_shape_set_node [OF Some]) simp_all
  have "node ?t i = Some (n\<lparr>content := c\<rparr>)"
    using node_set_node [of t "n\<lparr>content := c\<rparr>"] Some by (auto simp: node_Some)
  with mark_ancestors_inv [of ?t i] s same_shape_inv [OF s] assms
  obtain t' where "mark_ancestors_dirty ?t i = Some (Inr (), t')" "same_shape t t'"
    by (metis same_shape_trans)
  then show ?thesis using Some by (simp add: set_content_def returned_def)
qed (simp add: set_content_def)

section \<open>Generations\<close>

text \<open>Generations only grow; a handle whose generation is behind its slot's has expired for good.\<close>

definition later :: "ui_tree \<Rightarrow> ui_tree \<Rightarrow> bool" where
  "later t t' \<longleftrightarrow> length (generations t) \<le> length (generations t')
     \<and> (\<forall>k<length (generations t). generations t ! k \<le> generations t' ! k)"

definition expired :: "ui_tree \<Rightarrow> ui_node_id \<Rightarrow> bool" where
  "expired t i \<longleftrightarrow> slot_of i < length (generations t) \<and> generation i < generations t ! slot_of i"

lemma later_refl [simp]: "generations t' = generations t \<Longrightarrow> later t t'"
  by (simp add: later_def)

lemma later_trans: "later t t' \<Longrightarrow> later t' t'' \<Longrightarrow> later t t''"
  unfolding later_def by (meson less_le_trans order_trans)

lemma expired_later: "expired t i \<Longrightarrow> later t t' \<Longrightarrow> expired t' i"
  unfolding expired_def later_def by (meson less_le_trans)

lemma expired_invalid: "expired t i \<Longrightarrow> \<not> valid_slot t i"
  by (auto simp: expired_def valid_slot_def vec_get_def)

lemma word_less_Suc: "w \<noteq> - 1 \<Longrightarrow> w < w + 1" for w :: u32
proof -
  assume w: "w \<noteq> - 1"
  have "unat w \<noteq> 4294967295"
  proof
    assume "unat w = 4294967295"
    then have "w = of_nat 4294967295" by (metis unat_of_nat_u32 of_nat_unat_u32)
    with w show False by simp
  qed
  with unat_u32_less [of w] have "unat (w + 1) = unat w + 1" by (simp add: unat_word_ariths(1) [of w 1])
  then show ?thesis by (simp add: word_less_nat_alt)
qed

section \<open>Creation\<close>

lemma count_fill:
  "k < length xs \<Longrightarrow> xs ! k = None \<Longrightarrow>
    length (filter (\<lambda>x. x \<noteq> None) (xs[k := Some y])) = Suc (length (filter (\<lambda>x. x \<noteq> None) xs))"
proof -
  assume k: "k < length xs" "xs ! k = None"
  have "xs = take k xs @ None # drop (Suc k) xs" using k id_take_nth_drop by metis
  then have "filter (\<lambda>x. x \<noteq> None) xs = filter (\<lambda>x. x \<noteq> None) (take k xs @ None # drop (Suc k) xs)" by simp
  then show ?thesis using k by (simp add: upd_conv_take_nth_drop)
qed

lemma count_clear:
  "k < length xs \<Longrightarrow> xs ! k = Some y \<Longrightarrow>
    Suc (length (filter (\<lambda>x. x \<noteq> None) (xs[k := None]))) = length (filter (\<lambda>x. x \<noteq> None) xs)"
  using count_fill [of k "xs[k := None]" y] by (metis length_list_update list_update_id list_update_overwrite nth_list_update_eq)

text \<open>What \<open>take_slot\<close> hands out: an empty slot that is no longer free, under a handle of its generation.\<close>

definition slot_taken :: "ui_tree \<Rightarrow> ui_node_id \<Rightarrow> bool" where
  "slot_taken t i \<longleftrightarrow> slot_of i < length (slots t) \<and> slots t ! slot_of i = None \<and> index i \<notin> set (free t)
     \<and> generation i = generations t ! slot_of i"

lemma take_slot_ok:
  assumes "slots_ok t"
  shows "\<exists>r t1. take_slot al t = Ret (r, t1) \<and> slots_ok t1 \<and> node t1 = node t \<and> root t1 = root t \<and> count t1 = count t
     \<and> tconfig t1 = tconfig t \<and> later t t1 \<and> (\<forall>i. r = Inr i \<longrightarrow> slot_taken t1 i)"
proof (cases "vec_pop (free t)")
  case (Some a)
  obtain x fr where a: "a = (x, fr)" by force
  with Some have fr: "free t = fr @ [x]" by (simp add: vec_pop_Some)
  have x: "unat x < length (slots t)" "slot_ids t ! unat x = None" "x \<notin> set fr"
    using assms fr by (simp_all add: slots_ok_def)
  have "slots t ! unat x = None" using x(1,2) by (simp add: slot_ids_nth)
  moreover have "slot_ids (t\<lparr>free := fr\<rparr>) = slot_ids t" by (simp add: slot_ids_def)
  then have "slots_ok (t\<lparr>free := fr\<rparr>)" using assms fr by (simp add: slots_ok_def)
  moreover have "node (t\<lparr>free := fr\<rparr>) = node t" by (simp add: node_def fun_eq_iff)
  ultimately show ?thesis
    using Some a x slots_ok_length [OF assms]
    by (simp add: take_slot_def vec_get_def slot_taken_def ui_id_new_def)
next
  case None
  show ?thesis
  proof (cases "length (slots t) \<le> u32_max \<and> al 0 \<and> al 1")
    case True
    let ?t = "t\<lparr>slots := slots t @ [None], generations := generations t @ [1]\<rparr>"
    let ?i = "ui_id_new (of_nat (length (slots t))) 1"
    have i: "slot_of ?i = length (slots t)" using True by (simp add: ui_id_new_def unat_of_nat_u32)
    have nd: "node ?t = node t"
      by (auto simp: fun_eq_iff node_def vec_get_def nth_append split: option.splits)
    have "slots_ok ?t"
      using assms True by (auto simp: slots_ok_def slot_ids_def nth_append u32_max_def)
    moreover have "slot_taken ?t ?i"
      using i None assms by (simp add: slot_taken_def nth_append slots_ok_length) (simp add: ui_id_new_def)
    moreover have "later t ?t" by (simp add: later_def nth_append)
    ultimately show ?thesis using None True nd by (simp add: take_slot_def)
  qed (use assms None in \<open>auto simp: take_slot_def\<close>)
qed

lemma link_child_inv:
  assumes ok: "slots_ok t" and tr: "tree_links (links t) (root t)" and room: "count t < max_nodes (tconfig t)"
    and p: "node t p = Some pn" and i: "slot_taken t i"
  shows "tree_inv (link_child t pn (new_node i p c))"
    and "node (link_child t pn (new_node i p c)) = (node t)(p \<mapsto> pn\<lparr>children := children pn @ [i]\<rparr>, i \<mapsto> new_node i p c)"
proof -
  let ?pn = "pn\<lparr>children := children pn @ [i]\<rparr>" and ?n = "new_node i p c"
  let ?t1 = "set_node t ?pn" and ?t = "link_child t pn (new_node i p c)"
  have pid: "nid pn = p" using p by (simp add: node_Some)
  have nid: "nid ?n = i" by (simp add: new_node_def)
  have fresh: "node t i = None" using i by (simp add: node_def slot_taken_def vec_get_def)
  have pi: "slot_of p \<noteq> slot_of i" using p i by (auto simp: node_Some slot_taken_def)
  have n1: "node ?t1 = (node t)(p \<mapsto> ?pn)" using node_set_node [of t ?pn] p pid by simp
  have s1: "slot_ids ?t1 = slot_ids t" using slot_ids_set_node [of t ?pn] p pid by simp
  have e: "slots ?t1 ! slot_of i = None" using i pi pid by (simp add: set_node_def slot_taken_def)
  have t: "?t = ?t1\<lparr>slots := (slots ?t1)[slot_of i := Some ?n], count := count t + 1\<rparr>"
    by (simp add: link_child_def new_node_def set_node_def)
  show nd: "node ?t = (node t)(p \<mapsto> ?pn, i \<mapsto> ?n)"
  proof
    fix j
    have "node ?t j = (if slot_of j = slot_of i then (if j = i then Some ?n else None) else node ?t1 j)"
      using i unfolding t by (auto simp: node_def vec_get_def nth_list_update slot_taken_def nid)
    moreover have "node ?t1 j = None" if "slot_of j = slot_of i"
      using e i that by (simp add: node_def vec_get_def slot_taken_def)
    ultimately show "node ?t j = ((node t)(p \<mapsto> ?pn, i \<mapsto> ?n)) j" using n1 by auto
  qed
  have sids: "slot_ids ?t = (slot_ids t)[slot_of i := Some i]"
    unfolding t by (simp add: slot_ids_def map_update nid s1 [unfolded slot_ids_def, symmetric])
  have emp: "slot_ids t ! slot_of i = None" using i by (simp add: slot_ids_nth slot_taken_def)
  have len: "length (slots ?t) = length (slots t)" unfolding t by simp
  have "slots_ok ?t"
    unfolding slots_ok_def
  proof (intro conjI allI impI ballI)
    fix k j
    assume k: "k < length (slots ?t)" "slot_ids ?t ! k = Some j"
    have "slot_of j = k \<and> generation j = generations t ! k"
    proof (cases "k = slot_of i")
      case True
      then have "j = i" using k i by (simp add: sids slot_taken_def)
      then show ?thesis using True i by (simp add: slot_taken_def)
    next
      case False
      then have "slot_ids t ! k = Some j" using k(2) by (simp add: sids)
      then show ?thesis using k(1) slots_ok_id [OF ok, of k j] by (simp add: len)
    qed
    then show "slot_of j = k" "generation j = generations ?t ! k" by (simp_all add: t)
  next
    fix f assume "f \<in> set (free ?t)"
    then have f: "f \<in> set (free t)" by (simp add: t)
    with ok show "unat f < length (slots ?t)" by (simp add: len slots_ok_def)
    have "f \<noteq> index i" using i f by (auto simp: slot_taken_def)
    then have "unat f \<noteq> slot_of i" by (simp add: word_eq_iff_unsigned [where ?'a = nat])
    with ok f show "slot_ids ?t ! unat f = None" by (simp add: sids slots_ok_def)
  next
    show "count ?t = length (filter (\<lambda>x. x \<noteq> None) (slot_ids ?t))"
    proof -
      have "count ?t = Suc (count t)" by (simp add: t)
      then show ?thesis
        using count_fill [of "slot_of i" "slot_ids t" i] i emp ok unfolding sids
        by (simp add: slots_ok_def slot_taken_def)
    qed
  qed (use ok in \<open>simp_all add: slots_ok_def t\<close>)
  moreover have "links ?t = (links t)(p \<mapsto> (nparent pn, children pn @ [i]), i \<mapsto> (Some p, []))"
    by (rule ext) (simp add: links_def nd, simp add: new_node_def)
  then have "tree_links (links ?t) (root ?t)"
    using tree_links_create [OF tr, of p "nparent pn" "children pn" i] p fresh
    by (simp add: links_def t)
  ultimately show "tree_inv ?t" using room by (simp add: tree_inv_def t)
qed

lemma tree_create_cases:
  assumes t: "tree_inv t"
  obtains (failed) e t' where "tree_create al t p c = Ret (Inl e, t')" "tree_inv t'" "node t' = node t" "root t' = root t"
    "tconfig t' = tconfig t" "later t t'"
  | (created) i t' pn d where "tree_create al t p c = Ret (Inr i, t')" "tree_inv t'" "node t p = Some pn" "node t i = None"
    "node t' = (node t)(p \<mapsto> pn\<lparr>children := children pn @ [i]\<rparr>, i \<mapsto> new_node i p c)" "content_sane c"
    "root t' = root t" "tconfig t' = tconfig t" "tree_depth t p = Inr d" "d + 1 < max_depth (tconfig t)"
    "later t t'"
proof -
  have ok: "slots_ok t" and tr: "tree_links (links t) (root t)" using t by (simp_all add: tree_inv_def)
  from take_slot_ok [OF ok] obtain r t1 where s: "take_slot al t = Ret (r, t1)" "slots_ok t1" "node t1 = node t"
    "root t1 = root t" "count t1 = count t" "tconfig t1 = tconfig t" "\<And>i. r = Inr i \<Longrightarrow> slot_taken t1 i" "later t t1" by blast
  have inv1: "tree_inv t1" using s t by (simp add: tree_inv_def links_def [abs_def])
  have f: thesis if "tree_create al t p c = Ret (Inl e, t)" for e
    using failed [OF that t] by simp
  have f1: thesis if "tree_create al t p c = Ret (Inl e, t1)" for e
    using failed [OF that inv1] s by simp
  show thesis
  proof (cases "\<not> valid_slot t p \<or> \<not> content_sane c \<or> text_too_long t c \<or> isl (tree_depth t p)")
    case True
    then have "\<exists>e. tree_create al t p c = Ret (Inl e, t)"
      by (auto simp: tree_create_def split: sum.splits)
    then show ?thesis using f by blast
  next
    case False
    then obtain d pn where d: "tree_depth t p = Inr d" and pn: "node t p = Some pn"
      using valid_slot_iff [OF ok] by (auto simp: isl_def) (metis isl_def sum.exhaust_sel)
    show ?thesis
    proof (cases "d + 1 > usize_max \<or> d + 1 \<ge> max_depth (tconfig t) \<or> count t \<ge> max_nodes (tconfig t)")
      case True
      then have "\<exists>e. tree_create al t p c = Ret (Inl e, t)" using False d by (auto simp: tree_create_def)
      then show ?thesis using f by blast
    next
      case room: False
      show ?thesis
      proof (cases r)
        case (Inl e)
        then show ?thesis using False d room s by (intro f1 [of e]) (simp add: tree_create_def)
      next
        case (Inr i)
        have taken: "slot_taken t1 i" using s(7) Inr by blast
        have il: "slot_of i < length (slots t1)" using taken by (simp add: slot_taken_def)
        show ?thesis
        proof (cases "al 2 \<and> al 3")
          case True
          note lc = link_child_inv [OF s(2) _ _ _ taken, of p pn c]
          have pre: "tree_links (links t1) (root t1)" "count t1 < max_nodes (tconfig t1)" "node t1 p = Some pn"
            using inv1 room s pn by (simp_all add: tree_inv_def)
          have "tree_create al t p c = Ret (Inr i, link_child t1 pn (new_node i p c))"
            using False d room s Inr True pn il by (simp add: tree_create_def)
          moreover have "node t1 i = None" using taken by (simp add: node_def slot_taken_def vec_get_def)
          moreover have "later t (link_child t1 pn (new_node i p c))"
            using s(8) by (simp add: later_def link_child_def)
          ultimately show ?thesis
            using created [of i _ pn d] lc [OF pre] s pn False d room
            by (simp add: link_child_def)
        next
          case False': False
          then show ?thesis using False d room s Inr pn
            by (intro f1 [of AllocationFailed]) (simp add: tree_create_def)
        qed
      qed
    qed
  qed
qed

section \<open>Moving a subtree\<close>

text \<open>Only its parent lists a node.\<close>

lemma only_parent_lists:
  assumes "tree_links L r" "L i = Some (Some p, cs)" "L x = Some (q, xs)" "x \<noteq> p"
  shows "i \<notin> set xs"
  using tree_links_child [OF assms(1,3), of i] assms(2,4) by auto

lemma node_set_node_at: "node t i \<noteq> None \<Longrightarrow> nid n = i \<Longrightarrow> node (set_node t n) = (node t)(i \<mapsto> n)"
  using node_set_node by blast

lemma relink_exact:
  assumes t: "tree_inv t" and n: "node t i = Some n" "nparent n = Some old" and new: "node t new \<noteq> None" and ni: "new \<noteq> i"
  shows "\<exists>t'. relink t i old new = (Inr (), t') \<and> slot_ids t' = slot_ids t \<and> generations t' = generations t
     \<and> free t' = free t \<and> root t' = root t \<and> count t' = count t \<and> tconfig t' = tconfig t
     \<and> links t' = move_subtree (links t) i new \<and> contents t' = contents t"
proof -
  let ?L = "links t"
  have tr: "tree_links ?L (root t)" using t by (simp add: tree_inv_def)
  have Li: "?L i = Some (Some old, children n)" using n by (simp add: links_def)
  from tree_links_parent [OF tr Li] obtain po where po: "node t old = Some po" by (auto simp: links_Some)
  have oi: "old \<noteq> i"
  proof
    assume "old = i"
    obtain d where d: "at_depth ?L i d" using tree_inv_depth [OF t n(1)] by blast
    then obtain e where e: "at_depth ?L old e" "d = Suc e" using Li by cases auto
    with at_depth_unique [OF d, of e] \<open>old = i\<close> show False by simp
  qed
  have ids: "nid po = old" "nid n = i" using po n by (simp_all add: node_Some)
  let ?po = "po\<lparr>children := filter (\<lambda>c. c \<noteq> i) (children po)\<rparr>"
  let ?t1 = "set_node t ?po"
  have n1: "node ?t1 = (node t)(old \<mapsto> ?po)" using node_set_node_at [of t old ?po] po ids by simp
  obtain pn where pn: "node ?t1 new = Some pn" using n1 new by (cases "new = old") auto
  have idn: "nid pn = new" using pn by (simp add: node_Some)
  let ?pn = "pn\<lparr>children := children pn @ [i]\<rparr>"
  let ?t2 = "set_node ?t1 ?pn"
  have n2: "node ?t2 = (node t)(old \<mapsto> ?po, new \<mapsto> ?pn)" using node_set_node_at [of ?t1 new ?pn] pn idn n1 by simp
  have i2: "node ?t2 i = Some n" using n2 n oi ni by simp
  let ?n = "n\<lparr>nparent := Some new\<rparr>"
  let ?t3 = "set_node ?t2 ?n"
  have n3: "node ?t3 = (node t)(old \<mapsto> ?po, new \<mapsto> ?pn, i \<mapsto> ?n)"
    using node_set_node_at [of ?t2 i ?n] i2 ids n2 by simp
  have res: "relink t i old new = (Inr (), ?t3)" using po pn i2 by (simp add: relink_def Let_def)
  have sids: "slot_ids ?t3 = slot_ids t"
    using slot_ids_set_node [of t ?po] slot_ids_set_node [of ?t1 ?pn] slot_ids_set_node [of ?t2 ?n] po pn i2 ids idn by simp
  have "links ?t3 x = move_subtree ?L i new x" for x
  proof -
    have lists: "filter (\<lambda>c. c \<noteq> i) (children m) = children m" if "node t x = Some m" "x \<noteq> old" for m
      using only_parent_lists [OF tr Li, of x "nparent m" "children m"] that
      by (intro filter_True) (auto simp: links_def)
    consider "x = i" | "x = new" "x \<noteq> i" "new = old" | "x = new" "x \<noteq> i" "new \<noteq> old" | "x = old" "x \<noteq> new" "x \<noteq> i"
      | "x \<noteq> i" "x \<noteq> new" "x \<noteq> old" by blast
    then show ?thesis
    proof cases
      case 1
      then show ?thesis using n3 n lists [of n] oi ni by (simp add: links_def move_subtree_def)
    next
      case 2
      then have "pn = ?po" using pn n1 by simp
      then show ?thesis using 2 n3 po by (simp add: links_def move_subtree_def)
    next
      case 3
      then have "node t new = Some pn" using pn n1 by simp
      then show ?thesis using 3 n3 lists [of pn] by (simp add: links_def move_subtree_def)
    next
      case 4
      then show ?thesis using n3 po by (simp add: links_def move_subtree_def)
    next
      case 5
      then show ?thesis using n3 lists by (cases "node t x") (simp_all add: links_def move_subtree_def)
    qed
  qed
  then have "links ?t3 = move_subtree ?L i new" by (rule ext)
  moreover have "contents ?t3 = contents t"
    using contents_set_node_same [OF po, of ?po] contents_set_node_same [OF pn, of ?pn] contents_set_node_same [OF i2, of ?n] by simp
  ultimately show ?thesis using res sids by (intro exI [of _ ?t3]) simp
qed

lemma tree_reparent_cases:
  assumes t: "tree_inv t"
  obtains (failed) e where "tree_reparent al t i new = Ret (Inl e, t)"
  | (moved) t' where "tree_reparent al t i new = Ret (Inr (), t')" "tree_inv t'" "links t' = move_subtree (links t) i new"
    "\<not> descendant (links t) i new" "i \<in> dom (links t)" "new \<in> dom (links t)" "root t' = root t" "tconfig t' = tconfig t" "later t t'"
    "contents t' = contents t"
proof -
  have ok: "slots_ok t" and tr: "tree_links (links t) (root t)" using t by (simp_all add: tree_inv_def)
  show thesis
  proof (cases "i = root t \<or> node t new = None")
    case True
    then show ?thesis using failed valid_slot_iff [OF ok] by (simp add: tree_reparent_def)
  next
    case False
    then have new: "node t new \<noteq> None" and ir: "i \<noteq> root t" by simp_all
    have v: "valid_slot t new" using valid_slot_iff [OF ok] new by simp
    obtain d where d: "at_depth (links t) new d" using tree_inv_depth [OF t] new by blast
    note cyc = find_cycle_exact [OF d, of i]
    show ?thesis
    proof (cases "descendant (links t) i new")
      case True
      then show ?thesis using failed [of Cycle] ir v cyc by (simp add: tree_reparent_def returned_def)
    next
      case nd: False
      show ?thesis
      proof (cases "\<exists>e. tree_reparent al t i new = Ret (Inl e, t)")
        case False
        then obtain n old where n: "node t i = Some n" "nparent n = Some old"
          and red: "tree_reparent al t i new = (case relink t i old new of
              (Inl e, t') \<Rightarrow> Ret (Inl e, t') | (Inr _, t') \<Rightarrow> returned (mark_ancestors_dirty t' i))"
          using ir v new cyc nd
          by (auto simp: tree_reparent_def returned_def split: sum.splits if_splits option.splits)
        have ni: "new \<noteq> i" using nd descendant.self by metis
        from relink_exact [OF t n new ni] obtain t1 where t1: "relink t i old new = (Inr (), t1)"
          "slot_ids t1 = slot_ids t" "generations t1 = generations t" "free t1 = free t" "root t1 = root t"
          "count t1 = count t" "tconfig t1 = tconfig t" "links t1 = move_subtree (links t) i new"
          "contents t1 = contents t" by blast
        have len: "length (slots t1) = length (slots t)" using t1(2) length_slot_ids by metis
        have dom: "i \<in> dom (links t)" "new \<in> dom (links t)" using n new by (auto simp: links_def)
        have "slots_ok t1" using ok t1 len by (simp add: slots_ok_def)
        moreover have "tree_links (links t1) (root t1)"
          using tree_links_move [OF tr ir dom nd] t1 by simp
        ultimately have inv1: "tree_inv t1" using t t1 by (simp add: tree_inv_def)
        have "links t1 i \<noteq> None" using t1(8) dom by (auto simp: move_subtree_def)
        then obtain m where "node t1 i = Some m" by (auto simp: links_def)
        from mark_ancestors_inv [OF inv1 this] obtain t2 where
          t2: "mark_ancestors_dirty t1 i = Some (Inr (), t2)" "same_shape t1 t2" "contents t2 = contents t1" by blast
        show ?thesis
          using moved [of t2] red t1 t2 inv1 same_shape_inv [OF t2(2)] nd dom
          by (simp add: returned_def same_shape_def)
      qed (use failed in blast)
    qed
  qed
qed

section \<open>Destroying a subtree\<close>

lemma check_generations_ok:
  "\<forall>i\<in>set order. slot_of i < length gs \<Longrightarrow>
    check_generations gs order = Ret (\<forall>i\<in>set order. gs ! slot_of i \<noteq> - 1)"
  by (induction order) (auto simp: vec_get_def)

lemma remove_slot_step:
  assumes ok: "slots_ok t" and n: "node t i = Some n" and g: "generation i \<noteq> - 1"
  shows "\<exists>t'. remove_slot i t = Ret t' \<and> slots_ok t' \<and> node t' = (node t)(i := None) \<and> root t' = root t
     \<and> tconfig t' = tconfig t \<and> Suc (count t') = count t \<and> later t t' \<and> expired t' i"
proof -
  have i: "slot_of i < length (slots t)" "slots t ! slot_of i = Some n" "nid n = i" using n by (simp_all add: node_Some)
  have si: "slot_ids t ! slot_of i = Some i" using i by (simp add: slot_ids_nth)
  have gi: "generations t ! slot_of i = generation i" using slots_ok_id(2) [OF ok i(1) si] by simp
  let ?t = "t\<lparr>slots := (slots t)[slot_of i := None], generations := (generations t)[slot_of i := generation i + 1],
      free := free t @ [index i], count := count t - 1\<rparr>"
  have r: "remove_slot i t = Ret ?t"
    using i gi g slots_ok_length [OF ok] by (simp add: remove_slot_def vec_get_def)
  have nd: "node ?t = (node t)(i := None)"
  proof
    fix j
    show "node ?t j = ((node t)(i := None)) j"
    proof (cases "slot_of j = slot_of i")
      case True
      then show ?thesis using i by (simp add: node_def vec_get_def)
    next
      case False
      then have "j \<noteq> i" by blast
      then show ?thesis using False by (simp add: node_def vec_get_def)
    qed
  qed
  have sids: "slot_ids ?t = (slot_ids t)[slot_of i := None]" by (simp add: slot_ids_def map_update)
  have cnt: "Suc (length (filter (\<lambda>x. x \<noteq> None) ((slot_ids t)[slot_of i := None]))) = count t"
    using count_clear [OF _ si] i(1) slots_ok_count [OF ok] by simp
  have "slots_ok ?t"
    unfolding slots_ok_def
  proof (intro conjI allI impI ballI)
    fix k j
    assume k: "k < length (slots ?t)" "slot_ids ?t ! k = Some j"
    have ki: "k \<noteq> slot_of i"
    proof
      assume "k = slot_of i"
      then have "slot_ids ?t ! k = None" using i(1) unfolding sids by simp
      with k(2) show False by simp
    qed
    then have j: "slot_ids t ! k = Some j" using k(2) unfolding sids by simp
    have kl: "k < length (slots t)" using k(1) by simp
    show "slot_of j = k" by (rule slots_ok_id(1) [OF ok kl j])
    show "generation j = generations ?t ! k" using slots_ok_id(2) [OF ok kl j] ki by simp
  next
    have "index i \<notin> set (free t)"
    proof
      assume "index i \<in> set (free t)"
      then have "slot_ids t ! slot_of i = None" using ok by (simp add: slots_ok_def)
      with si show False by simp
    qed
    then show "distinct (free ?t)" using ok by (simp add: slots_ok_def)
  next
    fix f assume "f \<in> set (free ?t)"
    then consider "f = index i" | "f \<in> set (free t)" "f \<noteq> index i" by auto
    then have "unat f < length (slots t) \<and> slot_ids ?t ! unat f = None"
    proof cases
      case 1
      then show ?thesis using i(1) unfolding sids by simp
    next
      case 2
      then have "unat f < length (slots t)" "slot_ids t ! unat f = None" using ok by (simp_all add: slots_ok_def)
      then show ?thesis unfolding sids by (cases "unat f = slot_of i") simp_all
    qed
    then show "unat f < length (slots ?t)" "slot_ids ?t ! unat f = None" by simp_all
  next
    show "count ?t = length (filter (\<lambda>x. x \<noteq> None) (slot_ids ?t))" using cnt unfolding sids by simp
  next
    show "length (generations ?t) = length (slots ?t)" using ok by (simp add: slots_ok_def)
    show "length (slots ?t) \<le> 2 ^ 32" using ok by (simp add: slots_ok_def)
  qed
  moreover have "Suc (count ?t) = count t" using cnt by simp
  moreover have "later t ?t" "expired ?t i"
    using gi i(1) slots_ok_length [OF ok] word_less_Suc [OF g]
    by (auto simp: later_def expired_def nth_list_update intro: less_imp_le)
  ultimately show ?thesis using r nd by (intro exI [of _ ?t]) simp
qed

lemma remove_slots_exact:
  assumes "slots_ok t" "distinct order" "\<forall>i\<in>set order. node t i \<noteq> None \<and> generation i \<noteq> - 1"
  shows "\<exists>t'. run_fold remove_slot order t = Ret t' \<and> slots_ok t'
     \<and> node t' = (\<lambda>x. if x \<in> set order then None else node t x) \<and> root t' = root t \<and> tconfig t' = tconfig t
     \<and> count t' + length order = count t \<and> later t t' \<and> (\<forall>i\<in>set order. expired t' i)"
  using assms
proof (induction order arbitrary: t)
  case (Cons i order)
  then obtain n where "node t i = Some n" "generation i \<noteq> - 1" by auto
  from remove_slot_step [OF Cons.prems(1) this] obtain t1 where t1: "remove_slot i t = Ret t1" "slots_ok t1"
    "node t1 = (node t)(i := None)" "root t1 = root t" "tconfig t1 = tconfig t" "Suc (count t1) = count t"
    "later t t1" "expired t1 i" by blast
  have "\<forall>j\<in>set order. node t1 j \<noteq> None \<and> generation j \<noteq> - 1" using Cons.prems t1(3) by auto
  from Cons.IH [OF t1(2) _ this] Cons.prems(2) obtain t2 where t2: "run_fold remove_slot order t1 = Ret t2" "slots_ok t2"
    "node t2 = (\<lambda>x. if x \<in> set order then None else node t1 x)" "root t2 = root t1" "tconfig t2 = tconfig t1"
    "count t2 + length order = count t1" "later t1 t2" "\<forall>i\<in>set order. expired t2 i" by auto
  have "node t2 = (\<lambda>x. if x \<in> set (i # order) then None else node t x)" using t2(3) t1(3) by auto
  moreover have "later t t2" using t1(7) t2(7) by (rule later_trans)
  moreover have "expired t2 i" using t1(8) t2(7) by (rule expired_later)
  ultimately show ?case using t1 t2 by simp
qed simp

lemma tree_destroy_cases:
  assumes t: "tree_inv t"
  obtains (failed) e where "tree_destroy al t i = Ret (Inl e, t)"
  | (destroyed) t' where "tree_destroy al t i = Ret (Inr (), t')" "tree_inv t'" "links t' = remove_subtree (links t) i"
    "i \<in> dom (links t)" "i \<noteq> root t" "root t' = root t" "tconfig t' = tconfig t"
    "count t' + card {x. descendant (links t) i x} = count t" "later t t'"
    "\<And>x. descendant (links t) i x \<Longrightarrow> expired t' x"
    "\<And>x n. node t' x = Some n \<Longrightarrow> \<exists>m. node t x = Some m \<and> content n = content m \<and> nrect n = nrect m"
proof -
  have ok: "slots_ok t" and tr: "tree_links (links t) (root t)" using t by (simp_all add: tree_inv_def)
  show thesis
  proof (cases "i = root t \<or> \<not> al 0 \<or> node t i = None")
    case True
    have "length (slots t) \<noteq> 0"
      using tree_linksD(3) [OF tr] by (auto simp: links_def node_Some)
    then obtain f where "length (slots t) = Suc f" by (metis not0_implies_Suc)
    then have "\<exists>e. tree_destroy al t i = Ret (Inl e, t)" using True by (auto simp: tree_destroy_def returned_def)
    then show ?thesis using failed by blast
  next
    case False
    then obtain n where n: "node t i = Some n" and ir: "i \<noteq> root t" and al0: "al 0" by auto
    have di: "i \<in> dom (links t)" using n by (auto simp: links_def)
    obtain d where d: "at_depth (links t) i d" using tree_inv_depth [OF t n] by blast
    from collect_exact [OF tr _ d, of "length (slots t)" "[]"] card_links [OF ok] count_le_slots [OF ok]
    obtain sub where sub: "collect_subtree (length (slots t)) t i [] = Some (Inr (i # sub))" "distinct (i # sub)"
      "set (i # sub) = {x. descendant (links t) i x}" by auto
    let ?order = "i # sub"
    have live: "node t x \<noteq> None" if "x \<in> set ?order" for x
    proof -
      from that sub(3) have "descendant (links t) i x" by blast
      then show ?thesis using n by cases (auto simp: links_def)
    qed
    have gens: "generations t ! slot_of x = generation x \<and> slot_of x < length (generations t)" if "x \<in> set ?order" for x
    proof -
      from live [OF that] obtain m where m: "slot_of x < length (slots t)" "slots t ! slot_of x = Some m" "nid m = x"
        by (auto simp: node_Some)
      then have "slot_ids t ! slot_of x = Some x" by (simp add: slot_ids_nth)
      from slots_ok_id(2) [OF ok m(1) this] m(1) slots_ok_length [OF ok] show ?thesis by simp
    qed
    have chk: "check_generations (generations t) ?order = Ret (\<forall>x\<in>set ?order. generations t ! slot_of x \<noteq> - 1)"
      using gens by (intro check_generations_ok) blast
    obtain p where p: "nparent n = Some p"
      using tree_linksD(2) [OF tr, of i "(nparent n, children n)"] n ir by (auto simp: links_def)
    have Li: "links t i = Some (Some p, children n)" using n p by (simp add: links_def)
    from tree_links_parent [OF tr Li] obtain pn where pn: "node t p = Some pn" by (auto simp: links_Some)
    let ?pn = "pn\<lparr>children := filter (\<lambda>c. c \<noteq> i) (children pn)\<rparr>"
    let ?t1 = "set_node t ?pn"
    have idp: "nid pn = p" using pn by (simp add: node_Some)
    have n1: "node ?t1 = (node t)(p \<mapsto> ?pn)" using node_set_node_at [of t p ?pn] pn idp by simp
    show ?thesis
    proof (cases "al 1 \<and> (\<forall>x\<in>set ?order. generations t ! slot_of x \<noteq> - 1)")
      case False
      then show ?thesis using failed ir al0 sub(1) chk by (cases "al 1") (simp_all add: tree_destroy_def returned_def)
    next
      case True
      have pre: "\<forall>x\<in>set (rev ?order). node ?t1 x \<noteq> None \<and> generation x \<noteq> - 1"
      proof
        fix x
        assume "x \<in> set (rev ?order)"
        then have x: "x \<in> set ?order" by (simp only: set_rev)
        have "generation x \<noteq> - 1" using True gens [OF x] x by metis
        moreover have "node ?t1 x \<noteq> None" using live [OF x] n1 by simp
        ultimately show "node ?t1 x \<noteq> None \<and> generation x \<noteq> - 1" by blast
      qed
      have ok1: "slots_ok ?t1" using slots_ok_set_node [of t ?pn] pn idp ok by simp
      have dist: "distinct (rev ?order)" using sub(2) by (simp only: distinct_rev)
      from remove_slots_exact [OF ok1 dist pre] obtain t2 where t2:
        "run_fold remove_slot (rev ?order) ?t1 = Ret t2" "slots_ok t2"
        "node t2 = (\<lambda>x. if x \<in> set (rev ?order) then None else node ?t1 x)" "root t2 = root ?t1" "tconfig t2 = tconfig ?t1"
        "count t2 + length (rev ?order) = count ?t1" "later ?t1 t2" "\<forall>x\<in>set (rev ?order). expired t2 x" by blast
      have res: "tree_destroy al t i = Ret (Inr (), t2)"
        using ir al0 sub(1) chk True n p pn t2(1) by (simp add: tree_destroy_def returned_def)
      have nd2: "node t2 x = (if descendant (links t) i x then None else ((node t)(p \<mapsto> ?pn)) x)" for x
        using t2(3) sub(3) n1 by (simp only: set_rev mem_Collect_eq)
      have L: "links t2 x = remove_subtree (links t) i x" for x
      proof (cases "x = p \<or> node t x = None")
        case True
        then show ?thesis using nd2 [of x] pn by (auto simp: links_def remove_subtree_def)
      next
        case False
        then obtain m where m: "node t x = Some m" by auto
        have "i \<notin> set (children m)"
          using only_parent_lists [OF tr Li, of x "nparent m" "children m"] m False by (simp add: links_def)
        then have "filter (\<lambda>c. c \<noteq> i) (children m) = children m" by (intro filter_True) auto
        then show ?thesis using nd2 [of x] False m by (simp add: links_def remove_subtree_def)
      qed
      have L2: "links t2 = remove_subtree (links t) i" by (rule ext) (rule L)
      have "tree_inv t2"
        using t2 tree_links_remove [OF tr ir] L2 t by (simp add: tree_inv_def)
      moreover have "count t2 + card {x. descendant (links t) i x} = count t"
        using t2(6) distinct_card [OF sub(2)] sub(3) by simp
      moreover have "\<exists>m. node t x = Some m \<and> content k = content m \<and> nrect k = nrect m" if "node t2 x = Some k" for x k
        using that nd2 [of x] pn by (auto split: if_splits)
      moreover have "later t t2" using t2(7) by (simp add: later_def)
      moreover have "expired t2 x" if "descendant (links t) i x" for x using t2(8) sub(3) that unfolding set_rev by blast
      ultimately show ?thesis using destroyed [of t2] res L2 di ir t2(4,5) by simp
    qed
  qed
qed

section \<open>Properties\<close>

inductive tree_step :: "ui_tree \<Rightarrow> ui_tree \<Rightarrow> bool" where
  create: "tree_create al t p c = Ret (r, t') \<Longrightarrow> tree_step t t'"
| reparent: "tree_reparent al t i new = Ret (r', t') \<Longrightarrow> tree_step t t'"
| destroy: "tree_destroy al t i = Ret (r', t') \<Longrightarrow> tree_step t t'"
| content: "set_content t i c = Ret (r', t') \<Longrightarrow> tree_step t t'"
| mutate: "update_content t i f = (r', t') \<Longrightarrow> tree_step t t'"
| rect: "set_rect t i x = (r', t') \<Longrightarrow> tree_step t t'"

inductive tree_steps :: "ui_tree \<Rightarrow> ui_tree \<Rightarrow> bool" where
  none: "tree_steps t t"
| more: "tree_steps t t' \<Longrightarrow> tree_step t' t'' \<Longrightarrow> tree_steps t t''"

inductive tree_reachable :: "ui_tree \<Rightarrow> bool" where
  new: "ui_tree_try_new al c = Inr t \<Longrightarrow> tree_reachable t"
| step: "tree_reachable t \<Longrightarrow> tree_step t t' \<Longrightarrow> tree_reachable t'"

lemma same_shape_step:
  assumes "same_shape t t'" "tree_inv t"
  shows "tree_inv t' \<and> later t t' \<and> tconfig t' = tconfig t"
  using assms same_shape_inv [OF assms(1)] by (simp add: same_shape_def)

lemma tree_step_inv:
  assumes "tree_step t t'" "tree_inv t"
  shows "tree_inv t' \<and> later t t' \<and> tconfig t' = tconfig t"
  using assms
proof induction
  case (create al t p c r t')
  show ?case by (rule tree_create_cases [OF create(2), of al p c]) (use create(1) in auto)
next
  case (reparent al t i new r' t')
  show ?case by (rule tree_reparent_cases [OF reparent(2), of al i new]) (use reparent in auto)
next
  case (destroy al t i r' t')
  show ?case by (rule tree_destroy_cases [OF destroy(2), of al i]) (use destroy in auto)
next
  case (content t i c r' t')
  with set_content_returns [OF content(2), of i c] have "same_shape t t'" by auto
  then show ?case using content(2) by (rule same_shape_step)
next
  case (mutate t i f r' t')
  then have "same_shape t t'" using update_content_shape [of t i f] by simp
  then show ?case using mutate(2) by (rule same_shape_step)
next
  case (rect t i x r' t')
  then have "same_shape t t'" using set_rect_shape [of t i x] by simp
  then show ?case using rect(2) by (rule same_shape_step)
qed

lemma ui_tree_new_inv:
  assumes "ui_tree_try_new al c = Inr t"
  shows "tree_inv t"
proof -
  let ?n = "\<lparr>nid = ui_id_new 0 1, nparent = None, children = [], content = content_new Root, nrect = rect_zero, dirty = True\<rparr>"
  have t: "t = \<lparr>slots = [Some ?n], generations = [1], free = [], root = ui_id_new 0 1, count = 1, tconfig = c\<rparr>"
    and c: "0 < max_nodes c"
    using assms by (auto simp: ui_tree_try_new_def Let_def split: if_splits)
  have L: "links t = [ui_id_new 0 1 \<mapsto> (None, [])]"
    by (auto simp: t links_def node_def vec_get_def ui_id_new_def fun_eq_iff unat_eq_0)
  have "root t = ui_id_new 0 1" by (simp add: t)
  then have "tree_links (links t) (root t)"
    unfolding L by (auto simp: tree_links_def linked_def split: if_splits)
       (meson at_depth.top fun_upd_same)
  moreover have "slots_ok t" by (simp add: slots_ok_def t slot_ids_def ui_id_new_def)
  ultimately show ?thesis using c by (simp add: tree_inv_def t)
qed

lemma tree_reachable_inv: "tree_reachable t \<Longrightarrow> tree_inv t"
  by (induction rule: tree_reachable.induct) (use ui_tree_new_inv tree_step_inv in blast)+

lemma tree_steps_inv: "tree_steps t t' \<Longrightarrow> tree_inv t \<Longrightarrow> tree_inv t' \<and> later t t'"
proof (induction rule: tree_steps.induct)
  case (more t t' t'')
  then show ?case using tree_step_inv [OF more(2)] later_trans by blast
qed simp

text \<open>
  C20: The retained UI is always one tree. In every tree the operations can produce, the parent and child
  links agree, every node is below the root, the nodes are counted exactly and within the quota, and
  every operation returns: no walk to the root or down a subtree runs forever, no index is out of
  range, no generation overflows.
\<close>

theorem ui_tree_stays_a_tree:
  assumes "tree_reachable t"
  shows "tree_links (links t) (root t) \<and> card (dom (links t)) = count t \<and> count t \<le> max_nodes (tconfig t)
     \<and> (\<exists>x. tree_create al t i c = Ret x) \<and> (\<exists>x. tree_reparent al t i j = Ret x) \<and> (\<exists>x. tree_destroy al t i = Ret x)
     \<and> (\<exists>x. set_content t i c = Ret x) \<and> (\<exists>x. preorder al t = Ret x)"
proof -
  note inv = tree_reachable_inv [OF assms]
  then have ok: "slots_ok t" and tr: "tree_links (links t) (root t)" by (simp_all add: tree_inv_def)
  have "\<exists>x. tree_create al t i c = Ret x" by (rule tree_create_cases [OF inv, of al i c]) auto
  moreover have "\<exists>x. tree_reparent al t i j = Ret x" by (rule tree_reparent_cases [OF inv, of al i j]) auto
  moreover have "\<exists>x. tree_destroy al t i = Ret x" by (rule tree_destroy_cases [OF inv, of al i]) auto
  moreover have "\<exists>x. set_content t i c = Ret x" using set_content_returns [OF inv] by blast
  moreover have "\<exists>x. preorder al t = Ret x"
  proof -
    from tree_linksD(4) [OF tr tree_linksD(3) [OF tr]] obtain d where d: "at_depth (links t) (root t) d" by blast
    from collect_exact [OF tr _ d, of "length (slots t)" "[]"] card_links [OF ok] count_le_slots [OF ok]
    show ?thesis by (auto simp: preorder_def returned_def)
  qed
  ultimately show ?thesis using tr inv card_links [OF ok] by (simp add: tree_inv_def)
qed

definition sample_config :: ui_config where
  "sample_config = ui_config_default\<lparr>max_nodes := 8, max_depth := 3\<rparr>"

definition sample_root :: ui_node_id where
  "sample_root = ui_id_new 0 1"

definition sample_tree :: ui_tree where
  "sample_tree =
     \<lparr>slots = [Some \<lparr>nid = sample_root, nparent = None, children = [], content = content_new Root, nrect = rect_zero, dirty = True\<rparr>],
      generations = [1], free = [], root = sample_root, count = 1, tconfig = sample_config\<rparr>"

lemma sample_tree_new: "ui_tree_try_new (\<lambda>_. True) sample_config = Inr sample_tree"
  by (simp add: ui_tree_try_new_def sample_tree_def sample_root_def sample_config_def ui_config_default_def Let_def)

theorem ui_tree_stays_a_tree_witness:
  "\<exists>x. tree_create (\<lambda>_. True) sample_tree sample_root (content_new Panel) = Ret x"
  using ui_tree_stays_a_tree [OF tree_reachable.new [OF sample_tree_new]] by blast

lemma preorder_tree:
  assumes inv: "tree_inv t" and al: "al 0"
  shows "\<exists>rest. preorder al t = Ret (Inr (root t # rest)) \<and> distinct (root t # rest)
     \<and> set (root t # rest) = {i. valid_slot t i} \<and> length (root t # rest) = count t
     \<and> parents_first (links t) {root t} rest"
proof -
  have ok: "slots_ok t" and tr: "tree_links (links t) (root t)" using inv by (simp_all add: tree_inv_def)
  from tree_linksD(4) [OF tr tree_linksD(3) [OF tr]] obtain d where d: "at_depth (links t) (root t) d" by blast
  from collect_exact [OF tr _ d, of "length (slots t)" "[]"] card_links [OF ok] count_le_slots [OF ok]
  obtain rest where rest: "collect_subtree (length (slots t)) t (root t) [] = Some (Inr (root t # rest))"
    "distinct (root t # rest)" "set (root t # rest) = {x. descendant (links t) (root t) x}"
    "parents_first (links t) {root t} rest" by auto
  have all: "{x. descendant (links t) (root t) x} = dom (links t)"
  proof (intro set_eqI iffI)
    fix x assume "x \<in> {x. descendant (links t) (root t) x}"
    then have "descendant (links t) (root t) x" by simp
    then show "x \<in> dom (links t)" using tree_linksD(3) [OF tr] by cases auto
  next
    fix x assume "x \<in> dom (links t)"
    with tree_linksD(4) [OF tr] obtain e where "at_depth (links t) x e" by blast
    from descendant_root [OF tr this] show "x \<in> {x. descendant (links t) (root t) x}" by simp
  qed
  have "dom (links t) = {i. valid_slot t i}" using valid_slot_iff [OF ok] by (auto simp: links_def)
  moreover have "length (root t # rest) = count t"
    using distinct_card [OF rest(2)] rest(3) all card_links [OF ok] by simp
  ultimately show ?thesis using rest all al by (simp add: preorder_def returned_def)
qed

text \<open>
  \<open>preorder\<close> lists exactly the live nodes, each once, the root first and every other node after its
  parent.
\<close>

theorem preorder_exact:
  assumes "tree_reachable t" "al 0"
  shows "\<exists>rest. preorder al t = Ret (Inr (root t # rest)) \<and> distinct (root t # rest)
     \<and> set (root t # rest) = {i. valid_slot t i} \<and> length (root t # rest) = count t
     \<and> parents_first (links t) {root t} rest"
  using preorder_tree [OF tree_reachable_inv [OF assms(1)], of al] assms(2) by blast

theorem preorder_exact_witness:
  "\<exists>rest. preorder (\<lambda>_. True) sample_tree = Ret (Inr (sample_root # rest)) \<and> length rest = 0"
  using preorder_exact [OF tree_reachable.new [OF sample_tree_new], of "\<lambda>_. True"] by (simp add: sample_tree_def)

text \<open>
  \<open>create\<close> adds one node. Its handle was not valid before, it is the last child of its parent, above
  the depth limit, and no other node changes; a refused creation changes no node.
\<close>

theorem create_exact:
  assumes "tree_reachable t" and c: "tree_create al t p c = Ret (res, t')"
  shows "case res of
      Inl e \<Rightarrow> node t' = node t
    | Inr i \<Rightarrow> \<not> valid_slot t i \<and> valid_slot t' i \<and> (\<exists>d. at_depth (links t') i d \<and> d < max_depth (tconfig t))
       \<and> (\<exists>pn. node t p = Some pn
            \<and> node t' = (node t)(p \<mapsto> pn\<lparr>children := children pn @ [i]\<rparr>, i \<mapsto> new_node i p c))"
proof (rule tree_create_cases [OF tree_reachable_inv [OF assms(1)], of al p c])
  fix e u
  assume "tree_create al t p c = Ret (Inl e, u)" "node u = node t"
  then show ?thesis using c by simp
next
  fix i u pn d
  assume cr: "tree_create al t p c = Ret (Inr i, u)" "tree_inv u" "node t p = Some pn" "node t i = None"
    "node u = (node t)(p \<mapsto> pn\<lparr>children := children pn @ [i]\<rparr>, i \<mapsto> new_node i p c)"
    "tree_depth t p = Inr d" "d + 1 < max_depth (tconfig t)"
  note inv = tree_reachable_inv [OF assms(1)]
  have ok: "slots_ok t" "slots_ok u" using inv cr(2) by (simp_all add: tree_inv_def)
  obtain e where e: "at_depth (links t) p e" "e < length (slots t)" using tree_inv_depth [OF inv cr(3)] by blast
  have "length (slots t) \<le> usize_max" using ok(1) by (simp add: slots_ok_def usize_max_def)
  then have "d = e" using depth_loop_exact [OF e(1), of 0] e(2) cr(6) by (simp add: tree_depth_def split: if_splits)
  obtain e' where e': "at_depth (links u) i e'" using tree_inv_depth [OF cr(2), of i] cr(5) by auto
  have Li: "links u i = Some (Some p, [])" by (simp add: links_def cr(5)) (simp add: new_node_def)
  from e' Li obtain k where k: "at_depth (links u) p k" "e' = Suc k" by cases auto
  have "at_depth (links u) p e"
  proof -
    have "at_depth (links u) x f" if "at_depth (links t) x f" for x f
      using that
    proof induction
      case (top x cs)
      then obtain m where "node t x = Some m" "nparent m = None" by (auto simp: links_Some)
      then have "\<exists>m'. node u x = Some m' \<and> nparent m' = None" using cr(3,4,5) by auto
      then show ?case using links_Some by (blast intro: at_depth.top)
    next
      case (below x q cs f)
      then obtain m where "node t x = Some m" "nparent m = Some q" by (auto simp: links_Some)
      then have "\<exists>m'. node u x = Some m' \<and> nparent m' = Some q" using cr(3,4,5) by auto
      then show ?case using links_Some below.IH by (blast intro: at_depth.below)
    qed
    then show ?thesis using e(1) by blast
  qed
  with k(1) have "k = e" by (rule at_depth_unique)
  then have "e' < max_depth (tconfig t)" using \<open>d = e\<close> k(2) cr(7) by simp
  moreover have "\<not> valid_slot t i" "valid_slot u i" using valid_slot_iff ok cr(4,5) by auto
  ultimately show ?thesis using c cr e' by auto
qed

definition sample_child :: ui_node_id where
  "sample_child = ui_id_new 1 1"

definition sample_pair :: ui_tree where
  "sample_pair = sample_tree\<lparr>
     slots := [Some \<lparr>nid = sample_root, nparent = None, children = [sample_child], content = content_new Root, nrect = rect_zero, dirty = True\<rparr>,
               Some (new_node sample_child sample_root (content_new Panel))],
     generations := [1, 1], count := 2\<rparr>"

lemmas sample_defs =
  sample_pair_def sample_tree_def sample_root_def sample_child_def sample_config_def ui_id_new_def new_node_def

lemma content_new_text: "ctext (content_new k) = None"
  by (simp add: content_new_def)

lemmas tree_eval = content_new_text
  valid_slot_def vec_get_def content_new_sane text_too_long_def tree_depth_def depth_loop.simps node_def
  take_slot_def u32_max_def usize_max_def link_child_def set_node_def returned_def remove_slot_def

lemma sample_child_created:
  "tree_create (\<lambda>_. True) sample_tree sample_root (content_new Panel) = Ret (Inr sample_child, sample_pair)"
  by (simp add: tree_create_def sample_defs tree_eval)

lemma sample_child_destroyed:
  "\<exists>t'. tree_destroy (\<lambda>_. True) sample_pair sample_child = Ret (Inr (), t')"
  by (simp add: tree_destroy_def sample_defs tree_eval numeral_2_eq_2)

lemma sample_pair_reachable: "tree_reachable sample_pair"
  by (rule tree_reachable.step [OF tree_reachable.new [OF sample_tree_new] tree_step.create [OF sample_child_created]])

theorem create_exact_witness: "valid_slot sample_pair sample_child"
  using create_exact [OF tree_reachable.new [OF sample_tree_new] sample_child_created] by simp

text \<open>
  C21: \<open>destroy\<close> removes exactly a subtree, for good. The nodes below the destroyed one go with it and
  every other node keeps its content, its rectangle and its place; no handle into the subtree is ever
  valid again, whatever is created afterwards.
\<close>

theorem destroy_exact:
  assumes "tree_reachable t" and d: "tree_destroy al t i = Ret (Inr (), t')"
  shows "(\<forall>x. valid_slot t' x \<longleftrightarrow> valid_slot t x \<and> \<not> descendant (links t) i x)
     \<and> (\<forall>x n. node t' x = Some n \<longrightarrow> (\<exists>m. node t x = Some m \<and> content n = content m \<and> nrect n = nrect m
          \<and> nparent n = nparent m \<and> children n = filter (\<lambda>c. c \<noteq> i) (children m)))
     \<and> (\<forall>x t''. descendant (links t) i x \<and> tree_steps t' t'' \<longrightarrow> \<not> valid_slot t'' x)"
proof (rule tree_destroy_cases [OF tree_reachable_inv [OF assms(1)], of al i])
  fix u
  assume u: "tree_destroy al t i = Ret (Inr (), u)" "tree_inv u" "links u = remove_subtree (links t) i"
    "\<And>x. descendant (links t) i x \<Longrightarrow> expired u x"
    "\<And>x n. node u x = Some n \<Longrightarrow> \<exists>m. node t x = Some m \<and> content n = content m \<and> nrect n = nrect m"
  have tu: "t' = u" using d u(1) by simp
  have ok: "slots_ok t" "slots_ok u" using tree_reachable_inv [OF assms(1)] u(2) by (simp_all add: tree_inv_def)
  have v: "valid_slot t x \<longleftrightarrow> links t x \<noteq> None" "valid_slot u x \<longleftrightarrow> links u x \<noteq> None" for x
    using valid_slot_iff ok by (auto simp: links_def)
  have "\<exists>m. node t x = Some m \<and> content n = content m \<and> nrect n = nrect m \<and> nparent n = nparent m
      \<and> children n = filter (\<lambda>c. c \<noteq> i) (children m)" if n: "node u x = Some n" for x n
  proof -
    from u(5) [OF n] obtain m where m: "node t x = Some m" "content n = content m" "nrect n = nrect m" by blast
    have "links u x = Some (nparent n, children n)" "links t x = Some (nparent m, children m)"
      using n m(1) by (simp_all add: links_def)
    with m show ?thesis unfolding u(3) by (auto simp: remove_subtree_def split: if_splits)
  qed
  moreover have "\<not> valid_slot t'' x" if "descendant (links t) i x" "tree_steps u t''" for x t''
    using expired_invalid expired_later u(4) [OF that(1)] tree_steps_inv [OF that(2) u(2)] by blast
  ultimately show ?thesis using v u(3) tu by (auto simp: remove_subtree_def split: if_splits)
qed (use d in simp)

text \<open>
  \<open>reparent\<close> moves a node below another one and changes no other link; it is refused, without any
  effect, exactly when it names a stale handle or the root, would close a cycle, would pass the depth
  limit, or memory runs out.
\<close>

theorem reparent_exact:
  assumes "tree_reachable t" and m: "tree_reparent al t i new = Ret (res, t')"
  shows "case res of
      Inl e \<Rightarrow> t' = t \<and> (valid_slot t new \<and> i \<noteq> root t \<and> descendant (links t) i new \<longrightarrow> e = Cycle)
    | Inr _ \<Rightarrow> links t' = move_subtree (links t) i new \<and> \<not> descendant (links t) i new \<and> tree_links (links t') (root t')"
proof (rule tree_reparent_cases [OF tree_reachable_inv [OF assms(1)], of al i new])
  fix e
  assume f: "tree_reparent al t i new = Ret (Inl e, t)"
  note inv = tree_reachable_inv [OF assms(1)]
  then have ok: "slots_ok t" by (simp add: tree_inv_def)
  have "e = Cycle" if v: "valid_slot t new" "i \<noteq> root t" "descendant (links t) i new"
  proof -
    from v(1) valid_slot_iff [OF ok] obtain n where "node t new = Some n" by auto
    from tree_inv_depth [OF inv this] obtain k where "at_depth (links t) new k" by blast
    from find_cycle_exact [OF this, of i] v f show ?thesis by (simp add: tree_reparent_def returned_def)
  qed
  then show ?thesis using f m by simp
next
  fix u
  assume "tree_reparent al t i new = Ret (Inr (), u)" "tree_inv u" "links u = move_subtree (links t) i new"
    "\<not> descendant (links t) i new"
  then show ?thesis using m by (simp add: tree_inv_def)
qed

theorem reparent_exact_witness:
  "\<exists>t'. tree_reparent (\<lambda>_. True) sample_pair sample_child sample_child = Ret (Inl Cycle, t')"
proof -
  note inv = tree_reachable_inv [OF sample_pair_reachable]
  obtain res u where m: "tree_reparent (\<lambda>_. True) sample_pair sample_child sample_child = Ret (res, u)"
    by (rule tree_reparent_cases [OF inv, of "\<lambda>_. True" sample_child sample_child]) auto
  have "valid_slot sample_pair sample_child" "sample_child \<noteq> root sample_pair"
    by (simp_all add: sample_defs tree_eval)
  with reparent_exact [OF sample_pair_reachable m] have "res = Inl Cycle"
    by (cases res) (auto intro: descendant.self)
  with m show ?thesis by blast
qed

theorem destroy_exact_witness:
  "\<exists>t'. tree_destroy (\<lambda>_. True) sample_pair sample_child = Ret (Inr (), t') \<and> \<not> valid_slot t' sample_child"
proof -
  from sample_child_destroyed obtain t' where d: "tree_destroy (\<lambda>_. True) sample_pair sample_child = Ret (Inr (), t')" by blast
  from destroy_exact [OF sample_pair_reachable d] d show ?thesis by (blast intro: descendant.self)
qed

definition sample_third :: ui_node_id where
  "sample_third = ui_id_new 2 1"

definition sample_fourth :: ui_node_id where
  "sample_fourth = ui_id_new 3 1"

definition sample_three :: ui_tree where
  "sample_three = sample_tree\<lparr>
     slots := [Some \<lparr>nid = sample_root, nparent = None, children = [sample_child], content = content_new Root, nrect = rect_zero, dirty = True\<rparr>,
               Some ((new_node sample_child sample_root (content_new Panel))\<lparr>children := [sample_third]\<rparr>),
               Some (new_node sample_third sample_child (content_new Panel))],
     generations := [1, 1, 1], count := 3\<rparr>"

definition sample_chain :: ui_tree where
  "sample_chain = sample_tree\<lparr>
     slots := [Some \<lparr>nid = sample_root, nparent = None, children = [sample_child, sample_fourth], content = content_new Root, nrect = rect_zero, dirty = True\<rparr>,
               Some ((new_node sample_child sample_root (content_new Panel))\<lparr>children := [sample_third]\<rparr>),
               Some (new_node sample_third sample_child (content_new Panel)),
               Some (new_node sample_fourth sample_root (content_new Panel))],
     generations := [1, 1, 1, 1], count := 4\<rparr>"

lemma sample_three_created:
  "tree_create (\<lambda>_. True) sample_pair sample_child (content_new Panel) = Ret (Inr sample_third, sample_three)"
  by (simp add: tree_create_def sample_three_def sample_third_def sample_defs tree_eval)

lemma sample_chain_created:
  "tree_create (\<lambda>_. True) sample_three sample_root (content_new Panel) = Ret (Inr sample_fourth, sample_chain)"
  by (simp add: tree_create_def sample_three_def sample_chain_def sample_third_def sample_fourth_def sample_defs tree_eval)

lemma sample_chain_reachable: "tree_reachable sample_chain"
  by (rule tree_reachable.step [OF tree_reachable.step [OF sample_pair_reachable
      tree_step.create [OF sample_three_created]] tree_step.create [OF sample_chain_created]])

lemma sample_chain_moved:
  "\<exists>t'. tree_reparent (\<lambda>_. True) sample_chain sample_child sample_fourth = Ret (Inr (), t')"
  by (simp add: tree_reparent_def find_cycle.simps mark_ancestors_dirty.simps relink_def Let_def
      sample_chain_def sample_third_def sample_fourth_def sample_defs tree_eval)

text \<open>
  \<open>reparent\<close> checks the depth of the moved node but not the height of what moves with it: with a
  depth limit of 3 it produces a tree with a node at depth 3, which \<open>create\<close> never does.
\<close>

theorem reparent_passes_depth_limit:
  "\<exists>t i d. tree_reachable t \<and> at_depth (links t) i d \<and> max_depth (tconfig t) \<le> d"
proof -
  let ?L = "links sample_chain"
  from sample_chain_moved obtain t' where t': "tree_reparent (\<lambda>_. True) sample_chain sample_child sample_fourth = Ret (Inr (), t')"
    by blast
  have r: "tree_reachable t'" by (rule tree_reachable.step [OF sample_chain_reachable tree_step.reparent [OF t']])
  have L: "links t' = move_subtree ?L sample_child sample_fourth"
    using reparent_exact [OF sample_chain_reachable t'] by simp
  have l: "?L sample_root = Some (None, [sample_child, sample_fourth])" "?L sample_fourth = Some (Some sample_root, [])"
    "?L sample_child = Some (Some sample_root, [sample_third])" "?L sample_third = Some (Some sample_child, [])"
    by (simp_all add: links_def sample_chain_def sample_third_def sample_fourth_def sample_defs tree_eval)
  have m: "links t' sample_root = Some (None, [sample_fourth])" "links t' sample_fourth = Some (Some sample_root, [sample_child])"
    "links t' sample_child = Some (Some sample_fourth, [sample_third])" "links t' sample_third = Some (Some sample_child, [])"
    unfolding L using l by (simp_all add: move_subtree_def) (simp_all add: sample_third_def sample_fourth_def sample_defs)
  have "at_depth (links t') sample_third (Suc (Suc (Suc 0)))"
    by (rule at_depth.below, rule m(4), rule at_depth.below, rule m(3), rule at_depth.below, rule m(2), rule at_depth.top, rule m(1))
  moreover have "max_depth (tconfig t') \<le> Suc (Suc (Suc 0))"
    using tree_step_inv [OF tree_step.reparent [OF t'] tree_reachable_inv [OF sample_chain_reachable]]
    by (simp add: sample_chain_def sample_defs)
  ultimately show ?thesis using r by blast
qed

end
