(* ===== verification/Ui_Resources.thy ===== *)
theory Ui_Resources
  imports Ui_Content
begin

text \<open>
  What the UI keeps about textures, fonts and glyphs: the table of resources with their readiness and
  generation (\<open>ui/resources.rs\<close>), and the fallback glyph provider and glyph atlas (\<open>ui/text.rs\<close>).
\<close>

section \<open>The resource table\<close>

datatype asset_state = Missing | Loading | Ready | Failed

text \<open>\<open>UiTextureResource\<close> and \<open>UiFontResource\<close> have the same fields.\<close>

record ui_resource =
  res_id :: ui_id
  res_state :: asset_state
  res_generation :: u32

record resource_table =
  textures :: "ui_resource list"
  fonts :: "ui_resource list"
  tab_config :: ui_config

definition resource_table_try_new :: "alloc \<Rightarrow> ui_config \<Rightarrow> ui_error + resource_table" where
  "resource_table_try_new al c =
     (if \<not> al 0 \<or> \<not> al 1 then Inl AllocationFailed else Inr \<lparr>textures = [], fonts = [], tab_config = c\<rparr>)"

definition find_resource :: "ui_id \<Rightarrow> ui_resource list \<Rightarrow> ui_resource option" where
  "find_resource i rs = find (\<lambda>r. res_id r = i) rs"

text \<open>
  The first entry with the identifier gets the new state and the next generation; the state is written
  before the generation is checked.
\<close>

fun touch :: "ui_id \<Rightarrow> asset_state \<Rightarrow> ui_resource list \<Rightarrow> ((ui_error + u32) \<times> ui_resource list) option" where
  "touch i st [] = None"
| "touch i st (r # rs) =
     (if res_id r = i
      then Some (case wchecked_add (res_generation r) 1 of
                   None \<Rightarrow> (Inl IndexOverflow, r\<lparr>res_state := st\<rparr> # rs)
                 | Some g \<Rightarrow> (Inr g, r\<lparr>res_state := st, res_generation := g\<rparr> # rs))
      else map_option (\<lambda>(x, rs'). (x, r # rs')) (touch i st rs))"

definition register :: "nat \<Rightarrow> ui_id \<Rightarrow> asset_state \<Rightarrow> ui_resource list \<Rightarrow> (ui_error + unit) \<times> ui_resource list" where
  "register cap i st rs =
     (case touch i st rs of
        Some (Inl e, rs') \<Rightarrow> (Inl e, rs')
      | Some (Inr _, rs') \<Rightarrow> (Inr (), rs')
      | None \<Rightarrow>
          (if length rs \<ge> cap then (Inl CapacityExceeded, rs)
           else (Inr (), rs @ [\<lparr>res_id = i, res_state = st, res_generation = 1\<rparr>])))"

definition set_state :: "ui_id \<Rightarrow> asset_state \<Rightarrow> ui_resource list \<Rightarrow> (ui_error + u32) \<times> ui_resource list" where
  "set_state i st rs = (case touch i st rs of None \<Rightarrow> (Inl ResourceUnavailable, rs) | Some x \<Rightarrow> x)"

definition register_texture :: "ui_id \<Rightarrow> asset_state \<Rightarrow> resource_table \<Rightarrow> (ui_error + unit) \<times> resource_table" where
  "register_texture i st t =
     (case register (max_nodes (tab_config t)) i st (textures t) of (r, rs) \<Rightarrow> (r, t\<lparr>textures := rs\<rparr>))"

definition set_texture_state :: "ui_id \<Rightarrow> asset_state \<Rightarrow> resource_table \<Rightarrow> (ui_error + unit) \<times> resource_table" where
  "set_texture_state i st t =
     (case set_state i st (textures t) of (r, rs) \<Rightarrow> (map_sum id (\<lambda>_. ()) r, t\<lparr>textures := rs\<rparr>))"

definition texture :: "resource_table \<Rightarrow> ui_id \<Rightarrow> ui_resource option" where
  "texture t i = find_resource i (textures t)"

definition texture_ready :: "resource_table \<Rightarrow> ui_id \<Rightarrow> bool" where
  "texture_ready t i = (case texture t i of None \<Rightarrow> False | Some r \<Rightarrow> res_state r = Ready)"

definition register_font :: "ui_id \<Rightarrow> asset_state \<Rightarrow> resource_table \<Rightarrow> (ui_error + unit) \<times> resource_table" where
  "register_font i st t =
     (case register (max_nodes (tab_config t)) i st (fonts t) of (r, rs) \<Rightarrow> (r, t\<lparr>fonts := rs\<rparr>))"

definition font :: "resource_table \<Rightarrow> ui_id \<Rightarrow> ui_resource option" where
  "font t i = find_resource i (fonts t)"

definition set_font_state :: "ui_id \<Rightarrow> asset_state \<Rightarrow> resource_table \<Rightarrow> (ui_error + unit) \<times> resource_table" where
  "set_font_state i st t =
     (case set_state i st (fonts t) of (r, rs) \<Rightarrow> (map_sum id (\<lambda>_. ()) r, t\<lparr>fonts := rs\<rparr>))"

definition font_ready :: "resource_table \<Rightarrow> ui_id \<Rightarrow> bool" where
  "font_ready t i = (case font t i of None \<Rightarrow> False | Some r \<Rightarrow> res_state r = Ready)"

definition evict_texture :: "ui_id \<Rightarrow> resource_table \<Rightarrow> (ui_error + u32) \<times> resource_table" where
  "evict_texture i t = (case set_state i Missing (textures t) of (r, rs) \<Rightarrow> (r, t\<lparr>textures := rs\<rparr>))"

definition evict_font :: "ui_id \<Rightarrow> resource_table \<Rightarrow> (ui_error + u32) \<times> resource_table" where
  "evict_font i t = (case set_state i Missing (fonts t) of (r, rs) \<Rightarrow> (r, t\<lparr>fonts := rs\<rparr>))"

section \<open>The fallback glyph provider\<close>

record glyph =
  codepoint :: u32
  advance :: f32
  g_atlas_x :: u16
  g_atlas_y :: u16
  g_width :: u16
  g_height :: u16

record glyph_run =
  glyphs :: "glyph list"
  run_width :: f32
  run_height :: f32

record fallback_provider =
  fb_advance :: f32
  line_height :: f32

definition fallback_default :: fallback_provider where
  "fallback_default = \<lparr>fb_advance = f32_of_int 8, line_height = f32_of_int 16\<rparr>"

text \<open>\<open>as u16\<close> and \<open>as usize\<close> truncate towards zero and saturate; what is not a number becomes zero.\<close>

definition f32_to_nat :: "nat \<Rightarrow> f32 \<Rightarrow> nat" where
  "f32_to_nat mx x =
     (case x of Fin a \<Rightarrow> min (nat (a div f32_one_units)) mx | PInf \<Rightarrow> mx | _ \<Rightarrow> 0)"

definition metric_ok :: "f32 \<Rightarrow> bool" where
  "metric_ok x \<longleftrightarrow> is_finite x \<and> f32_lt f32_zero x \<and> f32_le x (f32_of_int 65535)"

definition make_glyph :: "fallback_provider \<Rightarrow> nat \<Rightarrow> u32 \<Rightarrow> glyph" where
  "make_glyph p k c =
     \<lparr>codepoint = c, advance = fb_advance p, g_atlas_x = of_nat (k mod 256), g_atlas_y = of_nat (k div 256),
      g_width = of_nat (f32_to_nat 65535 (fb_advance p)), g_height = of_nat (f32_to_nat 65535 (line_height p))\<rparr>"

definition shape :: "alloc \<Rightarrow> fallback_provider \<Rightarrow> u32 list \<Rightarrow> nat \<Rightarrow> ui_error + glyph_run" where
  "shape al p cs mx =
     (if \<not> metric_ok (fb_advance p) \<or> \<not> metric_ok (line_height p) then Inl InvalidValue
      else if length cs > mx then Inl CapacityExceeded
      else if \<not> al 0 then Inl AllocationFailed
      else Inr \<lparr>glyphs = map (\<lambda>(k, c). make_glyph p k c) (enumerate 0 cs),
                run_width = f32_mul (fb_advance p) (f32_of_int (int (length cs))), run_height = line_height p\<rparr>)"

text \<open>One character of the wrapping loop: the state is column, line, width and the glyphs so far.\<close>

fun wrap_loop ::
  "fallback_provider \<Rightarrow> nat \<Rightarrow> nat \<Rightarrow> u32 list \<Rightarrow> nat \<Rightarrow> nat \<Rightarrow> f32 \<Rightarrow> glyph list
     \<Rightarrow> ui_error + glyph list \<times> nat \<times> f32" where
  "wrap_loop p columns k [] column line w gs = Inr (gs, line, w)"
| "wrap_loop p columns k (c # cs) column line w gs =
     (if c = 10 \<or> column \<ge> columns
      then (if line + 1 > usize_max then Inl IndexOverflow
            else if c = 10 then wrap_loop p columns (k + 1) cs 0 (line + 1) w gs
            else wrap_loop p columns (k + 1) cs 1 (line + 1)
                   (f32_max w (f32_mul (f32_of_int 1) (fb_advance p))) (gs @ [make_glyph p k c]))
      else wrap_loop p columns (k + 1) cs (sat_add column 1) line
             (f32_max w (f32_mul (f32_of_int (int (sat_add column 1))) (fb_advance p))) (gs @ [make_glyph p k c]))"

definition f32_floor_usize :: "f32 \<Rightarrow> nat" where
  "f32_floor_usize x = f32_to_nat usize_max x"

definition shape_wrapped :: "alloc \<Rightarrow> fallback_provider \<Rightarrow> u32 list \<Rightarrow> nat \<Rightarrow> f32 \<Rightarrow> ui_error + glyph_run" where
  "shape_wrapped al p cs mx mw =
     (if \<not> metric_ok (fb_advance p) \<or> \<not> metric_ok (line_height p) \<or> \<not> is_finite mw \<or> f32_le mw f32_zero then Inl InvalidValue
      else if length cs > mx then Inl CapacityExceeded
      else let columns = f32_floor_usize (f32_div mw (fb_advance p))
           in if columns = 0 then Inl InvalidValue
              else if \<not> al 0 then Inl AllocationFailed
              else case wrap_loop p columns 0 cs 0 0 f32_zero [] of
                Inl e \<Rightarrow> Inl e
              | Inr (gs, line, w) \<Rightarrow>
                  Inr \<lparr>glyphs = gs, run_width = w,
                       run_height = f32_mul (f32_of_int (int (sat_add line 1))) (line_height p)\<rparr>)"

section \<open>The glyph atlas\<close>

record atlas_slot =
  a_generation :: u32
  ax :: u16
  ay :: u16
  a_width :: u16
  a_height :: u16

record glyph_atlas =
  a_slots :: "atlas_slot option list"
  a_capacity :: nat
  a_next :: nat

definition atlas_try_new :: "alloc \<Rightarrow> ui_config \<Rightarrow> ui_error + glyph_atlas" where
  "atlas_try_new al c =
     (let cap = min (max_glyphs c) 65536
      in if \<not> al 0 then Inl AllocationFailed
         else Inr \<lparr>a_slots = replicate cap None, a_capacity = cap, a_next = 0\<rparr>)"

text \<open>\<open>u16\<close> multiplication by 64 panics on overflow in builds that check it; indexing panics out of range.\<close>

definition atlas_allocate :: "glyph_atlas \<Rightarrow> u16 \<Rightarrow> u16 \<Rightarrow> ((ui_error + atlas_slot) \<times> glyph_atlas) run" where
  "atlas_allocate a w h =
     (if w = 0 \<or> h = 0 \<or> a_capacity a = 0 then Ret (Inl InvalidValue, a)
      else let k = a_next a mod a_capacity a
           in if a_next a + 1 > usize_max then Ret (Inl IndexOverflow, a)
              else let a1 = a\<lparr>a_next := a_next a + 1\<rparr>
                   in if a_next a1 > u32_max then Ret (Inl IndexOverflow, a1)
                      else if (k mod 256) * 64 > 65535 \<or> ((k div 256) mod 65536) * 64 > 65535 then Panic
                      else let s = \<lparr>a_generation = of_nat (a_next a1), ax = of_nat (k mod 256 * 64), ay = of_nat (k div 256 * 64),
                                    a_width = w, a_height = h\<rparr>
                           in if k \<ge> length (a_slots a1) then Panic
                              else Ret (Inr s, a1\<lparr>a_slots := (a_slots a1)[k := Some s]\<rparr>))"

definition evicts :: "u32 \<Rightarrow> atlas_slot option \<Rightarrow> bool" where
  "evicts g s = (case s of Some v \<Rightarrow> a_generation v = g | None \<Rightarrow> False)"

definition evict_generation :: "glyph_atlas \<Rightarrow> u32 \<Rightarrow> nat \<times> glyph_atlas" where
  "evict_generation a g =
     (min (length (filter (evicts g) (a_slots a))) usize_max,
      a\<lparr>a_slots := map (\<lambda>s. if evicts g s then None else s) (a_slots a)\<rparr>)"

definition occupied :: "glyph_atlas \<Rightarrow> nat" where
  "occupied a = length (filter (\<lambda>s. s \<noteq> None) (a_slots a))"

section \<open>Resources\<close>

lemma touch_None: "touch i st rs = None \<longleftrightarrow> find_resource i rs = None"
  by (induction rs) (auto simp: find_resource_def)

text \<open>Touching an entry changes no other one.\<close>

lemma touch_Some:
  assumes "touch i st rs = Some (x, rs')"
  obtains r where "find_resource i rs = Some r" "map res_id rs' = map res_id rs"
    "\<And>j. j \<noteq> i \<Longrightarrow> find_resource j rs' = find_resource j rs"
    "wchecked_add (res_generation r) 1 = None \<Longrightarrow> x = Inl IndexOverflow \<and> find_resource i rs' = Some (r\<lparr>res_state := st\<rparr>)"
    "\<And>g. wchecked_add (res_generation r) 1 = Some g \<Longrightarrow>
       x = Inr g \<and> find_resource i rs' = Some (r\<lparr>res_state := st, res_generation := g\<rparr>)"
  using assms
proof (induction rs arbitrary: rs' thesis)
  case (Cons q rs)
  show ?case
  proof (cases "res_id q = i")
    case True
    then show ?thesis
      using Cons.prems by (intro Cons.prems(1) [of q]) (auto simp: find_resource_def split: option.splits)
  next
    case False
    with Cons.prems(2) obtain rs1 where t: "touch i st rs = Some (x, rs1)" "rs' = q # rs1" by auto
    show ?thesis
      by (rule Cons.IH [OF _ t(1)]) (rule Cons.prems(1), use False t(2) in \<open>auto simp: find_resource_def\<close>)
  qed
qed simp

text \<open>
  The resource table tells stale uses apart. Registering, changing the state of or evicting a
  texture gives it the state asked for and the next generation and touches no other texture and no
  font; an unknown one is refused, or registered with generation 1 while there is room.
\<close>

theorem texture_update_exact:
  assumes "texture t i = Some r" "res_generation r \<noteq> - 1"
  shows "\<exists>t'. register_texture i st t = (Inr (), t') \<and> set_texture_state i st t = (Inr (), t')
     \<and> texture t' i = Some (r\<lparr>res_state := st, res_generation := res_generation r + 1\<rparr>)
     \<and> (\<forall>j. j \<noteq> i \<longrightarrow> texture t' j = texture t j) \<and> fonts t' = fonts t \<and> res_generation r < res_generation r + 1
     \<and> (texture_ready t' i \<longleftrightarrow> st = Ready)
     \<and> (st = Missing \<longrightarrow> evict_texture i t = (Inr (res_generation r + 1), t'))"
proof -
  have lt: "unat (res_generation r) + 1 < 4294967296"
  proof (rule ccontr)
    assume "\<not> unat (res_generation r) + 1 < 4294967296"
    then have "unat (res_generation r) = 4294967295" using unat_u32_less [of "res_generation r"] by simp
    then have "res_generation r = of_nat 4294967295" by (metis of_nat_unat_u32)
    with assms(2) show False by simp
  qed
  then have g: "wchecked_add (res_generation r) 1 = Some (res_generation r + 1)" by (simp add: wchecked_add_def)
  have less: "res_generation r < res_generation r + 1"
    using lt by (simp add: word_less_nat_alt unat_word_ariths(1) [of "res_generation r" 1])
  obtain x rs where x: "touch i st (textures t) = Some (x, rs)"
    using assms(1) touch_None [of i st "textures t"] by (auto simp: texture_def)
  from touch_Some [OF x] assms(1) g
  have rs: "x = Inr (res_generation r + 1)" "find_resource i rs = Some (r\<lparr>res_state := st, res_generation := res_generation r + 1\<rparr>)"
    "\<And>j. j \<noteq> i \<Longrightarrow> find_resource j rs = find_resource j (textures t)"
    unfolding texture_def by (metis option.inject)+
  show ?thesis
    using x rs less
    by (intro exI [of _ "t\<lparr>textures := rs\<rparr>"])
       (auto simp: register_texture_def set_texture_state_def evict_texture_def register_def set_state_def texture_ready_def texture_def)
qed

theorem texture_update_exact_witness:
  "\<exists>t'. register_texture (ui_id_new 3 1) Ready
      \<lparr>textures = [\<lparr>res_id = ui_id_new 3 1, res_state = Loading, res_generation = 1\<rparr>], fonts = [], tab_config = ui_config_default\<rparr> = (Inr (), t')
     \<and> texture_ready t' (ui_id_new 3 1)"
proof -
  let ?t = "\<lparr>textures = [\<lparr>res_id = ui_id_new 3 1, res_state = Loading, res_generation = 1\<rparr>], fonts = [], tab_config = ui_config_default\<rparr>"
  have "texture ?t (ui_id_new 3 1) = Some \<lparr>res_id = ui_id_new 3 1, res_state = Loading, res_generation = 1\<rparr>"
    by (simp add: texture_def find_resource_def)
  from texture_update_exact [OF this, of Ready] show ?thesis by auto
qed

section \<open>The atlas\<close>

definition cell_of :: "atlas_slot \<Rightarrow> u16 \<times> u16" where
  "cell_of s = (ax s, ay s)"

definition atlas_inv :: "glyph_atlas \<Rightarrow> bool" where
  "atlas_inv a \<longleftrightarrow> length (a_slots a) = a_capacity a \<and> a_capacity a \<le> 65536
     \<and> (\<forall>k s. k < a_capacity a \<longrightarrow> a_slots a ! k = Some s \<longrightarrow>
          0 < unat (a_generation s) \<and> unat (a_generation s) \<le> a_next a \<and> (unat (a_generation s) - 1) mod a_capacity a = k
          \<and> cell_of s = (of_nat (k mod 256 * 64), of_nat (k div 256 * 64)))"

lemma atlas_new_inv: "atlas_try_new al c = Inr a \<Longrightarrow> atlas_inv a"
  by (auto simp: atlas_try_new_def atlas_inv_def Let_def split: if_splits)

lemma atlas_allocate_ok:
  assumes a: "atlas_inv a"
  shows "\<exists>r a'. atlas_allocate a w h = Ret (r, a') \<and> atlas_inv a' \<and> a_next a \<le> a_next a'
     \<and> (\<forall>s. r = Inr s \<longrightarrow> unat (a_generation s) = a_next a + 1 \<and> Some s \<in> set (a_slots a'))"
proof (cases "w = 0 \<or> h = 0 \<or> a_capacity a = 0 \<or> a_next a + 1 > u32_max")
  case True
  have grow: "atlas_inv (a\<lparr>a_next := a_next a + 1\<rparr>)" using a by (fastforce simp: atlas_inv_def)
  show ?thesis
  proof (cases "w = 0 \<or> h = 0 \<or> a_capacity a = 0 \<or> a_next a + 1 > usize_max")
    case True
    then show ?thesis using a by (auto simp: atlas_allocate_def Let_def)
  next
    case False
    then show ?thesis using True grow by (auto simp: atlas_allocate_def Let_def)
  qed
next
  case False
  let ?k = "a_next a mod a_capacity a"
  let ?s = "\<lparr>a_generation = of_nat (a_next a + 1), ax = of_nat (?k mod 256 * 64), ay = of_nat (?k div 256 * 64), a_width = w, a_height = h\<rparr>"
  let ?a = "a\<lparr>a_next := a_next a + 1, a_slots := (a_slots a)[?k := Some ?s]\<rparr>"
  have cap: "0 < a_capacity a" "a_capacity a \<le> 65536" "length (a_slots a) = a_capacity a" using False a by (auto simp: atlas_inv_def)
  have k: "?k < a_capacity a" using cap by simp
  have "?k div 256 < 256" using k cap(2) by (simp add: div_less_iff_less_mult)
  then have small: "?k mod 256 * 64 \<le> 65535" "?k div 256 * 64 \<le> 65535" "?k div 256 mod 65536 * 64 \<le> 65535" by simp_all
  have us: "\<not> a_next a + 1 > usize_max" using False by (simp add: u32_max_def usize_max_def)
  have res: "atlas_allocate a w h = Ret (Inr ?s, ?a)"
    using False us small k cap(3) by (simp add: atlas_allocate_def Let_def)
  have g: "unat (of_nat (a_next a + 1) :: u32) = a_next a + 1" using False by (intro unat_of_nat_u32) simp
  have "atlas_inv ?a"
    unfolding atlas_inv_def
  proof (intro conjI allI impI)
    fix j s
    assume j: "j < a_capacity ?a" "a_slots ?a ! j = Some s"
    show "0 < unat (a_generation s)" "unat (a_generation s) \<le> a_next ?a" "(unat (a_generation s) - 1) mod a_capacity ?a = j"
      "cell_of s = (of_nat (j mod 256 * 64), of_nat (j div 256 * 64))"
      using j a g cap k unfolding atlas_inv_def by (cases "j = ?k"; fastforce simp: cell_of_def)+
  qed (use cap in simp_all)
  then show ?thesis using res g k cap(3) by (auto simp: set_update_memI)
qed

lemma evict_inv: "atlas_inv a \<Longrightarrow> atlas_inv (snd (evict_generation a g))"
  unfolding atlas_inv_def evict_generation_def by (auto split: if_splits)

inductive atlas_reachable :: "glyph_atlas \<Rightarrow> bool" where
  new: "atlas_try_new al c = Inr a \<Longrightarrow> atlas_reachable a"
| allocate: "atlas_reachable a \<Longrightarrow> atlas_allocate a w h = Ret (r, a') \<Longrightarrow> atlas_reachable a'"
| evict: "atlas_reachable a \<Longrightarrow> atlas_reachable (snd (evict_generation a g))"

lemma atlas_reachable_inv: "atlas_reachable a \<Longrightarrow> atlas_inv a"
proof (induction rule: atlas_reachable.induct)
  case (allocate a w h r a')
  then show ?case using atlas_allocate_ok [of a w h] by auto
qed (use atlas_new_inv evict_inv in auto)

text \<open>
  The atlas hands out cells without collisions. In every reachable atlas an allocation returns, two
  glyphs that are present have different cells and different generations, and evicting a generation
  removes at most that one glyph.
\<close>

theorem atlas_cells_distinct:
  assumes "atlas_reachable a"
  shows "(\<exists>x. atlas_allocate a w h = Ret x)
     \<and> (\<forall>j k s u. j < length (a_slots a) \<and> k < length (a_slots a) \<and> j \<noteq> k \<and> a_slots a ! j = Some s \<and> a_slots a ! k = Some u
          \<longrightarrow> cell_of s \<noteq> cell_of u \<and> a_generation s \<noteq> a_generation u)
     \<and> fst (evict_generation a g) \<le> 1"
proof -
  note inv = atlas_reachable_inv [OF assms]
  have slot: "(unat (a_generation s) - 1) mod a_capacity a = k" "cell_of s = (of_nat (k mod 256 * 64), of_nat (k div 256 * 64))"
    "k < 65536" if "k < length (a_slots a)" "a_slots a ! k = Some s" for k s
    using inv that by (auto simp: atlas_inv_def)
  have gen: "a_generation s \<noteq> a_generation u" if "j < length (a_slots a)" "k < length (a_slots a)" "j \<noteq> k"
    "a_slots a ! j = Some s" "a_slots a ! k = Some u" for j k s u
    using slot(1) [OF that(1,4)] slot(1) [OF that(2,5)] that(3) by auto
  have cell: "cell_of s \<noteq> cell_of u" if "j < length (a_slots a)" "k < length (a_slots a)" "j \<noteq> k"
    "a_slots a ! j = Some s" "a_slots a ! k = Some u" for j k s u
  proof
    assume "cell_of s = cell_of u"
    then have e: "(of_nat (j mod 256 * 64) :: u16) = of_nat (k mod 256 * 64)" "(of_nat (j div 256 * 64) :: u16) = of_nat (k div 256 * 64)"
      using slot(2) [OF that(1,4)] slot(2) [OF that(2,5)] by simp_all
    have u16: "unat (of_nat n :: u16) = n" if "n < 65536" for n using that by (simp add: unat_of_nat)
    have "j mod 256 * 64 < 65536" "k mod 256 * 64 < 65536" "j div 256 * 64 < 65536" "k div 256 * 64 < 65536"
      using slot(3) [OF that(1,4)] slot(3) [OF that(2,5)] by auto
    with e have "j mod 256 * 64 = k mod 256 * 64" "j div 256 * 64 = k div 256 * 64" using u16 by metis+
    then have "j mod 256 = k mod 256" "j div 256 = k div 256" by simp_all
    then have "j = k" by (metis div_mult_mod_eq)
    with that(3) show False by simp
  qed
  have "length (filter (evicts g) (a_slots a)) \<le> 1"
  proof -
    have "card {k. k < length (a_slots a) \<and> evicts g (a_slots a ! k)} \<le> card {THE k. k < length (a_slots a) \<and> evicts g (a_slots a ! k)}"
    proof (rule card_mono)
      show "{k. k < length (a_slots a) \<and> evicts g (a_slots a ! k)} \<subseteq> {THE k. k < length (a_slots a) \<and> evicts g (a_slots a ! k)}"
      proof
        fix k assume "k \<in> {k. k < length (a_slots a) \<and> evicts g (a_slots a ! k)}"
        then have k: "k < length (a_slots a)" "evicts g (a_slots a ! k)" by simp_all
        have "(THE k. k < length (a_slots a) \<and> evicts g (a_slots a ! k)) = k"
          using k gen by (intro the_equality) (auto simp: evicts_def split: option.splits)
        then show "k \<in> {THE k. k < length (a_slots a) \<and> evicts g (a_slots a ! k)}" by simp
      qed
    qed simp
    then show ?thesis by (simp add: length_filter_conv_card)
  qed
  then have "fst (evict_generation a g) \<le> 1" by (simp add: evict_generation_def)
  moreover have "\<exists>x. atlas_allocate a w h = Ret x" using atlas_allocate_ok [OF inv] by blast
  ultimately show ?thesis using cell gen by blast
qed

theorem atlas_cells_distinct_witness:
  "fst (evict_generation \<lparr>a_slots = [None, None], a_capacity = 2, a_next = 0\<rparr> 1) \<le> 1"
proof -
  have "atlas_try_new (\<lambda>_. True) (ui_config_default\<lparr>max_glyphs := 2\<rparr>) = Inr \<lparr>a_slots = [None, None], a_capacity = 2, a_next = 0\<rparr>"
    by (simp add: atlas_try_new_def numeral_2_eq_2)
  from atlas_cells_distinct [OF atlas_reachable.new [OF this]] show ?thesis by blast
qed

end
