(* ===== verification/Ui_Paint.thy ===== *)
theory Ui_Paint
  imports Ui_Tree_Inv Ui_Resources Batching Wire
begin

text \<open>
  \<open>src/src/subsystems/ui/paint.rs\<close>: clips, paint items and draw batches of a frame, the snapshot the
  renderer gets, its byte encoding and the byte ranges that changed since the previous frame. The
  bit pattern of a float is a parameter \<open>bits\<close>, since the model of \<open>f32\<close> has one zero.
\<close>

section \<open>Paint items and batches\<close>

definition ui_item_stride :: nat where "ui_item_stride = 80"
definition ui_glyph_stride :: nat where "ui_glyph_stride = 32"

record ui_clip =
  clip_id :: u32
  clip_area :: ui_rect

datatype paint_kind =
    PRect "f32 list"
  | PGradient "f32 list" "f32 list"
  | PRoundedRect "f32 list" f32
  | PBorder "f32 list" f32
  | PImage texture_id
  | PGlyphRun font_id glyph_run
  | PCustom u32

record paint_item =
  pi_node :: ui_node_id
  pi_rect :: ui_rect
  pi_clip :: u32
  pi_z_index :: u32
  pi_opacity :: f32
  pi_kind :: paint_kind

record ui_batch_key =
  bk_pass :: u8
  bk_clip :: u32
  bk_texture :: "texture_id option"
  bk_font :: "font_id option"
  bk_z_index :: u32
  bk_kind :: u8

record ui_batch =
  ub_key :: ui_batch_key
  ub_first :: u32
  ub_count :: u32

record upload_plan =
  up_items :: u32
  up_batches :: u32
  up_glyphs :: u32
  upload_bytes :: nat

record paint_list =
  pl_clips :: "ui_clip list"
  pl_items :: "paint_item list"
  pl_batches :: "ui_batch list"
  pl_node_clips :: "(ui_node_id \<times> u32) list"
  pl_config :: ui_config

text \<open>The vector \<open>order\<close> is scratch space that every build fills before reading it.\<close>

definition paint_list_try_new :: "alloc \<Rightarrow> ui_config \<Rightarrow> ui_error + paint_list" where
  "paint_list_try_new al c =
     (if al 0 \<and> al 1 \<and> al 2 \<and> al 3 \<and> al 4
      then Inr \<lparr>pl_clips = [], pl_items = [], pl_batches = [], pl_node_clips = [], pl_config = c\<rparr>
      else Inl AllocationFailed)"

definition u32_from :: "nat \<Rightarrow> u32 option" where
  "u32_from n = (if n \<le> u32_max then Some (of_nat n) else None)"

definition push_clip :: "paint_list \<Rightarrow> ui_rect \<Rightarrow> (ui_error + u32) \<times> paint_list" where
  "push_clip p r =
     (if length (pl_clips p) \<ge> max_clips (pl_config p) then (Inl CapacityExceeded, p)
      else case u32_from (length (pl_clips p)) of
        None \<Rightarrow> (Inl IndexOverflow, p)
      | Some i \<Rightarrow> (Inr i, p\<lparr>pl_clips := pl_clips p @ [\<lparr>clip_id = i, clip_area = r\<rparr>]\<rparr>))"

definition push_item :: "paint_list \<Rightarrow> paint_item \<Rightarrow> (ui_error + unit) \<times> paint_list" where
  "push_item p x =
     (if length (pl_items p) \<ge> max_paint_items (pl_config p) then (Inl CapacityExceeded, p)
      else (Inr (), p\<lparr>pl_items := pl_items p @ [x]\<rparr>))"

definition item_key :: "paint_item \<Rightarrow> ui_batch_key" where
  "item_key x =
     (let k = \<lparr>bk_pass = 0, bk_clip = pi_clip x, bk_texture = None, bk_font = None, bk_z_index = pi_z_index x, bk_kind = 0\<rparr>
      in case pi_kind x of
           PRect _ \<Rightarrow> k
         | PGradient _ _ \<Rightarrow> k\<lparr>bk_kind := 5\<rparr>
         | PRoundedRect _ _ \<Rightarrow> k\<lparr>bk_kind := 6\<rparr>
         | PBorder _ _ \<Rightarrow> k\<lparr>bk_kind := 1\<rparr>
         | PImage t \<Rightarrow> k\<lparr>bk_texture := Some t, bk_kind := 2\<rparr>
         | PGlyphRun f _ \<Rightarrow> k\<lparr>bk_pass := 1, bk_font := Some f, bk_kind := 3\<rparr>
         | PCustom _ \<Rightarrow> k\<lparr>bk_pass := 2, bk_kind := 4\<rparr>)"

fun build_batches_loop :: "nat \<Rightarrow> (nat \<times> paint_item) list \<Rightarrow> ui_batch list \<Rightarrow> (ui_error + unit) \<times> ui_batch list" where
  "build_batches_loop mx [] bs = (Inr (), bs)"
| "build_batches_loop mx ((i, x) # xs) bs =
     (case u32_from i of
        None \<Rightarrow> (Inl IndexOverflow, bs)
      | Some w \<Rightarrow>
          if bs \<noteq> [] \<and> ub_key (last bs) = item_key x \<and> wchecked_add (ub_first (last bs)) (ub_count (last bs)) = Some w
          then build_batches_loop mx xs (butlast bs @ [(last bs)\<lparr>ub_count := wsat_add (ub_count (last bs)) 1\<rparr>])
          else if length bs \<ge> mx then (Inl CapacityExceeded, bs)
          else build_batches_loop mx xs (bs @ [\<lparr>ub_key = item_key x, ub_first = w, ub_count = 1\<rparr>]))"

definition build_batches :: "paint_list \<Rightarrow> (ui_error + unit) \<times> paint_list" where
  "build_batches p =
     (let (r, bs) = build_batches_loop (max_batches (pl_config p)) (enumerate 0 (pl_items p)) (pl_batches p)
      in (r, p\<lparr>pl_batches := bs\<rparr>))"

section \<open>Painting the tree\<close>

text \<open>What a node is painted as; a refusal of the shaper is an error of the whole frame.\<close>

definition empty_run :: glyph_run where
  "empty_run = \<lparr>glyphs = [], run_width = f32_zero, run_height = f32_zero\<rparr>"

definition fallback :: "ui_diagnostics \<Rightarrow> ui_diagnostics" where
  "fallback d = d\<lparr>overflow_fallbacks := sat_add (overflow_fallbacks d) 1\<rparr>"

definition text_unavailable :: "resource_table option \<Rightarrow> ui_content \<Rightarrow> bool" where
  "text_unavailable resources c =
     (case (resources, ui_content.font c) of (Some t, Some f) \<Rightarrow> \<not> font_ready t f | _ \<Rightarrow> False)"

definition node_kind ::
  "alloc \<Rightarrow> ui_config \<Rightarrow> resource_table option \<Rightarrow> ui_node_id \<Rightarrow> ui_content \<Rightarrow> ui_rect \<Rightarrow> ui_diagnostics
   \<Rightarrow> ui_error + paint_kind \<times> ui_diagnostics" where
  "node_kind al cfg resources i c r d =
     (case ckind c of
        Text \<Rightarrow>
          if text_unavailable resources c then Inr (PRect (background (style c)), fallback d)
          else (case ctext c of
                  None \<Rightarrow> Inr (PGlyphRun (case ui_content.font c of None \<Rightarrow> ui_id_new 0 1 | Some f \<Rightarrow> f) empty_run, d)
                | Some tx \<Rightarrow>
                    (case shape_wrapped al fallback_default (text_value tx) (max_glyphs cfg) (f32_max (rwidth r) (f32_of_int 1)) of
                       Inl e \<Rightarrow> Inl e
                     | Inr run \<Rightarrow> Inr (PGlyphRun (case ui_content.font c of None \<Rightarrow> ui_id_new 0 1 | Some f \<Rightarrow> f) run, d)))
      | Image \<Rightarrow>
          (case image c of
             Some im \<Rightarrow>
               if (case resources of None \<Rightarrow> True | Some t \<Rightarrow> texture_ready t (ui_image.texture im))
               then Inr (PImage (ui_image.texture im), d)
               else Inr (PRect (background (style c)), fallback d)
           | None \<Rightarrow> Inr (PRect (background (style c)), fallback d))
      | Custom \<Rightarrow> Inr (PCustom (index i), d)
      | _ \<Rightarrow>
          (case gradient (style c) of
             Some (from, to) \<Rightarrow> Inr (PGradient from to, d)
           | None \<Rightarrow>
               if f32_lt f32_zero (corner_radius (style c))
               then Inr (PRoundedRect (background (style c)) (corner_radius (style c)), d)
               else Inr (PRect (background (style c)), d)))"

definition parent_clip_of :: "ui_tree \<Rightarrow> paint_list \<Rightarrow> ui_node_id \<Rightarrow> u32" where
  "parent_clip_of t p i =
     (case tree_parent t i of
        Inr (Some q) \<Rightarrow> (case find (\<lambda>(j, _). j = q) (pl_node_clips p) of Some (_, c) \<Rightarrow> c | None \<Rightarrow> 0)
      | _ \<Rightarrow> 0)"

definition has_border :: "ui_style \<Rightarrow> bool" where
  "has_border s \<longleftrightarrow> f32_lt f32_zero (border_width s) \<and> list_ex (\<lambda>v. f32_lt f32_zero v) (border s)"

text \<open>The two items of a visible node: its body and, if it has one, its border.\<close>

definition push_items ::
  "paint_list \<Rightarrow> ui_node_id \<Rightarrow> ui_content \<Rightarrow> ui_rect \<Rightarrow> u32 \<Rightarrow> paint_kind \<Rightarrow> (ui_error + unit) \<times> paint_list" where
  "push_items p i c r clip k =
     (let x = \<lparr>pi_node = i, pi_rect = r, pi_clip = clip, pi_z_index = z_index c, pi_opacity = opacity c, pi_kind = k\<rparr>
      in case push_item p x of
           (Inl e, p') \<Rightarrow> (Inl e, p')
         | (Inr _, p') \<Rightarrow>
             if has_border (style c) then push_item p' (x\<lparr>pi_kind := PBorder (border (style c)) (border_width (style c))\<rparr>)
             else (Inr (), p'))"

definition paint_node ::
  "alloc \<Rightarrow> ui_tree \<Rightarrow> ui_rect \<Rightarrow> resource_table option \<Rightarrow> ui_node_id \<Rightarrow> paint_list \<times> ui_diagnostics
   \<Rightarrow> (ui_error + unit) \<times> paint_list \<times> ui_diagnostics" where
  "paint_node al t viewport resources i = (\<lambda>(p, d).
     case (tree_content t i, tree_rect t i) of
       (Inr c, Inr r) \<Rightarrow>
         let prect = (case vec_get (pl_clips p) (unat (parent_clip_of t p i)) of Some k \<Rightarrow> clip_area k | None \<Rightarrow> viewport);
             area = rect_intersect prect r
         in (case push_clip p area of
               (Inl e, p') \<Rightarrow> (Inl e, p', d)
             | (Inr clip, p') \<Rightarrow>
                 let p1 = p'\<lparr>pl_node_clips := pl_node_clips p' @ [(i, clip)]\<rparr>
                 in if \<not> visible c \<or> f32_le (rect_area area) f32_zero
                    then (Inr (), p1, d\<lparr>clipped_items := sat_add (clipped_items d) 1\<rparr>)
                    else (case node_kind al (pl_config p) resources i c r d of
                            Inl e \<Rightarrow> (Inl e, p1, d)
                          | Inr (k, d') \<Rightarrow> (case push_items p1 i c r clip k of (res, p2) \<Rightarrow> (res, p2, d'))))
     | (Inl e, _) \<Rightarrow> (Inl e, p, d)
     | (_, Inl e) \<Rightarrow> (Inl e, p, d))"

fun paint_loop ::
  "(nat \<Rightarrow> alloc) \<Rightarrow> ui_tree \<Rightarrow> ui_rect \<Rightarrow> resource_table option \<Rightarrow> (nat \<times> ui_node_id) list \<Rightarrow> paint_list \<times> ui_diagnostics
   \<Rightarrow> (ui_error + unit) \<times> paint_list \<times> ui_diagnostics" where
  "paint_loop als t viewport resources [] pd = (Inr (), pd)"
| "paint_loop als t viewport resources ((k, i) # is') pd =
     (case paint_node (als k) t viewport resources i pd of
        (Inl e, pd') \<Rightarrow> (Inl e, pd')
      | (Inr _, pd') \<Rightarrow> paint_loop als t viewport resources is' pd')"

definition run_glyphs :: "paint_item \<Rightarrow> glyph list" where
  "run_glyphs x = (case pi_kind x of PGlyphRun _ run \<Rightarrow> glyphs run | _ \<Rightarrow> [])"

fun sum_checked :: "nat list \<Rightarrow> nat \<Rightarrow> nat option" where
  "sum_checked [] s = Some s"
| "sum_checked (n # ns) s = (case checked_add s n of None \<Rightarrow> None | Some s' \<Rightarrow> sum_checked ns s')"

text \<open>\<open>items * 80 + glyphs * 32\<close>, each operation checked.\<close>

definition stream_bytes :: "nat \<Rightarrow> nat \<Rightarrow> nat option" where
  "stream_bytes ni ng =
     (case checked_mul ni ui_item_stride of
        None \<Rightarrow> None
      | Some a \<Rightarrow> (case checked_mul ng ui_glyph_stride of None \<Rightarrow> None | Some b \<Rightarrow> checked_add a b))"

text \<open>
  The glyphs of the painted items are counted one \<open>if let\<close> at a time in the source; items without a
  run add nothing.
\<close>

definition finish_plan :: "paint_list \<Rightarrow> ui_diagnostics \<Rightarrow> (ui_error + upload_plan) \<times> ui_diagnostics" where
  "finish_plan p d =
     (case sum_checked (map (length \<circ> run_glyphs) (pl_items p)) 0 of
        None \<Rightarrow> (Inl IndexOverflow, d)
      | Some g \<Rightarrow>
          (case (u32_from (length (pl_items p)), u32_from (length (pl_batches p)), u32_from g, stream_bytes (length (pl_items p)) g) of
             (Some ni, Some nb, Some ng, Some bytes) \<Rightarrow>
               if bytes > max_upload_bytes (pl_config p) then (Inl CapacityExceeded, d)
               else (Inr \<lparr>up_items = ni, up_batches = nb, up_glyphs = ng, upload_bytes = bytes\<rparr>,
                     d\<lparr>d_paint_items := length (pl_items p), d_batches := length (pl_batches p), d_glyphs := g,
                       uploaded_bytes := bytes\<rparr>)
           | _ \<Rightarrow> (Inl IndexOverflow, d)))"

text \<open>What follows the traversal: the viewport clip, the nodes, the batches, the plan.\<close>

definition paint_order ::
  "(nat \<Rightarrow> alloc) \<Rightarrow> ui_tree \<Rightarrow> ui_rect \<Rightarrow> resource_table option \<Rightarrow> ui_node_id list \<Rightarrow> paint_list \<Rightarrow> ui_diagnostics
   \<Rightarrow> (ui_error + upload_plan) \<times> paint_list \<times> ui_diagnostics" where
  "paint_order als t viewport resources order p0 d =
     (case push_clip p0 viewport of
        (Inl e, p1) \<Rightarrow> (Inl e, p1, d)
      | (Inr _, p1) \<Rightarrow>
          (case paint_loop als t viewport resources (enumerate 0 order) (p1, d) of
             (Inl e, p2, d2) \<Rightarrow> (Inl e, p2, d2)
           | (Inr _, p2, d2) \<Rightarrow>
               (case build_batches p2 of
                  (Inl e, p3) \<Rightarrow> (Inl e, p3, d2)
                | (Inr _, p3) \<Rightarrow> (case finish_plan p3 d2 of (res, d3) \<Rightarrow> (res, p3, d3)))))"

definition build_with_resources ::
  "alloc \<Rightarrow> (nat \<Rightarrow> alloc) \<Rightarrow> ui_tree \<Rightarrow> ui_rect \<Rightarrow> resource_table option \<Rightarrow> paint_list \<Rightarrow> ui_diagnostics
   \<Rightarrow> ((ui_error + upload_plan) \<times> paint_list \<times> ui_diagnostics) run" where
  "build_with_resources al als t viewport resources p d =
     (if \<not> rect_sane viewport then Ret (Inl InvalidValue, p, d)
      else let p0 = p\<lparr>pl_clips := [], pl_items := [], pl_batches := [], pl_node_clips := []\<rparr>
           in run_bind (preorder al t) (\<lambda>r. case r of
                Inl e \<Rightarrow> Ret (Inl e, p0, d)
              | Inr order \<Rightarrow> Ret (paint_order als t viewport resources order p0 d)))"

definition paint_build ::
  "alloc \<Rightarrow> (nat \<Rightarrow> alloc) \<Rightarrow> ui_tree \<Rightarrow> ui_rect \<Rightarrow> paint_list \<Rightarrow> ui_diagnostics
   \<Rightarrow> ((ui_error + upload_plan) \<times> paint_list \<times> ui_diagnostics) run" where
  "paint_build al als t viewport p d = build_with_resources al als t viewport None p d"

section \<open>The snapshot\<close>

record render_item =
  it_node :: ui_node_id
  it_rect :: ui_rect
  it_clip_rect :: ui_rect
  it_color :: "f32 list"
  it_clip :: u32
  it_z_index :: u32
  it_opacity :: f32
  it_kind :: u8
  it_texture :: "texture_id option"
  it_font :: "font_id option"
  glyph_count :: u32
  glyph_offset :: u32

record snapshot =
  sn_items :: "render_item list"
  sn_batches :: "ui_batch list"
  sn_glyphs :: "glyph list"
  sn_upload :: upload_plan

definition white :: "f32 list" where
  "white = replicate 4 (f32_of_int 1)"

fun kind_fields :: "paint_kind \<Rightarrow> u8 \<times> texture_id option \<times> font_id option \<times> f32 list" where
  "kind_fields (PRect c) = (0, None, None, c)"
| "kind_fields (PGradient f t) = (5, None, None, f)"
| "kind_fields (PRoundedRect c r) = (6, None, None, c)"
| "kind_fields (PBorder c w) = (1, None, None, c)"
| "kind_fields (PImage t) = (2, Some t, None, white)"
| "kind_fields (PGlyphRun f r) = (3, None, Some f, white)"
| "kind_fields (PCustom t) = (4, None, None, white)"

text \<open>One iteration of the loop over the items: the render item, and its glyphs appended.\<close>

definition is_run :: "paint_item \<Rightarrow> bool" where
  "is_run x = (case pi_kind x of PGlyphRun _ _ \<Rightarrow> True | _ \<Rightarrow> False)"

definition snapshot_item :: "alloc \<Rightarrow> ui_clip list \<Rightarrow> nat \<times> paint_item \<Rightarrow> glyph list \<Rightarrow> ui_error + render_item \<times> glyph list" where
  "snapshot_item al clips = (\<lambda>(k, x) gs.
     case u32_from (length gs) of
       None \<Rightarrow> Inl IndexOverflow
     | Some off \<Rightarrow>
         if is_run x \<and> \<not> al (Suc k) then Inl AllocationFailed
         else case u32_from (length (run_glyphs x)) of
           None \<Rightarrow> Inl IndexOverflow
         | Some n \<Rightarrow>
             (let (kd, tx, fo, col) = kind_fields (pi_kind x)
              in Inr (\<lparr>it_node = pi_node x, it_rect = pi_rect x,
                       it_clip_rect = (case vec_get clips (unat (pi_clip x)) of Some c \<Rightarrow> clip_area c | None \<Rightarrow> rect_zero),
                       it_color = col, it_clip = pi_clip x, it_z_index = pi_z_index x, it_opacity = pi_opacity x,
                       it_kind = kd, it_texture = tx, it_font = fo, glyph_count = n, glyph_offset = off\<rparr>,
                      gs @ run_glyphs x)))"

fun snapshot_items ::
  "alloc \<Rightarrow> ui_clip list \<Rightarrow> (nat \<times> paint_item) list \<Rightarrow> render_item list \<Rightarrow> glyph list \<Rightarrow> ui_error + render_item list \<times> glyph list" where
  "snapshot_items al clips [] its gs = Inr (its, gs)"
| "snapshot_items al clips (x # xs) its gs =
     (case snapshot_item al clips x gs of
        Inl e \<Rightarrow> Inl e
      | Inr (it, gs') \<Rightarrow> snapshot_items al clips xs (its @ [it]) gs')"

definition paint_snapshot :: "alloc \<Rightarrow> paint_list \<Rightarrow> ui_error + snapshot" where
  "paint_snapshot al p =
     (if \<not> al 0 then Inl AllocationFailed
      else case snapshot_items al (pl_clips p) (enumerate 0 (pl_items p)) [] [] of
        Inl e \<Rightarrow> Inl e
      | Inr (its, gs) \<Rightarrow>
          if \<not> al (Suc (length (pl_items p))) then Inl AllocationFailed
          else case sum_checked (map (unat \<circ> glyph_count) its) 0 of
            None \<Rightarrow> Inl IndexOverflow
          | Some g \<Rightarrow>
              (case (stream_bytes (length its) g, u32_from (length (pl_items p)), u32_from (length (pl_batches p)), u32_from g) of
                 (Some bytes, Some ni, Some nb, Some ng) \<Rightarrow>
                   Inr \<lparr>sn_items = its, sn_batches = pl_batches p, sn_glyphs = gs,
                        sn_upload = \<lparr>up_items = ni, up_batches = nb, up_glyphs = ng, upload_bytes = bytes\<rparr>\<rparr>
               | _ \<Rightarrow> Inl IndexOverflow))"

section \<open>Encoding and dirty ranges\<close>

definition u16_to_le :: "u16 \<Rightarrow> bytes" where
  "u16_to_le w = le_digits 2 (unat w)"

text \<open>The bytes of one item and of one glyph, padded to their strides.\<close>

definition item_bytes :: "(f32 \<Rightarrow> u32) \<Rightarrow> render_item \<Rightarrow> bytes" where
  "item_bytes bits it =
     concat (map (u32_to_le \<circ> bits)
       ([rx (it_rect it), ry (it_rect it), rwidth (it_rect it), rheight (it_rect it),
         rx (it_clip_rect it), ry (it_clip_rect it), rwidth (it_clip_rect it), rheight (it_clip_rect it)] @ it_color it))
     @ u32_to_le (it_clip it) @ u32_to_le (it_z_index it) @ u32_to_le (bits (it_opacity it)) @ [it_kind it, 0]
     @ u32_to_le (glyph_count it) @ u32_to_le (glyph_offset it)
     @ u32_to_le (case it_texture it of Some i \<Rightarrow> index i | None \<Rightarrow> - 1)
     @ u32_to_le (case it_font it of Some i \<Rightarrow> index i | None \<Rightarrow> - 1)
     @ replicate (ui_item_stride - 78) 0"

definition glyph_bytes :: "(f32 \<Rightarrow> u32) \<Rightarrow> glyph \<Rightarrow> bytes" where
  "glyph_bytes bits g =
     u32_to_le (codepoint g) @ u32_to_le (bits (advance g)) @ u16_to_le (g_atlas_x g) @ u16_to_le (g_atlas_y g)
     @ u16_to_le (g_width g) @ u16_to_le (g_height g) @ replicate (ui_glyph_stride - 16) 0"

text \<open>The debug assertion on the length is a theorem below; the lengths stay far below \<open>usize::MAX\<close>.\<close>

definition encode_bytes :: "(f32 \<Rightarrow> u32) \<Rightarrow> alloc \<Rightarrow> snapshot \<Rightarrow> ui_error + bytes" where
  "encode_bytes bits al s =
     (case stream_bytes (length (sn_items s)) (length (sn_glyphs s)) of
        None \<Rightarrow> Inl IndexOverflow
      | Some n \<Rightarrow>
          if \<not> al 0 then Inl AllocationFailed
          else Inr (concat (map (item_bytes bits) (sn_items s)) @ concat (map (glyph_bytes bits) (sn_glyphs s))))"

record upload_range =
  ur_offset :: nat
  ur_bytes :: bytes

text \<open>\<open>slice.get(a..b)\<close>.\<close>

definition slice_get :: "'a list \<Rightarrow> nat \<Rightarrow> nat \<Rightarrow> 'a list option" where
  "slice_get xs a b = (if a \<le> b \<and> b \<le> length xs then Some (take (b - a) (drop a xs)) else None)"

definition chunk_changed :: "bytes \<Rightarrow> bytes \<Rightarrow> nat \<Rightarrow> bool" where
  "chunk_changed cur old start =
     (let e = min (start + 32) (length cur); oe = min (start + 32) (length old)
      in slice_get cur start e \<noteq> slice_get old start oe \<or> length cur \<noteq> length old \<and> e \<noteq> oe)"

text \<open>
  The loop over the chunks: \<open>chunk\<close> is the next one of \<open>n\<close>, \<open>pending\<close> the start of an open range.
  \<open>al (Suc k)\<close> answers the reservation of the \<open>k\<close>-th range.
\<close>

function dirty_loop ::
  "alloc \<Rightarrow> bytes \<Rightarrow> bytes \<Rightarrow> nat \<Rightarrow> nat \<Rightarrow> nat option \<Rightarrow> upload_range list \<Rightarrow> ui_error + upload_range list" where
  "dirty_loop al cur old n chunk pending rs =
     (if chunk \<ge> n then Inr rs
      else let start = chunk * 32;
               changed = chunk_changed cur old start;
               pending1 = (if changed \<and> pending = None then Some start else pending);
               last_chunk = (chunk + 1 = n)
           in if start + 32 > usize_max then Inl IndexOverflow
              else if \<not> changed \<and> pending1 \<noteq> None \<or> changed \<and> last_chunk
              then (let rstart = (case pending1 of Some a \<Rightarrow> a | None \<Rightarrow> start);
                        rend = (if changed \<and> last_chunk then length cur else min start (length cur))
                    in if rstart < rend
                       then (if \<not> al (Suc (length rs)) then Inl AllocationFailed
                             else dirty_loop al cur old n (chunk + 1) None
                               (rs @ [\<lparr>ur_offset = rstart, ur_bytes = take (rend - rstart) (drop rstart cur)\<rparr>]))
                       else dirty_loop al cur old n (chunk + 1) None rs)
              else dirty_loop al cur old n (chunk + 1) pending1 rs)"
  by pat_completeness auto
termination by (relation "measure (\<lambda>(al, cur, old, n, chunk, pending, rs). n - chunk)") auto

declare dirty_loop.simps [simp del]

definition dirty_ranges :: "alloc \<Rightarrow> bytes \<Rightarrow> bytes \<Rightarrow> ui_error + upload_range list" where
  "dirty_ranges al cur old =
     (if \<not> al 0 then Inl AllocationFailed
      else dirty_loop al cur old ((max (length cur) (length old) + 31) div 32) 0 None [])"

definition encode_dirty_ranges ::
  "(f32 \<Rightarrow> u32) \<Rightarrow> alloc \<Rightarrow> alloc \<Rightarrow> alloc \<Rightarrow> snapshot \<Rightarrow> snapshot option \<Rightarrow> ui_error + upload_range list" where
  "encode_dirty_ranges bits al1 al2 al3 s previous =
     (case encode_bytes bits al1 s of
        Inl e \<Rightarrow> Inl e
      | Inr cur \<Rightarrow>
          (case previous of
             None \<Rightarrow> Inr [\<lparr>ur_offset = 0, ur_bytes = cur\<rparr>]
           | Some ps \<Rightarrow>
               (case encode_bytes bits al2 ps of
                  Inl e \<Rightarrow> Inl e
                | Inr old \<Rightarrow> dirty_ranges al3 cur old)))"

section \<open>Dirty ranges rebuild the buffer\<close>

text \<open>Copying a range into a buffer, as the uploader does.\<close>

definition patch :: "upload_range \<Rightarrow> bytes \<Rightarrow> bytes" where
  "patch r buf = take (ur_offset r) buf @ ur_bytes r @ drop (ur_offset r + length (ur_bytes r)) buf"

definition covers :: "upload_range list \<Rightarrow> nat \<Rightarrow> bool" where
  "covers rs j \<longleftrightarrow> (\<exists>r\<in>set rs. ur_offset r \<le> j \<and> j < ur_offset r + length (ur_bytes r))"

text \<open>Every range is a piece of the current bytes.\<close>

definition pieces_of :: "bytes \<Rightarrow> upload_range list \<Rightarrow> bool" where
  "pieces_of cur rs \<longleftrightarrow>
     (\<forall>r\<in>set rs. ur_offset r + length (ur_bytes r) \<le> length cur
        \<and> ur_bytes r = take (length (ur_bytes r)) (drop (ur_offset r) cur))"

lemma patch_nth:
  assumes "ur_offset r + length (ur_bytes r) \<le> length cur" "ur_bytes r = take (length (ur_bytes r)) (drop (ur_offset r) cur)"
    and "length buf = length cur" "j < length cur"
  shows "length (patch r buf) = length cur"
    "patch r buf ! j = (if ur_offset r \<le> j \<and> j < ur_offset r + length (ur_bytes r) then cur ! j else buf ! j)"
proof -
  let ?o = "ur_offset r" and ?n = "length (ur_bytes r)"
  show "length (patch r buf) = length cur" using assms(1,3) by (simp add: patch_def)
  have piece: "ur_bytes r ! k = cur ! (?o + k)" if "k < ?n" for k
    using assms(2) that by (metis assms(1) add_leD1 nth_drop nth_take)
  show "patch r buf ! j = (if ?o \<le> j \<and> j < ?o + ?n then cur ! j else buf ! j)"
    using assms(1,3,4) piece [of "j - ?o"] by (auto simp: patch_def nth_append min_def)
qed

lemma fold_patch:
  assumes "pieces_of cur rs" "length buf = length cur"
  shows "length (fold patch rs buf) = length cur \<and> (\<forall>j<length cur. fold patch rs buf ! j = (if covers rs j then cur ! j else buf ! j))"
  using assms
proof (induction rs arbitrary: buf)
  case (Cons r rs)
  have r: "ur_offset r + length (ur_bytes r) \<le> length cur" "ur_bytes r = take (length (ur_bytes r)) (drop (ur_offset r) cur)"
    and rs: "pieces_of cur rs" using Cons.prems(1) by (auto simp: pieces_of_def)
  have len: "length (patch r buf) = length cur" using r Cons.prems(2) by (simp add: patch_def)
  show ?case using Cons.IH [OF rs len] patch_nth(2) [OF r Cons.prems(2)] by (auto simp: covers_def)
qed (simp add: covers_def)

text \<open>The bytes at a position are the same in both streams.\<close>

definition same_at :: "bytes \<Rightarrow> bytes \<Rightarrow> nat \<Rightarrow> bool" where
  "same_at cur old j \<longleftrightarrow> j < length old \<and> old ! j = cur ! j"

lemma unchanged_chunk:
  assumes "\<not> chunk_changed cur old start" "start \<le> j" "j < start + 32" "j < length cur"
  shows "same_at cur old j"
proof -
  let ?e = "min (start + 32) (length cur)" and ?oe = "min (start + 32) (length old)"
  have "slice_get cur start ?e = Some (take (?e - start) (drop start cur))" using assms(2,4) by (simp add: slice_get_def)
  then have s: "slice_get old start ?oe = Some (take (?e - start) (drop start cur))"
    using assms(1) by (simp add: chunk_changed_def Let_def)
  then have le: "start \<le> ?oe" and eq: "take (?oe - start) (drop start old) = take (?e - start) (drop start cur)"
    by (auto simp: slice_get_def split: if_splits)
  have "length (take (?oe - start) (drop start old)) = length (take (?e - start) (drop start cur))" using eq by simp
  then have l: "j < ?oe" using assms le by simp
  have "old ! j = take (?oe - start) (drop start old) ! (j - start)"
  proof -
    have "j - start < ?oe - start" using l assms(2) by linarith
    then have "take (?oe - start) (drop start old) ! (j - start) = drop start old ! (j - start)" by (rule nth_take)
    also have "\<dots> = old ! j" using le assms(2) by simp
    finally show ?thesis by simp
  qed
  also have "\<dots> = cur ! j" unfolding eq using assms by simp
  finally show ?thesis using l by (simp add: same_at_def)
qed

definition scanned :: "bytes \<Rightarrow> bytes \<Rightarrow> upload_range list \<Rightarrow> nat \<Rightarrow> bool" where
  "scanned cur old rs b \<longleftrightarrow> pieces_of cur rs \<and> (\<forall>j<b. j < length cur \<longrightarrow> covers rs j \<or> same_at cur old j)"

lemma scanned_add:
  assumes "scanned cur old rs a" "a < e" "e \<le> length cur"
  shows "scanned cur old (rs @ [\<lparr>ur_offset = a, ur_bytes = take (e - a) (drop a cur)\<rparr>]) e"
  using assms unfolding scanned_def pieces_of_def covers_def by (auto simp: not_less)

lemma scanned_mono: "scanned cur old rs b \<Longrightarrow> (\<And>j. b \<le> j \<Longrightarrow> j < c \<Longrightarrow> j < length cur \<Longrightarrow> same_at cur old j) \<Longrightarrow> scanned cur old rs c"
  unfolding scanned_def by (meson not_less)

definition loop_bound :: "nat \<Rightarrow> nat option \<Rightarrow> nat" where
  "loop_bound chunk pending = (case pending of None \<Rightarrow> chunk * 32 | Some a \<Rightarrow> a)"

lemma dirty_loop_scanned:
  assumes "dirty_loop al cur old n chunk pending rs = Inr rs'"
    and "scanned cur old rs (loop_bound chunk pending)" "pending \<noteq> None \<Longrightarrow> the pending \<le> chunk * 32 \<and> chunk < n"
    and "chunk \<le> n" "length cur \<le> n * 32"
  shows "scanned cur old rs' (length cur)"
  using assms
proof (induction al cur old n chunk pending rs rule: dirty_loop.induct)
  case (1 al cur old n chunk pending rs)
  let ?s = "chunk * 32"
  show ?case
  proof (cases "chunk \<ge> n")
    case True
    then have "pending = None" "chunk = n" using "1.prems"(3,4) by (cases pending; simp)+
    moreover have "rs' = rs" using "1.prems"(1) True by (simp add: dirty_loop.simps [of al cur old n chunk])
    ultimately have "pending = None" "chunk = n" "rs' = rs" by simp_all
    then show ?thesis using "1.prems"(2,5) by (auto simp: loop_bound_def scanned_def)
  next
    case False
    let ?c = "chunk_changed cur old ?s" and ?last = "chunk + 1 = n"
    define p1 where "p1 = (if ?c \<and> pending = None then Some ?s else pending)"
    have sc: "scanned cur old rs (loop_bound chunk p1)"
      using "1.prems"(2) by (auto simp: p1_def loop_bound_def)
    have p1: "p1 \<noteq> None \<Longrightarrow> the p1 \<le> ?s" using "1.prems"(3) by (auto simp: p1_def)
    have ok: "\<not> ?s + 32 > usize_max" using "1.prems"(1) False by (auto simp: dirty_loop.simps [of al cur old n chunk] Let_def split: if_splits)
    show ?thesis
    proof (cases "\<not> ?c \<and> p1 \<noteq> None \<or> ?c \<and> ?last")
      case flush: True
      have p1n: "p1 \<noteq> None" using flush by (auto simp: p1_def)
      then obtain a where a: "p1 = Some a" "a \<le> ?s" using p1 by auto
      let ?e = "if ?c \<and> ?last then length cur else min ?s (length cur)"
      let ?rs = "if a < ?e then rs @ [\<lparr>ur_offset = a, ur_bytes = take (?e - a) (drop a cur)\<rparr>] else rs"
      have step: "dirty_loop al cur old n (chunk + 1) None ?rs = Inr rs'"
        using "1.prems"(1) False ok flush a
        by (auto simp: dirty_loop.simps [of al cur old n chunk] Let_def p1_def [symmetric] split: if_splits)
      have "scanned cur old ?rs ?e"
        using sc a scanned_add [of cur old rs a ?e] by (auto simp: loop_bound_def scanned_def not_less)
      then have "scanned cur old ?rs ((chunk + 1) * 32)"
      proof (rule scanned_mono)
        fix j assume j: "?e \<le> j" "j < (chunk + 1) * 32" "j < length cur"
        then have nc: "\<not> ?c" "?s \<le> j" using flush by (auto split: if_splits)
        show "same_at cur old j" using unchanged_chunk [OF nc(1,2)] j by simp
      qed
      then have bound: "scanned cur old ?rs (loop_bound (chunk + 1) None)" by (simp add: loop_bound_def)
      show ?thesis
      proof (cases "a < ?e")
        case True
        have al: "al (Suc (length rs))"
          using "1.prems"(1) False ok flush a True
          by (auto simp: dirty_loop.simps [of al cur old n chunk] Let_def p1_def [symmetric] split: if_splits)
        show ?thesis
          using "1.IH"(1) [OF False refl refl p1_def refl ok] flush step bound True al a "1.prems"(4,5) False by auto
      next
        case no: False
        show ?thesis
          using "1.IH"(2) [OF False refl refl p1_def refl ok] flush step bound no a "1.prems"(4,5) False by auto
      qed
    next
      case keep: False
      have step: "dirty_loop al cur old n (chunk + 1) p1 rs = Inr rs'"
        using "1.prems"(1) False ok keep
        by (auto simp: dirty_loop.simps [of al cur old n chunk] Let_def p1_def [symmetric] split: if_splits)
      have "scanned cur old rs (loop_bound (chunk + 1) p1)"
      proof (cases p1)
        case None
        then have nc: "\<not> ?c" by (auto simp: p1_def split: if_splits)
        have "scanned cur old rs ?s" using sc None by (simp add: loop_bound_def)
        then have "scanned cur old rs ((chunk + 1) * 32)"
        proof (rule scanned_mono)
          fix j assume j: "?s \<le> j" "j < (chunk + 1) * 32" "j < length cur"
          show "same_at cur old j" using unchanged_chunk [OF nc j(1)] j by simp
        qed
        then show ?thesis using None by (simp add: loop_bound_def)
      qed (use sc in \<open>simp add: loop_bound_def\<close>)
      moreover have "p1 \<noteq> None \<Longrightarrow> the p1 \<le> (chunk + 1) * 32 \<and> chunk + 1 < n"
        using keep p1 False by (auto simp: p1_def split: if_splits)
      ultimately show ?thesis
        using "1.IH"(3) [OF False refl refl p1_def refl ok keep step] "1.prems"(5) False by simp
    qed
  qed
qed

section \<open>Batches are the runs of equal keys\<close>

fun ui_batches_at :: "nat \<Rightarrow> paint_item list list \<Rightarrow> ui_batch list" where
  "ui_batches_at s [] = []"
| "ui_batches_at s (r # rs) =
     \<lparr>ub_key = item_key (hd r), ub_first = of_nat s, ub_count = of_nat (length r)\<rparr> # ui_batches_at (s + length r) rs"

lemma length_ui_batches_at [simp]: "length (ui_batches_at s rs) = length rs"
  by (induction s rs rule: ui_batches_at.induct) simp_all

lemma ui_batches_at_snoc:
  "ui_batches_at s (rs @ [r]) = ui_batches_at s rs
     @ [\<lparr>ub_key = item_key (hd r), ub_first = of_nat (s + length (concat rs)), ub_count = of_nat (length r)\<rparr>]"
  by (induction s rs rule: ui_batches_at.induct) (simp_all add: add.assoc)

text \<open>One item: the last batch grows, or a new one is opened.\<close>

lemma batch_step:
  fixes x :: paint_item and ys :: "paint_item list"
  assumes len: "length ys < u32_max"
  defines "bs \<equiv> ui_batches_at 0 (runs item_key ys)" and "bs' \<equiv> ui_batches_at 0 (runs item_key (ys @ [x]))"
  shows "build_batches_loop mx ((length ys, x) # xs) bs =
     (if ys \<noteq> [] \<and> item_key (last ys) = item_key x then build_batches_loop mx xs bs'
      else if length bs \<ge> mx then (Inl CapacityExceeded, bs) else build_batches_loop mx xs bs')"
proof (cases "ys = []")
  case True
  then show ?thesis by (simp add: bs_def bs'_def u32_from_def)
next
  case False
  let ?R = "runs item_key ys" and ?k = "item_key x"
  have ne: "?R \<noteq> []" using False by simp
  let ?I = "butlast ?R" and ?l = "last ?R"
  have R: "?R = ?I @ [?l]" using ne by simp
  have cat: "concat ?I @ ?l = ys" using concat_runs [of item_key ys] by (subst (asm) R) simp
  have lens: "length (concat ?I) + length ?l = length ys" using arg_cong [OF cat, of length] by simp
  have l0: "?l \<noteq> []" using runs_uniform [of ?l item_key ys] ne by simp
  let ?b = "\<lparr>ub_key = item_key (hd ?l), ub_first = of_nat (length (concat ?I)), ub_count = of_nat (length ?l)\<rparr> :: ui_batch"
  have bs: "bs = ui_batches_at 0 ?I @ [?b]" unfolding bs_def by (subst R) (simp add: ui_batches_at_snoc)
  have key: "item_key (hd ?l) = item_key (last ys)" by (rule key_last_run [OF False])
  have un: "unat (of_nat (length (concat ?I)) :: u32) = length (concat ?I)" "unat (of_nat (length ?l) :: u32) = length ?l"
    using lens len by (simp_all add: unat_of_nat_u32)
  have add: "wchecked_add (ub_first ?b) (ub_count ?b) = Some (of_nat (length ys))"
    using un lens len by (simp add: wchecked_add_def u32_max_def flip: of_nat_add)
  have sat: "wsat_add (of_nat (length ?l) :: u32) 1 = of_nat (length (?l @ [x]))"
  proof -
    have "length ?l < u32_max" using lens len by linarith
    then have "unat (of_nat (length ?l) :: u32) + unat (1 :: u32) < 2 ^ 32" using un(2) by (simp add: u32_max_def)
    then show ?thesis by (simp add: wsat_add_def)
  qed
  have w: "u32_from (length ys) = Some (of_nat (length ys))" using len by (simp add: u32_from_def)
  show ?thesis
  proof (cases "item_key (last ys) = ?k")
    case True
    have "bs' = ui_batches_at 0 ?I @ [?b\<lparr>ub_count := wsat_add (ub_count ?b) 1\<rparr>]"
      using True False l0 sat unfolding bs'_def runs_snoc by (simp add: ui_batches_at_snoc)
    then show ?thesis using True False w add bs key by simp
  next
    case no: False
    have "concat ?R = ys" by simp
    then have "bs' = bs @ [\<lparr>ub_key = ?k, ub_first = of_nat (length ys), ub_count = 1\<rparr>]"
      using no False unfolding bs'_def bs_def runs_snoc by (simp add: ui_batches_at_snoc)
    then show ?thesis using no False w bs key by simp
  qed
qed

lemma runs_grow: "length (runs k ys) \<le> length (runs k (ys @ xs))"
proof (induction xs rule: rev_induct)
  case (snoc x xs)
  have "length (runs k zs) \<le> length (runs k (zs @ [x]))" for zs
    by (cases "zs = []") (simp_all add: runs_snoc)
  from this [of "ys @ xs"] snoc show ?case by simp
qed simp

lemma build_batches_loop_runs:
  assumes "length (ys @ xs) \<le> u32_max" "length (runs item_key ys) \<le> mx"
  shows "\<exists>bs'. build_batches_loop mx (enumerate (length ys) xs) (ui_batches_at 0 (runs item_key ys)) =
     (if length (runs item_key (ys @ xs)) \<le> mx then (Inr (), ui_batches_at 0 (runs item_key (ys @ xs)))
      else (Inl CapacityExceeded, bs'))"
  using assms
proof (induction xs arbitrary: ys)
  case (Cons x xs)
  have len: "length ys < u32_max" using Cons.prems(1) by simp
  note st = batch_step [OF len, of mx x "enumerate (Suc (length ys)) xs"]
  have grow: "length (runs item_key (ys @ [x])) \<le> length (runs item_key (ys @ x # xs))"
    using runs_grow [of item_key "ys @ [x]" xs] by simp
  show ?case
  proof (cases "length (runs item_key (ys @ [x])) \<le> mx")
    case True
    have eq: "build_batches_loop mx (enumerate (length ys) (x # xs)) (ui_batches_at 0 (runs item_key ys)) =
        build_batches_loop mx (enumerate (length (ys @ [x])) xs) (ui_batches_at 0 (runs item_key (ys @ [x])))"
      using st True by (auto simp: runs_snoc split: if_splits)
    have app: "(ys @ [x]) @ xs = ys @ x # xs" by simp
    show ?thesis unfolding eq using Cons.IH [of "ys @ [x]", unfolded app] Cons.prems True by blast
  next
    case False
    then have "\<not> (ys \<noteq> [] \<and> item_key (last ys) = item_key x)" "length (runs item_key ys) \<ge> mx"
      using Cons.prems(2) by (auto simp: runs_snoc split: if_splits)
    then show ?thesis using st False grow by auto
  qed
qed simp

section \<open>A painted frame\<close>

text \<open>What painting keeps, whether it succeeds or not: the quotas, and no batches yet.\<close>

definition paint_ok :: "ui_config \<Rightarrow> paint_list \<Rightarrow> bool" where
  "paint_ok c p \<longleftrightarrow> pl_config p = c \<and> pl_batches p = [] \<and> length (pl_items p) \<le> max_paint_items c
     \<and> length (pl_clips p) \<le> max_clips c"

lemma push_clip_ok: "paint_ok c p \<Longrightarrow> paint_ok c (snd (push_clip p r))"
  by (auto simp: paint_ok_def push_clip_def split: option.splits)

lemma push_item_ok: "paint_ok c p \<Longrightarrow> paint_ok c (snd (push_item p x))"
  by (auto simp: paint_ok_def push_item_def)

lemma push_items_ok: "paint_ok c p \<Longrightarrow> paint_ok c (snd (push_items p i co r clip k))"
  using push_item_ok [of c p] push_item_ok [of c]
  by (auto simp: push_items_def Let_def split: sum.splits prod.splits) (metis snd_conv)+

lemma paint_node_ok: "paint_ok c (fst pd) \<Longrightarrow> paint_ok c (fst (snd (paint_node al t viewport resources i pd)))"
proof -
  assume ok: "paint_ok c (fst pd)"
  have pc: "paint_ok c p'" if "push_clip (fst pd) r = (x, p')" for r x p'
    using push_clip_ok [OF ok, of r] that by simp
  have pn: "paint_ok c (p'\<lparr>pl_node_clips := y\<rparr>)" if "paint_ok c p'" for p' y using that by (simp add: paint_ok_def)
  have pi: "paint_ok c q" if "paint_ok c p'" "push_items p' i co r clip k = (x, q)" for p' q co r clip k x
    using push_items_ok [OF that(1), of i co r clip k] that(2) by simp
  show ?thesis
    using ok pc pn pi unfolding paint_node_def Let_def
    by (auto split: sum.splits prod.splits if_splits) metis+
qed

lemma paint_loop_ok: "paint_ok c (fst pd) \<Longrightarrow> paint_ok c (fst (snd (paint_loop als t viewport resources ns pd)))"
proof (induction als t viewport resources ns pd rule: paint_loop.induct)
  case (2 als t viewport resources k i ns pd)
  then show ?case using paint_node_ok [OF "2.prems", of "als k" t viewport resources i]
    by (auto split: sum.splits prod.splits)
qed simp

lemma sum_checked_Some: "sum_checked ns s = Some m \<Longrightarrow> m = s + sum_list ns"
  by (induction ns s rule: sum_checked.induct) (auto simp: checked_add_def split: option.splits if_splits)

lemma sum_checked_ok: "s + sum_list ns \<le> usize_max \<Longrightarrow> sum_checked ns s = Some (s + sum_list ns)"
  by (induction ns s rule: sum_checked.induct) (auto simp: checked_add_def)

lemma stream_bytes_Some: "stream_bytes ni ng = Some n \<longleftrightarrow> n = ni * 80 + ng * 32 \<and> n \<le> usize_max"
  by (auto simp: stream_bytes_def checked_mul_def checked_add_def ui_item_stride_def ui_glyph_stride_def split: option.splits)

definition painted_glyphs :: "paint_list \<Rightarrow> nat" where
  "painted_glyphs p = sum_list (map (length \<circ> run_glyphs) (pl_items p))"

lemma finish_plan_Inr:
  assumes "finish_plan p d = (Inr plan, d')"
  shows "length (pl_items p) \<le> u32_max" "length (pl_batches p) \<le> u32_max" "painted_glyphs p \<le> u32_max"
    "plan = \<lparr>up_items = of_nat (length (pl_items p)), up_batches = of_nat (length (pl_batches p)),
       up_glyphs = of_nat (painted_glyphs p), upload_bytes = length (pl_items p) * 80 + painted_glyphs p * 32\<rparr>"
    "upload_bytes plan \<le> max_upload_bytes (pl_config p)" "upload_bytes plan \<le> usize_max"
  using assms
  by (auto simp: finish_plan_def u32_from_def stream_bytes_Some painted_glyphs_def split: option.splits if_splits
      dest!: sum_checked_Some)

lemma build_Inr:
  assumes "build_with_resources al als t viewport resources p d = Ret (Inr plan, p', d')"
  shows "pl_batches p' = ui_batches_at 0 (runs item_key (pl_items p'))
     \<and> length (runs item_key (pl_items p')) \<le> max_batches (pl_config p)
     \<and> length (pl_items p') \<le> max_paint_items (pl_config p) \<and> length (pl_clips p') \<le> max_clips (pl_config p)
     \<and> pl_config p' = pl_config p \<and> (\<exists>d2. finish_plan p' d2 = (Inr plan, d'))"
proof -
  let ?p0 = "p\<lparr>pl_clips := [], pl_items := [], pl_batches := [], pl_node_clips := []\<rparr>"
  obtain order c p1 u p2 d2 where pc: "push_clip ?p0 viewport = (Inr c, p1)"
    and pl: "paint_loop als t viewport resources (enumerate 0 order) (p1, d) = (Inr u, p2, d2)"
    and bb: "build_batches p2 = (Inr (), p')" and fp: "finish_plan p' d2 = (Inr plan, d')"
  proof -
    obtain order where po: "paint_order als t viewport resources order ?p0 d = (Inr plan, p', d')"
    proof -
      obtain x where x: "preorder al t = Ret x"
        using assms by (auto simp: build_with_resources_def Let_def run_bind_Ret_iff split: if_splits)
      show ?thesis using assms x that
        by (cases x) (auto simp: build_with_resources_def Let_def split: if_splits)
    qed
    obtain c p1 where pc: "push_clip ?p0 viewport = (Inr c, p1)"
      using po by (cases "push_clip ?p0 viewport"; cases "fst (push_clip ?p0 viewport)") (auto simp: paint_order_def)
    obtain u p2 d2 where pl: "paint_loop als t viewport resources (enumerate 0 order) (p1, d) = (Inr u, p2, d2)"
      using po pc by (cases "paint_loop als t viewport resources (enumerate 0 order) (p1, d)";
          cases "fst (paint_loop als t viewport resources (enumerate 0 order) (p1, d))") (auto simp: paint_order_def)
    have "build_batches p2 = (Inr (), p')" "finish_plan p' d2 = (Inr plan, d')"
      using po pc pl by (auto simp: paint_order_def split: sum.splits prod.splits)
    with pc pl show ?thesis by (rule that)
  qed
  have "paint_ok (pl_config p) ?p0" by (simp add: paint_ok_def)
  then have "paint_ok (pl_config p) p1" using push_clip_ok [of "pl_config p" ?p0 viewport] pc by simp
  then have ok: "paint_ok (pl_config p) p2"
    using paint_loop_ok [of "pl_config p" "(p1, d)" als t viewport resources "enumerate 0 order"] pl by simp
  obtain bs where lp: "build_batches_loop (max_batches (pl_config p)) (enumerate 0 (pl_items p2)) [] = (Inr (), bs)"
    and p': "p' = p2\<lparr>pl_batches := bs\<rparr>"
    using bb ok by (auto simp: build_batches_def paint_ok_def Let_def split: prod.splits)
  have "length (pl_items p2) \<le> u32_max" using finish_plan_Inr(1) [OF fp] p' by simp
  then have "bs = ui_batches_at 0 (runs item_key (pl_items p2)) \<and> length (runs item_key (pl_items p2)) \<le> max_batches (pl_config p)"
    using build_batches_loop_runs [of "[]" "pl_items p2" "max_batches (pl_config p)"] lp by (auto split: if_splits)
  then show ?thesis using ok p' fp by (auto simp: paint_ok_def)
qed

text \<open>Painting always returns when the tree is one.\<close>

lemma build_returns:
  assumes "tree_inv t"
  shows "\<exists>res. build_with_resources al als t viewport resources p d = Ret res"
proof (cases "al 0")
  case True
  then obtain rest where "preorder al t = Ret (Inr (root t # rest))" using preorder_tree [OF assms] by blast
  then show ?thesis
    by (cases "paint_order als t viewport resources (root t # rest)
          (p\<lparr>pl_clips := [], pl_items := [], pl_batches := [], pl_node_clips := []\<rparr>) d")
      (simp add: build_with_resources_def Let_def)
next
  case False
  then show ?thesis by (simp add: build_with_resources_def preorder_def Let_def)
qed

section \<open>The snapshot of a painted frame\<close>

lemma snapshot_items_ok:
  assumes "list_all (\<lambda>k. al (Suc k)) [k..<k + length xs]" "length gs + sum_list (map (length \<circ> run_glyphs) xs) \<le> u32_max"
  shows "\<exists>ys. snapshot_items al clips (enumerate k xs) its gs = Inr (its @ ys, gs @ concat (map run_glyphs xs))
     \<and> length ys = length xs \<and> map (unat \<circ> glyph_count) ys = map (length \<circ> run_glyphs) xs
     \<and> map it_rect ys = map pi_rect xs \<and> map it_node ys = map pi_node xs"
  using assms
proof (induction xs arbitrary: k its gs)
  case (Cons x xs)
  have al: "al (Suc k)" "list_all (\<lambda>k. al (Suc k)) [Suc k..<Suc k + length xs]"
    using Cons.prems(1) by (auto simp: list_all_iff)
  have le: "length gs \<le> u32_max" "length (run_glyphs x) \<le> u32_max" using Cons.prems(2) by auto
  obtain it where it: "snapshot_item al clips (k, x) gs = Inr (it, gs @ run_glyphs x)"
    "glyph_count it = of_nat (length (run_glyphs x))" "it_rect it = pi_rect x" "it_node it = pi_node x"
    using al(1) le by (cases "kind_fields (pi_kind x)") (auto simp: snapshot_item_def u32_from_def)
  have "unat (glyph_count it) = length (run_glyphs x)" using it(2) le(2) by (simp add: unat_of_nat_u32)
  then show ?case
    using Cons.IH [OF al(2), of "gs @ run_glyphs x" "its @ [it]"] Cons.prems(2) it by auto
qed simp

lemma snapshot_of_painted:
  assumes plan: "finish_plan p d = (Inr plan, d')" and al: "\<forall>k. al k"
  shows "\<exists>s. paint_snapshot al p = Inr s \<and> sn_batches s = pl_batches p \<and> sn_upload s = plan
     \<and> length (sn_items s) = length (pl_items p) \<and> sn_glyphs s = concat (map run_glyphs (pl_items p))
     \<and> map it_rect (sn_items s) = map pi_rect (pl_items p) \<and> map it_node (sn_items s) = map pi_node (pl_items p)"
proof -
  note fp = finish_plan_Inr [OF plan]
  obtain ys where ys: "snapshot_items al (pl_clips p) (enumerate 0 (pl_items p)) [] [] = Inr (ys, concat (map run_glyphs (pl_items p)))"
    "length ys = length (pl_items p)" "map (unat \<circ> glyph_count) ys = map (length \<circ> run_glyphs) (pl_items p)"
    "map it_rect ys = map pi_rect (pl_items p)" "map it_node ys = map pi_node (pl_items p)"
    using snapshot_items_ok [of al 0 "pl_items p" "[]" "pl_clips p" "[]"] al fp(3)
    by (auto simp: list_all_iff painted_glyphs_def)
  have "sum_checked (map (unat \<circ> glyph_count) ys) 0 = Some (painted_glyphs p)"
    unfolding ys(3) painted_glyphs_def
    using sum_checked_ok [of 0 "map (length \<circ> run_glyphs) (pl_items p)"] fp(3)
    by (simp add: painted_glyphs_def u32_max_def usize_max_def)
  moreover have "stream_bytes (length ys) (painted_glyphs p) = Some (length (pl_items p) * 80 + painted_glyphs p * 32)"
    using fp(4,6) ys(2) by (simp add: stream_bytes_Some)
  ultimately show ?thesis
    using ys al fp by (simp add: paint_snapshot_def u32_from_def)
qed

lemma length_u16_to_le [simp]: "length (u16_to_le w) = 2"
  by (simp add: u16_to_le_def)

lemma length_item_bytes: "length (it_color it) = 4 \<Longrightarrow> length (item_bytes bits it) = 80"
  by (simp add: item_bytes_def ui_item_stride_def length_concat comp_def sum_list_triv)

lemma length_glyph_bytes [simp]: "length (glyph_bytes bits g) = 32"
  by (simp add: glyph_bytes_def ui_glyph_stride_def)

text \<open>The debug assertion of \<open>encode_bytes\<close>: the stream has the length the plan announced.\<close>

lemma encode_bytes_length:
  assumes "encode_bytes bits al s = Inr bs" "list_all (\<lambda>it. length (it_color it) = 4) (sn_items s)"
  shows "length bs = length (sn_items s) * 80 + length (sn_glyphs s) * 32"
proof -
  have "length (concat (map (item_bytes bits) its)) = length its * 80" if "list_all (\<lambda>it. length (it_color it) = 4) its" for its
    using that by (induction its) (simp_all add: length_item_bytes)
  moreover have "length (concat (map (glyph_bytes bits) gs)) = length gs * 32" for gs
    by (induction gs) simp_all
  ultimately show ?thesis using assms by (auto simp: encode_bytes_def split: option.splits if_splits)
qed

section \<open>The dirty ranges of two streams\<close>

lemma dirty_loop_returns:
  assumes "n * 32 \<le> usize_max"
  shows "\<exists>rs'. dirty_loop (\<lambda>_. True) cur old n chunk pending rs = Inr rs'"
  using assms
proof (induction "\<lambda>_ :: nat. True" cur old n chunk pending rs rule: dirty_loop.induct)
  case (1 cur old n chunk pending rs)
  show ?case
  proof (cases "chunk \<ge> n")
    case True
    then show ?thesis by (simp add: dirty_loop.simps [of _ cur old n chunk])
  next
    case False
    then have "(chunk + 1) * 32 \<le> n * 32" by simp
    then have ok: "\<not> chunk * 32 + 32 > usize_max" using "1.prems" by simp
    note ih = "1.hyps" [OF False refl refl refl refl ok]
    show ?thesis
      using ok False "1.prems" ih
      by (subst dirty_loop.simps [of _ cur old n chunk]) (auto simp: Let_def)
  qed
qed

lemma dirty_ranges_scanned:
  assumes "dirty_ranges al cur old = Inr rs"
  shows "scanned cur old rs (length cur)"
proof (rule dirty_loop_scanned)
  show "dirty_loop al cur old ((max (length cur) (length old) + 31) div 32) 0 None [] = Inr rs"
    using assms by (simp add: dirty_ranges_def split: if_splits)
  show "length cur \<le> (max (length cur) (length old) + 31) div 32 * 32" by linarith
qed (simp_all add: scanned_def pieces_of_def loop_bound_def)

lemma patched_ranges:
  assumes sc: "scanned cur old rs (length cur)" and buf: "length buf = length cur"
    and same: "take (length old) buf = take (length cur) old"
  shows "fold patch rs buf = cur"
proof (rule nth_equalityI)
  have pc: "pieces_of cur rs" using sc by (simp add: scanned_def)
  note fp = fold_patch [OF pc buf]
  show "length (fold patch rs buf) = length cur" using fp by simp
  fix j assume "j < length (fold patch rs buf)"
  then have j: "j < length cur" using fp by simp
  have "buf ! j = cur ! j" if "same_at cur old j"
  proof -
    have o: "j < length old" "old ! j = cur ! j" using that by (simp_all add: same_at_def)
    have "buf ! j = take (length old) buf ! j" using o(1) by simp
    also have "\<dots> = old ! j" unfolding same using j by simp
    finally show ?thesis using o by simp
  qed
  moreover have "covers rs j \<or> same_at cur old j" using sc j by (auto simp: scanned_def)
  ultimately show "fold patch rs buf ! j = cur ! j" using fp j by auto
qed

text \<open>Uploading only the dirty ranges is enough. For two byte streams of the sizes a process can hold,
  \<open>encode_dirty_ranges\<close>' comparison returns a list of ranges (when memory can be allocated), and copying
  these ranges, in order, into a buffer of the new length that still holds the old stream yields exactly the new
  stream, whichever of the two streams is the longer and whatever the buffer holds past the end of the old one.\<close>

theorem dirty_ranges_rebuild:
  assumes "\<forall>k. al k" "max (length cur) (length old) + 31 \<le> usize_max"
    and "length buf = length cur" "take (length old) buf = take (length cur) old"
  shows "\<exists>rs. dirty_ranges al cur old = Inr rs \<and> fold patch rs buf = cur"
proof -
  have al: "al = (\<lambda>_. True)" using assms(1) by auto
  have "(max (length cur) (length old) + 31) div 32 * 32 \<le> usize_max" using assms(2) by linarith
  then obtain rs where "dirty_ranges al cur old = Inr rs"
    using dirty_loop_returns al unfolding dirty_ranges_def by metis
  then show ?thesis using patched_ranges [OF dirty_ranges_scanned assms(3,4)] by blast
qed

theorem dirty_ranges_rebuild_witness:
  "\<exists>rs. dirty_ranges (\<lambda>_. True) (replicate 40 1) (replicate 33 0) = Inr rs
     \<and> fold patch rs (replicate 33 0 @ replicate 7 9) = replicate 40 1"
  by (rule dirty_ranges_rebuild) (simp_all add: usize_max_def min_def)

text \<open>A text node narrower than one column of the fallback glyphs (8 pixels) cannot be shaped, and the error ends
  the whole frame, although a text that is missing altogether is painted as an empty run.\<close>

theorem narrow_text_drops_frame:
  assumes "length (text_value tx) \<le> max_glyphs cfg"
  shows "node_kind al cfg None i ((content_new Text)\<lparr>ctext := Some tx\<rparr>) (r\<lparr>rwidth := f32_of_int 7\<rparr>) d = Inl InvalidValue"
proof -
  have w: "f32_max (f32_of_int 7) (f32_of_int 1) = f32_of_int 7"
    by (simp add: f32_max_def f32_of_int_def f32_round_def round_magnitude_def nearest_even_def excess_bits.simps f32_one_units_def)
  have "f32_floor_usize (f32_div (f32_of_int 7) (fb_advance fallback_default)) = 0"
    by (simp add: f32_floor_usize_def f32_to_nat_def fallback_default_def f32_of_int_def f32_round_def round_magnitude_def nearest_even_def
        excess_bits.simps f32_one_units_def)
  then have "shape_wrapped al fallback_default (text_value tx) (max_glyphs cfg) (f32_of_int 7) = Inl InvalidValue"
    using assms by (simp add: shape_wrapped_def)
  then show ?thesis
    by (simp add: node_kind_def content_new_def text_unavailable_def w)
qed

end
