(* ===== verification/Ui_Frame.thy ===== *)
theory Ui_Frame
  imports Ui_Paint
begin

text \<open>
  From the painted UI to the bytes the device reads. The UI subsystem publishes a packet with a snapshot and the
  byte ranges that changed since its last packet (\<open>src/src/subsystems/ui/mod.rs\<close>); the renderer checks the
  batches and turns them into draws (\<open>UiCommandPlan\<close> of \<open>src/src/subsystems/renderer.rs\<close>); the
  presentation engine keeps a mirror of the upload buffer and patches it
  (\<open>src/src/platform/linux/present.rs\<close>, and the same code under \<open>windows\<close>). The theorems span these
  components: what is painted is always accepted, and the mirror always equals the encoding of the last snapshot.
\<close>

section \<open>The command plan\<close>

record ui_command_plan =
  cp_items :: u32
  cp_draws :: u32
  cp_upload_bytes :: nat

record ui_draw_command =
  vertex_count :: u32
  instance_count :: u32
  first_vertex :: u32
  first_instance :: u32

datatype ui_plan_error = InvalidBatch | PlanIndexOverflow

text \<open>The loop over the batches: the end of the last one.\<close>

fun plan_loop :: "u32 \<Rightarrow> ui_batch list \<Rightarrow> u32 \<Rightarrow> ui_plan_error + u32" where
  "plan_loop n [] expected = Inr expected"
| "plan_loop n (b # bs) expected =
     (if ub_count b = 0 \<or> ub_first b \<noteq> expected then Inl InvalidBatch
      else case wchecked_add (ub_first b) (ub_count b) of
        None \<Rightarrow> Inl PlanIndexOverflow
      | Some e \<Rightarrow> if e > n then Inl InvalidBatch else plan_loop n bs e)"

definition ui_plan_try_build :: "snapshot \<Rightarrow> ui_plan_error + ui_command_plan" where
  "ui_plan_try_build s =
     (case (u32_from (length (sn_items s)), u32_from (length (sn_batches s))) of
        (Some n, Some d) \<Rightarrow>
          (case plan_loop n (sn_batches s) 0 of
             Inl e \<Rightarrow> Inl e
           | Inr e \<Rightarrow> if e \<noteq> n then Inl InvalidBatch
                      else Inr \<lparr>cp_items = n, cp_draws = d, cp_upload_bytes = upload_bytes (sn_upload s)\<rparr>)
      | _ \<Rightarrow> Inl PlanIndexOverflow)"

definition draw_of_batch :: "ui_batch \<Rightarrow> ui_draw_command" where
  "draw_of_batch b = \<lparr>vertex_count = 6, instance_count = ub_count b, first_vertex = 0, first_instance = ub_first b\<rparr>"

definition build_draw_commands :: "alloc \<Rightarrow> snapshot \<Rightarrow> ui_plan_error + ui_draw_command list" where
  "build_draw_commands al s =
     (case ui_plan_try_build s of
        Inl e \<Rightarrow> Inl e
      | Inr plan \<Rightarrow> if al 0 then Inr (map draw_of_batch (sn_batches s)) else Inl PlanIndexOverflow)"

section \<open>The staging mirror\<close>

record ui_stage =
  ui_upload :: bytes
  ui_draw_commands :: "ui_draw_command list"

definition ui_upload_capacity :: nat where
  "ui_upload_capacity = 16 * 1024 * 1024"

text \<open>The outcome is whether the call succeeded; the only error of these setters is a failed allocation. \<open>ok\<close> answers
  the reservation.\<close>

definition set_ui_upload :: "bool \<Rightarrow> bytes \<Rightarrow> ui_stage \<Rightarrow> bool \<times> ui_stage" where
  "set_ui_upload ok bs st =
     (if length bs > ui_upload_capacity then (False, st)
      else if \<not> ok then (False, st)
      else (True, st\<lparr>ui_upload := bs\<rparr>))"

fun write_ranges :: "nat \<Rightarrow> upload_range list \<Rightarrow> bytes \<Rightarrow> bool \<times> bytes" where
  "write_ranges n [] buf = (True, buf)"
| "write_ranges n (r # rs) buf =
     (case checked_add (ur_offset r) (length (ur_bytes r)) of
        None \<Rightarrow> (False, buf)
      | Some e \<Rightarrow> if e > n then (False, buf) else write_ranges n rs (patch r buf))"

definition set_ui_upload_ranges :: "bool \<Rightarrow> upload_range list \<Rightarrow> nat \<Rightarrow> ui_stage \<Rightarrow> bool \<times> ui_stage" where
  "set_ui_upload_ranges ok rs n st =
     (if n > ui_upload_capacity then (False, st)
      else if \<not> ok then (False, st)
      else (case write_ranges n rs (vec_resize n 0 (ui_upload st)) of (b, buf) \<Rightarrow> (b, st\<lparr>ui_upload := buf\<rparr>)))"

definition set_ui_draw_commands :: "bool \<Rightarrow> ui_draw_command list \<Rightarrow> ui_stage \<Rightarrow> bool \<times> ui_stage" where
  "set_ui_draw_commands ok cs st = (if ok then (True, st\<lparr>ui_draw_commands := cs\<rparr>) else (False, st))"

section \<open>One frame through the pipeline\<close>

record ui_frame_ready =
  fr_nodes :: nat
  fr_paint_items :: nat
  fr_batches :: nat
  fr_glyphs :: nat
  fr_uploaded_bytes :: nat

record ui_frame_packet =
  pk_ready :: ui_frame_ready
  pk_snapshot :: snapshot
  pk_ranges :: "upload_range list"

text \<open>The packet the UI publishes: the ranges are relative to the last packet, and none when encoding failed.\<close>

definition make_packet ::
  "(f32 \<Rightarrow> u32) \<Rightarrow> alloc \<Rightarrow> alloc \<Rightarrow> alloc \<Rightarrow> ui_frame_ready \<Rightarrow> snapshot \<Rightarrow> ui_frame_packet option \<Rightarrow> ui_frame_packet" where
  "make_packet bits al1 al2 al3 ready s previous =
     \<lparr>pk_ready = ready, pk_snapshot = s,
      pk_ranges = (case encode_dirty_ranges bits al1 al2 al3 s (map_option pk_snapshot previous) of
                     Inl _ \<Rightarrow> []
                   | Inr rs \<Rightarrow> rs)\<rparr>"

text \<open>What the renderer hands to the engine for a packet.\<close>

definition stage_packet :: "bool \<Rightarrow> ui_frame_packet \<Rightarrow> ui_stage \<Rightarrow> bool \<times> ui_stage" where
  "stage_packet ok p st = set_ui_upload_ranges ok (pk_ranges p) (upload_bytes (sn_upload (pk_snapshot p))) st"

section \<open>Painted batches are accepted\<close>

lemma plan_loop_batches:
  assumes "list_all (\<lambda>r. r \<noteq> []) rs" "s + length (concat rs) \<le> m" "m \<le> u32_max"
  shows "plan_loop (of_nat m) (ui_batches_at s rs) (of_nat s) = Inr (of_nat (s + length (concat rs)))"
  using assms
proof (induction s rs rule: ui_batches_at.induct)
  case (2 s r rs)
  have le: "s + length r \<le> m" "length r \<le> u32_max" "s \<le> u32_max" "length r \<noteq> 0" using "2.prems" by auto
  have un: "unat (of_nat s :: u32) = s" "unat (of_nat (length r) :: u32) = length r" "unat (of_nat m :: u32) = m"
    using le "2.prems"(3) by (simp_all add: unat_of_nat_u32)
  have add: "wchecked_add (of_nat s :: u32) (of_nat (length r)) = Some (of_nat (s + length r))"
    using un le "2.prems"(3) by (simp add: wchecked_add_def u32_max_def)
  have "(of_nat (length r) :: u32) \<noteq> 0" using un(2) le(4) by (metis unat_0)
  moreover have "\<not> (of_nat (s + length r) :: u32) > of_nat m"
    using le(1) "2.prems"(3) un(3) unat_of_nat_u32 [of "s + length r"] by (simp add: word_less_nat_alt)
  ultimately show ?case using add "2.IH" "2.prems" by (simp add: add.assoc)
qed simp

lemma painted_plan:
  assumes "sn_batches s = ui_batches_at 0 (runs item_key xs)" "length (sn_items s) = length xs"
    and "length xs \<le> u32_max" "length (sn_batches s) \<le> u32_max"
  shows "ui_plan_try_build s =
     Inr \<lparr>cp_items = of_nat (length xs), cp_draws = of_nat (length (sn_batches s)), cp_upload_bytes = upload_bytes (sn_upload s)\<rparr>"
proof -
  have "list_all (\<lambda>r. r \<noteq> []) (runs item_key xs)" by (auto simp: list_all_iff dest: runs_uniform)
  then have "plan_loop (of_nat (length xs)) (sn_batches s) 0 = Inr (of_nat (length xs))"
    using plan_loop_batches [of "runs item_key xs" 0 "length xs"] assms(1,3) by simp
  then show ?thesis using assms by (simp add: ui_plan_try_build_def u32_from_def)
qed

text \<open>Whatever is painted can be drawn. Painting a well-formed tree always returns; when it succeeds, the quotas
  of the configuration hold for clips, items, batches and bytes, the snapshot can be taken, the renderer accepts it,
  and the draws it builds are the maximal runs of items with equal batch key, in painting order, each item in exactly
  one of them.\<close>

theorem painted_frame_accepted:
  assumes "tree_inv t"
  shows "\<exists>res p' d'. build_with_resources al als t viewport resources p d = Ret (res, p', d')
     \<and> (\<forall>plan. res = Inr plan \<longrightarrow>
          length (pl_clips p') \<le> max_clips (pl_config p) \<and> length (pl_items p') \<le> max_paint_items (pl_config p)
          \<and> length (pl_batches p') \<le> max_batches (pl_config p) \<and> upload_bytes plan \<le> max_upload_bytes (pl_config p)
          \<and> (\<exists>s cs. paint_snapshot (\<lambda>_. True) p' = Inr s \<and> sn_upload s = plan
               \<and> build_draw_commands (\<lambda>_. True) s = Inr cs
               \<and> cs = map draw_of_batch (ui_batches_at 0 (runs item_key (pl_items p')))
               \<and> map it_node (sn_items s) = map pi_node (concat (runs item_key (pl_items p')))))"
proof -
  obtain res p' d' where b: "build_with_resources al als t viewport resources p d = Ret (res, p', d')"
    using build_returns [OF assms, of al als viewport resources p d] by (metis prod_cases3)
  moreover have "length (pl_clips p') \<le> max_clips (pl_config p) \<and> length (pl_items p') \<le> max_paint_items (pl_config p)
          \<and> length (pl_batches p') \<le> max_batches (pl_config p) \<and> upload_bytes plan \<le> max_upload_bytes (pl_config p)
          \<and> (\<exists>s cs. paint_snapshot (\<lambda>_. True) p' = Inr s \<and> sn_upload s = plan
               \<and> build_draw_commands (\<lambda>_. True) s = Inr cs
               \<and> cs = map draw_of_batch (ui_batches_at 0 (runs item_key (pl_items p')))
               \<and> map it_node (sn_items s) = map pi_node (concat (runs item_key (pl_items p'))))" if "res = Inr plan" for plan
  proof -
    note b' = b [unfolded that]
    have bi: "pl_batches p' = ui_batches_at 0 (runs item_key (pl_items p'))"
      "length (runs item_key (pl_items p')) \<le> max_batches (pl_config p)"
      "length (pl_items p') \<le> max_paint_items (pl_config p)" "length (pl_clips p') \<le> max_clips (pl_config p)"
      "pl_config p' = pl_config p"
      using build_Inr [OF b'] by auto
    obtain d2 where fp: "finish_plan p' d2 = (Inr plan, d')" using build_Inr [OF b'] by blast
    note fi = finish_plan_Inr [OF fp]
    obtain s where s: "paint_snapshot (\<lambda>_. True) p' = Inr s" "sn_batches s = pl_batches p'" "sn_upload s = plan"
      "length (sn_items s) = length (pl_items p')" "map it_node (sn_items s) = map pi_node (pl_items p')"
      using snapshot_of_painted [OF fp, of "\<lambda>_. True"] by auto
    have "ui_plan_try_build s = Inr \<lparr>cp_items = of_nat (length (pl_items p')), cp_draws = of_nat (length (sn_batches s)),
        cp_upload_bytes = upload_bytes (sn_upload s)\<rparr>"
      using s bi(1) fi(1,2) by (intro painted_plan) simp_all
    then have "build_draw_commands (\<lambda>_. True) s = Inr (map draw_of_batch (ui_batches_at 0 (runs item_key (pl_items p'))))"
      using s(2) bi(1) by (simp add: build_draw_commands_def)
    then show ?thesis using s bi fi(5) by simp
  qed
  ultimately show ?thesis by blast
qed

theorem painted_frame_accepted_witness:
  "\<exists>res p' d'. build_with_resources (\<lambda>_. True) (\<lambda>_ _. True) sample_tree rect_zero None
      \<lparr>pl_clips = [], pl_items = [], pl_batches = [], pl_node_clips = [], pl_config = sample_config\<rparr>
      \<lparr>dirty_nodes = 0, layout_passes = 0, d_paint_items = 0, d_batches = 0, d_glyphs = 0, uploaded_bytes = 0, clipped_items = 0,
       overflow_fallbacks = 0\<rparr> = Ret (res, p', d')"
proof -
  have "tree_inv sample_tree"
    using ui_tree_new_inv [OF sample_tree_new] by simp
  from painted_frame_accepted [OF this] show ?thesis by blast
qed

section \<open>The mirror follows the snapshots\<close>

text \<open>What the types of the snapshot's arrays and its plan say.\<close>

definition snapshot_wf :: "snapshot \<Rightarrow> bool" where
  "snapshot_wf s \<longleftrightarrow> list_all (\<lambda>it. length (it_color it) = 4) (sn_items s)
     \<and> upload_bytes (sn_upload s) = length (sn_items s) * 80 + length (sn_glyphs s) * 32
     \<and> upload_bytes (sn_upload s) \<le> ui_upload_capacity"

definition stream_of :: "(f32 \<Rightarrow> u32) \<Rightarrow> snapshot \<Rightarrow> bytes" where
  "stream_of bits s = concat (map (item_bytes bits) (sn_items s)) @ concat (map (glyph_bytes bits) (sn_glyphs s))"

lemma encode_wf:
  assumes "snapshot_wf s"
  shows "encode_bytes bits (\<lambda>_. True) s = Inr (stream_of bits s)"
    "length (stream_of bits s) = upload_bytes (sn_upload s)"
proof -
  have "stream_bytes (length (sn_items s)) (length (sn_glyphs s)) = Some (upload_bytes (sn_upload s))"
    using assms by (simp add: stream_bytes_Some snapshot_wf_def ui_upload_capacity_def usize_max_def)
  then show e: "encode_bytes bits (\<lambda>_. True) s = Inr (stream_of bits s)"
    by (simp add: encode_bytes_def stream_of_def)
  show "length (stream_of bits s) = upload_bytes (sn_upload s)"
    using encode_bytes_length [OF e] assms by (simp add: snapshot_wf_def)
qed

lemma wf_capacity: "snapshot_wf s \<Longrightarrow> upload_bytes (sn_upload s) \<le> ui_upload_capacity"
  by (simp add: snapshot_wf_def)

lemma write_pieces:
  assumes "pieces_of cur rs" "length cur = n" "n \<le> usize_max"
  shows "write_ranges n rs buf = (True, fold patch rs buf)"
  using assms
proof (induction rs arbitrary: buf)
  case (Cons r rs)
  then have "ur_offset r + length (ur_bytes r) \<le> n" "pieces_of cur rs" by (auto simp: pieces_of_def)
  then show ?case using Cons by (simp add: checked_add_def)
qed simp

definition stream_frame ::
  "(f32 \<Rightarrow> u32) \<Rightarrow> snapshot \<Rightarrow> ui_frame_packet option \<times> ui_stage \<Rightarrow> ui_frame_packet option \<times> ui_stage" where
  "stream_frame bits s = (\<lambda>(previous, st).
     let p = make_packet bits (\<lambda>_. True) (\<lambda>_. True) (\<lambda>_. True)
               \<lparr>fr_nodes = 0, fr_paint_items = 0, fr_batches = 0, fr_glyphs = 0, fr_uploaded_bytes = 0\<rparr> s previous
     in (Some p, snd (stage_packet True p st)))"

lemma dirty_of_wf:
  assumes "snapshot_wf s" "snapshot_wf p"
  obtains rs where "encode_dirty_ranges bits (\<lambda>_. True) (\<lambda>_. True) (\<lambda>_. True) s (Some p) = Inr rs"
    "scanned (stream_of bits s) (stream_of bits p) rs (length (stream_of bits s))"
proof -
  note e = encode_wf [OF assms(1), of bits] and e' = encode_wf [OF assms(2), of bits]
  have "(max (length (stream_of bits s)) (length (stream_of bits p)) + 31) div 32 * 32 \<le> usize_max"
    using e e' wf_capacity [OF assms(1)] wf_capacity [OF assms(2)] by (simp add: ui_upload_capacity_def usize_max_def)
  then obtain rs where "dirty_ranges (\<lambda>_. True) (stream_of bits s) (stream_of bits p) = Inr rs"
    using dirty_loop_returns unfolding dirty_ranges_def by metis
  note rs = this
  show ?thesis by (rule that [OF _ dirty_ranges_scanned [OF rs]]) (use rs e e' in \<open>simp add: encode_dirty_ranges_def\<close>)
qed

lemma stage_step:
  assumes "snapshot_wf s" "\<forall>p. previous = Some p \<longrightarrow> snapshot_wf (pk_snapshot p) \<and> ui_upload st = stream_of bits (pk_snapshot p)"
  shows "\<exists>q. fst (stream_frame bits s (previous, st)) = Some q \<and> pk_snapshot q = s
     \<and> ui_upload (snd (stream_frame bits s (previous, st))) = stream_of bits s"
proof -
  note e = encode_wf [OF assms(1), of bits]
  have cap: "upload_bytes (sn_upload s) \<le> ui_upload_capacity" by (rule wf_capacity [OF assms(1)])
  let ?cur = "stream_of bits s" and ?buf = "vec_resize (upload_bytes (sn_upload s)) 0 (ui_upload st)"
  have len: "length ?cur \<le> usize_max" using e cap by (simp add: ui_upload_capacity_def usize_max_def)
  obtain rs where rs: "encode_dirty_ranges bits (\<lambda>_. True) (\<lambda>_. True) (\<lambda>_. True) s (map_option pk_snapshot previous) = Inr rs"
    "pieces_of ?cur rs" "fold patch rs ?buf = ?cur"
  proof (cases previous)
    case None
    have "pieces_of ?cur [\<lparr>ur_offset = 0, ur_bytes = ?cur\<rparr>]" by (simp add: pieces_of_def)
    moreover have "patch \<lparr>ur_offset = 0, ur_bytes = ?cur\<rparr> ?buf = ?cur" using e(2) by (simp add: patch_def)
    ultimately show ?thesis using None e by (intro that [of "[\<lparr>ur_offset = 0, ur_bytes = ?cur\<rparr>]"]) (simp_all add: encode_dirty_ranges_def)
  next
    case (Some p')
    then have wf: "snapshot_wf (pk_snapshot p')" "ui_upload st = stream_of bits (pk_snapshot p')" using assms(2) by auto
    obtain rs where rs: "encode_dirty_ranges bits (\<lambda>_. True) (\<lambda>_. True) (\<lambda>_. True) s (Some (pk_snapshot p')) = Inr rs"
      "scanned ?cur (stream_of bits (pk_snapshot p')) rs (length ?cur)"
      by (rule dirty_of_wf [OF assms(1) wf(1)])
    have "fold patch rs ?buf = ?cur"
      using e(2) wf(2) take_vec_resize by (intro patched_ranges [OF rs(2)]) simp_all
    then show ?thesis using that rs Some by (simp add: scanned_def)
  qed
  have "write_ranges (length ?cur) rs ?buf = (True, ?cur)" using write_pieces [OF rs(2) refl len] rs(3) by simp
  then show ?thesis
    using rs(1) e(2) cap by (simp add: stream_frame_def make_packet_def stage_packet_def set_ui_upload_ranges_def Let_def)
qed

lemma stream_frames_mirror:
  assumes "list_all snapshot_wf ss" "\<forall>p. previous = Some p \<longrightarrow> snapshot_wf (pk_snapshot p) \<and> ui_upload st = stream_of bits (pk_snapshot p)"
    and "ss \<noteq> []"
  shows "ui_upload (snd (fold (stream_frame bits) ss (previous, st))) = stream_of bits (last ss)"
  using assms
proof (induction ss arbitrary: previous st)
  case (Cons s ss)
  obtain q st' where f: "stream_frame bits s (previous, st) = (Some q, st')" "pk_snapshot q = s" "ui_upload st' = stream_of bits s"
    using stage_step [of s previous st bits] Cons.prems by (cases "stream_frame bits s (previous, st)") auto
  show ?case
  proof (cases "ss = []")
    case True
    then show ?thesis using f by simp
  next
    case False
    have "ui_upload (snd (fold (stream_frame bits) ss (Some q, st'))) = stream_of bits (last ss)"
      using Cons.prems(1) f False by (intro Cons.IH) simp_all
    then show ?thesis using f(1) False by simp
  qed
qed simp

text \<open>C30: The device always sees the last frame. When every packet the UI publishes reaches the presentation engine and
  memory can be allocated, then after any number of frames the engine's mirror of the upload buffer, which only ever
  received the dirty ranges of each packet and may have grown and shrunk, is exactly the encoding of the last snapshot,
  whatever it held before the first packet.\<close>

theorem ui_mirror_tracks_snapshots:
  assumes "list_all snapshot_wf ss" "ss \<noteq> []"
  shows "encode_bytes bits (\<lambda>_. True) (last ss) = Inr (ui_upload (snd (fold (stream_frame bits) ss (None, st))))"
proof -
  have "snapshot_wf (last ss)" using assms by (simp add: list_all_iff)
  then show ?thesis using encode_wf(1) stream_frames_mirror [OF assms(1) _ assms(2), of None] by simp
qed

definition blank_snapshot :: "nat \<Rightarrow> snapshot" where
  "blank_snapshot n = \<lparr>sn_items = [], sn_batches = [],
     sn_glyphs = replicate n \<lparr>codepoint = 65, advance = f32_of_int 8, g_atlas_x = 0, g_atlas_y = 0, g_width = 8, g_height = 16\<rparr>,
     sn_upload = \<lparr>up_items = 0, up_batches = 0, up_glyphs = of_nat n, upload_bytes = n * 32\<rparr>\<rparr>"

theorem ui_mirror_tracks_snapshots_witness:
  "encode_bytes (\<lambda>_. 0) (\<lambda>_. True) (blank_snapshot 1) =
     Inr (ui_upload (snd (fold (stream_frame (\<lambda>_. 0)) [blank_snapshot 3, blank_snapshot 1]
       (None, \<lparr>ui_upload = [7], ui_draw_commands = []\<rparr>))))"
  using ui_mirror_tracks_snapshots [of "[blank_snapshot 3, blank_snapshot 1]" "\<lambda>_. 0" "\<lparr>ui_upload = [7], ui_draw_commands = []\<rparr>"]
  by (simp add: snapshot_wf_def blank_snapshot_def ui_upload_capacity_def)

text \<open>When a packet does not reach the engine, the next one does not make up for it: its ranges are relative to the
  packet that was lost, not to the mirror. Here the second of three streams is lost.\<close>

theorem lost_packet_leaves_mirror_stale:
  "dirty_ranges (\<lambda>_. True) [1] [1] = Inr rs \<Longrightarrow> fold patch rs [0] \<noteq> [1]"
  by (simp add: dirty_ranges_def dirty_loop.simps chunk_changed_def slice_get_def usize_max_def)

end
