(* ===== verification/Ui_Commands.thy ===== *)
theory Ui_Commands
  imports Ui_Tree_Inv
begin

text \<open>
  The two clients of the retained tree that run between frames: the buffer of deferred mutations
  (\<open>ui/commands.rs\<close>) and the routing of input to nodes with focus, capture and hit testing
  (\<open>ui/input.rs\<close>).
\<close>

section \<open>Deferred mutations\<close>

datatype ui_command =
  Create ui_node_id ui_content
| Destroy ui_node_id
| Reparent ui_node_id ui_node_id
| SetStyle ui_node_id ui_style
| SetText ui_node_id ui_text
| SetVisible ui_node_id bool
| SetZIndex ui_node_id u32
| SetAccessibility ui_node_id ui_accessibility

record ui_command_buffer =
  commands :: "ui_command list"
  cb_capacity :: nat

definition command_buffer_try_with_capacity :: "alloc \<Rightarrow> nat \<Rightarrow> ui_error + ui_command_buffer" where
  "command_buffer_try_with_capacity al n =
     (if \<not> al 0 then Inl AllocationFailed else Inr \<lparr>commands = [], cb_capacity = n\<rparr>)"

definition command_try_push :: "ui_command_buffer \<Rightarrow> ui_command \<Rightarrow> (ui_error + unit) \<times> ui_command_buffer" where
  "command_try_push b c =
     (if length (commands b) \<ge> cb_capacity b then (Inl CapacityExceeded, b)
      else (Inr (), b\<lparr>commands := commands b @ [c]\<rparr>))"

text \<open>One command; its result, and the tree. \<open>al\<close> answers the reservations of this command.\<close>

fun ui_apply_command :: "alloc \<Rightarrow> ui_command \<Rightarrow> ui_tree \<Rightarrow> (bool \<times> ui_tree) run" where
  "ui_apply_command al (Create p c) t = run_bind (tree_create al t p c) (\<lambda>(r, t'). Ret (\<not> isl r, t'))"
| "ui_apply_command al (Destroy i) t = run_bind (tree_destroy al t i) (\<lambda>(r, t'). Ret (\<not> isl r, t'))"
| "ui_apply_command al (Reparent i p) t = run_bind (tree_reparent al t i p) (\<lambda>(r, t'). Ret (\<not> isl r, t'))"
| "ui_apply_command al (SetStyle i s) t =
     (if style_sane s then Ret (case update_content t i (style_update (\<lambda>_. s)) of (r, t') \<Rightarrow> (\<not> isl r, t'))
      else Ret (False, t))"
| "ui_apply_command al (SetText i x) t =
     (if byte_len x \<le> max_text_bytes (tconfig t)
      then Ret (case update_content t i (ctext_update (\<lambda>_. Some x)) of (r, t') \<Rightarrow> (\<not> isl r, t'))
      else Ret (False, t))"
| "ui_apply_command al (SetVisible i v) t =
     Ret (case update_content t i (visible_update (\<lambda>_. v)) of (r, t') \<Rightarrow> (\<not> isl r, t'))"
| "ui_apply_command al (SetZIndex i z) t =
     Ret (case update_content t i (z_index_update (\<lambda>_. z)) of (r, t') \<Rightarrow> (\<not> isl r, t'))"
| "ui_apply_command al (SetAccessibility i a) t =
     Ret (case update_content t i (accessibility_update (\<lambda>_. a)) of (r, t') \<Rightarrow> (\<not> isl r, t'))"

fun ui_apply_commands :: "(nat \<Rightarrow> alloc) \<Rightarrow> nat \<Rightarrow> ui_command list \<Rightarrow> ui_tree \<Rightarrow> (nat \<times> ui_tree) run" where
  "ui_apply_commands als n [] t = Ret (n, t)"
| "ui_apply_commands als n (c # cs) t =
     run_bind (ui_apply_command (als (length cs)) c t) (\<lambda>(ok, t').
       ui_apply_commands als (if ok then sat_add n 1 else n) cs t')"

definition ui_apply ::
  "(nat \<Rightarrow> alloc) \<Rightarrow> ui_command_buffer \<Rightarrow> ui_tree \<Rightarrow> (nat \<times> ui_command_buffer \<times> ui_tree) run" where
  "ui_apply als b t =
     run_bind (ui_apply_commands als 0 (commands b) t) (\<lambda>(n, t'). Ret (n, b\<lparr>commands := []\<rparr>, t'))"

text \<open>What the tree's contents promise: sane values and texts within the quota.\<close>

definition contents_ok :: "ui_tree \<Rightarrow> bool" where
  "contents_ok t \<longleftrightarrow> (\<forall>i n. node t i = Some n \<longrightarrow> content_sane (content n) \<and> \<not> text_too_long t (content n))"

section \<open>Focus, capture and hit testing\<close>

text \<open>Pointer coordinates are \<open>i32\<close>, converted to \<open>f32\<close>.\<close>

datatype ui_input_event =
  PointerMove "32 word" "32 word"
| PointerButton u8 bool "32 word" "32 word"
| Key u32 bool
| TextByte u8

record ui_input_result =
  target :: "ui_node_id option"
  r_focused :: "ui_node_id option"
  consumed :: bool

record ui_focus_capture =
  focused :: "ui_node_id option"
  captured :: "ui_node_id option"

definition clear_stale :: "ui_tree \<Rightarrow> ui_focus_capture \<Rightarrow> ui_focus_capture" where
  "clear_stale t f =
     \<lparr>focused = (case focused f of Some i \<Rightarrow> if valid_slot t i then Some i else None | None \<Rightarrow> None),
      captured = (case captured f of Some i \<Rightarrow> if valid_slot t i then Some i else None | None \<Rightarrow> None)\<rparr>"

text \<open>The walk over the ancestors; \<open>None\<close> means that it does not end.\<close>

partial_function (option) ancestors_allow :: "ui_tree \<Rightarrow> ui_node_id option \<Rightarrow> f32 \<Rightarrow> f32 \<Rightarrow> bool option" where
  "ancestors_allow t cursor x y =
     (case cursor of
        None \<Rightarrow> Some True
      | Some i \<Rightarrow>
         (case node t i of
            None \<Rightarrow> Some False
          | Some n \<Rightarrow>
             (if \<not> visible (content n) then Some False
              else if overflow (style (content n)) \<noteq> Visible \<and> \<not> rect_contains (nrect n) x y then Some False
              else ancestors_allow t (nparent n) x y)))"

definition ancestors_allow_hit :: "ui_tree \<Rightarrow> ui_node_id \<Rightarrow> f32 \<Rightarrow> f32 \<Rightarrow> bool option" where
  "ancestors_allow_hit t i x y =
     ancestors_allow t (case node t i of None \<Rightarrow> None | Some n \<Rightarrow> nparent n) x y"

definition own_hit :: "ui_node \<Rightarrow> f32 \<Rightarrow> f32 \<Rightarrow> bool" where
  "own_hit n x y \<longleftrightarrow> visible (content n) \<and> hit_testable (interaction (content n)) \<and> \<not> disabled (interaction (content n))
     \<and> rect_contains (nrect n) x y"

text \<open>\<open>(z_index, order)\<close> compared lexicographically, the first as a signed number.\<close>

definition stacked_below :: "u32 \<times> nat \<Rightarrow> u32 \<times> nat \<Rightarrow> bool" where
  "stacked_below a b \<longleftrightarrow> sint (fst a) < sint (fst b) \<or> fst a = fst b \<and> snd a \<le> snd b"

fun hit_loop ::
  "ui_tree \<Rightarrow> f32 \<Rightarrow> f32 \<Rightarrow> nat \<Rightarrow> ui_node_id list \<Rightarrow> ((u32 \<times> nat) \<times> ui_node_id) option
     \<Rightarrow> ((u32 \<times> nat) \<times> ui_node_id) option option" where
  "hit_loop t x y k [] best = Some best"
| "hit_loop t x y k (i # is) best =
     (case node t i of
        None \<Rightarrow> hit_loop t x y (k + 1) is best
      | Some n \<Rightarrow>
         (if \<not> own_hit n x y then hit_loop t x y (k + 1) is best
          else case ancestors_allow_hit t i x y of
            None \<Rightarrow> None
          | Some False \<Rightarrow> hit_loop t x y (k + 1) is best
          | Some True \<Rightarrow>
             (let cand = (z_index (content n), k)
              in hit_loop t x y (k + 1) is
                   (case best of
                      None \<Rightarrow> Some (cand, i)
                    | Some (cur, _) \<Rightarrow> if stacked_below cur cand then Some (cand, i) else best))))"

definition hit_test :: "alloc \<Rightarrow> ui_tree \<Rightarrow> f32 \<Rightarrow> f32 \<Rightarrow> ui_node_id option run" where
  "hit_test al t x y =
     run_bind (preorder al t) (\<lambda>r.
       case r of
         Inl _ \<Rightarrow> Ret None
       | Inr order \<Rightarrow> run_bind (returned (hit_loop t x y 0 order None)) (\<lambda>best. Ret (map_option snd best)))"

definition pointer_of :: "ui_input_event \<Rightarrow> (f32 \<times> f32) option" where
  "pointer_of e =
     (case e of
        PointerMove x y \<Rightarrow> Some (f32_of_int (sint x), f32_of_int (sint y))
      | PointerButton b p x y \<Rightarrow> Some (f32_of_int (sint x), f32_of_int (sint y))
      | _ \<Rightarrow> None)"

definition focus_target :: "ui_tree \<Rightarrow> ui_node_id option \<Rightarrow> ui_node_id option" where
  "focus_target t tg =
     (case tg of
        None \<Rightarrow> None
      | Some i \<Rightarrow>
         (case node t i of
            None \<Rightarrow> None
          | Some n \<Rightarrow> if focusable (interaction (content n)) then Some i else None))"

definition route ::
  "alloc \<Rightarrow> ui_tree \<Rightarrow> ui_input_event \<Rightarrow> ui_focus_capture \<Rightarrow> (ui_input_result \<times> ui_focus_capture) run" where
  "route al t e f0 =
     (let f = clear_stale t f0
      in run_bind
           (case captured f of
              Some i \<Rightarrow> Ret (Some i)
            | None \<Rightarrow> (case pointer_of e of Some (x, y) \<Rightarrow> hit_test al t x y | None \<Rightarrow> Ret None))
           (\<lambda>tg. let f1 = (case e of
                      PointerButton _ True _ _ \<Rightarrow>
                        if tg \<noteq> None then f\<lparr>captured := tg, focused := focus_target t tg\<rparr> else f
                    | PointerButton _ False _ _ \<Rightarrow> f\<lparr>captured := None\<rparr>
                    | _ \<Rightarrow> f)
                  in Ret (\<lparr>target = tg, r_focused = focused f1, consumed = (tg \<noteq> None \<or> focused f1 \<noteq> None)\<rparr>, f1)))"

section \<open>Applying the buffer\<close>

lemma contents_ok_iff:
  "contents_ok t \<longleftrightarrow> (\<forall>i c. contents t i = Some c \<longrightarrow> content_sane c \<and> \<not> text_too_long t c)"
  by (auto simp: contents_ok_def contents_def)

lemma text_too_long_config: "tconfig t' = tconfig t \<Longrightarrow> text_too_long t' = text_too_long t"
  by (rule ext) (simp add: text_too_long_def split: option.split)

lemma update_content_keeps:
  assumes "tree_inv t" "contents_ok t"
    and f: "\<And>c. content_sane c \<Longrightarrow> \<not> text_too_long t c \<Longrightarrow> content_sane (f c) \<and> \<not> text_too_long t (f c)"
  shows "tree_inv (snd (update_content t i f)) \<and> contents_ok (snd (update_content t i f))
     \<and> tconfig (snd (update_content t i f)) = tconfig t"
proof (cases "node t i")
  case (Some n)
  let ?n = "n\<lparr>content := f (content n)\<rparr>"
  have s: "same_shape t (set_node t ?n)" using same_shape_set_node [OF Some, of ?n] by simp
  have "content_sane (f (content n)) \<and> \<not> text_too_long t (f (content n))"
    using f assms(2) Some by (simp add: contents_ok_def)
  then have "contents_ok (set_node t ?n)"
    using assms(2) contents_set_node [OF Some, of ?n] text_too_long_config [of "set_node t ?n" t]
    unfolding contents_ok_iff by (simp split: if_splits)
  then show ?thesis using same_shape_inv [OF s] assms(1) Some by (simp add: update_content_def)
qed (use assms in \<open>simp add: update_content_def\<close>)

lemma text_too_long_simps [simp]:
  "text_too_long t (style_update g c) = text_too_long t c" "text_too_long t (visible_update b c) = text_too_long t c"
  "text_too_long t (z_index_update z c) = text_too_long t c"
  "text_too_long t (accessibility_update a c) = text_too_long t c"
  by (simp_all add: text_too_long_def)

lemma content_sane_simps [simp]:
  "content_sane (ctext_update x c) = content_sane c" "content_sane (visible_update b c) = content_sane c"
  "content_sane (z_index_update z c) = content_sane c" "content_sane (accessibility_update a c) = content_sane c"
  "content_sane (c\<lparr>style := s\<rparr>) = (style_sane s \<and> is_finite (opacity c) \<and> f32_le f32_zero (opacity c) \<and> f32_le (opacity c) (f32_of_int 1))"
  by (simp_all add: content_sane_def)

definition ui_ok :: "ui_tree \<Rightarrow> bool" where
  "ui_ok t \<longleftrightarrow> tree_inv t \<and> contents_ok t"

lemma ui_ok_update:
  assumes "ui_ok t" "\<And>c. content_sane c \<Longrightarrow> \<not> text_too_long t c \<Longrightarrow> content_sane (f c) \<and> \<not> text_too_long t (f c)"
  shows "\<exists>ok t'. (case update_content t i f of (r, t') \<Rightarrow> (\<not> isl r, t')) = (ok, t') \<and> ui_ok t'"
  using update_content_keeps [where t = t and f = f and i = i, OF _ _ assms(2)] assms(1) by (cases "update_content t i f") (simp add: ui_ok_def)

lemma ui_ok_contents:
  assumes "tree_inv t'" "tconfig t' = tconfig t" "\<And>i c. contents t' i = Some c \<Longrightarrow>
    content_sane c \<and> \<not> text_too_long t c"
  shows "ui_ok t'"
  using assms text_too_long_config [OF assms(2)] by (simp add: ui_ok_def contents_ok_iff)

lemma ui_ok_contentsD: "ui_ok t \<Longrightarrow> contents t i = Some c \<Longrightarrow> content_sane c \<and> \<not> text_too_long t c"
  by (simp add: ui_ok_def contents_ok_iff)

lemma tree_create_text: "tree_create al t p c = Ret (Inr i, t') \<Longrightarrow> \<not> text_too_long t c"
  by (auto simp: tree_create_def split: if_splits)

lemma ui_apply_command_ok:
  assumes t: "ui_ok t"
  shows "\<exists>ok t'. ui_apply_command al cmd t = Ret (ok, t') \<and> ui_ok t'"
proof (cases cmd)
  case (Create p c)
  have inv: "tree_inv t" using t by (simp add: ui_ok_def)
  show ?thesis
  proof (rule tree_create_cases [OF inv, of al p c])
    fix e t'
    assume f: "tree_create al t p c = Ret (Inl e, t')" "tree_inv t'" "node t' = node t" "tconfig t' = tconfig t"
    have "ui_ok t'"
      by (rule ui_ok_contents [OF f(2,4)]) (use f(3) ui_ok_contentsD [OF t] in \<open>simp add: contents_def\<close>)
    then show ?thesis using f(1) Create by auto
  next
    fix i t' pn d
    assume f: "tree_create al t p c = Ret (Inr i, t')" "tree_inv t'" "node t p = Some pn"
      "node t' = (node t)(p \<mapsto> pn\<lparr>children := children pn @ [i]\<rparr>, i \<mapsto> new_node i p c)" "content_sane c" "tconfig t' = tconfig t"
    have "contents t' j = Some d \<Longrightarrow> d = c \<or> contents t j = Some d" for j d
      using f(3) by (auto simp: contents_def f(4) new_node_def split: if_splits)
    then have "ui_ok t'"
      using ui_ok_contentsD [OF t] f(5) tree_create_text [OF f(1)] by (intro ui_ok_contents [OF f(2,6)]) blast
    then show ?thesis using f(1) Create by auto
  qed
next
  case (Destroy i)
  have inv: "tree_inv t" using t by (simp add: ui_ok_def)
  show ?thesis
  proof (rule tree_destroy_cases [OF inv, of al i])
    fix t'
    assume f: "tree_destroy al t i = Ret (Inr (), t')" "tree_inv t'" "tconfig t' = tconfig t"
      "\<And>x n. node t' x = Some n \<Longrightarrow> \<exists>m. node t x = Some m \<and> content n = content m \<and> nrect n = nrect m"
    have "ui_ok t'"
      by (rule ui_ok_contents [OF f(2,3)]) (use f(4) ui_ok_contentsD [OF t] in \<open>fastforce simp: contents_def\<close>)
    then show ?thesis using f(1) Destroy by auto
  qed (use Destroy t in auto)
next
  case (Reparent i p)
  have inv: "tree_inv t" using t by (simp add: ui_ok_def)
  show ?thesis
  proof (rule tree_reparent_cases [OF inv, of al i p])
    fix t'
    assume f: "tree_reparent al t i p = Ret (Inr (), t')" "tree_inv t'" "tconfig t' = tconfig t" "contents t' = contents t"
    have "ui_ok t'" by (rule ui_ok_contents [OF f(2,3)]) (use f(4) ui_ok_contentsD [OF t] in simp)
    then show ?thesis using f(1) Reparent by auto
  qed (use Reparent t in auto)
next
  case (SetStyle i s)
  then show ?thesis using ui_ok_update [OF t, of "style_update (\<lambda>_. s)" i] t by (auto simp: content_sane_def)
next
  case (SetText i x)
  have "content_sane c \<and> \<not> text_too_long t (ctext_update (\<lambda>_. Some x) c)"
    if "content_sane c" "byte_len x \<le> max_text_bytes (tconfig t)" for c
    using that by (simp add: text_too_long_def)
  then show ?thesis using ui_ok_update [OF t, of "ctext_update (\<lambda>_. Some x)" i] t SetText by auto
next
  case (SetVisible i v)
  then show ?thesis using ui_ok_update [OF t, of "visible_update (\<lambda>_. v)" i] by simp
next
  case (SetZIndex i z)
  then show ?thesis using ui_ok_update [OF t, of "z_index_update (\<lambda>_. z)" i] by simp
next
  case (SetAccessibility i a)
  then show ?thesis using ui_ok_update [OF t, of "accessibility_update (\<lambda>_. a)" i] by simp
qed

lemma ui_apply_commands_ok:
  "ui_ok t \<Longrightarrow> \<exists>n' t'. ui_apply_commands als n cs t = Ret (n', t') \<and> ui_ok t' \<and> n' \<le> n + length cs"
proof (induction cs arbitrary: t n)
  case (Cons c cs)
  from ui_apply_command_ok [OF Cons.prems] obtain ok t1 where
    "ui_apply_command (als (length cs)) c t = Ret (ok, t1)" "ui_ok t1" by blast
  with Cons.IH [of t1 "if ok then sat_add n 1 else n"] show ?case
    by (auto simp: sat_add_def min_def split: if_splits)
qed simp

text \<open>
  Applying the deferred UI commands always returns, leaves the buffer empty and the tree intact: one
  tree under the root, with sane contents and texts within the quota, whatever the commands name and
  however many of them fail.
\<close>

theorem ui_apply_keeps_tree:
  assumes "tree_inv t" "contents_ok t"
  shows "\<exists>n b' t'. ui_apply als b t = Ret (n, b', t') \<and> commands b' = [] \<and> n \<le> length (commands b)
     \<and> tree_links (links t') (root t') \<and> contents_ok t'"
  using ui_apply_commands_ok [of t als 0 "commands b"] assms by (auto simp: ui_apply_def ui_ok_def tree_inv_def)

lemma sample_pair_ok: "tree_inv sample_pair" "contents_ok sample_pair"
proof -
  show "tree_inv sample_pair" by (rule tree_reachable_inv [OF sample_pair_reachable])
  have "content_sane (content n) \<and> ctext (content n) = None" if "node sample_pair i = Some n" for i n
    using that by (auto simp: sample_defs tree_eval less_Suc_eq split: if_splits)
  then show "contents_ok sample_pair" by (simp add: contents_ok_def text_too_long_def)
qed

theorem ui_apply_keeps_tree_witness:
  "\<exists>n b' t'. ui_apply (\<lambda>_ _. True) \<lparr>commands = [Destroy sample_child, Create sample_child (content_new Text)], cb_capacity = 2\<rparr> sample_pair
     = Ret (n, b', t') \<and> commands b' = []"
  using ui_apply_keeps_tree [OF sample_pair_ok, of "\<lambda>_ _. True"
      "\<lparr>commands = [Destroy sample_child, Create sample_child (content_new Text)], cb_capacity = 2\<rparr>"] by blast

section \<open>Hit testing\<close>

definition lets_through :: "ui_tree \<Rightarrow> f32 \<Rightarrow> f32 \<Rightarrow> ui_node_id \<Rightarrow> bool" where
  "lets_through t x y a \<longleftrightarrow> (case node t a of None \<Rightarrow> False
     | Some n \<Rightarrow> visible (content n) \<and> (overflow (style (content n)) = Visible \<or> rect_contains (nrect n) x y))"

text \<open>A node is hit when it contains the point, accepts hits, and no ancestor hides or clips it there.\<close>

definition is_hit :: "ui_tree \<Rightarrow> f32 \<Rightarrow> f32 \<Rightarrow> ui_node_id \<Rightarrow> bool" where
  "is_hit t x y i \<longleftrightarrow> (\<exists>n. node t i = Some n \<and> own_hit n x y)
     \<and> (\<forall>a. descendant (links t) a i \<and> a \<noteq> i \<longrightarrow> lets_through t x y a)"

lemma descendant_step:
  assumes "links t i = Some (p, cs)"
  shows "descendant (links t) a i \<longleftrightarrow> a = i \<or> (\<exists>q. p = Some q \<and> descendant (links t) a q)"
  using assms by (auto intro: descendant.intros elim: descendant.cases)

lemma ancestors_allow_exact:
  "at_depth (links t) i d \<Longrightarrow>
    ancestors_allow t (Some i) x y = Some (\<forall>a. descendant (links t) a i \<longrightarrow> lets_through t x y a)"
proof (induction d arbitrary: i)
  case 0
  then obtain cs where c: "links t i = Some (None, cs)" by (rule at_depth_0)
  then obtain n where n: "node t i = Some n" "nparent n = None" by (auto simp: links_Some)
  show ?case
    using n descendant_step [OF c]
    by (simp add: ancestors_allow.simps [of t "Some i"] ancestors_allow.simps [of t None] lets_through_def)
next
  case (Suc d)
  from Suc.prems obtain p cs where p: "links t i = Some (Some p, cs)" "at_depth (links t) p d" by (rule at_depth_Suc)
  from p(1) obtain n where n: "node t i = Some n" "nparent n = Some p" by (auto simp: links_Some)
  show ?case
    using n descendant_step [OF p(1)] Suc.IH [OF p(2)]
    by (auto simp: ancestors_allow.simps [of t "Some i"] lets_through_def)
qed

lemma ancestors_allow_hit_exact:
  assumes t: "tree_inv t" and n: "node t i = Some n"
  shows "ancestors_allow_hit t i x y = Some (\<forall>a. descendant (links t) a i \<and> a \<noteq> i \<longrightarrow> lets_through t x y a)"
proof -
  obtain d where d: "at_depth (links t) i d" using tree_inv_depth [OF t n] by blast
  have Li: "links t i = Some (nparent n, children n)" using n by (simp add: links_def)
  show ?thesis
  proof (cases "nparent n")
    case None
    then show ?thesis using n descendant_step [OF Li]
      by (simp add: ancestors_allow_hit_def ancestors_allow.simps [of t None])
  next
    case (Some p)
    from d Li Some obtain e where e: "at_depth (links t) p e" "d = Suc e" by cases auto
    have "a \<noteq> i" if "descendant (links t) a p" for a
      using descendant_depth [OF that _ e(1)] d e(2) by fastforce
    then show ?thesis
      using n Some descendant_step [OF Li] ancestors_allow_exact [OF e(1), of x y] by (auto simp: ancestors_allow_hit_def)
  qed
qed

lemma stacked_below_trans: "stacked_below a b \<Longrightarrow> stacked_below b c \<Longrightarrow> stacked_below a c"
  by (auto simp: stacked_below_def)

lemma stacked_below_total: "stacked_below a b \<or> stacked_below b a"
proof -
  have "sint (fst a) = sint (fst b) \<Longrightarrow> fst a = fst b" by (rule signed_word_eqI)
  then show ?thesis unfolding stacked_below_def by (metis linorder_cases nat_le_linear)
qed

definition hit_key :: "ui_tree \<Rightarrow> nat \<Rightarrow> ui_node_id \<Rightarrow> u32 \<times> nat" where
  "hit_key t k i = (case contents t i of None \<Rightarrow> 0 | Some c \<Rightarrow> z_index c, k)"

text \<open>The loop keeps the frontmost of what it has seen.\<close>

definition frontmost :: "((u32 \<times> nat) \<times> ui_node_id) set \<Rightarrow> ((u32 \<times> nat) \<times> ui_node_id) option \<Rightarrow> bool" where
  "frontmost S b \<longleftrightarrow> (case b of None \<Rightarrow> S = {} | Some e \<Rightarrow> e \<in> S \<and> (\<forall>f\<in>S. stacked_below (fst f) (fst e)))"

lemma frontmost_insert:
  assumes "frontmost S best"
  shows "frontmost (insert (c, i) S)
    (case best of None \<Rightarrow> Some (c, i) | Some (cur, _) \<Rightarrow> if stacked_below cur c then Some (c, i) else best)"
proof (cases best)
  case None
  then show ?thesis using assms stacked_below_total [of c c] by (simp add: frontmost_def)
next
  case (Some e)
  then have e: "e \<in> S" "\<And>f. f \<in> S \<Longrightarrow> stacked_below (fst f) (fst e)" using assms by (simp_all add: frontmost_def)
  show ?thesis
  proof (cases "stacked_below (fst e) c")
    case True
    then have "stacked_below (fst f) c" if "f \<in> S" for f using stacked_below_trans [OF e(2) [OF that]] by blast
    then show ?thesis using Some True stacked_below_total [of c c] by (simp add: frontmost_def case_prod_unfold)
  next
    case False
    then have "stacked_below c (fst e)" using stacked_below_total by blast
    then show ?thesis using Some False e by (simp add: frontmost_def case_prod_unfold)
  qed
qed

definition hits_from :: "ui_tree \<Rightarrow> f32 \<Rightarrow> f32 \<Rightarrow> nat \<Rightarrow> ui_node_id list \<Rightarrow> ((u32 \<times> nat) \<times> ui_node_id) set" where
  "hits_from t x y k is = (\<lambda>(j, i). (hit_key t j i, i)) ` set (filter (\<lambda>(j, i). is_hit t x y i) (enumerate k is))"

lemma hits_from_Cons:
  "hits_from t x y k (i # is) = (if is_hit t x y i then {(hit_key t k i, i)} else {}) \<union> hits_from t x y (k + 1) is"
  by (simp add: hits_from_def)

lemma hits_from_iff:
  "e \<in> hits_from t x y 0 is \<longleftrightarrow> (\<exists>j<length is. e = (hit_key t j (is ! j), is ! j) \<and> is_hit t x y (is ! j))"
  by (auto simp: hits_from_def in_set_enumerate_eq image_iff)

lemma hit_loop_exact:
  assumes t: "tree_inv t"
  shows "frontmost S best \<Longrightarrow>
    \<exists>best'. hit_loop t x y k is best = Some best' \<and> frontmost (S \<union> hits_from t x y k is) best'"
proof (induction "is" arbitrary: k best S)
  case Nil
  then show ?case by (simp add: hits_from_def)
next
  case (Cons i "is")
  show ?case
  proof (cases "is_hit t x y i")
    case True
    then obtain n where n: "node t i = Some n" "own_hit n x y" by (auto simp: is_hit_def)
    have a: "ancestors_allow_hit t i x y = Some True"
      using ancestors_allow_hit_exact [OF t n(1), of x y] True by (simp add: is_hit_def)
    have key: "hit_key t k i = (z_index (content n), k)" using n by (simp add: hit_key_def contents_def)
    from frontmost_insert [OF Cons.prems, of "hit_key t k i" i] Cons.IH
    obtain best' where "hit_loop t x y (k + 1) is (case best of None \<Rightarrow> Some (hit_key t k i, i)
          | Some (cur, _) \<Rightarrow> if stacked_below cur (hit_key t k i) then Some (hit_key t k i, i) else best) = Some best'"
      "frontmost (insert (hit_key t k i, i) S \<union> hits_from t x y (k + 1) is) best'" by blast
    with n a True show ?thesis unfolding key by (auto simp: hits_from_Cons key Let_def)
  next
    case False
    have "hit_loop t x y k (i # is) best = hit_loop t x y (k + 1) is best"
    proof (cases "\<exists>n. node t i = Some n \<and> own_hit n x y")
      case True
      then obtain n where n: "node t i = Some n" "own_hit n x y" by blast
      with False have "ancestors_allow_hit t i x y = Some False"
        using ancestors_allow_hit_exact [OF t n(1), of x y] by (simp add: is_hit_def)
      with n show ?thesis by simp
    qed (auto split: option.splits)
    then show ?thesis using Cons.IH [OF Cons.prems, of "k + 1"] False by (simp add: hits_from_Cons)
  qed
qed

lemma hit_test_spec:
  assumes inv: "tree_inv t" and al: "al 0" and order: "preorder al t = Ret (Inr order)"
  shows "\<exists>r. hit_test al t x y = Ret r \<and> (case r of
      None \<Rightarrow> \<forall>i. \<not> is_hit t x y i
    | Some i \<Rightarrow> is_hit t x y i \<and> (\<exists>k<length order. order ! k = i \<and> (\<forall>j<length order. is_hit t x y (order ! j) \<longrightarrow>
          stacked_below (hit_key t j (order ! j)) (hit_key t k i))))"
proof -
  have ok: "slots_ok t" using inv by (simp add: tree_inv_def)
  from preorder_tree [OF inv, of al] al obtain rest where rest: "preorder al t = Ret (Inr (root t # rest))"
    "set (root t # rest) = {i. valid_slot t i}" by blast
  from rest(1) order have "order = root t # rest" by simp
  with rest(2) have pre: "set order = {i. valid_slot t i}" by simp
  have "frontmost {} None" by (simp add: frontmost_def)
  from hit_loop_exact [OF inv this, of x y 0 order] obtain best where
    best: "hit_loop t x y 0 order None = Some best" "frontmost (hits_from t x y 0 order) best" by auto
  have r: "hit_test al t x y = Ret (map_option snd best)" using order best(1) by (simp add: hit_test_def returned_def)
  show ?thesis
  proof (cases best)
    case None
    have "\<not> is_hit t x y i" for i
    proof
      assume i: "is_hit t x y i"
      then have "i \<in> set order" using valid_slot_iff [OF ok] pre by (auto simp: is_hit_def)
      then obtain j where "j < length order" "order ! j = i" by (auto simp: in_set_conv_nth)
      with i have "(hit_key t j i, i) \<in> hits_from t x y 0 order" by (auto simp: hits_from_iff)
      with best(2) None show False by (simp add: frontmost_def)
    qed
    then show ?thesis using r None by simp
  next
    case (Some e)
    with best(2) have "e \<in> hits_from t x y 0 order" by (simp add: frontmost_def)
    then obtain k where k: "k < length order" "e = (hit_key t k (order ! k), order ! k)" "is_hit t x y (order ! k)"
      by (auto simp: hits_from_iff)
    have "stacked_below (hit_key t j (order ! j)) (hit_key t k (order ! k))" if "j < length order" "is_hit t x y (order ! j)" for j
    proof -
      have "(hit_key t j (order ! j), order ! j) \<in> hits_from t x y 0 order" using that by (auto simp: hits_from_iff)
      with best(2) Some k(2) show ?thesis by (fastforce simp: frontmost_def)
    qed
    with k r Some show ?thesis by auto
  qed
qed

text \<open>
  C22: Hit testing finds the frontmost node under a point. It returns a node exactly when some node is hit,
  contains the point, accepts hits, and is neither hidden nor clipped by an ancestor; no other such node
  has a higher z-index, or the same one and a later place in the paint order.
\<close>

theorem hit_test_frontmost:
  assumes t: "tree_reachable t" and al: "al 0" and order: "preorder al t = Ret (Inr order)"
  shows "\<exists>r. hit_test al t x y = Ret r \<and> (case r of
      None \<Rightarrow> \<forall>i. \<not> is_hit t x y i
    | Some i \<Rightarrow> is_hit t x y i \<and> (\<exists>k<length order. order ! k = i \<and> (\<forall>j<length order. is_hit t x y (order ! j) \<longrightarrow>
          stacked_below (hit_key t j (order ! j)) (hit_key t k i))))"
  using hit_test_spec [of t al order x y] tree_reachable_inv [OF t] al order by blast

definition sample_rect :: ui_rect where
  "sample_rect = \<lparr>rx = Fin 0, ry = Fin 0, rwidth = Fin 10, rheight = Fin 10\<rparr>"

definition sample_laid_out :: ui_tree where
  "sample_laid_out = snd (set_rect sample_tree sample_root sample_rect)"

lemma sample_laid_out_reachable: "tree_reachable sample_laid_out"
  unfolding sample_laid_out_def
  by (rule tree_reachable.step [OF tree_reachable.new [OF sample_tree_new] tree_step.rect]) (rule surjective_pairing)

lemma sample_laid_out_slots:
  "slots sample_laid_out = [Some \<lparr>nid = sample_root, nparent = None, children = [], content = content_new Root,
      nrect = sample_rect, dirty = False\<rparr>]" "root sample_laid_out = sample_root"
  by (simp_all add: sample_laid_out_def set_rect_def rect_sane_def rect_right_def rect_bottom_def sample_rect_def f32_round_def
      round_magnitude_def excess_bits.simps nearest_even_def sample_defs tree_eval Let_def)

theorem hit_test_frontmost_witness:
  "hit_test (\<lambda>_. True) sample_laid_out (Fin 5) (Fin 5) = Ret (Some sample_root)"
proof -
  let ?t = sample_laid_out
  have one: "node ?t i = Some n \<longleftrightarrow> i = sample_root \<and> slots ?t ! 0 = Some n" for i n
  proof -
    have "slot_of sample_root = 0" by (simp add: sample_root_def ui_id_new_def)
    then show ?thesis by (auto simp: node_Some sample_laid_out_slots)
  qed
  have L: "links ?t sample_root = Some (None, [])" using one by (simp add: links_def sample_laid_out_slots)
  have up: "descendant (links ?t) a sample_root \<longleftrightarrow> a = sample_root" for a
    using descendant_step [OF L] by simp
  have hit: "is_hit ?t (Fin 5) (Fin 5) sample_root"
    using one up
    by (simp add: is_hit_def sample_laid_out_slots own_hit_def rect_contains_def rect_sane_def rect_right_def rect_bottom_def
        sample_rect_def f32_round_def round_magnitude_def excess_bits.simps nearest_even_def Let_def f32_lt_def
        content_new_def interaction_default_def)
  have pre: "preorder (\<lambda>_. True) ?t = Ret (Inr [sample_root])"
  proof -
    have "node ?t sample_root = Some \<lparr>nid = sample_root, nparent = None, children = [], content = content_new Root,
        nrect = sample_rect, dirty = False\<rparr>" using one by (simp add: sample_laid_out_slots)
    then show ?thesis by (simp add: preorder_def returned_def sample_laid_out_slots)
  qed
  from hit_test_frontmost [OF sample_laid_out_reachable, of "\<lambda>_. True", OF _ pre, of "Fin 5" "Fin 5"] hit
  show ?thesis by (auto split: option.splits)
qed

section \<open>Routing\<close>

lemma hit_test_valid:
  assumes "tree_inv t"
  shows "\<exists>r. hit_test al t x y = Ret r \<and> (\<forall>i. r = Some i \<longrightarrow> valid_slot t i)"
proof (cases "al 0")
  case True
  obtain order where order: "preorder al t = Ret (Inr order)" using preorder_tree [OF assms, of al] True by blast
  have ok: "slots_ok t" using assms by (simp add: tree_inv_def)
  from hit_test_spec [OF assms _ order, of x y] True obtain r where
    r: "hit_test al t x y = Ret r" "\<And>i. r = Some i \<Longrightarrow> is_hit t x y i" by (fastforce split: option.splits)
  then show ?thesis using valid_slot_iff [OF ok] by (auto simp: is_hit_def)
qed (simp add: hit_test_def preorder_def)

text \<open>
  Input routing always returns and never names a dead node. A captured node that is still alive
  receives every event; a press captures its target and focuses it if it can take the focus; a release
  ends the capture; nothing else changes focus or capture, except that stale handles are dropped.
\<close>

theorem route_exact:
  assumes "tree_reachable t"
  shows "\<exists>res f'. route al t e f = Ret (res, f')
     \<and> (\<forall>i. focused f' = Some i \<or> captured f' = Some i \<or> target res = Some i \<longrightarrow> valid_slot t i)
     \<and> (\<forall>i. captured f = Some i \<and> valid_slot t i \<longrightarrow> target res = Some i)
     \<and> (case e of
          PointerButton _ True _ _ \<Rightarrow>
            if target res = None then f' = clear_stale t f
            else captured f' = target res \<and> focused f' = focus_target t (target res)
        | PointerButton _ False _ _ \<Rightarrow> captured f' = None \<and> focused f' = focused (clear_stale t f)
        | _ \<Rightarrow> f' = clear_stale t f)"
proof -
  note inv = tree_reachable_inv [OF assms]
  let ?f = "clear_stale t f"
  have stale: "valid_slot t i" if "focused ?f = Some i \<or> captured ?f = Some i" for i
    using that by (auto simp: clear_stale_def split: option.splits if_splits)
  obtain tg where tg: "(case captured ?f of Some i \<Rightarrow> Ret (Some i)
      | None \<Rightarrow> (case pointer_of e of Some (x, y) \<Rightarrow> hit_test al t x y | None \<Rightarrow> Ret None)) = Ret tg"
    "\<And>i. tg = Some i \<Longrightarrow> valid_slot t i" "\<And>i. captured ?f = Some i \<Longrightarrow> tg = Some i"
  proof (cases "captured ?f")
    case None
    show ?thesis
    proof (cases "pointer_of e")
      case (Some p)
      from hit_test_valid [OF inv, of al "fst p" "snd p"] None Some show ?thesis
        by (auto simp: case_prod_unfold intro: that)
    qed (use None that in simp)
  qed (use stale that in simp)
  have ft: "focus_target t tg = Some i \<Longrightarrow> valid_slot t i" for i
    using tg(2) by (auto simp: focus_target_def split: option.splits if_splits)
  have cap: "captured ?f = Some i" if "captured f = Some i" "valid_slot t i" for i
    using that by (simp add: clear_stale_def)
  let ?f1 = "case e of
      PointerButton _ True _ _ \<Rightarrow> if tg \<noteq> None then ?f\<lparr>captured := tg, focused := focus_target t tg\<rparr> else ?f
    | PointerButton _ False _ _ \<Rightarrow> ?f\<lparr>captured := None\<rparr>
    | _ \<Rightarrow> ?f"
  obtain res where res: "route al t e f = Ret (res, ?f1)" "target res = tg"
    unfolding route_def Let_def tg(1) by simp
  have "focused ?f1 = Some i \<or> captured ?f1 = Some i \<Longrightarrow> valid_slot t i" for i
    using stale [of i] ft [of i] tg(2) [of i]
    by (cases "\<exists>b p x y. e = PointerButton b p x y") (auto split: ui_input_event.splits bool.splits if_splits)
  moreover have "case e of
          PointerButton _ True _ _ \<Rightarrow>
            if target res = None then ?f1 = ?f else captured ?f1 = target res \<and> focused ?f1 = focus_target t (target res)
        | PointerButton _ False _ _ \<Rightarrow> captured ?f1 = None \<and> focused ?f1 = focused ?f
        | _ \<Rightarrow> ?f1 = ?f"
    using res(2) by (auto split: ui_input_event.splits bool.splits)
  moreover have "target res = Some i" if "captured f = Some i" "valid_slot t i" for i
    using cap [OF that] tg(3) res(2) by simp
  moreover have "target res = Some i \<Longrightarrow> valid_slot t i" for i using tg(2) res(2) by simp
  ultimately show ?thesis using res(1) by blast
qed

theorem route_exact_witness:
  "\<exists>res f'. route (\<lambda>_. True) sample_pair (Key 13 True) \<lparr>focused = None, captured = Some sample_child\<rparr> = Ret (res, f')
     \<and> target res = Some sample_child"
proof -
  have "valid_slot sample_pair sample_child" by (simp add: sample_defs tree_eval)
  then show ?thesis
    using route_exact [OF sample_pair_reachable, of "\<lambda>_. True" "Key 13 True" "\<lparr>focused = None, captured = Some sample_child\<rparr>"]
    by auto
qed

end
