(* ===== verification/Ui_Layout.thy ===== *)
theory Ui_Layout
  imports Ui_Commands
begin

text \<open>
  The layout pass, \<open>src/src/subsystems/ui/layout.rs\<close>: intrinsic sizes are measured from the leaves to the root,
  then every node gets its rectangle, parents before children.
\<close>

section \<open>State\<close>

record layout_stats =
  visited :: nat
  dirty_seen :: nat
  iterations :: nat

record layout_engine =
  lconfig :: ui_config
  order :: "ui_node_id list"
  intrinsic :: "(ui_node_id \<times> ui_rect) list"

definition layout_try_new :: "alloc \<Rightarrow> ui_config \<Rightarrow> ui_error + layout_engine" where
  "layout_try_new al c =
     (if \<not> al 0 \<or> \<not> al 1 then Inl AllocationFailed else Inr \<lparr>lconfig = c, order = [], intrinsic = []\<rparr>)"

section \<open>Measuring\<close>

definition intrinsic_of :: "(ui_node_id \<times> ui_rect) list \<Rightarrow> ui_node_id \<Rightarrow> ui_rect" where
  "intrinsic_of ms i = (case map_of ms i of Some r \<Rightarrow> r | None \<Rightarrow> rect_zero)"

definition measure_text :: "ui_config \<Rightarrow> ui_content \<Rightarrow> f32 \<times> f32" where
  "measure_text cfg c =
     (case ctext c of
        None \<Rightarrow> (f32_zero, f32_zero)
      | Some x \<Rightarrow>
         (let glyphs = min (length (text_value x)) (max_glyphs cfg)
          in (f32_min (f32_mul (f32_of_int (int glyphs)) (f32_of_int 8)) (f32_of_int (int (max_upload_bytes cfg))),
              if glyphs = 0 then f32_zero else f32_of_int 16)))"

definition measure_child :: "ui_direction \<Rightarrow> ui_rect \<Rightarrow> f32 \<times> f32 \<Rightarrow> f32 \<times> f32" where
  "measure_child d r wh =
     (case d of
        Row \<Rightarrow> (f32_add (fst wh) (rwidth r), f32_max (snd wh) (rheight r))
      | Column \<Rightarrow> (f32_max (fst wh) (rwidth r), f32_add (snd wh) (rheight r)))"

definition measure_children ::
  "(ui_node_id \<times> ui_rect) list \<Rightarrow> ui_style \<Rightarrow> ui_node_id list \<Rightarrow> f32 \<times> f32 \<Rightarrow> f32 \<times> f32" where
  "measure_children ms s cs wh =
     (if cs = [] then wh
      else let (cw, ch) = fold (\<lambda>c. measure_child (direction s) (intrinsic_of ms c)) cs (f32_zero, f32_zero);
               gaps = f32_mul (gap s) (f32_of_int (int (length cs - 1)));
               (cw', ch') = (case direction s of Row \<Rightarrow> (f32_add cw gaps, ch) | Column \<Rightarrow> (cw, f32_add ch gaps))
           in (f32_max (fst wh) cw', f32_max (snd wh) ch'))"

fun measure_loop ::
  "ui_config \<Rightarrow> ui_tree \<Rightarrow> ui_node_id list \<Rightarrow> (ui_node_id \<times> ui_rect) list \<Rightarrow> (ui_error + unit) \<times> (ui_node_id \<times> ui_rect) list" where
  "measure_loop cfg t [] ms = (Inr (), ms)"
| "measure_loop cfg t (i # is) ms =
     (case node t i of
        None \<Rightarrow> (Inl InvalidNode, ms)
      | Some n \<Rightarrow>
         (let s = style (content n);
              (w0, h0) = measure_children ms s (children n) (measure_text cfg (content n));
              w = f32_add w0 (horizontal (padding s)); h = f32_add h0 (vertical (padding s))
          in if \<not> is_finite w \<or> \<not> is_finite h then (Inl IndexOverflow, ms)
             else measure_loop cfg t is
                    (ms @ [(i, \<lparr>rx = f32_zero, ry = f32_zero, rwidth = f32_min w (max_width s), rheight = f32_min h (max_height s)\<rparr>)])))"

section \<open>Placing a node\<close>

definition inner_rect :: "ui_rect \<Rightarrow> ui_style \<Rightarrow> ui_rect" where
  "inner_rect r s =
     \<lparr>rx = f32_add (rx r) (left (padding s)), ry = f32_add (ry r) (top (padding s)),
      rwidth = f32_max (f32_sub (rwidth r) (horizontal (padding s))) f32_zero,
      rheight = f32_max (f32_sub (rheight r) (vertical (padding s))) f32_zero\<rparr>"

definition unwrap_or :: "f32 option \<Rightarrow> f32 \<Rightarrow> f32" where
  "unwrap_or x d = (case x of Some v \<Rightarrow> v | None \<Rightarrow> d)"

definition positive_or :: "f32 \<Rightarrow> f32 \<Rightarrow> f32" where
  "positive_or x d = (if f32_lt f32_zero x then x else d)"

text \<open>The share of the main axis a node without a size of its own gets.\<close>

definition auto_main :: "ui_style \<Rightarrow> ui_rect \<Rightarrow> nat \<Rightarrow> f32" where
  "auto_main ps inner siblings =
     (let cnt = f32_of_int (int (max siblings 1));
          gap_total = f32_mul (gap ps) (f32_max (f32_sub cnt (f32_of_int 1)) f32_zero);
          available = (case direction ps of
              Row \<Rightarrow> f32_max (f32_sub (rwidth inner) gap_total) f32_zero
            | Column \<Rightarrow> f32_max (f32_sub (rheight inner) gap_total) f32_zero)
      in f32_div available cnt)"

definition axis_bounds :: "f32 \<Rightarrow> f32 \<Rightarrow> f32 \<Rightarrow> f32 \<times> f32" where
  "axis_bounds mn mx available = (f32_max (f32_min mn available) f32_zero, f32_min mx available)"

text \<open>The two clamps of one axis: to the style's bounds, then to what is available.\<close>

definition clamp_axis :: "f32 \<Rightarrow> f32 \<times> f32 \<Rightarrow> f32 \<Rightarrow> f32 run" where
  "clamp_axis v b available =
     run_bind (f32_clamp v (fst b) (f32_max (snd b) (fst b))) (\<lambda>v'. f32_clamp v' f32_zero available)"

text \<open>Width and height before margins.\<close>

definition node_size :: "ui_style \<Rightarrow> ui_style \<Rightarrow> ui_rect \<Rightarrow> ui_rect \<Rightarrow> nat \<Rightarrow> (f32 \<times> f32) run" where
  "node_size ps s inner intr siblings =
     (let am = auto_main ps inner siblings;
          w = unwrap_or (resolve (swidth s) (rwidth inner))
                (positive_or (rwidth intr) (case direction ps of Row \<Rightarrow> am | Column \<Rightarrow> rwidth inner));
          h = unwrap_or (resolve (sheight s) (rheight inner))
                (positive_or (rheight intr) (case direction ps of Row \<Rightarrow> rheight inner | Column \<Rightarrow> am));
          wc = clamp_axis w (axis_bounds (min_width s) (max_width s) (rwidth inner)) (rwidth inner);
          hc = clamp_axis h (axis_bounds (min_height s) (max_height s) (rheight inner)) (rheight inner)
      in run_bind wc (\<lambda>w'. run_bind hc (\<lambda>h'. Ret (w', h'))))"

definition cross_offset :: "ui_align \<Rightarrow> f32 \<Rightarrow> f32 \<Rightarrow> f32" where
  "cross_offset a available sz =
     (case a of
        Start \<Rightarrow> f32_zero
      | Stretch \<Rightarrow> f32_zero
      | Center \<Rightarrow> f32_mul (f32_max (f32_sub available sz) f32_zero) (f32_div (f32_of_int 1) (f32_of_int 2))
      | End \<Rightarrow> f32_max (f32_sub available sz) f32_zero)"

text \<open>The flow rectangle: margins, alignment on the cross axis, stretching and scrolling.\<close>

definition flow_rect :: "ui_style \<Rightarrow> ui_style \<Rightarrow> ui_rect \<Rightarrow> ui_rect \<Rightarrow> ui_rect" where
  "flow_rect ps s inner r =
     (let m = margin s;
          r1 = \<lparr>rx = f32_add (rx r) (left m), ry = f32_add (ry r) (top m),
                rwidth = f32_max (f32_sub (rwidth r) (horizontal m)) f32_zero,
                rheight = f32_max (f32_sub (rheight r) (vertical m)) f32_zero\<rparr>;
          r2 = (case direction ps of
                  Row \<Rightarrow> r1\<lparr>ry := f32_add (ry r1) (cross_offset (align ps) (rheight inner) (rheight r1))\<rparr>
                | Column \<Rightarrow> r1\<lparr>rx := f32_add (rx r1) (cross_offset (align ps) (rwidth inner) (rwidth r1))\<rparr>);
          r3 = (if align ps = Stretch
                then (case direction ps of
                        Row \<Rightarrow> r2\<lparr>rheight := f32_max (f32_sub (rheight inner) (vertical m)) f32_zero\<rparr>
                      | Column \<Rightarrow> r2\<lparr>rwidth := f32_max (f32_sub (rwidth inner) (horizontal m)) f32_zero\<rparr>)
                else r2)
      in if overflow ps = Scroll
         then r3\<lparr>rx := f32_sub (rx r3) (scroll_x ps), ry := f32_sub (ry r3) (scroll_y ps)\<rparr> else r3)"

definition place ::
  "ui_style \<Rightarrow> ui_rect \<Rightarrow> ui_style \<Rightarrow> ui_rect \<Rightarrow> nat \<Rightarrow> f32 \<Rightarrow> ui_rect run" where
  "place ps prect s intr siblings offset =
     (let inner = inner_rect prect ps
      in run_bind (node_size ps s inner intr siblings) (\<lambda>(w, h).
           let r = (case direction ps of
                      Row \<Rightarrow> \<lparr>rx = f32_add (rx inner) offset, ry = ry inner, rwidth = w, rheight = h\<rparr>
                    | Column \<Rightarrow> \<lparr>rx = rx inner, ry = f32_add (ry inner) offset, rwidth = w, rheight = h\<rparr>)
           in Ret (case position s of
                     Absolute l tp \<Rightarrow>
                       r\<lparr>rx := f32_add (f32_add (rx inner) l) (left (margin s)),
                         ry := f32_add (f32_add (ry inner) tp) (top (margin s))\<rparr>
                   | Flow \<Rightarrow> flow_rect ps s inner r)))"

text \<open>The sizes of the earlier siblings and the gaps between them.\<close>

fun sibling_offset :: "ui_tree \<Rightarrow> ui_style \<Rightarrow> ui_node_id list \<Rightarrow> f32 \<Rightarrow> f32 option" where
  "sibling_offset t ps [] acc = Some acc"
| "sibling_offset t ps (c # cs) acc =
     (case node t c of
        None \<Rightarrow> None
      | Some n \<Rightarrow>
         sibling_offset t ps cs
           (f32_add (f32_add acc (case direction ps of Row \<Rightarrow> rwidth (nrect n) | Column \<Rightarrow> rheight (nrect n))) (gap ps)))"

definition layout_node ::
  "(ui_node_id \<times> ui_rect) list \<Rightarrow> ui_node_id \<Rightarrow> layout_stats \<Rightarrow> ui_tree \<Rightarrow> ((ui_error + layout_stats) \<times> ui_tree) run" where
  "layout_node ms i st t =
     (case node t i of
        None \<Rightarrow> Ret (Inl InvalidNode, t)
      | Some n \<Rightarrow>
         (case nparent n of
            None \<Rightarrow> Ret (Inl InvalidParent, t)
          | Some p \<Rightarrow>
             (case node t p of
                None \<Rightarrow> Ret (Inl InvalidNode, t)
              | Some pn \<Rightarrow>
                 (case Prelude.position (\<lambda>c. c = i) (children pn) of
                    None \<Rightarrow> Ret (Inl InvalidNode, t)
                  | Some k \<Rightarrow>
                     (if \<not> content_sane (content n) then Ret (Inl InvalidValue, t)
                      else case sibling_offset t (style (content pn)) (take k (children pn)) f32_zero of
                        None \<Rightarrow> Ret (Inl IndexOverflow, t)
                      | Some offset \<Rightarrow>
                         run_bind (place (style (content pn)) (nrect pn) (style (content n)) (intrinsic_of ms i)
                             (length (children pn)) offset)
                           (\<lambda>r. case set_rect t i r of
                              (Inl e, t') \<Rightarrow> Ret (Inl e, t')
                            | (Inr _, t') \<Rightarrow>
                                Ret (Inr (st\<lparr>visited := sat_add (visited st) 1,
                                           dirty_seen := (if dirty n then sat_add (dirty_seen st) 1 else dirty_seen st)\<rparr>), t')))))))"

fun layout_loop ::
  "(ui_node_id \<times> ui_rect) list \<Rightarrow> ui_node_id list \<Rightarrow> layout_stats \<Rightarrow> ui_tree \<Rightarrow> ((ui_error + layout_stats) \<times> ui_tree) run" where
  "layout_loop ms [] st t = Ret (Inr st, t)"
| "layout_loop ms (i # is) st t =
     run_bind (layout_node ms i st t) (\<lambda>(r, t').
       case r of Inl e \<Rightarrow> Ret (Inl e, t') | Inr st' \<Rightarrow> layout_loop ms is st' t')"

definition layout ::
  "alloc \<Rightarrow> layout_engine \<Rightarrow> ui_tree \<Rightarrow> ui_rect \<Rightarrow> ui_diagnostics
     \<Rightarrow> ((ui_error + layout_stats) \<times> layout_engine \<times> ui_tree \<times> ui_diagnostics) run" where
  "layout al e t viewport dg =
     (if \<not> rect_sane viewport then Ret (Inl InvalidValue, e, t, dg)
      else if \<not> is_finite (dpi_scale (lconfig e)) \<or> f32_le (dpi_scale (lconfig e)) f32_zero then Ret (Inl InvalidValue, e, t, dg)
      else run_bind (preorder al t) (\<lambda>r.
        case r of
          Inl x \<Rightarrow> Ret (Inl x, e\<lparr>order := []\<rparr>, t, dg)
        | Inr ord \<Rightarrow>
           (case measure_loop (lconfig e) t (rev ord) [] of
              (Inl x, ms) \<Rightarrow> Ret (Inl x, e\<lparr>order := ord, intrinsic := ms\<rparr>, t, dg)
            | (Inr _, ms) \<Rightarrow>
               (let e1 = e\<lparr>order := ord, intrinsic := ms\<rparr>
                in case set_rect t (root t) viewport of
                     (Inl x, t1) \<Rightarrow> Ret (Inl x, e1, t1, dg)
                   | (Inr _, t1) \<Rightarrow>
                      run_bind (layout_loop ms (drop 1 ord) \<lparr>visited = 0, dirty_seen = 0, iterations = 1\<rparr> t1) (\<lambda>(r2, t2).
                        case r2 of
                          Inl x \<Rightarrow> Ret (Inl x, e1, t2, dg)
                        | Inr st \<Rightarrow>
                           (if iterations st > unat (max_layout_iterations (lconfig e)) then Ret (Inl LayoutDidNotConverge, e1, t2, dg)
                            else Ret (Inr st, e1, t2,
                                   dg\<lparr>layout_passes := sat_add (layout_passes dg) 1, dirty_nodes := dirty_seen st\<rparr>)))))))"

section \<open>Representability of results\<close>

lemma f32_ok_zero [simp]: "f32_ok f32_zero"
  by (simp add: f32_ok_def magnitude_ok_def)

lemma f32_ok_infinite [simp]: "f32_ok NaN" "f32_ok PInf" "f32_ok NInf"
  by (simp_all add: f32_ok_def)

lemma f32_sub_ok: "f32_ok x \<Longrightarrow> f32_ok y \<Longrightarrow> f32_ok (f32_sub x y)"
  by (simp add: f32_sub_def f32_add_ok f32_neg_ok)

lemma signed_inf_ok [simp]: "f32_ok (signed_inf s)"
  by (simp add: signed_inf_def)

lemma f32_mul_ok: "f32_ok (f32_mul x y)"
  by (cases x; cases y) (simp_all add: f32_round_ok)

lemma f32_div_ok: "f32_ok (f32_div x y)"
  by (cases x; cases y) (simp_all add: f32_round_ok)

lemma f32_of_int_ok: "f32_ok (f32_of_int i)"
  by (simp add: f32_of_int_def f32_round_ok)

lemma f32_max_ok: "f32_ok x \<Longrightarrow> f32_ok y \<Longrightarrow> f32_ok (f32_max x y)"
  by (simp add: f32_max_def)

lemma f32_min_ok: "f32_ok x \<Longrightarrow> f32_ok y \<Longrightarrow> f32_ok (f32_min x y)"
  by (simp add: f32_min_def)

lemma f32_clamp_ok: "f32_clamp x lo hi = Ret y \<Longrightarrow> f32_ok x \<Longrightarrow> f32_ok lo \<Longrightarrow> f32_ok hi \<Longrightarrow> f32_ok y"
  by (auto simp: f32_clamp_def split: if_splits)

lemmas f32_oks =
  f32_add_ok f32_sub_ok f32_mul_ok f32_div_ok f32_of_int_ok f32_max_ok f32_min_ok

lemma f32_clamp_returns: "f32_le lo hi \<Longrightarrow> \<exists>y. f32_clamp x lo hi = Ret y"
  by (simp add: f32_clamp_def)

lemma f32_add_nonneg: "f32_le f32_zero x \<Longrightarrow> f32_le f32_zero y \<Longrightarrow> f32_le f32_zero (f32_add x y)"
  by (cases x; cases y) (simp_all add: f32_round_nonneg)

lemma f32_max_le: "f32_le x z \<Longrightarrow> f32_le y z \<Longrightarrow> f32_le (f32_max x y) z"
  by (simp add: f32_max_def)

lemma f32_le_max_right: "y \<noteq> NaN \<Longrightarrow> f32_le y (f32_max x y)"
  by (cases x; cases y) (simp_all add: f32_max_def)

text \<open>A length between zero and another one.\<close>

definition within :: "f32 \<Rightarrow> f32 \<Rightarrow> bool" where
  "within x y \<longleftrightarrow> f32_ok x \<and> f32_le f32_zero x \<and> f32_le x y"

definition length_ok :: "f32 \<Rightarrow> bool" where
  "length_ok x \<longleftrightarrow> f32_ok x \<and> f32_le f32_zero x \<and> is_finite x"

lemma within_length: "within x y \<Longrightarrow> length_ok y \<Longrightarrow> length_ok x"
  by (auto simp: within_def length_ok_def intro: finite_between)

lemma within_trans: "within x y \<Longrightarrow> within y z \<Longrightarrow> within x z"
  by (auto simp: within_def intro: f32_le_trans)

lemma shrink_within:
  "length_ok x \<Longrightarrow> f32_le f32_zero y \<Longrightarrow> within (f32_max (f32_sub x y) f32_zero) x"
  using f32_sub_le [of x y] by (simp add: within_def length_ok_def f32_max_zero f32_max_le f32_max_ok)

section \<open>Placing\<close>

definition edges_f32 :: "ui_edges \<Rightarrow> bool" where
  "edges_f32 e \<longleftrightarrow> f32_ok (left e) \<and> f32_ok (right e) \<and> f32_ok (top e) \<and> f32_ok (bottom e)"

text \<open>The numbers of a style are \<open>f32\<close> values.\<close>

definition style_f32 :: "ui_style \<Rightarrow> bool" where
  "style_f32 s \<longleftrightarrow> edges_f32 (margin s) \<and> edges_f32 (padding s) \<and> f32_ok (gap s)
     \<and> f32_ok (min_width s) \<and> f32_ok (min_height s) \<and> f32_ok (max_width s) \<and> f32_ok (max_height s)
     \<and> (case swidth s of Points v \<Rightarrow> f32_ok v | _ \<Rightarrow> True) \<and> (case sheight s of Points v \<Rightarrow> f32_ok v | _ \<Rightarrow> True)"

lemma edges_nonneg: "edges_sane e \<Longrightarrow> f32_le f32_zero (horizontal e) \<and> f32_le f32_zero (vertical e)"
  by (simp add: edges_sane_def horizontal_def vertical_def f32_add_nonneg)

lemma inner_within:
  assumes "length_ok (rwidth r)" "length_ok (rheight r)" "edges_sane (padding s)"
  shows "within (rwidth (inner_rect r s)) (rwidth r)" "within (rheight (inner_rect r s)) (rheight r)"
  using assms edges_nonneg [OF assms(3)] by (simp_all add: inner_rect_def shrink_within)

lemma axis_bounds_order: "f32_le f32_zero (fst (axis_bounds mn mx av)) \<and>
    f32_le (fst (axis_bounds mn mx av)) (f32_max (snd (axis_bounds mn mx av)) (fst (axis_bounds mn mx av)))"
proof -
  have "f32_le f32_zero (fst (axis_bounds mn mx av))" by (simp add: axis_bounds_def f32_max_zero)
  with f32_le_not_NaN [OF this] show ?thesis by (simp add: f32_le_max_right)
qed

lemma clamp_axis_returns:
  assumes "f32_le f32_zero av"
  shows "\<exists>y. clamp_axis v (axis_bounds mn mx av) av = Ret y"
  using axis_bounds_order [of mn mx av] f32_clamp_returns assms
  by (metis clamp_axis_def run_bind.simps(1))

lemma clamp_axis_within:
  assumes "length_ok av" "v \<noteq> NaN" "f32_ok v" "f32_ok mn" "f32_ok mx" "clamp_axis v (axis_bounds mn mx av) av = Ret y"
  shows "within y av"
proof -
  let ?b = "axis_bounds mn mx av"
  have av: "f32_ok av" "f32_le f32_zero av" using assms(1) by (simp_all add: length_ok_def)
  from assms(6) obtain z where z: "f32_clamp v (fst ?b) (f32_max (snd ?b) (fst ?b)) = Ret z" "f32_clamp z f32_zero av = Ret y"
    by (auto simp: clamp_axis_def run_bind_Ret_iff)
  have "z \<noteq> NaN"
    using f32_clamp_bounds [OF conjunct2 [OF axis_bounds_order] assms(2), of mn mx av] z(1) f32_le_not_NaN by fastforce
  then have "f32_le f32_zero y \<and> f32_le y av" using f32_clamp_bounds [OF av(2)] z(2) by fastforce
  moreover have "f32_ok (fst ?b)" "f32_ok (f32_max (snd ?b) (fst ?b))"
    using assms(4,5) av by (simp_all add: axis_bounds_def f32_oks)
  then have "f32_ok z" using z(1) assms(3) f32_clamp_ok by blast
  then have "f32_ok y" using z(2) av f32_clamp_ok f32_ok_zero by blast
  ultimately show ?thesis by (simp add: within_def)
qed

lemma resolve_ok:
  "resolve l av = Some v \<Longrightarrow> f32_le f32_zero av \<Longrightarrow> (case l of Points x \<Rightarrow> f32_ok x | _ \<Rightarrow> True) \<Longrightarrow> f32_ok v \<and> v \<noteq> NaN"
proof (cases l)
  case (Percent x)
  assume r: "resolve l av = Some v" and av: "f32_le f32_zero av"
  then obtain a b where ab: "av = Fin a" "x = Fin b" "v = f32_div (f32_mul (Fin a) (Fin b)) (f32_of_int 100)"
    using Percent by (auto simp: resolve_def is_finite_iff split: if_splits)
  obtain h where h: "f32_of_int 100 = Fin h" "h > 0"
    by (simp add: f32_of_int_def f32_one_units_def f32_round_def round_magnitude_def excess_bits.simps nearest_even_def Let_def)
  have "f32_mul (Fin a) (Fin b) \<noteq> NaN" by simp
  then show ?thesis using ab h by (cases "f32_mul (Fin a) (Fin b)") (auto simp: f32_round_ok signed_inf_def)
qed (auto simp: resolve_def is_finite_iff split: if_splits)

lemma f32_of_int_1: "f32_of_int 1 = Fin (2 ^ 149)"
  by (simp add: f32_of_int_def f32_one_units_def f32_round_def round_magnitude_def excess_bits.simps nearest_even_def Let_def)

lemma f32_of_int_positive:
  assumes "1 \<le> i"
  shows "f32_le (Fin (2 ^ 149)) (f32_of_int i)"
proof -
  let ?n = "nat (i * 2 ^ 149)"
  have n: "2 ^ 149 \<le> ?n" using assms by (simp add: nat_mult_distrib)
  have "2 ^ 149 \<le> round_magnitude ?n 1"
  proof -
    let ?e = "excess_bits ?n"
    have "126 \<le> ?e"
    proof (rule ccontr)
      assume "\<not> 126 \<le> ?e"
      then have "(2::nat) ^ (24 + ?e) \<le> 2 ^ 149" by (intro power_increasing) auto
      with n excess_bits_range [of ?n] show False by linarith
    qed
    then have "2 ^ (23 + ?e) \<le> ?n" using excess_bits_range [of ?n] by simp
    then have "2 ^ 23 * 2 ^ ?e \<le> ?n" by (simp add: power_add)
    then have "2 ^ 23 \<le> nearest_even ?n (2 ^ ?e)" by (intro nearest_even_ge) auto
    then have "2 ^ 23 * 2 ^ ?e \<le> round_magnitude ?n 1" by (simp add: round_magnitude_def Let_def)
    moreover have "(2::nat) ^ 149 \<le> 2 ^ (23 + ?e)" using \<open>126 \<le> ?e\<close> by (intro power_increasing) auto
    ultimately show ?thesis by (simp add: power_add)
  qed
  moreover have "\<bar>i * 2 ^ 149\<bar> = i * 2 ^ 149" "sgn (i * 2 ^ 149) = 1" using assms by simp_all
  ultimately show ?thesis using assms unfolding f32_of_int_def f32_one_units_def f32_round_def Let_def by (simp add: sgn_if)
qed

lemma f32_mul_nonneg: "f32_le f32_zero x \<Longrightarrow> f32_le f32_zero y \<Longrightarrow> f32_mul x y = NaN \<or> f32_le f32_zero (f32_mul x y)"
  by (cases x; cases y) (auto simp: f32_round_nonneg signed_inf_def sgn_if)

lemma shrink_finite:
  assumes "length_ok x" "y = NaN \<or> f32_le f32_zero y"
  shows "\<exists>a. f32_max (f32_sub x y) f32_zero = Fin a"
  using assms(2)
proof
  assume "y = NaN"
  then show ?thesis using assms(1) by (auto simp: length_ok_def is_finite_iff f32_sub_def f32_max_def)
next
  assume "f32_le f32_zero y"
  with shrink_within within_length assms(1) have "length_ok (f32_max (f32_sub x y) f32_zero)" by blast
  then show ?thesis by (simp add: length_ok_def is_finite_iff)
qed

lemma auto_main_ok:
  assumes "length_ok (rwidth inner)" "length_ok (rheight inner)" "style_sane ps"
  shows "f32_ok (auto_main ps inner k) \<and> auto_main ps inner k \<noteq> NaN"
proof -
  let ?c = "f32_of_int (int (max k 1))"
  let ?g = "f32_mul (gap ps) (f32_max (f32_sub ?c (f32_of_int 1)) f32_zero)"
  have c: "f32_le (Fin (2 ^ 149)) ?c" by (rule f32_of_int_positive) simp
  have g: "?g = NaN \<or> f32_le f32_zero ?g"
    using assms(3) by (intro f32_mul_nonneg f32_max_zero) (simp add: style_sane_def)
  have "f32_div (f32_max (f32_sub x ?g) f32_zero) ?c \<noteq> NaN" if lx: "length_ok x" for x
  proof -
    obtain a where a: "f32_max (f32_sub x ?g) f32_zero = Fin a" using shrink_finite [OF lx g] by blast
    have "f32_div (Fin a) ?c \<noteq> NaN" using c by (cases ?c) auto
    then show ?thesis unfolding a .
  qed
  then show ?thesis using assms by (simp add: auto_main_def Let_def f32_div_ok split: ui_direction.split)
qed

lemma node_size_returns:
  assumes "f32_le f32_zero (rwidth inner)" "f32_le f32_zero (rheight inner)"
  shows "\<exists>w h. node_size ps s inner intr k = Ret (w, h)"
  using clamp_axis_returns [OF assms(1)] clamp_axis_returns [OF assms(2)]
  by (simp add: node_size_def Let_def) (metis run_bind.simps(1))

lemma unwrap_or_ok:
  assumes "\<And>v. x = Some v \<Longrightarrow> f32_ok v \<and> v \<noteq> NaN" "f32_ok y" "f32_ok d \<and> d \<noteq> NaN"
  shows "f32_ok (unwrap_or x (positive_or y d)) \<and> unwrap_or x (positive_or y d) \<noteq> NaN"
  using assms by (auto simp: unwrap_or_def positive_or_def f32_lt_def split: option.splits)

lemma length_ok_not_NaN: "length_ok x \<Longrightarrow> f32_ok x \<and> x \<noteq> NaN"
  by (auto simp: length_ok_def is_finite_def)

lemma node_size_within:
  assumes inner: "length_ok (rwidth inner)" "length_ok (rheight inner)" and ps: "style_sane ps" and s: "style_f32 s"
    and intr: "f32_ok (rwidth intr)" "f32_ok (rheight intr)" and r: "node_size ps s inner intr k = Ret (w, h)"
  shows "within w (rwidth inner) \<and> within h (rheight inner)"
proof -
  have pos: "f32_le f32_zero (rwidth inner)" "f32_le f32_zero (rheight inner)" using inner by (simp_all add: length_ok_def)
  note am = auto_main_ok [OF inner ps, of k]
  let ?w = "unwrap_or (resolve (swidth s) (rwidth inner))
      (positive_or (rwidth intr) (case direction ps of Row \<Rightarrow> auto_main ps inner k | Column \<Rightarrow> rwidth inner))"
  let ?h = "unwrap_or (resolve (sheight s) (rheight inner))
      (positive_or (rheight intr) (case direction ps of Row \<Rightarrow> rheight inner | Column \<Rightarrow> auto_main ps inner k))"
  have w: "f32_ok ?w \<and> ?w \<noteq> NaN"
    using am length_ok_not_NaN [OF inner(1)] s intr resolve_ok [of "swidth s" "rwidth inner", OF _ pos(1)]
    by (intro unwrap_or_ok) (auto simp: style_f32_def split: ui_direction.split)
  have h: "f32_ok ?h \<and> ?h \<noteq> NaN"
    using am length_ok_not_NaN [OF inner(2)] s intr resolve_ok [of "sheight s" "rheight inner", OF _ pos(2)]
    by (intro unwrap_or_ok) (auto simp: style_f32_def split: ui_direction.split)
  from r obtain "clamp_axis ?w (axis_bounds (min_width s) (max_width s) (rwidth inner)) (rwidth inner) = Ret w"
    "clamp_axis ?h (axis_bounds (min_height s) (max_height s) (rheight inner)) (rheight inner) = Ret h"
    by (auto simp: node_size_def Let_def run_bind_Ret_iff)
  with clamp_axis_within [OF inner(1)] clamp_axis_within [OF inner(2)] w h s show ?thesis
    by (auto simp: style_f32_def)
qed

lemma flow_rect_within:
  assumes "length_ok (rwidth inner)" "length_ok (rheight inner)" "edges_sane (margin s)"
    "within (rwidth r) (rwidth inner)" "within (rheight r) (rheight inner)"
  shows "within (rwidth (flow_rect ps s inner r)) (rwidth inner) \<and> within (rheight (flow_rect ps s inner r)) (rheight inner)"
proof -
  note m = edges_nonneg [OF assms(3)]
  have l: "length_ok (rwidth r)" "length_ok (rheight r)" using within_length assms by blast+
  have "within (f32_max (f32_sub (rwidth r) (horizontal (margin s))) f32_zero) (rwidth inner)"
    "within (f32_max (f32_sub (rheight r) (vertical (margin s))) f32_zero) (rheight inner)"
    using shrink_within [OF l(1)] shrink_within [OF l(2)] within_trans assms(4,5) m by blast+
  moreover have "within (f32_max (f32_sub (rwidth inner) (horizontal (margin s))) f32_zero) (rwidth inner)"
    "within (f32_max (f32_sub (rheight inner) (vertical (margin s))) f32_zero) (rheight inner)"
    using shrink_within [OF assms(1)] shrink_within [OF assms(2)] m by blast+
  ultimately show ?thesis by (simp add: flow_rect_def Let_def split: ui_direction.split)
qed

lemma place_returns: "\<exists>r. place ps prect s intr k offset = Ret r"
proof -
  let ?i = "inner_rect prect ps"
  have "f32_le f32_zero (rwidth ?i)" "f32_le f32_zero (rheight ?i)" by (simp_all add: inner_rect_def f32_max_zero)
  then obtain w h where "node_size ps s ?i intr k = Ret (w, h)" using node_size_returns by blast
  then show ?thesis by (simp add: place_def Let_def)
qed

lemma place_within:
  assumes p: "length_ok (rwidth prect)" "length_ok (rheight prect)" "style_sane ps"
    and s: "style_sane s" "style_f32 s" and intr: "f32_ok (rwidth intr)" "f32_ok (rheight intr)"
    and r: "place ps prect s intr k offset = Ret r"
  shows "within (rwidth r) (rwidth prect) \<and> within (rheight r) (rheight prect)"
proof -
  let ?i = "inner_rect prect ps"
  have pad: "edges_sane (padding ps)" "edges_sane (margin s)" using p(3) s(1) by (simp_all add: style_sane_def)
  note i = inner_within [OF p(1,2) pad(1)]
  have li: "length_ok (rwidth ?i)" "length_ok (rheight ?i)" using within_length i p by blast+
  from r obtain w h where wh: "node_size ps s ?i intr k = Ret (w, h)"
    and r': "r = (let r = (case direction ps of
                      Row \<Rightarrow> \<lparr>rx = f32_add (rx ?i) offset, ry = ry ?i, rwidth = w, rheight = h\<rparr>
                    | Column \<Rightarrow> \<lparr>rx = rx ?i, ry = f32_add (ry ?i) offset, rwidth = w, rheight = h\<rparr>)
           in case position s of
                     Absolute l tp \<Rightarrow>
                       r\<lparr>rx := f32_add (f32_add (rx ?i) l) (left (margin s)),
                         ry := f32_add (f32_add (ry ?i) tp) (top (margin s))\<rparr>
                   | Flow \<Rightarrow> flow_rect ps s ?i r)"
    by (auto simp: place_def Let_def run_bind_Ret_iff)
  note sz = node_size_within [OF li p(3) s(2) intr wh]
  have "within (rwidth r) (rwidth ?i) \<and> within (rheight r) (rheight ?i)"
  proof (cases "position s")
    case Flow
    then show ?thesis
      using r' sz flow_rect_within [OF li pad(2)] by (cases "direction ps") (simp_all add: Let_def)
  next
    case (Absolute l tp)
    then show ?thesis using r' sz by (cases "direction ps") (simp_all add: Let_def)
  qed
  then show ?thesis using i within_trans by blast
qed

section \<open>The pass\<close>

text \<open>Every number in the contents is an \<open>f32\<close> value.\<close>

definition contents_f32 :: "ui_tree \<Rightarrow> bool" where
  "contents_f32 t \<longleftrightarrow> (\<forall>i c. contents t i = Some c \<longrightarrow> style_f32 (style c))"

definition placed :: "ui_tree \<Rightarrow> ui_node_id \<Rightarrow> bool" where
  "placed t i \<longleftrightarrow> (\<exists>n. node t i = Some n \<and> rect_sane (nrect n) \<and> \<not> dirty n
     \<and> f32_ok (rwidth (nrect n)) \<and> f32_ok (rheight (nrect n))
     \<and> (\<forall>p pn. nparent n = Some p \<and> node t p = Some pn \<longrightarrow>
          f32_le (rwidth (nrect n)) (rwidth (nrect pn)) \<and> f32_le (rheight (nrect n)) (rheight (nrect pn))))"

definition sizes_ok :: "(ui_node_id \<times> ui_rect) list \<Rightarrow> bool" where
  "sizes_ok ms \<longleftrightarrow> (\<forall>(i, r)\<in>set ms. f32_ok (rwidth r) \<and> f32_ok (rheight r))"

lemma intrinsic_of_ok: "sizes_ok ms \<Longrightarrow> f32_ok (rwidth (intrinsic_of ms i)) \<and> f32_ok (rheight (intrinsic_of ms i))"
  by (auto simp: intrinsic_of_def sizes_ok_def rect_zero_def split: option.splits dest!: map_of_SomeD)

lemma measure_text_ok: "f32_ok (fst (measure_text cfg c)) \<and> f32_ok (snd (measure_text cfg c))"
  by (auto simp: measure_text_def Let_def f32_oks split: option.splits)

lemma measure_fold_ok:
  "sizes_ok ms \<Longrightarrow> f32_ok (fst wh) \<Longrightarrow> f32_ok (snd wh) \<Longrightarrow>
    f32_ok (fst (fold (\<lambda>c. measure_child d (intrinsic_of ms c)) cs wh))
    \<and> f32_ok (snd (fold (\<lambda>c. measure_child d (intrinsic_of ms c)) cs wh))"
proof (induction cs arbitrary: wh)
  case (Cons c cs)
  then show ?case
    using intrinsic_of_ok [of ms c] by (auto simp: measure_child_def f32_oks split: ui_direction.splits)
qed simp

lemma measure_children_ok:
  assumes "sizes_ok ms" "f32_ok (fst wh)" "f32_ok (snd wh)"
  shows "f32_ok (fst (measure_children ms s cs wh)) \<and> f32_ok (snd (measure_children ms s cs wh))"
  using assms measure_fold_ok [OF assms(1), of "(f32_zero, f32_zero)" "direction s" cs]
  by (auto simp: measure_children_def Let_def f32_oks case_prod_unfold split: ui_direction.splits)

lemma measure_loop_ok:
  "contents_f32 t \<Longrightarrow> sizes_ok ms \<Longrightarrow> sizes_ok (snd (measure_loop cfg t is ms))"
proof (induction "is" arbitrary: ms)
  case (Cons i "is")
  show ?case
  proof (cases "node t i")
    case (Some n)
    let ?s = "style (content n)"
    have s: "style_f32 ?s" using Cons.prems(1) Some by (auto simp: contents_f32_def contents_def)
    obtain w0 h0 where wh: "measure_children ms ?s (children n) (measure_text cfg (content n)) = (w0, h0)" by force
    have "f32_ok w0" "f32_ok h0"
      using measure_children_ok [OF Cons.prems(2), of "measure_text cfg (content n)" ?s "children n"] measure_text_ok wh by auto
    then have "f32_ok (f32_min (f32_add w0 (horizontal (padding ?s))) (max_width ?s))"
      "f32_ok (f32_min (f32_add h0 (vertical (padding ?s))) (max_height ?s))"
      using s by (simp_all add: style_f32_def edges_f32_def horizontal_def vertical_def f32_oks)
    then have "sizes_ok (ms @ [(i, \<lparr>rx = f32_zero, ry = f32_zero, rwidth = f32_min (f32_add w0 (horizontal (padding ?s))) (max_width ?s),
        rheight = f32_min (f32_add h0 (vertical (padding ?s))) (max_height ?s)\<rparr>)])"
      using Cons.prems(2) by (simp add: sizes_ok_def)
    from Cons.IH [OF Cons.prems(1) this] show ?thesis using Some wh Cons.prems(2) by (simp add: Let_def)
  qed (use Cons.prems in simp)
qed simp

lemma set_rect_node:
  assumes "node t i = Some n" "rect_sane r"
  shows "set_rect t i r = (Inr (), set_node t (n\<lparr>nrect := r, dirty := False\<rparr>))"
    and "node (set_node t (n\<lparr>nrect := r, dirty := False\<rparr>)) = (node t)(i \<mapsto> n\<lparr>nrect := r, dirty := False\<rparr>)"
    and "contents (set_node t (n\<lparr>nrect := r, dirty := False\<rparr>)) = contents t"
    and "same_shape t (set_node t (n\<lparr>nrect := r, dirty := False\<rparr>))"
  using assms node_set_node_at [of t i "n\<lparr>nrect := r, dirty := False\<rparr>"] same_shape_set_node [OF assms(1), of "n\<lparr>nrect := r, dirty := False\<rparr>"]
    contents_set_node_same [OF assms(1), of "n\<lparr>nrect := r, dirty := False\<rparr>"]
  by (simp_all add: set_rect_def) (simp_all add: node_Some)

text \<open>Placing one more node, whose parent has its place, disturbs no node that has one.\<close>

lemma placed_other:
  assumes "placed t x" "x \<noteq> i" "\<And>m. node t x = Some m \<Longrightarrow> nparent m \<noteq> Some i" "node t i = Some n"
  shows "placed (set_node t (n\<lparr>nrect := r, dirty := False\<rparr>)) x"
proof -
  have "node (set_node t (n\<lparr>nrect := r, dirty := False\<rparr>)) = (node t)(i \<mapsto> n\<lparr>nrect := r, dirty := False\<rparr>)"
    using node_set_node_at [of t i "n\<lparr>nrect := r, dirty := False\<rparr>"] assms(4) by (simp add: node_Some)
  then show ?thesis using assms by (auto simp: placed_def)
qed

lemma layout_node_ok:
  assumes t: "tree_inv t" "contents_ok t" "contents_f32 t" and ms: "sizes_ok ms"
    and n: "node t i = Some n" "nparent n = Some p" and p: "placed t p" and pi: "p \<noteq> i"
    and res: "layout_node ms i st t = Ret (Inr st', t')"
  shows "same_shape t t' \<and> contents t' = contents t \<and> placed t' i \<and> visited st' = sat_add (visited st) 1 \<and> iterations st' = iterations st
     \<and> (\<forall>x. x \<noteq> i \<and> placed t x \<and> (\<forall>m. node t x = Some m \<longrightarrow> nparent m \<noteq> Some i) \<longrightarrow> placed t' x)
     \<and> (\<forall>x. x \<noteq> i \<longrightarrow> node t' x = node t x)"
proof -
  from p obtain pn where pn: "node t p = Some pn" "rect_sane (nrect pn)" "f32_ok (rwidth (nrect pn))" "f32_ok (rheight (nrect pn))"
    by (auto simp: placed_def)
  have c: "content_sane (content n)" "content_sane (content pn)" using t(2) n(1) pn(1) by (auto simp: contents_ok_def)
  have f: "style_f32 (style (content n))" using t(3) n(1) by (auto simp: contents_f32_def contents_def)
  from res n pn obtain k r where
    r: "place (style (content pn)) (nrect pn) (style (content n)) (intrinsic_of ms i) (length (children pn)) k = Ret r"
    and s: "rect_sane r" and t': "t' = set_node t (n\<lparr>nrect := r, dirty := False\<rparr>)"
    and st': "visited st' = sat_add (visited st) 1" "iterations st' = iterations st"
    by (auto simp: layout_node_def set_rect_def run_bind_Ret_iff split: option.splits if_splits)
  have lp: "length_ok (rwidth (nrect pn))" "length_ok (rheight (nrect pn))"
    using pn by (simp_all add: length_ok_def rect_sane_def)
  have sane: "style_sane (style (content pn))" "style_sane (style (content n))" using c by (simp_all add: content_sane_def)
  note io = intrinsic_of_ok [OF ms, of i]
  have w: "within (rwidth r) (rwidth (nrect pn)) \<and> within (rheight r) (rheight (nrect pn))"
    using place_within [OF lp sane f _ _ r] io by blast
  note sr = set_rect_node [OF n(1) s]
  have "placed t' i"
    using w s n(2) pn(1) pi by (auto simp: placed_def t' sr(2) within_def)
  moreover have "placed t' x" if "x \<noteq> i" "placed t x" "\<forall>m. node t x = Some m \<longrightarrow> nparent m \<noteq> Some i" for x
    unfolding t' using placed_other [OF that(2,1) _ n(1)] that(3) by blast
  ultimately show ?thesis using sr st' by (auto simp: t')
qed

lemma layout_node_returns: "\<exists>r t'. layout_node ms i st t = Ret (r, t') \<and> same_shape t t' \<and> contents t' = contents t"
proof -
  have fin: "\<exists>r t'. run_bind (place ps pr s im k off) (\<lambda>r. case set_rect t i r of
        (Inl e, t') \<Rightarrow> Ret (Inl e, t') | (Inr _, t') \<Rightarrow> Ret (Inr st', t')) = Ret (r, t')
      \<and> same_shape t t' \<and> contents t' = contents t" if n: "node t i = Some n" for ps pr s im k off st' n
  proof -
    obtain r where "place ps pr s im k off = Ret r" using place_returns by blast
    then show ?thesis using set_rect_node [OF n, of r] by (cases "rect_sane r") (simp_all add: set_rect_def)
  qed
  show ?thesis by (auto simp: layout_node_def split: option.split intro!: fin)
qed

lemma layout_loop_ok:
  assumes "tree_inv t" "contents_ok t" "contents_f32 t" "sizes_ok ms"
    and "distinct is" "seen \<inter> set is = {}" "parents_first (links t) seen is" "\<forall>x\<in>seen. placed t x"
    and "\<forall>x\<in>seen. \<forall>n p. node t x = Some n \<and> nparent n = Some p \<longrightarrow> p \<in> seen"
    and "visited st \<le> usize_max"
  shows "\<exists>res t'. layout_loop ms is st t = Ret (res, t') \<and> same_shape t t' \<and> contents t' = contents t
     \<and> (\<forall>st'. res = Inr st' \<longrightarrow> (\<forall>x\<in>seen \<union> set is. placed t' x) \<and> visited st' = min (visited st + length is) usize_max
          \<and> iterations st' = iterations st \<and> (\<forall>x. x \<notin> set is \<longrightarrow> node t' x = node t x))"
  using assms
proof (induction "is" arbitrary: t st seen)
  case (Cons i "is")
  from Cons.prems(7) obtain p cs where p: "p \<in> seen" "links t i = Some (Some p, cs)"
    and pf: "parents_first (links t) (insert i seen) is" by auto
  then obtain n where n: "node t i = Some n" "nparent n = Some p" by (auto simp: links_Some)
  have i: "i \<notin> seen" "i \<notin> set is" using Cons.prems(5,6) by auto
  obtain r t1 where r: "layout_node ms i st t = Ret (r, t1)" "same_shape t t1" "contents t1 = contents t"
    using layout_node_returns by blast
  have keeps: "tree_inv t1" "contents_ok t1" "contents_f32 t1"
    using same_shape_inv [OF r(2)] r Cons.prems(1-3) text_too_long_config [of t1 t]
    by (simp_all add: contents_ok_iff contents_f32_def same_shape_def)
  show ?case
  proof (cases r)
    case (Inl e)
    then show ?thesis using r by simp
  next
    case (Inr st1)
    have pi: "p \<noteq> i" using p(1) i(1) by blast
    note one = layout_node_ok [OF Cons.prems(1-4) n _ pi r(1) [unfolded Inr]]
    have ln: "placed t1 i" "visited st1 = sat_add (visited st) 1" "iterations st1 = iterations st"
      "\<And>x. x \<noteq> i \<Longrightarrow> node t1 x = node t x"
      "\<And>x. x \<noteq> i \<Longrightarrow> placed t x \<Longrightarrow> (\<And>m. node t x = Some m \<Longrightarrow> nparent m \<noteq> Some i) \<Longrightarrow> placed t1 x"
      using one Cons.prems(8) p(1) by blast+
    have seen1: "\<forall>x\<in>insert i seen. placed t1 x"
    proof
      fix x assume x: "x \<in> insert i seen"
      show "placed t1 x"
      proof (cases "x = i")
        case False
        with x have "x \<in> seen" by simp
        moreover have "nparent m \<noteq> Some i" if "node t x = Some m" for m
          using Cons.prems(9) calculation that i(1) by blast
        ultimately show ?thesis using ln(5) [OF False] Cons.prems(8) by blast
      qed (use ln(1) in simp)
    qed
    have nd: "map_option nparent (node t1 x) = map_option nparent (node t x)" for x
      using r(2) by (auto simp: same_shape_def links_def fun_eq_iff) (metis (no_types, lifting) fst_conv map_option_cong option.map_comp option.simps(9))
    have up: "\<forall>x\<in>insert i seen. \<forall>n p. node t1 x = Some n \<and> nparent n = Some p \<longrightarrow> p \<in> insert i seen"
    proof (intro ballI allI impI)
      fix x m q assume x: "x \<in> insert i seen" and m: "node t1 x = Some m \<and> nparent m = Some q"
      then obtain m' where "node t x = Some m'" "nparent m' = Some q" using nd [of x] by (cases "node t x") auto
      then show "q \<in> insert i seen" using x n p(1) Cons.prems(9) by auto
    qed
    have pf1: "parents_first (links t1) (insert i seen) is" using pf r(2) by (simp add: same_shape_def)
    have v1: "visited st1 \<le> usize_max" using ln(2) by (simp add: sat_add_def)
    from Cons.IH [OF keeps Cons.prems(4) _ _ pf1 seen1 up v1] Cons.prems(5,6) i
    obtain res t2 where t2: "layout_loop ms is st1 t1 = Ret (res, t2)" "same_shape t1 t2" "contents t2 = contents t1"
      "\<And>st'. res = Inr st' \<Longrightarrow> (\<forall>x\<in>insert i seen \<union> set is. placed t2 x)
          \<and> visited st' = min (visited st1 + length is) usize_max \<and> iterations st' = iterations st1
          \<and> (\<forall>x. x \<notin> set is \<longrightarrow> node t2 x = node t1 x)" by auto
    have "layout_loop ms (i # is) st t = Ret (res, t2)" using r(1) Inr t2(1) by simp
    moreover have "same_shape t t2" using r(2) t2(2) by (rule same_shape_trans)
    moreover have "contents t2 = contents t" using t2(3) r(3) by simp
    moreover have "(\<forall>x\<in>seen \<union> set (i # is). placed t2 x) \<and> visited st' = min (visited st + length (i # is)) usize_max
          \<and> iterations st' = iterations st \<and> (\<forall>x. x \<notin> set (i # is) \<longrightarrow> node t2 x = node t x)" if "res = Inr st'" for st'
    proof -
      have "visited st' = min (visited st + length (i # is)) usize_max"
        using t2(4) [OF that] ln(2) by (auto simp: sat_add_def)
      then show ?thesis using t2(4) [OF that] ln(3,4) by auto
    qed
    ultimately show ?thesis by blast
  qed
qed simp

lemma layout_spec:
  assumes t: "tree_inv t" "contents_ok t" "contents_f32 t"
    and v: "f32_ok (rwidth viewport)" "f32_ok (rheight viewport)"
  shows "\<exists>res e' t' dg'. layout al e t viewport dg = Ret (res, e', t', dg')
     \<and> same_shape t t' \<and> contents t' = contents t
     \<and> (\<forall>st. res = Inr st \<longrightarrow> visited st = min (count t - 1) usize_max
        \<and> map_option nrect (node t' (root t)) = Some viewport
        \<and> (\<forall>i n. node t' i = Some n \<longrightarrow> rect_sane (nrect n) \<and> \<not> dirty n
           \<and> (\<forall>p pn. nparent n = Some p \<and> node t' p = Some pn \<longrightarrow>
                f32_le (rwidth (nrect n)) (rwidth (nrect pn)) \<and> f32_le (rheight (nrect n)) (rheight (nrect pn)))))"
proof (cases "\<exists>x e'. layout al e t viewport dg = Ret (Inl x, e', t, dg)")
  case True
  then show ?thesis by (auto simp: same_shape_def)
next
  case False
  note inv = t(1)
  have ok: "slots_ok t" and tr: "tree_links (links t) (root t)" using inv by (simp_all add: tree_inv_def)
  have al: "al 0" using False by (auto simp: layout_def preorder_def split: if_splits)
  from preorder_tree [OF inv, of al] al obtain rest where rest: "preorder al t = Ret (Inr (root t # rest))"
    "distinct (root t # rest)" "set (root t # rest) = {i. valid_slot t i}" "length (root t # rest) = count t"
    "parents_first (links t) {root t} rest" by blast
  obtain r ms where ms: "measure_loop (lconfig e) t (rev (root t # rest)) [] = (r, ms)" by force
  have sz: "sizes_ok ms"
    using measure_loop_ok [OF t(3), of "[]" "lconfig e" "rev (root t # rest)"] ms by (simp add: sizes_ok_def)
  have vs: "rect_sane viewport"
  proof (rule ccontr)
    assume "\<not> rect_sane viewport"
    then have "layout al e t viewport dg = Ret (Inl InvalidValue, e, t, dg)" by (simp add: layout_def)
    with False show False by blast
  qed
  from tree_linksD(3) [OF tr] obtain rn where rn: "node t (root t) = Some rn" by (auto simp: links_def)
  have top: "nparent rn = None" using tree_linksD(2) [OF tr, of "root t"] rn by (simp add: links_def)
  note sr = set_rect_node [OF rn vs]
  let ?t1 = "set_node t (rn\<lparr>nrect := viewport, dirty := False\<rparr>)" and ?st = "\<lparr>visited = 0, dirty_seen = 0, iterations = 1\<rparr>"
  have keeps: "tree_inv ?t1" "contents_ok ?t1" "contents_f32 ?t1"
    using same_shape_inv [OF sr(4)] sr(3) inv t text_too_long_config [of ?t1 t]
    by (simp_all add: contents_ok_iff contents_f32_def)
  have root1: "\<forall>x\<in>{root t}. placed ?t1 x" using vs v top sr(2) by (simp add: placed_def)
  have pf: "parents_first (links ?t1) {root t} rest" using rest(5) sr(4) by (simp add: same_shape_def)
  have up: "\<forall>x\<in>{root t}. \<forall>n p. node ?t1 x = Some n \<and> nparent n = Some p \<longrightarrow> p \<in> {root t}" using top sr(2) by simp
  from layout_loop_ok [OF keeps sz _ _ pf root1 up, of ?st] rest(2)
  obtain res t2 where t2: "layout_loop ms rest ?st ?t1 = Ret (res, t2)" "same_shape ?t1 t2" "contents t2 = contents ?t1"
    "\<And>st'. res = Inr st' \<Longrightarrow> (\<forall>x\<in>{root t} \<union> set rest. placed t2 x) \<and> visited st' = min (length rest) usize_max
        \<and> (\<forall>x. x \<notin> set rest \<longrightarrow> node t2 x = node ?t1 x)" by auto
  have shape: "same_shape t t2" using sr(4) t2(2) by (rule same_shape_trans)
  have good: "visited st = min (count t - 1) usize_max \<and> map_option nrect (node t2 (root t)) = Some viewport
      \<and> (\<forall>i n. node t2 i = Some n \<longrightarrow> rect_sane (nrect n) \<and> \<not> dirty n
           \<and> (\<forall>p pn. nparent n = Some p \<and> node t2 p = Some pn \<longrightarrow>
                f32_le (rwidth (nrect n)) (rwidth (nrect pn)) \<and> f32_le (rheight (nrect n)) (rheight (nrect pn))))"
    if rs: "res = Inr st" for st
  proof -
    have "rect_sane (nrect n) \<and> \<not> dirty n \<and> (\<forall>p pn. nparent n = Some p \<and> node t2 p = Some pn \<longrightarrow>
        f32_le (rwidth (nrect n)) (rwidth (nrect pn)) \<and> f32_le (rheight (nrect n)) (rheight (nrect pn)))"
      if n: "node t2 i = Some n" for i n
    proof -
      have "links t i \<noteq> None" using n shape links_None [of t2 i] by (simp add: same_shape_def)
      then have "valid_slot t i" using valid_slot_iff [OF ok] by (simp add: links_None)
      then have "i \<in> {root t} \<union> set rest" using rest(3) by auto
      with t2(4) [OF rs] have "placed t2 i" by blast
      then show ?thesis using n unfolding placed_def by (metis option.inject)
    qed
    moreover have "visited st = min (count t - 1) usize_max" using t2(4) [OF rs] rest(4) by auto
    moreover have "node t2 (root t) = node ?t1 (root t)" using t2(4) [OF rs] rest(2) by auto
    then have "map_option nrect (node t2 (root t)) = Some viewport" using sr(2) by simp
    ultimately show ?thesis by blast
  qed
  have "\<exists>res' e' dg'. layout al e t viewport dg = Ret (res', e', t2, dg') \<and> (\<forall>st. res' = Inr st \<longrightarrow> res = Inr st)"
    using False vs rest(1) ms sr(1) t2(1) by (cases res) (auto simp: layout_def Let_def split: sum.splits)
  then obtain res' e' dg' where L: "layout al e t viewport dg = Ret (res', e', t2, dg')" "\<And>st. res' = Inr st \<Longrightarrow> res = Inr st"
    by blast
  have "contents t2 = contents t" using t2(3) sr(3) by simp
  with shape L(1) show ?thesis using good [OF L(2)] by blast
qed

section \<open>Properties\<close>

text \<open>
  C23: The layout pass is total and its result is well-formed. On every reachable tree with sane
  contents it returns without a panic (no clamp has its bounds the wrong way round) and changes
  neither links nor contents. When it succeeds, every node is clean, has a finite rectangle of
  non-negative size, and is no wider and no higher than its parent; the root has the viewport.
\<close>

theorem layout_total_and_nested:
  assumes t: "tree_reachable t" "contents_ok t" "contents_f32 t"
    and v: "f32_ok (rwidth viewport)" "f32_ok (rheight viewport)"
  shows "\<exists>res e' t' dg'. layout al e t viewport dg = Ret (res, e', t', dg')
     \<and> links t' = links t \<and> contents t' = contents t
     \<and> (\<forall>st. res = Inr st \<longrightarrow> visited st = min (count t - 1) usize_max
        \<and> map_option nrect (node t' (root t)) = Some viewport
        \<and> (\<forall>i n. node t' i = Some n \<longrightarrow> rect_sane (nrect n) \<and> \<not> dirty n
           \<and> (\<forall>p pn. nparent n = Some p \<and> node t' p = Some pn \<longrightarrow>
                f32_le (rwidth (nrect n)) (rwidth (nrect pn)) \<and> f32_le (rheight (nrect n)) (rheight (nrect pn)))))"
proof -
  obtain res e' t' dg' where L: "layout al e t viewport dg = Ret (res, e', t', dg')" "same_shape t t'" "contents t' = contents t"
    "\<forall>st. res = Inr st \<longrightarrow> visited st = min (count t - 1) usize_max
        \<and> map_option nrect (node t' (root t)) = Some viewport
        \<and> (\<forall>i n. node t' i = Some n \<longrightarrow> rect_sane (nrect n) \<and> \<not> dirty n
           \<and> (\<forall>p pn. nparent n = Some p \<and> node t' p = Some pn \<longrightarrow>
                f32_le (rwidth (nrect n)) (rwidth (nrect pn)) \<and> f32_le (rheight (nrect n)) (rheight (nrect pn))))"
    using layout_spec [OF tree_reachable_inv [OF t(1)] t(2,3) v, of al e dg] by blast
  have "links t' = links t" using L(2) by (simp add: same_shape_def)
  with L show ?thesis by blast
qed

lemma f32_max_value_ok: "f32_ok f32_max_value"
proof -
  have "excess_bits (16777215 * 2 ^ 253) = 253" by (rule excess_bits_unique) simp_all
  then show ?thesis by (simp add: f32_ok_def f32_max_value_def magnitude_ok_def)
qed

lemma content_new_f32: "style_f32 (style (content_new k))"
  by (simp add: content_new_def style_default_def style_f32_def edges_f32_def edges_all_def f32_max_value_ok)

theorem layout_total_and_nested_witness:
  "\<exists>res e' t' dg'. layout (\<lambda>_. True) \<lparr>lconfig = ui_config_default, order = [], intrinsic = []\<rparr> sample_pair sample_rect
      \<lparr>dirty_nodes = 0, layout_passes = 0, d_paint_items = 0, d_batches = 0, d_glyphs = 0, uploaded_bytes = 0, clipped_items = 0,
       overflow_fallbacks = 0\<rparr> = Ret (res, e', t', dg') \<and> links t' = links sample_pair"
proof -
  have "contents_f32 sample_pair"
    unfolding contents_f32_def
  proof (intro allI impI)
    fix i c assume "contents sample_pair i = Some c"
    then have "c = content_new Root \<or> c = content_new Panel"
      by (auto simp: contents_def sample_defs tree_eval less_Suc_eq split: if_splits)
    then show "style_f32 (style c)" using content_new_f32 by blast
  qed
  moreover have "f32_ok (rwidth sample_rect)" "f32_ok (rheight sample_rect)"
    by (simp_all add: sample_rect_def f32_ok_def magnitude_ok_def excess_bits.simps)
  ultimately show ?thesis
    using layout_total_and_nested [OF sample_pair_reachable sample_pair_ok(2)] by blast
qed

end
