(* ===== verification/Messages.thy ===== *)
theory Messages
  imports Context Input Ui_Frame Ui_Layout
begin

text \<open>
  \<open>src/src/subsystems/messages.rs\<close>: the payloads the engine's own drivers exchange. A payload is a value of one
  datatype, and \<open>downcast\<close> is a match on its constructor. Below are the send that every driver uses (resolve a name,
  publish, ignore the outcome) and what a driver needs of the routing edges for it.
\<close>

record ui_asset_ready =
  asset_kind :: u8
  asset_index :: u32
  asset_generation :: u32
  asset_state :: u8

datatype message =
    WindowResized u32 u32
  | UiAssetReady ui_asset_ready
  | UiCommandMessage ui_command
  | InputEventMessage input_event
  | InputFrame input_frame
  | UiFrame ui_frame_packet

definition send_to :: "call_env \<Rightarrow> string \<Rightarrow> u16 \<Rightarrow> 'p \<Rightarrow> ('p, 'v) kctx \<Rightarrow> ('p, 'v) kctx run" where
  "send_to env n t p c =
     (case ctx_resolve env n of
        None \<Rightarrow> Ret c
      | Some to \<Rightarrow> run_bind (ctx_publish env c to t p) (\<lambda>(_, c'). Ret c'))"

definition edge_allows :: "bool list list \<Rightarrow> u32 \<Rightarrow> u32 \<Rightarrow> bool" where
  "edge_allows m sender receiver \<longleftrightarrow>
     sender = receiver
     \<or> (case Option.bind (vec_get m (unat receiver)) (\<lambda>row. vec_get row (unat sender)) of None \<Rightarrow> False | Some ok \<Rightarrow> ok)"

text \<open>The sends to the named drivers are declared, which only a debug build checks.\<close>

definition may_reach :: "string list \<Rightarrow> call_env \<Rightarrow> bool list list \<Rightarrow> bool" where
  "may_reach ns env m \<longleftrightarrow>
     \<not> debug_build env \<or> list_all (\<lambda>n. case ctx_resolve env n of None \<Rightarrow> True | Some to \<Rightarrow> edge_allows m (self_id env) to) ns"

lemma routing_ok_edge: "routing_ok b s r \<longleftrightarrow> edge_allows (edges b) s r"
  by (simp add: routing_ok_def edge_allows_def)

lemma send_to_spec:
  assumes "ctx_inv c" "may_reach ns env (edges (kbus c))" "n \<in> set ns"
  shows "\<exists>c'. send_to env n t p c = Ret c' \<and> ctx_inv c' \<and> edges (kbus c') = edges (kbus c) \<and> kworld c' = kworld c
     \<and> mailboxes (kbus c') = (case ctx_resolve env n of
          None \<Rightarrow> mailboxes (kbus c)
        | Some to \<Rightarrow> snd (publish_result (mailboxes (kbus c))
            \<lparr>env_from = self_id env, env_to = to, topic = t, seq = bus_next_seq (kbus c), payload = p\<rparr>))"
proof (cases "ctx_resolve env n")
  case None
  then show ?thesis using assms(1) by (simp add: send_to_def)
next
  case (Some to)
  have "may_send env c to"
    using assms(2,3) Some by (auto simp: may_reach_def may_send_def routing_ok_edge list_all_iff split: option.splits)
  from ctx_publish_spec [OF assms(1) this, of t p] obtain r c' where
    "ctx_publish env c to t p = Ret (r, c')" "ctx_inv c'" "edges (kbus c') = edges (kbus c)" "kworld c' = kworld c"
    "(r, mailboxes (kbus c')) = publish_result (mailboxes (kbus c))
       \<lparr>env_from = self_id env, env_to = to, topic = t, seq = bus_next_seq (kbus c), payload = p\<rparr>" by metis
  then show ?thesis using Some by (simp add: send_to_def) (metis snd_conv)
qed

text \<open>Several sends in a row.\<close>

lemma send_all:
  assumes "ctx_inv c" "may_reach ns env (edges (kbus c))" "set ms \<subseteq> set ns"
  shows "\<exists>c'. run_fold (\<lambda>n. send_to env n t p) ms c = Ret c' \<and> ctx_inv c' \<and> edges (kbus c') = edges (kbus c) \<and> kworld c' = kworld c"
  using assms
proof (induction ms arbitrary: c)
  case (Cons n ms)
  obtain c1 where "send_to env n t p c = Ret c1" "ctx_inv c1" "edges (kbus c1) = edges (kbus c)" "kworld c1 = kworld c"
    using send_to_spec [OF Cons.prems(1,2), of n t p] Cons.prems(3) by auto
  then show ?case using Cons.IH [of c1] Cons.prems by auto
qed simp

text \<open>A kernel context with two empty inboxes, as the kernel builds it for two subsystems.\<close>

definition two_box_ctx :: "(message, nat) kctx" where
  "two_box_ctx =
     \<lparr>kbus = \<lparr>outbox = \<lparr>rbuf = replicate 32 None, rmask = 31, rhead = 0, rtail = 0, rlock = 0\<rparr>,
              inboxes = replicate 2 \<lparr>rbuf = replicate 64 None, rmask = 63, rhead = 0, rtail = 0\<rparr>,
              edges = [], bus_next_seq = 0, undeclared_sends = 0\<rparr>,
      kworld = world_new, kdeferred = \<lparr>deferred_commands.commands = [], dc_capacity = 4096\<rparr>, karena = arena_new 0 1024\<rparr>"

lemma two_box_inv: "ctx_inv two_box_ctx" "mailboxes (kbus two_box_ctx) = [[], []]"
proof -
  have o: "ring_shape \<lparr>rbuf = replicate 32 (None :: message envelope option), rmask = 31, rhead = 0, rtail = 0, rlock = 0\<rparr>"
    by (auto simp: ring_shape_def intro!: exI [of _ 5])
  have i: "ring_shape \<lparr>rbuf = replicate 64 (None :: message envelope option), rmask = 63, rhead = 0, rtail = 0\<rparr>"
    by (auto simp: ring_shape_def intro!: exI [of _ 6])
  have "bus_inv (kbus two_box_ctx)"
    using o i by (auto simp: bus_inv_def mpsc_inv_def ring_inv_def ring_cap_def default_inbox_capacity_def two_box_ctx_def)
  then show "ctx_inv two_box_ctx"
    by (simp add: ctx_inv_def two_box_ctx_def ring_items_def deferred_inv_def arena_inv_new)
qed (simp add: two_box_ctx_def mailboxes_def ring_items_def numeral_2_eq_2)

end
