(* ===== verification/Scripting.thy ===== *)
theory Scripting
  imports Prelude
begin

text \<open>
  \<open>src/src/subsystems/scripting.rs\<close>: the bounded stack machine. Values are 64-bit signed integers with
  saturating arithmetic; the stack is a vector whose last element is the top. A run is bounded by the
  instruction budget and every failure is recorded. The machine is compared with the evaluation of
  arithmetic expressions through their postfix code.
\<close>

datatype instruction = Push i64 | Add | Sub | Mul | Halt

datatype script_error = StackOverflow | StackUnderflow | InstructionBudgetExceeded | ScriptAllocationFailed

record vm =
  program :: "instruction list"
  program_capacity :: nat
  stack :: "i64 list"
  stack_capacity :: nat
  instruction_budget :: nat
  pc :: nat
  halted :: bool
  last_error :: "script_error option"

text \<open>The capacities are those the two reservations asked for; an allocator may grant more, and then they
  are what it granted.\<close>

definition vm_try_with_capacity :: "alloc \<Rightarrow> nat \<Rightarrow> nat \<Rightarrow> nat \<Rightarrow> script_error + vm" where
  "vm_try_with_capacity al pcap scap budget =
     (if \<not> al 0 then Inl ScriptAllocationFailed
      else if \<not> al 1 then Inl ScriptAllocationFailed
      else Inr \<lparr>program = [], program_capacity = pcap, stack = [], stack_capacity = scap,
                instruction_budget = budget, pc = 0, halted = False, last_error = None\<rparr>)"

definition vm_load :: "instruction list \<Rightarrow> vm \<Rightarrow> bool \<times> vm" where
  "vm_load p m =
     (if length p > program_capacity m then (False, m)
      else (True, m\<lparr>program := p, stack := [], pc := 0, halted := False, last_error := None\<rparr>))"

fun arith :: "instruction \<Rightarrow> i64 \<Rightarrow> i64 \<Rightarrow> i64 option" where
  "arith Add lhs rhs = Some (sat_add_i64 lhs rhs)"
| "arith Sub lhs rhs = Some (sat_sub_i64 lhs rhs)"
| "arith Mul lhs rhs = Some (sat_mul_i64 lhs rhs)"
| "arith i lhs rhs = None"

text \<open>One instruction after it was fetched: the new machine, and whether the loop goes on.\<close>

fun exec_instruction :: "instruction \<Rightarrow> vm \<Rightarrow> bool \<times> vm" where
  "exec_instruction (Push v) m =
     (if length (stack m) = stack_capacity m then (False, m\<lparr>last_error := Some StackOverflow\<rparr>)
      else (True, m\<lparr>stack := stack m @ [v]\<rparr>))"
| "exec_instruction Halt m = (True, m\<lparr>halted := True\<rparr>)"
| "exec_instruction i m =
     (case vec_pop (stack m) of
        None \<Rightarrow> (False, m\<lparr>last_error := Some StackUnderflow\<rparr>)
      | Some (rhs, s1) \<Rightarrow>
          (case vec_pop s1 of
             None \<Rightarrow> (False, m\<lparr>stack := s1, last_error := Some StackUnderflow\<rparr>)
           | Some (lhs, s2) \<Rightarrow>
               (case arith i lhs rhs of
                  None \<Rightarrow> (False, m)
                | Some v \<Rightarrow> (True, m\<lparr>stack := s2 @ [v]\<rparr>))))"

text \<open>The loop of \<open>execute\<close>; the argument is what is left of the budget.\<close>

fun execute_loop :: "nat \<Rightarrow> vm \<Rightarrow> vm" where
  "execute_loop left m =
     (if \<not> halted m \<and> pc m < length (program m)
      then (case left of
              0 \<Rightarrow> m\<lparr>last_error := Some InstructionBudgetExceeded\<rparr>
            | Suc left' \<Rightarrow>
                (case exec_instruction (program m ! pc m) (m\<lparr>pc := pc m + 1\<rparr>) of
                   (True, m') \<Rightarrow> execute_loop left' m'
                 | (False, m') \<Rightarrow> m'))
      else m)"

declare execute_loop.simps [simp del]

definition execute :: "vm \<Rightarrow> vm" where
  "execute m = execute_loop (instruction_budget m) m"

definition script_tick :: "vm \<Rightarrow> vm" where
  "script_tick m = (if \<not> halted m \<and> last_error m = None then execute m else m)"

section \<open>The machine stays within its bounds\<close>

definition vm_ok :: "vm \<Rightarrow> bool" where
  "vm_ok m \<longleftrightarrow> length (program m) \<le> program_capacity m \<and> length (stack m) \<le> stack_capacity m \<and> pc m \<le> length (program m)"

definition same_limits :: "vm \<Rightarrow> vm \<Rightarrow> bool" where
  "same_limits m m' \<longleftrightarrow> program m' = program m \<and> program_capacity m' = program_capacity m
     \<and> stack_capacity m' = stack_capacity m \<and> instruction_budget m' = instruction_budget m"

lemma exec_instruction_ok:
  assumes "exec_instruction i m = (b, m')"
  shows "same_limits m m' \<and> pc m' = pc m \<and> (length (stack m) \<le> stack_capacity m \<longrightarrow> length (stack m') \<le> stack_capacity m')
     \<and> (b \<longrightarrow> last_error m' = last_error m) \<and> (\<not> b \<longrightarrow> last_error m' \<in> {Some StackOverflow, Some StackUnderflow})"
  using assms by (cases i) (auto simp: same_limits_def vec_pop_Some split: if_splits option.splits)

lemma execute_loop_ok:
  assumes "vm_ok m"
  shows "vm_ok (execute_loop left m) \<and> same_limits m (execute_loop left m)
     \<and> pc m \<le> pc (execute_loop left m) \<and> pc (execute_loop left m) \<le> pc m + left"
  using assms
proof (induction left m rule: execute_loop.induct)
  case (1 left m)
  show ?case
  proof (cases "\<not> halted m \<and> pc m < length (program m)")
    case go: True
    show ?thesis
    proof (cases left)
      case 0
      then show ?thesis using "1.prems" go by (simp add: execute_loop.simps [of 0] vm_ok_def same_limits_def)
    next
      case (Suc k)
      let ?m1 = "m\<lparr>pc := pc m + 1\<rparr>"
      obtain b m' where e: "exec_instruction (program m ! pc m) ?m1 = (b, m')" by force
      have ok: "same_limits m m'" "pc m' = pc m + 1" "vm_ok m'"
        using exec_instruction_ok [OF e] "1.prems" go by (auto simp: vm_ok_def same_limits_def)
      show ?thesis
      proof (cases b)
        case True
        then show ?thesis
          using "1.IH" [OF go Suc e [symmetric], of] ok Suc go e
          by (auto simp: execute_loop.simps [of "Suc k" m] same_limits_def)
      next
        case False
        then show ?thesis using ok Suc go e by (simp add: execute_loop.simps [of "Suc k" m])
      qed
    qed
  next
    case False
    then have "execute_loop left m = m" by (auto simp: execute_loop.simps [of left m])
    then show ?thesis using "1.prems" by (simp add: same_limits_def)
  qed
qed

inductive vm_reachable :: "vm \<Rightarrow> bool" where
  new: "vm_try_with_capacity al pcap scap budget = Inr m \<Longrightarrow> vm_reachable m"
| load: "vm_reachable m \<Longrightarrow> vm_load p m = (b, m') \<Longrightarrow> vm_reachable m'"
| tick: "vm_reachable m \<Longrightarrow> vm_reachable (script_tick m)"

lemma reachable_vm_ok: "vm_reachable m \<Longrightarrow> vm_ok m"
proof (induction rule: vm_reachable.induct)
  case (new al pcap scap budget m)
  then show ?case by (auto simp: vm_try_with_capacity_def vm_ok_def split: if_splits)
next
  case (load m p b m')
  then show ?case by (auto simp: vm_load_def vm_ok_def split: if_splits)
next
  case (tick m)
  then show ?case using execute_loop_ok [of m "instruction_budget m"] by (simp add: script_tick_def execute_def)
qed

section \<open>Expressions\<close>

datatype expr = Const i64 | Bin instruction expr expr

fun eval :: "expr \<Rightarrow> i64 option" where
  "eval (Const v) = Some v"
| "eval (Bin i a b) = Option.bind (eval a) (\<lambda>x. Option.bind (eval b) (\<lambda>y. arith i x y))"

fun compile :: "expr \<Rightarrow> instruction list" where
  "compile (Const v) = [Push v]"
| "compile (Bin i a b) = compile a @ compile b @ [i]"

text \<open>The stack slots an expression needs.\<close>

fun need :: "expr \<Rightarrow> nat" where
  "need (Const v) = 1"
| "need (Bin i a b) = max (need a) (1 + need b)"

lemma need_pos: "0 < need e"
  by (induction e) auto

lemma compile_pos: "0 < length (compile e)"
  by (cases e) auto

lemma execute_loop_step:
  assumes "\<not> halted m" "pc m < length (program m)" "exec_instruction (program m ! pc m) (m\<lparr>pc := pc m + 1\<rparr>) = (True, m')"
  shows "execute_loop (Suc left) m = execute_loop left m'"
  using assms by (simp add: execute_loop.simps [of "Suc left"])

lemma exec_arith:
  "arith i x y = Some v \<Longrightarrow> stack m = s @ [x, y] \<Longrightarrow> exec_instruction i m = (True, m\<lparr>stack := s @ [v]\<rparr>)"
  by (cases i) (auto simp: vec_pop_def butlast_append)

text \<open>The code of an expression, anywhere in a program, pushes its value.\<close>

lemma compiled_runs:
  assumes "eval e = Some v" "program m = before @ compile e @ rest" "pc m = length before" "\<not> halted m"
    and "length (stack m) + need e \<le> stack_capacity m"
  shows "execute_loop (length (compile e) + left) m =
     execute_loop left (m\<lparr>stack := stack m @ [v], pc := pc m + length (compile e)\<rparr>)"
  using assms
proof (induction e arbitrary: v m before rest left)
  case (Const x)
  then show ?case
    using execute_loop_step [of m "m\<lparr>stack := stack m @ [v], pc := pc m + 1\<rparr>" left] by (simp add: nth_append)
next
  case (Bin i a b)
  obtain x y where xy: "eval a = Some x" "eval b = Some y" "arith i x y = Some v"
    using Bin.prems(1) by (auto simp: bind_eq_Some_conv)
  let ?la = "length (compile a)" and ?lb = "length (compile b)"
  let ?m1 = "m\<lparr>stack := stack m @ [x], pc := pc m + ?la\<rparr>"
  let ?m2 = "m\<lparr>stack := stack m @ [x, y], pc := pc m + ?la + ?lb\<rparr>"
  have "execute_loop (?la + (?lb + Suc left)) m = execute_loop (?lb + Suc left) ?m1"
    using Bin.prems xy(1) by (intro Bin.IH(1) [of x m before "compile b @ i # rest"]) auto
  also have "\<dots> = execute_loop (Suc left) (?m1\<lparr>stack := stack ?m1 @ [y], pc := pc ?m1 + ?lb\<rparr>)"
    using Bin.prems xy(2) by (intro Bin.IH(2) [of y ?m1 "before @ compile a" "i # rest"]) auto
  also have "\<dots> = execute_loop (Suc left) ?m2" by (simp add: add.assoc)
  also have "\<dots> = execute_loop left (m\<lparr>stack := stack m @ [v], pc := pc m + ?la + ?lb + 1\<rparr>)"
  proof (rule execute_loop_step)
    have "program m = (before @ compile a @ compile b) @ i # rest" using Bin.prems(2) by simp
    then have "program m ! (length before + ?la + ?lb) = i"
      using nth_append_length [of "before @ compile a @ compile b" i rest] by (simp add: add.assoc)
    then show "exec_instruction (program ?m2 ! pc ?m2) (?m2\<lparr>pc := pc ?m2 + 1\<rparr>) =
        (True, m\<lparr>stack := stack m @ [v], pc := pc m + ?la + ?lb + 1\<rparr>)"
      using Bin.prems(3) exec_arith [OF xy(3), of "?m2\<lparr>pc := pc ?m2 + 1\<rparr>" "stack m"] by simp
  qed (use Bin.prems in auto)
  finally show ?case by (simp add: ac_simps)
qed

section \<open>Properties\<close>

text \<open>C27: A machine that was made and then loaded and ticked in any way never leaves its bounds: the program and
  the stack stay within the capacities they were made with (so running a script never allocates), the program
  counter never passes the end of the program, and one tick executes at most as many instructions as its budget.\<close>

theorem script_vm_bounded:
  assumes "vm_reachable m"
  shows "length (program m) \<le> program_capacity m \<and> length (stack m) \<le> stack_capacity m \<and> pc m \<le> length (program m)
     \<and> program (script_tick m) = program m \<and> pc (script_tick m) \<le> pc m + instruction_budget m"
  using reachable_vm_ok [OF assms] execute_loop_ok [of m "instruction_budget m"]
  by (auto simp: vm_ok_def same_limits_def script_tick_def execute_def)

theorem script_vm_bounded_witness:
  "pc (script_tick (snd (vm_load [Push 6, Push 7, Mul] \<lparr>program = [], program_capacity = 4, stack = [], stack_capacity = 4,
      instruction_budget = 2, pc = 0, halted = False, last_error = None\<rparr>))) \<le> 2"
proof -
  let ?m0 = "\<lparr>program = [], program_capacity = 4, stack = [], stack_capacity = 4,
      instruction_budget = 2, pc = 0, halted = False, last_error = None\<rparr>"
  have "vm_try_with_capacity (\<lambda>_. True) 4 4 2 = Inr ?m0" by (simp add: vm_try_with_capacity_def)
  then have "vm_reachable ?m0" by (rule vm_reachable.new)
  moreover have "vm_load [Push 6, Push 7, Mul] ?m0 = (True, snd (vm_load [Push 6, Push 7, Mul] ?m0))" by (simp add: vm_load_def)
  ultimately have "vm_reachable (snd (vm_load [Push 6, Push 7, Mul] ?m0))" by (rule vm_reachable.load)
  from script_vm_bounded [OF this] show ?thesis by (simp add: vm_load_def)
qed

text \<open>C28: The machine computes what a program means. Loading the postfix code of an arithmetic expression followed by
  \<open>Halt\<close> into a machine with enough program space, stack and budget, and ticking it once, halts it without error
  with exactly the saturating value of the expression on the stack; further ticks change nothing.\<close>

theorem compiled_expression_evaluates:
  assumes "eval e = Some v" "length (compile e) + 1 \<le> program_capacity m" "need e \<le> stack_capacity m"
    and "length (compile e) + 1 \<le> instruction_budget m"
  shows "\<exists>m1. vm_load (compile e @ [Halt]) m = (True, m1) \<and> stack (script_tick m1) = [v] \<and> halted (script_tick m1)
     \<and> last_error (script_tick m1) = None \<and> script_tick (script_tick m1) = script_tick m1"
proof -
  let ?m1 = "m\<lparr>program := compile e @ [Halt], stack := [], pc := 0, halted := False, last_error := None\<rparr>"
  let ?n = "length (compile e)"
  have ld: "vm_load (compile e @ [Halt]) m = (True, ?m1)" using assms(2) by (simp add: vm_load_def)
  obtain left where b: "instruction_budget m = ?n + Suc left" using assms(4) by (metis add.assoc add.commute le_Suc_ex plus_1_eq_Suc)
  have "execute ?m1 = execute_loop (?n + Suc left) ?m1" by (simp add: execute_def b)
  also have "\<dots> = execute_loop (Suc left) (?m1\<lparr>stack := [v], pc := ?n\<rparr>)"
    using compiled_runs [of e v ?m1 "[]" "[Halt]" "Suc left"] assms by simp
  also have "\<dots> = ?m1\<lparr>stack := [v], pc := ?n + 1, halted := True\<rparr>"
    by (simp add: execute_loop.simps)
  finally have "script_tick ?m1 = ?m1\<lparr>stack := [v], pc := ?n + 1, halted := True\<rparr>" by (simp add: script_tick_def)
  then show ?thesis using ld by (auto simp: script_tick_def)
qed

theorem compiled_expression_evaluates_witness:
  "\<exists>m1. vm_load (compile (Bin Mul (Const 6) (Const 7)) @ [Halt])
        \<lparr>program = [], program_capacity = 4, stack = [], stack_capacity = 2, instruction_budget = 4, pc = 0, halted = False,
         last_error = None\<rparr> = (True, m1) \<and> stack (script_tick m1) = [sat_mul_i64 6 7]"
  using compiled_expression_evaluates [of "Bin Mul (Const 6) (Const 7)" "sat_mul_i64 6 7" "\<lparr>program = [], program_capacity = 4, stack = [], stack_capacity = 2, instruction_budget = 4, pc = 0,
     halted = False, last_error = None\<rparr>"]
  by auto

end
