(* ===== verification/Sim_Drivers.thy ===== *)
theory Sim_Drivers
  imports Messages Scripting
begin

text \<open>
  The small drivers: \<open>src/src/subsystems/window.rs\<close>, \<open>physics.rs\<close>, \<open>audio.rs\<close>, and the
  callbacks of \<open>input.rs\<close> and \<open>scripting.rs\<close>. Each of them is shown to satisfy the driver contract of the
  kernel context, in debug builds too when its sends are declared.
\<close>

section \<open>Window\<close>

datatype window_event = Resized "u32 \<times> u32" | CloseRequested | Focused bool

record headless_window =
  win_id :: u32
  win_size :: "u32 \<times> u32"
  win_open :: bool
  win_focused :: bool
  win_events :: "window_event list"

record window_subsystem =
  win :: headless_window
  frame_events :: "window_event list"

definition window_size_new :: "u32 \<Rightarrow> u32 \<Rightarrow> (u32 \<times> u32) option" where
  "window_size_new w h = (if w = 0 \<or> h = 0 then None else Some (w, h))"

definition headless_window_new :: "u32 \<Rightarrow> u32 \<times> u32 \<Rightarrow> headless_window" where
  "headless_window_new i s = \<lparr>win_id = i, win_size = s, win_open = True, win_focused = True, win_events = []\<rparr>"

definition apply_window_event :: "window_event \<Rightarrow> headless_window \<Rightarrow> headless_window" where
  "apply_window_event e w =
     (case e of
        Resized s \<Rightarrow> w\<lparr>win_size := s\<rparr>
      | CloseRequested \<Rightarrow> w\<lparr>win_open := False\<rparr>
      | Focused f \<Rightarrow> w\<lparr>win_focused := f\<rparr>)"

definition try_push_event :: "bool \<Rightarrow> window_event \<Rightarrow> headless_window \<Rightarrow> headless_window option" where
  "try_push_event ok e w =
     (if ok then Some ((apply_window_event e w)\<lparr>win_events := win_events w @ [e]\<rparr>) else None)"

definition drain_events :: "headless_window \<Rightarrow> window_event list \<times> headless_window" where
  "drain_events w = (win_events w, w\<lparr>win_events := []\<rparr>)"

definition window_try_new :: "alloc \<Rightarrow> u32 \<Rightarrow> u32 \<times> u32 \<Rightarrow> window_subsystem option" where
  "window_try_new al i s = (if al 0 then Some \<lparr>win = headless_window_new i s, frame_events = []\<rparr> else None)"

definition window_tick :: "(window_subsystem, message, 'v) callback" where
  "window_tick env st c =
     (let (es, w) = drain_events (win st); st1 = st\<lparr>win := w, frame_events := es\<rparr>
      in if list_ex (\<lambda>e. case e of Resized _ \<Rightarrow> True | _ \<Rightarrow> False) es
         then run_bind (send_to env ''renderer'' 1 (WindowResized (fst (win_size w)) (snd (win_size w))) c) (\<lambda>c'. Ret (st1, c'))
         else Ret (st1, c))"

text \<open>A callback with an empty body.\<close>

definition idle :: "('s, 'p, 'v) callback" where
  "idle env st c = Ret (st, c)"

section \<open>Physics\<close>

record body =
  body_position :: "i64 \<times> i64"
  body_velocity :: "i64 \<times> i64"

record physics =
  bodies :: "body list"
  bodies_capacity :: nat
  last_input :: "input_frame option"

definition physics_try_with_capacity :: "alloc \<Rightarrow> nat \<Rightarrow> physics option" where
  "physics_try_with_capacity al n =
     (if al 0 then Some \<lparr>bodies = [], bodies_capacity = n, last_input = None\<rparr> else None)"

definition add_body :: "body \<Rightarrow> physics \<Rightarrow> nat option \<times> physics" where
  "add_body b p =
     (if length (bodies p) = bodies_capacity p then (None, p)
      else (Some (length (bodies p)), p\<lparr>bodies := bodies p @ [b]\<rparr>))"

text \<open>Division of signed integers truncates towards zero.\<close>

definition i64_div :: "i64 \<Rightarrow> int \<Rightarrow> i64" where
  "i64_div a d = word_of_int (sgn (sint a) * (\<bar>sint a\<bar> div d))"

definition nanos_per_second :: int where
  "nanos_per_second = 1000000000"

definition step_axis :: "i64 \<Rightarrow> i64 \<Rightarrow> i64 \<Rightarrow> i64" where
  "step_axis dt x v = sat_add_i64 x (i64_div (sat_mul_i64 v dt) nanos_per_second)"

definition clamp_dt :: "u64 \<Rightarrow> i64" where
  "clamp_dt dt = (if unat dt < 2 ^ 63 then dt else 2 ^ 63 - 1)"

definition integrate_body :: "i64 \<Rightarrow> body \<Rightarrow> body" where
  "integrate_body dt b =
     b\<lparr>body_position := (step_axis dt (fst (body_position b)) (fst (body_velocity b)), step_axis dt (snd (body_position b)) (snd (body_velocity b)))\<rparr>"

definition integrate :: "u64 \<Rightarrow> physics \<Rightarrow> physics" where
  "integrate dt p = p\<lparr>bodies := map (integrate_body (clamp_dt dt)) (bodies p)\<rparr>"

definition physics_receive :: "message envelope \<Rightarrow> physics \<Rightarrow> physics" where
  "physics_receive m p =
     (if topic m = 2 then (case payload m of InputFrame f \<Rightarrow> p\<lparr>last_input := Some f\<rparr> | _ \<Rightarrow> p) else p)"

definition physics_tick :: "(physics, message, 'v) callback" where
  "physics_tick env p c =
     run_bind (ctx_receive env c) (\<lambda>(ms, c'). Ret (integrate (dt_ns env) (fold physics_receive ms p), c'))"

section \<open>Audio\<close>

record voice =
  phase :: u64
  phase_step :: u64
  gain_milli :: u16
  active :: bool

record audio =
  voices :: "voice list"
  voices_capacity :: nat

definition audio_try_with_capacity :: "alloc \<Rightarrow> nat \<Rightarrow> audio option" where
  "audio_try_with_capacity al n = (if al 0 then Some \<lparr>voices = [], voices_capacity = n\<rparr> else None)"

definition add_voice :: "u64 \<Rightarrow> u16 \<Rightarrow> audio \<Rightarrow> nat option \<times> audio" where
  "add_voice st g a =
     (if length (voices a) = voices_capacity a then (None, a)
      else (Some (length (voices a)), a\<lparr>voices := voices a @ [\<lparr>phase = 0, phase_step = st, gain_milli = g, active = True\<rparr>]\<rparr>))"

definition stop_voice :: "nat \<Rightarrow> audio \<Rightarrow> bool \<times> audio" where
  "stop_voice i a =
     (if i < length (voices a) then (True, a\<lparr>voices := (voices a)[i := (voices a ! i)\<lparr>active := False\<rparr>]\<rparr>) else (False, a))"

definition sat_mul_u64 :: "u64 \<Rightarrow> u64 \<Rightarrow> u64" where
  "sat_mul_u64 a b = (if unat a * unat b < 2 ^ 64 then a * b else - 1)"

definition advance_voice :: "u64 \<Rightarrow> voice \<Rightarrow> voice" where
  "advance_voice dt v = (if active v then v\<lparr>phase := phase v + sat_mul_u64 (phase_step v) dt\<rparr> else v)"

definition audio_advance :: "u64 \<Rightarrow> audio \<Rightarrow> audio" where
  "audio_advance dt a = a\<lparr>voices := map (advance_voice dt) (voices a)\<rparr>"

definition audio_tick :: "(audio, 'p, 'v) callback" where
  "audio_tick env a c = Ret (audio_advance (dt_ns env) a, c)"

section \<open>Input and scripting callbacks\<close>

text \<open>\<open>oks k\<close> answers the reservation for the \<open>k\<close>-th event of the inbox; a failed push drops the event.\<close>

fun push_inputs :: "alloc \<Rightarrow> nat \<Rightarrow> message envelope list \<Rightarrow> headless_input \<Rightarrow> headless_input" where
  "push_inputs oks k [] h = h"
| "push_inputs oks k (m # ms) h =
     push_inputs oks (Suc k) ms
       (if topic m = 4
        then (case payload m of
                InputEventMessage e \<Rightarrow> (case input_try_push (oks k) e h of Some h' \<Rightarrow> h' | None \<Rightarrow> h)
              | _ \<Rightarrow> h)
        else h)"

definition input_receivers :: "string list" where
  "input_receivers = [''ui'', ''physics'', ''sudoku-game'', ''rubik-driver'']"

definition input_tick :: "alloc \<Rightarrow> alloc \<Rightarrow> (input_subsystem, message, 'v) callback" where
  "input_tick oks al env st c =
     run_bind (ctx_receive env c) (\<lambda>(ms, c1).
       run_bind (input_step al (st\<lparr>inp := push_inputs oks 0 ms (inp st)\<rparr>)) (\<lambda>(f, st').
         run_bind (run_fold (\<lambda>n. send_to env n 2 (InputFrame f)) input_receivers c1) (\<lambda>c2. Ret (st', c2))))"

definition scripting_tick :: "(vm, 'p, 'v) callback" where
  "scripting_tick env m c = Ret (script_tick m, c)"

section \<open>The drivers keep the contract\<close>

definition no_state :: "call_env \<Rightarrow> 's \<Rightarrow> bool" where
  "no_state env st = True"

definition no_route :: "call_env \<Rightarrow> bool list list \<Rightarrow> bool" where
  "no_route env m = True"

lemma idle_ok: "callback_ok ok rt idle"
  by (auto simp: callback_ok_def idle_def)

lemma window_tick_ok: "callback_ok no_state (may_reach [''renderer'']) window_tick"
  unfolding callback_ok_def
proof (intro allI impI, elim conjE)
  fix env :: call_env and st :: window_subsystem and c :: "(message, 'v) kctx"
  assume c: "ctx_inv c" "may_reach [''renderer''] env (edges (kbus c))"
  from send_to_spec [OF c, of "''renderer''"] have s: "\<exists>c'. send_to env ''renderer'' t p c = Ret c' \<and> ctx_inv c' \<and> edges (kbus c') = edges (kbus c)" for t p
    by (metis list.set_intros(1))
  show "\<exists>st' c'. window_tick env st c = Ret (st', c') \<and> ctx_inv c' \<and> no_state env st' \<and> edges (kbus c') = edges (kbus c)"
    using s [of 1 "WindowResized (fst (win_size (win st))) (snd (win_size (win st)))"] c(1)
    by (auto simp: window_tick_def drain_events_def no_state_def Let_def)
qed

interpretation window: driver no_state "may_reach [''renderer'']" idle window_tick idle
  by unfold_locales (rule idle_ok window_tick_ok)+

lemma physics_tick_ok: "callback_ok no_state no_route physics_tick"
  unfolding callback_ok_def
proof (intro allI impI, elim conjE)
  fix env :: call_env and p :: physics and c :: "(message, 'v) kctx"
  assume c: "ctx_inv c"
  obtain c' where "ctx_receive env c = Ret (own_mail env c, c')" "ctx_inv c'" "edges (kbus c') = edges (kbus c)"
    using ctx_receive_spec [OF c, of env] by blast
  then show "\<exists>st' c'. physics_tick env p c = Ret (st', c') \<and> ctx_inv c' \<and> no_state env st' \<and> edges (kbus c') = edges (kbus c)"
    by (simp add: physics_tick_def no_state_def)
qed

interpretation physics: driver no_state no_route idle physics_tick idle
  by unfold_locales (rule idle_ok physics_tick_ok)+

lemma audio_tick_ok: "callback_ok no_state no_route audio_tick"
  by (auto simp: callback_ok_def audio_tick_def no_state_def)

interpretation audio: driver no_state no_route idle audio_tick idle
  by unfold_locales (rule idle_ok audio_tick_ok)+

definition script_state :: "call_env \<Rightarrow> vm \<Rightarrow> bool" where
  "script_state env m = vm_ok m"

lemma scripting_tick_ok: "callback_ok script_state no_route scripting_tick"
  using execute_loop_ok by (auto simp: callback_ok_def scripting_tick_def script_state_def script_tick_def execute_def)

interpretation scripting: driver script_state no_route idle scripting_tick idle
  by unfold_locales (rule idle_ok scripting_tick_ok)+

definition input_state :: "call_env \<Rightarrow> input_subsystem \<Rightarrow> bool" where
  "input_state env st = input_ok st"

lemma push_inputs_current: "current (push_inputs oks k ms h) = current h"
  by (induction oks k ms h rule: push_inputs.induct) (auto simp: input_try_push_def split: message.splits)

lemma input_tick_ok: "callback_ok input_state (may_reach input_receivers) (input_tick oks (\<lambda>_. True))"
  unfolding callback_ok_def
proof (intro allI impI, elim conjE)
  fix env :: call_env and st :: input_subsystem and c :: "(message, 'v) kctx"
  assume c: "ctx_inv c" "may_reach input_receivers env (edges (kbus c))" and st: "input_state env st"
  obtain c1 where c1: "ctx_receive env c = Ret (own_mail env c, c1)" "ctx_inv c1" "edges (kbus c1) = edges (kbus c)"
    using ctx_receive_spec [OF c(1), of env] by blast
  let ?st = "st\<lparr>inp := push_inputs oks 0 (own_mail env c) (inp st)\<rparr>"
  have "input_ok ?st" using st by (simp add: input_state_def input_ok_def push_inputs_current)
  from input_step_spec [OF this, of "\<lambda>_. True"] obtain f st' where f: "input_step (\<lambda>_. True) ?st = Ret (f, st')" "input_ok st'"
    by (auto simp: input_ok_def snapshot_ok_def)
  obtain c2 where "run_fold (\<lambda>n. send_to env n 2 (InputFrame f)) input_receivers c1 = Ret c2" "ctx_inv c2"
    "edges (kbus c2) = edges (kbus c1)"
    using send_all [OF c1(2), of input_receivers env input_receivers] c(2) c1(3) by auto
  then show "\<exists>st' c'. input_tick oks (\<lambda>_. True) env st c = Ret (st', c') \<and> ctx_inv c' \<and> input_state env st' \<and> edges (kbus c') = edges (kbus c)"
    using c1 f by (simp add: input_tick_def input_state_def)
qed

interpretation input: driver input_state "may_reach input_receivers" idle "input_tick oks (\<lambda>_. True)" idle for oks
  by unfold_locales (rule idle_ok input_tick_ok)+

section \<open>A frame travels from input to physics\<close>

lemma resolve_inj:
  assumes "ctx_resolve env a = Some i" "ctx_resolve env b = Some i" "length (ctx_names env) \<le> u32_max"
  shows "a = b"
proof -
  obtain j k where jk: "Prelude.position (\<lambda>m. m = a) (ctx_names env) = Some j" "Prelude.position (\<lambda>m. m = b) (ctx_names env) = Some k"
    "(of_nat j :: u32) = i" "(of_nat k :: u32) = i"
    using assms(1,2) by (auto simp: ctx_resolve_def)
  have "j < length (ctx_names env)" "k < length (ctx_names env)" using jk(1,2) by (simp_all add: position_Some)
  then have "j = k" using jk(3,4) assms(3) unat_of_nat_u32 [of j] unat_of_nat_u32 [of k] by simp
  then show ?thesis using jk(1,2) by (simp add: position_Some)
qed

text \<open>The messages of a fan-out that concern one mailbox.\<close>

lemma send_to_other:
  assumes "ctx_inv c" "may_reach ns env (edges (kbus c))" "n \<in> set ns" "ctx_resolve env n \<noteq> Some i"
  shows "\<exists>c'. send_to env n t p c = Ret c' \<and> ctx_inv c' \<and> edges (kbus c') = edges (kbus c)
     \<and> length (mailboxes (kbus c')) = length (mailboxes (kbus c))
     \<and> mailboxes (kbus c') ! unat i = mailboxes (kbus c) ! unat i"
proof -
  obtain c' where c': "send_to env n t p c = Ret c'" "ctx_inv c'" "edges (kbus c') = edges (kbus c)"
    "mailboxes (kbus c') = (case ctx_resolve env n of
          None \<Rightarrow> mailboxes (kbus c)
        | Some to \<Rightarrow> snd (publish_result (mailboxes (kbus c))
            \<lparr>env_from = self_id env, env_to = to, topic = t, seq = bus_next_seq (kbus c), payload = p\<rparr>))"
    using send_to_spec [OF assms(1-3), of t p] by blast
  have "unat to \<noteq> unat i" if "ctx_resolve env n = Some to" for to
    using assms(4) that by (auto simp: word_unat_eq_iff)
  then show ?thesis using c' by (auto simp: publish_result_def Let_def simp del: length_mailboxes split: option.splits if_splits)
qed

lemma fan_out_others:
  assumes "ctx_inv c" "may_reach ns env (edges (kbus c))" "set ms \<subseteq> set ns" "\<forall>n\<in>set ms. ctx_resolve env n \<noteq> Some i"
  shows "\<exists>c'. run_fold (\<lambda>n. send_to env n t p) ms c = Ret c' \<and> ctx_inv c' \<and> edges (kbus c') = edges (kbus c)
     \<and> length (mailboxes (kbus c')) = length (mailboxes (kbus c))
     \<and> mailboxes (kbus c') ! unat i = mailboxes (kbus c) ! unat i"
  using assms
proof (induction ms arbitrary: c)
  case (Cons n ms)
  obtain c1 where c1: "send_to env n t p c = Ret c1" "ctx_inv c1" "edges (kbus c1) = edges (kbus c)"
    "length (mailboxes (kbus c1)) = length (mailboxes (kbus c))" "mailboxes (kbus c1) ! unat i = mailboxes (kbus c) ! unat i"
    using send_to_other [OF Cons.prems(1,2), of n i t p] Cons.prems(3,4) by auto
  then show ?case using Cons.IH [of c1] Cons.prems by auto
qed simp

lemma fan_out_delivers:
  assumes c: "ctx_inv c" "may_reach ns env (edges (kbus c))" "set ms \<subseteq> set ns" "distinct ms" "n \<in> set ms"
    and i: "ctx_resolve env n = Some i" "length (ctx_names env) \<le> u32_max"
    and room: "unat i < length (mailboxes (kbus c))" "length (mailboxes (kbus c) ! unat i) < default_inbox_capacity"
  shows "\<exists>c' m. run_fold (\<lambda>n. send_to env n t p) ms c = Ret c' \<and> ctx_inv c' \<and> edges (kbus c') = edges (kbus c)
     \<and> length (mailboxes (kbus c')) = length (mailboxes (kbus c))
     \<and> mailboxes (kbus c') ! unat i = mailboxes (kbus c) ! unat i @ [m] \<and> topic m = t \<and> payload m = p"
proof -
  obtain xs ys where ms: "ms = xs @ n # ys" using c(5) by (auto dest: split_list)
  have other: "\<forall>k\<in>set xs. ctx_resolve env k \<noteq> Some i" "\<forall>k\<in>set ys. ctx_resolve env k \<noteq> Some i"
    using resolve_inj [OF _ i] c(4) ms by auto
  obtain c1 where c1: "run_fold (\<lambda>n. send_to env n t p) xs c = Ret c1" "ctx_inv c1" "edges (kbus c1) = edges (kbus c)"
    "length (mailboxes (kbus c1)) = length (mailboxes (kbus c))" "mailboxes (kbus c1) ! unat i = mailboxes (kbus c) ! unat i"
    using fan_out_others [OF c(1,2) _ other(1), of t p] c(3) ms by auto
  let ?m = "\<lparr>env_from = self_id env, env_to = i, topic = t, seq = bus_next_seq (kbus c1), payload = p\<rparr>"
  have r1: "may_reach ns env (edges (kbus c1))" "n \<in> set ns" using c(2,3) c1(3) ms by auto
  obtain c2 where c2: "send_to env n t p c1 = Ret c2" "ctx_inv c2" "edges (kbus c2) = edges (kbus c1)"
    "mailboxes (kbus c2) = snd (publish_result (mailboxes (kbus c1)) ?m)"
    using send_to_spec [OF c1(2) r1, of t p] i(1) by auto
  have mb: "mailboxes (kbus c2) = (mailboxes (kbus c1))[unat i := mailboxes (kbus c) ! unat i @ [?m]]"
    using c2(4) c1(4,5) room by (simp add: publish_result_def Let_def)
  have r2: "may_reach ns env (edges (kbus c2))" using r1 c2(3) by simp
  obtain c3 where "run_fold (\<lambda>n. send_to env n t p) ys c2 = Ret c3" "ctx_inv c3" "edges (kbus c3) = edges (kbus c2)"
    "length (mailboxes (kbus c3)) = length (mailboxes (kbus c2))" "mailboxes (kbus c3) ! unat i = mailboxes (kbus c2) ! unat i"
    using fan_out_others [OF c2(2) r2 _ other(2), of t p] c(3) ms by auto
  then show ?thesis
    using ms c1 c2(1,3) mb room by (intro exI [of _ c3] exI [of _ ?m]) (simp add: run_fold_append)
qed

section \<open>Properties\<close>

text \<open>C31: Input reaches the simulation in the same frame. When the input driver ticks and then the physics driver, with
  its name registered and room in its inbox, the physics driver ends up with exactly the frame the input driver
  computed in that tick from the events of its own inbox, whatever else was waiting in either inbox.\<close>

theorem input_reaches_physics:
  assumes c: "ctx_inv c" "may_reach input_receivers env (edges (kbus c))" "input_ok st"
    and ph: "ctx_resolve env ''physics'' = Some (self_id penv)" "self_id penv \<noteq> self_id env" "length (ctx_names env) \<le> u32_max"
    and room: "unat (self_id penv) < length (mailboxes (kbus c))"
      "length (mailboxes (kbus c) ! unat (self_id penv)) < default_inbox_capacity"
  shows "\<exists>f st' c1 p' c2. input_step (\<lambda>_. True) (st\<lparr>inp := push_inputs oks 0 (own_mail env c) (inp st)\<rparr>) = Ret (f, st')
     \<and> input_tick oks (\<lambda>_. True) env st c = Ret (st', c1) \<and> physics_tick penv p c1 = Ret (p', c2) \<and> ctx_inv c2
     \<and> last_input p' = Some f"
proof -
  let ?i = "unat (self_id penv)" and ?st = "st\<lparr>inp := push_inputs oks 0 (own_mail env c) (inp st)\<rparr>"
  have ne: "?i \<noteq> unat (self_id env)" using ph(2) by (simp add: word_unat_eq_iff)
  obtain c1 where c1: "ctx_receive env c = Ret (own_mail env c, c1)" "ctx_inv c1" "edges (kbus c1) = edges (kbus c)"
    "length (mailboxes (kbus c1)) = length (mailboxes (kbus c))" "mailboxes (kbus c1) ! ?i = mailboxes (kbus c) ! ?i"
    using ctx_receive_spec [OF c(1), of env] ne by blast
  have "input_ok ?st" using c(3) by (simp add: input_ok_def push_inputs_current)
  then obtain f st' where f: "input_step (\<lambda>_. True) ?st = Ret (f, st')" using input_step_spec [of ?st "\<lambda>_. True"] by auto
  obtain c2 m where c2: "run_fold (\<lambda>n. send_to env n 2 (InputFrame f)) input_receivers c1 = Ret c2" "ctx_inv c2"
    "length (mailboxes (kbus c2)) = length (mailboxes (kbus c1))"
    "mailboxes (kbus c2) ! ?i = mailboxes (kbus c1) ! ?i @ [m]" "topic m = 2" "payload m = InputFrame f"
    using fan_out_delivers [OF c1(2), of input_receivers env input_receivers "''physics''" "self_id penv" 2 "InputFrame f"]
      c(2) ph(1,3) room c1 by (auto simp: input_receivers_def)
  have "own_mail penv c2 = own_mail penv c1 @ [m]" using c2 c1 room by (simp add: own_mail_def)
  moreover obtain c3 where "ctx_receive penv c2 = Ret (own_mail penv c2, c3)" "ctx_inv c3"
    using ctx_receive_spec [OF c2(2), of penv] by blast
  ultimately show ?thesis
    using f c1(1) c2 by (simp add: input_tick_def physics_tick_def physics_receive_def integrate_def)
qed

theorem input_reaches_physics_witness:
  "\<exists>f st' c1 p' c2. input_tick (\<lambda>_. True) (\<lambda>_. True) \<lparr>debug_build = False, ctx_names = [''input'', ''physics''], self_id = 0, dt_ns = 0\<rparr>
        input_default two_box_ctx = Ret (st', c1)
     \<and> physics_tick \<lparr>debug_build = False, ctx_names = [''input'', ''physics''], self_id = 1, dt_ns = 0\<rparr>
        \<lparr>bodies = [], bodies_capacity = 0, last_input = None\<rparr> c1 = Ret (p', c2) \<and> last_input p' = Some f"
proof -
  let ?env = "\<lparr>debug_build = False, ctx_names = [''input'', ''physics''], self_id = 0, dt_ns = 0\<rparr>"
  let ?penv = "\<lparr>debug_build = False, ctx_names = [''input'', ''physics''], self_id = 1, dt_ns = 0\<rparr>"
  have ok: "input_ok input_default" by (simp add: input_ok_def input_default_def snapshot_ok_def snapshot_default_def)
  have "may_reach input_receivers ?env (edges (kbus two_box_ctx))" by (simp add: may_reach_def)
  moreover have "ctx_resolve ?env ''physics'' = Some (self_id ?penv)" by (simp add: ctx_resolve_def)
  moreover have "length (ctx_names ?env) \<le> u32_max" by (simp add: u32_max_def)
  moreover have "unat (self_id ?penv) < length (mailboxes (kbus two_box_ctx))"
    "length (mailboxes (kbus two_box_ctx) ! unat (self_id ?penv)) < default_inbox_capacity"
    unfolding two_box_inv(2) by (simp_all add: default_inbox_capacity_def)
  ultimately show ?thesis
    using input_reaches_physics [OF two_box_inv(1) _ ok, of ?env ?penv "\<lambda>_. True" "\<lparr>bodies = [], bodies_capacity = 0, last_input = None\<rparr>"]
    by simp blast
qed

section \<open>Motion and sound\<close>

lemma sint_i64_div:
  assumes "0 < d"
  shows "sint (i64_div a d) = sgn (sint a) * (\<bar>sint a\<bar> div d)"
proof -
  let ?y = "sgn (sint a) * (\<bar>sint a\<bar> div d)"
  have "\<bar>sint a\<bar> div d \<le> \<bar>sint a\<bar>" "0 \<le> \<bar>sint a\<bar> div d"
    using assms zdiv_mono2 [of "\<bar>sint a\<bar>" 1 d] by (simp_all add: pos_imp_zdiv_nonneg_iff)
  then have "- (2 ^ 63) \<le> ?y" "?y < 2 ^ 63" using sint_i64_bounds [of a] by (auto simp: sgn_if)
  then have "signed_take_bit 63 ?y = ?y" by (intro signed_take_bit_int_eq_self) auto
  then show ?thesis unfolding i64_div_def sint_sbintrunc' by simp
qed

definition clamped :: "int \<Rightarrow> int" where
  "clamped x = max (- (2 ^ 63)) (min (2 ^ 63 - 1) x)"

text \<open>What one step does to a coordinate: the distance is rounded towards zero, and every product and sum saturates.\<close>

lemma step_axis_exact:
  "sint (step_axis dt x v) = clamped (sint x + (let p = clamped (sint v * sint dt) in sgn p * (\<bar>p\<bar> div nanos_per_second)))"
  by (simp add: step_axis_def sat_add_i64_def sat_mul_i64_def sint_i64_sat sint_i64_div nanos_per_second_def clamped_def Let_def)

lemma sint_eqI: "sint (a :: 'a::len word) = sint b \<Longrightarrow> a = b"
  by (rule signed_word_eqI)

lemma step_axis_slow:
  assumes "\<bar>sint v * sint dt\<bar> < nanos_per_second"
  shows "step_axis dt x v = x"
proof (rule sint_eqI)
  have "\<bar>sint v * sint dt\<bar> < 1000000000" using assms by (simp add: nanos_per_second_def)
  then have p: "clamped (sint v * sint dt) = sint v * sint dt" by (auto simp: clamped_def)
  have "clamped (sint x) = sint x" using sint_i64_bounds [of x] by (simp add: clamped_def)
  then show "sint (step_axis dt x v) = sint x"
    using assms by (simp add: step_axis_exact p Let_def nanos_per_second_def)
qed

text \<open>At the kernel's fixed step of 16666667 ns a body slower than 60 units per second never moves, however long the
  simulation runs: every step rounds its distance to zero and forgets the remainder.\<close>

theorem slow_body_never_moves:
  assumes "\<bar>sint (fst (body_velocity b))\<bar> < 60" "\<bar>sint (snd (body_velocity b))\<bar> < 60"
  shows "(integrate_body (clamp_dt 16666667) ^^ n) b = b"
proof -
  have dt: "sint (clamp_dt 16666667) = 16666667" by (simp add: clamp_dt_def)
  have "\<bar>v * 16666667\<bar> < 1000000000" if "\<bar>v\<bar> < 60" for v :: int using that by (simp add: abs_mult)
  then have "integrate_body (clamp_dt 16666667) b = b"
    using assms step_axis_slow by (simp add: integrate_body_def dt nanos_per_second_def)
  then show ?thesis by (induction n) simp_all
qed

definition euler_step :: "int \<Rightarrow> i64 \<Rightarrow> i64 \<Rightarrow> int" where
  "euler_step dt x v = clamped (sint x + (let q = clamped (sint v * dt) in sgn q * (\<bar>q\<bar> div 1000000000)))"

text \<open>Motion is the saturating, truncating Euler step and nothing else. After one integration step every body has moved on
  each axis by its velocity times the step divided by 10^9, rounded towards zero, with the product and the sum clamped
  to 64 bits; velocities, the number and the order of the bodies do not change.\<close>

theorem physics_step_exact:
  fixes p :: physics
  assumes "i < length (bodies p)" "unat dt < 2 ^ 63"
  shows "length (bodies (integrate dt p)) = length (bodies p)
     \<and> body_velocity (bodies (integrate dt p) ! i) = body_velocity (bodies p ! i)
     \<and> sint (fst (body_position (bodies (integrate dt p) ! i))) =
         euler_step (int (unat dt)) (fst (body_position (bodies p ! i))) (fst (body_velocity (bodies p ! i)))
     \<and> sint (snd (body_position (bodies (integrate dt p) ! i))) =
         euler_step (int (unat dt)) (snd (body_position (bodies p ! i))) (snd (body_velocity (bodies p ! i)))"
proof -
  have "sint (clamp_dt dt) = int (unat dt)"
  proof -
    have "int (unat dt) < int (2 ^ 63)" using assms(2) by (rule iffD2 [OF of_nat_less_iff])
    then have hi: "int (unat dt) < 2 ^ 63" by (simp only: of_nat_power of_nat_numeral)
    have lo: "- (2 ^ 63) \<le> int (unat dt)" by (rule order_trans [of _ 0]) simp_all
    have "signed_take_bit 63 (uint dt) = uint dt" using hi lo unfolding uint_nat by (rule signed_take_bit_int_eq_self [rotated])
    moreover have "clamp_dt dt = dt" using assms(2) by (simp add: clamp_dt_def)
    ultimately show ?thesis by (simp add: sint_uint)
  qed
  then show ?thesis using assms(1) by (simp add: integrate_def integrate_body_def step_axis_exact euler_step_def nanos_per_second_def)
qed

theorem physics_step_exact_witness:
  "sint (fst (body_position (bodies (integrate 500000000 \<lparr>bodies = [\<lparr>body_position = (0, 10), body_velocity = (2, - 4)\<rparr>], bodies_capacity = 1, last_input = None\<rparr>) ! 0))) = 1"
  using physics_step_exact [of 0 "\<lparr>bodies = [\<lparr>body_position = (0, 10), body_velocity = (2, - 4)\<rparr>], bodies_capacity = 1, last_input = None\<rparr>" 500000000]
  by (simp add: euler_step_def clamped_def)

text \<open>A voice that is active through n ticks advances by n saturated steps, modulo 2^64; a stopped one not at all.\<close>

theorem voice_phase_exact:
  "(advance_voice dt ^^ n) v = v\<lparr>phase := phase v + (if active v then of_nat n * sat_mul_u64 (phase_step v) dt else 0)\<rparr>"
  by (induction n) (auto simp: advance_voice_def algebra_simps)

end
