(* ===== verification/Ui_Driver.thy ===== *)
theory Ui_Driver
  imports Messages
begin

text \<open>
  \<open>src/src/subsystems/ui/mod.rs\<close>: the UI subsystem. A tick drains the inbox (resizes, input frames, asset states,
  deferred commands), applies the commands, lays the tree out, paints it, and publishes a packet to the renderer.
  \<open>als\<close> holds the allocator's answers for the calls of one tick; \<open>fbits\<close> is the bit pattern of an \<open>f32\<close>.
\<close>

section \<open>State\<close>

record ui_subsystem =
  us_config :: ui_config
  us_tree :: ui_tree
  us_commands :: ui_command_buffer
  us_layout :: layout_engine
  us_paint :: paint_list
  us_resources :: resource_table
  us_focus :: ui_focus_capture
  us_diagnostics :: ui_diagnostics
  us_viewport :: ui_rect
  us_last_frame :: ui_frame_ready
  us_last_packet :: "ui_frame_packet option"
  us_layout_scratch :: layout_stats

definition frame_ready_default :: ui_frame_ready where
  "frame_ready_default = \<lparr>fr_nodes = 0, fr_paint_items = 0, fr_batches = 0, fr_glyphs = 0, fr_uploaded_bytes = 0\<rparr>"

definition diagnostics_default :: ui_diagnostics where
  "diagnostics_default = \<lparr>dirty_nodes = 0, layout_passes = 0, d_paint_items = 0, d_batches = 0, d_glyphs = 0, uploaded_bytes = 0,
     clipped_items = 0, overflow_fallbacks = 0\<rparr>"

definition ui_try_new :: "(nat \<Rightarrow> alloc) \<Rightarrow> ui_config \<Rightarrow> ui_error + ui_subsystem" where
  "ui_try_new als c =
     (if \<not> is_finite (dpi_scale c) \<or> f32_le (dpi_scale c) f32_zero then Inl InvalidValue
      else case ui_tree_try_new (als 0) c of
        Inl e \<Rightarrow> Inl e
      | Inr t \<Rightarrow>
         (case command_buffer_try_with_capacity (als 1) (max_commands c) of
            Inl e \<Rightarrow> Inl e
          | Inr b \<Rightarrow>
             (case layout_try_new (als 2) c of
                Inl e \<Rightarrow> Inl e
              | Inr l \<Rightarrow>
                 (case paint_list_try_new (als 3) c of
                    Inl e \<Rightarrow> Inl e
                  | Inr p \<Rightarrow>
                     (case resource_table_try_new (als 4) c of
                        Inl e \<Rightarrow> Inl e
                      | Inr r \<Rightarrow>
                          Inr \<lparr>us_config = c, us_tree = t, us_commands = b, us_layout = l, us_paint = p, us_resources = r,
                               us_focus = \<lparr>focused = None, captured = None\<rparr>, us_diagnostics = diagnostics_default,
                               us_viewport = \<lparr>rx = f32_zero, ry = f32_zero, rwidth = f32_of_int 1280, rheight = f32_of_int 720\<rparr>,
                               us_last_frame = frame_ready_default, us_last_packet = None,
                               us_layout_scratch = \<lparr>visited = 0, dirty_seen = 0, iterations = 0\<rparr>\<rparr>)))))"

section \<open>Messages\<close>

text \<open>\<open>value as i32\<close> truncates towards zero, saturates, and maps NaN to 0.\<close>

definition f32_to_i32 :: "f32 \<Rightarrow> 32 word" where
  "f32_to_i32 x =
     (case x of
        NaN \<Rightarrow> 0
      | PInf \<Rightarrow> 2 ^ 31 - 1
      | NInf \<Rightarrow> 2 ^ 31
      | Fin a \<Rightarrow> word_of_int (max (- (2 ^ 31)) (min (2 ^ 31 - 1) (sgn a * (\<bar>a\<bar> div f32_one_units)))))"

definition button_events :: "32 word \<Rightarrow> 32 word \<Rightarrow> input_frame \<Rightarrow> nat \<Rightarrow> ui_input_event list" where
  "button_events x y f b =
     (if pressed_buttons f AND push_bit b 1 \<noteq> 0 then [PointerButton (of_nat b) True x y] else [])
     @ (if released_buttons f AND push_bit b 1 \<noteq> 0 then [PointerButton (of_nat b) False x y] else [])"

text \<open>The events an input frame is turned into, in the order they are routed.\<close>

definition frame_ui_events :: "f32 \<Rightarrow> input_frame \<Rightarrow> ui_input_event list" where
  "frame_ui_events scale f =
     (let x = f32_to_i32 (f32_div (f32_of_int (sint (mouse_x f))) scale);
          y = f32_to_i32 (f32_div (f32_of_int (sint (mouse_y f))) scale)
      in PointerMove x y # concat (map (button_events x y f) [0..<16])
         @ map (\<lambda>k. Key k True) (take (unat (pressed_key_count f)) (pressed_keys f))
         @ map (\<lambda>k. Key k False) (take (unat (released_key_count f)) (released_keys f))
         @ map TextByte (take (unat (f_text_count f)) (f_text f)))"

definition route_all :: "alloc \<Rightarrow> ui_tree \<Rightarrow> ui_input_event list \<Rightarrow> ui_focus_capture \<Rightarrow> ui_focus_capture run" where
  "route_all al t es f = run_fold (\<lambda>e f. run_bind (route al t e f) (\<lambda>(_, f'). Ret f')) es f"

definition asset_state_of :: "u8 \<Rightarrow> asset_state option" where
  "asset_state_of n =
     (if n = 0 then Some Missing else if n = 1 then Some Loading else if n = 2 then Some Ready
      else if n = 3 then Some Failed else None)"

definition apply_asset :: "ui_asset_ready \<Rightarrow> resource_table \<Rightarrow> (ui_error + unit) \<times> resource_table" where
  "apply_asset a t =
     (case asset_state_of (asset_state a) of
        None \<Rightarrow> (Inl InvalidValue, t)
      | Some s \<Rightarrow>
         if asset_kind a = 0 then set_texture_state (ui_id_new (asset_index a) (asset_generation a)) s t
         else if asset_kind a = 1 then set_font_state (ui_id_new (asset_index a) (asset_generation a)) s t
         else (Inl InvalidValue, t))"

definition record_if :: "bool \<Rightarrow> ui_subsystem \<Rightarrow> ui_subsystem" where
  "record_if failed st = (if failed then st\<lparr>us_diagnostics := record_error (us_diagnostics st)\<rparr> else st)"

text \<open>One envelope; the state carries the last resize of this tick.\<close>

definition ui_receive ::
  "alloc \<Rightarrow> message envelope \<Rightarrow> (u32 \<times> u32) option \<times> ui_subsystem \<Rightarrow> ((u32 \<times> u32) option \<times> ui_subsystem) run" where
  "ui_receive al m = (\<lambda>(resized, st).
     if topic m = 1
     then (case payload m of WindowResized w h \<Rightarrow> Ret (Some (w, h), st) | _ \<Rightarrow> Ret (resized, st))
     else if topic m = 2
     then (case payload m of
             InputFrame f \<Rightarrow>
               run_bind (route_all al (us_tree st) (frame_ui_events (dpi_scale (us_config st)) f) (us_focus st))
                 (\<lambda>fc. Ret (resized, st\<lparr>us_focus := fc\<rparr>))
           | _ \<Rightarrow> Ret (resized, st))
     else if topic m = 3
     then (case payload m of
             UiAssetReady a \<Rightarrow>
               (case apply_asset a (us_resources st) of (r, t) \<Rightarrow> Ret (resized, record_if (isl r) (st\<lparr>us_resources := t\<rparr>)))
           | _ \<Rightarrow> Ret (resized, st))
     else if topic m = 4
     then (case payload m of
             UiCommandMessage c \<Rightarrow>
               (case command_try_push (us_commands st) c of (r, b) \<Rightarrow> Ret (resized, record_if (isl r) (st\<lparr>us_commands := b\<rparr>)))
           | _ \<Rightarrow> Ret (resized, st))
     else Ret (resized, st))"

section \<open>The tick\<close>

definition ui_resize :: "(u32 \<times> u32) option \<Rightarrow> ui_subsystem \<Rightarrow> ui_subsystem" where
  "ui_resize resized st =
     (case resized of
        Some (w, h) \<Rightarrow>
          if w > 0 \<and> h > 0
          then st\<lparr>us_viewport := (us_viewport st)
                 \<lparr>rwidth := f32_div (f32_of_int (uint w)) (dpi_scale (us_config st)),
                  rheight := f32_div (f32_of_int (uint h)) (dpi_scale (us_config st))\<rparr>\<rparr>
          else st
      | None \<Rightarrow> st)"

text \<open>Commands, focus and layout: the part of the tick that changes the tree.\<close>

definition ui_update :: "(nat \<Rightarrow> alloc) \<Rightarrow> alloc \<Rightarrow> ui_subsystem \<Rightarrow> ui_subsystem run" where
  "ui_update cals al st =
     run_bind (ui_apply cals (us_commands st) (us_tree st)) (\<lambda>(_, b, t).
       run_bind (layout al (us_layout st) t (us_viewport st) (us_diagnostics st)) (\<lambda>(r, l, t', d).
         Ret (st\<lparr>us_commands := b, us_focus := clear_stale t (us_focus st), us_tree := t', us_layout := l, us_diagnostics := d,
                 us_layout_scratch := (case r of Inr s \<Rightarrow> s | Inl _ \<Rightarrow> us_layout_scratch st)\<rparr>)))"

text \<open>Painting and the packet.\<close>

definition ui_finish_frame ::
  "(f32 \<Rightarrow> u32) \<Rightarrow> (nat \<Rightarrow> alloc) \<Rightarrow> ui_error + upload_plan \<Rightarrow> ui_subsystem \<Rightarrow> ui_subsystem" where
  "ui_finish_frame fbits als res st =
     (case res of
        Inr plan \<Rightarrow>
          (let st1 = st\<lparr>us_last_frame := \<lparr>fr_nodes = ui_tree.count (us_tree st), fr_paint_items = unat (up_items plan),
                  fr_batches = unat (up_batches plan), fr_glyphs = unat (up_glyphs plan), fr_uploaded_bytes = upload_bytes plan\<rparr>\<rparr>
           in case paint_snapshot (als 0) (us_paint st1) of
                Inl _ \<Rightarrow> st1
              | Inr s \<Rightarrow> st1\<lparr>us_last_packet :=
                  Some (make_packet fbits (als 1) (als 2) (als 3) (us_last_frame st1) s (us_last_packet st1))\<rparr>)
      | Inl _ \<Rightarrow>
          st\<lparr>us_diagnostics := record_error (us_diagnostics st),
             us_last_frame := frame_ready_default\<lparr>fr_nodes := ui_tree.count (us_tree st)\<rparr>, us_last_packet := None\<rparr>)"

definition ui_paint_frame ::
  "(f32 \<Rightarrow> u32) \<Rightarrow> alloc \<Rightarrow> (nat \<Rightarrow> alloc) \<Rightarrow> (nat \<Rightarrow> alloc) \<Rightarrow> ui_subsystem \<Rightarrow> ui_subsystem run" where
  "ui_paint_frame fbits al pals als st =
     run_bind (build_with_resources al pals (us_tree st) (us_viewport st) (Some (us_resources st)) (us_paint st) (us_diagnostics st))
       (\<lambda>(res, p, d). Ret (ui_finish_frame fbits als res (st\<lparr>us_paint := p, us_diagnostics := d\<rparr>)))"

definition ui_publish :: "call_env \<Rightarrow> ui_subsystem \<Rightarrow> (message, 'v) kctx \<Rightarrow> (message, 'v) kctx run" where
  "ui_publish env st c =
     (case us_last_packet st of None \<Rightarrow> Ret c | Some p \<Rightarrow> send_to env ''renderer'' 2 (UiFrame p) c)"

record tick_allocs =
  ta_route :: alloc
  ta_commands :: "nat \<Rightarrow> alloc"
  ta_layout :: alloc
  ta_order :: alloc
  ta_nodes :: "nat \<Rightarrow> alloc"
  ta_packet :: "nat \<Rightarrow> alloc"

definition ui_tick :: "(f32 \<Rightarrow> u32) \<Rightarrow> tick_allocs \<Rightarrow> (ui_subsystem, message, 'v) callback" where
  "ui_tick fbits ta env st c =
     run_bind (ctx_receive env c) (\<lambda>(ms, c1).
       run_bind (run_fold (ui_receive (ta_route ta)) ms (None, st)) (\<lambda>(resized, st1).
         run_bind (ui_update (ta_commands ta) (ta_layout ta) (ui_resize resized st1)) (\<lambda>st2.
           run_bind (ui_paint_frame fbits (ta_order ta) (ta_nodes ta) (ta_packet ta) st2) (\<lambda>st3.
             run_bind (ui_publish env st3 c1) (\<lambda>c2. Ret (st3, c2))))))"

section \<open>Every number stays an f32\<close>

text \<open>The model's \<open>f32\<close> values contain some that no \<open>f32\<close> of the program has; the layout pass relies on representable ones.
  Styles enter the tree only through commands.\<close>

definition styles :: "ui_tree \<Rightarrow> ui_style set" where
  "styles t = {style c |i c. contents t i = Some c}"

fun command_styles :: "ui_command \<Rightarrow> ui_style set" where
  "command_styles (Create p c) = {style c}"
| "command_styles (SetStyle i s) = {s}"
| "command_styles _ = {}"

lemma contents_f32_styles: "contents_f32 t \<longleftrightarrow> styles t \<subseteq> {s. style_f32 s}"
  by (auto simp: contents_f32_def styles_def)

lemma styles_mono: "(\<And>i c. contents t' i = Some c \<Longrightarrow> \<exists>j d. contents t j = Some d \<and> style c = style d) \<Longrightarrow> styles t' \<subseteq> styles t"
  unfolding styles_def by blast

lemma update_content_styles:
  assumes "\<And>c. style (f c) = style c \<or> style (f c) = s"
  shows "styles (snd (update_content t i f)) \<subseteq> insert s (styles t)"
proof (cases "node t i")
  case (Some n)
  have "contents (set_node t (n\<lparr>content := f (content n)\<rparr>)) = (contents t)(i \<mapsto> f (content n))"
    using contents_set_node [OF Some, of "n\<lparr>content := f (content n)\<rparr>"] by simp
  moreover have "contents t i = Some (content n)" using Some by (simp add: contents_def)
  ultimately show ?thesis using Some assms [of "content n"] by (auto simp: update_content_def styles_def split: if_splits)
qed (auto simp: update_content_def)

lemma ui_apply_command_styles:
  assumes t: "tree_inv t" and r: "ui_apply_command al cmd t = Ret (ok, t')"
  shows "styles t' \<subseteq> styles t \<union> command_styles cmd"
proof (cases cmd)
  case (Create p c)
  show ?thesis
  proof (rule tree_create_cases [OF t, of al p c])
    fix e u assume "tree_create al t p c = Ret (Inl e, u)" "node u = node t"
    then show ?thesis using r Create by (auto simp: styles_def contents_def)
  next
    fix i u pn
    assume f: "tree_create al t p c = Ret (Inr i, u)" "node t p = Some pn"
      "node u = (node t)(p \<mapsto> pn\<lparr>children := children pn @ [i]\<rparr>, i \<mapsto> new_node i p c)"
    have "contents u j = Some d \<Longrightarrow> d = c \<or> contents t j = Some d" for j d
      using f(2) by (auto simp: contents_def f(3) new_node_def split: if_splits)
    then show ?thesis using r f(1) Create by (auto simp: styles_def)
  qed
next
  case (Destroy i)
  show ?thesis
  proof (rule tree_destroy_cases [OF t, of al i])
    fix u assume f: "tree_destroy al t i = Ret (Inr (), u)"
      "\<And>x n. node u x = Some n \<Longrightarrow> \<exists>m. node t x = Some m \<and> content n = content m \<and> nrect n = nrect m"
    have "styles u \<subseteq> styles t" by (rule styles_mono) (use f(2) in \<open>fastforce simp: contents_def\<close>)
    then show ?thesis using r f(1) Destroy by auto
  qed (use r Destroy in auto)
next
  case (Reparent i p)
  show ?thesis
    by (rule tree_reparent_cases [OF t, of al i p]) (use r Reparent in \<open>auto simp: styles_def\<close>)
next
  case (SetStyle i s)
  then show ?thesis using r update_content_styles [of "style_update (\<lambda>_. s)" s t i] by (auto split: if_splits prod.splits)
next
  case (SetText i x)
  have "styles (snd (update_content t i (ctext_update (\<lambda>_. Some x)))) \<subseteq> styles t"
    by (cases "node t i") (auto simp: update_content_def styles_def contents_set_node contents_def split: if_splits)
  then show ?thesis using r SetText by (auto split: if_splits prod.splits)
next
  case (SetVisible i v)
  have "styles (snd (update_content t i (visible_update (\<lambda>_. v)))) \<subseteq> styles t"
    by (cases "node t i") (auto simp: update_content_def styles_def contents_set_node contents_def split: if_splits)
  then show ?thesis using r SetVisible by (auto split: prod.splits)
next
  case (SetZIndex i z)
  have "styles (snd (update_content t i (z_index_update (\<lambda>_. z)))) \<subseteq> styles t"
    by (cases "node t i") (auto simp: update_content_def styles_def contents_set_node contents_def split: if_splits)
  then show ?thesis using r SetZIndex by (auto split: prod.splits)
next
  case (SetAccessibility i a)
  have "styles (snd (update_content t i (accessibility_update (\<lambda>_. a)))) \<subseteq> styles t"
    by (cases "node t i") (auto simp: update_content_def styles_def contents_set_node contents_def split: if_splits)
  then show ?thesis using r SetAccessibility by (auto split: prod.splits)
qed

definition commands_f32 :: "ui_command list \<Rightarrow> bool" where
  "commands_f32 cs \<longleftrightarrow> list_all (\<lambda>c. command_styles c \<subseteq> {s. style_f32 s}) cs"

lemma ui_apply_commands_f32:
  assumes "ui_ok t" "contents_f32 t" "commands_f32 cs"
  shows "\<exists>n' t'. ui_apply_commands als n cs t = Ret (n', t') \<and> ui_ok t' \<and> contents_f32 t'"
  using assms
proof (induction cs arbitrary: t n)
  case (Cons c cs)
  from ui_apply_command_ok [OF Cons.prems(1)] obtain ok t1 where
    t1: "ui_apply_command (als (length cs)) c t = Ret (ok, t1)" "ui_ok t1" by blast
  have "contents_f32 t1"
    using ui_apply_command_styles [OF _ t1(1)] Cons.prems by (auto simp: contents_f32_styles commands_f32_def ui_ok_def)
  then show ?case using Cons.IH [OF t1(2), of "if ok then sat_add n 1 else n"] Cons.prems(3) t1(1)
    by (auto simp: commands_f32_def)
qed simp

lemma f32_div_of_int_ok: "f32_ok (f32_div (f32_of_int n) y)"
proof (cases y)
  case (Fin b)
  then show ?thesis
    using f32_round_ok [of "nat \<bar>b\<bar>"] by (cases "f32_of_int n") (auto simp: f32_ok_def signed_inf_def)
qed (cases "f32_of_int n"; auto simp: f32_ok_def magnitude_ok_def excess_bits.simps)+

section \<open>The state of the subsystem\<close>

definition packet_ok :: "ui_frame_packet \<Rightarrow> bool" where
  "packet_ok p \<longleftrightarrow> (\<exists>plan. ui_plan_try_build (pk_snapshot p) = Inr plan)"

definition ui_state_ok :: "ui_subsystem \<Rightarrow> bool" where
  "ui_state_ok st \<longleftrightarrow> ui_ok (us_tree st) \<and> contents_f32 (us_tree st) \<and> commands_f32 (ui_command_buffer.commands (us_commands st))
     \<and> f32_ok (rwidth (us_viewport st)) \<and> f32_ok (rheight (us_viewport st))
     \<and> (\<forall>p. us_last_packet st = Some p \<longrightarrow> packet_ok p)"

definition message_f32 :: "message envelope \<Rightarrow> bool" where
  "message_f32 m = (case payload m of UiCommandMessage c \<Rightarrow> command_styles c \<subseteq> {s. style_f32 s} | _ \<Rightarrow> True)"

lemma route_returns:
  assumes "tree_inv t"
  shows "\<exists>res f'. route al t e f = Ret (res, f')"
proof -
  have hit: "\<exists>r. hit_test al t x y = Ret r" for x y using hit_test_valid [OF assms] by blast
  obtain tg where "(case captured (clear_stale t f) of Some i \<Rightarrow> Ret (Some i)
      | None \<Rightarrow> (case pointer_of e of Some (x, y) \<Rightarrow> hit_test al t x y | None \<Rightarrow> Ret None)) = Ret tg"
    by (cases "captured (clear_stale t f)"; cases "pointer_of e") (auto, metis hit)
  then show ?thesis by (simp add: route_def Let_def)
qed

lemma route_all_returns: "tree_inv t \<Longrightarrow> \<exists>f'. route_all al t es f = Ret f'"
proof (induction es arbitrary: f)
  case (Cons e es)
  obtain res f1 where "route al t e f = Ret (res, f1)" using route_returns [OF Cons.prems] by blast
  then show ?case using Cons.IH [OF Cons.prems, of f1] by (simp add: route_all_def)
qed (simp add: route_all_def)

lemma record_if_ok: "ui_state_ok (record_if b st) = ui_state_ok st"
  by (simp add: record_if_def ui_state_ok_def)

lemma ui_receive_ok:
  assumes "ui_state_ok st" "message_f32 m"
  shows "\<exists>r' st'. ui_receive al m (r, st) = Ret (r', st') \<and> ui_state_ok st'"
proof -
  have inv: "tree_inv (us_tree st)" using assms(1) by (simp add: ui_state_ok_def ui_ok_def)
  have route: "\<exists>fc. route_all al (us_tree st) es f = Ret fc" for es f using route_all_returns [OF inv] by blast
  have push: "commands_f32 (ui_command_buffer.commands (snd (command_try_push (us_commands st) c)))"
    if "payload m = UiCommandMessage c" for c
    using assms that by (auto simp: command_try_push_def commands_f32_def ui_state_ok_def message_f32_def)
  show ?thesis
  proof (cases "payload m")
    case (InputFrame f)
    obtain fc where "route_all al (us_tree st) (frame_ui_events (dpi_scale (us_config st)) f) (us_focus st) = Ret fc" using route by blast
    then show ?thesis using InputFrame assms(1) by (simp add: ui_receive_def ui_state_ok_def)
  next
    case (UiAssetReady a)
    then show ?thesis using assms(1) by (auto simp: ui_receive_def record_if_ok split: prod.splits) (simp add: ui_state_ok_def)+
  next
    case (UiCommandMessage c)
    then show ?thesis using assms(1) push [OF UiCommandMessage]
      by (auto simp: ui_receive_def record_if_ok split: prod.splits) (simp add: ui_state_ok_def)+
  qed (use assms(1) in \<open>simp_all add: ui_receive_def\<close>)
qed

lemma ui_receive_all_ok:
  assumes "ui_state_ok st" "list_all message_f32 ms"
  shows "\<exists>r' st'. run_fold (ui_receive al) ms (r, st) = Ret (r', st') \<and> ui_state_ok st'"
  using assms
proof (induction ms arbitrary: r st)
  case (Cons m ms)
  obtain r1 st1 where "ui_receive al m (r, st) = Ret (r1, st1)" "ui_state_ok st1"
    using ui_receive_ok [OF Cons.prems(1), of m al r] Cons.prems(2) by auto
  then show ?case using Cons.IH [of st1 r1] Cons.prems(2) by simp
qed simp

lemma ui_resize_ok: "ui_state_ok st \<Longrightarrow> ui_state_ok (ui_resize r st)"
  by (auto simp: ui_resize_def ui_state_ok_def f32_div_of_int_ok split: option.splits)

lemma ui_update_ok:
  assumes "ui_state_ok st"
  shows "\<exists>st'. ui_update cals al st = Ret st' \<and> ui_state_ok st' \<and> us_last_packet st' = us_last_packet st"
proof -
  let ?cs = "ui_command_buffer.commands (us_commands st)"
  have st: "ui_ok (us_tree st)" "contents_f32 (us_tree st)" "commands_f32 ?cs" "f32_ok (rwidth (us_viewport st))"
    "f32_ok (rheight (us_viewport st))" using assms by (simp_all add: ui_state_ok_def)
  obtain n t where t: "ui_apply_commands cals 0 ?cs (us_tree st) = Ret (n, t)" "ui_ok t" "contents_f32 t"
    using ui_apply_commands_f32 [OF st(1-3)] by blast
  have ok: "tree_inv t" "contents_ok t" using t(2) by (simp_all add: ui_ok_def)
  from layout_spec [OF ok t(3) st(4,5), of al "us_layout st" "us_diagnostics st"] obtain r l t' d where
    l: "layout al (us_layout st) t (us_viewport st) (us_diagnostics st) = Ret (r, l, t', d)" "same_shape t t'" "contents t' = contents t"
    by metis
  have "tree_inv t'" using same_shape_inv [OF l(2)] ok(1) by simp
  moreover have "contents_ok t'" "contents_f32 t'"
    using ok(2) t(3) l(2,3) text_too_long_config [of t' t] by (simp_all add: contents_ok_iff contents_f32_def same_shape_def)
  ultimately show ?thesis
    using t(1) l(1) assms by (simp add: ui_update_def ui_apply_def ui_state_ok_def ui_ok_def commands_f32_def)
qed

lemma ui_update_empties: "ui_update cals al st = Ret st' \<Longrightarrow> ui_command_buffer.commands (us_commands st') = []"
  by (auto simp: ui_update_def ui_apply_def run_bind_Ret_iff)

lemma ui_finish_frame_commands: "us_commands (ui_finish_frame fbits als res st) = us_commands st"
  by (simp add: ui_finish_frame_def Let_def split: sum.splits)

lemma ui_paint_frame_commands: "ui_paint_frame fbits al pals als st = Ret st' \<Longrightarrow> us_commands st' = us_commands st"
  by (auto simp: ui_paint_frame_def run_bind_Ret_iff ui_finish_frame_commands)

lemma ui_finish_frame_ok:
  assumes "ui_state_ok st" "\<And>plan s. res = Inr plan \<Longrightarrow> paint_snapshot (als 0) (us_paint st) = Inr s \<Longrightarrow> \<exists>p. ui_plan_try_build s = Inr p"
  shows "ui_state_ok (ui_finish_frame fbits als res st)"
proof (cases res)
  case (Inr plan)
  then show ?thesis using assms
    by (cases "paint_snapshot (als 0) (us_paint st)")
      (simp_all add: ui_finish_frame_def Let_def ui_state_ok_def packet_ok_def make_packet_def)
qed (use assms(1) in \<open>simp add: ui_finish_frame_def ui_state_ok_def\<close>)

lemma snapshot_item_mono: "snapshot_item al clips x gs = Inr y \<Longrightarrow> snapshot_item (\<lambda>_. True) clips x gs = Inr y"
  by (auto simp: snapshot_item_def split: option.splits if_splits prod.splits)

lemma snapshot_items_mono: "snapshot_items al clips xs its gs = Inr y \<Longrightarrow> snapshot_items (\<lambda>_. True) clips xs its gs = Inr y"
proof (induction xs arbitrary: its gs)
  case (Cons x xs)
  show ?case
  proof (cases "snapshot_item al clips x gs")
    case (Inl e)
    then show ?thesis using Cons.prems by simp
  next
    case (Inr r)
    obtain it gs' where r: "r = (it, gs')" by (cases r)
    have "snapshot_items al clips xs (its @ [it]) gs' = Inr y" using Cons.prems Inr r by simp
    then show ?thesis using snapshot_item_mono [OF Inr] Cons.IH r by simp
  qed
qed simp

lemma paint_snapshot_mono:
  assumes "paint_snapshot al p = Inr s"
  shows "paint_snapshot (\<lambda>_. True) p = Inr s"
proof -
  obtain its gs where "snapshot_items al (pl_clips p) (enumerate 0 (pl_items p)) [] [] = Inr (its, gs)"
    using assms by (auto simp: paint_snapshot_def split: if_splits sum.splits)
  with assms snapshot_items_mono [OF this] show ?thesis
    by (auto simp: paint_snapshot_def split: if_splits)
qed

text \<open>The snapshot of a painted frame is accepted by the renderer.\<close>

lemma painted_snapshot_accepted:
  assumes "build_with_resources al als t viewport resources p d = Ret (Inr plan, p', d')" "paint_snapshot al' p' = Inr s"
  shows "\<exists>cp. ui_plan_try_build s = Inr cp"
proof -
  have bi: "pl_batches p' = ui_batches_at 0 (runs item_key (pl_items p'))" using build_Inr [OF assms(1)] by simp
  obtain d2 where fp: "finish_plan p' d2 = (Inr plan, d')" using build_Inr [OF assms(1)] by blast
  obtain s' where "paint_snapshot (\<lambda>_. True) p' = Inr s'" "sn_batches s' = pl_batches p'" "length (sn_items s') = length (pl_items p')"
    using snapshot_of_painted [OF fp, of "\<lambda>_. True"] by auto
  then have "sn_batches s = pl_batches p'" "length (sn_items s) = length (pl_items p')"
    using paint_snapshot_mono [OF assms(2)] by simp_all
  then show ?thesis using painted_plan [of s "pl_items p'"] bi finish_plan_Inr(1,2) [OF fp] by simp
qed

lemma ui_paint_frame_ok:
  assumes "ui_state_ok st"
  shows "\<exists>st'. ui_paint_frame fbits al pals als st = Ret st' \<and> ui_state_ok st'"
proof -
  have inv: "tree_inv (us_tree st)" using assms by (simp add: ui_state_ok_def ui_ok_def)
  obtain res p d where b: "build_with_resources al pals (us_tree st) (us_viewport st) (Some (us_resources st)) (us_paint st)
      (us_diagnostics st) = Ret (res, p, d)"
    using build_returns [OF inv, of al pals "us_viewport st" "Some (us_resources st)" "us_paint st" "us_diagnostics st"]
    by (metis prod_cases3)
  let ?st = "st\<lparr>us_paint := p, us_diagnostics := d\<rparr>"
  have "ui_state_ok (ui_finish_frame fbits als res ?st)"
  proof (rule ui_finish_frame_ok)
    show "ui_state_ok ?st" using assms by (simp add: ui_state_ok_def)
  qed (use b painted_snapshot_accepted in auto)
  then show ?thesis using b by (simp add: ui_paint_frame_def)
qed

section \<open>Properties\<close>

text \<open>C29: A UI tick never gets stuck and never publishes what the renderer would refuse. In any state that a UI subsystem
  can be in, with any messages in its inbox and any answers of the allocator, a tick returns without a panic and
  without an endless loop; afterwards the tree is still one tree with sane contents, the command buffer is empty,
  and the packet that was published, if any, passes the renderer's validation. In a debug build
  this needs the renderer to declare its dependency on the UI.\<close>

theorem ui_tick_safe:
  assumes c: "ctx_inv c" "may_reach [''renderer''] env (edges (kbus c))"
    and st: "ui_state_ok st" and mail: "list_all message_f32 (own_mail env c)"
  shows "\<exists>st' c'. ui_tick fbits ta env st c = Ret (st', c') \<and> ctx_inv c' \<and> ui_state_ok st'
     \<and> tree_links (links (us_tree st')) (root (us_tree st')) \<and> contents_ok (us_tree st')
     \<and> ui_command_buffer.commands (us_commands st') = []
     \<and> (case us_last_packet st' of None \<Rightarrow> True | Some p \<Rightarrow> \<exists>plan. ui_plan_try_build (pk_snapshot p) = Inr plan)"
proof -
  obtain c1 where c1: "ctx_receive env c = Ret (own_mail env c, c1)" "ctx_inv c1" "edges (kbus c1) = edges (kbus c)"
    using ctx_receive_spec [OF c(1), of env] by blast
  obtain r st1 where st1: "run_fold (ui_receive (ta_route ta)) (own_mail env c) (None, st) = Ret (r, st1)" "ui_state_ok st1"
    using ui_receive_all_ok [OF st mail, of "ta_route ta" None] by blast
  obtain st2 where st2: "ui_update (ta_commands ta) (ta_layout ta) (ui_resize r st1) = Ret st2" "ui_state_ok st2"
    using ui_update_ok [OF ui_resize_ok [OF st1(2)]] by blast
  have e2: "ui_command_buffer.commands (us_commands st2) = []" using ui_update_empties [OF st2(1)] .
  obtain st3 where st3: "ui_paint_frame fbits (ta_order ta) (ta_nodes ta) (ta_packet ta) st2 = Ret st3" "ui_state_ok st3"
    using ui_paint_frame_ok [OF st2(2)] by blast
  have e3: "us_commands st3 = us_commands st2" using ui_paint_frame_commands [OF st3(1)] .
  have "may_reach [''renderer''] env (edges (kbus c1))" using c(2) c1(3) by simp
  from send_to_spec [OF c1(2) this, of "''renderer''"] obtain c2 where "ui_publish env st3 c1 = Ret c2" "ctx_inv c2"
    using c1(2) by (cases "us_last_packet st3") (auto simp: ui_publish_def)
  then show ?thesis using c1(1) st1(1) st2(1) st3 e2 e3
    by (auto simp: ui_tick_def ui_state_ok_def ui_ok_def tree_inv_def packet_ok_def split: option.splits)
qed

lemma ui_try_new_ok:
  assumes "ui_try_new als c = Inr st"
  shows "ui_state_ok st"
proof -
  obtain t where t: "ui_tree_try_new (als 0) c = Inr t" "us_tree st = t" "ui_command_buffer.commands (us_commands st) = []"
    "us_viewport st = \<lparr>rx = f32_zero, ry = f32_zero, rwidth = f32_of_int 1280, rheight = f32_of_int 720\<rparr>" "us_last_packet st = None"
    using assms by (auto simp: ui_try_new_def command_buffer_try_with_capacity_def split: if_splits sum.splits)
  have only: "contents t i = Some d \<Longrightarrow> d = content_new Root" for i d
    using t(1) by (auto simp: ui_tree_try_new_def contents_def node_def vec_get_def Let_def split: if_splits)
  have "contents_ok t"
    unfolding contents_ok_iff using only content_new_sane [of Root] by (fastforce simp: text_too_long_def content_new_def)
  moreover have "contents_f32 t" unfolding contents_f32_def using only content_new_f32 by blast
  moreover have "f32_ok (f32_of_int 1280)" "f32_ok (f32_of_int 720)"
    by (simp_all add: f32_of_int_def f32_one_units_def f32_round_def round_magnitude_def excess_bits.simps nearest_even_def Let_def
        f32_ok_def magnitude_ok_def)
  ultimately show ?thesis using t ui_tree_new_inv [OF t(1)] by (simp add: ui_state_ok_def ui_ok_def commands_f32_def)
qed

theorem ui_tick_safe_witness:
  "\<exists>st st' c'. ui_try_new (\<lambda>_ _. True) ui_config_default = Inr st
     \<and> ui_tick (\<lambda>_. 0) \<lparr>ta_route = \<lambda>_. True, ta_commands = \<lambda>_ _. True, ta_layout = \<lambda>_. True, ta_order = \<lambda>_. True,
          ta_nodes = \<lambda>_ _. True, ta_packet = \<lambda>_ _. True\<rparr>
        \<lparr>debug_build = False, ctx_names = [''ui'', ''renderer''], self_id = 0, dt_ns = 0\<rparr> st two_box_ctx = Ret (st', c')
     \<and> ui_state_ok st'"
proof -
  let ?env = "\<lparr>debug_build = False, ctx_names = [''ui'', ''renderer''], self_id = 0, dt_ns = 0\<rparr>"
  obtain st where st: "ui_try_new (\<lambda>_ _. True) ui_config_default = Inr st"
    by (simp add: ui_try_new_def ui_config_default_def ui_tree_try_new_def command_buffer_try_with_capacity_def layout_try_new_def
        paint_list_try_new_def resource_table_try_new_def Let_def f32_of_int_def f32_one_units_def f32_round_def round_magnitude_def
        excess_bits.simps nearest_even_def)
  have "may_reach [''renderer''] ?env (edges (kbus two_box_ctx))" by (simp add: may_reach_def)
  moreover have "list_all message_f32 (own_mail ?env two_box_ctx)"
    by (simp add: own_mail_def two_box_inv(2))
  ultimately show ?thesis using ui_tick_safe [OF two_box_inv(1) _ ui_try_new_ok [OF st]] st by blast
qed

end
