(* ===== verification/Thread_Pool.thy ===== *)
theory Thread_Pool
  imports Prelude "HOL-Library.Multiset"
begin

text \<open>
  \<open>src/src/platform/thread_pool.rs\<close> under concurrency. The worker threads, the threads that call \<open>try_execute\<close> and
  \<open>wait_idle\<close>, and the thread that drops the pool (or gives up its construction) interleave freely. A step is one access
  to the mutex, the condition variable or the \<open>stop\<close> flag; code between two such accesses that runs under the mutex and
  touches only what the mutex guards is one step. A job is a number. \<open>pending\<close> is a natural number: it is shown to be
  positive where the code decrements it.
\<close>

section \<open>Threads\<close>

text \<open>The program counter of \<open>worker_loop\<close>.\<close>

datatype worker =
    WTop          \<comment> \<open>before the first load of \<open>stop\<close>\<close>
  | WLock         \<comment> \<open>locking the queue\<close>
  | WPop          \<comment> \<open>holds the queue, about to pop\<close>
  | WStop         \<comment> \<open>holds the empty queue, about to load \<open>stop\<close>\<close>
  | WPark         \<comment> \<open>holds the queue, about to wait\<close>
  | WWaiting      \<comment> \<open>asleep on the condition variable\<close>
  | WWoken        \<comment> \<open>woken, locking the queue again\<close>
  | WRun nat      \<comment> \<open>running the job\<close>
  | WDone nat     \<comment> \<open>locking the queue for the completion\<close>
  | WFinish nat   \<comment> \<open>holds the queue, about to count the job as complete\<close>
  | WExit

datatype thread_pool_error = ThreadSpawn | QueueFull | Stopped | PoolAllocationFailed

datatype call_result = Executed "thread_pool_error + unit" | Waited bool

text \<open>A thread outside a call remembers the result of its last one.\<close>

datatype client =
    CIdle "call_result option"
  | CExecLock nat
  | CExecStop nat
  | CExecBody nat
  | CNotify
  | CWaitLock
  | CWaitCheck
  | CWaitStop
  | CWaitPark
  | CWaiting
  | CWoken

text \<open>The thread that ends the pool: \<open>drop\<close>, or the error path of \<open>try_new\<close>, which does not take the mutex.\<close>

datatype ender = ENone | DStore | DLock | DNotify | DJoin | DEnd | FStore | FNotify | FJoin | FEnd

record pool =
  tp_jobs :: "nat list"
  tp_max_jobs :: nat
  tp_stop :: bool
  tp_pending :: nat
  tp_lock :: bool
  tp_workers :: "worker list"
  tp_clients :: "client list"
  tp_ender :: ender
  tp_accepted :: "nat list"
  tp_ran :: "nat list"

definition pool_max_jobs :: "nat \<Rightarrow> nat" where
  "pool_max_jobs n = max (min (n * 1024) usize_max) n"

text \<open>The pool after \<open>try_new\<close>, with every worker about to start. \<open>n\<close> threads were asked for and \<open>m\<close> spawned.\<close>

definition pool_new :: "nat \<Rightarrow> nat \<Rightarrow> nat \<Rightarrow> pool" where
  "pool_new n m k =
     \<lparr>tp_jobs = [], tp_max_jobs = pool_max_jobs (max n 1), tp_stop = False, tp_pending = 0, tp_lock = False,
      tp_workers = replicate m WTop, tp_clients = replicate k (CIdle None), tp_ender = ENone, tp_accepted = [], tp_ran = []\<rparr>"

section \<open>Steps\<close>

definition set_worker :: "nat \<Rightarrow> worker \<Rightarrow> pool \<Rightarrow> pool" where
  "set_worker i w s = s\<lparr>tp_workers := (tp_workers s)[i := w]\<rparr>"

definition set_client :: "nat \<Rightarrow> client \<Rightarrow> pool \<Rightarrow> pool" where
  "set_client k c s = s\<lparr>tp_clients := (tp_clients s)[k := c]\<rparr>"

definition wake_worker :: "worker \<Rightarrow> worker" where
  "wake_worker w = (case w of WWaiting \<Rightarrow> WWoken | _ \<Rightarrow> w)"

definition wake_client :: "client \<Rightarrow> client" where
  "wake_client c = (case c of CWaiting \<Rightarrow> CWoken | _ \<Rightarrow> c)"

definition notify_all :: "pool \<Rightarrow> pool" where
  "notify_all s = s\<lparr>tp_workers := map wake_worker (tp_workers s), tp_clients := map wake_client (tp_clients s)\<rparr>"

text \<open>\<open>notify_one\<close> wakes one waiting thread, which one is not specified; none if nobody waits.\<close>

datatype wake_target = WakeWorker nat | WakeClient nat | WakeNobody

definition notify_one :: "wake_target \<Rightarrow> pool \<Rightarrow> pool option" where
  "notify_one t s =
     (case t of
        WakeWorker i \<Rightarrow> if i < length (tp_workers s) \<and> tp_workers s ! i = WWaiting then Some (set_worker i WWoken s) else None
      | WakeClient k \<Rightarrow> if k < length (tp_clients s) \<and> tp_clients s ! k = CWaiting then Some (set_client k CWoken s) else None
      | WakeNobody \<Rightarrow> if WWaiting \<in> set (tp_workers s) \<or> CWaiting \<in> set (tp_clients s) then None else Some s)"

definition locked :: "pool \<Rightarrow> pool option" where
  "locked s = (if tp_lock s then None else Some (s\<lparr>tp_lock := True\<rparr>))"

definition unlock :: "pool \<Rightarrow> pool" where
  "unlock s = s\<lparr>tp_lock := False\<rparr>"

text \<open>\<open>worker_loop\<close>: \<open>None\<close> when the thread is blocked or has returned.\<close>

definition worker_step :: "nat \<Rightarrow> pool \<Rightarrow> pool option" where
  "worker_step i s =
     (if i \<ge> length (tp_workers s) then None
      else case tp_workers s ! i of
        WTop \<Rightarrow> Some (set_worker i (if tp_stop s then WExit else WLock) s)
      | WLock \<Rightarrow> map_option (set_worker i WPop) (locked s)
      | WPop \<Rightarrow>
          (if tp_jobs s = [] then Some (set_worker i WStop s)
           else Some (set_worker i (WRun (last (tp_jobs s))) (unlock (s\<lparr>tp_jobs := butlast (tp_jobs s)\<rparr>))))
      | WStop \<Rightarrow> if tp_stop s then Some (set_worker i WExit (unlock s)) else Some (set_worker i WPark s)
      | WPark \<Rightarrow> Some (set_worker i WWaiting (unlock s))
      | WWaiting \<Rightarrow> None
      | WWoken \<Rightarrow> map_option (set_worker i WPop) (locked s)
      | WRun j \<Rightarrow> Some (set_worker i (WDone j) (s\<lparr>tp_ran := tp_ran s @ [j]\<rparr>))
      | WDone j \<Rightarrow> map_option (set_worker i (WFinish j)) (locked s)
      | WFinish j \<Rightarrow> Some (unlock (notify_all (set_worker i WTop (s\<lparr>tp_pending := tp_pending s - 1\<rparr>))))
      | WExit \<Rightarrow> None)"

text \<open>\<open>try_execute\<close> and \<open>wait_idle\<close>; \<open>t\<close> is the thread that \<open>notify_one\<close> wakes.\<close>

definition client_step :: "nat \<Rightarrow> wake_target \<Rightarrow> pool \<Rightarrow> pool option" where
  "client_step k t s =
     (if k \<ge> length (tp_clients s) then None
      else case tp_clients s ! k of
        CIdle r \<Rightarrow> None
      | CExecLock j \<Rightarrow> map_option (set_client k (CExecStop j)) (locked s)
      | CExecStop j \<Rightarrow>
          if tp_stop s then Some (set_client k (CIdle (Some (Executed (Inl Stopped)))) (unlock s))
          else Some (set_client k (CExecBody j) s)
      | CExecBody j \<Rightarrow>
          if length (tp_jobs s) \<ge> tp_max_jobs s then Some (set_client k (CIdle (Some (Executed (Inl QueueFull)))) (unlock s))
          else Some (set_client k CNotify (unlock (s\<lparr>tp_jobs := tp_jobs s @ [j], tp_pending := tp_pending s + 1,
                 tp_accepted := tp_accepted s @ [j]\<rparr>)))
      | CNotify \<Rightarrow> notify_one t (set_client k (CIdle (Some (Executed (Inr ())))) s)
      | CWaitLock \<Rightarrow> map_option (set_client k CWaitCheck) (locked s)
      | CWaitCheck \<Rightarrow>
          if tp_jobs s = [] \<and> tp_pending s = 0 then Some (set_client k (CIdle (Some (Waited True))) (unlock s))
          else Some (set_client k CWaitStop s)
      | CWaitStop \<Rightarrow>
          if tp_stop s then Some (set_client k (CIdle (Some (Waited False))) (unlock s))
          else Some (set_client k CWaitPark s)
      | CWaitPark \<Rightarrow> Some (set_client k CWaiting (unlock s))
      | CWaiting \<Rightarrow> None
      | CWoken \<Rightarrow> map_option (set_client k CWaitCheck) (locked s))"

definition ender_step :: "pool \<Rightarrow> pool option" where
  "ender_step s =
     (case tp_ender s of
        ENone \<Rightarrow> None
      | DStore \<Rightarrow> Some (s\<lparr>tp_stop := True, tp_ender := DLock\<rparr>)
      | DLock \<Rightarrow> map_option (tp_ender_update (\<lambda>_. DNotify)) (locked s)
      | DNotify \<Rightarrow> Some (unlock (notify_all (s\<lparr>tp_ender := DJoin\<rparr>)))
      | DJoin \<Rightarrow> if list_all ((=) WExit) (tp_workers s) then Some (s\<lparr>tp_ender := DEnd\<rparr>) else None
      | DEnd \<Rightarrow> None
      | FStore \<Rightarrow> Some (s\<lparr>tp_stop := True, tp_ender := FNotify\<rparr>)
      | FNotify \<Rightarrow> Some (notify_all (s\<lparr>tp_ender := FJoin\<rparr>))
      | FJoin \<Rightarrow> if list_all ((=) WExit) (tp_workers s) then Some (s\<lparr>tp_ender := FEnd\<rparr>) else None
      | FEnd \<Rightarrow> None)"

text \<open>The steps of the threads themselves.\<close>

inductive pool_move :: "pool \<Rightarrow> pool \<Rightarrow> bool" where
  worker: "worker_step i s = Some s' \<Longrightarrow> pool_move s s'"
| client: "client_step k t s = Some s' \<Longrightarrow> pool_move s s'"
| ender: "ender_step s = Some s' \<Longrightarrow> pool_move s s'"

text \<open>What comes from outside: calls, the end of the pool, which Rust's borrow rules allow only when no call is in
  progress, and wake-ups for no reason, which a condition variable may always have.\<close>

definition idle_client :: "client \<Rightarrow> bool" where
  "idle_client c = (case c of CIdle _ \<Rightarrow> True | _ \<Rightarrow> False)"

inductive pool_event :: "pool \<Rightarrow> pool \<Rightarrow> bool" where
  execute: "k < length (tp_clients s) \<Longrightarrow> idle_client (tp_clients s ! k) \<Longrightarrow> tp_ender s = ENone \<Longrightarrow>
     pool_event s (set_client k (CExecLock j) s)"
| wait_idle: "k < length (tp_clients s) \<Longrightarrow> idle_client (tp_clients s ! k) \<Longrightarrow> tp_ender s = ENone \<Longrightarrow>
     pool_event s (set_client k CWaitLock s)"
| drop: "list_all idle_client (tp_clients s) \<Longrightarrow> tp_ender s = ENone \<Longrightarrow> pool_event s (s\<lparr>tp_ender := DStore\<rparr>)"
| spurious_worker: "i < length (tp_workers s) \<Longrightarrow> tp_workers s ! i = WWaiting \<Longrightarrow> pool_event s (set_worker i WWoken s)"
| spurious_client: "k < length (tp_clients s) \<Longrightarrow> tp_clients s ! k = CWaiting \<Longrightarrow> pool_event s (set_client k CWoken s)"

text \<open>A pool of \<open>n\<close> workers used by \<open>k\<close> threads.\<close>

inductive pool_reachable :: "nat \<Rightarrow> nat \<Rightarrow> pool \<Rightarrow> bool" for n k where
  init: "pool_reachable n k (pool_new n (max n 1) k)"
| move: "pool_reachable n k s \<Longrightarrow> pool_move s s' \<Longrightarrow> pool_reachable n k s'"
| event: "pool_reachable n k s \<Longrightarrow> pool_event s s' \<Longrightarrow> pool_reachable n k s'"

inductive_simps pool_move_simps: "pool_move s s'"

section \<open>Invariant\<close>

definition weigh :: "('a \<Rightarrow> 'b :: comm_monoid_add) \<Rightarrow> 'a list \<Rightarrow> 'b" where
  "weigh f xs = sum_list (map f xs)"

lemma weigh_simps [simp]:
  "weigh f [] = 0" "weigh f (x # xs) = f x + weigh f xs" "weigh f (xs @ ys) = weigh f xs + weigh f ys"
  by (simp_all add: weigh_def)

lemma weigh_map: "(\<And>x. f (g x) = f x) \<Longrightarrow> weigh f (map g xs) = weigh f xs"
  by (simp add: weigh_def comp_def)

lemma weigh_eq_0 [simp]: "weigh f xs = (0 :: nat) \<longleftrightarrow> (\<forall>x \<in> set xs. f x = 0)"
  by (induction xs) auto

lemma weigh_pos [simp]: "(0 :: nat) < weigh f xs \<longleftrightarrow> (\<exists>x \<in> set xs. f x \<noteq> 0)"
  using weigh_eq_0 [of f xs] by (auto simp del: weigh_eq_0)

fun worker_holds :: "worker \<Rightarrow> nat" where
  "worker_holds WPop = 1" | "worker_holds WStop = 1" | "worker_holds WPark = 1" | "worker_holds (WFinish _) = 1" | "worker_holds _ = 0"

fun client_holds :: "client \<Rightarrow> nat" where
  "client_holds (CExecStop _) = 1" | "client_holds (CExecBody _) = 1" | "client_holds CWaitCheck = 1"
| "client_holds CWaitStop = 1" | "client_holds CWaitPark = 1" | "client_holds _ = 0"

fun ender_holds :: "ender \<Rightarrow> nat" where
  "ender_holds DNotify = 1" | "ender_holds _ = 0"

fun busy :: "worker \<Rightarrow> nat" where
  "busy (WRun _) = 1" | "busy (WDone _) = 1" | "busy (WFinish _) = 1" | "busy _ = 0"

fun unrun :: "worker \<Rightarrow> nat multiset" where
  "unrun (WRun j) = {#j#}" | "unrun _ = {#}"

definition holders :: "pool \<Rightarrow> nat" where
  "holders s = weigh worker_holds (tp_workers s) + weigh client_holds (tp_clients s) + ender_holds (tp_ender s)"

definition pool_inv :: "pool \<Rightarrow> bool" where
  "pool_inv s \<longleftrightarrow>
     holders s = of_bool (tp_lock s)
     \<and> tp_pending s = length (tp_jobs s) + weigh busy (tp_workers s)
     \<and> mset (tp_accepted s) = mset (tp_jobs s) + weigh unrun (tp_workers s) + mset (tp_ran s)
     \<and> length (tp_jobs s) \<le> tp_max_jobs s
     \<and> (tp_jobs s \<noteq> [] \<longrightarrow> WStop \<notin> set (tp_workers s) \<and> WPark \<notin> set (tp_workers s))
     \<and> (tp_pending s = 0 \<longrightarrow> CWaitStop \<notin> set (tp_clients s) \<and> CWaitPark \<notin> set (tp_clients s) \<and> CWaiting \<notin> set (tp_clients s))
     \<and> (tp_stop s \<longleftrightarrow> tp_ender s \<notin> {ENone, DStore, FStore})
     \<and> (tp_ender s \<noteq> ENone \<longrightarrow> list_all idle_client (tp_clients s))
     \<and> (\<not> tp_stop s \<longrightarrow> WExit \<notin> set (tp_workers s))
     \<and> (tp_ender s \<in> {DJoin, DEnd} \<longrightarrow> WWaiting \<notin> set (tp_workers s) \<and> WPark \<notin> set (tp_workers s))
     \<and> (tp_ender s = DEnd \<longrightarrow> set (tp_workers s) \<subseteq> {WExit})
     \<and> tp_ender s \<notin> {FStore, FNotify, FJoin, FEnd}"

lemma wake_simps [simp]:
  "worker_holds (wake_worker w) = worker_holds w" "busy (wake_worker w) = busy w" "unrun (wake_worker w) = unrun w"
  "wake_worker w = WStop \<longleftrightarrow> w = WStop" "wake_worker w = WPark \<longleftrightarrow> w = WPark" "wake_worker w = WExit \<longleftrightarrow> w = WExit"
  "wake_worker w \<noteq> WWaiting" "client_holds (wake_client c) = client_holds c" "idle_client (wake_client c) = idle_client c"
  "wake_client c = CWaitStop \<longleftrightarrow> c = CWaitStop" "wake_client c = CWaitPark \<longleftrightarrow> c = CWaitPark" "wake_client c \<noteq> CWaiting"
  by (auto simp: wake_worker_def wake_client_def idle_client_def split: worker.splits client.splits)

lemma wake_in_set [simp]:
  "WStop \<in> wake_worker ` A \<longleftrightarrow> WStop \<in> A" "WPark \<in> wake_worker ` A \<longleftrightarrow> WPark \<in> A" "WExit \<in> wake_worker ` A \<longleftrightarrow> WExit \<in> A"
  "WWaiting \<notin> wake_worker ` A" "CWaitStop \<in> wake_client ` B \<longleftrightarrow> CWaitStop \<in> B" "CWaitPark \<in> wake_client ` B \<longleftrightarrow> CWaitPark \<in> B"
  "CWaiting \<notin> wake_client ` B"
  by (metis imageE imageI wake_simps)+

lemma weigh_wake [simp]:
  "weigh worker_holds (map wake_worker ws) = weigh worker_holds ws" "weigh busy (map wake_worker ws) = weigh busy ws"
  "weigh unrun (map wake_worker ws) = weigh unrun ws" "weigh client_holds (map wake_client cs) = weigh client_holds cs"
  by (simp_all add: weigh_map)

lemma idle_client_pcs [simp]: "idle_client (CIdle r)" "\<not> idle_client CNotify" "\<not> idle_client (CExecLock j)" "\<not> idle_client (CExecStop j)"
  "\<not> idle_client (CExecBody j)" "\<not> idle_client CWaitLock" "\<not> idle_client CWaitCheck" "\<not> idle_client CWaitStop"
  "\<not> idle_client CWaitPark" "\<not> idle_client CWaiting" "\<not> idle_client CWoken"
  by (simp_all add: idle_client_def)

lemma idle_client_holds: "idle_client c \<Longrightarrow> client_holds c = 0"
  by (cases c) auto

lemmas step_defs = set_worker_def set_client_def notify_all_def locked_def unlock_def

text \<open>A list seen from one of its elements, so that an update of it computes.\<close>

lemma split_at: "i < length xs \<Longrightarrow> \<exists>us vs. xs = us @ xs ! i # vs \<and> length us = i"
  by (metis id_take_nth_drop length_take min.absorb4 less_imp_le_nat min.absorb2)

lemma pool_invD:
  assumes "pool_inv s"
  shows "holders s = of_bool (tp_lock s)"
    and "tp_pending s = length (tp_jobs s) + weigh busy (tp_workers s)"
    and "mset (tp_accepted s) = mset (tp_jobs s) + weigh unrun (tp_workers s) + mset (tp_ran s)"
    and "length (tp_jobs s) \<le> tp_max_jobs s"
    and "tp_jobs s \<noteq> [] \<Longrightarrow> WStop \<notin> set (tp_workers s) \<and> WPark \<notin> set (tp_workers s)"
    and "tp_pending s = 0 \<Longrightarrow> CWaitStop \<notin> set (tp_clients s) \<and> CWaitPark \<notin> set (tp_clients s) \<and> CWaiting \<notin> set (tp_clients s)"
    and "tp_stop s \<longleftrightarrow> tp_ender s \<notin> {ENone, DStore, FStore}"
    and "tp_ender s \<noteq> ENone \<Longrightarrow> list_all idle_client (tp_clients s)"
    and "\<not> tp_stop s \<Longrightarrow> WExit \<notin> set (tp_workers s)"
    and "tp_ender s \<in> {DJoin, DEnd} \<Longrightarrow> WWaiting \<notin> set (tp_workers s) \<and> WPark \<notin> set (tp_workers s)"
    and "tp_ender s = DEnd \<Longrightarrow> set (tp_workers s) \<subseteq> {WExit}"
    and "tp_ender s \<notin> {FStore, FNotify, FJoin, FEnd}"
  using assms by (simp_all add: pool_inv_def)

lemma worker_alone:
  assumes "pool_inv s" "tp_workers s = us @ w # vs" "worker_holds w = 1"
  shows "tp_lock s" "x \<in> set us \<union> set vs \<Longrightarrow> worker_holds x = 0" "c \<in> set (tp_clients s) \<Longrightarrow> client_holds c = 0" "tp_ender s \<noteq> DNotify"
  using pool_invD(1) [OF assms(1)] assms(2,3) by (cases "tp_lock s"; auto simp: holders_def)+

lemma worker_step_inv:
  assumes inv: "pool_inv s" and st: "worker_step i s = Some s'"
  shows "pool_inv s'"
proof -
  have "i < length (tp_workers s)" using st by (auto simp: worker_step_def split: if_splits)
  then obtain us w vs where ws: "tp_workers s = us @ w # vs" "i = length us" using split_at by blast
  note I = inv [unfolded pool_inv_def]
  show ?thesis
  proof (cases w)
    case WTop
    then have "s' = s\<lparr>tp_workers := us @ (if tp_stop s then WExit else WLock) # vs\<rparr>"
      using st ws by (simp add: worker_step_def step_defs)
    then show ?thesis using I ws WTop unfolding pool_inv_def by (simp add: holders_def)
  next
    case WLock
    then have "\<not> tp_lock s" "s' = s\<lparr>tp_lock := True, tp_workers := us @ WPop # vs\<rparr>"
      using st ws by (simp_all add: worker_step_def step_defs split: if_splits)
    then show ?thesis using I ws WLock unfolding pool_inv_def by (simp add: holders_def)
  next
    case WPop
    show ?thesis
    proof (cases "tp_jobs s = []")
      case True
      then have "s' = s\<lparr>tp_workers := us @ WStop # vs\<rparr>" using WPop st ws by (simp add: worker_step_def step_defs)
      then show ?thesis using I ws WPop True unfolding pool_inv_def by (simp add: holders_def)
    next
      case False
      then obtain js j where j: "tp_jobs s = js @ [j]" by (meson rev_exhaust)
      then have "s' = s\<lparr>tp_jobs := js, tp_lock := False, tp_workers := us @ WRun j # vs\<rparr>"
        using WPop st ws by (simp add: worker_step_def step_defs)
      then show ?thesis using I ws WPop j worker_alone(1) [OF inv ws(1)] unfolding pool_inv_def by (simp add: holders_def)
    qed
  next
    case WStop
    show ?thesis
    proof (cases "tp_stop s")
      case True
      then have "s' = s\<lparr>tp_lock := False, tp_workers := us @ WExit # vs\<rparr>" using WStop st ws by (simp add: worker_step_def step_defs)
      then show ?thesis using I ws WStop True worker_alone(1) [OF inv ws(1)] unfolding pool_inv_def by (simp add: holders_def)
    next
      case False
      then have "s' = s\<lparr>tp_workers := us @ WPark # vs\<rparr>" using WStop st ws by (simp add: worker_step_def step_defs)
      then show ?thesis using I ws WStop False unfolding pool_inv_def by (auto simp: holders_def)
    qed
  next
    case WPark
    then have "s' = s\<lparr>tp_lock := False, tp_workers := us @ WWaiting # vs\<rparr>" using st ws by (simp add: worker_step_def step_defs)
    then show ?thesis using I ws WPark worker_alone(1) [OF inv ws(1)] unfolding pool_inv_def by (simp add: holders_def)
  next
    case WWoken
    then have "\<not> tp_lock s" "s' = s\<lparr>tp_lock := True, tp_workers := us @ WPop # vs\<rparr>"
      using st ws by (simp_all add: worker_step_def step_defs split: if_splits)
    then show ?thesis using I ws WWoken unfolding pool_inv_def by (simp add: holders_def)
  next
    case (WRun j)
    then have "s' = s\<lparr>tp_ran := tp_ran s @ [j], tp_workers := us @ WDone j # vs\<rparr>" using st ws by (simp add: worker_step_def step_defs)
    then show ?thesis using I ws WRun unfolding pool_inv_def by (simp add: holders_def)
  next
    case (WDone j)
    then have "\<not> tp_lock s" "s' = s\<lparr>tp_lock := True, tp_workers := us @ WFinish j # vs\<rparr>"
      using st ws by (simp_all add: worker_step_def step_defs split: if_splits)
    then show ?thesis using I ws WDone unfolding pool_inv_def by (simp add: holders_def)
  next
    case (WFinish j)
    then have "s' = s\<lparr>tp_pending := tp_pending s - 1, tp_workers := map wake_worker (us @ WTop # vs),
        tp_clients := map wake_client (tp_clients s), tp_lock := False\<rparr>" using st ws by (simp add: worker_step_def step_defs)
    moreover have "CWaitStop \<notin> set (tp_clients s)" "CWaitPark \<notin> set (tp_clients s)"
      using worker_alone(3) [OF inv ws(1), of CWaitStop] worker_alone(3) [OF inv ws(1), of CWaitPark] WFinish by auto
    ultimately show ?thesis using I ws WFinish worker_alone(1) [OF inv ws(1)] unfolding pool_inv_def
      by (simp add: holders_def list_all_iff wake_worker_def [of WTop] del: map_append)
  qed (use st ws in \<open>simp_all add: worker_step_def split: if_splits\<close>)
qed

lemma client_alone:
  assumes "pool_inv s" "tp_clients s = us @ c # vs" "client_holds c = 1"
  shows "tp_lock s" "w \<in> set (tp_workers s) \<Longrightarrow> worker_holds w = 0" "x \<in> set us \<union> set vs \<Longrightarrow> client_holds x = 0"
  using pool_invD(1) [OF assms(1)] assms(2,3) by (cases "tp_lock s"; auto simp: holders_def)+

lemma client_active: "pool_inv s \<Longrightarrow> tp_clients s = us @ c # vs \<Longrightarrow> \<not> idle_client c \<Longrightarrow> tp_ender s = ENone \<and> \<not> tp_stop s"
  by (auto simp: pool_inv_def)

lemma notify_one_inv:
  assumes inv: "pool_inv s" and no: "notify_one t s = Some s'"
  shows "pool_inv s'"
proof (cases t)
  case (WakeWorker i)
  then have i: "i < length (tp_workers s)" "tp_workers s ! i = WWaiting" "s' = set_worker i WWoken s"
    using no by (simp_all add: notify_one_def split: if_splits)
  obtain us w vs where ws: "tp_workers s = us @ w # vs" "i = length us" using split_at [OF i(1)] by blast
  then have "w = WWaiting" "s' = s\<lparr>tp_workers := us @ WWoken # vs\<rparr>" using i by (simp_all add: set_worker_def)
  then show ?thesis using inv ws unfolding pool_inv_def by (simp add: holders_def)
next
  case (WakeClient k)
  then have k: "k < length (tp_clients s)" "tp_clients s ! k = CWaiting" "s' = set_client k CWoken s"
    using no by (simp_all add: notify_one_def split: if_splits)
  obtain us c vs where cs: "tp_clients s = us @ c # vs" "k = length us" using split_at [OF k(1)] by blast
  then have "c = CWaiting" "s' = s\<lparr>tp_clients := us @ CWoken # vs\<rparr>" using k by (simp_all add: set_client_def)
  then show ?thesis using inv [unfolded pool_inv_def] cs client_active [OF inv cs(1)] unfolding pool_inv_def by (auto simp: holders_def)
qed (use inv no in \<open>simp add: notify_one_def split: if_splits\<close>)

lemma client_step_inv:
  assumes inv: "pool_inv s" and st: "client_step k t s = Some s'"
  shows "pool_inv s'"
proof -
  have "k < length (tp_clients s)" using st by (auto simp: client_step_def split: if_splits)
  then obtain us c vs where cs: "tp_clients s = us @ c # vs" "k = length us" using split_at by blast
  note I = inv [unfolded pool_inv_def]
  have pc: "tp_clients s ! k = c" using cs by simp
  have set: "set_client k d (s\<lparr>tp_lock := b\<rparr>) = s\<lparr>tp_lock := b, tp_clients := us @ d # vs\<rparr>" "set_client k d s = s\<lparr>tp_clients := us @ d # vs\<rparr>" for d b
    using cs by (simp_all add: set_client_def)
  have nk: "\<not> length (tp_clients s) \<le> k" using cs by simp
  note step = st [unfolded client_step_def locked_def unlock_def pc if_not_P [OF nk]]
  have enter: "pool_inv s'" if "\<not> tp_lock s" "s' = s\<lparr>tp_lock := True, tp_clients := us @ d # vs\<rparr>" "client_holds c = 0" "client_holds d = 1"
      "\<not> idle_client c" "d \<notin> {CWaitStop, CWaitPark, CWaiting}" for d
    using I cs that client_active [OF inv cs(1)] unfolding pool_inv_def by (auto simp: holders_def)
  have leave: "pool_inv s'" if "s' = s\<lparr>tp_lock := False, tp_clients := us @ d # vs\<rparr>" "client_holds c = 1" "client_holds d = 0"
      "\<not> idle_client c" "d = CWaiting \<longrightarrow> tp_pending s \<noteq> 0" for d
    using I cs that client_active [OF inv cs(1)] client_alone(1) [OF inv cs(1)] unfolding pool_inv_def by (auto simp: holders_def)
  have stay: "pool_inv s'" if "s' = s\<lparr>tp_clients := us @ d # vs\<rparr>" "client_holds d = client_holds c"
      "\<not> idle_client c" "d \<in> {CWaitStop, CWaitPark, CWaiting} \<longrightarrow> tp_pending s \<noteq> 0" for d
    using I cs that client_active [OF inv cs(1)] unfolding pool_inv_def by (auto simp: holders_def)
  show ?thesis
  proof (cases c)
    case (CExecLock j)
    then show ?thesis using step enter [of "CExecStop j"] cs(1) by (auto simp: set split: if_splits)
  next
    case (CExecStop j)
    then show ?thesis using step stay [of "CExecBody j"] leave [of "CIdle (Some (Executed (Inl Stopped)))"] cs(1)
      by (auto simp: set split: if_splits)
  next
    case (CExecBody j)
    show ?thesis
    proof (cases "tp_max_jobs s \<le> length (tp_jobs s)")
      case True
      then show ?thesis using step leave [of "CIdle (Some (Executed (Inl QueueFull)))"] CExecBody cs(1) by (auto simp: set)
    next
      case False
      then have s': "s' = s\<lparr>tp_jobs := tp_jobs s @ [j], tp_pending := tp_pending s + 1, tp_accepted := tp_accepted s @ [j],
          tp_lock := False, tp_clients := us @ CNotify # vs\<rparr>" using step CExecBody cs by (simp add: set_client_def)
      have "WStop \<notin> set (tp_workers s)" "WPark \<notin> set (tp_workers s)"
        using client_alone(2) [OF inv cs(1)] CExecBody by fastforce+
      then show ?thesis using s' I cs False CExecBody client_active [OF inv cs(1)] client_alone(1) [OF inv cs(1)] unfolding pool_inv_def
        by (simp add: holders_def)
    qed
  next
    case CNotify
    let ?s = "set_client k (CIdle (Some (Executed (Inr ())))) s"
    have "pool_inv ?s" using I cs CNotify client_active [OF inv cs(1)] unfolding pool_inv_def set by (simp add: holders_def)
    moreover have "notify_one t ?s = Some s'" using step CNotify by simp
    ultimately show ?thesis by (rule notify_one_inv)
  next
    case CWaitLock
    then show ?thesis using step enter [of CWaitCheck] cs(1) by (auto simp: set split: if_splits)
  next
    case CWaitCheck
    then show ?thesis using step stay [of CWaitStop] leave [of "CIdle (Some (Waited True))"] cs(1) pool_invD(2) [OF inv]
      by (auto simp: set split: if_splits)
  next
    case CWaitStop
    then show ?thesis using step stay [of CWaitPark] leave [of "CIdle (Some (Waited False))"] cs(1) pool_invD(6) [OF inv]
      by (auto simp: set split: if_splits)
  next
    case CWaitPark
    then show ?thesis using step leave [of CWaiting] cs(1) pool_invD(6) [OF inv] by (auto simp: set)
  next
    case CWoken
    then show ?thesis using step enter [of CWaitCheck] cs(1) by (auto simp: set split: if_splits)
  qed (use step in simp_all)
qed

lemma ender_alone:
  assumes "pool_inv s" "tp_ender s = DNotify"
  shows "tp_lock s" "w \<in> set (tp_workers s) \<Longrightarrow> worker_holds w = 0"
  using pool_invD(1) [OF assms(1)] assms(2) by (cases "tp_lock s"; auto simp: holders_def)+

lemma ender_step_inv:
  assumes inv: "pool_inv s" and st: "ender_step s = Some s'"
  shows "pool_inv s'"
proof -
  note I = inv [unfolded pool_inv_def]
  show ?thesis
  proof (cases "tp_ender s")
    case DStore
    then have "s' = s\<lparr>tp_stop := True, tp_ender := DLock\<rparr>" using st by (simp add: ender_step_def)
    then show ?thesis using I DStore unfolding pool_inv_def by (simp add: holders_def)
  next
    case DLock
    then have "\<not> tp_lock s" "s' = s\<lparr>tp_lock := True, tp_ender := DNotify\<rparr>"
      using st by (simp_all add: ender_step_def locked_def split: if_splits)
    then show ?thesis using I DLock unfolding pool_inv_def by (simp add: holders_def)
  next
    case DNotify
    then have s': "s' = s\<lparr>tp_ender := DJoin, tp_workers := map wake_worker (tp_workers s), tp_clients := map wake_client (tp_clients s),
        tp_lock := False\<rparr>" using st by (simp add: ender_step_def notify_all_def unlock_def)
    have "WPark \<notin> set (tp_workers s)" using ender_alone(2) [OF inv DNotify] by fastforce
    then show ?thesis using I s' DNotify ender_alone(1) [OF inv DNotify] unfolding pool_inv_def
      by (auto simp: holders_def list_all_iff)
  next
    case DJoin
    then have "list_all ((=) WExit) (tp_workers s)" "s' = s\<lparr>tp_ender := DEnd\<rparr>"
      using st by (simp_all add: ender_step_def split: if_splits)
    then show ?thesis using I DJoin unfolding pool_inv_def by (auto simp: holders_def list_all_iff)
  qed (use I st in \<open>simp_all add: ender_step_def\<close>)
qed

lemma pool_move_inv: "pool_inv s \<Longrightarrow> pool_move s s' \<Longrightarrow> pool_inv s'"
  by (auto simp: pool_move_simps intro: worker_step_inv client_step_inv ender_step_inv)

lemma new_call_inv:
  assumes inv: "pool_inv s" and k: "k < length (tp_clients s)" "idle_client (tp_clients s ! k)" "tp_ender s = ENone"
    and d: "client_holds d = 0" "d \<notin> {CWaitStop, CWaitPark, CWaiting}"
  shows "pool_inv (set_client k d s)"
proof -
  obtain us c vs where cs: "tp_clients s = us @ c # vs" "k = length us" using split_at [OF k(1)] by blast
  then have "idle_client c" "set_client k d s = s\<lparr>tp_clients := us @ d # vs\<rparr>" using k by (simp_all add: set_client_def)
  then show ?thesis using inv [unfolded pool_inv_def] cs k(3) d idle_client_holds [of c] unfolding pool_inv_def
    by (auto simp: holders_def)
qed

lemma pool_event_inv:
  assumes inv: "pool_inv s" and ev: "pool_event s s'"
  shows "pool_inv s'"
  using ev
proof cases
  case drop
  then show ?thesis using inv unfolding pool_inv_def by (simp add: holders_def)
next
  case (spurious_worker i)
  then show ?thesis using notify_one_inv [OF inv, of "WakeWorker i"] by (simp add: notify_one_def)
next
  case (spurious_client k)
  then show ?thesis using notify_one_inv [OF inv, of "WakeClient k"] by (simp add: notify_one_def)
qed (use new_call_inv [OF inv] in simp_all)

lemma weigh_replicate: "f x = 0 \<Longrightarrow> weigh f (replicate m x) = 0"
  by (induction m) auto

lemma pool_reachable_inv: "pool_reachable n k s \<Longrightarrow> pool_inv s"
proof (induction rule: pool_reachable.induct)
  case init
  show ?case
    by (auto simp: weigh_replicate pool_inv_def pool_new_def holders_def list_all_iff)
qed (blast intro: pool_move_inv pool_event_inv)+

lemma pool_reachable_shape:
  assumes "pool_reachable n k s"
  shows "length (tp_workers s) = max n 1" "length (tp_clients s) = k" "tp_max_jobs s = pool_max_jobs (max n 1)"
proof -
  have one: "notify_one t s = Some s' \<Longrightarrow> length (tp_workers s') = length (tp_workers s) \<and> length (tp_clients s') = length (tp_clients s)
      \<and> tp_max_jobs s' = tp_max_jobs s" for t s s'
    by (auto simp: notify_one_def set_worker_def set_client_def split: wake_target.splits if_splits)
  have mv: "length (tp_workers s') = length (tp_workers s) \<and> length (tp_clients s') = length (tp_clients s) \<and> tp_max_jobs s' = tp_max_jobs s"
    if "pool_move s s'" for s s' using that
  proof cases
    case (worker i)
    then show ?thesis by (auto simp: worker_step_def step_defs split: if_splits worker.splits)
  next
    case (client k t)
    then show ?thesis using one [of t "set_client k (CIdle (Some (Executed (Inr ())))) s" s']
      by (auto simp: client_step_def step_defs split: if_splits client.splits)
  next
    case ender
    then show ?thesis by (auto simp: ender_step_def step_defs split: if_splits ender.splits)
  qed
  have ev: "length (tp_workers s') = length (tp_workers s) \<and> length (tp_clients s') = length (tp_clients s) \<and> tp_max_jobs s' = tp_max_jobs s"
    if "pool_event s s'" for s s' using that by cases (simp_all add: set_worker_def set_client_def)
  have "length (tp_workers s) = max n 1 \<and> length (tp_clients s) = k \<and> tp_max_jobs s = pool_max_jobs (max n 1)"
    using assms by (induction rule: pool_reachable.induct) (simp_all add: pool_new_def mv ev)
  then show "length (tp_workers s) = max n 1" "length (tp_clients s) = k" "tp_max_jobs s = pool_max_jobs (max n 1)" by simp_all
qed

section \<open>Termination\<close>

text \<open>Left to themselves the threads come to rest: a call that has not queued its job yet, the end of the pool, the jobs
  that are not complete, the jobs that are queued, and the distance of every thread to its next sleep decrease
  lexicographically.\<close>

fun before_push :: "client \<Rightarrow> nat" where
  "before_push (CExecLock _) = 1" | "before_push (CExecStop _) = 1" | "before_push (CExecBody _) = 1" | "before_push _ = 0"

fun ender_rank :: "ender \<Rightarrow> nat" where
  "ender_rank DStore = 4" | "ender_rank DLock = 3" | "ender_rank DNotify = 2" | "ender_rank DJoin = 1"
| "ender_rank FStore = 3" | "ender_rank FNotify = 2" | "ender_rank FJoin = 1" | "ender_rank _ = 0"

fun worker_rank :: "worker \<Rightarrow> nat" where
  "worker_rank WTop = 7" | "worker_rank WLock = 6" | "worker_rank WWoken = 6" | "worker_rank WPop = 5" | "worker_rank WStop = 4"
| "worker_rank WPark = 3" | "worker_rank (WRun _) = 3" | "worker_rank (WDone _) = 2" | "worker_rank (WFinish _) = 1" | "worker_rank _ = 0"

fun client_rank :: "client \<Rightarrow> nat" where
  "client_rank (CExecLock _) = 3" | "client_rank (CExecStop _) = 2" | "client_rank (CExecBody _) = 1" | "client_rank CNotify = 10"
| "client_rank CWaitLock = 6" | "client_rank CWoken = 6" | "client_rank CWaitCheck = 5" | "client_rank CWaitStop = 4"
| "client_rank CWaitPark = 3" | "client_rank _ = 0"

definition pool_measure :: "(pool \<times> pool) set" where
  "pool_measure = measures [\<lambda>s. weigh before_push (tp_clients s), \<lambda>s. ender_rank (tp_ender s),
     \<lambda>s. length (tp_jobs s) + weigh busy (tp_workers s), \<lambda>s. length (tp_jobs s),
     \<lambda>s. weigh worker_rank (tp_workers s) + weigh client_rank (tp_clients s)]"

lemma before_push_wake [simp]: "weigh before_push (map wake_client cs) = weigh before_push cs"
proof (rule weigh_map)
  show "before_push (wake_client c) = before_push c" for c by (cases c) (simp_all add: wake_client_def)
qed

lemma worker_step_smaller:
  assumes "worker_step i s = Some s'"
  shows "(s', s) \<in> pool_measure"
proof -
  have "i < length (tp_workers s)" using assms by (auto simp: worker_step_def split: if_splits)
  then obtain us w vs where ws: "tp_workers s = us @ w # vs" "i = length us" using split_at by blast
  show ?thesis
  proof (cases w)
    case WPop
    then show ?thesis using assms ws
      by (cases "tp_jobs s = []") (auto simp: worker_step_def step_defs pool_measure_def)
  next
    case (WFinish j)
    then have "s' = s\<lparr>tp_pending := tp_pending s - 1, tp_workers := map wake_worker us @ WTop # map wake_worker vs,
        tp_clients := map wake_client (tp_clients s), tp_lock := False\<rparr>"
      using assms ws by (simp add: worker_step_def step_defs wake_worker_def [of WTop])
    then show ?thesis using ws WFinish by (simp add: pool_measure_def)
  qed (use assms ws in \<open>auto simp: worker_step_def step_defs pool_measure_def split: if_splits\<close>)
qed

lemma notify_one_rank:
  assumes "notify_one t s = Some s'"
  shows "weigh before_push (tp_clients s') = weigh before_push (tp_clients s) \<and> tp_ender s' = tp_ender s \<and> tp_jobs s' = tp_jobs s
     \<and> weigh busy (tp_workers s') = weigh busy (tp_workers s)
     \<and> weigh worker_rank (tp_workers s') + weigh client_rank (tp_clients s')
        \<le> weigh worker_rank (tp_workers s) + weigh client_rank (tp_clients s) + 6"
proof (cases t)
  case (WakeWorker i)
  then have i: "i < length (tp_workers s)" "tp_workers s ! i = WWaiting" "s' = set_worker i WWoken s"
    using assms by (simp_all add: notify_one_def split: if_splits)
  obtain us w vs where "tp_workers s = us @ w # vs" "i = length us" using split_at [OF i(1)] by blast
  then show ?thesis using i by (simp add: set_worker_def)
next
  case (WakeClient k)
  then have k: "k < length (tp_clients s)" "tp_clients s ! k = CWaiting" "s' = set_client k CWoken s"
    using assms by (simp_all add: notify_one_def split: if_splits)
  obtain us c vs where "tp_clients s = us @ c # vs" "k = length us" using split_at [OF k(1)] by blast
  then show ?thesis using k by (simp add: set_client_def)
qed (use assms in \<open>simp add: notify_one_def split: if_splits\<close>)

lemma client_step_smaller:
  assumes "client_step k t s = Some s'"
  shows "(s', s) \<in> pool_measure"
proof -
  have "k < length (tp_clients s)" using assms by (auto simp: client_step_def split: if_splits)
  then obtain us c vs where cs: "tp_clients s = us @ c # vs" "k = length us" using split_at by blast
  show ?thesis
  proof (cases c)
    case CNotify
    then have "notify_one t (s\<lparr>tp_clients := us @ CIdle (Some (Executed (Inr ()))) # vs\<rparr>) = Some s'"
      using assms cs by (simp add: client_step_def set_client_def)
    from notify_one_rank [OF this] show ?thesis using cs CNotify by (simp add: pool_measure_def)
  qed (use assms cs in \<open>auto simp: client_step_def step_defs pool_measure_def split: if_splits\<close>)
qed

lemma ender_step_smaller: "ender_step s = Some s' \<Longrightarrow> (s', s) \<in> pool_measure"
  by (cases "tp_ender s") (auto simp: ender_step_def step_defs pool_measure_def split: if_splits)

lemma pool_move_smaller: "pool_move s s' \<Longrightarrow> (s', s) \<in> pool_measure"
  by (auto simp: pool_move_simps intro: worker_step_smaller client_step_smaller ender_step_smaller)

lemma pool_move_wf: "wf {(s', s). pool_move s s'}"
  by (rule wf_subset [of pool_measure]) (auto simp: pool_measure_def intro: pool_move_smaller [unfolded pool_measure_def])

section \<open>No wake-up is lost with a single caller\<close>

definition someone_awake :: "pool \<Rightarrow> bool" where
  "someone_awake s \<longleftrightarrow> (\<exists>w \<in> set (tp_workers s). w \<noteq> WWaiting)"

definition wake_inv :: "pool \<Rightarrow> bool" where
  "wake_inv s \<longleftrightarrow> (tp_jobs s \<noteq> [] \<and> \<not> tp_stop s \<longrightarrow> someone_awake s \<or> CNotify \<in> set (tp_clients s))"

lemma someone_awake_set: "i < length (tp_workers s) \<Longrightarrow> w \<noteq> WWaiting \<Longrightarrow> someone_awake (set_worker i w s)"
  by (auto simp: someone_awake_def set_worker_def intro!: bexI [of _ w] set_update_memI)

lemma worker_step_awake:
  assumes "pool_inv s" "worker_step i s = Some s'"
  shows "someone_awake s' \<or> tp_jobs s' = []"
proof -
  have i: "i < length (tp_workers s)" using assms(2) by (auto simp: worker_step_def split: if_splits)
  then have mem: "tp_workers s ! i \<in> set (tp_workers s)" by simp
  show ?thesis
  proof (cases "tp_workers s ! i")
    case WPark
    then have "tp_jobs s = []" using pool_invD(5) [OF assms(1)] mem by auto
    then show ?thesis using assms(2) WPark i by (auto simp: worker_step_def step_defs)
  next
    case (WFinish j)
    then have "s' = unlock (notify_all (set_worker i WTop (s\<lparr>tp_pending := tp_pending s - 1\<rparr>)))"
      using assms(2) i by (simp add: worker_step_def)
    then show ?thesis using i by (cases "tp_workers s") (auto simp: step_defs someone_awake_def split: nat.split)
  qed (use assms(2) i someone_awake_set in \<open>auto simp: worker_step_def locked_def unlock_def split: if_splits\<close>)
qed

lemma client_step_wake_inv:
  assumes inv: "pool_inv s" "wake_inv s" and shape: "length (tp_clients s) = 1" "tp_workers s \<noteq> []"
    and st: "client_step k t s = Some s'"
  shows "wake_inv s'"
proof -
  obtain c where c: "tp_clients s = [c]" using shape(1) by (auto simp: length_Suc_conv)
  have k: "k = 0" using st c by (auto simp: client_step_def split: if_splits)
  show ?thesis
  proof (cases "c = CNotify")
    case True
    let ?s = "s\<lparr>tp_clients := [CIdle (Some (Executed (Inr ())))]\<rparr>"
    have no: "notify_one t ?s = Some s'" using st c k True by (simp add: client_step_def set_client_def)
    have "someone_awake s'"
    proof (cases "someone_awake s")
      case True
      then show ?thesis using no someone_awake_set
        by (cases t) (auto simp: notify_one_def split: if_splits, simp add: someone_awake_def)
    next
      case False
      then have "WWaiting \<in> set (tp_workers s)" using shape(2) by (cases "tp_workers s") (auto simp: someone_awake_def)
      then show ?thesis using no someone_awake_set by (auto simp: notify_one_def split: wake_target.splits if_splits)
    qed
    then show ?thesis by (simp add: wake_inv_def)
  next
    case False
    then have aw: "tp_jobs s \<noteq> [] \<and> \<not> tp_stop s \<longrightarrow> someone_awake s" using inv(2) c by (simp add: wake_inv_def)
    then show ?thesis using False st c k
      by (cases c) (auto simp: client_step_def step_defs wake_inv_def someone_awake_def split: if_splits)
  qed
qed

lemma pool_wake_inv:
  assumes "pool_reachable n 1 s"
  shows "wake_inv s"
  using assms
proof (induction rule: pool_reachable.induct)
  case init
  show ?case by (simp add: wake_inv_def pool_new_def)
next
  case (move s s')
  have inv: "pool_inv s" using pool_reachable_inv [OF move.hyps(1)] .
  have shape: "length (tp_clients s) = 1" "tp_workers s \<noteq> []" using pool_reachable_shape [OF move.hyps(1)] by auto
  from move.hyps(2) show ?case
  proof cases
    case (worker i)
    then show ?thesis using worker_step_awake [OF inv] by (auto simp: wake_inv_def)
  next
    case (client k t)
    then show ?thesis using client_step_wake_inv [OF inv move.IH shape] by blast
  next
    case ender
    then show ?thesis using move.IH pool_invD(7,12) [OF inv]
      by (cases "tp_ender s") (auto simp: ender_step_def step_defs wake_inv_def someone_awake_def split: if_splits)
  qed
next
  case (event s s')
  obtain c where c: "tp_clients s = [c]" using pool_reachable_shape(2) [OF event.hyps(1)] by (auto simp: length_Suc_conv)
  from event.hyps(2) show ?case
  proof cases
    case (spurious_worker i)
    then show ?thesis using someone_awake_set by (simp add: wake_inv_def)
  qed (use event.IH c in \<open>auto simp: wake_inv_def someone_awake_def set_client_def\<close>)
qed

section \<open>What it means to be at rest\<close>

definition pool_stuck :: "pool \<Rightarrow> bool" where
  "pool_stuck s \<longleftrightarrow> (\<forall>s'. \<not> pool_move s s')"

lemma pool_stuck_iff:
  "pool_stuck s \<longleftrightarrow> (\<forall>i. worker_step i s = None) \<and> (\<forall>k t. client_step k t s = None) \<and> ender_step s = None"
  unfolding pool_stuck_def pool_move_simps by (metis not_None_eq option.distinct(1))

lemma worker_stuck:
  assumes "worker_step i s = None" "i < length (tp_workers s)"
  shows "tp_workers s ! i \<in> {WWaiting, WExit} \<or> tp_lock s \<and> worker_holds (tp_workers s ! i) = 0"
  using assms by (cases "tp_workers s ! i") (auto simp: worker_step_def locked_def split: if_splits)

lemma notify_one_possible: "\<exists>t s'. notify_one t s = Some s'"
proof (cases "WWaiting \<in> set (tp_workers s) \<or> CWaiting \<in> set (tp_clients s)")
  case True
  then consider i where "i < length (tp_workers s)" "tp_workers s ! i = WWaiting"
    | k where "k < length (tp_clients s)" "tp_clients s ! k = CWaiting" by (metis in_set_conv_nth)
  then show ?thesis
  proof cases
    case 1
    then show ?thesis by (intro exI [of _ "WakeWorker i"]) (simp add: notify_one_def)
  next
    case 2
    then show ?thesis by (intro exI [of _ "WakeClient k"]) (simp add: notify_one_def)
  qed
next
  case False
  then show ?thesis by (intro exI [of _ WakeNobody]) (simp add: notify_one_def)
qed

lemma client_stuck:
  assumes "\<And>t. client_step k t s = None" "k < length (tp_clients s)"
  shows "idle_client (tp_clients s ! k) \<or> tp_clients s ! k = CWaiting \<or> tp_lock s \<and> client_holds (tp_clients s ! k) = 0"
proof (cases "tp_clients s ! k = CNotify")
  case True
  obtain t s' where "notify_one t (set_client k (CIdle (Some (Executed (Inr ())))) s) = Some s'" using notify_one_possible by blast
  then show ?thesis using assms True by (auto simp: client_step_def)
next
  case False
  then show ?thesis using assms by (cases "tp_clients s ! k") (auto simp: client_step_def locked_def split: if_splits)
qed

text \<open>Whoever holds the mutex can go on, so at rest it is free.\<close>

lemma stuck_unlocked:
  assumes inv: "pool_inv s" and st: "pool_stuck s"
  shows "\<not> tp_lock s"
proof
  assume l: "tp_lock s"
  have w: "worker_holds x = 0" if "x \<in> set (tp_workers s)" for x
  proof -
    from that obtain i where i: "i < length (tp_workers s)" "tp_workers s ! i = x" by (auto simp: in_set_conv_nth)
    then show ?thesis using worker_stuck [of i s] st by (auto simp: pool_stuck_iff)
  qed
  have c: "client_holds x = 0" if "x \<in> set (tp_clients s)" for x
  proof -
    from that obtain i where i: "i < length (tp_clients s)" "tp_clients s ! i = x" by (auto simp: in_set_conv_nth)
    then show ?thesis using client_stuck [of i s] st idle_client_holds by (auto simp: pool_stuck_iff)
  qed
  have "tp_ender s \<noteq> DNotify" using st by (auto simp: pool_stuck_iff ender_step_def)
  then have "ender_holds (tp_ender s) = 0" by (cases "tp_ender s") simp_all
  then have "holders s = 0" using w c by (simp add: holders_def)
  then show False using pool_invD(1) [OF inv] l by simp
qed

lemma stuck_workers:
  assumes "pool_inv s" "pool_stuck s" "w \<in> set (tp_workers s)"
  shows "w \<in> {WWaiting, WExit}"
proof -
  obtain i where "i < length (tp_workers s)" "tp_workers s ! i = w" using assms(3) by (auto simp: in_set_conv_nth)
  then show ?thesis using worker_stuck [of i s] assms(2) stuck_unlocked [OF assms(1,2)] by (auto simp: pool_stuck_iff)
qed

lemma stuck_clients:
  assumes "pool_inv s" "pool_stuck s" "c \<in> set (tp_clients s)"
  shows "idle_client c \<or> c = CWaiting"
proof -
  obtain i where "i < length (tp_clients s)" "tp_clients s ! i = c" using assms(3) by (auto simp: in_set_conv_nth)
  then show ?thesis using client_stuck [of i s] assms(2) stuck_unlocked [OF assms(1,2)] by (auto simp: pool_stuck_iff)
qed

lemma stuck_ender:
  assumes inv: "pool_inv s" and st: "pool_stuck s"
  shows "tp_ender s = ENone \<or> tp_ender s = DEnd"
proof (rule ccontr)
  assume n: "\<not> ?thesis"
  have "tp_ender s \<noteq> DJoin"
  proof
    assume j: "tp_ender s = DJoin"
    then have "WWaiting \<notin> set (tp_workers s)" using pool_invD(10) [OF inv] by simp
    then have "list_all ((=) WExit) (tp_workers s)" using stuck_workers [OF inv st] by (fastforce simp: list_all_iff)
    then show False using st j by (simp add: pool_stuck_iff ender_step_def)
  qed
  then show False using n st stuck_unlocked [OF inv st] pool_invD(12) [OF inv]
    by (cases "tp_ender s") (auto simp: pool_stuck_iff ender_step_def locked_def)
qed

lemma stuck_single:
  assumes r: "pool_reachable n 1 s" and st: "pool_stuck s"
  shows "list_all idle_client (tp_clients s)"
    "tp_ender s = ENone \<and> tp_jobs s = [] \<and> mset (tp_ran s) = mset (tp_accepted s) \<and> set (tp_workers s) \<subseteq> {WWaiting}
     \<or> tp_ender s = DEnd \<and> set (tp_workers s) \<subseteq> {WExit}"
proof -
  note inv = pool_reachable_inv [OF r]
  have nb: "weigh busy (tp_workers s) = 0" using stuck_workers [OF inv st] by fastforce
  have nu: "weigh unrun ws = {#}" if "set ws \<subseteq> {WWaiting, WExit}" for ws using that by (induction ws) auto
  have ws: "set (tp_workers s) \<subseteq> {WWaiting, WExit}" using stuck_workers [OF inv st] by blast
  have none: "tp_jobs s = [] \<and> set (tp_workers s) \<subseteq> {WWaiting}" if e: "tp_ender s = ENone"
  proof -
    have ns: "\<not> tp_stop s" using pool_invD(7) [OF inv] e by simp
    then have w: "set (tp_workers s) \<subseteq> {WWaiting}" using ws pool_invD(9) [OF inv] by auto
    have "CNotify \<notin> set (tp_clients s)" using stuck_clients [OF inv st] by fastforce
    then show ?thesis using pool_wake_inv [OF r] w ns by (auto simp: wake_inv_def someone_awake_def)
  qed
  show "list_all idle_client (tp_clients s)"
  proof (cases "tp_ender s = ENone")
    case True
    then have "tp_pending s = 0" using none pool_invD(2) [OF inv] nb by simp
    then have "CWaiting \<notin> set (tp_clients s)" using pool_invD(6) [OF inv] by simp
    then show ?thesis using stuck_clients [OF inv st] by (fastforce simp: list_all_iff)
  qed (use pool_invD(8) [OF inv] in simp)
  show "tp_ender s = ENone \<and> tp_jobs s = [] \<and> mset (tp_ran s) = mset (tp_accepted s) \<and> set (tp_workers s) \<subseteq> {WWaiting}
     \<or> tp_ender s = DEnd \<and> set (tp_workers s) \<subseteq> {WExit}"
    using stuck_ender [OF inv st] none pool_invD(3,11) [OF inv] nu [OF ws] by auto
qed

lemma idle_unrun: "\<forall>w \<in> set ws. busy w = 0 \<Longrightarrow> weigh unrun ws = {#}"
proof (induction ws)
  case (Cons w ws)
  then show ?case by (cases w) simp_all
qed simp

section \<open>Schedules\<close>

datatype pool_label = ByWorker nat | ByClient nat wake_target | ByEnder | CallExecute nat nat | CallWait nat

definition label_step :: "pool_label \<Rightarrow> pool \<Rightarrow> pool option" where
  "label_step l s =
     (case l of
        ByWorker i \<Rightarrow> worker_step i s
      | ByClient k t \<Rightarrow> client_step k t s
      | ByEnder \<Rightarrow> ender_step s
      | CallExecute k j \<Rightarrow>
          if k < length (tp_clients s) \<and> idle_client (tp_clients s ! k) \<and> tp_ender s = ENone then Some (set_client k (CExecLock j) s) else None
      | CallWait k \<Rightarrow>
          if k < length (tp_clients s) \<and> idle_client (tp_clients s ! k) \<and> tp_ender s = ENone then Some (set_client k CWaitLock s) else None)"

fun run_labels :: "pool_label list \<Rightarrow> pool \<Rightarrow> pool option" where
  "run_labels [] s = Some s"
| "run_labels (l # ls) s = (case label_step l s of None \<Rightarrow> None | Some s' \<Rightarrow> run_labels ls s')"

lemma run_labels_reachable:
  "pool_reachable n k s \<Longrightarrow> run_labels ls s = Some s' \<Longrightarrow> pool_reachable n k s'"
proof (induction ls arbitrary: s)
  case (Cons l ls)
  then obtain s1 where s1: "label_step l s = Some s1" "run_labels ls s1 = Some s'" by (auto split: option.splits)
  have "pool_move s s1 \<or> pool_event s s1"
    using s1(1) by (auto simp: label_step_def pool_move_simps intro: pool_event.intros split: pool_label.splits if_splits)
  then show ?case using Cons.IH [of s1] Cons.prems(1) s1(2) pool_reachable.move pool_reachable.event by blast
qed simp

lemmas run_defs = label_step_def worker_step_def client_step_def ender_step_def step_defs notify_one_def pool_new_def pool_max_jobs_def
  usize_max_def idle_client_def wake_worker_def wake_client_def

section \<open>Properties\<close>

text \<open>C32: The thread pool runs what it accepts. In every interleaving of any number of workers and callers at most one
  thread holds the queue mutex, and the lock is free exactly when none does; the queue never exceeds its bound; every
  accepted job is queued, with one worker that has not run it yet, or has been run, and nothing else is ever run, so no
  job runs twice; the pending count is exact and positive whenever a completion decrements it; and when \<open>wait_idle\<close>
  returns true, every job accepted so far has been run.\<close>

theorem thread_pool_safe:
  assumes "pool_reachable n k s"
  shows "holders s = of_bool (tp_lock s) \<and> length (tp_jobs s) \<le> pool_max_jobs (max n 1)
     \<and> mset (tp_accepted s) = mset (tp_jobs s) + weigh unrun (tp_workers s) + mset (tp_ran s)
     \<and> tp_pending s = length (tp_jobs s) + weigh busy (tp_workers s)
     \<and> (\<forall>i j. i < length (tp_workers s) \<and> tp_workers s ! i = WFinish j \<longrightarrow> 0 < tp_pending s)
     \<and> (\<forall>i t s'. i < k \<and> client_step i t s = Some s' \<and> tp_clients s' ! i = CIdle (Some (Waited True)) \<longrightarrow>
          mset (tp_ran s') = mset (tp_accepted s'))"
proof -
  note inv = pool_reachable_inv [OF assms]
  have fin: "0 < tp_pending s" if "i < length (tp_workers s)" "tp_workers s ! i = WFinish j" for i j
  proof -
    have "WFinish j \<in> set (tp_workers s)" using that nth_mem by metis
    then show ?thesis using pool_invD(2) [OF inv] by (auto intro!: bexI [of _ "WFinish j"])
  qed
  have done_all: "mset (tp_ran s') = mset (tp_accepted s')"
    if st: "i < k" "client_step i t s = Some s'" "tp_clients s' ! i = CIdle (Some (Waited True))" for i t s'
  proof -
    have i: "i < length (tp_clients s)" using st(1) pool_reachable_shape(2) [OF assms] by simp
    have "tp_clients s ! i = CWaitCheck"
      using st(2,3) i by (auto simp: client_step_def step_defs notify_one_def nth_list_update split: client.splits if_splits wake_target.splits)
    then have "tp_jobs s = []" "tp_pending s = 0" "tp_ran s' = tp_ran s" "tp_accepted s' = tp_accepted s"
      using st(2,3) i by (auto simp: client_step_def step_defs split: if_splits)
    moreover from this have "\<forall>w \<in> set (tp_workers s). busy w = 0" using pool_invD(2) [OF inv] by simp
    then have "weigh unrun (tp_workers s) = {#}" by (rule idle_unrun)
    ultimately show ?thesis using pool_invD(3) [OF inv] by simp
  qed
  show ?thesis using pool_invD(1-4) [OF inv] pool_reachable_shape(3) [OF assms] fin done_all by auto
qed

definition one_job_run :: "pool_label list" where
  "one_job_run = [ByWorker 0, ByWorker 0, ByWorker 0, ByWorker 0, ByWorker 0, CallExecute 0 7, ByClient 0 WakeNobody,
     ByClient 0 WakeNobody, ByClient 0 WakeNobody, ByClient 0 (WakeWorker 0), ByWorker 0, ByWorker 0]"

theorem thread_pool_safe_witness:
  "\<exists>s. run_labels one_job_run (pool_new 1 1 1) = Some s \<and> tp_workers s = [WRun 7] \<and> tp_pending s = 1 \<and> holders s = of_bool (tp_lock s)"
proof -
  obtain s where s: "run_labels one_job_run (pool_new 1 1 1) = Some s" "tp_workers s = [WRun 7]" "tp_jobs s = []"
    by (simp add: one_job_run_def run_defs)
  have "pool_reachable 1 1 s" using run_labels_reachable [OF _ s(1)] pool_reachable.init [of 1 1] by simp
  from thread_pool_safe [OF this] s show ?thesis by auto
qed

text \<open>C33: With one calling thread, every call returns. Whatever the scheduler does, the threads of the pool make only
  finitely many steps between two calls (and two unprovoked wake-ups), and when no thread can go on, the caller is
  outside the pool, so a \<open>try_execute\<close> or \<open>wait_idle\<close> in progress has returned; either the pool lives, every worker is
  parked and every accepted job has been run, or it has been dropped and every worker has exited. No wake-up is lost:
  neither a queued job nor a \<open>drop\<close> is ever left with all workers asleep.\<close>

theorem single_caller_calls_return:
  assumes "pool_reachable n 1 s"
  shows "(\<nexists>f. f 0 = s \<and> (\<forall>i. pool_move (f i) (f (Suc i))))
     \<and> (\<forall>s'. pool_move\<^sup>*\<^sup>* s s' \<and> pool_stuck s' \<longrightarrow>
          list_all idle_client (tp_clients s')
          \<and> (tp_ender s' = ENone \<and> tp_jobs s' = [] \<and> mset (tp_ran s') = mset (tp_accepted s') \<and> set (tp_workers s') \<subseteq> {WWaiting}
             \<or> tp_ender s' = DEnd \<and> set (tp_workers s') \<subseteq> {WExit}))"
proof (intro conjI allI impI)
  show "\<nexists>f. f 0 = s \<and> (\<forall>i. pool_move (f i) (f (Suc i)))"
    using pool_move_wf unfolding wf_iff_no_infinite_down_chain by blast
next
  fix s' assume s': "pool_move\<^sup>*\<^sup>* s s' \<and> pool_stuck s'"
  then have "pool_move\<^sup>*\<^sup>* s s'" by simp
  then have r: "pool_reachable n 1 s'" using assms by (induction rule: rtranclp_induct) (auto intro: pool_reachable.move)
  show "list_all idle_client (tp_clients s')" using stuck_single(1) [OF r] s' by blast
  show "tp_ender s' = ENone \<and> tp_jobs s' = [] \<and> mset (tp_ran s') = mset (tp_accepted s') \<and> set (tp_workers s') \<subseteq> {WWaiting}
     \<or> tp_ender s' = DEnd \<and> set (tp_workers s') \<subseteq> {WExit}" using stuck_single(2) [OF r] s' by blast
qed

theorem single_caller_calls_return_witness:
  "\<nexists>f. f 0 = pool_new 4 4 1 \<and> (\<forall>i. pool_move (f i) (f (Suc i)))"
  using single_caller_calls_return [of 4 "pool_new 4 4 1"] pool_reachable.init [of 4 1] by auto

definition stolen_wakeup :: "pool_label list" where
  "stolen_wakeup = [ByWorker 0, ByWorker 0, ByWorker 0, ByWorker 0, ByWorker 0,
     CallExecute 0 7, ByClient 0 WakeNobody, ByClient 0 WakeNobody, ByClient 0 WakeNobody,
     CallWait 1, ByClient 1 WakeNobody, ByClient 1 WakeNobody, ByClient 1 WakeNobody, ByClient 1 WakeNobody,
     ByClient 0 (WakeClient 1), ByClient 1 WakeNobody, ByClient 1 WakeNobody, ByClient 1 WakeNobody, ByClient 1 WakeNobody]"

lemma all_asleep_stuck:
  assumes "set (tp_workers s) \<subseteq> {WWaiting, WExit}" "\<forall>c \<in> set (tp_clients s). idle_client c \<or> c = CWaiting" "ender_step s = None"
  shows "pool_stuck s"
proof -
  have "worker_step i s = None" for i
  proof (cases "i < length (tp_workers s)")
    case True
    then have "tp_workers s ! i \<in> {WWaiting, WExit}" using assms(1) nth_mem by blast
    then show ?thesis by (auto simp: worker_step_def)
  qed (simp add: worker_step_def)
  moreover have "client_step k t s = None" for k t
  proof (cases "k < length (tp_clients s)")
    case True
    then have "idle_client (tp_clients s ! k) \<or> tp_clients s ! k = CWaiting" using assms(2) nth_mem by blast
    then show ?thesis by (cases "tp_clients s ! k") (simp_all add: client_step_def)
  qed (simp add: client_step_def)
  ultimately show ?thesis using assms(3) by (simp add: pool_stuck_iff)
qed

text \<open>C34: With two calling threads a wake-up can be lost. \<open>try_execute\<close> wakes a single thread with \<open>notify_one\<close>, but workers
  and \<open>wait_idle\<close> sleep on the same condition variable: when another thread has begun to wait for the pool between the
  push and the notification, it can receive the wake-up instead of the parked worker. It finds work pending and goes
  back to sleep; the job stays in the queue, all threads sleep, and none will ever wake another.\<close>

theorem wait_idle_can_steal_wakeup:
  "\<exists>s. pool_reachable 1 2 s \<and> tp_jobs s = [7] \<and> tp_workers s = [WWaiting]
     \<and> tp_clients s = [CIdle (Some (Executed (Inr ()))), CWaiting] \<and> pool_stuck s"
proof -
  obtain s where s: "run_labels stolen_wakeup (pool_new 1 1 2) = Some s" "tp_jobs s = [7]" "tp_workers s = [WWaiting]"
    "tp_clients s = [CIdle (Some (Executed (Inr ()))), CWaiting]" "tp_ender s = ENone"
    by (simp add: stolen_wakeup_def run_defs numeral_2_eq_2)
  have "pool_reachable 1 2 s" using run_labels_reachable [OF _ s(1)] pool_reachable.init [of 1 2] by simp
  moreover have "pool_stuck s" by (rule all_asleep_stuck) (use s in \<open>simp_all add: ender_step_def\<close>)
  ultimately show ?thesis using s by blast
qed

text \<open>The error path of \<open>try_new\<close> notifies without the mutex, so a worker that has loaded \<open>stop\<close> but does not wait yet
  misses the notification, and the constructor waits for it for ever. Here one of two threads was spawned.\<close>

theorem failed_start_can_hang:
  "\<exists>s. run_labels [ByWorker 0, ByWorker 0, ByWorker 0, ByWorker 0, ByEnder, ByEnder, ByWorker 0] ((pool_new 2 1 0)\<lparr>tp_ender := FStore\<rparr>) = Some s
     \<and> tp_ender s = FJoin \<and> tp_workers s = [WWaiting] \<and> pool_stuck s"
proof -
  obtain s where s: "run_labels [ByWorker 0, ByWorker 0, ByWorker 0, ByWorker 0, ByEnder, ByEnder, ByWorker 0] ((pool_new 2 1 0)\<lparr>tp_ender := FStore\<rparr>) = Some s"
    "tp_ender s = FJoin" "tp_workers s = [WWaiting]" "tp_clients s = []"
    by (simp add: run_defs)
  moreover have "pool_stuck s" by (rule all_asleep_stuck) (use s in \<open>simp_all add: ender_step_def\<close>)
  ultimately show ?thesis by blast
qed

end
