(* ===== verification/Present.thy ===== *)
theory Present
  imports Ui_Frame Gpu_Policy
begin

text \<open>
  \<open>src/src/platform/linux/present.rs\<close> and \<open>swapchain.rs\<close>: choosing the surface configuration, the swapchain's life cycle,
  and one presented frame. The Vulkan driver is a parameter: every call has an answer, and a frame is the list of calls
  that was made. A fence that was reset and not submitted is never signalled, and a call on a destroyed swapchain is
  undefined, as Vulkan specifies.
\<close>

section \<open>Surface configuration\<close>

record extent =
  ex_width :: u32
  ex_height :: u32

record surface_format =
  sf_format :: u32
  sf_color_space :: u32

record surface_capabilities =
  min_image_count :: u32
  max_image_count :: u32
  current_extent :: extent
  min_image_extent :: extent
  max_image_extent :: extent
  supported_composite_alpha :: u32

datatype vulkan_error = Api | OutOfDateError | Suboptimal | InvalidQueuePlan

datatype present_error = Vulkan vulkan_error | NoPresentDevice | NullWindowHandle | FormatUnavailable | PresentAllocationFailed

definition select_format :: "surface_format list \<Rightarrow> (u32 \<times> u32) list \<Rightarrow> surface_format" where
  "select_format fs preferred =
     (case find (\<lambda>(f, c). list_ex (\<lambda>x. sf_format x = f \<and> sf_color_space x = c) fs) preferred of
        Some (f, c) \<Rightarrow> \<lparr>sf_format = f, sf_color_space = c\<rparr>
      | None \<Rightarrow> (case fs of [] \<Rightarrow> \<lparr>sf_format = 44, sf_color_space = 0\<rparr> | x # _ \<Rightarrow> x))"

text \<open>\<open>u32::clamp\<close> asserts that its bounds are ordered; \<open>+ 1\<close> overflows with a panic in a debug build and wraps
  otherwise.\<close>

definition u32_clamp :: "u32 \<Rightarrow> u32 \<Rightarrow> u32 \<Rightarrow> u32 run" where
  "u32_clamp x lo hi = (if lo > hi then Panic else Ret (max lo (min hi x)))"

definition default_image_count :: "bool \<Rightarrow> surface_capabilities \<Rightarrow> u32 run" where
  "default_image_count debug c =
     (if min_image_count c = 0 then Ret 3
      else if debug \<and> min_image_count c = - 1 then Panic
      else let desired = min_image_count c + 1
           in if max_image_count c \<noteq> 0 then u32_clamp desired (min_image_count c) (max_image_count c)
              else Ret (max desired (min_image_count c)))"

definition u32_trailing_zeros :: "u32 \<Rightarrow> nat" where
  "u32_trailing_zeros x = (case find (\<lambda>i. bit x i) [0..<32] of Some i \<Rightarrow> i | None \<Rightarrow> 32)"

definition pick_composite_alpha :: "surface_capabilities \<Rightarrow> u32" where
  "pick_composite_alpha c =
     (if supported_composite_alpha c AND 1 \<noteq> 0 then 1
      else if supported_composite_alpha c = 0 then 1
      else push_bit (u32_trailing_zeros (supported_composite_alpha c)) 1)"

definition pick_present_mode :: "u32 list \<Rightarrow> u32 option" where
  "pick_present_mode modes =
     (case find (\<lambda>m. m \<in> set modes) [1, 0, 2, 3] of
        Some m \<Rightarrow> Some m
      | None \<Rightarrow> (case modes of [] \<Rightarrow> None | m # _ \<Rightarrow> Some m))"

definition pick_extent :: "surface_capabilities \<Rightarrow> extent \<Rightarrow> extent run" where
  "pick_extent c sz =
     (if ex_width (current_extent c) \<noteq> - 1 \<and> ex_height (current_extent c) \<noteq> - 1 then Ret (current_extent c)
      else run_bind (u32_clamp (ex_width sz) (ex_width (min_image_extent c)) (ex_width (max_image_extent c))) (\<lambda>w.
             run_bind (u32_clamp (ex_height sz) (ex_height (min_image_extent c)) (ex_height (max_image_extent c))) (\<lambda>h.
               Ret \<lparr>ex_width = w, ex_height = h\<rparr>)))"

text \<open>The three queries of the surface are answers of the driver.\<close>

definition configure_surface ::
  "bool \<Rightarrow> surface_capabilities option \<Rightarrow> surface_format list option \<Rightarrow> u32 list option \<Rightarrow> extent
     \<Rightarrow> (present_error + surface_format \<times> u32 \<times> extent \<times> u32) run" where
  "configure_surface debug caps formats modes sz =
     (case caps of
        None \<Rightarrow> Ret (Inl (Vulkan Api))
      | Some c \<Rightarrow>
         (case formats of
            None \<Rightarrow> Ret (Inl (Vulkan Api))
          | Some fs \<Rightarrow>
             (case modes of
                None \<Rightarrow> Ret (Inl (Vulkan Api))
              | Some ms \<Rightarrow>
                 (case pick_present_mode ms of
                    None \<Rightarrow> Ret (Inl FormatUnavailable)
                  | Some m \<Rightarrow>
                      run_bind (pick_extent c sz) (\<lambda>ex.
                        run_bind (default_image_count debug c) (\<lambda>n.
                          Ret (Inr (select_format fs [(44, 0), (37, 0)], m, ex, max n 2))))))))"

text \<open>\<open>pick_present_device\<close>: for each device the score and, family by family, whether it is a graphics family with
  queues and the answer to the surface query.\<close>

definition selection_score :: "u32 \<Rightarrow> u8" where
  "selection_score t = (if t = 2 then 4 else if t = 1 then 3 else if t = 3 then 2 else if t = 4 then 1 else 0)"

record present_device =
  pd_type :: u32
  pd_families :: "queue_family list"

fun present_family :: "(queue_family \<Rightarrow> bool option) \<Rightarrow> queue_family list \<Rightarrow> present_error + queue_family option" where
  "present_family ask [] = Inr None"
| "present_family ask (f # fs) =
     (if qf_flags f AND queue_graphics = 0 \<or> qf_queue_count f = 0 then present_family ask fs
      else case ask f of None \<Rightarrow> Inl (Vulkan Api) | Some True \<Rightarrow> Inr (Some f) | Some False \<Rightarrow> present_family ask fs)"

fun pick_device_loop ::
  "(nat \<Rightarrow> queue_family \<Rightarrow> bool option) \<Rightarrow> nat \<Rightarrow> present_device list \<Rightarrow> (nat \<times> present_device \<times> queue_family) option
     \<Rightarrow> present_error + (nat \<times> present_device \<times> queue_family) option" where
  "pick_device_loop ask i [] best = Inr best"
| "pick_device_loop ask i (d # ds) best =
     (case present_family (ask i) (pd_families d) of
        Inl e \<Rightarrow> Inl e
      | Inr None \<Rightarrow> pick_device_loop ask (i + 1) ds best
      | Inr (Some f) \<Rightarrow>
          pick_device_loop ask (i + 1) ds
            (case best of
               None \<Rightarrow> Some (i, d, f)
             | Some (j, c, g) \<Rightarrow> if selection_score (pd_type d) > selection_score (pd_type c) then Some (i, d, f) else best))"

definition pick_present_device ::
  "(nat \<Rightarrow> queue_family \<Rightarrow> bool option) \<Rightarrow> present_device list \<Rightarrow> present_error + nat \<times> present_device \<times> queue_family" where
  "pick_present_device ask ds =
     (case pick_device_loop ask 0 ds None of
        Inl e \<Rightarrow> Inl e
      | Inr None \<Rightarrow> Inl NoPresentDevice
      | Inr (Some x) \<Rightarrow> Inr x)"

section \<open>The swapchain\<close>

text \<open>The driver's table of swapchains that were created and not destroyed. \<open>vkDestroySwapchainKHR\<close> on any other handle is
  undefined. Creating one retires the old one and does not destroy it.\<close>

record swapchain =
  sw_handle :: u64
  sw_images :: "u64 list"

record create_answers =
  ca_handle :: "u64 option"
  ca_images :: "u64 list option"

definition destroy_swapchain :: "u64 \<Rightarrow> u64 list \<Rightarrow> u64 list run" where
  "destroy_swapchain h table = (if h \<in> set table then Ret (remove1 h table) else UB)"

definition swapchain_create :: "create_answers \<Rightarrow> u64 list \<Rightarrow> ((vulkan_error + swapchain) \<times> u64 list) run" where
  "swapchain_create a table =
     (case ca_handle a of
        None \<Rightarrow> Ret (Inl Api, table)
      | Some h \<Rightarrow>
         (case ca_images a of
            None \<Rightarrow> run_bind (destroy_swapchain h (h # table)) (\<lambda>l. Ret (Inl Api, l))
          | Some imgs \<Rightarrow> Ret (Inr \<lparr>sw_handle = h, sw_images = imgs\<rparr>, h # table)))"

definition swapchain_drop :: "swapchain \<Rightarrow> u64 list \<Rightarrow> u64 list run" where
  "swapchain_drop sw table = destroy_swapchain (sw_handle sw) table"

text \<open>The local \<open>replacement\<close> is a \<open>Swapchain\<close> and is dropped at the end of the function.\<close>

definition swapchain_recreate :: "create_answers \<Rightarrow> swapchain \<Rightarrow> u64 list \<Rightarrow> ((vulkan_error + unit) \<times> swapchain \<times> u64 list) run" where
  "swapchain_recreate a sw table =
     run_bind (swapchain_create a table) (\<lambda>(r, table1).
       case r of
         Inl e \<Rightarrow> Ret (Inl e, sw, table1)
       | Inr replacement \<Rightarrow>
           let sw' = sw\<lparr>sw_handle := sw_handle replacement, sw_images := sw_images replacement\<rparr>
           in run_bind (swapchain_drop replacement table1) (\<lambda>table2. Ret (Inr (), sw', table2)))"

section \<open>The engine\<close>

text \<open>A fence is signalled, belongs to a submission that the device will complete, or was reset without one. A target set is
  its number of framebuffers. The pipelines exist or do not; their Vulkan objects are not modelled.\<close>

datatype fence_status = FenceSignaled | FenceInFlight | FenceReset

record present_engine =
  pe_stage :: ui_stage
  pe_world_upload :: bytes
  pe_transfer :: upload_state
  pe_camera :: "f32 list"
  pe_world_draws :: "world_draw list"
  pe_ui_pipeline :: bool
  pe_world_pipeline :: bool
  pe_targets :: "nat option"
  pe_swapchain :: swapchain
  pe_live :: "u64 list"
  pe_frames :: "fence_status list"
  pe_image_index :: u32
  pe_color :: "f32 list"
  pe_extent :: extent
  pe_format :: surface_format
  pe_mode :: u32

definition world_upload_capacity :: u64 where
  "world_upload_capacity = 4 * 1024 * 1024"

definition set_world_upload ::
  "bool \<Rightarrow> bool \<Rightarrow> bytes \<Rightarrow> f32 list \<Rightarrow> world_draw list \<Rightarrow> present_engine \<Rightarrow> (present_error + unit) \<times> present_engine" where
  "set_world_upload ok1 ok2 bs camera draws e =
     (if \<not> valid_world_packet bs world_upload_capacity camera draws \<or> \<not> ok1 \<or> \<not> ok2 then (Inl PresentAllocationFailed, e)
      else (Inr (), e\<lparr>pe_world_upload := bs, pe_camera := camera, pe_world_draws := draws,
                      pe_transfer := upload_invalidate (pe_transfer e)\<rparr>))"

definition set_world_camera :: "f32 list \<Rightarrow> present_engine \<Rightarrow> (present_error + unit) \<times> present_engine" where
  "set_world_camera camera e =
     (if list_all is_finite camera then (Inr (), e\<lparr>pe_camera := camera\<rparr>) else (Inl PresentAllocationFailed, e))"

section \<open>Recording a frame\<close>

datatype staging = UiBuffer | WorldBuffer

datatype vk_call =
    ResetCommands
  | BeginCommands
  | HostWrite staging bytes
  | CopyBuffer staging nat
  | BufferBarrier staging nat bool
  | DrawWorld nat extent "f32 list" "f32 list" "world_draw list"
  | DrawUi nat extent "f32 list" "ui_draw_command list"
  | ImageBarrier nat u32 u32
  | ClearImage nat "f32 list"
  | EndCommands
  | Refuse vulkan_error

text \<open>\<open>write_host_visible\<close> refuses what does not fit.\<close>

definition staging_capacity :: "staging \<Rightarrow> nat" where
  "staging_capacity b = (case b of UiBuffer \<Rightarrow> ui_upload_capacity | WorldBuffer \<Rightarrow> unat world_upload_capacity)"

definition host_write :: "staging \<Rightarrow> bytes \<Rightarrow> vk_call" where
  "host_write b bs = (if length bs > staging_capacity b then Refuse InvalidQueuePlan else HostWrite b bs)"

text \<open>The checks of \<open>cmd_world_draw\<close> and \<open>cmd_ui_draw\<close> that do not concern handles.\<close>

definition draw_range_ok :: "u32 \<Rightarrow> u32 \<Rightarrow> u32 \<Rightarrow> bool" where
  "draw_range_ok vertices instances first \<longleftrightarrow>
     vertices \<noteq> 0 \<and> instances \<noteq> 0 \<and> (case wchecked_add first vertices of None \<Rightarrow> False | Some x \<Rightarrow> x \<le> 36)"

definition extent_ok :: "extent \<Rightarrow> bool" where
  "extent_ok x \<longleftrightarrow> ex_width x \<noteq> 0 \<and> ex_height x \<noteq> 0"

definition cmd_world_draw :: "present_engine \<Rightarrow> nat \<Rightarrow> vk_call" where
  "cmd_world_draw e fb =
     (if extent_ok (pe_extent e) \<and> pe_world_draws e \<noteq> []
         \<and> list_all (\<lambda>d. draw_range_ok (wd_vertex_count d) (wd_instance_count d) (wd_first_vertex d)) (pe_world_draws e)
      then DrawWorld fb (pe_extent e) (pe_color e) (pe_camera e) (pe_world_draws e)
      else Refuse InvalidQueuePlan)"

definition cmd_ui_draw :: "present_engine \<Rightarrow> nat \<Rightarrow> vk_call" where
  "cmd_ui_draw e fb =
     (let cs = ui_draw_commands (pe_stage e)
      in if extent_ok (pe_extent e) \<and> cs \<noteq> []
            \<and> list_all (\<lambda>d. draw_range_ok (ui_draw_command.vertex_count d) (ui_draw_command.instance_count d) (ui_draw_command.first_vertex d)) cs
         then DrawUi fb (pe_extent e) (pe_color e) cs
         else Refuse InvalidQueuePlan)"

definition framebuffer_call :: "present_engine \<Rightarrow> nat \<Rightarrow> (nat \<Rightarrow> vk_call) \<Rightarrow> vk_call" where
  "framebuffer_call e img draw =
     (case pe_targets e of
        None \<Rightarrow> Refuse InvalidQueuePlan
      | Some n \<Rightarrow> if img < n then draw img else Refuse InvalidQueuePlan)"

definition renders_world :: "present_engine \<Rightarrow> bool" where
  "renders_world e \<longleftrightarrow> pe_world_upload e \<noteq> [] \<and> pe_world_pipeline e \<and> ui_upload (pe_stage e) = []"

definition upload_calls :: "present_engine \<Rightarrow> nat \<Rightarrow> vk_call list" where
  "upload_calls e img =
     (if renders_world e
      then (if upload_pending (pe_transfer e)
            then [host_write WorldBuffer (pe_world_upload e), CopyBuffer WorldBuffer (length (pe_world_upload e)),
                  BufferBarrier WorldBuffer (length (pe_world_upload e)) True]
            else [])
           @ [framebuffer_call e img (cmd_world_draw e)]
      else if ui_upload (pe_stage e) \<noteq> []
      then [host_write UiBuffer (ui_upload (pe_stage e)), CopyBuffer UiBuffer (length (ui_upload (pe_stage e))),
            BufferBarrier UiBuffer (length (ui_upload (pe_stage e))) (pe_ui_pipeline e \<and> ui_draw_commands (pe_stage e) \<noteq> [])]
      else [])"

text \<open>\<open>images()[image]\<close> panics out of range; the layouts are 0 (undefined), 1 (general) and 1000001002 (presentable).\<close>

definition finish_calls :: "present_engine \<Rightarrow> nat \<Rightarrow> vk_call list run" where
  "finish_calls e img =
     (if renders_world e then Ret []
      else if ui_draw_commands (pe_stage e) \<noteq> [] \<and> pe_ui_pipeline e \<and> pe_targets e \<noteq> None
      then Ret [framebuffer_call e img (cmd_ui_draw e)]
      else if img \<ge> length (sw_images (pe_swapchain e)) then Panic
      else Ret [ImageBarrier img 0 1, ClearImage img (pe_color e), ImageBarrier img 1 1000001002])"

definition frame_calls :: "present_engine \<Rightarrow> nat \<Rightarrow> vk_call list run" where
  "frame_calls e img =
     run_bind (finish_calls e img) (\<lambda>cs. Ret ([ResetCommands, BeginCommands] @ upload_calls e img @ cs @ [EndCommands]))"

text \<open>The calls that succeed until the first that the driver or the checks refuse; \<open>answer i\<close> is the driver's answer to
  the call number \<open>i\<close>.\<close>

fun perform :: "(nat \<Rightarrow> bool) \<Rightarrow> nat \<Rightarrow> vk_call list \<Rightarrow> vk_call list \<times> vulkan_error option" where
  "perform answer i [] = ([], None)"
| "perform answer i (c # cs) =
     (case c of
        Refuse e \<Rightarrow> ([], Some e)
      | _ \<Rightarrow> if answer i then (case perform answer (i + 1) cs of (done_calls, r) \<Rightarrow> (c # done_calls, r)) else ([], Some Api))"

section \<open>Presenting a frame\<close>

datatype acquire_answer = Acquired u32 | AcquireSuboptimal | AcquireOutOfDate | AcquireFailed

datatype present_answer = PresentDone | PresentSuboptimal | PresentOutOfDate | PresentFailed

record frame_answers =
  fa_wait :: "nat \<Rightarrow> bool"
  fa_wait_own :: bool
  fa_acquire :: acquire_answer
  fa_call :: "nat \<Rightarrow> bool"
  fa_reset :: bool
  fa_submit :: bool
  fa_present :: present_answer

datatype present_status = Presented | OutOfDate

text \<open>Waiting without a timeout: a lost device makes it fail, otherwise it lasts until the fence is signalled.\<close>

definition fence_wait :: "bool \<Rightarrow> fence_status \<Rightarrow> (bool \<times> fence_status) run" where
  "fence_wait ok f = (if \<not> ok then Ret (False, f) else case f of FenceReset \<Rightarrow> Diverges | _ \<Rightarrow> Ret (True, FenceSignaled))"

fun wait_frames :: "(nat \<Rightarrow> bool) \<Rightarrow> nat \<Rightarrow> fence_status list \<Rightarrow> (bool \<times> fence_status list) run" where
  "wait_frames ok i [] = Ret (True, [])"
| "wait_frames ok i (f # fs) =
     run_bind (fence_wait (ok i) f) (\<lambda>(b, f').
       if \<not> b then Ret (False, f' # fs)
       else run_bind (wait_frames ok (i + 1) fs) (\<lambda>(b', fs'). Ret (b', f' # fs')))"

definition swapchain_acquire :: "acquire_answer \<Rightarrow> swapchain \<Rightarrow> u64 list \<Rightarrow> (vulkan_error + u32) run" where
  "swapchain_acquire a sw table =
     (if sw_handle sw \<notin> set table then UB
      else Ret (case a of
                  Acquired i \<Rightarrow> Inr i
                | AcquireSuboptimal \<Rightarrow> Inl Suboptimal
                | AcquireOutOfDate \<Rightarrow> Inl OutOfDateError
                | AcquireFailed \<Rightarrow> Inl Api))"

definition swapchain_present :: "present_answer \<Rightarrow> swapchain \<Rightarrow> u64 list \<Rightarrow> (vulkan_error + unit) run" where
  "swapchain_present a sw table =
     (if sw_handle sw \<notin> set table then UB
      else Ret (case a of
                  PresentDone \<Rightarrow> Inr ()
                | PresentSuboptimal \<Rightarrow> Inl Suboptimal
                | PresentOutOfDate \<Rightarrow> Inl OutOfDateError
                | PresentFailed \<Rightarrow> Inl Api))"

text \<open>Reset, submit and present; \<open>k\<close> is the frame slot.\<close>

definition submit_and_present :: "frame_answers \<Rightarrow> nat \<Rightarrow> present_engine \<Rightarrow> ((present_error + present_status) \<times> present_engine) run" where
  "submit_and_present a k e =
     (if \<not> fa_reset a then Ret (Inl (Vulkan Api), e)
      else if \<not> fa_submit a then Ret (Inl (Vulkan Api), e\<lparr>pe_frames := (pe_frames e)[k := FenceReset]\<rparr>)
      else let e' = e\<lparr>pe_frames := (pe_frames e)[k := FenceInFlight],
                     pe_transfer := (if renders_world e then upload_submitted (length (pe_world_upload e)) (pe_transfer e) else pe_transfer e)\<rparr>
           in run_bind (swapchain_present (fa_present a) (pe_swapchain e') (pe_live e')) (\<lambda>r.
                Ret (case r of
                       Inr _ \<Rightarrow> Inr Presented
                     | Inl OutOfDateError \<Rightarrow> Inr OutOfDate
                     | Inl x \<Rightarrow> Inl (Vulkan x), e')))"

definition render_image ::
  "frame_answers \<Rightarrow> nat \<Rightarrow> u32 \<Rightarrow> present_engine \<Rightarrow> ((present_error + present_status) \<times> vk_call list \<times> present_engine) run" where
  "render_image a k img e0 =
     (let e = e0\<lparr>pe_image_index := pe_image_index e0 + 1\<rparr>
      in run_bind (frame_calls e (unat img)) (\<lambda>cs.
           case perform (fa_call a) 0 cs of
             (done_calls, Some x) \<Rightarrow> Ret (Inl (Vulkan x), done_calls, e)
           | (done_calls, None) \<Rightarrow> run_bind (submit_and_present a k e) (\<lambda>(r, e'). Ret (r, done_calls, e'))))"

definition present_frame ::
  "frame_answers \<Rightarrow> present_engine \<Rightarrow> ((present_error + present_status) \<times> vk_call list \<times> present_engine) run" where
  "present_frame a e =
     (if pe_world_upload e \<noteq> [] \<and> ui_upload (pe_stage e) \<noteq> [] then Ret (Inl PresentAllocationFailed, [], e)
      else if pe_world_upload e \<noteq> [] \<and> \<not> pe_world_pipeline e then Ret (Inl (Vulkan InvalidQueuePlan), [], e)
      else run_bind (wait_frames (fa_wait a) 0 (pe_frames e)) (\<lambda>(ok, fs).
        let e1 = e\<lparr>pe_frames := fs\<rparr>
        in if \<not> ok then Ret (Inl (Vulkan Api), [], e1)
           else if fs = [] then Panic
           else let k = unat (pe_image_index e1) mod length fs
                in run_bind (fence_wait (fa_wait_own a) (fs ! k)) (\<lambda>(ok', f).
                     if \<not> ok' then Ret (Inl (Vulkan Api), [], e1)
                     else run_bind (swapchain_acquire (fa_acquire a) (pe_swapchain e1) (pe_live e1)) (\<lambda>r.
                            case r of
                              Inl OutOfDateError \<Rightarrow> Ret (Inr OutOfDate, [], e1)
                            | Inl x \<Rightarrow> Ret (Inl (Vulkan x), [], e1)
                            | Inr img \<Rightarrow> render_image a k img e1))))"

section \<open>Recreating the swapchain\<close>

record recreate_answers =
  ra_idle :: bool
  ra_caps :: "surface_capabilities option"
  ra_formats :: "surface_format list option"
  ra_modes :: "u32 list option"
  ra_caps_again :: "surface_capabilities option"
  ra_create :: create_answers
  ra_targets :: bool
  ra_ui_pipeline :: "bool option"
  ra_world_pipeline :: "bool option"

text \<open>\<open>UiFrameTargets::build\<close> makes one framebuffer per image. A pipeline is built, left out when its shaders are empty
  (\<open>Some False\<close>), or fails.\<close>

definition rebuild_targets :: "recreate_answers \<Rightarrow> present_engine \<Rightarrow> (present_error + unit) \<times> present_engine" where
  "rebuild_targets a e =
     (if \<not> ra_targets a then (Inl (Vulkan Api), e)
      else let e1 = e\<lparr>pe_targets := Some (length (sw_images (pe_swapchain e)))\<rparr>
           in case ra_ui_pipeline a of
                None \<Rightarrow> (Inl (Vulkan Api), e1)
              | Some u \<Rightarrow>
                 (let e2 = e1\<lparr>pe_ui_pipeline := u\<rparr>
                  in case ra_world_pipeline a of
                       None \<Rightarrow> (Inl (Vulkan Api), e2)
                     | Some w \<Rightarrow> (Inr (), e2\<lparr>pe_world_pipeline := w\<rparr>)))"

definition engine_recreate :: "bool \<Rightarrow> recreate_answers \<Rightarrow> extent \<Rightarrow> present_engine \<Rightarrow> ((present_error + unit) \<times> present_engine) run" where
  "engine_recreate debug a sz e =
     (if \<not> ra_idle a then Ret (Inl (Vulkan Api), e)
      else run_bind (configure_surface debug (ra_caps a) (ra_formats a) (ra_modes a) sz) (\<lambda>r.
        case r of
          Inl x \<Rightarrow> Ret (Inl x, e)
        | Inr (fmt, mode, ex, n) \<Rightarrow>
            let e1 = e\<lparr>pe_format := fmt, pe_mode := mode, pe_extent := ex, pe_ui_pipeline := False, pe_world_pipeline := False,
                      pe_targets := None\<rparr>
            in case ra_caps_again a of
                 None \<Rightarrow> Ret (Inl (Vulkan Api), e1)
               | Some c \<Rightarrow>
                   run_bind (swapchain_recreate (ra_create a) (pe_swapchain e1) (pe_live e1)) (\<lambda>(q, sw, table).
                     let e2 = e1\<lparr>pe_swapchain := sw, pe_live := table\<rparr>
                     in case q of Inl x \<Rightarrow> Ret (Inl (Vulkan x), e2) | Inr _ \<Rightarrow> Ret (rebuild_targets a e2))))"

section \<open>Fences and calls\<close>

definition engine_ok :: "present_engine \<Rightarrow> bool" where
  "engine_ok e \<longleftrightarrow> pe_frames e \<noteq> [] \<and> FenceReset \<notin> set (pe_frames e) \<and> sw_handle (pe_swapchain e) \<in> set (pe_live e)"

lemma wait_frames_ok:
  "FenceReset \<notin> set fs \<Longrightarrow> \<exists>b fs'. wait_frames ok i fs = Ret (b, fs') \<and> length fs' = length fs \<and> FenceReset \<notin> set fs'
     \<and> (b \<longrightarrow> fs' = replicate (length fs) FenceSignaled)"
proof (induction fs arbitrary: i)
  case (Cons f fs)
  have "FenceReset \<notin> set fs" using Cons.prems by simp
  from Cons.IH [OF this, of "i + 1"] obtain b fs' where "wait_frames ok (i + 1) fs = Ret (b, fs')" "length fs' = length fs"
    "FenceReset \<notin> set fs'" "b \<longrightarrow> fs' = replicate (length fs) FenceSignaled" by blast
  then show ?case using Cons.prems by (cases f) (auto simp: fence_wait_def)
qed (simp add: exI [of _ True])

lemma wait_frames_all: "FenceReset \<notin> set fs \<Longrightarrow> wait_frames (\<lambda>_. True) i fs = Ret (True, replicate (length fs) FenceSignaled)"
proof (induction fs arbitrary: i)
  case (Cons f fs)
  then show ?case by (cases f) (auto simp: fence_wait_def)
qed simp

lemma wait_frames_hangs: "FenceReset \<in> set fs \<Longrightarrow> wait_frames (\<lambda>_. True) i fs = Diverges"
proof (induction fs arbitrary: i)
  case (Cons f fs)
  then show ?case by (cases f) (auto simp: fence_wait_def)
qed simp

lemma perform_None:
  assumes "perform answer i cs = (out, None)"
  shows "out = cs \<and> (\<forall>x. Refuse x \<notin> set cs)"
  using assms
proof (induction cs arbitrary: i out)
  case (Cons c cs)
  show ?case
  proof (cases c)
    case (Refuse x)
    then show ?thesis using Cons.prems by simp
  qed (use Cons in \<open>auto split: if_splits prod.splits\<close>)
qed simp

lemma frame_calls_returns: "img < length (sw_images (pe_swapchain e)) \<Longrightarrow> \<exists>cs. frame_calls e img = Ret cs"
  by (auto simp: frame_calls_def finish_calls_def)

lemma draw_calls_stable [simp]:
  "cmd_ui_draw (e\<lparr>pe_frames := fs\<rparr>) = cmd_ui_draw e" "cmd_ui_draw (e\<lparr>pe_image_index := n\<rparr>) = cmd_ui_draw e"
  "cmd_world_draw (e\<lparr>pe_frames := fs\<rparr>) = cmd_world_draw e" "cmd_world_draw (e\<lparr>pe_image_index := n\<rparr>) = cmd_world_draw e"
  by (simp_all add: fun_eq_iff cmd_ui_draw_def cmd_world_draw_def Let_def)

lemma framebuffer_call_stable [simp]:
  "framebuffer_call (e\<lparr>pe_frames := fs\<rparr>) = framebuffer_call e" "framebuffer_call (e\<lparr>pe_image_index := n\<rparr>) = framebuffer_call e"
  by (simp_all add: fun_eq_iff framebuffer_call_def)

lemma renders_world_stable [simp]:
  "renders_world (e\<lparr>pe_frames := fs\<rparr>) = renders_world e" "renders_world (e\<lparr>pe_image_index := n\<rparr>) = renders_world e"
  by (simp_all add: renders_world_def)

lemma frame_calls_stable [simp]:
  "frame_calls (e\<lparr>pe_frames := fs\<rparr>) img = frame_calls e img" "frame_calls (e\<lparr>pe_image_index := n\<rparr>) img = frame_calls e img"
  by (auto simp: frame_calls_def finish_calls_def upload_calls_def)

lemma submit_and_present_ok:
  assumes "engine_ok e"
  shows "\<exists>r e'. submit_and_present a k e = Ret (r, e') \<and> (fa_submit a \<longrightarrow> engine_ok e')"
proof -
  have "engine_ok (e\<lparr>pe_frames := (pe_frames e)[k := FenceInFlight], pe_transfer := t\<rparr>)" for t
    using assms set_update_subset_insert [of "pe_frames e" k FenceInFlight] by (auto simp: engine_ok_def)
  then show ?thesis using assms
    by (auto simp: submit_and_present_def swapchain_present_def Let_def engine_ok_def)
qed

section \<open>Properties\<close>

text \<open>C37: Presenting is safe while the device works. From an engine whose fences were all submitted and whose swapchain
  exists, with a driver that hands out only existing images, \<open>present_frame\<close> returns whatever else the driver answers;
  it issues calls, and so writes the shared staging buffer, only after every earlier submission has completed; when it
  reports a frame as presented, it has issued exactly the calls for the image it acquired, none of them refused; and
  unless a submission was refused, the engine can go on.\<close>

theorem present_frame_safe:
  assumes e: "engine_ok e" and img: "\<And>i. fa_acquire a = Acquired i \<Longrightarrow> unat i < length (sw_images (pe_swapchain e))"
  shows "\<exists>r cs e'. present_frame a e = Ret (r, cs, e') \<and> (fa_submit a \<longrightarrow> engine_ok e')
     \<and> (cs \<noteq> [] \<longrightarrow> wait_frames (fa_wait a) 0 (pe_frames e) = Ret (True, replicate (length (pe_frames e)) FenceSignaled))
     \<and> (r = Inr Presented \<longrightarrow> (\<exists>i. fa_acquire a = Acquired i \<and> frame_calls e (unat i) = Ret cs \<and> (\<forall>x. Refuse x \<notin> set cs)))"
proof -
  obtain b fs where w: "wait_frames (fa_wait a) 0 (pe_frames e) = Ret (b, fs)" "length fs = length (pe_frames e)" "FenceReset \<notin> set fs"
    "b \<longrightarrow> fs = replicate (length (pe_frames e)) FenceSignaled"
    using wait_frames_ok [of "pe_frames e" "fa_wait a" 0] e by (auto simp: engine_ok_def)
  let ?e1 = "e\<lparr>pe_frames := fs\<rparr>"
  have e1: "engine_ok ?e1" using e w(2,3) by (auto simp: engine_ok_def)
  let ?k = "unat (pe_image_index e) mod length fs"
  have ne: "fs \<noteq> []" "pe_frames e \<noteq> []" using e w(2) by (auto simp: engine_ok_def)
  show ?thesis
  proof (cases "(pe_world_upload e \<noteq> [] \<and> ui_upload (pe_stage e) \<noteq> []) \<or> (pe_world_upload e \<noteq> [] \<and> \<not> pe_world_pipeline e) \<or> \<not> b")
    case True
    then show ?thesis using e e1 w(1) by (auto simp: present_frame_def)
  next
    case False
    then have fs: "fs ! ?k = FenceSignaled" "b" using w(4) ne by auto
    show ?thesis
    proof (cases "fa_wait_own a \<and> (\<exists>i. fa_acquire a = Acquired i)")
      case no: False
      have "sw_handle (pe_swapchain e) \<in> set (pe_live e)" using e by (simp add: engine_ok_def)
      then show ?thesis using False no e1 w(1) ne fs
        by (cases "fa_acquire a") (auto simp: present_frame_def fence_wait_def swapchain_acquire_def Let_def)
    next
      case True
      then obtain i where i: "fa_acquire a = Acquired i" by blast
      obtain cs where cs: "frame_calls e (unat i) = Ret cs" using frame_calls_returns [OF img [OF i]] by blast
      obtain out x where p: "perform (fa_call a) 0 cs = (out, x)" by fastforce
      let ?e2 = "?e1\<lparr>pe_image_index := pe_image_index e + 1\<rparr>"
      have e2: "engine_ok ?e2" using e1 by (simp add: engine_ok_def)
      obtain r e' where sp: "submit_and_present a ?k ?e2 = Ret (r, e')" "fa_submit a \<longrightarrow> engine_ok e'"
        using submit_and_present_ok [OF e2] by blast
      have pf: "present_frame a e = render_image a ?k i ?e1"
        using False True i w(1) ne fs e by (auto simp: present_frame_def fence_wait_def swapchain_acquire_def Let_def engine_ok_def)
      show ?thesis
      proof (cases x)
        case None
        then have "out = cs" "\<forall>x. Refuse x \<notin> set cs" using perform_None p by blast+
        moreover have "render_image a ?k i ?e1 = Ret (r, out, e')"
          using cs p None sp(1) by (simp add: render_image_def Let_def)
        ultimately show ?thesis using pf sp(2) i cs w(1,4) fs(2) by auto
      next
        case (Some y)
        then have "render_image a ?k i ?e1 = Ret (Inl (Vulkan y), out, ?e2)" using cs p by (simp add: render_image_def Let_def)
        then show ?thesis using pf e2 w(1,4) fs(2) by auto
      qed
    qed
  qed
qed

definition sample_engine :: present_engine where
  "sample_engine =
     \<lparr>pe_stage = \<lparr>ui_upload = [1, 2], ui_draw_commands = [\<lparr>vertex_count = 6, instance_count = 1, first_vertex = 0, first_instance = 0\<rparr>]\<rparr>,
      pe_world_upload = [], pe_transfer = \<lparr>dirty = False, up_stats = \<lparr>transfers = 0, transferred_bytes = 0\<rparr>\<rparr>, pe_camera = [], pe_world_draws = [],
      pe_ui_pipeline = True, pe_world_pipeline = True, pe_targets = Some 2, pe_swapchain = \<lparr>sw_handle = 1, sw_images = [10, 11]\<rparr>,
      pe_live = [1], pe_frames = [FenceSignaled, FenceInFlight], pe_image_index = 0, pe_color = [],
      pe_extent = \<lparr>ex_width = 640, ex_height = 480\<rparr>, pe_format = \<lparr>sf_format = 44, sf_color_space = 0\<rparr>, pe_mode = 2\<rparr>"

definition good_answers :: frame_answers where
  "good_answers = \<lparr>fa_wait = \<lambda>_. True, fa_wait_own = True, fa_acquire = Acquired 1, fa_call = \<lambda>_. True, fa_reset = True, fa_submit = True,
     fa_present = PresentDone\<rparr>"

lemma sample_engine_ok: "engine_ok sample_engine"
  by (simp add: engine_ok_def sample_engine_def)

theorem present_frame_safe_witness:
  "\<exists>e'. present_frame good_answers sample_engine =
      Ret (Inr Presented, [ResetCommands, BeginCommands, HostWrite UiBuffer [1, 2], CopyBuffer UiBuffer 2, BufferBarrier UiBuffer 2 True,
             DrawUi 1 \<lparr>ex_width = 640, ex_height = 480\<rparr> [] [\<lparr>vertex_count = 6, instance_count = 1, first_vertex = 0, first_instance = 0\<rparr>],
             EndCommands], e') \<and> engine_ok e'"
proof -
  obtain e' where p: "present_frame good_answers sample_engine =
      Ret (Inr Presented, [ResetCommands, BeginCommands, HostWrite UiBuffer [1, 2], CopyBuffer UiBuffer 2, BufferBarrier UiBuffer 2 True,
             DrawUi 1 \<lparr>ex_width = 640, ex_height = 480\<rparr> [] [\<lparr>vertex_count = 6, instance_count = 1, first_vertex = 0, first_instance = 0\<rparr>],
             EndCommands], e')"
    by (simp add: present_frame_def good_answers_def sample_engine_def fence_wait_def swapchain_acquire_def render_image_def frame_calls_def
        finish_calls_def upload_calls_def renders_world_def host_write_def staging_capacity_def ui_upload_capacity_def framebuffer_call_def
        cmd_ui_draw_def extent_ok_def draw_range_ok_def wchecked_add_def submit_and_present_def swapchain_present_def Let_def)
  have "fa_acquire good_answers = Acquired i \<Longrightarrow> unat i < length (sw_images (pe_swapchain sample_engine))" for i
    by (auto simp: good_answers_def sample_engine_def)
  from present_frame_safe [of sample_engine good_answers, OF sample_engine_ok this] show ?thesis using p by (auto simp: good_answers_def)
qed

text \<open>The two checks at the head of \<open>present_frame\<close>: world and UI geometry are not staged together, and world geometry
  needs its pipeline. A frame they turn away returns an error at once and leaves the engine as it is.\<close>

definition frame_admitted :: "present_engine \<Rightarrow> bool" where
  "frame_admitted e \<longleftrightarrow> pe_world_upload e = [] \<or> ui_upload (pe_stage e) = [] \<and> pe_world_pipeline e"

lemma frame_admitted_iff:
  "frame_admitted e \<longleftrightarrow> \<not> (pe_world_upload e \<noteq> [] \<and> ui_upload (pe_stage e) \<noteq> []) \<and> \<not> (pe_world_upload e \<noteq> [] \<and> \<not> pe_world_pipeline e)"
  by (auto simp: frame_admitted_def)

lemma reset_fence_hangs:
  assumes "FenceReset \<in> set (pe_frames e)" "frame_admitted e" "fa_wait b = (\<lambda>_. True)"
  shows "present_frame b e = Diverges"
  using assms wait_frames_hangs [OF assms(1), of 0] by (auto simp: present_frame_def frame_admitted_def)

text \<open>C38: A refused submission is fatal although the device may work. The fence of the frame is reset before the submission;
  when the driver refuses the submission, nothing will ever signal the fence: \<open>present_frame\<close> reports the error, and every
  later \<open>present_frame\<close> of an engine with these fences that gets past the two checks of staged geometry
  (\<open>frame_admitted\<close>), whatever has been staged, drawn or configured in between, with world or with UI geometry, waits for
  every fence without a timeout and never returns while the device works (\<open>fa_wait\<close> is constantly true: a lost device would end the wait).
  Everything before the submission is taken to succeed in the frame that is refused: the engine is in a good state (\<open>engine_ok\<close>), the
  frame is admitted, the waits succeed, an image \<open>i\<close> is acquired, every call \<open>cs\<close> of the frame is recorded, and the fence is reset.\<close>

theorem refused_submission_hangs:
  assumes e: "engine_ok e" and pass: "frame_admitted e"
    and a: "fa_wait a = (\<lambda>_. True)" "fa_wait_own a" "fa_acquire a = Acquired i" "fa_reset a" "\<not> fa_submit a"
    and calls: "frame_calls e (unat i) = Ret cs" "perform (fa_call a) 0 cs = (cs, None)"
  shows "\<exists>e'. present_frame a e = Ret (Inl (Vulkan Api), cs, e')
     \<and> (\<forall>b e2. pe_frames e2 = pe_frames e' \<and> frame_admitted e2 \<and> fa_wait b = (\<lambda>_. True) \<longrightarrow> present_frame b e2 = Diverges)
     \<and> frame_admitted e'"
proof -
  let ?n = "length (pe_frames e)" and ?k = "unat (pe_image_index e) mod length (pe_frames e)"
  have n: "pe_frames e \<noteq> []" and w: "wait_frames (\<lambda>_. True) 0 (pe_frames e) = Ret (True, replicate ?n FenceSignaled)"
    using e wait_frames_all [of "pe_frames e" 0] by (simp_all add: engine_ok_def)
  let ?fs = "(replicate ?n FenceSignaled)[?k := FenceReset]"
  let ?e' = "e\<lparr>pe_frames := replicate ?n FenceSignaled, pe_image_index := pe_image_index e + 1, pe_frames := ?fs\<rparr>"
  have k: "?k < ?n" using n by simp
  then have mem: "FenceReset \<in> set ?fs" by (simp add: set_update_memI)
  note admitted = pass [unfolded frame_admitted_iff]
  have "present_frame a e = Ret (Inl (Vulkan Api), cs, ?e')"
    using e a calls admitted w n k
    by (auto simp: present_frame_def fence_wait_def swapchain_acquire_def engine_ok_def render_image_def submit_and_present_def Let_def)
  moreover have "present_frame b e2 = Diverges" if "pe_frames e2 = ?fs" "frame_admitted e2" "fa_wait b = (\<lambda>_. True)" for b e2
    using reset_fence_hangs mem that by metis
  moreover have "frame_admitted ?e'" using pass by (simp add: frame_admitted_def)
  ultimately show ?thesis by auto
qed

text \<open>At an engine with UI geometry and at one with world geometry.\<close>

definition world_engine :: present_engine where
  "world_engine = sample_engine\<lparr>pe_stage := \<lparr>ui_upload = [], ui_draw_commands = []\<rparr>, pe_world_upload := [1, 2, 3, 4],
     pe_world_draws := [\<lparr>wd_vertex_count = 36, wd_instance_count = 1, wd_first_vertex = 0, wd_first_instance = 0\<rparr>]\<rparr>"

theorem refused_submission_hangs_witness:
  "(\<exists>cs e'. present_frame (good_answers\<lparr>fa_submit := False\<rparr>) sample_engine = Ret (Inl (Vulkan Api), cs, e')
      \<and> present_frame good_answers e' = Diverges)
   \<and> (\<exists>cs e'. present_frame (good_answers\<lparr>fa_submit := False\<rparr>) world_engine = Ret (Inl (Vulkan Api), cs, e')
      \<and> present_frame good_answers e' = Diverges)"
proof -
  have "\<exists>cs e'. present_frame (good_answers\<lparr>fa_submit := False\<rparr>) e = Ret (Inl (Vulkan Api), cs, e') \<and> present_frame good_answers e' = Diverges"
    if e: "e = sample_engine \<or> e = world_engine" for e
  proof -
    have "\<exists>cs. frame_calls e 1 = Ret cs \<and> perform (\<lambda>_. True) 0 cs = (cs, None)"
      using e by (auto simp: sample_engine_def world_engine_def frame_calls_def upload_pending_def
          finish_calls_def upload_calls_def renders_world_def host_write_def staging_capacity_def ui_upload_capacity_def world_upload_capacity_def framebuffer_call_def
          cmd_ui_draw_def cmd_world_draw_def extent_ok_def draw_range_ok_def wchecked_add_def Let_def)
    then obtain cs where cs: "frame_calls e 1 = Ret cs" "perform (\<lambda>_. True) 0 cs = (cs, None)" by blast
    have "engine_ok e" "frame_admitted e"
      using e by (auto simp: engine_ok_def frame_admitted_def sample_engine_def world_engine_def)
    from refused_submission_hangs [OF this, of "good_answers\<lparr>fa_submit := False\<rparr>" 1 cs] cs
    show ?thesis by (auto simp: good_answers_def)
  qed
  then show ?thesis by blast
qed

lemma swapchain_recreate_adopts:
  assumes "ca_handle a = Some h" "h \<notin> set table" "swapchain_recreate a sw table = Ret (Inr (), sw', table')"
  shows "sw_handle sw' = h \<and> table' = table"
  using assms by (cases "ca_images a") (auto simp: swapchain_recreate_def swapchain_create_def swapchain_drop_def destroy_swapchain_def Let_def)

lemma rebuild_targets_fields:
  assumes "rebuild_targets a e = (r, e')"
  shows "pe_swapchain e' = pe_swapchain e" "pe_live e' = pe_live e" "pe_frames e' = pe_frames e" "pe_world_upload e' = pe_world_upload e"
  using assms by (auto simp: rebuild_targets_def Let_def split: if_splits option.splits)

lemma engine_recreate_Inr:
  assumes r: "engine_recreate debug a sz e = Ret (Inr (), e')"
  shows "\<exists>sw table. swapchain_recreate (ra_create a) (pe_swapchain e) (pe_live e) = Ret (Inr (), sw, table)
     \<and> pe_swapchain e' = sw \<and> pe_live e' = table \<and> pe_frames e' = pe_frames e \<and> pe_world_upload e' = pe_world_upload e"
proof -
  have idle: "ra_idle a" using r by (auto simp: engine_recreate_def split: if_splits)
  obtain fmt mode ex n where c: "configure_surface debug (ra_caps a) (ra_formats a) (ra_modes a) sz = Ret (Inr (fmt, mode, ex, n))"
    using r idle by (cases "configure_surface debug (ra_caps a) (ra_formats a) (ra_modes a) sz")
      (auto simp: engine_recreate_def split: sum.splits)
  obtain q sw table where s: "swapchain_recreate (ra_create a) (pe_swapchain e) (pe_live e) = Ret (q, sw, table)"
    using r idle c by (cases "swapchain_recreate (ra_create a) (pe_swapchain e) (pe_live e)")
      (auto simp: engine_recreate_def Let_def split: option.splits)
  obtain caps where g: "ra_caps_again a = Some caps" using r idle c by (cases "ra_caps_again a") (auto simp: engine_recreate_def Let_def)
  have "q = Inr ()" using r idle c s g by (cases q) (auto simp: engine_recreate_def Let_def)
  then show ?thesis using r idle c s g
    by (auto simp: engine_recreate_def Let_def dest: rebuild_targets_fields)
qed

lemma recreate_dangling:
  assumes r: "engine_recreate debug a sz e = Ret (Inr (), e')" and new: "ca_handle (ra_create a) = Some h" "h \<notin> set (pe_live e)"
  shows "sw_handle (pe_swapchain e') = h" "pe_live e' = pe_live e" "pe_frames e' = pe_frames e" "pe_world_upload e' = pe_world_upload e"
  using engine_recreate_Inr [OF r] swapchain_recreate_adopts [OF new] by fastforce+

text \<open>One recreation at any engine: it returns when the configuration of the surface returns and a handle that is created is
  new; it leaves the fences and the staged world alone; and when it gets as far as taking over a new swapchain, the handle
  that the engine holds afterwards is destroyed, as it is when it was before.\<close>

definition recreation_returns :: "bool \<Rightarrow> recreate_answers \<Rightarrow> u64 list \<Rightarrow> extent \<Rightarrow> bool" where
  "recreation_returns debug a table sz \<longleftrightarrow>
     (case configure_surface debug (ra_caps a) (ra_formats a) (ra_modes a) sz of Ret _ \<Rightarrow> True | _ \<Rightarrow> False)
     \<and> (case ca_handle (ra_create a) of None \<Rightarrow> True | Some h \<Rightarrow> h \<notin> set table)"

definition recreation_replaces :: "bool \<Rightarrow> recreate_answers \<Rightarrow> extent \<Rightarrow> bool" where
  "recreation_replaces debug a sz \<longleftrightarrow>
     ra_idle a \<and> (case configure_surface debug (ra_caps a) (ra_formats a) (ra_modes a) sz of Ret (Inr _) \<Rightarrow> True | _ \<Rightarrow> False)
     \<and> ra_caps_again a \<noteq> None \<and> ca_handle (ra_create a) \<noteq> None \<and> ca_images (ra_create a) \<noteq> None"

definition same_fences :: "present_engine \<Rightarrow> present_engine \<Rightarrow> bool" where
  "same_fences e e' \<longleftrightarrow> pe_live e' = pe_live e \<and> pe_frames e' = pe_frames e \<and> pe_world_upload e' = pe_world_upload e"

definition dangling :: "present_engine \<Rightarrow> bool" where
  "dangling e \<longleftrightarrow> sw_handle (pe_swapchain e) \<notin> set (pe_live e)"

lemma swapchain_recreate_cases:
  assumes "case ca_handle a of None \<Rightarrow> True | Some h \<Rightarrow> h \<notin> set table"
  shows "\<exists>q sw'. swapchain_recreate a sw table = Ret (q, sw', table)
     \<and> (sw_handle sw \<notin> set table \<or> ca_handle a \<noteq> None \<and> ca_images a \<noteq> None \<longrightarrow> sw_handle sw' \<notin> set table)"
  using assms
  by (cases "ca_handle a"; cases "ca_images a") (simp_all add: swapchain_recreate_def swapchain_create_def swapchain_drop_def destroy_swapchain_def)

lemma engine_recreate_cases:
  assumes "recreation_returns debug a (pe_live e) sz"
  shows "\<exists>r e'. engine_recreate debug a sz e = Ret (r, e') \<and> same_fences e e' \<and> (dangling e \<or> recreation_replaces debug a sz \<longrightarrow> dangling e')"
proof (cases "ra_idle a")
  case idle: True
  obtain r where c: "configure_surface debug (ra_caps a) (ra_formats a) (ra_modes a) sz = Ret r"
    using assms by (auto simp: recreation_returns_def split: run.splits)
  obtain q sw where s: "swapchain_recreate (ra_create a) (pe_swapchain e) (pe_live e) = Ret (q, sw, pe_live e)"
    "sw_handle (pe_swapchain e) \<notin> set (pe_live e) \<or> ca_handle (ra_create a) \<noteq> None \<and> ca_images (ra_create a) \<noteq> None
       \<longrightarrow> sw_handle sw \<notin> set (pe_live e)"
    using swapchain_recreate_cases [where a = "ra_create a" and table = "pe_live e" and sw = "pe_swapchain e"] assms by (auto simp: recreation_returns_def)
  show ?thesis
  proof (cases r)
    case (Inl x)
    then show ?thesis using idle c by (simp add: engine_recreate_def same_fences_def recreation_replaces_def)
  next
    case (Inr x)
    obtain fmt mode ex n where x: "x = (fmt, mode, ex, n)" by (cases x)
    let ?e2 = "e\<lparr>pe_format := fmt, pe_mode := mode, pe_extent := ex, pe_ui_pipeline := False, pe_world_pipeline := False,
      pe_targets := None, pe_swapchain := sw, pe_live := pe_live e\<rparr>"
    obtain t e3 where t: "rebuild_targets a ?e2 = (t, e3)" by fastforce
    note f = rebuild_targets_fields [OF t]
    show ?thesis using idle c s Inr x t f
      by (cases "ra_caps_again a"; cases q) (auto simp: engine_recreate_def Let_def same_fences_def dangling_def recreation_replaces_def)
  qed
qed (simp add: engine_recreate_def same_fences_def recreation_replaces_def)

lemma present_dangling:
  assumes "dangling e" "pe_frames e \<noteq> []" "FenceReset \<notin> set (pe_frames e)" "frame_admitted e" "fa_wait b = (\<lambda>_. True)" "fa_wait_own b"
  shows "present_frame b e = UB"
  using assms wait_frames_all [of "pe_frames e" 0]
  by (auto simp: present_frame_def frame_admitted_def dangling_def fence_wait_def swapchain_acquire_def Let_def)

lemma present_after_recreate:
  assumes e: "engine_ok e" "pe_world_upload e = []" and r: "engine_recreate debug a sz e = Ret (Inr (), e')"
    and new: "ca_handle (ra_create a) = Some h" "h \<notin> set (pe_live e)" and b: "fa_wait b = (\<lambda>_. True)" "fa_wait_own b"
  shows "present_frame b (e'\<lparr>pe_stage := s\<rparr>) = UB" "present_frame b e' = UB"
  using e b new(2) recreate_dangling [OF r new] wait_frames_all [of "pe_frames e" 0]
  by (auto simp: present_frame_def engine_ok_def fence_wait_def swapchain_acquire_def Let_def)

text \<open>Recreating the swapchain destroys it. After a successful \<open>recreate\<close> the engine holds the handle of a swapchain
  that has been destroyed, because the local replacement whose handle it took is dropped, while the old swapchain was
  never destroyed; the next frame that gets past its fences calls Vulkan with the destroyed handle, and so does the
  destructor.\<close>

theorem recreate_leaves_destroyed_swapchain:
  assumes e: "engine_ok e" and r: "engine_recreate debug a sz e = Ret (Inr (), e')" and new: "ca_handle (ra_create a) = Some h" "h \<notin> set (pe_live e)"
  shows "sw_handle (pe_swapchain e') = h \<and> h \<notin> set (pe_live e') \<and> sw_handle (pe_swapchain e) \<in> set (pe_live e')
     \<and> swapchain_drop (pe_swapchain e') (pe_live e') = UB
     \<and> (\<forall>b. fa_wait b = (\<lambda>_. True) \<and> fa_wait_own b \<and> pe_world_upload e = [] \<longrightarrow> present_frame b e' = UB)"
proof -
  note f = recreate_dangling [OF r new]
  have "present_frame b e' = UB" if "fa_wait b = (\<lambda>_. True)" "fa_wait_own b" "pe_world_upload e = []" for b
    using present_after_recreate(2) [OF e that(3) r new that(1,2)] .
  then show ?thesis using f new(2) e by (auto simp: engine_ok_def swapchain_drop_def destroy_swapchain_def)
qed

definition resize_answers :: recreate_answers where
  "resize_answers =
     (let c = \<lparr>min_image_count = 2, max_image_count = 3, current_extent = \<lparr>ex_width = 800, ex_height = 600\<rparr>,
               min_image_extent = \<lparr>ex_width = 1, ex_height = 1\<rparr>, max_image_extent = \<lparr>ex_width = 4096, ex_height = 4096\<rparr>,
               supported_composite_alpha = 1\<rparr>
      in \<lparr>ra_idle = True, ra_caps = Some c, ra_formats = Some [], ra_modes = Some [2], ra_caps_again = Some c,
          ra_create = \<lparr>ca_handle = Some 2, ca_images = Some [20, 21, 22]\<rparr>, ra_targets = True, ra_ui_pipeline = Some True,
          ra_world_pipeline = Some True\<rparr>)"

theorem recreate_leaves_destroyed_swapchain_witness:
  "\<exists>e'. engine_recreate True resize_answers \<lparr>ex_width = 800, ex_height = 600\<rparr> sample_engine = Ret (Inr (), e') \<and> present_frame good_answers e' = UB"
proof -
  obtain e' where r: "engine_recreate True resize_answers \<lparr>ex_width = 800, ex_height = 600\<rparr> sample_engine = Ret (Inr (), e')"
    by (simp add: engine_recreate_def resize_answers_def sample_engine_def configure_surface_def pick_present_mode_def pick_extent_def
        default_image_count_def u32_clamp_def select_format_def swapchain_recreate_def swapchain_create_def swapchain_drop_def
        destroy_swapchain_def rebuild_targets_def Let_def)
  from recreate_leaves_destroyed_swapchain [OF sample_engine_ok r, of 2]
  have "present_frame good_answers e' = UB" by (auto simp: resize_answers_def sample_engine_def good_answers_def Let_def)
  then show ?thesis using r by blast
qed

section \<open>What the choices guarantee\<close>

lemma u32_clamp_between: "u32_clamp x lo hi = Ret y \<Longrightarrow> lo \<le> y \<and> y \<le> hi"
  by (auto simp: u32_clamp_def max_def min_def split: if_splits)

lemma pick_present_mode_supported: "pick_present_mode ms = Some m \<Longrightarrow> m \<in> set ms"
  by (auto simp: pick_present_mode_def split: if_splits list.splits)

lemma find_Some_holds: "find P xs = Some x \<Longrightarrow> P x"
  by (induction xs) (auto split: if_splits)

lemma select_format_supported:
  assumes "fs \<noteq> []"
  shows "select_format fs preferred \<in> set fs"
proof (cases "find (\<lambda>(f, c). list_ex (\<lambda>x. sf_format x = f \<and> sf_color_space x = c) fs) preferred")
  case (Some p)
  obtain f c where p: "p = (f, c)" by (cases p)
  have "list_ex (\<lambda>x. sf_format x = f \<and> sf_color_space x = c) fs" using find_Some_holds [OF Some] p by simp
  then obtain x where x: "x \<in> set fs" "sf_format x = f" "sf_color_space x = c" by (auto simp: list_ex_iff)
  moreover from x(2,3) have "x = \<lparr>sf_format = f, sf_color_space = c\<rparr>" by simp
  ultimately show ?thesis using x(1) Some p by (simp add: select_format_def)
qed (use assms in \<open>auto simp: select_format_def split: list.splits\<close>)

text \<open>The configuration asks only for what the surface reported: a supported presentation mode, a supported format, the
  current extent or one within the limits, and an image count that is at least the minimum and exceeds a maximum of at
  least two images never.\<close>

theorem configured_surface_supported:
  assumes r: "configure_surface debug (Some c) (Some fs) (Some ms) sz = Ret (Inr (fmt, mode, ex, n))"
  shows "mode \<in> set ms" "fs \<noteq> [] \<Longrightarrow> fmt \<in> set fs"
    "ex = current_extent c
       \<or> ex_width (min_image_extent c) \<le> ex_width ex \<and> ex_width ex \<le> ex_width (max_image_extent c)
         \<and> ex_height (min_image_extent c) \<le> ex_height ex \<and> ex_height ex \<le> ex_height (max_image_extent c)"
    "max_image_count c \<ge> 2 \<Longrightarrow> min_image_count c \<noteq> 0 \<Longrightarrow> min_image_count c \<le> n \<and> n \<le> max_image_count c"
proof -
  obtain m x k where m: "pick_present_mode ms = Some m" "pick_extent c sz = Ret x" "default_image_count debug c = Ret k"
    and eq: "fmt = select_format fs [(44, 0), (37, 0)]" "mode = m" "ex = x" "n = max k 2"
    using r by (auto simp: configure_surface_def run_bind_Ret_iff split: option.splits)
  show "mode \<in> set ms" using pick_present_mode_supported [OF m(1)] eq(2) by simp
  show "fs \<noteq> [] \<Longrightarrow> fmt \<in> set fs" using select_format_supported eq(1) by blast
  show "ex = current_extent c
       \<or> ex_width (min_image_extent c) \<le> ex_width ex \<and> ex_width ex \<le> ex_width (max_image_extent c)
         \<and> ex_height (min_image_extent c) \<le> ex_height ex \<and> ex_height ex \<le> ex_height (max_image_extent c)"
    using m(2) eq(3) by (auto simp: pick_extent_def run_bind_Ret_iff dest!: u32_clamp_between split: if_splits)
  assume b: "max_image_count c \<ge> 2" "min_image_count c \<noteq> 0"
  then have "u32_clamp (min_image_count c + 1) (min_image_count c) (max_image_count c) = Ret k"
    using m(3) by (auto simp: default_image_count_def Let_def split: if_splits)
  then show "min_image_count c \<le> n \<and> n \<le> max_image_count c"
    using u32_clamp_between [of "min_image_count c + 1" "min_image_count c" "max_image_count c" k] b(1) eq(4) by (auto simp: max_def)
qed

text \<open>The chosen device can present and no device that can has a higher score.\<close>

definition can_present :: "(queue_family \<Rightarrow> bool option) \<Rightarrow> present_device \<Rightarrow> bool" where
  "can_present ask d \<longleftrightarrow> (\<exists>f. present_family ask (pd_families d) = Inr (Some f))"

lemma pick_device_loop_best:
  assumes "pick_device_loop ask i ds best = Inr r"
  shows "(\<forall>j < length ds. can_present (ask (i + j)) (ds ! j) \<longrightarrow>
       (\<exists>k d f. r = Some (k, d, f) \<and> selection_score (pd_type (ds ! j)) \<le> selection_score (pd_type d)))
     \<and> (\<forall>k d f. best = Some (k, d, f) \<longrightarrow> (\<exists>k' d' f'. r = Some (k', d', f') \<and> selection_score (pd_type d) \<le> selection_score (pd_type d')))
     \<and> (r = best \<or> (\<exists>j d f. j < length ds \<and> r = Some (i + j, ds ! j, f) \<and> present_family (ask (i + j)) (pd_families (ds ! j)) = Inr (Some f)))"
  using assms
proof (induction ds arbitrary: i best)
  case (Cons d ds)
  obtain q where q: "present_family (ask i) (pd_families d) = Inr q" using Cons.prems by (cases "present_family (ask i) (pd_families d)") auto
  define b where "b = (case q of None \<Rightarrow> best | Some f \<Rightarrow> (case best of
               None \<Rightarrow> Some (i, d, f)
             | Some (j, c, g) \<Rightarrow> if selection_score (pd_type d) > selection_score (pd_type c) then Some (i, d, f) else best))"
  have rec: "pick_device_loop ask (i + 1) ds b = Inr r" using Cons.prems q by (cases q) (simp_all add: b_def)
  note ih = Cons.IH [OF rec]
  have up: "\<exists>k' d' f'. b = Some (k', d', f') \<and> selection_score (pd_type x) \<le> selection_score (pd_type d')"
    if "best = Some (k, x, g)" for k x g
    using that by (auto simp: b_def split: option.splits)
  have own: "\<exists>k' d' f'. b = Some (k', d', f') \<and> selection_score (pd_type d) \<le> selection_score (pd_type d')" if "can_present (ask i) d"
    using that q by (auto simp: b_def can_present_def split: option.splits)
  have src: "b = best \<or> (\<exists>f. b = Some (i, d, f) \<and> present_family (ask i) (pd_families d) = Inr (Some f))"
    using q by (auto simp: b_def split: option.splits)
  show ?case
  proof (intro conjI allI impI)
    fix j assume j: "j < length (d # ds)" "can_present (ask (i + j)) ((d # ds) ! j)"
    show "\<exists>k da f. r = Some (k, da, f) \<and> selection_score (pd_type ((d # ds) ! j)) \<le> selection_score (pd_type da)"
    proof (cases j)
      case 0
      then obtain k' d' f' where "b = Some (k', d', f')" "selection_score (pd_type d) \<le> selection_score (pd_type d')" using own j by auto
      moreover from this(1) obtain k2 d2 f2 where "r = Some (k2, d2, f2)" "selection_score (pd_type d') \<le> selection_score (pd_type d2)"
        using ih by metis
      ultimately show ?thesis using 0 by auto
    next
      case (Suc j')
      then show ?thesis using ih j by auto
    qed
  next
    fix k x f assume "best = Some (k, x, f)"
    from up [OF this] obtain k1 d1 f1 where "b = Some (k1, d1, f1)" "selection_score (pd_type x) \<le> selection_score (pd_type d1)" by blast
    moreover from this(1) obtain k2 d2 f2 where "r = Some (k2, d2, f2)" "selection_score (pd_type d1) \<le> selection_score (pd_type d2)"
      using ih by metis
    ultimately show "\<exists>k' d' f'. r = Some (k', d', f') \<and> selection_score (pd_type x) \<le> selection_score (pd_type d')" by auto
  next
    consider "r = b" | j f where "j < length ds" "r = Some (i + 1 + j, ds ! j, f)" "present_family (ask (i + 1 + j)) (pd_families (ds ! j)) = Inr (Some f)"
      using ih by (elim conjE disjE exE) auto
    then show "r = best \<or> (\<exists>j da f. j < length (d # ds) \<and> r = Some (i + j, (d # ds) ! j, f)
        \<and> present_family (ask (i + j)) (pd_families ((d # ds) ! j)) = Inr (Some f))"
    proof cases
      case 1
      then show ?thesis using src by (metis add_0_right length_greater_0_conv list.discI nth_Cons_0)
    next
      case (2 j f)
      then show ?thesis by (intro disjI2 exI [of _ "Suc j"] exI [of _ f]) simp
    qed
  qed
qed simp

theorem pick_present_device_best:
  assumes "pick_present_device ask ds = Inr (i, d, f)"
  shows "i < length ds" "d = ds ! i" "present_family (ask i) (pd_families d) = Inr (Some f)"
    "j < length ds \<Longrightarrow> can_present (ask j) (ds ! j) \<Longrightarrow> selection_score (pd_type (ds ! j)) \<le> selection_score (pd_type d)"
proof -
  have r: "pick_device_loop ask 0 ds None = Inr (Some (i, d, f))"
    using assms by (auto simp: pick_present_device_def split: sum.splits option.splits)
  note best = pick_device_loop_best [OF r]
  show "i < length ds" "d = ds ! i" "present_family (ask i) (pd_families d) = Inr (Some f)" using best by auto
  show "j < length ds \<Longrightarrow> can_present (ask j) (ds ! j) \<Longrightarrow> selection_score (pd_type (ds ! j)) \<le> selection_score (pd_type d)"
    using best by auto
qed

end
