(* ===== verification/Renderer_Driver.thy ===== *)
theory Renderer_Driver
  imports Messages Render_Frame Present
begin

text \<open>
  \<open>src/src/subsystems/renderer.rs\<close>: the renderer subsystem. A tick drains the inbox (resizes and UI packets), extracts the
  renderable entities of the world, batches and prepares them, and submits the frame to the native lane or to the
  headless backend. The answers of the allocator and of the Vulkan driver during one tick are parameters.
\<close>

section \<open>State\<close>

datatype renderer_state = RendererNew | RendererReady | RendererShutdown

record render_stats =
  rs_frames :: u64
  rs_total_dt_ns :: "128 word"

record native_lane =
  lane_engine :: present_engine
  lane_size :: extent
  lane_color :: "f32 list"

record renderer =
  rr_state :: renderer_state
  rr_stats :: render_stats
  rr_native :: "native_lane option"
  rr_last_resize :: "(u32 \<times> u32) option"
  rr_world :: render_world
  rr_manifest :: manifest
  rr_preparation :: gpu_preparation
  rr_headless :: submission_stats
  rr_last_submission :: "submission_stats option"
  rr_last_extraction :: "extraction_stats option"
  rr_extraction_overflowed :: bool
  rr_manifest_overflowed :: bool
  rr_last_ui_frame :: "ui_frame_ready option"
  rr_last_ui_packet :: "ui_frame_packet option"
  rr_last_ui_plan :: "ui_command_plan option"
  rr_last_ui_draws :: "ui_draw_command list option"

text \<open>What the allocator and the driver answer during a tick; \<open>ra_sorter\<close> is \<open>sort_unstable_by_key\<close>.\<close>

record renderer_answers =
  ra_world_alloc :: alloc
  ra_world_room :: "nat \<Rightarrow> nat"
  ra_sorter :: "render_instance list \<Rightarrow> render_instance list"
  ra_manifest_alloc :: alloc
  ra_manifest_room :: nat
  ra_prepare_alloc :: alloc
  ra_prepare_room :: nat
  ra_plan_alloc :: "nat \<Rightarrow> alloc"
  ra_stage_upload :: bool
  ra_stage_draws :: bool
  ra_frame :: frame_answers
  ra_resize :: "nat \<Rightarrow> recreate_answers"
  ra_out_of_date :: recreate_answers

definition renderer_new :: "native_lane option \<Rightarrow> renderer" where
  "renderer_new lane =
     \<lparr>rr_state = RendererNew, rr_stats = \<lparr>rs_frames = 0, rs_total_dt_ns = 0\<rparr>, rr_native = lane, rr_last_resize = None,
      rr_world = \<lparr>rw_instances = [], rw_max = 4096\<rparr>,
      rr_manifest = \<lparr>mf_instances = [], mf_batches = [], mf_max_instances = 4096, mf_max_batches = 4096\<rparr>,
      rr_preparation = \<lparr>gp_instances = [], gp_commands = [], gp_max_instances = 4096, gp_max_commands = 4096\<rparr>,
      rr_headless = \<lparr>submitted_frames = 0, submitted_instances = 0, submitted_commands = 0\<rparr>, rr_last_submission = None,
      rr_last_extraction = None, rr_extraction_overflowed = False, rr_manifest_overflowed = False, rr_last_ui_frame = None,
      rr_last_ui_packet = None, rr_last_ui_plan = None, rr_last_ui_draws = None\<rparr>"

section \<open>The native lane\<close>

text \<open>Staging the UI of a frame: the ranges, the count check and the draws, or empty ones when there is no UI.\<close>

definition stage_ui ::
  "renderer_answers \<Rightarrow> ui_command_plan option \<Rightarrow> ui_draw_command list option \<Rightarrow> ui_frame_packet option \<Rightarrow> ui_stage
     \<Rightarrow> (render_submit_error + unit) \<times> ui_stage" where
  "stage_ui a plan draws packet st =
     (case (plan, draws, packet) of
        (Some p, Some cs, Some pk) \<Rightarrow>
          (case set_ui_upload_ranges (ra_stage_upload a) (pk_ranges pk) (upload_bytes (sn_upload (pk_snapshot pk))) st of
             (False, st1) \<Rightarrow> (Inl Unsupported, st1)
           | (True, st1) \<Rightarrow>
               if length cs \<noteq> unat (cp_draws p) then (Inl InvalidPreparation, st1)
               else (case set_ui_draw_commands (ra_stage_draws a) cs st1 of
                       (False, st2) \<Rightarrow> (Inl Unsupported, st2)
                     | (True, st2) \<Rightarrow> (Inr (), st2)))
      | _ \<Rightarrow>
          (case set_ui_upload (ra_stage_upload a) [] st of
             (False, st1) \<Rightarrow> (Inl Unsupported, st1)
           | (True, st1) \<Rightarrow>
               (case set_ui_draw_commands (ra_stage_draws a) [] st1 of
                  (False, st2) \<Rightarrow> (Inl Unsupported, st2)
                | (True, st2) \<Rightarrow> (Inr (), st2))))"

definition lane_submit ::
  "renderer_answers \<Rightarrow> gpu_preparation \<Rightarrow> ui_command_plan option \<Rightarrow> ui_draw_command list option \<Rightarrow> ui_frame_packet option \<Rightarrow> native_lane
     \<Rightarrow> ((render_submit_error + submission_stats) \<times> native_lane) run" where
  "lane_submit a g plan draws packet lane =
     (case validate g of
        Inl _ \<Rightarrow> Ret (Inl InvalidPreparation, lane)
      | Inr _ \<Rightarrow>
         (case stage_ui a plan draws packet (pe_stage (lane_engine lane)) of
            (Inl x, st) \<Rightarrow> Ret (Inl x, lane\<lparr>lane_engine := (lane_engine lane)\<lparr>pe_stage := st\<rparr>\<rparr>)
          | (Inr _, st) \<Rightarrow>
              run_bind (present_frame (ra_frame a) ((lane_engine lane)\<lparr>pe_stage := st\<rparr>)) (\<lambda>(r, _, e).
                Ret (case r of
                       Inr Presented \<Rightarrow> Inr \<lparr>submitted_frames = 1, submitted_instances = of_nat (length (gp_instances g)),
                                            submitted_commands = of_nat (length (gp_commands g))\<rparr>
                     | Inr present_status.OutOfDate \<Rightarrow> Inl render_submit_error.OutOfDate
                     | Inl _ \<Rightarrow> Inl DeviceLost, lane\<lparr>lane_engine := e\<rparr>))))"

definition recreate_native :: "bool \<Rightarrow> recreate_answers \<Rightarrow> extent \<Rightarrow> renderer \<Rightarrow> renderer run" where
  "recreate_native debug a sz st =
     (case rr_native st of
        None \<Rightarrow> Ret st
      | Some lane \<Rightarrow>
          run_bind (engine_recreate debug a sz (lane_engine lane)) (\<lambda>(_, e).
            Ret (st\<lparr>rr_native := Some (lane\<lparr>lane_size := sz, lane_engine := e\<rparr>)\<rparr>)))"

section \<open>The tick\<close>

text \<open>One envelope; the first component counts the envelopes, to number the answers.\<close>

definition renderer_receive ::
  "bool \<Rightarrow> renderer_answers \<Rightarrow> message envelope \<Rightarrow> nat \<times> renderer \<Rightarrow> (nat \<times> renderer) run" where
  "renderer_receive debug a m = (\<lambda>(i, st).
     run_bind
       (if topic m = 1
        then (case payload m of
                WindowResized w h \<Rightarrow>
                  recreate_native debug (ra_resize a i) \<lparr>ex_width = w, ex_height = h\<rparr> (st\<lparr>rr_last_resize := Some (w, h)\<rparr>)
              | _ \<Rightarrow> Ret st)
        else if topic m = 2
        then (case payload m of
                UiFrame p \<Rightarrow>
                  Ret (st\<lparr>rr_last_ui_frame := Some (pk_ready p),
                          rr_last_ui_plan := (case ui_plan_try_build (pk_snapshot p) of Inr q \<Rightarrow> Some q | Inl _ \<Rightarrow> None),
                          rr_last_ui_draws := (case build_draw_commands (ra_plan_alloc a i) (pk_snapshot p) of Inr cs \<Rightarrow> Some cs | Inl _ \<Rightarrow> None),
                          rr_last_ui_packet := Some p\<rparr>)
              | _ \<Rightarrow> Ret st)
        else Ret st)
       (\<lambda>st'. Ret (i + 1, st')))"

definition submit_native :: "bool \<Rightarrow> renderer_answers \<Rightarrow> native_lane \<Rightarrow> renderer \<Rightarrow> renderer run" where
  "submit_native debug a lane st =
     run_bind (lane_submit a (rr_preparation st) (rr_last_ui_plan st) (rr_last_ui_draws st) (rr_last_ui_packet st) lane) (\<lambda>(r, lane').
       case r of
         Inr s \<Rightarrow> Ret (st\<lparr>rr_native := Some lane', rr_last_submission := Some s\<rparr>)
       | Inl render_submit_error.OutOfDate \<Rightarrow>
           run_bind (engine_recreate debug (ra_out_of_date a) (lane_size lane') (lane_engine lane')) (\<lambda>(_, e).
             Ret (st\<lparr>rr_native := Some (lane'\<lparr>lane_engine := e\<rparr>)\<rparr>))
       | Inl _ \<Rightarrow> Ret (st\<lparr>rr_native := Some lane', rr_last_submission := None\<rparr>))"

definition submit_frame_of :: "bool \<Rightarrow> renderer_answers \<Rightarrow> renderer \<Rightarrow> renderer run" where
  "submit_frame_of debug a st =
     (case rr_native st of
        Some lane \<Rightarrow> submit_native debug a lane st
      | None \<Rightarrow>
          (case headless_submit (rr_preparation st) (rr_headless st) of
             (Inr s, h) \<Rightarrow> Ret (st\<lparr>rr_headless := h, rr_last_submission := Some s\<rparr>)
           | (Inl _, h) \<Rightarrow> Ret (st\<lparr>rr_headless := h\<rparr>)))"

definition render_extracted :: "bool \<Rightarrow> renderer_answers \<Rightarrow> renderer \<Rightarrow> renderer run" where
  "render_extracted debug a st =
     (case manifest_build (ra_sorter a) (ra_manifest_alloc a) (ra_manifest_room a) (rr_world st) (rr_manifest st) of
        (r, m) \<Rightarrow>
          let st1 = st\<lparr>rr_manifest := m, rr_manifest_overflowed := isl r\<rparr>
          in if isl r then Ret st1
             else (case prepare (ra_prepare_alloc a) (ra_prepare_room a) m (rr_preparation st1) of
                     (q, g) \<Rightarrow>
                       let st2 = st1\<lparr>rr_preparation := g, rr_manifest_overflowed := isl q\<rparr>
                       in if isl q then Ret st2 else submit_frame_of debug a st2))"

definition renderer_render :: "bool \<Rightarrow> renderer_answers \<Rightarrow> 'v render_types \<Rightarrow> 'v world \<Rightarrow> renderer \<Rightarrow> renderer run" where
  "renderer_render debug a ty w st =
     run_bind (extract_typed (ra_world_alloc a) (ra_world_room a) ty w (rr_world st)) (\<lambda>(r, rw).
       case r of
         Inr stats \<Rightarrow> render_extracted debug a (st\<lparr>rr_world := rw, rr_last_extraction := Some stats, rr_extraction_overflowed := False\<rparr>)
       | Inl _ \<Rightarrow> Ret (st\<lparr>rr_world := rw, rr_extraction_overflowed := True, rr_manifest_overflowed := True\<rparr>))"

definition count_frame :: "u64 \<Rightarrow> renderer \<Rightarrow> renderer" where
  "count_frame dt st = st\<lparr>rr_stats := \<lparr>rs_frames = wsat_add (rs_frames (rr_stats st)) 1,
     rs_total_dt_ns = wsat_add (rs_total_dt_ns (rr_stats st)) (ucast dt)\<rparr>\<rparr>"

definition renderer_init :: "(renderer, message, 'v) callback" where
  "renderer_init env st c =
     (if debug_build env \<and> rr_state st \<noteq> RendererNew then Panic else Ret (st\<lparr>rr_state := RendererReady\<rparr>, c))"

definition renderer_tick :: "renderer_answers \<Rightarrow> 'v render_types \<Rightarrow> (renderer, message, 'v) callback" where
  "renderer_tick a ty env st c =
     (if rr_state st \<noteq> RendererReady then Ret (st, c)
      else run_bind (ctx_receive env c) (\<lambda>(ms, c1).
             run_bind (run_fold (renderer_receive (debug_build env) a) ms (0, st)) (\<lambda>(_, st1).
               run_bind (renderer_render (debug_build env) a ty (kworld c1) st1) (\<lambda>st2.
                 Ret (count_frame (dt_ns env) st2, c1)))))"

definition renderer_shutdown :: "(renderer, message, 'v) callback" where
  "renderer_shutdown env st c = Ret (if rr_state st = RendererReady then st\<lparr>rr_state := RendererShutdown\<rparr> else st, c)"

section \<open>From the world to the preparation\<close>

definition renderer_sized :: "renderer \<Rightarrow> bool" where
  "renderer_sized st \<longleftrightarrow> rw_max (rr_world st) = 4096 \<and> mf_max_instances (rr_manifest st) = 4096 \<and> mf_max_batches (rr_manifest st) = 4096
     \<and> gp_max_instances (rr_preparation st) = 4096 \<and> gp_max_commands (rr_preparation st) = 4096"

text \<open>The vectors keep the capacity that was reserved when the renderer was made.\<close>

definition answers_roomy :: "renderer_answers \<Rightarrow> bool" where
  "answers_roomy a \<longleftrightarrow> roomy 4096 (ra_world_room a) \<and> 4096 \<le> ra_manifest_room a \<and> 4096 \<le> ra_prepare_room a"

definition same_rest :: "renderer \<Rightarrow> renderer \<Rightarrow> bool" where
  "same_rest st st' \<longleftrightarrow> rr_state st' = rr_state st \<and> rr_stats st' = rr_stats st \<and> rr_native st' = rr_native st \<and> rr_headless st' = rr_headless st
     \<and> rr_last_submission st' = rr_last_submission st \<and> rr_last_ui_packet st' = rr_last_ui_packet st
     \<and> rr_last_ui_plan st' = rr_last_ui_plan st \<and> rr_last_ui_draws st' = rr_last_ui_draws st"

definition prepared :: "render_instance list \<Rightarrow> renderer \<Rightarrow> renderer \<Rightarrow> bool" where
  "prepared xs st st' \<longleftrightarrow>
     mset (gp_instances (rr_preparation st')) = mset xs
     \<and> length (gp_commands (rr_preparation st')) = card (batch_key ` set xs) \<and> validate (rr_preparation st') = Inr ()
     \<and> renderer_sized st' \<and> \<not> rr_manifest_overflowed st' \<and> \<not> rr_extraction_overflowed st' \<and> same_rest st st'"

lemma render_extracted_reaches:
  assumes srt: "key_sorter sort_key_of (ra_sorter a)" and st: "renderer_sized st" "answers_roomy a"
    and xs: "length (rw_instances (rr_world st)) \<le> 4096" and no: "\<not> rr_extraction_overflowed st"
  shows "\<exists>st'. render_extracted debug a st = submit_frame_of debug a st' \<and> prepared (rw_instances (rr_world st)) st st'
     \<and> rr_last_extraction st' = rr_last_extraction st"
proof -
  let ?xs = "rw_instances (rr_world st)" and ?ys = "ra_sorter a (rw_instances (rr_world st))"
  let ?bs = "batches_at 0 (runs batch_key ?ys)"
  note ks = key_sorter.mset_sorter [OF srt] key_sorter.sorted_sorter [OF srt] key_sorter.set_sorter [OF srt] key_sorter.length_sorter [OF srt]
  have u32: "length ?xs \<le> u32_max" "length ?ys \<le> u32_max" using xs ks(4) by (simp_all add: u32_max_def)
  have nb: "length ?bs = card (batch_key ` set ?xs)" using sorted_batches(5) [OF u32(2) ks(2)] ks(3) by simp
  also have "\<dots> \<le> length ?xs" using card_image_le [of "set ?xs" batch_key] card_length [of ?xs] by simp
  finally have le: "length ?bs \<le> 4096" using xs by simp
  define m where "m = (manifest_clear (rr_manifest st))\<lparr>mf_instances := ?ys, mf_batches := ?bs\<rparr>"
  have mb: "manifest_build (ra_sorter a) (ra_manifest_alloc a) (ra_manifest_room a) (rr_world st) (rr_manifest st) = (Inr (), m)"
    using manifest_build_spec [OF srt u32(1), of "rr_manifest st" "ra_manifest_room a" "ra_manifest_alloc a"] st xs le
    by (simp add: renderer_sized_def answers_roomy_def m_def Let_def)
  have "list_all (\<lambda>b. range_check (length ?ys) (first_instance b) (instance_count b) = None) ?bs"
    using batches_at_in_range [of 0 "runs batch_key ?ys"] u32(2) by simp
  note pc = prepare_commands_ok [OF this, of "[]"]
  define g where "g = (rr_preparation st)\<lparr>gp_instances := ?ys, gp_commands := map command_of_batch ?bs\<rparr>"
  have g: "prepare (ra_prepare_alloc a) (ra_prepare_room a) m (rr_preparation st) = (Inr (), g)"
    using pc st xs le ks(4) by (simp add: prepare_def m_def g_def renderer_sized_def answers_roomy_def Let_def)
  let ?st' = "st\<lparr>rr_manifest := m, rr_preparation := g, rr_manifest_overflowed := False\<rparr>"
  have "render_extracted debug a st = submit_frame_of debug a ?st'"
    using mb g by (simp add: render_extracted_def Let_def)
  moreover have "prepared ?xs st ?st'"
    using ks(1) nb prepare_valid [OF g] st(1) no
    by (simp add: g_def prepared_def same_rest_def renderer_sized_def m_def manifest_clear_def)
  moreover have "rr_last_extraction ?st' = rr_last_extraction st" by simp
  ultimately show ?thesis by blast
qed

lemma renderer_render_reaches:
  assumes inv: "world_inv w" and srt: "key_sorter sort_key_of (ra_sorter a)" and st: "renderer_sized st" "answers_roomy a"
  shows "length (renderables ty w) \<le> 4096 \<Longrightarrow>
     \<exists>st'. renderer_render debug a ty w st = submit_frame_of debug a st' \<and> prepared (renderables ty w) st st'
       \<and> rr_last_extraction st' = Some \<lparr>considered = entity_count w, extracted = length (renderables ty w), rejected = 0\<rparr>"
    and "\<not> length (renderables ty w) \<le> 4096 \<Longrightarrow>
     renderer_render debug a ty w st =
       Ret (st\<lparr>rr_world := (rr_world st)\<lparr>rw_instances := take 4096 (renderables ty w)\<rparr>, rr_extraction_overflowed := True, rr_manifest_overflowed := True\<rparr>)"
proof -
  have cap: "rw_max (rr_world st) = 4096" "roomy (rw_max (rr_world st)) (ra_world_room a)"
    using st by (simp_all add: renderer_sized_def answers_roomy_def)
  note ex = extract_typed_spec [OF inv cap(2), of "ra_world_alloc a" ty, unfolded cap(1)]
  {
    assume le: "length (renderables ty w) \<le> 4096"
    let ?stats = "\<lparr>considered = entity_count w, extracted = length (renderables ty w), rejected = 0\<rparr>"
    let ?st = "st\<lparr>rr_world := (rr_world st)\<lparr>rw_instances := renderables ty w\<rparr>, rr_last_extraction := Some ?stats, rr_extraction_overflowed := False\<rparr>"
    have "renderer_sized ?st" using st(1) by (simp add: renderer_sized_def)
    from render_extracted_reaches [OF srt this st(2)] le obtain st' where
      st': "render_extracted debug a ?st = submit_frame_of debug a st'" "prepared (renderables ty w) ?st st'" "rr_last_extraction st' = Some ?stats" by auto
    have "renderer_render debug a ty w st = submit_frame_of debug a st'" using ex le st'(1) by (simp add: renderer_render_def)
    moreover have "prepared (renderables ty w) st st'" using st'(2) by (simp add: prepared_def same_rest_def)
    ultimately show "\<exists>st'. renderer_render debug a ty w st = submit_frame_of debug a st' \<and> prepared (renderables ty w) st st'
       \<and> rr_last_extraction st' = Some ?stats" using st'(3) by blast
  }
  {
    assume "\<not> length (renderables ty w) \<le> 4096"
    then show "renderer_render debug a ty w st =
       Ret (st\<lparr>rr_world := (rr_world st)\<lparr>rw_instances := take 4096 (renderables ty w)\<rparr>, rr_extraction_overflowed := True, rr_manifest_overflowed := True\<rparr>)"
      using ex by (simp add: renderer_render_def)
  }
qed

section \<open>Receiving\<close>

text \<open>Without a native lane, messages touch only what the renderer remembers of the window and the UI.\<close>

definition same_core :: "renderer \<Rightarrow> renderer \<Rightarrow> bool" where
  "same_core st st' \<longleftrightarrow> rr_state st' = rr_state st \<and> rr_stats st' = rr_stats st \<and> rr_native st' = rr_native st \<and> rr_headless st' = rr_headless st
     \<and> rr_last_submission st' = rr_last_submission st \<and> rr_world st' = rr_world st \<and> rr_manifest st' = rr_manifest st
     \<and> rr_preparation st' = rr_preparation st"

lemma headless_receive:
  assumes "rr_native st = None"
  shows "\<exists>st'. renderer_receive debug a m (i, st) = Ret (i + 1, st') \<and> same_core st st'"
  using assms by (cases "payload m") (auto simp: renderer_receive_def recreate_native_def same_core_def)

lemma headless_receive_all:
  assumes "rr_native st = None"
  shows "\<exists>n st'. run_fold (renderer_receive debug a) ms (i, st) = Ret (n, st') \<and> same_core st st'"
  using assms
proof (induction ms arbitrary: i st)
  case (Cons m ms)
  obtain st1 where st1: "renderer_receive debug a m (i, st) = Ret (i + 1, st1)" "same_core st st1"
    using headless_receive [OF Cons.prems] by blast
  then have "rr_native st1 = None" using Cons.prems by (simp add: same_core_def)
  from Cons.IH [OF this, of "i + 1"] st1 show ?case by (auto simp: same_core_def)
qed (simp add: same_core_def)

lemma same_core_sized: "same_core st st' \<Longrightarrow> renderer_sized st' = renderer_sized st"
  by (simp add: same_core_def renderer_sized_def)


lemma headless_tick:
  assumes c: "ctx_inv c" and st: "rr_state st = RendererReady" "rr_native st = None" "renderer_sized st"
    and a: "key_sorter sort_key_of (ra_sorter a)" "answers_roomy a"
  shows "\<exists>st' c'. renderer_tick a ty env st c = Ret (st', c') \<and> ctx_inv c' \<and> own_mail env c' = [] \<and> kworld c' = kworld c
     \<and> edges (kbus c') = edges (kbus c) \<and> rr_state st' = RendererReady \<and> rr_native st' = None \<and> renderer_sized st'
     \<and> rs_frames (rr_stats st') = wsat_add (rs_frames (rr_stats st)) 1
     \<and> (if length (renderables ty (kworld c)) \<le> 4096
        then mset (gp_instances (rr_preparation st')) = mset (renderables ty (kworld c))
          \<and> length (gp_commands (rr_preparation st')) = card (batch_key ` set (renderables ty (kworld c)))
          \<and> \<not> rr_extraction_overflowed st' \<and> \<not> rr_manifest_overflowed st'
          \<and> rr_last_submission st' = Some
             \<lparr>submitted_frames = wsat_add (submitted_frames (rr_headless st)) 1,
              submitted_instances = wsat_add (submitted_instances (rr_headless st)) (of_nat (length (renderables ty (kworld c)))),
              submitted_commands = wsat_add (submitted_commands (rr_headless st))
                (of_nat (card (batch_key ` set (renderables ty (kworld c)))))\<rparr>
        else rr_extraction_overflowed st' \<and> rr_manifest_overflowed st' \<and> rr_last_submission st' = rr_last_submission st)"
proof -
  obtain c1 where c1: "ctx_receive env c = Ret (own_mail env c, c1)" "ctx_inv c1" "kworld c1 = kworld c" "own_mail env c1 = []" "edges (kbus c1) = edges (kbus c)"
    using ctx_receive_spec [OF c, of env] by blast
  obtain n st1 where st1: "run_fold (renderer_receive (debug_build env) a) (own_mail env c) (0, st) = Ret (n, st1)" "same_core st st1"
    using headless_receive_all [OF st(2)] by blast
  have sized: "renderer_sized st1" using same_core_sized [OF st1(2)] st(3) by simp
  have world: "world_inv (kworld c)" using c by (simp add: ctx_inv_def)
  note render = renderer_render_reaches [OF world a(1) sized a(2), of ty "debug_build env"]
  have tick: "renderer_tick a ty env st c =
      run_bind (renderer_render (debug_build env) a ty (kworld c) st1) (\<lambda>st2. Ret (count_frame (dt_ns env) st2, c1))"
    using c1 st1(1) st(1) by (simp add: renderer_tick_def)
  show ?thesis
  proof (cases "length (renderables ty (kworld c)) \<le> 4096")
    case True
    then obtain st2 where st2: "renderer_render (debug_build env) a ty (kworld c) st1 = submit_frame_of (debug_build env) a st2"
      "prepared (renderables ty (kworld c)) st1 st2" using render(1) by blast
    from st2(2) have len: "length (gp_instances (rr_preparation st2)) = length (renderables ty (kworld c))"
      by (auto simp: prepared_def dest: mset_eq_length)
    show ?thesis using True tick st2 len c1(2-5) st(1,2) st1(2)
      by (simp add: renderer_sized_def submit_frame_of_def prepared_def same_rest_def same_core_def headless_submit_def Let_def count_frame_def)
  next
    case False
    then show ?thesis using tick render(2) c1(2-5) st(1,2) sized st1(2) by (simp add: renderer_sized_def count_frame_def same_core_def)
  qed
qed

section \<open>Properties\<close>

text \<open>C35: A headless frame renders exactly the world. With the renderer as it is constructed, a tick drains its inbox,
  returns, leaves the world alone, and: when at most 4096 live entities carry both a transform and a material, it submits
  exactly these entities, one draw command per mesh and material pair in use, and the running totals grow by these
  numbers; when there are more, it submits nothing and raises both overflow flags.\<close>

theorem headless_tick_renders_world:
  assumes c: "ctx_inv c" and st: "rr_state st = RendererReady" "rr_native st = None" "renderer_sized st"
    and a: "key_sorter sort_key_of (ra_sorter a)" "answers_roomy a"
  shows "\<exists>st' c'. renderer_tick a ty env st c = Ret (st', c') \<and> ctx_inv c' \<and> own_mail env c' = [] \<and> kworld c' = kworld c
     \<and> rs_frames (rr_stats st') = wsat_add (rs_frames (rr_stats st)) 1
     \<and> (if length (renderables ty (kworld c)) \<le> 4096
        then mset (gp_instances (rr_preparation st')) = mset (renderables ty (kworld c))
          \<and> length (gp_commands (rr_preparation st')) = card (batch_key ` set (renderables ty (kworld c)))
          \<and> \<not> rr_extraction_overflowed st' \<and> \<not> rr_manifest_overflowed st'
          \<and> rr_last_submission st' = Some
             \<lparr>submitted_frames = wsat_add (submitted_frames (rr_headless st)) 1,
              submitted_instances = wsat_add (submitted_instances (rr_headless st)) (of_nat (length (renderables ty (kworld c)))),
              submitted_commands = wsat_add (submitted_commands (rr_headless st))
                (of_nat (card (batch_key ` set (renderables ty (kworld c)))))\<rparr>
        else rr_extraction_overflowed st' \<and> rr_manifest_overflowed st' \<and> rr_last_submission st' = rr_last_submission st)"
  using headless_tick [OF assms, of ty env] by blast

definition calm_answers :: renderer_answers where
  "calm_answers = \<lparr>ra_world_alloc = \<lambda>_. True, ra_world_room = \<lambda>_. 4096, ra_sorter = sort_key sort_key_of, ra_manifest_alloc = \<lambda>_. True,
     ra_manifest_room = 4096, ra_prepare_alloc = \<lambda>_. True, ra_prepare_room = 4096, ra_plan_alloc = \<lambda>_ _. True, ra_stage_upload = True,
     ra_stage_draws = True, ra_frame = good_answers, ra_resize = \<lambda>_. resize_answers, ra_out_of_date = resize_answers\<rparr>"

lemma calm: "key_sorter sort_key_of (ra_sorter calm_answers)" "answers_roomy calm_answers"
  using stable_sorter.key_sorter_axioms [of sort_key_of] by (simp_all add: calm_answers_def answers_roomy_def roomy_def)

definition unit_types :: "nat render_types" where
  "unit_types = \<lparr>transform_type = 0, material_type = 1,
     as_transform = \<lambda>_. \<lparr>matrix = replicate 12 0, tr_bounds = replicate 4 0\<rparr>, as_material = \<lambda>_. \<lparr>rm_mesh = 0, rm_material = 0\<rparr>\<rparr>"

definition ready_renderer :: "native_lane option \<Rightarrow> renderer" where
  "ready_renderer lane = (renderer_new lane)\<lparr>rr_state := RendererReady\<rparr>"

theorem headless_tick_renders_world_witness:
  "\<exists>st' c'. renderer_tick calm_answers unit_types \<lparr>debug_build = True, ctx_names = [''ui'', ''renderer''], self_id = 1, dt_ns = 16666667\<rparr>
     (ready_renderer None) two_box_ctx = Ret (st', c') \<and> rs_frames (rr_stats st') = 1"
proof -
  have "rr_state (ready_renderer None) = RendererReady" "rr_native (ready_renderer None) = None" "renderer_sized (ready_renderer None)"
    by (simp_all add: ready_renderer_def renderer_new_def renderer_sized_def)
  from headless_tick_renders_world [OF two_box_inv(1) this calm] obtain st' c' where
    "renderer_tick calm_answers unit_types \<lparr>debug_build = True, ctx_names = [''ui'', ''renderer''], self_id = 1, dt_ns = 16666667\<rparr>
     (ready_renderer None) two_box_ctx = Ret (st', c')" "rs_frames (rr_stats st') = wsat_add (rs_frames (rr_stats (ready_renderer None))) 1" by blast
  then show ?thesis by (simp add: ready_renderer_def renderer_new_def wsat_add_def)
qed

text \<open>What the native lane needs to stage the UI that the renderer remembers: the packet's bytes fit into the upload buffer and
  its ranges into its bytes, and the draws are those that the plan counts. The renderer starts in this condition and every
  packet that fits keeps it; a packet that the UI makes of a well-formed snapshot fits.\<close>

definition ui_packet_fits :: "ui_frame_packet \<Rightarrow> bool" where
  "ui_packet_fits p \<longleftrightarrow> upload_bytes (sn_upload (pk_snapshot p)) \<le> ui_upload_capacity
     \<and> list_all (\<lambda>r. ur_offset r + length (ur_bytes r) \<le> upload_bytes (sn_upload (pk_snapshot p))) (pk_ranges p)"

definition message_fits :: "message envelope \<Rightarrow> bool" where
  "message_fits m \<longleftrightarrow> (case payload m of UiFrame p \<Rightarrow> ui_packet_fits p | _ \<Rightarrow> True)"

definition ui_stageable :: "renderer \<Rightarrow> bool" where
  "ui_stageable st \<longleftrightarrow> (case rr_last_ui_packet st of None \<Rightarrow> True | Some p \<Rightarrow> ui_packet_fits p)
     \<and> (case (rr_last_ui_plan st, rr_last_ui_draws st) of (Some p, Some cs) \<Rightarrow> length cs = unat (cp_draws p) | _ \<Rightarrow> True)"

lemma ui_stageable_cong:
  "rr_last_ui_packet st' = rr_last_ui_packet st \<Longrightarrow> rr_last_ui_plan st' = rr_last_ui_plan st \<Longrightarrow> rr_last_ui_draws st' = rr_last_ui_draws st
     \<Longrightarrow> ui_stageable st' = ui_stageable st"
  by (simp add: ui_stageable_def)

lemma renderer_new_stageable: "ui_stageable (renderer_new lane)"
  by (simp add: ui_stageable_def renderer_new_def)

lemma made_packet_fits:
  assumes "snapshot_wf s"
  shows "ui_packet_fits (make_packet fbits al1 al2 al3 ready s previous)"
proof -
  have colors: "list_all (\<lambda>it. length (it_color it) = 4) (sn_items s)"
    and n: "length (sn_items s) * 80 + length (sn_glyphs s) * 32 = upload_bytes (sn_upload s)"
    using assms by (simp_all add: snapshot_wf_def)
  show ?thesis
  proof (cases "encode_dirty_ranges fbits al1 al2 al3 s (map_option pk_snapshot previous)")
    case (Inr rs)
    then obtain cur where cur: "encode_bytes fbits al1 s = Inr cur" by (auto simp: encode_dirty_ranges_def split: sum.splits)
    have len: "length cur = upload_bytes (sn_upload s)" using encode_bytes_length [OF cur colors] n by simp
    have "pieces_of cur rs" if "dirty_ranges al3 cur old = Inr rs" for old
      using dirty_ranges_scanned [OF that] by (simp add: scanned_def)
    then have "\<forall>r\<in>set rs. ur_offset r + length (ur_bytes r) \<le> length cur"
      using Inr cur by (auto simp: encode_dirty_ranges_def pieces_of_def split: option.splits sum.splits)
    then show ?thesis using Inr len wf_capacity [OF assms] by (simp add: ui_packet_fits_def make_packet_def list_all_iff)
  qed (use wf_capacity [OF assms] in \<open>simp add: ui_packet_fits_def make_packet_def\<close>)
qed

lemma draws_of_plan:
  "ui_plan_try_build s = Inr p \<Longrightarrow> build_draw_commands al s = Inr cs \<Longrightarrow> length cs = unat (cp_draws p)"
  by (auto simp: build_draw_commands_def ui_plan_try_build_def u32_from_def unat_of_nat_u32 split: option.splits sum.splits if_splits)

lemma write_fitting:
  "list_all (\<lambda>r. ur_offset r + length (ur_bytes r) \<le> n) rs \<Longrightarrow> n \<le> usize_max \<Longrightarrow> fst (write_ranges n rs buf)"
  by (induction rs arbitrary: buf) (simp_all add: checked_add_def)

lemma stage_ui_ok:
  assumes "ui_stageable st" "ra_stage_upload a" "ra_stage_draws a"
  shows "\<exists>s. stage_ui a (rr_last_ui_plan st) (rr_last_ui_draws st) (rr_last_ui_packet st) stg = (Inr (), s)"
proof (cases "rr_last_ui_plan st = None \<or> rr_last_ui_draws st = None \<or> rr_last_ui_packet st = None")
  case True
  then show ?thesis using assms(2,3)
    by (auto simp: stage_ui_def set_ui_upload_def set_ui_draw_commands_def split: option.splits)
next
  case False
  then obtain p cs pk where u: "rr_last_ui_plan st = Some p" "rr_last_ui_draws st = Some cs" "rr_last_ui_packet st = Some pk" by auto
  let ?n = "upload_bytes (sn_upload (pk_snapshot pk))"
  have f: "?n \<le> ui_upload_capacity" "list_all (\<lambda>r. ur_offset r + length (ur_bytes r) \<le> ?n) (pk_ranges pk)" "length cs = unat (cp_draws p)"
    using assms(1) u by (simp_all add: ui_stageable_def ui_packet_fits_def)
  obtain b buf where w: "write_ranges ?n (pk_ranges pk) (vec_resize ?n 0 (ui_upload stg)) = (b, buf)" by fastforce
  then have b using write_fitting [OF f(2), of "vec_resize ?n 0 (ui_upload stg)"] f(1) by (simp add: ui_upload_capacity_def usize_max_def)
  then show ?thesis using u f w assms(2,3) by (simp add: stage_ui_def set_ui_upload_ranges_def set_ui_draw_commands_def)
qed

text \<open>The resizes of an inbox, with the answers numbered as \<open>renderer_receive\<close> numbers them: all of them return, and one of
  them gets as far as taking over a new swapchain.\<close>

definition resize_of :: "message envelope \<Rightarrow> extent option" where
  "resize_of m = (if topic m = 1 then (case payload m of WindowResized w h \<Rightarrow> Some \<lparr>ex_width = w, ex_height = h\<rparr> | _ \<Rightarrow> None) else None)"

fun resizes_return :: "bool \<Rightarrow> renderer_answers \<Rightarrow> u64 list \<Rightarrow> nat \<Rightarrow> message envelope list \<Rightarrow> bool" where
  "resizes_return debug a table i [] = True"
| "resizes_return debug a table i (m # ms) =
     ((case resize_of m of None \<Rightarrow> True | Some sz \<Rightarrow> recreation_returns debug (ra_resize a i) table sz) \<and> resizes_return debug a table (i + 1) ms)"

fun resize_replaces :: "bool \<Rightarrow> renderer_answers \<Rightarrow> nat \<Rightarrow> message envelope list \<Rightarrow> bool" where
  "resize_replaces debug a i [] = False"
| "resize_replaces debug a i (m # ms) =
     ((case resize_of m of None \<Rightarrow> False | Some sz \<Rightarrow> recreation_replaces debug (ra_resize a i) sz) \<or> resize_replaces debug a (i + 1) ms)"

definition receive_keeps :: "renderer \<Rightarrow> renderer \<Rightarrow> bool" where
  "receive_keeps st st' \<longleftrightarrow> rr_state st' = rr_state st \<and> renderer_sized st' = renderer_sized st"

lemma receive_native:
  assumes lane: "rr_native st = Some lane" and ui: "ui_stageable st" "message_fits m"
    and r: "case resize_of m of None \<Rightarrow> True | Some sz \<Rightarrow> recreation_returns debug (ra_resize a i) (pe_live (lane_engine lane)) sz"
  shows "\<exists>st' lane'. renderer_receive debug a m (i, st) = Ret (i + 1, st') \<and> rr_native st' = Some lane'
     \<and> same_fences (lane_engine lane) (lane_engine lane') \<and> ui_stageable st' \<and> receive_keeps st st'
     \<and> (dangling (lane_engine lane) \<or> (case resize_of m of None \<Rightarrow> False | Some sz \<Rightarrow> recreation_replaces debug (ra_resize a i) sz)
          \<longrightarrow> dangling (lane_engine lane'))"
proof (cases "resize_of m")
  case None
  have "\<exists>st'. renderer_receive debug a m (i, st) = Ret (i + 1, st') \<and> rr_native st' = rr_native st \<and> ui_stageable st' \<and> receive_keeps st st'"
  proof (cases "topic m = 2")
    case two: True
    show ?thesis
    proof (cases "payload m")
      case (UiFrame p)
      then show ?thesis using two ui(2) draws_of_plan [of "pk_snapshot p" _ "ra_plan_alloc a i"]
        by (auto simp: renderer_receive_def ui_stageable_def message_fits_def receive_keeps_def renderer_sized_def split: sum.splits)
    qed (use two ui(1) in \<open>simp_all add: renderer_receive_def receive_keeps_def\<close>)
  next
    case False
    then show ?thesis using None ui(1)
      by (cases "payload m") (auto simp: renderer_receive_def receive_keeps_def resize_of_def)
  qed
  then show ?thesis using None lane by (auto simp: same_fences_def)
next
  case (Some sz)
  then obtain w h where m: "topic m = 1" "payload m = WindowResized w h" "sz = \<lparr>ex_width = w, ex_height = h\<rparr>"
    by (auto simp: resize_of_def split: if_splits message.splits)
  obtain q e' where e': "engine_recreate debug (ra_resize a i) sz (lane_engine lane) = Ret (q, e')" "same_fences (lane_engine lane) e'"
    "dangling (lane_engine lane) \<or> recreation_replaces debug (ra_resize a i) sz \<longrightarrow> dangling e'"
    using engine_recreate_cases [of debug "ra_resize a i" "lane_engine lane" sz] r Some by auto
  have "renderer_receive debug a m (i, st) = Ret (i + 1, st\<lparr>rr_last_resize := Some (w, h), rr_native := Some (lane\<lparr>lane_size := sz, lane_engine := e'\<rparr>)\<rparr>)"
    using m lane e'(1) by (simp add: renderer_receive_def recreate_native_def)
  moreover have "ui_stageable (st\<lparr>rr_last_resize := Some (w, h), rr_native := Some (lane\<lparr>lane_size := sz, lane_engine := e'\<rparr>)\<rparr>)"
    using ui(1) by (subst ui_stageable_cong [of _ st]) simp_all
  ultimately show ?thesis using e'(2,3) Some by (auto simp: receive_keeps_def renderer_sized_def)
qed

lemma receive_all_native:
  assumes "rr_native st = Some lane" "ui_stageable st" "list_all message_fits ms"
    "resizes_return debug a (pe_live (lane_engine lane)) i ms"
  shows "\<exists>n st' lane'. run_fold (renderer_receive debug a) ms (i, st) = Ret (n, st') \<and> rr_native st' = Some lane'
     \<and> same_fences (lane_engine lane) (lane_engine lane') \<and> ui_stageable st' \<and> receive_keeps st st'
     \<and> (dangling (lane_engine lane) \<or> resize_replaces debug a i ms \<longrightarrow> dangling (lane_engine lane'))"
  using assms
proof (induction ms arbitrary: i st lane)
  case Nil
  then show ?case by (simp add: same_fences_def receive_keeps_def)
next
  case (Cons m ms)
  from Cons.prems(3,4) have m: "message_fits m" "case resize_of m of None \<Rightarrow> True | Some sz \<Rightarrow> recreation_returns debug (ra_resize a i) (pe_live (lane_engine lane)) sz"
    and ms: "list_all message_fits ms" "resizes_return debug a (pe_live (lane_engine lane)) (i + 1) ms" by simp_all
  obtain st1 lane1 where s1: "renderer_receive debug a m (i, st) = Ret (i + 1, st1)" "rr_native st1 = Some lane1"
      "same_fences (lane_engine lane) (lane_engine lane1)" "ui_stageable st1" "receive_keeps st st1"
      "dangling (lane_engine lane) \<or> (case resize_of m of None \<Rightarrow> False | Some sz \<Rightarrow> recreation_replaces debug (ra_resize a i) sz)
         \<longrightarrow> dangling (lane_engine lane1)"
    using receive_native [OF Cons.prems(1,2) m] by blast
  have "resizes_return debug a (pe_live (lane_engine lane1)) (i + 1) ms" using ms(2) s1(3) by (simp add: same_fences_def)
  from Cons.IH [OF s1(2,4) ms(1) this] obtain n st' lane' where s2: "run_fold (renderer_receive debug a) ms (i + 1, st1) = Ret (n, st')"
      "rr_native st' = Some lane'" "same_fences (lane_engine lane1) (lane_engine lane')" "ui_stageable st'" "receive_keeps st1 st'"
      "dangling (lane_engine lane1) \<or> resize_replaces debug a (i + 1) ms \<longrightarrow> dangling (lane_engine lane')" by blast
  have "same_fences (lane_engine lane) (lane_engine lane')" "receive_keeps st st'"
    using s1(3,5) s2(3,5) by (simp_all add: same_fences_def receive_keeps_def)
  moreover have "dangling (lane_engine lane) \<or> resize_replaces debug a i (m # ms) \<longrightarrow> dangling (lane_engine lane')"
    using s1(6) s2(6) by auto
  ultimately show ?case using s1(1) s2(1,2,4) by auto
qed

text \<open>C36: A window resize is fatal for native rendering. When the renderer has a native lane and its inbox, among any UI
  frames and other messages, before and after, holds a resize whose recreation gets as far as taking over a new swapchain
  (\<open>resize_replaces\<close>), the same tick ends in undefined behaviour: the frame is acquired from a swapchain that \<open>recreate\<close> has
  destroyed. This is so whether the renderer remembers or receives a UI or not. What is assumed besides: the context is well-formed, the renderer is ready and has
  the sizes it is constructed with, the world has at most 4096 entities to render, the allocator refuses nothing that the frame
  needs (\<open>answers_roomy\<close> and the two reservations of the staging), the UI that is staged fits into the upload buffer (\<open>ui_stageable\<close>, which holds
  of a new renderer and is kept by receiving, and \<open>message_fits\<close>, which \<open>made_packet_fits\<close> shows of the packets the UI makes of
  well-formed snapshots), every resize in the inbox returns and creates
  only new handles (\<open>resizes_return\<close>), the engine is in a good state and the device works (the fences are waited for with
  success), and no world geometry is staged in the engine: the renderer never stages any, as \<open>set_world_upload\<close> is
  called only by two examples, which drive an engine of their own.\<close>

theorem resize_breaks_native_tick:
  assumes c: "ctx_inv c"
    and mail: "resize_replaces (debug_build env) a 0 (own_mail env c)" "list_all message_fits (own_mail env c)"
      "resizes_return (debug_build env) a (pe_live (lane_engine lane)) 0 (own_mail env c)"
    and st: "rr_state st = RendererReady" "rr_native st = Some lane" "renderer_sized st" "ui_stageable st"
    and eng: "engine_ok (lane_engine lane)" "pe_world_upload (lane_engine lane) = []"
    and a: "key_sorter sort_key_of (ra_sorter a)" "answers_roomy a" "ra_stage_upload a" "ra_stage_draws a"
      "fa_wait (ra_frame a) = (\<lambda>_. True)" "fa_wait_own (ra_frame a)"
    and fits: "length (renderables ty (kworld c)) \<le> 4096"
  shows "renderer_tick a ty env st c = UB"
proof -
  obtain c1 where c1: "ctx_receive env c = Ret (own_mail env c, c1)" "kworld c1 = kworld c"
    using ctx_receive_spec [OF c, of env] by auto
  obtain n st1 lane1 where r: "run_fold (renderer_receive (debug_build env) a) (own_mail env c) (0, st) = Ret (n, st1)"
      "rr_native st1 = Some lane1" "same_fences (lane_engine lane) (lane_engine lane1)" "ui_stageable st1" "receive_keeps st st1"
      "dangling (lane_engine lane1)"
    using receive_all_native [OF st(2,4) mail(2,3)] mail(1) by blast
  have sized: "renderer_sized st1" using st(3) r(5) by (simp add: receive_keeps_def)
  have "world_inv (kworld c)" using c by (simp add: ctx_inv_def)
  from renderer_render_reaches(1) [OF this a(1) sized a(2) fits] obtain st2 where
    st2: "renderer_render (debug_build env) a ty (kworld c) st1 = submit_frame_of (debug_build env) a st2"
      "prepared (renderables ty (kworld c)) st1 st2" by blast
  have p: "validate (rr_preparation st2) = Inr ()" "rr_native st2 = Some lane1" and ui: "ui_stageable st2"
    using st2(2) r(2,4) by (simp_all add: prepared_def same_rest_def ui_stageable_def)
  obtain s where s: "stage_ui a (rr_last_ui_plan st2) (rr_last_ui_draws st2) (rr_last_ui_packet st2) (pe_stage (lane_engine lane1)) = (Inr (), s)"
    using stage_ui_ok [OF ui a(3,4)] by blast
  let ?e = "(lane_engine lane1)\<lparr>pe_stage := s\<rparr>"
  have "present_frame (ra_frame a) ?e = UB"
    using r(3,6) eng a(5,6)
    by (intro present_dangling) (simp_all add: same_fences_def dangling_def engine_ok_def frame_admitted_def)
  then have "submit_frame_of (debug_build env) a st2 = UB"
    using p s by (simp add: submit_frame_of_def submit_native_def lane_submit_def)
  then show ?thesis using c1 r(1) st2(1) st(1) by (simp add: renderer_tick_def)
qed

text \<open>At an inbox with a UI frame and a resize behind it.\<close>

definition sample_lane :: native_lane where
  "sample_lane = \<lparr>lane_engine = sample_engine, lane_size = \<lparr>ex_width = 640, ex_height = 480\<rparr>, lane_color = []\<rparr>"

definition blank_packet :: ui_frame_packet where
  "blank_packet = make_packet (\<lambda>_. 0) (\<lambda>_. True) (\<lambda>_. True) (\<lambda>_. True)
     \<lparr>fr_nodes = 1, fr_paint_items = 0, fr_batches = 0, fr_glyphs = 0, fr_uploaded_bytes = 32\<rparr> (blank_snapshot 1) None"

lemma blank_packet_fits: "ui_packet_fits blank_packet"
  unfolding blank_packet_def
  by (rule made_packet_fits) (simp add: snapshot_wf_def blank_snapshot_def ui_upload_capacity_def)

lemma resize_answers_replace:
  "recreation_returns False resize_answers [1] \<lparr>ex_width = 800, ex_height = 600\<rparr>" "recreation_replaces False resize_answers \<lparr>ex_width = 800, ex_height = 600\<rparr>"
  by (simp_all add: recreation_returns_def recreation_replaces_def resize_answers_def configure_surface_def pick_present_mode_def pick_extent_def
      default_image_count_def u32_clamp_def Let_def)

theorem resize_breaks_native_tick_witness:
  "\<exists>c1 c. send_to \<lparr>debug_build = False, ctx_names = [''window'', ''renderer''], self_id = 0, dt_ns = 0\<rparr> ''renderer'' 2 (UiFrame blank_packet) two_box_ctx = Ret c1
     \<and> send_to \<lparr>debug_build = False, ctx_names = [''window'', ''renderer''], self_id = 0, dt_ns = 0\<rparr> ''renderer'' 1 (WindowResized 800 600) c1 = Ret c
     \<and> renderer_tick calm_answers unit_types \<lparr>debug_build = False, ctx_names = [''window'', ''renderer''], self_id = 1, dt_ns = 0\<rparr>
         (ready_renderer (Some sample_lane)) c = UB"
proof -
  let ?w = "\<lparr>debug_build = False, ctx_names = [''window'', ''renderer''], self_id = 0, dt_ns = 0\<rparr>"
  let ?env = "\<lparr>debug_build = False, ctx_names = [''window'', ''renderer''], self_id = 1, dt_ns = 0\<rparr>"
  have reach: "may_reach [''renderer''] ?w (edges (kbus c))" for c by (simp add: may_reach_def)
  from send_to_spec [OF two_box_inv(1) reach, of "''renderer''" 2 "UiFrame blank_packet"] obtain c1 where
    c1: "send_to ?w ''renderer'' 2 (UiFrame blank_packet) two_box_ctx = Ret c1" "ctx_inv c1" "kworld c1 = kworld two_box_ctx"
      "mailboxes (kbus c1) = snd (publish_result (mailboxes (kbus two_box_ctx)) \<lparr>env_from = 0, env_to = 1, topic = 2,
          seq = bus_next_seq (kbus two_box_ctx), payload = UiFrame blank_packet\<rparr>)"
    by (auto simp: ctx_resolve_def)
  from send_to_spec [OF c1(2) reach, of "''renderer''" 1 "WindowResized 800 600"] obtain c where
    c: "send_to ?w ''renderer'' 1 (WindowResized 800 600) c1 = Ret c" "ctx_inv c" "kworld c = kworld c1"
      "mailboxes (kbus c) = snd (publish_result (mailboxes (kbus c1)) \<lparr>env_from = 0, env_to = 1, topic = 1,
          seq = bus_next_seq (kbus c1), payload = WindowResized 800 600\<rparr>)"
    by (auto simp: ctx_resolve_def)
  obtain m1 where m1: "mailboxes (kbus c1) = [[], [m1]]" "topic m1 = 2" "payload m1 = UiFrame blank_packet"
    using c1(4) unfolding two_box_inv(2) by (simp add: publish_result_def default_inbox_capacity_def)
  obtain m2 where m2: "mailboxes (kbus c) = [[], [m1, m2]]" "topic m2 = 1" "payload m2 = WindowResized 800 600"
    using c(4) unfolding m1(1) by (simp add: publish_result_def default_inbox_capacity_def)
  have mail: "own_mail ?env c = [m1, m2]" unfolding own_mail_def m2(1) by simp
  have sizes: "resize_of m1 = None" "resize_of m2 = Some \<lparr>ex_width = 800, ex_height = 600\<rparr>" using m1 m2 by (simp_all add: resize_of_def)
  have few: "length (renderables unit_types (kworld c)) \<le> 4096"
    by (simp add: c(3) c1(3) two_box_ctx_def renderables_def for_each_entity_def world_new_def bitset_new_def word_indices_def word_count_def drain_bits.simps [of 0] map_filter_def)
  have lane: "pe_live (lane_engine sample_lane) = [1]" "pe_world_upload (lane_engine sample_lane) = []" "engine_ok (lane_engine sample_lane)"
    using sample_engine_ok by (simp_all add: sample_lane_def sample_engine_def)
  have answers: "ra_resize calm_answers i = resize_answers" for i by (simp add: calm_answers_def)
  have st: "ui_stageable (ready_renderer (Some sample_lane))" "rr_state (ready_renderer (Some sample_lane)) = RendererReady"
    "rr_native (ready_renderer (Some sample_lane)) = Some sample_lane" "renderer_sized (ready_renderer (Some sample_lane))"
    by (simp_all add: ready_renderer_def renderer_new_def renderer_sized_def ui_stageable_def)
  have "renderer_tick calm_answers unit_types ?env (ready_renderer (Some sample_lane)) c = UB"
    by (rule resize_breaks_native_tick [OF c(2) _ _ _ st(2,3,4,1) lane(3,2) calm _ _ _ _ few])
      (simp_all add: mail sizes answers lane(1) resize_answers_replace message_fits_def m1(3) m2(3) blank_packet_fits, simp_all add: calm_answers_def good_answers_def)
  then show ?thesis using c1(1) c(1) by blast
qed

section \<open>The headless renderer keeps the contract of a driver\<close>

definition headless_ok :: "call_env \<Rightarrow> renderer \<Rightarrow> bool" where
  "headless_ok env st \<longleftrightarrow> \<not> debug_build env \<and> rr_native st = None \<and> renderer_sized st"

definition no_routes :: "call_env \<Rightarrow> bool list list \<Rightarrow> bool" where
  "no_routes env m = True"

lemma renderer_tick_ok: "callback_ok headless_ok no_routes (renderer_tick calm_answers ty)"
  unfolding callback_ok_def
proof (intro allI impI, elim conjE)
  fix env st and c :: "(message, 'a) kctx"
  assume c: "ctx_inv c" and st: "headless_ok env st"
  show "\<exists>st' c'. renderer_tick calm_answers ty env st c = Ret (st', c') \<and> ctx_inv c' \<and> headless_ok env st' \<and> edges (kbus c') = edges (kbus c)"
  proof (cases "rr_state st = RendererReady")
    case True
    from headless_tick [OF c this _ _ calm, of ty env] st show ?thesis by (auto simp: headless_ok_def)
  next
    case False
    then show ?thesis using c st by (simp add: renderer_tick_def)
  qed
qed

lemma renderer_init_ok: "callback_ok headless_ok no_routes renderer_init"
  by (auto simp: callback_ok_def headless_ok_def renderer_init_def renderer_sized_def)

lemma renderer_shutdown_ok: "callback_ok headless_ok no_routes renderer_shutdown"
  by (auto simp: callback_ok_def headless_ok_def renderer_shutdown_def renderer_sized_def)

interpretation headless_renderer: driver headless_ok no_routes renderer_init "renderer_tick calm_answers ty" renderer_shutdown for ty
  by unfold_locales (rule renderer_init_ok renderer_tick_ok renderer_shutdown_ok)+

end
