(* ===== verification/Io_Uring.thy ===== *)
theory Io_Uring
  imports Storage "HOL-Library.Multiset"
begin

text \<open>
  \<open>src/src/platform/linux/io_uring.rs\<close>: asynchronous reads through the two rings that the process shares with
  the operating system. The system is the environment: it takes submissions during \<open>enter\<close>, completes the reads
  it has taken in any order and at any time, writes into the buffers and posts completions. Memory is a map from the
  address of an allocation to its bytes, so that a buffer which is released too early is visible as a write to
  memory that the ring does not own. A call of \<open>submit_read\<close> or \<open>try_complete\<close> is one step: the system moves only its own
  index of each ring, which can only add room or completions in the meantime.
\<close>

section \<open>The rings\<close>

type_synonym i32 = "32 word"

record submission_entry =
  sqe_opcode :: u8
  sqe_flags :: u8
  sqe_ioprio :: u16
  sqe_fd :: i32
  sqe_off :: u64
  sqe_addr :: u64
  sqe_len :: u32
  sqe_rw_flags :: u32
  sqe_user_data :: u64
  sqe_extra :: "u64 list"

record completion_entry =
  cqe_user_data :: u64
  cqe_result :: i32
  cqe_flags :: u32

text \<open>A \<open>Vec<u8>\<close> is the address of its allocation and its length; its bytes are in memory.\<close>

record vec_u8 =
  vec_ptr :: u64
  vec_len :: nat

record pending_read =
  pr_user_data :: u64
  pr_buffer :: vec_u8

datatype io_uring_error =
    InvalidEntries | InvalidRead | ReadTooLarge | Setup i32 | Mmap i32 | QueueFull | CompletionUnknown | Enter i32

text \<open>
  The fields of \<open>IoUring\<close>. The words and arrays behind \<open>sq_ring\<close>, \<open>cq_ring\<close> and \<open>sqes\<close> are fields of their own instead of
  offsets into a mapping.
\<close>

record io_uring =
  u_fd :: i32
  u_sq_entries :: u32
  u_cq_entries :: u32
  sq_head :: u32
  sq_tail :: u32
  sq_mask :: u32
  sq_array :: "u32 list"
  sqes :: "submission_entry list"
  cq_head :: u32
  cq_tail :: u32
  cq_mask :: u32
  cqes :: "completion_entry list"
  u_pending :: "pending_read list"
  u_completed :: "(completion_entry \<times> vec_u8) list"

definition op_read :: u8 where
  "op_read = 22"

text \<open>The entry \<open>submit_read\<close> writes; the fields it does not name are zero.\<close>

definition read_entry :: "i32 \<Rightarrow> vec_u8 \<Rightarrow> u64 \<Rightarrow> u64 \<Rightarrow> submission_entry" where
  "read_entry fd buffer offset user_data =
     \<lparr>sqe_opcode = op_read, sqe_flags = 0, sqe_ioprio = 0, sqe_fd = fd, sqe_off = offset, sqe_addr = vec_ptr buffer,
      sqe_len = of_nat (vec_len buffer), sqe_rw_flags = 0, sqe_user_data = user_data, sqe_extra = [0, 0, 0]\<rparr>"

definition submit_read ::
  "i32 \<Rightarrow> vec_u8 \<Rightarrow> u64 \<Rightarrow> u64 \<Rightarrow> io_uring \<Rightarrow> ((io_uring_error + u64) \<times> io_uring) run" where
  "submit_read fd buffer offset user_data r =
     (if sint fd < 0 \<or> vec_len buffer = 0 then Ret (Inl InvalidRead, r)
      else if vec_len buffer > u32_max then Ret (Inl ReadTooLarge, r)
      else if length (u_pending r) + length (u_completed r) \<ge> unat (u_cq_entries r) then Ret (Inl QueueFull, r)
      else if sq_tail r - sq_head r \<ge> u_sq_entries r then Ret (Inl QueueFull, r)
      else let i = unat (sq_tail r AND sq_mask r)
           in if i \<ge> length (sqes r) \<or> i \<ge> length (sq_array r) then UB
              else Ret (Inr user_data,
                     r\<lparr>sqes := (sqes r)[i := read_entry fd buffer offset user_data],
                       sq_array := (sq_array r)[i := sq_tail r AND sq_mask r],
                       sq_tail := sq_tail r + 1,
                       u_pending := u_pending r @ [\<lparr>pr_user_data = user_data, pr_buffer = buffer\<rparr>]\<rparr>))"

text \<open>\<open>enter\<close> reports what the system call answers.\<close>

definition uring_enter :: "int \<Rightarrow> io_uring_error + u32" where
  "uring_enter raw = (if raw < 0 then Inl (Enter (word_of_int (- raw))) else Inr (word_of_int raw))"

text \<open>\<open>truncate\<close> to the bytes read, or \<open>clear\<close> when the read failed.\<close>

definition settle :: "completion_entry \<Rightarrow> vec_u8 \<Rightarrow> vec_u8" where
  "settle e v = (if 0 \<le> sint (cqe_result e) then v\<lparr>vec_len := min (vec_len v) (nat (sint (cqe_result e)))\<rparr>
                 else v\<lparr>vec_len := 0\<rparr>)"

definition try_complete :: "io_uring \<Rightarrow> (completion_entry option \<times> io_uring) run" where
  "try_complete r =
     (if cq_head r = cq_tail r then Ret (None, r)
      else let i = unat (cq_head r AND cq_mask r)
           in if i \<ge> length (cqes r) then UB
              else let e = cqes r ! i; r1 = r\<lparr>cq_head := cq_head r + 1\<rparr>
                   in Ret (Some e,
                        case position (\<lambda>q. pr_user_data q = cqe_user_data e) (u_pending r) of
                          None \<Rightarrow> r1
                        | Some p \<Rightarrow>
                            r1\<lparr>u_pending := swap_remove (u_pending r) p,
                               u_completed := u_completed r @ [(e, settle e (pr_buffer (u_pending r ! p)))]\<rparr>))"

definition take_completed :: "u64 \<Rightarrow> io_uring \<Rightarrow> (io_uring_error + vec_u8) \<times> io_uring" where
  "take_completed user_data r =
     (case position (\<lambda>(e, _). cqe_user_data e = user_data) (u_completed r) of
        None \<Rightarrow> (Inl CompletionUnknown, r)
      | Some p \<Rightarrow> (Inr (snd (u_completed r ! p)), r\<lparr>u_completed := swap_remove (u_completed r) p\<rparr>))"

section \<open>The process and the operating system\<close>

text \<open>
  \<open>caller\<close>: the vectors the program owns. \<open>inflight\<close>: the reads the system has taken and not finished. \<open>overflowed\<close>: a completion was
  posted to a full ring. \<open>stray\<close>: the system wrote to memory that no pending request owns. \<open>asked\<close>: the last request
  with a token (descriptor, offset, address), a history variable.
\<close>

record io_world =
  ring :: io_uring
  heap :: "u64 \<Rightarrow> u8 list option"
  caller :: "vec_u8 list"
  inflight :: "submission_entry list"
  overflowed :: bool
  stray :: bool
  asked :: "u64 \<Rightarrow> (i32 \<times> u64 \<times> u64) option"

definition tokens :: "io_uring \<Rightarrow> u64 set" where
  "tokens r = pr_user_data ` set (u_pending r) \<union> (cqe_user_data \<circ> fst) ` set (u_completed r)"

definition pending_ptrs :: "io_uring \<Rightarrow> u64 list" where
  "pending_ptrs r = map (vec_ptr \<circ> pr_buffer) (u_pending r)"

definition completed_ptrs :: "io_uring \<Rightarrow> u64 list" where
  "completed_ptrs r = map (vec_ptr \<circ> snd) (u_completed r)"

text \<open>The program: allocating, releasing, and the three calls. A refused buffer is dropped by \<open>submit_read\<close>.\<close>

definition allocate :: "u64 \<Rightarrow> nat \<Rightarrow> io_world \<Rightarrow> io_world" where
  "allocate a n w = w\<lparr>heap := (heap w)(a \<mapsto> replicate n 0), caller := caller w @ [\<lparr>vec_ptr = a, vec_len = n\<rparr>]\<rparr>"

definition release_vec :: "vec_u8 \<Rightarrow> io_world \<Rightarrow> io_world" where
  "release_vec v w = w\<lparr>heap := (heap w)(vec_ptr v := None), caller := remove1 v (caller w)\<rparr>"

definition call_submit :: "i32 \<Rightarrow> vec_u8 \<Rightarrow> u64 \<Rightarrow> u64 \<Rightarrow> io_world \<Rightarrow> io_world run" where
  "call_submit fd v off ud w =
     run_bind (submit_read fd v off ud (ring w)) (\<lambda>(res, r).
       Ret (case res of
              Inl _ \<Rightarrow> release_vec v (w\<lparr>ring := r\<rparr>)
            | Inr _ \<Rightarrow> w\<lparr>ring := r, caller := remove1 v (caller w), asked := (asked w)(ud \<mapsto> (fd, off, vec_ptr v))\<rparr>))"

definition call_complete :: "io_world \<Rightarrow> io_world run" where
  "call_complete w = run_bind (try_complete (ring w)) (\<lambda>(_, r). Ret (w\<lparr>ring := r\<rparr>))"

definition call_take :: "u64 \<Rightarrow> io_world \<Rightarrow> io_world" where
  "call_take ud w =
     (case take_completed ud (ring w) of
        (Inl _, r) \<Rightarrow> w\<lparr>ring := r\<rparr>
      | (Inr v, r) \<Rightarrow> w\<lparr>ring := r, caller := caller w @ [v]\<rparr>)"

text \<open>The system: taking a submission, and finishing a read with some result and bytes.\<close>

definition sys_take :: "io_world \<Rightarrow> io_world" where
  "sys_take w =
     (let r = ring w; i = sq_array r ! unat (sq_head r AND sq_mask r)
      in w\<lparr>ring := r\<lparr>sq_head := sq_head r + 1\<rparr>, inflight := inflight w @ [sqes r ! unat i]\<rparr>)"

definition sys_write :: "u64 \<Rightarrow> u8 list \<Rightarrow> io_world \<Rightarrow> io_world" where
  "sys_write a bytes w =
     w\<lparr>heap := (case heap w a of None \<Rightarrow> heap w
                | Some b \<Rightarrow> (heap w)(a \<mapsto> bytes @ drop (length bytes) b)),
       stray := (stray w \<or> bytes \<noteq> [] \<and> a \<notin> set (pending_ptrs (ring w)))\<rparr>"

definition sys_post :: "completion_entry \<Rightarrow> io_world \<Rightarrow> io_world" where
  "sys_post e w =
     (let r = ring w
      in if cq_tail r - cq_head r \<ge> u_cq_entries r then w\<lparr>overflowed := True\<rparr>
         else w\<lparr>ring := r\<lparr>cqes := (cqes r)[unat (cq_tail r AND cq_mask r) := e], cq_tail := cq_tail r + 1\<rparr>\<rparr>)"

definition sys_finish :: "(i32 \<Rightarrow> u64 \<Rightarrow> nat \<Rightarrow> u8) \<Rightarrow> nat \<Rightarrow> i32 \<Rightarrow> io_world \<Rightarrow> io_world" where
  "sys_finish content k res w =
     (let s = inflight w ! k;
          bytes = map (content (sqe_fd s) (sqe_off s)) [0..<nat (sint res)]
      in sys_post \<lparr>cqe_user_data = sqe_user_data s, cqe_result = res, cqe_flags = 0\<rparr>
           (sys_write (sqe_addr s) bytes (w\<lparr>inflight := take k (inflight w) @ drop (Suc k) (inflight w)\<rparr>)))"

text \<open>
  The steps. \<open>content fd off i\<close> is the byte \<open>i\<close> places after the offset; a read delivers a prefix of at most the
  requested length, or a negative result and no bytes. With \<open>unique\<close> the program submits only tokens that no pending or
  completed request carries.
\<close>

inductive io_step :: "(i32 \<Rightarrow> u64 \<Rightarrow> nat \<Rightarrow> u8) \<Rightarrow> bool \<Rightarrow> io_world \<Rightarrow> io_world \<Rightarrow> bool"
  for content unique where
  step_allocate: "heap w a = None \<Longrightarrow> 0 < n \<Longrightarrow> io_step content unique w (allocate a n w)"
| step_release: "v \<in> set (caller w) \<Longrightarrow> io_step content unique w (release_vec v w)"
| step_submit: "v \<in> set (caller w) \<Longrightarrow> unique \<longrightarrow> ud \<notin> tokens (ring w) \<Longrightarrow> call_submit fd v off ud w = Ret w'
    \<Longrightarrow> io_step content unique w w'"
| step_complete: "call_complete w = Ret w' \<Longrightarrow> io_step content unique w w'"
| step_take: "io_step content unique w (call_take ud w)"
| step_sys_take: "sq_head (ring w) \<noteq> sq_tail (ring w) \<Longrightarrow> io_step content unique w (sys_take w)"
| step_sys_finish: "k < length (inflight w) \<Longrightarrow> sint res \<le> int (unat (sqe_len (inflight w ! k)))
    \<Longrightarrow> io_step content unique w (sys_finish content k res w)"

text \<open>A fresh ring, as the system sets it up: powers of two, masks one less, equal indices.\<close>

definition ring_geometry :: "io_uring \<Rightarrow> bool" where
  "ring_geometry r \<longleftrightarrow>
     (\<exists>n < 31. unat (u_sq_entries r) = 2 ^ n \<and> sq_mask r = of_nat (2 ^ n - 1) \<and> length (sqes r) = 2 ^ n \<and> length (sq_array r) = 2 ^ n)
     \<and> (\<exists>n < 31. unat (u_cq_entries r) = 2 ^ n \<and> cq_mask r = of_nat (2 ^ n - 1) \<and> length (cqes r) = 2 ^ n)"

definition fresh_ring :: "io_uring \<Rightarrow> bool" where
  "fresh_ring r \<longleftrightarrow> ring_geometry r \<and> sq_head r = sq_tail r \<and> cq_head r = cq_tail r \<and> u_pending r = [] \<and> u_completed r = []"

definition io_start :: "io_uring \<Rightarrow> io_world" where
  "io_start r = \<lparr>ring = r, heap = (\<lambda>_. None), caller = [], inflight = [], overflowed = False, stray = False, asked = (\<lambda>_. None)\<rparr>"

inductive io_reach :: "(i32 \<Rightarrow> u64 \<Rightarrow> nat \<Rightarrow> u8) \<Rightarrow> bool \<Rightarrow> io_uring \<Rightarrow> io_world \<Rightarrow> bool"
  for content unique r where
  reach_start: "io_reach content unique r (io_start r)"
| reach_step: "io_reach content unique r w \<Longrightarrow> io_step content unique w w' \<Longrightarrow> io_reach content unique r w'"

section \<open>Counters and cells\<close>

text \<open>The cells between two free-running 32-bit counters, in order.\<close>

definition wslot :: "u32 \<Rightarrow> u32 \<Rightarrow> nat \<Rightarrow> nat" where
  "wslot h m k = unat ((h + of_nat k) AND m)"

definition cells :: "'a list \<Rightarrow> u32 \<Rightarrow> u32 \<Rightarrow> u32 \<Rightarrow> 'a list" where
  "cells xs m h t = map (\<lambda>k. xs ! wslot h m k) [0..<unat (t - h)]"

definition cell_shape :: "'a list \<Rightarrow> u32 \<Rightarrow> bool" where
  "cell_shape xs m \<longleftrightarrow> (\<exists>n < 31. length xs = 2 ^ n \<and> m = of_nat (2 ^ n - 1))"

lemma length_cells [simp]: "length (cells xs m h t) = unat (t - h)"
  by (simp add: cells_def)

lemma cell_shape_update [simp]: "cell_shape (xs[i := x]) m = cell_shape xs m"
  by (simp add: cell_shape_def)

lemma wslot_mod:
  assumes "cell_shape xs m"
  shows "wslot h m k = (unat h + k) mod length xs"
proof -
  from assms obtain n where n: "n < 31" "length xs = 2 ^ n" "m = of_nat (2 ^ n - 1)"
    by (auto simp: cell_shape_def)
  then have m: "n < LENGTH(32)" by simp
  show ?thesis unfolding wslot_def n(2,3) and_mask_mod [OF m] unat_add_mod [OF m] ..
qed

lemma cell_shape_length:
  assumes "cell_shape xs m"
  shows "0 < length xs" "length xs < 2147483648"
proof -
  from assms obtain n where n: "n < 31" "length xs = 2 ^ n" by (auto simp: cell_shape_def)
  then show "0 < length xs" by simp
  have "(2::nat) ^ n < 2 ^ 31" using n(1) by (intro power_strict_increasing) auto
  then show "length xs < 2147483648" using n(2) by simp
qed

lemma wslot_less: "cell_shape xs m \<Longrightarrow> wslot h m k < length xs"
  by (simp only: wslot_mod mod_less_divisor cell_shape_length)

lemma tail_wslot: "unat (t AND m) = wslot h m (unat (t - h))"
  by (simp add: wslot_def)

lemma head_wslot: "unat (h AND m) = wslot h m 0"
  by (simp add: wslot_def)

lemma unat_Suc_distance:
  assumes "cell_shape xs m" "unat (t - h :: u32) < length xs"
  shows "unat (t + 1 - h) = Suc (unat (t - h))"
proof -
  have "unat (t - h + 1) = Suc (unat (t - h))"
    using assms cell_shape_length(2) [OF assms(1)] by (simp add: unat_word_ariths)
  then show ?thesis by (simp add: algebra_simps)
qed

lemma unat_pred_distance:
  assumes "(h :: u32) \<noteq> t"
  shows "unat (t - h) = Suc (unat (t - (h + 1)))"
proof -
  have "t - h \<noteq> 0" using assms by simp
  then have "unat (t - h - 1) = unat (t - h) - 1" "0 < unat (t - h)"
    by (simp_all only: unat_minus_one unat_gt_0 not_False_eq_True)
  then show ?thesis by (simp add: algebra_simps)
qed

lemma cells_push:
  assumes sh: "cell_shape xs m" and room: "unat (t - h) < length xs"
  shows "cells (xs[unat (t AND m) := x]) m h (t + 1) = cells xs m h t @ [x]"
proof -
  have neq: "wslot h m (unat (t - h)) \<noteq> wslot h m k" if "k < unat (t - h)" for k
    using mod_add_inj [of "unat h" k "length xs" "unat (t - h)"] that room
    by (fastforce simp: wslot_mod [OF sh])
  show ?thesis
    unfolding cells_def unat_Suc_distance [OF sh room] tail_wslot [of t m h]
    using neq wslot_less [OF sh] by simp
qed

lemma cells_pop:
  assumes "h \<noteq> t"
  shows "cells xs m h t = xs ! unat (h AND m) # cells xs m (h + 1) t"
proof -
  have "wslot (h + 1) m k = wslot h m (Suc k)" for k by (simp add: wslot_def algebra_simps)
  then show ?thesis
    unfolding cells_def unat_pred_distance [OF assms] head_wslot by (simp add: upt_conv_Cons map_Suc_upt [symmetric] del: upt_Suc map_Suc_upt)
qed

lemma cells_empty [simp]: "cells xs m h h = []"
  by (simp add: cells_def)

text \<open>Removing one element by swapping changes the order only.\<close>

lemma mset_swap_remove:
  assumes "i < length xs"
  shows "mset xs = add_mset (xs ! i) (mset (swap_remove xs i))"
proof -
  have ne: "xs[i := last xs] \<noteq> []" using assms by auto
  have "last (xs[i := last xs]) = last xs"
    using assms by (subst last_list_update) auto
  then have "mset (xs[i := last xs]) = add_mset (last xs) (mset (swap_remove xs i))"
    using append_butlast_last_id [OF ne] unfolding swap_remove_def by (metis mset.simps(2) mset_append union_mset_add_mset_right add.right_neutral mset.simps(1))
  moreover have "mset (xs[i := last xs]) = add_mset (last xs) (mset xs - {#xs ! i#})"
    using assms by (rule mset_update)
  moreover have "mset xs = add_mset (xs ! i) (mset xs - {#xs ! i#})" using assms by simp
  ultimately show ?thesis by simp
qed

lemma map_swap_remove_mset:
  "i < length xs \<Longrightarrow> mset (map f xs) = add_mset (f (xs ! i)) (mset (map f (swap_remove xs i)))"
  using arg_cong [OF mset_swap_remove, of i xs "image_mset f"] by simp

lemma set_swap_remove: "i < length xs \<Longrightarrow> set xs = insert (xs ! i) (set (swap_remove xs i))"
  using arg_cong [OF mset_swap_remove, of i xs set_mset] by simp

section \<open>Requests are counted and buffers have one owner\<close>

definition sq_items :: "io_uring \<Rightarrow> submission_entry list" where
  "sq_items r = cells (sqes r) (sq_mask r) (sq_head r) (sq_tail r)"

definition cq_items :: "io_uring \<Rightarrow> completion_entry list" where
  "cq_items r = cells (cqes r) (cq_mask r) (cq_head r) (cq_tail r)"

text \<open>The index array holds the identity on the submissions not yet taken.\<close>

definition sq_wf :: "io_uring \<Rightarrow> bool" where
  "sq_wf r \<longleftrightarrow> cell_shape (sqes r) (sq_mask r) \<and> length (sq_array r) = length (sqes r)
     \<and> unat (u_sq_entries r) = length (sqes r) \<and> unat (sq_tail r - sq_head r) \<le> length (sqes r)
     \<and> cells (sq_array r) (sq_mask r) (sq_head r) (sq_tail r)
       = map (\<lambda>k. (sq_head r + of_nat k) AND sq_mask r) [0..<unat (sq_tail r - sq_head r)]"

definition cq_wf :: "io_uring \<Rightarrow> bool" where
  "cq_wf r \<longleftrightarrow> cell_shape (cqes r) (cq_mask r) \<and> unat (u_cq_entries r) = length (cqes r)"

text \<open>The tokens of all requests that are submitted, in flight or completed and not yet collected.\<close>

definition outstanding :: "io_world \<Rightarrow> u64 multiset" where
  "outstanding w = mset (map sqe_user_data (sq_items (ring w))) + mset (map sqe_user_data (inflight w))
     + mset (map cqe_user_data (cq_items (ring w)))"

definition all_vecs :: "io_world \<Rightarrow> vec_u8 list" where
  "all_vecs w = caller w @ map pr_buffer (u_pending (ring w)) @ map snd (u_completed (ring w))"

definition owned :: "(u64 \<Rightarrow> u8 list option) \<Rightarrow> vec_u8 multiset \<Rightarrow> bool" where
  "owned hp vs \<longleftrightarrow> (\<forall>a. count (image_mset vec_ptr vs) a \<le> 1) \<and> (\<forall>v \<in># vs. \<exists>b. hp (vec_ptr v) = Some b \<and> vec_len v \<le> length b)"

definition io_inv :: "io_world \<Rightarrow> bool" where
  "io_inv w \<longleftrightarrow> sq_wf (ring w) \<and> cq_wf (ring w)
     \<and> outstanding w = mset (map pr_user_data (u_pending (ring w)))
     \<and> length (u_pending (ring w)) + length (u_completed (ring w)) \<le> unat (u_cq_entries (ring w))
     \<and> \<not> overflowed w \<and> owned (heap w) (mset (all_vecs w))"

lemma io_inv_start:
  assumes "fresh_ring r"
  shows "io_inv (io_start r)"
proof -
  have g: "cell_shape (sqes r) (sq_mask r)" "length (sq_array r) = length (sqes r)" "unat (u_sq_entries r) = length (sqes r)"
    "cell_shape (cqes r) (cq_mask r)" "unat (u_cq_entries r) = length (cqes r)"
    using assms by (auto simp: fresh_ring_def ring_geometry_def cell_shape_def)
  then have "sq_wf r" "cq_wf r" using assms by (simp_all add: fresh_ring_def sq_wf_def cq_wf_def)
  then show ?thesis
    using assms by (simp add: io_inv_def io_start_def fresh_ring_def outstanding_def sq_items_def cq_items_def all_vecs_def owned_def)
qed

text \<open>What the two sides do to the rings.\<close>

lemma sq_push:
  fixes s :: submission_entry
  assumes wf: "sq_wf r" and room: "\<not> sq_tail r - sq_head r \<ge> u_sq_entries r"
  defines "i \<equiv> unat (sq_tail r AND sq_mask r)"
  defines "r' \<equiv> r\<lparr>sqes := (sqes r)[i := s], sq_array := (sq_array r)[i := sq_tail r AND sq_mask r], sq_tail := sq_tail r + 1\<rparr>"
  shows "i < length (sqes r)" "i < length (sq_array r)" "sq_items r' = sq_items r @ [s]" "sq_wf r'"
proof -
  note w = wf [unfolded sq_wf_def]
  have lt: "unat (sq_tail r - sq_head r) < length (sqes r)" using w room by (simp add: word_le_nat_alt)
  show i: "i < length (sqes r)" "i < length (sq_array r)"
    using w wslot_less [of "sqes r" "sq_mask r"] by (simp_all add: i_def tail_wslot [of "sq_tail r" _ "sq_head r"])
  show "sq_items r' = sq_items r @ [s]"
    using w lt by (simp add: sq_items_def r'_def i_def cells_push)
  have "cell_shape (sq_array r) (sq_mask r)" using w by (simp add: cell_shape_def)
  then show "sq_wf r'"
    using w lt by (simp add: sq_wf_def r'_def i_def cells_push unat_Suc_distance [OF w [THEN conjunct1] lt])
qed

lemma sq_pop:
  assumes wf: "sq_wf r" and ne: "sq_head r \<noteq> sq_tail r"
  defines "s \<equiv> sqes r ! unat (sq_array r ! unat (sq_head r AND sq_mask r))"
  defines "r' \<equiv> r\<lparr>sq_head := sq_head r + 1\<rparr>"
  shows "sq_items r = s # sq_items r'" "sq_wf r'"
proof -
  note w = wf [unfolded sq_wf_def]
  have "cells (sq_array r) (sq_mask r) (sq_head r) (sq_tail r)
      = (sq_head r AND sq_mask r) # map (\<lambda>k. (sq_head r + of_nat (Suc k)) AND sq_mask r) [0..<unat (sq_tail r - (sq_head r + 1))]"
    using w unfolding unat_pred_distance [OF ne] by (simp add: upt_conv_Cons map_Suc_upt [symmetric] del: upt_Suc map_Suc_upt)
  then have a: "sq_array r ! unat (sq_head r AND sq_mask r) = sq_head r AND sq_mask r"
    and rest: "cells (sq_array r) (sq_mask r) (sq_head r + 1) (sq_tail r)
      = map (\<lambda>k. (sq_head r + 1 + of_nat k) AND sq_mask r) [0..<unat (sq_tail r - (sq_head r + 1))]"
    unfolding cells_pop [OF ne] by (simp_all add: algebra_simps)
  show "sq_items r = s # sq_items r'"
    by (simp add: sq_items_def r'_def s_def cells_pop [OF ne] a)
  show "sq_wf r'" using w rest unat_pred_distance [OF ne] by (simp add: sq_wf_def r'_def)
qed

lemma cq_push:
  fixes e :: completion_entry
  assumes wf: "cq_wf r" and room: "\<not> cq_tail r - cq_head r \<ge> u_cq_entries r"
  defines "r' \<equiv> r\<lparr>cqes := (cqes r)[unat (cq_tail r AND cq_mask r) := e], cq_tail := cq_tail r + 1\<rparr>"
  shows "cq_items r' = cq_items r @ [e]" "cq_wf r'"
proof -
  have "unat (cq_tail r - cq_head r) < length (cqes r)" using assms by (simp add: cq_wf_def word_le_nat_alt)
  then show "cq_items r' = cq_items r @ [e]" using wf by (simp add: cq_items_def r'_def cells_push cq_wf_def)
  show "cq_wf r'" using wf by (simp add: cq_wf_def r'_def)
qed

lemma cq_pop:
  assumes "cq_wf r" "cq_head r \<noteq> cq_tail r"
  shows "unat (cq_head r AND cq_mask r) < length (cqes r)"
    "cq_items r = cqes r ! unat (cq_head r AND cq_mask r) # cq_items (r\<lparr>cq_head := cq_head r + 1\<rparr>)"
  using assms wslot_less [of "cqes r" "cq_mask r" "cq_head r" 0]
  by (simp_all add: cq_wf_def head_wslot cq_items_def cells_pop)

text \<open>Ownership under allocation, release, shortening and writing.\<close>

lemma owned_allocate:
  assumes "owned hp vs" "hp a = None"
  shows "owned (hp(a \<mapsto> replicate n 0)) (add_mset \<lparr>vec_ptr = a, vec_len = n\<rparr> vs)"
proof -
  have "a \<notin># image_mset vec_ptr vs" using assms by (auto simp: owned_def)
  then have "count (image_mset vec_ptr vs) a = 0" by (simp only: not_in_iff)
  then show ?thesis using assms by (auto simp: owned_def)
qed

lemma owned_unique: "owned hp (add_mset v vs) \<Longrightarrow> u \<in># vs \<Longrightarrow> vec_ptr u \<noteq> vec_ptr v"
proof
  assume o: "owned hp (add_mset v vs)" and u: "u \<in># vs" and eq: "vec_ptr u = vec_ptr v"
  have "count (image_mset vec_ptr (add_mset v vs)) (vec_ptr v) \<le> 1" using o by (simp only: owned_def)
  then have "count (image_mset vec_ptr vs) (vec_ptr v) = 0" by simp
  then have "vec_ptr v \<notin># image_mset vec_ptr vs" by (simp only: not_in_iff)
  then show False using u eq by (metis image_eqI set_image_mset)
qed

lemma owned_rest: "owned hp (add_mset v vs) \<Longrightarrow> owned hp vs"
proof -
  assume o: "owned hp (add_mset v vs)"
  have "count (image_mset vec_ptr vs) a \<le> count (image_mset vec_ptr (add_mset v vs)) a" for a by simp
  with o have "\<forall>a. count (image_mset vec_ptr vs) a \<le> 1" unfolding owned_def by (meson le_trans)
  moreover have "\<forall>v \<in># vs. \<exists>b. hp (vec_ptr v) = Some b \<and> vec_len v \<le> length b" using o by (simp add: owned_def)
  ultimately show "owned hp vs" by (simp add: owned_def)
qed

lemma owned_release: "owned hp (add_mset v vs) \<Longrightarrow> owned (hp(vec_ptr v := None)) vs"
  using owned_unique [of hp v vs] owned_rest [of hp v vs] by (auto simp: owned_def)

lemma owned_shorten:
  "owned hp (add_mset v vs) \<Longrightarrow> vec_ptr v' = vec_ptr v \<Longrightarrow> vec_len v' \<le> vec_len v \<Longrightarrow> owned hp (add_mset v' vs)"
  by (auto simp: owned_def intro: order.trans)

lemma owned_write:
  assumes "owned hp vs" "hp a = Some b"
  shows "owned (hp(a \<mapsto> bytes @ drop (length bytes) b)) vs"
  using assms by (fastforce simp: owned_def)

text \<open>The parts of the state a step touches.\<close>

lemma settle_simps [simp]: "vec_ptr (settle e v) = vec_ptr v" "vec_len (settle e v) \<le> vec_len v"
  by (simp_all add: settle_def)

lemma mset_all_vecs_release:
  "v \<in> set (caller w) \<Longrightarrow> mset (all_vecs w) = add_mset v (mset (all_vecs (w\<lparr>caller := remove1 v (caller w)\<rparr>)))"
  by (simp add: all_vecs_def)

lemma io_inv_allocate: "io_inv w \<Longrightarrow> heap w a = None \<Longrightarrow> io_inv (allocate a n w)"
  using owned_allocate [of "heap w" "mset (all_vecs w)" a n]
  by (simp add: io_inv_def allocate_def outstanding_def all_vecs_def ac_simps)

lemma io_inv_release:
  assumes "io_inv w" "v \<in> set (caller w)"
  shows "io_inv (release_vec v w)"
proof -
  have "owned (heap w) (add_mset v (mset (all_vecs (w\<lparr>caller := remove1 v (caller w)\<rparr>))))"
    using assms mset_all_vecs_release [of v w] by (simp add: io_inv_def)
  then show ?thesis
    using assms(1) owned_release by (auto simp: io_inv_def release_vec_def outstanding_def all_vecs_def)
qed

lemma submit_read_cases:
  assumes "sq_wf r"
  obtains (refused) err where "submit_read fd v off ud r = Ret (Inl err, r)"
  | (accepted) r' where "submit_read fd v off ud r = Ret (Inr ud, r')" "sq_wf r'"
      "sq_items r' = sq_items r @ [read_entry fd v off ud]" "cq_wf r' = cq_wf r" "cq_items r' = cq_items r"
      "u_pending r' = u_pending r @ [\<lparr>pr_user_data = ud, pr_buffer = v\<rparr>]" "u_completed r' = u_completed r"
      "u_cq_entries r' = u_cq_entries r" "length (u_pending r) + length (u_completed r) < unat (u_cq_entries r)"
      "vec_len v \<le> u32_max"
proof (cases "\<exists>err. submit_read fd v off ud r = Ret (Inl err, r)")
  case True
  then show ?thesis using refused by blast
next
  case False
  then have room: "\<not> u_sq_entries r \<le> sq_tail r - sq_head r" and len: "vec_len v \<le> u32_max"
    and cq: "length (u_pending r) + length (u_completed r) < unat (u_cq_entries r)"
    by (auto simp: submit_read_def split: if_splits)
  note p = sq_push(1,2) [OF assms room] sq_push(3,4) [OF assms room, where s = "read_entry fd v off ud"]
  let ?r = "r\<lparr>sqes := (sqes r)[unat (sq_tail r AND sq_mask r) := read_entry fd v off ud],
      sq_array := (sq_array r)[unat (sq_tail r AND sq_mask r) := sq_tail r AND sq_mask r], sq_tail := sq_tail r + 1,
      u_pending := u_pending r @ [\<lparr>pr_user_data = ud, pr_buffer = v\<rparr>]\<rparr>"
  have "submit_read fd v off ud r = Ret (Inr ud, ?r)"
    using False p(1,2) by (auto simp: submit_read_def Let_def split: if_splits)
  moreover have "sq_wf ?r" "sq_items ?r = sq_items r @ [read_entry fd v off ud]"
    using p(3,4) by (simp_all add: sq_wf_def sq_items_def)
  ultimately show ?thesis using accepted [of ?r] cq len by (simp add: cq_wf_def cq_items_def)
qed

lemma io_inv_submit:
  assumes inv: "io_inv w" and v: "v \<in> set (caller w)"
  shows "\<exists>w'. call_submit fd v off ud w = Ret w' \<and> io_inv w'"
proof -
  have "sq_wf (ring w)" using inv by (simp add: io_inv_def)
  then show ?thesis
  proof (cases rule: submit_read_cases [of _ fd v off ud])
    case (refused err)
    then show ?thesis using io_inv_release [OF inv v] by (simp add: call_submit_def)
  next
    case (accepted r')
    let ?w = "w\<lparr>ring := r', caller := remove1 v (caller w), asked := (asked w)(ud \<mapsto> (fd, off, vec_ptr v))\<rparr>"
    have "outstanding ?w = add_mset ud (outstanding w)"
      using accepted by (simp add: outstanding_def read_entry_def)
    moreover have "mset (all_vecs ?w) = mset (all_vecs w)"
      unfolding mset_all_vecs_release [OF v] using accepted by (simp add: all_vecs_def)
    ultimately have "io_inv ?w" using inv accepted by (simp add: io_inv_def)
    then show ?thesis using accepted(1) by (simp add: call_submit_def)
  qed
qed

lemma position_of_token:
  assumes "ud \<in># mset (map pr_user_data ps)"
  obtains p where "position (\<lambda>q. pr_user_data q = ud) ps = Some p" "p < length ps" "pr_user_data (ps ! p) = ud"
proof (cases "position (\<lambda>q. pr_user_data q = ud) ps")
  case None
  then show ?thesis using assms by (auto simp: position_None)
next
  case (Some p)
  then show ?thesis using that [OF Some] by (simp add: position_Some)
qed

lemma try_complete_cases:
  assumes inv: "io_inv w" and r: "r = ring w"
  obtains (empty) "try_complete r = Ret (None, r)"
  | (collected) e p r' where "try_complete r = Ret (Some e, r')" "cq_items r = e # cq_items r'" "sq_items r' = sq_items r"
      "sq_wf r'" "cq_wf r'" "u_cq_entries r' = u_cq_entries r"
      "p < length (u_pending r)" "pr_user_data (u_pending r ! p) = cqe_user_data e"
      "u_pending r' = swap_remove (u_pending r) p" "u_completed r' = u_completed r @ [(e, settle e (pr_buffer (u_pending r ! p)))]"
proof (cases "cq_head r = cq_tail r")
  case True
  then show ?thesis using empty by (simp add: try_complete_def)
next
  case False
  have wf: "cq_wf r" "sq_wf r" using inv r by (simp_all add: io_inv_def)
  let ?e = "cqes r ! unat (cq_head r AND cq_mask r)"
  note items = cq_pop [OF wf(1) False]
  have "cqe_user_data ?e \<in># outstanding w" unfolding outstanding_def r [symmetric] items(2) by simp
  then have "cqe_user_data ?e \<in># mset (map pr_user_data (u_pending r))" using inv r unfolding io_inv_def by metis
  then obtain p where p: "position (\<lambda>q. pr_user_data q = cqe_user_data ?e) (u_pending r) = Some p" "p < length (u_pending r)"
    "pr_user_data (u_pending r ! p) = cqe_user_data ?e" by (rule position_of_token)
  let ?r = "r\<lparr>cq_head := cq_head r + 1, u_pending := swap_remove (u_pending r) p,
              u_completed := u_completed r @ [(?e, settle ?e (pr_buffer (u_pending r ! p)))]\<rparr>"
  have run: "try_complete r = Ret (Some ?e, ?r)"
    using False items(1) p(1) by (simp add: try_complete_def Let_def)
  have "cq_items r = ?e # cq_items ?r" using items(2) by (simp add: cq_items_def)
  moreover have "sq_items ?r = sq_items r" "sq_wf ?r" "cq_wf ?r"
    using wf by (simp_all add: sq_items_def sq_wf_def cq_wf_def)
  ultimately show ?thesis using collected [OF run] p by simp
qed

lemma io_inv_complete:
  assumes inv: "io_inv w"
  shows "\<exists>w'. call_complete w = Ret w' \<and> io_inv w'"
  using inv refl
proof (cases rule: try_complete_cases)
  case empty
  then show ?thesis using inv by (simp add: call_complete_def)
next
  case (collected e p r')
  let ?w = "w\<lparr>ring := r'\<rparr>"
  let ?v = "pr_buffer (u_pending (ring w) ! p)"
  have "add_mset (cqe_user_data e) (outstanding ?w) = outstanding w"
    using collected by (simp add: outstanding_def)
  moreover have "mset (map pr_user_data (u_pending (ring w))) = add_mset (cqe_user_data e) (mset (map pr_user_data (u_pending r')))"
    unfolding collected(9) using map_swap_remove_mset [OF collected(7)] collected(8) by metis
  ultimately have o: "outstanding ?w = mset (map pr_user_data (u_pending r'))"
    using inv unfolding io_inv_def by (metis add_mset_add_mset_same_iff)
  have "mset (map pr_buffer (u_pending (ring w))) = add_mset ?v (mset (map pr_buffer (u_pending r')))"
    unfolding collected(9) by (rule map_swap_remove_mset [OF collected(7)])
  then obtain vs where vs: "mset (all_vecs w) = add_mset ?v vs" "mset (all_vecs ?w) = add_mset (settle e ?v) vs"
    using collected(10) by (simp add: all_vecs_def)
  have "owned (heap w) (mset (all_vecs ?w))"
    unfolding vs(2) by (rule owned_shorten [of _ ?v]) (use inv vs(1) in \<open>simp_all add: io_inv_def\<close>)
  moreover have "0 < length (u_pending (ring w))" using collected(7) by linarith
  ultimately have "io_inv ?w" using inv collected o by (simp add: io_inv_def)
  then show ?thesis using collected(1) by (simp add: call_complete_def)
qed

lemma take_completed_cases:
  obtains (unknown) "take_completed ud r = (Inl CompletionUnknown, r)" "ud \<notin> (cqe_user_data \<circ> fst) ` set (u_completed r)"
  | (found) p where "p < length (u_completed r)" "cqe_user_data (fst (u_completed r ! p)) = ud"
      "take_completed ud r = (Inr (snd (u_completed r ! p)), r\<lparr>u_completed := swap_remove (u_completed r) p\<rparr>)"
proof (cases "position (\<lambda>(e, _). cqe_user_data e = ud) (u_completed r)")
  case None
  then have "ud \<notin> (cqe_user_data \<circ> fst) ` set (u_completed r)" by (auto simp: position_None)
  then show ?thesis using None unknown by (simp add: take_completed_def)
next
  case (Some p)
  then have "p < length (u_completed r)" "cqe_user_data (fst (u_completed r ! p)) = ud"
    by (auto simp: position_Some case_prod_beta)
  then show ?thesis using Some by (intro found [of p]) (simp_all add: take_completed_def)
qed

lemma io_inv_take:
  assumes inv: "io_inv w"
  shows "io_inv (call_take ud w)"
proof (cases rule: take_completed_cases [of ud "ring w"])
  case unknown
  then show ?thesis using inv by (simp add: call_take_def)
next
  case (found p)
  have "mset (map snd (u_completed (ring w)))
      = add_mset (snd (u_completed (ring w) ! p)) (mset (map snd (swap_remove (u_completed (ring w)) p)))"
    by (rule map_swap_remove_mset [OF found(1)])
  then have "mset (all_vecs (call_take ud w)) = mset (all_vecs w)"
    using found(3) by (simp add: call_take_def all_vecs_def)
  moreover have "length (u_pending (ring w)) + length (u_completed (ring w)) - Suc 0 \<le> unat (u_cq_entries (ring w))"
    using inv by (auto simp: io_inv_def)
  ultimately show ?thesis
    using inv found by (simp add: call_take_def io_inv_def outstanding_def sq_items_def cq_items_def sq_wf_def cq_wf_def)
qed

lemma io_inv_sys_take:
  assumes inv: "io_inv w" and ne: "sq_head (ring w) \<noteq> sq_tail (ring w)"
  shows "io_inv (sys_take w)" "\<exists>s. sq_items (ring w) = s # sq_items (ring (sys_take w)) \<and> inflight (sys_take w) = inflight w @ [s]"
proof -
  have "sq_wf (ring w)" using inv by (simp add: io_inv_def)
  note p = sq_pop [OF this ne]
  have "outstanding (sys_take w) = outstanding w"
    unfolding outstanding_def p(1) by (simp add: sys_take_def Let_def cq_items_def)
  then show "io_inv (sys_take w)"
    using inv p(2) by (simp add: io_inv_def sys_take_def Let_def all_vecs_def cq_wf_def)
  show "\<exists>s. sq_items (ring w) = s # sq_items (ring (sys_take w)) \<and> inflight (sys_take w) = inflight w @ [s]"
    using p(1) by (simp add: sys_take_def Let_def)
qed

lemma mset_take_drop:
  assumes "k < length xs"
  shows "mset xs = add_mset (xs ! k) (mset (take k xs @ drop (Suc k) xs))"
  by (subst id_take_nth_drop [OF assms]) simp

text \<open>A read in flight has a place in the completion ring: it is pending, and the ring has room for every pending request.\<close>

lemma completion_has_room:
  assumes inv: "io_inv w" and k: "k < length (inflight w)"
  shows "\<not> cq_tail (ring w) - cq_head (ring w) \<ge> u_cq_entries (ring w)"
proof -
  have "size (outstanding w) = length (u_pending (ring w))" using inv by (simp add: io_inv_def)
  then have "length (inflight w) + unat (cq_tail (ring w) - cq_head (ring w)) \<le> length (u_pending (ring w))"
    by (simp add: outstanding_def cq_items_def)
  moreover have "length (u_pending (ring w)) \<le> unat (u_cq_entries (ring w))" using inv by (auto simp: io_inv_def)
  ultimately show ?thesis using k by (simp add: word_le_nat_alt)
qed

lemma sys_finish_effect:
  fixes content :: "i32 \<Rightarrow> u64 \<Rightarrow> nat \<Rightarrow> u8" and res :: i32
  assumes inv: "io_inv w" and k: "k < length (inflight w)"
  defines "s \<equiv> inflight w ! k"
  defines "e \<equiv> \<lparr>cqe_user_data = sqe_user_data s, cqe_result = res, cqe_flags = 0\<rparr>"
  defines "bytes \<equiv> map (content (sqe_fd s) (sqe_off s)) [0..<nat (sint res)]"
  defines "w' \<equiv> sys_finish content k res w"
  shows "cq_items (ring w') = cq_items (ring w) @ [e]" "sq_items (ring w') = sq_items (ring w)"
    "u_pending (ring w') = u_pending (ring w)" "u_completed (ring w') = u_completed (ring w)"
    "inflight w' = take k (inflight w) @ drop (Suc k) (inflight w)" "caller w' = caller w" "asked w' = asked w"
    "heap w' = heap (sys_write (sqe_addr s) bytes w)" "stray w' = stray (sys_write (sqe_addr s) bytes w)" "io_inv w'"
proof -
  note room = completion_has_room [OF inv k]
  let ?i = "unat (cq_tail (ring w) AND cq_mask (ring w))"
  let ?r = "ring w\<lparr>cqes := (cqes (ring w))[?i := e], cq_tail := cq_tail (ring w) + 1\<rparr>"
  let ?fl = "take k (inflight w) @ drop (Suc k) (inflight w)"
  have w': "w' = (sys_write (sqe_addr s) bytes (w\<lparr>inflight := ?fl\<rparr>))\<lparr>ring := ?r\<rparr>"
    using room unfolding w'_def sys_finish_def sys_post_def Let_def s_def [symmetric] bytes_def [symmetric] e_def [symmetric]
    by (simp add: sys_write_def)
  have cwf: "cq_wf (ring w)" using inv by (simp add: io_inv_def)
  note pushed = cq_push [OF cwf room, where e = e]
  show c: "cq_items (ring w') = cq_items (ring w) @ [e]" and q: "sq_items (ring w') = sq_items (ring w)"
    and pc: "u_pending (ring w') = u_pending (ring w)" "u_completed (ring w') = u_completed (ring w)"
    and f: "inflight w' = ?fl" "caller w' = caller w" "asked w' = asked w"
    and h: "heap w' = heap (sys_write (sqe_addr s) bytes w)" "stray w' = stray (sys_write (sqe_addr s) bytes w)"
    using pushed(1) by (simp_all add: w' sq_items_def sys_write_def split: option.split)
  have "mset (inflight w) = add_mset s (mset ?fl)" unfolding s_def by (rule mset_take_drop [OF k])
  then have "outstanding w' = outstanding w"
    unfolding outstanding_def c q f by (simp add: e_def)
  moreover have "owned (heap w') (mset (all_vecs w'))"
    using inv owned_write [of "heap w" "mset (all_vecs w)" "sqe_addr s" _ bytes]
    by (auto simp: h all_vecs_def pc f sys_write_def io_inv_def split: option.splits)
  moreover have "sq_wf (ring w')" "cq_wf (ring w')"
    using inv pushed(2) by (simp_all add: w' io_inv_def sq_wf_def)
  moreover have "u_cq_entries (ring w') = u_cq_entries (ring w)" "overflowed w' = overflowed w"
    by (simp_all add: w' sys_write_def)
  ultimately show "io_inv w'" using inv pc by (simp add: io_inv_def)
qed

lemma io_inv_step: "io_step content unique w w' \<Longrightarrow> io_inv w \<Longrightarrow> io_inv w'"
proof (induction rule: io_step.induct)
  case (step_submit v w ud fd off w')
  then show ?case using io_inv_submit [of w v fd off ud] by auto
next
  case (step_complete w w')
  then show ?case using io_inv_complete [of w] by auto
qed (auto intro: io_inv_allocate io_inv_release io_inv_take io_inv_sys_take sys_finish_effect)

lemma io_inv_reach: "io_reach content unique r w \<Longrightarrow> fresh_ring r \<Longrightarrow> io_inv w"
  by (induction rule: io_reach.induct) (auto intro: io_inv_start io_inv_step)

section \<open>Every buffer receives the bytes its request asked for\<close>

text \<open>The first \<open>n\<close> bytes of the block at \<open>a\<close> are those the last request with the token asked for.\<close>

definition delivered :: "(i32 \<Rightarrow> u64 \<Rightarrow> nat \<Rightarrow> u8) \<Rightarrow> io_world \<Rightarrow> u64 \<Rightarrow> u64 \<Rightarrow> nat \<Rightarrow> bool" where
  "delivered content w ud a n \<longleftrightarrow>
     (\<exists>fd off b. asked w ud = Some (fd, off, a) \<and> heap w a = Some b \<and> n \<le> length b
        \<and> take n b = map (content fd off) [0..<n])"

text \<open>A submission that is not finished belongs to a pending request.\<close>

definition promised :: "io_world \<Rightarrow> submission_entry \<Rightarrow> pending_read \<Rightarrow> bool" where
  "promised w s p \<longleftrightarrow> pr_user_data p = sqe_user_data s \<and> vec_ptr (pr_buffer p) = sqe_addr s
     \<and> vec_len (pr_buffer p) = unat (sqe_len s) \<and> asked w (sqe_user_data s) = Some (sqe_fd s, sqe_off s, sqe_addr s)"

definition landed :: "(i32 \<Rightarrow> u64 \<Rightarrow> nat \<Rightarrow> u8) \<Rightarrow> io_world \<Rightarrow> completion_entry \<Rightarrow> pending_read \<Rightarrow> bool" where
  "landed content w e p \<longleftrightarrow> pr_user_data p = cqe_user_data e \<and> nat (sint (cqe_result e)) \<le> vec_len (pr_buffer p)
     \<and> delivered content w (cqe_user_data e) (vec_ptr (pr_buffer p)) (nat (sint (cqe_result e)))"

definition io_trace :: "(i32 \<Rightarrow> u64 \<Rightarrow> nat \<Rightarrow> u8) \<Rightarrow> io_world \<Rightarrow> bool" where
  "io_trace content w \<longleftrightarrow>
     distinct (map pr_user_data (u_pending (ring w)) @ map (cqe_user_data \<circ> fst) (u_completed (ring w))) \<and> \<not> stray w
     \<and> (\<forall>s \<in> set (sq_items (ring w)) \<union> set (inflight w). \<exists>p \<in> set (u_pending (ring w)). promised w s p)
     \<and> (\<forall>e \<in> set (cq_items (ring w)). \<exists>p \<in> set (u_pending (ring w)). landed content w e p)
     \<and> (\<forall>(e, v) \<in> set (u_completed (ring w)). delivered content w (cqe_user_data e) (vec_ptr v) (vec_len v))"

lemma delivered_frame:
  "delivered content w ud a n \<Longrightarrow> asked w' ud = asked w ud \<Longrightarrow> heap w' a = heap w a \<Longrightarrow> delivered content w' ud a n"
  by (simp add: delivered_def)

text \<open>Vectors at different places have different addresses.\<close>

lemma mset_two: "x \<in> set xs \<Longrightarrow> y \<in> set xs \<Longrightarrow> x \<noteq> y \<Longrightarrow> \<exists>M. mset xs = add_mset x (add_mset y M)"
  by (metis insert_DiffM insert_noteq_member set_mset_mset)

lemma pending_apart:
  assumes "io_inv w" "p \<in> set (u_pending (ring w))" "q \<in> set (u_pending (ring w))" "p \<noteq> q"
  shows "vec_ptr (pr_buffer p) \<noteq> vec_ptr (pr_buffer q)"
proof -
  obtain M where "mset (u_pending (ring w)) = add_mset p (add_mset q M)" using mset_two assms(2-4) by meson
  then have "mset (all_vecs w) = add_mset (pr_buffer q) (add_mset (pr_buffer p) (mset (caller w) + image_mset pr_buffer M + mset (map snd (u_completed (ring w)))))"
    by (simp add: all_vecs_def)
  then have "owned (heap w) (add_mset (pr_buffer q) (add_mset (pr_buffer p) (mset (caller w) + image_mset pr_buffer M + mset (map snd (u_completed (ring w))))))"
    using assms(1) by (simp add: io_inv_def)
  then show ?thesis by (rule owned_unique) simp
qed

lemma owners_apart:
  assumes inv: "io_inv w"
  shows "p \<in> set (u_pending (ring w)) \<Longrightarrow> x \<in> set (u_completed (ring w)) \<Longrightarrow> vec_ptr (snd x) \<noteq> vec_ptr (pr_buffer p)"
    and "v \<in> set (caller w) \<Longrightarrow> p \<in> set (u_pending (ring w)) \<Longrightarrow> vec_ptr (pr_buffer p) \<noteq> vec_ptr v"
    and "v \<in> set (caller w) \<Longrightarrow> x \<in> set (u_completed (ring w)) \<Longrightarrow> vec_ptr (snd x) \<noteq> vec_ptr v"
proof -
  have o: "owned (heap w) (mset (caller w) + mset (map pr_buffer (u_pending (ring w))) + mset (map snd (u_completed (ring w))))"
    using inv by (simp add: io_inv_def all_vecs_def ac_simps)
  show "vec_ptr (snd x) \<noteq> vec_ptr (pr_buffer p)" if "p \<in> set (u_pending (ring w))" "x \<in> set (u_completed (ring w))"
  proof -
    obtain M where "mset (u_pending (ring w)) = add_mset p M" using \<open>p \<in> _\<close> by (metis insert_DiffM set_mset_mset)
    then show ?thesis using o that(2) owned_unique [of "heap w" "pr_buffer p"] by simp
  qed
  fix v assume v: "v \<in> set (caller w)"
  then obtain M where M: "mset (caller w) = add_mset v M" by (metis insert_DiffM set_mset_mset)
  then show "vec_ptr (pr_buffer p) \<noteq> vec_ptr v" if "p \<in> set (u_pending (ring w))"
    using o that owned_unique [of "heap w" v] by simp
  show "vec_ptr (snd x) \<noteq> vec_ptr v" if "x \<in> set (u_completed (ring w))"
    using o M that owned_unique [of "heap w" v] by simp
qed

text \<open>With distinct tokens every request is in one place only.\<close>

lemma outstanding_distinct:
  assumes "io_inv w" "io_trace content w"
  shows "distinct (map sqe_user_data (sq_items (ring w)) @ map sqe_user_data (inflight w) @ map cqe_user_data (cq_items (ring w)))"
proof -
  have "mset (map sqe_user_data (sq_items (ring w)) @ map sqe_user_data (inflight w) @ map cqe_user_data (cq_items (ring w)))
      = mset (map pr_user_data (u_pending (ring w)))"
    using assms(1) by (simp add: io_inv_def outstanding_def ac_simps)
  moreover have "distinct (map pr_user_data (u_pending (ring w)))" using assms(2) by (simp add: io_trace_def)
  ultimately show ?thesis by (metis mset_eq_imp_distinct_iff)
qed

lemma pending_by_token:
  assumes "io_trace content w" "p \<in> set (u_pending (ring w))" "q \<in> set (u_pending (ring w))" "pr_user_data p = pr_user_data q"
  shows "p = q"
  using assms by (auto simp: io_trace_def distinct_map inj_on_def)

text \<open>A step that leaves the ring and the requests alone and the blocks of pending and completed buffers unchanged.\<close>

lemma io_trace_frame:
  assumes "io_trace content w" "ring w' = ring w" "inflight w' = inflight w" "asked w' = asked w" "stray w' = stray w"
    and "\<And>p. p \<in> set (u_pending (ring w)) \<Longrightarrow> heap w' (vec_ptr (pr_buffer p)) = heap w (vec_ptr (pr_buffer p))"
    and "\<And>x. x \<in> set (u_completed (ring w)) \<Longrightarrow> heap w' (vec_ptr (snd x)) = heap w (vec_ptr (snd x))"
  shows "io_trace content w'"
  using assms by (fastforce simp: io_trace_def promised_def landed_def delivered_def)

lemma io_trace_allocate:
  assumes "io_inv w" "io_trace content w" "heap w a = None"
  shows "io_trace content (allocate a n w)"
proof (rule io_trace_frame [OF assms(2)])
  have o: "\<exists>b. heap w (vec_ptr v) = Some b" if "v \<in> set (all_vecs w)" for v
    using assms(1) that by (auto simp: io_inv_def owned_def)
  show "heap (allocate a n w) (vec_ptr (pr_buffer p)) = heap w (vec_ptr (pr_buffer p))"
    if "p \<in> set (u_pending (ring w))" for p
    using o [of "pr_buffer p"] that assms(3) by (auto simp: allocate_def all_vecs_def)
  show "heap (allocate a n w) (vec_ptr (snd x)) = heap w (vec_ptr (snd x))" if "x \<in> set (u_completed (ring w))" for x
    using o [of "snd x"] that assms(3) by (auto simp: allocate_def all_vecs_def)
qed (simp_all add: allocate_def)

lemma io_trace_release:
  assumes "io_inv w" "io_trace content w" "v \<in> set (caller w)"
  shows "io_trace content (release_vec v w)"
  using owners_apart(2,3) [OF assms(1,3)]
  by (intro io_trace_frame [OF assms(2)]) (auto simp: release_vec_def)

lemma io_trace_submit:
  assumes inv: "io_inv w" and tr: "io_trace content w" and v: "v \<in> set (caller w)" and fresh: "ud \<notin> tokens (ring w)"
    and call: "call_submit fd v off ud w = Ret w'"
  shows "io_trace content w'"
proof -
  have "sq_wf (ring w)" using inv by (simp add: io_inv_def)
  then show ?thesis
  proof (cases rule: submit_read_cases [of _ fd v off ud])
    case (refused err)
    then show ?thesis using call io_trace_release [OF inv tr v] by (auto simp: call_submit_def)
  next
    case (accepted r')
    let ?w = "w\<lparr>ring := r', caller := remove1 v (caller w), asked := (asked w)(ud \<mapsto> (fd, off, vec_ptr v))\<rparr>"
    let ?q = "\<lparr>pr_user_data = ud, pr_buffer = v\<rparr>"
    have w': "w' = ?w" using call accepted(1) by (simp add: call_submit_def)
    have uds: "pr_user_data p \<noteq> ud" if "p \<in> set (u_pending (ring w))" for p
      using fresh that by (auto simp: tokens_def)
    have old: "cqe_user_data (fst x) \<noteq> ud" if "x \<in> set (u_completed (ring w))" for x
      using fresh that by (auto simp: tokens_def)
    have keep: "delivered content ?w u a n" if "delivered content w u a n" "u \<noteq> ud" for u a n
      using that by (simp add: delivered_def)
    have new: "promised ?w (read_entry fd v off ud) ?q"
      using accepted(10) by (simp add: promised_def read_entry_def unat_of_nat_u32)
    have "\<exists>p \<in> set (u_pending r'). promised ?w s p" if "s \<in> set (sq_items r') \<union> set (inflight w)" for s
    proof (cases "s \<in> set (sq_items (ring w)) \<union> set (inflight w)")
      case True
      then obtain p where "p \<in> set (u_pending (ring w))" "promised w s p" using tr unfolding io_trace_def by blast
      then show ?thesis using uds [of p] accepted(6) by (auto simp: promised_def)
    next
      case False
      then show ?thesis using that new accepted(3,6) by auto
    qed
    moreover have "\<exists>p \<in> set (u_pending r'). landed content ?w e p" if e: "e \<in> set (cq_items r')" for e
    proof -
      obtain p where "p \<in> set (u_pending (ring w))" "landed content w e p" using tr e accepted(5) unfolding io_trace_def by auto
      then show ?thesis using uds [of p] keep accepted(6) by (auto simp: landed_def)
    qed
    moreover have "delivered content ?w (cqe_user_data e) (vec_ptr x) (vec_len x)" if "(e, x) \<in> set (u_completed r')" for e x
      using that old [of "(e, x)"] keep tr accepted(7) by (auto simp: io_trace_def)
    ultimately show ?thesis
      using tr uds old accepted(6,7) unfolding w' io_trace_def by (fastforce simp: image_iff)
  qed
qed

lemma io_trace_complete:
  assumes inv: "io_inv w" and tr: "io_trace content w" and call: "call_complete w = Ret w'"
  shows "io_trace content w'"
  using inv refl
proof (cases rule: try_complete_cases)
  case empty
  then show ?thesis using call tr by (simp add: call_complete_def)
next
  case (collected e i r')
  let ?P = "u_pending (ring w) ! i" and ?w = "w\<lparr>ring := r'\<rparr>"
  let ?x = "(e, settle e (pr_buffer ?P))"
  have w': "w' = ?w" using call collected(1) by (simp add: call_complete_def)
  note dis = outstanding_distinct [OF inv tr]
  have P: "?P \<in> set (u_pending (ring w))" using collected(7) by simp
  have stays: "q \<in> set (u_pending r')" if "q \<in> set (u_pending (ring w))" "pr_user_data q \<noteq> cqe_user_data e" for q
    using that set_swap_remove [OF collected(7)] collected(8,9) by auto
  have same: "promised ?w = promised w" "landed content ?w = landed content w" "delivered content ?w = delivered content w"
    by (simp_all add: promised_def landed_def delivered_def fun_eq_iff)
  obtain q where q: "q \<in> set (u_pending (ring w))" "landed content w e q" using tr collected(2) by (auto simp: io_trace_def)
  then have "q = ?P" using pending_by_token [OF tr q(1) P] collected(8) by (simp add: landed_def)
  then have x: "delivered content w (cqe_user_data e) (vec_ptr (snd ?x)) (vec_len (snd ?x))"
    using q(2) by (auto simp: landed_def settle_def)
  have "\<exists>p \<in> set (u_pending r'). promised w s p" if s: "s \<in> set (sq_items r') \<union> set (inflight w)" for s
  proof -
    obtain p where "p \<in> set (u_pending (ring w))" "promised w s p" using tr s collected(3) unfolding io_trace_def by metis
    moreover have "cqe_user_data e \<notin> sqe_user_data ` (set (sq_items r') \<union> set (inflight w))"
      using dis collected(2,3) by auto
    then have "sqe_user_data s \<noteq> cqe_user_data e" using s by (metis imageI)
    ultimately show ?thesis using stays by (auto simp: promised_def)
  qed
  moreover have "\<exists>p \<in> set (u_pending r'). landed content w f p" if f: "f \<in> set (cq_items r')" for f
  proof -
    obtain p where "p \<in> set (u_pending (ring w))" "landed content w f p" using tr f collected(2) unfolding io_trace_def by auto
    moreover have "cqe_user_data e \<notin> cqe_user_data ` set (cq_items r')" using dis collected(2) by auto
    then have "cqe_user_data f \<noteq> cqe_user_data e" using f by (metis imageI)
    ultimately show ?thesis using stays by (auto simp: landed_def)
  qed
  moreover have "\<forall>(f, v) \<in> set (u_completed r'). delivered content w (cqe_user_data f) (vec_ptr v) (vec_len v)"
    using tr x collected(10) by (auto simp: io_trace_def)
  moreover have "distinct (map pr_user_data (u_pending r') @ map (cqe_user_data \<circ> fst) (u_completed r'))"
  proof -
    have "mset (map pr_user_data (u_pending r') @ map (cqe_user_data \<circ> fst) (u_completed r'))
        = mset (map pr_user_data (u_pending (ring w)) @ map (cqe_user_data \<circ> fst) (u_completed (ring w)))"
      using map_swap_remove_mset [OF collected(7), of pr_user_data] collected(8,9,10) by simp
    from mset_eq_imp_distinct_iff [OF this] show ?thesis using tr unfolding io_trace_def by blast
  qed
  ultimately show ?thesis
    using tr unfolding w' io_trace_def same by simp
qed

lemma io_trace_take:
  assumes tr: "io_trace content w"
  shows "io_trace content (call_take ud w)"
proof (cases rule: take_completed_cases [of ud "ring w"])
  case unknown
  then show ?thesis using tr by (simp add: call_take_def)
next
  case (found i)
  let ?x = "u_completed (ring w) ! i" and ?cs = "swap_remove (u_completed (ring w)) i"
  let ?w = "call_take ud w"
  have w: "ring ?w = (ring w)\<lparr>u_completed := ?cs\<rparr>" "inflight ?w = inflight w" "asked ?w = asked w" "heap ?w = heap w" "stray ?w = stray w"
    using found(3) by (simp_all add: call_take_def)
  have same: "promised ?w = promised w" "landed content ?w = landed content w" "delivered content ?w = delivered content w"
    by (simp_all add: promised_def landed_def delivered_def fun_eq_iff w)
  have sub: "set ?cs \<subseteq> set (u_completed (ring w))" using set_swap_remove [OF found(1)] by auto
  have "mset (map (cqe_user_data \<circ> fst) (u_completed (ring w))) = add_mset ud (mset (map (cqe_user_data \<circ> fst) ?cs))"
    using map_swap_remove_mset [OF found(1), of "cqe_user_data \<circ> fst"] found(2) by simp
  then have "mset (map (cqe_user_data \<circ> fst) (u_completed (ring w))) = mset (ud # map (cqe_user_data \<circ> fst) ?cs)" by simp
  from mset_eq_imp_distinct_iff [OF this] have "distinct (map (cqe_user_data \<circ> fst) ?cs)"
    using tr unfolding io_trace_def distinct_append by simp
  moreover have "set (map pr_user_data (u_pending (ring w))) \<inter> set (map (cqe_user_data \<circ> fst) (u_completed (ring w))) = {}"
    "distinct (map pr_user_data (u_pending (ring w)))"
    using tr unfolding io_trace_def distinct_append by blast+
  moreover have "set (map (cqe_user_data \<circ> fst) ?cs) \<subseteq> set (map (cqe_user_data \<circ> fst) (u_completed (ring w)))"
    unfolding set_map by (rule image_mono [OF sub])
  ultimately have "distinct (map pr_user_data (u_pending (ring w)) @ map (cqe_user_data \<circ> fst) ?cs)"
    unfolding distinct_append by blast
  then show ?thesis
    using tr sub unfolding io_trace_def same w by (auto simp: sq_items_def cq_items_def)
qed

lemma io_trace_sys_take:
  assumes inv: "io_inv w" and tr: "io_trace content w" and ne: "sq_head (ring w) \<noteq> sq_tail (ring w)"
  shows "io_trace content (sys_take w)"
proof -
  obtain s where s: "sq_items (ring w) = s # sq_items (ring (sys_take w))" "inflight (sys_take w) = inflight w @ [s]"
    using io_inv_sys_take(2) [OF inv ne] by blast
  have w: "u_pending (ring (sys_take w)) = u_pending (ring w)" "u_completed (ring (sys_take w)) = u_completed (ring w)"
    "cq_items (ring (sys_take w)) = cq_items (ring w)" "stray (sys_take w) = stray w"
    by (simp_all add: sys_take_def Let_def cq_items_def)
  have same: "promised (sys_take w) = promised w" "landed content (sys_take w) = landed content w" "delivered content (sys_take w) = delivered content w"
    by (simp_all add: promised_def landed_def delivered_def fun_eq_iff sys_take_def Let_def)
  show ?thesis using tr unfolding io_trace_def same w s by auto
qed

lemma io_trace_sys_finish:
  assumes inv: "io_inv w" and tr: "io_trace content w" and k: "k < length (inflight w)"
    and len: "sint res \<le> int (unat (sqe_len (inflight w ! k)))"
  shows "io_trace content (sys_finish content k res w)"
proof -
  let ?w = "sys_finish content k res w" and ?s = "inflight w ! k"
  let ?e = "\<lparr>cqe_user_data = sqe_user_data ?s, cqe_result = res, cqe_flags = 0\<rparr>"
  let ?n = "nat (sint res)"
  let ?bytes = "map (content (sqe_fd ?s) (sqe_off ?s)) [0..<?n]"
  note eff = sys_finish_effect [OF inv k, of content res]
  note dis = outstanding_distinct [OF inv tr]
  have s: "?s \<in> set (inflight w)" using k by simp
  have fl: "set (inflight ?w) \<subseteq> set (inflight w)" unfolding eff by (auto dest: in_set_takeD in_set_dropD)
  obtain p where p: "p \<in> set (u_pending (ring w))" "promised w ?s p" using tr s unfolding io_trace_def by blast
  have "pr_buffer p \<in># mset (all_vecs w)" using p(1) by (simp add: all_vecs_def)
  then obtain b where b: "heap w (sqe_addr ?s) = Some b" "vec_len (pr_buffer p) \<le> length b"
    using inv p(2) unfolding io_inv_def owned_def promised_def by metis
  have "?n \<le> unat (sqe_len ?s)" unfolding nat_le_iff by (rule len)
  then have n: "?n \<le> vec_len (pr_buffer p)" using p(2) by (simp add: promised_def)
  have "sqe_addr ?s \<in> set (pending_ptrs (ring w))" using p unfolding pending_ptrs_def promised_def by force
  then have hp: "heap ?w = (heap w)(sqe_addr ?s \<mapsto> ?bytes @ drop ?n b)" and st: "stray ?w = stray w"
    using b(1) unfolding eff by (auto simp: sys_write_def)
  have other: "delivered content ?w u a m" if "delivered content w u a m" "a \<noteq> sqe_addr ?s" for u a m
    using that by (rule_tac delivered_frame) (simp_all add: hp eff)
  have same: "promised ?w = promised w" unfolding promised_def fun_eq_iff eff(7) by simp
  have mine: "landed content ?w ?e p"
    using p(2) n b(2) unfolding landed_def delivered_def promised_def eff(7) hp by simp
  have "\<exists>q \<in> set (u_pending (ring w)). landed content ?w f q" if f: "f \<in> set (cq_items (ring w))" for f
  proof -
    obtain q where q: "q \<in> set (u_pending (ring w))" "landed content w f q" using tr f unfolding io_trace_def by auto
    have "sqe_user_data ?s \<notin> cqe_user_data ` set (cq_items (ring w))" using dis s by auto
    then have "q \<noteq> p" using f p(2) q(2) unfolding promised_def landed_def by (metis imageI)
    then have "vec_ptr (pr_buffer q) \<noteq> sqe_addr ?s" using pending_apart [OF inv q(1) p(1)] p(2) by (simp add: promised_def)
    then show ?thesis using q other by (auto simp: landed_def)
  qed
  moreover have "delivered content ?w (cqe_user_data f) (vec_ptr v) (vec_len v)" if "(f, v) \<in> set (u_completed (ring w))" for f v
    using that tr owners_apart(1) [OF inv p(1) that] other p(2) by (auto simp: io_trace_def promised_def)
  ultimately show ?thesis
    using tr fl p(1) mine unfolding io_trace_def eff(1-4) same st by auto
qed

lemma io_trace_step: "io_step content True w w' \<Longrightarrow> io_inv w \<Longrightarrow> io_trace content w \<Longrightarrow> io_trace content w'"
  by (induction rule: io_step.induct)
    (auto intro: io_trace_allocate io_trace_release io_trace_submit io_trace_complete io_trace_take io_trace_sys_take io_trace_sys_finish)

lemma io_trace_reach:
  assumes "io_reach content True r w" "fresh_ring r"
  shows "io_trace content w"
  using assms
proof (induction rule: io_reach.induct)
  case reach_start
  then show ?case by (simp add: io_trace_def io_start_def fresh_ring_def sq_items_def cq_items_def)
next
  case (reach_step w w')
  then show ?case using io_inv_reach io_trace_step by blast
qed

text \<open>What a program sees: the three calls return, and a collected buffer holds what was read.\<close>

lemma calls_return:
  assumes "io_inv w"
  shows "\<exists>res r'. submit_read fd v off ud (ring w) = Ret (res, r')" "\<exists>e r'. try_complete (ring w) = Ret (e, r')"
proof -
  have "sq_wf (ring w)" using assms by (simp add: io_inv_def)
  then show "\<exists>res r'. submit_read fd v off ud (ring w) = Ret (res, r')" by (cases rule: submit_read_cases [of _ fd v off ud]) auto
  show "\<exists>e r'. try_complete (ring w) = Ret (e, r')" using assms refl by (cases rule: try_complete_cases) auto
qed

lemma taken_holds_content:
  assumes "io_trace content w" "take_completed ud (ring w) = (Inr v, r')"
  shows "delivered content w ud (vec_ptr v) (vec_len v)"
proof (cases rule: take_completed_cases [of ud "ring w"])
  case unknown
  then show ?thesis using assms(2) by simp
next
  case (found p)
  have "u_completed (ring w) ! p \<in> set (u_completed (ring w))" using found(1) by simp
  then have "delivered content w (cqe_user_data (fst (u_completed (ring w) ! p)))
      (vec_ptr (snd (u_completed (ring w) ! p))) (vec_len (snd (u_completed (ring w) ! p)))"
    using assms(1) unfolding io_trace_def by (metis (mono_tags, lifting) case_prodD prod.collapse)
  then show ?thesis using assms(2) found(2,3) by simp
qed

section \<open>The contract, and what breaks it\<close>

definition two_entry_ring :: io_uring where
  "two_entry_ring =
     (let z = read_entry 0 \<lparr>vec_ptr = 0, vec_len = 0\<rparr> 0 0; c = \<lparr>cqe_user_data = 0, cqe_result = 0, cqe_flags = 0\<rparr>
      in \<lparr>u_fd = 3, u_sq_entries = 2, u_cq_entries = 2, sq_head = 0, sq_tail = 0, sq_mask = 1, sq_array = [0, 0], sqes = [z, z],
          cq_head = 0, cq_tail = 0, cq_mask = 1, cqes = [c, c], u_pending = [], u_completed = []\<rparr>)"

lemma two_entry_ring_fresh: "fresh_ring two_entry_ring"
proof -
  have "(of_nat (2 ^ 1 - 1) :: u32) = 1" by simp
  then show ?thesis
    unfolding fresh_ring_def ring_geometry_def two_entry_ring_def Let_def
    by (intro conjI exI [of _ 1]) simp_all
qed

text \<open>A run of calls and system steps as a function, for concrete traces.\<close>

datatype io_event =
    EvAllocate u64 nat | EvRelease vec_u8 | EvSubmit i32 vec_u8 u64 u64 | EvComplete | EvTake u64 | EvSysTake | EvSysFinish nat i32

fun io_apply :: "(i32 \<Rightarrow> u64 \<Rightarrow> nat \<Rightarrow> u8) \<Rightarrow> bool \<Rightarrow> io_event \<Rightarrow> io_world \<Rightarrow> io_world option" where
  "io_apply c u (EvAllocate a n) w = (if heap w a = None \<and> 0 < n then Some (allocate a n w) else None)"
| "io_apply c u (EvRelease v) w = (if v \<in> set (caller w) then Some (release_vec v w) else None)"
| "io_apply c u (EvSubmit fd v off ud) w =
     (if v \<in> set (caller w) \<and> (u \<longrightarrow> ud \<notin> tokens (ring w))
      then (case call_submit fd v off ud w of Ret w' \<Rightarrow> Some w' | _ \<Rightarrow> None) else None)"
| "io_apply c u EvComplete w = (case call_complete w of Ret w' \<Rightarrow> Some w' | _ \<Rightarrow> None)"
| "io_apply c u (EvTake ud) w = Some (call_take ud w)"
| "io_apply c u EvSysTake w = (if sq_head (ring w) \<noteq> sq_tail (ring w) then Some (sys_take w) else None)"
| "io_apply c u (EvSysFinish k res) w =
     (if k < length (inflight w) \<and> sint res \<le> int (unat (sqe_len (inflight w ! k))) then Some (sys_finish c k res w) else None)"

fun io_run :: "(i32 \<Rightarrow> u64 \<Rightarrow> nat \<Rightarrow> u8) \<Rightarrow> bool \<Rightarrow> io_event list \<Rightarrow> io_world \<Rightarrow> io_world option" where
  "io_run c u [] w = Some w"
| "io_run c u (ev # evs) w = Option.bind (io_apply c u ev w) (io_run c u evs)"

lemma io_apply_step: "io_apply c u ev w = Some w' \<Longrightarrow> io_step c u w w'"
  by (cases ev) (auto split: if_splits run.splits intro: io_step.intros)

lemma io_run_reach:
  "io_run c u evs w = Some w' \<Longrightarrow> io_reach c u r w \<Longrightarrow> io_reach c u r w'"
proof (induction evs arbitrary: w)
  case (Cons ev evs)
  then show ?case using io_apply_step reach_step by (auto simp: bind_eq_Some_conv)
qed simp

definition dup_events :: "io_event list" where
  "dup_events = (let a = \<lparr>vec_ptr = 16, vec_len = 1\<rparr>; b = \<lparr>vec_ptr = 32, vec_len = 1\<rparr>
     in [EvAllocate 16 1, EvAllocate 32 1, EvSubmit 3 a 0 7, EvSubmit 3 b 0 7, EvSysTake, EvSysTake])"

lemmas io_eval = io_start_def two_entry_ring_def read_entry_def allocate_def release_vec_def call_submit_def submit_read_def
  call_complete_def try_complete_def call_take_def take_completed_def sys_take_def sys_write_def sys_post_def sys_finish_def
  settle_def swap_remove_def pending_ptrs_def tokens_def u32_max_def Let_def

definition one_events :: "io_event list" where
  "one_events = [EvAllocate 16 2, EvSubmit 3 \<lparr>vec_ptr = 16, vec_len = 2\<rparr> 5 7, EvSysTake, EvSysFinish 0 1, EvComplete]"

lemma one_run:
  "\<exists>w. io_run (\<lambda>_ off i. of_nat i + 9) True one_events (io_start two_entry_ring) = Some w
     \<and> fst (take_completed 7 (ring w)) = Inr \<lparr>vec_ptr = 16, vec_len = 1\<rparr> \<and> heap w 16 = Some [9, 0]"
  by (simp add: one_events_def io_eval word_le_nat_alt)

text \<open>
  C39: As long as no token is submitted while a request with it is pending or not yet collected, no interleaving of the program with the
  system makes a call fail to return, overflows the completion ring or writes to memory that no pending request owns, and a collected
  buffer holds exactly the bytes its request asked for: a prefix of the requested range, of the reported length.
\<close>

theorem uring_reads_stay_owned:
  assumes "fresh_ring r" "io_reach content True r w"
  shows "\<not> stray w \<and> \<not> overflowed w
    \<and> length (u_pending (ring w)) + length (u_completed (ring w)) \<le> unat (u_cq_entries (ring w))
    \<and> (\<exists>res r'. submit_read fd v off ud (ring w) = Ret (res, r')) \<and> (\<exists>e r'. try_complete (ring w) = Ret (e, r'))
    \<and> (case take_completed ud (ring w) of (Inl _, _) \<Rightarrow> True
       | (Inr v, _) \<Rightarrow> \<exists>fd off b. asked w ud = Some (fd, off, vec_ptr v) \<and> heap w (vec_ptr v) = Some b \<and> vec_len v \<le> length b
           \<and> take (vec_len v) b = map (content fd off) [0..<vec_len v])"
proof -
  have inv: "io_inv w" and tr: "io_trace content w" using io_inv_reach io_trace_reach assms by blast+
  have "\<not> stray w" "\<not> overflowed w"
    "length (u_pending (ring w)) + length (u_completed (ring w)) \<le> unat (u_cq_entries (ring w))"
    using inv tr unfolding io_inv_def io_trace_def by blast+
  then show ?thesis
    using calls_return [OF inv] taken_holds_content [OF tr]
    by (auto simp: delivered_def split: prod.split sum.split)
qed

lemma uring_reads_stay_owned_witness:
  "\<exists>w :: io_world. fst (take_completed 7 (ring w)) = Inr \<lparr>vec_ptr = 16, vec_len = 1\<rparr> \<and> \<not> stray w \<and> \<not> overflowed w"
proof -
  obtain w where w: "io_run (\<lambda>_ off i. of_nat i + 9) True one_events (io_start two_entry_ring) = Some w"
    "fst (take_completed 7 (ring w)) = Inr \<lparr>vec_ptr = 16, vec_len = 1\<rparr>" using one_run by blast
  have "io_reach (\<lambda>_ off i. of_nat i + 9) True two_entry_ring w" by (rule io_run_reach [OF w(1) reach_start])
  from uring_reads_stay_owned [OF two_entry_ring_fresh this, where ud = 7] have "\<not> stray w \<and> \<not> overflowed w" by simp
  with w(2) show ?thesis by (intro exI [of _ w]) simp
qed

text \<open>Two reads with one token: the completion of one of them moves the buffer of the first pending request with the token.\<close>

lemma position_append_one:
  "position P xs = None \<Longrightarrow> P x \<Longrightarrow> position P (xs @ [x]) = Some (length xs)"
  by (induction xs) (auto split: if_splits option.splits)

lemma swap_remove_last: "swap_remove (xs @ [x]) (length xs) = xs"
  by (simp add: swap_remove_def)

lemma completion_takes_first_pending:
  assumes inv: "io_inv w" and b: "b < length (inflight w)" "sqe_user_data (inflight w ! b) = t" and empty: "cq_head (ring w) = cq_tail (ring w)"
    and first: "position (\<lambda>q. pr_user_data q = t) (u_pending (ring w)) = Some i"
    and new: "position (\<lambda>(e, _). cqe_user_data e = t) (u_completed (ring w)) = None"
  shows "\<exists>w2 v. call_complete (sys_finish content b res w) = Ret w2 \<and> fst (take_completed t (ring w2)) = Inr v
     \<and> vec_ptr v = vec_ptr (pr_buffer (u_pending (ring w) ! i)) \<and> v \<in> set (caller (call_take t w2))
     \<and> inflight (call_take t w2) = take b (inflight w) @ drop (Suc b) (inflight w) \<and> io_inv (call_take t w2)"
proof -
  let ?e = "\<lparr>cqe_user_data = t, cqe_result = res, cqe_flags = 0\<rparr>" and ?w1 = "sys_finish content b res w"
  note eff = sys_finish_effect [OF inv b(1), of content res, unfolded b(2)]
  have wf: "cq_wf (ring ?w1)" using eff(10) by (simp add: io_inv_def)
  have items: "cq_items (ring ?w1) = [?e]" using eff(1) empty by (simp add: cq_items_def)
  then have ne: "cq_head (ring ?w1) \<noteq> cq_tail (ring ?w1)" by (auto simp: cq_items_def)
  note head = cq_pop [OF wf ne]
  then have e: "cqes (ring ?w1) ! unat (cq_head (ring ?w1) AND cq_mask (ring ?w1)) = ?e" using items by simp
  let ?v = "settle ?e (pr_buffer (u_pending (ring w) ! i))"
  let ?r2 = "(ring ?w1)\<lparr>cq_head := cq_head (ring ?w1) + 1, u_pending := swap_remove (u_pending (ring w)) i,
      u_completed := u_completed (ring w) @ [(?e, ?v)]\<rparr>"
  have run: "call_complete ?w1 = Ret (?w1\<lparr>ring := ?r2\<rparr>)"
    using ne head(1) e first eff(3,4) by (simp add: call_complete_def try_complete_def Let_def)
  have inv2: "io_inv (?w1\<lparr>ring := ?r2\<rparr>)" using io_inv_complete [OF eff(10)] run by simp
  have "position (\<lambda>(e, _). cqe_user_data e = t) (u_completed ?r2) = Some (length (u_completed (ring w)))"
    using position_append_one [OF new] by simp
  then have took: "take_completed t ?r2 = (Inr ?v, ?r2\<lparr>u_completed := u_completed (ring w)\<rparr>)"
    by (simp add: take_completed_def nth_append swap_remove_last)
  show ?thesis
    using run took io_inv_take [OF inv2, of t] eff(5)
    by (intro exI [of _ "?w1\<lparr>ring := ?r2\<rparr>"] exI [of _ ?v]) (simp add: call_take_def)
qed

lemma nth_removed:
  assumes "a < length xs" "b < length xs" "a \<noteq> b"
  shows "\<exists>k < length (take b xs @ drop (Suc b) xs). (take b xs @ drop (Suc b) xs) ! k = xs ! a"
proof (cases "a < b")
  case True
  then show ?thesis using assms by (intro exI [of _ a]) (simp add: nth_append)
next
  case False
  then have "\<not> a - 1 < b" "b < a" "a - 1 < length xs - 1" using assms by linarith+
  then show ?thesis using assms by (intro exI [of _ "a - 1"]) (simp add: nth_append)
qed

text \<open>
  C40: Nothing in the interface keeps a program from submitting two reads with one token, and then the order in which the system finishes
  them decides. In any reachable state with two reads \<open>a\<close> and \<open>b\<close> in flight that have the same token, where the first pending
  request with the token is \<open>a\<close>: when the system finishes \<open>b\<close> first, with any result, the program's next completion and collection hand
  it the buffer of \<open>a\<close>; it may release it, and the system, which still has \<open>a\<close> in flight, then finishes \<open>a\<close>
  by writing to released memory as soon as it has read one byte. Assumed is that no other completion waits in the ring and none with the token is
  uncollected. Nothing is claimed of other orders, or of a program that keeps the buffer.
\<close>

theorem duplicate_token_writes_released_memory:
  assumes reach: "fresh_ring r" "io_reach content False r w"
    and ab: "a < length (inflight w)" "b < length (inflight w)" "a \<noteq> b" "sqe_user_data (inflight w ! b) = t"
    and first: "position (\<lambda>q. pr_user_data q = t) (u_pending (ring w)) = Some i"
      "vec_ptr (pr_buffer (u_pending (ring w) ! i)) = sqe_addr (inflight w ! a)"
    and quiet: "cq_head (ring w) = cq_tail (ring w)" "position (\<lambda>(e, _). cqe_user_data e = t) (u_completed (ring w)) = None"
    and res: "sint res \<le> int (unat (sqe_len (inflight w ! b)))"
  shows "\<exists>w2 v. call_complete (sys_finish content b res w) = Ret w2 \<and> fst (take_completed t (ring w2)) = Inr v
     \<and> vec_ptr v = sqe_addr (inflight w ! a)
     \<and> (let w4 = release_vec v (call_take t w2)
        in io_reach content False r w4 \<and> heap w4 (sqe_addr (inflight w ! a)) = None
          \<and> (\<exists>k < length (inflight w4). inflight w4 ! k = inflight w ! a
              \<and> (\<forall>res'. 0 < sint res' \<longrightarrow> stray (sys_finish content k res' w4))))"
proof -
  have inv: "io_inv w" using io_inv_reach reach by blast
  obtain w2 v where w2: "call_complete (sys_finish content b res w) = Ret w2" "fst (take_completed t (ring w2)) = Inr v"
    "vec_ptr v = sqe_addr (inflight w ! a)" "v \<in> set (caller (call_take t w2))"
    "inflight (call_take t w2) = take b (inflight w) @ drop (Suc b) (inflight w)" "io_inv (call_take t w2)"
    using completion_takes_first_pending [OF inv ab(2,4) quiet(1) first(1) quiet(2), of content res] first(2) by auto
  let ?w3 = "call_take t w2" let ?w4 = "release_vec v ?w3"
  have "io_reach content False r ?w3"
    using reach(2) ab(2) res w2(1) by (meson reach_step step_sys_finish step_complete step_take)
  then have r4: "io_reach content False r ?w4" using w2(4) by (meson reach_step step_release)
  then have inv4: "io_inv ?w4" using io_inv_reach reach(1) by blast
  have fl: "inflight ?w4 = take b (inflight w) @ drop (Suc b) (inflight w)" using w2(5) by (simp add: release_vec_def)
  then obtain k where k: "k < length (inflight ?w4)" "inflight ?w4 ! k = inflight w ! a" using nth_removed [OF ab(1-3)] by metis
  have "sqe_addr (inflight w ! a) \<notin> set (pending_ptrs (ring ?w4))"
    using owners_apart(2) [OF w2(6,4)] w2(3) by (force simp: pending_ptrs_def release_vec_def)
  then have "stray (sys_finish content k res' ?w4)" if "0 < sint res'" for res'
    using sys_finish_effect(9) [OF inv4 k(1), of content res'] k(2) that by (simp add: sys_write_def)
  moreover have "heap ?w4 (sqe_addr (inflight w ! a)) = None" using w2(3) by (simp add: release_vec_def)
  ultimately show ?thesis using w2(1-3) r4 k by (auto simp: Let_def)
qed

lemma dup_run:
  "\<exists>w. io_run c False dup_events (io_start two_entry_ring) = Some w \<and> length (inflight w) = 2
     \<and> position (\<lambda>q. pr_user_data q = 7) (u_pending (ring w)) = Some 0 \<and> vec_ptr (pr_buffer (u_pending (ring w) ! 0)) = 16
     \<and> sqe_addr (inflight w ! 0) = 16 \<and> sqe_user_data (inflight w ! 1) = 7 \<and> sqe_len (inflight w ! 1) = 1
     \<and> cq_head (ring w) = cq_tail (ring w) \<and> u_completed (ring w) = []"
  by (simp add: dup_events_def io_eval word_le_nat_alt)

theorem duplicate_token_writes_released_memory_witness:
  "\<exists>w w2 v. io_run (\<lambda>_ _ _. 5) False dup_events (io_start two_entry_ring) = Some w
     \<and> call_complete (sys_finish (\<lambda>_ _ _. 5) 1 1 w) = Ret w2 \<and> fst (take_completed 7 (ring w2)) = Inr v \<and> vec_ptr v = 16
     \<and> heap (release_vec v (call_take 7 w2)) 16 = None
     \<and> (\<exists>k. inflight (release_vec v (call_take 7 w2)) ! k = inflight w ! 0
          \<and> stray (sys_finish (\<lambda>_ _ _. 5) k 1 (release_vec v (call_take 7 w2))))"
proof -
  obtain w where w: "io_run (\<lambda>_ _ _. 5) False dup_events (io_start two_entry_ring) = Some w" "length (inflight w) = 2"
     "position (\<lambda>q. pr_user_data q = 7) (u_pending (ring w)) = Some 0" "vec_ptr (pr_buffer (u_pending (ring w) ! 0)) = 16"
     "sqe_addr (inflight w ! 0) = 16" "sqe_user_data (inflight w ! 1) = 7" "sqe_len (inflight w ! 1) = 1"
     "cq_head (ring w) = cq_tail (ring w)" "u_completed (ring w) = []" using dup_run by blast
  have "io_reach (\<lambda>_ _ _. 5) False two_entry_ring w" by (rule io_run_reach [OF w(1) reach_start])
  from duplicate_token_writes_released_memory [OF two_entry_ring_fresh this, of 0 1 7 0 1] w obtain w2 v where
    "call_complete (sys_finish (\<lambda>_ _ _. 5) 1 1 w) = Ret w2" "fst (take_completed 7 (ring w2)) = Inr v" "vec_ptr v = 16"
    "heap (release_vec v (call_take 7 w2)) 16 = None"
    "\<exists>k. inflight (release_vec v (call_take 7 w2)) ! k = inflight w ! 0
          \<and> (\<forall>res'. 0 < sint res' \<longrightarrow> stray (sys_finish (\<lambda>_ _ _. 5) k res' (release_vec v (call_take 7 w2))))"
    by (auto simp: Let_def)
  then show ?thesis using w(1) by fastforce
qed

section \<open>Construction and release\<close>

text \<open>
  The answers of \<open>io_uring_setup\<close> that \<open>new\<close> uses: sizes, features and the offsets of the index array and of the
  completion entries (in the field of \<open>cq_off\<close> that the source calls \<open>dropped\<close>).
\<close>

record uring_params =
  prm_sq_entries :: u32
  prm_cq_entries :: u32
  prm_features :: u32
  prm_sq_array :: u32
  prm_cq_cqes :: u32

text \<open>The mappings a ring owns.\<close>

record uring_maps =
  map_fd :: int
  map_sq :: u64
  map_sq_len :: nat
  map_cq :: u64
  map_cq_len :: nat
  map_single :: bool
  map_sqes :: u64
  map_sqes_len :: nat

definition map_failed :: u64 where
  "map_failed = - 1"

text \<open>The system calls, with their answers where they have one.\<close>

datatype sys_call = CallSetup u32 int | CallMmap nat u64 u64 | CallMunmap u64 nat | CallClose int

definition off_sq_ring :: u64 where "off_sq_ring = 0"
definition off_cq_ring :: u64 where "off_cq_ring = 0x8000000"
definition off_sqes :: u64 where "off_sqes = 0x10000000"

definition uring_new ::
  "u32 \<Rightarrow> int \<Rightarrow> uring_params \<Rightarrow> u64 \<Rightarrow> u64 \<Rightarrow> u64 \<Rightarrow> alloc \<Rightarrow> (io_uring_error + uring_maps) \<times> sys_call list" where
  "uring_new entries raw prm sq cq es al =
     (if entries = 0 then (Inl InvalidEntries, [])
      else if raw < 0 then (Inl (Setup (word_of_int (- raw))), [CallSetup entries raw])
      else
        let sq_len = unat (prm_sq_array prm) + unat (prm_sq_entries prm) * 4;
            cq_len = unat (prm_cq_cqes prm) + unat (prm_cq_entries prm) * 16;
            sqes_len = unat (prm_sq_entries prm) * 64;
            single = (prm_features prm AND 1 \<noteq> 0);
            len = (if single then max sq_len cq_len else sq_len);
            cqa = (if single then sq else cq);
            calls = [CallSetup entries raw, CallMmap len off_sq_ring sq]
              @ (if single then [] else [CallMmap cq_len off_cq_ring cq]) @ [CallMmap sqes_len off_sqes es]
        in if sq = map_failed \<or> cqa = map_failed \<or> es = map_failed
           then (Inl (Mmap 12), calls
                  @ (if sq \<noteq> map_failed then [CallMunmap sq len] else [])
                  @ (if \<not> single \<and> cqa \<noteq> map_failed then [CallMunmap cqa cq_len] else [])
                  @ (if es \<noteq> map_failed then [CallMunmap es sqes_len] else []) @ [CallClose raw])
           else if \<not> al 0 \<or> \<not> al 1 then (Inl (Mmap 12), calls)
           else (Inr \<lparr>map_fd = raw, map_sq = sq, map_sq_len = len, map_cq = cqa, map_cq_len = (if single then 0 else cq_len),
                      map_single = single, map_sqes = es, map_sqes_len = sqes_len\<rparr>, calls))"

definition uring_drop :: "uring_maps \<Rightarrow> sys_call list" where
  "uring_drop m =
     [CallMunmap (map_sq m) (map_sq_len m)] @ (if map_single m then [] else [CallMunmap (map_cq m) (map_cq_len m)])
     @ [CallMunmap (map_sqes m) (map_sqes_len m), CallClose (map_fd m)]"

datatype resource = Descriptor int | Mapping u64 nat

text \<open>What is held after a list of calls.\<close>

fun hold :: "resource multiset \<Rightarrow> sys_call list \<Rightarrow> resource multiset" where
  "hold h [] = h"
| "hold h (CallSetup n raw # cs) = hold (if raw < 0 then h else add_mset (Descriptor raw) h) cs"
| "hold h (CallMmap n off a # cs) = hold (if a = map_failed then h else add_mset (Mapping a n) h) cs"
| "hold h (CallMunmap a n # cs) = hold (h - {#Mapping a n#}) cs"
| "hold h (CallClose fd # cs) = hold (h - {#Descriptor fd#}) cs"

text \<open>
  A ring that was built and dropped, or whose construction the system refused, holds nothing. When the reservation of
  its two lists fails, descriptor and mappings are leaked.
\<close>

lemma uring_new_then_drop_holds_nothing:
  assumes "uring_new entries raw prm sq cq es al = (Inr m, calls)"
  shows "hold {#} (calls @ uring_drop m) = {#}"
  using assms by (auto simp: uring_new_def uring_drop_def Let_def split: if_splits)

lemma uring_new_refused_holds_nothing:
  assumes "uring_new entries raw prm sq cq es al = (Inl err, calls)" "al 0" "al 1"
  shows "hold {#} calls = {#}"
  using assms by (auto simp: uring_new_def Let_def split: if_splits)

lemma uring_new_leaks:
  assumes "entries \<noteq> 0" "0 \<le> raw" "sq \<noteq> map_failed" "cq \<noteq> map_failed" "es \<noteq> map_failed" "\<not> al 0 \<or> \<not> al 1"
  shows "\<exists>calls. uring_new entries raw prm sq cq es al = (Inl (Mmap 12), calls) \<and> Descriptor raw \<in># hold {#} calls"
  using assms by (auto simp: uring_new_def Let_def)

text \<open>
  \<open>enter\<close> negates the answer of the \<open>syscall\<close> function of the C library, which reports every failure as \<open>-1\<close>: the error is
  always number 1.
\<close>

lemma uring_enter_reports_one: "uring_enter (- 1) = Inl (Enter 1)"
  by (simp add: uring_enter_def)

end
