(* ===== verification/Iocp.thy ===== *)
theory Iocp
  imports Prelude
begin

text \<open>
  \<open>src/src/platform/windows/iocp.rs\<close>: overlapped reads through a completion port. The port owns the \<open>OVERLAPPED\<close> structure and
  the buffer of a read, keyed by the address of the former, until \<open>complete_read\<close> consumes it. The system is the
  environment: it finishes or fails a read it has accepted at any time, writes the bytes into the buffer and queues a
  completion. A read whose request the port no longer owns is a write to released memory.
\<close>

section \<open>The port\<close>

datatype iocp_error = CreateFailed | PostFailed | OpenFailed u32 | ReadFailed u32 | CompletionFailed u32

record completion =
  cp_bytes :: u32
  cp_key :: u64
  cp_overlapped :: u64

text \<open>\<open>PendingRead\<close>: the key, the zeroed buffer and the two halves of the offset in \<open>OVERLAPPED\<close>.\<close>

record pending_io =
  pi_key :: u64
  pi_buffer :: "u8 list"
  pi_offset :: u32
  pi_offset_high :: u32

type_synonym port = "u64 \<Rightarrow> pending_io option"

definition prepare_read :: "u64 \<Rightarrow> nat \<Rightarrow> u64 \<Rightarrow> iocp_error + pending_io" where
  "prepare_read offset len key =
     (if len > u32_max then Inl (ReadFailed 87)
      else Inr \<lparr>pi_key = key, pi_buffer = replicate len 0, pi_offset = ucast offset,
                pi_offset_high = ucast (drop_bit 32 offset)\<rparr>)"

definition error_io_pending :: u32 where
  "error_io_pending = 997"

text \<open>\<open>read_at\<close> with the address of the new request and the answer of \<open>ReadFile\<close>: success, or an error number.\<close>

definition read_at :: "u64 \<Rightarrow> bool \<times> u32 \<Rightarrow> u64 \<Rightarrow> nat \<Rightarrow> u64 \<Rightarrow> port \<Rightarrow> (iocp_error + u64) \<times> port" where
  "read_at overlapped answer offset len key p =
     (case prepare_read offset len key of
        Inl e \<Rightarrow> (Inl e, p)
      | Inr r \<Rightarrow> (case answer of (ok, code) \<Rightarrow>
          if \<not> ok \<and> code \<noteq> error_io_pending then (Inl (ReadFailed code), p)
          else (Inr overlapped, p(overlapped \<mapsto> r))))"

text \<open>\<open>finish\<close> with the answer of \<open>GetOverlappedResult\<close>: success, bytes transferred, error number.\<close>

definition finish_read :: "bool \<times> nat \<times> u32 \<Rightarrow> pending_io \<Rightarrow> iocp_error + u8 list" where
  "finish_read answer r =
     (case answer of (ok, transferred, code) \<Rightarrow>
        if ok then Inr (take transferred (pi_buffer r)) else Inl (CompletionFailed code))"

definition complete_read :: "bool \<times> nat \<times> u32 \<Rightarrow> u64 \<Rightarrow> port \<Rightarrow> (iocp_error + u8 list) \<times> port" where
  "complete_read answer overlapped p =
     (case p overlapped of
        None \<Rightarrow> (Inl (CompletionFailed 6), p)
      | Some r \<Rightarrow> (finish_read answer r, p(overlapped := None)))"

text \<open>\<open>poll\<close> with the answer of \<open>GetQueuedCompletionStatus\<close>; a completion of a failed read has \<open>ok = False\<close>.\<close>

definition port_poll :: "bool \<times> completion \<Rightarrow> completion option" where
  "port_poll answer = (case answer of (ok, c) \<Rightarrow> if ok \<and> cp_overlapped c \<noteq> 0 then Some c else None)"

section \<open>The port and the system\<close>

datatype read_state = Active u64 nat | Finished nat | Broken u32

text \<open>
  \<open>ops\<close>: the reads the system knows, by the address of their structure; \<open>queue\<close>: the completions not yet polled; \<open>told\<close>: the reads
  whose completion \<open>poll\<close> has returned; \<open>bad_write\<close>: the system wrote into a request that is released. \<open>from_offset\<close> is a
  history variable, the offset of the last read at an address.
\<close>

record port_world =
  port :: port
  ops :: "u64 \<Rightarrow> read_state option"
  queue :: "(bool \<times> completion) list"
  told :: "u64 set"
  bad_write :: bool
  from_offset :: "u64 \<Rightarrow> u64"

text \<open>What \<open>GetOverlappedResult\<close> answers without waiting; 996 is \<open>ERROR_IO_INCOMPLETE\<close>.\<close>

fun overlapped_result :: "read_state option \<Rightarrow> bool \<times> nat \<times> u32" where
  "overlapped_result (Some (Finished n)) = (True, n, 0)"
| "overlapped_result (Some (Broken c)) = (False, 0, c)"
| "overlapped_result _ = (False, 0, 996)"

definition start_read :: "u64 \<Rightarrow> u64 \<Rightarrow> nat \<Rightarrow> u64 \<Rightarrow> port_world \<Rightarrow> port_world" where
  "start_read ov offset len key w =
     (case read_at ov (False, error_io_pending) offset len key (port w) of
        (Inl _, p) \<Rightarrow> w\<lparr>port := p\<rparr>
      | (Inr _, p) \<Rightarrow> w\<lparr>port := p, ops := (ops w)(ov \<mapsto> Active offset len), told := told w - {ov},
                        from_offset := (from_offset w)(ov := offset)\<rparr>)"

definition collect_read :: "u64 \<Rightarrow> port_world \<Rightarrow> port_world" where
  "collect_read ov w =
     w\<lparr>port := snd (complete_read (overlapped_result (ops w ov)) ov (port w)), told := told w - {ov}\<rparr>"

text \<open>The system delivers a prefix of the requested bytes, or fails the read, and queues a completion with the key of the file.\<close>

definition sys_deliver :: "(u64 \<Rightarrow> nat \<Rightarrow> u8) \<Rightarrow> u64 \<Rightarrow> u64 \<Rightarrow> nat \<Rightarrow> u64 \<Rightarrow> port_world \<Rightarrow> port_world" where
  "sys_deliver content ov offset n ck w =
     (let bytes = map (content offset) [0..<n]
      in w\<lparr>ops := (ops w)(ov \<mapsto> Finished n),
           port := (case port w ov of None \<Rightarrow> port w
                    | Some r \<Rightarrow> (port w)(ov \<mapsto> r\<lparr>pi_buffer := bytes @ drop n (pi_buffer r)\<rparr>)),
           bad_write := (bad_write w \<or> port w ov = None),
           queue := queue w @ [(True, \<lparr>cp_bytes = of_nat n, cp_key = ck, cp_overlapped = ov\<rparr>)]\<rparr>)"

definition sys_break :: "u64 \<Rightarrow> u32 \<Rightarrow> u64 \<Rightarrow> port_world \<Rightarrow> port_world" where
  "sys_break ov code ck w =
     w\<lparr>ops := (ops w)(ov \<mapsto> Broken code), queue := queue w @ [(False, \<lparr>cp_bytes = 0, cp_key = ck, cp_overlapped = ov\<rparr>)]\<rparr>"

definition poll_step :: "port_world \<Rightarrow> port_world" where
  "poll_step w =
     (case queue w of [] \<Rightarrow> w
      | a # rest \<Rightarrow> w\<lparr>queue := rest, told := (case port_poll a of None \<Rightarrow> told w | Some c \<Rightarrow> insert (cp_overlapped c) (told w))\<rparr>)"

text \<open>
  An address is fresh when no request and no active or reported operation is there. With \<open>careful\<close> the program collects a read only after
  \<open>poll\<close> has returned its completion.
\<close>

definition fresh_address :: "u64 \<Rightarrow> port_world \<Rightarrow> bool" where
  "fresh_address ov w \<longleftrightarrow> ov \<noteq> 0 \<and> port w ov = None \<and> (\<forall>a \<in> set (queue w). cp_overlapped (snd a) \<noteq> ov)"

inductive port_step :: "(u64 \<Rightarrow> nat \<Rightarrow> u8) \<Rightarrow> bool \<Rightarrow> port_world \<Rightarrow> port_world \<Rightarrow> bool" for content careful where
  step_start: "fresh_address ov w \<Longrightarrow> port_step content careful w (start_read ov offset n key w)"
| step_collect: "careful \<longrightarrow> ov \<in> told w \<Longrightarrow> port_step content careful w (collect_read ov w)"
| step_poll: "port_step content careful w (poll_step w)"
| step_deliver: "ops w ov = Some (Active offset len) \<Longrightarrow> n \<le> len \<Longrightarrow> port_step content careful w (sys_deliver content ov offset n ck w)"
| step_break: "ops w ov = Some (Active offset len) \<Longrightarrow> port_step content careful w (sys_break ov code ck w)"

definition port_start :: port_world where
  "port_start = \<lparr>port = (\<lambda>_. None), ops = (\<lambda>_. None), queue = [], told = {}, bad_write = False, from_offset = (\<lambda>_. 0)\<rparr>"

inductive port_reach :: "(u64 \<Rightarrow> nat \<Rightarrow> u8) \<Rightarrow> bool \<Rightarrow> port_world \<Rightarrow> bool" for content careful where
  reach_start: "port_reach content careful port_start"
| reach_step: "port_reach content careful w \<Longrightarrow> port_step content careful w w' \<Longrightarrow> port_reach content careful w'"

section \<open>A program that waits for its completions\<close>

definition queued :: "port_world \<Rightarrow> u64 list" where
  "queued w = map (cp_overlapped \<circ> snd) (queue w)"

text \<open>The read at an address is finished and its buffer holds the delivered bytes.\<close>

definition filled :: "(u64 \<Rightarrow> nat \<Rightarrow> u8) \<Rightarrow> port_world \<Rightarrow> u64 \<Rightarrow> bool" where
  "filled content w ov \<longleftrightarrow> (\<exists>n r. ops w ov = Some (Finished n) \<and> port w ov = Some r \<and> n \<le> length (pi_buffer r)
     \<and> take n (pi_buffer r) = map (content (from_offset w ov)) [0..<n])"

definition port_inv :: "(u64 \<Rightarrow> nat \<Rightarrow> u8) \<Rightarrow> port_world \<Rightarrow> bool" where
  "port_inv content w \<longleftrightarrow> \<not> bad_write w \<and> distinct (queued w) \<and> told w \<inter> set (queued w) = {}
     \<and> (\<forall>ov offset len. ops w ov = Some (Active offset len) \<longrightarrow>
          (\<exists>r. port w ov = Some r \<and> length (pi_buffer r) = len) \<and> from_offset w ov = offset \<and> ov \<notin> told w \<and> ov \<notin> set (queued w))
     \<and> (\<forall>ov \<in> told w. filled content w ov)
     \<and> (\<forall>(ok, c) \<in> set (queue w). ok \<longrightarrow> filled content w (cp_overlapped c))"

lemma port_inv_active:
  assumes "port_inv content w" "ops w ov = Some (Active offset len)"
  obtains r where "port w ov = Some r" "length (pi_buffer r) = len" "from_offset w ov = offset" "ov \<notin> told w" "ov \<notin> set (queued w)"
proof -
  have "(\<exists>r. port w ov = Some r \<and> length (pi_buffer r) = len) \<and> from_offset w ov = offset \<and> ov \<notin> told w \<and> ov \<notin> set (queued w)"
    using assms unfolding port_inv_def by blast
  then show ?thesis using that by blast
qed

lemma filled_frame:
  "filled content w a \<Longrightarrow> ops w' a = ops w a \<Longrightarrow> port w' a = port w a \<Longrightarrow> from_offset w' a = from_offset w a
    \<Longrightarrow> filled content w' a"
  by (simp add: filled_def)

text \<open>A step that touches one address, at which nothing is told or queued.\<close>

lemma port_inv_at:
  assumes inv: "port_inv content w" and apart: "ov \<notin> told w" "ov \<notin> set (queued w)"
    and same: "\<And>a. a \<noteq> ov \<Longrightarrow> ops w' a = ops w a \<and> port w' a = port w a \<and> from_offset w' a = from_offset w a"
    and q: "queue w' = queue w @ new" "told w' = told w" "bad_write w' = bad_write w"
    and new: "new = [] \<or> (\<exists>ok c. new = [(ok, c)] \<and> cp_overlapped c = ov \<and> (ok \<longrightarrow> filled content w' ov))"
    and act: "\<And>offset len. ops w' ov = Some (Active offset len) \<Longrightarrow>
      new = [] \<and> (\<exists>r. port w' ov = Some r \<and> length (pi_buffer r) = len) \<and> from_offset w' ov = offset"
  shows "port_inv content w'"
proof -
  have fill: "filled content w' a" if "filled content w a" "a \<noteq> ov" for a
    using filled_frame [OF that(1)] same [OF that(2)] by simp
  have qs: "queued w' = queued w @ map (cp_overlapped \<circ> snd) new" using q by (simp add: queued_def)
  have "distinct (queued w')" "told w' \<inter> set (queued w') = {}"
    using inv apart new q(2) unfolding qs by (auto simp: port_inv_def)
  moreover have "(\<exists>r. port w' a = Some r \<and> length (pi_buffer r) = len) \<and> from_offset w' a = offset \<and> a \<notin> told w' \<and> a \<notin> set (queued w')"
    if "ops w' a = Some (Active offset len)" for a offset len
  proof (cases "a = ov")
    case True
    then show ?thesis using that act apart q(2) unfolding qs by auto
  next
    case False
    then have "ops w a = Some (Active offset len)" using that same by simp
    then show ?thesis using inv same [OF False] new False q(2) unfolding qs by (fastforce simp: port_inv_def)
  qed
  moreover have "filled content w' a" if "a \<in> told w'" for a
    using that inv fill apart q(2) by (cases "a = ov") (auto simp: port_inv_def)
  moreover have "filled content w' (cp_overlapped c)" if "(True, c) \<in> set (queue w')" for c
  proof (cases "(True, c) \<in> set (queue w)")
    case True
    moreover have "cp_overlapped c \<noteq> ov" using True apart(2) by (force simp: queued_def)
    ultimately show ?thesis using inv fill by (auto simp: port_inv_def)
  next
    case False
    then show ?thesis using that new q(1) by auto
  qed
  ultimately show ?thesis using inv q(3) by (auto simp: port_inv_def)
qed

lemma port_inv_step: "port_step content True w w' \<Longrightarrow> port_inv content w \<Longrightarrow> port_inv content w'"
proof (induction rule: port_step.induct)
  case (step_start ov w offset n key)
  have apart: "ov \<notin> set (queued w)" "ov \<notin> told w"
    using step_start by (auto simp: fresh_address_def queued_def port_inv_def filled_def)
  show ?case
  proof (cases "n \<le> u32_max")
    case True
    show ?thesis
      by (rule port_inv_at [OF step_start(2) apart(2,1), of _ "[]"])
        (use True apart in \<open>auto simp: start_read_def read_at_def prepare_read_def error_io_pending_def\<close>)
  next
    case False
    then show ?thesis using step_start(2) by (simp add: start_read_def read_at_def prepare_read_def)
  qed
next
  case (step_collect ov w)
  then have told: "ov \<in> told w" by simp
  then have q: "ov \<notin> set (queued w)" "\<forall>offset len. ops w ov \<noteq> Some (Active offset len)"
    using step_collect(2) by (auto simp: port_inv_def)
  have other: "filled content (collect_read ov w) a" if "filled content w a" "a \<noteq> ov" for a
    using that by (auto simp: filled_def collect_read_def complete_read_def split: option.split)
  have p: "port (collect_read ov w) a = port w a" if "a \<noteq> ov" for a
    using that by (simp add: collect_read_def complete_read_def split: option.split)
  have f: "queue (collect_read ov w) = queue w" "told (collect_read ov w) = told w - {ov}" "ops (collect_read ov w) = ops w"
    "bad_write (collect_read ov w) = bad_write w" "from_offset (collect_read ov w) = from_offset w"
    by (simp_all add: collect_read_def)
  let ?w = "collect_read ov w"
  note i = step_collect(2) [unfolded port_inv_def]
  have "queued ?w = queued w" using f(1) by (simp add: queued_def)
  then have "\<not> bad_write ?w \<and> distinct (queued ?w) \<and> told ?w \<inter> set (queued ?w) = {}" using i unfolding f by auto
  moreover have "(\<exists>r. port ?w a = Some r \<and> length (pi_buffer r) = len) \<and> from_offset ?w a = offset \<and> a \<notin> told ?w \<and> a \<notin> set (queued ?w)"
    if "ops ?w a = Some (Active offset len)" for a offset len
  proof -
    have "a \<noteq> ov" "ops w a = Some (Active offset len)" using that q(2) unfolding f by auto
    then show ?thesis using port_inv_active [OF step_collect(2)] p [of a] f \<open>queued ?w = queued w\<close> by (metis DiffD1)
  qed
  moreover have "\<forall>a \<in> told ?w. filled content ?w a" using i other unfolding f by blast
  moreover have "filled content ?w (cp_overlapped c)" if "(ok, c) \<in> set (queue ?w)" ok for ok c
  proof -
    have "(ok, c) \<in> set (queue w)" using that(1) unfolding f .
    moreover from this have "cp_overlapped c \<noteq> ov" using q(1) by (force simp: queued_def)
    ultimately show ?thesis using i other that(2) by blast
  qed
  ultimately show ?case unfolding port_inv_def by blast
next
  case (step_poll w)
  show ?case
  proof (cases "queue w")
    case Nil
    then show ?thesis using step_poll by (simp add: poll_step_def)
  next
    case (Cons x rest)
    obtain ok c where x: "x = (ok, c)" by (cases x)
    have same: "filled content (poll_step w) = filled content w"
      by (simp add: fun_eq_iff filled_def poll_step_def split: list.split)
    have f: "queue (poll_step w) = rest" "ops (poll_step w) = ops w" "port (poll_step w) = port w" "bad_write (poll_step w) = bad_write w"
      "from_offset (poll_step w) = from_offset w"
      "told (poll_step w) = told w \<or> ok \<and> told (poll_step w) = insert (cp_overlapped c) (told w)"
      using Cons x by (auto simp: poll_step_def port_poll_def)
    have "queued w = cp_overlapped c # queued (poll_step w)" using Cons x f(1) by (simp add: queued_def)
    moreover have "set (queue w) = insert (ok, c) (set rest)" using Cons x by simp
    ultimately show ?thesis
      using step_poll f(6) unfolding port_inv_def same f(1-5) by (elim disjE) force+
  qed
next
  case (step_deliver w ov offset len n ck)
  obtain r where r: "port w ov = Some r" "length (pi_buffer r) = len" "from_offset w ov = offset" "ov \<notin> told w" "ov \<notin> set (queued w)"
    using port_inv_active [OF step_deliver(3,1)] by blast
  show ?case
    by (rule port_inv_at [OF step_deliver(3) r(4,5), of _ "[(True, \<lparr>cp_bytes = of_nat n, cp_key = ck, cp_overlapped = ov\<rparr>)]"])
      (use r step_deliver(2) in \<open>auto simp: sys_deliver_def Let_def filled_def\<close>)
next
  case (step_break w ov offset len code ck)
  obtain r where r: "ov \<notin> told w" "ov \<notin> set (queued w)"
    using port_inv_active [OF step_break(2,1)] by blast
  show ?case
    by (rule port_inv_at [OF step_break(2) r, of _ "[(False, \<lparr>cp_bytes = 0, cp_key = ck, cp_overlapped = ov\<rparr>)]"])
      (auto simp: sys_break_def)
qed

lemma port_inv_reach: "port_reach content True w \<Longrightarrow> port_inv content w"
proof (induction rule: port_reach.induct)
  case reach_start
  show ?case by (simp add: port_inv_def port_start_def queued_def)
next
  case (reach_step w w')
  then show ?case using port_inv_step by blast
qed

text \<open>
  A program that collects a read only after \<open>poll\<close> has returned its completion never makes the system write to released memory, and
  every read it collects returns the bytes that were read.
\<close>

theorem waiting_program_is_safe:
  assumes "port_reach content True w"
  shows "\<not> bad_write w \<and> (\<forall>ov \<in> told w. \<exists>n. ops w ov = Some (Finished n)
    \<and> fst (complete_read (overlapped_result (ops w ov)) ov (port w)) = Inr (map (content (from_offset w ov)) [0..<n]))"
  using port_inv_reach [OF assms] by (auto simp: port_inv_def filled_def complete_read_def finish_read_def)

section \<open>What the interface does not prevent\<close>

text \<open>
  \<open>complete_read\<close> of a read that is still active fails, but releases the structure and the buffer the system is writing to.
\<close>

theorem early_collect_releases_active_read:
  "\<exists>w. port_reach content False w \<and> bad_write w"
proof -
  let ?w1 = "start_read 16 0 4 0 port_start"
  let ?w2 = "collect_read 16 ?w1"
  have 1: "port_reach content False ?w1"
    by (rule port_reach.reach_step [OF port_reach.reach_start step_start]) (simp add: fresh_address_def port_start_def)
  have 2: "port_reach content False ?w2" by (rule port_reach.reach_step [OF 1 step_collect]) simp
  have op: "ops ?w2 16 = Some (Active 0 4)" "port ?w2 16 = None"
    by (simp_all add: collect_read_def start_read_def read_at_def prepare_read_def u32_max_def complete_read_def error_io_pending_def)
  then have "port_reach content False (sys_deliver content 16 0 4 0 ?w2)"
    by (intro port_reach.reach_step [OF 2 step_deliver]) auto
  moreover have "bad_write (sys_deliver content 16 0 4 0 ?w2)" using op(2) by (simp add: sys_deliver_def Let_def)
  ultimately show ?thesis by blast
qed

text \<open>
  \<open>poll\<close> answers the completion of a failed read like an empty queue, so the program never learns that the read is over and the request stays with the port.
\<close>

lemma failed_read_is_not_reported:
  "queue w = (False, c) # rest \<Longrightarrow> port_poll (hd (queue w)) = None \<and> told (poll_step w) = told w \<and> port (poll_step w) = port w"
  by (simp add: port_poll_def poll_step_def)

end
