(* ===== verification/Spec2Isabelle.thy ===== *)
theory Spec2Isabelle
  imports Demo Spsc_Concurrent Mpsc_Concurrent Replicator Render_Sync Gpu_Policy Renderer_3d Sim_Drivers Ui_Driver Thread_Pool Renderer_Driver Io_Uring Iocp
begin

text \<open>
  A verification library for the game engine kit under \<open>src/\<close>: a small kernel (entities and components,
  message bus, scheduler, allocators, tracer, replication), the drivers that run on it (window, input,
  scripting, physics, audio, renderer, retained UI) and the platform layer (thread pool, asynchronous reads, presentation).

  \<^bold>\<open>The program.\<close> The kernel owns a world of entities, a message bus and a set of drivers. \<open>Kernel::init\<close> sorts the
  drivers by their declared dependencies, reserves an inbox and the declared routes for each and calls their \<open>init\<close>.
  A frame calls \<open>tick\<close> of every driver in that order. A driver sees only the context: it receives from its inbox,
  sends along declared routes, allocates from the frame arena and records structural commands, which the kernel
  applies to the world after the frame. Messages sent in a frame are in the receiver's inbox as soon as the bus
  dispatches them. \<open>Kernel::shutdown\<close> calls the drivers in reverse. The input driver sends the input of a frame to physics,
  scripting and the UI; the UI lays out and paints its tree and sends a packet to the renderer; the renderer extracts
  the world, merges the packet and hands both to the headless backend or to the presentation engine. The replicator
  logs, sends and receives packets beside the frame loop; the thread pool and the ring buffers are shared between threads.

  \<^bold>\<open>Conventions.\<close>
  \<^item> A call has an outcome of type \<open>run\<close>: \<open>Ret\<close> a value, \<open>Panic\<close>, \<open>UB\<close> (a precondition of an unsafe block is violated) or
    \<open>Diverges\<close> (a loop that never ends). An error of the source is a value of its own error type. Statements of
    the form ``returns'' therefore exclude panics, undefined behaviour and endless loops.
  \<^item> Machine integers are words where they wrap, and naturals with the bound written out where the source
    checks or saturates. Overflow of unchecked arithmetic panics, as in a build with debug assertions.
  \<^item> Fallible reservations (\<open>try_reserve\<close>) take the allocator's answer as an argument; the theorems
    hold for every answer.
  \<^item> In the UI an \<open>f32\<close> is exact (\<open>Float32\<close>): finite values are integer multiples of the smallest subnormal
    and every operation rounds once, to nearest even, with overflow to infinity; the two zeros are identified. In the
    renderer an \<open>f32\<close> that is only copied is its bit pattern. Where a UI value is written as bytes the bit pattern
    of an \<open>f32\<close> is the parameter \<open>bits\<close>.
  \<^item> \<open>to_ne_bytes\<close> is little-endian. HMAC-SHA256, the socket, the clock, the graphics driver and the hash of a thread
    identifier are outside the repository: they are parameters, with no assumption except where a theorem states one.
  \<^item> \<open>dyn Any\<close> payloads of messages are one datatype and \<open>downcast_ref\<close> is a match on it; component types
    are numbers and component values share one type, each storage keeping the tag of its type.

  \<^bold>\<open>Kernel.\<close>
  \<^item> \<open>Prelude\<close>: outcomes, \<open>Vec\<close> operations, word lemmas, shared simplification rules.
  \<^item> \<open>Bitset\<close>, \<open>Entities\<close>, \<open>Storage\<close>, \<open>World\<close> (\<open>src/src/kernel/ecs/\<close>): the dense bitset and the loop over its set
    bits; the entity table with a free list and generations; the sparse set; the world with its queries. Invariants
    of each are kept by every operation. \<open>component_store\<close> is the contract of a storage, interpreted on the sparse set; the
    world refines a specification with a set of live handles and one map per component type; queries visit exactly
    the matching entities, once, in slot order; a destroyed handle stays dead for the \<open>2^32\<close> reuses before
    its generation wraps.
  \<^item> \<open>Deferred\<close> (\<open>deferred.rs\<close>): the bounded buffer of structural commands and \<open>apply\<close>.
  \<^item> \<open>Ring\<close>, \<open>Bus\<close> (\<open>bus.rs\<close>): the SPSC and MPSC rings as bounded queues (locale \<open>bounded_queue\<close>, interpreted on both),
    routing and inboxes. \<open>Spsc_Concurrent\<close> and \<open>Mpsc_Concurrent\<close> split \<open>push\<close> and \<open>pop\<close> at every atomic access
    and prove FIFO order and the absence of misread slots for every interleaving under sequential consistency.
  \<^item> \<open>Memory\<close> (\<open>mem/arena.rs\<close>, \<open>mem/pool.rs\<close>, \<open>kernel_nostd/lib.rs\<close>): bump arena, generational pool, freestanding allocator.
  \<^item> \<open>Schedule\<close> (\<open>scheduler.rs\<close>, \<open>subsystem.rs\<close>): the depth-first topological sort, which returns an order exactly on
    acyclic graphs and otherwise a real cycle, and the waves of drivers without conflicting accesses.
  \<^item> \<open>Context\<close>, \<open>Kernel\<close> (\<open>context.rs\<close>, \<open>registry.rs\<close>, \<open>scheduler.rs\<close>): what a driver can call, registration, \<open>init\<close>,
    \<open>run_until\<close> and \<open>shutdown\<close>. The locale \<open>driver\<close> is what the kernel relies on: callbacks that return, keep the
    driver's invariant and send only along its routes. It is interpreted on the drivers of \<open>Demo\<close>
    (\<open>hello.rs\<close>, \<open>tock.rs\<close>), \<open>Sim_Drivers\<close> and \<open>Renderer_Driver\<close>.
  \<^item> \<open>Tracer\<close> (\<open>trace/frame_tracer.rs\<close>, \<open>trace/contention.rs\<close>): samples, contention counters.
  \<^item> \<open>Wire\<close>, \<open>Wal\<close>, \<open>Replicator\<close> (\<open>sync.rs\<close>): the packet codec and its inverse, the checksum, authentication,
    the write-ahead log with a crash in the middle of a write, the queue with retries and the receiver.

  \<^bold>\<open>Drivers.\<close>
  \<^item> \<open>Messages\<close> (\<open>subsystems/messages.rs\<close>): the payloads. \<open>Input\<close>, \<open>Scripting\<close>, \<open>Sim_Drivers\<close> (\<open>input.rs\<close>, \<open>scripting.rs\<close>,
    \<open>window.rs\<close>, \<open>physics.rs\<close>, \<open>audio.rs\<close>): input snapshots and frames, the bounded stack machine with the compilation of expressions, and
    the ticks of the small drivers, up to the path of an input frame from the input driver to physics.
  \<^item> \<open>Ui_Content\<close>, \<open>Ui_Tree\<close>, \<open>Forest\<close>, \<open>Ui_Tree_Inv\<close> (\<open>ui/id.rs\<close>, \<open>budget.rs\<close>, \<open>components.rs\<close>, \<open>tree.rs\<close>): values, quotas and
    the retained tree. \<open>Forest\<close> is the abstract theory of parent and child links; the invariant says that
    the slots represent one such tree, so that the loops of the source end.
  \<^item> \<open>Ui_Commands\<close>, \<open>Ui_Layout\<close>, \<open>Ui_Resources\<close>, \<open>Ui_Paint\<close>, \<open>Ui_Frame\<close>, \<open>Ui_Driver\<close> (\<open>ui/commands.rs\<close>, \<open>input.rs\<close>, \<open>layout.rs\<close>, \<open>resources.rs\<close>,
    \<open>text.rs\<close>, \<open>paint.rs\<close>, \<open>mod.rs\<close>): deferred mutations, hit testing, layout, glyph atlas, painting, batching, dirty
    ranges and the whole tick. \<open>Batching\<close> holds the reference definition of maximal runs, used by the UI and the renderer, and the
    contract of a sort by key (locale \<open>key_sorter\<close>).
  \<^item> \<open>Render_Frame\<close>, \<open>Render_Sync\<close>, \<open>Gpu_Policy\<close>, \<open>Renderer_3d\<close>, \<open>Renderer_Driver\<close> (\<open>renderer.rs\<close>, \<open>renderer_3d.rs\<close>, \<open>gpu_pipeline.rs\<close>,
    \<open>platform/vulkan_policy.rs\<close>, \<open>platform/world_upload.rs\<close>): extraction, batching, encoding, the frame protocol, device selection
    (locale \<open>key_order\<close>), mesh and material tables (locale \<open>handle_table\<close>, interpreted on both) and the driver.

  \<^bold>\<open>Platform.\<close>
  \<^item> \<open>Thread_Pool\<close> (\<open>platform/thread_pool.rs\<close>): workers, callers and the dropping thread as an inductive step relation whose
    steps are the stretches between lock operations and condition-variable waits, spurious wake-ups included.
  \<^item> \<open>Present\<close> (\<open>platform/linux/present.rs\<close>, \<open>swapchain.rs\<close>): surface configuration, device choice, life cycle of the
    swapchain, uploads and \<open>present_frame\<close> as the list of driver calls it makes, under every sequence of driver answers.

  \<^item> \<open>Io_Uring\<close> (\<open>platform/linux/io_uring.rs\<close>) and \<open>Iocp\<close> (\<open>platform/windows/iocp.rs\<close>): asynchronous reads, with the operating system as
    a step relation that takes, finishes and fails reads at any time and writes into their buffers. \<open>fresh_ring\<close> is what
    \<open>io_uring_setup\<close> documents: powers of two, masks, equal indices.

  \<^bold>\<open>Properties.\<close> Of the forty properties, C1 to C7 are about the world and the queues, C8 to C13 about planning, memory and
  the kernel's life cycle, C14 to C19 about replication, C20 to C23, C29 and C30 about the UI, C24 to C26 and C35 to C38 about rendering
  and presentation, C27, C28 and C31 about scripting and input, C32 to C34 about the thread pool, C39 and C40 about asynchronous
  reads. Most say that the code does what it means to. C16, C34, C36, C38 and C40 establish behaviour that the surrounding
  code or its comments do not intend: records appended behind a torn write, which are lost or make the log unreadable, a lost wake-up, a swapchain used after
  its destruction, a fence that nobody signals, and a buffer released while the system still writes to it. C19 includes the bound on
  records, which appending does not check and replay does. Each of these states under which conditions it happens. Other deviations are
  lemmas of their theories, such as a depth limit of the UI tree that moving a subtree can pass.

  \<^bold>\<open>Loops, fuel and bounds.\<close> Loops over lists are structural recursion. The bit loop of \<open>Bitset\<close>, the loops that form batches and dirty
  ranges, the depth loop of the tree and the replay of the log have measures. Three walks over the links of the UI tree, which are endless in
  some states, are \<open>partial_function\<close> over options; a spin loop that nobody ends has the outcome \<open>Diverges\<close>. Both are proved not to happen
  in the states of the invariants. \<open>visit\<close> of the topological sort and \<open>collect_subtree\<close> of the UI tree have fuel; it
  is proved sufficient because each level of the first colours a new node and a tree has no more nodes than slots. \<open>run_until\<close> takes the permitted number of frames and is
  proved to use exactly that many. For the thread pool \<open>pool_measure\<close> decreases with every step of a thread; only new calls and spurious
  wake-ups are not steps of a thread. The numeric bounds are those of the source: \<open>4096\<close> items of the renderer, the quotas of the UI budget, the
  payload bound of packets, the \<open>2^32\<close> generations of handles, 64-bit ring counters and 32-bit counters of the rings shared with the system.

  \<^bold>\<open>Not modelled.\<close>
  \<^item> \<open>platform/linux/vulkan.rs\<close> and \<open>platform/windows/vulkan.rs\<close>, apart from the functions of the former that \<open>Present\<close> names: declarations of the C
    interface, its structures, and one driver call per function. There is no logic to state without a model of the driver.
  \<^item> \<open>platform/windows/present.rs\<close> and \<open>swapchain.rs\<close>: the Linux files with other handles; the native windows
    (\<open>x11.rs\<close>, \<open>windows/window.rs\<close>), system calls, dynamic loading, threads, time and processor queries: foreign
    calls with no state of their own beyond handles.
  \<^item> \<open>build\<close> of the presentation engine (one creation call after the other), and what pipelines and buffers contain:
    each creation is one answer of the driver.
  \<^item> Of \<open>iocp.rs\<close> the opening of files and ports and \<open>post\<close>, one call of the system each, and the waits of \<open>Drop\<close>.
  \<^item> \<open>native_accel.rs\<close>: calls into C and assembly files.
  \<^item> Weak memory: the interleavings are sequentially consistent, so the acquire and release annotations of the rings are
    not exercised. The parallel executor of the scheduler, which runs a wave on the pool, is covered by the independence of waves and the
    pool's own properties, not by a combined model.
  \<^item> The frame limiter's sleep, printing, \<open>Drop\<close> and \<open>Debug\<close> implementations other than those named above, tests, benchmarks, fuzz targets,
    examples, the binary's \<open>main\<close> and the build script.
\<close>

end
